(* ===== verification/Nid_Prelude.thy ===== *)
theory Nid_Prelude
  imports Main "HOL-Library.Word" "HOL-Library.Monad_Syntax" "HOL-Library.Multiset"
begin

text \<open>
  Shared vocabulary of the development: the C integer types, the C \<open>assert\<close> and pointer
  dereference as partial steps of the option monad (\<open>None\<close> is an abort: a failed
  \<open>assert\<close>, a null or dangling pointer), the compiler built-ins that the sources call,
  and the generic lemmas on words, lists and cardinalities the components share.
\<close>

unbundle bit_operations_syntax

type_synonym u8 = "8 word"
type_synonym u16 = "16 word"
type_synonym u32 = "32 word"
type_synonym u64 = "64 word"

named_theorems nid_defs \<open>definitions of small operations, unfolded in component proofs\<close>
named_theorems nid_frame \<open>which fields an operation leaves alone\<close>

section \<open>Partial steps\<close>

definition c_assert :: "bool \<Rightarrow> unit option" where
  "c_assert b = (if b then Some () else None)"

lemma c_assert_simps [simp]: "c_assert True = Some ()" "c_assert False = None"
  by (simp_all add: c_assert_def)

lemma c_assert_bind_Some [simp]:
  "(c_assert b \<bind> f) = Some r \<longleftrightarrow> b \<and> f () = Some r"
  by (simp add: c_assert_def)

lemma c_assert_eq_Some [simp]: "c_assert b = Some u \<longleftrightarrow> b"
  by (simp add: c_assert_def)

lemma c_assert_bind_True [simp]: "b \<Longrightarrow> (c_assert b \<bind> f) = f ()"
  by simp

section \<open>Compiler built-ins\<close>

text \<open>
  \<open>__builtin_clzll\<close> counts the zero bits above the highest set bit, \<open>__builtin_ffsll\<close> is one
  more than the index of the lowest set bit, or zero.
\<close>

definition builtin_clzll :: "u64 \<Rightarrow> nat" where
  "builtin_clzll w = length (takeWhile (\<lambda>i. \<not> bit w i) (rev [0..<64]))"

definition builtin_ffsll :: "u64 \<Rightarrow> nat" where
  "builtin_ffsll w = (if w = 0 then 0 else Suc (length (takeWhile (\<lambda>i. \<not> bit w i) [0..<64])))"

lemma word64_nonzero_bit: "(w::u64) \<noteq> 0 \<longleftrightarrow> (\<exists>i<64. bit w i)"
proof
  assume "w \<noteq> 0"
  then obtain i where "bit w i" by (metis bit_eqI bit_0_eq bot_apply bot_bool_def)
  moreover have "i < 64" using \<open>bit w i\<close> bit_imp_le_length[of w i] by simp
  ultimately show "\<exists>i<64. bit w i" by blast
qed auto

lemma takeWhile_length_nth:
  assumes "\<exists>x\<in>set xs. \<not> P x"
  shows "length (takeWhile P xs) < length xs \<and> \<not> P (xs ! length (takeWhile P xs))"
  using assms
proof (induction xs)
  case (Cons x xs)
  then show ?case by (cases "P x") auto
qed simp

lemma clzll_highest:
  assumes "(w::u64) \<noteq> 0"
  shows "64 - builtin_clzll w - 1 < 64" "bit w (64 - builtin_clzll w - 1)"
    "\<And>i. i < 64 \<Longrightarrow> bit w i \<Longrightarrow> i \<le> 64 - builtin_clzll w - 1"
proof -
  let ?xs = "rev [0..<64]" and ?P = "\<lambda>i. \<not> bit w i"
  let ?c = "length (takeWhile ?P ?xs)"
  have ex: "\<exists>x\<in>set ?xs. \<not> ?P x" using assms word64_nonzero_bit[of w] by auto
  from takeWhile_length_nth[OF ex] have c: "?c < 64" and nb: "bit w (?xs ! ?c)" by auto
  have idx: "j < 64 \<Longrightarrow> ?xs ! j = 64 - j - 1" for j by (simp add: rev_nth)
  show "64 - builtin_clzll w - 1 < 64" by simp
  show "bit w (64 - builtin_clzll w - 1)"
    using nb c unfolding idx[OF c] builtin_clzll_def by simp
  fix i :: nat assume i: "i < 64" "bit w i"
  show "i \<le> 64 - builtin_clzll w - 1"
  proof (rule ccontr)
    assume "\<not> ?thesis"
    hence lt: "64 - 1 - i < ?c" using i c by (simp add: builtin_clzll_def)
    hence "takeWhile ?P ?xs ! (64 - 1 - i) = ?xs ! (64 - 1 - i)" by (rule takeWhile_nth)
    also have "\<dots> = i" using i by (subst idx) auto
    finally have "i \<in> set (takeWhile ?P ?xs)" using lt by (metis nth_mem)
    from set_takeWhileD[OF this] i show False by simp
  qed
qed

lemma ffsll_lowest:
  assumes "(w::u64) \<noteq> 0"
  shows "builtin_ffsll w - 1 < 64" "bit w (builtin_ffsll w - 1)"
    "\<And>i. bit w i \<Longrightarrow> builtin_ffsll w - 1 \<le> i"
proof -
  let ?xs = "[0..<64]" and ?P = "\<lambda>i. \<not> bit w i"
  let ?c = "length (takeWhile ?P ?xs)"
  have ex: "\<exists>x\<in>set ?xs. \<not> ?P x" using assms word64_nonzero_bit[of w] by auto
  from takeWhile_length_nth[OF ex] have c: "?c < 64" and nb: "bit w (?xs ! ?c)" by auto
  have ffs: "builtin_ffsll w - 1 = ?c" using assms by (simp add: builtin_ffsll_def)
  show "builtin_ffsll w - 1 < 64" unfolding ffs by (rule c)
  show "bit w (builtin_ffsll w - 1)" using nb c unfolding ffs by simp
  fix i assume i: "bit w i"
  show "builtin_ffsll w - 1 \<le> i"
  proof (rule ccontr)
    assume "\<not> ?thesis"
    hence lt: "i < ?c" unfolding ffs by simp
    hence "takeWhile ?P ?xs ! i = ?xs ! i" by (rule takeWhile_nth)
    also have "\<dots> = i" using lt c by simp
    finally have "i \<in> set (takeWhile ?P ?xs)" using lt by (metis nth_mem)
    from set_takeWhileD[OF this] i show False by simp
  qed
qed

section \<open>Words as naturals\<close>

lemma unat_and_63: "unat ((w::u64) AND 63) = unat w mod 64"
proof -
  have "w AND 63 = take_bit 6 w" by (simp add: take_bit_eq_mask mask_eq_exp_minus_1)
  moreover have "unat (take_bit 6 w) = take_bit 6 (unat w)"
    by (rule unsigned_take_bit_eq)
  ultimately show ?thesis by (simp only:) (simp add: take_bit_eq_mod)
qed

lemma unat_drop_bit: "unat (drop_bit n (w::u64)) = unat w div 2 ^ n"
proof -
  have "unat (drop_bit n w) = drop_bit n (take_bit LENGTH(64) (unat w))"
    by (rule unsigned_drop_bit_eq)
  moreover have "take_bit LENGTH(64) (unat w) = unat w"
    by (rule take_bit_nat_eq_self) (use unsigned_less[of w] in simp)
  ultimately show ?thesis by (simp only:) (simp add: drop_bit_eq_div)
qed

lemma div_div_pow64: "(n::nat) div 64 ^ a div 64 ^ b = n div 64 ^ (a + b)"
  by (simp add: div_mult2_eq power_add)

section \<open>Lists\<close>

lemma fold_remove1_filter:
  "distinct xs \<Longrightarrow> fold remove1 ys xs = filter (\<lambda>x. x \<notin> set ys) xs"
proof (induction ys arbitrary: xs)
  case (Cons y ys)
  then show ?case
    by (auto simp: distinct_remove1_removeAll removeAll_filter_not_eq intro!: filter_cong)
qed simp

lemma sorted_wrt_cong:
  "(\<And>x y. x \<in> set xs \<Longrightarrow> y \<in> set xs \<Longrightarrow> P x y = Q x y) \<Longrightarrow> sorted_wrt P xs = sorted_wrt Q xs"
  by (induction xs) auto

lemma sum_list_bump:
  "i < length xs \<Longrightarrow> sum_list (xs[i := xs ! i + d]) = sum_list xs + (d :: 'a :: comm_monoid_add)"
  by (induction xs arbitrary: i) (auto simp: ac_simps split: nat.splits)

lemma distinct_singletonD: "distinct xs \<Longrightarrow> set xs = {a} \<Longrightarrow> xs = [a]"
  by (cases xs; cases "tl xs") auto

lemma sorted_wrt_cases:
  "sorted_wrt P xs \<Longrightarrow> a \<in> set xs \<Longrightarrow> b \<in> set xs \<Longrightarrow> a \<noteq> b \<Longrightarrow> P a b \<or> P b a"
  by (induction xs) auto

end
