(* ===== verification/Node_Pool.thy ===== *)
theory Node_Pool
  imports Nid_Prelude
begin

text \<open>
  The node pool \<open>mm/node.c\<close>, on which every typed node allocator of the program
  (\<open>rtn\<close>, \<open>brn\<close>, \<open>blksn\<close>, \<dots>) is a cast. A pool owns segments of \<open>p_seg_size\<close> nodes; a
  node is named by its segment and its index there, which is the address arithmetic of
  \<open>__node_extend\<close>. \<open>p_lck\<close> makes every operation atomic, so an operation is one state
  transformer. The counters are naturals: they count nodes in memory.
\<close>

datatype node_addr = Addr (nh_seg: nat) (nh_idx: nat)

record node_pool =
  p_seg_size :: nat
  p_seg_head :: "nat list"
  p_free_head :: "node_addr list"
  p_nseg :: nat
  p_nfree :: nat
  seg_nfree :: "nat \<Rightarrow> nat"
  next_seg :: nat

section \<open>Operations\<close>

text \<open>
  \<open>next_seg\<close> names the memory block that the next allocation of a segment returns. The nodes
  of a new segment are pushed to the front of the free list one by one.
\<close>

definition node_extend :: "node_pool \<Rightarrow> node_pool" where
  "node_extend p =
     (let s = next_seg p in
      p\<lparr>next_seg := Suc s,
        seg_nfree := (seg_nfree p)(s := p_seg_size p),
        p_free_head := fold (\<lambda>i fl. Addr s i # fl) [0..<p_seg_size p] (p_free_head p),
        p_nfree := p_nfree p + p_seg_size p,
        p_seg_head := s # p_seg_head p,
        p_nseg := Suc (p_nseg p)\<rparr>)"

definition node_get_node :: "node_pool \<Rightarrow> (node_addr \<times> node_pool) option" where
  "node_get_node p =
     (let p1 = (if p_free_head p = [] then node_extend p else p) in
      case p_free_head p1 of
        [] \<Rightarrow> None
      | nhp # rest \<Rightarrow>
          Some (nhp, p1\<lparr>p_free_head := rest,
                       p_nfree := p_nfree p1 - 1,
                       seg_nfree := (seg_nfree p1)(nh_seg nhp := seg_nfree p1 (nh_seg nhp) - 1)\<rparr>))"

definition node_shrink :: "nat \<Rightarrow> node_pool \<Rightarrow> node_pool option" where
  "node_shrink s p =
     do {
       c_assert (seg_nfree p s = p_seg_size p);
       Some (p\<lparr>p_free_head := fold remove1 (map (Addr s) [0..<p_seg_size p]) (p_free_head p),
               p_nfree := p_nfree p - p_seg_size p,
               p_seg_head := remove1 s (p_seg_head p),
               p_nseg := p_nseg p - 1\<rparr>)
     }"

definition node_put_node :: "node_addr \<Rightarrow> node_pool \<Rightarrow> node_pool option" where
  "node_put_node nhp p =
     (let s = nh_seg nhp;
          p1 = p\<lparr>p_free_head := nhp # p_free_head p,
                 p_nfree := Suc (p_nfree p),
                 seg_nfree := (seg_nfree p)(s := Suc (seg_nfree p s))\<rparr>
      in if seg_nfree p1 s = p_seg_size p1 \<and> p_nfree p1 \<ge> p_seg_size p1 * 2
         then node_shrink s p1 else Some p1)"

text \<open>\<open>node_destroy\<close> returns every segment to the system, in list order.\<close>

definition node_destroy :: "node_pool \<Rightarrow> nat list \<times> node_pool" where
  "node_destroy p = (p_seg_head p, p\<lparr>p_seg_head := []\<rparr>)"

definition NODE_SEGMENT_SIZE :: nat where
  "NODE_SEGMENT_SIZE = 128"

definition node_initialization :: "nat \<Rightarrow> node_pool" where
  "node_initialization seg_size =
     \<lparr>p_seg_size = (if seg_size = 0 then NODE_SEGMENT_SIZE else seg_size),
      p_seg_head = [], p_free_head = [], p_nseg = 0, p_nfree = 0,
      seg_nfree = (\<lambda>_. 0), next_seg = 0\<rparr>"

section \<open>Invariant\<close>

definition pool_nodes :: "node_pool \<Rightarrow> node_addr set" where
  "pool_nodes p = {a. nh_seg a \<in> set (p_seg_head p) \<and> nh_idx a < p_seg_size p}"

definition pool_used :: "node_pool \<Rightarrow> node_addr set" where
  "pool_used p = pool_nodes p - set (p_free_head p)"

definition pool_inv :: "node_pool \<Rightarrow> bool" where
  "pool_inv p \<longleftrightarrow>
     0 < p_seg_size p \<and> distinct (p_seg_head p) \<and> distinct (p_free_head p) \<and>
     set (p_free_head p) \<subseteq> pool_nodes p \<and>
     p_nseg p = length (p_seg_head p) \<and> p_nfree p = length (p_free_head p) \<and>
     (\<forall>s \<in> set (p_seg_head p).
        s < next_seg p \<and> seg_nfree p s = length (filter (\<lambda>a. nh_seg a = s) (p_free_head p)))"

lemma in_Addr_image [simp]: "x \<in> Addr s ` B \<longleftrightarrow> nh_seg x = s \<and> nh_idx x \<in> B"
  by (cases x) auto

lemma fold_push: "fold (\<lambda>i fl. Addr s i # fl) is fl = rev (map (Addr s) is) @ fl"
  by (induction "is" arbitrary: fl) auto

lemma pool_inv_init [simp]: "pool_inv (node_initialization n)"
  by (simp add: node_initialization_def pool_inv_def NODE_SEGMENT_SIZE_def)

lemma pool_used_init [simp]: "pool_used (node_initialization n) = {}"
  by (simp add: node_initialization_def pool_used_def pool_nodes_def)

lemma filter_fst_pairs: "filter (\<lambda>a. nh_seg a = t) (rev (map (Addr s) xs)) =
  (if t = s then rev (map (Addr s) xs) else [])"
  by (induction xs) auto

lemma node_extend_inv:
  assumes "pool_inv p"
  shows "pool_inv (node_extend p)"
proof -
  let ?s = "next_seg p"
  have new: "?s \<notin> set (p_seg_head p)" using assms by (auto simp: pool_inv_def)
  then have nofree: "Addr ?s i \<notin> set (p_free_head p)" for i
    using assms by (auto simp: pool_inv_def pool_nodes_def)
  then have empty: "filter (\<lambda>a. nh_seg a = ?s) (p_free_head p) = []"
    by (auto simp: filter_empty_conv) (metis node_addr.collapse)
  show ?thesis
    using assms new nofree empty
    by (auto simp: pool_inv_def node_extend_def Let_def fold_push pool_nodes_def
        filter_fst_pairs distinct_map inj_on_def split: if_splits)
qed

lemma node_extend_used:
  assumes "pool_inv p"
  shows "pool_used (node_extend p) = pool_used p"
proof -
  have new: "next_seg p \<notin> set (p_seg_head p)" using assms by (auto simp: pool_inv_def)
  then show ?thesis
    by (auto simp: pool_used_def pool_nodes_def node_extend_def Let_def fold_push)
qed

lemma node_extend_nonempty: "pool_inv p \<Longrightarrow> p_free_head (node_extend p) \<noteq> []"
  by (auto simp: pool_inv_def node_extend_def Let_def fold_push)

lemma pool_get_aux:
  assumes "pool_inv p" and "p_free_head p = a # rest"
  defines "p' \<equiv> p\<lparr>p_free_head := rest, p_nfree := p_nfree p - 1,
                   seg_nfree := (seg_nfree p)(nh_seg a := seg_nfree p (nh_seg a) - 1)\<rparr>"
  shows "pool_inv p'" "a \<notin> pool_used p" "pool_used p' = insert a (pool_used p)"
proof -
  have mem: "a \<in> pool_nodes p" and nin: "a \<notin> set rest"
    using assms(1,2) by (auto simp: pool_inv_def)
  show "pool_inv p'"
    using assms(1,2) by (auto simp: pool_inv_def p'_def pool_nodes_def)
  show "a \<notin> pool_used p" using assms(2) by (simp add: pool_used_def)
  show "pool_used p' = insert a (pool_used p)"
    using assms(2) mem nin by (auto simp: pool_used_def p'_def pool_nodes_def)
qed

lemma node_get_node_spec:
  assumes "pool_inv p"
  shows "\<exists>a p'. node_get_node p = Some (a, p') \<and> pool_inv p' \<and> a \<notin> pool_used p \<and>
           pool_used p' = insert a (pool_used p)"
proof -
  define p1 where "p1 = (if p_free_head p = [] then node_extend p else p)"
  have p1: "pool_inv p1" "pool_used p1 = pool_used p" "p_free_head p1 \<noteq> []"
    using assms node_extend_inv node_extend_used node_extend_nonempty by (auto simp: p1_def)
  then obtain a rest where fl: "p_free_head p1 = a # rest" by (cases "p_free_head p1") auto
  show ?thesis
    using pool_get_aux[OF p1(1) fl] fl p1(2)
    by (auto simp: node_get_node_def Let_def p1_def[symmetric])
qed

lemma pool_put_front:
  assumes "pool_inv p" and "a \<in> pool_used p"
  defines "p1 \<equiv> p\<lparr>p_free_head := a # p_free_head p, p_nfree := Suc (p_nfree p),
                   seg_nfree := (seg_nfree p)(nh_seg a := Suc (seg_nfree p (nh_seg a)))\<rparr>"
  shows "pool_inv p1" "pool_used p1 = pool_used p - {a}"
  using assms(1,2) by (auto simp: pool_inv_def pool_used_def pool_nodes_def p1_def)

lemma pool_full_segment:
  assumes "pool_inv p" and "s \<in> set (p_seg_head p)" and "seg_nfree p s = p_seg_size p"
  shows "set (filter (\<lambda>a. nh_seg a = s) (p_free_head p)) = Addr s ` {..<p_seg_size p}"
proof (rule card_subset_eq)
  show "finite (Addr s ` {..<p_seg_size p})" by simp
  show "set (filter (\<lambda>a. nh_seg a = s) (p_free_head p)) \<subseteq> Addr s ` {..<p_seg_size p}"
    using assms(1) by (auto simp: pool_inv_def pool_nodes_def)
  have "card (set (filter (\<lambda>a. nh_seg a = s) (p_free_head p))) = p_seg_size p"
    using assms distinct_card[of "filter (\<lambda>a. nh_seg a = s) (p_free_head p)"]
    by (simp add: pool_inv_def del: set_filter)
  also have "\<dots> = card (Addr s ` {..<p_seg_size p})" by (simp add: card_image inj_on_def)
  finally show "card (set (filter (\<lambda>a. nh_seg a = s) (p_free_head p)))
    = card (Addr s ` {..<p_seg_size p})" .
qed

lemma node_shrink_spec:
  assumes inv: "pool_inv p" and s: "s \<in> set (p_seg_head p)"
    and full: "seg_nfree p s = p_seg_size p"
  shows "\<exists>p'. node_shrink s p = Some p' \<and> pool_inv p' \<and> pool_used p' = pool_used p"
proof -
  let ?free = "filter (\<lambda>a. nh_seg a \<noteq> s) (p_free_head p)"
  have dist: "distinct (p_free_head p)" using inv by (simp add: pool_inv_def)
  have fr: "fold remove1 (map (Addr s) [0..<p_seg_size p]) (p_free_head p) = ?free"
  proof -
    have "x \<in> set (p_free_head p) \<Longrightarrow>
        (x \<notin> set (map (Addr s) [0..<p_seg_size p])) = (nh_seg x \<noteq> s)" for x
      using inv by (cases x) (auto simp: pool_inv_def pool_nodes_def)
    then show ?thesis by (simp add: fold_remove1_filter[OF dist] cong: filter_cong)
  qed
  have len: "length (filter (\<lambda>a. nh_seg a = s) (p_free_head p)) = p_seg_size p"
    using inv s full by (simp add: pool_inv_def)
  have nf: "p_nfree p - p_seg_size p = length ?free"
    using inv len sum_length_filter_compl[of "\<lambda>a. nh_seg a = s" "p_free_head p"]
    by (simp add: pool_inv_def)
  let ?p = "p\<lparr>p_free_head := ?free, p_nfree := p_nfree p - p_seg_size p,
              p_seg_head := remove1 s (p_seg_head p), p_nseg := p_nseg p - 1\<rparr>"
  have eq: "node_shrink s p = Some ?p" using full fr by (simp add: node_shrink_def)
  have dseg: "distinct (p_seg_head p)" using inv by (simp add: pool_inv_def)
  have segs: "set (remove1 s (p_seg_head p)) = set (p_seg_head p) - {s}"
    by (rule set_remove1_eq[OF dseg])
  have i1: "set ?free \<subseteq> pool_nodes ?p"
    using inv segs by (auto simp: pool_inv_def pool_nodes_def)
  have i2: "\<forall>t \<in> set (remove1 s (p_seg_head p)). t < next_seg p \<and>
      seg_nfree p t = length (filter (\<lambda>a. nh_seg a = t) ?free)"
    using inv segs by (auto simp: pool_inv_def intro!: arg_cong[where f = length] filter_cong)
  have "pool_inv ?p"
    using inv s nf i1 i2 dist dseg
    by (simp add: pool_inv_def length_remove1)
  moreover have "pool_used ?p = pool_used p"
  proof -
    have "a \<in> set (p_free_head p)" if "nh_seg a = s" "nh_idx a < p_seg_size p" for a
    proof -
      have "a \<in> set (filter (\<lambda>a. nh_seg a = s) (p_free_head p))"
        unfolding pool_full_segment[OF inv s full] using that by (cases a) auto
      then show ?thesis by simp
    qed
    then show ?thesis using segs by (auto simp: pool_used_def pool_nodes_def)
  qed
  ultimately show ?thesis using eq by blast
qed

lemma node_put_node_spec:
  assumes "pool_inv p" and "a \<in> pool_used p"
  shows "\<exists>p'. node_put_node a p = Some p' \<and> pool_inv p' \<and> pool_used p' = pool_used p - {a}"
proof -
  define p1 where "p1 = p\<lparr>p_free_head := a # p_free_head p, p_nfree := Suc (p_nfree p),
                   seg_nfree := (seg_nfree p)(nh_seg a := Suc (seg_nfree p (nh_seg a)))\<rparr>"
  note p1 = pool_put_front[OF assms, folded p1_def]
  have put: "node_put_node a p =
    (if seg_nfree p1 (nh_seg a) = p_seg_size p1 \<and> p_nfree p1 \<ge> p_seg_size p1 * 2
     then node_shrink (nh_seg a) p1 else Some p1)"
    by (simp add: node_put_node_def Let_def p1_def)
  have "nh_seg a \<in> set (p_seg_head p1)"
    using assms(2) by (auto simp: pool_used_def pool_nodes_def p1_def)
  then show ?thesis
    using node_shrink_spec[OF p1(1)] p1 unfolding put by auto
qed

section \<open>The allocator contract\<close>

text \<open>
  What a client of a typed allocator relies on: a node it gets was not in use, and a node it
  gives back is not in use any more. The pool satisfies it.
\<close>

locale node_allocator =
  fixes get :: "'p \<Rightarrow> ('n \<times> 'p) option"
    and put :: "'n \<Rightarrow> 'p \<Rightarrow> 'p option"
    and used :: "'p \<Rightarrow> 'n set"
    and inv :: "'p \<Rightarrow> bool"
  assumes get_fresh: "inv p \<Longrightarrow> \<exists>a p'. get p = Some (a, p') \<and> inv p' \<and> a \<notin> used p \<and>
             used p' = insert a (used p)"
    and put_free: "inv p \<Longrightarrow> a \<in> used p \<Longrightarrow> \<exists>p'. put a p = Some p' \<and> inv p' \<and>
             used p' = used p - {a}"
begin

lemma getE:
  assumes "inv p"
  obtains a p' where "get p = Some (a, p')" "inv p'" "a \<notin> used p" "used p' = insert a (used p)"
  using get_fresh[OF assms] by blast

lemma putE:
  assumes "inv p" "a \<in> used p"
  obtains p' where "put a p = Some p'" "inv p'" "used p' = used p - {a}"
  using put_free[OF assms] by blast

lemma get_put_restores:
  assumes "inv p"
  shows "\<exists>a p1 p2. get p = Some (a, p1) \<and> put a p1 = Some p2 \<and> inv p2 \<and> used p2 = used p"
proof -
  from assms obtain a p1 where a: "get p = Some (a, p1)" "inv p1" "a \<notin> used p"
    "used p1 = insert a (used p)" by (rule getE)
  then obtain p2 where "put a p1 = Some p2" "inv p2" "used p2 = used p1 - {a}"
    by (auto elim: putE)
  with a show ?thesis by auto
qed

lemma two_gets_distinct:
  assumes "inv p" "get p = Some (a, p1)" "get p1 = Some (b, p2)"
  shows "a \<noteq> b"
  using assms get_fresh[of p] get_fresh[of p1] by auto

end

interpretation np: node_allocator node_get_node node_put_node pool_used pool_inv
  by unfold_locales (use node_get_node_spec node_put_node_spec in blast)+

end
