(* ===== verification/Rtree.thy ===== *)
theory Rtree
  imports Node_Pool
begin

text \<open>
  The radix tree \<open>rtree.c\<close> and its node allocator \<open>mm/rtn.c\<close>. Tree nodes live in an
  explicit heap \<open>mem\<close> (address to node; reading an address that is not allocated is
  \<open>None\<close>), so the parent pointers, the hint operations that start at a leaf's parent and the
  release of nodes are those of the code. A slot of a node is null, a tree node or, in a node of
  height 1 (and in the root pointer of a tree of height 0), an item of the client.

  The client's call-backs are a record of functions over the client's own store \<open>'s\<close>. As in
  C, the remove call-back may be handed a tree node (\<open>rtree_remove\<close> calls it on every level).
\<close>

datatype 'a slot = Null | Node node_addr | Item 'a

record 'a rtree_node =
  n_height :: nat
  n_bitmap :: u64
  n_count :: u64
  n_parent :: "node_addr option"
  n_slots :: "nat \<Rightarrow> 'a slot"

record rtn_private =
  p_node :: node_pool
  p_nused :: nat
  p_segsz :: nat

record 'a rtree =
  r_height :: nat
  r_rnode :: "'a slot"
  p_rtn :: rtn_private
  mem :: "node_addr \<Rightarrow> 'a rtree_node option"

record ('a, 'n, 's) rtree_cb =
  extend_cb :: "'a \<Rightarrow> node_addr \<Rightarrow> 's \<Rightarrow> 's"
  insert_cb :: "'a slot \<Rightarrow> 'n \<Rightarrow> node_addr option \<Rightarrow> 's \<Rightarrow> ('a slot \<times> 's) option"
  remove_cb :: "'a slot \<Rightarrow> 'n option \<Rightarrow> 's \<Rightarrow> ('a slot \<times> 's) option"
  shrink_to_root_cb :: "('a \<Rightarrow> 's \<Rightarrow> 's) option"

section \<open>Constants and tables\<close>

definition RTREE_MAX_HEIGHT :: nat where "RTREE_MAX_HEIGHT = 8"
definition RTREE_INDEX_BITS :: nat where "RTREE_INDEX_BITS = 64"
definition RTREE_MAP_SHIFT :: nat where "RTREE_MAP_SHIFT = 6"
definition RTREE_MAP_MASK :: u64 where "RTREE_MAP_MASK = 63"
definition RTREE_MAX_PATH :: nat where "RTREE_MAX_PATH = 11"

lemmas rtree_consts [nid_defs] =
  RTREE_MAX_HEIGHT_def RTREE_INDEX_BITS_def RTREE_MAP_SHIFT_def RTREE_MAP_MASK_def
  RTREE_MAX_PATH_def

text \<open>\<open>int shift\<close> may be negative: the width is compared before the subtraction.\<close>

definition maxindex :: "nat \<Rightarrow> u64" where
  "maxindex height =
     (let width = height * RTREE_MAP_SHIFT in
      if width > RTREE_INDEX_BITS then NOT 0
      else if RTREE_INDEX_BITS - width \<ge> RTREE_INDEX_BITS then 0
      else drop_bit (RTREE_INDEX_BITS - width) (NOT 0))"

definition height_to_maxindex :: "u64 list" where
  "height_to_maxindex = map maxindex [0..<RTREE_MAX_PATH + 1]"

definition bitmap_bit :: "nat \<Rightarrow> u64" where
  "bitmap_bit i = push_bit i 1"

definition bitmap_mask :: "nat \<Rightarrow> u64" where
  "bitmap_mask i = NOT (bitmap_bit i)"

primrec high_mask :: "nat \<Rightarrow> u64" where
  "high_mask 0 = 0"
| "high_mask (Suc i) = high_mask i OR push_bit i 1"

text \<open>The slot of \<open>key\<close> in a node of height \<open>h\<close>: the shift of level \<open>h\<close> is \<open>(h - 1) * 6\<close>.\<close>

definition rt_offset :: "u64 \<Rightarrow> nat \<Rightarrow> nat" where
  "rt_offset key h = unat (drop_bit ((h - 1) * RTREE_MAP_SHIFT) key AND RTREE_MAP_MASK)"

section \<open>The node allocator of the tree\<close>

definition rtn_initialization :: rtn_private where
  "rtn_initialization = \<lparr>p_node = node_initialization 1024, p_nused = 0, p_segsz = 1024\<rparr>"

definition rtn_get_node :: "'a rtree \<Rightarrow> (node_addr \<times> 'a rtree) option" where
  "rtn_get_node t =
     do {
       (a, pool) \<leftarrow> node_get_node (p_node (p_rtn t));
       Some (a, t\<lparr>p_rtn := (p_rtn t)\<lparr>p_node := pool, p_nused := Suc (p_nused (p_rtn t))\<rparr>\<rparr>)
     }"

text \<open>A released node is not readable any more.\<close>

definition rtn_put_node :: "node_addr \<Rightarrow> 'a rtree \<Rightarrow> 'a rtree option" where
  "rtn_put_node a t =
     do {
       pool \<leftarrow> node_put_node a (p_node (p_rtn t));
       Some (t\<lparr>p_rtn := (p_rtn t)\<lparr>p_node := pool, p_nused := p_nused (p_rtn t) - 1\<rparr>,
               mem := (mem t)(a := None)\<rparr>)
     }"

definition rt_write :: "node_addr \<Rightarrow> 'a rtree_node \<Rightarrow> 'a rtree \<Rightarrow> 'a rtree" where
  "rt_write a n t = t\<lparr>mem := (mem t)(a \<mapsto> n)\<rparr>"

definition rt_set_slot :: "nat \<Rightarrow> 'a slot \<Rightarrow> 'a rtree_node \<Rightarrow> 'a rtree_node" where
  "rt_set_slot off sl n = n\<lparr>n_slots := (n_slots n)(off := sl)\<rparr>"

text \<open>A slot that becomes occupied sets its bit and counts; a slot that becomes null does the
  opposite.\<close>

definition rt_count_in :: "nat \<Rightarrow> 'a rtree_node \<Rightarrow> 'a rtree_node" where
  "rt_count_in off n = n\<lparr>n_bitmap := n_bitmap n OR bitmap_bit off, n_count := n_count n + 1\<rparr>"

definition rt_count_out :: "nat \<Rightarrow> 'a rtree_node \<Rightarrow> 'a rtree_node" where
  "rt_count_out off n = n\<lparr>n_bitmap := n_bitmap n AND bitmap_mask off, n_count := n_count n - 1\<rparr>"

section \<open>Extending the tree\<close>

function rt_fit_height :: "u64 \<Rightarrow> nat \<Rightarrow> nat" where
  "rt_fit_height key h =
     (if h \<le> RTREE_MAX_PATH \<and> key > height_to_maxindex ! h then rt_fit_height key (Suc h) else h)"
  by pat_completeness auto
termination
  by (relation "measure (\<lambda>(key, h). Suc RTREE_MAX_PATH - h)") auto

declare rt_fit_height.simps [simp del]

definition rt_extend_step ::
  "('a, 'n, 's) rtree_cb \<Rightarrow> 'a rtree \<Rightarrow> 's \<Rightarrow> ('a rtree \<times> 's) option" where
  "rt_extend_step cb t s =
     do {
       (np, t) \<leftarrow> rtn_get_node t;
       let newheight = Suc (r_height t);
       c_assert (newheight \<le> RTREE_MAX_HEIGHT);
       let slot = r_rnode t;
       let n = \<lparr>n_height = newheight, n_bitmap = 1, n_count = 1, n_parent = None,
                n_slots = (\<lambda>_. Null)(0 := slot)\<rparr>;
       (t, s) \<leftarrow>
         (if newheight > 1 then
            (case slot of
               Node q \<Rightarrow> do { m \<leftarrow> mem t q; Some (rt_write q (m\<lparr>n_parent := Some np\<rparr>) t, s) }
             | _ \<Rightarrow> None)
          else
            (case slot of
               Item x \<Rightarrow> Some (t, extend_cb cb x np s)
             | Null \<Rightarrow> Some (t, s)
             | Node _ \<Rightarrow> None));
       Some (rt_write np n t\<lparr>r_rnode := Node np, r_height := newheight\<rparr>, s)
     }"

partial_function (option) rt_extend_loop ::
  "('a, 'n, 's) rtree_cb \<Rightarrow> nat \<Rightarrow> 'a rtree \<Rightarrow> 's \<Rightarrow> ('a rtree \<times> 's) option" where
  "rt_extend_loop cb height t s =
     Option.bind (rt_extend_step cb t s)
       (\<lambda>(t1, s1). if height > r_height t1 then rt_extend_loop cb height t1 s1
                   else Some (t1, s1))"

declare rt_extend_loop.simps [code]

definition rtree_extend ::
  "('a, 'n, 's) rtree_cb \<Rightarrow> u64 \<Rightarrow> 'a rtree \<Rightarrow> 's \<Rightarrow> ('a rtree \<times> 's) option" where
  "rtree_extend cb key t s =
     (let height = rt_fit_height key (r_height t) in
      if r_rnode t = Null then
        do { c_assert (height \<le> RTREE_MAX_HEIGHT); Some (t\<lparr>r_height := height\<rparr>, s) }
      else rt_extend_loop cb height t s)"

section \<open>Insertion\<close>

text \<open>
  The loop of \<open>rtree_insert\<close> from height \<open>h\<close> down: a null slot becomes a new, empty node, linked
  into its parent \<open>np\<close> at \<open>off\<close> or into the root.
\<close>

definition rt_new_child ::
  "nat \<Rightarrow> node_addr option \<Rightarrow> nat \<Rightarrow> 'a rtree \<Rightarrow> (node_addr \<times> 'a rtree) option" where
  "rt_new_child h np off t =
     do {
       (a, t) \<leftarrow> rtn_get_node t;
       c_assert (h \<le> 8);
       let t = rt_write a \<lparr>n_height = h, n_bitmap = 0, n_count = 0, n_parent = np,
                           n_slots = (\<lambda>_. Null)\<rparr> t;
       (case np of
          None \<Rightarrow> Some (a, t\<lparr>r_rnode := Node a\<rparr>)
        | Some q \<Rightarrow>
            do {
              m \<leftarrow> mem t q;
              let m = rt_count_in off (rt_set_slot off (Node a) m);
              c_assert (n_count m \<le> 64);
              Some (a, rt_write q m t)
            })
     }"

fun rt_insert_down ::
  "u64 \<Rightarrow> nat \<Rightarrow> node_addr option \<Rightarrow> 'a slot \<Rightarrow> nat \<Rightarrow> 'a rtree \<Rightarrow>
   (node_addr option \<times> nat \<times> 'a rtree) option" where
  "rt_insert_down key 0 np slot off t = Some (np, off, t)"
| "rt_insert_down key (Suc h) np slot off t =
     do {
       (a, t) \<leftarrow> (case slot of
                    Null \<Rightarrow> rt_new_child (Suc h) np off t
                  | Node a \<Rightarrow> Some (a, t)
                  | Item _ \<Rightarrow> None);
       let off = rt_offset key (Suc h);
       n \<leftarrow> mem t a;
       rt_insert_down key h (Some a) (n_slots n off) off t
     }"

definition rtree_insert ::
  "('a, 'n, 's) rtree_cb \<Rightarrow> u64 \<Rightarrow> 'n \<Rightarrow> 'a rtree \<Rightarrow> 's \<Rightarrow> ('a slot \<times> 'a rtree \<times> 's) option"
where
  "rtree_insert cb key item t s =
     do {
       (t, s) \<leftarrow> (if key > height_to_maxindex ! r_height t then rtree_extend cb key t s
                   else Some (t, s));
       (np, off, t) \<leftarrow> rt_insert_down key (r_height t) None (r_rnode t) 0 t;
       (case np of
          Some a \<Rightarrow>
            do {
              c_assert (r_height t \<noteq> 0);
              n \<leftarrow> mem t a;
              c_assert (n_height n = 1 \<and> n_count n \<le> 64);
              let n1 = (if n_slots n off = Null then rt_count_in off n else n);
              (sl, s) \<leftarrow> insert_cb cb (n_slots n1 off) item (Some a) s;
              Some (sl, rt_write a (rt_set_slot off sl n1) t, s)
            }
        | None \<Rightarrow>
            do {
              c_assert (r_height t = 0);
              (sl, s) \<leftarrow> insert_cb cb (r_rnode t) item None s;
              Some (sl, t\<lparr>r_rnode := sl\<rparr>, s)
            })
     }"

text \<open>The offset of \<open>rtree_hint_insert\<close> is that of \<open>hint_key\<close>, as in the source.\<close>

definition rtree_hint_insert ::
  "('a, 'n, 's) rtree_cb \<Rightarrow> u64 \<Rightarrow> 'n \<Rightarrow> u64 \<Rightarrow> node_addr option \<Rightarrow> 'a rtree \<Rightarrow> 's \<Rightarrow>
   ('a slot \<times> 'a rtree \<times> 's) option" where
  "rtree_hint_insert cb key item hint_key hint_parent t s =
     (case hint_parent of
        None \<Rightarrow> rtree_insert cb key item t s
      | Some a \<Rightarrow>
          do {
            n \<leftarrow> mem t a;
            c_assert (n_height n = 1);
            if drop_bit RTREE_MAP_SHIFT hint_key = drop_bit RTREE_MAP_SHIFT key then
              do {
                let off = unat (hint_key AND RTREE_MAP_MASK);
                let prev = n_slots n off;
                (sl, s) \<leftarrow> insert_cb cb prev item (Some a) s;
                let n1 = rt_set_slot off sl n;
                c_assert (sl \<noteq> Null);
                n2 \<leftarrow> (if prev = Null then Some (rt_count_in off n1)
                        else do { c_assert (prev = sl); Some n1 });
                c_assert (n_count n2 \<le> 64);
                Some (sl, rt_write a n2 t, s)
              }
            else rtree_insert cb key item t s
          })"

section \<open>Removal\<close>

text \<open>The loop of \<open>__rtree_shrink\<close>: while the root holds one slot, the leftmost, it is replaced
  by that slot.\<close>

partial_function (option) rt_shrink_loop :: "'a rtree \<Rightarrow> 'a rtree option" where
  "rt_shrink_loop t =
     (if r_height t = 0 then Some t
      else
        (case r_rnode t of
           Node a \<Rightarrow>
             Option.bind (mem t a) (\<lambda>n.
               if n_count n \<noteq> 1 then Some t
               else if n_slots n 0 = Null then Some t
               else
                 Option.bind
                   (if r_height t > 1 then
                      (case n_slots n 0 of
                         Node q \<Rightarrow> map_option (\<lambda>m. rt_write q (m\<lparr>n_parent := None\<rparr>) t) (mem t q)
                       | _ \<Rightarrow> None)
                    else Some t)
                   (\<lambda>t1. Option.bind
                      (rtn_put_node a (t1\<lparr>r_rnode := n_slots n 0, r_height := r_height t - 1\<rparr>))
                      rt_shrink_loop))
         | _ \<Rightarrow> None))"

declare rt_shrink_loop.simps [code]

definition rtree_shrink ::
  "('a, 'n, 's) rtree_cb \<Rightarrow> 'a rtree \<Rightarrow> 's \<Rightarrow> ('a rtree \<times> 's) option" where
  "rtree_shrink cb t s =
     do {
       empty \<leftarrow> (if r_height t > 0 then
                   (case r_rnode t of
                      Node a \<Rightarrow> map_option (\<lambda>n. if n_count n = 0 then Some a else None) (mem t a)
                    | _ \<Rightarrow> None)
                 else Some None);
       (case empty of
          Some a \<Rightarrow>
            do { t \<leftarrow> rtn_put_node a (t\<lparr>r_height := 0, r_rnode := Null\<rparr>); Some (t, s) }
        | None \<Rightarrow>
            do {
              t \<leftarrow> rt_shrink_loop t;
              let s = (if r_height t = 0 then
                         (case r_rnode t of
                            Item x \<Rightarrow> (case shrink_to_root_cb cb of Some f \<Rightarrow> f x s | None \<Rightarrow> s)
                          | _ \<Rightarrow> s)
                       else s);
              c_assert (r_height t \<le> RTREE_MAX_HEIGHT);
              (if r_height t = 0 then Some ()
               else (case r_rnode t of
                       Node a \<Rightarrow>
                         do {
                           n \<leftarrow> mem t a;
                           c_assert (n_height n = r_height t);
                           c_assert (n_count n \<le> of_nat RTREE_INDEX_BITS)
                         }
                     | _ \<Rightarrow> None));
              Some (t, s)
            })
     }"

text \<open>
  The walk from the root that \<open>rtree_search\<close>, \<open>rtree_search_around\<close> and \<open>rtree_remove\<close> share:
  the slot it ends in, and the last node and offset it went through.
\<close>

fun rt_walk ::
  "'a rtree \<Rightarrow> u64 \<Rightarrow> nat \<Rightarrow> 'a slot \<Rightarrow> (node_addr \<times> nat) option \<Rightarrow>
   ('a slot \<times> (node_addr \<times> nat) option) option" where
  "rt_walk t key 0 slot pos = Some (slot, pos)"
| "rt_walk t key (Suc h) slot pos =
     (case slot of
        Null \<Rightarrow> Some (Null, pos)
      | Item _ \<Rightarrow> None
      | Node a \<Rightarrow>
          do {
            n \<leftarrow> mem t a;
            let off = rt_offset key (Suc h);
            rt_walk t key h (n_slots n off) (Some (a, off))
          })"

text \<open>The upward loop of \<open>rtree_remove\<close>; the node emptied one level below is released only after
  its slot is cleared.\<close>

partial_function (option) rt_remove_up ::
  "('a, 'n, 's) rtree_cb \<Rightarrow> u64 \<Rightarrow> node_addr \<Rightarrow> nat \<Rightarrow> 'n option \<Rightarrow> node_addr option \<Rightarrow>
   'a rtree \<Rightarrow> 's \<Rightarrow> ('a rtree \<times> 's) option" where
  "rt_remove_up cb key np off item to_free t s =
     Option.bind (mem t np) (\<lambda>n.
     Option.bind (remove_cb cb (n_slots n off) item s) (\<lambda>(sl, s1).
     let n1 = rt_set_slot off sl n;
         n2 = (if sl = Null then rt_count_out off n1 else n1) in
     Option.bind (c_assert (sl = Null \<longrightarrow> (n_count n2 = 0 \<or> n_bitmap n2 \<noteq> 0) \<and>
                                         n_count n2 \<le> of_nat RTREE_INDEX_BITS)) (\<lambda>_.
     Option.bind (case to_free of
                    Some f \<Rightarrow> rtn_put_node f (rt_write np n2 t)
                  | None \<Rightarrow> Some (rt_write np n2 t)) (\<lambda>t1.
     if n_count n2 \<noteq> 0 then
       (if r_rnode t1 = Node np then rtree_shrink cb t1 s1 else Some (t1, s1))
     else
       (let key1 = drop_bit RTREE_MAP_SHIFT key in
        case n_parent n2 of
          Some q \<Rightarrow> rt_remove_up cb key1 q (unat (key1 AND RTREE_MAP_MASK)) None (Some np) t1 s1
        | None \<Rightarrow>
            map_option (\<lambda>t2. (t2, s1)) (rtn_put_node np (t1\<lparr>r_height := 0, r_rnode := Null\<rparr>)))))))"

declare rt_remove_up.simps [code]

definition rtree_remove ::
  "('a, 'n, 's) rtree_cb \<Rightarrow> u64 \<Rightarrow> 'n option \<Rightarrow> 'a rtree \<Rightarrow> 's \<Rightarrow>
   ('a slot \<times> 'a rtree \<times> 's) option" where
  "rtree_remove cb key item t s =
     (if key > height_to_maxindex ! r_height t then Some (Null, t, s)
      else if r_height t = 0 then
        do {
          (sl, s) \<leftarrow> remove_cb cb (r_rnode t) item s;
          if sl = Null then Some (r_rnode t, t\<lparr>r_rnode := Null\<rparr>, s) else Some (sl, t, s)
        }
      else
        do {
          (slot, pos) \<leftarrow> rt_walk t key (r_height t) (r_rnode t) None;
          if slot = Null then Some (Null, t, s)
          else
            (case pos of
               None \<Rightarrow> None
             | Some (np, off) \<Rightarrow>
                 do {
                   (t, s) \<leftarrow> rt_remove_up cb key np off item None t s;
                   Some (slot, t, s)
                 })
        })"

partial_function (option) rt_hint_remove_up ::
  "u64 \<Rightarrow> node_addr \<Rightarrow> 'a rtree \<Rightarrow> (node_addr \<times> 'a rtree) option" where
  "rt_hint_remove_up key np t =
     Option.bind (mem t np) (\<lambda>n.
       if n_count n = 0 then
         (case n_parent n of
            None \<Rightarrow> Some (np, t)
          | Some q \<Rightarrow>
              (let key1 = drop_bit RTREE_MAP_SHIFT key;
                   off = unat (key1 AND RTREE_MAP_MASK) in
               Option.bind (mem t q) (\<lambda>m.
               Option.bind (c_assert (n_slots m off = Node np \<and> n_height m \<le> r_height t \<and>
                                      n_count m > 0 \<and> n_count m \<le> of_nat RTREE_INDEX_BITS)) (\<lambda>_.
               let m1 = rt_count_out off (rt_set_slot off Null m) in
               Option.bind (c_assert ((n_count m1 = 0 \<or> n_bitmap m1 \<noteq> 0) \<and> n_count m1 \<le> 64)) (\<lambda>_.
               Option.bind (rtn_put_node np (rt_write q m1 t)) (\<lambda>t1.
               rt_hint_remove_up key1 q t1))))))
       else Some (np, t))"

declare rt_hint_remove_up.simps [code]

definition rtree_hint_remove ::
  "('a, 'n, 's) rtree_cb \<Rightarrow> u64 \<Rightarrow> 'n \<Rightarrow> node_addr option \<Rightarrow> 'a rtree \<Rightarrow> 's \<Rightarrow>
   ('a slot \<times> 'a rtree \<times> 's) option" where
  "rtree_hint_remove cb key item parent t s =
     (case parent of
        None \<Rightarrow>
          do {
            c_assert (r_height t = 0);
            (sl, s) \<leftarrow> remove_cb cb (r_rnode t) (Some item) s;
            Some (sl, t\<lparr>r_rnode := sl\<rparr>, s)
          }
      | Some np \<Rightarrow>
          do {
            n \<leftarrow> mem t np;
            c_assert (n_height n = 1);
            let off = unat (key AND RTREE_MAP_MASK);
            c_assert (n_slots n off \<noteq> Null);
            (sl, s) \<leftarrow> remove_cb cb (n_slots n off) (Some item) s;
            let n1 = rt_set_slot off sl n;
            n2 \<leftarrow> (if sl = Null then
                     do {
                       c_assert (n_count n1 > 0);
                       let n2 = rt_count_out off n1;
                       c_assert ((n_count n2 = 0 \<or> n_bitmap n2 \<noteq> 0) \<and> n_count n2 \<le> 64);
                       Some n2
                     }
                   else Some n1);
            (np, t) \<leftarrow> rt_hint_remove_up key np (rt_write np n2 t);
            n \<leftarrow> mem t np;
            (t, s) \<leftarrow> (if n_parent n = None then
                         do { c_assert (n_height n = r_height t); rtree_shrink cb t s }
                       else Some (t, s));
            Some (sl, t, s)
          })"

section \<open>Searching\<close>

definition rtree_search :: "'a rtree \<Rightarrow> u64 \<Rightarrow> 'a slot option" where
  "rtree_search t key =
     (if key > height_to_maxindex ! r_height t then Some Null
      else map_option fst (rt_walk t key (r_height t) (r_rnode t) None))"

definition rtree_hint_search ::
  "'a rtree \<Rightarrow> u64 \<Rightarrow> u64 \<Rightarrow> node_addr option \<Rightarrow> 'a slot option" where
  "rtree_hint_search t key hint_key hint_parent =
     (case hint_parent of
        None \<Rightarrow> rtree_search t key
      | Some a \<Rightarrow>
          do {
            n \<leftarrow> mem t a;
            c_assert (n_height n = 1);
            if drop_bit RTREE_MAP_SHIFT hint_key = drop_bit RTREE_MAP_SHIFT key
            then Some (n_slots n (unat (key AND RTREE_MAP_MASK)))
            else rtree_search t key
          })"

text \<open>
  The descents of \<open>rtree_search_around\<close>: from slot \<open>off\<close> of a node down to a leaf, along the
  highest (\<open>pick\<close> is the index of the highest set bit) or the lowest slot.
\<close>

definition high_slot :: "u64 \<Rightarrow> nat" where
  "high_slot bitmap = RTREE_INDEX_BITS - builtin_clzll bitmap - 1"

definition low_slot :: "u64 \<Rightarrow> nat" where
  "low_slot bitmap = builtin_ffsll bitmap - 1"

fun rt_edge :: "(u64 \<Rightarrow> nat) \<Rightarrow> 'a rtree \<Rightarrow> nat \<Rightarrow> 'a rtree_node \<Rightarrow> nat \<Rightarrow> 'a slot option" where
  "rt_edge pick t fuel n off =
     do {
       c_assert (n_slots n off \<noteq> Null);
       if n_height n > 1 then
         (case fuel of
            0 \<Rightarrow> None
          | Suc fuel' \<Rightarrow>
              (case n_slots n off of
                 Node a \<Rightarrow> do { m \<leftarrow> mem t a; rt_edge pick t fuel' m (pick (n_bitmap m)) }
               | _ \<Rightarrow> None))
       else Some (n_slots n off)
     }"

definition rtree_search_around :: "'a rtree \<Rightarrow> u64 \<Rightarrow> 'a slot option" where
  "rtree_search_around t key =
     (if key > height_to_maxindex ! r_height t then Some Null
      else if r_height t = 0 then Some (r_rnode t)
      else
        do {
          (slot, pos) \<leftarrow> rt_walk t key (r_height t) (r_rnode t) None;
          if slot \<noteq> Null then Some slot
          else
            (case pos of
               None \<Rightarrow> None
             | Some (np, off) \<Rightarrow>
                 do {
                   n \<leftarrow> mem t np;
                   c_assert (n_count n \<noteq> 0);
                   let side_bitmap = n_bitmap n AND high_mask off;
                   if side_bitmap \<noteq> 0 then
                     rt_edge high_slot t (r_height t) n (high_slot side_bitmap)
                   else if n_height n = r_height t then Some Null
                   else rt_edge low_slot t (r_height t) n (low_slot (n_bitmap n))
                 })
        })"

definition rtree_hint_search_around ::
  "'a rtree \<Rightarrow> u64 \<Rightarrow> u64 \<Rightarrow> node_addr option \<Rightarrow> 'a slot option" where
  "rtree_hint_search_around t key hint_key hint_parent =
     (case hint_parent of
        None \<Rightarrow> rtree_search_around t key
      | Some a \<Rightarrow>
          do {
            n \<leftarrow> mem t a;
            c_assert (n_height n = 1);
            if drop_bit RTREE_MAP_SHIFT hint_key = drop_bit RTREE_MAP_SHIFT key then
              (let sl = n_slots n (unat (key AND RTREE_MAP_MASK)) in
               if sl \<noteq> Null then Some sl
               else Some (n_slots n (unat (hint_key AND RTREE_MAP_MASK))))
            else rtree_search_around t key
          })"

definition rtree_initialization :: "'a rtree" where
  "rtree_initialization =
     \<lparr>r_height = 0, r_rnode = Null, p_rtn = rtn_initialization, mem = (\<lambda>_. None)\<rparr>"

end
