(* ===== verification/Rtree_Inv.thy ===== *)
theory Rtree_Inv
  imports Rtree
begin

text \<open>
  The representation invariant of the radix tree and the correctness of its operations. A tree of
  height \<open>H\<close> represents a finite map \<open>M\<close> from keys to items. Its nodes are described by a level
  map \<open>L\<close>: \<open>L h k\<close> is the address of the node of height \<open>h\<close> whose keys are those with
  \<open>key div 64 ^ h = k\<close>. All conditions are pointwise, so an operation that writes one node changes
  \<open>L\<close> or \<open>M\<close> at one point.
\<close>

section \<open>Offsets and the height table\<close>

lemma rt_offset_eq: "rt_offset key (Suc h) = unat key div 64 ^ h mod 64"
proof -
  have "(2::nat) ^ (h * 6) = 64 ^ h" by (simp add: mult.commute[of h] power_mult)
  then show ?thesis
    by (simp add: rt_offset_def rtree_consts unat_and_63 unat_drop_bit)
qed

lemma rt_offset_less [simp]: "rt_offset key (Suc h) < 64"
  by (simp add: rt_offset_eq)

lemma unat_maxindex: "h \<le> 10 \<Longrightarrow> unat (maxindex h) = 64 ^ h - 1"
proof -
  assume h: "h \<le> 10"
  have "maxindex h = mask (h * 6)"
    using h by (cases "h = 0") (auto simp: maxindex_def rtree_consts Let_def)
  moreover have "unat (mask (h * 6) :: u64) = 2 ^ (h * 6) - 1"
  proof -
    have "unat (take_bit (h * 6) (- 1) :: u64) = take_bit (h * 6) (unat (- 1 :: u64))"
      by (rule unsigned_take_bit_eq)
    also have "\<dots> = mask (min (h * 6) 64)"
      by (simp only: unsigned_minus_1_eq_mask take_bit_of_mask len_of_numeral_defs len_num0)
        (simp add: take_bit_of_mask)
    finally show ?thesis using h by (simp add: take_bit_minus_one_eq_mask mask_eq_exp_minus_1)
  qed
  moreover have "(2::nat) ^ (h * 6) = 64 ^ h" by (simp add: mult.commute[of h] power_mult)
  ultimately show ?thesis by simp
qed

lemma height_table: "h \<le> 11 \<Longrightarrow> height_to_maxindex ! h = maxindex h"
  by (simp add: height_to_maxindex_def rtree_consts del: upt_Suc)

lemma key_beyond: "h \<le> 10 \<Longrightarrow> key > height_to_maxindex ! h \<longleftrightarrow> 64 ^ h \<le> unat key"
proof -
  have "0 < (64::nat) ^ h" by simp
  then have "64 ^ h - 1 < unat key \<longleftrightarrow> 64 ^ h \<le> unat key" by linarith
  moreover assume "h \<le> 10"
  ultimately show ?thesis by (simp only: height_table word_less_nat_alt unat_maxindex)
qed

lemma rt_fit_height_eq:
  assumes "h \<le> 8" and "unat key < 64 ^ 8"
  shows "rt_fit_height key h = (LEAST j. h \<le> j \<and> unat key < 64 ^ j)"
  using assms(1)
proof (induction "8 - h" arbitrary: h rule: less_induct)
  case less
  show ?case
  proof (cases "64 ^ h \<le> unat key")
    case True
    then have lt: "h < 8" using assms(2) less.prems by (cases "h = 8") auto
    have "rt_fit_height key h = rt_fit_height key (Suc h)"
      using True less.prems key_beyond[of h key]
      by (subst rt_fit_height.simps) (simp add: rtree_consts)
    also have "\<dots> = (LEAST j. Suc h \<le> j \<and> unat key < 64 ^ j)"
      using less.hyps[of "Suc h"] lt by simp
    also have "\<dots> = (LEAST j. h \<le> j \<and> unat key < 64 ^ j)"
      using True by (intro arg_cong[where f = Least]) (auto simp: fun_eq_iff Suc_le_eq order_le_less)
    finally show ?thesis .
  next
    case False
    then have "rt_fit_height key h = h"
      using less.prems key_beyond[of h key] by (subst rt_fit_height.simps) simp
    also have "h = (LEAST j. h \<le> j \<and> unat key < 64 ^ j)"
      using False by (intro Least_equality[symmetric]) auto
    finally show ?thesis .
  qed
qed

lemma rt_fit_height_props:
  assumes "h \<le> 8" and "unat key < 64 ^ 8"
  shows "h \<le> rt_fit_height key h" "rt_fit_height key h \<le> 8"
    "unat key < 64 ^ rt_fit_height key h"
proof -
  have ex: "h \<le> 8 \<and> unat key < 64 ^ 8" using assms by simp
  note L = LeastI[of "\<lambda>j. h \<le> j \<and> unat key < 64 ^ j" 8, OF ex]
  show "h \<le> rt_fit_height key h" "unat key < 64 ^ rt_fit_height key h"
    using L by (simp_all add: rt_fit_height_eq[OF assms])
  show "rt_fit_height key h \<le> 8"
    using Least_le[of "\<lambda>j. h \<le> j \<and> unat key < 64 ^ j" 8, OF ex]
    by (simp add: rt_fit_height_eq[OF assms])
qed

section \<open>Bitmaps\<close>

lemma bit_bitmap_bit [simp]: "bit (bitmap_bit i) j \<longleftrightarrow> i = j \<and> i < 64"
  by (auto simp: bitmap_bit_def push_bit_eq_mult bit_exp_iff possible_bit_def)

lemma bit_bitmap_mask: "j < 64 \<Longrightarrow> bit (bitmap_mask i) j \<longleftrightarrow> i \<noteq> j"
  by (auto simp: bitmap_mask_def bit_not_iff)

lemma bit_high_mask: "i \<le> 64 \<Longrightarrow> bit (high_mask i) j \<longleftrightarrow> j < i"
proof (induction i arbitrary: j)
  case (Suc i)
  have "bit (high_mask (Suc i)) j \<longleftrightarrow> bit (high_mask i) j \<or> bit (bitmap_bit i) j"
    by (simp only: high_mask.simps bit_or_iff bitmap_bit_def)
  also have "\<dots> \<longleftrightarrow> j < i \<or> j = i"
    using Suc.prems by (simp only: bit_bitmap_bit Suc.IH[OF Suc_leD]) linarith
  also have "\<dots> \<longleftrightarrow> j < Suc i" by linarith
  finally show ?case .
qed simp

lemma high_slot_props:
  assumes "(w::u64) \<noteq> 0"
  shows "high_slot w < 64" "bit w (high_slot w)" "\<And>i. bit w i \<Longrightarrow> i \<le> high_slot w"
proof -
  have hs: "high_slot w = 64 - builtin_clzll w - 1"
    by (simp add: high_slot_def RTREE_INDEX_BITS_def)
  show "high_slot w < 64" unfolding hs by (rule clzll_highest(1)[OF assms])
  show "bit w (high_slot w)" unfolding hs by (rule clzll_highest(2)[OF assms])
  fix i assume i: "bit w i"
  then have "i < 64" using bit_imp_le_length[of w i] by simp
  with i show "i \<le> high_slot w" unfolding hs by (intro clzll_highest(3)[OF assms])
qed

lemma low_slot_props:
  assumes "(w::u64) \<noteq> 0"
  shows "low_slot w < 64" "bit w (low_slot w)" "\<And>i. bit w i \<Longrightarrow> low_slot w \<le> i"
  unfolding low_slot_def by (fact ffsll_lowest[OF assms])+

section \<open>Representation\<close>

type_synonym levels = "nat \<Rightarrow> nat \<Rightarrow> node_addr option"

definition islot :: "'a option \<Rightarrow> 'a slot" where
  "islot x = (case x of None \<Rightarrow> Null | Some y \<Rightarrow> Item y)"

definition nslot :: "node_addr option \<Rightarrow> 'a slot" where
  "nslot a = (case a of None \<Rightarrow> Null | Some b \<Rightarrow> Node b)"

lemma islot_simps [simp]: "islot None = Null" "islot (Some y) = Item y" "islot x = Null \<longleftrightarrow> x = None"
  "islot x = Item y \<longleftrightarrow> x = Some y" "islot x \<noteq> Node a"
  by (auto simp: islot_def split: option.splits)

lemma nslot_simps [simp]: "nslot None = Null" "nslot (Some y) = Node y" "nslot x = Null \<longleftrightarrow> x = None"
  "nslot x = Node y \<longleftrightarrow> x = Some y" "nslot x \<noteq> Item z"
  by (auto simp: nslot_def split: option.splits)

definition child :: "levels \<Rightarrow> (nat \<rightharpoonup> 'a) \<Rightarrow> nat \<Rightarrow> nat \<Rightarrow> 'a slot" where
  "child L M h k = (if h = 0 then islot (M k) else nslot (L h k))"

definition occ :: "levels \<Rightarrow> (nat \<rightharpoonup> 'a) \<Rightarrow> nat \<Rightarrow> nat \<Rightarrow> nat set" where
  "occ L M h k = {i. i < 64 \<and> child L M h (64 * k + i) \<noteq> Null}"

definition node_ok :: "levels \<Rightarrow> (nat \<rightharpoonup> 'a) \<Rightarrow> nat \<Rightarrow> nat \<Rightarrow> 'a rtree_node \<Rightarrow> bool" where
  "node_ok L M h k n \<longleftrightarrow>
     n_height n = Suc h \<and> n_parent n = L (Suc (Suc h)) (k div 64) \<and>
     (\<forall>i<64. n_slots n i = child L M h (64 * k + i)) \<and>
     (\<forall>i<64. bit (n_bitmap n) i \<longleftrightarrow> child L M h (64 * k + i) \<noteq> Null) \<and>
     n_count n = of_nat (card (occ L M h k))"

text \<open>\<open>E\<close> holds the position of a node that an insertion has created and not filled yet.\<close>

definition rt_rep ::
  "(nat \<times> nat) set \<Rightarrow> levels \<Rightarrow> (nat \<rightharpoonup> 'a) \<Rightarrow> ('a \<Rightarrow> node_addr option) \<Rightarrow> 'a rtree \<Rightarrow> bool" where
  "rt_rep E L M par t \<longleftrightarrow>
     r_height t \<le> 8 \<and>
     r_rnode t = child L M (r_height t) 0 \<and>
     (\<forall>h k. L h k \<noteq> None \<longrightarrow> 0 < h \<and> h \<le> r_height t) \<and>
     (\<forall>h k. h \<le> r_height t \<longrightarrow> child L M h k \<noteq> Null \<longrightarrow> k < 64 ^ (r_height t - h)) \<and>
     (\<forall>h k h' k' a. L h k = Some a \<longrightarrow> L h' k' = Some a \<longrightarrow> h = h' \<and> k = k') \<and>
     (\<forall>h k. h < r_height t \<longrightarrow> child L M h k \<noteq> Null \<longrightarrow> L (Suc h) (k div 64) \<noteq> None) \<and>
     (\<forall>h k a. L (Suc h) k = Some a \<longrightarrow> (\<exists>n. mem t a = Some n \<and> node_ok L M h k n)) \<and>
     (\<forall>h k. L (Suc h) k \<noteq> None \<longrightarrow> (h, k) \<notin> E \<longrightarrow> occ L M h k \<noteq> {}) \<and>
     dom (mem t) = {a. \<exists>h k. L h k = Some a} \<and>
     pool_inv (p_node (p_rtn t)) \<and> pool_used (p_node (p_rtn t)) = dom (mem t) \<and>
     (\<forall>k x. M k = Some x \<longrightarrow> par x = L 1 (k div 64)) \<and>
     inj_on M (dom M)"

definition rt_abs :: "(nat \<rightharpoonup> 'a) \<Rightarrow> ('a \<Rightarrow> node_addr option) \<Rightarrow> 'a rtree \<Rightarrow> bool" where
  "rt_abs M par t \<longleftrightarrow> (\<exists>L. rt_rep {} L M par t) \<and> (r_height t = 0 \<or> r_rnode t \<noteq> Null)"

lemma rt_repD:
  assumes "rt_rep E L M par t"
  shows "r_height t \<le> 8" "r_rnode t = child L M (r_height t) 0"
    "\<And>h k. L h k \<noteq> None \<Longrightarrow> 0 < h \<and> h \<le> r_height t"
    "\<And>h k. h \<le> r_height t \<Longrightarrow> child L M h k \<noteq> Null \<Longrightarrow> k < 64 ^ (r_height t - h)"
    "\<And>h k h' k' a. L h k = Some a \<Longrightarrow> L h' k' = Some a \<Longrightarrow> h = h' \<and> k = k'"
    "\<And>h k. h < r_height t \<Longrightarrow> child L M h k \<noteq> Null \<Longrightarrow> L (Suc h) (k div 64) \<noteq> None"
    "\<And>h k a. L (Suc h) k = Some a \<Longrightarrow> \<exists>n. mem t a = Some n \<and> node_ok L M h k n"
    "\<And>h k. L (Suc h) k \<noteq> None \<Longrightarrow> (h, k) \<notin> E \<Longrightarrow> occ L M h k \<noteq> {}"
    "dom (mem t) = {a. \<exists>h k. L h k = Some a}"
    "pool_inv (p_node (p_rtn t))" "pool_used (p_node (p_rtn t)) = dom (mem t)"
    "\<And>k x. M k = Some x \<Longrightarrow> par x = L 1 (k div 64)"
    "inj_on M (dom M)"
proof -
  note D = assms[unfolded rt_rep_def]
  show "r_height t \<le> 8" "r_rnode t = child L M (r_height t) 0"
    "dom (mem t) = {a. \<exists>h k. L h k = Some a}"
    "pool_inv (p_node (p_rtn t))" "pool_used (p_node (p_rtn t)) = dom (mem t)" "inj_on M (dom M)"
    using D by simp_all
  show "\<And>h k. L h k \<noteq> None \<Longrightarrow> 0 < h \<and> h \<le> r_height t" using D by (elim conjE) meson
  show "\<And>h k. h \<le> r_height t \<Longrightarrow> child L M h k \<noteq> Null \<Longrightarrow> k < 64 ^ (r_height t - h)"
    using D by (elim conjE) meson
  show "\<And>h k h' k' a. L h k = Some a \<Longrightarrow> L h' k' = Some a \<Longrightarrow> h = h' \<and> k = k'" using D by (elim conjE) meson
  show "\<And>h k. h < r_height t \<Longrightarrow> child L M h k \<noteq> Null \<Longrightarrow> L (Suc h) (k div 64) \<noteq> None"
    using D by (elim conjE) meson
  show "\<And>h k a. L (Suc h) k = Some a \<Longrightarrow> \<exists>n. mem t a = Some n \<and> node_ok L M h k n"
    using D by (elim conjE) meson
  show "\<And>h k. L (Suc h) k \<noteq> None \<Longrightarrow> (h, k) \<notin> E \<Longrightarrow> occ L M h k \<noteq> {}" using D by (elim conjE) meson
  show "\<And>k x. M k = Some x \<Longrightarrow> par x = L 1 (k div 64)" using D by (elim conjE) meson
qed

lemma finite_occ [simp]: "finite (occ L M h k)"
  by (simp add: occ_def)

lemma card_occ_le: "card (occ L M h k) \<le> 64"
  using card_mono[of "{..<64}" "occ L M h k"] by (auto simp: occ_def)

lemma unat_of_nat_64: "n \<le> 64 \<Longrightarrow> unat (of_nat n :: u64) = n"
  by (simp add: unat_of_nat)

lemma of_nat_64_eq_0: "n \<le> 64 \<Longrightarrow> (of_nat n :: u64) = 0 \<longleftrightarrow> n = 0"
proof
  assume "n \<le> 64" and "(of_nat n :: u64) = 0"
  then show "n = 0" using unat_of_nat_64[of n] by simp
qed simp

lemma child_item [simp]: "child L M 0 k = islot (M k)"
  by (simp add: child_def)

lemma child_node [simp]: "child L M (Suc h) k = nslot (L (Suc h) k)"
  by (simp add: child_def)

lemma key_prefix_div: "n div 64 ^ h div 64 = n div 64 ^ Suc (h::nat)" for n :: nat
  by (metis div_mult2_eq power_Suc2)

lemma key_step: "64 * (n div 64 ^ Suc h) + n div 64 ^ h mod 64 = n div 64 ^ (h::nat)" for n :: nat
  using mult_div_mod_eq[of 64 "n div 64 ^ h"] by (simp only: key_prefix_div)

section \<open>Searching\<close>

lemma rt_node_at:
  assumes "rt_rep E L M par t" and "L (Suc h) k = Some a"
  obtains n where "mem t a = Some n" "node_ok L M h k n"
  using rt_repD(7)[OF assms] by blast

lemma node_slot: "node_ok L M h k n \<Longrightarrow> i < 64 \<Longrightarrow> n_slots n i = child L M h (64 * k + i)"
  by (simp add: node_ok_def)

lemma node_key_slot:
  assumes "node_ok L M h (key div 64 ^ Suc h) n"
  shows "n_slots n (key div 64 ^ h mod 64) = child L M h (key div 64 ^ h)"
  using node_slot[OF assms, of "key div 64 ^ h mod 64"] by (simp only: key_step)

lemma null_below:
  assumes rep: "rt_rep E L M par t" and "h' \<le> h" and "h \<le> r_height t"
    and "child L M h (key div 64 ^ h) = Null"
  shows "child L M h' (key div 64 ^ h') = Null"
  using assms(2)
proof (induction rule: inc_induct)
  case base
  show ?case by (rule assms(4))
next
  case (step j)
  then have "j < r_height t" using assms(3) by simp
  moreover have "L (Suc j) (key div 64 ^ j div 64) = None"
    using step.IH by (simp only: key_prefix_div child_node nslot_simps)
  ultimately show ?case using rt_repD(6)[OF rep] by blast
qed

lemma rt_walk_spec:
  assumes rep: "rt_rep E L M par t"
  shows "h \<le> r_height t \<Longrightarrow>
    \<exists>pos'. rt_walk t key h (child L M h (unat key div 64 ^ h)) pos = Some (islot (M (unat key)), pos') \<and>
      (pos' = pos \<and> (h = 0 \<or> child L M h (unat key div 64 ^ h) = Null) \<or>
       (\<exists>h' a. h' < h \<and> L (Suc h') (unat key div 64 ^ Suc h') = Some a \<and>
          pos' = Some (a, unat key div 64 ^ h' mod 64) \<and>
          (h' = 0 \<or> child L M h' (unat key div 64 ^ h') = Null)))"
proof (induction h arbitrary: pos)
  case 0
  then show ?case by simp
next
  case (Suc h)
  let ?k = "unat key div 64 ^ Suc h"
  show ?case
  proof (cases "L (Suc h) ?k")
    case None
    then have "child L M (Suc h) ?k = Null" by simp
    then have "M (unat key) = None"
      using null_below[OF rep _ Suc.prems, of 0 "unat key"] by simp
    with None show ?thesis by (auto simp: Let_def simp del: power_Suc)
  next
    case (Some a)
    then obtain n where n: "mem t a = Some n" "node_ok L M h ?k n"
      by (rule rt_node_at[OF rep])
    have "rt_walk t key (Suc h) (child L M (Suc h) ?k) pos =
        rt_walk t key h (child L M h (unat key div 64 ^ h)) (Some (a, unat key div 64 ^ h mod 64))"
      using Some n(1) by (simp add: Let_def rt_offset_eq node_key_slot[OF n(2)] del: power_Suc)
    moreover have "h \<le> r_height t" using Suc.prems by simp
    from Suc.IH[OF this, of "Some (a, unat key div 64 ^ h mod 64)"]
    obtain pos' where "rt_walk t key h (child L M h (unat key div 64 ^ h))
        (Some (a, unat key div 64 ^ h mod 64)) = Some (islot (M (unat key)), pos')"
      and d: "pos' = Some (a, unat key div 64 ^ h mod 64) \<and>
          (h = 0 \<or> child L M h (unat key div 64 ^ h) = Null) \<or>
        (\<exists>h' a. h' < h \<and> L (Suc h') (unat key div 64 ^ Suc h') = Some a \<and>
          pos' = Some (a, unat key div 64 ^ h' mod 64) \<and>
          (h' = 0 \<or> child L M h' (unat key div 64 ^ h') = Null))"
      by (elim exE conjE)
    moreover have "\<exists>h' a. h' < Suc h \<and> L (Suc h') (unat key div 64 ^ Suc h') = Some a \<and>
          pos' = Some (a, unat key div 64 ^ h' mod 64) \<and>
          (h' = 0 \<or> child L M h' (unat key div 64 ^ h') = Null)"
      using d
    proof (elim disjE exE)
      fix h' a' assume "h' < h \<and> L (Suc h') (unat key div 64 ^ Suc h') = Some a' \<and>
          pos' = Some (a', unat key div 64 ^ h' mod 64) \<and>
          (h' = 0 \<or> child L M h' (unat key div 64 ^ h') = Null)"
      then show ?thesis by (blast intro: less_SucI)
    qed (use Some in blast)
    ultimately show ?thesis by (metis (no_types, lifting))
  qed
qed

lemma rt_walk_root:
  assumes rep: "rt_rep E L M par t" and key: "unat key < 64 ^ r_height t"
  obtains pos where "rt_walk t key (r_height t) (r_rnode t) None = Some (islot (M (unat key)), pos)"
    "pos = None \<and> (r_height t = 0 \<or> r_rnode t = Null) \<or>
       (\<exists>h a. h < r_height t \<and> L (Suc h) (unat key div 64 ^ Suc h) = Some a \<and>
          pos = Some (a, unat key div 64 ^ h mod 64) \<and>
          (h = 0 \<or> child L M h (unat key div 64 ^ h) = Null))"
proof -
  have root: "child L M (r_height t) (unat key div 64 ^ r_height t) = r_rnode t"
    using key rt_repD(2)[OF rep] by simp
  show ?thesis
    using rt_walk_spec[OF rep order_refl, of key None] that unfolding root by blast
qed

lemma rt_key_beyond: "rt_rep E L M par t \<Longrightarrow>
  key > height_to_maxindex ! r_height t \<longleftrightarrow> 64 ^ r_height t \<le> unat key"
  using rt_repD(1)[of E L M par t] by (intro key_beyond) simp

lemma rt_beyond_None:
  assumes "rt_rep E L M par t" and "64 ^ r_height t \<le> k"
  shows "M k = None"
  using rt_repD(4)[OF assms(1), of 0 k] assms(2) by (cases "M k") auto

lemma rtree_search_rep:
  assumes rep: "rt_rep E L M par t"
  shows "rtree_search t key = Some (islot (M (unat key)))"
proof (cases "64 ^ r_height t \<le> unat key")
  case True
  then show ?thesis
    using rt_beyond_None[OF rep] by (simp add: rtree_search_def rt_key_beyond[OF rep])
next
  case False
  then have "unat key < 64 ^ r_height t" by simp
  then obtain pos where "rt_walk t key (r_height t) (r_rnode t) None = Some (islot (M (unat key)), pos)"
    by (rule rt_walk_root[OF rep])
  with False show ?thesis by (simp add: rtree_search_def rt_key_beyond[OF rep])
qed

section \<open>Searching around\<close>

text \<open>
  The descents of \<open>rtree_search_around\<close> along the highest or the lowest slots reach the greatest
  or the least key below the slot they start from; \<open>le\<close> is the order in question.
\<close>

lemma node_bits: "node_ok L M h k n \<Longrightarrow> i < 64 \<Longrightarrow> bit (n_bitmap n) i \<longleftrightarrow> child L M h (64 * k + i) \<noteq> Null"
  by (simp add: node_ok_def)

lemma bit64_less: "bit (w::u64) i \<Longrightarrow> i < 64"
  using bit_imp_le_length[of w i] by simp

lemma node_bitmap_nonzero:
  assumes "node_ok L M h k n" and "occ L M h k \<noteq> {}"
  shows "n_bitmap n \<noteq> 0"
proof -
  obtain i where "i < 64" "child L M h (64 * k + i) \<noteq> Null" using assms(2) by (auto simp: occ_def)
  then have "bit (n_bitmap n) i" using node_bits[OF assms(1)] by blast
  then show ?thesis by auto
qed

lemma node_count_nonzero:
  assumes "node_ok L M h k n" and "occ L M h k \<noteq> {}"
  shows "n_count n \<noteq> 0"
proof -
  have "card (occ L M h k) \<noteq> 0" using assms(2) by simp
  then show ?thesis
    using assms(1) card_occ_le[of L M h k] of_nat_64_eq_0[of "card (occ L M h k)"]
    by (simp add: node_ok_def)
qed

lemma rt_edge_spec:
  assumes rep: "rt_rep {} L M par t"
    and pick: "\<And>w. w \<noteq> 0 \<Longrightarrow> pick w < 64 \<and> bit w (pick w) \<and> (\<forall>i. bit w i \<longrightarrow> le i (pick w))"
    and le_div: "\<And>a b d. le (a div d) (b div d) \<Longrightarrow> a div d \<noteq> b div d \<Longrightarrow> le a b"
    and le_add: "\<And>a b c. le a b \<Longrightarrow> le (c + a) (c + b)" and le_refl: "\<And>a. le a a"
  shows "node_ok L M h k n \<Longrightarrow> h < r_height t \<Longrightarrow> h \<le> fuel \<Longrightarrow> off < 64 \<Longrightarrow>
    child L M h (64 * k + off) \<noteq> Null \<Longrightarrow>
    \<exists>j x. rt_edge pick t fuel n off = Some (Item x) \<and> M j = Some x \<and> j div 64 ^ h = 64 * k + off \<and>
      (\<forall>j' y. M j' = Some y \<longrightarrow> j' div 64 ^ h = 64 * k + off \<longrightarrow> le j' j)"
proof (induction h arbitrary: k n off fuel)
  case 0
  then obtain x where x: "M (64 * k + off) = Some x" by auto
  have "n_slots n off = Item x" "n_height n = 1"
    using node_slot[OF 0(1) 0(4)] x 0(1) by (simp_all add: node_ok_def)
  then show ?case using x le_refl by (subst rt_edge.simps) auto
next
  case (Suc h)
  let ?k = "64 * k + off"
  obtain a where a: "L (Suc h) ?k = Some a" using Suc.prems(5) by auto
  then obtain m where m: "mem t a = Some m" "node_ok L M h ?k m" by (rule rt_node_at[OF rep])
  have occ: "occ L M h ?k \<noteq> {}" using rt_repD(8)[OF rep] a by auto
  let ?off = "pick (n_bitmap m)"
  from pick[OF node_bitmap_nonzero[OF m(2) occ]]
  have off: "?off < 64" "bit (n_bitmap m) ?off" "\<And>i. bit (n_bitmap m) i \<Longrightarrow> le i ?off" by auto
  have ch: "child L M h (64 * ?k + ?off) \<noteq> Null" using node_bits[OF m(2) off(1)] off(2) by blast
  obtain fuel' where fuel: "fuel = Suc fuel'" "h \<le> fuel'" using Suc.prems(3) by (cases fuel) auto
  have hh: "h < r_height t" using Suc.prems(2) by simp
  from Suc.IH[OF m(2) hh fuel(2) off(1) ch]
  obtain j x where j: "rt_edge pick t fuel' m ?off = Some (Item x)" "M j = Some x"
    "j div 64 ^ h = 64 * ?k + ?off"
    "\<And>j' y. M j' = Some y \<Longrightarrow> j' div 64 ^ h = 64 * ?k + ?off \<Longrightarrow> le j' j" by blast
  have sl: "n_slots n off = Node a" "n_height n > 1"
    using node_slot[OF Suc.prems(1,4)] a Suc.prems(1) by (auto simp: node_ok_def)
  have edge: "rt_edge pick t fuel n off = Some (Item x)"
    using sl m(1) j(1) by (subst rt_edge.simps) (simp add: fuel del: rt_edge.simps)
  have jk: "j div 64 ^ Suc h = ?k"
    using j(3) off(1) by (simp add: key_prefix_div[symmetric] del: power_Suc)
  have "le j' j" if "M j' = Some y" and jk': "j' div 64 ^ Suc h = ?k" for j' y
  proof -
    let ?i = "j' div 64 ^ h mod 64"
    have dec: "j' div 64 ^ h = 64 * ?k + ?i" using key_step[of j' h] jk' by simp
    have "child L M h (j' div 64 ^ h) \<noteq> Null"
      using null_below[OF rep, of 0 h j'] hh that(1) by auto
    then have "le ?i ?off" using off(3) node_bits[OF m(2), of ?i] dec by simp
    then have "le (64 * ?k + ?i) (64 * ?k + ?off)" by (rule le_add)
    then have "le (j' div 64 ^ h) (j div 64 ^ h)" using dec j(3) by metis
    then show ?thesis using le_div j(4)[OF that(1)] j(3) by metis
  qed
  with edge j(2) jk show ?case by blast
qed

definition rt_around :: "(nat \<rightharpoonup> 'a) \<Rightarrow> nat \<Rightarrow> 'a slot \<Rightarrow> bool" where
  "rt_around M key sl \<longleftrightarrow>
     (case sl of
        Null \<Rightarrow> (\<forall>j \<in> dom M. j < key) \<or> (\<forall>j \<in> dom M. key < j)
      | Node _ \<Rightarrow> False
      | Item x \<Rightarrow>
          \<exists>j. M j = Some x \<and>
            (j = key \<or>
             key \<notin> dom M \<and> j < key \<and> (\<forall>i \<in> dom M. i < key \<longrightarrow> i \<le> j) \<or>
             key \<notin> dom M \<and> key < j \<and> (\<forall>i \<in> dom M. key < i \<longrightarrow> j \<le> i)))"

lemma div_less_imp: "(a::nat) div d < b div d \<Longrightarrow> a < b"
  by (metis div_le_mono linorder_not_le)

lemma rt_edge_high:
  assumes rep: "rt_rep {} L M par t"
    and "node_ok L M h k n" "h < r_height t" "h \<le> fuel" "off < 64"
      "child L M h (64 * k + off) \<noteq> Null"
  shows "\<exists>j x. rt_edge high_slot t fuel n off = Some (Item x) \<and> M j = Some x \<and>
    j div 64 ^ h = 64 * k + off \<and>
    (\<forall>j' y. M j' = Some y \<longrightarrow> j' div 64 ^ h = 64 * k + off \<longrightarrow> j' \<le> j)"
proof (rule rt_edge_spec[OF rep, where le = "\<lambda>a b. a \<le> b"])
  show "high_slot w < 64 \<and> bit w (high_slot w) \<and> (\<forall>i. bit w i \<longrightarrow> i \<le> high_slot w)"
    if "w \<noteq> 0" for w using high_slot_props[OF that] by blast
  show "a \<le> b" if "a div d \<le> b div d" "a div d \<noteq> b div d" for a b d :: nat
    using div_less_imp[of a d b] that by linarith
qed (use assms in auto)

lemma rt_edge_low:
  assumes rep: "rt_rep {} L M par t"
    and "node_ok L M h k n" "h < r_height t" "h \<le> fuel" "off < 64"
      "child L M h (64 * k + off) \<noteq> Null"
  shows "\<exists>j x. rt_edge low_slot t fuel n off = Some (Item x) \<and> M j = Some x \<and>
    j div 64 ^ h = 64 * k + off \<and>
    (\<forall>j' y. M j' = Some y \<longrightarrow> j' div 64 ^ h = 64 * k + off \<longrightarrow> j \<le> j')"
proof (rule rt_edge_spec[OF rep, where le = "\<lambda>a b. b \<le> a"])
  show "low_slot w < 64 \<and> bit w (low_slot w) \<and> (\<forall>i. bit w i \<longrightarrow> low_slot w \<le> i)"
    if "w \<noteq> 0" for w using low_slot_props[OF that] by blast
  show "b \<le> a" if "b div d \<le> a div d" "a div d \<noteq> b div d" for a b d :: nat
    using div_less_imp[of b d a] that by linarith
qed (use assms in auto)

lemma rt_around_left:
  assumes rep: "rt_rep {} L M par t" and h: "h < r_height t"
    and n: "node_ok L M h k n" and a: "L (Suc h) k = Some a" and key: "key div 64 ^ Suc h = k"
    and miss: "child L M h (key div 64 ^ h) = Null"
    and side: "n_bitmap n AND high_mask (key div 64 ^ h mod 64) \<noteq> 0"
  shows "\<exists>sl. rt_edge high_slot t (r_height t) n
      (high_slot (n_bitmap n AND high_mask (key div 64 ^ h mod 64))) = Some sl \<and> rt_around M key sl"
proof -
  let ?o = "key div 64 ^ h mod 64"
  let ?s = "n_bitmap n AND high_mask ?o"
  let ?p = "high_slot ?s"
  have o: "?o \<le> 64" by (simp add: less_imp_le)
  have sb: "bit ?s i \<longleftrightarrow> bit (n_bitmap n) i \<and> i < ?o" for i
    by (simp only: bit_and_iff bit_high_mask[OF o])
  have p: "?p < 64" "bit (n_bitmap n) ?p" "?p < ?o" "\<And>i. bit (n_bitmap n) i \<Longrightarrow> i < ?o \<Longrightarrow> i \<le> ?p"
    using high_slot_props[OF side] by (simp_all only: sb)
  have ch: "child L M h (64 * k + ?p) \<noteq> Null" using node_bits[OF n p(1)] p(2) by blast
  have hk: "h \<le> r_height t" using h by simp
  from rt_edge_high[OF rep n h hk p(1) ch]
  obtain j x where j: "rt_edge high_slot t (r_height t) n ?p = Some (Item x)" "M j = Some x"
    "j div 64 ^ h = 64 * k + ?p"
    "\<And>j' y. M j' = Some y \<Longrightarrow> j' div 64 ^ h = 64 * k + ?p \<Longrightarrow> j' \<le> j"
    by blast
  have keyh: "key div 64 ^ h = 64 * k + ?o" using key_step[of key h] key by simp
  have nkey: "M key = None" using null_below[OF rep _ hk miss, of 0] by simp
  have "64 * k + ?p < 64 * k + ?o" by (rule add_strict_left_mono[OF p(3)])
  then have "j div 64 ^ h < key div 64 ^ h" using j(3) keyh by metis
  then have "j < key" by (rule div_less_imp)
  moreover have "i \<le> j" if "i \<in> dom M" "i < key" for i
  proof (rule ccontr)
    assume "\<not> i \<le> j"
    then have ji: "j div 64 ^ h \<le> i div 64 ^ h" by (intro div_le_mono) simp
    have ik: "i div 64 ^ h \<le> key div 64 ^ h" using that(2) by (intro div_le_mono) simp
    let ?d = "i div 64 ^ h - 64 * k"
    have d: "i div 64 ^ h = 64 * k + ?d" "?d \<le> ?o" using ji ik j(3) keyh by linarith+
    have nn: "child L M h (i div 64 ^ h) \<noteq> Null"
      using null_below[OF rep _ hk, of 0 i] that(1) by auto
    then have "?d \<noteq> ?o" using miss d(1) keyh by metis
    then have lt: "?d < ?o" using d(2) by simp
    then have "?d < 64" using o by simp
    then have "bit (n_bitmap n) ?d" using node_bits[OF n, of ?d] nn d(1) by simp
    then have "?d \<le> ?p" using p(4) lt by blast
    moreover have "?p \<le> ?d" using ji j(3) d(1) by linarith
    ultimately have "i div 64 ^ h = 64 * k + ?p" using d(1) by simp
    with j(4) that(1) \<open>\<not> i \<le> j\<close> show False by auto
  qed
  ultimately show ?thesis using j(1,2) nkey by (auto simp: rt_around_def)
qed

lemma rt_around_right:
  assumes rep: "rt_rep {} L M par t" and h: "h < r_height t"
    and n: "node_ok L M h k n" and a: "L (Suc h) k = Some a" and key: "key div 64 ^ Suc h = k"
    and miss: "child L M h (key div 64 ^ h) = Null"
    and side: "n_bitmap n AND high_mask (key div 64 ^ h mod 64) = 0"
  shows "\<exists>sl. rt_edge low_slot t (r_height t) n (low_slot (n_bitmap n)) = Some sl \<and>
    rt_around M key sl"
proof -
  let ?o = "key div 64 ^ h mod 64"
  let ?p = "low_slot (n_bitmap n)"
  have o: "?o \<le> 64" by (simp add: less_imp_le)
  have nolow: "\<not> (bit (n_bitmap n) i \<and> i < ?o)" for i
    using side bit_and_iff[of "n_bitmap n" "high_mask ?o" i] by (simp only: bit_high_mask[OF o]) simp
  have "occ L M h k \<noteq> {}" using rt_repD(8)[OF rep] a by auto
  note p = low_slot_props[OF node_bitmap_nonzero[OF n this]]
  have ch: "child L M h (64 * k + ?p) \<noteq> Null" using node_bits[OF n p(1)] p(2) by blast
  have hk: "h \<le> r_height t" using h by simp
  from rt_edge_low[OF rep n h hk p(1) ch]
  obtain j x where j: "rt_edge low_slot t (r_height t) n ?p = Some (Item x)" "M j = Some x"
    "j div 64 ^ h = 64 * k + ?p"
    "\<And>j' y. M j' = Some y \<Longrightarrow> j' div 64 ^ h = 64 * k + ?p \<Longrightarrow> j \<le> j'"
    by blast
  have keyh: "key div 64 ^ h = 64 * k + ?o" using key_step[of key h] key by simp
  have nkey: "M key = None" using null_below[OF rep _ hk miss, of 0] by simp
  have "?p \<noteq> ?o" using ch miss keyh by metis
  then have po: "?o < ?p" using nolow[of ?p] p(2) by linarith
  have "64 * k + ?o < 64 * k + ?p" by (rule add_strict_left_mono[OF po])
  then have "key div 64 ^ h < j div 64 ^ h" using j(3) keyh by metis
  then have "key < j" by (rule div_less_imp)
  moreover have "j \<le> i" if "i \<in> dom M" "key < i" for i
  proof (rule ccontr)
    assume "\<not> j \<le> i"
    then have ij: "i div 64 ^ h \<le> j div 64 ^ h" by (intro div_le_mono) simp
    have ki: "key div 64 ^ h \<le> i div 64 ^ h" using that(2) by (intro div_le_mono) simp
    let ?d = "i div 64 ^ h - 64 * k"
    have d: "i div 64 ^ h = 64 * k + ?d" "?d \<le> ?p" using ij ki j(3) keyh by linarith+
    have nn: "child L M h (i div 64 ^ h) \<noteq> Null"
      using null_below[OF rep _ hk, of 0 i] that(1) by auto
    have "?d < 64" using d(2) p(1) by simp
    then have "bit (n_bitmap n) ?d" using node_bits[OF n, of ?d] nn d(1) by simp
    then have "?p \<le> ?d" by (rule p(3))
    then have "i div 64 ^ h = 64 * k + ?p" using d by simp
    with j(4) that(1) \<open>\<not> j \<le> i\<close> show False by auto
  qed
  ultimately show ?thesis using j(1,2) nkey by (auto simp: rt_around_def)
qed

lemma rt_around_root:
  assumes rep: "rt_rep {} L M par t" and H: "r_height t = Suc h"
    and n: "node_ok L M h 0 n" and key: "key < 64 ^ Suc h"
    and miss: "child L M h (key div 64 ^ h) = Null"
    and side: "n_bitmap n AND high_mask (key div 64 ^ h mod 64) = 0"
    and i: "i \<in> dom M"
  shows "key < i"
proof (rule ccontr)
  let ?o = "key div 64 ^ h"
  assume "\<not> key < i"
  then have ik: "i div 64 ^ h \<le> ?o" by (intro div_le_mono) simp
  have o: "?o < 64" using key by (simp add: less_mult_imp_div_less mult.commute)
  have nn: "child L M h (i div 64 ^ h) \<noteq> Null"
    using null_below[OF rep, of 0 h i] H i by auto
  then have "i div 64 ^ h \<noteq> ?o" using miss by metis
  then have lt: "i div 64 ^ h < ?o" using ik by simp
  then have "bit (n_bitmap n) (i div 64 ^ h)" using node_bits[OF n, of "i div 64 ^ h"] nn o by simp
  moreover have "bit (high_mask (?o mod 64)) (i div 64 ^ h)"
    using lt o by (simp add: bit_high_mask)
  ultimately have "bit (n_bitmap n AND high_mask (?o mod 64)) (i div 64 ^ h)"
    by (simp only: bit_and_iff)
  then show False unfolding side by simp
qed

lemma rt_edge_not_Null: "rt_edge pick t fuel n off \<noteq> Some Null"
  by (induction pick t fuel n off rule: rt_edge.induct) (subst rt_edge.simps, auto simp: bind_eq_Some_conv simp del: rt_edge.simps split: nat.splits slot.splits if_splits)

lemma rtree_search_around_null:
  assumes rep: "rt_rep {} L M par t" and root: "r_height t = 0 \<or> r_rnode t \<noteq> Null"
  shows "\<exists>sl. rtree_search_around t key = Some sl \<and> rt_around M (unat key) sl \<and>
    (sl = Null \<longrightarrow> 64 ^ r_height t \<le> unat key \<or> (\<forall>j \<in> dom M. unat key < j))"
proof (cases "64 ^ r_height t \<le> unat key")
  case True
  have "j < unat key" if "j \<in> dom M" for j
    using rt_repD(4)[OF rep, of 0 j] that True by fastforce
  then show ?thesis
    using True by (simp add: rtree_search_around_def rt_key_beyond[OF rep] rt_around_def)
next
  case False
  note nb = False
  then have lt: "unat key < 64 ^ r_height t" by simp
  have key: "\<not> height_to_maxindex ! r_height t < key"
    using False rt_key_beyond[OF rep] by blast
  show ?thesis
  proof (cases "r_height t = 0")
    case True
    then have k0: "unat key = 0" using lt by simp
    have "j = 0" if "j \<in> dom M" for j using rt_repD(4)[OF rep, of 0 j] that True by fastforce
    then have "rt_around M (unat key) (r_rnode t)" "r_rnode t = Null \<Longrightarrow> dom M = {}"
      unfolding k0 using rt_repD(2)[OF rep] True
      by (cases "M 0"; auto simp: rt_around_def)+
    then show ?thesis using True key by (auto simp: rtree_search_around_def)
  next
    case False
    obtain pos where w: "rt_walk t key (r_height t) (r_rnode t) None = Some (islot (M (unat key)), pos)"
      and pos: "pos = None \<and> (r_height t = 0 \<or> r_rnode t = Null) \<or>
       (\<exists>h a. h < r_height t \<and> L (Suc h) (unat key div 64 ^ Suc h) = Some a \<and>
          pos = Some (a, unat key div 64 ^ h mod 64) \<and>
          (h = 0 \<or> child L M h (unat key div 64 ^ h) = Null))"
      by (rule rt_walk_root[OF rep lt])
    show ?thesis
    proof (cases "M (unat key)")
      case (Some x)
      then have "rt_around M (unat key) (Item x)" by (auto simp: rt_around_def)
      then show ?thesis using w Some key False by (simp add: rtree_search_around_def)
    next
      case None
      then obtain h a where h: "h < r_height t" and a: "L (Suc h) (unat key div 64 ^ Suc h) = Some a"
        and p: "pos = Some (a, unat key div 64 ^ h mod 64)"
        and miss: "child L M h (unat key div 64 ^ h) = Null"
        using pos root False by (metis child_item div_by_1 islot_simps(1) power_0)
      obtain n where n: "mem t a = Some n" "node_ok L M h (unat key div 64 ^ Suc h) n"
        using a by (rule rt_node_at[OF rep])
      let ?side = "n_bitmap n AND high_mask (unat key div 64 ^ h mod 64)"
      have cnt: "n_count n \<noteq> 0"
        using rt_repD(8)[OF rep, of h "unat key div 64 ^ Suc h"] a
        by (intro node_count_nonzero[OF n(2)]) simp
      have eq: "rtree_search_around t key =
          (if ?side \<noteq> 0 then rt_edge high_slot t (r_height t) n (high_slot ?side)
           else if n_height n = r_height t then Some Null
           else rt_edge low_slot t (r_height t) n (low_slot (n_bitmap n)))"
        using w None key False n(1) cnt
        by (simp add: rtree_search_around_def p Let_def del: rt_edge.simps)
      consider (left) "?side \<noteq> 0" | (root) "?side = 0" "n_height n = r_height t"
        | (right) "?side = 0" "n_height n \<noteq> r_height t" by blast
      then show ?thesis
      proof cases
        case left
        then show ?thesis unfolding eq
          using rt_around_left[OF rep h n(2) a refl miss left] rt_edge_not_Null by fastforce
      next
        case root
        then have H: "r_height t = Suc h" using n(2) by (simp add: node_ok_def)
        then have "unat key div 64 ^ Suc h = 0" using lt by simp
        then have n0: "node_ok L M h 0 n" using n(2) by metis
        have "unat key < 64 ^ Suc h" using lt H by simp
        from rt_around_root[OF rep H n0 this miss root(1)]
        have "rt_around M (unat key) Null" "\<forall>j \<in> dom M. unat key < j" by (auto simp: rt_around_def)
        then show ?thesis unfolding eq using root by simp
      next
        case right
        then show ?thesis unfolding eq
          using rt_around_right[OF rep h n(2) a refl miss right(1)] rt_edge_not_Null by fastforce
      qed
    qed
  qed
qed

lemma rtree_search_around_rep:
  assumes "rt_rep {} L M par t" and "r_height t = 0 \<or> r_rnode t \<noteq> Null"
  shows "\<exists>sl. rtree_search_around t key = Some sl \<and> rt_around M (unat key) sl"
  using rtree_search_around_null[OF assms] by blast

end
