(* ===== verification/Rtree_Ops.thy ===== *)
theory Rtree_Ops
  imports Rtree_Inv
begin

text \<open>
  Insertion into and removal from the radix tree keep its representation and update the
  represented map at the key. The call-backs of the client enter through the locale
  \<open>rtree_client\<close>: its laws are what the tree relies on, and every client of the program
  interprets it with its own call-backs.
\<close>

section \<open>Changing one node\<close>

lemma rt_repI:
  assumes "r_height t \<le> 8" "r_rnode t = child L M (r_height t) 0"
    "\<And>h k a. L h k = Some a \<Longrightarrow> 0 < h \<and> h \<le> r_height t"
    "\<And>h k. h \<le> r_height t \<Longrightarrow> child L M h k \<noteq> Null \<Longrightarrow> k < 64 ^ (r_height t - h)"
    "\<And>h k h' k' a. L h k = Some a \<Longrightarrow> L h' k' = Some a \<Longrightarrow> h = h' \<and> k = k'"
    "\<And>h k. h < r_height t \<Longrightarrow> child L M h k \<noteq> Null \<Longrightarrow> \<exists>a. L (Suc h) (k div 64) = Some a"
    "\<And>h k a. L (Suc h) k = Some a \<Longrightarrow> \<exists>n. mem t a = Some n \<and> node_ok L M h k n"
    "\<And>h k a. L (Suc h) k = Some a \<Longrightarrow> (h, k) \<notin> E \<Longrightarrow> occ L M h k \<noteq> {}"
    "\<And>a. a \<in> dom (mem t) \<longleftrightarrow> (\<exists>h k. L h k = Some a)"
    "pool_inv (p_node (p_rtn t))" "pool_used (p_node (p_rtn t)) = dom (mem t)"
    "\<And>k x. M k = Some x \<Longrightarrow> par x = L 1 (k div 64)"
    "inj_on M (dom M)"
  shows "rt_rep E L M par t"
  unfolding rt_rep_def
proof (intro conjI)
  show "\<forall>h k. L h k \<noteq> None \<longrightarrow> 0 < h \<and> h \<le> r_height t" using assms(3) by auto
  show "\<forall>h k h' k' a. L h k = Some a \<longrightarrow> L h' k' = Some a \<longrightarrow> h = h' \<and> k = k'"
    using assms(5) by blast
  show "\<forall>h k. h < r_height t \<longrightarrow> child L M h k \<noteq> Null \<longrightarrow> L (Suc h) (k div 64) \<noteq> None"
    using assms(6) by fastforce
  show "\<forall>h k. L (Suc h) k \<noteq> None \<longrightarrow> (h, k) \<notin> E \<longrightarrow> occ L M h k \<noteq> {}" using assms(8) by auto
  show "dom (mem t) = {a. \<exists>h k. L h k = Some a}" by (rule set_eqI) (simp only: assms(9) mem_Collect_eq)
qed (use assms(1,2,4,7,10-13) in \<open>blast+\<close>)

definition level_upd :: "levels \<Rightarrow> nat \<Rightarrow> nat \<Rightarrow> node_addr option \<Rightarrow> levels" where
  "level_upd L h k v = L(h := (L h)(k := v))"

lemma level_upd_apply: "level_upd L h k v h' k' = (if h' = h \<and> k' = k then v else L h' k')"
  by (simp add: level_upd_def)

lemma level_upd_drop:
  assumes inj: "\<And>h k h' k' a. L h k = Some a \<Longrightarrow> L h' k' = Some a \<Longrightarrow> h = h' \<and> k = k'"
    and a: "L h0 k0 = Some a"
  shows "b \<noteq> a \<and> (\<exists>h k. L h k = Some b) \<longleftrightarrow> (\<exists>h k. level_upd L h0 k0 None h k = Some b)"
proof
  assume "b \<noteq> a \<and> (\<exists>h k. L h k = Some b)"
  then obtain h k where "L h k = Some b" "b \<noteq> a" by blast
  then have "level_upd L h0 k0 None h k = Some b" using a by (auto simp: level_upd_apply)
  then show "\<exists>h k. level_upd L h0 k0 None h k = Some b" by blast
next
  assume "\<exists>h k. level_upd L h0 k0 None h k = Some b"
  then obtain h k where b: "level_upd L h0 k0 None h k = Some b" by blast
  then have L: "L h k = Some b" and ne: "\<not> (h = h0 \<and> k = k0)"
    by (simp_all add: level_upd_apply split: if_splits)
  then have "b \<noteq> a" using inj[of h k a h0 k0] a by blast
  with L show "b \<noteq> a \<and> (\<exists>h k. L h k = Some b)" by blast
qed

lemma child_level_upd:
  "child (level_upd L (Suc h) k v) M h' k' =
     (if h' = Suc h \<and> k' = k then nslot v else child L M h' k')"
  by (auto simp: child_def level_upd_apply)

lemma child_map_upd:
  "child L (M(n := v)) h k = (if h = 0 \<and> k = n then islot v else child L M h k)"
  by (auto simp: child_def)

lemma node_ok_frame:
  assumes "node_ok L M h k n"
    and "\<And>j. j < 64 \<Longrightarrow> child L' M' h (64 * k + j) = child L M h (64 * k + j)"
    and "L' (Suc (Suc h)) (k div 64) = L (Suc (Suc h)) (k div 64)"
  shows "node_ok L' M' h k n"
proof -
  have "occ L' M' h k = occ L M h k" using assms(2) by (auto simp: occ_def)
  with assms show ?thesis by (simp add: node_ok_def)
qed

lemma node_ok_in:
  assumes ok: "node_ok L M h k n" and i: "i < 64" and null: "child L M h (64 * k + i) = Null"
    and sl: "sl \<noteq> Null"
    and ch: "\<And>j. j < 64 \<Longrightarrow> child L' M' h (64 * k + j) = (if j = i then sl else child L M h (64 * k + j))"
    and up: "L' (Suc (Suc h)) (k div 64) = L (Suc (Suc h)) (k div 64)"
  shows "node_ok L' M' h k (rt_count_in i (rt_set_slot i sl n))"
    "n_count (rt_count_in i (rt_set_slot i sl n)) \<le> 64"
proof -
  have occ: "occ L' M' h k = insert i (occ L M h k)" and nin: "i \<notin> occ L M h k"
    using ch i sl null by (auto simp: occ_def split: if_splits)
  have bits: "bit (n_bitmap n OR bitmap_bit i) j \<longleftrightarrow> child L' M' h (64 * k + j) \<noteq> Null" if "j < 64" for j
    using node_bits[OF ok that] ch[OF that] sl i that null by (auto simp: bit_or_iff)
  have cnt: "n_count n + 1 = of_nat (card (occ L' M' h k))"
    using ok nin by (simp add: occ node_ok_def)
  show "node_ok L' M' h k (rt_count_in i (rt_set_slot i sl n))"
    using ok bits cnt ch up by (simp add: node_ok_def rt_count_in_def rt_set_slot_def)
  show "n_count (rt_count_in i (rt_set_slot i sl n)) \<le> 64"
    using card_occ_le[of L' M' h k] cnt
    by (simp add: rt_count_in_def rt_set_slot_def word_le_nat_alt unat_of_nat_64)
qed

lemma node_ok_out:
  assumes ok: "node_ok L M h k n" and i: "i < 64" and occd: "child L M h (64 * k + i) \<noteq> Null"
    and ch: "\<And>j. j < 64 \<Longrightarrow> child L' M' h (64 * k + j) = (if j = i then Null else child L M h (64 * k + j))"
    and up: "L' (Suc (Suc h)) (k div 64) = L (Suc (Suc h)) (k div 64)"
  shows "node_ok L' M' h k (rt_count_out i (rt_set_slot i Null n))"
    "n_count (rt_count_out i (rt_set_slot i Null n)) = 0 \<longleftrightarrow> occ L' M' h k = {}"
    "n_count (rt_count_out i (rt_set_slot i Null n)) = 0 \<or>
     n_bitmap (rt_count_out i (rt_set_slot i Null n)) \<noteq> 0"
    "n_count (rt_count_out i (rt_set_slot i Null n)) \<le> 64" "0 < n_count n" "n_count n \<le> 64"
proof -
  have occ: "occ L M h k = insert i (occ L' M' h k)" and nin: "i \<notin> occ L' M' h k"
    using ch i occd by (auto simp: occ_def split: if_splits)
  have bits: "bit (n_bitmap n AND bitmap_mask i) j \<longleftrightarrow> child L' M' h (64 * k + j) \<noteq> Null" if "j < 64" for j
    using node_bits[OF ok that] ch[OF that] that by (auto simp: bit_and_iff bit_bitmap_mask)
  have c: "card (occ L M h k) = Suc (card (occ L' M' h k))" using nin by (simp add: occ)
  have cnt: "n_count n - 1 = of_nat (card (occ L' M' h k))"
    using ok c by (simp add: node_ok_def)
  show ok': "node_ok L' M' h k (rt_count_out i (rt_set_slot i Null n))"
    using ok bits cnt ch up by (simp add: node_ok_def rt_count_out_def rt_set_slot_def)
  show c0: "n_count (rt_count_out i (rt_set_slot i Null n)) = 0 \<longleftrightarrow> occ L' M' h k = {}"
    using cnt card_occ_le[of L' M' h k]
    by (simp add: rt_count_out_def rt_set_slot_def of_nat_64_eq_0)
  show "n_count (rt_count_out i (rt_set_slot i Null n)) = 0 \<or>
     n_bitmap (rt_count_out i (rt_set_slot i Null n)) \<noteq> 0"
    using node_bitmap_nonzero[OF ok'] c0 by blast
  show "n_count (rt_count_out i (rt_set_slot i Null n)) \<le> 64"
    using card_occ_le[of L' M' h k] cnt
    by (simp add: rt_count_out_def rt_set_slot_def word_le_nat_alt unat_of_nat_64)
  have un: "unat (n_count n) = card (occ L M h k)"
    using ok card_occ_le[of L M h k] by (simp add: node_ok_def unat_of_nat_64)
  show "0 < n_count n" using un c by (simp add: word_less_nat_alt)
  show "n_count n \<le> 64" using un card_occ_le[of L M h k] by (simp add: word_le_nat_alt)
qed

lemma rt_count_set_slot_commute:
  "rt_set_slot i sl (rt_count_in i n) = rt_count_in i (rt_set_slot i sl n)"
  by (simp add: rt_set_slot_def rt_count_in_def)

section \<open>Allocation\<close>

lemma rtn_get_node_spec:
  assumes "pool_inv (p_node (p_rtn t))" and "pool_used (p_node (p_rtn t)) = dom (mem t)"
  obtains a p where "rtn_get_node t = Some (a, t\<lparr>p_rtn := p\<rparr>)"
    "mem t a = None" "pool_inv (p_node p)" "pool_used (p_node p) = insert a (dom (mem t))"
proof -
  from assms(1) obtain a p' where "node_get_node (p_node (p_rtn t)) = Some (a, p')"
    "pool_inv p'" "a \<notin> pool_used (p_node (p_rtn t))"
    "pool_used p' = insert a (pool_used (p_node (p_rtn t)))"
    by (rule np.getE)
  with assms(2) that[of a "(p_rtn t)\<lparr>p_node := p', p_nused := Suc (p_nused (p_rtn t))\<rparr>"]
  show ?thesis by (auto simp: rtn_get_node_def)
qed

lemma rtn_put_node_spec:
  assumes "pool_inv (p_node (p_rtn t))" and "pool_used (p_node (p_rtn t)) = dom (mem t)"
    and "a \<in> dom (mem t)"
  obtains p where "rtn_put_node a t = Some (t\<lparr>p_rtn := p, mem := (mem t)(a := None)\<rparr>)"
    "pool_inv (p_node p)" "pool_used (p_node p) = dom (mem t) - {a}"
proof -
  from assms(1) have "a \<in> pool_used (p_node (p_rtn t))" using assms(2,3) by simp
  with assms(1) obtain p' where "node_put_node a (p_node (p_rtn t)) = Some p'"
    "pool_inv p'" "pool_used p' = pool_used (p_node (p_rtn t)) - {a}"
    by (rule np.putE)
  with assms(2) that[of "(p_rtn t)\<lparr>p_node := p', p_nused := p_nused (p_rtn t) - 1\<rparr>"]
  show ?thesis by (auto simp: rtn_put_node_def)
qed

section \<open>Adding a node\<close>

lemma prefix_less: "key < 64 ^ H \<Longrightarrow> h \<le> H \<Longrightarrow> key div 64 ^ h < 64 ^ (H - h)" for key :: nat
  by (rule less_mult_imp_div_less) (simp flip: power_add)

lemma rt_rep_children_null:
  assumes rep: "rt_rep E L M par t" and "Suc h \<le> r_height t" and "L (Suc h) k = None" and "i < 64"
  shows "child L M h (64 * k + i) = Null"
proof (rule ccontr)
  assume "child L M h (64 * k + i) \<noteq> Null"
  then have "L (Suc h) ((64 * k + i) div 64) \<noteq> None"
    using assms(2) by (intro rt_repD(6)[OF rep]) simp_all
  then show False using assms(3,4) by simp
qed

lemma rt_rep_fresh:
  assumes rep: "rt_rep E L M par t" and "mem t a = None"
  shows "L h k \<noteq> Some a"
proof
  assume "L h k = Some a"
  then have "a \<in> dom (mem t)" using rt_repD(9)[OF rep] by blast
  then show False using assms(2) by auto
qed

lemma rt_rep_add_node:
  assumes rep: "rt_rep E L M par t" and h: "Suc h \<le> r_height t"
    and key: "key < 64 ^ r_height t"
  defines "k \<equiv> key div 64 ^ Suc h"
  assumes null: "L (Suc h) k = None" and fresh: "mem t a = None"
    and E: "E \<subseteq> {(Suc h, k div 64)}"
    and top: "Suc h < r_height t \<Longrightarrow> L (Suc (Suc h)) (k div 64) \<noteq> None"
  defines "L' \<equiv> level_upd L (Suc h) k (Some a)"
  assumes t': "r_height t' = r_height t" "r_rnode t' = child L' M (r_height t) 0"
    and new: "mem t' a = Some \<lparr>n_height = Suc h, n_bitmap = 0, n_count = 0,
                n_parent = L (Suc (Suc h)) (k div 64), n_slots = (\<lambda>_. Null)\<rparr>"
    and old: "\<And>h' k' b. L (Suc h') k' = Some b \<Longrightarrow> \<exists>n. mem t' b = Some n \<and> node_ok L' M h' k' n"
    and dm: "dom (mem t') = insert a (dom (mem t))"
    and pool: "pool_inv (p_node (p_rtn t'))" "pool_used (p_node (p_rtn t')) = dom (mem t')"
  shows "rt_rep {(h, k)} L' M par t'"
proof (rule rt_repI)
  note D = rt_repD[OF rep]
  have fr: "L h' k' \<noteq> Some a" for h' k' by (rule rt_rep_fresh[OF rep fresh])
  have kless: "k < 64 ^ (r_height t - Suc h)" unfolding k_def by (rule prefix_less[OF key h])
  have ch: "child L' M h' k' = (if h' = Suc h \<and> k' = k then Node a else child L M h' k')" for h' k'
    by (simp add: L'_def child_level_upd)
  have Ls: "L' h' k' = (if h' = Suc h \<and> k' = k then Some a else L h' k')" for h' k'
    by (simp add: L'_def level_upd_apply)
  show "r_height t' \<le> 8" using t' D(1) by simp
  show "r_rnode t' = child L' M (r_height t') 0" using t' by simp
  show "0 < h' \<and> h' \<le> r_height t'" if "L' h' k' = Some b" for h' k' b
    using that D(3)[of h' k'] h t' by (auto simp: Ls split: if_splits)
  show "k' < 64 ^ (r_height t' - h')" if "h' \<le> r_height t'" "child L' M h' k' \<noteq> Null" for h' k'
    using that D(4)[of h' k'] kless t' by (auto simp: ch split: if_splits)
  show "h1 = h2 \<and> k1 = k2" if "L' h1 k1 = Some b" "L' h2 k2 = Some b" for h1 k1 h2 k2 b
    using that D(5)[of h1 k1 b h2 k2] fr by (auto simp: Ls split: if_splits)
  show "\<exists>b. L' (Suc h') (k' div 64) = Some b" if "h' < r_height t'" "child L' M h' k' \<noteq> Null" for h' k'
  proof (cases "L' (Suc h') (k' div 64)")
    case None
    then show ?thesis using that D(6)[of h' k'] top t' by (auto simp: ch Ls split: if_splits)
  qed simp
  show "\<exists>n. mem t' b = Some n \<and> node_ok L' M h' k' n" if b: "L' (Suc h') k' = Some b" for h' k' b
  proof (cases "h' = h \<and> k' = k")
    case True
    have c: "child L' M h (64 * k + i) = Null" if "i < 64" for i
      using rt_rep_children_null[OF rep h null that] by (simp add: ch)
    then have "occ L' M h k = {}" by (auto simp: occ_def)
    then have "node_ok L' M h k \<lparr>n_height = Suc h, n_bitmap = 0, n_count = 0,
                n_parent = L (Suc (Suc h)) (k div 64), n_slots = (\<lambda>_. Null)\<rparr>"
      using c by (simp add: node_ok_def Ls)
    then show ?thesis using True new b by (auto simp: Ls)
  next
    case False
    then show ?thesis using old b by (auto simp: Ls split: if_splits)
  qed
  show "occ L' M h' k' \<noteq> {}" if b: "L' (Suc h') k' = Some b" and "(h', k') \<notin> {(h, k)}" for h' k' b
  proof (cases "(h', k') \<in> E")
    case True
    then have eq: "h' = Suc h" "k' = k div 64" using E by auto
    have "k mod 64 \<in> occ L' M h' k'" by (simp add: occ_def ch eq del: child_node)
    then show ?thesis by blast
  next
    case False
    have "L (Suc h') k' = Some b" using that by (auto simp: Ls split: if_splits)
    then have "occ L M h' k' \<noteq> {}" using D(8) False by blast
    moreover have "occ L M h' k' \<subseteq> occ L' M h' k'" by (auto simp: occ_def ch)
    ultimately show ?thesis by blast
  qed
  show "b \<in> dom (mem t') \<longleftrightarrow> (\<exists>h k. L' h k = Some b)" for b
  proof -
    have "b \<in> dom (mem t') \<longleftrightarrow> b = a \<or> (\<exists>h k. L h k = Some b)" using dm D(9) by auto
    also have "\<dots> \<longleftrightarrow> (\<exists>h k. L' h k = Some b)" using null by (auto simp: Ls) (metis option.distinct(1))+
    finally show ?thesis .
  qed
  show "pool_inv (p_node (p_rtn t'))" "pool_used (p_node (p_rtn t')) = dom (mem t')" by (rule pool)+
  show "par x = L' 1 (j div 64)" if "M j = Some x" for j x
  proof -
    have "L 1 (j div 64) \<noteq> None" using D(6)[of 0 j] that h by simp
    then show ?thesis using D(12)[OF that] null by (auto simp: Ls)
  qed
  show "inj_on M (dom M)" by (rule D(13))
qed

lemma rt_new_child_spec:
  assumes rep: "rt_rep E L M par t" and h: "Suc h \<le> r_height t"
    and key: "key < 64 ^ r_height t"
  defines "k \<equiv> key div 64 ^ Suc h"
  assumes null: "L (Suc h) k = None"
    and E: "E \<subseteq> {(Suc h, k div 64)}"
    and np: "np = L (Suc (Suc h)) (k div 64)"
    and top: "Suc h < r_height t \<Longrightarrow> np \<noteq> None \<and> off = k mod 64"
  shows "\<exists>a t'. rt_new_child (Suc h) np off t = Some (a, t') \<and> r_height t' = r_height t \<and>
    rt_rep {(h, k)} (level_upd L (Suc h) k (Some a)) M par t'"
proof -
  note D = rt_repD[OF rep]
  obtain a p where a: "rtn_get_node t = Some (a, t\<lparr>p_rtn := p\<rparr>)" "mem t a = None"
    "pool_inv (p_node p)" "pool_used (p_node p) = insert a (dom (mem t))"
    using D(10,11) by (rule rtn_get_node_spec)
  let ?L = "level_upd L (Suc h) k (Some a)"
  let ?new = "\<lparr>n_height = Suc h, n_bitmap = 0, n_count = 0, n_parent = np, n_slots = (\<lambda>_. Null)\<rparr>"
  have fr: "L h' k' \<noteq> Some a" for h' k' by (rule rt_rep_fresh[OF rep a(2)])
  have h8: "Suc h \<le> 8" using h D(1) by simp
  have frame: "\<exists>n. mem t b = Some n \<and> node_ok ?L M h' k' n"
    if b: "L (Suc h') k' = Some b" and "(h', k') \<noteq> (Suc h, k div 64)" for h' k' b
  proof -
    from b obtain n where n: "mem t b = Some n" "node_ok L M h' k' n" by (rule rt_node_at[OF rep])
    have "node_ok ?L M h' k' n"
    proof (rule node_ok_frame[OF n(2)])
      show "child ?L M h' (64 * k' + j) = child L M h' (64 * k' + j)" if "j < 64" for j
        using that \<open>(h', k') \<noteq> (Suc h, k div 64)\<close> by (auto simp: child_level_upd)
      show "?L (Suc (Suc h')) (k' div 64) = L (Suc (Suc h')) (k' div 64)"
        using D(6)[of "Suc h'" k'] b null h by (auto simp: level_upd_apply)
    qed
    with n(1) show ?thesis by blast
  qed
  show ?thesis
  proof (cases "Suc h = r_height t")
    case True
    then have "\<not> Suc (Suc h) \<le> r_height t" by simp
    then have "np = None" using D(3)[of "Suc (Suc h)" "k div 64"] np by blast
    let ?t = "rt_write a ?new (t\<lparr>p_rtn := p\<rparr>)\<lparr>r_rnode := Node a\<rparr>"
    have ev: "rt_new_child (Suc h) np off t = Some (a, ?t)"
      using a(1) h8 \<open>np = None\<close> by (simp add: rt_new_child_def Let_def)
    have k0: "k = 0" using key True by (simp add: k_def)
    have noq: "L (Suc (Suc h)) k' = None" for k'
      using D(3)[of "Suc (Suc h)" k'] True by fastforce
    have "rt_rep {(h, key div 64 ^ Suc h)} (level_upd L (Suc h) (key div 64 ^ Suc h) (Some a)) M par ?t"
    proof (rule rt_rep_add_node[OF rep h key])
      show "r_rnode ?t = child (level_upd L (Suc h) (key div 64 ^ Suc h) (Some a)) M (r_height t) 0"
        unfolding True[symmetric] k_def[symmetric] by (simp add: k0 level_upd_apply)
      fix h' k' b assume b: "L (Suc h') k' = Some b"
      then have "h' \<noteq> Suc h" using noq by auto
      then show "\<exists>n. mem ?t b = Some n \<and>
          node_ok (level_upd L (Suc h) (key div 64 ^ Suc h) (Some a)) M h' k' n"
        using frame[OF b] b fr[of "Suc h'" k'] by (auto simp: rt_write_def k_def)
    qed (use null E np a True \<open>np = None\<close> in \<open>simp_all add: k_def rt_write_def del: power_Suc\<close>)
    then show ?thesis using ev by (intro exI[of _ a] exI[of _ ?t]) (simp add: rt_write_def k_def)
  next
    case False
    then have lt: "Suc h < r_height t" using h by simp
    then obtain q where q: "np = Some q" and off: "off = k mod 64" using top by blast
    have Lq: "L (Suc (Suc h)) (k div 64) = Some q" using np q by simp
    obtain m where m: "mem t q = Some m" "node_ok L M (Suc h) (k div 64) m"
      using Lq by (rule rt_node_at[OF rep])
    have qa: "q \<noteq> a" using m(1) a(2) by auto
    let ?m = "rt_count_in off (rt_set_slot off (Node a) m)"
    let ?t = "rt_write q ?m (rt_write a ?new (t\<lparr>p_rtn := p\<rparr>))"
    have o64: "off < 64" by (simp add: off)
    have kk: "64 * (k div 64) + off = k" by (simp add: off)
    have cn: "child L M (Suc h) (64 * (k div 64) + off) = Null" using null by (simp add: kk)
    have okm: "node_ok ?L M (Suc h) (k div 64) ?m" and c64: "n_count ?m \<le> 64"
    proof -
      have "child ?L M (Suc h) (64 * (k div 64) + j) =
          (if j = off then Node a else child L M (Suc h) (64 * (k div 64) + j))" if "j < 64" for j
      proof -
        have "64 * (k div 64) + j = k \<longleftrightarrow> j = off" using kk by linarith
        then show ?thesis by (simp add: level_upd_apply)
      qed
      moreover have "?L (Suc (Suc (Suc h))) (k div 64 div 64) = L (Suc (Suc (Suc h))) (k div 64 div 64)"
        by (simp add: level_upd_apply)
      ultimately show "node_ok ?L M (Suc h) (k div 64) ?m" "n_count ?m \<le> 64"
        using node_ok_in[OF m(2) o64 cn, of "Node a" ?L M] by blast+
    qed
    have ev: "rt_new_child (Suc h) np off t = Some (a, ?t)"
      using a(1) h8 q m(1) qa c64 by (simp add: rt_new_child_def Let_def rt_write_def)
    have "rt_rep {(h, key div 64 ^ Suc h)} (level_upd L (Suc h) (key div 64 ^ Suc h) (Some a)) M par ?t"
    proof (rule rt_rep_add_node[OF rep h key])
      show "r_rnode ?t = child (level_upd L (Suc h) (key div 64 ^ Suc h) (Some a)) M (r_height t) 0"
        using False D(2) by (simp add: rt_write_def child_level_upd del: power_Suc)
      show "L (Suc (Suc h)) (key div 64 ^ Suc h div 64) \<noteq> None"
        using Lq by (simp add: k_def del: power_Suc)
      fix h' k' b assume b: "L (Suc h') k' = Some b"
      show "\<exists>n. mem ?t b = Some n \<and>
          node_ok (level_upd L (Suc h) (key div 64 ^ Suc h) (Some a)) M h' k' n"
      proof (cases "(h', k') = (Suc h, k div 64)")
        case True
        then show ?thesis using b Lq okm by (auto simp: rt_write_def k_def)
      next
        case False
        then have "b \<noteq> q" using D(5)[OF b, of "Suc (Suc h)" "k div 64"] Lq by auto
        then show ?thesis
          using frame[OF b False] b fr[of "Suc h'" k'] by (auto simp: rt_write_def k_def)
      qed
    qed (use null E np a qa m(1) q Lq in \<open>auto simp add: k_def rt_write_def simp del: power_Suc\<close>)
    then show ?thesis using ev by (intro exI[of _ a] exI[of _ ?t]) (simp add: rt_write_def k_def)
  qed
qed

lemma rt_rep_filled:
  assumes "rt_rep E L M par t" and "\<And>h k. (h, k) \<in> E \<Longrightarrow> occ L M h k \<noteq> {}"
  shows "rt_rep {} L M par t"
proof (rule rt_repI)
  note D = rt_repD[OF assms(1)]
  show "occ L M h k \<noteq> {}" if "L (Suc h) k = Some a" for h k a
    using D(8)[of h k] assms(2)[of h k] that by auto
  show "\<exists>a. L (Suc h) (k div 64) = Some a" if "h < r_height t" "child L M h k \<noteq> Null" for h k
    using D(6)[OF that] by simp
  show "0 < h \<and> h \<le> r_height t" if "L h k = Some a" for h k a using D(3)[of h k] that by simp
  show "a \<in> dom (mem t) \<longleftrightarrow> (\<exists>h k. L h k = Some a)" for a using D(9) by simp
qed (fact rt_repD[OF assms(1)])+

lemma occ_child: "child L M h k \<noteq> Null \<Longrightarrow> occ L M h (k div 64) \<noteq> {}"
proof -
  assume "child L M h k \<noteq> Null"
  then have "k mod 64 \<in> occ L M h (k div 64)" by (simp add: occ_def)
  then show ?thesis by blast
qed

lemma rt_insert_down_spec:
  assumes "rt_rep E L M par t" and "h \<le> r_height t" and key: "unat key < 64 ^ r_height t"
    and "E \<subseteq> {(h, unat key div 64 ^ Suc h)}"
    and "np = L (Suc h) (unat key div 64 ^ Suc h)"
    and "h < r_height t \<longrightarrow> np \<noteq> None \<and> off = unat key div 64 ^ h mod 64"
  shows "\<exists>np' off' t' L' E'.
    rt_insert_down key h np (child L M h (unat key div 64 ^ h)) off t = Some (np', off', t') \<and>
    r_height t' = r_height t \<and> rt_rep E' L' M par t' \<and> E' \<subseteq> {(0, unat key div 64)} \<and>
    np' = L' 1 (unat key div 64) \<and> (0 < r_height t \<longrightarrow> np' \<noteq> None \<and> off' = unat key mod 64)"
  using assms
proof (induction h arbitrary: E L np off t)
  case 0
  then show ?case by auto
next
  case (Suc h)
  let ?n = "unat key" let ?k = "?n div 64 ^ Suc h"
  note rep = Suc.prems(1) and key = Suc.prems(3)
  have kd: "?k div 64 = ?n div 64 ^ Suc (Suc h)" by (rule key_prefix_div)
  have E: "E \<subseteq> {(Suc h, ?k div 64)}" using Suc.prems(4) by (simp only: kd)
  obtain a t1 L1 E1 where step:
    "(case child L M (Suc h) ?k of
        Null \<Rightarrow> rt_new_child (Suc h) np off t
      | Node a \<Rightarrow> Some (a, t)
      | Item _ \<Rightarrow> None) = Some (a, t1)"
    and rep1: "rt_rep E1 L1 M par t1" and ht: "r_height t1 = r_height t"
    and E1: "E1 \<subseteq> {(h, ?k)}" and La: "L1 (Suc h) ?k = Some a"
  proof (cases "L (Suc h) ?k")
    case None
    have np: "np = L (Suc (Suc h)) (?k div 64)" using Suc.prems(5) by (simp only: kd)
    have top: "Suc h < r_height t \<Longrightarrow> np \<noteq> None \<and> off = ?k mod 64" using Suc.prems(6) by blast
    from rt_new_child_spec[OF rep Suc.prems(2) key None E np top]
    obtain a t' where "rt_new_child (Suc h) np off t = Some (a, t')" "r_height t' = r_height t"
      "rt_rep {(h, ?k)} (level_upd L (Suc h) ?k (Some a)) M par t'" by blast
    with None that show ?thesis by (simp add: level_upd_apply del: power_Suc)
  next
    case (Some a)
    then have "child L M (Suc h) ?k \<noteq> Null" by (simp del: power_Suc)
    then have "occ L M (Suc h) (?k div 64) \<noteq> {}" by (rule occ_child)
    then have "rt_rep {} L M par t" using E by (intro rt_rep_filled[OF rep]) blast
    with Some that[of a t "{}" L] show ?thesis by (simp del: power_Suc)
  qed
  from La obtain n where n: "mem t1 a = Some n" "node_ok L1 M h ?k n" by (rule rt_node_at[OF rep1])
  have "rt_insert_down key (Suc h) np (child L M (Suc h) ?k) off t =
      rt_insert_down key h (Some a) (child L1 M h (?n div 64 ^ h)) (?n div 64 ^ h mod 64) t1"
    using step n(1) by (simp add: Let_def rt_offset_eq node_key_slot[OF n(2)] del: power_Suc)
  moreover have "h \<le> r_height t1" "unat key < 64 ^ r_height t1" using Suc.prems(2) key ht by simp_all
  ultimately show ?case
    using Suc.IH[OF rep1 _ _ E1 La[symmetric], of "?n div 64 ^ h mod 64"] ht by simp
qed

section \<open>Growing at the root\<close>

lemma rt_rep_beyond:
  assumes rep: "rt_rep E L M par t" and "h \<le> r_height t" and "child L M h k \<noteq> Null"
  shows "k div 64 ^ (r_height t - h) = 0"
  using rt_repD(4)[OF rep assms(2,3)] by simp

lemma rt_rep_empty_root:
  assumes rep: "rt_rep E L M par t" and "r_rnode t = Null" and h: "h \<le> r_height t"
  shows "child L M h k = Null"
proof (rule ccontr)
  assume c: "child L M h k \<noteq> Null"
  then have "k * 64 ^ h < 64 ^ (r_height t - h) * 64 ^ h" using rt_repD(4)[OF rep h] by simp
  also have "\<dots> = 64 ^ r_height t" using h by (simp flip: power_add)
  finally have "child L M (r_height t) (k * 64 ^ h div 64 ^ r_height t) = Null"
    using assms(2) rt_repD(2)[OF rep] by simp
  from null_below[OF rep h order_refl this] c show False by simp
qed

lemma rt_rep_grow:
  fixes t t' :: "'a rtree"
  assumes rep: "rt_rep {} L M par t" and root: "r_rnode t \<noteq> Null" and H: "r_height t < 8"
    and fresh: "mem t a = None"
  defines "L' \<equiv> level_upd L (Suc (r_height t)) 0 (Some a)"
  assumes t': "r_height t' = Suc (r_height t)" "r_rnode t' = Node a"
    and new: "mem t' a = Some \<lparr>n_height = Suc (r_height t), n_bitmap = 1, n_count = 1,
                n_parent = None, n_slots = (\<lambda>_. Null)(0 := r_rnode t)\<rparr>"
    and old: "\<And>b. b \<noteq> a \<Longrightarrow> mem t' b =
       (if r_rnode t = Node b then map_option (\<lambda>n. n\<lparr>n_parent := Some a\<rparr>) (mem t b) else mem t b)"
    and par': "\<And>x. x \<in> ran M \<Longrightarrow> par' x = (if r_height t = 0 then Some a else par x)"
    and pool: "pool_inv (p_node (p_rtn t'))"
      "pool_used (p_node (p_rtn t')) = insert a (dom (mem t))"
  shows "rt_rep {} L' M par' t'"
proof (rule rt_repI)
  note D = rt_repD[OF rep]
  let ?H = "r_height t"
  have fr: "L h' k' \<noteq> Some a" for h' k' by (rule rt_rep_fresh[OF rep fresh])
  have ch: "child L' M h k = (if h = Suc ?H \<and> k = 0 then Node a else child L M h k)" for h k
    by (simp add: L'_def child_level_upd)
  have Ls: "L' h k = (if h = Suc ?H \<and> k = 0 then Some a else L h k)" for h k
    by (simp add: L'_def level_upd_apply)
  have above: "L h k = None" if "?H < h" for h k using D(3)[of h k] that by fastforce
  have dm: "dom (mem t') = insert a (dom (mem t))"
  proof (rule set_eqI)
    show "b \<in> dom (mem t') \<longleftrightarrow> b \<in> insert a (dom (mem t))" for b
      using new old[of b] by (cases "b = a") (auto simp: dom_def)
  qed
  show "r_height t' \<le> 8" using t' H by simp
  show "r_rnode t' = child L' M (r_height t') 0" using t' by (simp add: ch del: child_node)
  show "0 < h \<and> h \<le> r_height t'" if "L' h k = Some b" for h k b
    using that D(3)[of h k] t' by (auto simp: Ls split: if_splits)
  show "k < 64 ^ (r_height t' - h)" if hk: "h \<le> r_height t'" "child L' M h k \<noteq> Null" for h k
  proof (cases "h = Suc ?H")
    case True
    then show ?thesis using hk t' above by (auto simp: Ls split: if_splits)
  next
    case False
    then have "k < 64 ^ (?H - h)" using hk t' D(4)[of h k] by (simp add: ch)
    also have "\<dots> \<le> 64 ^ (r_height t' - h)" using t' by (intro power_increasing) simp_all
    finally show ?thesis .
  qed
  show "h1 = h2 \<and> k1 = k2" if "L' h1 k1 = Some b" "L' h2 k2 = Some b" for h1 k1 h2 k2 b
    using that D(5)[of h1 k1 b h2 k2] fr by (auto simp: Ls split: if_splits)
  show "\<exists>b. L' (Suc h) (k div 64) = Some b" if hk: "h < r_height t'" "child L' M h k \<noteq> Null" for h k
  proof (cases "h = ?H")
    case True
    then have "child L M ?H k \<noteq> Null" using hk by (simp add: ch)
    then have "k = 0" using D(4)[of ?H k] by simp
    then show ?thesis using True by (simp add: Ls)
  next
    case False
    then have "h < ?H" "child L M h k \<noteq> Null" using hk t' by (auto simp: ch split: if_splits)
    then have "L (Suc h) (k div 64) \<noteq> None" by (rule D(6))
    then show ?thesis by (auto simp: Ls)
  qed
  show "\<exists>n. mem t' b = Some n \<and> node_ok L' M h k n" if b: "L' (Suc h) k = Some b" for h k b
  proof (cases "h = ?H")
    case True
    then have k0: "k = 0" and ba: "b = a" using b above[of "Suc h" k] by (auto simp: Ls split: if_splits)
    have c: "child L' M ?H (64 * 0 + i) = (if i = 0 then r_rnode t else Null)" for i
      using D(2) D(4)[of ?H i] by (auto simp: ch)
    have "occ L' M ?H 0 = {0}" unfolding occ_def c using root by auto
    moreover have "L' (Suc (Suc ?H)) (0 div 64) = None" using above by (simp add: Ls)
    ultimately have "node_ok L' M ?H 0 \<lparr>n_height = Suc ?H, n_bitmap = 1, n_count = 1,
                n_parent = None, n_slots = (\<lambda>_. Null)(0 := r_rnode t)\<rparr>"
      unfolding node_ok_def c using root by (simp add: bit_1_iff)
    then show ?thesis using new True k0 ba by simp
  next
    case False
    then have Lb: "L (Suc h) k = Some b" using b by (simp add: Ls)
    then have ba: "b \<noteq> a" using fr by metis
    from Lb obtain n where n: "mem t b = Some n" "node_ok L M h k n" by (rule rt_node_at[OF rep])
    have hH: "Suc h \<le> ?H" using D(3)[of "Suc h" k] Lb by simp
    have cc: "child L' M h j = child L M h j" for j using hH by (simp add: ch)
    show ?thesis
    proof (cases "r_rnode t = Node b")
      case True
      then have "L ?H 0 = Some b" using D(2) by (cases ?H) auto
      then have eq: "Suc h = ?H" "k = 0" using D(5)[OF Lb] by simp_all
      have "node_ok L' M h k (n\<lparr>n_parent := Some a\<rparr>)"
        using n(2) cc by (simp add: node_ok_def occ_def Ls eq)
      then show ?thesis using old[OF ba] n(1) True by simp
    next
      case ne: False
      have "L' (Suc (Suc h)) (k div 64) = L (Suc (Suc h)) (k div 64)"
      proof (cases "Suc h = ?H")
        case True
        have "child L M (Suc h) k \<noteq> Null" using Lb by simp
        then have "k = 0" using D(4)[of "Suc h" k] True by simp
        then show ?thesis using ne D(2) True Lb by (metis child_node nslot_simps(2))
      qed (simp add: Ls)
      then have "node_ok L' M h k n" using n(2) cc by (intro node_ok_frame[OF n(2)]) simp_all
      then show ?thesis using old[OF ba] n(1) ne by simp
    qed
  qed
  show "occ L' M h k \<noteq> {}" if b: "L' (Suc h) k = Some b" for h k b
  proof (cases "h = ?H")
    case True
    then have "k = 0" using b above[of "Suc h" k] by (auto simp: Ls split: if_splits)
    then have "child L' M h 0 \<noteq> Null" using True root D(2) by (simp add: ch)
    then show ?thesis using occ_child[of L' M h 0] \<open>k = 0\<close> by simp
  next
    case False
    then have "L (Suc h) k \<noteq> None" using b by (simp add: Ls)
    then have "occ L M h k \<noteq> {}" using D(8) by simp
    moreover have "occ L M h k \<subseteq> occ L' M h k" by (auto simp: occ_def ch)
    ultimately show ?thesis by blast
  qed
  show "b \<in> dom (mem t') \<longleftrightarrow> (\<exists>h k. L' h k = Some b)" for b
  proof -
    have "b \<in> dom (mem t') \<longleftrightarrow> b = a \<or> (\<exists>h k. L h k = Some b)" using dm D(9) by simp
    also have "\<dots> \<longleftrightarrow> (\<exists>h k. L' h k = Some b)"
      using above[of "Suc ?H" 0] by (auto simp: Ls) (metis lessI option.distinct(1))+
    finally show ?thesis .
  qed
  show "pool_inv (p_node (p_rtn t'))" "pool_used (p_node (p_rtn t')) = dom (mem t')"
    using pool dm by simp_all
  show "par' x = L' 1 (k div 64)" if x: "M k = Some x" for k x
  proof -
    have px: "par' x = (if ?H = 0 then Some a else par x)" by (rule par') (rule ranI[of M k x, OF x])
    have "k < 64 ^ ?H" using D(4)[of 0 k] x by simp
    then show ?thesis using px D(12)[OF x] by (auto simp: Ls)
  qed
  show "inj_on M (dom M)" by (rule D(13))
qed

section \<open>Filling a leaf slot\<close>

lemma rt_rep_cong_par:
  assumes rep: "rt_rep E L M par t" and "\<And>x. x \<in> ran M \<Longrightarrow> par' x = par x"
  shows "rt_rep E L M par' t"
proof (rule rt_repI)
  note D = rt_repD[OF rep]
  show "par' x = L 1 (k div 64)" if "M k = Some x" for k x
    using D(12)[OF that] assms(2)[OF ranI[of M k x, OF that]] by simp
  show "\<exists>a. L (Suc h) (k div 64) = Some a" if "h < r_height t" "child L M h k \<noteq> Null" for h k
    using D(6)[OF that] by simp
  show "0 < h \<and> h \<le> r_height t" if "L h k = Some a" for h k a using D(3)[of h k] that by simp
  show "occ L M h k \<noteq> {}" if "L (Suc h) k = Some a" "(h, k) \<notin> E" for h k a
    using D(8)[of h k] that by simp
  show "a \<in> dom (mem t) \<longleftrightarrow> (\<exists>h k. L h k = Some a)" for a using D(9) by simp
qed (fact rt_repD[OF rep])+

lemma rt_abs_cong_par:
  assumes "rt_abs M par t" and "\<And>x. x \<in> ran M \<Longrightarrow> par' x = par x"
  shows "rt_abs M par' t"
  using assms rt_rep_cong_par unfolding rt_abs_def by metis

lemma rt_rep_fill:
  fixes t t' :: "'a rtree"
  assumes rep: "rt_rep E L M par t" and E: "E \<subseteq> {(0, key div 64)}"
    and key: "key < 64 ^ r_height t" and new: "M key = None" and x: "x \<notin> ran M"
    and up: "0 < r_height t \<Longrightarrow> L 1 (key div 64) = Some a \<and> mem t a = Some n"
    and t': "r_height t' = r_height t" "p_rtn t' = p_rtn t"
      "r_rnode t' = (if r_height t = 0 then Item x else r_rnode t)"
      "mem t' = (if r_height t = 0 then mem t
                 else (mem t)(a \<mapsto> rt_count_in (key mod 64) (rt_set_slot (key mod 64) (Item x) n)))"
    and par': "par' x = L 1 (key div 64)" "\<And>y. y \<in> ran M \<Longrightarrow> par' y = par y"
  shows "rt_rep {} L (M(key \<mapsto> x)) par' t'"
proof (rule rt_repI)
  note D = rt_repD[OF rep]
  let ?M = "M(key \<mapsto> x)"
  have ch: "child L ?M h k = (if h = 0 \<and> k = key then Item x else child L M h k)" for h k
    by (simp add: child_map_upd)
  have dm: "dom (mem t') = dom (mem t)" using t'(4) up by auto
  show "r_height t' \<le> 8" using t' D(1) by simp
  show "r_rnode t' = child L ?M (r_height t') 0" using t' D(2) key by (auto simp: ch)
  show "0 < h \<and> h \<le> r_height t'" if "L h k = Some b" for h k b using D(3)[of h k] that t' by simp
  show "k < 64 ^ (r_height t' - h)" if "h \<le> r_height t'" "child L ?M h k \<noteq> Null" for h k
    using that D(4)[of h k] key t' by (auto simp: ch split: if_splits)
  show "h1 = h2 \<and> k1 = k2" if "L h1 k1 = Some b" "L h2 k2 = Some b" for h1 k1 h2 k2 b
    by (rule D(5)[OF that])
  show "\<exists>b. L (Suc h) (k div 64) = Some b" if "h < r_height t'" "child L ?M h k \<noteq> Null" for h k
    using that D(6)[of h k] up t' by (auto simp: ch split: if_splits)
  show "\<exists>m. mem t' b = Some m \<and> node_ok L ?M h k m" if b: "L (Suc h) k = Some b" for h k b
  proof -
    have H: "0 < r_height t" using D(3)[of "Suc h" k] b by simp
    from b obtain m where m: "mem t b = Some m" "node_ok L M h k m" by (rule rt_node_at[OF rep])
    show ?thesis
    proof (cases "h = 0 \<and> k = key div 64")
      case True
      then have ba: "b = a" "m = n" using up[OF H] b m(1) by simp_all
      have ok: "node_ok L M 0 (key div 64) n" using m(2) True ba by simp
      have "node_ok L ?M 0 (key div 64) (rt_count_in (key mod 64) (rt_set_slot (key mod 64) (Item x) n))"
      proof (rule node_ok_in(1)[OF ok])
        show "child L ?M 0 (64 * (key div 64) + j) =
            (if j = key mod 64 then Item x else child L M 0 (64 * (key div 64) + j))" if "j < 64" for j
        proof -
          have "64 * (key div 64) + j = key \<longleftrightarrow> j = key mod 64" using mult_div_mod_eq[of 64 key] by linarith
          then show ?thesis by simp
        qed
      qed (use new in simp_all)
      then show ?thesis using True ba t'(4) H by simp
    next
      case False
      have "node_ok L ?M h k m"
      proof (rule node_ok_frame[OF m(2)])
        show "child L ?M h (64 * k + j) = child L M h (64 * k + j)" if "j < 64" for j
          using that False by (auto simp: ch)
      qed simp
      moreover have "b \<noteq> a" using D(5)[OF b, of 1 "key div 64"] up[OF H] False by auto
      ultimately show ?thesis using m(1) t'(4) H by simp
    qed
  qed
  show "occ L ?M h k \<noteq> {}" if b: "L (Suc h) k = Some b" for h k b
  proof (cases "(h, k) \<in> E")
    case True
    then have "h = 0" "k = key div 64" using E by auto
    then show ?thesis using occ_child[of L ?M 0 key] by simp
  next
    case False
    then have "occ L M h k \<noteq> {}" using D(8)[of h k] b by simp
    moreover have "occ L M h k \<subseteq> occ L ?M h k" by (auto simp: occ_def ch)
    ultimately show ?thesis by blast
  qed
  show "b \<in> dom (mem t') \<longleftrightarrow> (\<exists>h k. L h k = Some b)" for b using dm D(9) by simp
  show "pool_inv (p_node (p_rtn t'))" "pool_used (p_node (p_rtn t')) = dom (mem t')"
    using D(10,11) dm t'(2) by simp_all
  show "par' y = L 1 (k div 64)" if "?M k = Some y" for k y
    using that D(12)[of k y] par' ranI[of M k y] by (auto split: if_splits)
  show "inj_on ?M (dom ?M)" using D(13) x by (auto simp: inj_on_def ran_def)
qed

section \<open>Clearing a slot, dropping a node, dropping the root\<close>

lemma rt_rep_clear:
  fixes t :: "'a rtree"
  assumes rep: "rt_rep {} L M par t" and x: "M key = Some x" and H: "0 < r_height t"
    and a: "L 1 (key div 64) = Some a" "mem t a = Some n"
  defines "i \<equiv> key mod 64"
  shows "rt_rep {(0, key div 64)} L (M(key := None)) par
           (rt_write a (rt_count_out i (rt_set_slot i Null n)) t)" (is "rt_rep _ _ ?M _ ?t")
proof (rule rt_repI)
  note D = rt_repD[OF rep]
  have ch: "child L ?M h k = (if h = 0 \<and> k = key then Null else child L M h k)" for h k
    by (simp add: child_map_upd)
  have dm: "dom (mem ?t) = dom (mem t)" using a(2) by (auto simp: rt_write_def)
  show "r_height ?t \<le> 8" using D(1) by (simp add: rt_write_def)
  show "r_rnode ?t = child L ?M (r_height ?t) 0" using D(2) H by (simp add: ch rt_write_def)
  show "0 < h \<and> h \<le> r_height ?t" if "L h k = Some b" for h k b
    using D(3)[of h k] that by (simp add: rt_write_def)
  show "k < 64 ^ (r_height ?t - h)" if "h \<le> r_height ?t" "child L ?M h k \<noteq> Null" for h k
    using that D(4)[of h k] by (auto simp: ch rt_write_def split: if_splits)
  show "h1 = h2 \<and> k1 = k2" if "L h1 k1 = Some b" "L h2 k2 = Some b" for h1 k1 h2 k2 b
    by (rule D(5)[OF that])
  show "\<exists>b. L (Suc h) (k div 64) = Some b" if "h < r_height ?t" "child L ?M h k \<noteq> Null" for h k
    using that D(6)[of h k] by (auto simp: ch rt_write_def split: if_splits)
  show "\<exists>m. mem ?t b = Some m \<and> node_ok L ?M h k m" if b: "L (Suc h) k = Some b" for h k b
  proof -
    from b obtain m where m: "mem t b = Some m" "node_ok L M h k m" by (rule rt_node_at[OF rep])
    show ?thesis
    proof (cases "h = 0 \<and> k = key div 64")
      case True
      then have ba: "b = a" "m = n" using a b m(1) by simp_all
      have ok: "node_ok L M 0 (key div 64) n" using m(2) True ba by simp
      have "node_ok L ?M 0 (key div 64) (rt_count_out i (rt_set_slot i Null n))"
      proof (rule node_ok_out(1)[OF ok])
        show "child L ?M 0 (64 * (key div 64) + j) =
            (if j = i then Null else child L M 0 (64 * (key div 64) + j))" if "j < 64" for j
        proof -
          have "64 * (key div 64) + j = key \<longleftrightarrow> j = i"
            using mult_div_mod_eq[of 64 key] unfolding i_def by linarith
          then show ?thesis by simp
        qed
      qed (use x in \<open>simp_all add: i_def\<close>)
      then show ?thesis using True ba by (simp add: rt_write_def)
    next
      case False
      have "node_ok L ?M h k m"
      proof (rule node_ok_frame[OF m(2)])
        show "child L ?M h (64 * k + j) = child L M h (64 * k + j)" if "j < 64" for j
          using that False by (auto simp: ch)
      qed simp
      moreover have "b \<noteq> a" using D(5)[OF b, of 1 "key div 64"] a(1) False by auto
      ultimately show ?thesis using m(1) by (simp add: rt_write_def)
    qed
  qed
  show "occ L ?M h k \<noteq> {}" if b: "L (Suc h) k = Some b" and ne: "(h, k) \<notin> {(0, key div 64)}" for h k b
  proof -
    have "occ L M h k \<noteq> {}" using D(8)[of h k] b by simp
    moreover have "occ L M h k \<subseteq> occ L ?M h k" using ne by (auto simp: occ_def ch)
    ultimately show ?thesis by blast
  qed
  show "b \<in> dom (mem ?t) \<longleftrightarrow> (\<exists>h k. L h k = Some b)" for b using dm D(9) by simp
  show "pool_inv (p_node (p_rtn ?t))" "pool_used (p_node (p_rtn ?t)) = dom (mem ?t)"
    using D(10,11) dm by (simp_all add: rt_write_def)
  show "par y = L 1 (k div 64)" if "?M k = Some y" for k y
    using that D(12)[of k y] by (auto split: if_splits)
  show "inj_on ?M (dom ?M)" using D(13) by (auto simp: inj_on_def)
qed

lemma rt_rep_drop:
  fixes t :: "'a rtree"
  assumes rep: "rt_rep E L M par t" and E: "E \<subseteq> {(h, k)}"
    and a: "L (Suc h) k = Some a" and empty: "occ L M h k = {}"
    and q: "L (Suc (Suc h)) (k div 64) = Some q" "mem t q = Some m"
  defines "i \<equiv> k mod 64"
  assumes pool: "pool_inv (p_node p)" "pool_used (p_node p) = dom (mem t) - {a}"
  shows "rt_rep {(Suc h, k div 64)} (level_upd L (Suc h) k None) M par
           (t\<lparr>p_rtn := p, mem := ((mem t)(q \<mapsto> rt_count_out i (rt_set_slot i Null m)))(a := None)\<rparr>)"
    (is "rt_rep _ ?L _ _ ?t")
proof (rule rt_repI)
  note D = rt_repD[OF rep]
  have ch: "child ?L M h' k' = (if h' = Suc h \<and> k' = k then Null else child L M h' k')" for h' k'
    by (simp add: child_level_upd)
  have Ls: "?L h' k' = (if h' = Suc h \<and> k' = k then None else L h' k')" for h' k'
    by (simp add: level_upd_apply)
  have qa: "q \<noteq> a" using D(5)[OF a, of "Suc (Suc h)" "k div 64"] q(1) by auto
  have dm: "dom (mem ?t) = dom (mem t) - {a}" using q(2) qa by auto
  have H: "Suc (Suc h) \<le> r_height t" using D(3)[of "Suc (Suc h)" "k div 64"] q(1) by simp
  have nochild: "child L M h j = Null" if "j div 64 = k" for j
    using occ_child[of L M h j] that empty by auto
  show "r_height ?t \<le> 8" using D(1) by simp
  show "r_rnode ?t = child ?L M (r_height ?t) 0" using D(2) H by (simp add: ch)
  show "0 < h' \<and> h' \<le> r_height ?t" if "?L h' k' = Some b" for h' k' b
    using D(3)[of h' k'] that by (simp add: Ls split: if_splits)
  show "k' < 64 ^ (r_height ?t - h')" if "h' \<le> r_height ?t" "child ?L M h' k' \<noteq> Null" for h' k'
    using that D(4)[of h' k'] by (auto simp: ch split: if_splits)
  show "h1 = h2 \<and> k1 = k2" if "?L h1 k1 = Some b" "?L h2 k2 = Some b" for h1 k1 h2 k2 b
    using that D(5)[of h1 k1 b h2 k2] by (auto simp: Ls split: if_splits)
  show "\<exists>b. ?L (Suc h') (k' div 64) = Some b" if "h' < r_height ?t" "child ?L M h' k' \<noteq> Null" for h' k'
    using that D(6)[of h' k'] nochild by (auto simp: ch Ls split: if_splits)
  show "\<exists>n. mem ?t b = Some n \<and> node_ok ?L M h' k' n" if b: "?L (Suc h') k' = Some b" for h' k' b
  proof -
    have Lb: "L (Suc h') k' = Some b" and ne: "\<not> (h' = h \<and> k' = k)"
      using b by (auto simp: Ls split: if_splits)
    from Lb obtain n where n: "mem t b = Some n" "node_ok L M h' k' n" by (rule rt_node_at[OF rep])
    have ba: "b \<noteq> a" using D(5)[of "Suc h'" k' a "Suc h" k] Lb a ne by auto
    show ?thesis
    proof (cases "h' = Suc h \<and> k' = k div 64")
      case True
      then have bq: "b = q" "n = m" using q Lb n(1) by simp_all
      have ok: "node_ok L M (Suc h) (k div 64) m" using n(2) True bq by simp
      have "node_ok ?L M (Suc h) (k div 64) (rt_count_out i (rt_set_slot i Null m))"
      proof (rule node_ok_out(1)[OF ok])
        show "child ?L M (Suc h) (64 * (k div 64) + j) =
            (if j = i then Null else child L M (Suc h) (64 * (k div 64) + j))" if "j < 64" for j
        proof -
          have "64 * (k div 64) + j = k \<longleftrightarrow> j = i"
            using mult_div_mod_eq[of 64 k] unfolding i_def by linarith
          then show ?thesis by (simp only: ch) simp
        qed
      qed (use a in \<open>simp_all add: i_def Ls\<close>)
      then show ?thesis using True bq ba by simp
    next
      case False
      have "node_ok ?L M h' k' n"
      proof (rule node_ok_frame[OF n(2)])
        show "child ?L M h' (64 * k' + j) = child L M h' (64 * k' + j)" if "j < 64" for j
          using that False by (auto simp: ch)
        show "?L (Suc (Suc h')) (k' div 64) = L (Suc (Suc h')) (k' div 64)"
          using nochild[of k'] Lb by (auto simp: Ls)
      qed
      moreover have "b \<noteq> q" using D(5)[of "Suc h'" k' q "Suc (Suc h)" "k div 64"] Lb q(1) False by auto
      ultimately show ?thesis using n(1) ba by simp
    qed
  qed
  show "occ ?L M h' k' \<noteq> {}" if b: "?L (Suc h') k' = Some b"
    and ne: "(h', k') \<notin> {(Suc h, k div 64)}" for h' k' b
  proof -
    have "occ L M h' k' \<noteq> {}" using D(8)[of h' k'] b E by (auto simp: Ls split: if_splits)
    moreover have "occ L M h' k' \<subseteq> occ ?L M h' k'" using ne by (auto simp: occ_def ch)
    ultimately show ?thesis by blast
  qed
  show "b \<in> dom (mem ?t) \<longleftrightarrow> (\<exists>h' k'. ?L h' k' = Some b)" for b
  proof -
    have "b \<in> dom (mem ?t) \<longleftrightarrow> b \<noteq> a \<and> (\<exists>h' k'. L h' k' = Some b)" unfolding dm D(9) by auto
    also have "\<dots> \<longleftrightarrow> (\<exists>h' k'. ?L h' k' = Some b)" using D(5) a by (rule level_upd_drop)
    finally show ?thesis .
  qed
  show "pool_inv (p_node (p_rtn ?t))" "pool_used (p_node (p_rtn ?t)) = dom (mem ?t)"
    using pool dm by simp_all
  show "par y = ?L 1 (j div 64)" if "M j = Some y" for j y
    using that D(12)[of j y] nochild[of j] by (auto simp: Ls)
  show "inj_on M (dom M)" by (rule D(13))
qed

lemma rt_rep_last:
  assumes rep: "rt_rep E L M par t" and H: "r_height t = Suc h"
    and a: "L (Suc h) 0 = Some a" and empty: "occ L M h 0 = {}"
  shows "M = Map.empty" "dom (mem t) = {a}"
proof -
  note D = rt_repD[OF rep]
  have none: "child L M h' k = Null" if h': "h' \<le> h" for h' k
  proof (rule ccontr)
    assume c: "child L M h' k \<noteq> Null"
    have "child L M h (k * 64 ^ h' div 64 ^ h) \<noteq> Null"
      using null_below[OF rep h', of "k * 64 ^ h'"] c H by auto
    from occ_child[OF this] rt_repD(4)[OF rep _ this] empty H show False by simp
  qed
  show "M = Map.empty" using none[of 0] by auto
  have "h' = Suc h \<and> k = 0" if "L h' k = Some b" for h' k b
    using D(3)[of h' k] D(4)[of h' k] none[of h' k] that H
    by (cases h') (auto simp: le_Suc_eq)
  then have "{b. \<exists>h k. L h k = Some b} = {a}" using a by fastforce
  then show "dom (mem t) = {a}" using D(9) by simp
qed

lemma rt_rep_shrink_root:
  fixes t t' :: "'a rtree"
  assumes rep: "rt_rep {} L M par t" and H: "r_height t = Suc h"
    and a: "L (Suc h) 0 = Some a" and single: "occ L M h 0 = {0}"
    and t': "r_height t' = h" "r_rnode t' = child L M h 0"
    and old: "\<And>b. mem t' b = (if b = a then None else if child L M h 0 = Node b
               then map_option (\<lambda>n. n\<lparr>n_parent := None\<rparr>) (mem t b) else mem t b)"
    and pool: "pool_inv (p_node (p_rtn t'))" "pool_used (p_node (p_rtn t')) = dom (mem t) - {a}"
    and par': "\<And>x. par' x = (if h = 0 then None else par x)"
  shows "rt_rep {} (level_upd L (Suc h) 0 None) M par' t'" (is "rt_rep _ ?L _ _ _")
proof (rule rt_repI)
  note D = rt_repD[OF rep]
  have ch: "child ?L M h' k' = (if h' = Suc h \<and> k' = 0 then Null else child L M h' k')" for h' k'
    by (simp add: child_level_upd)
  have Ls: "?L h' k' = (if h' = Suc h \<and> k' = 0 then None else L h' k')" for h' k'
    by (simp add: level_upd_apply)
  have dm: "dom (mem t') = dom (mem t) - {a}"
    by (rule set_eqI) (simp add: old dom_def)
  have only: "k = 0" if "child L M h k \<noteq> Null" for k
  proof -
    have "k < 64" using D(4)[of h k] that H by simp
    then have "k \<in> occ L M h 0" using that by (simp add: occ_def)
    then show ?thesis using single by simp
  qed
  have top: "L (Suc h) k = None" if "k \<noteq> 0" for k
    using D(4)[of "Suc h" k] that H by (cases "L (Suc h) k") simp_all
  have above: "?L h' k = None" if "h < h'" for h' k
    using D(3)[of h' k] top[of k] that H
    by (cases "h' = Suc h"; cases "L h' k") (auto simp: Ls)
  show "r_height t' \<le> 8" using D(1) H t' by simp
  show "r_rnode t' = child ?L M (r_height t') 0" using t' by (simp add: ch)
  show "0 < h' \<and> h' \<le> r_height t'" if b: "?L h' k' = Some b" for h' k' b
    using D(3)[of h' k'] above[of h' k'] b t' by (cases "h < h'") (auto simp: Ls split: if_splits)
  show "k' < 64 ^ (r_height t' - h')" if hk: "h' \<le> r_height t'" "child ?L M h' k' \<noteq> Null" for h' k'
  proof -
    have c: "child L M h' k' \<noteq> Null" using hk by (simp add: ch split: if_splits)
    then have "child L M h (k' * 64 ^ h' div 64 ^ h) \<noteq> Null"
      using null_below[OF rep, of h' h "k' * 64 ^ h'"] hk H t' by auto
    then have "k' * 64 ^ h' div 64 ^ h = 0" by (rule only)
    then have "k' * 64 ^ h' < 64 ^ h" by (simp add: div_eq_0_iff)
    also have "\<dots> = 64 ^ (h - h') * 64 ^ h'" using hk t' by (simp flip: power_add)
    finally show ?thesis using t' by simp
  qed
  show "h1 = h2 \<and> k1 = k2" if "?L h1 k1 = Some b" "?L h2 k2 = Some b" for h1 k1 h2 k2 b
    using that D(5)[of h1 k1 b h2 k2] by (auto simp: Ls split: if_splits)
  show "\<exists>b. ?L (Suc h') (k' div 64) = Some b" if "h' < r_height t'" "child ?L M h' k' \<noteq> Null" for h' k'
    using that D(6)[of h' k'] t' H by (auto simp: ch Ls split: if_splits)
  show "\<exists>n. mem t' b = Some n \<and> node_ok ?L M h' k' n" if b: "?L (Suc h') k' = Some b" for h' k' b
  proof -
    have Lb: "L (Suc h') k' = Some b" using b by (auto simp: Ls split: if_splits)
    have hh: "Suc h' \<le> h" using above[of "Suc h'" k'] b by (cases "h < Suc h'") auto
    from Lb obtain n where n: "mem t b = Some n" "node_ok L M h' k' n" by (rule rt_node_at[OF rep])
    have ba: "b \<noteq> a" using D(5)[of "Suc h'" k' a "Suc h" 0] Lb a hh by auto
    have cc: "child ?L M h' j = child L M h' j" for j using hh by (simp add: ch)
    show ?thesis
    proof (cases "Suc h' = h")
      case True
      then have k0: "k' = 0" using only[of k'] Lb by auto
      have "child L M h 0 = Node b" using Lb True k0 by auto
      moreover have "node_ok ?L M h' k' (n\<lparr>n_parent := None\<rparr>)"
        using n(2) cc True k0 above by (simp add: node_ok_def occ_def)
      ultimately show ?thesis using n(1) ba old[of b] by simp
    next
      case False
      have "child L M h 0 \<noteq> Node b" using D(5)[OF Lb, of h 0] False by (cases h) auto
      moreover have "node_ok ?L M h' k' n"
        using cc False by (intro node_ok_frame[OF n(2)]) (simp_all add: Ls)
      ultimately show ?thesis using n(1) ba old[of b] by simp
    qed
  qed
  show "occ ?L M h' k' \<noteq> {}" if b: "?L (Suc h') k' = Some b" for h' k' b
  proof -
    have "occ L M h' k' \<noteq> {}" using D(8)[of h' k'] b by (auto simp: Ls split: if_splits)
    moreover have "h' < h" using above[of "Suc h'" k'] b by (cases "h < Suc h'") auto
    then have "occ L M h' k' \<subseteq> occ ?L M h' k'" by (auto simp: occ_def ch)
    ultimately show ?thesis by blast
  qed
  show "b \<in> dom (mem t') \<longleftrightarrow> (\<exists>h' k'. ?L h' k' = Some b)" for b
  proof -
    have "b \<in> dom (mem t') \<longleftrightarrow> b \<noteq> a \<and> (\<exists>h' k'. L h' k' = Some b)" unfolding dm D(9) by auto
    also have "\<dots> \<longleftrightarrow> (\<exists>h' k'. ?L h' k' = Some b)" using D(5) a by (rule level_upd_drop)
    finally show ?thesis .
  qed
  show "pool_inv (p_node (p_rtn t'))" "pool_used (p_node (p_rtn t')) = dom (mem t')"
    using pool dm by simp_all
  show "par' y = ?L 1 (j div 64)" if "M j = Some y" for j y
  proof (cases "h = 0")
    case True
    then have "?L 1 (j div 64) = None" by (intro above) simp
    then show ?thesis using True by (simp add: par')
  qed (use D(12)[OF that] in \<open>simp add: par' Ls\<close>)
  show "inj_on M (dom M)" by (rule D(13))
qed

lemma rt_shrink_loop_spec:
  assumes "rt_rep {} L M par t" and "r_rnode t \<noteq> Null"
  shows "\<exists>t' L'. rt_shrink_loop t = Some t' \<and> r_height t' \<le> r_height t \<and> r_rnode t' \<noteq> Null \<and>
    rt_rep {} L' M (\<lambda>x. if r_height t' = 0 then None else par x) t'"
  using assms
proof (induction "r_height t" arbitrary: t L par)
  case 0
  then have H: "r_height t = 0" by simp
  have "rt_rep {} L M (\<lambda>x. None) t"
  proof (rule rt_rep_cong_par[OF "0.prems"(1)])
    fix x assume x: "x \<in> ran M"
    then obtain k where k: "M k = Some x" by (auto simp: ran_def)
    have "L 1 (k div 64) = None" using rt_repD(3)[OF "0.prems"(1), of 1 "k div 64"] H by fastforce
    then show "None = par x" using rt_repD(12)[OF "0.prems"(1) k] by simp
  qed
  then show ?case using H "0.prems"(2) by (subst rt_shrink_loop.simps) auto
next
  case (Suc h)
  note rep = Suc.prems(1) and H = Suc.hyps(2)[symmetric]
  note D = rt_repD[OF rep]
  obtain a where root: "r_rnode t = Node a" "L (Suc h) 0 = Some a"
    using Suc.prems(2) D(2) H by (cases "L (Suc h) 0") auto
  from root(2) obtain n where n: "mem t a = Some n" "node_ok L M h 0 n" by (rule rt_node_at[OF rep])
  have s0: "n_slots n 0 = child L M h 0" using node_slot[OF n(2), of 0] by simp
  have stop: ?case if "rt_shrink_loop t = Some t"
    using that rep H Suc.prems(2) by (intro exI[of _ t] exI[of _ L]) simp
  have cnt: "n_count n = 1 \<longleftrightarrow> card (occ L M h 0) = 1"
  proof -
    have "unat (n_count n) = card (occ L M h 0)"
      using n(2) card_occ_le[of L M h 0] by (simp add: node_ok_def unat_of_nat_64)
    then show ?thesis by (metis unsigned_1 word_unat_eq_iff)
  qed
  show ?case
  proof (cases "n_count n = 1 \<and> child L M h 0 \<noteq> Null")
    case False
    then have "rt_shrink_loop t = Some t"
      using H root n(1) s0 by (subst rt_shrink_loop.simps) auto
    then show ?thesis by (rule stop)
  next
    case True
    then have "0 \<in> occ L M h 0" by (simp add: occ_def)
    then have single: "occ L M h 0 = {0}"
      using True cnt by (metis card_1_singletonE singletonD)
    let ?w = "\<lambda>b. if child L M h 0 = Node b then map_option (\<lambda>n. n\<lparr>n_parent := None\<rparr>) (mem t b) else mem t b"
    let ?t1 = "t\<lparr>mem := ?w, r_rnode := child L M h 0, r_height := h\<rparr>"
    have chn: "\<exists>q m. child L M h 0 = Node q \<and> mem t q = Some m" if hp: "0 < h"
    proof -
      obtain h' where h': "h = Suc h'" using hp by (cases h) auto
      then obtain q where q: "L (Suc h') 0 = Some q" using True by auto
      then obtain m where "mem t q = Some m" by (rule rt_node_at[OF rep])
      then show ?thesis using q h' by auto
    qed
    have t1: "(if r_height t > 1 then
                 (case n_slots n 0 of
                    Node q \<Rightarrow> map_option (\<lambda>m. rt_write q (m\<lparr>n_parent := None\<rparr>) t) (mem t q)
                  | _ \<Rightarrow> None)
               else Some t) = Some (t\<lparr>mem := ?w\<rparr>)"
    proof (cases "h = 0")
      case True
      then have "?w = mem t" by auto
      then show ?thesis using True H by simp
    next
      case False
      then obtain q m where q: "child L M h 0 = Node q" "mem t q = Some m" using chn by auto
      then have "?w = (mem t)(q \<mapsto> m\<lparr>n_parent := None\<rparr>)" by auto
      then show ?thesis using q s0 False H by (simp add: rt_write_def)
    qed
    have dw: "dom ?w = dom (mem t)" by (rule set_eqI) (simp add: dom_def)
    have pl: "pool_inv (p_node (p_rtn ?t1))" "pool_used (p_node (p_rtn ?t1)) = dom (mem ?t1)"
      "a \<in> dom (mem ?t1)" using D(10,11) dw n(1) by (simp_all add: dom_def)
    obtain p where p: "rtn_put_node a ?t1 = Some (?t1\<lparr>p_rtn := p, mem := (mem ?t1)(a := None)\<rparr>)"
      "pool_inv (p_node p)" "pool_used (p_node p) = dom (mem ?t1) - {a}"
      using pl by (rule rtn_put_node_spec)
    let ?t2 = "?t1\<lparr>p_rtn := p, mem := (mem ?t1)(a := None)\<rparr>"
    let ?par = "\<lambda>x. if h = 0 then None else par x"
    have rep2: "rt_rep {} (level_upd L (Suc h) 0 None) M ?par ?t2"
      using p(2,3) dw by (intro rt_rep_shrink_root[OF rep H root(2) single]) simp_all
    have ev: "rt_shrink_loop t = rt_shrink_loop ?t2"
      using H root n(1) s0 t1 True p(1) by (subst rt_shrink_loop.simps) simp
    have "h = r_height ?t2" "r_rnode ?t2 \<noteq> Null" using True by simp_all
    from Suc.hyps(1)[OF this(1) rep2 this(2)] obtain t' L' where
      t': "rt_shrink_loop ?t2 = Some t'" "r_height t' \<le> h" "r_rnode t' \<noteq> Null"
      "rt_rep {} L' M (\<lambda>x. if r_height t' = 0 then None else ?par x) t'" by auto
    have "(\<lambda>x. if r_height t' = 0 then None else ?par x) = (\<lambda>x. if r_height t' = 0 then None else par x)"
      using t'(2) by auto
    with t' ev H show ?thesis by (intro exI[of _ t'] exI[of _ L']) simp
  qed
qed

section \<open>Walking up after a removal\<close>

lemma rt_parent_cases:
  assumes rep: "rt_rep E L M par t" and a: "L (Suc h) k = Some a"
    and n: "node_ok L M h k n"
  shows "(n_parent n = None \<longleftrightarrow> Suc h = r_height t)" "Suc h \<le> r_height t"
    "Suc h = r_height t \<Longrightarrow> k = 0 \<and> r_rnode t = Node a"
    "Suc h \<noteq> r_height t \<Longrightarrow> r_rnode t \<noteq> Node a"
    "n_parent n = L (Suc (Suc h)) (k div 64)"
proof -
  note D = rt_repD[OF rep]
  have np: "n_parent n = L (Suc (Suc h)) (k div 64)" using n by (simp add: node_ok_def)
  then show "n_parent n = L (Suc (Suc h)) (k div 64)" .
  show le: "Suc h \<le> r_height t" using D(3)[of "Suc h" k] a by simp
  show "n_parent n = None \<longleftrightarrow> Suc h = r_height t"
  proof
    assume "n_parent n = None"
    then show "Suc h = r_height t" using D(6)[of "Suc h" k] a np le by (cases "Suc h = r_height t") auto
  next
    assume "Suc h = r_height t"
    then show "n_parent n = None"
      using D(3)[of "Suc (Suc h)" "k div 64"] unfolding np by (metis Suc_n_not_le_n)
  qed
  have root: "r_rnode t = Node a \<Longrightarrow> L (r_height t) 0 = Some a" using D(2) le by (cases "r_height t") auto
  show "k = 0 \<and> r_rnode t = Node a" if "Suc h = r_height t"
  proof -
    have c: "child L M (Suc h) k = Node a" using a by simp
    then have "k = 0" using D(4)[of "Suc h" k] that by simp
    then show ?thesis using c that D(2) by metis
  qed
  show "r_rnode t \<noteq> Node a" if "Suc h \<noteq> r_height t"
    using root D(5)[OF a, of "r_height t" 0] that by auto
qed

lemma rt_drop_step:
  fixes t :: "'a rtree"
  assumes rep: "rt_rep E L M par t" and E: "E \<subseteq> {(h, k)}"
    and a: "L (Suc h) k = Some a" and empty: "occ L M h k = {}" and lt: "Suc h \<noteq> r_height t"
  defines "i \<equiv> k mod 64"
  obtains q m m1 t2 where "L (Suc (Suc h)) (k div 64) = Some q" "mem t q = Some m"
    "node_ok L M (Suc h) (k div 64) m" "m1 = rt_count_out i (rt_set_slot i Null m)"
    "n_slots m i = Node a" "0 < n_count m" "n_count m \<le> 64" "n_height m \<le> r_height t"
    "n_count m1 = 0 \<or> n_bitmap m1 \<noteq> 0" "n_count m1 \<le> 64"
    "rtn_put_node a (rt_write q m1 t) = Some t2" "mem t2 q = Some m1"
    "r_height t2 = r_height t" "r_rnode t2 = r_rnode t"
    "rt_rep {(Suc h, k div 64)} (level_upd L (Suc h) k None) M par t2"
proof -
  note D = rt_repD[OF rep]
  have "Suc h < r_height t" using D(3)[of "Suc h" k] a lt by simp
  then obtain q where q: "L (Suc (Suc h)) (k div 64) = Some q" using D(6)[of "Suc h" k] a by auto
  from q obtain m where m: "mem t q = Some m" "node_ok L M (Suc h) (k div 64) m" by (rule rt_node_at[OF rep])
  have qa: "q \<noteq> a" using D(5)[OF a, of "Suc (Suc h)" "k div 64"] q by auto
  define m1 where "m1 = rt_count_out i (rt_set_slot i Null m)"
  have i64: "i < 64" by (simp add: i_def)
  have occd: "child L M (Suc h) (64 * (k div 64) + i) \<noteq> Null" using a by (simp add: i_def)
  have "child (level_upd L (Suc h) k None) M (Suc h) (64 * (k div 64) + j) =
      (if j = i then Null else child L M (Suc h) (64 * (k div 64) + j))" if "j < 64" for j
  proof -
    have "64 * (k div 64) + j = k \<longleftrightarrow> j = i"
      using mult_div_mod_eq[of 64 k] unfolding i_def by linarith
    then show ?thesis by (simp add: level_upd_apply)
  qed
  moreover have "level_upd L (Suc h) k None (Suc (Suc (Suc h))) (k div 64 div 64) =
      L (Suc (Suc (Suc h))) (k div 64 div 64)" by (simp add: level_upd_apply)
  ultimately have out: "n_count m1 = 0 \<or> n_bitmap m1 \<noteq> 0" "n_count m1 \<le> 64" "0 < n_count m" "n_count m \<le> 64"
    unfolding m1_def using node_ok_out(3-6)[OF m(2) i64 occd] by blast+
  let ?t = "rt_write q m1 t"
  have "pool_inv (p_node (p_rtn ?t))" "pool_used (p_node (p_rtn ?t)) = dom (mem ?t)" "a \<in> dom (mem ?t)"
    using D(10,11) m(1) rt_node_at[OF rep a] by (auto simp: rt_write_def)
  then obtain p where p: "rtn_put_node a ?t = Some (?t\<lparr>p_rtn := p, mem := (mem ?t)(a := None)\<rparr>)"
    "pool_inv (p_node p)" "pool_used (p_node p) = dom (mem ?t) - {a}"
    by (rule rtn_put_node_spec)
  have used: "pool_used (p_node p) = dom (mem t) - {a}" using p(3) m(1) by (auto simp: rt_write_def)
  from rt_rep_drop[OF rep E a empty q m(1) p(2) used]
  have rep2: "rt_rep {(Suc h, k div 64)} (level_upd L (Suc h) k None) M par
      (?t\<lparr>p_rtn := p, mem := (mem ?t)(a := None)\<rparr>)"
    by (simp add: rt_write_def m1_def i_def)
  have "n_height m \<le> r_height t" "n_slots m i = Node a"
    using m(2) D(3)[of "Suc (Suc h)" "k div 64"] q node_slot[OF m(2) i64] a
    by (simp_all add: node_ok_def i_def)
  with q m m1_def out p(1) rep2 qa that show ?thesis by (auto simp: rt_write_def)
qed

lemma rt_hint_remove_up_spec:
  assumes "rt_rep E L M par t" and "E \<subseteq> {(h, k)}" and "L (Suc h) k = Some a" and "unat key div 64 = k"
  shows "\<exists>np t' L' E' h' k'. rt_hint_remove_up key a t = Some (np, t') \<and> rt_rep E' L' M par t' \<and>
    E' \<subseteq> {(h', k')} \<and> L' (Suc h') k' = Some np \<and> (Suc h' = r_height t' \<or> occ L' M h' k' \<noteq> {})"
  using assms
proof (induction "r_height t - h" arbitrary: h k t a L E key rule: less_induct)
  case less
  note rep = less.prems(1) and a = less.prems(3)
  from a obtain n where n: "mem t a = Some n" "node_ok L M h k n" by (rule rt_node_at[OF rep])
  note pc = rt_parent_cases[OF rep a n(2)]
  have cnt: "n_count n = 0 \<longleftrightarrow> occ L M h k = {}"
    using n(2) card_occ_le[of L M h k] by (simp add: node_ok_def of_nat_64_eq_0)
  show ?case
  proof (cases "Suc h = r_height t \<or> occ L M h k \<noteq> {}")
    case True
    then have "rt_hint_remove_up key a t = Some (a, t)"
      using n(1) cnt pc(1) by (subst rt_hint_remove_up.simps) auto
    with rep less.prems(2) a True show ?thesis by blast
  next
    case False
    then have lt: "Suc h \<noteq> r_height t" and empty: "occ L M h k = {}" by auto
    let ?i = "k mod 64"
    let ?key = "drop_bit 6 key"
    have k1: "unat ?key = k" using less.prems(4) by (simp add: unat_drop_bit)
    from rep less.prems(2) a empty lt obtain q m m1 t2 where
      q: "L (Suc (Suc h)) (k div 64) = Some q" "mem t q = Some m" "node_ok L M (Suc h) (k div 64) m"
      "m1 = rt_count_out ?i (rt_set_slot ?i Null m)"
      "n_slots m ?i = Node a" "0 < n_count m" "n_count m \<le> 64" "n_height m \<le> r_height t"
      "n_count m1 = 0 \<or> n_bitmap m1 \<noteq> 0" "n_count m1 \<le> 64"
      and t2: "rtn_put_node a (rt_write q m1 t) = Some t2" "mem t2 q = Some m1"
      "r_height t2 = r_height t" "r_rnode t2 = r_rnode t"
      "rt_rep {(Suc h, k div 64)} (level_upd L (Suc h) k None) M par t2"
      by (rule rt_drop_step)
    have "n_parent n = Some q" using q(1) n(2) by (simp add: node_ok_def)
    then have ev: "rt_hint_remove_up key a t = rt_hint_remove_up ?key q t2"
      using n(1) cnt empty q(2,5-10) q(4)[symmetric] t2(1)
      by (subst rt_hint_remove_up.simps) (simp add: Let_def rtree_consts unat_and_63 k1)
    have "r_height t2 - Suc h < r_height t - h" using pc(2) t2(3) by simp
    moreover have "level_upd L (Suc h) k None (Suc (Suc h)) (k div 64) = Some q"
      using q(1) by (simp add: level_upd_apply)
    ultimately show ?thesis
      using less.hyps[OF _ t2(5), of "Suc h" "k div 64" q ?key] k1 unfolding ev by blast
  qed
qed

lemma rt_reset:
  assumes rep: "rt_rep E L M par t" and H: "r_height t = Suc h"
    and a: "L (Suc h) 0 = Some a" and empty: "occ L M h 0 = {}"
  shows "\<exists>t'. rtn_put_node a (t\<lparr>r_height := 0, r_rnode := Null\<rparr>) = Some t' \<and> rt_abs M par t'"
proof -
  note D = rt_repD[OF rep]
  note last = rt_rep_last[OF rep H a empty]
  let ?t = "t\<lparr>r_height := 0, r_rnode := Null\<rparr>"
  have "pool_inv (p_node (p_rtn ?t))" "pool_used (p_node (p_rtn ?t)) = dom (mem ?t)" "a \<in> dom (mem ?t)"
    using D(10,11) last(2) by auto
  then obtain p where p: "rtn_put_node a ?t = Some (?t\<lparr>p_rtn := p, mem := (mem ?t)(a := None)\<rparr>)"
    "pool_inv (p_node p)" "pool_used (p_node p) = dom (mem ?t) - {a}"
    by (rule rtn_put_node_spec)
  have "rt_rep {} (\<lambda>_ _. None) M par (?t\<lparr>p_rtn := p, mem := (mem ?t)(a := None)\<rparr>)"
    using p last by (intro rt_repI) (auto simp: child_def)
  then show ?thesis using p(1) by (auto simp: rt_abs_def)
qed

text \<open>The last step of an insertion, at the leaf: a new item fills its slot, an item that is there stays.\<close>

lemma insert_leaf:
  assumes grow: "(if key > height_to_maxindex ! r_height t then rtree_extend cb key t s else Some (t, s)) = Some (t1, s1)"
    and key: "unat key < 64 ^ r_height t1"
    and t2: "rt_insert_down key (r_height t1) None (r_rnode t1) 0 t1 = Some (np, off, t2)"
      "r_height t2 = r_height t1" "rt_rep E2 L2 M par t2" "E2 \<subseteq> {(0, unat key div 64)}"
      "np = L2 1 (unat key div 64)" "0 < r_height t1 \<longrightarrow> np \<noteq> None \<and> off = unat key mod 64"
    and x: "M (unat key) = None \<and> x \<notin> ran M \<or> M (unat key) = Some x"
    and call: "insert_cb cb (islot (M (unat key))) i np s1 = Some (Item x, s')"
  shows "\<exists>t'. rtree_insert cb key i t s = Some (Item x, t', s') \<and>
    t' = (if M (unat key) = Some x then t2 else if r_height t1 = 0 then t2\<lparr>r_rnode := Item x\<rparr>
      else rt_write (the np) (rt_count_in off (rt_set_slot off (Item x) (the (mem t2 (the np))))) t2)"
proof (cases "r_height t1 = 0")
  case True
  let ?n = "unat key"
  note D2 = rt_repD[OF t2(3)]
  have "L2 1 (?n div 64) = None" using D2(3)[of 1 "?n div 64"] t2(2) True by fastforce
  then have np: "np = None" using t2(5) by simp
  have "?n = 0" using key True by simp
  then have root: "r_rnode t2 = islot (M ?n)" using D2(2) t2(2) True by simp
  have "rtree_insert cb key i t s = Some (Item x, t2\<lparr>r_rnode := Item x\<rparr>, s')"
    using grow t2(1,2) np True root call by (simp add: rtree_insert_def)
  moreover have "M ?n = Some x \<Longrightarrow> t2\<lparr>r_rnode := Item x\<rparr> = t2" using root by simp
  ultimately show ?thesis using True by simp
next
  case False
  let ?n = "unat key"
  obtain a where np: "np = Some a" and off: "off = ?n mod 64" using False t2(6) by auto
  have La: "L2 (Suc 0) (?n div 64) = Some a" using t2(5) np by simp
  obtain n where n: "mem t2 a = Some n" "node_ok L2 M 0 (?n div 64) n"
    using La by (rule rt_node_at[OF t2(3)])
  have sl: "n_slots n (?n mod 64) = islot (M ?n)" using node_slot[OF n(2), of "?n mod 64"] by simp
  have h1: "n_height n = 1" and c64: "n_count n \<le> 64"
    using n(2) card_occ_le[of L2 M 0 "?n div 64"] by (simp_all add: node_ok_def word_le_nat_alt unat_of_nat_64)
  show ?thesis
  proof (cases "M ?n = Some x")
    case True
    have "rt_write a (rt_set_slot off (Item x) n) t2 = t2"
    proof -
      have "rt_set_slot off (Item x) n = n" using sl True off by (simp add: rt_set_slot_def fun_upd_idem)
      moreover have "(mem t2)(a \<mapsto> n) = mem t2" using n(1) by (simp add: map_upd_triv)
      ultimately show ?thesis by (simp add: rt_write_def)
    qed
    then show ?thesis using grow t2(1,2) np n(1) False sl h1 c64 call off True by (simp add: rtree_insert_def Let_def)
  next
    case new: False
    then show ?thesis using grow t2(1,2) np n(1) False sl h1 c64 call off x
      by (auto simp add: rtree_insert_def Let_def rt_count_set_slot_commute[symmetric]) (simp_all add: rt_count_in_def)
  qed
qed

lemma insert_leaf_abs:
  assumes key: "unat key < 64 ^ r_height t1"
    and t2: "r_height t2 = r_height t1" "rt_rep E2 L2 M par t2" "E2 \<subseteq> {(0, unat key div 64)}"
      "np = L2 1 (unat key div 64)" "0 < r_height t1 \<longrightarrow> np \<noteq> None \<and> off = unat key mod 64"
    and new: "M (unat key) = None" and x: "x \<notin> ran M"
  shows "rt_abs (M(unat key \<mapsto> x)) (par(x := np))
    (if r_height t1 = 0 then t2\<lparr>r_rnode := Item x\<rparr>
     else rt_write (the np) (rt_count_in off (rt_set_slot off (Item x) (the (mem t2 (the np))))) t2)"
proof (cases "r_height t1 = 0")
  case True
  note D2 = rt_repD[OF t2(2)]
  have "L2 1 (unat key div 64) = None" using D2(3)[of 1 "unat key div 64"] t2(1) True by fastforce
  then have np: "np = None" using t2(4) by simp
  have "rt_rep {} L2 (M(unat key \<mapsto> x)) (par(x := np)) (t2\<lparr>r_rnode := Item x\<rparr>)"
    using x key t2 True np new
    by (intro rt_rep_fill[OF t2(2,3), where a = "Addr 0 0" and n = undefined]) auto
  then show ?thesis using True by (auto simp: rt_abs_def)
next
  case False
  note D2 = rt_repD[OF t2(2)]
  let ?n = "unat key"
  obtain a where np: "np = Some a" and off: "off = ?n mod 64" using False t2(5) by auto
  have La: "L2 (Suc 0) (?n div 64) = Some a" using t2(4) np by simp
  obtain n where n: "mem t2 a = Some n" "node_ok L2 M 0 (?n div 64) n"
    using La by (rule rt_node_at[OF t2(2)])
  let ?t = "rt_write a (rt_count_in off (rt_set_slot off (Item x) n)) t2"
  have "rt_rep {} L2 (M(?n \<mapsto> x)) (par(x := np)) ?t"
    using x t2 key False np new n(1) off
    by (intro rt_rep_fill[OF t2(2,3), where a = a and n = n]) (auto simp: rt_write_def)
  moreover have "r_rnode ?t \<noteq> Null"
  proof
    assume "r_rnode ?t = Null"
    then have "child L2 M (r_height t2) (?n div 64 ^ r_height t2) = Null"
      using D2(2) key t2(1) by (simp add: rt_write_def)
    from null_below[OF t2(2) _ order_refl this, of 1] La False t2(1) show False by simp
  qed
  ultimately show ?thesis using False np n(1) by (auto simp: rt_abs_def)
qed

section \<open>The client contract\<close>

text \<open>
  The part of the contract that growing and shrinking the tree rests on: \<open>extend_cb\<close> and
  \<open>shrink_to_root_cb\<close> set the parent pointer of an item and touch nothing else of the client's store.
\<close>

locale rtree_hooks =
  fixes cb :: "('a, 'n, 's) rtree_cb"
    and getp :: "'s \<Rightarrow> 'a \<Rightarrow> node_addr option"
    and rest :: "'s \<Rightarrow> 'r"
  assumes extend_law: "getp (extend_cb cb x a s) = (getp s)(x := Some a) \<and>
             rest (extend_cb cb x a s) = rest s"
    and shrink_law: "\<exists>f. shrink_to_root_cb cb = Some f \<and>
             (\<forall>x s. getp (f x s) = (getp s)(x := None) \<and> rest (f x s) = rest s)"
begin

lemma extend_step:
  assumes rep: "rt_rep {} L M (getp s) t" and root: "r_rnode t \<noteq> Null" and H: "r_height t < 8"
  shows "\<exists>t' s' L'. rt_extend_step cb t s = Some (t', s') \<and> r_height t' = Suc (r_height t) \<and>
    r_rnode t' \<noteq> Null \<and> rt_rep {} L' M (getp s') t' \<and> rest s' = rest s \<and>
    (\<forall>y. y \<notin> ran M \<longrightarrow> getp s' y = getp s y)"
proof -
  note D = rt_repD[OF rep]
  obtain a p where a: "rtn_get_node t = Some (a, t\<lparr>p_rtn := p\<rparr>)" "mem t a = None"
    "pool_inv (p_node p)" "pool_used (p_node p) = insert a (dom (mem t))"
    using D(10,11) by (rule rtn_get_node_spec)
  let ?n = "\<lparr>n_height = Suc (r_height t), n_bitmap = 1, n_count = 1, n_parent = None,
             n_slots = (\<lambda>_. Null)(0 := r_rnode t)\<rparr>"
  show ?thesis
  proof (cases "r_height t = 0")
    case True
    then obtain x where x: "r_rnode t = Item x" "M 0 = Some x"
      using root D(2) by (cases "M 0") auto
    have only: "y = x" if y: "y \<in> ran M" for y
    proof -
      obtain k where k: "M k = Some y" using y by (auto simp: ran_def)
      then have "k = 0" using D(4)[of 0 k] True by simp
      then show ?thesis using k x by simp
    qed
    let ?t = "rt_write a ?n (t\<lparr>p_rtn := p\<rparr>)\<lparr>r_rnode := Node a, r_height := Suc (r_height t)\<rparr>"
    let ?s = "extend_cb cb x a s"
    have ev: "rt_extend_step cb t s = Some (?t, ?s)"
      using a(1) True x by (simp add: rt_extend_step_def rtree_consts Let_def)
    have "rt_rep {} (level_upd L (Suc (r_height t)) 0 (Some a)) M (getp ?s) ?t"
      using only extend_law True a x
      by (intro rt_rep_grow[OF rep root H a(2)]) (auto simp: rt_write_def)
    moreover have "x \<in> ran M" using x by (auto intro: ranI)
    ultimately show ?thesis using ev extend_law[of x a s]
      by (intro exI[of _ ?t] exI[of _ ?s] exI) (auto simp: rt_write_def)
  next
    case False
    then obtain q where q: "r_rnode t = Node q" using root D(2) by (cases "r_height t") auto
    obtain h where h: "r_height t = Suc h" using False by (cases "r_height t") auto
    have "L (Suc h) 0 = Some q" using D(2) q h by (metis child_node nslot_simps(4))
    then obtain m where m: "mem t q = Some m" by (rule rt_node_at[OF rep])
    have qa: "q \<noteq> a" using m a(2) by auto
    let ?t = "rt_write a ?n (rt_write q (m\<lparr>n_parent := Some a\<rparr>) (t\<lparr>p_rtn := p\<rparr>))
                \<lparr>r_rnode := Node a, r_height := Suc (r_height t)\<rparr>"
    have ev: "rt_extend_step cb t s = Some (?t, s)"
      using a(1) False H q m by (simp add: rt_extend_step_def rtree_consts Let_def)
    have "rt_rep {} (level_upd L (Suc (r_height t)) 0 (Some a)) M (getp s) ?t"
      using False a q m qa by (intro rt_rep_grow[OF rep root H a(2)]) (auto simp: rt_write_def)
    then show ?thesis using ev by (intro exI[of _ ?t] exI[of _ s] exI) (auto simp: rt_write_def)
  qed
qed

lemma extend_loop:
  assumes "rt_rep {} L M (getp s) t" and "r_rnode t \<noteq> Null" and "r_height t < H" and "H \<le> 8"
  shows "\<exists>t' s' L'. rt_extend_loop cb H t s = Some (t', s') \<and> r_height t' = H \<and>
    r_rnode t' \<noteq> Null \<and> rt_rep {} L' M (getp s') t' \<and> rest s' = rest s \<and>
    (\<forall>y. y \<notin> ran M \<longrightarrow> getp s' y = getp s y)"
  using assms
proof (induction "H - r_height t" arbitrary: t s L rule: less_induct)
  case less
  then have "r_height t < 8" by simp
  from extend_step[OF less.prems(1,2) this]
  obtain t1 s1 L1 where t1: "rt_extend_step cb t s = Some (t1, s1)" "r_height t1 = Suc (r_height t)"
    "r_rnode t1 \<noteq> Null" "rt_rep {} L1 M (getp s1) t1" "rest s1 = rest s"
    "\<And>y. y \<notin> ran M \<Longrightarrow> getp s1 y = getp s y" by blast
  show ?case
  proof (cases "r_height t1 < H")
    case True
    then have "H - r_height t1 < H - r_height t" using t1(2) by simp
    from less.hyps[OF this t1(4,3) True less.prems(4)] t1 True show ?thesis
      by (subst rt_extend_loop.simps) fastforce
  next
    case False
    then have "r_height t1 = H" using t1(2) less.prems(3) by simp
    then show ?thesis using t1 by (subst rt_extend_loop.simps) auto
  qed
qed

lemma extend_rep:
  assumes rep: "rt_rep {} L M (getp s) t" and key: "unat key < 64 ^ 8"
    and beyond: "64 ^ r_height t \<le> unat key"
  shows "\<exists>t' s' L'. rtree_extend cb key t s = Some (t', s') \<and> unat key < 64 ^ r_height t' \<and>
    rt_rep {} L' M (getp s') t' \<and> rest s' = rest s \<and> (\<forall>y. y \<notin> ran M \<longrightarrow> getp s' y = getp s y)"
proof -
  note D = rt_repD[OF rep]
  let ?H = "rt_fit_height key (r_height t)"
  note fit = rt_fit_height_props[OF D(1) key]
  have lt: "r_height t < ?H" using fit beyond by (metis le_neq_implies_less not_le)
  show ?thesis
  proof (cases "r_rnode t = Null")
    case True
    let ?t = "t\<lparr>r_height := ?H\<rparr>"
    note e = rt_rep_empty_root[OF rep True]
    have none: "L h k = None" for h k
      using D(3)[of h k] e[of h k] by (cases h; cases "L h k") auto
    have Me: "M = Map.empty" using e[of 0] by auto
    have c: "child L M h k = Null" for h k by (cases h) (simp_all add: none Me)
    have "rt_rep {} L M (getp s) ?t"
    proof (rule rt_repI)
      show "r_rnode ?t = child L M (r_height ?t) 0" using True c by simp
      show "a \<in> dom (mem ?t) \<longleftrightarrow> (\<exists>h k. L h k = Some a)" for a using D(9) by simp
      show "k < 64 ^ (r_height ?t - h)" if "child L M h k \<noteq> Null" for h k using that c by simp
      show "\<exists>a. L (Suc h) (k div 64) = Some a" if "child L M h k \<noteq> Null" for h k using that c by simp
    qed (use D(10,11) fit in \<open>simp_all add: none Me\<close>)
    then show ?thesis using True fit by (auto simp: rtree_extend_def rtree_consts Let_def)
  next
    case False
    from extend_loop[OF rep False lt fit(2)] False fit(3) show ?thesis
      by (auto simp: rtree_extend_def Let_def)
  qed
qed

text \<open>
  Insertion of \<open>i\<close> at a key: the call-back gets the slot as the map has it and answers with the item \<open>x\<close>,
  which is new if the slot was empty and the same otherwise.
\<close>

lemma insert_slot:
  assumes abs: "rt_abs M (getp s) t" and key: "unat key < 64 ^ 8"
    and x: "M (unat key) = None \<and> x \<notin> ran M \<or> M (unat key) = Some x"
    and call: "\<And>p s1. rest s1 = rest s \<Longrightarrow> (\<And>y. y \<notin> ran M \<Longrightarrow> getp s1 y = getp s y) \<Longrightarrow>
      \<exists>s2. insert_cb cb (islot (M (unat key))) i p s1 = Some (Item x, s2) \<and>
        getp s2 = (getp s1)(x := p) \<and> rest s2 = R"
  shows "\<exists>t' s'. rtree_insert cb key i t s = Some (Item x, t', s') \<and>
    rt_abs (M(unat key \<mapsto> x)) (getp s') t' \<and> rest s' = R \<and>
    (\<forall>y. y \<notin> insert x (ran M) \<longrightarrow> getp s' y = getp s y)"
proof -
  from abs obtain L where rep: "rt_rep {} L M (getp s) t" by (auto simp: rt_abs_def)
  obtain t1 s1 L1 where t1: "(if key > height_to_maxindex ! r_height t then rtree_extend cb key t s
       else Some (t, s)) = Some (t1, s1)" "unat key < 64 ^ r_height t1"
    "rt_rep {} L1 M (getp s1) t1" "rest s1 = rest s" "\<And>y. y \<notin> ran M \<Longrightarrow> getp s1 y = getp s y"
  proof (cases "64 ^ r_height t \<le> unat key")
    case True
    from extend_rep[OF rep key this] that True rt_key_beyond[OF rep, of key] show ?thesis by auto
  next
    case False
    with that[of t s L] rep rt_key_beyond[OF rep, of key] show ?thesis by auto
  qed
  let ?n = "unat key"
  have top: "child L1 M (r_height t1) (?n div 64 ^ r_height t1) = r_rnode t1"
    using rt_repD(2)[OF t1(3)] t1(2) by simp
  have none: "L1 (Suc (r_height t1)) (?n div 64 ^ Suc (r_height t1)) = None"
    using rt_repD(3)[OF t1(3), of "Suc (r_height t1)"] by (meson Suc_n_not_le_n)
  have "r_height t1 < r_height t1 \<longrightarrow> None \<noteq> (None :: node_addr option) \<and> 0 = ?n div 64 ^ r_height t1 mod 64"
    by simp
  from rt_insert_down_spec[OF t1(3) order_refl t1(2) empty_subsetI none[symmetric] this, unfolded top]
  obtain np off t2 L2 E2 where t2: "rt_insert_down key (r_height t1) None (r_rnode t1) 0 t1 = Some (np, off, t2)"
    "r_height t2 = r_height t1" "rt_rep E2 L2 M (getp s1) t2" "E2 \<subseteq> {(0, ?n div 64)}"
    "np = L2 1 (?n div 64)" "0 < r_height t1 \<longrightarrow> np \<noteq> None \<and> off = ?n mod 64"
    by (elim exE conjE) (rule that; assumption)
  obtain s' where s': "insert_cb cb (islot (M ?n)) i np s1 = Some (Item x, s')"
    "getp s' = (getp s1)(x := np)" "rest s' = R" using call[OF t1(4,5)] by blast
  have fr: "getp s' y = getp s y" if "y \<notin> insert x (ran M)" for y using that s'(2) t1(5) by simp
  obtain t' where ev: "rtree_insert cb key i t s = Some (Item x, t', s')"
    and t': "t' = (if M ?n = Some x then t2 else if r_height t1 = 0 then t2\<lparr>r_rnode := Item x\<rparr>
      else rt_write (the np) (rt_count_in off (rt_set_slot off (Item x) (the (mem t2 (the np))))) t2)"
    using insert_leaf[OF t1(1,2) t2 x s'(1)] by blast
  have "rt_abs (M(?n \<mapsto> x)) (getp s') t'"
  proof (cases "M ?n = Some x")
    case True
    then have "getp s1 x = np" using rt_repD(12)[OF t2(3) True] t2(5) by simp
    then have g: "getp s' = getp s1" using s'(2) by auto
    have "occ L2 M 0 (?n div 64) \<noteq> {}" using occ_child[of L2 M 0 ?n] True by simp
    then have rep2: "rt_rep {} L2 M (getp s1) t2" using t2(4) by (intro rt_rep_filled[OF t2(3)]) auto
    have "r_height t2 = 0 \<or> r_rnode t2 \<noteq> Null"
      using rt_rep_empty_root[OF rep2, of 0 ?n] True by auto
    then show ?thesis using True rep2 unfolding t' g by (auto simp: rt_abs_def map_upd_triv)
  next
    case False
    then have new: "M ?n = None" and xn: "x \<notin> ran M" using x by auto
    show ?thesis using insert_leaf_abs[OF t1(2) t2(2-6) new xn] s'(2) False unfolding t' by simp
  qed
  with ev s'(3) fr show ?thesis by auto
qed

lemma shrink_rep:
  assumes rep: "rt_rep E L M (getp s) t" and H: "r_height t = Suc h"
    and a: "L (Suc h) 0 = Some a" and E: "E \<subseteq> {(h, 0)}"
  shows "\<exists>t' s'. rtree_shrink cb t s = Some (t', s') \<and> rt_abs M (getp s') t' \<and>
    rest s' = rest s \<and> (\<forall>y. y \<notin> ran M \<longrightarrow> getp s' y = getp s y)"
proof -
  note D = rt_repD[OF rep]
  have root: "r_rnode t = Node a" using D(2) H a by simp
  from a obtain n where n: "mem t a = Some n" "node_ok L M h 0 n" by (rule rt_node_at[OF rep])
  show ?thesis
  proof (cases "occ L M h 0 = {}")
    case True
    then have c0: "n_count n = 0" using n(2) by (simp add: node_ok_def)
    from rt_reset[OF rep H a True] H root n(1) c0 show ?thesis by (auto simp: rtree_shrink_def)
  next
    case False
    then have c0: "n_count n \<noteq> 0" by (intro node_count_nonzero[OF n(2)])
    have rep0: "rt_rep {} L M (getp s) t" using False E by (intro rt_rep_filled[OF rep]) auto
    have "r_rnode t \<noteq> Null" using root by simp
    from rt_shrink_loop_spec[OF rep0 this] obtain t' L' where
      t': "rt_shrink_loop t = Some t'" "r_height t' \<le> r_height t" "r_rnode t' \<noteq> Null"
      "rt_rep {} L' M (\<lambda>x. if r_height t' = 0 then None else getp s x) t'" by blast
    note D' = rt_repD[OF t'(4)]
    obtain f where f: "shrink_to_root_cb cb = Some f"
      "\<And>x s. getp (f x s) = (getp s)(x := None) \<and> rest (f x s) = rest s" using shrink_law by blast
    show ?thesis
    proof (cases "r_height t' = 0")
      case True
      then obtain x where x: "r_rnode t' = Item x" "M 0 = Some x"
        using t'(3) D'(2) by (cases "M 0") auto
      have ev: "rtree_shrink cb t s = Some (t', f x s)"
        using H root n(1) c0 t'(1) True x f(1) by (simp add: rtree_shrink_def rtree_consts)
      have only: "y = x" if y: "y \<in> ran M" for y
      proof -
        obtain k where k: "M k = Some y" using y by (auto simp: ran_def)
        then have "k = 0" using D'(4)[of 0 k] True by simp
        then show ?thesis using k x by simp
      qed
      have "rt_rep {} L' M (getp (f x s)) t'"
        using only f(2) True by (intro rt_rep_cong_par[OF t'(4)]) auto
      moreover have "x \<in> ran M" using x by (auto intro: ranI)
      ultimately show ?thesis using ev f(2) t'(3) by (intro exI[of _ t'] exI[of _ "f x s"]) (auto simp: rt_abs_def)
    next
      case False
      then obtain h' where h': "r_height t' = Suc h'" by (cases "r_height t'") auto
      then obtain b where b: "r_rnode t' = Node b" "L' (Suc h') 0 = Some b"
        using t'(3) D'(2) by (cases "L' (Suc h') 0") auto
      from b(2) obtain m where m: "mem t' b = Some m" "node_ok L' M h' 0 m" by (rule rt_node_at[OF t'(4)])
      have mc: "n_height m = r_height t'" "n_count m \<le> 64"
        using m(2) h' card_occ_le[of L' M h' 0]
        by (simp_all add: node_ok_def word_le_nat_alt unat_of_nat_64)
      have "rtree_shrink cb t s = Some (t', s)"
        using H root n(1) c0 t'(1) False b(1) m(1) mc D'(1) by (simp add: rtree_shrink_def rtree_consts)
      then show ?thesis using t'(3,4) False by (auto simp: rt_abs_def)
    qed
  qed
qed

text \<open>
  Removal of \<open>i\<close> from the slot that holds \<open>x\<close>: the call-back answers with the empty slot or with \<open>x\<close> again.
\<close>

lemma remove_slot_null:
  assumes abs: "rt_abs M (getp s) t" and x: "M (unat key) = Some x"
    and call: "remove_cb cb (Item x) (Some i) s = Some (Null, s1)"
    and par: "\<And>y. y \<in> ran (M(unat key := None)) \<Longrightarrow> getp s1 y = getp s y"
  shows "\<exists>t' s'. rtree_hint_remove cb key i (getp s x) t s = Some (Null, t', s') \<and>
    rt_abs (M(unat key := None)) (getp s') t' \<and> rest s' = rest s1 \<and>
    (\<forall>y. y \<notin> ran M \<longrightarrow> getp s' y = getp s1 y)"
proof -
  from abs obtain L where rep: "rt_rep {} L M (getp s) t" by (auto simp: rt_abs_def)
  note D = rt_repD[OF rep]
  let ?n = "unat key" let ?i = "unat key mod 64" let ?M = "M(unat key := None)"
  have px: "getp s x = L 1 (?n div 64)" using D(12)[OF x] .
  have ranM: "ran ?M \<subseteq> ran M" by (auto simp: ran_def split: if_splits)
  show ?thesis
  proof (cases "r_height t = 0")
    case True
    then have n0: "?n = 0" using D(4)[of 0 ?n] x by simp
    have "L 1 (?n div 64) = None" using D(3)[of 1 "?n div 64"] True by fastforce
    then have np: "getp s x = None" using px by simp
    have root: "r_rnode t = Item x" using D(2) True n0 x by simp
    have M0: "?M = Map.empty"
    proof
      fix k show "?M k = Map.empty k"
        using D(4)[of 0 k] True n0 by (cases "M k") auto
    qed
    have none: "L h k = None" for h k using D(3)[of h k] True by fastforce
    let ?t = "t\<lparr>r_rnode := Null\<rparr>"
    have "rtree_hint_remove cb key i (getp s x) t s = Some (Null, ?t, s1)"
      using np root True call by (simp add: rtree_hint_remove_def)
    moreover have "rt_rep {} L Map.empty (getp s1) ?t"
    proof (rule rt_repI)
      have c: "child L (Map.empty :: nat \<Rightarrow> 'a option) h k = Null" for h k by (cases h) (simp_all add: none)
      show "r_rnode ?t = child L Map.empty (r_height ?t) 0" using c by simp
      show "a \<in> dom (mem ?t) \<longleftrightarrow> (\<exists>h k. L h k = Some a)" for a using D(9) by simp
      show "k < 64 ^ (r_height ?t - h)" if "child L (Map.empty :: nat \<Rightarrow> 'a option) h k \<noteq> Null" for h k
        using that c by simp
    qed (use D(10,11) True in \<open>simp_all add: none\<close>)
    ultimately show ?thesis using True unfolding M0 by (auto simp: rt_abs_def)
  next
    case False
    then have H: "0 < r_height t" by simp
    then obtain a where a: "L 1 (?n div 64) = Some a" using D(6)[of 0 ?n] x by auto
    then have La: "L (Suc 0) (?n div 64) = Some a" by simp
    from La obtain n where n: "mem t a = Some n" "node_ok L M 0 (?n div 64) n" by (rule rt_node_at[OF rep])
    have sl: "n_slots n ?i = Item x" using node_slot[OF n(2), of ?i] x by simp
    have i64: "?i < 64" by simp
    have occd: "child L M 0 (64 * (?n div 64) + ?i) \<noteq> Null" using x by simp
    have chj: "child L ?M 0 (64 * (?n div 64) + j) =
        (if j = ?i then Null else child L M 0 (64 * (?n div 64) + j))" if "j < 64" for j
    proof -
      have "64 * (?n div 64) + j = ?n \<longleftrightarrow> j = ?i" using mult_div_mod_eq[of 64 ?n] by linarith
      then show ?thesis by simp
    qed
    let ?n2 = "rt_count_out ?i (rt_set_slot ?i Null n)"
    note out = node_ok_out(3-6)[OF n(2) i64 occd chj refl]
    note rep1 = rt_rep_cong_par[OF rt_rep_clear[OF rep x H a n(1)] par]
    have subs: "{(0, ?n div 64)} \<subseteq> {(0, ?n div 64)}" by simp
    from rt_hint_remove_up_spec[OF rep1 subs La refl]
    obtain np t2 L2 E2 h2 k2 where up: "rt_hint_remove_up key a (rt_write a ?n2 t) = Some (np, t2)"
      and rep2: "rt_rep E2 L2 ?M (getp s1) t2" and E2: "E2 \<subseteq> {(h2, k2)}"
      and L2: "L2 (Suc h2) k2 = Some np" and stop: "Suc h2 = r_height t2 \<or> occ L2 ?M h2 k2 \<noteq> {}" by blast
    from L2 obtain m where m: "mem t2 np = Some m" "node_ok L2 ?M h2 k2 m" by (rule rt_node_at[OF rep2])
    note pc = rt_parent_cases[OF rep2 L2 m(2)]
    have c1: "n_count (rt_set_slot ?i Null n) = n_count n" by (simp add: rt_set_slot_def)
    have ev: "rtree_hint_remove cb key i (getp s x) t s =
        Option.bind (if n_parent m = None then
                       Option.bind (c_assert (n_height m = r_height t2)) (\<lambda>_. rtree_shrink cb t2 s1)
                     else Some (t2, s1)) (\<lambda>(t, s). Some (Null, t, s))"
      using px a n sl call out c1 up m(1)
      by (simp add: rtree_hint_remove_def rtree_consts unat_and_63 Let_def node_ok_def)
    show ?thesis
    proof (cases "Suc h2 = r_height t2")
      case True
      then have k0: "k2 = 0" using pc(3) by simp
      have hm: "n_height m = r_height t2" using m(2) True by (simp add: node_ok_def)
      from shrink_rep[OF rep2 True[symmetric] L2[unfolded k0] E2[unfolded k0]]
      obtain t' s' where "rtree_shrink cb t2 s1 = Some (t', s')" "rt_abs ?M (getp s') t'"
        "rest s' = rest s1" "\<forall>y. y \<notin> ran ?M \<longrightarrow> getp s' y = getp s1 y" by blast
      with ev pc(1) True hm ranM show ?thesis by auto
    next
      case False
      then have "rt_rep {} L2 ?M (getp s1) t2" using stop E2 by (intro rt_rep_filled[OF rep2]) auto
      moreover have "r_rnode t2 \<noteq> Null"
        using rt_rep_empty_root[OF rep2 _ pc(2), of k2] L2 by auto
      ultimately show ?thesis using ev pc(1) False by (auto simp: rt_abs_def)
    qed
  qed
qed

lemma remove_slot_item:
  assumes abs: "rt_abs M (getp s) t" and x: "M (unat key) = Some x"
    and call: "remove_cb cb (Item x) (Some i) s = Some (Item x, s1)"
    and par: "\<And>y. y \<in> ran M \<Longrightarrow> getp s1 y = getp s y"
  shows "\<exists>t' s'. rtree_hint_remove cb key i (getp s x) t s = Some (Item x, t', s') \<and>
    rt_abs M (getp s') t' \<and> rest s' = rest s1 \<and> (\<forall>y. y \<notin> ran M \<longrightarrow> getp s' y = getp s1 y)"
proof -
  from abs obtain L where rep0: "rt_rep {} L M (getp s) t" by (auto simp: rt_abs_def)
  have rep: "rt_rep {} L M (getp s1) t" by (rule rt_rep_cong_par[OF rep0 par])
  have abs1: "rt_abs M (getp s1) t" by (rule rt_abs_cong_par[OF abs par])
  note D = rt_repD[OF rep]
  let ?n = "unat key" let ?i = "unat key mod 64"
  have px: "getp s x = L 1 (?n div 64)" using rt_repD(12)[OF rep0 x] .
  show ?thesis
  proof (cases "r_height t = 0")
    case True
    then have n0: "?n = 0" using D(4)[of 0 ?n] x by simp
    have "L 1 (?n div 64) = None" using D(3)[of 1 "?n div 64"] True by fastforce
    then have np: "getp s x = None" using px by simp
    have root: "r_rnode t = Item x" using D(2) True n0 x by simp
    have "rtree_hint_remove cb key i (getp s x) t s = Some (Item x, t, s1)"
      using np root True call by (simp add: rtree_hint_remove_def)
    then show ?thesis using abs1 by blast
  next
    case False
    then have H: "0 < r_height t" by simp
    then obtain a where a: "L 1 (?n div 64) = Some a" using D(6)[of 0 ?n] x by auto
    then have La: "L (Suc 0) (?n div 64) = Some a" by simp
    from La obtain n where n: "mem t a = Some n" "node_ok L M 0 (?n div 64) n" by (rule rt_node_at[OF rep])
    have sl: "n_slots n ?i = Item x" using node_slot[OF n(2), of ?i] x by simp
    have "occ L M 0 (?n div 64) \<noteq> {}" using occ_child[of L M 0 ?n] x by simp
    then have c0: "n_count n \<noteq> 0" by (rule node_count_nonzero[OF n(2)])
    have same: "rt_write a (rt_set_slot ?i (Item x) n) t = t"
    proof -
      have "rt_set_slot ?i (Item x) n = n" using sl by (simp add: rt_set_slot_def fun_upd_idem)
      moreover have "(mem t)(a \<mapsto> n) = mem t" using n(1) by (simp add: map_upd_triv)
      ultimately show ?thesis by (simp add: rt_write_def)
    qed
    have up: "rt_hint_remove_up key a t = Some (a, t)" using n(1) c0 by (subst rt_hint_remove_up.simps) simp
    note pc = rt_parent_cases[OF rep La n(2)]
    have ev: "rtree_hint_remove cb key i (getp s x) t s =
        Option.bind (if n_parent n = None then
                       Option.bind (c_assert (n_height n = r_height t)) (\<lambda>_. rtree_shrink cb t s1)
                     else Some (t, s1)) (\<lambda>(t, s). Some (Item x, t, s))"
      using px a n sl call up same by (simp add: rtree_hint_remove_def rtree_consts unat_and_63 Let_def node_ok_def)
    show ?thesis
    proof (cases "Suc 0 = r_height t")
      case True
      then have k0: "?n div 64 = 0" using pc(3) by simp
      have hm: "n_height n = r_height t" using n(2) True by (simp add: node_ok_def)
      from shrink_rep[OF rep True[symmetric] La[unfolded k0]]
      obtain t' s' where "rtree_shrink cb t s1 = Some (t', s')" "rt_abs M (getp s') t'"
        "rest s' = rest s1" "\<forall>y. y \<notin> ran M \<longrightarrow> getp s' y = getp s1 y" by blast
      with ev pc(1) True hm show ?thesis by auto
    next
      case ne: False
      then show ?thesis using ev pc(1) abs1 by auto
    qed
  qed
qed

end

text \<open>
  What the tree relies on of a client whose items are the nodes it inserts: the call-backs keep the
  parent pointer of an item and touch nothing else of the client's store; \<open>remove_cb\<close> clears the slot of the
  item named.
\<close>

locale rtree_client = rtree_hooks cb getp rest
  for cb :: "('a, 'a, 's) rtree_cb" and getp :: "'s \<Rightarrow> 'a \<Rightarrow> node_addr option" and rest :: "'s \<Rightarrow> 'r" +
  assumes insert_law: "\<exists>s'. insert_cb cb Null x p s = Some (Item x, s') \<and>
             getp s' = (getp s)(x := p) \<and> rest s' = rest s"
    and insert_again: "insert_cb cb (Item y) x p s = Some (Item y, s)"
    and remove_law: "remove_cb cb (Item x) (Some x) s = Some (Null, s)"
begin

theorem insert_abs:
  assumes abs: "rt_abs M (getp s) t" and key: "unat key < 64 ^ 8"
    and new: "M (unat key) = None" and x: "x \<notin> ran M"
  shows "\<exists>t' s'. rtree_insert cb key x t s = Some (Item x, t', s') \<and>
    rt_abs (M(unat key \<mapsto> x)) (getp s') t' \<and> rest s' = rest s \<and>
    (\<forall>y. y \<notin> insert x (ran M) \<longrightarrow> getp s' y = getp s y)"
  by (rule insert_slot[OF abs key]) (use new x insert_law in \<open>auto, metis\<close>)

theorem hint_remove_abs:
  assumes abs: "rt_abs M (getp s) t" and x: "M (unat key) = Some x"
  shows "\<exists>t' s'. rtree_hint_remove cb key x (getp s x) t s = Some (Null, t', s') \<and>
    rt_abs (M(unat key := None)) (getp s') t' \<and> rest s' = rest s \<and>
    (\<forall>y. y \<notin> ran M \<longrightarrow> getp s' y = getp s y)"
  using remove_slot_null[OF abs x remove_law refl] .

end

text \<open>
  \<open>rtree_remove\<close> calls \<open>remove_cb\<close> without an item, also on the slots of inner nodes: it is
  for clients whose call-back accepts that.
\<close>

definition rt_remove_tail ::
  "('a, 'n, 's) rtree_cb \<Rightarrow> u64 \<Rightarrow> node_addr \<Rightarrow> 'a rtree_node \<Rightarrow> 'a rtree \<Rightarrow> 's \<Rightarrow>
   ('a rtree \<times> 's) option" where
  "rt_remove_tail cb key np n t s =
     (if n_count n \<noteq> 0 then (if r_rnode t = Node np then rtree_shrink cb t s else Some (t, s))
      else
        (let key1 = drop_bit RTREE_MAP_SHIFT key in
         case n_parent n of
           Some q \<Rightarrow> rt_remove_up cb key1 q (unat (key1 AND RTREE_MAP_MASK)) None (Some np) t s
         | None \<Rightarrow>
             map_option (\<lambda>t2. (t2, s)) (rtn_put_node np (t\<lparr>r_height := 0, r_rnode := Null\<rparr>))))"

locale rtree_client_any = rtree_client +
  assumes remove_any: "remove_cb cb sl None s = Some (Null, s)"
begin

lemma remove_up_node:
  assumes "mem t q = Some m" and "m1 = rt_count_out off (rt_set_slot off Null m)"
    and "n_count m1 = 0 \<or> n_bitmap m1 \<noteq> 0" "n_count m1 \<le> 64"
    and "(case to_free of Some f \<Rightarrow> rtn_put_node f (rt_write q m1 t) | None \<Rightarrow> Some (rt_write q m1 t))
           = Some t2"
  shows "rt_remove_up cb key q off None to_free t s = rt_remove_tail cb key q m1 t2 s"
  using assms(1,3-5) unfolding assms(2)
  by (subst rt_remove_up.simps)
    (cases to_free; auto simp add: remove_any Let_def rtree_consts rt_remove_tail_def)

lemma remove_tail:
  assumes "rt_rep E L M (getp s) t" and "E \<subseteq> {(h, k)}" and "L (Suc h) k = Some np"
    and "mem t np = Some n" and "unat key div 64 = k"
  shows "\<exists>t' s'. rt_remove_tail cb key np n t s = Some (t', s') \<and> rt_abs M (getp s') t' \<and>
    rest s' = rest s \<and> (\<forall>y. y \<notin> ran M \<longrightarrow> getp s' y = getp s y)"
  using assms
proof (induction "r_height t - h" arbitrary: h k t np n L E key rule: less_induct)
  case less
  note rep = less.prems(1) and a = less.prems(3)
  from a obtain n' where n': "mem t np = Some n'" "node_ok L M h k n'" by (rule rt_node_at[OF rep])
  then have n: "node_ok L M h k n" using less.prems(4) by simp
  note pc = rt_parent_cases[OF rep a n]
  have cnt: "n_count n = 0 \<longleftrightarrow> occ L M h k = {}"
    using n card_occ_le[of L M h k] by (simp add: node_ok_def of_nat_64_eq_0)
  show ?case
  proof (cases "Suc h = r_height t")
    case True
    then have k0: "k = 0" and root: "r_rnode t = Node np" using pc(3) by simp_all
    note a0 = a[unfolded k0]
    show ?thesis
    proof (cases "occ L M h k = {}")
      case e: True
      from rt_reset[OF rep True[symmetric] a0 e[unfolded k0]] pc(1) True e cnt show ?thesis
        by (auto simp: rt_remove_tail_def Let_def)
    next
      case False
      from shrink_rep[OF rep True[symmetric] a0 less.prems(2)[unfolded k0]] root cnt False show ?thesis
        by (simp add: rt_remove_tail_def)
    qed
  next
    case lt: False
    show ?thesis
    proof (cases "occ L M h k = {}")
      case False
      then have "rt_rep {} L M (getp s) t" using less.prems(2) by (intro rt_rep_filled[OF rep]) auto
      moreover have "r_rnode t \<noteq> Null" using rt_rep_empty_root[OF rep _ pc(2), of k] a by auto
      ultimately show ?thesis using cnt False pc(4)[OF lt] by (auto simp: rt_remove_tail_def rt_abs_def)
    next
      case empty: True
      let ?i = "k mod 64" let ?key = "drop_bit 6 key"
      have k1: "unat ?key = k" using less.prems(5) by (simp add: unat_drop_bit)
      from rep less.prems(2) a empty lt obtain q m m1 t2 where
        q: "L (Suc (Suc h)) (k div 64) = Some q" "mem t q = Some m" "node_ok L M (Suc h) (k div 64) m"
        "m1 = rt_count_out ?i (rt_set_slot ?i Null m)"
        "n_slots m ?i = Node np" "0 < n_count m" "n_count m \<le> 64" "n_height m \<le> r_height t"
        "n_count m1 = 0 \<or> n_bitmap m1 \<noteq> 0" "n_count m1 \<le> 64"
        and t2: "rtn_put_node np (rt_write q m1 t) = Some t2" "mem t2 q = Some m1"
        "r_height t2 = r_height t" "r_rnode t2 = r_rnode t"
        "rt_rep {(Suc h, k div 64)} (level_upd L (Suc h) k None) M (getp s) t2"
        by (rule rt_drop_step)
      have ev: "rt_remove_tail cb key np n t s = rt_remove_tail cb ?key q m1 t2 s"
        using remove_up_node[OF q(2,4,9,10), of "Some np" t2 ?key s] t2(1) cnt empty pc(5) q(1) k1
        by (simp add: rt_remove_tail_def[of cb key np] Let_def rtree_consts unat_and_63)
      have "r_height t2 - Suc h < r_height t - h" using pc(2) t2(3) by simp
      moreover have "level_upd L (Suc h) k None (Suc (Suc h)) (k div 64) = Some q"
        using q(1) by (simp add: level_upd_apply)
      ultimately show ?thesis
        using less.hyps[OF _ t2(5), of "Suc h" "k div 64" q m1 ?key] t2(2) k1 unfolding ev by blast
    qed
  qed
qed

theorem remove_abs:
  assumes abs: "rt_abs M (getp s) t"
  shows "\<exists>t' s'. rtree_remove cb key None t s = Some (islot (M (unat key)), t', s') \<and>
    rt_abs (M(unat key := None)) (getp s') t' \<and> rest s' = rest s \<and>
    (\<forall>y. y \<notin> ran M \<longrightarrow> getp s' y = getp s y)"
proof -
  from abs obtain L where rep: "rt_rep {} L M (getp s) t" and top: "r_height t = 0 \<or> r_rnode t \<noteq> Null"
    by (auto simp: rt_abs_def)
  note D = rt_repD[OF rep]
  let ?n = "unat key" let ?i = "unat key mod 64" let ?M = "M(unat key := None)"
  have same: "M ?n = None \<Longrightarrow> ?M = M" by (rule ext) simp
  show ?thesis
  proof (cases "64 ^ r_height t \<le> ?n")
    case True
    then have "M ?n = None" by (rule rt_beyond_None[OF rep])
    with True abs same show ?thesis by (simp add: rtree_remove_def rt_key_beyond[OF rep])
  next
    case False
    then have lt: "?n < 64 ^ r_height t" by simp
    have nb: "\<not> height_to_maxindex ! r_height t < key" using False rt_key_beyond[OF rep] by blast
    show ?thesis
    proof (cases "r_height t = 0")
      case True
      then have n0: "?n = 0" using lt by simp
      have root: "r_rnode t = islot (M ?n)" using D(2) True n0 by simp
      have M0: "?M = Map.empty"
      proof
        fix k show "?M k = Map.empty k" using D(4)[of 0 k] True n0 by (cases "M k") auto
      qed
      have none: "L h k = None" for h k using D(3)[of h k] True by fastforce
      let ?t = "t\<lparr>r_rnode := Null\<rparr>"
      have "rtree_remove cb key None t s = Some (islot (M ?n), ?t, s)"
        using root True nb remove_any by (simp add: rtree_remove_def)
      moreover have "rt_rep {} L Map.empty (getp s) ?t"
      proof (rule rt_repI)
        have c: "child L (Map.empty :: nat \<Rightarrow> 'a option) h k = Null" for h k by (cases h) (simp_all add: none)
        show "r_rnode ?t = child L Map.empty (r_height ?t) 0" using c by simp
        show "a \<in> dom (mem ?t) \<longleftrightarrow> (\<exists>h k. L h k = Some a)" for a using D(9) by simp
        show "k < 64 ^ (r_height ?t - h)" if "child L (Map.empty :: nat \<Rightarrow> 'a option) h k \<noteq> Null" for h k
          using that c by simp
      qed (use D(10,11) True in \<open>simp_all add: none\<close>)
      ultimately show ?thesis using True unfolding M0 by (auto simp: rt_abs_def)
    next
      case H0: False
      obtain pos where w: "rt_walk t key (r_height t) (r_rnode t) None = Some (islot (M ?n), pos)"
        and pos: "pos = None \<and> (r_height t = 0 \<or> r_rnode t = Null) \<or>
         (\<exists>h a. h < r_height t \<and> L (Suc h) (?n div 64 ^ Suc h) = Some a \<and>
            pos = Some (a, ?n div 64 ^ h mod 64) \<and>
            (h = 0 \<or> child L M h (?n div 64 ^ h) = Null))"
        by (rule rt_walk_root[OF rep lt])
      show ?thesis
      proof (cases "M ?n")
        case None
        then show ?thesis using w nb H0 abs same by (simp add: rtree_remove_def)
      next
        case (Some x)
        have H: "0 < r_height t" using H0 by simp
        from pos top H0 obtain h a where h: "h < r_height t" "L (Suc h) (?n div 64 ^ Suc h) = Some a"
          "pos = Some (a, ?n div 64 ^ h mod 64)" "h = 0 \<or> child L M h (?n div 64 ^ h) = Null" by blast
        have "h = 0" using h(1,4) null_below[OF rep, of 0 h ?n] Some by auto
        then have La: "L (Suc 0) (?n div 64) = Some a" and p: "pos = Some (a, ?i)" using h by simp_all
        then have a: "L 1 (?n div 64) = Some a" by simp
        from La obtain n where n: "mem t a = Some n" "node_ok L M 0 (?n div 64) n" by (rule rt_node_at[OF rep])
        have i64: "?i < 64" by simp
        have occd: "child L M 0 (64 * (?n div 64) + ?i) \<noteq> Null" using Some by simp
        have chj: "child L ?M 0 (64 * (?n div 64) + j) =
            (if j = ?i then Null else child L M 0 (64 * (?n div 64) + j))" if "j < 64" for j
        proof -
          have "64 * (?n div 64) + j = ?n \<longleftrightarrow> j = ?i" using mult_div_mod_eq[of 64 ?n] by linarith
          then show ?thesis by simp
        qed
        let ?n2 = "rt_count_out ?i (rt_set_slot ?i Null n)"
        note out = node_ok_out(3-6)[OF n(2) i64 occd chj refl]
        note rep1 = rt_rep_clear[OF rep Some H a n(1)]
        have ev: "rtree_remove cb key None t s =
            Option.bind (rt_remove_tail cb key a ?n2 (rt_write a ?n2 t) s) (\<lambda>(t, s). Some (Item x, t, s))"
          using w Some nb H0 p remove_up_node[OF n(1) refl out(1,2), of None "rt_write a ?n2 t" key s]
          by (simp add: rtree_remove_def)
        have "ran ?M \<subseteq> ran M" by (auto simp: ran_def split: if_splits)
        moreover have "mem (rt_write a ?n2 t) a = Some ?n2" by (simp add: rt_write_def)
        ultimately show ?thesis
          using remove_tail[OF rep1 subset_refl La _ refl] Some unfolding ev by fastforce
      qed
    qed
  qed
qed

end

section \<open>Searching and the empty tree\<close>

lemma rt_abs_search_around_null:
  assumes "rt_abs M par t"
  shows "\<exists>sl. rtree_search_around t key = Some sl \<and> rt_around M (unat key) sl \<and>
    (sl = Null \<longrightarrow> 64 ^ r_height t \<le> unat key \<or> (\<forall>j \<in> dom M. unat key < j))"
  using assms rtree_search_around_null unfolding rt_abs_def by blast

lemma rt_abs_search_around:
  assumes "rt_abs M par t"
  shows "\<exists>sl. rtree_search_around t key = Some sl \<and> rt_around M (unat key) sl"
  using assms rtree_search_around_rep unfolding rt_abs_def by blast

lemma rt_abs_init: "rt_abs Map.empty par rtree_initialization"
proof -
  have "rt_rep {} (\<lambda>_ _. None) Map.empty par rtree_initialization"
    by (rule rt_repI) (simp_all add: rtree_initialization_def rtn_initialization_def child_def)
  then show ?thesis by (auto simp: rt_abs_def rtree_initialization_def)
qed

end
