(* ===== verification/Ds_Store.thy ===== *)
theory Ds_Store
  imports Rtree_Ops
begin

text \<open>
  The store that the device space modules \<open>cache/dsmgr.c\<close> and \<open>cache/dsbmp.c\<close> share: bridge
  nodes (\<open>mm/brn.c\<close>), block size nodes (\<open>mm/blksn.c\<close>), the intrusive lists of both modules and
  their radix trees, with the call-backs the modules hand to their trees. A list head is the list
  of its entries; an entry that \<open>list_del\<close> has unlinked is on no list. Blocks are counted by
  naturals: the invariants below bound every index and size by the size of the device.
\<close>

section \<open>Positions on a list\<close>

text \<open>The entries reached from \<open>x\<close> by \<open>next\<close> and by \<open>prev\<close>, \<open>x\<close> first.\<close>

definition list_from :: "'a \<Rightarrow> 'a list \<Rightarrow> 'a list" where
  "list_from x xs = dropWhile (\<lambda>y. y \<noteq> x) xs"

definition list_back :: "'a \<Rightarrow> 'a list \<Rightarrow> 'a list" where
  "list_back x xs = dropWhile (\<lambda>y. y \<noteq> x) (rev xs)"

fun seek_right :: "('a \<Rightarrow> nat) \<Rightarrow> nat \<Rightarrow> 'a list \<Rightarrow> 'a option" where
  "seek_right f k [] = None"
| "seek_right f k [x] = Some x"
| "seek_right f k (x # y # zs) =
     (if f x < k then (if f y > k then Some x else seek_right f k (y # zs)) else Some x)"

fun seek_left :: "('a \<Rightarrow> nat) \<Rightarrow> nat \<Rightarrow> 'a list \<Rightarrow> 'a option" where
  "seek_left f k [] = None"
| "seek_left f k [x] = Some x"
| "seek_left f k (x # y # zs) = (if f x > k then seek_left f k (y # zs) else Some x)"

fun seek_up :: "('a \<Rightarrow> nat) \<Rightarrow> nat \<Rightarrow> 'a list \<Rightarrow> 'a option" where
  "seek_up f k [] = None"
| "seek_up f k [x] = Some x"
| "seek_up f k (x # y # zs) = (if f x < k then seek_up f k (y # zs) else Some x)"

fun list_add_after :: "'a \<Rightarrow> 'a \<Rightarrow> 'a list \<Rightarrow> 'a list" where
  "list_add_after y x [] = []"
| "list_add_after y x (z # zs) = (if z = x then z # y # zs else z # list_add_after y x zs)"

fun list_add_before :: "'a \<Rightarrow> 'a \<Rightarrow> 'a list \<Rightarrow> 'a list" where
  "list_add_before y x [] = []"
| "list_add_before y x (z # zs) = (if z = x then y # z # zs else z # list_add_before y x zs)"

text \<open>The search both modules make for the place of a new entry: right first, then left.\<close>

definition seek_neighbor :: "('a \<Rightarrow> nat) \<Rightarrow> nat \<Rightarrow> 'a \<Rightarrow> 'a list \<Rightarrow> 'a option" where
  "seek_neighbor f k nbr xs =
     do { x \<leftarrow> seek_right f k (list_from nbr xs); seek_left f k (list_back x xs) }"

lemma list_from_split: "x \<notin> set l1 \<Longrightarrow> list_from x (l1 @ x # l2) = x # l2"
  by (auto simp: list_from_def dropWhile_append)

lemma list_back_split: "x \<notin> set l2 \<Longrightarrow> list_back x (l1 @ x # l2) = x # rev l1"
  by (auto simp: list_back_def dropWhile_append)

lemma seek_right_last:
  assumes "p \<noteq> []" and "\<forall>x \<in> set p. f x < k" and "\<forall>x \<in> set rs. k < f x"
  shows "seek_right f k (p @ rs) = Some (last p)"
  using assms
proof (induction p)
  case (Cons x p)
  show ?case
  proof (cases p)
    case Nil
    then show ?thesis using Cons.prems by (cases rs) auto
  next
    case (Cons y ys)
    then show ?thesis using Cons.IH Cons.prems by auto
  qed
qed simp

lemma seek_right_stop: "\<not> f x < k \<Longrightarrow> seek_right f k (x # zs) = Some x"
  by (cases zs) auto

lemma seek_left_hd:
  assumes "q \<noteq> []" and "\<forall>x \<in> set q. k < f x" and "\<forall>x \<in> set p. f x < k"
  shows "seek_left f k (q @ p) = Some (if p = [] then last q else hd p)"
  using assms
proof (induction q)
  case (Cons x q)
  show ?case
  proof (cases q)
    case Nil
    then show ?thesis using Cons.prems
      by (cases p; cases "tl p") auto
  next
    case (Cons y ys)
    then show ?thesis using Cons.IH Cons.prems by auto
  qed
qed simp

lemma seek_left_stop: "\<not> k < f x \<Longrightarrow> seek_left f k (x # zs) = Some x"
  by (cases zs) auto

lemma seek_neighbor_spec:
  assumes dist: "distinct (ls @ rs)" and nbr: "nbr \<in> set (ls @ rs)"
    and l: "\<forall>x \<in> set ls. f x < k" and r: "\<forall>x \<in> set rs. k < f x"
  shows "seek_neighbor f k nbr (ls @ rs) = Some (if ls = [] then hd rs else last ls)"
proof (cases "nbr \<in> set ls")
  case True
  then obtain l1 l2 where ls: "ls = l1 @ nbr # l2" using split_list by metis
  have "seek_right f k (list_from nbr (ls @ rs)) = Some (last ls)"
    using dist l r seek_right_last[of "nbr # l2" f k rs]
    by (simp add: ls list_from_split)
  moreover have "seek_left f k (list_back (last ls) (ls @ rs)) = Some (last ls)"
  proof -
    have sp: "ls @ rs = butlast ls @ last ls # rs" using ls by (simp add: butlast_append)
    have "last ls \<in> set ls" using ls by (intro last_in_set) simp
    then have "last ls \<notin> set rs" using dist by auto
    then have "list_back (last ls) (ls @ rs) = last ls # rev (butlast ls)"
      unfolding sp by (rule list_back_split)
    moreover have "f (last ls) < k" using l ls by (metis append_is_Nil_conv last_in_set list.distinct(1))
    ultimately show ?thesis by (simp add: seek_left_stop)
  qed
  ultimately show ?thesis using ls by (simp add: seek_neighbor_def)
next
  case False
  then have "nbr \<in> set rs" using nbr by simp
  then obtain r1 r2 where rs: "rs = r1 @ nbr # r2" using split_list by metis
  have "list_from nbr (ls @ rs) = nbr # r2"
    using dist list_from_split[of nbr "ls @ r1" r2] False by (auto simp: rs)
  then have sr: "seek_right f k (list_from nbr (ls @ rs)) = Some nbr"
    using r by (simp add: seek_right_stop rs)
  have "list_back nbr (ls @ rs) = (nbr # rev r1) @ rev ls"
    using dist list_back_split[of nbr r2 "ls @ r1"] by (simp add: rs)
  then have "seek_left f k (list_back nbr (ls @ rs)) =
      Some (if rev ls = [] then last (nbr # rev r1) else hd (rev ls))"
    using r l by (simp only:) (rule seek_left_hd; simp add: rs)
  moreover have "hd rs = last (nbr # rev r1)" by (cases r1) (simp_all add: rs)
  ultimately show ?thesis using sr by (simp add: seek_neighbor_def hd_rev)
qed

lemma list_add_after_split:
  "x \<notin> set l1 \<Longrightarrow> list_add_after y x (l1 @ x # l2) = l1 @ x # y # l2"
  by (induction l1) auto

lemma list_add_before_split:
  "x \<notin> set l1 \<Longrightarrow> list_add_before y x (l1 @ x # l2) = l1 @ y # x # l2"
  by (induction l1) auto

lemma list_add_place:
  assumes "distinct (ls @ rs)" and "ls @ rs \<noteq> []"
  shows "ls \<noteq> [] \<Longrightarrow> list_add_after y (last ls) (ls @ rs) = ls @ y # rs"
    and "ls = [] \<Longrightarrow> list_add_before y (hd rs) (ls @ rs) = y # rs"
proof -
  assume "ls \<noteq> []"
  then have "ls @ rs = butlast ls @ last ls # rs" "ls = butlast ls @ [last ls]" by simp_all
  moreover then have "last ls \<notin> set (butlast ls)" using assms(1)
    by (metis distinct_append not_distinct_conv_prefix)
  ultimately show "list_add_after y (last ls) (ls @ rs) = ls @ y # rs"
    by (metis append.assoc append_Cons append_Nil list_add_after_split)
next
  assume "ls = []"
  then show "list_add_before y (hd rs) (ls @ rs) = y # rs" using assms(2) by (cases rs) auto
qed

lemma seek_up_spec:
  assumes "sorted_wrt (\<lambda>a b. f a < f b) xs" and "xs \<noteq> []"
  shows "\<exists>x \<in> set xs. seek_up f k xs = Some x \<and> (f x < k \<longrightarrow> x = last xs)"
  using assms
proof (induction f k xs rule: seek_up.induct)
  case (3 f k x y zs)
  then show ?case by (cases "f x < k") auto
qed auto

section \<open>Nodes and state\<close>

datatype bn_target = Bsn node_addr | Spn nat

record bridge_node =
  bn_parent :: "node_addr option"
  bn_data :: bn_target

record block_size_node =
  bsn_index :: nat
  bsn_size :: nat
  bsn_slot :: node_addr

type_synonym brn_heap = "node_addr \<Rightarrow> bridge_node"

definition DSMGR_LARGE_SPACE :: nat where "DSMGR_LARGE_SPACE = 4096"

record ds_state =
  brn_pool :: node_pool
  blksn_pool :: node_pool
  brn :: brn_heap
  bsn :: "node_addr \<Rightarrow> block_size_node"
  p_rtree :: "node_addr rtree"
  p_space_head :: "node_addr list"
  p_num_free_blocks :: nat
  p_sp_rtree :: "node_addr rtree"
  p_large_sp_head :: "node_addr list"
  p_sp_heads :: "nat \<Rightarrow> node_addr list"
  p_sp_heads_size :: "nat \<Rightarrow> int"
  sn_slot :: "nat \<Rightarrow> node_addr option"
  p_size_head :: "nat list"

text \<open>
  \<open>p_rtree\<close>, \<open>p_space_head\<close> and \<open>p_num_free_blocks\<close> belong to dsbmp, the fields after them to
  dsmgr. \<open>p_size_head\<close> is the \<open>p_space_head\<close> of dsmgr, a list of its \<open>p_sp_nodes\<close>, each named by
  its place in that array.
\<close>

definition sn_size :: "nat \<Rightarrow> nat" where "sn_size i = i + 1"

definition brn_get_node :: "ds_state \<Rightarrow> (node_addr \<times> ds_state) option" where
  "brn_get_node S = do { (a, p) \<leftarrow> node_get_node (brn_pool S); Some (a, S\<lparr>brn_pool := p\<rparr>) }"

definition brn_put_node :: "node_addr \<Rightarrow> ds_state \<Rightarrow> ds_state option" where
  "brn_put_node a S = do { p \<leftarrow> node_put_node a (brn_pool S); Some (S\<lparr>brn_pool := p\<rparr>) }"

definition blksn_get_node :: "ds_state \<Rightarrow> (node_addr \<times> ds_state) option" where
  "blksn_get_node S = do { (a, p) \<leftarrow> node_get_node (blksn_pool S); Some (a, S\<lparr>blksn_pool := p\<rparr>) }"

definition blksn_put_node :: "node_addr \<Rightarrow> ds_state \<Rightarrow> ds_state option" where
  "blksn_put_node a S = do { p \<leftarrow> node_put_node a (blksn_pool S); Some (S\<lparr>blksn_pool := p\<rparr>) }"

section \<open>The call-backs of the two trees\<close>

definition rtree_extend_cb :: "node_addr \<Rightarrow> node_addr \<Rightarrow> brn_heap \<Rightarrow> brn_heap" where
  "rtree_extend_cb target_slot parent s = s(target_slot := (s target_slot)\<lparr>bn_parent := Some parent\<rparr>)"

definition rtree_insert_cb ::
  "node_addr slot \<Rightarrow> node_addr \<Rightarrow> node_addr option \<Rightarrow> brn_heap \<Rightarrow> (node_addr slot \<times> brn_heap) option" where
  "rtree_insert_cb target_slot new_node parent s =
     (if target_slot = Null
      then Some (Item new_node, s(new_node := (s new_node)\<lparr>bn_parent := parent\<rparr>))
      else Some (target_slot, s))"

definition dsbmp_remove_cb ::
  "node_addr slot \<Rightarrow> node_addr option \<Rightarrow> brn_heap \<Rightarrow> (node_addr slot \<times> brn_heap) option" where
  "dsbmp_remove_cb target_slot target_node s =
     do {
       c_assert (target_slot = (case target_node of None \<Rightarrow> Null | Some x \<Rightarrow> Item x));
       Some (Null, s)
     }"

definition dsmgr_remove_cb ::
  "node_addr slot \<Rightarrow> node_addr option \<Rightarrow> brn_heap \<Rightarrow> (node_addr slot \<times> brn_heap) option" where
  "dsmgr_remove_cb target_slot target_node s =
     do {
       c_assert (case target_node of None \<Rightarrow> True | Some x \<Rightarrow> target_slot = Item x);
       Some (Null, s)
     }"

definition rtree_shrink_cb :: "node_addr \<Rightarrow> brn_heap \<Rightarrow> brn_heap" where
  "rtree_shrink_cb node s = s(node := (s node)\<lparr>bn_parent := None\<rparr>)"

definition dsbmp_cb :: "(node_addr, node_addr, brn_heap) rtree_cb" where
  "dsbmp_cb = \<lparr>extend_cb = rtree_extend_cb, insert_cb = rtree_insert_cb,
               remove_cb = dsbmp_remove_cb, shrink_to_root_cb = Some rtree_shrink_cb\<rparr>"

definition dsmgr_cb :: "(node_addr, node_addr, brn_heap) rtree_cb" where
  "dsmgr_cb = \<lparr>extend_cb = rtree_extend_cb, insert_cb = rtree_insert_cb,
               remove_cb = dsmgr_remove_cb, shrink_to_root_cb = Some rtree_shrink_cb\<rparr>"

definition bn_parents :: "brn_heap \<Rightarrow> node_addr \<Rightarrow> node_addr option" where
  "bn_parents s x = bn_parent (s x)"

definition bn_datas :: "brn_heap \<Rightarrow> node_addr \<Rightarrow> bn_target" where
  "bn_datas s x = bn_data (s x)"

lemmas ds_cb_defs = rtree_extend_cb_def rtree_insert_cb_def dsbmp_remove_cb_def dsmgr_remove_cb_def
  rtree_shrink_cb_def dsbmp_cb_def dsmgr_cb_def

lemma bn_set_parent [simp]:
  "bn_parents (s(x := (s x)\<lparr>bn_parent := p\<rparr>)) = (bn_parents s)(x := p)"
  "bn_datas (s(x := (s x)\<lparr>bn_parent := p\<rparr>)) = bn_datas s"
  by (auto simp: bn_parents_def bn_datas_def)

interpretation bt: rtree_client dsbmp_cb bn_parents bn_datas
  by unfold_locales (simp_all add: ds_cb_defs)

interpretation mt: rtree_client_any dsmgr_cb bn_parents bn_datas
  by unfold_locales (simp_all add: ds_cb_defs)

end
