(* ===== verification/Dsmgr_Pool.thy ===== *)
theory Dsmgr_Pool
  imports Ds_Store
begin

text \<open>
  The size-ordered pool of \<open>cache/dsmgr.c\<close>: free extents of at most \<open>DSMGR_LARGE_SPACE\<close> blocks
  hang on one list per size, and a radix tree and a sorted list hold the sizes in use; larger
  extents are on one list. This theory has the operations that keep the pool, \<open>__dsmgr_drop_node\<close>,
  \<open>__dsmgr_add_node\<close> and \<open>dsmgr_extend_space\<close>, its invariant, and what they do to it.
\<close>

section \<open>Operations\<close>

text \<open>\<open>list_del\<close> unlinks the node from whichever list it is on. A size of 0 would index before the
  arrays: the operation is undefined.\<close>

definition dsmgr_drop_node :: "node_addr \<Rightarrow> ds_state \<Rightarrow> ds_state option" where
  "dsmgr_drop_node np S =
     (let node_size = bsn_size (bsn S np);
          S = S\<lparr>p_sp_heads := (\<lambda>i. remove1 np (p_sp_heads S i)),
                p_large_sp_head := remove1 np (p_large_sp_head S)\<rparr> in
      if node_size \<le> DSMGR_LARGE_SPACE then
        do {
          c_assert (0 < node_size);
          let i = node_size - 1;
          let S = S\<lparr>p_sp_heads_size := (p_sp_heads_size S)(i := p_sp_heads_size S i - 1)\<rparr>;
          if p_sp_heads S i = [] then
            do {
              (sl, t, s) \<leftarrow> rtree_remove dsmgr_cb (of_nat i) None (p_sp_rtree S) (brn S);
              (case sl of
                 Item br_np \<Rightarrow>
                   (case bn_data (s br_np) of
                      Spn sp_node \<Rightarrow>
                        do {
                          c_assert (sn_size sp_node = node_size);
                          brn_put_node br_np
                            (S\<lparr>p_sp_rtree := t, brn := s,
                               p_size_head := remove1 sp_node (p_size_head S)\<rparr>)
                        }
                    | Bsn _ \<Rightarrow> None)
               | _ \<Rightarrow> None)
            }
          else Some S
        }
      else
        Some (S\<lparr>p_sp_heads_size := (p_sp_heads_size S)
                 (DSMGR_LARGE_SPACE := p_sp_heads_size S DSMGR_LARGE_SPACE - 1)\<rparr>))"

text \<open>
  The part of \<open>__dsmgr_add_node\<close> for the first node of a size: the size enters the sorted list of
  sizes and the tree. The neighbour is the one the tree finds or else the first of the list.
\<close>

definition dsmgr_size_neighbor :: "nat \<Rightarrow> brn_heap \<Rightarrow> nat list \<Rightarrow> node_addr slot \<Rightarrow> nat option option" where
  "dsmgr_size_neighbor sp_node heap sizes sl =
     (case sl of
        Item br_np2 \<Rightarrow>
          (case bn_data (heap br_np2) of
             Spn j \<Rightarrow> do { c_assert (sn_size j \<noteq> sn_size sp_node); Some (Some j) }
           | Bsn _ \<Rightarrow> None)
      | Null \<Rightarrow> Some (case sizes of [] \<Rightarrow> None | j # _ \<Rightarrow> Some j)
      | Node _ \<Rightarrow> None)"

definition dsmgr_size_place :: "nat \<Rightarrow> nat option \<Rightarrow> nat list \<Rightarrow> nat list option" where
  "dsmgr_size_place sp_node nbr_node sizes =
     (case nbr_node of
        None \<Rightarrow> Some (sp_node # sizes)
      | Some j \<Rightarrow>
          do {
            nbr \<leftarrow> seek_neighbor sn_size (sn_size sp_node) j sizes;
            Some (if sn_size nbr < sn_size sp_node then list_add_after sp_node nbr sizes
                  else list_add_before sp_node nbr sizes)
          })"

definition dsmgr_add_size :: "nat \<Rightarrow> ds_state \<Rightarrow> ds_state option" where
  "dsmgr_add_size sp_node S =
     do {
       (br_np, S) \<leftarrow> brn_get_node S;
       let heap = (brn S)(br_np := (brn S br_np)\<lparr>bn_data := Spn sp_node\<rparr>);
       sl \<leftarrow> rtree_search_around (p_sp_rtree S) (of_nat sp_node);
       nbr_node \<leftarrow> dsmgr_size_neighbor sp_node heap (p_size_head S) sl;
       sizes \<leftarrow> dsmgr_size_place sp_node nbr_node (p_size_head S);
       (_, t, heap) \<leftarrow> rtree_insert dsmgr_cb (of_nat sp_node) br_np (p_sp_rtree S) heap;
       Some (S\<lparr>sn_slot := (sn_slot S)(sp_node \<mapsto> br_np), p_size_head := sizes, p_sp_rtree := t,
               brn := heap\<rparr>)
     }"

definition dsmgr_add_node :: "node_addr \<Rightarrow> ds_state \<Rightarrow> ds_state option" where
  "dsmgr_add_node np S =
     (let node_size = bsn_size (bsn S np) in
      if node_size > DSMGR_LARGE_SPACE then
        Some (S\<lparr>p_sp_heads_size := (p_sp_heads_size S)
                  (DSMGR_LARGE_SPACE := p_sp_heads_size S DSMGR_LARGE_SPACE + 1),
                p_large_sp_head := p_large_sp_head S @ [np]\<rparr>)
      else
        do {
          c_assert (0 < node_size);
          let i = node_size - 1;
          let S = S\<lparr>p_sp_heads_size := (p_sp_heads_size S)(i := p_sp_heads_size S i + 1)\<rparr>;
          S \<leftarrow> (if p_sp_heads S i = [] then dsmgr_add_size i S else Some S);
          Some (S\<lparr>p_sp_heads := (p_sp_heads S)(i := p_sp_heads S i @ [np])\<rparr>)
        })"

definition bsn_set_size :: "node_addr \<Rightarrow> nat \<Rightarrow> ds_state \<Rightarrow> ds_state" where
  "bsn_set_size np n S = S\<lparr>bsn := (bsn S)(np := (bsn S np)\<lparr>bsn_size := n\<rparr>)\<rparr>"

definition dsmgr_extend_space :: "node_addr \<Rightarrow> nat \<Rightarrow> ds_state \<Rightarrow> ds_state option" where
  "dsmgr_extend_space np ext_size S =
     (let old_size = bsn_size (bsn S np) in
      if old_size \<le> DSMGR_LARGE_SPACE then
        do {
          S \<leftarrow> dsmgr_drop_node np S;
          dsmgr_add_node np (bsn_set_size np (old_size + ext_size) S)
        }
      else Some (bsn_set_size np (old_size + ext_size) S))"

section \<open>Invariant\<close>

definition sp_map :: "ds_state \<Rightarrow> nat \<Rightarrow> node_addr option" where
  "sp_map S i = (if i < DSMGR_LARGE_SPACE \<and> p_sp_heads S i \<noteq> [] then sn_slot S i else None)"

lemma sp_map_upd:
  "sp_map (S\<lparr>brn_pool := x1\<rparr>) = sp_map S" "sp_map (S\<lparr>blksn_pool := x1\<rparr>) = sp_map S"
  "sp_map (S\<lparr>brn := x2\<rparr>) = sp_map S" "sp_map (S\<lparr>bsn := x3\<rparr>) = sp_map S"
  "sp_map (S\<lparr>p_rtree := x4\<rparr>) = sp_map S" "sp_map (S\<lparr>p_sp_rtree := x4\<rparr>) = sp_map S"
  "sp_map (S\<lparr>p_space_head := x5\<rparr>) = sp_map S" "sp_map (S\<lparr>p_num_free_blocks := x6\<rparr>) = sp_map S"
  "sp_map (S\<lparr>p_large_sp_head := x5\<rparr>) = sp_map S" "sp_map (S\<lparr>p_sp_heads_size := x7\<rparr>) = sp_map S"
  "sp_map (S\<lparr>p_size_head := x8\<rparr>) = sp_map S"
  by (simp_all add: fun_eq_iff sp_map_def)

lemma bsn_set_size_sel [simp]:
  "brn_pool (bsn_set_size a n S) = brn_pool S" "blksn_pool (bsn_set_size a n S) = blksn_pool S"
  "brn (bsn_set_size a n S) = brn S" "p_rtree (bsn_set_size a n S) = p_rtree S"
  "p_space_head (bsn_set_size a n S) = p_space_head S"
  "p_num_free_blocks (bsn_set_size a n S) = p_num_free_blocks S"
  "p_sp_rtree (bsn_set_size a n S) = p_sp_rtree S"
  "p_large_sp_head (bsn_set_size a n S) = p_large_sp_head S"
  "p_sp_heads (bsn_set_size a n S) = p_sp_heads S"
  "p_sp_heads_size (bsn_set_size a n S) = p_sp_heads_size S"
  "sn_slot (bsn_set_size a n S) = sn_slot S" "p_size_head (bsn_set_size a n S) = p_size_head S"
  "sp_map (bsn_set_size a n S) = sp_map S"
  "bsn (bsn_set_size a n S) = (bsn S)(a := (bsn S a)\<lparr>bsn_size := n\<rparr>)"
  by (simp_all add: bsn_set_size_def sp_map_upd)

definition mgr_inv :: "node_addr set \<Rightarrow> ds_state \<Rightarrow> bool" where
  "mgr_inv P S \<longleftrightarrow>
     pool_inv (brn_pool S) \<and>
     rt_abs (sp_map S) (bn_parents (brn S)) (p_sp_rtree S) \<and>
     ran (sp_map S) \<subseteq> pool_used (brn_pool S) \<and>
     (\<forall>i < DSMGR_LARGE_SPACE. p_sp_heads S i \<noteq> [] \<longrightarrow>
        (\<exists>br. sn_slot S i = Some br \<and> bn_data (brn S br) = Spn i)) \<and>
     (\<forall>i. distinct (p_sp_heads S i)) \<and>
     (\<forall>i. set (p_sp_heads S i) = {a \<in> P. bsn_size (bsn S a) = Suc i \<and> i < DSMGR_LARGE_SPACE}) \<and>
     distinct (p_large_sp_head S) \<and>
     set (p_large_sp_head S) = {a \<in> P. DSMGR_LARGE_SPACE < bsn_size (bsn S a)} \<and>
     (\<forall>a \<in> P. 0 < bsn_size (bsn S a)) \<and>
     sorted_wrt (<) (p_size_head S) \<and>
     set (p_size_head S) = {i. i < DSMGR_LARGE_SPACE \<and> p_sp_heads S i \<noteq> []} \<and>
     (\<forall>i < DSMGR_LARGE_SPACE. p_sp_heads_size S i = int (length (p_sp_heads S i))) \<and>
     p_sp_heads_size S DSMGR_LARGE_SPACE = int (length (p_large_sp_head S))"

lemma mgr_invD:
  assumes "mgr_inv P S"
  shows "pool_inv (brn_pool S)" "rt_abs (sp_map S) (bn_parents (brn S)) (p_sp_rtree S)"
    "ran (sp_map S) \<subseteq> pool_used (brn_pool S)"
    "\<And>i. i < DSMGR_LARGE_SPACE \<Longrightarrow> p_sp_heads S i \<noteq> [] \<Longrightarrow>
        \<exists>br. sn_slot S i = Some br \<and> bn_data (brn S br) = Spn i"
    "\<And>i. distinct (p_sp_heads S i)"
    "\<And>i. set (p_sp_heads S i) = {a \<in> P. bsn_size (bsn S a) = Suc i \<and> i < DSMGR_LARGE_SPACE}"
    "distinct (p_large_sp_head S)"
    "set (p_large_sp_head S) = {a \<in> P. DSMGR_LARGE_SPACE < bsn_size (bsn S a)}"
    "\<And>a. a \<in> P \<Longrightarrow> 0 < bsn_size (bsn S a)"
    "sorted_wrt (<) (p_size_head S)"
    "set (p_size_head S) = {i. i < DSMGR_LARGE_SPACE \<and> p_sp_heads S i \<noteq> []}"
    "\<And>i. i < DSMGR_LARGE_SPACE \<Longrightarrow> p_sp_heads_size S i = int (length (p_sp_heads S i))"
    "p_sp_heads_size S DSMGR_LARGE_SPACE = int (length (p_large_sp_head S))"
  using assms unfolding mgr_inv_def by simp_all

text \<open>Bridge nodes in use that are not of the size tree; the operations of the pool leave them
  alone.\<close>

definition brn_others :: "ds_state \<Rightarrow> node_addr set" where
  "brn_others S = pool_used (brn_pool S) - ran (sp_map S)"

definition mgr_frame :: "ds_state \<Rightarrow> ds_state \<Rightarrow> bool" where
  "mgr_frame S S' \<longleftrightarrow>
     bsn S' = bsn S \<and> blksn_pool S' = blksn_pool S \<and> p_rtree S' = p_rtree S \<and>
     p_space_head S' = p_space_head S \<and> p_num_free_blocks S' = p_num_free_blocks S \<and>
     brn_others S' = brn_others S \<and> (\<forall>b \<in> brn_others S. brn S' b = brn S b)"

lemma mgr_frame_refl: "mgr_frame S S"
  by (simp add: mgr_frame_def)

lemma mgr_frame_trans: "mgr_frame S S' \<Longrightarrow> mgr_frame S' S'' \<Longrightarrow> mgr_frame S S''"
  by (simp add: mgr_frame_def)

lemma bridge_eqI:
  "bn_datas s' = bn_datas s \<Longrightarrow> bn_parents s' b = bn_parents s b \<Longrightarrow> s' b = s b"
  by (metis bn_datas_def bn_parents_def bridge_node.equality old.unit.exhaust)

lemma unat_of_nat_size: "i < DSMGR_LARGE_SPACE \<Longrightarrow> unat (of_nat i :: u64) = i"
  by (simp add: unat_of_nat DSMGR_LARGE_SPACE_def)

lemma rt_abs_inj: "rt_abs M par t \<Longrightarrow> M i = Some x \<Longrightarrow> M j = Some x \<Longrightarrow> i = j"
  unfolding rt_abs_def using rt_repD(13) by (metis domI inj_onD)

lemma ran_upd_None:
  assumes "\<And>j. m j = Some x \<Longrightarrow> j = i" and "m i = Some x"
  shows "ran (m(i := None)) = ran m - {x}"
proof (rule set_eqI)
  fix y
  have "(\<exists>j. (m(i := None)) j = Some y) \<longleftrightarrow> (\<exists>j. m j = Some y) \<and> y \<noteq> x"
    using assms by (metis fun_upd_other fun_upd_same option.distinct(1) option.inject)
  then show "y \<in> ran (m(i := None)) \<longleftrightarrow> y \<in> ran m - {x}" by (simp add: ran_def)
qed

section \<open>Dropping a node\<close>

lemma mgr_size_cases:
  assumes "mgr_inv P S" and "a \<in> P"
  obtains (large) "DSMGR_LARGE_SPACE < bsn_size (bsn S a)"
  | (small) i where "bsn_size (bsn S a) = Suc i" "i < DSMGR_LARGE_SPACE" "a \<in> set (p_sp_heads S i)"
proof (cases "bsn_size (bsn S a) \<le> DSMGR_LARGE_SPACE")
  case True
  moreover obtain i where i: "bsn_size (bsn S a) = Suc i"
    using mgr_invD(9)[OF assms] by (cases "bsn_size (bsn S a)") auto
  ultimately show ?thesis using small[of i] assms by (simp add: mgr_invD(6)[OF assms(1)])
qed (use large in simp)

lemma mgr_drop_lists:
  assumes inv: "mgr_inv P S"
  shows "distinct (remove1 a (p_sp_heads S i))"
    "set (remove1 a (p_sp_heads S i)) =
       {b \<in> P - {a}. bsn_size (bsn S b) = Suc i \<and> i < DSMGR_LARGE_SPACE}"
    "distinct (remove1 a (p_large_sp_head S))"
    "set (remove1 a (p_large_sp_head S)) = {b \<in> P - {a}. DSMGR_LARGE_SPACE < bsn_size (bsn S b)}"
    "bsn_size (bsn S a) \<noteq> Suc i \<Longrightarrow> remove1 a (p_sp_heads S i) = p_sp_heads S i"
    "bsn_size (bsn S a) \<le> DSMGR_LARGE_SPACE \<Longrightarrow> remove1 a (p_large_sp_head S) = p_large_sp_head S"
  using mgr_invD(5-8)[OF inv] by (auto simp: remove1_idem)

text \<open>What the two operations must establish: the parts of the invariant about the lists, which do
  not mention the tree, and the parts about the tree.\<close>

lemma mgr_invI:
  assumes "pool_inv (brn_pool S)" "rt_abs (sp_map S) (bn_parents (brn S)) (p_sp_rtree S)"
    "ran (sp_map S) \<subseteq> pool_used (brn_pool S)"
    "\<And>i. i < DSMGR_LARGE_SPACE \<Longrightarrow> p_sp_heads S i \<noteq> [] \<Longrightarrow>
        \<exists>br. sn_slot S i = Some br \<and> bn_data (brn S br) = Spn i"
    "\<And>i. distinct (p_sp_heads S i)"
    "\<And>i. set (p_sp_heads S i) = {a \<in> P. bsn_size (bsn S a) = Suc i \<and> i < DSMGR_LARGE_SPACE}"
    "distinct (p_large_sp_head S)"
    "set (p_large_sp_head S) = {a \<in> P. DSMGR_LARGE_SPACE < bsn_size (bsn S a)}"
    "\<And>a. a \<in> P \<Longrightarrow> 0 < bsn_size (bsn S a)"
    "sorted_wrt (<) (p_size_head S)"
    "set (p_size_head S) = {i. i < DSMGR_LARGE_SPACE \<and> p_sp_heads S i \<noteq> []}"
    "\<And>i. i < DSMGR_LARGE_SPACE \<Longrightarrow> p_sp_heads_size S i = int (length (p_sp_heads S i))"
    "p_sp_heads_size S DSMGR_LARGE_SPACE = int (length (p_large_sp_head S))"
  shows "mgr_inv P S"
  unfolding mgr_inv_def by (intro conjI allI ballI impI; fact assms | rule assms; assumption)

lemma length_remove1_int: "x \<in> set xs \<Longrightarrow> int (length (remove1 x xs)) = int (length xs) - 1"
  by (simp add: length_remove1) (metis One_nat_def Suc_leI length_pos_if_in_set of_nat_diff of_nat_1)

lemma dsmgr_drop_node_spec:
  assumes inv: "mgr_inv P S" and a: "a \<in> P"
  shows "\<exists>S'. dsmgr_drop_node a S = Some S' \<and> mgr_inv (P - {a}) S' \<and> mgr_frame S S' \<and>
    p_sp_heads S' = (\<lambda>i. remove1 a (p_sp_heads S i)) \<and>
    p_large_sp_head S' = remove1 a (p_large_sp_head S)"
  using inv a
proof (cases rule: mgr_size_cases)
  case large
  note D = mgr_invD[OF inv] and L = mgr_drop_lists[OF inv, of a]
  let ?S = "S\<lparr>p_sp_heads := (\<lambda>i. remove1 a (p_sp_heads S i)),
             p_large_sp_head := remove1 a (p_large_sp_head S),
             p_sp_heads_size := (p_sp_heads_size S)
               (DSMGR_LARGE_SPACE := p_sp_heads_size S DSMGR_LARGE_SPACE - 1)\<rparr>"
  have ev: "dsmgr_drop_node a S = Some ?S" using large by (simp add: dsmgr_drop_node_def Let_def)
  have hd: "i < DSMGR_LARGE_SPACE \<Longrightarrow> remove1 a (p_sp_heads S i) = p_sp_heads S i" for i
    using L(5)[of i] large by simp
  have sm: "sp_map ?S = sp_map S" by (rule ext) (auto simp: sp_map_def hd)
  have al: "a \<in> set (p_large_sp_head S)" using D(8) a large by simp
  have "mgr_inv (P - {a}) ?S"
  proof (rule mgr_invI)
    show "set (p_size_head ?S) = {i. i < DSMGR_LARGE_SPACE \<and> p_sp_heads ?S i \<noteq> []}"
      using D(11) hd by auto
    show "p_sp_heads_size ?S i = int (length (p_sp_heads ?S i))" if "i < DSMGR_LARGE_SPACE" for i
      using D(12)[OF that] hd[OF that] that by simp
    show "p_sp_heads_size ?S DSMGR_LARGE_SPACE = int (length (p_large_sp_head ?S))"
      using D(13) al by (simp add: length_remove1_int)
    show "\<exists>br. sn_slot ?S i = Some br \<and> bn_data (brn ?S br) = Spn i"
      if "i < DSMGR_LARGE_SPACE" "p_sp_heads ?S i \<noteq> []" for i using D(4) hd that by simp
  qed (use D(1-3,9,10) L(1-4) in \<open>simp_all add: sm\<close>)
  moreover have "mgr_frame S ?S" by (simp add: mgr_frame_def brn_others_def sm)
  ultimately show ?thesis using ev by simp
next
  case (small i)
  note D = mgr_invD[OF inv] and L = mgr_drop_lists[OF inv, of a]
  let ?H = "\<lambda>i. remove1 a (p_sp_heads S i)"
  let ?S1 = "S\<lparr>p_sp_heads := ?H, p_large_sp_head := remove1 a (p_large_sp_head S),
             p_sp_heads_size := (p_sp_heads_size S)(i := p_sp_heads_size S i - 1)\<rparr>"
  have hd: "j \<noteq> i \<Longrightarrow> ?H j = p_sp_heads S j" for j using L(5)[of j] small by simp
  have ne: "p_sp_heads S i \<noteq> []" using small(3) by auto
  have cnt: "p_sp_heads_size ?S1 j = int (length (?H j))" if "j < DSMGR_LARGE_SPACE" for j
    using D(12)[OF that] hd[of j] small(3) by (cases "j = i") (simp_all add: length_remove1_int)
  have lg: "p_sp_heads_size ?S1 DSMGR_LARGE_SPACE = int (length (remove1 a (p_large_sp_head S)))"
    using D(13) L(6) small by simp
  show ?thesis
  proof (cases "?H i = []")
    case False
    have ev: "dsmgr_drop_node a S = Some ?S1"
      using small False by (simp add: dsmgr_drop_node_def Let_def)
    have em: "?H j = [] \<longleftrightarrow> p_sp_heads S j = []" for j using hd[of j] ne False by (cases "j = i") auto
    have sm: "sp_map ?S1 = sp_map S" by (rule ext) (auto simp: sp_map_def em)
    have "mgr_inv (P - {a}) ?S1"
    proof (rule mgr_invI)
      show "set (p_size_head ?S1) = {i. i < DSMGR_LARGE_SPACE \<and> p_sp_heads ?S1 i \<noteq> []}"
        using D(11) em by simp
      show "p_sp_heads_size ?S1 j = int (length (p_sp_heads ?S1 j))" if "j < DSMGR_LARGE_SPACE" for j
        using cnt[OF that] by simp
      show "\<exists>br. sn_slot ?S1 i = Some br \<and> bn_data (brn ?S1 br) = Spn i"
        if "i < DSMGR_LARGE_SPACE" "p_sp_heads ?S1 i \<noteq> []" for i using D(4) em that by simp
    qed (use D(1-3,9,10) L(1-4) lg in \<open>simp_all add: sm\<close>)
    moreover have "mgr_frame S ?S1" by (simp add: mgr_frame_def brn_others_def sm)
    ultimately show ?thesis using ev by simp
  next
    case True
    obtain br where br: "sn_slot S i = Some br" "bn_data (brn S br) = Spn i" using D(4)[OF small(2) ne] by blast
    have smi: "sp_map S i = Some br" using br small(2) ne by (simp add: sp_map_def)
    have bru: "br \<in> pool_used (brn_pool S)" using D(3) ranI[of "sp_map S", OF smi] by blast
    have ui: "unat (of_nat i :: u64) = i" by (rule unat_of_nat_size[OF small(2)])
    from mt.remove_abs[OF D(2), of "of_nat i"] obtain t s where
      rm: "rtree_remove dsmgr_cb (of_nat i) None (p_sp_rtree S) (brn S) = Some (Item br, t, s)"
      "rt_abs ((sp_map S)(i := None)) (bn_parents s) t" "bn_datas s = bn_datas (brn S)"
      "\<And>y. y \<notin> ran (sp_map S) \<Longrightarrow> bn_parents s y = bn_parents (brn S) y"
      unfolding ui using smi by auto
    have data: "bn_data (s b) = bn_data (brn S b)" for b using rm(3) by (metis bn_datas_def)
    from np.putE[OF D(1) bru] obtain p where p: "node_put_node br (brn_pool S) = Some p"
      "pool_inv p" "pool_used p = pool_used (brn_pool S) - {br}" by blast
    let ?S2 = "?S1\<lparr>p_sp_rtree := t, brn := s, p_size_head := remove1 i (p_size_head S), brn_pool := p\<rparr>"
    have ev: "dsmgr_drop_node a S = Some ?S2"
      using small True rm(1) data br(2) p(1)
      by (simp add: dsmgr_drop_node_def Let_def sn_size_def brn_put_node_def)
    have sm: "sp_map ?S2 = (sp_map S)(i := None)"
      by (rule ext) (auto simp: sp_map_def hd True)
    have rn: "ran (sp_map ?S2) = ran (sp_map S) - {br}"
      unfolding sm using rt_abs_inj[OF D(2) _ smi] smi by (rule ran_upd_None)
    have "mgr_inv (P - {a}) ?S2"
    proof (rule mgr_invI)
      have "distinct (p_size_head S)" using D(10) by (simp add: strict_sorted_iff)
      then have "set (remove1 i (p_size_head S)) = set (p_size_head S) - {i}" by simp
      then show "set (p_size_head ?S2) = {i. i < DSMGR_LARGE_SPACE \<and> p_sp_heads ?S2 i \<noteq> []}"
        using D(11) hd True by auto
      show "sorted_wrt (<) (p_size_head ?S2)"
        using D(10) by (simp add: strict_sorted_iff sorted_remove1)
      show "p_sp_heads_size ?S2 j = int (length (p_sp_heads ?S2 j))" if "j < DSMGR_LARGE_SPACE" for j
        using cnt[OF that] by simp
      show "\<exists>br. sn_slot ?S2 j = Some br \<and> bn_data (brn ?S2 br) = Spn j"
        if "j < DSMGR_LARGE_SPACE" "p_sp_heads ?S2 j \<noteq> []" for j
        using D(4)[OF that(1)] hd[of j] True that(2) data by (cases "j = i") auto
      show "ran (sp_map ?S2) \<subseteq> pool_used (brn_pool ?S2)" using rn p(3) D(3) by auto
    qed (use D(9) L(1-4) lg p(2) rm(2) in \<open>simp_all add: sm\<close>)
    moreover have "mgr_frame S ?S2"
      unfolding mgr_frame_def brn_others_def rn
      using p(3) bru rm(3,4) ranI[of "sp_map S", OF smi] by (auto intro!: bridge_eqI)
    ultimately show ?thesis using ev by simp
  qed
qed

section \<open>Adding a node\<close>

lemma strict_sorted_split:
  fixes i :: nat
  assumes "sorted_wrt (<) xs" and "i \<notin> set xs"
  obtains ls rs where "xs = ls @ rs" "\<forall>x \<in> set ls. x < i" "\<forall>x \<in> set rs. i < x"
proof
  show "xs = takeWhile (\<lambda>x. x < i) xs @ dropWhile (\<lambda>x. x < i) xs" by simp
  show "\<forall>x \<in> set (takeWhile (\<lambda>x. x < i) xs). x < i" by (auto dest: set_takeWhileD)
  show "\<forall>x \<in> set (dropWhile (\<lambda>x. x < i) xs). i < x"
  proof (cases "dropWhile (\<lambda>x. x < i) xs")
    case (Cons y ys)
    then have "\<not> y < i" using hd_dropWhile[of "\<lambda>x. x < i" xs] by simp
    moreover have "y \<noteq> i" using assms(2) Cons by (metis list.set_intros(1) set_dropWhileD)
    moreover have "sorted_wrt (<) (dropWhile (\<lambda>x. x < i) xs)"
      using assms(1) by (metis sorted_wrt_append takeWhile_dropWhile_id)
    then have "\<forall>x \<in> set ys. y < x" using Cons by simp
    ultimately show ?thesis using Cons by auto
  next
    case Nil
    then show ?thesis by (simp only: list.set) simp
  qed
qed

lemma mgr_add_place:
  assumes inv: "mgr_inv P S" and i: "i < DSMGR_LARGE_SPACE" "p_sp_heads S i = []"
    and fresh: "br \<notin> pool_used (brn_pool S)"
    and s: "s = (brn S)(br := (brn S br)\<lparr>bn_data := Spn i\<rparr>)"
  shows "\<exists>sl nbr. rtree_search_around (p_sp_rtree S) (of_nat i) = Some sl \<and>
    dsmgr_size_neighbor i s (p_size_head S) sl = Some nbr \<and>
    (case nbr of None \<Rightarrow> p_size_head S = [] | Some j \<Rightarrow> j \<in> set (p_size_head S))"
proof -
  note D = mgr_invD[OF inv]
  from rt_abs_search_around[OF D(2), of "of_nat i"] obtain sl where
    sl: "rtree_search_around (p_sp_rtree S) (of_nat i) = Some sl" "rt_around (sp_map S) i sl"
    unfolding unat_of_nat_size[OF i(1)] by blast
  have "sp_map S i = None" using i by (simp add: sp_map_def)
  show ?thesis
  proof (cases sl)
    case Null
    then show ?thesis using sl(1) by (cases "p_size_head S") (auto simp: dsmgr_size_neighbor_def)
  next
    case (Item b2)
    then obtain j where j: "sp_map S j = Some b2" using sl(2) by (auto simp: rt_around_def)
    then have jj: "j < DSMGR_LARGE_SPACE" "p_sp_heads S j \<noteq> []" "sn_slot S j = Some b2"
      by (auto simp: sp_map_def split: if_splits)
    then have "bn_data (brn S b2) = Spn j" using D(4)[of j] by auto
    moreover have "b2 \<noteq> br" using fresh D(3) ranI[of "sp_map S", OF j] by auto
    moreover have "j \<noteq> i" using i jj by auto
    ultimately show ?thesis using sl(1) Item jj D(11) 
      by (auto simp: s sn_size_def dsmgr_size_neighbor_def)
  qed (use sl(2) in \<open>simp add: rt_around_def\<close>)
qed

lemma dsmgr_add_size_spec:
  assumes inv: "mgr_inv P S" and i: "i < DSMGR_LARGE_SPACE" "p_sp_heads S i = []"
  obtains br p t s ls rs where
    "dsmgr_add_size i (S\<lparr>p_sp_heads_size := c\<rparr>) =
       Some (S\<lparr>p_sp_heads_size := c, brn_pool := p, brn := s, p_sp_rtree := t,
               sn_slot := (sn_slot S)(i \<mapsto> br), p_size_head := ls @ i # rs\<rparr>)"
    "pool_inv p" "br \<notin> pool_used (brn_pool S)" "pool_used p = insert br (pool_used (brn_pool S))"
    "rt_abs ((sp_map S)(i \<mapsto> br)) (bn_parents s) t"
    "bn_datas s = (bn_datas (brn S))(br := Spn i)"
    "\<forall>y. y \<notin> insert br (ran (sp_map S)) \<longrightarrow> s y = brn S y"
    "p_size_head S = ls @ rs" "\<forall>x \<in> set ls. x < i" "\<forall>x \<in> set rs. i < x"
proof -
  note D = mgr_invD[OF inv]
  from np.getE[OF D(1)] obtain br p where p: "node_get_node (brn_pool S) = Some (br, p)" "pool_inv p"
    "br \<notin> pool_used (brn_pool S)" "pool_used p = insert br (pool_used (brn_pool S))" by blast
  let ?s = "(brn S)(br := (brn S br)\<lparr>bn_data := Spn i\<rparr>)"
  have nin: "br \<notin> ran (sp_map S)" using p(3) D(3) by blast
  have smi: "sp_map S i = None" using i by (simp add: sp_map_def)
  have "i \<notin> set (p_size_head S)" using D(11) i by simp
  with D(10) obtain ls rs where sp: "p_size_head S = ls @ rs" "\<forall>x \<in> set ls. x < i" "\<forall>x \<in> set rs. i < x"
    by (rule strict_sorted_split)
  from mgr_add_place[OF inv i p(3) refl] obtain sl nbr where
    sl: "rtree_search_around (p_sp_rtree S) (of_nat i) = Some sl"
    and nbr: "dsmgr_size_neighbor i ?s (p_size_head S) sl = Some nbr"
      "(case nbr of None \<Rightarrow> p_size_head S = [] | Some j \<Rightarrow> j \<in> set (p_size_head S))"
    by (elim exE conjE) (rule that; assumption)
  have place: "dsmgr_size_place i nbr (p_size_head S) = Some (ls @ i # rs)"
  proof (cases nbr)
    case None
    then show ?thesis using nbr(2) sp(1) by (simp add: dsmgr_size_place_def)
  next
    case (Some j)
    have dist: "distinct (ls @ rs)" using D(10) sp(1) by (simp add: strict_sorted_iff)
    have j: "j \<in> set (ls @ rs)" using Some nbr(2) sp(1) by simp
    have "seek_neighbor sn_size (sn_size i) j (ls @ rs) = Some (if ls = [] then hd rs else last ls)"
      using dist j sp(2,3) by (intro seek_neighbor_spec) (auto simp: sn_size_def)
    moreover have "ls \<noteq> [] \<Longrightarrow> last ls < i" using sp(2) by simp
    moreover have "ls = [] \<Longrightarrow> i < hd rs" using sp(3) j by (cases rs) auto
    moreover have "ls @ rs \<noteq> []" using j by auto
    ultimately show ?thesis
      using list_add_place[OF dist, of i] Some 
      by (cases "ls = []") (auto simp: sp(1) sn_size_def dsmgr_size_place_def)
  qed
  have par: "bn_parents ?s = bn_parents (brn S)" by (auto simp: bn_parents_def)
  have ui: "unat (of_nat i :: u64) = i" by (rule unat_of_nat_size[OF i(1)])
  have i8: "unat (of_nat i :: u64) < 64 ^ 8" using i(1) unfolding ui by (simp add: DSMGR_LARGE_SPACE_def)
  have new: "sp_map S (unat (of_nat i :: u64)) = None" unfolding ui by (rule smi)
  from mt.insert_abs[of "sp_map S" ?s "p_sp_rtree S" "of_nat i" br, unfolded par, OF D(2) i8 new nin]
  obtain t s where t: "rtree_insert dsmgr_cb (of_nat i) br (p_sp_rtree S) ?s = Some (Item br, t, s)"
    "rt_abs ((sp_map S)(i \<mapsto> br)) (bn_parents s) t" "bn_datas s = bn_datas ?s"
    "\<forall>y. y \<notin> insert br (ran (sp_map S)) \<longrightarrow> bn_parents s y = bn_parents (brn S) y"
    unfolding ui by (elim exE conjE) (rule that; assumption)
  have ds: "bn_datas s = (bn_datas (brn S))(br := Spn i)" unfolding t(3) by (auto simp: bn_datas_def)
  have "s y = brn S y" if "y \<notin> insert br (ran (sp_map S))" for y
  proof -
    have "bn_datas s y = bn_datas (brn S) y" using ds that by simp
    then show ?thesis using t(4) that
      by (metis bn_datas_def bn_parents_def bridge_node.equality old.unit.exhaust)
  qed
  moreover have "dsmgr_add_size i (S\<lparr>p_sp_heads_size := c\<rparr>) =
       Some (S\<lparr>p_sp_heads_size := c, brn_pool := p, brn := s, p_sp_rtree := t,
               sn_slot := (sn_slot S)(i \<mapsto> br), p_size_head := ls @ i # rs\<rparr>)"
    using p(1) sl nbr(1) place t(1)
    by (simp add: dsmgr_add_size_def brn_get_node_def Let_def)
  ultimately show ?thesis using that p t(2) ds sp by blast
qed

lemma dsmgr_add_node_spec:
  assumes inv: "mgr_inv P S" and a: "a \<notin> P" and pos: "0 < bsn_size (bsn S a)"
  shows "\<exists>S'. dsmgr_add_node a S = Some S' \<and> mgr_inv (insert a P) S' \<and> mgr_frame S S'"
proof (cases "DSMGR_LARGE_SPACE < bsn_size (bsn S a)")
  case True
  note D = mgr_invD[OF inv]
  let ?S = "S\<lparr>p_sp_heads_size := (p_sp_heads_size S)
              (DSMGR_LARGE_SPACE := p_sp_heads_size S DSMGR_LARGE_SPACE + 1),
              p_large_sp_head := p_large_sp_head S @ [a]\<rparr>"
  have ev: "dsmgr_add_node a S = Some ?S" using True by (simp add: dsmgr_add_node_def Let_def)
  have sm: "sp_map ?S = sp_map S" by (rule ext) (auto simp: sp_map_def)
  have "a \<notin> set (p_large_sp_head S)" using D(8) a by simp
  then have "mgr_inv (insert a P) ?S"
    using D(1-5,7,9-13) True pos by (intro mgr_invI) (auto simp: sp_map_upd D(6,8))
  moreover have "mgr_frame S ?S" by (simp add: mgr_frame_def brn_others_def sm)
  ultimately show ?thesis using ev by simp
next
  case False
  note D = mgr_invD[OF inv]
  from pos False obtain i where i: "bsn_size (bsn S a) = Suc i" "i < DSMGR_LARGE_SPACE"
    by (cases "bsn_size (bsn S a)") auto
  let ?c = "(p_sp_heads_size S)(i := p_sp_heads_size S i + 1)"
  let ?H = "(p_sp_heads S)(i := p_sp_heads S i @ [a])"
  have an: "a \<notin> set (p_sp_heads S j)" "a \<notin> set (p_large_sp_head S)" for j using D(6,8) a by auto
  have H: "distinct (?H j)"
    "set (?H j) = {b \<in> insert a P. bsn_size (bsn S b) = Suc j \<and> j < DSMGR_LARGE_SPACE}" for j
    using D(5)[of j] D(6)[of j] an i by auto
  have cnt: "?c j = int (length (?H j))" if "j < DSMGR_LARGE_SPACE" for j
    using D(12)[OF that] by (cases "j = i") simp_all
  have large: "set (p_large_sp_head S) = {b \<in> insert a P. DSMGR_LARGE_SPACE < bsn_size (bsn S b)}"
    using D(8) i by auto
  show ?thesis
  proof (cases "p_sp_heads S i = []")
    case ne: False
    let ?S = "S\<lparr>p_sp_heads_size := ?c, p_sp_heads := ?H\<rparr>"
    have ev: "dsmgr_add_node a S = Some ?S" using i ne by (simp add: dsmgr_add_node_def Let_def)
    have em: "?H j = [] \<longleftrightarrow> p_sp_heads S j = []" for j using ne by simp
    have sm: "sp_map ?S = sp_map S" by (rule ext) (use em in \<open>simp add: sp_map_def\<close>)
    have "mgr_inv (insert a P) ?S"
    proof (rule mgr_invI)
      show "set (p_size_head ?S) = {i. i < DSMGR_LARGE_SPACE \<and> p_sp_heads ?S i \<noteq> []}" using D(11) em by simp
      show "\<exists>br. sn_slot ?S j = Some br \<and> bn_data (brn ?S br) = Spn j"
        if "j < DSMGR_LARGE_SPACE" "p_sp_heads ?S j \<noteq> []" for j using D(4)[of j] em[of j] that by simp
      show "set (p_sp_heads ?S j) = {b \<in> insert a P. bsn_size (bsn ?S b) = Suc j \<and> j < DSMGR_LARGE_SPACE}" for j
        using H(2)[of j] by simp
      show "distinct (p_sp_heads ?S j)" for j using H(1)[of j] by simp
      show "0 < bsn_size (bsn ?S b)" if "b \<in> insert a P" for b using that D(9)[of b] i by auto
    qed (use D(1-3,7,10,13) cnt large i in \<open>simp_all add: sm\<close>)
    moreover have "mgr_frame S ?S" by (simp add: mgr_frame_def brn_others_def sm)
    ultimately show ?thesis using ev by simp
  next
    case empty: True
    obtain br p t s ls rs where
      add: "dsmgr_add_size i (S\<lparr>p_sp_heads_size := ?c\<rparr>) =
       Some (S\<lparr>p_sp_heads_size := ?c, brn_pool := p, brn := s, p_sp_rtree := t,
               sn_slot := (sn_slot S)(i \<mapsto> br), p_size_head := ls @ i # rs\<rparr>)"
      and p: "pool_inv p" "br \<notin> pool_used (brn_pool S)" "pool_used p = insert br (pool_used (brn_pool S))"
      and t: "rt_abs ((sp_map S)(i \<mapsto> br)) (bn_parents s) t"
      and ds: "bn_datas s = (bn_datas (brn S))(br := Spn i)"
      and fr: "\<forall>y. y \<notin> insert br (ran (sp_map S)) \<longrightarrow> s y = brn S y"
      and sp: "p_size_head S = ls @ rs" "\<forall>x \<in> set ls. x < i" "\<forall>x \<in> set rs. i < x"
      by (rule dsmgr_add_size_spec[OF inv i(2) empty, of ?c])
    let ?S = "S\<lparr>p_sp_heads_size := ?c, brn_pool := p, brn := s, p_sp_rtree := t,
               sn_slot := (sn_slot S)(i \<mapsto> br), p_size_head := ls @ i # rs, p_sp_heads := ?H\<rparr>"
    have ev: "dsmgr_add_node a S = Some ?S" using i empty add by (simp add: dsmgr_add_node_def Let_def)
    have sm: "sp_map ?S = (sp_map S)(i \<mapsto> br)" by (rule ext) (use i in \<open>simp add: sp_map_def\<close>)
    have smi: "sp_map S i = None" using empty by (simp add: sp_map_def)
    have rn: "ran (sp_map ?S) = insert br (ran (sp_map S))" unfolding sm using smi by (rule ran_map_upd)
    have data: "bn_data (s b) = (if b = br then Spn i else bn_data (brn S b))" for b
      using ds by (metis bn_datas_def fun_upd_apply)
    have "mgr_inv (insert a P) ?S"
    proof (rule mgr_invI)
      show "set (p_size_head ?S) = {i. i < DSMGR_LARGE_SPACE \<and> p_sp_heads ?S i \<noteq> []}"
        using D(11) sp(1) i(2) by auto
      show "sorted_wrt (<) (p_size_head ?S)" using D(10) sp by (auto simp: sorted_wrt_append)
      show "\<exists>br. sn_slot ?S j = Some br \<and> bn_data (brn ?S br) = Spn j"
        if j: "j < DSMGR_LARGE_SPACE" "p_sp_heads ?S j \<noteq> []" for j
      proof (cases "j = i")
        case False
        then have ne: "p_sp_heads S j \<noteq> []" using j by simp
        from D(4)[OF j(1) this] obtain b where b: "sn_slot S j = Some b" "bn_data (brn S b) = Spn j" by blast
        then have "sp_map S j = Some b" using j ne by (simp add: sp_map_def)
        then have "b \<noteq> br" using p(2) D(3) ranI[of "sp_map S" j b] by auto
        with b False show ?thesis by (simp add: data)
      qed (simp add: data)
      show "set (p_sp_heads ?S j) = {b \<in> insert a P. bsn_size (bsn ?S b) = Suc j \<and> j < DSMGR_LARGE_SPACE}" for j
        using H(2)[of j] by simp
      show "distinct (p_sp_heads ?S j)" for j using H(1)[of j] by simp
      show "0 < bsn_size (bsn ?S b)" if "b \<in> insert a P" for b using that D(9)[of b] i by auto
      show "ran (sp_map ?S) \<subseteq> pool_used (brn_pool ?S)" using rn p(3) D(3) by auto
    qed (use D(7,13) cnt large i p(1) t in \<open>simp_all add: sm\<close>)
    moreover have "mgr_frame S ?S"
      unfolding mgr_frame_def brn_others_def rn using p(2,3) fr by auto
    ultimately show ?thesis using ev by simp
  qed
qed

section \<open>Extending a node\<close>

lemma mgr_inv_set_size_out:
  assumes inv: "mgr_inv P S" and a: "a \<notin> P"
  shows "mgr_inv P (bsn_set_size a n S)"
proof -
  note D = mgr_invD[OF inv]
  have eq: "{b \<in> P. Q (bsn_size (bsn (bsn_set_size a n S) b))} = {b \<in> P. Q (bsn_size (bsn S b))}" for Q
    using a by auto
  show ?thesis
  proof (rule mgr_invI)
    show "set (p_sp_heads (bsn_set_size a n S) i) =
        {b \<in> P. bsn_size (bsn (bsn_set_size a n S) b) = Suc i \<and> i < DSMGR_LARGE_SPACE}" for i
      using D(6)[of i] eq[of "\<lambda>m. m = Suc i \<and> i < DSMGR_LARGE_SPACE"] by simp
    show "set (p_large_sp_head (bsn_set_size a n S)) =
        {b \<in> P. DSMGR_LARGE_SPACE < bsn_size (bsn (bsn_set_size a n S) b)}"
      using D(8) eq[of "\<lambda>m. DSMGR_LARGE_SPACE < m"] by simp
    show "0 < bsn_size (bsn (bsn_set_size a n S) b)" if "b \<in> P" for b
      using D(9)[OF that] that a by auto
  qed (use D in \<open>simp_all\<close>)
qed

text \<open>An extension changes the size of the node and nothing else outside the pool.\<close>

lemma dsmgr_extend_space_spec:
  assumes inv: "mgr_inv P S" and a: "a \<in> P"
  shows "\<exists>S'. dsmgr_extend_space a n S = Some S' \<and> mgr_inv P S' \<and>
    mgr_frame (bsn_set_size a (bsn_size (bsn S a) + n) S) S'"
proof (cases "bsn_size (bsn S a) \<le> DSMGR_LARGE_SPACE")
  case True
  from dsmgr_drop_node_spec[OF inv a] obtain S1 where S1: "dsmgr_drop_node a S = Some S1"
    "mgr_inv (P - {a}) S1" "mgr_frame S S1" by blast
  let ?n = "bsn_size (bsn S a) + n"
  let ?S = "bsn_set_size a ?n S1"
  have i: "mgr_inv (P - {a}) ?S" by (rule mgr_inv_set_size_out[OF S1(2)]) simp
  have "a \<notin> P - {a}" "0 < bsn_size (bsn ?S a)" using mgr_invD(9)[OF inv a] by simp_all
  from dsmgr_add_node_spec[OF i this] obtain S' where S': "dsmgr_add_node a ?S = Some S'"
    "mgr_inv (insert a (P - {a})) S'" "mgr_frame ?S S'" by blast
  have "mgr_frame (bsn_set_size a ?n S) ?S"
    using S1(3) by (simp add: mgr_frame_def brn_others_def)
  with S' S1(1) True a show ?thesis
    by (auto simp: dsmgr_extend_space_def Let_def insert_absorb intro: mgr_frame_trans)
next
  case False
  note D = mgr_invD[OF inv]
  let ?S = "bsn_set_size a (bsn_size (bsn S a) + n) S"
  have ev: "dsmgr_extend_space a n S = Some ?S" using False by (simp add: dsmgr_extend_space_def Let_def)
  have "mgr_inv P ?S"
  proof (rule mgr_invI)
    have "bsn_size (bsn ?S b) = Suc i \<and> i < DSMGR_LARGE_SPACE \<longleftrightarrow>
        bsn_size (bsn S b) = Suc i \<and> i < DSMGR_LARGE_SPACE" for i b using False by (cases "b = a") auto
    then show "set (p_sp_heads ?S i) = {b \<in> P. bsn_size (bsn ?S b) = Suc i \<and> i < DSMGR_LARGE_SPACE}" for i
      using D(6)[of i] by (simp only: bsn_set_size_sel)
    have "DSMGR_LARGE_SPACE < bsn_size (bsn ?S b) \<longleftrightarrow> DSMGR_LARGE_SPACE < bsn_size (bsn S b)" for b
      using False by (cases "b = a") auto
    then show "set (p_large_sp_head ?S) = {b \<in> P. DSMGR_LARGE_SPACE < bsn_size (bsn ?S b)}"
      using D(8) by (simp only: bsn_set_size_sel)
    show "0 < bsn_size (bsn ?S b)" if "b \<in> P" for b using D(9)[OF that] by auto
  qed (use D in \<open>simp_all\<close>)
  then show ?thesis using ev by (auto intro: mgr_frame_refl)
qed

end
