(* ===== verification/Dsbmp.thy ===== *)
theory Dsbmp
  imports Dsmgr_Pool
begin

text \<open>
  The address-ordered view of the free extents, \<open>cache/dsbmp.c\<close>: a sorted list of block size nodes
  and a radix tree from first block to node. Freed extents are merged with their neighbours here.
  The module calls back into the size-ordered pool of dsmgr whenever an extent grows or goes away.
\<close>

section \<open>Operations\<close>

definition list_next :: "'a \<Rightarrow> 'a list \<Rightarrow> 'a option" where
  "list_next x xs = (case list_from x xs of _ # y # _ \<Rightarrow> Some y | _ \<Rightarrow> None)"

definition dsbmp_split_node :: "node_addr \<Rightarrow> nat \<Rightarrow> ds_state \<Rightarrow> (node_addr \<times> ds_state) option" where
  "dsbmp_split_node old_np new_size S =
     (let S = bsn_set_size old_np (bsn_size (bsn S old_np) - new_size) S in
      do {
        (new_np, S) \<leftarrow> blksn_get_node S;
        let i = bsn_index (bsn S old_np) + bsn_size (bsn S old_np);
        Some (new_np, S\<lparr>bsn := (bsn S)(new_np := (bsn S new_np)\<lparr>bsn_index := i, bsn_size := new_size\<rparr>),
                        p_num_free_blocks := p_num_free_blocks S - new_size\<rparr>)
      })"

text \<open>A bridge node for \<open>np\<close> and its insertion into the tree.\<close>

definition dsbmp_link :: "node_addr \<Rightarrow> ds_state \<Rightarrow> ds_state option" where
  "dsbmp_link np S =
     do {
       (br_np, S) \<leftarrow> brn_get_node S;
       let S = S\<lparr>brn := (brn S)(br_np := (brn S br_np)\<lparr>bn_data := Bsn np\<rparr>),
                 bsn := (bsn S)(np := (bsn S np)\<lparr>bsn_slot := br_np\<rparr>)\<rparr>;
       (_, t, s) \<leftarrow> rtree_insert dsbmp_cb (of_nat (bsn_index (bsn S np))) br_np (p_rtree S) (brn S);
       Some (S\<lparr>p_rtree := t, brn := s\<rparr>)
     }"

text \<open>\<open>np\<close> leaves the tree and the list.\<close>

definition dsbmp_unlink :: "node_addr \<Rightarrow> ds_state \<Rightarrow> ds_state option" where
  "dsbmp_unlink np S =
     do {
       let br_np = bsn_slot (bsn S np);
       (_, t, s) \<leftarrow> rtree_hint_remove dsbmp_cb (of_nat (bsn_index (bsn S np))) br_np
                      (bn_parent (brn S br_np)) (p_rtree S) (brn S);
       Some (S\<lparr>p_rtree := t, brn := s, p_space_head := remove1 np (p_space_head S)\<rparr>)
     }"

definition dsbmp_neighbor :: "brn_heap \<Rightarrow> node_addr list \<Rightarrow> node_addr slot \<Rightarrow> node_addr option option" where
  "dsbmp_neighbor heap space sl =
     (case sl of
        Item br_np \<Rightarrow> (case bn_data (heap br_np) of Bsn b \<Rightarrow> Some (Some b) | Spn _ \<Rightarrow> None)
      | Null \<Rightarrow> Some (case space of [] \<Rightarrow> None | b # _ \<Rightarrow> Some b)
      | Node _ \<Rightarrow> None)"

text \<open>The concatenation of \<open>left_np\<close> and \<open>right_np\<close> at the end of \<open>dsbmp_put_node\<close>.\<close>

definition dsbmp_merge :: "node_addr \<Rightarrow> node_addr \<Rightarrow> ds_state \<Rightarrow> ds_state option" where
  "dsbmp_merge left_np right_np S =
     do {
       let br_np = bsn_slot (bsn S right_np);
       c_assert (bn_data (brn S br_np) = Bsn right_np);
       S \<leftarrow> dsbmp_unlink right_np S;
       S \<leftarrow> dsmgr_drop_node right_np S;
       S \<leftarrow> brn_put_node br_np S;
       S \<leftarrow> dsmgr_extend_space left_np (bsn_size (bsn S right_np)) S;
       blksn_put_node right_np S
     }"

definition add_free_blocks :: "nat \<Rightarrow> ds_state \<Rightarrow> ds_state" where
  "add_free_blocks n S = S\<lparr>p_num_free_blocks := p_num_free_blocks S + n\<rparr>"

text \<open>The result is the node that was not added, if any, the left node, and its right neighbour.\<close>

definition dsbmp_place ::
  "node_addr \<Rightarrow> node_addr \<Rightarrow> ds_state \<Rightarrow>
   (node_addr option \<times> node_addr \<times> node_addr option \<times> ds_state) option" where
  "dsbmp_place np nbr_np S =
     (let i = bsn_index (bsn S np); n = bsn_size (bsn S np); j = bsn_index (bsn S nbr_np) in
      if j < i \<and> j + bsn_size (bsn S nbr_np) = i then
        do {
          S \<leftarrow> dsmgr_extend_space nbr_np n S;
          Some (Some np, nbr_np, list_next nbr_np (p_space_head S), add_free_blocks n S)
        }
      else
        do {
          S \<leftarrow> dsbmp_link np S;
          if j < i then
            (let S = S\<lparr>p_space_head := list_add_after np nbr_np (p_space_head S)\<rparr> in
             Some (None, np, list_next np (p_space_head S), add_free_blocks n S))
          else
            (let S = S\<lparr>p_space_head := list_add_before np nbr_np (p_space_head S)\<rparr> in
             Some (None, np, Some nbr_np, add_free_blocks n S))
        })"

definition dsbmp_put_node :: "node_addr \<Rightarrow> ds_state \<Rightarrow> (node_addr option \<times> ds_state) option" where
  "dsbmp_put_node np S =
     do {
       sl \<leftarrow> rtree_search_around (p_rtree S) (of_nat (bsn_index (bsn S np)));
       nbr \<leftarrow> dsbmp_neighbor (brn S) (p_space_head S) sl;
       (case nbr of
          None \<Rightarrow>
            do {
              S \<leftarrow> dsbmp_link np S;
              Some (None, add_free_blocks (bsn_size (bsn S np)) (S\<lparr>p_space_head := np # p_space_head S\<rparr>))
            }
        | Some nbr0 \<Rightarrow>
            do {
              nbr_np \<leftarrow> seek_neighbor (\<lambda>a. bsn_index (bsn S a)) (bsn_index (bsn S np)) nbr0
                          (p_space_head S);
              (ret_node, left_np, right, S) \<leftarrow> dsbmp_place np nbr_np S;
              (case right of
                 None \<Rightarrow> Some (ret_node, S)
               | Some right_np \<Rightarrow>
                   if bsn_index (bsn S right_np) = bsn_index (bsn S left_np) + bsn_size (bsn S left_np)
                   then do { S \<leftarrow> dsbmp_merge left_np right_np S; Some (ret_node, S) }
                   else Some (ret_node, S))
            })
     }"

definition dsbmp_get_node :: "node_addr \<Rightarrow> ds_state \<Rightarrow> ds_state option" where
  "dsbmp_get_node np S =
     do {
       let br_np = bsn_slot (bsn S np);
       S \<leftarrow> dsbmp_unlink np S;
       brn_put_node br_np (S\<lparr>p_num_free_blocks := p_num_free_blocks S - bsn_size (bsn S np)\<rparr>)
     }"

section \<open>Invariant\<close>

definition DS_MAX_BLOCKS :: nat where "DS_MAX_BLOCKS = 64 ^ 8"

definition bsn_end :: "ds_state \<Rightarrow> node_addr \<Rightarrow> nat" where
  "bsn_end S a = bsn_index (bsn S a) + bsn_size (bsn S a)"

definition bsn_blocks :: "ds_state \<Rightarrow> node_addr \<Rightarrow> nat set" where
  "bsn_blocks S a = {bsn_index (bsn S a) ..< bsn_end S a}"

definition bmp_map :: "ds_state \<Rightarrow> nat \<rightharpoonup> node_addr" where
  "bmp_map S = map_of (map (\<lambda>a. (bsn_index (bsn S a), bsn_slot (bsn S a))) (p_space_head S))"

text \<open>Sorted, pairwise disjoint extents, mirrored in the tree.\<close>

definition bmp_core :: "ds_state \<Rightarrow> bool" where
  "bmp_core S \<longleftrightarrow>
     pool_inv (brn_pool S) \<and> pool_inv (blksn_pool S) \<and>
     rt_abs (bmp_map S) (bn_parents (brn S)) (p_rtree S) \<and>
     sorted_wrt (\<lambda>a b. bsn_end S a \<le> bsn_index (bsn S b)) (p_space_head S) \<and>
     (\<forall>a \<in> set (p_space_head S). 0 < bsn_size (bsn S a) \<and> bsn_end S a \<le> DS_MAX_BLOCKS \<and>
        bsn_slot (bsn S a) \<in> brn_others S \<and> bn_data (brn S (bsn_slot (bsn S a))) = Bsn a) \<and>
     set (p_space_head S) \<subseteq> pool_used (blksn_pool S)"

text \<open>No two extents touch.\<close>

definition bmp_gaps :: "ds_state \<Rightarrow> bool" where
  "bmp_gaps S \<longleftrightarrow> sorted_wrt (\<lambda>a b. bsn_end S a < bsn_index (bsn S b)) (p_space_head S)"

definition free_blocks :: "ds_state \<Rightarrow> nat set" where
  "free_blocks S = (\<Union>a \<in> set (p_space_head S). bsn_blocks S a)"

lemma bmp_coreD:
  assumes "bmp_core S"
  shows "pool_inv (brn_pool S)" "pool_inv (blksn_pool S)"
    "rt_abs (bmp_map S) (bn_parents (brn S)) (p_rtree S)"
    "sorted_wrt (\<lambda>a b. bsn_end S a \<le> bsn_index (bsn S b)) (p_space_head S)"
    "\<And>a. a \<in> set (p_space_head S) \<Longrightarrow> 0 < bsn_size (bsn S a)"
    "\<And>a. a \<in> set (p_space_head S) \<Longrightarrow> bsn_end S a \<le> DS_MAX_BLOCKS"
    "\<And>a. a \<in> set (p_space_head S) \<Longrightarrow> bsn_slot (bsn S a) \<in> brn_others S"
    "\<And>a. a \<in> set (p_space_head S) \<Longrightarrow> bn_data (brn S (bsn_slot (bsn S a))) = Bsn a"
    "set (p_space_head S) \<subseteq> pool_used (blksn_pool S)"
  using assms unfolding bmp_core_def by simp_all

lemma bmp_coreI:
  assumes "pool_inv (brn_pool S)" "pool_inv (blksn_pool S)"
    "rt_abs (bmp_map S) (bn_parents (brn S)) (p_rtree S)"
    "sorted_wrt (\<lambda>a b. bsn_end S a \<le> bsn_index (bsn S b)) (p_space_head S)"
    "\<And>a. a \<in> set (p_space_head S) \<Longrightarrow> 0 < bsn_size (bsn S a) \<and> bsn_end S a \<le> DS_MAX_BLOCKS"
    "\<And>a. a \<in> set (p_space_head S) \<Longrightarrow> bsn_slot (bsn S a) \<in> brn_others S \<and>
       bn_data (brn S (bsn_slot (bsn S a))) = Bsn a"
    "set (p_space_head S) \<subseteq> pool_used (blksn_pool S)"
  shows "bmp_core S"
  using assms unfolding bmp_core_def by blast

lemma bmp_core_distinct:
  assumes "bmp_core S"
  shows "distinct (p_space_head S)"
    "sorted_wrt (\<lambda>a b. bsn_index (bsn S a) < bsn_index (bsn S b)) (p_space_head S)"
    "inj_on (\<lambda>a. bsn_index (bsn S a)) (set (p_space_head S))"
proof -
  note D = bmp_coreD[OF assms]
  show st: "sorted_wrt (\<lambda>a b. bsn_index (bsn S a) < bsn_index (bsn S b)) (p_space_head S)"
  proof (rule sorted_wrt_mono_rel[OF _ D(4)])
    fix a b assume "a \<in> set (p_space_head S)" "bsn_end S a \<le> bsn_index (bsn S b)"
    then show "bsn_index (bsn S a) < bsn_index (bsn S b)" using D(5)[of a] by (simp add: bsn_end_def)
  qed
  have "sorted_wrt (<) (map (\<lambda>a. bsn_index (bsn S a)) (p_space_head S))"
    using st by (simp add: sorted_wrt_map)
  then have "distinct (map (\<lambda>a. bsn_index (bsn S a)) (p_space_head S))" by (simp add: strict_sorted_iff)
  then show "distinct (p_space_head S)" "inj_on (\<lambda>a. bsn_index (bsn S a)) (set (p_space_head S))"
    by (simp_all add: distinct_map)
qed

lemma bmp_map_Some:
  assumes "bmp_core S"
  shows "bmp_map S k = Some br \<longleftrightarrow>
    (\<exists>a \<in> set (p_space_head S). bsn_index (bsn S a) = k \<and> bsn_slot (bsn S a) = br)"
proof -
  have "distinct (map fst (map (\<lambda>a. (bsn_index (bsn S a), bsn_slot (bsn S a))) (p_space_head S)))"
    using bmp_core_distinct[OF assms] by (simp add: distinct_map o_def)
  then show ?thesis unfolding bmp_map_def by (auto simp: map_of_eq_Some_iff)
qed

lemma bmp_map_ran:
  assumes "bmp_core S"
  shows "ran (bmp_map S) = (\<lambda>a. bsn_slot (bsn S a)) ` set (p_space_head S)"
  by (auto simp: ran_def bmp_map_Some[OF assms])

lemma bmp_slot_inj:
  assumes "bmp_core S" "a \<in> set (p_space_head S)" "b \<in> set (p_space_head S)"
    "bsn_slot (bsn S a) = bsn_slot (bsn S b)"
  shows "a = b"
  using bmp_coreD(8)[OF assms(1)] assms(2-4) by (metis bn_target.inject(1))

lemma unat_of_nat_block: "n \<le> DS_MAX_BLOCKS \<Longrightarrow> unat (of_nat n :: u64) = n"
  by (simp add: unat_of_nat DS_MAX_BLOCKS_def)

lemma bmp_core_frame:
  assumes "bmp_core S" and "mgr_frame S S'" and "pool_inv (brn_pool S')"
  shows "bmp_core S'"
proof -
  note D = bmp_coreD[OF assms(1)]
  have f: "bsn S' = bsn S" "p_rtree S' = p_rtree S" "p_space_head S' = p_space_head S"
    "blksn_pool S' = blksn_pool S" "brn_others S' = brn_others S"
    "\<And>b. b \<in> brn_others S \<Longrightarrow> brn S' b = brn S b"
    using assms(2) by (simp_all add: mgr_frame_def)
  have m: "bmp_map S' = bmp_map S" by (simp add: bmp_map_def f)
  have "rt_abs (bmp_map S) (bn_parents (brn S')) (p_rtree S)"
    using D(7) f(6) by (intro rt_abs_cong_par[OF D(3)]) (auto simp: bmp_map_ran[OF assms(1)] bn_parents_def)
  with D assms(3) show ?thesis
    by (intro bmp_coreI) (simp_all add: f m bsn_end_def)
qed

section \<open>Steps of the tree and the list\<close>

definition mgr_same :: "ds_state \<Rightarrow> ds_state \<Rightarrow> bool" where
  "mgr_same S S' \<longleftrightarrow>
     p_sp_rtree S' = p_sp_rtree S \<and> p_large_sp_head S' = p_large_sp_head S \<and>
     p_sp_heads S' = p_sp_heads S \<and> p_sp_heads_size S' = p_sp_heads_size S \<and>
     sn_slot S' = sn_slot S \<and> p_size_head S' = p_size_head S"

lemma mgr_same_sp_map: "mgr_same S S' \<Longrightarrow> sp_map S' = sp_map S"
  by (rule ext) (simp add: mgr_same_def sp_map_def)

lemma mgr_inv_same:
  assumes inv: "mgr_inv P S" and same: "mgr_same S S'"
    and heap: "\<And>b. b \<in> ran (sp_map S) \<Longrightarrow> brn S' b = brn S b"
    and pool: "pool_inv (brn_pool S')" "ran (sp_map S) \<subseteq> pool_used (brn_pool S')"
    and size: "\<And>a. a \<in> P \<Longrightarrow> bsn_size (bsn S' a) = bsn_size (bsn S a)"
  shows "mgr_inv P S'"
proof -
  note D = mgr_invD[OF inv]
  have sm: "sp_map S' = sp_map S" by (rule mgr_same_sp_map[OF same])
  have f: "p_sp_rtree S' = p_sp_rtree S" "p_large_sp_head S' = p_large_sp_head S"
     "p_sp_heads S' = p_sp_heads S" "p_sp_heads_size S' = p_sp_heads_size S"
     "sn_slot S' = sn_slot S" "p_size_head S' = p_size_head S"
    using same by (simp_all add: mgr_same_def)
  have "rt_abs (sp_map S) (bn_parents (brn S')) (p_sp_rtree S)"
    using heap by (intro rt_abs_cong_par[OF D(2)]) (simp add: bn_parents_def)
  moreover have "\<exists>br. sn_slot S i = Some br \<and> bn_data (brn S' br) = Spn i"
    if i: "i < DSMGR_LARGE_SPACE" "p_sp_heads S i \<noteq> []" for i
  proof -
    from D(4)[OF i] obtain br where br: "sn_slot S i = Some br" "bn_data (brn S br) = Spn i" by blast
    then have "sp_map S i = Some br" using i by (simp add: sp_map_def)
    then have "brn S' br = brn S br" by (intro heap) (rule ranI)
    with br show ?thesis by simp
  qed
  moreover have "{a \<in> P. Q (bsn_size (bsn S' a))} = {a \<in> P. Q (bsn_size (bsn S a))}" for Q
    using size by auto
  note this[of "\<lambda>n. n = Suc _ \<and> _ < DSMGR_LARGE_SPACE"] this[of "\<lambda>n. DSMGR_LARGE_SPACE < n"]
  ultimately show ?thesis
    using D pool size by (intro mgr_invI) (simp_all add: sm f)
qed

lemma bmp_core_index_free:
  assumes core: "bmp_core S" and sp: "p_space_head S = ls @ rs"
    and l: "\<forall>l \<in> set ls. bsn_end S l \<le> bsn_index (bsn S np)"
    and r: "\<forall>r \<in> set rs. bsn_index (bsn S np) < bsn_index (bsn S r)"
  shows "bmp_map S (bsn_index (bsn S np)) = None"
proof (rule ccontr)
  assume "bmp_map S (bsn_index (bsn S np)) \<noteq> None"
  then obtain br where "bmp_map S (bsn_index (bsn S np)) = Some br" by auto
  then obtain a where a: "a \<in> set (p_space_head S)" "bsn_index (bsn S a) = bsn_index (bsn S np)"
    by (auto simp: bmp_map_Some[OF core])
  then show False using l r bmp_coreD(5)[OF core, of a] sp by (auto simp: bsn_end_def)
qed

lemma bmp_map_insert:
  assumes core: "bmp_core S" and sp: "p_space_head S = ls @ rs"
    and free: "bmp_map S (bsn_index (bsn S np)) = None"
    and S': "p_space_head S' = ls @ np # rs" "bsn_index (bsn S' np) = bsn_index (bsn S np)"
      "bsn_slot (bsn S' np) = br"
      "\<And>a. a \<in> set (ls @ rs) \<Longrightarrow> bsn_index (bsn S' a) = bsn_index (bsn S a) \<and> bsn_slot (bsn S' a) = bsn_slot (bsn S a)"
  shows "bmp_map S' = (bmp_map S)(bsn_index (bsn S np) \<mapsto> br)"
proof -
  let ?f = "\<lambda>S. map (\<lambda>a. (bsn_index (bsn S a), bsn_slot (bsn S a)))"
  have eq: "?f S' ls = ?f S ls" "?f S' rs = ?f S rs" using S'(4) by auto
  have M: "bmp_map S = map_of (?f S ls @ ?f S rs)" by (simp add: bmp_map_def sp)
  have "bmp_map S' = map_of (?f S ls @ (bsn_index (bsn S np), br) # ?f S rs)"
    by (simp only: bmp_map_def S'(1-3) map_append list.map eq)
  also have "\<dots> = (map_of (?f S ls @ ?f S rs))(bsn_index (bsn S np) \<mapsto> br)"
  proof -
    have n: "map_of (?f S ls) (bsn_index (bsn S np)) = None"
      using free unfolding M by (simp add: map_add_None)
    show ?thesis
    proof
      fix k
      show "map_of (?f S ls @ (bsn_index (bsn S np), br) # ?f S rs) k =
        ((map_of (?f S ls @ ?f S rs))(bsn_index (bsn S np) \<mapsto> br)) k"
        using n by (simp add: map_add_def split: option.split)
    qed
  qed
  finally show ?thesis using M by simp
qed

lemma dsbmp_link_spec:
  assumes mgr: "mgr_inv P S" and core: "bmp_core S"
    and np: "np \<notin> set (p_space_head S)" "np \<in> pool_used (blksn_pool S)" "0 < bsn_size (bsn S np)"
      "bsn_end S np \<le> DS_MAX_BLOCKS"
    and sp: "p_space_head S = ls @ rs"
      "\<forall>l \<in> set ls. bsn_end S l \<le> bsn_index (bsn S np)" "\<forall>r \<in> set rs. bsn_end S np \<le> bsn_index (bsn S r)"
  shows "\<exists>S'. dsbmp_link np S = Some S' \<and>
    mgr_inv P (S'\<lparr>p_space_head := ls @ np # rs\<rparr>) \<and> bmp_core (S'\<lparr>p_space_head := ls @ np # rs\<rparr>) \<and>
    p_space_head S' = p_space_head S \<and> p_num_free_blocks S' = p_num_free_blocks S \<and>
    blksn_pool S' = blksn_pool S \<and>
    (\<forall>a. bsn_index (bsn S' a) = bsn_index (bsn S a) \<and> bsn_size (bsn S' a) = bsn_size (bsn S a))"
proof -
  note D = bmp_coreD[OF core] and MD = mgr_invD[OF mgr]
  let ?i = "bsn_index (bsn S np)"
  from np.getE[OF D(1)] obtain br p where p: "node_get_node (brn_pool S) = Some (br, p)" "pool_inv p"
    "br \<notin> pool_used (brn_pool S)" "pool_used p = insert br (pool_used (brn_pool S))" by blast
  let ?s = "(brn S)(br := (brn S br)\<lparr>bn_data := Bsn np\<rparr>)"
  have "\<forall>r \<in> set rs. ?i < bsn_index (bsn S r)" using sp(3) np(3) by (auto simp: bsn_end_def)
  from bmp_core_index_free[OF core sp(1,2) this] have free: "bmp_map S ?i = None" .
  have others: "brn_others S \<subseteq> pool_used (brn_pool S)" by (auto simp: brn_others_def)
  have nin: "br \<notin> ran (bmp_map S)" using p(3) D(7) others by (auto simp: bmp_map_ran[OF core])
  have par: "bn_parents ?s = bn_parents (brn S)" by (auto simp: bn_parents_def)
  have "?i < DS_MAX_BLOCKS" using np(3,4) by (simp add: bsn_end_def)
  then have ui: "unat (of_nat ?i :: u64) = ?i" and i8: "unat (of_nat ?i :: u64) < 64 ^ 8"
    using unat_of_nat_block[of ?i] by (simp_all add: DS_MAX_BLOCKS_def)
  have new: "bmp_map S (unat (of_nat ?i :: u64)) = None" unfolding ui by (rule free)
  from bt.insert_abs[of "bmp_map S" ?s "p_rtree S" "of_nat ?i" br, unfolded par, OF D(3) i8 new nin]
  obtain t s where t: "rtree_insert dsbmp_cb (of_nat ?i) br (p_rtree S) ?s = Some (Item br, t, s)"
    "rt_abs ((bmp_map S)(?i \<mapsto> br)) (bn_parents s) t" "bn_datas s = bn_datas ?s"
    "\<forall>y. y \<notin> insert br (ran (bmp_map S)) \<longrightarrow> bn_parents s y = bn_parents (brn S) y"
    unfolding ui by (elim exE conjE) (rule that; assumption)
  have data: "bn_data (s b) = (if b = br then Bsn np else bn_data (brn S b))" for b
    using t(3) by (metis (mono_tags, lifting) bn_datas_def bridge_node.select_convs(2) bridge_node.surjective bridge_node.update_convs(2) fun_upd_apply)
  let ?S = "S\<lparr>brn_pool := p, bsn := (bsn S)(np := (bsn S np)\<lparr>bsn_slot := br\<rparr>), p_rtree := t, brn := s\<rparr>"
  let ?S' = "?S\<lparr>p_space_head := ls @ np # rs\<rparr>"
  have ev: "dsbmp_link np S = Some ?S"
    using p(1) t(1) by (simp add: dsbmp_link_def brn_get_node_def Let_def)
  have isz: "bsn_index (bsn ?S a) = bsn_index (bsn S a)" "bsn_size (bsn ?S a) = bsn_size (bsn S a)" for a
    by simp_all
  have e: "bsn_end ?S' a = bsn_end S a" "bsn_index (bsn ?S' a) = bsn_index (bsn S a)" for a
    by (simp_all add: bsn_end_def)
  have sm: "sp_map ?S' = sp_map S" by (simp add: sp_map_upd)
  have oth: "brn_others ?S' = insert br (brn_others S)"
    using p(3,4) MD(3) by (auto simp: brn_others_def sm)
  have npls: "np \<notin> set ls" "np \<notin> set rs" using np(1) sp(1) by auto
  have "mgr_inv P ?S'"
  proof (rule mgr_inv_same[OF mgr])
    show "brn ?S' b = brn S b" if b: "b \<in> ran (sp_map S)" for b
    proof -
      have bb: "b \<noteq> br" using b MD(3) p(3) by auto
      have "b \<notin> ran (bmp_map S)" using b D(7) by (auto simp: bmp_map_ran[OF core] brn_others_def)
      then have "bn_parents s b = bn_parents (brn S) b" using t(4) bb by simp
      then show ?thesis using data[of b] bb by (simp add: bn_parents_def)
    qed
  qed (use p(2,4) MD(3) in \<open>auto simp: mgr_same_def\<close>)
  moreover have "bmp_core ?S'"
  proof (rule bmp_coreI)
    have "bmp_map ?S' = (bmp_map S)(?i \<mapsto> br)"
      using npls by (intro bmp_map_insert[OF core sp(1) free]) auto
    then show "rt_abs (bmp_map ?S') (bn_parents (brn ?S')) (p_rtree ?S')" using t(2) by simp
    show "sorted_wrt (\<lambda>a b. bsn_end ?S' a \<le> bsn_index (bsn ?S' b)) (p_space_head ?S')"
      using D(4) sp unfolding e by (simp add: sorted_wrt_append) 
    show "bsn_slot (bsn ?S' a) \<in> brn_others ?S' \<and> bn_data (brn ?S' (bsn_slot (bsn ?S' a))) = Bsn a"
      if "a \<in> set (p_space_head ?S')" for a
    proof (cases "a = np")
      case True
      then show ?thesis using oth data[of br] by simp
    next
      case False
      then have a: "a \<in> set (p_space_head S)" using that sp(1) by auto
      then have "bsn_slot (bsn S a) \<noteq> br" using D(7) p(3) others by auto
      then show ?thesis using False D(7,8)[OF a] oth data[of "bsn_slot (bsn S a)"] by simp
    qed
    show "0 < bsn_size (bsn ?S' a) \<and> bsn_end ?S' a \<le> DS_MAX_BLOCKS" if "a \<in> set (p_space_head ?S')" for a
      unfolding e using that np(3,4) D(5,6)[of a] sp(1) by auto
  qed (use D(2,9) p(2) np(2) sp(1) in auto)
  ultimately show ?thesis using ev isz by auto
qed

lemma bmp_map_remove:
  assumes core: "bmp_core S" and sp: "p_space_head S = ls @ np # rs"
    and S': "p_space_head S' = ls @ rs" "bsn S' = bsn S"
  shows "bmp_map S' = (bmp_map S)(bsn_index (bsn S np) := None)"
proof
  fix k
  let ?f = "\<lambda>a. (bsn_index (bsn S a), bsn_slot (bsn S a))"
  have "sorted_wrt (\<lambda>a b. bsn_index (bsn S a) < bsn_index (bsn S b)) (ls @ np # rs)"
    using bmp_core_distinct(2)[OF core] sp by simp
  then have "bsn_index (bsn S a) \<noteq> bsn_index (bsn S np)" if "a \<in> set (ls @ rs)" for a
    using that by (auto simp: sorted_wrt_append)
  then have n: "map_of (map ?f ls) (bsn_index (bsn S np)) = None"
    "map_of (map ?f rs) (bsn_index (bsn S np)) = None"
    by (fastforce simp: map_of_eq_None_iff)+
  show "bmp_map S' k = ((bmp_map S)(bsn_index (bsn S np) := None)) k"
    unfolding bmp_map_def S' sp using n by (simp add: map_add_def split: option.split)
qed

lemma dsbmp_unlink_spec:
  assumes mgr: "mgr_inv P S" and core: "bmp_core S" and np: "np \<in> set (p_space_head S)"
  shows "\<exists>S'. dsbmp_unlink np S = Some S' \<and> mgr_inv P S' \<and> bmp_core S' \<and>
    p_space_head S' = remove1 np (p_space_head S) \<and> bsn S' = bsn S \<and>
    p_num_free_blocks S' = p_num_free_blocks S \<and> blksn_pool S' = blksn_pool S \<and>
    brn_others S' = brn_others S"
proof -
  note D = bmp_coreD[OF core] and MD = mgr_invD[OF mgr]
  let ?i = "bsn_index (bsn S np)" and ?br = "bsn_slot (bsn S np)"
  obtain ls rs where sp: "p_space_head S = ls @ np # rs" using split_list[OF np] by blast
  have dist: "distinct (ls @ np # rs)" using bmp_core_distinct(1)[OF core] sp by simp
  then have rm: "remove1 np (p_space_head S) = ls @ rs" by (simp add: sp remove1_append)
  have Mi: "bmp_map S ?i = Some ?br" using np by (auto simp: bmp_map_Some[OF core])
  have "?i < DS_MAX_BLOCKS" using D(5,6)[OF np] by (simp add: bsn_end_def)
  then have ui: "unat (of_nat ?i :: u64) = ?i" using unat_of_nat_block[of ?i] by simp
  have "bmp_map S (unat (of_nat ?i :: u64)) = Some ?br" unfolding ui by (rule Mi)
  from bt.hint_remove_abs[OF D(3) this] obtain t s where
    t: "rtree_hint_remove dsbmp_cb (of_nat ?i) ?br (bn_parents (brn S) ?br) (p_rtree S) (brn S) = Some (Null, t, s)"
    "rt_abs ((bmp_map S)(?i := None)) (bn_parents s) t" "bn_datas s = bn_datas (brn S)"
    "\<forall>y. y \<notin> ran (bmp_map S) \<longrightarrow> bn_parents s y = bn_parents (brn S) y"
    unfolding ui by (elim exE conjE) (rule that; assumption)
  let ?S = "S\<lparr>p_rtree := t, brn := s, p_space_head := ls @ rs\<rparr>"
  have ev: "dsbmp_unlink np S = Some ?S"
    using t(1) rm by (simp add: dsbmp_unlink_def Let_def bn_parents_def)
  have data: "bn_data (s b) = bn_data (brn S b)" for b using t(3) by (metis bn_datas_def)
  have sm: "sp_map ?S = sp_map S" by (simp add: sp_map_upd)
  have oth: "brn_others ?S = brn_others S" by (simp add: brn_others_def sm)
  have "mgr_inv P ?S"
  proof (rule mgr_inv_same[OF mgr])
    show "brn ?S b = brn S b" if b: "b \<in> ran (sp_map S)" for b
    proof -
      have "b \<notin> ran (bmp_map S)" using b D(7) by (auto simp: bmp_map_ran[OF core] brn_others_def)
      then show ?thesis using t(3,4) by (auto intro!: bridge_eqI)
    qed
  qed (use MD(1,3) in \<open>auto simp: mgr_same_def\<close>)
  moreover have "bmp_core ?S"
  proof (rule bmp_coreI)
    have "bmp_map ?S = (bmp_map S)(?i := None)" by (rule bmp_map_remove[OF core sp]) simp_all
    then show "rt_abs (bmp_map ?S) (bn_parents (brn ?S)) (p_rtree ?S)" using t(2) by simp
    show "sorted_wrt (\<lambda>a b. bsn_end ?S a \<le> bsn_index (bsn ?S b)) (p_space_head ?S)"
      using D(4) sp by (simp add: sorted_wrt_append bsn_end_def)
    show "bsn_slot (bsn ?S a) \<in> brn_others ?S \<and> bn_data (brn ?S (bsn_slot (bsn ?S a))) = Bsn a"
      if "a \<in> set (p_space_head ?S)" for a
      using that D(7,8)[of a] sp data oth by auto
    show "0 < bsn_size (bsn ?S a) \<and> bsn_end ?S a \<le> DS_MAX_BLOCKS" if "a \<in> set (p_space_head ?S)" for a
      using that D(5,6)[of a] sp by (auto simp: bsn_end_def)
  qed (use D(1,2,9) sp in auto)
  ultimately show ?thesis using ev rm oth by simp
qed

lemma brn_put_spec:
  assumes mgr: "mgr_inv P S" and core: "bmp_core S"
    and br: "br \<in> brn_others S" "\<And>a. a \<in> set (p_space_head S) \<Longrightarrow> bsn_slot (bsn S a) \<noteq> br"
  shows "\<exists>p. brn_put_node br S = Some (S\<lparr>brn_pool := p\<rparr>) \<and>
    mgr_inv P (S\<lparr>brn_pool := p\<rparr>) \<and> bmp_core (S\<lparr>brn_pool := p\<rparr>)"
proof -
  note D = bmp_coreD[OF core] and MD = mgr_invD[OF mgr]
  have "br \<in> pool_used (brn_pool S)" using br(1) by (simp add: brn_others_def)
  from np.putE[OF D(1) this] obtain p where p: "node_put_node br (brn_pool S) = Some p"
    "pool_inv p" "pool_used p = pool_used (brn_pool S) - {br}" by blast
  let ?S = "S\<lparr>brn_pool := p\<rparr>"
  have oth: "brn_others ?S = brn_others S - {br}" using p(3) by (auto simp: brn_others_def sp_map_upd)
  have "mgr_inv P ?S"
    using p(2,3) MD(3) br(1) by (intro mgr_inv_same[OF mgr]) (auto simp: mgr_same_def brn_others_def)
  moreover have "bmp_core ?S"
  proof (rule bmp_coreI)
    show "bsn_slot (bsn ?S a) \<in> brn_others ?S \<and> bn_data (brn ?S (bsn_slot (bsn ?S a))) = Bsn a"
      if "a \<in> set (p_space_head ?S)" for a using that D(7,8)[of a] br(2)[of a] oth by simp
  qed (use D p(2) in \<open>simp_all add: bsn_end_def bmp_map_def\<close>)
  ultimately show ?thesis using p(1) by (auto simp: brn_put_node_def)
qed

lemma blksn_put_spec:
  assumes mgr: "mgr_inv P S" and core: "bmp_core S"
    and a: "a \<in> pool_used (blksn_pool S)" "a \<notin> set (p_space_head S)"
  shows "\<exists>p. blksn_put_node a S = Some (S\<lparr>blksn_pool := p\<rparr>) \<and>
    mgr_inv P (S\<lparr>blksn_pool := p\<rparr>) \<and> bmp_core (S\<lparr>blksn_pool := p\<rparr>) \<and>
    pool_used p = pool_used (blksn_pool S) - {a}"
proof -
  note D = bmp_coreD[OF core] and MD = mgr_invD[OF mgr]
  from np.putE[OF D(2) a(1)] obtain p where p: "node_put_node a (blksn_pool S) = Some p"
    "pool_inv p" "pool_used p = pool_used (blksn_pool S) - {a}" by blast
  let ?S = "S\<lparr>blksn_pool := p\<rparr>"
  have "mgr_inv P ?S" using MD(1,3) by (intro mgr_inv_same[OF mgr]) (auto simp: mgr_same_def)
  moreover have "bmp_core ?S"
    using D p(2,3) a(2) by (intro bmp_coreI) (auto simp: bsn_end_def bmp_map_def brn_others_def sp_map_upd)
  ultimately show ?thesis using p by (auto simp: blksn_put_node_def)
qed

lemma drop_core:
  assumes "mgr_inv P S" "bmp_core S" "a \<in> P"
  shows "\<exists>S'. dsmgr_drop_node a S = Some S' \<and> mgr_inv (P - {a}) S' \<and> bmp_core S' \<and> mgr_frame S S' \<and>
    p_sp_heads S' = (\<lambda>i. remove1 a (p_sp_heads S i)) \<and>
    p_large_sp_head S' = remove1 a (p_large_sp_head S)"
  using dsmgr_drop_node_spec[OF assms(1,3)] bmp_core_frame[OF assms(2)] mgr_invD(1) by blast

lemma add_core:
  assumes "mgr_inv P S" "bmp_core S" "a \<notin> P" "0 < bsn_size (bsn S a)"
  shows "\<exists>S'. dsmgr_add_node a S = Some S' \<and> mgr_inv (insert a P) S' \<and> bmp_core S' \<and> mgr_frame S S'"
  using dsmgr_add_node_spec[OF assms(1,3,4)] bmp_core_frame[OF assms(2)] mgr_invD(1) by blast

lemma bmp_core_set_size:
  assumes core: "bmp_core S" and sp: "p_space_head S = ls @ a # rs"
    and n: "0 < n" "bsn_index (bsn S a) + n \<le> DS_MAX_BLOCKS"
      "\<forall>r \<in> set rs. bsn_index (bsn S a) + n \<le> bsn_index (bsn S r)"
  shows "bmp_core (bsn_set_size a n S)" (is "bmp_core ?S")
proof -
  note D = bmp_coreD[OF core]
  have dist: "a \<notin> set ls" "a \<notin> set rs" using bmp_core_distinct(1)[OF core] sp by auto
  have e: "bsn_end ?S b = (if b = a then bsn_index (bsn S a) + n else bsn_end S b)"
    "bsn_index (bsn ?S b) = bsn_index (bsn S b)" "bsn_slot (bsn ?S b) = bsn_slot (bsn S b)" for b
    by (simp_all add: bsn_end_def)
  show ?thesis
  proof (rule bmp_coreI)
    have "sorted_wrt (\<lambda>a b. bsn_end ?S a \<le> bsn_index (bsn ?S b)) ls \<longleftrightarrow>
        sorted_wrt (\<lambda>a b. bsn_end S a \<le> bsn_index (bsn S b)) ls"
      "sorted_wrt (\<lambda>a b. bsn_end ?S a \<le> bsn_index (bsn ?S b)) rs \<longleftrightarrow>
        sorted_wrt (\<lambda>a b. bsn_end S a \<le> bsn_index (bsn S b)) rs"
      using dist by (auto simp: e intro!: sorted_wrt_cong)
    then show "sorted_wrt (\<lambda>a b. bsn_end ?S a \<le> bsn_index (bsn ?S b)) (p_space_head ?S)"
      using D(4) n(3) dist by (auto simp: sp sorted_wrt_append e)
    have "bmp_map ?S = bmp_map S" unfolding bmp_map_def e by simp
    then show "rt_abs (bmp_map ?S) (bn_parents (brn ?S)) (p_rtree ?S)" using D(3) by simp
    show "bsn_slot (bsn ?S b) \<in> brn_others ?S \<and> bn_data (brn ?S (bsn_slot (bsn ?S b))) = Bsn b"
      if "b \<in> set (p_space_head ?S)" for b using that D(7,8)[of b] unfolding e by (simp add: brn_others_def)
    show "0 < bsn_size (bsn ?S b) \<and> bsn_end ?S b \<le> DS_MAX_BLOCKS" if "b \<in> set (p_space_head ?S)" for b
      using that D(5,6)[of b] n(1,2) unfolding e by auto
  qed (use D(1,2,9) in simp_all)
qed

lemma extend_core:
  assumes mgr: "mgr_inv P S" and core: "bmp_core S" and a: "a \<in> P" and sp: "p_space_head S = ls @ a # rs"
    and n: "bsn_end S a + n \<le> DS_MAX_BLOCKS"
      "\<forall>r \<in> set rs. bsn_end S a + n \<le> bsn_index (bsn S r)"
  shows "\<exists>S'. dsmgr_extend_space a n S = Some S' \<and> mgr_inv P S' \<and> bmp_core S' \<and>
    mgr_frame (bsn_set_size a (bsn_size (bsn S a) + n) S) S'"
proof -
  have "0 < bsn_size (bsn S a)" using bmp_coreD(5)[OF core, of a] sp by simp
  then have "bmp_core (bsn_set_size a (bsn_size (bsn S a) + n) S)"
    using n by (intro bmp_core_set_size[OF core sp]) (auto simp: bsn_end_def add.assoc)
  with dsmgr_extend_space_spec[OF mgr a, of n] bmp_core_frame mgr_invD(1) show ?thesis by blast
qed

section \<open>Returning an extent\<close>

abbreviation bsn_idx :: "ds_state \<Rightarrow> node_addr \<Rightarrow> nat" where
  "bsn_idx S a \<equiv> bsn_index (bsn S a)"

definition sum_free :: "ds_state \<Rightarrow> nat" where
  "sum_free S = sum_list (map (\<lambda>a. bsn_size (bsn S a)) (p_space_head S))"

text \<open>The address order around an extent that overlaps no free one.\<close>

definition bsn_apart :: "ds_state \<Rightarrow> node_addr \<Rightarrow> bool" where
  "bsn_apart S np \<longleftrightarrow>
     0 < bsn_size (bsn S np) \<and> bsn_end S np \<le> DS_MAX_BLOCKS \<and>
     (\<forall>a \<in> set (p_space_head S). bsn_end S a \<le> bsn_idx S np \<or> bsn_end S np \<le> bsn_idx S a)"

lemma bmp_split:
  assumes core: "bmp_core S" and np: "bsn_apart S np"
  obtains ls rs where "p_space_head S = ls @ rs" "\<forall>l \<in> set ls. bsn_end S l \<le> bsn_idx S np"
    "\<forall>r \<in> set rs. bsn_end S np \<le> bsn_idx S r"
proof
  let ?A = "p_space_head S"
  let ?P = "\<lambda>a. bsn_idx S a < bsn_idx S np"
  have pos: "0 < bsn_size (bsn S np)" using np by (simp add: bsn_apart_def)
  have cases: "bsn_end S a \<le> bsn_idx S np \<or> bsn_end S np \<le> bsn_idx S a" if "a \<in> set ?A" for a
    using np that by (simp add: bsn_apart_def)
  show "?A = takeWhile ?P ?A @ dropWhile ?P ?A" by simp
  show "\<forall>l \<in> set (takeWhile ?P ?A). bsn_end S l \<le> bsn_idx S np"
  proof
    fix l assume "l \<in> set (takeWhile ?P ?A)"
    then have "l \<in> set ?A" "?P l" by (auto dest: set_takeWhileD)
    then show "bsn_end S l \<le> bsn_idx S np" using cases[of l] by (auto simp: bsn_end_def)
  qed
  show "\<forall>r \<in> set (dropWhile ?P ?A). bsn_end S np \<le> bsn_idx S r"
  proof
    fix r assume r: "r \<in> set (dropWhile ?P ?A)"
    then have rA: "r \<in> set ?A" by (rule set_dropWhileD)
    obtain y ys where d: "dropWhile ?P ?A = y # ys" using r by (cases "dropWhile ?P ?A") auto
    then have "\<not> ?P y" using hd_dropWhile[of ?P ?A] by simp
    moreover have "sorted_wrt (\<lambda>a b. bsn_idx S a < bsn_idx S b) (y # ys)"
      using bmp_core_distinct(2)[OF core] d by (metis sorted_wrt_append takeWhile_dropWhile_id)
    ultimately have "\<not> ?P r" using r d by auto
    moreover have "0 < bsn_size (bsn S r)" by (rule bmp_coreD(5)[OF core rA])
    ultimately show "bsn_end S np \<le> bsn_idx S r" using cases[OF rA] by (auto simp: bsn_end_def)
  qed
qed

text \<open>
  The state between placing the extent and merging it to the right: \<open>left\<close> ends where the
  returned extent ends, and only it may touch its right neighbour.
\<close>

definition bmp_placed ::
  "node_addr list \<Rightarrow> node_addr \<Rightarrow> node_addr list \<Rightarrow> node_addr set \<Rightarrow> ds_state \<Rightarrow> bool" where
  "bmp_placed ls left rs P S \<longleftrightarrow>
     mgr_inv P S \<and> bmp_core S \<and> p_space_head S = ls @ left # rs \<and> set (ls @ left # rs) \<subseteq> P \<and>
     sorted_wrt (\<lambda>a b. bsn_end S a < bsn_idx S b) (ls @ [left]) \<and>
     sorted_wrt (\<lambda>a b. bsn_end S a < bsn_idx S b) rs \<and>
     p_num_free_blocks S = sum_free S"

lemma mgr_frame_sel:
  assumes "mgr_frame S S'"
  shows "bsn S' = bsn S" "blksn_pool S' = blksn_pool S" "p_space_head S' = p_space_head S"
    "p_num_free_blocks S' = p_num_free_blocks S" "bsn_end S' = bsn_end S" "bsn_blocks S' = bsn_blocks S"
    "sum_free S' = sum_free S" "free_blocks S' = free_blocks S" "brn_others S' = brn_others S"
  using assms
  by (simp_all add: mgr_frame_def bsn_end_def[abs_def] bsn_blocks_def[abs_def] sum_free_def free_blocks_def)

lemma bmp_placed_gaps:
  assumes "bmp_placed ls left rs P S" and "case rs of [] \<Rightarrow> True | r # _ \<Rightarrow> bsn_end S left < bsn_idx S r"
  shows "bmp_gaps S"
proof -
  have c: "bmp_core S" and sp: "p_space_head S = ls @ left # rs"
    and g: "sorted_wrt (\<lambda>a b. bsn_end S a < bsn_idx S b) (ls @ [left])"
      "sorted_wrt (\<lambda>a b. bsn_end S a < bsn_idx S b) rs"
    using assms(1) by (simp_all add: bmp_placed_def)
  have st: "\<forall>r \<in> set rs. bsn_end S left \<le> bsn_idx S r"
    using bmp_coreD(4)[OF c] sp by (simp add: sorted_wrt_append)
  have lr: "bsn_end S left < bsn_idx S r" if "r \<in> set rs" for r
  proof (cases rs)
    case (Cons r0 rs')
    then have r0: "bsn_end S left < bsn_idx S r0" using assms(2) by simp
    show ?thesis
    proof (cases "r = r0")
      case False
      then have "bsn_end S r0 < bsn_idx S r" using that Cons g(2) by auto
      then show ?thesis using r0 by (simp add: bsn_end_def)
    qed (use r0 in simp)
  qed (use that in simp)
  moreover have "bsn_end S l < bsn_idx S r" if "l \<in> set ls" "r \<in> set rs" for l r
  proof -
    have "bsn_end S l < bsn_idx S left" using g(1) that(1) by (simp add: sorted_wrt_append)
    also have "\<dots> \<le> bsn_end S left" by (simp add: bsn_end_def)
    also have "\<dots> < bsn_idx S r" by (rule lr[OF that(2)])
    finally show ?thesis .
  qed
  ultimately show ?thesis using g unfolding bmp_gaps_def sp by (auto simp: sorted_wrt_append)
qed

lemma dsbmp_merge_spec:
  assumes pl: "bmp_placed ls left (r # rs) P S" and adj: "bsn_idx S r = bsn_end S left"
  shows "\<exists>S'. dsbmp_merge left r S = Some S' \<and> bmp_placed ls left rs (P - {r}) S' \<and> bmp_gaps S' \<and>
    free_blocks S' = free_blocks S \<and> p_num_free_blocks S' = p_num_free_blocks S \<and>
    pool_used (blksn_pool S') = pool_used (blksn_pool S) - {r} \<and>
    (\<forall>a. a \<notin> {left} \<longrightarrow> bsn S' a = bsn S a)"
proof -
  have mgr: "mgr_inv P S" and core: "bmp_core S" and sp: "p_space_head S = ls @ left # r # rs"
    and sub: "set (ls @ left # r # rs) \<subseteq> P" and num: "p_num_free_blocks S = sum_free S"
    and gl: "sorted_wrt (\<lambda>a b. bsn_end S a < bsn_idx S b) (ls @ [left])"
    and gr: "sorted_wrt (\<lambda>a b. bsn_end S a < bsn_idx S b) (r # rs)"
    using pl by (simp_all add: bmp_placed_def)
  note D = bmp_coreD[OF core]
  have rA: "r \<in> set (p_space_head S)" using sp by simp
  have dist: "distinct (ls @ left # r # rs)" using bmp_core_distinct(1)[OF core] sp by simp
  let ?br = "bsn_slot (bsn S r)"
  from dsbmp_unlink_spec[OF mgr core rA] obtain S1 where S1: "dsbmp_unlink r S = Some S1"
    "mgr_inv P S1" "bmp_core S1" "p_space_head S1 = remove1 r (p_space_head S)" "bsn S1 = bsn S"
    "p_num_free_blocks S1 = p_num_free_blocks S" "blksn_pool S1 = blksn_pool S" "brn_others S1 = brn_others S"
    by blast
  have sp1: "p_space_head S1 = ls @ left # rs" using S1(4) sp dist by (simp add: remove1_append)
  have rP: "r \<in> P" using sub by simp
  from drop_core[OF S1(2,3) rP] obtain S2 where S2: "dsmgr_drop_node r S1 = Some S2"
    "mgr_inv (P - {r}) S2" "bmp_core S2" "mgr_frame S1 S2" by blast
  note F2 = mgr_frame_sel[OF S2(4)]
  have "?br \<in> brn_others S2" using D(7)[OF rA] S1(8) F2(9) by simp
  moreover have "bsn_slot (bsn S2 a) \<noteq> ?br" if "a \<in> set (p_space_head S2)" for a
  proof
    assume "bsn_slot (bsn S2 a) = ?br"
    moreover have "a \<in> set (p_space_head S)" "a \<noteq> r" using that sp sp1 F2(3) dist by auto
    ultimately show False using bmp_slot_inj[OF core _ rA] F2(1) S1(5) by simp
  qed
  ultimately obtain p3 where S3: "brn_put_node ?br S2 = Some (S2\<lparr>brn_pool := p3\<rparr>)"
    "mgr_inv (P - {r}) (S2\<lparr>brn_pool := p3\<rparr>)" "bmp_core (S2\<lparr>brn_pool := p3\<rparr>)"
    using brn_put_spec[OF S2(2,3)] by blast
  let ?S3 = "S2\<lparr>brn_pool := p3\<rparr>"
  have b3: "bsn ?S3 = bsn S" and sp3: "p_space_head ?S3 = ls @ left # rs" using F2 S1(5) sp1 by simp_all
  have e3: "bsn_end ?S3 = bsn_end S" using b3 by (auto simp: bsn_end_def)
  let ?n = "bsn_size (bsn S r)"
  have er: "bsn_end S left + ?n = bsn_end S r" using adj by (simp add: bsn_end_def)
  have lP: "left \<in> P - {r}" using sub dist by auto
  have n1: "bsn_end ?S3 left + ?n \<le> DS_MAX_BLOCKS" unfolding e3 er by (rule D(6)[OF rA])
  have n2: "\<forall>x \<in> set rs. bsn_end ?S3 left + ?n \<le> bsn_idx ?S3 x"
    unfolding e3 er b3 using gr by auto
  from extend_core[OF S3(2,3) lP sp3 n1 n2] obtain S4 where S4: "dsmgr_extend_space left ?n ?S3 = Some S4"
    "mgr_inv (P - {r}) S4" "bmp_core S4"
    "mgr_frame (bsn_set_size left (bsn_size (bsn ?S3 left) + ?n) ?S3) S4" by blast
  note F4 = mgr_frame_sel[OF S4(4)]
  have b4: "bsn S4 = (bsn S)(left := (bsn S left)\<lparr>bsn_size := bsn_size (bsn S left) + ?n\<rparr>)"
    using F4(1) b3 by simp
  have sp4: "p_space_head S4 = ls @ left # rs" using F4(3) sp3 by simp
  have pool4: "blksn_pool S4 = blksn_pool S" using F4(2) F2(2) S1(7) by simp
  have "r \<in> pool_used (blksn_pool S4)" "r \<notin> set (p_space_head S4)"
    using D(9) rA pool4 sp4 dist by auto
  from blksn_put_spec[OF S4(2,3) this] obtain p5 where S5: "blksn_put_node r S4 = Some (S4\<lparr>blksn_pool := p5\<rparr>)"
    "mgr_inv (P - {r}) (S4\<lparr>blksn_pool := p5\<rparr>)" "bmp_core (S4\<lparr>blksn_pool := p5\<rparr>)"
    "pool_used p5 = pool_used (blksn_pool S4) - {r}" by blast
  let ?S5 = "S4\<lparr>blksn_pool := p5\<rparr>"
  have ev: "dsbmp_merge left r S = Some ?S5"
    using S1(1,5) S2(1) S3(1) S4(1) S5(1) D(8)[OF rA] b3 by (simp add: dsbmp_merge_def Let_def)
  have e5: "bsn_end ?S5 a = (if a = left then bsn_end S r else bsn_end S a)" for a
    using er by (simp add: bsn_end_def b4)
  have i5: "bsn_idx ?S5 a = bsn_idx S a" "bsn_idx S4 a = bsn_idx S a" for a by (simp_all add: b4)
  have bl5: "bsn_blocks ?S5 a = (if a = left then bsn_blocks S left \<union> bsn_blocks S r else bsn_blocks S a)" for a
    unfolding bsn_blocks_def e5 i5(1) using adj by (auto simp: bsn_end_def)
  have ll: "left \<notin> set ls" "left \<notin> set rs" using dist by auto
  have n5: "p_num_free_blocks ?S5 = p_num_free_blocks S" using F4(4) F2(4) S1(6) by simp
  have f5: "free_blocks ?S5 = free_blocks S" unfolding free_blocks_def using ll by (auto simp: sp sp4 bl5)
  have s5: "sum_free ?S5 = sum_free S"
  proof -
    have m: "map (\<lambda>a. bsn_size (bsn ?S5 a)) ls = map (\<lambda>a. bsn_size (bsn S a)) ls"
      "map (\<lambda>a. bsn_size (bsn ?S5 a)) rs = map (\<lambda>a. bsn_size (bsn S a)) rs"
      using ll by (auto simp: b4)
    have h: "bsn_size (bsn ?S5 left) = bsn_size (bsn S left) + ?n" "p_space_head ?S5 = ls @ left # rs"
      using sp4 by (simp_all add: b4)
    show ?thesis
      unfolding sum_free_def h(2) sp by (simp only: map_append list.map sum_list_append m h(1)) simp
  qed
  have g5: "sorted_wrt (\<lambda>a b. bsn_end ?S5 a < bsn_idx ?S5 b) (ls @ [left])"
    "sorted_wrt (\<lambda>a b. bsn_end ?S5 a < bsn_idx ?S5 b) rs"
  proof -
    have "sorted_wrt (\<lambda>a b. bsn_end ?S5 a < bsn_idx ?S5 b) xs \<longleftrightarrow>
        sorted_wrt (\<lambda>a b. bsn_end S a < bsn_idx S b) xs" if "left \<notin> set xs" for xs
      using that by (intro sorted_wrt_cong) (auto simp: e5 i5)
    then show "sorted_wrt (\<lambda>a b. bsn_end ?S5 a < bsn_idx ?S5 b) (ls @ [left])"
      "sorted_wrt (\<lambda>a b. bsn_end ?S5 a < bsn_idx ?S5 b) rs"
      using gl gr ll by (auto simp: sorted_wrt_append e5 i5)
  qed
  have pl5: "bmp_placed ls left rs (P - {r}) ?S5"
    using S5(2,3) sp4 sub dist n5 num s5 g5 by (auto simp: bmp_placed_def)
  have "bmp_gaps ?S5"
    using gr e5[of left] i5 by (intro bmp_placed_gaps[OF pl5]) (auto split: list.split)
  with ev pl5 f5 n5 S5(4) pool4 b4 show ?thesis by auto
qed

lemma list_next_split:
  "x \<notin> set l1 \<Longrightarrow> list_next x (l1 @ x # l2) = (case l2 of [] \<Rightarrow> None | y # _ \<Rightarrow> Some y)"
  by (simp add: list_next_def list_from_split split: list.split)

lemma add_free_blocks_sel [simp]:
  "bsn (add_free_blocks n S) = bsn S" "p_space_head (add_free_blocks n S) = p_space_head S"
  "blksn_pool (add_free_blocks n S) = blksn_pool S" "bsn_end (add_free_blocks n S) = bsn_end S"
  "bsn_blocks (add_free_blocks n S) = bsn_blocks S"
  "p_num_free_blocks (add_free_blocks n S) = p_num_free_blocks S + n"
  "sum_free (add_free_blocks n S) = sum_free S" "free_blocks (add_free_blocks n S) = free_blocks S"
  by (auto simp: add_free_blocks_def bsn_end_def bsn_blocks_def sum_free_def free_blocks_def)

lemma add_free_blocks_inv [simp]:
  "mgr_inv P (add_free_blocks n S) = mgr_inv P S" "bmp_core (add_free_blocks n S) = bmp_core S"
  by (simp_all add: add_free_blocks_def mgr_inv_def bmp_core_def sp_map_upd bmp_map_def bsn_end_def
      brn_others_def)

lemma dsbmp_place_left:
  assumes mgr: "mgr_inv (insert np (set (p_space_head S))) S" and core: "bmp_core S" and gaps: "bmp_gaps S"
    and num: "p_num_free_blocks S = sum_free S"
    and np: "np \<notin> set (p_space_head S)" "bsn_apart S np"
    and sp: "p_space_head S = ls @ nbr # rs" "\<forall>r \<in> set rs. bsn_end S np \<le> bsn_idx S r"
    and touch: "bsn_end S nbr = bsn_idx S np"
  shows "\<exists>S'. dsbmp_place np nbr S = Some (Some np, nbr, (case rs of [] \<Rightarrow> None | r # _ \<Rightarrow> Some r), S') \<and>
    bmp_placed ls nbr rs (insert np (set (p_space_head S))) S' \<and>
    free_blocks S' = free_blocks S \<union> bsn_blocks S np \<and>
    p_num_free_blocks S' = p_num_free_blocks S + bsn_size (bsn S np) \<and>
    blksn_pool S' = blksn_pool S \<and> (\<forall>a. a \<noteq> nbr \<longrightarrow> bsn S' a = bsn S a)"
proof -
  note D = bmp_coreD[OF core]
  let ?P = "insert np (set (p_space_head S))"
  let ?n = "bsn_size (bsn S np)"
  have dist: "distinct (ls @ nbr # rs)" using bmp_core_distinct(1)[OF core] sp by simp
  have en: "bsn_end S nbr + ?n = bsn_end S np" using touch by (simp add: bsn_end_def)
  have nA: "nbr \<in> ?P" "nbr \<in> set (p_space_head S)" using sp by simp_all
  have n1: "bsn_end S nbr + ?n \<le> DS_MAX_BLOCKS" unfolding en using np(2) by (simp add: bsn_apart_def)
  have n2: "\<forall>r \<in> set rs. bsn_end S nbr + ?n \<le> bsn_idx S r" unfolding en by (rule sp(2))
  from extend_core[OF mgr core nA(1) sp(1) n1 n2] obtain S1 where
    S1: "dsmgr_extend_space nbr ?n S = Some S1" "mgr_inv ?P S1" "bmp_core S1"
    "mgr_frame (bsn_set_size nbr (bsn_size (bsn S nbr) + ?n) S) S1" by blast
  note F = mgr_frame_sel[OF S1(4)]
  have b1: "bsn S1 = (bsn S)(nbr := (bsn S nbr)\<lparr>bsn_size := bsn_size (bsn S nbr) + ?n\<rparr>)"
    using F(1) by simp
  have sp1: "p_space_head S1 = ls @ nbr # rs" using F(3) sp by simp
  have ls: "nbr \<notin> set ls" "nbr \<notin> set rs" using dist by auto
  have e1: "bsn_end S1 a = (if a = nbr then bsn_end S np else bsn_end S a)" for a
    using en by (simp add: bsn_end_def b1)
  have i1: "bsn_idx S1 a = bsn_idx S a" for a by (simp add: b1)
  have inr: "bsn_idx S nbr < bsn_idx S np" using touch D(5)[OF nA(2)] by (simp add: bsn_end_def)
  let ?S = "add_free_blocks ?n S1"
  have ev: "dsbmp_place np nbr S = Some (Some np, nbr, (case rs of [] \<Rightarrow> None | r # _ \<Rightarrow> Some r), ?S)"
    using S1(1) touch inr list_next_split[OF ls(1), of rs]
    by (simp add: dsbmp_place_def Let_def bsn_end_def sp1)
  have bl: "bsn_blocks ?S a = (if a = nbr then bsn_blocks S nbr \<union> bsn_blocks S np else bsn_blocks S a)" for a
    unfolding add_free_blocks_sel bsn_blocks_def e1 i1 using touch by (auto simp: bsn_end_def)
  have fr: "free_blocks ?S = free_blocks S \<union> bsn_blocks S np"
    unfolding free_blocks_def bl using ls by (auto simp: sp sp1)
  have sm: "sum_free ?S = sum_free S + ?n"
  proof -
    have m: "map (\<lambda>a. bsn_size (bsn ?S a)) ls = map (\<lambda>a. bsn_size (bsn S a)) ls"
      "map (\<lambda>a. bsn_size (bsn ?S a)) rs = map (\<lambda>a. bsn_size (bsn S a)) rs"
      using ls by (auto simp: b1)
    have h: "bsn_size (bsn ?S nbr) = bsn_size (bsn S nbr) + ?n" "p_space_head ?S = ls @ nbr # rs"
      using sp1 by (simp_all add: b1)
    show ?thesis unfolding sum_free_def h(2) sp(1)
      by (simp only: map_append list.map sum_list_append m h(1)) simp
  qed
  have g: "sorted_wrt (\<lambda>a b. bsn_end ?S a < bsn_idx ?S b) (ls @ [nbr])"
    "sorted_wrt (\<lambda>a b. bsn_end ?S a < bsn_idx ?S b) rs"
  proof -
    have "sorted_wrt (\<lambda>a b. bsn_end ?S a < bsn_idx ?S b) xs \<longleftrightarrow>
        sorted_wrt (\<lambda>a b. bsn_end S a < bsn_idx S b) xs" if "nbr \<notin> set xs" for xs
      using that by (intro sorted_wrt_cong) (auto simp: e1 i1)
    then show "sorted_wrt (\<lambda>a b. bsn_end ?S a < bsn_idx ?S b) (ls @ [nbr])"
      "sorted_wrt (\<lambda>a b. bsn_end ?S a < bsn_idx ?S b) rs"
      using gaps ls unfolding bmp_gaps_def sp by (auto simp: sorted_wrt_append e1 i1)
  qed
  have nums: "p_num_free_blocks ?S = p_num_free_blocks S + ?n" "blksn_pool ?S = blksn_pool S"
    using F by simp_all
  have "bmp_placed ls nbr rs ?P ?S"
    unfolding bmp_placed_def using S1(2,3) sp1 sp g sm num nums by auto
  with ev fr nums b1 show ?thesis by auto
qed

lemma dsbmp_place_new:
  assumes mgr: "mgr_inv (insert np (set (p_space_head S))) S" and core: "bmp_core S" and gaps: "bmp_gaps S"
    and num: "p_num_free_blocks S = sum_free S"
    and np: "np \<notin> set (p_space_head S)" "np \<in> pool_used (blksn_pool S)" "bsn_apart S np"
    and sp: "p_space_head S = ls @ rs" "\<forall>l \<in> set ls. bsn_end S l < bsn_idx S np"
      "\<forall>r \<in> set rs. bsn_end S np \<le> bsn_idx S r"
  shows "\<exists>S0 S'. S' = add_free_blocks (bsn_size (bsn S np)) (S0\<lparr>p_space_head := ls @ np # rs\<rparr>) \<and>
    dsbmp_link np S = Some S0 \<and> p_space_head S0 = p_space_head S \<and>
    bsn_size (bsn S0 np) = bsn_size (bsn S np) \<and>
    bmp_placed ls np rs (insert np (set (p_space_head S))) S' \<and>
    free_blocks S' = free_blocks S \<union> bsn_blocks S np \<and>
    p_num_free_blocks S' = p_num_free_blocks S + bsn_size (bsn S np) \<and>
    blksn_pool S' = blksn_pool S \<and>
    (\<forall>a. bsn_idx S' a = bsn_idx S a \<and> bsn_size (bsn S' a) = bsn_size (bsn S a))"
proof -
  let ?P = "insert np (set (p_space_head S))"
  let ?n = "bsn_size (bsn S np)"
  have ap: "0 < ?n" "bsn_end S np \<le> DS_MAX_BLOCKS" using np(3) by (simp_all add: bsn_apart_def)
  have "\<forall>l \<in> set ls. bsn_end S l \<le> bsn_idx S np" using sp(2) by auto
  from dsbmp_link_spec[OF mgr core np(1,2) ap sp(1) this sp(3)]
  obtain S0 where S0: "dsbmp_link np S = Some S0" "mgr_inv ?P (S0\<lparr>p_space_head := ls @ np # rs\<rparr>)"
    "bmp_core (S0\<lparr>p_space_head := ls @ np # rs\<rparr>)" "p_space_head S0 = p_space_head S"
    "p_num_free_blocks S0 = p_num_free_blocks S" "blksn_pool S0 = blksn_pool S"
    "\<And>a. bsn_idx S0 a = bsn_idx S a" "\<And>a. bsn_size (bsn S0 a) = bsn_size (bsn S a)" by blast
  let ?S = "add_free_blocks ?n (S0\<lparr>p_space_head := ls @ np # rs\<rparr>)"
  have iz: "bsn_idx ?S a = bsn_idx S a" "bsn_size (bsn ?S a) = bsn_size (bsn S a)" for a
    using S0(7,8) by simp_all
  have e: "bsn_end ?S a = bsn_end S a" "bsn_blocks ?S a = bsn_blocks S a" for a
    using S0(7,8) by (simp_all add: bsn_end_def bsn_blocks_def)
  have fr: "free_blocks ?S = free_blocks S \<union> bsn_blocks S np"
    unfolding free_blocks_def e(2) using sp(1) by auto
  have sm: "sum_free ?S = sum_free S + ?n"
    unfolding sum_free_def iz(2) using sp(1) by simp
  have nums: "p_num_free_blocks ?S = p_num_free_blocks S + ?n" "blksn_pool ?S = blksn_pool S"
    using S0(5,6) by simp_all
  have "bmp_placed ls np rs ?P ?S"
    unfolding bmp_placed_def e(1) iz(1) using S0(2,3) sp sm num nums gaps
    by (auto simp: bmp_gaps_def sorted_wrt_append)
  with S0(1,4,8) fr nums iz show ?thesis by (intro exI[of _ S0] exI[of _ ?S]) simp
qed

text \<open>The end of \<open>dsbmp_put_node\<close>, from the placed extent to the merged one.\<close>

lemma dsbmp_join_right:
  assumes pl: "bmp_placed ls left rs P S"
  shows "\<exists>S'. (case (case rs of [] \<Rightarrow> None | r # _ \<Rightarrow> Some r) of
         None \<Rightarrow> Some (ret, S)
       | Some r \<Rightarrow>
           if bsn_idx S r = bsn_idx S left + bsn_size (bsn S left)
           then do { S \<leftarrow> dsbmp_merge left r S; Some (ret, S) }
           else Some (ret, S)) = Some (ret, S') \<and>
    (\<exists>rs'. bmp_placed ls left rs' (P - (set rs - set rs')) S' \<and> set rs' \<subseteq> set rs) \<and> bmp_gaps S' \<and>
    free_blocks S' = free_blocks S \<and> p_num_free_blocks S' = p_num_free_blocks S \<and>
    pool_used (blksn_pool S') - set (p_space_head S') = pool_used (blksn_pool S) - set (p_space_head S) \<and>
    (\<forall>a. a \<notin> set (p_space_head S) \<longrightarrow> bsn S' a = bsn S a)"
proof (cases rs)
  case Nil
  then show ?thesis using pl bmp_placed_gaps[OF pl] by auto
next
  case (Cons r rs')
  have core: "bmp_core S" and sp: "p_space_head S = ls @ left # rs" using pl by (simp_all add: bmp_placed_def)
  show ?thesis
  proof (cases "bsn_idx S r = bsn_end S left")
    case True
    have "r \<notin> set rs'" using bmp_core_distinct(1)[OF core] sp Cons by auto
    then have rs': "P - (set rs - set rs') = P - {r}" "set rs' \<subseteq> set rs" using Cons by auto
    from dsbmp_merge_spec[OF pl[unfolded Cons] True] obtain S' where
      S': "dsbmp_merge left r S = Some S'" "bmp_placed ls left rs' (P - {r}) S'" "bmp_gaps S'"
      "free_blocks S' = free_blocks S" "p_num_free_blocks S' = p_num_free_blocks S"
      "pool_used (blksn_pool S') = pool_used (blksn_pool S) - {r}"
      "\<forall>a. a \<notin> {left} \<longrightarrow> bsn S' a = bsn S a" by blast
    have "\<exists>rs'. bmp_placed ls left rs' (P - (set rs - set rs')) S' \<and> set rs' \<subseteq> set rs"
      using S'(2) rs' by (intro exI[of _ rs']) simp
    moreover have "p_space_head S' = ls @ left # rs'" using S'(2) by (simp add: bmp_placed_def)
    then have "pool_used (blksn_pool S') - set (p_space_head S') = pool_used (blksn_pool S) - set (p_space_head S)"
      using S'(6) sp Cons by auto
    ultimately show ?thesis using S'(1,3-5,7) sp True Cons
      by (intro exI[of _ S']) (auto simp: bsn_end_def)
  next
    case False
    moreover have "bsn_end S left \<le> bsn_idx S r" using bmp_coreD(4)[OF core] sp Cons by (simp add: sorted_wrt_append)
    ultimately have "bmp_gaps S" using Cons by (intro bmp_placed_gaps[OF pl]) simp
    moreover have "\<exists>rs'. bmp_placed ls left rs' (P - (set rs - set rs')) S \<and> set rs' \<subseteq> set rs"
      using pl by (intro exI[of _ rs]) simp
    ultimately show ?thesis using False Cons by (intro exI[of _ S]) (auto simp: bsn_end_def)
  qed
qed

definition ds_inv :: "ds_state \<Rightarrow> bool" where
  "ds_inv S \<longleftrightarrow> mgr_inv (set (p_space_head S)) S \<and> bmp_core S \<and> bmp_gaps S \<and>
     p_num_free_blocks S = sum_free S"

lemma dsbmp_neighbor_spec:
  assumes core: "bmp_core S" and i: "bsn_idx S np \<le> DS_MAX_BLOCKS"
  shows "\<exists>sl nbr. rtree_search_around (p_rtree S) (of_nat (bsn_idx S np)) = Some sl \<and>
    dsbmp_neighbor (brn S) (p_space_head S) sl = Some nbr \<and>
    (case nbr of None \<Rightarrow> p_space_head S = [] | Some b \<Rightarrow> b \<in> set (p_space_head S))"
proof -
  note D = bmp_coreD[OF core]
  from rt_abs_search_around[OF D(3), of "of_nat (bsn_idx S np)"] obtain sl where
    sl: "rtree_search_around (p_rtree S) (of_nat (bsn_idx S np)) = Some sl"
    "rt_around (bmp_map S) (bsn_idx S np) sl"
    unfolding unat_of_nat_block[OF i] by blast
  show ?thesis
  proof (cases sl)
    case Null
    then show ?thesis using sl(1) by (cases "p_space_head S") (auto simp: dsbmp_neighbor_def)
  next
    case (Item br)
    then obtain k where "bmp_map S k = Some br" using sl(2) by (auto simp: rt_around_def)
    then obtain a where a: "a \<in> set (p_space_head S)" "bsn_slot (bsn S a) = br"
      by (auto simp: bmp_map_Some[OF core])
    then show ?thesis using sl(1) Item D(8)[OF a(1)] by (auto simp: dsbmp_neighbor_def)
  qed (use sl(2) in \<open>simp add: rt_around_def\<close>)
qed

lemma dsbmp_place_spec:
  assumes mgr: "mgr_inv (insert np (set (p_space_head S))) S" and core: "bmp_core S" and gaps: "bmp_gaps S"
    and num: "p_num_free_blocks S = sum_free S"
    and np: "np \<notin> set (p_space_head S)" "np \<in> pool_used (blksn_pool S)" "bsn_apart S np"
    and sp: "p_space_head S = ls @ rs" "\<forall>l \<in> set ls. bsn_end S l \<le> bsn_idx S np"
      "\<forall>r \<in> set rs. bsn_end S np \<le> bsn_idx S r"
    and nbr: "ls @ rs \<noteq> []" "nbr = (if ls = [] then hd rs else last ls)"
  shows "\<exists>ret left ls' S'.
    dsbmp_place np nbr S = Some (ret, left, (case rs of [] \<Rightarrow> None | r # _ \<Rightarrow> Some r), S') \<and>
    bmp_placed ls' left rs (insert np (set (p_space_head S))) S' \<and>
    (ret = None \<and> np \<in> set (ls' @ [left]) \<and> insert np (set (p_space_head S)) = set (p_space_head S') \<or>
     ret = Some np \<and> p_space_head S' = p_space_head S \<and> bsn S' np = bsn S np) \<and>
    free_blocks S' = free_blocks S \<union> bsn_blocks S np \<and>
    p_num_free_blocks S' = p_num_free_blocks S + bsn_size (bsn S np) \<and>
    blksn_pool S' = blksn_pool S \<and>
    (\<forall>a. a \<notin> insert np (set (p_space_head S)) \<longrightarrow>
       bsn_idx S' a = bsn_idx S a \<and> bsn_size (bsn S' a) = bsn_size (bsn S a))"
proof (cases "ls \<noteq> [] \<and> bsn_end S (last ls) = bsn_idx S np")
  case True
  then have sp': "p_space_head S = butlast ls @ nbr # rs" using sp(1) nbr(2) by simp
  have touch: "bsn_end S nbr = bsn_idx S np" using True nbr(2) by simp
  from dsbmp_place_left[OF mgr core gaps num np(1,3) sp' sp(3) touch] obtain S' where
    S': "dsbmp_place np nbr S = Some (Some np, nbr, (case rs of [] \<Rightarrow> None | r # _ \<Rightarrow> Some r), S')"
    "bmp_placed (butlast ls) nbr rs (insert np (set (p_space_head S))) S'"
    "free_blocks S' = free_blocks S \<union> bsn_blocks S np"
    "p_num_free_blocks S' = p_num_free_blocks S + bsn_size (bsn S np)"
    "blksn_pool S' = blksn_pool S" "\<forall>a. a \<noteq> nbr \<longrightarrow> bsn S' a = bsn S a" by blast
  moreover have "p_space_head S' = p_space_head S" using S'(2) sp' by (simp add: bmp_placed_def)
  moreover have "np \<noteq> nbr" "nbr \<in> set (p_space_head S)" using np(1) sp' by auto
  ultimately show ?thesis by (intro exI[of _ "Some np"] exI[of _ nbr] exI[of _ "butlast ls"] exI[of _ S']) auto
next
  case False
  have lt: "\<forall>l \<in> set ls. bsn_end S l < bsn_idx S np"
  proof
    fix l assume l: "l \<in> set ls"
    then have ne: "ls \<noteq> []" by auto
    show "bsn_end S l < bsn_idx S np"
    proof (cases "l = last ls")
      case True
      then show ?thesis using False ne sp(2) l by fastforce
    next
      case False
      then have "l \<in> set (butlast ls)" using l by (metis append_butlast_last_id ne rotate1.simps(2) set_ConsD set_rotate1)
      moreover have "sorted_wrt (\<lambda>a b. bsn_end S a < bsn_idx S b) (butlast ls @ [last ls])"
        using gaps sp(1) ne by (simp add: bmp_gaps_def sorted_wrt_append)
      ultimately have "bsn_end S l < bsn_idx S (last ls)" by (simp add: sorted_wrt_append)
      also have "\<dots> \<le> bsn_end S (last ls)" by (simp add: bsn_end_def)
      also have "\<dots> \<le> bsn_idx S np" using sp(2) ne by simp
      finally show ?thesis .
    qed
  qed
  from dsbmp_place_new[OF mgr core gaps num np sp(1) lt sp(3)] obtain S0 S' where
    e: "S' = add_free_blocks (bsn_size (bsn S np)) (S0\<lparr>p_space_head := ls @ np # rs\<rparr>)"
    and S0: "dsbmp_link np S = Some S0" "p_space_head S0 = p_space_head S"
    and S': "bmp_placed ls np rs (insert np (set (p_space_head S))) S'"
      "free_blocks S' = free_blocks S \<union> bsn_blocks S np"
      "p_num_free_blocks S' = p_num_free_blocks S + bsn_size (bsn S np)"
      "blksn_pool S' = blksn_pool S"
      "\<forall>a. bsn_idx S' a = bsn_idx S a \<and> bsn_size (bsn S' a) = bsn_size (bsn S a)"
    by (elim exE conjE) (rule that; assumption)
  have dist: "distinct (ls @ rs)" using bmp_core_distinct(1)[OF core] sp(1) by simp
  have nls: "np \<notin> set ls" using np(1) sp(1) by simp
  have "dsbmp_place np nbr S = Some (None, np, (case rs of [] \<Rightarrow> None | r # _ \<Rightarrow> Some r), S')"
  proof (cases "ls = []")
    case True
    then have hd: "nbr = hd rs" "rs \<noteq> []" using nbr by simp_all
    then have "bsn_end S np \<le> bsn_idx S nbr" using sp(3) by simp
    moreover have "0 < bsn_size (bsn S np)" using np(3) by (simp add: bsn_apart_def)
    ultimately have "\<not> bsn_idx S nbr < bsn_idx S np" by (simp add: bsn_end_def)
    with S0 sp(1) True hd list_add_place(2)[OF dist, of np] show ?thesis
      by (cases rs) (auto simp: dsbmp_place_def Let_def e)
  next
    case ne: False
    then have nb: "nbr = last ls" "nbr \<in> set ls" using nbr by simp_all
    then have "bsn_end S nbr < bsn_idx S np" using lt by simp
    then have "bsn_idx S nbr < bsn_idx S np" "bsn_idx S nbr + bsn_size (bsn S nbr) \<noteq> bsn_idx S np"
      by (simp_all add: bsn_end_def)
    with S0 sp(1) nb list_add_place(1)[OF dist nbr(1) ne, of np] list_next_split[OF nls, of rs] show ?thesis
      by (simp add: dsbmp_place_def Let_def e)
  qed
  moreover have "p_space_head S' = ls @ np # rs" using S'(1) by (simp add: bmp_placed_def)
  ultimately show ?thesis using S' sp(1)
    by (intro exI[of _ None] exI[of _ np] exI[of _ ls] exI[of _ S']) auto
qed

theorem dsbmp_put_node_spec:
  assumes mgr: "mgr_inv (insert np (set (p_space_head S))) S" and core: "bmp_core S" and gaps: "bmp_gaps S"
    and num: "p_num_free_blocks S = sum_free S"
    and np: "np \<notin> set (p_space_head S)" "np \<in> pool_used (blksn_pool S)" "bsn_apart S np"
  shows "\<exists>ret S'. dsbmp_put_node np S = Some (ret, S') \<and>
    mgr_inv (set (p_space_head S') \<union> set_option ret) S' \<and> bmp_core S' \<and> bmp_gaps S' \<and>
    p_num_free_blocks S' = sum_free S' \<and> set_option ret \<subseteq> {np} \<and>
    (ret = Some np \<longrightarrow> np \<notin> set (p_space_head S') \<and> np \<in> pool_used (blksn_pool S')) \<and>
    set (p_space_head S') \<subseteq> insert np (set (p_space_head S)) \<and>
    free_blocks S' = free_blocks S \<union> bsn_blocks S np \<and>
    p_num_free_blocks S' = p_num_free_blocks S + bsn_size (bsn S np) \<and>
    pool_used (blksn_pool S') - set (p_space_head S') =
      pool_used (blksn_pool S) - insert np (set (p_space_head S)) \<union> set_option ret \<and>
    (\<forall>a. a \<notin> insert np (set (p_space_head S)) \<longrightarrow>
       bsn_idx S' a = bsn_idx S a \<and> bsn_size (bsn S' a) = bsn_size (bsn S a))"
proof -
  note D = bmp_coreD[OF core]
  let ?A = "p_space_head S"
  have idx: "bsn_idx S np \<le> DS_MAX_BLOCKS" using np(3) by (simp add: bsn_apart_def bsn_end_def)
  from dsbmp_neighbor_spec[OF core idx] obtain sl nbr where
    sl: "rtree_search_around (p_rtree S) (of_nat (bsn_idx S np)) = Some sl"
    "dsbmp_neighbor (brn S) ?A sl = Some nbr"
    and nbr: "case nbr of None \<Rightarrow> ?A = [] | Some b \<Rightarrow> b \<in> set ?A" by blast
  from core np(3) obtain ls rs where sp: "?A = ls @ rs" "\<forall>l \<in> set ls. bsn_end S l \<le> bsn_idx S np"
    "\<forall>r \<in> set rs. bsn_end S np \<le> bsn_idx S r" by (rule bmp_split)
  show ?thesis
  proof (cases nbr)
    case None
    then have A: "?A = []" using nbr by simp
    then have "ls = []" "rs = []" using sp(1) by simp_all
    have "p_space_head S = [] @ []" "\<forall>l \<in> set []. bsn_end S l < bsn_idx S np"
      "\<forall>r \<in> set []. bsn_end S np \<le> bsn_idx S r" using A by simp_all
    from dsbmp_place_new[OF mgr core gaps num np this] obtain S0 S' where
      e: "S' = add_free_blocks (bsn_size (bsn S np)) (S0\<lparr>p_space_head := [] @ [np]\<rparr>)"
      and S0: "dsbmp_link np S = Some S0" "p_space_head S0 = ?A" "bsn_size (bsn S0 np) = bsn_size (bsn S np)"
      and S': "bmp_placed [] np [] (insert np (set ?A)) S'"
        "free_blocks S' = free_blocks S \<union> bsn_blocks S np"
        "p_num_free_blocks S' = p_num_free_blocks S + bsn_size (bsn S np)"
        "blksn_pool S' = blksn_pool S"
        "\<forall>a. bsn_idx S' a = bsn_idx S a \<and> bsn_size (bsn S' a) = bsn_size (bsn S a)"
      by (elim exE conjE) (rule that; assumption)
    have ev: "dsbmp_put_node np S = Some (None, S')"
      using sl None S0 A by (simp add: dsbmp_put_node_def e)
    have "bmp_gaps S'" by (rule bmp_placed_gaps[OF S'(1)]) simp
    moreover have "p_space_head S' = [np]" using S'(1) by (simp add: bmp_placed_def)
    ultimately show ?thesis using ev S' A
      by (intro exI[of _ None] exI[of _ S']) (auto simp: bmp_placed_def)
  next
    case (Some b)
    then have b: "b \<in> set (ls @ rs)" using nbr sp(1) by simp
    then have ne: "ls @ rs \<noteq> []" by auto
    let ?nbr = "if ls = [] then hd rs else last ls"
    have dist: "distinct (ls @ rs)" using bmp_core_distinct(1)[OF core] sp(1) by simp
    have pos: "0 < bsn_size (bsn S np)" using np(3) by (simp add: bsn_apart_def)
    have "bsn_idx S l < bsn_idx S np" if "l \<in> set ls" for l
      using sp(1,2) D(5)[of l] that by (auto simp: bsn_end_def)
    moreover have "bsn_idx S np < bsn_idx S r" if "r \<in> set rs" for r
      using sp(3) pos that by (auto simp: bsn_end_def)
    ultimately have sk: "seek_neighbor (bsn_idx S) (bsn_idx S np) b (ls @ rs) = Some ?nbr"
      using dist b by (intro seek_neighbor_spec) auto
    from dsbmp_place_spec[OF mgr core gaps num np sp ne refl] obtain ret left ls' S1 where
      S1: "dsbmp_place np ?nbr S = Some (ret, left, (case rs of [] \<Rightarrow> None | r # _ \<Rightarrow> Some r), S1)"
      "bmp_placed ls' left rs (insert np (set ?A)) S1"
      "ret = None \<and> np \<in> set (ls' @ [left]) \<and> insert np (set ?A) = set (p_space_head S1) \<or>
       ret = Some np \<and> p_space_head S1 = ?A \<and> bsn S1 np = bsn S np"
      "free_blocks S1 = free_blocks S \<union> bsn_blocks S np"
      "p_num_free_blocks S1 = p_num_free_blocks S + bsn_size (bsn S np)" "blksn_pool S1 = blksn_pool S"
      "\<forall>a. a \<notin> insert np (set ?A) \<longrightarrow> bsn_idx S1 a = bsn_idx S a \<and> bsn_size (bsn S1 a) = bsn_size (bsn S a)"
      by (elim exE conjE) (rule that; assumption)
    have sp1: "p_space_head S1 = ls' @ left # rs" using S1(2) by (simp add: bmp_placed_def)
    from dsbmp_join_right[OF S1(2), of ret] obtain S2 rs' where
      S2: "(case (case rs of [] \<Rightarrow> None | r # _ \<Rightarrow> Some r) of
         None \<Rightarrow> Some (ret, S1)
       | Some r \<Rightarrow>
           if bsn_idx S1 r = bsn_idx S1 left + bsn_size (bsn S1 left)
           then do { S \<leftarrow> dsbmp_merge left r S1; Some (ret, S) }
           else Some (ret, S1)) = Some (ret, S2)"
      "bmp_placed ls' left rs' (insert np (set ?A) - (set rs - set rs')) S2" "set rs' \<subseteq> set rs"
      "bmp_gaps S2" "free_blocks S2 = free_blocks S1" "p_num_free_blocks S2 = p_num_free_blocks S1"
      "pool_used (blksn_pool S2) - set (p_space_head S2) = pool_used (blksn_pool S1) - set (p_space_head S1)"
      "\<forall>a. a \<notin> set (p_space_head S1) \<longrightarrow> bsn S2 a = bsn S1 a"
      by (elim exE conjE) (rule that; assumption)
    have sp2: "p_space_head S2 = ls' @ left # rs'" and core2: "bmp_core S2"
      and num2: "p_num_free_blocks S2 = sum_free S2"
      and mgr2: "mgr_inv (insert np (set ?A) - (set rs - set rs')) S2"
      using S2(2) by (simp_all add: bmp_placed_def)
    have dist1: "distinct (ls' @ left # rs)"
      using S1(2) bmp_core_distinct(1)[of S1] by (simp add: bmp_placed_def)
    have ev: "dsbmp_put_node np S = Some (ret, S2)"
      unfolding dsbmp_put_node_def using sl Some sk sp(1) S1(1) S2(1) by simp
    have sub1: "set (p_space_head S1) \<subseteq> insert np (set ?A)" using S1(3) by auto
    have P: "insert np (set ?A) - (set rs - set rs') = set (p_space_head S2) \<union> set_option ret"
    proof -
      have "insert np (set ?A) = set (p_space_head S1) \<union> set_option ret" using S1(3) by auto
      moreover have "set_option ret \<inter> set (p_space_head S1) = {}" using S1(3) np(1) by auto
      ultimately show ?thesis using S2(3) dist1 unfolding sp1 sp2 by auto
    qed
    have sub2: "set (p_space_head S2) \<subseteq> set (p_space_head S1)" using S2(3) sp1 sp2 by auto
    have rt: "ret = Some np \<Longrightarrow> np \<notin> set (p_space_head S1) \<and> np \<in> pool_used (blksn_pool S1)"
      using S1(3,6) np(1,2) by auto
    have used: "pool_used (blksn_pool S2) - set (p_space_head S2) =
        pool_used (blksn_pool S) - insert np (set ?A) \<union> set_option ret"
      unfolding S2(7) S1(6) using S1(3)
    proof
      assume "ret = None \<and> np \<in> set (ls' @ [left]) \<and> insert np (set ?A) = set (p_space_head S1)"
      then show "pool_used (blksn_pool S) - set (p_space_head S1) =
          pool_used (blksn_pool S) - insert np (set ?A) \<union> set_option ret" by simp
    next
      assume "ret = Some np \<and> p_space_head S1 = ?A \<and> bsn S1 np = bsn S np"
      then show "pool_used (blksn_pool S) - set (p_space_head S1) =
          pool_used (blksn_pool S) - insert np (set ?A) \<union> set_option ret" using np(1,2) by auto
    qed
    have kept: "bsn_idx S2 a = bsn_idx S a \<and> bsn_size (bsn S2 a) = bsn_size (bsn S a)"
      if "a \<notin> insert np (set ?A)" for a
      using that S1(7) S2(8) sub1 by auto
    have rets: "set_option ret \<subseteq> {np}" using S1(3) by auto
    have retu: "ret = Some np \<longrightarrow> np \<notin> set (p_space_head S2) \<and> np \<in> pool_used (blksn_pool S2)"
      using rt sub2 used by auto
    have "set (p_space_head S2) \<subseteq> insert np (set ?A)" using sub1 sub2 by blast
    moreover have "free_blocks S2 = free_blocks S \<union> bsn_blocks S np"
      "p_num_free_blocks S2 = p_num_free_blocks S + bsn_size (bsn S np)"
      using S1(4,5) S2(5,6) by simp_all
    ultimately show ?thesis
      using ev mgr2[unfolded P] core2 S2(4) num2 rets retu used kept by blast
  qed
qed

end
