(* ===== verification/Dsmgr.thy ===== *)
theory Dsmgr
  imports Dsbmp
begin

text \<open>
  The device space manager \<open>cache/dsmgr.c\<close> with the scan of \<open>cache/dsbmp.c\<close> that fills it:
  allocation (\<open>dsmgr_get_space\<close>), release (\<open>dsmgr_put_space\<close>) and initialization. \<open>p_lck\<close> is held
  through each of the two, so each is one state transformer.
\<close>

section \<open>Allocation\<close>

definition dsmgr_space_split :: "node_addr \<Rightarrow> nat \<Rightarrow> ds_state \<Rightarrow> (node_addr \<times> ds_state) option" where
  "dsmgr_space_split old_np new_size S =
     do {
       let old_size = bsn_size (bsn S old_np);
       c_assert (old_size > new_size);
       S \<leftarrow> dsmgr_drop_node old_np S;
       (new_np, S) \<leftarrow> dsbmp_split_node old_np new_size S;
       c_assert (bsn_size (bsn S old_np) = old_size - new_size \<and> bsn_size (bsn S new_np) = new_size);
       S \<leftarrow> dsmgr_add_node old_np S;
       Some (new_np, S)
     }"

text \<open>The loop over the large extents; the result is what is still expected.\<close>

partial_function (option) dsmgr_get_large ::
  "nat \<Rightarrow> nat \<Rightarrow> node_addr list \<Rightarrow> ds_state \<Rightarrow> (nat \<times> node_addr list \<times> ds_state) option" where
  "dsmgr_get_large largest_size expecting out_head S =
     (if expecting > largest_size then
        (case p_large_sp_head S of
           [] \<Rightarrow> Some (expecting, out_head, S)
         | cur_np # _ \<Rightarrow>
             if bsn_size (bsn S cur_np) > expecting then
               Option.bind (dsmgr_space_split cur_np expecting S) (\<lambda>(new_np, S).
                 dsmgr_get_large largest_size 0 (out_head @ [new_np]) S)
             else
               Option.bind (dsmgr_drop_node cur_np S) (\<lambda>S.
               Option.bind (dsbmp_get_node cur_np S) (\<lambda>S.
                 dsmgr_get_large largest_size (expecting - bsn_size (bsn S cur_np)) (out_head @ [cur_np]) S)))
      else Some (expecting, out_head, S))"

declare dsmgr_get_large.simps [code]

text \<open>The size node that a slot of the size tree stands for.\<close>

definition sp_of_slot :: "brn_heap \<Rightarrow> node_addr slot \<Rightarrow> nat option option" where
  "sp_of_slot heap sl =
     (case sl of
        Null \<Rightarrow> Some None
      | Item br_np \<Rightarrow> (case bn_data (heap br_np) of Spn j \<Rightarrow> Some (Some j) | Bsn _ \<Rightarrow> None)
      | Node _ \<Rightarrow> None)"

text \<open>
  The loop over the extents of the size lists. \<open>sn_list.prev\<close> of a size that left the list is
  null; a null \<open>cur_node\<close> ends the loop.
\<close>

partial_function (option) dsmgr_get_small ::
  "nat \<Rightarrow> nat \<Rightarrow> node_addr \<Rightarrow> node_addr list \<Rightarrow> ds_state \<Rightarrow> (nat \<times> node_addr list \<times> ds_state) option" where
  "dsmgr_get_small expecting cur_node cur_np out_head S =
     (if expecting = 0 then Some (0, out_head, S)
      else if bsn_size (bsn S cur_np) > expecting then
        Option.bind (dsmgr_space_split cur_np expecting S) (\<lambda>(new_np, S).
          Some (0, out_head @ [new_np], S))
      else
        Option.bind (dsmgr_drop_node cur_np S) (\<lambda>S.
        Option.bind (dsbmp_get_node cur_np S) (\<lambda>S.
        let out_head = out_head @ [cur_np];
            expecting = expecting - bsn_size (bsn S cur_np) in
        if expecting \<ge> bsn_size (bsn S cur_np) then
          (case p_sp_heads S cur_node of
             cur_np # _ \<Rightarrow> dsmgr_get_small expecting cur_node cur_np out_head S
           | [] \<Rightarrow>
               (case list_back cur_node (p_size_head S) of
                  _ # prev # _ \<Rightarrow>
                    (case p_sp_heads S prev of
                       [] \<Rightarrow> None
                     | cur_np # _ \<Rightarrow> dsmgr_get_small expecting prev cur_np out_head S)
                | _ \<Rightarrow> Some (expecting, out_head, S)))
        else
          Option.bind (rtree_search_around (p_sp_rtree S) (of_nat expecting)) (\<lambda>sl.
          Option.bind (sp_of_slot (brn S) sl) (\<lambda>sp.
          (case sp of
             None \<Rightarrow> Some (expecting, out_head, S)
           | Some j \<Rightarrow>
               Option.bind (seek_up sn_size expecting (list_from j (p_size_head S))) (\<lambda>sp_node.
               (case p_sp_heads S sp_node of
                  [] \<Rightarrow> None
                | cur_np # _ \<Rightarrow> dsmgr_get_small expecting sp_node cur_np out_head S))))))))"

declare dsmgr_get_small.simps [code]

text \<open>The result is the granted size, the extended output list and the new state.\<close>

definition dsmgr_get_space ::
  "nat \<Rightarrow> node_addr list \<Rightarrow> ds_state \<Rightarrow> (nat \<times> node_addr list \<times> ds_state) option" where
  "dsmgr_get_space req out_head S =
     do {
       let largest_size = (case rev (p_size_head S) of [] \<Rightarrow> 0 | j # _ \<Rightarrow> sn_size j);
       (expecting, out_head, S) \<leftarrow> dsmgr_get_large largest_size req out_head S;
       if expecting = 0 then Some (req, out_head, S)
       else
         do {
           sl \<leftarrow> rtree_search_around (p_sp_rtree S) (of_nat (min expecting DSMGR_LARGE_SPACE - 1));
           sp \<leftarrow> sp_of_slot (brn S) sl;
           let sp = (if sp = None then (case p_size_head S of [] \<Rightarrow> None | j # _ \<Rightarrow> Some j) else sp);
           (case sp of
              None \<Rightarrow> Some (req - expecting, out_head, S)
            | Some j \<Rightarrow>
                do {
                  sp_node \<leftarrow> seek_up sn_size expecting (list_from j (p_size_head S));
                  (case p_sp_heads S sp_node of
                     [] \<Rightarrow> Some (req - expecting, out_head, S)
                   | cur_np # _ \<Rightarrow>
                       do {
                         (expecting, out_head, S) \<leftarrow> dsmgr_get_small expecting sp_node cur_np out_head S;
                         Some (req - expecting, out_head, S)
                       })
                })
         }
     }"

section \<open>Release\<close>

definition dsmgr_put_space :: "node_addr \<Rightarrow> ds_state \<Rightarrow> ds_state option" where
  "dsmgr_put_space np S =
     do {
       S \<leftarrow> dsmgr_add_node np S;
       (np2, S) \<leftarrow> dsbmp_put_node np S;
       (case np2 of
          None \<Rightarrow> Some S
        | Some np2 \<Rightarrow>
            do {
              c_assert (np2 = np);
              S \<leftarrow> dsmgr_drop_node np S;
              blksn_put_node np S
            })
     }"

section \<open>Initialization\<close>

definition DSBMP_UNIT_SIZE :: nat where "DSBMP_UNIT_SIZE = 64"

text \<open>The bits of a unit from \<open>bit_pos\<close> on that are off: the new bit position and the count.\<close>

function scan_bits :: "u64 \<Rightarrow> nat \<Rightarrow> nat \<Rightarrow> nat \<times> nat" where
  "scan_bits unit bit_pos seg_count =
     (if bit_pos < DSBMP_UNIT_SIZE \<and> \<not> bit unit bit_pos
      then scan_bits unit (bit_pos + 1) (seg_count + 1) else (bit_pos, seg_count))"
  by pat_completeness auto
termination
  by (relation "measure (\<lambda>(unit, bit_pos, seg_count). DSBMP_UNIT_SIZE - bit_pos)") auto

declare scan_bits.simps [simp del]

text \<open>The loop over whole units; it runs to the end of the bitmap and looks at no unit.\<close>

function scan_units :: "nat \<Rightarrow> nat \<Rightarrow> nat \<Rightarrow> nat \<Rightarrow> nat \<times> nat \<times> nat" where
  "scan_units p_size cur_size bit_pos seg_count =
     (if cur_size < p_size then scan_units p_size (cur_size + 1) 0 (seg_count + DSBMP_UNIT_SIZE)
      else (cur_size, bit_pos, seg_count))"
  by pat_completeness auto
termination
  by (relation "measure (\<lambda>(p_size, cur_size, bit_pos, seg_count). p_size - cur_size)") auto

declare scan_units.simps [simp del]

definition dsbmp_new_segment :: "nat \<Rightarrow> nat \<Rightarrow> ds_state \<Rightarrow> ds_state option" where
  "dsbmp_new_segment new_index_key seg_count S =
     do {
       (np, S) \<leftarrow> blksn_get_node S;
       let S = S\<lparr>bsn := (bsn S)(np := (bsn S np)\<lparr>bsn_index := new_index_key, bsn_size := seg_count\<rparr>),
                 p_space_head := p_space_head S @ [np]\<rparr>;
       S \<leftarrow> dsbmp_link np S;
       dsmgr_add_node np (add_free_blocks seg_count S)
     }"

partial_function (option) bitmap_scan ::
  "u64 list \<Rightarrow> nat \<Rightarrow> nat \<Rightarrow> nat \<Rightarrow> ds_state \<Rightarrow> ds_state option" where
  "bitmap_scan p_bitmap p_size cur_size bit_pos S =
     (if cur_size = p_size then Some S
      else
        Option.bind (c_assert (bit_pos < DSBMP_UNIT_SIZE)) (\<lambda>_.
        let new_index_key = cur_size * DSBMP_UNIT_SIZE + bit_pos in
        Option.bind
          (if bit_pos \<noteq> 0 then
             Option.bind (c_assert (cur_size < length p_bitmap)) (\<lambda>_.
             let (bit_pos, seg_count) = scan_bits (p_bitmap ! cur_size) bit_pos 0 in
             if bit_pos = DSBMP_UNIT_SIZE then Some (cur_size + 1, 0, seg_count)
             else Some (cur_size, bit_pos, seg_count))
           else Some (cur_size, bit_pos, 0)) (\<lambda>(cur_size, bit_pos, seg_count).
        let (cur_size, bit_pos, seg_count) = scan_units p_size cur_size bit_pos seg_count in
        Option.bind
          (if cur_size < p_size then
             Option.bind (c_assert (cur_size < length p_bitmap)) (\<lambda>_.
             let (bit_pos, seg_count) = scan_bits (p_bitmap ! cur_size) bit_pos seg_count in
             Option.bind (c_assert (bit_pos < DSBMP_UNIT_SIZE)) (\<lambda>_. Some (cur_size, bit_pos, seg_count)))
           else Some (cur_size, bit_pos, seg_count)) (\<lambda>(cur_size, bit_pos, seg_count).
        Option.bind (c_assert (seg_count \<noteq> 0)) (\<lambda>_.
        Option.bind (dsbmp_new_segment new_index_key seg_count S) (\<lambda>S.
        bitmap_scan p_bitmap p_size cur_size bit_pos S))))))"

declare bitmap_scan.simps [code]

text \<open>The bridge and block node pools, with the memory behind them, come from the caller.\<close>

definition dsmgr_initialization ::
  "node_pool \<Rightarrow> node_pool \<Rightarrow> brn_heap \<Rightarrow> (node_addr \<Rightarrow> block_size_node) \<Rightarrow> nat \<Rightarrow> u64 list \<Rightarrow>
   ds_state option" where
  "dsmgr_initialization brn_p blksn_p brn_mem bsn_mem p_size bitmap =
     do {
       c_assert (p_size div 64 \<noteq> 0);
       bitmap_scan bitmap (p_size div 64) 0 0
         \<lparr>brn_pool = brn_p, blksn_pool = blksn_p, brn = brn_mem, bsn = bsn_mem,
          p_rtree = rtree_initialization, p_space_head = [], p_num_free_blocks = 0,
          p_sp_rtree = rtree_initialization, p_large_sp_head = [], p_sp_heads = (\<lambda>_. []),
          p_sp_heads_size = (\<lambda>_. 0), sn_slot = (\<lambda>_. None), p_size_head = []\<rparr>
     }"

end
