(* ===== verification/Dsmgr_Correct.thy ===== *)
theory Dsmgr_Correct
  imports Dsmgr
begin

text \<open>
  Correctness of the device space manager. \<open>free_blocks\<close> is the abstraction of a state: the set of
  free blocks. A request is granted disjoint extents of it, a release adds exactly the blocks of the
  extent, and every operation keeps \<open>ds_inv\<close>.
\<close>

section \<open>What a grant is\<close>

text \<open>The block nodes in use that describe no free extent: those the clients hold.\<close>

definition held :: "ds_state \<Rightarrow> node_addr set" where
  "held S = pool_used (blksn_pool S) - set (p_space_head S)"

definition blocks_of :: "ds_state \<Rightarrow> node_addr list \<Rightarrow> nat set" where
  "blocks_of S xs = (\<Union>x \<in> set xs. bsn_blocks S x)"

definition granted :: "ds_state \<Rightarrow> node_addr list \<Rightarrow> ds_state \<Rightarrow> bool" where
  "granted S xs S' \<longleftrightarrow>
     held S' = held S \<union> set xs \<and> set xs \<inter> held S = {} \<and> distinct xs \<and>
     (\<forall>x \<in> held S. bsn S' x = bsn S x) \<and>
     (\<forall>x \<in> set xs. 0 < bsn_size (bsn S' x)) \<and>
     (\<forall>x \<in> set xs. \<forall>y \<in> set xs. x \<noteq> y \<longrightarrow> bsn_blocks S' x \<inter> bsn_blocks S' y = {}) \<and>
     blocks_of S' xs \<subseteq> free_blocks S \<and> free_blocks S' = free_blocks S - blocks_of S' xs"

definition size_of :: "ds_state \<Rightarrow> node_addr list \<Rightarrow> nat" where
  "size_of S xs = sum_list (map (\<lambda>x. bsn_size (bsn S x)) xs)"

lemma granted_Nil: "granted S [] S"
  by (simp add: granted_def blocks_of_def)

lemma bsn_blocks_cong: "bsn S' x = bsn S x \<Longrightarrow> bsn_blocks S' x = bsn_blocks S x"
  by (simp add: bsn_blocks_def bsn_end_def)

lemma granted_append:
  assumes g1: "granted S xs S1" and g2: "granted S1 ys S2"
  shows "granted S (xs @ ys) S2" "size_of S2 (xs @ ys) = size_of S1 xs + size_of S2 ys"
proof -
  have xh: "set xs \<subseteq> held S1" using g1 by (auto simp: granted_def)
  have keep: "bsn S2 x = bsn S1 x" if "x \<in> set xs" for x using g2 xh that by (auto simp: granted_def)
  have bx: "bsn_blocks S2 x = bsn_blocks S1 x" if "x \<in> set xs" for x
    using keep[OF that] by (rule bsn_blocks_cong)
  then have bxs: "blocks_of S2 xs = blocks_of S1 xs" by (simp add: blocks_of_def)
  have app: "blocks_of S2 (xs @ ys) = blocks_of S1 xs \<union> blocks_of S2 ys"
    using bxs by (simp add: blocks_of_def)
  have dj: "blocks_of S1 xs \<inter> blocks_of S2 ys = {}" using g1 g2 by (auto simp: granted_def)
  have cross: "bsn_blocks S2 x \<inter> bsn_blocks S2 y = {}" if "x \<in> set xs" "y \<in> set ys" for x y
    using dj that bx by (auto simp: blocks_of_def)
  show "size_of S2 (xs @ ys) = size_of S1 xs + size_of S2 ys"
    using keep by (simp add: size_of_def cong: map_cong)
  show "granted S (xs @ ys) S2"
    unfolding granted_def app
  proof (intro conjI)
    show "held S2 = held S \<union> set (xs @ ys)" "set (xs @ ys) \<inter> held S = {}" "distinct (xs @ ys)"
      using g1 g2 by (auto simp: granted_def)
    show "\<forall>x \<in> held S. bsn S2 x = bsn S x" using g1 g2 by (auto simp: granted_def)
    show "\<forall>x \<in> set (xs @ ys). 0 < bsn_size (bsn S2 x)" using g1 g2 keep by (auto simp: granted_def)
    show "\<forall>x \<in> set (xs @ ys). \<forall>y \<in> set (xs @ ys). x \<noteq> y \<longrightarrow> bsn_blocks S2 x \<inter> bsn_blocks S2 y = {}"
    proof (intro ballI impI)
      fix x y assume xy: "x \<in> set (xs @ ys)" "y \<in> set (xs @ ys)" "x \<noteq> y"
      have pairs: "\<forall>x \<in> set xs. \<forall>y \<in> set xs. x \<noteq> y \<longrightarrow> bsn_blocks S1 x \<inter> bsn_blocks S1 y = {}"
        "\<forall>x \<in> set ys. \<forall>y \<in> set ys. x \<noteq> y \<longrightarrow> bsn_blocks S2 x \<inter> bsn_blocks S2 y = {}"
        using g1 g2 by (simp_all add: granted_def)
      consider "x \<in> set xs" "y \<in> set xs" | "x \<in> set xs" "y \<in> set ys" | "x \<in> set ys" "y \<in> set xs"
        | "x \<in> set ys" "y \<in> set ys" using xy by auto
      then show "bsn_blocks S2 x \<inter> bsn_blocks S2 y = {}"
        using pairs xy(3) bx cross[of x y] cross[of y x] by cases (simp_all add: Int_commute)
    qed
    show "blocks_of S1 xs \<union> blocks_of S2 ys \<subseteq> free_blocks S"
      "free_blocks S2 = free_blocks S - (blocks_of S1 xs \<union> blocks_of S2 ys)"
      using g1 g2 by (auto simp: granted_def)
  qed
qed

lemma ds_invD:
  assumes "ds_inv S"
  shows "mgr_inv (set (p_space_head S)) S" "bmp_core S" "bmp_gaps S" "p_num_free_blocks S = sum_free S"
  using assms by (simp_all add: ds_inv_def)

lemma bsn_blocks_disjoint:
  assumes core: "bmp_core S" and ab: "a \<in> set (p_space_head S)" "b \<in> set (p_space_head S)" "a \<noteq> b"
  shows "bsn_blocks S a \<inter> bsn_blocks S b = {}"
proof -
  have "bsn_end S a \<le> bsn_idx S b \<or> bsn_end S b \<le> bsn_idx S a"
    by (rule sorted_wrt_cases[OF bmp_coreD(4)[OF core] ab])
  then show ?thesis by (auto simp: bsn_blocks_def)
qed

lemma free_blocks_remove:
  assumes core: "bmp_core S" and np: "np \<in> set (p_space_head S)"
    and S': "p_space_head S' = remove1 np (p_space_head S)"
      "\<And>a. a \<in> set (p_space_head S) \<Longrightarrow> a \<noteq> np \<Longrightarrow> bsn S' a = bsn S a"
  shows "free_blocks S' = free_blocks S - bsn_blocks S np"
proof -
  have set': "set (p_space_head S') = set (p_space_head S) - {np}"
    using bmp_core_distinct(1)[OF core] S'(1) by simp
  have "free_blocks S' = (\<Union>a \<in> set (p_space_head S) - {np}. bsn_blocks S a)"
    unfolding free_blocks_def set' using S'(2) by (auto simp: bsn_blocks_def bsn_end_def)
  also have "\<dots> = free_blocks S - bsn_blocks S np"
    unfolding free_blocks_def using bsn_blocks_disjoint[OF core _ np] np by auto
  finally show ?thesis .
qed

section \<open>Taking and splitting an extent\<close>

lemma dsbmp_unlink_same: "dsbmp_unlink np S = Some S' \<Longrightarrow> mgr_same S S'"
  by (auto simp: dsbmp_unlink_def mgr_same_def bind_eq_Some_conv Let_def)

lemma take_spec:
  assumes inv: "ds_inv S" and np: "np \<in> set (p_space_head S)"
  shows "\<exists>S1 S2. dsmgr_drop_node np S = Some S1 \<and> dsbmp_get_node np S1 = Some S2 \<and> ds_inv S2 \<and>
    granted S [np] S2 \<and> bsn S2 = bsn S \<and> p_space_head S2 = remove1 np (p_space_head S) \<and>
    p_sp_heads S2 = (\<lambda>i. remove1 np (p_sp_heads S i)) \<and>
    p_large_sp_head S2 = remove1 np (p_large_sp_head S)"
proof -
  note I = ds_invD[OF inv]
  note D = bmp_coreD[OF I(2)]
  from drop_core[OF I(1,2) np] obtain S1 where S1: "dsmgr_drop_node np S = Some S1"
    "mgr_inv (set (p_space_head S) - {np}) S1" "bmp_core S1" "mgr_frame S S1"
    "p_sp_heads S1 = (\<lambda>i. remove1 np (p_sp_heads S i))"
    "p_large_sp_head S1 = remove1 np (p_large_sp_head S)" by blast
  note F = mgr_frame_sel[OF S1(4)]
  have np1: "np \<in> set (p_space_head S1)" using np F(3) by simp
  let ?br = "bsn_slot (bsn S1 np)"
  from dsbmp_unlink_spec[OF S1(2,3) np1] obtain S2 where S2: "dsbmp_unlink np S1 = Some S2"
    "mgr_inv (set (p_space_head S) - {np}) S2" "bmp_core S2" "p_space_head S2 = remove1 np (p_space_head S1)"
    "bsn S2 = bsn S1" "p_num_free_blocks S2 = p_num_free_blocks S1" "blksn_pool S2 = blksn_pool S1"
    "brn_others S2 = brn_others S1" by blast
  note same = dsbmp_unlink_same[OF S2(1)]
  have dist: "distinct (p_space_head S)" by (rule bmp_core_distinct(1)[OF I(2)])
  let ?S2 = "S2\<lparr>p_num_free_blocks := p_num_free_blocks S2 - bsn_size (bsn S2 np)\<rparr>"
  have m2: "mgr_inv (set (p_space_head S) - {np}) ?S2" and c2: "bmp_core ?S2"
    using S2(2,3) by (simp_all add: mgr_inv_def bmp_core_def sp_map_upd bmp_map_def bsn_end_def brn_others_def)
  have "?br \<in> brn_others ?S2"
    using bmp_coreD(7)[OF S1(3) np1] S2(8) by (simp add: brn_others_def sp_map_upd)
  moreover have "bsn_slot (bsn ?S2 a) \<noteq> ?br" if "a \<in> set (p_space_head ?S2)" for a
    using bmp_slot_inj[OF S1(3) _ np1, of a] that S2(4,5) dist F(3) by auto
  ultimately obtain p where p: "brn_put_node ?br ?S2 = Some (?S2\<lparr>brn_pool := p\<rparr>)"
    "mgr_inv (set (p_space_head S) - {np}) (?S2\<lparr>brn_pool := p\<rparr>)" "bmp_core (?S2\<lparr>brn_pool := p\<rparr>)"
    using brn_put_spec[OF m2 c2] by blast
  let ?S3 = "?S2\<lparr>brn_pool := p\<rparr>"
  have ev: "dsbmp_get_node np S1 = Some ?S3" using S2(1) p(1) by (simp add: dsbmp_get_node_def Let_def)
  have sp: "p_space_head ?S3 = remove1 np (p_space_head S)" and b: "bsn ?S3 = bsn S"
    using S2(4,5) F by simp_all
  have st: "set (p_space_head ?S3) = set (p_space_head S) - {np}" unfolding sp using dist by simp
  have e: "bsn_end ?S3 = bsn_end S" "bsn_blocks ?S3 = bsn_blocks S"
    using b by (auto simp: bsn_end_def bsn_blocks_def)
  obtain ls rs where lr: "p_space_head S = ls @ np # rs" using split_list[OF np] by blast
  then have sp': "p_space_head ?S3 = ls @ rs" using sp dist by (simp add: remove1_append)
  have "bmp_gaps ?S3"
    using I(3) unfolding bmp_gaps_def e(1) b sp' lr by (auto simp: sorted_wrt_append)
  moreover have "p_num_free_blocks ?S3 = sum_free ?S3"
    using I(4) S2(5,6) F(1,4) unfolding sum_free_def sp' b by (simp add: lr)
  ultimately have inv3: "ds_inv ?S3" using p(2,3) st by (simp add: ds_inv_def)
  have fr: "free_blocks ?S3 = free_blocks S - bsn_blocks S np"
    by (rule free_blocks_remove[OF I(2) np sp]) (simp only: b)
  have pool: "blksn_pool ?S3 = blksn_pool S" using S2(7) F(2) by simp
  have "granted S [np] ?S3"
    unfolding granted_def blocks_of_def fr e(2) b held_def pool st
    using np D(5,9) by (auto simp: free_blocks_def)
  with S1(1,5,6) ev inv3 b sp same show ?thesis by (auto simp: mgr_same_def)
qed

text \<open>A node that is not on the list may change; nothing of the list does.\<close>

lemma bmp_core_fresh_node:
  assumes core: "bmp_core S" and a: "a \<notin> set (p_space_head S)"
    and p: "pool_inv p" "set (p_space_head S) \<subseteq> pool_used p"
  shows "bmp_core (S\<lparr>blksn_pool := p, bsn := (bsn S)(a := x), p_num_free_blocks := n\<rparr>)" (is "bmp_core ?S")
proof -
  note D = bmp_coreD[OF core]
  have b: "bsn ?S c = bsn S c" if "c \<in> set (p_space_head S)" for c using that a by auto
  then have e: "bsn_end ?S c = bsn_end S c" if "c \<in> set (p_space_head S)" for c
    using that by (simp add: bsn_end_def)
  show ?thesis
  proof (rule bmp_coreI)
    have "bmp_map ?S = bmp_map S"
      unfolding bmp_map_def using a by (intro arg_cong[where f = map_of]) auto
    then show "rt_abs (bmp_map ?S) (bn_parents (brn ?S)) (p_rtree ?S)" using D(3) by simp
    have "sorted_wrt (\<lambda>a b. bsn_end ?S a \<le> bsn_idx ?S b) (p_space_head S) \<longleftrightarrow>
        sorted_wrt (\<lambda>a b. bsn_end S a \<le> bsn_idx S b) (p_space_head S)"
      by (rule sorted_wrt_cong) (simp only: e b)
    then show "sorted_wrt (\<lambda>a b. bsn_end ?S a \<le> bsn_idx ?S b) (p_space_head ?S)" using D(4) by simp
    show "0 < bsn_size (bsn ?S c) \<and> bsn_end ?S c \<le> DS_MAX_BLOCKS" if "c \<in> set (p_space_head ?S)" for c
      using that D(5,6)[of c] e[of c] b[of c] by simp
    show "bsn_slot (bsn ?S c) \<in> brn_others ?S \<and> bn_data (brn ?S (bsn_slot (bsn ?S c))) = Bsn c"
      if "c \<in> set (p_space_head ?S)" for c
    proof -
      have o: "brn_others ?S = brn_others S" by (simp add: brn_others_def sp_map_upd)
      have "c \<in> set (p_space_head S)" using that by simp
      then show ?thesis unfolding o using D(7,8)[of c] b[of c] by simp
    qed
  qed (use D(1) p in simp_all)
qed

lemma split_state_spec:
  assumes inv: "ds_inv S" and np: "np \<in> set (p_space_head S)" and n: "0 < n" "n < bsn_size (bsn S np)"
    and a: "a \<notin> pool_used (blksn_pool S)"
    and S': "p_space_head S' = p_space_head S" "pool_used (blksn_pool S') = insert a (pool_used (blksn_pool S))"
      "bsn S' = (bsn S)(np := (bsn S np)\<lparr>bsn_size := bsn_size (bsn S np) - n\<rparr>,
                 a := x\<lparr>bsn_index := bsn_end S np - n, bsn_size := n\<rparr>)"
      "p_num_free_blocks S' = p_num_free_blocks S - n"
  shows "bmp_gaps S'" "p_num_free_blocks S' = sum_free S'" "granted S [a] S'" "size_of S' [a] = n"
proof -
  note I = ds_invD[OF inv]
  note D = bmp_coreD[OF I(2)]
  have dist: "distinct (p_space_head S)" by (rule bmp_core_distinct(1)[OF I(2)])
  have aA: "a \<notin> set (p_space_head S)" using a D(9) by auto
  have anp: "a \<noteq> np" using aA np by auto
  have b: "c \<in> set (p_space_head S) \<Longrightarrow> bsn S' c =
      (if c = np then (bsn S np)\<lparr>bsn_size := bsn_size (bsn S np) - n\<rparr> else bsn S c)" for c
    using aA S'(3) by auto
  have e: "bsn_end S' c = (if c = np then bsn_end S np - n else bsn_end S c)"
    "bsn_idx S' c = bsn_idx S c" if "c \<in> set (p_space_head S)" for c
    using b[OF that] n by (simp_all add: bsn_end_def)
  show "bmp_gaps S'"
    unfolding bmp_gaps_def S'(1)
  proof (rule sorted_wrt_mono_rel[OF _ I(3)[unfolded bmp_gaps_def]])
    fix c d assume "c \<in> set (p_space_head S)" "d \<in> set (p_space_head S)" "bsn_end S c < bsn_idx S d"
    then show "bsn_end S' c < bsn_idx S' d" by (auto simp: e)
  qed
  obtain ls rs where lr: "p_space_head S = ls @ np # rs" using split_list[OF np] by blast
  have m: "map (\<lambda>c. bsn_size (bsn S' c)) ls = map (\<lambda>c. bsn_size (bsn S c)) ls"
    "map (\<lambda>c. bsn_size (bsn S' c)) rs = map (\<lambda>c. bsn_size (bsn S c)) rs"
    using b lr dist by auto
  have snp: "bsn_size (bsn S' np) = bsn_size (bsn S np) - n" using b[OF np] by simp
  have "sum_free S' = sum_free S - n"
    unfolding sum_free_def S'(1) lr using n by (simp only: map_append list.map sum_list_append m snp) simp
  then show "p_num_free_blocks S' = sum_free S'" using I(4) S'(4) by simp
  have sa: "bsn S' a = x\<lparr>bsn_index := bsn_end S np - n, bsn_size := n\<rparr>" using S'(3) by simp
  have ba: "bsn_blocks S' a = {bsn_end S np - n ..< bsn_end S np}"
    using n sa by (auto simp: bsn_blocks_def bsn_end_def)
  have bnp: "bsn_blocks S np = bsn_blocks S' np \<union> bsn_blocks S' a" "bsn_blocks S' np \<inter> bsn_blocks S' a = {}"
    unfolding ba using e[OF np] n by (auto simp: bsn_blocks_def bsn_end_def)
  have bo: "bsn_blocks S' c = bsn_blocks S c" if "c \<in> set (p_space_head S)" "c \<noteq> np" for c
    using b[of c] that by (simp add: bsn_blocks_def bsn_end_def)
  have fr: "free_blocks S' = free_blocks S - bsn_blocks S' a"
  proof -
    have "bsn_blocks S c \<inter> bsn_blocks S' a = {}" if "c \<in> set (p_space_head S)" "c \<noteq> np" for c
      using bsn_blocks_disjoint[OF I(2) that(1) np that(2)] bnp(1) by auto
    moreover have U: "free_blocks S = (\<Union>c \<in> set (p_space_head S) - {np}. bsn_blocks S c) \<union> bsn_blocks S np"
      "free_blocks S' = (\<Union>c \<in> set (p_space_head S) - {np}. bsn_blocks S c) \<union> bsn_blocks S' np"
      using np bo by (auto simp: free_blocks_def S'(1))
    ultimately show ?thesis unfolding U using bnp by auto
  qed
  have h: "held S' = insert a (held S)" "a \<notin> held S"
    using a aA S'(1,2) by (auto simp: held_def)
  show "granted S [a] S'"
    unfolding granted_def blocks_of_def h fr
    using h(2) bnp(1) np n S'(3) by (auto simp: free_blocks_def held_def)
  show "size_of S' [a] = n" using sa by (simp add: size_of_def)
qed

lemma split_spec:
  assumes inv: "ds_inv S" and np: "np \<in> set (p_space_head S)" and n: "0 < n" "n < bsn_size (bsn S np)"
  shows "\<exists>a S'. dsmgr_space_split np n S = Some (a, S') \<and> ds_inv S' \<and> granted S [a] S' \<and> size_of S' [a] = n"
proof -
  note I = ds_invD[OF inv]
  note D = bmp_coreD[OF I(2)]
  let ?P = "set (p_space_head S)" and ?n = "bsn_size (bsn S np)"
  from drop_core[OF I(1,2) np] obtain S1 where S1: "dsmgr_drop_node np S = Some S1"
    "mgr_inv (?P - {np}) S1" "bmp_core S1" "mgr_frame S S1" by blast
  note F = mgr_frame_sel[OF S1(4)]
  obtain ls rs where lr: "p_space_head S1 = ls @ np # rs" using split_list[OF np] F(3) by metis
  have "bsn_idx S1 np + (?n - n) \<le> bsn_end S1 np" using F(1) by (simp add: bsn_end_def)
  moreover have "bsn_end S1 np \<le> DS_MAX_BLOCKS" "\<forall>r \<in> set rs. bsn_end S1 np \<le> bsn_idx S1 r"
    using bmp_coreD(4,6)[OF S1(3)] lr by (auto simp: sorted_wrt_append)
  ultimately have c2: "bmp_core (bsn_set_size np (?n - n) S1)"
    using n by (intro bmp_core_set_size[OF S1(3) lr]) auto
  have m2: "mgr_inv (?P - {np}) (bsn_set_size np (?n - n) S1)"
    by (rule mgr_inv_set_size_out[OF S1(2)]) simp
  from np.getE[OF D(2)] obtain a p where p: "node_get_node (blksn_pool S) = Some (a, p)" "pool_inv p"
    "a \<notin> pool_used (blksn_pool S)" "pool_used p = insert a (pool_used (blksn_pool S))" by blast
  have aA: "a \<notin> ?P" using p(3) D(9) by auto
  have anp: "a \<noteq> np" using aA np by auto
  let ?x = "(bsn S a)\<lparr>bsn_index := bsn_end S np - n, bsn_size := n\<rparr>"
  let ?S2 = "bsn_set_size np (?n - n) S1"
  let ?S3 = "?S2\<lparr>blksn_pool := p, bsn := (bsn ?S2)(a := ?x), p_num_free_blocks := p_num_free_blocks S - n\<rparr>"
  have ev: "dsbmp_split_node np n S1 = Some (a, ?S3)"
    using p(1) F anp n by (simp add: dsbmp_split_node_def blksn_get_node_def Let_def bsn_end_def)
  have c3: "bmp_core ?S3"
    using aA F(3) p(2,4) D(9) by (intro bmp_core_fresh_node[OF c2]) auto
  have m3: "mgr_inv (?P - {np}) ?S3"
    using aA mgr_invD(1,3)[OF m2] by (intro mgr_inv_same[OF m2]) (auto simp: mgr_same_def)
  have "np \<notin> ?P - {np}" "0 < bsn_size (bsn ?S3 np)" using n anp by simp_all
  from add_core[OF m3 c3 this] obtain S4 where S4: "dsmgr_add_node np ?S3 = Some S4"
    "mgr_inv (insert np (?P - {np})) S4" "bmp_core S4" "mgr_frame ?S3 S4" by blast
  note F4 = mgr_frame_sel[OF S4(4)]
  have sp4: "p_space_head S4 = p_space_head S" using F4(3) F(3) by simp
  have b4: "bsn S4 = (bsn S)(np := (bsn S np)\<lparr>bsn_size := ?n - n\<rparr>, a := ?x)" using F4(1) F(1) by simp
  have "pool_used (blksn_pool S4) = insert a (pool_used (blksn_pool S))"
    "p_num_free_blocks S4 = p_num_free_blocks S - n" using F4(2,4) p(4) by simp_all
  note st = split_state_spec[OF inv np n p(3) sp4 this(1) b4 this(2)]
  have "mgr_inv (set (p_space_head S4)) S4" using S4(2) sp4 np by (simp add: insert_absorb)
  then have "ds_inv S4" using S4(3) st(1,2) by (simp add: ds_inv_def)
  moreover have "dsmgr_space_split np n S = Some (a, S4)"
    using S1(1) ev S4(1) n anp F(1) by (simp add: dsmgr_space_split_def Let_def)
  ultimately show ?thesis using st(3,4) by blast
qed

section \<open>The two loops of an allocation\<close>

lemma in_sp_heads:
  assumes "ds_inv S" and "x \<in> set (p_sp_heads S i)"
  shows "x \<in> set (p_space_head S)" "bsn_size (bsn S x) = Suc i" "i < DSMGR_LARGE_SPACE"
  using assms mgr_invD(6)[OF ds_invD(1)[OF assms(1)]] by auto

lemma size_list_eq:
  assumes "ds_inv S" "ds_inv S'" "p_sp_heads S' = p_sp_heads S"
  shows "p_size_head S' = p_size_head S"
proof -
  note D = mgr_invD[OF ds_invD(1)[OF assms(1)]] and D' = mgr_invD[OF ds_invD(1)[OF assms(2)]]
  have "set (p_size_head S') = set (p_size_head S)" using D(11) D'(11) assms(3) by simp
  then show ?thesis using D(10) D'(10) by (simp add: strict_sorted_equal)
qed

lemma take_large:
  assumes inv: "ds_inv S" and np: "np \<in> set (p_large_sp_head S)"
  obtains S1 S2 where "dsmgr_drop_node np S = Some S1" "dsbmp_get_node np S1 = Some S2" "ds_inv S2"
    "granted S [np] S2" "bsn S2 = bsn S" "p_sp_heads S2 = p_sp_heads S" "p_size_head S2 = p_size_head S"
    "p_large_sp_head S2 = remove1 np (p_large_sp_head S)"
proof -
  note D = mgr_invD[OF ds_invD(1)[OF inv]]
  have np': "np \<in> set (p_space_head S)" "DSMGR_LARGE_SPACE < bsn_size (bsn S np)" using np D(8) by auto
  from take_spec[OF inv np'(1)] obtain S1 S2 where t: "dsmgr_drop_node np S = Some S1"
    "dsbmp_get_node np S1 = Some S2" "ds_inv S2" "granted S [np] S2" "bsn S2 = bsn S"
    "p_sp_heads S2 = (\<lambda>i. remove1 np (p_sp_heads S i))"
    "p_large_sp_head S2 = remove1 np (p_large_sp_head S)" by blast
  have "remove1 np (p_sp_heads S i) = p_sp_heads S i" for i
    using np'(2) D(6)[of i] by (intro remove1_idem) auto
  then have h: "p_sp_heads S2 = p_sp_heads S" using t(6) by simp
  from that[OF t(1-5) h size_list_eq[OF inv t(3) h] t(7)] show ?thesis .
qed

lemma get_large_spec:
  assumes "ds_inv S"
  shows "\<exists>e xs S'. dsmgr_get_large lg n out S = Some (e, out @ xs, S') \<and> ds_inv S' \<and> granted S xs S' \<and>
    e + size_of S' xs = n \<and> (lg < e \<longrightarrow> p_large_sp_head S' = []) \<and>
    (0 < e \<longrightarrow> p_sp_heads S' = p_sp_heads S \<and> p_size_head S' = p_size_head S \<and>
       set (p_large_sp_head S) \<subseteq> set xs \<union> set (p_large_sp_head S') \<and> (\<forall>x \<in> set xs. bsn S' x = bsn S x))"
  using assms
proof (induction n arbitrary: S out rule: less_induct)
  case (less n)
  note D = mgr_invD[OF ds_invD(1)[OF less.prems]]
  have nil: "granted S [] S" "size_of S [] = 0" by (simp_all add: granted_Nil size_of_def)
  show ?case
  proof (cases "lg < n \<and> p_large_sp_head S \<noteq> []")
    case False
    then have "dsmgr_get_large lg n out S = Some (n, out, S)"
      by (subst dsmgr_get_large.simps) (auto split: list.split)
    with False nil less.prems show ?thesis
      by (intro exI[of _ n] exI[of _ "[]"] exI[of _ S]) auto
  next
    case True
    then obtain np rest where lge: "p_large_sp_head S = np # rest" and lg: "lg < n" by (cases "p_large_sp_head S") auto
    then have np: "np \<in> set (p_large_sp_head S)" by simp
    then have np': "np \<in> set (p_space_head S)" "0 < bsn_size (bsn S np)" using D(8) by auto
    show ?thesis
    proof (cases "n < bsn_size (bsn S np)")
      case True
      have "0 < n" using lg by simp
      from split_spec[OF less.prems np'(1) this True] obtain a S' where
        S': "dsmgr_space_split np n S = Some (a, S')" "ds_inv S'" "granted S [a] S'" "size_of S' [a] = n" by blast
      have z: "dsmgr_get_large lg 0 (out @ [a]) S' = Some (0, out @ [a], S')"
        by (subst dsmgr_get_large.simps) simp
      have "dsmgr_get_large lg n out S = Some (0, out @ [a], S')"
        using lg lge True S'(1) z by (subst dsmgr_get_large.simps) simp
      with S' show ?thesis by (intro exI[of _ 0] exI[of _ "[a]"] exI[of _ S']) auto
    next
      case False
      from less.prems np obtain S1 S2 where t: "dsmgr_drop_node np S = Some S1" "dsbmp_get_node np S1 = Some S2"
        "ds_inv S2" "granted S [np] S2" "bsn S2 = bsn S" "p_sp_heads S2 = p_sp_heads S"
        "p_size_head S2 = p_size_head S" "p_large_sp_head S2 = remove1 np (p_large_sp_head S)"
        by (rule take_large)
      let ?n = "n - bsn_size (bsn S np)"
      have "?n < n" using lg np'(2) by simp
      from less.IH[OF this t(3), of "out @ [np]"] obtain e xs S' where
        S': "dsmgr_get_large lg ?n (out @ [np]) S2 = Some (e, (out @ [np]) @ xs, S')" "ds_inv S'"
        "granted S2 xs S'" "e + size_of S' xs = ?n" "lg < e \<longrightarrow> p_large_sp_head S' = []"
        "0 < e \<longrightarrow> p_sp_heads S' = p_sp_heads S2 \<and> p_size_head S' = p_size_head S2 \<and>
          set (p_large_sp_head S2) \<subseteq> set xs \<union> set (p_large_sp_head S') \<and> (\<forall>x \<in> set xs. bsn S' x = bsn S2 x)"
        by (elim exE conjE) (rule that; assumption)
      note ga = granted_append[OF t(4) S'(3)]
      have "np \<in> held S2" using t(4) by (auto simp: granted_def)
      then have bnp: "bsn S' np = bsn S np" using S'(3) t(5) by (auto simp: granted_def)
      have "dsmgr_get_large lg n out S = Some (e, out @ [np] @ xs, S')"
        using lg lge False t(1,2,5) S'(1) by (subst dsmgr_get_large.simps) simp
      moreover have "e + size_of S' ([np] @ xs) = n"
        using S'(4) ga(2) t(5) False by (simp add: size_of_def)
      moreover have "set (p_large_sp_head S) \<subseteq> insert np (set (p_large_sp_head S2))"
        using t(8) D(7) by auto
      ultimately show ?thesis
        using S'(2,5,6) ga(1) t(5-8) bnp by (intro exI[of _ e] exI[of _ "[np] @ xs"] exI[of _ S']) auto
    qed
  qed
qed

lemma size_search:
  assumes inv: "ds_inv S"
  shows "\<exists>sl sp. rtree_search_around (p_sp_rtree S) key = Some sl \<and> sp_of_slot (brn S) sl = Some sp \<and>
    (\<forall>j. sp = Some j \<longrightarrow> j \<in> set (p_size_head S))"
proof -
  note D = mgr_invD[OF ds_invD(1)[OF inv]]
  from rt_abs_search_around[OF D(2), of key] obtain sl where
    sl: "rtree_search_around (p_sp_rtree S) key = Some sl" "rt_around (sp_map S) (unat key) sl" by blast
  show ?thesis
  proof (cases sl)
    case Null
    then show ?thesis using sl(1) by (simp add: sp_of_slot_def)
  next
    case (Item br)
    then obtain j where j: "sp_map S j = Some br" using sl(2) by (auto simp: rt_around_def)
    then have jj: "j < DSMGR_LARGE_SPACE" "p_sp_heads S j \<noteq> []" "sn_slot S j = Some br"
      by (auto simp: sp_map_def split: if_splits)
    then have "bn_data (brn S br) = Spn j" using D(4)[of j] by auto
    then show ?thesis using sl(1) Item jj D(11) by (auto simp: sp_of_slot_def)
  qed (use sl(2) in \<open>simp add: rt_around_def\<close>)
qed

text \<open>Moving up the sorted list of sizes ends at a size in use; it is large enough if any is.\<close>

lemma size_seek:
  assumes inv: "ds_inv S" and j: "j \<in> set (p_size_head S)"
  obtains i np rest where "seek_up sn_size n (list_from j (p_size_head S)) = Some i"
    "p_sp_heads S i = np # rest" "np \<in> set (p_sp_heads S i)"
    "\<And>k. k \<in> set (p_size_head S) \<Longrightarrow> n \<le> Suc k \<Longrightarrow> n \<le> Suc i"
proof -
  note D = mgr_invD[OF ds_invD(1)[OF inv]]
  obtain l1 l2 where sp: "p_size_head S = l1 @ j # l2" using split_list[OF j] by blast
  have "distinct (p_size_head S)" using D(10) by (simp add: strict_sorted_iff)
  then have fr: "list_from j (p_size_head S) = j # l2" using sp by (simp add: list_from_split)
  have "sorted_wrt (<) (j # l2)" using D(10) sp by (simp add: sorted_wrt_append)
  then have "sorted_wrt (\<lambda>a b. sn_size a < sn_size b) (j # l2)" by (simp add: sn_size_def)
  from seek_up_spec[OF this, of n] obtain i where i: "i \<in> set (j # l2)"
    "seek_up sn_size n (j # l2) = Some i" "sn_size i < n \<longrightarrow> i = last (j # l2)" by blast
  have iS: "i \<in> set (p_size_head S)" using i(1) sp by auto
  then obtain np rest where np: "p_sp_heads S i = np # rest" using D(11) by (cases "p_sp_heads S i") auto
  have "n \<le> Suc i" if k: "k \<in> set (p_size_head S)" "n \<le> Suc k" for k
  proof (rule ccontr)
    assume no: "\<not> n \<le> Suc i"
    then have il: "i = last (p_size_head S)" using i(3) sp by (auto simp: sn_size_def)
    have "k \<le> last (p_size_head S)"
    proof -
      have ne: "p_size_head S \<noteq> []" using k(1) by auto
      then have dec: "p_size_head S = butlast (p_size_head S) @ [last (p_size_head S)]" by simp
      then have "sorted_wrt (<) (butlast (p_size_head S) @ [last (p_size_head S)])" using D(10) by simp
      moreover have "k \<in> set (butlast (p_size_head S)) \<or> k = last (p_size_head S)"
        using k(1) dec by (metis Un_iff empty_iff empty_set set_ConsD set_append)
      ultimately show ?thesis by (auto simp: sorted_wrt_append)
    qed
    then show False using no k(2) il by simp
  qed
  with that[of i np rest] i(2) fr np show ?thesis by simp
qed

lemma get_small_spec:
  assumes "ds_inv S" and "np \<in> set (p_sp_heads S i)"
  shows "\<exists>e xs S'. dsmgr_get_small n i np out S = Some (e, out @ xs, S') \<and> ds_inv S' \<and> granted S xs S' \<and>
    e + size_of S' xs = n \<and> (0 < n \<longrightarrow> e < n) \<and> (n \<le> Suc i \<longrightarrow> e = 0)"
  using assms
proof (induction n arbitrary: S out i np rule: less_induct)
  case (less n)
  note inv = less.prems(1)
  note np = in_sp_heads[OF less.prems]
  have nil: "granted S [] S" "size_of S [] = 0" for S by (simp_all add: granted_Nil size_of_def)
  show ?case
  proof (cases "n = 0")
    case True
    then have "dsmgr_get_small n i np out S = Some (0, out, S)" by (subst dsmgr_get_small.simps) simp
    with True nil inv show ?thesis by (intro exI[of _ 0] exI[of _ "[]"] exI[of _ S]) auto
  next
    case n0: False
    show ?thesis
    proof (cases "n < Suc i")
      case True
      then have "0 < n" "n < bsn_size (bsn S np)" using n0 np(2) by simp_all
      from split_spec[OF inv np(1) this] obtain a S' where
        S': "dsmgr_space_split np n S = Some (a, S')" "ds_inv S'" "granted S [a] S'" "size_of S' [a] = n" by blast
      have "dsmgr_get_small n i np out S = Some (0, out @ [a], S')"
        using n0 True np(2) S'(1) by (subst dsmgr_get_small.simps) simp
      with S' n0 show ?thesis by (intro exI[of _ 0] exI[of _ "[a]"] exI[of _ S']) auto
    next
      case big: False
      from take_spec[OF inv np(1)] obtain S1 S2 where t: "dsmgr_drop_node np S = Some S1"
        "dsbmp_get_node np S1 = Some S2" "ds_inv S2" "granted S [np] S2" "bsn S2 = bsn S"
        "p_sp_heads S2 = (\<lambda>i. remove1 np (p_sp_heads S i))" by blast
      note D2 = mgr_invD[OF ds_invD(1)[OF t(3)]]
      let ?n = "n - Suc i"
      have sz: "bsn_size (bsn S2 np) = Suc i" using np(2) t(5) by simp
      have lt: "?n < n" using n0 by simp
      have one: "size_of S2 [np] = Suc i" using sz by (simp add: size_of_def)
      have stop: ?thesis if "dsmgr_get_small n i np out S = Some (?n, out @ [np], S2)"
        using that t(3,4) one big lt by (intro exI[of _ ?n] exI[of _ "[np]"] exI[of _ S2]) auto
      have continue: ?thesis
        if ev: "dsmgr_get_small n i np out S = dsmgr_get_small ?n i' np' (out @ [np]) S2"
          and np': "np' \<in> set (p_sp_heads S2 i')" for i' np'
      proof -
        from less.IH[OF lt t(3) np', of "out @ [np]"] obtain e xs S' where
          S': "dsmgr_get_small ?n i' np' (out @ [np]) S2 = Some (e, (out @ [np]) @ xs, S')" "ds_inv S'"
          "granted S2 xs S'" "e + size_of S' xs = ?n" by blast
        note ga = granted_append[OF t(4) S'(3)]
        have "e + size_of S' ([np] @ xs) = n" using S'(4) ga(2) one big by simp
        moreover have "e \<le> ?n" using S'(4) by simp
        ultimately show ?thesis using ev S'(1,2) ga(1) lt big
          by (intro exI[of _ e] exI[of _ "[np] @ xs"] exI[of _ S']) auto
      qed
      show ?thesis
      proof (cases "Suc i \<le> ?n")
        case True
        show ?thesis
        proof (cases "p_sp_heads S2 i")
          case (Cons np' rest)
          show ?thesis
            by (rule continue[of i np'])
              (use n0 big np(2) t(1,2) sz True Cons in \<open>subst dsmgr_get_small.simps, simp_all\<close>)
        next
          case Nil
          then have "i \<notin> set (p_size_head S2)" using D2(11) by simp
          then have "list_back i (p_size_head S2) = []" by (simp add: list_back_def dropWhile_eq_Nil_conv) blast
          then show ?thesis
            by (intro stop) (use n0 big np(2) t(1,2) sz True Nil in \<open>subst dsmgr_get_small.simps, simp\<close>)
        qed
      next
        case False
        from size_search[OF t(3), of "of_nat ?n"] obtain sl sp where
          sl: "rtree_search_around (p_sp_rtree S2) (of_nat ?n) = Some sl" "sp_of_slot (brn S2) sl = Some sp"
          "\<And>j. sp = Some j \<Longrightarrow> j \<in> set (p_size_head S2)" by blast
        show ?thesis
        proof (cases sp)
          case None
          then show ?thesis
            by (intro stop) (use n0 big np(2) t(1,2) sz False sl(1,2) in \<open>subst dsmgr_get_small.simps, simp\<close>)
        next
          case (Some j)
          from t(3) sl(3)[OF Some] obtain i' np' rest where
            k: "seek_up sn_size ?n (list_from j (p_size_head S2)) = Some i'"
            "p_sp_heads S2 i' = np' # rest" "np' \<in> set (p_sp_heads S2 i')"
            by (rule size_seek)
          show ?thesis
            by (rule continue[OF _ k(3)])
              (use n0 big np(2) t(1,2) sz False sl(1,2) Some k in \<open>subst dsmgr_get_small.simps, simp\<close>)
        qed
      qed
    qed
  qed
qed

section \<open>Allocation\<close>

lemma size_of_ge: "x \<in> set xs \<Longrightarrow> bsn_size (bsn S x) \<le> size_of S xs"
  by (simp add: size_of_def member_le_sum_list)

text \<open>The second half of \<open>dsmgr_get_space\<close>, when the large extents have left something to find.\<close>

lemma get_space_small:
  assumes inv: "ds_inv S" and ne: "p_size_head S \<noteq> []"
    and sl: "rtree_search_around (p_sp_rtree S) key = Some sl" "sp_of_slot (brn S) sl = Some sp"
      "\<forall>j. sp = Some j \<longrightarrow> j \<in> set (p_size_head S)"
  shows "\<exists>j i np rest e xs S'.
    (if sp = None then (case p_size_head S of [] \<Rightarrow> None | j # _ \<Rightarrow> Some j) else sp) = Some j \<and>
    seek_up sn_size n (list_from j (p_size_head S)) = Some i \<and> p_sp_heads S i = np # rest \<and>
    dsmgr_get_small n i np out S = Some (e, out @ xs, S') \<and> ds_inv S' \<and> granted S xs S' \<and>
    e + size_of S' xs = n \<and> (0 < n \<longrightarrow> e < n) \<and> ((\<exists>k \<in> set (p_size_head S). n \<le> Suc k) \<longrightarrow> e = 0)"
proof -
  obtain j where j: "(if sp = None then (case p_size_head S of [] \<Rightarrow> None | j # _ \<Rightarrow> Some j) else sp) = Some j"
    "j \<in> set (p_size_head S)"
    using ne sl(3) by (cases sp; cases "p_size_head S") auto
  from inv j(2) obtain i np rest where k: "seek_up sn_size n (list_from j (p_size_head S)) = Some i"
    "p_sp_heads S i = np # rest" "np \<in> set (p_sp_heads S i)"
    "\<And>k. k \<in> set (p_size_head S) \<Longrightarrow> n \<le> Suc k \<Longrightarrow> n \<le> Suc i" by (rule size_seek) blast
  from get_small_spec[OF inv k(3), of n out] obtain e xs S' where
    S': "dsmgr_get_small n i np out S = Some (e, out @ xs, S')" "ds_inv S'" "granted S xs S'"
    "e + size_of S' xs = n" "0 < n \<longrightarrow> e < n" "n \<le> Suc i \<longrightarrow> e = 0" by blast
  have "(\<exists>k \<in> set (p_size_head S). n \<le> Suc k) \<longrightarrow> e = 0" using k(4) S'(6) by blast
  with j(1) k(1,2) S'(1-5) show ?thesis
    by (intro exI[of _ j] exI[of _ i] exI[of _ np] exI[of _ rest] exI[of _ e] exI[of _ xs] exI[of _ S']) simp
qed

lemma dsmgr_get_space_spec:
  assumes inv: "ds_inv S"
  shows "\<exists>g xs S'. dsmgr_get_space n out S = Some (g, out @ xs, S') \<and> ds_inv S' \<and> granted S xs S' \<and>
    size_of S' xs = g \<and> g \<le> n \<and>
    ((\<exists>a \<in> set (p_space_head S). n \<le> bsn_size (bsn S a)) \<longrightarrow> g = n) \<and>
    (0 < n \<and> p_space_head S \<noteq> [] \<longrightarrow> 0 < g)"
proof -
  note D = mgr_invD[OF ds_invD(1)[OF inv]]
  define lg where "lg = (case rev (p_size_head S) of [] \<Rightarrow> 0 | j # _ \<Rightarrow> sn_size j)"
  from get_large_spec[OF inv, of lg n out] obtain e1 xs1 S1 where
    S1: "dsmgr_get_large lg n out S = Some (e1, out @ xs1, S1)" "ds_inv S1" "granted S xs1 S1"
    "e1 + size_of S1 xs1 = n" "lg < e1 \<longrightarrow> p_large_sp_head S1 = []"
    "0 < e1 \<longrightarrow> p_sp_heads S1 = p_sp_heads S \<and> p_size_head S1 = p_size_head S \<and>
       set (p_large_sp_head S) \<subseteq> set xs1 \<union> set (p_large_sp_head S1) \<and> (\<forall>x \<in> set xs1. bsn S1 x = bsn S x)"
    by (elim exE conjE) (rule that; assumption)
  have unf: "dsmgr_get_space n out S = Option.bind (dsmgr_get_large lg n out S) (\<lambda>(expecting, out_head, S).
       if expecting = 0 then Some (n, out_head, S)
       else
         do {
           sl \<leftarrow> rtree_search_around (p_sp_rtree S) (of_nat (min expecting DSMGR_LARGE_SPACE - 1));
           sp \<leftarrow> sp_of_slot (brn S) sl;
           let sp = (if sp = None then (case p_size_head S of [] \<Rightarrow> None | j # _ \<Rightarrow> Some j) else sp);
           (case sp of
              None \<Rightarrow> Some (n - expecting, out_head, S)
            | Some j \<Rightarrow>
                do {
                  sp_node \<leftarrow> seek_up sn_size expecting (list_from j (p_size_head S));
                  (case p_sp_heads S sp_node of
                     [] \<Rightarrow> Some (n - expecting, out_head, S)
                   | cur_np # _ \<Rightarrow>
                       do {
                         (expecting, out_head, S) \<leftarrow> dsmgr_get_small expecting sp_node cur_np out_head S;
                         Some (n - expecting, out_head, S)
                       })
                })
         })"
    by (simp only: dsmgr_get_space_def Let_def lg_def)
  show ?thesis
  proof (cases "e1 = 0")
    case True
    then show ?thesis using S1 unf by (intro exI[of _ n] exI[of _ xs1] exI[of _ S1]) simp
  next
    case e1: False
    then have same: "p_sp_heads S1 = p_sp_heads S" "p_size_head S1 = p_size_head S"
      "set (p_large_sp_head S) \<subseteq> set xs1 \<union> set (p_large_sp_head S1)" "\<forall>x \<in> set xs1. bsn S1 x = bsn S x"
      using S1(6) by simp_all
    have lgs: "p_size_head S = [] \<and> lg = 0 \<or> (\<exists>k \<in> set (p_size_head S). lg = Suc k)"
      unfolding lg_def by (cases "p_size_head S" rule: rev_cases) (auto simp: sn_size_def)
    from size_search[OF S1(2)] obtain sl sp where
      sl: "rtree_search_around (p_sp_rtree S1) (of_nat (min e1 DSMGR_LARGE_SPACE - 1)) = Some sl"
      "sp_of_slot (brn S1) sl = Some sp" "\<forall>j. sp = Some j \<longrightarrow> j \<in> set (p_size_head S1)" by blast
    have cover: "\<exists>k \<in> set (p_size_head S). e1 \<le> Suc k"
      if a: "a \<in> set (p_space_head S)" "n \<le> bsn_size (bsn S a)" for a
      using inv[THEN ds_invD(1)] a(1)
    proof (cases rule: mgr_size_cases)
      case (small k)
      have "p_sp_heads S k \<noteq> []" using small(3) by (cases "p_sp_heads S k") simp_all
      then have "k \<in> set (p_size_head S)" using small(2) by (simp add: D(11))
      moreover have "e1 \<le> n" using S1(4) by simp
      ultimately show ?thesis using small(1) a(2) by (intro bexI[of _ k]) linarith+
    next
      case large
      then have "a \<in> set (p_large_sp_head S)" using a(1) D(8) by simp
      moreover have "a \<notin> set xs1"
      proof
        assume "a \<in> set xs1"
        then have "n \<le> size_of S1 xs1" using size_of_ge[of a xs1 S1] same(4) a(2) by simp
        then show False using S1(4) e1 by simp
      qed
      ultimately have "p_large_sp_head S1 \<noteq> []" using same(3) by auto
      then have "e1 \<le> lg" using S1(5) by (meson not_le)
      then show ?thesis using lgs e1 by auto
    qed
    show ?thesis
    proof (cases "p_size_head S = []")
      case True
      then have "sp = None" using sl(3) same(2) by (cases sp) auto
      then have ev: "dsmgr_get_space n out S = Some (n - e1, out @ xs1, S1)"
        using unf S1(1) e1 sl(1,2) same(2) True by simp
      have "p_large_sp_head S1 = []" using True lgs e1 S1(5) by simp
      then have all: "set (p_large_sp_head S) \<subseteq> set xs1" using same(3) by simp
      have "0 < n - e1" if A: "p_space_head S \<noteq> []"
      proof -
        obtain a where a: "a \<in> set (p_space_head S)" using A by (cases "p_space_head S") auto
        have "DSMGR_LARGE_SPACE < bsn_size (bsn S a)"
          using inv[THEN ds_invD(1)] a
        proof (cases rule: mgr_size_cases)
          case (small i)
          then show ?thesis using True D(11) by auto
        qed
        then have "a \<in> set xs1" using a D(8) all by auto
        then have "0 < size_of S1 xs1"
          using size_of_ge[of a xs1 S1] S1(3) by (auto simp: granted_def intro: less_le_trans)
        then show ?thesis using S1(4) by simp
      qed
      with ev S1(2-4) cover True show ?thesis
        by (intro exI[of _ "n - e1"] exI[of _ xs1] exI[of _ S1]) auto
    next
      case False
      then have ne: "p_size_head S1 \<noteq> []" using same(2) by simp
      from get_space_small[OF S1(2) ne sl, of e1 "out @ xs1"] obtain j i np rest e2 xs2 S2 where
        S2: "(if sp = None then (case p_size_head S1 of [] \<Rightarrow> None | j # _ \<Rightarrow> Some j) else sp) = Some j"
        "seek_up sn_size e1 (list_from j (p_size_head S1)) = Some i" "p_sp_heads S1 i = np # rest"
        "dsmgr_get_small e1 i np (out @ xs1) S1 = Some (e2, (out @ xs1) @ xs2, S2)" "ds_inv S2" "granted S1 xs2 S2"
        "e2 + size_of S2 xs2 = e1" "0 < e1 \<longrightarrow> e2 < e1"
        "(\<exists>k \<in> set (p_size_head S1). e1 \<le> Suc k) \<longrightarrow> e2 = 0"
        by (elim exE conjE) (rule that; assumption)
      note ga = granted_append[OF S1(3) S2(6)]
      have ev: "dsmgr_get_space n out S = Some (n - e2, out @ xs1 @ xs2, S2)"
        unfolding unf using S1(1) e1 sl(1,2) S2(1-4) by (simp add: Let_def)
      have "size_of S2 (xs1 @ xs2) = n - e2" using ga(2) S2(7) S1(4) by simp
      moreover have "0 < n - e2" using S2(8) e1 S1(4) by simp
      moreover have "(\<exists>a \<in> set (p_space_head S). n \<le> bsn_size (bsn S a)) \<longrightarrow> n - e2 = n"
        using cover S2(9) same(2) by auto
      ultimately show ?thesis
        using ev S2(5) ga(1) by (intro exI[of _ "n - e2"] exI[of _ "xs1 @ xs2"] exI[of _ S2]) simp
    qed
  qed
qed

section \<open>Release\<close>

definition can_put :: "ds_state \<Rightarrow> node_addr \<Rightarrow> bool" where
  "can_put S np \<longleftrightarrow> np \<in> held S \<and> 0 < bsn_size (bsn S np) \<and> bsn_end S np \<le> DS_MAX_BLOCKS \<and>
     bsn_blocks S np \<inter> free_blocks S = {}"

lemma can_put_apart:
  assumes core: "bmp_core S" and np: "can_put S np"
  shows "bsn_apart S np"
  unfolding bsn_apart_def
proof (intro conjI ballI)
  show "0 < bsn_size (bsn S np)" "bsn_end S np \<le> DS_MAX_BLOCKS" using np by (simp_all add: can_put_def)
  fix a assume a: "a \<in> set (p_space_head S)"
  then have d: "bsn_blocks S np \<inter> bsn_blocks S a = {}" using np by (auto simp: can_put_def free_blocks_def)
  show "bsn_end S a \<le> bsn_idx S np \<or> bsn_end S np \<le> bsn_idx S a"
  proof (rule ccontr)
    assume c: "\<not> (bsn_end S a \<le> bsn_idx S np \<or> bsn_end S np \<le> bsn_idx S a)"
    have "0 < bsn_size (bsn S np)" "0 < bsn_size (bsn S a)"
      using np bmp_coreD(5)[OF core a] by (simp_all add: can_put_def)
    then have "max (bsn_idx S np) (bsn_idx S a) \<in> bsn_blocks S np \<inter> bsn_blocks S a"
      using c by (auto simp: bsn_blocks_def bsn_end_def)
    then show False using d by blast
  qed
qed

lemma dsmgr_put_space_spec:
  assumes inv: "ds_inv S" and np: "can_put S np"
  shows "\<exists>S'. dsmgr_put_space np S = Some S' \<and> ds_inv S' \<and>
    free_blocks S' = free_blocks S \<union> bsn_blocks S np \<and>
    p_num_free_blocks S' = p_num_free_blocks S + bsn_size (bsn S np) \<and>
    held S' = held S - {np} \<and>
    (\<forall>a \<in> held S - {np}. bsn_idx S' a = bsn_idx S a \<and> bsn_size (bsn S' a) = bsn_size (bsn S a))"
proof -
  note I = ds_invD[OF inv]
  let ?A = "set (p_space_head S)"
  have npA: "np \<notin> ?A" "np \<in> pool_used (blksn_pool S)" "0 < bsn_size (bsn S np)"
    using np by (auto simp: can_put_def held_def)
  from add_core[OF I(1,2) npA(1,3)] obtain S1 where S1: "dsmgr_add_node np S = Some S1"
    "mgr_inv (insert np ?A) S1" "bmp_core S1" "mgr_frame S S1" by blast
  note F = mgr_frame_sel[OF S1(4)]
  have ap: "bsn_apart S1 np"
    using can_put_apart[OF I(2) np] by (simp add: bsn_apart_def F)
  have g1: "bmp_gaps S1" "p_num_free_blocks S1 = sum_free S1" "np \<notin> set (p_space_head S1)"
    "np \<in> pool_used (blksn_pool S1)"
    using I(3,4) npA by (simp_all add: bmp_gaps_def F)
  have m1: "mgr_inv (insert np (set (p_space_head S1))) S1" using S1(2) F(3) by simp
  from dsbmp_put_node_spec[OF m1 S1(3) g1 ap] obtain ret S2 where
    S2: "dsbmp_put_node np S1 = Some (ret, S2)" "mgr_inv (set (p_space_head S2) \<union> set_option ret) S2"
    "bmp_core S2" "bmp_gaps S2" "p_num_free_blocks S2 = sum_free S2" "set_option ret \<subseteq> {np}"
    "ret = Some np \<longrightarrow> np \<notin> set (p_space_head S2) \<and> np \<in> pool_used (blksn_pool S2)"
    "set (p_space_head S2) \<subseteq> insert np (set (p_space_head S1))"
    "free_blocks S2 = free_blocks S1 \<union> bsn_blocks S1 np"
    "p_num_free_blocks S2 = p_num_free_blocks S1 + bsn_size (bsn S1 np)"
    "pool_used (blksn_pool S2) - set (p_space_head S2) =
      pool_used (blksn_pool S1) - insert np (set (p_space_head S1)) \<union> set_option ret"
    "\<forall>a. a \<notin> insert np (set (p_space_head S1)) \<longrightarrow>
       bsn_idx S2 a = bsn_idx S1 a \<and> bsn_size (bsn S2 a) = bsn_size (bsn S1 a)"
    by (elim exE conjE) (rule that; assumption)
  have fr: "free_blocks S2 = free_blocks S \<union> bsn_blocks S np"
    "p_num_free_blocks S2 = p_num_free_blocks S + bsn_size (bsn S np)"
    using S2(9,10) by (simp_all add: F)
  have hd: "pool_used (blksn_pool S2) - set (p_space_head S2) = held S - {np} \<union> set_option ret"
    using S2(11) by (auto simp: held_def F)
  have keep: "\<forall>a \<in> held S - {np}. bsn_idx S2 a = bsn_idx S a \<and> bsn_size (bsn S2 a) = bsn_size (bsn S a)"
    using S2(12) by (auto simp: held_def F)
  show ?thesis
  proof (cases ret)
    case None
    then have "dsmgr_put_space np S = Some S2" using S1(1) S2(1) by (simp add: dsmgr_put_space_def)
    moreover have "ds_inv S2" using S2(2-5) None by (simp add: ds_inv_def)
    ultimately show ?thesis using fr hd keep None by (auto simp: held_def)
  next
    case (Some np')
    then have np': "np' = np" "np \<notin> set (p_space_head S2)" "np \<in> pool_used (blksn_pool S2)"
      using S2(6,7) by auto
    have m2: "mgr_inv (insert np (set (p_space_head S2))) S2" using S2(2) Some np'(1) by simp
    from drop_core[OF m2 S2(3)] obtain S3 where S3: "dsmgr_drop_node np S2 = Some S3"
      "mgr_inv (insert np (set (p_space_head S2)) - {np}) S3" "bmp_core S3" "mgr_frame S2 S3" by blast
    note F3 = mgr_frame_sel[OF S3(4)]
    have "np \<in> pool_used (blksn_pool S3)" "np \<notin> set (p_space_head S3)" using np' F3 by simp_all
    from blksn_put_spec[OF S3(2,3) this] obtain p where p: "blksn_put_node np S3 = Some (S3\<lparr>blksn_pool := p\<rparr>)"
      "mgr_inv (insert np (set (p_space_head S2)) - {np}) (S3\<lparr>blksn_pool := p\<rparr>)" "bmp_core (S3\<lparr>blksn_pool := p\<rparr>)"
      "pool_used p = pool_used (blksn_pool S3) - {np}" by blast
    let ?S = "S3\<lparr>blksn_pool := p\<rparr>"
    have ev: "dsmgr_put_space np S = Some ?S"
      using S1(1) S2(1) Some np'(1) S3(1) p(1) by (simp add: dsmgr_put_space_def)
    have sel: "p_space_head ?S = p_space_head S2" "bsn ?S = bsn S2" "p_num_free_blocks ?S = p_num_free_blocks S2"
      "bsn_end ?S = bsn_end S2" "sum_free ?S = sum_free S2" "free_blocks ?S = free_blocks S2"
      using F3 by (auto simp: bsn_end_def sum_free_def free_blocks_def bsn_blocks_def)
    have "ds_inv ?S"
      using p(2,3) np'(2) S2(4,5) by (simp add: ds_inv_def bmp_gaps_def sel)
    moreover have "held ?S = held S - {np}"
      using hd p(4) F3(2) Some np' by (auto simp: held_def sel)
    ultimately show ?thesis using ev fr keep by (auto simp: sel)
  qed
qed

section \<open>Initialization\<close>

lemma scan_units_all:
  assumes "cur \<le> n" and "0 < n"
  shows "scan_units n cur 0 seg = (n, 0, seg + DSBMP_UNIT_SIZE * (n - cur))"
  using assms(1)
proof (induction "n - cur" arbitrary: cur seg)
  case 0
  then show ?case by (subst scan_units.simps) simp
next
  case (Suc m)
  then have "cur < n" by simp
  then have "scan_units n cur 0 seg = scan_units n (cur + 1) 0 (seg + DSBMP_UNIT_SIZE)"
    by (subst scan_units.simps) simp
  also have "\<dots> = (n, 0, seg + (DSBMP_UNIT_SIZE + DSBMP_UNIT_SIZE * (n - (cur + 1))))"
    using Suc.hyps(1)[of "cur + 1" "seg + DSBMP_UNIT_SIZE"] Suc.hyps(2) Suc.prems by (simp add: add.assoc)
  also have "DSBMP_UNIT_SIZE + DSBMP_UNIT_SIZE * (n - (cur + 1)) = DSBMP_UNIT_SIZE * (n - cur)"
  proof -
    have "n - cur = Suc (n - (cur + 1))" using Suc.hyps(2) by simp
    then show ?thesis by simp
  qed
  finally show ?case by (simp add: add.assoc)
qed

lemma dsbmp_link_head:
  "dsbmp_link np (S\<lparr>p_space_head := xs\<rparr>) = map_option (\<lambda>S. S\<lparr>p_space_head := xs\<rparr>) (dsbmp_link np S)"
proof (cases "node_get_node (brn_pool S)")
  case (Some y)
  obtain br p where y: "y = (br, p)" by (cases y)
  show ?thesis
    by (cases "rtree_insert dsbmp_cb (of_nat (bsn_idx S np)) br (p_rtree S)
          ((brn S)(br := (brn S br)\<lparr>bn_data := Bsn np\<rparr>))")
      (auto simp: dsbmp_link_def brn_get_node_def Let_def Some y)
qed (simp add: dsbmp_link_def brn_get_node_def)

lemma dsmgr_initialization_spec:
  assumes n: "0 < n div 64" "64 * (n div 64) \<le> DS_MAX_BLOCKS" and p: "pool_inv bp" "pool_inv kp"
  shows "\<exists>S. dsmgr_initialization bp kp bmem kmem n bitmap = Some S \<and> ds_inv S \<and>
    free_blocks S = {..< 64 * (n div 64)} \<and> held S = pool_used kp \<and>
    (\<exists>a. p_space_head S = [a] \<and> bsn_size (bsn S a) = 64 * (n div 64))"
proof -
  let ?S0 = "\<lparr>brn_pool = bp, blksn_pool = kp, brn = bmem, bsn = kmem,
          p_rtree = rtree_initialization, p_space_head = [], p_num_free_blocks = 0,
          p_sp_rtree = rtree_initialization, p_large_sp_head = [], p_sp_heads = (\<lambda>_. []),
          p_sp_heads_size = (\<lambda>_. 0), sn_slot = (\<lambda>_. None), p_size_head = []\<rparr>"
  let ?n = "64 * (n div 64)"
  have sm: "sp_map ?S0 = Map.empty" by (rule ext) (simp add: sp_map_def)
  have m0: "mgr_inv {} ?S0" using p by (intro mgr_invI) (simp_all add: sm rt_abs_init)
  have c0: "bmp_core ?S0" using p by (intro bmp_coreI) (simp_all add: bmp_map_def rt_abs_init)
  from np.getE[OF p(2)] obtain a kp1 where a: "node_get_node kp = Some (a, kp1)" "pool_inv kp1"
    "a \<notin> pool_used kp" "pool_used kp1 = insert a (pool_used kp)" by blast
  let ?x = "(kmem a)\<lparr>bsn_index := 0, bsn_size := ?n\<rparr>"
  let ?S1 = "?S0\<lparr>blksn_pool := kp1, bsn := (bsn ?S0)(a := ?x), p_num_free_blocks := 0\<rparr>"
  have c1: "bmp_core ?S1" using a by (intro bmp_core_fresh_node[OF c0]) auto
  have m1: "mgr_inv {} ?S1"
    using p(1) by (intro mgr_inv_same[OF m0]) (auto simp: mgr_same_def sm)
  have pos: "0 < bsn_size (bsn ?S1 a)" "bsn_end ?S1 a \<le> DS_MAX_BLOCKS" using n by (simp_all add: bsn_end_def)
  have lnk: "a \<notin> set (p_space_head ?S1)" "a \<in> pool_used (blksn_pool ?S1)" "p_space_head ?S1 = [] @ []"
    "\<forall>l \<in> set []. bsn_end ?S1 l \<le> bsn_idx ?S1 a" "\<forall>r \<in> set []. bsn_end ?S1 a \<le> bsn_idx ?S1 r"
    using a by simp_all
  from dsbmp_link_spec[OF m1 c1 lnk(1,2) pos lnk(3-5)] obtain S2 where
    S2: "dsbmp_link a ?S1 = Some S2" "mgr_inv {} (S2\<lparr>p_space_head := [a]\<rparr>)"
    "bmp_core (S2\<lparr>p_space_head := [a]\<rparr>)" "p_num_free_blocks S2 = 0" "blksn_pool S2 = kp1"
    "bsn_idx S2 a = 0" "bsn_size (bsn S2 a) = ?n" by auto
  let ?S3 = "add_free_blocks ?n (S2\<lparr>p_space_head := [a]\<rparr>)"
  have m3: "mgr_inv {} ?S3" and c3: "bmp_core ?S3" using S2(2,3) by simp_all
  have "a \<notin> {}" "0 < bsn_size (bsn ?S3 a)" using S2(7) n by simp_all
  from add_core[OF m3 c3 this] obtain S4 where S4: "dsmgr_add_node a ?S3 = Some S4" "mgr_inv {a} S4"
    "bmp_core S4" "mgr_frame ?S3 S4" by blast
  note F = mgr_frame_sel[OF S4(4)]
  have seg: "dsbmp_new_segment 0 ?n ?S0 = Some S4"
    using a(1) dsbmp_link_head[where np = a and S = ?S1 and xs = "[a]"] S2(1) S4(1)
    by (simp add: dsbmp_new_segment_def blksn_get_node_def Let_def)
  have scan: "bitmap_scan bitmap (n div 64) 0 0 ?S0 = Some S4"
    using n seg scan_units_all[of 0 "n div 64" 0]
    by (subst bitmap_scan.simps) (simp add: DSBMP_UNIT_SIZE_def Let_def, subst bitmap_scan.simps, simp)
  have h: "p_space_head S4 = [a]" "bsn_idx S4 a = 0" "bsn_size (bsn S4 a) = ?n" "p_num_free_blocks S4 = ?n"
    "blksn_pool S4 = kp1" using F S2(4-7) by simp_all
  have "ds_inv S4"
    using S4(2,3) h by (simp add: ds_inv_def bmp_gaps_def sum_free_def)
  moreover have "free_blocks S4 = {..< ?n}"
    using h by (auto simp: free_blocks_def bsn_blocks_def bsn_end_def)
  moreover have "held S4 = pool_used kp" using h a(3,4) by (auto simp: held_def)
  ultimately show ?thesis using scan n h(1,3) by (auto simp: dsmgr_initialization_def)
qed

section \<open>A request that is not met\<close>

text \<open>
  When the last extent of the largest size in use is taken, the size leaves the list and its
  \<open>prev\<close> pointer is null, so the loop ends although smaller extents are free.
\<close>

lemma get_space_drained:
  assumes inv: "ds_inv S" and lge: "p_large_sp_head S = []" and sz: "p_size_head S = ks @ [i]"
    and b: "p_sp_heads S i = [b]" and n: "2 * Suc i \<le> n"
  shows "\<exists>S'. dsmgr_get_space n out S = Some (Suc i, out @ [b], S') \<and>
    p_space_head S' = remove1 b (p_space_head S)"
proof -
  note D = mgr_invD[OF ds_invD(1)[OF inv]]
  have bi: "b \<in> set (p_sp_heads S i)" using b by simp
  note np = in_sp_heads[OF inv bi]
  have large: "dsmgr_get_large (sn_size i) n out S = Some (n, out, S)"
    by (subst dsmgr_get_large.simps) (simp add: lge)
  from size_search[OF inv] obtain sl sp where
    sl: "rtree_search_around (p_sp_rtree S) (of_nat (min n DSMGR_LARGE_SPACE - 1)) = Some sl"
    "sp_of_slot (brn S) sl = Some sp" "\<forall>j. sp = Some j \<longrightarrow> j \<in> set (p_size_head S)" by blast
  have ne: "p_size_head S \<noteq> []" using sz by simp
  obtain j where j: "(if sp = None then (case p_size_head S of [] \<Rightarrow> None | j # _ \<Rightarrow> Some j) else sp) = Some j"
    "j \<in> set (p_size_head S)" using sl(3) ne by (cases sp; cases "p_size_head S") auto
  have up: "seek_up sn_size n (list_from j (p_size_head S)) = Some i"
  proof -
    obtain l1 l2 where sp: "p_size_head S = l1 @ j # l2" using split_list[OF j(2)] by blast
    have "distinct (p_size_head S)" using D(10) by (simp add: strict_sorted_iff)
    then have fr: "list_from j (p_size_head S) = j # l2" using sp by (simp add: list_from_split)
    have st: "sorted_wrt (\<lambda>a b. sn_size a < sn_size b) (j # l2)"
      using D(10) sp by (simp add: sorted_wrt_append sn_size_def)
    from seek_up_spec[OF st, of n] obtain x where x: "x \<in> set (j # l2)"
      "seek_up sn_size n (j # l2) = Some x" "sn_size x < n \<longrightarrow> x = last (j # l2)" by blast
    have "last (j # l2) = i" using sp sz by (metis last_append last_snoc list.distinct(1))
    moreover have "x \<le> i"
    proof -
      have "x \<in> set (ks @ [i])" using x(1) sp sz by (metis Un_iff set_append)
      then show ?thesis using D(10) sz by (auto simp: sorted_wrt_append)
    qed
    ultimately show ?thesis using x(2,3) n fr by (simp add: sn_size_def)
  qed
  from take_spec[OF inv np(1)] obtain S1 S2 where t: "dsmgr_drop_node b S = Some S1"
    "dsbmp_get_node b S1 = Some S2" "ds_inv S2" "granted S [b] S2" "bsn S2 = bsn S"
    "p_space_head S2 = remove1 b (p_space_head S)"
    "p_sp_heads S2 = (\<lambda>i. remove1 b (p_sp_heads S i))" by blast
  have h2: "p_sp_heads S2 i = []" using t(7) b by simp
  then have "i \<notin> set (p_size_head S2)" using mgr_invD(11)[OF ds_invD(1)[OF t(3)]] by simp
  then have "list_back i (p_size_head S2) = []" by (simp add: list_back_def dropWhile_eq_Nil_conv) blast
  moreover have "Suc i \<le> n - Suc i" "\<not> n < Suc i" "n \<noteq> 0" using n by simp_all
  ultimately have small: "dsmgr_get_small n i b out S = Some (n - Suc i, out @ [b], S2)"
    using np(2) t(1,2,5) h2 by (subst dsmgr_get_small.simps) (simp add: Let_def)
  have "dsmgr_get_space n out S = Some (n - (n - Suc i), out @ [b], S2)"
    using large sl(1,2) j(1) up b small n sz by (simp add: dsmgr_get_space_def Let_def)
  then show ?thesis using t(6) n by (intro exI[of _ S2]) simp
qed

section \<open>Taking and giving back\<close>

primrec put_all :: "node_addr list \<Rightarrow> ds_state \<Rightarrow> ds_state option" where
  "put_all [] S = Some S"
| "put_all (x # xs) S = do { S \<leftarrow> dsmgr_put_space x S; put_all xs S }"

lemma put_all_spec:
  assumes "ds_inv S" and "set xs \<subseteq> held S" and "distinct xs"
    and "\<forall>x \<in> set xs. 0 < bsn_size (bsn S x) \<and> bsn_end S x \<le> DS_MAX_BLOCKS \<and> bsn_blocks S x \<inter> free_blocks S = {}"
    and "\<forall>x \<in> set xs. \<forall>y \<in> set xs. x \<noteq> y \<longrightarrow> bsn_blocks S x \<inter> bsn_blocks S y = {}"
  shows "\<exists>S'. put_all xs S = Some S' \<and> ds_inv S' \<and> free_blocks S' = free_blocks S \<union> blocks_of S xs \<and>
    p_num_free_blocks S' = p_num_free_blocks S + size_of S xs \<and> held S' = held S - set xs"
  using assms
proof (induction xs arbitrary: S)
  case Nil
  then show ?case by (simp add: blocks_of_def size_of_def)
next
  case (Cons x xs)
  have "can_put S x" using Cons.prems by (auto simp: can_put_def)
  from dsmgr_put_space_spec[OF Cons.prems(1) this] obtain S1 where
    S1: "dsmgr_put_space x S = Some S1" "ds_inv S1" "free_blocks S1 = free_blocks S \<union> bsn_blocks S x"
    "p_num_free_blocks S1 = p_num_free_blocks S + bsn_size (bsn S x)" "held S1 = held S - {x}"
    "\<forall>a \<in> held S - {x}. bsn_idx S1 a = bsn_idx S a \<and> bsn_size (bsn S1 a) = bsn_size (bsn S a)" by blast
  have xs: "y \<noteq> x \<and> y \<in> held S - {x}" if "y \<in> set xs" for y using Cons.prems(2,3) that by auto
  have sz: "bsn_size (bsn S1 y) = bsn_size (bsn S y)" "bsn_end S1 y = bsn_end S y"
    "bsn_blocks S1 y = bsn_blocks S y" if "y \<in> set xs" for y
    using S1(6) xs[OF that] by (simp_all add: bsn_end_def bsn_blocks_def)
  have "set xs \<subseteq> held S1" using xs S1(5) by auto
  moreover have "\<forall>y \<in> set xs. 0 < bsn_size (bsn S1 y) \<and> bsn_end S1 y \<le> DS_MAX_BLOCKS \<and>
      bsn_blocks S1 y \<inter> free_blocks S1 = {}"
    using Cons.prems(4,5) xs sz S1(3) by (auto simp: Int_Un_distrib)
  moreover have "\<forall>y \<in> set xs. \<forall>z \<in> set xs. y \<noteq> z \<longrightarrow> bsn_blocks S1 y \<inter> bsn_blocks S1 z = {}"
    using Cons.prems(5) sz by simp
  ultimately obtain S2 where S2: "put_all xs S1 = Some S2" "ds_inv S2"
    "free_blocks S2 = free_blocks S1 \<union> blocks_of S1 xs"
    "p_num_free_blocks S2 = p_num_free_blocks S1 + size_of S1 xs" "held S2 = held S1 - set xs"
    using Cons.IH[OF S1(2)] Cons.prems(3) by auto
  have "blocks_of S1 xs = blocks_of S xs" "size_of S1 xs = size_of S xs"
    using sz by (simp_all add: blocks_of_def size_of_def cong: map_cong)
  then show ?case using S1 S2 by (auto simp: blocks_of_def size_of_def)
qed

lemma granted_can_put:
  assumes inv: "ds_inv S" and gr: "granted S xs S1" and x: "x \<in> set xs"
  shows "can_put S1 x"
  unfolding can_put_def
proof (intro conjI)
  have sub: "blocks_of S1 xs \<subseteq> free_blocks S" and fr: "free_blocks S1 = free_blocks S - blocks_of S1 xs"
    using gr by (simp_all add: granted_def)
  show "x \<in> held S1" using gr x by (auto simp: granted_def)
  show pos: "0 < bsn_size (bsn S1 x)" using gr x by (auto simp: granted_def)
  then have "bsn_end S1 x - 1 \<in> bsn_blocks S1 x" by (auto simp: bsn_blocks_def bsn_end_def)
  then have "bsn_end S1 x - 1 \<in> free_blocks S" using x sub by (auto simp: blocks_of_def)
  then obtain a where "a \<in> set (p_space_head S)" "bsn_end S1 x - 1 < bsn_end S a"
    by (auto simp: free_blocks_def bsn_blocks_def)
  then show "bsn_end S1 x \<le> DS_MAX_BLOCKS"
    using bmp_coreD(6)[OF ds_invD(2)[OF inv], of a] pos by (simp add: bsn_end_def)
  show "bsn_blocks S1 x \<inter> free_blocks S1 = {}" using fr x by (auto simp: blocks_of_def)
qed

lemma get_put_all:
  assumes inv: "ds_inv S" and get: "dsmgr_get_space n [] S = Some (g, xs, S1)"
  shows "\<exists>S2. put_all xs S1 = Some S2 \<and> ds_inv S2 \<and> free_blocks S2 = free_blocks S \<and>
    p_num_free_blocks S2 = p_num_free_blocks S \<and> held S2 = held S"
proof -
  from dsmgr_get_space_spec[OF inv, of n "[]"] get
  have S1: "ds_inv S1" and gr: "granted S xs S1" by auto
  have sub: "blocks_of S1 xs \<subseteq> free_blocks S" and fr: "free_blocks S1 = free_blocks S - blocks_of S1 xs"
    and hd: "held S1 = held S \<union> set xs" "set xs \<inter> held S = {}" using gr by (simp_all add: granted_def)
  have put: "can_put S1 x" if "x \<in> set xs" for x by (rule granted_can_put[OF inv gr that])
  have "set xs \<subseteq> held S1" using hd by simp
  moreover have "distinct xs" "\<forall>x \<in> set xs. \<forall>y \<in> set xs. x \<noteq> y \<longrightarrow> bsn_blocks S1 x \<inter> bsn_blocks S1 y = {}"
    using gr by (simp_all add: granted_def)
  moreover have "\<forall>x \<in> set xs. 0 < bsn_size (bsn S1 x) \<and> bsn_end S1 x \<le> DS_MAX_BLOCKS \<and>
      bsn_blocks S1 x \<inter> free_blocks S1 = {}" using put by (simp add: can_put_def)
  ultimately obtain S2 where
    S2: "put_all xs S1 = Some S2" "ds_inv S2" "free_blocks S2 = free_blocks S1 \<union> blocks_of S1 xs"
    "p_num_free_blocks S2 = p_num_free_blocks S1 + size_of S1 xs" "held S2 = held S1 - set xs"
    using put_all_spec[OF S1] by blast
  have free: "free_blocks S2 = free_blocks S" using S2(3) fr sub by auto
  have card: "p_num_free_blocks S = card (free_blocks S)" if i: "ds_inv S" for S
  proof -
    note I = ds_invD[OF i]
    have d: "distinct (p_space_head S)" by (rule bmp_core_distinct(1)[OF I(2)])
    have "card (free_blocks S) = (\<Sum>a \<in> set (p_space_head S). card (bsn_blocks S a))"
      unfolding free_blocks_def
      using bsn_blocks_disjoint[OF I(2)] by (intro card_UN_disjoint) (auto simp: bsn_blocks_def)
    also have "\<dots> = sum_free S"
      using d by (simp add: sum_free_def sum_list_distinct_conv_sum_set bsn_blocks_def bsn_end_def)
    finally show ?thesis using I(4) by simp
  qed
  have "p_num_free_blocks S2 = p_num_free_blocks S" using card[OF inv] card[OF S2(2)] free by simp
  with S2 free hd show ?thesis by auto
qed

section \<open>A fresh manager\<close>

abbreviation brn_mem0 :: brn_heap where
  "brn_mem0 \<equiv> \<lambda>_. \<lparr>bn_parent = None, bn_data = Spn 0\<rparr>"

abbreviation bsn_mem0 :: "node_addr \<Rightarrow> block_size_node" where
  "bsn_mem0 \<equiv> \<lambda>_. \<lparr>bsn_index = 0, bsn_size = 0, bsn_slot = Addr 0 0\<rparr>"

abbreviation ds_boot :: "nat \<Rightarrow> ds_state option" where
  "ds_boot n \<equiv> dsmgr_initialization (node_initialization 0) (node_initialization 0) brn_mem0 bsn_mem0 n []"

text \<open>A freshly initialized manager of 128 blocks; the examples run on it.\<close>

lemma ds_boot_128:
  obtains S a where "ds_boot 128 = Some S" "ds_inv S" "free_blocks S = {..<128}" "held S = {}"
    "p_space_head S = [a]" "bsn_size (bsn S a) = 128"
  using dsmgr_initialization_spec[of 128 "node_initialization 0" "node_initialization 0" brn_mem0 bsn_mem0 "[]"]
  by (auto simp: DS_MAX_BLOCKS_def)

end
