(* ===== verification/Bse_Store.thy ===== *)
theory Bse_Store
  imports Rtree_Ops
begin

text \<open>
  The nodes of the write cache and their index: data description nodes (\<open>mm/ddn_if.h\<close>), each of which
  describes one extent of cached data, the slots of \<open>mm/btn.c\<close> that hold the nodes whose first byte lies in
  the same 16 KB, and the call-backs with which \<open>cache/bse.c\<close> hangs the slots into its radix tree. Offsets and
  positions (\<open>off_t\<close>, \<open>int64_t\<close>) and lengths (\<open>uint32_t\<close>) are integers; a value that the code stores in 32 bits is cut
  by \<open>u32_of\<close>. The pointer \<open>d_interface\<close> always leads to the one search engine and is left out.
\<close>

section \<open>Nodes and slots\<close>

definition u32_of :: "int \<Rightarrow> int" where "u32_of x = x mod 2 ^ 32"

lemma u32_of_id [simp]: "0 \<le> x \<Longrightarrow> x < 2 ^ 32 \<Longrightarrow> u32_of x = x"
  by (simp add: u32_of_def)

definition DDN_WHERE_NO :: nat where "DDN_WHERE_NO = 0"
definition DDN_WHERE_FLUSH :: nat where "DDN_WHERE_FLUSH = 1"
definition DDN_WHERE_RELEASE :: nat where "DDN_WHERE_RELEASE = 2"
definition DDN_WHERE_SHADOW :: nat where "DDN_WHERE_SHADOW = 4"

record data_description_node =
  d_page_node :: nat
  d_parent :: "node_addr option"
  d_pos :: int
  d_flush_pos :: int
  d_seq :: u64
  d_offset :: int
  d_flush_offset :: int
  d_len :: int
  d_flush_len :: int
  d_user_counter :: int
  d_flush_overwritten :: int
  d_flushing :: bool
  d_flushed :: bool
  d_flushed_back :: bool
  d_flush_done :: bool
  d_released :: bool
  d_where :: nat
  d_location_disk :: bool

record btn_node =
  n_ddn_head :: "node_addr list"
  bt_parent :: "node_addr option"

record bse_mem =
  btn_pool :: node_pool
  btn :: "node_addr \<Rightarrow> btn_node"
  ddn :: "node_addr \<Rightarrow> data_description_node"

definition btn_get_node :: "bse_mem \<Rightarrow> (node_addr \<times> bse_mem) option" where
  "btn_get_node m = do { (b, p) \<leftarrow> node_get_node (btn_pool m); Some (b, m\<lparr>btn_pool := p\<rparr>) }"

definition btn_put_node :: "node_addr \<Rightarrow> bse_mem \<Rightarrow> bse_mem option" where
  "btn_put_node b m = do { p \<leftarrow> node_put_node b (btn_pool m); Some (m\<lparr>btn_pool := p\<rparr>) }"

section \<open>The call-backs of the tree\<close>

definition bse_rtree_extend_cb :: "node_addr \<Rightarrow> node_addr \<Rightarrow> bse_mem \<Rightarrow> bse_mem" where
  "bse_rtree_extend_cb slot parent m = m\<lparr>btn := (btn m)(slot := (btn m slot)\<lparr>bt_parent := Some parent\<rparr>)\<rparr>"

text \<open>The loop that places a node on the list of its slot, by offset.\<close>

fun slot_place :: "(node_addr \<Rightarrow> data_description_node) \<Rightarrow> node_addr \<Rightarrow> node_addr list \<Rightarrow> node_addr list option" where
  "slot_place d new_np [] = Some [new_np]"
| "slot_place d new_np (np # nps) =
     do {
       c_assert (d_offset (d np) \<noteq> d_offset (d new_np));
       if d_offset (d np) > d_offset (d new_np) then
         do {
           c_assert (d_offset (d np) > d_offset (d new_np) + d_len (d new_np) - 1);
           Some (new_np # np # nps)
         }
       else do { r \<leftarrow> slot_place d new_np nps; Some (np # r) }
     }"

definition bse_rtree_insert_cb ::
  "node_addr slot \<Rightarrow> node_addr \<Rightarrow> node_addr option \<Rightarrow> bse_mem \<Rightarrow> (node_addr slot \<times> bse_mem) option" where
  "bse_rtree_insert_cb target_slot new_np parent m =
     do {
       (slot, m) \<leftarrow>
         (case target_slot of
            Null \<Rightarrow> do { (b, m) \<leftarrow> btn_get_node m; Some (b, m\<lparr>btn := (btn m)(b := (btn m b)\<lparr>n_ddn_head := []\<rparr>)\<rparr>) }
          | Item b \<Rightarrow> Some (b, m)
          | Node _ \<Rightarrow> None);
       nps \<leftarrow> slot_place (ddn m) new_np (n_ddn_head (btn m slot));
       Some (Item slot, m\<lparr>btn := (btn m)(slot := \<lparr>n_ddn_head = nps, bt_parent = parent\<rparr>),
                          ddn := (ddn m)(new_np := (ddn m new_np)\<lparr>d_parent := Some slot\<rparr>)\<rparr>)
     }"

text \<open>The call-back reads the node before it tests it for null, so a null node is an abort.\<close>

definition bse_rtree_remove_cb ::
  "node_addr slot \<Rightarrow> node_addr option \<Rightarrow> bse_mem \<Rightarrow> (node_addr slot \<times> bse_mem) option" where
  "bse_rtree_remove_cb target_slot target_node m =
     (case (target_slot, target_node) of
        (Item slot, Some np) \<Rightarrow>
          do {
            c_assert (d_parent (ddn m np) = Some slot);
            let nps = remove1 np (n_ddn_head (btn m slot));
            let m = m\<lparr>btn := (btn m)(slot := (btn m slot)\<lparr>n_ddn_head := nps\<rparr>),
                      ddn := (ddn m)(np := (ddn m np)\<lparr>d_parent := None\<rparr>)\<rparr>;
            if nps = [] then do { m \<leftarrow> btn_put_node slot m; Some (Null, m) } else Some (Item slot, m)
          }
      | _ \<Rightarrow> None)"

definition bse_rtree_shrink_to_root_cb :: "node_addr \<Rightarrow> bse_mem \<Rightarrow> bse_mem" where
  "bse_rtree_shrink_to_root_cb b m = m\<lparr>btn := (btn m)(b := (btn m b)\<lparr>bt_parent := None\<rparr>)\<rparr>"

definition bse_cb :: "(node_addr, node_addr, bse_mem) rtree_cb" where
  "bse_cb = \<lparr>extend_cb = bse_rtree_extend_cb, insert_cb = bse_rtree_insert_cb,
             remove_cb = bse_rtree_remove_cb, shrink_to_root_cb = Some bse_rtree_shrink_to_root_cb\<rparr>"

definition bt_parents :: "bse_mem \<Rightarrow> node_addr \<Rightarrow> node_addr option" where
  "bt_parents m b = bt_parent (btn m b)"

definition bt_rest :: "bse_mem \<Rightarrow> node_pool \<times> (node_addr \<Rightarrow> node_addr list) \<times> (node_addr \<Rightarrow> data_description_node)" where
  "bt_rest m = (btn_pool m, \<lambda>b. n_ddn_head (btn m b), ddn m)"

interpretation st: rtree_hooks bse_cb bt_parents bt_rest
  by unfold_locales
    (auto simp: bse_cb_def bse_rtree_extend_cb_def bse_rtree_shrink_to_root_cb_def bt_parents_def bt_rest_def)

section \<open>What the tree indexes\<close>

text \<open>The tree has one slot for each key that occurs, with the nodes of that key in their order.\<close>

definition bucket :: "(node_addr \<Rightarrow> nat) \<Rightarrow> node_addr list \<Rightarrow> nat \<Rightarrow> node_addr list" where
  "bucket kf xs k = filter (\<lambda>a. kf a = k) xs"

definition slots_ok :: "(node_addr \<Rightarrow> nat) \<Rightarrow> node_addr list \<Rightarrow> (nat \<rightharpoonup> node_addr) \<Rightarrow> bse_mem \<Rightarrow> bool" where
  "slots_ok kf xs M m \<longleftrightarrow> pool_inv (btn_pool m) \<and> pool_used (btn_pool m) = ran M \<and>
     (\<forall>k. M k = None \<longleftrightarrow> bucket kf xs k = []) \<and>
     (\<forall>k b. M k = Some b \<longrightarrow> n_ddn_head (btn m b) = bucket kf xs k \<and>
        (\<forall>a \<in> set (bucket kf xs k). d_parent (ddn m a) = Some b))"

definition bse_tree :: "(node_addr \<Rightarrow> nat) \<Rightarrow> node_addr list \<Rightarrow> node_addr rtree \<Rightarrow> bse_mem \<Rightarrow> bool" where
  "bse_tree kf xs t m \<longleftrightarrow> (\<exists>M. rt_abs M (bt_parents m) t \<and> slots_ok kf xs M m)"

definition ends_before :: "(node_addr \<Rightarrow> data_description_node) \<Rightarrow> node_addr \<Rightarrow> node_addr \<Rightarrow> bool" where
  "ends_before d x y \<longleftrightarrow> d_offset (d x) + d_len (d x) \<le> d_offset (d y)"

lemma bucket_simps [simp]:
  "bucket kf [] k = []" "bucket kf (x # xs) k = (if kf x = k then x # bucket kf xs k else bucket kf xs k)"
  "bucket kf (xs @ ys) k = bucket kf xs k @ bucket kf ys k"
  by (simp_all add: bucket_def)

lemma set_bucket: "set (bucket kf xs k) = {a \<in> set xs. kf a = k}"
  by (auto simp: bucket_def)

lemma bucket_cong: "(\<And>a. a \<in> set xs \<Longrightarrow> kf a = kf' a) \<Longrightarrow> bucket kf xs k = bucket kf' xs k"
  by (auto simp: bucket_def intro: filter_cong)

lemma slot_place_split:
  assumes "\<forall>u \<in> set us. ends_before d u a \<and> 0 < d_len (d u)"
    and "\<forall>v \<in> set vs. ends_before d a v" and "0 < d_len (d a)"
  shows "slot_place d a (us @ vs) = Some (us @ a # vs)"
  using assms
proof (induction us)
  case Nil
  then show ?case by (cases vs) (auto simp: ends_before_def)
next
  case (Cons u us)
  then show ?case by (auto simp: ends_before_def)
qed

text \<open>The call-back of an insertion, in a store that differs from \<open>m\<close> only in parent pointers.\<close>

lemma insert_call:
  assumes rest: "bt_rest m1 = bt_rest m" and place: "slot_place (ddn m) a nps = Some nps'"
    and slot: "case sl of Null \<Rightarrow> node_get_node (btn_pool m) = Some (b, p') \<and> nps = []
      | Item c \<Rightarrow> c = b \<and> p' = btn_pool m \<and> nps = n_ddn_head (btn m b) | Node _ \<Rightarrow> False"
  shows "\<exists>m2. insert_cb bse_cb sl a p m1 = Some (Item b, m2) \<and> bt_parents m2 = (bt_parents m1)(b := p) \<and>
    bt_rest m2 = (p', (\<lambda>c. n_ddn_head (btn m c))(b := nps'), (ddn m)(a := (ddn m a)\<lparr>d_parent := Some b\<rparr>))"
proof -
  have r: "btn_pool m1 = btn_pool m" "\<And>c. n_ddn_head (btn m1 c) = n_ddn_head (btn m c)" "ddn m1 = ddn m"
    using rest by (auto simp: bt_rest_def fun_eq_iff)
  show ?thesis
    using place slot r
    by (cases sl) (auto simp: bse_cb_def bse_rtree_insert_cb_def btn_get_node_def bt_parents_def bt_rest_def intro!: ext)
qed

lemma slots_ok_insert:
  assumes ok: "slots_ok kf (us @ vs) M m" and a: "a \<notin> set (us @ vs)" and k: "kf a = k"
    and b: "M k = None \<and> node_get_node (btn_pool m) = Some (b, p') \<or> M k = Some b \<and> p' = btn_pool m"
    and rest: "bt_rest m' = (p', (\<lambda>c. n_ddn_head (btn m c))(b := bucket kf (us @ a # vs) k),
      (ddn m)(a := (ddn m a)\<lparr>d_parent := Some b\<rparr>))"
    and inj: "inj_on M (dom M)"
  shows "slots_ok kf (us @ a # vs) (M(k \<mapsto> b)) m'"
proof -
  have r: "btn_pool m' = p'" "\<And>c. n_ddn_head (btn m' c) = (if c = b then bucket kf (us @ a # vs) k else n_ddn_head (btn m c))"
    "ddn m' = (ddn m)(a := (ddn m a)\<lparr>d_parent := Some b\<rparr>)" using rest by (auto simp: bt_rest_def fun_eq_iff split: if_splits)
  note ok = ok[unfolded slots_ok_def]
  have bnew: "M j \<noteq> Some b" if "j \<noteq> k" for j
  proof
    assume j: "M j = Some b"
    show False using b
    proof
      assume "M k = None \<and> node_get_node (btn_pool m) = Some (b, p')"
      then have "b \<notin> pool_used (btn_pool m)" using np.get_fresh[of "btn_pool m"] ok by auto
      then show False using j ok ranI[of M j b] by auto
    next
      assume "M k = Some b \<and> p' = btn_pool m"
      then show False using j inj that by (metis domIff inj_onD option.discI)
    qed
  qed
  have pool: "pool_inv p' \<and> pool_used p' = ran (M(k \<mapsto> b))" using b
  proof
    assume n: "M k = None \<and> node_get_node (btn_pool m) = Some (b, p')"
    then show ?thesis using np.get_fresh[of "btn_pool m"] ok by auto
  next
    assume o: "M k = Some b \<and> p' = btn_pool m"
    then have "M(k \<mapsto> b) = M" by (auto simp: map_upd_triv)
    then show ?thesis using o ok by simp
  qed
  have ku: "bucket kf (us @ a # vs) j = bucket kf (us @ vs) j" if "j \<noteq> k" for j using that k by simp
  show ?thesis unfolding slots_ok_def
  proof (intro conjI allI impI)
    show "pool_inv (btn_pool m')" "pool_used (btn_pool m') = ran (M(k \<mapsto> b))" using pool r(1) by simp_all
    show "((M(k \<mapsto> b)) j = None) = (bucket kf (us @ a # vs) j = [])" for j
      using ok ku[of j] k by (cases "j = k") simp_all
    fix j c assume jc: "(M(k \<mapsto> b)) j = Some c"
    show "n_ddn_head (btn m' c) = bucket kf (us @ a # vs) j"
      using jc ok bnew[of j] ku[of j] by (cases "j = k") (auto simp: r(2))
    show "\<forall>x \<in> set (bucket kf (us @ a # vs) j). d_parent (ddn m' x) = Some c"
    proof
      fix x assume x: "x \<in> set (bucket kf (us @ a # vs) j)"
      show "d_parent (ddn m' x) = Some c"
      proof (cases "x = a")
        case True
        then show ?thesis using x k jc r(3) a by (auto simp: set_bucket split: if_splits)
      next
        case False
        then have xj: "x \<in> set (bucket kf (us @ vs) j)" using x by (auto split: if_splits)
        then have "M j \<noteq> None" using ok by auto
        then obtain c' where c': "M j = Some c'" by auto
        then have "d_parent (ddn m x) = Some c'" using ok xj by blast
        moreover have "c' = c" using jc c' b by (cases "j = k") auto
        ultimately show ?thesis using False r(3) by simp
      qed
    qed
  qed
qed

lemma bse_tree_insert:
  assumes t: "bse_tree kf (us @ vs) t m" and a: "a \<notin> set (us @ vs)"
    and k: "unat key = kf a" "kf a < 64 ^ 8"
    and us: "\<forall>u \<in> set us. ends_before (ddn m) u a \<and> 0 < d_len (ddn m u)"
    and vs: "\<forall>v \<in> set vs. ends_before (ddn m) a v" and len: "0 < d_len (ddn m a)"
  obtains sl t' m' p where "rtree_insert bse_cb key a t m = Some (sl, t', m')" "bse_tree kf (us @ a # vs) t' m'"
    "ddn m' = (ddn m)(a := (ddn m a)\<lparr>d_parent := p\<rparr>)"
proof -
  from t obtain M where abs: "rt_abs M (bt_parents m) t" and ok: "slots_ok kf (us @ vs) M m" by (auto simp: bse_tree_def)
  let ?k = "kf a"
  have place: "slot_place (ddn m) a (bucket kf us ?k @ bucket kf vs ?k) = Some (bucket kf (us @ a # vs) ?k)"
    using slot_place_split[of "bucket kf us ?k" "ddn m" a "bucket kf vs ?k"] us vs len by (simp add: set_bucket)
  have inj: "inj_on M (dom M)" using abs by (auto simp: rt_abs_def rt_rep_def)
  obtain b p' where b: "M ?k = None \<and> node_get_node (btn_pool m) = Some (b, p') \<or> M ?k = Some b \<and> p' = btn_pool m"
    and bn: "M ?k = None \<and> b \<notin> ran M \<or> M ?k = Some b"
  proof (cases "M ?k")
    case None
    from ok have "pool_inv (btn_pool m)" "pool_used (btn_pool m) = ran M" by (simp_all add: slots_ok_def)
    then obtain b p' where "node_get_node (btn_pool m) = Some (b, p')" "b \<notin> ran M" by (metis np.getE)
    then show ?thesis using that None by blast
  qed (use that in blast)
  let ?R = "(p', (\<lambda>c. n_ddn_head (btn m c))(b := bucket kf (us @ a # vs) ?k), (ddn m)(a := (ddn m a)\<lparr>d_parent := Some b\<rparr>))"
  have call: "\<exists>m2. insert_cb bse_cb (islot (M ?k)) a p m1 = Some (Item b, m2) \<and> bt_parents m2 = (bt_parents m1)(b := p) \<and> bt_rest m2 = ?R"
    if "bt_rest m1 = bt_rest m" for m1 p
  proof (rule insert_call[OF that place])
    have "bucket kf us ?k @ bucket kf vs ?k = (case M ?k of None \<Rightarrow> [] | Some c \<Rightarrow> n_ddn_head (btn m c))"
      using ok unfolding slots_ok_def by (cases "M ?k") (force, force)
    then show "case islot (M ?k) of Null \<Rightarrow> node_get_node (btn_pool m) = Some (b, p') \<and> bucket kf us ?k @ bucket kf vs ?k = []
      | Item c \<Rightarrow> c = b \<and> p' = btn_pool m \<and> bucket kf us ?k @ bucket kf vs ?k = n_ddn_head (btn m b) | Node _ \<Rightarrow> False"
      using b by auto
  qed
  have k8: "unat key < 64 ^ 8" using k by simp
  from st.insert_slot[OF abs k8, of b a ?R] call bn k(1) obtain t' m' where
    m': "rtree_insert bse_cb key a t m = Some (Item b, t', m')" "rt_abs (M(?k \<mapsto> b)) (bt_parents m') t'" "bt_rest m' = ?R"
    by auto
  have "slots_ok kf (us @ a # vs) (M(?k \<mapsto> b)) m'" by (rule slots_ok_insert[OF ok a refl b m'(3) inj])
  then have "bse_tree kf (us @ a # vs) t' m'" using m'(2) by (auto simp: bse_tree_def)
  moreover have "ddn m' = (ddn m)(a := (ddn m a)\<lparr>d_parent := Some b\<rparr>)" using m'(3) by (simp add: bt_rest_def)
  ultimately show ?thesis using that m'(1) by blast
qed

lemma bucket_remove1: "bucket kf (remove1 a xs) k = (if kf a = k then remove1 a (bucket kf xs k) else bucket kf xs k)"
  by (auto simp: bucket_def filter_remove1 remove1_idem)

lemma remove_call:
  assumes ok: "slots_ok kf xs M m" and a: "a \<in> set xs" and k: "kf a = k" and b: "M k = Some b"
  shows "\<exists>m1. remove_cb bse_cb (Item b) (Some a) m = Some (if bucket kf (remove1 a xs) k = [] then Null else Item b, m1) \<and>
    bt_parents m1 = bt_parents m \<and> pool_inv (btn_pool m1) \<and>
    pool_used (btn_pool m1) = (if bucket kf (remove1 a xs) k = [] then ran M - {b} else ran M) \<and>
    (\<lambda>c. n_ddn_head (btn m1 c)) = (\<lambda>c. n_ddn_head (btn m c))(b := bucket kf (remove1 a xs) k) \<and>
    ddn m1 = (ddn m)(a := (ddn m a)\<lparr>d_parent := None\<rparr>)"
proof -
  have ab: "a \<in> set (bucket kf xs k)" using a k by (simp add: set_bucket)
  note ok = ok[unfolded slots_ok_def]
  from ok b ab have h: "n_ddn_head (btn m b) = bucket kf xs k" "d_parent (ddn m a) = Some b" by blast+
  have e: "remove1 a (bucket kf xs k) = bucket kf (remove1 a xs) k" using k by (simp add: bucket_remove1)
  have "b \<in> pool_used (btn_pool m)" using ok b by (auto intro: ranI)
  then obtain p where p: "node_put_node b (btn_pool m) = Some p" "pool_inv p" "pool_used p = ran M - {b}"
    using ok by (metis np.putE)
  show ?thesis
    using ok h p by (auto simp: bse_cb_def bse_rtree_remove_cb_def btn_put_node_def Let_def e bt_parents_def intro!: ext)
qed

lemma bse_tree_remove:
  assumes t: "bse_tree kf xs t m" and a: "a \<in> set xs" "distinct xs" and k: "unat key = kf a"
  obtains b sl t' m' where "d_parent (ddn m a) = Some b" "rtree_hint_remove bse_cb key a (bt_parent (btn m b)) t m = Some (sl, t', m')"
    "bse_tree kf (remove1 a xs) t' m'" "ddn m' = (ddn m)(a := (ddn m a)\<lparr>d_parent := None\<rparr>)"
proof -
  from t obtain M where abs: "rt_abs M (bt_parents m) t" and ok: "slots_ok kf xs M m" by (auto simp: bse_tree_def)
  let ?k = "kf a" let ?ys = "remove1 a xs"
  have ab: "a \<in> set (bucket kf xs ?k)" using a by (simp add: set_bucket)
  then obtain b where b: "M ?k = Some b" using ok unfolding slots_ok_def by (cases "M ?k") auto
  have inj: "inj_on M (dom M)" using abs by (auto simp: rt_abs_def rt_rep_def)
  have only: "j = ?k" if "M j = Some b" for j using inj b that by (metis domIff inj_onD option.discI)
  from remove_call[OF ok a(1) refl b] obtain m1 where
    m1: "remove_cb bse_cb (Item b) (Some a) m = Some (if bucket kf ?ys ?k = [] then Null else Item b, m1)"
    "bt_parents m1 = bt_parents m" "pool_inv (btn_pool m1)"
    "pool_used (btn_pool m1) = (if bucket kf ?ys ?k = [] then ran M - {b} else ran M)"
    "(\<lambda>c. n_ddn_head (btn m1 c)) = (\<lambda>c. n_ddn_head (btn m c))(b := bucket kf ?ys ?k)"
    "ddn m1 = (ddn m)(a := (ddn m a)\<lparr>d_parent := None\<rparr>)" by blast
  define M' where "M' = (if bucket kf ?ys ?k = [] then M(?k := None) else M)"
  obtain sl t' m' where r: "rtree_hint_remove bse_cb key a (bt_parents m b) t m = Some (sl, t', m')"
    "rt_abs M' (bt_parents m') t'" "bt_rest m' = bt_rest m1"
    using st.remove_slot_null[OF abs b[folded k], of a m1] st.remove_slot_item[OF abs b[folded k], of a m1] m1(1,2) k
    by (cases "bucket kf ?ys ?k = []") (auto simp: M'_def)
  have "(\<lambda>c. n_ddn_head (btn m' c)) = (\<lambda>c. n_ddn_head (btn m1 c))" using r(3) by (simp add: bt_rest_def)
  then have q2: "n_ddn_head (btn m' c) = ((\<lambda>c. n_ddn_head (btn m c))(b := bucket kf ?ys ?k)) c" for c
    unfolding m1(5) by (rule fun_cong)
  have q1: "btn_pool m' = btn_pool m1" "ddn m' = ddn m1" using r(3) by (simp_all add: bt_rest_def)
  have ranM: "ran M' = (if bucket kf ?ys ?k = [] then ran M - {b} else ran M)"
  proof -
    have "ran (M(?k := None)) = ran M - {b}"
    proof (intro set_eqI iffI)
      fix y assume "y \<in> ran (M(?k := None))"
      then obtain j where "j \<noteq> ?k" "M j = Some y" by (auto simp: ran_def split: if_splits)
      then show "y \<in> ran M - {b}" using only[of j] by (auto intro: ranI)
    next
      fix y assume y: "y \<in> ran M - {b}"
      then obtain j where j: "M j = Some y" by (auto simp: ran_def)
      then have "j \<noteq> ?k" using b y by auto
      then show "y \<in> ran (M(?k := None))" using j by (intro ranI[of _ j]) simp
    qed
    then show ?thesis by (simp add: M'_def)
  qed
  have "slots_ok kf ?ys M' m'" unfolding slots_ok_def
  proof (intro conjI allI impI)
    show "pool_inv (btn_pool m')" "pool_used (btn_pool m') = ran M'" using m1(3,4) ranM q1(1) by simp_all
    show "(M' j = None) = (bucket kf ?ys j = [])" for j
      using ok b unfolding slots_ok_def by (cases "j = ?k") (auto simp: M'_def bucket_remove1)
    fix j c assume jc: "M' j = Some c"
    then have Mj: "M j = Some c" by (auto simp: M'_def split: if_splits)
    show "n_ddn_head (btn m' c) = bucket kf ?ys j"
    proof (cases "c = b")
      case True
      then show ?thesis using only[of j] Mj q2 by simp
    next
      case False
      then have "j \<noteq> ?k" using Mj b by auto
      then show ?thesis using False Mj ok q2 unfolding slots_ok_def by (simp add: bucket_remove1)
    qed
    show "\<forall>x \<in> set (bucket kf ?ys j). d_parent (ddn m' x) = Some c"
    proof
      fix x assume x: "x \<in> set (bucket kf ?ys j)"
      then have "x \<noteq> a" "x \<in> set (bucket kf xs j)" using a(2) by (auto simp: set_bucket)
      then show "d_parent (ddn m' x) = Some c" using Mj ok q1(2) m1(6) unfolding slots_ok_def by auto
    qed
  qed
  then have "bse_tree kf ?ys t' m'" using r(2) by (auto simp: bse_tree_def)
  moreover have "d_parent (ddn m a) = Some b" using ok b ab unfolding slots_ok_def by blast
  ultimately show ?thesis using that r(1) q1(2) m1(6) by (simp add: bt_parents_def)
qed

end
