(* ===== verification/Bfe.thy ===== *)
theory Bfe
  imports Bse_Store
begin

text \<open>
  The state that the search engine \<open>cache/bse.c\<close> and the synchronous flush engine \<open>cache/bfe-sync.c\<close> of a write cache share,
  the node allocator \<open>mm/ddn.c\<close>, and the operations of the flush engine that the search engine calls while it
  inserts a node: nodes join the flush list of their page, are extended, cut and dropped, and \<open>pp_flushed\<close> counts
  the bytes of the page that need no more flushing. \<open>ram\<close> and \<open>bufdev\<close> are the bytes of the pages in memory and of
  the buffer device; \<open>None\<close> is a failed assertion.
\<close>

record page_node =
  pp_flush_head :: "node_addr list"
  pp_release_head :: "node_addr list"
  pp_occupied :: int
  pp_flushed :: int

record bse_private =
  smem :: bse_mem
  p_rtree :: "node_addr rtree"
  p_ddn_head :: "node_addr list"
  ddn_pool :: node_pool
  pages :: "nat \<Rightarrow> page_node"
  p_pagesz :: int
  p_max_flush_size :: int
  p_prepare_flush_seq :: u64
  ram :: "int \<Rightarrow> u8"
  bufdev :: "int \<Rightarrow> u8"

abbreviation dn :: "bse_private \<Rightarrow> node_addr \<Rightarrow> data_description_node" where
  "dn S a \<equiv> ddn (smem S) a"

definition dn_upd :: "node_addr \<Rightarrow> (data_description_node \<Rightarrow> data_description_node) \<Rightarrow> bse_private \<Rightarrow> bse_private" where
  "dn_upd a f S = S\<lparr>smem := (smem S)\<lparr>ddn := (ddn (smem S))(a := f (dn S a))\<rparr>\<rparr>"

definition page_upd :: "nat \<Rightarrow> (page_node \<Rightarrow> page_node) \<Rightarrow> bse_private \<Rightarrow> bse_private" where
  "page_upd p f S = S\<lparr>pages := (pages S)(p := f (pages S p))\<rparr>"

definition s32_of :: "int \<Rightarrow> int" where "s32_of x = (x + 2 ^ 31) mod 2 ^ 32 - 2 ^ 31"

lemma s32_of_id [simp]: "- (2 ^ 31) \<le> x \<Longrightarrow> x < 2 ^ 31 \<Longrightarrow> s32_of x = x"
  by (simp add: s32_of_def)

section \<open>Data description nodes\<close>

definition ddn_get_node :: "bse_private \<Rightarrow> (node_addr \<times> bse_private) option" where
  "ddn_get_node S =
     do {
       (a, p) \<leftarrow> node_get_node (ddn_pool S);
       Some (a, dn_upd a (\<lambda>x. x\<lparr>d_user_counter := 1\<rparr>) (S\<lparr>ddn_pool := p\<rparr>))
     }"

definition ddn_put_node :: "node_addr \<Rightarrow> bse_private \<Rightarrow> (int \<times> bse_private) option" where
  "ddn_put_node a S =
     do {
       let left = d_user_counter (dn S a) - 1;
       let S = dn_upd a (\<lambda>x. x\<lparr>d_user_counter := left\<rparr>) S;
       if left \<le> 0 then
         do {
           c_assert (left = 0 \<or> left = - 1);
           p \<leftarrow> node_put_node a (ddn_pool S);
           Some (left, S\<lparr>ddn_pool := p\<rparr>)
         }
       else Some (left, S)
     }"

section \<open>Operations of the flush engine\<close>

definition bfe_right_extend_node :: "node_addr \<Rightarrow> node_addr \<Rightarrow> bse_private \<Rightarrow> (int \<times> bse_private) option" where
  "bfe_right_extend_node np new_np S =
     do {
       c_assert (d_where (dn S new_np) = DDN_WHERE_NO);
       let sum = u32_of (d_len (dn S np) + d_len (dn S new_np));
       if \<not> d_flushing (dn S np) \<and> s32_of sum < p_max_flush_size S
       then Some (0, dn_upd np (\<lambda>x. x\<lparr>d_len := sum\<rparr>) S)
       else Some (1, S)
     }"

definition bfe_add_node :: "node_addr \<Rightarrow> bse_private \<Rightarrow> bse_private option" where
  "bfe_add_node new_np S =
     do {
       let p = d_page_node (dn S new_np);
       let pre = pp_flush_head (pages S p);
       c_assert (d_where (dn S new_np) = DDN_WHERE_NO);
       let S = page_upd p (\<lambda>x. x\<lparr>pp_flush_head := pre @ [new_np]\<rparr>) S;
       let S = dn_upd new_np (\<lambda>x. x\<lparr>d_where := DDN_WHERE_FLUSH\<rparr>) S;
       c_assert (pre \<noteq> [] \<longrightarrow> d_seq (dn S (last pre)) \<le> d_seq (dn S new_np));
       c_assert (u32_of (pp_flushed (pages S p) + d_len (dn S new_np)) \<le> p_pagesz S);
       Some S
     }"

text \<open>The cut operations: the part that is cut off needs no more flushing.\<close>

definition bfe_left_cut_node :: "node_addr \<Rightarrow> int \<Rightarrow> node_addr \<Rightarrow> bse_private \<Rightarrow> bse_private option" where
  "bfe_left_cut_node np cut_len new_np S =
     do {
       let p = d_page_node (dn S np);
       c_assert (d_where (dn S new_np) = DDN_WHERE_NO);
       let S = dn_upd np (\<lambda>x. x\<lparr>d_pos := d_pos x + cut_len, d_offset := d_offset x + cut_len,
                               d_len := u32_of (d_len x - cut_len)\<rparr>) S;
       c_assert (d_len (dn S np) > 0);
       let S = (if d_flushing (dn S np) \<and> \<not> d_flushed (dn S np)
                then dn_upd np (\<lambda>x. x\<lparr>d_flush_pos := d_pos x, d_flush_offset := d_offset x, d_flush_len := d_len x\<rparr>) S
                else S);
       if \<not> d_flush_done (dn S np) then
         do {
           let S = page_upd p (\<lambda>x. x\<lparr>pp_flushed := u32_of (pp_flushed x + cut_len)\<rparr>) S;
           c_assert (pp_flushed (pages S p) < p_pagesz S);
           Some S
         }
       else Some S
     }"

definition bfe_right_cut_node :: "node_addr \<Rightarrow> int \<Rightarrow> node_addr \<Rightarrow> bse_private \<Rightarrow> bse_private option" where
  "bfe_right_cut_node np cut_len new_np S =
     do {
       let p = d_page_node (dn S np);
       c_assert (d_where (dn S new_np) = DDN_WHERE_NO);
       let S = dn_upd np (\<lambda>x. x\<lparr>d_len := u32_of (d_len x - cut_len)\<rparr>) S;
       c_assert (d_len (dn S np) > 0);
       let S = (if d_flushing (dn S np) \<and> \<not> d_flushed (dn S np)
                then dn_upd np (\<lambda>x. x\<lparr>d_flush_len := d_len x\<rparr>) S else S);
       if \<not> d_flush_done (dn S np) then
         do {
           let S = page_upd p (\<lambda>x. x\<lparr>pp_flushed := u32_of (pp_flushed x + cut_len)\<rparr>) S;
           c_assert (pp_flushed (pages S p) < p_pagesz S);
           Some S
         }
       else Some S
     }"

text \<open>A cut out of the middle of a node; \<open>a_np\<close> describes what is left on the right.\<close>

definition bfe_right_cut_node_adjust ::
  "node_addr \<Rightarrow> int \<Rightarrow> node_addr \<Rightarrow> node_addr \<Rightarrow> bse_private \<Rightarrow> (int \<times> bse_private) option" where
  "bfe_right_cut_node_adjust np cut_len a_np new_np S =
     do {
       let p = d_page_node (dn S np);
       let adjust_len = d_len (dn S a_np);
       c_assert (d_where (dn S new_np) = DDN_WHERE_NO);
       let S = dn_upd np (\<lambda>x. x\<lparr>d_len := u32_of (d_len x - cut_len)\<rparr>) S;
       c_assert (d_len (dn S np) > 0);
       c_assert (d_seq (dn S a_np) = d_seq (dn S np));
       if \<not> d_flushed (dn S np) then
         do {
           c_assert (\<not> d_flush_done (dn S np));
           let S = (if d_flushing (dn S np) then
                      (let S = dn_upd np (\<lambda>x. x\<lparr>d_flush_len := d_len x\<rparr>) S
                       in if p_prepare_flush_seq S > d_seq (dn S np)
                          then S\<lparr>p_prepare_flush_seq := d_seq (dn S np)\<rparr> else S)
                    else S);
           let S = dn_upd a_np (\<lambda>x. x\<lparr>d_flushing := False, d_flushed := False, d_flush_done := False,
                                     d_where := DDN_WHERE_FLUSH\<rparr>) S;
           let S = page_upd p (\<lambda>x. x\<lparr>pp_flush_head := pp_flush_head x @ [a_np],
                                    pp_flushed := u32_of (pp_flushed x + (cut_len - adjust_len))\<rparr>) S;
           c_assert (pp_flushed (pages S p) \<le> p_pagesz S);
           Some (0, S)
         }
       else
         do {
           c_assert (d_flushing (dn S np));
           let S = dn_upd a_np (\<lambda>x. x\<lparr>d_flushing := True, d_flushed := True, d_flush_done := True,
                                     d_where := DDN_WHERE_RELEASE\<rparr>) S;
           let S = page_upd p (\<lambda>x. x\<lparr>pp_release_head := pp_release_head x @ [a_np]\<rparr>) S;
           if \<not> d_flush_done (dn S np) then
             do {
               let S = page_upd p (\<lambda>x. x\<lparr>pp_flushed := u32_of (pp_flushed x + cut_len)\<rparr>) S;
               c_assert (pp_flushed (pages S p) \<le> p_pagesz S);
               Some (0, S)
             }
           else Some (0, S)
         }
     }"

definition bfe_del_node :: "node_addr \<Rightarrow> node_addr \<Rightarrow> bse_private \<Rightarrow> bse_private option" where
  "bfe_del_node np new_np S =
     do {
       let p = d_page_node (dn S np);
       c_assert (d_where (dn S new_np) = DDN_WHERE_NO);
       if \<not> d_flushing (dn S np) then
         do {
           c_assert (\<not> d_flushed (dn S np) \<and> \<not> d_flush_done (dn S np));
           c_assert (d_where (dn S np) = DDN_WHERE_FLUSH);
           let S = page_upd p (\<lambda>x. x\<lparr>pp_flushed := u32_of (pp_flushed x + d_len (dn S np))\<rparr>) S;
           c_assert (pp_flushed (pages S p) \<le> p_pagesz S);
           let S = dn_upd np (\<lambda>x. x\<lparr>d_flushing := True, d_flushed := True, d_flushed_back := True,
                                   d_flush_done := True, d_where := DDN_WHERE_RELEASE\<rparr>) S;
           Some (page_upd p (\<lambda>x. x\<lparr>pp_flush_head := remove1 np (pp_flush_head x),
                                  pp_release_head := pp_release_head x @ [np]\<rparr>) S)
         }
       else Some (dn_upd np (\<lambda>x. x\<lparr>d_flushed := True\<rparr>) S)
     }"

end
