(* ===== verification/Bse.thy ===== *)
theory Bse
  imports Bfe
begin

text \<open>
  The buffer search engine \<open>cache/bse.c\<close> of a write cache. All nodes hang on the search list \<open>p_ddn_head\<close>, ordered by
  offset and disjoint; the radix tree leads from an offset to a slot near it. A position on the list
  is the number of nodes up to it: \<open>pre_list\<close> at \<open>i\<close> is the \<open>i\<close>-th node, or the head if \<open>i = 0\<close>, and the
  node behind it is \<open>p_ddn_head ! i\<close>. The operations here are the calls as a thread executes them when no other thread runs inside them. In the
  code, one write thread inserts while a pool of threads reads (\<open>cache/bwc.c\<close>), and an insertion gives up the exclusive lock
  between its parts: each part (\<open>bse_right_extend\<close>, \<open>bse_right_cut_adjust\<close>, \<open>bse_left_cut_adjust\<close>, \<open>bse_remove_ddn\<close>, \<open>bse_add_ddn\<close>) is
  one section of the lock, and theory \<open>Bfe_Window\<close> is about what others find between two of them.
  There are no snapshots (nothing calls \<open>bse_create_snapshot\<close>, and the search in a snapshot is not written).
\<close>

definition BSE_SLOT_SHIFT :: nat where "BSE_SLOT_SHIFT = 14"
definition BSE_MAX_TO_READ_DDN :: nat where "BSE_MAX_TO_READ_DDN = 1024"

definition slot_key :: "int \<Rightarrow> u64" where
  "slot_key off = of_int (drop_bit BSE_SLOT_SHIFT off)"

definition node_end :: "data_description_node \<Rightarrow> int" where
  "node_end x = d_offset x + d_len x - 1"

section \<open>Finding the place of a range\<close>

fun bse_walk_back :: "bse_private \<Rightarrow> int \<Rightarrow> nat \<Rightarrow> nat" where
  "bse_walk_back S soffset 0 = 0"
| "bse_walk_back S soffset (Suc i) =
     (if node_end (dn S (p_ddn_head S ! i)) < soffset then Suc i else bse_walk_back S soffset i)"

definition bse_search_pre_node :: "int \<Rightarrow> bse_private \<Rightarrow> nat option" where
  "bse_search_pre_node soffset S =
     do {
       slot \<leftarrow> rtree_search_around (p_rtree S) (slot_key soffset);
       (case slot of
          Null \<Rightarrow>
            if p_ddn_head S \<noteq> [] then
              Some (if d_offset (dn S (last (p_ddn_head S))) > soffset then 0 else length (p_ddn_head S))
            else Some 0
        | Item b \<Rightarrow>
            do {
              c_assert (n_ddn_head (btn (smem S) b) \<noteq> []);
              let np = hd (n_ddn_head (btn (smem S) b));
              c_assert (np \<in> set (p_ddn_head S));
              Some (bse_walk_back S soffset (Suc (length (takeWhile (\<lambda>y. y \<noteq> np) (p_ddn_head S)))))
            }
        | Node _ \<Rightarrow> None)
     }"

text \<open>The loop over the nodes behind \<open>pre_list\<close>; \<open>cur\<close> is the position in front of the node.\<close>

fun bse_scan ::
  "(node_addr \<Rightarrow> data_description_node) \<Rightarrow> int \<Rightarrow> int \<Rightarrow> node_addr list \<Rightarrow> nat \<Rightarrow> nat \<Rightarrow> bool \<Rightarrow> (nat \<times> nat \<times> bool) option" where
  "bse_scan d soffset range_end [] cur pre pre_done = Some (pre, cur, pre_done)"
| "bse_scan d soffset range_end (np # nps) cur pre pre_done =
     (if node_end (d np) < soffset then
        do { c_assert (\<not> pre_done); bse_scan d soffset range_end nps (Suc cur) (Suc cur) pre_done }
      else if range_end < d_offset (d np) then Some (pre, cur, True)
      else bse_scan d soffset range_end nps (Suc cur) pre True)"

text \<open>The positions of \<open>pre_list\<close> and \<open>post_list\<close>: the nodes between them overlap the range.\<close>

definition bse_overlap :: "int \<Rightarrow> int \<Rightarrow> bse_private \<Rightarrow> (nat \<times> nat) option" where
  "bse_overlap soffset range_end S =
     do {
       pre \<leftarrow> bse_search_pre_node soffset S;
       (pre, post, pre_done) \<leftarrow> bse_scan (ddn (smem S)) soffset range_end (drop pre (p_ddn_head S)) pre pre False;
       c_assert (pre_done \<or> pre = post \<and> post = length (p_ddn_head S));
       Some (pre, post)
     }"

section \<open>Reading\<close>

record sub_request_node =
  sr_buf :: int
  sr_offset :: int
  sr_len :: int

record to_read =
  to_read_databuf :: int
  to_read_offset :: int
  to_read_size :: int
  to_read_ddn :: node_addr

text \<open>What a search builds up: the response memory, the parts not found, the reads from the buffer device.\<close>

record bse_search_state =
  ss_bse :: bse_private
  ss_resp :: "int \<Rightarrow> u8"
  ss_not_found :: "sub_request_node list"
  ss_to_read :: "to_read list"

definition mem_copy :: "int \<Rightarrow> (int \<Rightarrow> u8) \<Rightarrow> int \<Rightarrow> int \<Rightarrow> (int \<Rightarrow> u8) \<Rightarrow> int \<Rightarrow> u8" where
  "mem_copy dest src_mem src sz m = (\<lambda>i. if dest \<le> i \<and> i < dest + sz then src_mem (src + (i - dest)) else m i)"

definition fill_buffer_content :: "int \<Rightarrow> int \<Rightarrow> int \<Rightarrow> node_addr \<Rightarrow> bse_search_state \<Rightarrow> bse_search_state option" where
  "fill_buffer_content dest src sz np R =
     (let S = ss_bse R in
      if d_location_disk (dn S np) then
        do {
          c_assert (length (ss_to_read R) < BSE_MAX_TO_READ_DDN);
          Some (R\<lparr>ss_bse := dn_upd np (\<lambda>x. x\<lparr>d_user_counter := d_user_counter x + 1\<rparr>) S,
                  ss_to_read := ss_to_read R @
                    [\<lparr>to_read_databuf = dest, to_read_offset = src, to_read_size = sz, to_read_ddn = np\<rparr>]\<rparr>)
        }
      else Some (R\<lparr>ss_resp := mem_copy dest (ram S) src sz (ss_resp R)\<rparr>))"

definition sr_not_found :: "int \<Rightarrow> int \<Rightarrow> int \<Rightarrow> bse_search_state \<Rightarrow> bse_search_state" where
  "sr_not_found buf off len R = R\<lparr>ss_not_found := ss_not_found R @ [\<lparr>sr_buf = buf, sr_offset = off, sr_len = len\<rparr>]\<rparr>"

text \<open>The loop over the nodes behind the first one that overlaps; \<open>pre_m_end\<close> is the end of the node before.\<close>

fun bse_search_middle :: "int \<Rightarrow> int \<Rightarrow> int \<Rightarrow> node_addr list \<Rightarrow> bse_search_state \<Rightarrow> bse_search_state option" where
  "bse_search_middle sbuf soffset pre_m_end [] R = Some R"
| "bse_search_middle sbuf soffset pre_m_end (m_np # nps) R =
     do {
       let m = dn (ss_bse R) m_np;
       let sub_len = u32_of (d_offset m - (pre_m_end + 1));
       let R = (if sub_len > 0
                then sr_not_found (sbuf + (pre_m_end + 1 - soffset)) (soffset + (pre_m_end + 1 - soffset)) sub_len R
                else R);
       R \<leftarrow> (if nps \<noteq> [] then fill_buffer_content (sbuf + (d_offset m - soffset)) (d_pos m) (d_len m) m_np R else Some R);
       bse_search_middle sbuf soffset (node_end m) nps R
     }"

definition bse_search_one :: "int \<Rightarrow> int \<Rightarrow> int \<Rightarrow> node_addr \<Rightarrow> bse_search_state \<Rightarrow> bse_search_state option" where
  "bse_search_one sbuf slen soffset first_np R =
     (let first = dn (ss_bse R) first_np;
          srange_end = soffset + slen - 1
      in
      if soffset < d_offset first then
        do {
          let sub_len = u32_of (d_offset first - soffset);
          let R = sr_not_found sbuf soffset sub_len R;
          if srange_end \<le> node_end first then
            do {
              c_assert (srange_end \<ge> d_offset first);
              fill_buffer_content (sbuf + sub_len) (d_pos first) (u32_of (slen - sub_len)) first_np R
            }
          else
            do {
              R \<leftarrow> fill_buffer_content (sbuf + sub_len) (d_pos first) (d_len first) first_np R;
              let sub_len = u32_of (sub_len + d_len first);
              Some (sr_not_found (sbuf + sub_len) (soffset + sub_len) (u32_of (slen - sub_len)) R)
            }
        }
      else if srange_end \<le> node_end first then
        fill_buffer_content sbuf (d_pos first + (soffset - d_offset first)) slen first_np R
      else
        do {
          let sub_len = u32_of (node_end first + 1 - soffset);
          R \<leftarrow> fill_buffer_content sbuf (d_pos first + (soffset - d_offset first)) sub_len first_np R;
          Some (sr_not_found (sbuf + sub_len) (soffset + sub_len) (u32_of (slen - sub_len)) R)
        })"

definition bse_search_many :: "int \<Rightarrow> int \<Rightarrow> int \<Rightarrow> node_addr \<Rightarrow> node_addr list \<Rightarrow> bse_search_state \<Rightarrow> bse_search_state option" where
  "bse_search_many sbuf slen soffset first_np nps R =
     do {
       let srange_end = soffset + slen - 1;
       let first = dn (ss_bse R) first_np;
       R \<leftarrow> (if soffset < d_offset first then
                do {
                  let sub_len = u32_of (d_offset first - soffset);
                  let R = sr_not_found sbuf soffset sub_len R;
                  fill_buffer_content (sbuf + sub_len) (d_pos first) (d_len first) first_np R
                }
              else
                do {
                  let sub_len = u32_of (soffset - d_offset first);
                  fill_buffer_content sbuf (d_pos first + sub_len) (u32_of (d_len first - sub_len)) first_np R
                });
       R \<leftarrow> bse_search_middle sbuf soffset (node_end first) nps R;
       let last_np = last nps;
       let lst = dn (ss_bse R) last_np;
       let sub_len = u32_of (d_offset lst - soffset);
       if srange_end \<le> node_end lst then
         fill_buffer_content (sbuf + sub_len) (d_pos lst) (u32_of (slen - sub_len)) last_np R
       else
         do {
           R \<leftarrow> fill_buffer_content (sbuf + sub_len) (d_pos lst) (d_len lst) last_np R;
           let sub_len = u32_of (sub_len + d_len lst);
           Some (sr_not_found (sbuf + sub_len) (soffset + sub_len) (u32_of (slen - sub_len)) R)
         }
     }"

definition bse_search_range :: "int \<Rightarrow> int \<Rightarrow> int \<Rightarrow> bse_search_state \<Rightarrow> bse_search_state option" where
  "bse_search_range sbuf slen soffset R =
     do {
       (pre, post) \<leftarrow> bse_overlap soffset (soffset + slen - 1) (ss_bse R);
       (case take (post - pre) (drop pre (p_ddn_head (ss_bse R))) of
          [] \<Rightarrow> Some (sr_not_found sbuf soffset slen R)
        | [first_np] \<Rightarrow> bse_search_one sbuf slen soffset first_np R
        | first_np # nps \<Rightarrow> bse_search_many sbuf slen soffset first_np nps R)
     }"

text \<open>The reads from the buffer device, after the lock is given back.\<close>

fun bse_read_all :: "to_read list \<Rightarrow> bse_private \<Rightarrow> (int \<Rightarrow> u8) \<Rightarrow> (bse_private \<times> (int \<Rightarrow> u8)) option" where
  "bse_read_all [] S resp = Some (S, resp)"
| "bse_read_all (r # rs) S resp =
     do {
       let resp = mem_copy (to_read_databuf r) (bufdev S) (to_read_offset r) (to_read_size r) resp;
       let S = dn_upd (to_read_ddn r) (\<lambda>x. x\<lparr>d_user_counter := d_user_counter x - 1\<rparr>) S;
       c_assert (d_user_counter (dn S (to_read_ddn r)) > 0);
       bse_read_all rs S resp
     }"

record request_node =
  r_offset :: int
  r_len :: int
  r_resp_len_1 :: int
  r_resp_buf_1 :: int
  r_resp_buf_2 :: int

definition bse_search :: "request_node \<Rightarrow> bse_private \<Rightarrow> (int \<Rightarrow> u8) \<Rightarrow> (bse_private \<times> (int \<Rightarrow> u8) \<times> sub_request_node list) option" where
  "bse_search rn S resp =
     do {
       R \<leftarrow> bse_search_range (r_resp_buf_1 rn) (r_resp_len_1 rn) (r_offset rn)
              \<lparr>ss_bse = S, ss_resp = resp, ss_not_found = [], ss_to_read = []\<rparr>;
       R \<leftarrow> (if r_resp_len_1 rn < r_len rn
              then bse_search_range (r_resp_buf_2 rn) (u32_of (r_len rn - r_resp_len_1 rn)) (r_offset rn + r_resp_len_1 rn) R
              else Some R);
       c_assert (length (ss_to_read R) \<le> BSE_MAX_TO_READ_DDN);
       (S, resp) \<leftarrow> bse_read_all (ss_to_read R) (ss_bse R) (ss_resp R);
       Some (S, resp, ss_not_found R)
     }"

section \<open>Writing\<close>

definition bse_right_extend :: "node_addr option \<Rightarrow> node_addr \<Rightarrow> bse_private \<Rightarrow> (int \<times> bse_private) option" where
  "bse_right_extend np new_np S =
     (case np of
        None \<Rightarrow> Some (- 1, S)
      | Some np \<Rightarrow>
          (let np_end = u32_of (node_end (dn S np)) in
           if u32_of (np_end + 1) = d_offset (dn S new_np) \<and> d_page_node (dn S np) = d_page_node (dn S new_np) \<and>
             d_pos (dn S np) + d_len (dn S np) = d_pos (dn S new_np)
           then bfe_right_extend_node np new_np S
           else Some (- 1, S)))"

definition bse_right_cut_adjust :: "node_addr \<Rightarrow> int \<Rightarrow> node_addr option \<Rightarrow> node_addr \<Rightarrow> bse_private \<Rightarrow> (int \<times> bse_private) option" where
  "bse_right_cut_adjust np cut_len a_np new_np S =
     (case a_np of
        Some a \<Rightarrow> bfe_right_cut_node_adjust np cut_len a new_np S
      | None \<Rightarrow> do { S \<leftarrow> bfe_right_cut_node np cut_len new_np S; Some (0, S) })"

definition bse_rt_hint_remove :: "int \<Rightarrow> node_addr \<Rightarrow> bse_private \<Rightarrow> bse_private option" where
  "bse_rt_hint_remove off np S =
     do {
       slot \<leftarrow> d_parent (dn S np);
       (_, t, m) \<leftarrow> rtree_hint_remove bse_cb (slot_key off) np (bt_parent (btn (smem S) slot)) (p_rtree S) (smem S);
       Some (S\<lparr>p_rtree := t, smem := m\<rparr>)
     }"

definition bse_rt_insert :: "int \<Rightarrow> node_addr \<Rightarrow> bse_private \<Rightarrow> bse_private option" where
  "bse_rt_insert off np S =
     do {
       (_, t, m) \<leftarrow> rtree_insert bse_cb (slot_key off) np (p_rtree S) (smem S);
       Some (S\<lparr>p_rtree := t, smem := m\<rparr>)
     }"

definition bse_left_cut_adjust :: "node_addr \<Rightarrow> int \<Rightarrow> node_addr \<Rightarrow> bse_private \<Rightarrow> bse_private option" where
  "bse_left_cut_adjust np cut_len new_np S =
     do {
       S \<leftarrow> bfe_left_cut_node np cut_len new_np S;
       let new_off = d_offset (dn S np);
       let old_off = d_offset (dn S np) - cut_len;
       if slot_key new_off = slot_key old_off then Some S
       else do { S \<leftarrow> bse_rt_hint_remove old_off np S; bse_rt_insert new_off np S }
     }"

definition bse_remove_ddn :: "node_addr \<Rightarrow> node_addr \<Rightarrow> bse_private \<Rightarrow> bse_private option" where
  "bse_remove_ddn np new_np S =
     do {
       S \<leftarrow> bse_rt_hint_remove (d_offset (dn S np)) np S;
       S \<leftarrow> bfe_del_node np new_np S;
       Some (S\<lparr>p_ddn_head := remove1 np (p_ddn_head S)\<rparr>)
     }"

text \<open>\<open>pre\<close> is the position behind which the node goes.\<close>

definition bse_add_ddn :: "node_addr \<Rightarrow> nat \<Rightarrow> bse_private \<Rightarrow> bse_private option" where
  "bse_add_ddn np pre S =
     do {
       let xs = p_ddn_head S;
       c_assert (pre > 0 \<longrightarrow> node_end (dn S (xs ! (pre - 1))) < d_offset (dn S np));
       c_assert (pre < length xs \<longrightarrow> node_end (dn S np) < d_offset (dn S (xs ! pre)));
       bse_rt_insert (d_offset (dn S np)) np (S\<lparr>p_ddn_head := take pre xs @ np # drop pre xs\<rparr>)
     }"

text \<open>The end of three branches of \<open>__bse_insert_node\<close>: the new node is merged into the node before it, or added.\<close>

definition bse_merge_or_add :: "node_addr option \<Rightarrow> nat \<Rightarrow> node_addr \<Rightarrow> bse_private \<Rightarrow> bse_private option" where
  "bse_merge_or_add pre_np pos new_np S =
     do {
       (rc, S) \<leftarrow> bse_right_extend pre_np new_np S;
       if rc = 0 then
         (if d_where (dn S new_np) = DDN_WHERE_NO then do { (_, S) \<leftarrow> ddn_put_node new_np S; Some S }
          else do { c_assert (d_where (dn S new_np) = DDN_WHERE_SHADOW); Some S })
       else do { S \<leftarrow> bse_add_ddn new_np pos S; bfe_add_node new_np S }
     }"

fun bse_remove_all :: "node_addr list \<Rightarrow> node_addr \<Rightarrow> bse_private \<Rightarrow> bse_private option" where
  "bse_remove_all [] new_np S = Some S"
| "bse_remove_all (m_np # nps) new_np S = do { S \<leftarrow> bse_remove_ddn m_np new_np S; bse_remove_all nps new_np S }"

text \<open>A new node that starts inside the only node it overlaps.\<close>

definition bse_insert_inside :: "node_addr \<Rightarrow> nat \<Rightarrow> node_addr \<Rightarrow> bse_private \<Rightarrow> bse_private option" where
  "bse_insert_inside first_np pre new_np S =
     do {
       let first = dn S first_np;
       let new_end = node_end (dn S new_np);
       let cut_len = u32_of (node_end first - d_offset (dn S new_np) + 1);
       let adjust_len = (if new_end < node_end first then u32_of (node_end first - new_end) else 0);
       S \<leftarrow> (if adjust_len \<noteq> 0 then
               do {
                 (np, S) \<leftarrow> ddn_get_node S;
                 let S = dn_upd np (\<lambda>x. x\<lparr>d_seq := d_seq first, d_page_node := d_page_node first,
                           d_pos := d_pos first + (new_end - d_offset first + 1), d_offset := new_end + 1,
                           d_len := adjust_len, d_released := d_released first, d_where := DDN_WHERE_NO,
                           d_flush_overwritten := 0, d_location_disk := d_location_disk first\<rparr>) S;
                 (rc, S) \<leftarrow> bse_right_cut_adjust first_np cut_len (Some np) new_np S;
                 c_assert (rc = 0);
                 bse_add_ddn np (Suc pre) S
               }
             else do { (_, S) \<leftarrow> bse_right_cut_adjust first_np cut_len None new_np S; Some S });
       S \<leftarrow> bse_add_ddn new_np (Suc pre) S;
       bfe_add_node new_np S
     }"

definition bse_insert_node :: "node_addr \<Rightarrow> bse_private \<Rightarrow> bse_private option" where
  "bse_insert_node new_np S =
     do {
       let new_off = d_offset (dn S new_np);
       let new_end = node_end (dn S new_np);
       (pre, post) \<leftarrow> bse_overlap new_off new_end S;
       let pre_np = (if pre > 0 then Some (p_ddn_head S ! (pre - 1)) else None);
       (case take (post - pre) (drop pre (p_ddn_head S)) of
          [] \<Rightarrow> bse_merge_or_add pre_np pre new_np S
        | [first_np] \<Rightarrow>
            if new_off \<le> d_offset (dn S first_np) then
              do {
                S \<leftarrow> (if new_end < node_end (dn S first_np)
                       then bse_left_cut_adjust first_np (u32_of (new_end - d_offset (dn S first_np) + 1)) new_np S
                       else bse_remove_ddn first_np new_np S);
                bse_merge_or_add pre_np pre new_np S
              }
            else bse_insert_inside first_np pre new_np S
        | first_np # nps \<Rightarrow>
            do {
              let first_removed = (new_off \<le> d_offset (dn S first_np));
              S \<leftarrow> (if first_removed then bse_remove_ddn first_np new_np S
                     else map_option snd (bse_right_cut_adjust first_np
                       (u32_of (node_end (dn S first_np) - new_off + 1)) None new_np S));
              S \<leftarrow> bse_remove_all (butlast nps) new_np S;
              let last_np = last nps;
              S \<leftarrow> (if new_end < node_end (dn S last_np)
                     then bse_left_cut_adjust last_np (u32_of (new_end - d_offset (dn S last_np) + 1)) new_np S
                     else bse_remove_ddn last_np new_np S);
              bse_merge_or_add pre_np (if first_removed then pre else Suc pre) new_np S
            })
     }"

fun bse_add_list :: "node_addr list \<Rightarrow> bse_private \<Rightarrow> bse_private option" where
  "bse_add_list [] S = Some S"
| "bse_add_list (np # nps) S = do { S \<leftarrow> bse_insert_node np S; bse_add_list nps S }"

text \<open>After it has unlinked the node, \<open>bse_del_node\<close> waits until no reader uses it. \<open>None\<close> is also a wait that the state does
  not end: a call that a reader keeps waiting is not followed further.\<close>

definition bse_del_node :: "node_addr \<Rightarrow> bse_private \<Rightarrow> bse_private option" where
  "bse_del_node np S =
     do {
       S \<leftarrow> (if np \<in> set (p_ddn_head S)
              then bse_rt_hint_remove (d_offset (dn S np)) np (S\<lparr>p_ddn_head := remove1 np (p_ddn_head S)\<rparr>)
              else Some S);
       c_assert (d_user_counter (dn S np) = 1);
       Some S
     }"

end
