(* ===== verification/Bfe_Flush.thy ===== *)
theory Bfe_Flush
  imports Bse
begin

text \<open>
  The flush thread of a write cache, \<open>cache/bfe-sync.c\<close>, and the release engine \<open>cache/bre.c\<close> that takes the pages
  it has written. The flush thread takes the nodes from the flush list of the oldest page, writes each of them with its contiguous neighbours in the
  search list in one vectored write, and counts the bytes as flushed; a page that is full and flushed is given to the
  release engine, which deletes its nodes from the search engine and frees the page. \<open>target\<close> has the bytes of the device below the cache. A
  vectored write stores all bytes: \<open>drw_pwritev\<close> repeats a short write, and the flush engine aborts on a failed one.
  Modelled is the branch of a cache without read cache (\<open>p_rc\<close> null, \<open>do_fp\<close> 0); time stamps and log lines are
  left out, and so is \<open>rw_sync\<close>, which changes no bytes. \<open>None\<close> is a failed assertion, or a lock taken twice. Pages are named by numbers: the page pool
  hands out a page under a new number each time, and frees it once.
\<close>

section \<open>State\<close>

definition BFE_MAX_IOV :: nat where "BFE_MAX_IOV = 512"
definition PP_WHERE_FLUSH :: nat where "PP_WHERE_FLUSH = 3"
definition PP_WHERE_FLUSHING_DONE :: nat where "PP_WHERE_FLUSHING_DONE = 5"
definition PP_WHERE_RELEASE :: nat where "PP_WHERE_RELEASE = 6"

record flush_page =
  pp_where :: nat
  pp_last_flush_seq :: u64
  pp_coalesced :: int

record bre_private =
  p_page_head :: "nat list"
  p_coalesced_page_head :: "nat list"
  p_to_page_head :: "nat list"
  p_to_coalesced_page_head :: "nat list"
  p_page_counter :: int
  br_stop :: bool
  p_dropcache :: bool
  p_sequence_mode :: bool
  p_free :: "nat list"

record bfe_private =
  fb :: bse_private
  fpage :: "nat \<Rightarrow> flush_page"
  target :: "int \<Rightarrow> u8"
  p_flush_buffer :: "int \<Rightarrow> u8"
  p_flush_page_head :: "nat list"
  p_flush_page_counter :: int
  p_seq_to_flush :: u64
  p_last_seq_flushed :: u64
  p_seq_updated :: u64
  p_coalesce_flush_counter :: u64
  p_coalesce_flush_back_counter :: u64
  p_coalesce_index :: u64
  p_flush_counter :: u64
  p_flush_back_counter :: u64
  p_vec_stat :: bool
  p_total_flushsize :: u64
  p_total_vecnum :: u64
  p_flush_num :: int
  p_ssd_mode :: bool
  p_stop :: bool
  wc_flush_updates :: "u64 list"
  p_bre :: bre_private

definition fpage_upd :: "nat \<Rightarrow> (flush_page \<Rightarrow> flush_page) \<Rightarrow> bfe_private \<Rightarrow> bfe_private" where
  "fpage_upd p f B = B\<lparr>fpage := (fpage B)(p := f (fpage B p))\<rparr>"

text \<open>The limit for one write comes in megabytes; the flush buffer has that size.\<close>

definition bfes_initialization ::
  "bse_private \<Rightarrow> (nat \<Rightarrow> flush_page) \<Rightarrow> (int \<Rightarrow> u8) \<Rightarrow> (int \<Rightarrow> u8) \<Rightarrow> int \<Rightarrow> bool \<Rightarrow> bre_private \<Rightarrow> bfe_private" where
  "bfes_initialization S fp T buf max_flush_size ssd_mode bre =
     \<lparr>fb = S\<lparr>p_prepare_flush_seq := - 1, p_max_flush_size := s32_of (max_flush_size * 2 ^ 20)\<rparr>, fpage = fp, target = T,
      p_flush_buffer = buf, p_flush_page_head = [], p_flush_page_counter = 0, p_seq_to_flush = 0, p_last_seq_flushed = 0, p_seq_updated = 0,
      p_coalesce_flush_counter = 0, p_coalesce_flush_back_counter = 0, p_coalesce_index = 0, p_flush_counter = 0, p_flush_back_counter = 0,
      p_vec_stat = False, p_total_flushsize = 0, p_total_vecnum = 0, p_flush_num = 0, p_ssd_mode = ssd_mode, p_stop = False,
      wc_flush_updates = [], p_bre = bre\<rparr>"

definition bfe_close :: "bfe_private \<Rightarrow> bfe_private" where
  "bfe_close B = B\<lparr>p_stop := True\<rparr>"

definition bfe_vec_start :: "bfe_private \<Rightarrow> bfe_private" where
  "bfe_vec_start B = B\<lparr>p_vec_stat := True, p_flush_num := 0, p_total_vecnum := 0, p_total_flushsize := 0\<rparr>"

definition bfe_vec_stop :: "bfe_private \<Rightarrow> bfe_private" where
  "bfe_vec_stop B = B\<lparr>p_vec_stat := False\<rparr>"

definition bfe_reset_coalesce_index :: "bfe_private \<Rightarrow> bfe_private" where
  "bfe_reset_coalesce_index B = B\<lparr>p_coalesce_index := 0\<rparr>"

text \<open>The extent that is or would be flushed: the code tests \<open>d_flushing\<close> and takes one pair of fields or the other.\<close>

definition flush_start :: "data_description_node \<Rightarrow> int" where
  "flush_start x = (if d_flushing x then d_flush_offset x else d_offset x)"

definition flush_size :: "data_description_node \<Rightarrow> int" where
  "flush_size x = (if d_flushing x then d_flush_len x else d_len x)"

section \<open>The search engine's part: bounds and traversal\<close>

text \<open>The walk down from a node to the first node of its contiguous run; the last argument has the nodes in front, nearest first.\<close>

fun low_bound_walk ::
  "(node_addr \<Rightarrow> data_description_node) \<Rightarrow> nat \<Rightarrow> int \<Rightarrow> int \<Rightarrow> node_addr \<Rightarrow> node_addr list \<Rightarrow> node_addr" where
  "low_bound_walk d mx max_size cur_max_size cur [] = cur"
| "low_bound_walk d 0 max_size cur_max_size cur (pre # pres) = cur"
| "low_bound_walk d (Suc mx) max_size cur_max_size cur (pre # pres) =
     (if d_where (d pre) = DDN_WHERE_NO then cur
      else if d_flushing (d pre) \<and> d_flushed (d pre) then cur
      else if max_size \<noteq> 0 \<and> cur_max_size < s32_of (flush_size (d pre)) then cur
      else if flush_start (d pre) + flush_size (d pre) = flush_start (d cur) then
        low_bound_walk d mx max_size (if max_size \<noteq> 0 then s32_of (cur_max_size - flush_size (d pre)) else cur_max_size) pre pres
      else cur)"

definition bse_contiguous_low_bound :: "node_addr \<Rightarrow> nat \<Rightarrow> int \<Rightarrow> bse_private \<Rightarrow> node_addr option" where
  "bse_contiguous_low_bound dnp mx max_size S =
     do {
       c_assert (\<not> d_flushed (dn S dnp) \<and> d_flushing (dn S dnp));
       Some (if dnp \<in> set (p_ddn_head S)
             then low_bound_walk (ddn (smem S)) mx max_size max_size dnp (rev (takeWhile (\<lambda>y. y \<noteq> dnp) (p_ddn_head S)))
             else dnp)
     }"

fun list_after :: "'a \<Rightarrow> 'a list \<Rightarrow> 'a option" where
  "list_after a [] = None"
| "list_after a (x # xs) = (if x = a then (case xs of [] \<Rightarrow> None | y # ys \<Rightarrow> Some y) else list_after a xs)"

text \<open>The node under \<open>p_traverse_cur\<close> is returned, and \<open>p_traverse_cur\<close> moves on.\<close>

definition bse_traverse_next :: "bse_private \<Rightarrow> node_addr option \<Rightarrow> node_addr option \<times> node_addr option" where
  "bse_traverse_next S cur =
     (case cur of
        None \<Rightarrow> (None, None)
      | Some c \<Rightarrow>
          (Some c, case list_after c (p_ddn_head S) of
                     None \<Rightarrow> None
                   | Some n \<Rightarrow> if d_where (dn S n) = DDN_WHERE_NO then None else Some n))"

section \<open>One vectored write\<close>

text \<open>\<open>iov_base\<close> is an address in the flush buffer (\<open>True\<close>) or in the memory of the pages.\<close>

record iovec =
  iov_base :: "bool \<times> int"
  iov_len :: int

record extend_state =
  es_bse :: bse_private
  es_vec :: "(node_addr \<times> iovec) list"
  es_got_me :: bool
  es_write_size :: int
  es_data_buf :: int
  es_coalesce :: u64

definition extend_take :: "node_addr \<Rightarrow> node_addr \<Rightarrow> extend_state \<Rightarrow> extend_state option" where
  "extend_take dnp cur E =
     do {
       let S = es_bse E;
       let S = (if d_flushing (dn S cur) then S
                else dn_upd cur (\<lambda>x. x\<lparr>d_flushing := True, d_flush_offset := d_offset x, d_flush_len := d_len x, d_flush_pos := d_pos x\<rparr>) S);
       let x = dn S cur;
       c_assert (d_location_disk x \<longrightarrow> p_max_flush_size S \<ge> s32_of (d_flush_len x));
       let v = \<lparr>iov_base = (if d_location_disk x then (True, es_data_buf E) else (False, d_flush_pos x)), iov_len = d_flush_len x\<rparr>;
       let size = s32_of (es_write_size E + d_flush_len x);
       c_assert (size \<le> p_max_flush_size S);
       Some (E\<lparr>es_bse := dn_upd cur (\<lambda>x. x\<lparr>d_flushed := True\<rparr>) S, es_vec := es_vec E @ [(cur, v)],
              es_data_buf := (if d_location_disk x then es_data_buf E + d_flush_len x else es_data_buf E),
              es_coalesce := (if cur \<noteq> dnp then es_coalesce E + 1 else es_coalesce E), es_write_size := size\<rparr>)
     }"

text \<open>The first argument counts the entries left in the vector.\<close>

fun extend_collect :: "nat \<Rightarrow> node_addr \<Rightarrow> node_addr option \<Rightarrow> node_addr option \<Rightarrow> extend_state \<Rightarrow> extend_state option" where
  "extend_collect 0 dnp trav pre E = Some E"
| "extend_collect (Suc n) dnp trav pre E =
     (case bse_traverse_next (es_bse E) trav of
        (None, _) \<Rightarrow> Some E
      | (Some cur, trav') \<Rightarrow>
          do {
            let S = es_bse E;
            let E = E\<lparr>es_got_me := es_got_me E \<or> cur = dnp\<rparr>;
            let x = dn S cur;
            if d_flushed x then Some E
            else do {
              c_assert (\<not> d_flush_done x);
              if (case pre of None \<Rightarrow> False | Some p \<Rightarrow> d_flush_offset (dn S p) + d_flush_len (dn S p) \<noteq> flush_start x)
              then do { c_assert (cur \<noteq> dnp); Some E }
              else if p_max_flush_size S \<noteq> 0 \<and> s32_of (u32_of (es_write_size E + flush_size x)) > p_max_flush_size S \<and> cur \<noteq> dnp
              then Some E
              else do { E \<leftarrow> extend_take dnp cur E; extend_collect n dnp trav' (Some cur) E }
            }
          })"

text \<open>The parts that are on the buffer device are read into the flush buffer, then the vector is written.\<close>

fun extend_read :: "bse_private \<Rightarrow> (node_addr \<times> iovec) list \<Rightarrow> (int \<Rightarrow> u8) \<Rightarrow> int \<Rightarrow> u8" where
  "extend_read S [] buf = buf"
| "extend_read S ((cur, v) # vs) buf =
     extend_read S vs
       (if d_location_disk (dn S cur)
        then mem_copy (snd (iov_base v)) (bufdev S) (d_flush_pos (dn S cur)) (d_flush_len (dn S cur)) buf else buf)"

fun rw_pwritev :: "(int \<Rightarrow> u8) \<Rightarrow> (int \<Rightarrow> u8) \<Rightarrow> iovec list \<Rightarrow> int \<Rightarrow> (int \<Rightarrow> u8) \<Rightarrow> int \<Rightarrow> u8" where
  "rw_pwritev pgmem buf [] off T = T"
| "rw_pwritev pgmem buf (v # vs) off T =
     rw_pwritev pgmem buf vs (off + iov_len v)
       (mem_copy off (if fst (iov_base v) then buf else pgmem) (snd (iov_base v)) (iov_len v) T)"

definition extend_write_request :: "node_addr \<Rightarrow> bfe_private \<Rightarrow> bfe_private option" where
  "extend_write_request dnp B =
     (let S = fb B in
      if d_flushed (dn S dnp) then Some B
      else do {
        let max_flush_size = (if p_max_flush_size S \<noteq> 0 then s32_of (p_max_flush_size S - d_flush_len (dn S dnp)) else 0);
        low_dnp \<leftarrow> bse_contiguous_low_bound dnp (BFE_MAX_IOV - 1) max_flush_size S;
        E \<leftarrow> extend_collect BFE_MAX_IOV dnp (Some low_dnp) None
               \<lparr>es_bse = S, es_vec = [], es_got_me = False, es_write_size = 0, es_data_buf = 0, es_coalesce = p_coalesce_flush_counter B\<rparr>;
        c_assert (es_got_me E);
        let S = es_bse E;
        let buf = extend_read S (es_vec E) (p_flush_buffer B);
        let B = (if p_vec_stat B
                 then B\<lparr>p_total_flushsize := p_total_flushsize B + of_int (es_write_size E),
                        p_total_vecnum := p_total_vecnum B + of_nat (length (es_vec E)), p_flush_num := u32_of (p_flush_num B + 1)\<rparr>
                 else B);
        Some (B\<lparr>fb := S, p_coalesce_flush_counter := es_coalesce E, p_flush_buffer := buf, p_flush_counter := p_flush_counter B + 1,
               target := rw_pwritev (ram S) buf (map snd (es_vec E)) (d_flush_offset (dn S low_dnp)) (target B),
               p_flush_back_counter := p_flush_back_counter B + 1\<rparr>)
      })"

section \<open>One round over a page\<close>

definition note_seq :: "nat \<Rightarrow> u64 \<Rightarrow> bfe_private \<Rightarrow> bfe_private" where
  "note_seq p seq B = (if seq > pp_last_flush_seq (fpage B p) then fpage_upd p (\<lambda>x. x\<lparr>pp_last_flush_seq := seq\<rparr>) B else B)"

text \<open>The nodes of the flush list are taken; the ones already written with another page's node are done.\<close>

fun bfe_collect :: "nat \<Rightarrow> node_addr list \<Rightarrow> node_addr list \<Rightarrow> u64 \<Rightarrow> bfe_private \<Rightarrow> (node_addr list \<times> u64 \<times> bfe_private) option" where
  "bfe_collect p [] to_flush seq B = Some (to_flush, seq, B)"
| "bfe_collect p (np # nps) to_flush seq B =
     do {
       let S = fb B;
       let x = dn S np;
       c_assert (d_where x = DDN_WHERE_FLUSH);
       let S = page_upd p (\<lambda>y. y\<lparr>pp_flush_head := remove1 np (pp_flush_head y)\<rparr>) S;
       (if d_flushed x then
          do {
            c_assert (d_flushing x \<and> \<not> d_flush_done x);
            let S = page_upd p (\<lambda>y. y\<lparr>pp_release_head := pp_release_head y @ [np], pp_flushed := u32_of (pp_flushed y + d_len x)\<rparr>) S;
            c_assert (pp_flushed (pages S p) \<le> p_pagesz S);
            let S = dn_upd np (\<lambda>x. x\<lparr>d_where := DDN_WHERE_RELEASE, d_flush_done := True\<rparr>) S;
            bfe_collect p nps to_flush (d_seq x) (note_seq p (d_seq x) (B\<lparr>fb := S\<rparr>))
          }
        else
          do {
            c_assert (\<not> d_flushing x \<and> \<not> d_flushed x \<and> \<not> d_flush_done x);
            let S = dn_upd np (\<lambda>x. x\<lparr>d_flushing := True, d_flush_offset := d_offset x, d_flush_len := d_len x, d_flush_pos := d_pos x\<rparr>) S;
            bfe_collect p nps (to_flush @ [np]) (d_seq x) (note_seq p (d_seq x) (B\<lparr>fb := S\<rparr>))
          })
     }"

fun bfe_write_nodes :: "node_addr list \<Rightarrow> bfe_private \<Rightarrow> bfe_private option" where
  "bfe_write_nodes [] B = Some B"
| "bfe_write_nodes (np # nps) B =
     do { B \<leftarrow> (if \<not> d_flushed (dn (fb B) np) then extend_write_request np B else Some B); bfe_write_nodes nps B }"

fun finish_nodes :: "nat \<Rightarrow> node_addr list \<Rightarrow> bse_private \<Rightarrow> bse_private option" where
  "finish_nodes p [] S = Some S"
| "finish_nodes p (np # nps) S =
     do {
       let x = dn S np;
       c_assert (d_flushing x \<and> d_flushed x \<and> \<not> d_flush_done x);
       let S = page_upd p (\<lambda>y. y\<lparr>pp_flushed := u32_of (pp_flushed y + d_len x)\<rparr>) S;
       c_assert (pp_flushed (pages S p) \<le> p_pagesz S);
       finish_nodes p nps (dn_upd np (\<lambda>x. x\<lparr>d_where := DDN_WHERE_RELEASE, d_flush_done := True\<rparr>) S)
     }"

section \<open>Releasing a page\<close>

definition bre_upd :: "(bre_private \<Rightarrow> bre_private) \<Rightarrow> bfe_private \<Rightarrow> bfe_private" where
  "bre_upd f B = B\<lparr>p_bre := f (p_bre B)\<rparr>"

definition bre_release_page :: "nat \<Rightarrow> bfe_private \<Rightarrow> bfe_private option" where
  "bre_release_page p B =
     do {
       c_assert (pp_flushed (pages (fb B) p) = pp_occupied (pages (fb B) p));
       c_assert (pp_where (fpage B p) = PP_WHERE_FLUSH);
       let B = (if pp_coalesced (fpage B p) = 0
                then bre_upd (\<lambda>r. r\<lparr>p_page_head := p_page_head r @ [p]\<rparr>) B
                else bre_upd (\<lambda>r. r\<lparr>p_coalesced_page_head := p_coalesced_page_head r @ [p]\<rparr>) B);
       let B = fpage_upd p (\<lambda>x. x\<lparr>pp_where := PP_WHERE_RELEASE\<rparr>) B;
       Some (bre_upd (\<lambda>r. r\<lparr>p_page_counter := u32_of (p_page_counter r + 1)\<rparr>) B)
     }"

fun release_nodes :: "nat \<Rightarrow> node_addr list \<Rightarrow> bse_private \<Rightarrow> bse_private option" where
  "release_nodes p [] S = Some S"
| "release_nodes p (dnp # dnps) S =
     do {
       c_assert (d_where (dn S dnp) = DDN_WHERE_RELEASE);
       let S = page_upd p (\<lambda>y. y\<lparr>pp_release_head := remove1 dnp (pp_release_head y)\<rparr>) S;
       S \<leftarrow> bse_del_node dnp S;
       (left, S) \<leftarrow> ddn_put_node dnp S;
       c_assert (left = 0);
       release_nodes p dnps S
     }"

definition bre_free_page :: "nat \<Rightarrow> bfe_private \<Rightarrow> bfe_private option" where
  "bre_free_page p B =
     do {
       S \<leftarrow> release_nodes p (pp_release_head (pages (fb B) p)) (fb B);
       c_assert (pp_flush_head (pages S p) = [] \<and> pp_release_head (pages S p) = []);
       Some (bre_upd (\<lambda>r. r\<lparr>p_free := p_free r @ [p]\<rparr>) (B\<lparr>fb := S\<rparr>))
     }"

definition bre_release_page_immediately :: "nat \<Rightarrow> bfe_private \<Rightarrow> bfe_private option" where
  "bre_release_page_immediately p B =
     do {
       c_assert (pp_flushed (pages (fb B) p) = pp_occupied (pages (fb B) p));
       c_assert (pp_where (fpage B p) = PP_WHERE_FLUSH \<or> pp_where (fpage B p) = PP_WHERE_FLUSHING_DONE);
       B \<leftarrow> (if pp_coalesced (fpage B p) \<noteq> 0
             then Some (bre_upd (\<lambda>r. r\<lparr>p_coalesced_page_head := p_coalesced_page_head r @ [p], p_page_counter := u32_of (p_page_counter r + 1)\<rparr>) B)
             else bre_free_page p B);
       Some (fpage_upd p (\<lambda>x. x\<lparr>pp_where := PP_WHERE_RELEASE\<rparr>) B)
     }"

definition bre_release_page_async :: "nat \<Rightarrow> bfe_private \<Rightarrow> bfe_private option" where
  "bre_release_page_async p B =
     do {
       c_assert (pp_flushed (pages (fb B) p) = pp_occupied (pages (fb B) p));
       c_assert (pp_where (fpage B p) = PP_WHERE_FLUSHING_DONE);
       let B = (if pp_coalesced (fpage B p) = 0
                then bre_upd (\<lambda>r. r\<lparr>p_page_head := p_page_head r @ [p]\<rparr>) B
                else bre_upd (\<lambda>r. r\<lparr>p_coalesced_page_head := p_coalesced_page_head r @ [p]\<rparr>) B);
       let B = fpage_upd p (\<lambda>x. x\<lparr>pp_where := PP_WHERE_RELEASE\<rparr>) B;
       Some (bre_upd (\<lambda>r. r\<lparr>p_page_counter := u32_of (p_page_counter r + 1)\<rparr>) B)
     }"

definition bre_quick_release_page :: "nat \<Rightarrow> bfe_private \<Rightarrow> bfe_private option" where
  "bre_quick_release_page p B =
     do {
       c_assert (pp_flushed (pages (fb B) p) = pp_occupied (pages (fb B) p));
       c_assert (pp_release_head (pages (fb B) p) = []);
       Some (bre_upd (\<lambda>r. r\<lparr>p_free := p_free r @ [p]\<rparr>) B)
     }"

definition bre_release_page_sequence :: "nat \<Rightarrow> bfe_private \<Rightarrow> bfe_private option" where
  "bre_release_page_sequence p B =
     do {
       c_assert (pp_flushed (pages (fb B) p) = pp_occupied (pages (fb B) p));
       c_assert (pp_where (fpage B p) = PP_WHERE_FLUSHING_DONE);
       let B = (if pp_coalesced (fpage B p) = 0
                then bre_upd (\<lambda>r. r\<lparr>p_to_page_head := p_to_page_head r @ [p]\<rparr>) B
                else bre_upd (\<lambda>r. r\<lparr>p_to_coalesced_page_head := p_to_coalesced_page_head r @ [p]\<rparr>) B);
       let B = fpage_upd p (\<lambda>x. x\<lparr>pp_where := PP_WHERE_RELEASE\<rparr>) B;
       Some (bre_upd (\<lambda>r. r\<lparr>p_page_counter := u32_of (p_page_counter r + 1)\<rparr>) B)
     }"

text \<open>
  The release thread and \<open>_bre_release_page_all\<close> have loops of their own over the nodes of a page, which do not look at the
  references that are left. The pages that are no longer coalesced over come to the end of the list first.
\<close>

fun drop_nodes :: "nat \<Rightarrow> node_addr list \<Rightarrow> bse_private \<Rightarrow> bse_private option" where
  "drop_nodes p [] S = Some S"
| "drop_nodes p (dnp # dnps) S =
     do {
       c_assert (d_where (dn S dnp) = DDN_WHERE_RELEASE);
       let S = page_upd p (\<lambda>y. y\<lparr>pp_release_head := remove1 dnp (pp_release_head y)\<rparr>) S;
       S \<leftarrow> bse_del_node dnp S;
       (left, S) \<leftarrow> ddn_put_node dnp S;
       drop_nodes p dnps S
     }"

definition bre_uncoalesce :: "bfe_private \<Rightarrow> bfe_private" where
  "bre_uncoalesce B =
     bre_upd (\<lambda>r. r\<lparr>p_page_head := p_page_head r @ filter (\<lambda>p. pp_coalesced (fpage B p) = 0) (p_coalesced_page_head r),
                    p_coalesced_page_head := filter (\<lambda>p. pp_coalesced (fpage B p) \<noteq> 0) (p_coalesced_page_head r)\<rparr>) B"

datatype release_next = Release_exit | Release_sleep | Release_wait | Release_turn

definition bre_next_try :: "u32 \<Rightarrow> u32 \<Rightarrow> u32 \<Rightarrow> bfe_private \<Rightarrow> release_next" where
  "bre_next_try pool_nfree pool_sz pool_len B =
     (let pool_available = pool_nfree + pool_sz - pool_len in
      if br_stop (p_bre B) then Release_exit
      else if \<not> p_dropcache (p_bre B) \<and> pool_available > 64 then Release_sleep
      else if p_page_head (p_bre B) = [] \<and> p_coalesced_page_head (p_bre B) = [] then Release_wait
      else Release_turn)"

text \<open>A turn of the release thread over one page, while no other thread changes \<open>pp_release_head\<close> or uses a node of the page.\<close>

definition bre_release_step :: "bfe_private \<Rightarrow> bfe_private option" where
  "bre_release_step B =
     (let B = bre_uncoalesce B in
      case p_page_head (p_bre B) of
        [] \<Rightarrow> Some B
      | p # ps \<Rightarrow>
          do {
            c_assert (pp_flushed (pages (fb B) p) = pp_occupied (pages (fb B) p));
            c_assert (pp_where (fpage B p) = PP_WHERE_RELEASE);
            let B = bre_upd (\<lambda>r. r\<lparr>p_page_head := ps, p_page_counter := u32_of (p_page_counter r - 1)\<rparr>) B;
            S \<leftarrow> drop_nodes p (pp_release_head (pages (fb B) p)) (fb B);
            c_assert (pp_flush_head (pages S p) = [] \<and> pp_release_head (pages S p) = []);
            Some (bre_upd (\<lambda>r. r\<lparr>p_free := p_free r @ [p]\<rparr>) (B\<lparr>fb := S\<rparr>))
          })"

text \<open>\<open>list_splice_init\<close> puts the pages in front.\<close>

fun free_pages :: "nat list \<Rightarrow> bfe_private \<Rightarrow> bfe_private option" where
  "free_pages [] B = Some B"
| "free_pages (p # ps) B =
     do {
       c_assert (pp_where (fpage B p) = PP_WHERE_RELEASE);
       let B = bre_upd (\<lambda>r. r\<lparr>p_page_head := ps\<rparr>) B;
       S \<leftarrow> drop_nodes p (pp_release_head (pages (fb B) p)) (fb B);
       free_pages ps (bre_upd (\<lambda>r. r\<lparr>p_free := p_free r @ [p]\<rparr>) (B\<lparr>fb := S\<rparr>))
     }"

definition bre_release_page_all :: "bfe_private \<Rightarrow> bfe_private option" where
  "bre_release_page_all B =
     (let B = bre_upd (\<lambda>r. r\<lparr>p_page_head := p_to_page_head r @ p_page_head r, p_to_page_head := [],
                             p_coalesced_page_head := p_to_coalesced_page_head r @ p_coalesced_page_head r, p_to_coalesced_page_head := []\<rparr>) B;
          B = bre_uncoalesce B
      in free_pages (p_page_head (p_bre B)) B)"

definition bre_update_sequence :: "u64 \<Rightarrow> bfe_private \<Rightarrow> bfe_private option" where
  "bre_update_sequence seq B = map_option (\<lambda>B. B\<lparr>wc_flush_updates := wc_flush_updates B @ [seq]\<rparr>) (bre_release_page_all B)"

definition bre_close :: "bfe_private \<Rightarrow> bfe_private option" where
  "bre_close B = bre_release_page_all (bre_upd (\<lambda>r. r\<lparr>br_stop := True\<rparr>) B)"

text \<open>The first component tells whether the caller has to wait.\<close>

definition bre_dropcache_start :: "bool \<Rightarrow> bfe_private \<Rightarrow> bool \<times> bfe_private" where
  "bre_dropcache_start do_sync B =
     (do_sync \<and> \<not> br_stop (p_bre B) \<and> p_page_head (p_bre B) \<noteq> [], bre_upd (\<lambda>r. r\<lparr>p_dropcache := True\<rparr>) B)"

definition bre_dropcache_stop :: "bfe_private \<Rightarrow> bfe_private" where
  "bre_dropcache_stop B = bre_upd (\<lambda>r. r\<lparr>p_dropcache := False\<rparr>) B"

definition bre_initialization :: "bool \<Rightarrow> bre_private" where
  "bre_initialization sequence_mode =
     \<lparr>p_page_head = [], p_coalesced_page_head = [], p_to_page_head = [], p_to_coalesced_page_head = [], p_page_counter = 0, br_stop = False,
      p_dropcache = False, p_sequence_mode = sequence_mode, p_free = []\<rparr>"

section \<open>The flush thread\<close>

definition br_release :: "nat \<Rightarrow> bfe_private \<Rightarrow> bfe_private option" where
  "br_release p B = (if p_ssd_mode B then bre_release_page_immediately p B else bre_release_page p B)"

definition bfe_finish :: "nat \<Rightarrow> node_addr list \<Rightarrow> u64 \<Rightarrow> bfe_private \<Rightarrow> bfe_private option" where
  "bfe_finish p to_flush seq_to_flush B =
     do {
       let S = fb B;
       let B = (if pp_flush_head (pages S p) = [] \<and> p_prepare_flush_seq S \<noteq> - 1
                then B\<lparr>p_last_seq_flushed := pp_last_flush_seq (fpage B p), fb := S\<lparr>p_prepare_flush_seq := - 1\<rparr>\<rparr>
                else if seq_to_flush \<noteq> 0 \<and> pp_last_flush_seq (fpage B p) < p_prepare_flush_seq S
                then B\<lparr>p_last_seq_flushed := seq_to_flush\<rparr>
                else B);
       S \<leftarrow> finish_nodes p to_flush (fb B);
       let S = page_upd p (\<lambda>y. y\<lparr>pp_release_head := pp_release_head y @ to_flush\<rparr>) S;
       let B = B\<lparr>fb := S\<rparr>;
       if pp_flushed (pages S p) = p_pagesz S \<and> pp_occupied (pages S p) = p_pagesz S then
         do {
           c_assert (pp_flush_head (pages S p) = []);
           c_assert (pp_where (fpage B p) = PP_WHERE_FLUSH);
           br_release p (B\<lparr>p_flush_page_head := remove1 p (p_flush_page_head B), p_flush_page_counter := u32_of (p_flush_page_counter B - 1)\<rparr>)
         }
       else Some B
     }"

text \<open>
  The assertion that the page just unlinked is not the first of its list is left out. A round without interference by other threads:
\<close>

definition bfe_flush_round :: "nat \<Rightarrow> bfe_private \<Rightarrow> bfe_private option" where
  "bfe_flush_round p B =
     do {
       (to_flush, seq, B) \<leftarrow> bfe_collect p (pp_flush_head (pages (fb B) p)) [] 0 B;
       B \<leftarrow> bfe_write_nodes to_flush B;
       bfe_finish p to_flush seq B
     }"

definition update_seq_flushed :: "u64 \<Rightarrow> bfe_private \<Rightarrow> bfe_private" where
  "update_seq_flushed seq B = B\<lparr>wc_flush_updates := wc_flush_updates B @ [seq], p_seq_updated := seq\<rparr>"

definition bfe_flush_page :: "nat \<Rightarrow> bfe_private \<Rightarrow> bfe_private option" where
  "bfe_flush_page p B =
     do {
       c_assert (pp_where (fpage B p) \<noteq> PP_WHERE_FLUSH);
       Some (fpage_upd p (\<lambda>x. x\<lparr>pp_where := PP_WHERE_FLUSH, pp_last_flush_seq := 0\<rparr>)
         (B\<lparr>p_flush_page_head := p_flush_page_head B @ [p], p_flush_page_counter := u32_of (p_flush_page_counter B + 1)\<rparr>))
     }"

definition bfe_flush_seq :: "u64 \<Rightarrow> bfe_private \<Rightarrow> bfe_private" where
  "bfe_flush_seq seq B = (if seq > p_seq_to_flush B then B\<lparr>p_seq_to_flush := seq\<rparr> else B)"

text \<open>Why a thread cannot go on: an assertion fails, or it waits for a lock that it holds itself.\<close>

datatype stuck = Assertion_fails | Own_lock

text \<open>\<open>locked\<close>: the caller holds \<open>p_flush_lck\<close>, which is not recursive. In SSD mode the memory of the page also goes back to the page pool here,
  which is not part of this state.\<close>

definition bfe_end_page :: "bool \<Rightarrow> nat \<Rightarrow> bfe_private \<Rightarrow> stuck + bfe_private" where
  "bfe_end_page locked p B =
     (let y = pages (fb B) p in
      if \<not> pp_occupied y \<le> p_pagesz (fb B) then Inl Assertion_fails
      else if pp_occupied y < p_pagesz (fb B) then
        (if locked then Inl Own_lock
         else Inr (B\<lparr>fb := page_upd p (\<lambda>y. y\<lparr>pp_flushed := u32_of (pp_flushed y + (p_pagesz (fb B) - pp_occupied y)),
                                                 pp_occupied := p_pagesz (fb B)\<rparr>) (fb B)\<rparr>))
      else Inr B)"

datatype flush_next = Exit | Wait | Next_try | Do_flush | Flush_page nat

text \<open>What the thread does next, up to the label \<open>do_flush\<close>. The loop that waits for a page behind the test for an empty list is never entered.\<close>

definition bfe_next_try :: "bfe_private \<Rightarrow> flush_next \<times> bfe_private" where
  "bfe_next_try B =
     (if p_stop B then (if p_flush_page_head B = [] then Exit else Do_flush, B)
      else if p_seq_to_flush B = 0 then (Wait, B)
      else if p_seq_to_flush B \<le> p_last_seq_flushed B then
        (Next_try, update_seq_flushed (p_last_seq_flushed B) (B\<lparr>p_seq_to_flush := 0\<rparr>))
      else if p_flush_page_head B = [] then
        (Next_try, update_seq_flushed (p_seq_to_flush B) (B\<lparr>p_seq_to_flush := 0\<rparr>))
      else (Do_flush, B))"

definition bfe_do_flush :: "bool \<Rightarrow> bfe_private \<Rightarrow> stuck + flush_next \<times> bfe_private" where
  "bfe_do_flush fast_flush B =
     (case p_flush_page_head B of
        [] \<Rightarrow> Inr (Exit, B)
      | p # ps \<Rightarrow>
          if pp_where (fpage B p) \<noteq> PP_WHERE_FLUSH then Inl Assertion_fails
          else if pp_flush_head (pages (fb B) p) = [] \<and> pp_flushed (pages (fb B) p) \<noteq> p_pagesz (fb B) then
            (if fast_flush then
               (let seq = p_seq_to_flush B in
                case bfe_end_page True p (B\<lparr>p_flush_page_head := ps\<rparr>) of
                  Inl e \<Rightarrow> Inl e
                | Inr B \<Rightarrow>
                    (case br_release p B of
                       None \<Rightarrow> Inl Assertion_fails
                     | Some B \<Rightarrow> Inr (Do_flush, if seq > p_seq_updated B then update_seq_flushed seq B else B)))
             else Inr (Next_try, update_seq_flushed (p_seq_to_flush B) (B\<lparr>p_seq_to_flush := 0\<rparr>)))
          else Inr (Flush_page p, B))"

end
