(* ===== verification/Bfe_Books.thy ===== *)
theory Bfe_Books
  imports Bfe
begin

text \<open>
  The books of the flush engine. For every page, the bytes that need no more flushing (\<open>pp_flushed\<close>) and the
  bytes of the nodes that still have to be flushed fit the page together. The operations that the search
  engine calls never fail their assertions, and cutting or dropping a node moves bytes from the second account to the
  first.
\<close>

section \<open>The accounts of a page\<close>

definition weight :: "nat \<Rightarrow> data_description_node \<Rightarrow> int" where
  "weight p x = (if d_page_node x = p \<and> \<not> d_flush_done x \<and> d_where x \<noteq> DDN_WHERE_NO then d_len x else 0)"

definition total :: "bse_private \<Rightarrow> nat \<Rightarrow> int" where
  "total S p = pp_flushed (pages S p) + (\<Sum>a \<in> pool_used (ddn_pool S). weight p (dn S a))"

definition flush_lists_ok :: "bse_private \<Rightarrow> bool" where
  "flush_lists_ok S \<longleftrightarrow> (\<forall>p. distinct (pp_flush_head (pages S p)) \<and>
     (\<forall>a \<in> set (pp_flush_head (pages S p)). a \<in> pool_used (ddn_pool S) \<and> d_where (dn S a) = DDN_WHERE_FLUSH \<and> d_page_node (dn S a) = p))"

definition books_ok :: "bse_private \<Rightarrow> bool" where
  "books_ok S \<longleftrightarrow> pool_inv (ddn_pool S) \<and> 0 < p_pagesz S \<and> p_pagesz S < 2 ^ 32 \<and>
     (\<forall>p. 0 \<le> pp_flushed (pages S p) \<and> total S p \<le> p_pagesz S) \<and>
     (\<forall>a \<in> pool_used (ddn_pool S). d_where (dn S a) \<noteq> DDN_WHERE_NO \<longrightarrow> 0 < d_len (dn S a)) \<and>
     flush_lists_ok S"

definition flags_ok :: "data_description_node \<Rightarrow> bool" where
  "flags_ok x \<longleftrightarrow> (d_flush_done x \<longrightarrow> d_flushed x) \<and> (d_flushed x \<longrightarrow> d_flushing x) \<and>
     (\<not> d_flushing x \<longrightarrow> d_where x = DDN_WHERE_FLUSH) \<and> d_where x \<noteq> DDN_WHERE_NO"

text \<open>What the operations leave alone.\<close>

definition same_rest :: "bse_private \<Rightarrow> bse_private \<Rightarrow> bool" where
  "same_rest S S' \<longleftrightarrow> p_pagesz S' = p_pagesz S \<and> p_max_flush_size S' = p_max_flush_size S \<and> ram S' = ram S \<and> bufdev S' = bufdev S"

definition same_index :: "bse_private \<Rightarrow> bse_private \<Rightarrow> bool" where
  "same_index S S' \<longleftrightarrow> same_rest S S' \<and> ddn_pool S' = ddn_pool S \<and> p_rtree S' = p_rtree S \<and> p_ddn_head S' = p_ddn_head S \<and>
     btn_pool (smem S') = btn_pool (smem S) \<and> btn (smem S') = btn (smem S)"

lemma finite_pool_used [simp]: "finite (pool_used p)"
proof -
  have "pool_nodes p \<subseteq> (\<lambda>(s, i). Addr s i) ` (set (p_seg_head p) \<times> {..<p_seg_size p})"
  proof
    fix a assume "a \<in> pool_nodes p"
    then show "a \<in> (\<lambda>(s, i). Addr s i) ` (set (p_seg_head p) \<times> {..<p_seg_size p})"
      by (cases a) (auto simp: pool_nodes_def)
  qed
  then have "finite (pool_nodes p)" by (rule finite_subset) simp
  then show ?thesis by (simp add: pool_used_def)
qed

lemma where_distinct [simp]:
  "DDN_WHERE_FLUSH \<noteq> DDN_WHERE_NO" "DDN_WHERE_RELEASE \<noteq> DDN_WHERE_NO" "DDN_WHERE_FLUSH \<noteq> DDN_WHERE_RELEASE"
  "DDN_WHERE_NO \<noteq> DDN_WHERE_FLUSH" "DDN_WHERE_NO \<noteq> DDN_WHERE_RELEASE" "DDN_WHERE_RELEASE \<noteq> DDN_WHERE_FLUSH"
  "DDN_WHERE_SHADOW \<noteq> DDN_WHERE_NO"
  by (simp_all add: DDN_WHERE_NO_def DDN_WHERE_FLUSH_def DDN_WHERE_RELEASE_def DDN_WHERE_SHADOW_def)

lemma dn_upd_sel [simp]:
  "ddn (smem (dn_upd a f S)) = (ddn (smem S))(a := f (dn S a))"
  "btn (smem (dn_upd a f S)) = btn (smem S)" "btn_pool (smem (dn_upd a f S)) = btn_pool (smem S)"
  "p_rtree (dn_upd a f S) = p_rtree S" "p_ddn_head (dn_upd a f S) = p_ddn_head S" "ddn_pool (dn_upd a f S) = ddn_pool S"
  "pages (dn_upd a f S) = pages S" "p_pagesz (dn_upd a f S) = p_pagesz S" "p_max_flush_size (dn_upd a f S) = p_max_flush_size S"
  "p_prepare_flush_seq (dn_upd a f S) = p_prepare_flush_seq S" "ram (dn_upd a f S) = ram S" "bufdev (dn_upd a f S) = bufdev S"
  by (simp_all add: dn_upd_def)

lemma page_upd_sel [simp]:
  "smem (page_upd p f S) = smem S" "p_rtree (page_upd p f S) = p_rtree S" "p_ddn_head (page_upd p f S) = p_ddn_head S"
  "ddn_pool (page_upd p f S) = ddn_pool S" "pages (page_upd p f S) = (pages S)(p := f (pages S p))"
  "p_pagesz (page_upd p f S) = p_pagesz S" "p_max_flush_size (page_upd p f S) = p_max_flush_size S"
  "p_prepare_flush_seq (page_upd p f S) = p_prepare_flush_seq S" "ram (page_upd p f S) = ram S" "bufdev (page_upd p f S) = bufdev S"
  by (simp_all add: page_upd_def)

lemma sum_point:
  fixes f g :: "'a \<Rightarrow> int"
  assumes "finite U" "a \<in> U" "\<And>b. b \<in> U \<Longrightarrow> b \<noteq> a \<Longrightarrow> g b = f b"
  shows "sum g U = sum f U - f a + g a"
proof -
  have "sum g (U - {a}) = sum f (U - {a})" using assms(3) by (intro sum.cong) auto
  then show ?thesis using assms(1,2) by (simp add: sum.remove)
qed

text \<open>A step that changes node \<open>a\<close> and the account of page \<open>q\<close>.\<close>

lemma total_step:
  assumes "a \<in> pool_used (ddn_pool S)" "ddn_pool S' = ddn_pool S"
    "\<And>b. b \<noteq> a \<Longrightarrow> dn S' b = dn S b"
  shows "total S' p = total S p + (pp_flushed (pages S' p) - pp_flushed (pages S p)) + (weight p (dn S' a) - weight p (dn S a))"
proof -
  have "(\<Sum>b \<in> pool_used (ddn_pool S). weight p (dn S' b)) =
      (\<Sum>b \<in> pool_used (ddn_pool S). weight p (dn S b)) - weight p (dn S a) + weight p (dn S' a)"
    using assms by (intro sum_point) auto
  then show ?thesis using assms(2) by (simp add: total_def)
qed

lemma weight_le_total:
  assumes "books_ok S" "a \<in> pool_used (ddn_pool S)"
  shows "pp_flushed (pages S p) + weight p (dn S a) \<le> total S p"
proof -
  have "weight p (dn S a) \<le> (\<Sum>b \<in> pool_used (ddn_pool S). weight p (dn S b))"
    using assms by (intro member_le_sum) (auto simp: books_ok_def weight_def)
  then show ?thesis by (simp add: total_def)
qed

lemma books_bounds:
  assumes "books_ok S" "a \<in> pool_used (ddn_pool S)"
  shows "0 \<le> pp_flushed (pages S p)" "pp_flushed (pages S p) + weight p (dn S a) \<le> p_pagesz S" "p_pagesz S < 2 ^ 32"
proof -
  show "0 \<le> pp_flushed (pages S p)" "p_pagesz S < 2 ^ 32" using assms by (simp_all add: books_ok_def)
  have "total S p \<le> p_pagesz S" using assms(1) by (simp add: books_ok_def)
  then show "pp_flushed (pages S p) + weight p (dn S a) \<le> p_pagesz S" using weight_le_total[OF assms, of p] by linarith
qed

lemma books_step:
  assumes b: "books_ok S" and a: "a \<in> pool_used (ddn_pool S)" and e: "ddn_pool S' = ddn_pool S" "p_pagesz S' = p_pagesz S"
    and n: "\<And>b. b \<noteq> a \<Longrightarrow> dn S' b = dn S b"
    and w: "\<And>p. pp_flushed (pages S' p) = pp_flushed (pages S p) + (weight p (dn S a) - weight p (dn S' a))"
      "\<And>p. weight p (dn S' a) \<le> weight p (dn S a)"
    and l: "d_where (dn S' a) \<noteq> DDN_WHERE_NO \<Longrightarrow> 0 < d_len (dn S' a)" and f: "flush_lists_ok S'"
  shows "books_ok S'" "total S' = total S"
proof -
  have t: "total S' p = total S p" for p using total_step[OF a e(1) n, of p] w(1)[of p] by simp
  then show "total S' = total S" by auto
  have "0 < d_len (dn S' c)" if "c \<in> pool_used (ddn_pool S)" "d_where (dn S' c) \<noteq> DDN_WHERE_NO" for c
    using that l n[of c] b by (cases "c = a") (auto simp: books_ok_def)
  moreover have "0 \<le> pp_flushed (pages S' p)" for p using w[of p] b by (simp add: books_ok_def)
  ultimately show "books_ok S'" using b e f t by (simp add: books_ok_def)
qed

lemma books_total: "books_ok S \<Longrightarrow> total S p \<le> p_pagesz S"
  by (simp add: books_ok_def)

lemma books_grow:
  assumes b: "books_ok S" and a: "a \<in> pool_used (ddn_pool S)" and f: "flush_lists_ok S'"
    and e: "ddn_pool S' = ddn_pool S" "p_pagesz S' = p_pagesz S" "\<And>b. b \<noteq> a \<Longrightarrow> dn S' b = dn S b"
      "\<And>p. pp_flushed (pages S' p) = pp_flushed (pages S p)"
    and l: "0 < d_len (dn S' a)" and t: "\<And>p. total S' p \<le> p_pagesz S"
  shows "books_ok S'"
proof -
  have "0 < d_len (dn S' c)" if "c \<in> pool_used (ddn_pool S)" "d_where (dn S' c) \<noteq> DDN_WHERE_NO" for c
    using that l e(3)[of c] b by (cases "c = a") (auto simp: books_ok_def)
  then show ?thesis using b e f t by (simp add: books_ok_def)
qed

text \<open>A node that is cut keeps its page, its place in the tree and its flags.\<close>

definition kept :: "data_description_node \<Rightarrow> data_description_node \<Rightarrow> bool" where
  "kept x x' \<longleftrightarrow> d_page_node x' = d_page_node x \<and> d_parent x' = d_parent x \<and> d_seq x' = d_seq x \<and>
     d_location_disk x' = d_location_disk x \<and> d_user_counter x' = d_user_counter x \<and> d_flushing x' = d_flushing x \<and>
     d_flushed x' = d_flushed x \<and> d_flush_done x' = d_flush_done x \<and> d_where x' = d_where x"

lemma flags_kept: "kept x x' \<Longrightarrow> flags_ok x \<Longrightarrow> flags_ok x'"
  by (simp add: kept_def flags_ok_def)

lemma flush_lists_step:
  assumes "flush_lists_ok S" "ddn_pool S' = ddn_pool S" "\<And>p. pp_flush_head (pages S' p) = pp_flush_head (pages S p)"
    "\<And>b. d_where (dn S' b) = d_where (dn S b) \<and> d_page_node (dn S' b) = d_page_node (dn S b)"
  shows "flush_lists_ok S'"
  using assms by (simp add: flush_lists_ok_def)

lemma cut_books:
  assumes b: "books_ok S" and a: "a \<in> pool_used (ddn_pool S)" "d_where (dn S a) \<noteq> DDN_WHERE_NO" "0 < c" "c < d_len (dn S a)"
    and i: "same_index S S'" and x: "ddn (smem S') = (ddn (smem S))(a := x)" "kept (dn S a) x" "d_len x = d_len (dn S a) - c"
    and h: "\<And>p. pp_flush_head (pages S' p) = pp_flush_head (pages S p)"
    and f: "\<And>p. pp_flushed (pages S' p) = (if p = d_page_node (dn S a) \<and> \<not> d_flush_done (dn S a)
      then pp_flushed (pages S p) + c else pp_flushed (pages S p))"
  shows "books_ok S'" "total S' = total S"
proof -
  have dn': "dn S' a = x" "\<And>b. b \<noteq> a \<Longrightarrow> dn S' b = dn S b" using x(1) by simp_all
  have si: "ddn_pool S' = ddn_pool S" "p_pagesz S' = p_pagesz S" using i by (simp_all add: same_index_def same_rest_def)
  have fo: "flush_lists_ok S'"
  proof (rule flush_lists_step[of S])
    show "flush_lists_ok S" using b by (simp add: books_ok_def)
    show "d_where (dn S' b) = d_where (dn S b) \<and> d_page_node (dn S' b) = d_page_node (dn S b)" for b
      using dn' x(2) by (cases "b = a") (auto simp: kept_def)
  qed (use si h in simp_all)
  have w: "pp_flushed (pages S' p) = pp_flushed (pages S p) + (weight p (dn S a) - weight p (dn S' a))"
    "weight p (dn S' a) \<le> weight p (dn S a)" for p
    using f[of p] x a dn'(1) by (auto simp: weight_def kept_def)
  have "0 < d_len (dn S' a)" using x(3) a dn'(1) by simp
  then show "books_ok S'" "total S' = total S" using books_step[OF b a(1) si dn'(2) w _ fo] by auto
qed

text \<open>What cutting \<open>c\<close> bytes of node \<open>a\<close> does to the books; the node becomes \<open>x\<close>.\<close>

lemma cut_step:
  assumes b: "books_ok S" and a: "a \<in> pool_used (ddn_pool S)" "flags_ok (dn S a)" "0 < c" "c < d_len (dn S a)" "d_len (dn S a) < 2 ^ 32"
    and x: "kept (dn S a) x" "d_len x = d_len (dn S a) - c"
    and S': "S' = (if d_flush_done (dn S a) then dn_upd a (\<lambda>_. x) S
      else page_upd (d_page_node (dn S a)) (\<lambda>y. y\<lparr>pp_flushed := u32_of (pp_flushed y + c)\<rparr>) (dn_upd a (\<lambda>_. x) S))"
  shows "\<not> d_flush_done (dn S a) \<Longrightarrow> pp_flushed (pages S' (d_page_node (dn S a))) < p_pagesz S"
    "books_ok S'" "total S' = total S" "same_index S S'" "ddn (smem S') = (ddn (smem S))(a := x)"
    "\<And>p. pp_flush_head (pages S' p) = pp_flush_head (pages S p)"
proof -
  let ?p = "d_page_node (dn S a)"
  note bb = books_bounds(1,2)[OF b a(1), of ?p] books_bounds(3)[OF b a(1)]
  have wh: "d_where (dn S a) \<noteq> DDN_WHERE_NO" using a(2) by (simp add: flags_ok_def)
  have fl: "\<not> d_flush_done (dn S a) \<Longrightarrow> pp_flushed (pages S ?p) + d_len (dn S a) \<le> p_pagesz S"
    using bb(2) wh by (simp add: weight_def)
  have fl2: "\<not> d_flush_done (dn S a) \<Longrightarrow> u32_of (pp_flushed (pages S ?p) + c) = pp_flushed (pages S ?p) + c"
    using fl bb a by simp
  show i: "same_index S S'" and d: "ddn (smem S') = (ddn (smem S))(a := x)"
    and h: "\<And>p. pp_flush_head (pages S' p) = pp_flush_head (pages S p)"
    by (auto simp: S' same_index_def same_rest_def)
  have f: "pp_flushed (pages S' p) = (if p = ?p \<and> \<not> d_flush_done (dn S a) then pp_flushed (pages S p) + c else pp_flushed (pages S p))" for p
    using fl2 by (simp add: S')
  show "\<not> d_flush_done (dn S a) \<Longrightarrow> pp_flushed (pages S' ?p) < p_pagesz S" using f[of ?p] fl a by simp
  show "books_ok S'" "total S' = total S" using cut_books[OF b a(1) wh a(3,4) i d x h f] by blast+
qed

lemma bfe_left_cut_node_spec:
  assumes b: "books_ok S" and a: "a \<in> pool_used (ddn_pool S)" "flags_ok (dn S a)" "0 < c" "c < d_len (dn S a)" "d_len (dn S a) < 2 ^ 32"
    and new: "d_where (dn S new_np) = DDN_WHERE_NO"
  obtains S' x where "bfe_left_cut_node a c new_np S = Some S'" "books_ok S'" "total S' = total S" "same_index S S'"
    "ddn (smem S') = (ddn (smem S))(a := x)" "kept (dn S a) x" "d_offset x = d_offset (dn S a) + c"
    "d_len x = d_len (dn S a) - c" "d_pos x = d_pos (dn S a) + c"
    "\<And>p. pp_flush_head (pages S' p) = pp_flush_head (pages S p)"
proof -
  define x where "x = (if d_flushing (dn S a) \<and> \<not> d_flushed (dn S a)
    then (dn S a)\<lparr>d_pos := d_pos (dn S a) + c, d_offset := d_offset (dn S a) + c, d_len := d_len (dn S a) - c,
      d_flush_pos := d_pos (dn S a) + c, d_flush_offset := d_offset (dn S a) + c, d_flush_len := d_len (dn S a) - c\<rparr>
    else (dn S a)\<lparr>d_pos := d_pos (dn S a) + c, d_offset := d_offset (dn S a) + c, d_len := d_len (dn S a) - c\<rparr>)"
  have k: "kept (dn S a) x" "d_len x = d_len (dn S a) - c" by (simp_all add: x_def kept_def)
  note st = cut_step[OF b a k refl]
  have len: "u32_of (d_len (dn S a) - c) = d_len (dn S a) - c" using a by simp
  have e: "bfe_left_cut_node a c new_np S = Some (if d_flush_done (dn S a) then dn_upd a (\<lambda>_. x) S
      else page_upd (d_page_node (dn S a)) (\<lambda>y. y\<lparr>pp_flushed := u32_of (pp_flushed y + c)\<rparr>) (dn_upd a (\<lambda>_. x) S))"
    using new len a st(1) by (auto simp: bfe_left_cut_node_def Let_def page_upd_def dn_upd_def x_def split: if_splits)
  have o: "d_offset x = d_offset (dn S a) + c" "d_pos x = d_pos (dn S a) + c" by (simp_all add: x_def)
  show ?thesis by (rule that[OF e st(2-5) k(1) o(1) k(2) o(2) st(6)])
qed

lemma bfe_right_cut_node_spec:
  assumes b: "books_ok S" and a: "a \<in> pool_used (ddn_pool S)" "flags_ok (dn S a)" "0 < c" "c < d_len (dn S a)" "d_len (dn S a) < 2 ^ 32"
    and new: "d_where (dn S new_np) = DDN_WHERE_NO"
  obtains S' x where "bfe_right_cut_node a c new_np S = Some S'" "books_ok S'" "total S' = total S" "same_index S S'"
    "ddn (smem S') = (ddn (smem S))(a := x)" "kept (dn S a) x" "d_offset x = d_offset (dn S a)"
    "d_len x = d_len (dn S a) - c" "d_pos x = d_pos (dn S a)"
    "\<And>p. pp_flush_head (pages S' p) = pp_flush_head (pages S p)"
proof -
  define x where "x = (if d_flushing (dn S a) \<and> \<not> d_flushed (dn S a)
    then (dn S a)\<lparr>d_len := d_len (dn S a) - c, d_flush_len := d_len (dn S a) - c\<rparr>
    else (dn S a)\<lparr>d_len := d_len (dn S a) - c\<rparr>)"
  have k: "kept (dn S a) x" "d_len x = d_len (dn S a) - c" by (simp_all add: x_def kept_def)
  note st = cut_step[OF b a k refl]
  have len: "u32_of (d_len (dn S a) - c) = d_len (dn S a) - c" using a by simp
  have e: "bfe_right_cut_node a c new_np S = Some (if d_flush_done (dn S a) then dn_upd a (\<lambda>_. x) S
      else page_upd (d_page_node (dn S a)) (\<lambda>y. y\<lparr>pp_flushed := u32_of (pp_flushed y + c)\<rparr>) (dn_upd a (\<lambda>_. x) S))"
    using new len a st(1) by (auto simp: bfe_right_cut_node_def Let_def page_upd_def dn_upd_def x_def split: if_splits)
  have o: "d_offset x = d_offset (dn S a)" "d_pos x = d_pos (dn S a)" by (simp_all add: x_def)
  show ?thesis by (rule that[OF e st(2-5) k(1) o(1) k(2) o(2) st(6)])
qed

lemma bfe_del_node_spec:
  assumes b: "books_ok S" and a: "a \<in> pool_used (ddn_pool S)" "flags_ok (dn S a)"
    and new: "d_where (dn S new_np) = DDN_WHERE_NO"
  obtains S' x where "bfe_del_node a new_np S = Some S'" "books_ok S'" "total S' = total S" "same_index S S'"
    "ddn (smem S') = (ddn (smem S))(a := x)" "d_seq x = d_seq (dn S a)"
    "\<And>p. set (pp_flush_head (pages S' p)) \<subseteq> set (pp_flush_head (pages S p))"
proof (cases "d_flushing (dn S a)")
  case True
  let ?S = "dn_upd a (\<lambda>x. x\<lparr>d_flushed := True\<rparr>) S"
  have i: "same_index S ?S" by (simp add: same_index_def same_rest_def)
  have "flush_lists_ok ?S" by (rule flush_lists_step[of S]) (use b in \<open>simp_all add: books_ok_def\<close>)
  then have "books_ok ?S" "total ?S = total S"
    using b by (intro books_step[OF b a(1)]; auto simp: weight_def books_ok_def a(1))+
  then show ?thesis using that[of ?S "(dn S a)\<lparr>d_flushed := True\<rparr>"] i True new by (simp add: bfe_del_node_def)
next
  case False
  let ?p = "d_page_node (dn S a)"
  have fl: "\<not> d_flushed (dn S a)" "\<not> d_flush_done (dn S a)" "d_where (dn S a) = DDN_WHERE_FLUSH"
    using a(2) False by (auto simp: flags_ok_def)
  note bb = books_bounds(1,2)[OF b a(1), of ?p] books_bounds(3)[OF b a(1)]
  have len: "0 < d_len (dn S a)" using b a fl by (simp add: books_ok_def)
  have sum: "pp_flushed (pages S ?p) + d_len (dn S a) \<le> p_pagesz S" using bb(2) fl by (simp add: weight_def)
  then have u: "u32_of (pp_flushed (pages S ?p) + d_len (dn S a)) = pp_flushed (pages S ?p) + d_len (dn S a)"
    using bb len by simp
  let ?x = "(dn S a)\<lparr>d_flushing := True, d_flushed := True, d_flushed_back := True, d_flush_done := True, d_where := DDN_WHERE_RELEASE\<rparr>"
  let ?S = "page_upd ?p (\<lambda>y. y\<lparr>pp_flush_head := remove1 a (pp_flush_head y), pp_release_head := pp_release_head y @ [a]\<rparr>)
    (dn_upd a (\<lambda>_. ?x) (page_upd ?p (\<lambda>y. y\<lparr>pp_flushed := u32_of (pp_flushed y + d_len (dn S a))\<rparr>) S))"
  have ev: "bfe_del_node a new_np S = Some ?S"
    using new False fl sum u by (simp add: bfe_del_node_def Let_def dn_upd_def page_upd_def)
  have i: "same_index S ?S" by (simp add: same_index_def same_rest_def)
  have d: "ddn (smem ?S) = (ddn (smem S))(a := ?x)" by simp
  have "flush_lists_ok ?S" using b unfolding flush_lists_ok_def books_ok_def by auto
  then have "books_ok ?S" "total ?S = total S"
    using b u fl len by (intro books_step[OF b a(1)]; auto simp: weight_def)+
  moreover have "set (pp_flush_head (pages ?S p)) \<subseteq> set (pp_flush_head (pages S p))" for p
    by (simp add: set_remove1_subset)
  ultimately show ?thesis using that[OF ev _ _ i d] by simp
qed

lemma bfe_add_node_spec:
  assumes b: "books_ok S" and n: "new_np \<in> pool_used (ddn_pool S)" "d_where (dn S new_np) = DDN_WHERE_NO"
    "\<not> d_flush_done (dn S new_np)" "0 < d_len (dn S new_np)"
    and room: "total S (d_page_node (dn S new_np)) + d_len (dn S new_np) \<le> p_pagesz S"
    and seq: "\<And>c. c \<in> set (pp_flush_head (pages S (d_page_node (dn S new_np)))) \<Longrightarrow> d_seq (dn S c) \<le> d_seq (dn S new_np)"
  obtains S' where "bfe_add_node new_np S = Some S'" "books_ok S'" "same_index S S'"
    "total S' = (\<lambda>p. if p = d_page_node (dn S new_np) then total S p + d_len (dn S new_np) else total S p)"
    "ddn (smem S') = (ddn (smem S))(new_np := (dn S new_np)\<lparr>d_where := DDN_WHERE_FLUSH\<rparr>)"
    "\<And>p. set (pp_flush_head (pages S' p)) \<subseteq> insert new_np (set (pp_flush_head (pages S p)))"
proof -
  let ?p = "d_page_node (dn S new_np)"
  let ?S = "dn_upd new_np (\<lambda>x. x\<lparr>d_where := DDN_WHERE_FLUSH\<rparr>)
    (page_upd ?p (\<lambda>x. x\<lparr>pp_flush_head := pp_flush_head x @ [new_np]\<rparr>) S)"
  have nin: "new_np \<notin> set (pp_flush_head (pages S p))" for p using b n(2) by (auto simp: books_ok_def flush_lists_ok_def)
  have "pp_flushed (pages S ?p) \<le> total S ?p" using weight_le_total[OF b n(1), of ?p] n(2) by (simp add: weight_def)
  then have fl: "u32_of (pp_flushed (pages S ?p) + d_len (dn S new_np)) \<le> p_pagesz S"
    using room n(4) b by (simp add: books_ok_def u32_of_id)
  have sq: "pp_flush_head (pages S ?p) \<noteq> [] \<longrightarrow>
      d_seq (((ddn (smem S))(new_np := (dn S new_np)\<lparr>d_where := DDN_WHERE_FLUSH\<rparr>)) (last (pp_flush_head (pages S ?p)))) \<le> d_seq (dn S new_np)"
    using seq nin[of ?p] last_in_set by (auto simp: fun_upd_apply)
  have ev: "bfe_add_node new_np S = Some ?S" using n(2) fl sq by (auto simp: bfe_add_node_def Let_def split: if_splits)
  have i: "same_index S ?S" by (simp add: same_index_def same_rest_def)
  have t: "total ?S p = (if p = ?p then total S p + d_len (dn S new_np) else total S p)" for p
  proof -
    have "total ?S p = total S p + (pp_flushed (pages ?S p) - pp_flushed (pages S p)) + (weight p (dn ?S new_np) - weight p (dn S new_np))"
      by (rule total_step[OF n(1)]) simp_all
    then show ?thesis using n by (auto simp: weight_def)
  qed
  have "flush_lists_ok ?S" using b n(1) nin unfolding flush_lists_ok_def books_ok_def by auto
  then have bo: "books_ok ?S" by (rule books_grow[OF b n(1)]) (use t room n(4) books_total[OF b] in auto)
  have "set (pp_flush_head (pages ?S p)) \<subseteq> insert new_np (set (pp_flush_head (pages S p)))" for p by auto
  then show ?thesis using that[OF ev bo i] t by (simp add: fun_eq_iff)
qed

lemma bfe_right_extend_node_spec:
  assumes b: "books_ok S" and a: "a \<in> pool_used (ddn_pool S)" "flags_ok (dn S a)"
    and n: "d_where (dn S new_np) = DDN_WHERE_NO" "0 < d_len (dn S new_np)" "d_page_node (dn S a) = d_page_node (dn S new_np)"
    and room: "total S (d_page_node (dn S new_np)) + d_len (dn S new_np) \<le> p_pagesz S"
  obtains rc S' where "bfe_right_extend_node a new_np S = Some (rc, S')" "same_index S S'" "pages S' = pages S"
    "rc \<noteq> 0 \<longrightarrow> S' = S"
    "rc = 0 \<longrightarrow> books_ok S' \<and> ddn (smem S') = (ddn (smem S))(a := (dn S a)\<lparr>d_len := d_len (dn S a) + d_len (dn S new_np)\<rparr>) \<and>
       total S' = (\<lambda>p. if p = d_page_node (dn S new_np) then total S p + d_len (dn S new_np) else total S p)"
proof (cases "\<not> d_flushing (dn S a) \<and> s32_of (u32_of (d_len (dn S a) + d_len (dn S new_np))) < p_max_flush_size S")
  case True
  let ?p = "d_page_node (dn S new_np)"
  let ?S = "dn_upd a (\<lambda>x. x\<lparr>d_len := u32_of (d_len (dn S a) + d_len (dn S new_np))\<rparr>) S"
  have fl: "\<not> d_flush_done (dn S a)" "d_where (dn S a) \<noteq> DDN_WHERE_NO" using a(2) True by (auto simp: flags_ok_def)
  have la: "0 < d_len (dn S a)" using b a fl by (simp add: books_ok_def)
  have "pp_flushed (pages S ?p) + d_len (dn S a) \<le> total S ?p" using weight_le_total[OF b a(1), of ?p] fl n(3) by (simp add: weight_def)
  then have u: "u32_of (d_len (dn S a) + d_len (dn S new_np)) = d_len (dn S a) + d_len (dn S new_np)"
    using la n(2) room books_bounds(3)[OF b a(1)] books_bounds(1)[OF b a(1), of ?p] by (intro u32_of_id) linarith+
  have ev: "bfe_right_extend_node a new_np S = Some (0, ?S)" using True n(1) by (simp add: bfe_right_extend_node_def Let_def)
  have t: "total ?S p = (if p = ?p then total S p + d_len (dn S new_np) else total S p)" for p
  proof -
    have "total ?S p = total S p + (pp_flushed (pages ?S p) - pp_flushed (pages S p)) + (weight p (dn ?S a) - weight p (dn S a))"
      by (rule total_step[OF a(1)]) simp_all
    then show ?thesis using u fl n(3) by (auto simp: weight_def)
  qed
  have fo: "flush_lists_ok ?S" by (rule flush_lists_step[of S]) (use b in \<open>simp_all add: books_ok_def\<close>)
  have tl: "total ?S p \<le> p_pagesz S" for p using room books_total[OF b, of p] unfolding t by auto
  have ln: "0 < d_len (dn ?S a)" using u la n(2) by simp
  have bo: "books_ok ?S" by (rule books_grow[OF b a(1) fo _ _ _ _ ln tl]) simp_all
  have d: "ddn (smem ?S) = (ddn (smem S))(a := (dn S a)\<lparr>d_len := d_len (dn S a) + d_len (dn S new_np)\<rparr>)" using u by simp
  have "total ?S = (\<lambda>p. if p = ?p then total S p + d_len (dn S new_np) else total S p)" using t by blast
  then show ?thesis using bo d by (intro that[OF ev]) (simp_all add: same_index_def same_rest_def)
next
  case False
  then show ?thesis using that[of 1 S] n(1) by (auto simp: bfe_right_extend_node_def Let_def same_index_def same_rest_def)
qed

text \<open>A cut out of the middle changes two nodes: the first is cut, and what is left on its right joins the books.\<close>

lemma total_step2:
  assumes "a \<in> pool_used (ddn_pool S)" "c \<in> pool_used (ddn_pool S)" "a \<noteq> c" "ddn_pool S' = ddn_pool S"
    "ddn (smem S') = (ddn (smem S))(a := x, c := y)"
  shows "total S' p = total S p + (pp_flushed (pages S' p) - pp_flushed (pages S p)) +
    (weight p x - weight p (dn S a)) + (weight p y - weight p (dn S c))"
proof -
  let ?S1 = "dn_upd a (\<lambda>_. x) S"
  have "total ?S1 p = total S p + (weight p x - weight p (dn S a))"
    using total_step[OF assms(1), of ?S1 p] by simp
  moreover have "total S' p = total ?S1 p + (pp_flushed (pages S' p) - pp_flushed (pages ?S1 p)) + (weight p (dn S' c) - weight p (dn ?S1 c))"
    using assms by (intro total_step) auto
  ultimately show ?thesis using assms(3,5) by simp
qed

lemma bfe_right_cut_node_adjust_spec:
  assumes b: "books_ok S" and a: "a \<in> pool_used (ddn_pool S)" "flags_ok (dn S a)" "c < d_len (dn S a)" "d_len (dn S a) < 2 ^ 32"
    and r: "r \<in> pool_used (ddn_pool S)" "r \<noteq> a" "d_where (dn S r) = DDN_WHERE_NO" "d_page_node (dn S r) = d_page_node (dn S a)"
      "d_seq (dn S r) = d_seq (dn S a)" "0 < d_len (dn S r)" "d_len (dn S r) < c"
    and new: "d_where (dn S new_np) = DDN_WHERE_NO"
  obtains S' x y where "bfe_right_cut_node_adjust a c r new_np S = Some (0, S')" "books_ok S'" "total S' = total S" "same_index S S'"
    "ddn (smem S') = (ddn (smem S))(a := x, r := y)" "kept (dn S a) x" "d_offset x = d_offset (dn S a)"
    "d_len x = d_len (dn S a) - c" "d_pos x = d_pos (dn S a)" "flags_ok y"
    "d_offset y = d_offset (dn S r)" "d_len y = d_len (dn S r)" "d_pos y = d_pos (dn S r)" "d_page_node y = d_page_node (dn S r)"
    "d_location_disk y = d_location_disk (dn S r)" "d_user_counter y = d_user_counter (dn S r)" "d_seq y = d_seq (dn S r)"
    "\<And>p. set (pp_flush_head (pages S' p)) \<subseteq> insert r (set (pp_flush_head (pages S p)))"
proof -
  let ?p = "d_page_node (dn S a)" let ?l = "d_len (dn S r)"
  have c0: "0 < c" using r by simp
  note bb = books_bounds(1,2)[OF b a(1), of ?p] books_bounds(3)[OF b a(1)]
  have wh: "d_where (dn S a) \<noteq> DDN_WHERE_NO" using a(2) by (simp add: flags_ok_def)
  have len: "u32_of (d_len (dn S a) - c) = d_len (dn S a) - c" using a c0 by simp
  have fl: "\<not> d_flush_done (dn S a) \<Longrightarrow> pp_flushed (pages S ?p) + d_len (dn S a) \<le> p_pagesz S"
    using bb(2) wh by (simp add: weight_def)
  have rin: "r \<notin> set (pp_flush_head (pages S p))" for p using b r(3) by (auto simp: books_ok_def flush_lists_ok_def)
  define x where "x = (if \<not> d_flushed (dn S a) \<and> d_flushing (dn S a)
    then (dn S a)\<lparr>d_len := d_len (dn S a) - c, d_flush_len := d_len (dn S a) - c\<rparr>
    else (dn S a)\<lparr>d_len := d_len (dn S a) - c\<rparr>)"
  have x: "kept (dn S a) x" "d_len x = d_len (dn S a) - c" "d_offset x = d_offset (dn S a)" "d_pos x = d_pos (dn S a)"
    by (simp_all add: x_def kept_def)
  define y where "y = (if d_flushed (dn S a)
    then (dn S r)\<lparr>d_flushing := True, d_flushed := True, d_flush_done := True, d_where := DDN_WHERE_RELEASE\<rparr>
    else (dn S r)\<lparr>d_flushing := False, d_flushed := False, d_flush_done := False, d_where := DDN_WHERE_FLUSH\<rparr>)"
  have y: "flags_ok y" "d_offset y = d_offset (dn S r)" "d_len y = ?l" "d_pos y = d_pos (dn S r)" "d_page_node y = ?p"
    "d_location_disk y = d_location_disk (dn S r)" "d_user_counter y = d_user_counter (dn S r)" "d_seq y = d_seq (dn S r)"
    using r by (simp_all add: y_def flags_ok_def)
  define g where "g = (if d_flush_done (dn S a) then 0 else if d_flushed (dn S a) then c else c - ?l)"
  have g: "\<not> d_flush_done (dn S a) \<Longrightarrow> u32_of (pp_flushed (pages S ?p) + g) = pp_flushed (pages S ?p) + g \<and>
      pp_flushed (pages S ?p) + g \<le> p_pagesz S"
  proof -
    assume nd: "\<not> d_flush_done (dn S a)"
    have "0 \<le> g" "g \<le> d_len (dn S a)" using r a nd by (simp_all add: g_def)
    then show ?thesis using fl[OF nd] bb by (intro conjI u32_of_id) linarith+
  qed
  obtain S' where ev: "bfe_right_cut_node_adjust a c r new_np S = Some (0, S')"
    and i: "same_index S S'" and d: "ddn (smem S') = (ddn (smem S))(a := x, r := y)"
    and f: "\<And>p. pp_flushed (pages S' p) = (if p = ?p then pp_flushed (pages S p) + g else pp_flushed (pages S p))"
    and h: "\<And>p. pp_flush_head (pages S' p) = (if p = ?p \<and> \<not> d_flushed (dn S a) then pp_flush_head (pages S p) @ [r] else pp_flush_head (pages S p))"
  proof (cases "d_flushed (dn S a)")
    case False
    then have nd: "\<not> d_flush_done (dn S a)" using a(2) by (simp add: flags_ok_def)
    define q where "q = (if d_flushing (dn S a) \<and> p_prepare_flush_seq S > d_seq (dn S a) then d_seq (dn S a) else p_prepare_flush_seq S)"
    let ?S = "(page_upd ?p (\<lambda>z. z\<lparr>pp_flush_head := pp_flush_head z @ [r], pp_flushed := u32_of (pp_flushed z + (c - ?l))\<rparr>)
      (dn_upd r (\<lambda>_. y) (dn_upd a (\<lambda>_. x) S)))\<lparr>p_prepare_flush_seq := q\<rparr>"
    have gg: "g = c - ?l" using nd False by (simp add: g_def)
    have "bfe_right_cut_node_adjust a c r new_np S = Some (0, ?S)"
      using False nd new len r(2,5) a(3) g[OF nd] unfolding gg
      by (auto simp: bfe_right_cut_node_adjust_def Let_def dn_upd_def page_upd_def x_def y_def q_def)
    then show ?thesis using False g[OF nd] unfolding gg by (intro that[of ?S]) (auto simp: same_index_def same_rest_def gg)
  next
    case True
    then have fg: "d_flushing (dn S a)" using a(2) by (simp add: flags_ok_def)
    let ?S1 = "page_upd ?p (\<lambda>z. z\<lparr>pp_release_head := pp_release_head z @ [r]\<rparr>) (dn_upd r (\<lambda>_. y) (dn_upd a (\<lambda>_. x) S))"
    let ?S = "if d_flush_done (dn S a) then ?S1 else page_upd ?p (\<lambda>z. z\<lparr>pp_flushed := u32_of (pp_flushed z + c)\<rparr>) ?S1"
    have gg: "\<not> d_flush_done (dn S a) \<Longrightarrow> g = c" "d_flush_done (dn S a) \<Longrightarrow> g = 0" using True by (simp_all add: g_def)
    have "bfe_right_cut_node_adjust a c r new_np S = Some (0, ?S)"
      using True fg new len r(2,5) a(3) g gg
      by (auto simp: bfe_right_cut_node_adjust_def Let_def dn_upd_def page_upd_def x_def y_def)
    then show ?thesis using True g gg by (intro that[of ?S]) (auto simp: same_index_def same_rest_def)
  qed
  have si: "ddn_pool S' = ddn_pool S" "p_pagesz S' = p_pagesz S" using i by (simp_all add: same_index_def same_rest_def)
  have t: "total S' p = total S p" for p
  proof -
    have "total S' p = total S p + (pp_flushed (pages S' p) - pp_flushed (pages S p)) + (weight p x - weight p (dn S a)) + (weight p y - weight p (dn S r))"
      by (rule total_step2[OF a(1) r(1) r(2)[symmetric] si(1) d])
    moreover have "(pp_flushed (pages S' p) - pp_flushed (pages S p)) + (weight p x - weight p (dn S a)) + (weight p y - weight p (dn S r)) = 0"
      using f[of p] x wh a(2) r(3,4) y(3,5) by (auto simp: weight_def kept_def g_def y_def flags_ok_def)
    ultimately show ?thesis by simp
  qed
  have fo: "flush_lists_ok S'" unfolding flush_lists_ok_def
  proof (intro allI conjI ballI)
    fix p
    have old: "flush_lists_ok S" using b by (simp add: books_ok_def)
    show "distinct (pp_flush_head (pages S' p))" using old rin by (simp add: h flush_lists_ok_def)
    fix z assume "z \<in> set (pp_flush_head (pages S' p))"
    then have z: "z \<in> set (pp_flush_head (pages S p)) \<or> z = r \<and> p = ?p \<and> \<not> d_flushed (dn S a)" by (auto simp: h split: if_splits)
    then show "z \<in> pool_used (ddn_pool S')" using old r(1) si by (auto simp: flush_lists_ok_def)
    have "d_where (dn S' z) = DDN_WHERE_FLUSH \<and> d_page_node (dn S' z) = p"
    proof (cases "z = r")
      case True
      then have "p = ?p" "\<not> d_flushed (dn S a)" using z rin[of p] by auto
      then show ?thesis using True y(5) by (simp add: d y_def)
    next
      case False
      then have "d_where (dn S z) = DDN_WHERE_FLUSH \<and> d_page_node (dn S z) = p" using z old by (auto simp: flush_lists_ok_def)
      then show ?thesis using False x(1) by (auto simp: d kept_def)
    qed
    then show "d_where (dn S' z) = DDN_WHERE_FLUSH" "d_page_node (dn S' z) = p" by simp_all
  qed
  have "0 < d_len (dn S' z)" if "z \<in> pool_used (ddn_pool S)" "d_where (dn S' z) \<noteq> DDN_WHERE_NO" for z
    using that b x a(3) y(3) r(6) unfolding d by (auto simp: books_ok_def split: if_splits)
  moreover have "0 \<le> pp_flushed (pages S' p)" for p
    using f[of p] bb(1) b r c0 by (auto simp: books_ok_def g_def)
  ultimately have bo: "books_ok S'" using b si t fo by (simp add: books_ok_def)
  have tt: "total S' = total S" using t by auto
  have hs: "set (pp_flush_head (pages S' p)) \<subseteq> insert r (set (pp_flush_head (pages S p)))" for p by (auto simp: h)
  have yp: "d_page_node y = d_page_node (dn S r)" using y(5) r(4) by simp
  show ?thesis by (rule that[OF ev bo tt i d x(1,3,2,4) y(1-4) yp y(6-8) hs])
qed

end
