(* ===== verification/Bse_Inv.thy ===== *)
theory Bse_Inv
  imports Bse Bfe_Books
begin

text \<open>
  The invariant of the search engine and what the parts of a write do to it. A state represents a partial
  map \<open>bse_at\<close> from the offsets of the device to the places where the cached bytes are. Cutting and dropping
  nodes removes a range of offsets from the map, adding a node defines one.
\<close>

section \<open>The invariant\<close>

definition slot_of :: "int \<Rightarrow> nat" where "slot_of off = nat (off div 2 ^ 14)"

abbreviation kf :: "bse_private \<Rightarrow> node_addr \<Rightarrow> nat" where
  "kf S a \<equiv> slot_of (d_offset (dn S a))"

definition node_wf :: "data_description_node \<Rightarrow> bool" where
  "node_wf x \<longleftrightarrow> 0 \<le> d_offset x \<and> 0 < d_len x \<and> d_len x < 2 ^ 32 \<and> d_offset x + d_len x \<le> 2 ^ 62"

definition node_ok' :: "bse_private \<Rightarrow> node_addr \<Rightarrow> bool" where
  "node_ok' S a \<longleftrightarrow> a \<in> pool_used (ddn_pool S) \<and> node_wf (dn S a) \<and> flags_ok (dn S a) \<and> 0 < d_user_counter (dn S a)"

definition bse_inv :: "bse_private \<Rightarrow> bool" where
  "bse_inv S \<longleftrightarrow> books_ok S \<and> sorted_wrt (ends_before (ddn (smem S))) (p_ddn_head S) \<and>
     (\<forall>a \<in> set (p_ddn_head S). node_ok' S a) \<and> bse_tree (kf S) (p_ddn_head S) (p_rtree S) (smem S)"

lemma bse_invD:
  assumes "bse_inv S"
  shows "books_ok S" "sorted_wrt (ends_before (ddn (smem S))) (p_ddn_head S)"
    "\<And>a. a \<in> set (p_ddn_head S) \<Longrightarrow> node_ok' S a" "bse_tree (kf S) (p_ddn_head S) (p_rtree S) (smem S)"
  using assms by (simp_all add: bse_inv_def)

lemma node_okD:
  assumes "node_ok' S a"
  shows "a \<in> pool_used (ddn_pool S)" "0 \<le> d_offset (dn S a)" "0 < d_len (dn S a)" "d_len (dn S a) < 2 ^ 32"
    "d_offset (dn S a) + d_len (dn S a) \<le> 2 ^ 62" "flags_ok (dn S a)" "0 < d_user_counter (dn S a)"
    "d_where (dn S a) \<noteq> DDN_WHERE_NO"
  using assms by (simp_all add: node_ok'_def node_wf_def flags_ok_def)

lemma unat_slot_key:
  assumes "0 \<le> off" "off < 2 ^ 62"
  shows "unat (slot_key off) = slot_of off" "slot_of off < 64 ^ 8"
proof -
  have lt: "off div 2 ^ 14 < 2 ^ 48" using assms by (simp add: int_div_less_self zdiv_mono1 div_int_pos_iff)
  have ge: "0 \<le> off div 2 ^ 14" using assms by (simp add: div_int_pos_iff)
  have "unat (of_int (off div 2 ^ 14) :: u64) = nat (off div 2 ^ 14)"
    using lt ge by (simp add: unsigned_of_int take_bit_int_eq_self_iff take_bit_int_eq_self flip: nat_take_bit_eq)
  then show "unat (slot_key off) = slot_of off" by (simp add: slot_key_def slot_of_def BSE_SLOT_SHIFT_def drop_bit_eq_div)
  have "slot_of off < nat (2 ^ 48)" using lt ge unfolding slot_of_def by (subst nat_less_eq_zless) auto
  then show "slot_of off < 64 ^ 8" by simp
qed

lemma sorted_distinct:
  assumes "sorted_wrt (ends_before d) xs" "\<And>a. a \<in> set xs \<Longrightarrow> 0 < d_len (d a)"
  shows "distinct xs"
  using assms
proof (induction xs)
  case (Cons x xs)
  have "\<not> ends_before d x x" using Cons.prems(2)[of x] by (simp add: ends_before_def)
  then show ?case using Cons by auto
qed simp

lemma bse_distinct: "bse_inv S \<Longrightarrow> distinct (p_ddn_head S)"
  using sorted_distinct bse_invD(2,3) node_okD(3) by metis

lemma bse_tree_cong:
  assumes "bse_tree f xs t m" "btn_pool m' = btn_pool m" "btn m' = btn m"
    "\<And>a. a \<in> set xs \<Longrightarrow> d_parent (ddn m' a) = d_parent (ddn m a) \<and> f' a = f a"
  shows "bse_tree f' xs t m'"
proof -
  have b: "bucket f' xs k = bucket f xs k" for k using assms(4) by (intro bucket_cong) simp
  have p: "bt_parents m' = bt_parents m" using assms(3) by (simp add: bt_parents_def fun_eq_iff)
  have "set (bucket f xs k) \<subseteq> set xs" for k by (auto simp: set_bucket)
  then show ?thesis using assms b p unfolding bse_tree_def slots_ok_def by (simp add: subset_iff)
qed

section \<open>The represented map\<close>

definition covers :: "data_description_node \<Rightarrow> int \<Rightarrow> bool" where
  "covers x i \<longleftrightarrow> d_offset x \<le> i \<and> i < d_offset x + d_len x"

definition loc :: "data_description_node \<Rightarrow> int \<Rightarrow> bool \<times> int" where
  "loc x i = (d_location_disk x, d_pos x + (i - d_offset x))"

definition bytes :: "bse_private \<Rightarrow> bool \<times> int \<Rightarrow> u8" where
  "bytes S l = (if fst l then bufdev S (snd l) else ram S (snd l))"

definition bse_at :: "bse_private \<Rightarrow> int \<Rightarrow> (bool \<times> int) option" where
  "bse_at S i = map_option (\<lambda>a. loc (dn S a) i) (List.find (\<lambda>a. covers (dn S a) i) (p_ddn_head S))"

lemma covers_unique:
  assumes "sorted_wrt (ends_before d) xs" "a \<in> set xs" "b \<in> set xs" "covers (d a) i" "covers (d b) i"
  shows "a = b"
  using assms by (induction xs) (auto simp: ends_before_def covers_def)

lemma bse_at_Some:
  assumes "bse_inv S"
  shows "bse_at S i = Some l \<longleftrightarrow> (\<exists>a \<in> set (p_ddn_head S). covers (dn S a) i \<and> l = loc (dn S a) i)"
proof
  assume "bse_at S i = Some l"
  then obtain a where "List.find (\<lambda>a. covers (dn S a) i) (p_ddn_head S) = Some a" "l = loc (dn S a) i" by (auto simp: bse_at_def)
  moreover from this have "a \<in> set (p_ddn_head S)" "covers (dn S a) i" by (auto simp: find_Some_iff)
  ultimately show "\<exists>a \<in> set (p_ddn_head S). covers (dn S a) i \<and> l = loc (dn S a) i" by blast
next
  assume "\<exists>a \<in> set (p_ddn_head S). covers (dn S a) i \<and> l = loc (dn S a) i"
  then obtain a where a: "a \<in> set (p_ddn_head S)" "covers (dn S a) i" "l = loc (dn S a) i" by blast
  then obtain b where b: "List.find (\<lambda>a. covers (dn S a) i) (p_ddn_head S) = Some b"
    by (cases "List.find (\<lambda>a. covers (dn S a) i) (p_ddn_head S)") (auto simp: find_None_iff)
  then have "b \<in> set (p_ddn_head S)" "covers (dn S b) i" by (auto simp: find_Some_iff in_set_conv_nth)
  then have "b = a" using covers_unique[OF bse_invD(2)[OF assms] _ a(1) _ a(2)] by blast
  then show "bse_at S i = Some l" using b a(3) by (simp add: bse_at_def)
qed

lemma bse_at_None: "bse_at S i = None \<longleftrightarrow> (\<forall>a \<in> set (p_ddn_head S). \<not> covers (dn S a) i)"
  by (auto simp: bse_at_def find_None_iff)

text \<open>Two states have the same place for an offset if each has a node for it whenever the other has.\<close>

lemma bse_at_eqI:
  assumes "bse_inv S'" "\<And>l. bse_at S i = Some l \<Longrightarrow> bse_at S' i = Some l" "bse_at S i = None \<Longrightarrow> bse_at S' i = None"
  shows "bse_at S' i = bse_at S i"
  using assms by (cases "bse_at S i") auto

section \<open>Changes of the index alone\<close>

text \<open>Nodes that are equal up to the parent pointer, and states that differ in the index and in parent pointers at most.\<close>

definition reparent :: "data_description_node \<Rightarrow> data_description_node \<Rightarrow> bool" where
  "reparent x x' \<longleftrightarrow> x'\<lparr>d_parent := None\<rparr> = x\<lparr>d_parent := None\<rparr>"

definition reparented :: "bse_private \<Rightarrow> bse_private \<Rightarrow> bool" where
  "reparented S S' \<longleftrightarrow> (\<forall>a. reparent (dn S a) (dn S' a)) \<and> ddn_pool S' = ddn_pool S \<and>
     pages S' = pages S \<and> same_rest S S' \<and> p_ddn_head S' = p_ddn_head S"

lemma reparentD:
  assumes "reparent x x'"
  shows "d_page_node x' = d_page_node x" "d_pos x' = d_pos x" "d_seq x' = d_seq x" "d_offset x' = d_offset x" "d_len x' = d_len x"
    "d_user_counter x' = d_user_counter x" "d_flushing x' = d_flushing x" "d_flushed x' = d_flushed x"
    "d_flush_done x' = d_flush_done x" "d_where x' = d_where x" "d_location_disk x' = d_location_disk x"
    "d_flush_offset x' = d_flush_offset x" "d_flush_len x' = d_flush_len x" "d_flush_pos x' = d_flush_pos x"
  using assms by (cases x; cases x'; simp add: reparent_def)+

lemma reparent_refl [simp]: "reparent x x" "reparent x (x\<lparr>d_parent := p\<rparr>)"
  by (simp_all add: reparent_def)

lemma reparent_trans: "reparent x y \<Longrightarrow> reparent y z \<Longrightarrow> reparent x z"
  by (simp add: reparent_def)

lemma reparent_shape:
  assumes "reparent x x'"
  shows "covers x' = covers x" "loc x' = loc x" "node_wf x' = node_wf x" "flags_ok x' = flags_ok x" "weight p x' = weight p x"
    "node_end x' = node_end x"
  using reparentD[OF assms] by (auto simp: covers_def loc_def node_wf_def flags_ok_def weight_def node_end_def intro!: ext)

lemma reparented_trans: "reparented S S' \<Longrightarrow> reparented S' S'' \<Longrightarrow> reparented S S''"
  unfolding reparented_def same_rest_def using reparent_trans by (metis (no_types))

lemma reparented_books:
  assumes "reparented S S'"
  shows "total S' = total S" "books_ok S' = books_ok S" "kf S' = kf S"
proof -
  have d: "\<And>a. reparent (dn S a) (dn S' a)" and e: "ddn_pool S' = ddn_pool S" "pages S' = pages S" "p_pagesz S' = p_pagesz S"
    using assms by (simp_all add: reparented_def same_rest_def)
  note r = reparentD[OF d] reparent_shape[OF d]
  show t: "total S' = total S" by (rule ext) (simp add: total_def e r)
  show "books_ok S' = books_ok S" by (simp add: books_ok_def flush_lists_ok_def e r t)
  show "kf S' = kf S" by (rule ext) (simp add: r)
qed

lemma rt_hint_remove:
  assumes t: "bse_tree f xs (p_rtree S) (smem S)" and a: "a \<in> set xs" "distinct xs" and k: "f a = slot_of off" "0 \<le> off" "off < 2 ^ 62"
  obtains S' where "bse_rt_hint_remove off a S = Some S'" "bse_tree f (remove1 a xs) (p_rtree S') (smem S')" "reparented S S'"
proof -
  have key: "unat (slot_key off) = f a" using unat_slot_key[OF k(2,3)] k(1) by simp
  from bse_tree_remove[OF t a key] obtain b sl t' m' where r: "d_parent (dn S a) = Some b"
    "rtree_hint_remove bse_cb (slot_key off) a (bt_parent (btn (smem S) b)) (p_rtree S) (smem S) = Some (sl, t', m')"
    "bse_tree f (remove1 a xs) t' m'" "ddn m' = (ddn (smem S))(a := (dn S a)\<lparr>d_parent := None\<rparr>)" .
  let ?S = "S\<lparr>p_rtree := t', smem := m'\<rparr>"
  have "reparented S ?S" using r(4) by (simp add: reparented_def same_rest_def)
  then show ?thesis using r by (intro that[of ?S]) (simp_all add: bse_rt_hint_remove_def)
qed

lemma rt_insert:
  assumes t: "bse_tree f (us @ vs) (p_rtree S) (smem S)" and a: "a \<notin> set (us @ vs)" and k: "f a = slot_of off" "0 \<le> off" "off < 2 ^ 62"
    and us: "\<forall>u \<in> set us. ends_before (ddn (smem S)) u a \<and> 0 < d_len (dn S u)"
    and vs: "\<forall>v \<in> set vs. ends_before (ddn (smem S)) a v" and len: "0 < d_len (dn S a)"
  obtains S' where "bse_rt_insert off a S = Some S'" "bse_tree f (us @ a # vs) (p_rtree S') (smem S')" "reparented S S'"
proof -
  have key: "unat (slot_key off) = f a" "f a < 64 ^ 8" using unat_slot_key[OF k(2,3)] k(1) by simp_all
  from bse_tree_insert[OF t a key us vs len] obtain sl t' m' p where r:
    "rtree_insert bse_cb (slot_key off) a (p_rtree S) (smem S) = Some (sl, t', m')"
    "bse_tree f (us @ a # vs) t' m'" "ddn m' = (ddn (smem S))(a := (dn S a)\<lparr>d_parent := p\<rparr>)" .
  let ?S = "S\<lparr>p_rtree := t', smem := m'\<rparr>"
  have "reparented S ?S" using r(3) by (simp add: reparented_def same_rest_def)
  then show ?thesis using r by (intro that[of ?S]) (simp_all add: bse_rt_insert_def)
qed

end
