(* ===== verification/Bfe_Flow.thy ===== *)
theory Bfe_Flow
  imports Bse_Inv
begin

text \<open>
  What the flush engine relies on about the nodes of the cache, and that the parts of a write keep it. \<open>F\<close> has the page that the
  flush thread works on, with the nodes that it has taken from the flush list of the page and not given back; \<open>T\<close> is the content of the device below the
  cache. A node that is marked as flushed has its bytes on that device; every node that still has to be flushed is
  on the flush list of its page or with the flush thread; what waits for release has been flushed; and no reader holds a node.
\<close>

section \<open>The flush invariant\<close>

text \<open>A node that has been taken for flushing, and is not written yet, is flushed as it is.\<close>

definition fx_ok :: "data_description_node \<Rightarrow> bool" where
  "fx_ok x \<longleftrightarrow> (d_flushing x \<and> \<not> d_flushed x \<longrightarrow> d_flush_offset x = d_offset x \<and> d_flush_len x = d_len x \<and> d_flush_pos x = d_pos x)"

definition on_target :: "(int \<Rightarrow> u8) \<Rightarrow> bse_private \<Rightarrow> data_description_node \<Rightarrow> bool" where
  "on_target T S x \<longleftrightarrow> (\<forall>i. covers x i \<longrightarrow> T i = bytes S (loc x i))"

definition node_flush :: "nat \<times> node_addr set \<Rightarrow> (int \<Rightarrow> u8) \<Rightarrow> bse_private \<Rightarrow> node_addr \<Rightarrow> bool" where
  "node_flush F T S a \<longleftrightarrow> (let x = dn S a in
     (a \<in> set (p_ddn_head S) \<longrightarrow> fx_ok x \<and> (d_flushed x \<longrightarrow> on_target T S x) \<and> d_len x < p_max_flush_size S) \<and>
     (\<forall>p. a \<in> set (pp_flush_head (pages S p)) \<longrightarrow>
        d_flushing x = d_flushed x \<and> \<not> d_flush_done x \<and> (d_flushed x \<or> a \<in> set (p_ddn_head S))) \<and>
     (a \<in> snd F \<longrightarrow> a \<in> pool_used (ddn_pool S) \<and> d_flushing x \<and> \<not> d_flush_done x \<and> d_where x = DDN_WHERE_FLUSH \<and> d_page_node x = fst F \<and>
        (\<forall>p. a \<notin> set (pp_flush_head (pages S p))) \<and> (d_flushed x \<or> a \<in> set (p_ddn_head S))) \<and>
     (\<forall>p. a \<in> set (pp_release_head (pages S p)) \<longrightarrow>
        a \<in> pool_used (ddn_pool S) \<and> d_where x = DDN_WHERE_RELEASE \<and> d_page_node x = p) \<and>
     (a \<in> pool_used (ddn_pool S) \<and> d_where x \<noteq> DDN_WHERE_NO \<longrightarrow> d_user_counter x = 1) \<and>
     (a \<in> pool_used (ddn_pool S) \<longrightarrow> d_where x = DDN_WHERE_NO \<or>
        d_where x = DDN_WHERE_FLUSH \<and> \<not> d_flush_done x \<and> (a \<in> set (pp_flush_head (pages S (d_page_node x))) \<or> a \<in> snd F) \<or>
        d_where x = DDN_WHERE_RELEASE \<and> d_flush_done x \<and> a \<in> set (pp_release_head (pages S (d_page_node x)))))"

definition flush_inv :: "nat \<times> node_addr set \<Rightarrow> (int \<Rightarrow> u8) \<Rightarrow> bse_private \<Rightarrow> bool" where
  "flush_inv F T S \<longleftrightarrow> (\<forall>a. node_flush F T S a) \<and> (\<forall>p. distinct (pp_release_head (pages S p))) \<and>
     p_max_flush_size S < 2 ^ 30 \<and> p_pagesz S < 2 ^ 31"

text \<open>A node that is marked as flushed stays so.\<close>

definition keeps :: "bse_private \<Rightarrow> bse_private \<Rightarrow> node_addr \<Rightarrow> bool" where
  "keeps S S' a \<longleftrightarrow> (a \<in> pool_used (ddn_pool S) \<and> d_where (dn S a) \<noteq> DDN_WHERE_NO \<and> d_flushed (dn S a) \<longrightarrow>
     a \<in> pool_used (ddn_pool S') \<and> d_where (dn S' a) \<noteq> DDN_WHERE_NO \<and> d_flushed (dn S' a))"

text \<open>A page of which every byte is written and flushed; such a page stays so.\<close>

definition full :: "bse_private \<Rightarrow> nat \<Rightarrow> bool" where
  "full S p \<longleftrightarrow> pp_flushed (pages S p) = p_pagesz S \<and> pp_occupied (pages S p) = p_pagesz S"

definition flow :: "bse_private \<Rightarrow> bse_private \<Rightarrow> bool" where
  "flow S S' \<longleftrightarrow> (\<forall>F T. flush_inv F T S \<longrightarrow> flush_inv F T S') \<and> (\<forall>a. keeps S S' a) \<and> (\<forall>p. full S p \<longrightarrow> full S' p)"

lemma flow_refl [simp]: "flow S S" by (simp add: flow_def keeps_def)

text \<open>An operation on a node that is done does not change the account of any page, and one on another node only that of its page.\<close>

definition account :: "node_addr \<Rightarrow> bse_private \<Rightarrow> bse_private \<Rightarrow> bool" where
  "account a S S' \<longleftrightarrow> (\<forall>p. p \<noteq> d_page_node (dn S a) \<or> d_flush_done (dn S a) \<longrightarrow> pp_flushed (pages S' p) = pp_flushed (pages S p)) \<and>
     (\<forall>p. pp_occupied (pages S' p) = pp_occupied (pages S p))"

lemma full_kept:
  assumes b: "books_ok S" and a: "a \<in> pool_used (ddn_pool S)" "d_where (dn S a) \<noteq> DDN_WHERE_NO" and s: "same_rest S S'" and c: "account a S S'" and p: "full S p"
  shows "full S' p"
proof -
  have "p \<noteq> d_page_node (dn S a) \<or> d_flush_done (dn S a)"
  proof (rule ccontr)
    assume "\<not> (p \<noteq> d_page_node (dn S a) \<or> d_flush_done (dn S a))"
    then have "weight p (dn S a) = d_len (dn S a)" "0 < d_len (dn S a)" using a b by (auto simp: weight_def books_ok_def)
    then show False using books_bounds(2)[OF b a(1), of p] p by (simp add: full_def)
  qed
  then show ?thesis using c p s by (simp add: account_def full_def same_rest_def)
qed

lemma flow_trans: "flow S S' \<Longrightarrow> flow S' S'' \<Longrightarrow> flow S S''" by (simp add: flow_def keeps_def)

lemma flush_invD:
  assumes "flush_inv F T S"
  shows "a \<in> set (p_ddn_head S) \<Longrightarrow> fx_ok (dn S a)"
    "a \<in> set (p_ddn_head S) \<Longrightarrow> d_flushed (dn S a) \<Longrightarrow> on_target T S (dn S a)"
    "a \<in> set (pp_flush_head (pages S p)) \<Longrightarrow> d_flushing (dn S a) = d_flushed (dn S a) \<and> \<not> d_flush_done (dn S a) \<and>
       (d_flushed (dn S a) \<or> a \<in> set (p_ddn_head S))"
    "a \<in> snd F \<Longrightarrow> a \<in> pool_used (ddn_pool S) \<and> d_flushing (dn S a) \<and> \<not> d_flush_done (dn S a) \<and> d_where (dn S a) = DDN_WHERE_FLUSH \<and> d_page_node (dn S a) = fst F \<and>
       (\<forall>p. a \<notin> set (pp_flush_head (pages S p))) \<and> (d_flushed (dn S a) \<or> a \<in> set (p_ddn_head S))"
    "a \<in> set (pp_release_head (pages S p)) \<Longrightarrow> a \<in> pool_used (ddn_pool S) \<and> d_where (dn S a) = DDN_WHERE_RELEASE \<and> d_page_node (dn S a) = p"
    "a \<in> pool_used (ddn_pool S) \<Longrightarrow> d_where (dn S a) = DDN_WHERE_NO \<or>
       d_where (dn S a) = DDN_WHERE_FLUSH \<and> \<not> d_flush_done (dn S a) \<and> (a \<in> set (pp_flush_head (pages S (d_page_node (dn S a)))) \<or> a \<in> snd F) \<or>
       d_where (dn S a) = DDN_WHERE_RELEASE \<and> d_flush_done (dn S a) \<and> a \<in> set (pp_release_head (pages S (d_page_node (dn S a))))"
    "distinct (pp_release_head (pages S p))"
    "a \<in> set (p_ddn_head S) \<Longrightarrow> d_len (dn S a) < p_max_flush_size S"
    "p_max_flush_size S < 2 ^ 30" "p_pagesz S < 2 ^ 31"
    "a \<in> pool_used (ddn_pool S) \<Longrightarrow> d_where (dn S a) \<noteq> DDN_WHERE_NO \<Longrightarrow> d_user_counter (dn S a) = 1"
  using assms unfolding flush_inv_def node_flush_def Let_def by blast+

text \<open>A node that keeps its data, its lists and its bytes keeps its part of the invariant.\<close>

definition untouched :: "bse_private \<Rightarrow> bse_private \<Rightarrow> node_addr \<Rightarrow> bool" where
  "untouched S S' b \<longleftrightarrow> reparent (dn S b) (dn S' b) \<and> (b \<in> set (p_ddn_head S') \<longleftrightarrow> b \<in> set (p_ddn_head S)) \<and>
     (\<forall>p. b \<in> set (pp_flush_head (pages S' p)) \<longleftrightarrow> b \<in> set (pp_flush_head (pages S p))) \<and>
     (\<forall>p. b \<in> set (pp_release_head (pages S' p)) \<longleftrightarrow> b \<in> set (pp_release_head (pages S p))) \<and>
     (b \<in> pool_used (ddn_pool S') \<longleftrightarrow> b \<in> pool_used (ddn_pool S))"

lemma node_flush_cong:
  assumes "untouched S S' b" "same_rest S S'"
  shows "node_flush F T S' b = node_flush F T S b"
proof -
  have r: "reparent (dn S b) (dn S' b)" using assms(1) by (simp add: untouched_def)
  have b: "bytes S' = bytes S" using assms(2) by (intro ext) (simp add: bytes_def same_rest_def)
  have x: "fx_ok (dn S' b) = fx_ok (dn S b)" "on_target T S' (dn S' b) = on_target T S (dn S b)"
    by (simp_all add: fx_ok_def on_target_def reparentD[OF r] reparent_shape[OF r] b)
  have m: "p_max_flush_size S' = p_max_flush_size S" using assms(2) by (simp add: same_rest_def)
  show ?thesis using assms(1) unfolding node_flush_def Let_def x reparentD[OF r] m untouched_def by simp
qed

lemma flowI:
  assumes "same_rest S S'" "\<And>b. b \<notin> A \<Longrightarrow> untouched S S' b"
    "\<And>F T a. flush_inv F T S \<Longrightarrow> a \<in> A \<Longrightarrow> node_flush F T S' a"
    "\<And>F T p. flush_inv F T S \<Longrightarrow> distinct (pp_release_head (pages S' p))" "\<And>a. a \<in> A \<Longrightarrow> keeps S S' a"
    "\<And>p. full S p \<Longrightarrow> full S' p"
  shows "flow S S'"
  unfolding flow_def
proof (intro conjI allI impI)
  show "full S p \<Longrightarrow> full S' p" for p by (rule assms(6))
  show "keeps S S' b" for b
  proof (cases "b \<in> A")
    case False
    then have "reparent (dn S b) (dn S' b)" "b \<in> pool_used (ddn_pool S') \<longleftrightarrow> b \<in> pool_used (ddn_pool S)" using assms(2) by (simp_all add: untouched_def)
    then show ?thesis by (simp add: keeps_def reparentD)
  qed (use assms(5) in simp)
  fix F T assume i: "flush_inv F T S"
  have "node_flush F T S' b" for b
  proof (cases "b \<in> A")
    case False
    then show ?thesis using node_flush_cong[OF assms(2)[OF False] assms(1)] i by (simp add: flush_inv_def)
  qed (use assms(3)[OF i] in simp)
  then show "flush_inv F T S'" using assms(4)[OF i] assms(1) flush_invD(9,10)[OF i] by (simp add: flush_inv_def same_rest_def)
qed

lemma flow_reparented:
  assumes "reparented S S'"
  shows "flow S S'"
  by (rule flowI[of S S' "{}"]) (use assms in \<open>simp_all add: reparented_def untouched_def flush_invD(7) full_def same_rest_def\<close>)

lemma flow_cong:
  assumes "same_rest S S'" "\<And>b. untouched S S' b" "\<And>p. pp_release_head (pages S' p) = pp_release_head (pages S p)"
    "\<And>p. full S p \<Longrightarrow> full S' p"
  shows "flow S S'"
  by (rule flowI[of S S' "{}"]) (use assms in \<open>simp_all add: flush_invD(7)\<close>)

section \<open>Cutting a node\<close>

definition inside :: "data_description_node \<Rightarrow> data_description_node \<Rightarrow> bool" where
  "inside x y \<longleftrightarrow> d_len y \<le> d_len x \<and> (\<forall>i. covers y i \<longrightarrow> covers x i \<and> loc y i = loc x i)"

lemma on_target_inside: "on_target T S x \<Longrightarrow> inside x y \<Longrightarrow> bytes S' = bytes S \<Longrightarrow> on_target T S' y"
  by (simp add: on_target_def inside_def)

lemma same_bytes: "same_rest S S' \<Longrightarrow> bytes S' = bytes S"
  by (intro ext) (simp add: bytes_def same_rest_def)

lemma node_flush_cut:
  assumes n: "node_flush F T S a" and k: "kept (dn S a) (dn S' a)" "fx_ok (dn S a) \<Longrightarrow> fx_ok (dn S' a)"
      "d_flushed (dn S a) \<Longrightarrow> inside (dn S a) (dn S' a)" "d_len (dn S a) < p_max_flush_size S \<Longrightarrow> d_len (dn S' a) < p_max_flush_size S"
    and e: "same_rest S S'" "ddn_pool S' = ddn_pool S" "a \<in> set (p_ddn_head S') \<longleftrightarrow> a \<in> set (p_ddn_head S)"
      "\<And>p. a \<in> set (pp_flush_head (pages S' p)) \<longleftrightarrow> a \<in> set (pp_flush_head (pages S p))"
      "\<And>p. a \<in> set (pp_release_head (pages S' p)) \<longleftrightarrow> a \<in> set (pp_release_head (pages S p))"
  shows "node_flush F T S' a"
proof -
  have f: "d_page_node (dn S' a) = d_page_node (dn S a)" "d_flushing (dn S' a) = d_flushing (dn S a)" "d_flushed (dn S' a) = d_flushed (dn S a)"
    "d_flush_done (dn S' a) = d_flush_done (dn S a)" "d_where (dn S' a) = d_where (dn S a)" "d_user_counter (dn S' a) = d_user_counter (dn S a)"
    using k(1) by (simp_all add: kept_def)
  have t: "on_target T S (dn S a) \<Longrightarrow> on_target T S' (dn S' a)" if "d_flushed (dn S a)"
    by (rule on_target_inside[OF _ k(3)[OF that] same_bytes[OF e(1)]])
  have m: "p_max_flush_size S' = p_max_flush_size S" using e(1) by (simp add: same_rest_def)
  show ?thesis using n k(2,4) t unfolding node_flush_def Let_def f m e(2-5) by blast
qed

lemma flow_cut:
  assumes "same_index S S'" "ddn (smem S') = (ddn (smem S))(a := x)" "kept (dn S a) x" "fx_ok (dn S a) \<Longrightarrow> fx_ok x"
    "d_flushed (dn S a) \<Longrightarrow> inside (dn S a) x"
    "p_pagesz S < 2 ^ 31 \<Longrightarrow> d_len (dn S a) < p_max_flush_size S \<Longrightarrow> d_len x < p_max_flush_size S"
    and "\<And>p. pp_flush_head (pages S' p) = pp_flush_head (pages S p)" "\<And>p. pp_release_head (pages S' p) = pp_release_head (pages S p)"
    "\<And>p. full S p \<Longrightarrow> full S' p"
  shows "flow S S'"
proof (rule flowI[of S S' "{a}"])
  show "full S p \<Longrightarrow> full S' p" for p by (rule assms(9))
  have x: "dn S' a = x" using assms(2) by simp
  have si: "same_rest S S'" "ddn_pool S' = ddn_pool S" "p_ddn_head S' = p_ddn_head S" using assms(1) by (simp_all add: same_index_def)
  show "same_rest S S'" by (rule si(1))
  show "untouched S S' b" if "b \<notin> {a}" for b using that assms(2,7,8) si by (simp add: untouched_def)
  show "keeps S S' b" if "b \<in> {a}" for b using that assms(3) x si(2) by (simp add: keeps_def kept_def)
  fix F T assume i: "flush_inv F T S"
  show "distinct (pp_release_head (pages S' p))" for p using flush_invD(7)[OF i] assms(8) by simp
  fix b assume b: "b \<in> {a}"
  have n: "node_flush F T S a" using i by (simp add: flush_inv_def)
  have "node_flush F T S' a"
    by (rule node_flush_cut[OF n _ _ _ _ si(1,2)]) (use x assms(3-8) si(3) flush_invD(10)[OF i] in simp_all)
  then show "node_flush F T S' b" using b by simp
qed

text \<open>What the cuts leave of the lists and of the extent to be flushed.\<close>

lemma left_cut_frame:
  assumes "bfe_left_cut_node a c new S = Some S'"
  shows "\<And>p. pp_release_head (pages S' p) = pp_release_head (pages S p)" "fx_ok (dn S a) \<Longrightarrow> fx_ok (dn S' a)"
proof -
  let ?x = "(dn S a)\<lparr>d_pos := d_pos (dn S a) + c, d_offset := d_offset (dn S a) + c, d_len := u32_of (d_len (dn S a) - c)\<rparr>"
  let ?y = "if d_flushing (dn S a) \<and> \<not> d_flushed (dn S a)
    then ?x\<lparr>d_flush_pos := d_pos ?x, d_flush_offset := d_offset ?x, d_flush_len := d_len ?x\<rparr> else ?x"
  have y: "dn S' a = ?y" and p: "\<And>p. pp_release_head (pages S' p) = pp_release_head (pages S p)"
    using assms by (simp_all add: bfe_left_cut_node_def Let_def split: Option.bind_splits if_split_asm) auto
  show "\<And>p. pp_release_head (pages S' p) = pp_release_head (pages S p)" by (rule p)
  show "fx_ok (dn S a) \<Longrightarrow> fx_ok (dn S' a)" unfolding y by (cases "d_flushing (dn S a) \<and> \<not> d_flushed (dn S a)") (auto simp: fx_ok_def)
qed

lemma left_cut_account: "bfe_left_cut_node a c new S = Some S' \<Longrightarrow> account a S S'"
  by (simp add: bfe_left_cut_node_def Let_def account_def split: Option.bind_splits if_split_asm) auto

lemma right_cut_account: "bfe_right_cut_node a c new S = Some S' \<Longrightarrow> account a S S'"
  by (simp add: bfe_right_cut_node_def Let_def account_def split: Option.bind_splits if_split_asm) auto

lemma right_cut_frame:
  assumes "bfe_right_cut_node a c new S = Some S'"
  shows "\<And>p. pp_release_head (pages S' p) = pp_release_head (pages S p)" "fx_ok (dn S a) \<Longrightarrow> fx_ok (dn S' a)"
proof -
  let ?x = "(dn S a)\<lparr>d_len := u32_of (d_len (dn S a) - c)\<rparr>"
  let ?y = "if d_flushing (dn S a) \<and> \<not> d_flushed (dn S a) then ?x\<lparr>d_flush_len := d_len ?x\<rparr> else ?x"
  have y: "dn S' a = ?y" and p: "\<And>p. pp_release_head (pages S' p) = pp_release_head (pages S p)"
    using assms by (simp_all add: bfe_right_cut_node_def Let_def split: Option.bind_splits if_split_asm) auto
  show "\<And>p. pp_release_head (pages S' p) = pp_release_head (pages S p)" by (rule p)
  show "fx_ok (dn S a) \<Longrightarrow> fx_ok (dn S' a)" unfolding y by (cases "d_flushing (dn S a) \<and> \<not> d_flushed (dn S a)") (auto simp: fx_ok_def)
qed

section \<open>Dropping a node\<close>

lemma del_effect:
  assumes "bfe_del_node a new S = Some S'"
  shows "same_rest S S'" "ddn_pool S' = ddn_pool S" "p_ddn_head S' = p_ddn_head S"
    "ddn (smem S') = (ddn (smem S))(a := (if d_flushing (dn S a) then (dn S a)\<lparr>d_flushed := True\<rparr>
       else (dn S a)\<lparr>d_flushing := True, d_flushed := True, d_flushed_back := True, d_flush_done := True, d_where := DDN_WHERE_RELEASE\<rparr>))"
    "\<And>p. pp_flush_head (pages S' p) = (if p = d_page_node (dn S a) \<and> \<not> d_flushing (dn S a)
       then remove1 a (pp_flush_head (pages S p)) else pp_flush_head (pages S p))"
    "\<And>p. pp_release_head (pages S' p) = (if p = d_page_node (dn S a) \<and> \<not> d_flushing (dn S a)
       then pp_release_head (pages S p) @ [a] else pp_release_head (pages S p))"
  using assms by (simp_all add: bfe_del_node_def Let_def same_rest_def split: Option.bind_splits if_split_asm) auto

lemma del_account: "bfe_del_node a new S = Some S' \<Longrightarrow> account a S S'"
  by (simp add: bfe_del_node_def Let_def account_def split: Option.bind_splits if_split_asm) auto

lemma flow_del:
  assumes b: "books_ok S" and ev: "bfe_del_node a new S = Some S'" and a: "a \<in> set (p_ddn_head S)" "flags_ok (dn S a)" "a \<in> pool_used (ddn_pool S)"
    and xs: "set xs = set (p_ddn_head S) - {a}"
  shows "flow S (S'\<lparr>p_ddn_head := xs\<rparr>)"
proof (rule flowI[of S _ "{a}"])
  let ?S = "S'\<lparr>p_ddn_head := xs\<rparr>"
  note e = del_effect[OF ev]
  have w: "d_where (dn S a) \<noteq> DDN_WHERE_NO" using a(2) by (simp add: flags_ok_def)
  show "full ?S p" if "full S p" for p using full_kept[OF b a(3) w e(1) del_account[OF ev] that] by (simp add: full_def)
  have fl: "distinct (pp_flush_head (pages S p))" "a \<in> set (pp_flush_head (pages S p)) \<Longrightarrow> p = d_page_node (dn S a)" for p
    using b by (auto simp: books_ok_def flush_lists_ok_def)
  show "same_rest S ?S" using e(1) by (simp add: same_rest_def)
  show "untouched S ?S c" if "c \<notin> {a}" for c using that xs e(2-6) by (simp add: untouched_def)
  show "keeps S ?S c" if "c \<in> {a}" for c using that e(2,4) by (simp add: keeps_def)
  fix F T assume i: "flush_inv F T S"
  note I = flush_invD(3-6,11)[OF i, of a]
  have u1: "d_user_counter (dn S a) = 1" using I(5) a(2,3) by (simp add: flags_ok_def)
  have rel: "a \<notin> set (pp_release_head (pages S p))" if "\<not> d_flushing (dn S a)" for p using I(3)[of p] a(2) that by (auto simp: flags_ok_def)
  show "distinct (pp_release_head (pages ?S p))" for p using flush_invD(7)[OF i, of p] rel[of p] e(6)[of p] by auto
  have "node_flush F T ?S a"
  proof (cases "d_flushing (dn S a)")
    case True
    then have "dn ?S a = (dn S a)\<lparr>d_flushed := True\<rparr>" "pp_flush_head (pages ?S p) = pp_flush_head (pages S p)"
      "pp_release_head (pages ?S p) = pp_release_head (pages S p)" "ddn_pool ?S = ddn_pool S" for p using e by simp_all
    then show ?thesis using True I xs unfolding node_flush_def Let_def by simp
  next
    case False
    then have nF: "a \<notin> snd F" using I(2) by auto
    have h: "a \<notin> set (pp_flush_head (pages ?S p))" for p using e(5)[of p] fl[of p] False by auto
    have r: "a \<in> set (pp_release_head (pages ?S p)) \<longleftrightarrow> p = d_page_node (dn S a)" for p using e(6)[of p] rel[OF False, of p] False by simp
    have "dn ?S a = (dn S a)\<lparr>d_flushing := True, d_flushed := True, d_flushed_back := True, d_flush_done := True, d_where := DDN_WHERE_RELEASE\<rparr>"
      using e(4) False by simp
    then show ?thesis using nF h r a(3) xs e(2) u1 unfolding node_flush_def Let_def by simp
  qed
  then show "node_flush F T ?S c" if "c \<in> {a}" for c using that by simp
qed

section \<open>Splitting a node\<close>

lemma adjust_effect:
  assumes "bfe_right_cut_node_adjust a c q new S = Some (rc, S')" "q \<noteq> a"
  shows "same_rest S S'" "ddn_pool S' = ddn_pool S"
    "\<exists>x. kept (dn S a) x \<and> (fx_ok (dn S a) \<longrightarrow> fx_ok x) \<and> ddn (smem S') = (ddn (smem S))(a := x, q := (if d_flushed (dn S a)
       then (dn S q)\<lparr>d_flushing := True, d_flushed := True, d_flush_done := True, d_where := DDN_WHERE_RELEASE\<rparr>
       else (dn S q)\<lparr>d_flushing := False, d_flushed := False, d_flush_done := False, d_where := DDN_WHERE_FLUSH\<rparr>))"
    "\<And>p. pp_flush_head (pages S' p) = (if p = d_page_node (dn S a) \<and> \<not> d_flushed (dn S a)
       then pp_flush_head (pages S p) @ [q] else pp_flush_head (pages S p))"
    "\<And>p. pp_release_head (pages S' p) = (if p = d_page_node (dn S a) \<and> d_flushed (dn S a)
       then pp_release_head (pages S p) @ [q] else pp_release_head (pages S p))"
proof -
  let ?x = "if \<not> d_flushed (dn S a) \<and> d_flushing (dn S a)
    then (dn S a)\<lparr>d_len := u32_of (d_len (dn S a) - c), d_flush_len := u32_of (d_len (dn S a) - c)\<rparr>
    else (dn S a)\<lparr>d_len := u32_of (d_len (dn S a) - c)\<rparr>"
  let ?y = "if d_flushed (dn S a)
    then (dn S q)\<lparr>d_flushing := True, d_flushed := True, d_flush_done := True, d_where := DDN_WHERE_RELEASE\<rparr>
    else (dn S q)\<lparr>d_flushing := False, d_flushed := False, d_flush_done := False, d_where := DDN_WHERE_FLUSH\<rparr>"
  have "same_rest S S' \<and> ddn_pool S' = ddn_pool S \<and> ddn (smem S') = (ddn (smem S))(a := ?x, q := ?y) \<and>
    (\<forall>p. pp_flush_head (pages S' p) = (if p = d_page_node (dn S a) \<and> \<not> d_flushed (dn S a)
       then pp_flush_head (pages S p) @ [q] else pp_flush_head (pages S p))) \<and>
    (\<forall>p. pp_release_head (pages S' p) = (if p = d_page_node (dn S a) \<and> d_flushed (dn S a)
       then pp_release_head (pages S p) @ [q] else pp_release_head (pages S p)))"
    using assms by (simp add: bfe_right_cut_node_adjust_def Let_def same_rest_def split: Option.bind_splits if_split_asm)
      (auto simp: same_rest_def)
  moreover have "kept (dn S a) ?x" "fx_ok (dn S a) \<Longrightarrow> fx_ok ?x" by (auto simp: kept_def fx_ok_def)
  ultimately show "same_rest S S'" "ddn_pool S' = ddn_pool S"
    "\<exists>x. kept (dn S a) x \<and> (fx_ok (dn S a) \<longrightarrow> fx_ok x) \<and> ddn (smem S') = (ddn (smem S))(a := x, q := ?y)"
    "\<And>p. pp_flush_head (pages S' p) = (if p = d_page_node (dn S a) \<and> \<not> d_flushed (dn S a)
       then pp_flush_head (pages S p) @ [q] else pp_flush_head (pages S p))"
    "\<And>p. pp_release_head (pages S' p) = (if p = d_page_node (dn S a) \<and> d_flushed (dn S a)
       then pp_release_head (pages S p) @ [q] else pp_release_head (pages S p))" by blast+
qed

lemma adjust_account: "bfe_right_cut_node_adjust a c q new S = Some (rc, S') \<Longrightarrow> q \<noteq> a \<Longrightarrow> account a S S'"
  by (simp add: bfe_right_cut_node_adjust_def Let_def account_def split: Option.bind_splits if_split_asm) auto

lemma not_used:
  assumes "flush_inv F T S" "books_ok S" "q \<notin> pool_used (ddn_pool S) \<or> d_where (dn S q) = DDN_WHERE_NO"
  shows "q \<notin> snd F" "q \<notin> set (pp_flush_head (pages S p))" "q \<notin> set (pp_release_head (pages S p))"
  using flush_invD(4,5)[OF assms(1), of q] assms(2,3) by (auto simp: books_ok_def flush_lists_ok_def)

lemma flow_split:
  assumes b: "books_ok S" and ev: "bfe_right_cut_node_adjust a c q new S = Some (rc, S')" and a: "a \<in> set (p_ddn_head S)"
    and q: "q \<noteq> a" "q \<in> pool_used (ddn_pool S)" "d_where (dn S q) = DDN_WHERE_NO" "d_page_node (dn S q) = d_page_node (dn S a)" "d_user_counter (dn S q) = 1"
    and u: "a \<in> pool_used (ddn_pool S)" "d_where (dn S a) \<noteq> DDN_WHERE_NO"
    and i: "inside (dn S a) (dn S' a)" "inside (dn S a) (dn S' q)" and xs: "set xs = insert q (set (p_ddn_head S))"
  shows "flow S (S'\<lparr>p_ddn_head := xs\<rparr>)"
proof (rule flowI[of S _ "{a, q}"])
  let ?S = "S'\<lparr>p_ddn_head := xs\<rparr>"
  note e = adjust_effect[OF ev q(1)]
  show "full ?S p" if "full S p" for p using full_kept[OF b u e(1) adjust_account[OF ev q(1)] that] by (simp add: full_def)
  obtain x where x: "kept (dn S a) x" "fx_ok (dn S a) \<Longrightarrow> fx_ok x" and d: "ddn (smem S') = (ddn (smem S))(a := x, q := (if d_flushed (dn S a)
       then (dn S q)\<lparr>d_flushing := True, d_flushed := True, d_flush_done := True, d_where := DDN_WHERE_RELEASE\<rparr>
       else (dn S q)\<lparr>d_flushing := False, d_flushed := False, d_flush_done := False, d_where := DDN_WHERE_FLUSH\<rparr>))"
    using e(3) by blast
  show sr: "same_rest S ?S" using e(1) by (simp add: same_rest_def)
  show "untouched S ?S c" if "c \<notin> {a, q}" for c using that xs e(2,4,5) d by (simp add: untouched_def)
  show "keeps S ?S c" if "c \<in> {a, q}" for c using that q(1,3) e(2) d x(1) by (auto simp: keeps_def kept_def)
  fix F T assume inv: "flush_inv F T S"
  note nu = not_used[OF inv b, of q]
  show "distinct (pp_release_head (pages ?S p))" for p using flush_invD(7)[OF inv] nu(3) q(3) e(5)[of p] by simp
  have na: "node_flush F T S a" using inv by (simp add: flush_inv_def)
  have "node_flush F T ?S a"
    by (rule node_flush_cut[OF na _ _ _ _ sr]) (use x d q(1) i(1) e(2,4,5) xs a in \<open>simp_all add: inside_def\<close>)
  moreover have ql: "d_len (dn ?S q) < p_max_flush_size ?S"
    using flush_invD(8)[OF inv a] i(2) sr by (simp add: inside_def same_rest_def)
  have "node_flush F T ?S q"
  proof (cases "d_flushed (dn S a)")
    case True
    have "on_target T S (dn S a)" by (rule flush_invD(2)[OF inv a True])
    then have "on_target T ?S (dn ?S q)" using on_target_inside[OF _ i(2) same_bytes[OF sr]] by simp
    moreover have "dn ?S q = (dn S q)\<lparr>d_flushing := True, d_flushed := True, d_flush_done := True, d_where := DDN_WHERE_RELEASE\<rparr>"
      using True d by simp
    ultimately show ?thesis using True q nu e(2,4,5) ql unfolding node_flush_def Let_def by (simp add: fx_ok_def)
  next
    case False
    then have "dn ?S q = (dn S q)\<lparr>d_flushing := False, d_flushed := False, d_flush_done := False, d_where := DDN_WHERE_FLUSH\<rparr>"
      using d by simp
    then show ?thesis using False q nu e(2,4,5) xs ql unfolding node_flush_def Let_def by (simp add: fx_ok_def)
  qed
  ultimately show "node_flush F T ?S c" if "c \<in> {a, q}" for c using that by blast
qed

section \<open>Adding and merging a node\<close>

text \<open>A node from the pool, one that is linked into the list, one that joins a flush list, and one that goes back to the pool.\<close>

lemma flow_get:
  assumes b: "books_ok S" and a: "a \<notin> pool_used (ddn_pool S)" "a \<notin> set (p_ddn_head S')"
    and e: "same_rest S S'" "p_ddn_head S' = p_ddn_head S" "pages S' = pages S" "pool_used (ddn_pool S') = insert a (pool_used (ddn_pool S))"
      "\<And>c. c \<noteq> a \<Longrightarrow> dn S' c = dn S c" "d_where (dn S' a) = DDN_WHERE_NO"
  shows "flow S S'"
proof (rule flowI[of S _ "{a}", OF e(1)])
  show "full S p \<Longrightarrow> full S' p" for p using e(1,3) by (simp add: full_def same_rest_def)
  show "untouched S S' c" if "c \<notin> {a}" for c using that e by (simp add: untouched_def)
  show "keeps S S' c" if "c \<in> {a}" for c using that a(1) by (simp add: keeps_def)
  fix F T assume inv: "flush_inv F T S"
  show "distinct (pp_release_head (pages S' p))" for p using flush_invD(7)[OF inv] e(3) by simp
  show "node_flush F T S' c" if "c \<in> {a}" for c
    using that not_used[OF inv b, of a] a e unfolding node_flush_def Let_def by simp
qed

lemma flow_link:
  assumes b: "books_ok S" and n: "d_where (dn S new) = DDN_WHERE_NO" "\<not> d_flushing (dn S new)" "\<not> d_flushed (dn S new)"
    "d_len (dn S new) < p_max_flush_size S" and xs: "set xs = insert new (set (p_ddn_head S))"
  shows "flow S (S\<lparr>p_ddn_head := xs\<rparr>)"
proof (rule flowI[of S _ "{new}"])
  let ?S = "S\<lparr>p_ddn_head := xs\<rparr>"
  show "full S p \<Longrightarrow> full ?S p" for p by (simp add: full_def)
  show "same_rest S ?S" by (simp add: same_rest_def)
  show "untouched S ?S c" if "c \<notin> {new}" for c using that xs by (simp add: untouched_def)
  show "keeps S ?S c" if "c \<in> {new}" for c using that n(1) by (simp add: keeps_def)
  fix F T assume inv: "flush_inv F T S"
  show "distinct (pp_release_head (pages ?S p))" for p using flush_invD(7)[OF inv] by simp
  show "node_flush F T ?S c" if "c \<in> {new}" for c
    using that not_used[OF inv b, of new] n unfolding node_flush_def Let_def by (simp add: fx_ok_def)
qed

lemma add_effect:
  assumes "bfe_add_node new S = Some S'"
  shows "same_rest S S'" "ddn_pool S' = ddn_pool S" "p_ddn_head S' = p_ddn_head S"
    "ddn (smem S') = (ddn (smem S))(new := (dn S new)\<lparr>d_where := DDN_WHERE_FLUSH\<rparr>)"
    "\<And>p. pp_flush_head (pages S' p) = (if p = d_page_node (dn S new) then pp_flush_head (pages S p) @ [new] else pp_flush_head (pages S p))"
    "\<And>p. pp_release_head (pages S' p) = pp_release_head (pages S p)"
proof -
  have "S' = dn_upd new (\<lambda>x. x\<lparr>d_where := DDN_WHERE_FLUSH\<rparr>)
      (page_upd (d_page_node (dn S new)) (\<lambda>x. x\<lparr>pp_flush_head := pp_flush_head (pages S (d_page_node (dn S new))) @ [new]\<rparr>) S)"
    using assms by (simp add: bfe_add_node_def Let_def split: Option.bind_splits if_split_asm)
  then show "same_rest S S'" "ddn_pool S' = ddn_pool S" "p_ddn_head S' = p_ddn_head S"
    "ddn (smem S') = (ddn (smem S))(new := (dn S new)\<lparr>d_where := DDN_WHERE_FLUSH\<rparr>)"
    "\<And>p. pp_flush_head (pages S' p) = (if p = d_page_node (dn S new) then pp_flush_head (pages S p) @ [new] else pp_flush_head (pages S p))"
    "\<And>p. pp_release_head (pages S' p) = pp_release_head (pages S p)"
    by (simp_all add: same_rest_def)
qed

lemma flow_add:
  assumes b: "books_ok S" and ev: "bfe_add_node new S = Some S'" and n: "new \<in> set (p_ddn_head S)" "d_where (dn S new) = DDN_WHERE_NO"
    "\<not> d_flushing (dn S new)" "\<not> d_flushed (dn S new)" "\<not> d_flush_done (dn S new)" "d_user_counter (dn S new) = 1"
  shows "flow S S'"
proof (rule flowI[of S _ "{new}"])
  note e = add_effect[OF ev]
  show "full S p \<Longrightarrow> full S' p" for p
    using ev by (simp add: bfe_add_node_def Let_def full_def split: Option.bind_splits if_split_asm) auto
  show "same_rest S S'" by (rule e(1))
  show "untouched S S' c" if "c \<notin> {new}" for c using that e by (simp add: untouched_def)
  show "keeps S S' c" if "c \<in> {new}" for c using that n(2) by (simp add: keeps_def)
  fix F T assume inv: "flush_inv F T S"
  show "distinct (pp_release_head (pages S' p))" for p using flush_invD(7)[OF inv] e(6) by simp
  show "node_flush F T S' c" if "c \<in> {new}" for c
    using that not_used[OF inv b, of new] n e flush_invD(8)[OF inv n(1)] unfolding node_flush_def Let_def
    by (simp add: fx_ok_def same_rest_def)
qed

lemma flow_put:
  assumes b: "books_ok S" and n: "new \<notin> set (p_ddn_head S)" "d_where (dn S new) = DDN_WHERE_NO"
    and e: "same_rest S S'" "p_ddn_head S' = p_ddn_head S" "pages S' = pages S" "pool_used (ddn_pool S') = pool_used (ddn_pool S) - {new}"
      "\<And>c. c \<noteq> new \<Longrightarrow> dn S' c = dn S c"
  shows "flow S S'"
proof (rule flowI[of S _ "{new}", OF e(1)])
  show "full S p \<Longrightarrow> full S' p" for p using e(1,3) by (simp add: full_def same_rest_def)
  show "untouched S S' c" if "c \<notin> {new}" for c using that e by (simp add: untouched_def)
  show "keeps S S' c" if "c \<in> {new}" for c using that n(2) by (simp add: keeps_def)
  fix F T assume inv: "flush_inv F T S"
  show "distinct (pp_release_head (pages S' p))" for p using flush_invD(7)[OF inv] e(3) by simp
  show "node_flush F T S' c" if "c \<in> {new}" for c
    using that not_used[OF inv b, of new] n e unfolding node_flush_def Let_def by simp
qed

end
