(* ===== verification/Bse_Cut.thy ===== *)
theory Bse_Cut
  imports Bfe_Flow
begin

text \<open>
  The steps of a write that make room for the new node: nodes that it overlaps are cut on the left, cut on the right,
  split or dropped. Each step returns, keeps the invariant, and leaves the map alone outside of the bytes it drops.
\<close>

section \<open>The map of a list of nodes\<close>

definition at_nodes :: "(node_addr \<Rightarrow> data_description_node) \<Rightarrow> node_addr list \<Rightarrow> int \<Rightarrow> (bool \<times> int) option" where
  "at_nodes d xs i = map_option (\<lambda>a. loc (d a) i) (List.find (\<lambda>a. covers (d a) i) xs)"

lemma bse_at_nodes: "bse_at S i = at_nodes (ddn (smem S)) (p_ddn_head S) i"
  by (simp add: bse_at_def at_nodes_def)

lemma at_nodes_simps [simp]:
  "at_nodes d [] i = None"
  "at_nodes d (a # xs) i = (if covers (d a) i then Some (loc (d a) i) else at_nodes d xs i)"
  by (simp_all add: at_nodes_def)

lemma at_nodes_cong: "(\<And>a. a \<in> set xs \<Longrightarrow> reparent (d a) (d' a)) \<Longrightarrow> at_nodes d' xs i = at_nodes d xs i"
proof (induction xs)
  case (Cons a xs)
  then have "reparent (d a) (d' a)" by simp
  from reparent_shape[OF this] show ?case using Cons by simp
qed simp

lemma at_nodes_mid:
  assumes "\<And>u. u \<in> set us \<Longrightarrow> ends_before d u a"
  shows "at_nodes d (us @ a # vs) i = (if covers (d a) i then Some (loc (d a) i) else at_nodes d (us @ vs) i)"
  using assms
proof (induction us)
  case (Cons u us)
  then have "ends_before d u a" by simp
  then have "covers (d a) i \<Longrightarrow> \<not> covers (d u) i" by (simp add: covers_def ends_before_def)
  then show ?case using Cons by auto
qed simp

lemma sorted_reparent:
  assumes "sorted_wrt (ends_before d) xs" "\<And>a. a \<in> set xs \<Longrightarrow> reparent (d a) (d' a)"
  shows "sorted_wrt (ends_before d') xs"
  using assms
proof (induction xs)
  case (Cons a xs)
  have "ends_before d' a b" if "b \<in> set xs" for b
    using Cons.prems(1) that reparentD(4,5)[OF Cons.prems(2)[of a]] reparentD(4)[OF Cons.prems(2)[of b]] by (simp add: ends_before_def)
  then show ?case using Cons by simp
qed simp

lemma bse_split:
  assumes "bse_inv S" "p_ddn_head S = us @ a # vs"
  shows "a \<in> set (p_ddn_head S)" "a \<notin> set us" "a \<notin> set vs" "distinct (us @ vs)" "node_ok' S a"
    "\<And>u. u \<in> set us \<Longrightarrow> ends_before (ddn (smem S)) u a" "\<And>v. v \<in> set vs \<Longrightarrow> ends_before (ddn (smem S)) a v"
    "sorted_wrt (ends_before (ddn (smem S))) (us @ vs)" "\<And>b. b \<in> set (us @ vs) \<Longrightarrow> node_ok' S b"
    "remove1 a (p_ddn_head S) = us @ vs"
  using bse_distinct[OF assms(1)] bse_invD(2,3)[OF assms(1)] assms(2) by (auto simp: sorted_wrt_append remove1_append)

section \<open>The node that is written\<close>

definition ready :: "node_addr \<Rightarrow> bse_private \<Rightarrow> bool" where
  "ready new S \<longleftrightarrow> new \<notin> set (p_ddn_head S) \<and> new \<in> pool_used (ddn_pool S) \<and> node_wf (dn S new) \<and>
     d_where (dn S new) = DDN_WHERE_NO \<and> \<not> d_flushing (dn S new) \<and> \<not> d_flushed (dn S new) \<and> \<not> d_flush_done (dn S new) \<and>
     d_user_counter (dn S new) = 1 \<and> total S (d_page_node (dn S new)) + d_len (dn S new) \<le> p_pagesz S \<and>
     (\<forall>p. \<forall>c \<in> set (pp_flush_head (pages S p)). d_seq (dn S c) \<le> d_seq (dn S new)) \<and>
     (\<forall>a \<in> set (p_ddn_head S). d_seq (dn S a) \<le> d_seq (dn S new) \<and>
        (d_page_node (dn S a) = d_page_node (dn S new) \<longrightarrow> d_location_disk (dn S a) = d_location_disk (dn S new)))"

lemma readyD:
  assumes "ready new S"
  shows "new \<notin> set (p_ddn_head S)" "new \<in> pool_used (ddn_pool S)" "node_wf (dn S new)" "d_where (dn S new) = DDN_WHERE_NO"
    "\<not> d_flushing (dn S new)" "\<not> d_flushed (dn S new)" "\<not> d_flush_done (dn S new)" "d_user_counter (dn S new) = 1"
    "total S (d_page_node (dn S new)) + d_len (dn S new) \<le> p_pagesz S"
    "\<And>p c. c \<in> set (pp_flush_head (pages S p)) \<Longrightarrow> d_seq (dn S c) \<le> d_seq (dn S new)"
    "\<And>a. a \<in> set (p_ddn_head S) \<Longrightarrow> d_seq (dn S a) \<le> d_seq (dn S new)"
    "\<And>a. a \<in> set (p_ddn_head S) \<Longrightarrow> d_page_node (dn S a) = d_page_node (dn S new) \<Longrightarrow> d_location_disk (dn S a) = d_location_disk (dn S new)"
  using assms by (simp_all add: ready_def)

text \<open>What every step leaves alone.\<close>

definition room_made :: "node_addr \<Rightarrow> bse_private \<Rightarrow> bse_private \<Rightarrow> bool" where
  "room_made new S S' \<longleftrightarrow> bse_inv S' \<and> ready new S' \<and> reparent (dn S new) (dn S' new) \<and> same_rest S S' \<and> flow S S'"

lemma room_made_trans: "room_made new S S' \<Longrightarrow> room_made new S' S'' \<Longrightarrow> room_made new S S''"
  unfolding room_made_def same_rest_def using reparent_trans flow_trans by (metis (no_types))

lemma ready_step:
  assumes r: "ready new S" and n: "reparent (dn S new) (dn S' new)" and t: "total S' = total S" "same_rest S S'"
    and u: "new \<in> pool_used (ddn_pool S')"
    and f: "\<And>p c. c \<in> set (pp_flush_head (pages S' p)) \<Longrightarrow> d_seq (dn S' c) \<le> d_seq (dn S new)"
    and l: "\<And>a. a \<in> set (p_ddn_head S') \<Longrightarrow> a \<noteq> new \<and> d_seq (dn S' a) \<le> d_seq (dn S new) \<and>
      (d_page_node (dn S' a) = d_page_node (dn S new) \<longrightarrow> d_location_disk (dn S' a) = d_location_disk (dn S new))"
  shows "ready new S'"
proof -
  have "new \<notin> set (p_ddn_head S')" using l by blast
  then show ?thesis using readyD(3-9)[OF r] t u f l unfolding ready_def same_rest_def by (simp add: reparentD[OF n] reparent_shape[OF n])
qed

section \<open>Dropping and cutting a node\<close>

lemma books_list [simp]: "books_ok (S\<lparr>p_ddn_head := xs\<rparr>) = books_ok S" "total (S\<lparr>p_ddn_head := xs\<rparr>) = total S"
  by (simp_all add: books_ok_def flush_lists_ok_def total_def fun_eq_iff)

lemma node_ok_reparent:
  assumes "node_ok' S b" "reparent (dn S b) (dn S' b)" "ddn_pool S' = ddn_pool S"
  shows "node_ok' S' b"
  using assms by (simp add: node_ok'_def reparent_shape reparentD)

text \<open>The list loses node \<open>a\<close>.\<close>

lemma drop_step:
  assumes inv: "bse_inv S" and xs: "p_ddn_head S = us @ a # vs" and xs': "p_ddn_head S' = us @ vs"
    and others: "\<And>b. b \<noteq> a \<Longrightarrow> reparent (dn S b) (dn S' b)" and pool: "ddn_pool S' = ddn_pool S" and books: "books_ok S'"
    and tree: "bse_tree (kf S) (us @ vs) (p_rtree S') (smem S')"
  shows "bse_inv S'" "bse_at S' i = (if covers (dn S a) i then None else bse_at S i)"
proof -
  note sp = bse_split[OF inv xs]
  have re: "reparent (dn S b) (dn S' b)" if "b \<in> set (us @ vs)" for b using others[of b] sp(2,3) that by auto
  have "bse_tree (kf S') (us @ vs) (p_rtree S') (smem S')"
    by (rule bse_tree_cong[OF tree refl refl]) (simp add: reparentD(4)[OF re])
  moreover have "sorted_wrt (ends_before (ddn (smem S'))) (us @ vs)" by (rule sorted_reparent[OF sp(8) re])
  moreover have "node_ok' S' b" if "b \<in> set (us @ vs)" for b by (rule node_ok_reparent[OF sp(9)[OF that] re[OF that] pool])
  ultimately show "bse_inv S'" using books xs' by (simp add: bse_inv_def)
  have e: "bse_at S' i = at_nodes (ddn (smem S)) (us @ vs) i" unfolding bse_at_nodes xs' by (rule at_nodes_cong[OF re])
  have at: "bse_at S i = (if covers (dn S a) i then Some (loc (dn S a) i) else at_nodes (ddn (smem S)) (us @ vs) i)"
    unfolding bse_at_nodes xs by (rule at_nodes_mid[OF sp(6)])
  have "at_nodes (ddn (smem S)) (us @ vs) i = None" if "covers (dn S a) i"
    using sp(6,7) that by (fastforce simp: at_nodes_def find_None_iff covers_def ends_before_def)
  then show "bse_at S' i = (if covers (dn S a) i then None else bse_at S i)" using e at by simp
qed

lemma bse_remove_ddn_spec:
  assumes inv: "bse_inv S" and r: "ready new S" and xs: "p_ddn_head S = us @ a # vs"
  obtains S' where "bse_remove_ddn a new S = Some S'" "room_made new S S'" "p_ddn_head S' = us @ vs"
    "\<And>b. b \<noteq> a \<Longrightarrow> reparent (dn S b) (dn S' b)" "\<And>i. bse_at S' i = (if covers (dn S a) i then None else bse_at S i)"
proof -
  note sp = bse_split[OF inv xs] and ok = node_okD[OF bse_split(5)[OF inv xs]]
  have na: "new \<noteq> a" using readyD(1)[OF r] sp(1) by auto
  have off: "d_offset (dn S a) < 2 ^ 62" using ok by linarith
  obtain S1 where S1: "bse_rt_hint_remove (d_offset (dn S a)) a S = Some S1"
    "bse_tree (kf S) (us @ vs) (p_rtree S1) (smem S1)" "reparented S S1"
    using rt_hint_remove[OF bse_invD(4)[OF inv] sp(1) bse_distinct[OF inv] refl ok(2) off] unfolding sp(10) by metis
  have p1: "ddn_pool S1 = ddn_pool S" "p_ddn_head S1 = p_ddn_head S" "pages S1 = pages S" "same_rest S S1" "\<And>b. reparent (dn S b) (dn S1 b)"
    using S1(3) by (simp_all add: reparented_def)
  note q = reparentD[OF p1(5)] reparent_shape[OF p1(5)]
  have b1: "books_ok S1" using bse_invD(1)[OF inv] reparented_books(2)[OF S1(3)] by simp
  have pre: "a \<in> pool_used (ddn_pool S1)" "flags_ok (dn S1 a)" "d_where (dn S1 new) = DDN_WHERE_NO"
    using ok readyD(4)[OF r] p1(1) q by simp_all
  obtain S2 x where S2: "bfe_del_node a new S1 = Some S2" "books_ok S2" "total S2 = total S1" "same_index S1 S2"
    "ddn (smem S2) = (ddn (smem S1))(a := x)" "d_seq x = d_seq (dn S1 a)"
    "\<And>p. set (pp_flush_head (pages S2 p)) \<subseteq> set (pp_flush_head (pages S1 p))"
    using bfe_del_node_spec[OF b1 pre] by metis
  let ?S = "S2\<lparr>p_ddn_head := us @ vs\<rparr>"
  have si: "ddn_pool S2 = ddn_pool S" "p_rtree S2 = p_rtree S1" "p_ddn_head S2 = us @ a # vs"
    "btn_pool (smem S2) = btn_pool (smem S1)" "btn (smem S2) = btn (smem S1)" "same_rest S ?S"
    using S2(4) p1 xs by (simp_all add: same_index_def same_rest_def)
  have re: "reparent (dn S b) (dn ?S b)" if "b \<noteq> a" for b using p1(5)[of b] that S2(5) by simp
  have sq: "d_seq (dn ?S b) = d_seq (dn S b)" for b using S2(5,6) q by (cases "b = a") simp_all
  have tree: "bse_tree (kf S) (us @ vs) (p_rtree ?S) (smem ?S)"
  proof -
    have "bse_tree (kf S) (us @ vs) (p_rtree S1) (smem S2)"
      using sp(2,3) S2(5) by (intro bse_tree_cong[OF S1(2) si(4,5)]) auto
    then show ?thesis using si(2) by simp
  qed
  have bk: "books_ok ?S" using S2(2) by simp
  have pl: "ddn_pool ?S = ddn_pool S" using si(1) by simp
  have hd': "p_ddn_head ?S = us @ vs" by simp
  note D = drop_step[OF inv xs hd' re pl bk tree]
  have rd: "ready new ?S"
  proof (rule ready_step[OF r re[OF na] _ si(6)])
    show "total ?S = total S" using S2(3) reparented_books(1)[OF S1(3)] by simp
    show "new \<in> pool_used (ddn_pool ?S)" using readyD(2)[OF r] pl by simp
    show "d_seq (dn ?S c) \<le> d_seq (dn S new)" if "c \<in> set (pp_flush_head (pages ?S p))" for p c
      using S2(7)[of p] that readyD(10)[OF r, of c p] sq[of c] p1(3) by auto
    show "b \<noteq> new \<and> d_seq (dn ?S b) \<le> d_seq (dn S new) \<and>
      (d_page_node (dn ?S b) = d_page_node (dn S new) \<longrightarrow> d_location_disk (dn ?S b) = d_location_disk (dn S new))"
      if "b \<in> set (p_ddn_head ?S)" for b
    proof -
      have b: "b \<noteq> a" "b \<in> set (p_ddn_head S)" using that sp(2,3) xs by auto
      then show ?thesis using readyD(1)[OF r] readyD(11,12)[OF r b(2)] reparentD[OF re[OF b(1)]] by auto
    qed
  qed
  have ev: "bse_remove_ddn a new S = Some ?S" using S1(1) S2(1) si(3) sp(10) xs by (simp add: bse_remove_ddn_def)
  have xs1: "set (us @ vs) = set (p_ddn_head S1) - {a}" using p1(2) xs sp(2,3) by auto
  have a1: "a \<in> set (p_ddn_head S1)" using p1(2) sp(1) by simp
  have fl: "flow S ?S" by (rule flow_trans[OF flow_reparented[OF S1(3)] flow_del[OF b1 S2(1) a1 pre(2,1) xs1]])
  show ?thesis by (rule that[OF ev _ hd' re D(2)]) (use D(1) rd re[OF na] si(6) fl in \<open>simp add: room_made_def\<close>)
qed

text \<open>Node \<open>a\<close> loses bytes at one of its ends.\<close>

definition shrunk :: "data_description_node \<Rightarrow> data_description_node \<Rightarrow> bool" where
  "shrunk x x' \<longleftrightarrow> d_offset x \<le> d_offset x' \<and> d_offset x' + d_len x' \<le> d_offset x + d_len x \<and> 0 < d_len x' \<and>
     d_pos x' - d_offset x' = d_pos x - d_offset x \<and> d_location_disk x' = d_location_disk x \<and> d_page_node x' = d_page_node x \<and>
     d_seq x' = d_seq x \<and> d_user_counter x' = d_user_counter x \<and> (flags_ok x \<longrightarrow> flags_ok x')"

lemma shrunk_covers:
  assumes "shrunk x x'" "covers x' i"
  shows "covers x i" "loc x' i = loc x i"
  using assms by (auto simp: shrunk_def covers_def loc_def)

lemma shrunk_inside: "shrunk x x' \<Longrightarrow> inside x x'"
  using shrunk_covers by (auto simp: inside_def shrunk_def)

lemma shrunk_reparent: "shrunk x y \<Longrightarrow> reparent y z \<Longrightarrow> shrunk x z"
  by (simp add: shrunk_def reparentD reparent_shape)

lemma cut_sorted:
  assumes inv: "bse_inv S" and xs: "p_ddn_head S = us @ a # vs"
    and re: "\<And>b. b \<in> set (us @ vs) \<Longrightarrow> reparent (dn S b) (dn S' b)" and a: "shrunk (dn S a) (dn S' a)"
  shows "sorted_wrt (ends_before (ddn (smem S'))) (us @ a # vs)"
proof -
  note sp = bse_split[OF inv xs]
  have "sorted_wrt (ends_before (ddn (smem S'))) (us @ vs)" by (rule sorted_reparent[OF sp(8) re])
  moreover have "ends_before (ddn (smem S')) u a" if "u \<in> set us" for u
    using sp(6)[OF that] a reparentD(4,5)[OF re[of u]] that by (simp add: ends_before_def shrunk_def)
  moreover have "ends_before (ddn (smem S')) a v" if "v \<in> set vs" for v
    using sp(7)[OF that] a reparentD(4,5)[OF re[of v]] that by (simp add: ends_before_def shrunk_def)
  ultimately show ?thesis by (simp add: sorted_wrt_append)
qed

lemma cut_step_inv:
  assumes inv: "bse_inv S" and xs: "p_ddn_head S = us @ a # vs" and xs': "p_ddn_head S' = us @ a # vs"
    and re: "\<And>b. b \<in> set (us @ vs) \<Longrightarrow> reparent (dn S b) (dn S' b)" and a: "shrunk (dn S a) (dn S' a)"
    and pool: "ddn_pool S' = ddn_pool S" and books: "books_ok S'"
    and tree: "bse_tree (kf S') (us @ a # vs) (p_rtree S') (smem S')"
  shows "bse_inv S'" "(covers (dn S a) i \<Longrightarrow> covers (dn S' a) i) \<Longrightarrow> bse_at S' i = bse_at S i"
proof -
  note sp = bse_split[OF inv xs] and ok = node_okD[OF bse_split(5)[OF inv xs]]
  note so = cut_sorted[OF inv xs re a]
  then have u: "\<And>u. u \<in> set us \<Longrightarrow> ends_before (ddn (smem S')) u a" by (simp add: sorted_wrt_append)
  have "node_ok' S' b" if "b \<in> set (us @ vs)" for b by (rule node_ok_reparent[OF sp(9)[OF that] re[OF that] pool])
  moreover have "node_ok' S' a" using ok a pool by (auto simp: node_ok'_def node_wf_def shrunk_def)
  ultimately show "bse_inv S'" using books tree so xs' by (simp add: bse_inv_def)
  have "at_nodes (ddn (smem S')) (us @ vs) i = at_nodes (ddn (smem S)) (us @ vs) i" by (rule at_nodes_cong[OF re])
  moreover have "bse_at S i = (if covers (dn S a) i then Some (loc (dn S a) i) else at_nodes (ddn (smem S)) (us @ vs) i)"
    unfolding bse_at_nodes xs by (rule at_nodes_mid[OF sp(6)])
  moreover have "bse_at S' i = (if covers (dn S' a) i then Some (loc (dn S' a) i) else at_nodes (ddn (smem S')) (us @ vs) i)"
    unfolding bse_at_nodes xs' by (rule at_nodes_mid[OF u])
  ultimately show "bse_at S' i = bse_at S i" if "covers (dn S a) i \<Longrightarrow> covers (dn S' a) i"
    using that shrunk_covers[OF a, of i] by auto
qed

lemma cut_step_ready:
  assumes inv: "bse_inv S" and r: "ready new S" and xs: "p_ddn_head S = us @ a # vs" and xs': "p_ddn_head S' = us @ a # vs"
    and others: "\<And>b. b \<noteq> a \<Longrightarrow> reparent (dn S b) (dn S' b)" and a: "shrunk (dn S a) (dn S' a)"
    and pool: "ddn_pool S' = ddn_pool S" and t: "total S' = total S" "same_rest S S'"
    and f: "\<And>p. pp_flush_head (pages S' p) = pp_flush_head (pages S p)"
  shows "ready new S'" "reparent (dn S new) (dn S' new)"
proof -
  have na: "new \<noteq> a" using readyD(1)[OF r] xs by auto
  then show re: "reparent (dn S new) (dn S' new)" using others by simp
  have sq: "d_seq (dn S' b) = d_seq (dn S b) \<and> d_page_node (dn S' b) = d_page_node (dn S b) \<and> d_location_disk (dn S' b) = d_location_disk (dn S b)" for b
    using a reparentD[OF others[of b]] by (cases "b = a") (auto simp: shrunk_def)
  show "ready new S'"
  proof (rule ready_step[OF r re t])
    show "new \<in> pool_used (ddn_pool S')" using readyD(2)[OF r] pool by simp
    show "d_seq (dn S' c) \<le> d_seq (dn S new)" if "c \<in> set (pp_flush_head (pages S' p))" for p c
      using readyD(10)[OF r, of c p] that f sq by simp
    show "b \<noteq> new \<and> d_seq (dn S' b) \<le> d_seq (dn S new) \<and>
      (d_page_node (dn S' b) = d_page_node (dn S new) \<longrightarrow> d_location_disk (dn S' b) = d_location_disk (dn S new))"
      if "b \<in> set (p_ddn_head S')" for b
      using that readyD(1)[OF r] readyD(11,12)[OF r, of b] xs xs' sq by auto
  qed
qed

lemma kept_shrunk:
  assumes "kept x x'" "d_offset x \<le> d_offset x'" "d_offset x' + d_len x' \<le> d_offset x + d_len x" "0 < d_len x'"
    "d_pos x' - d_offset x' = d_pos x - d_offset x"
  shows "shrunk x x'"
  using assms by (auto simp: shrunk_def kept_def flags_ok_def)

lemma bse_right_cut_spec:
  assumes inv: "bse_inv S" and r: "ready new S" and xs: "p_ddn_head S = us @ a # vs" and c: "0 < c" "c < d_len (dn S a)"
  obtains S' where "bfe_right_cut_node a c new S = Some S'" "room_made new S S'" "p_ddn_head S' = us @ a # vs"
    "\<And>b. b \<noteq> a \<Longrightarrow> reparent (dn S b) (dn S' b)" "d_offset (dn S' a) = d_offset (dn S a)" "d_len (dn S' a) = d_len (dn S a) - c"
    "\<And>i. i < d_offset (dn S a) + d_len (dn S a) - c \<or> d_offset (dn S a) + d_len (dn S a) \<le> i \<Longrightarrow> bse_at S' i = bse_at S i"
proof -
  note ok = node_okD[OF bse_split(5)[OF inv xs]]
  obtain S' x where S': "bfe_right_cut_node a c new S = Some S'" "books_ok S'" "total S' = total S" "same_index S S'"
    "ddn (smem S') = (ddn (smem S))(a := x)" "kept (dn S a) x" "d_offset x = d_offset (dn S a)"
    "d_len x = d_len (dn S a) - c" "d_pos x = d_pos (dn S a)" "\<And>p. pp_flush_head (pages S' p) = pp_flush_head (pages S p)"
    using bfe_right_cut_node_spec[OF bse_invD(1)[OF inv] ok(1,6) c ok(4) readyD(4)[OF r]] by metis
  have si: "ddn_pool S' = ddn_pool S" "p_rtree S' = p_rtree S" "p_ddn_head S' = us @ a # vs" "same_rest S S'"
    "btn_pool (smem S') = btn_pool (smem S)" "btn (smem S') = btn (smem S)"
    using S'(4) xs by (simp_all add: same_index_def)
  have re: "\<And>b. b \<noteq> a \<Longrightarrow> reparent (dn S b) (dn S' b)" using S'(5) by simp
  have sh: "shrunk (dn S a) (dn S' a)" using kept_shrunk[OF S'(6)] S'(5,7-9) c by simp
  have tree: "bse_tree (kf S') (us @ a # vs) (p_rtree S') (smem S')" unfolding si(2)
    by (rule bse_tree_cong[OF bse_invD(4)[OF inv, unfolded xs] si(5,6)]) (use S'(5-7) in \<open>simp add: kept_def\<close>)
  have re': "\<And>b. b \<in> set (us @ vs) \<Longrightarrow> reparent (dn S b) (dn S' b)"
    by (rule re) (use bse_split(2,3)[OF inv xs] in auto)
  note D = cut_step_inv[OF inv xs si(3) re' sh si(1) S'(2) tree]
    and R = cut_step_ready[OF inv r xs si(3) re sh si(1) S'(3) si(4) S'(10)]
  have dx: "dn S' a = x" using S'(5) by simp
  have wh: "d_where (dn S a) \<noteq> DDN_WHERE_NO" using ok(6) by (simp add: flags_ok_def)
  have fl: "flow S S'"
    by (rule flow_cut[OF S'(4,5,6) right_cut_frame(2)[OF S'(1), unfolded dx] _ _ S'(10) right_cut_frame(1)[OF S'(1)] full_kept[OF bse_invD(1)[OF inv] ok(1) wh si(4) right_cut_account[OF S'(1)]]])
      (use shrunk_inside[OF sh] dx in \<open>simp_all add: inside_def\<close>)
  have rm: "room_made new S S'" using D(1) R si(4) fl by (simp add: room_made_def)
  show ?thesis
    by (rule that[OF S'(1) rm si(3) re]) (use S'(5,7,8) in \<open>auto simp: covers_def intro!: D(2)\<close>)
qed

text \<open>A node that is cut on the left may move to another slot of the tree.\<close>

lemma move_slot:
  assumes tree: "bse_tree f (us @ a # vs) (p_rtree S) (smem S)" and dis: "distinct (us @ a # vs)"
    and so: "sorted_wrt (ends_before (ddn (smem S))) (us @ a # vs)" and len: "\<forall>b \<in> set (us @ a # vs). 0 < d_len (dn S b)"
    and f: "\<And>b. b \<in> set (us @ vs) \<Longrightarrow> f b = kf S b" "f a = slot_of old" "0 \<le> old" "old < 2 ^ 62"
    and a: "0 \<le> d_offset (dn S a)" "d_offset (dn S a) < 2 ^ 62"
  obtains S' where "do { T \<leftarrow> bse_rt_hint_remove old a S; bse_rt_insert (d_offset (dn S a)) a T } = Some S'"
    "bse_tree (kf S) (us @ a # vs) (p_rtree S') (smem S')" "reparented S S'"
proof -
  have rem: "remove1 a (us @ a # vs) = us @ vs" using dis by (simp add: remove1_append)
  obtain S1 where S1: "bse_rt_hint_remove old a S = Some S1" "bse_tree f (us @ vs) (p_rtree S1) (smem S1)" "reparented S S1"
    using rt_hint_remove[OF tree _ dis f(2-4)] unfolding rem by auto
  have re: "\<And>b. reparent (dn S b) (dn S1 b)" using S1(3) by (simp add: reparented_def)
  note q = reparentD[OF re]
  have t1: "bse_tree (kf S) (us @ vs) (p_rtree S1) (smem S1)"
    by (rule bse_tree_cong[OF S1(2) refl refl]) (use f(1) in auto)
  have "sorted_wrt (ends_before (ddn (smem S1))) (us @ a # vs)" by (rule sorted_reparent[OF so re])
  then have pl: "\<forall>u \<in> set us. ends_before (ddn (smem S1)) u a \<and> 0 < d_len (dn S1 u)" "\<forall>v \<in> set vs. ends_before (ddn (smem S1)) a v"
    "0 < d_len (dn S1 a)" using len q by (simp_all add: sorted_wrt_append)
  have nin: "a \<notin> set (us @ vs)" using dis by auto
  obtain S2 where S2: "bse_rt_insert (d_offset (dn S a)) a S1 = Some S2" "bse_tree (kf S) (us @ a # vs) (p_rtree S2) (smem S2)" "reparented S1 S2"
    using rt_insert[OF t1 nin refl a pl] by metis
  have "reparented S S2" by (rule reparented_trans[OF S1(3) S2(3)])
  then show ?thesis using S1(1) S2(1,2) q(4) by (intro that[of S2]) simp_all
qed

lemma reparented_sel:
  assumes "reparented S S'"
  shows "\<And>b. reparent (dn S b) (dn S' b)" "ddn_pool S' = ddn_pool S" "p_ddn_head S' = p_ddn_head S" "pages S' = pages S" "same_rest S S'"
  using assms by (simp_all add: reparented_def)

lemma bse_left_cut_spec:
  assumes inv: "bse_inv S" and r: "ready new S" and xs: "p_ddn_head S = us @ a # vs" and c: "0 < c" "c < d_len (dn S a)"
  obtains S' where "bse_left_cut_adjust a c new S = Some S'" "room_made new S S'" "p_ddn_head S' = us @ a # vs"
    "\<And>b. b \<noteq> a \<Longrightarrow> reparent (dn S b) (dn S' b)" "d_offset (dn S' a) = d_offset (dn S a) + c" "d_len (dn S' a) = d_len (dn S a) - c"
    "\<And>i. i < d_offset (dn S a) \<or> d_offset (dn S a) + c \<le> i \<Longrightarrow> bse_at S' i = bse_at S i"
proof -
  note sp = bse_split[OF inv xs] and ok = node_okD[OF bse_split(5)[OF inv xs]]
  obtain S1 x where S1: "bfe_left_cut_node a c new S = Some S1" "books_ok S1" "total S1 = total S" "same_index S S1"
    "ddn (smem S1) = (ddn (smem S))(a := x)" "kept (dn S a) x" "d_offset x = d_offset (dn S a) + c"
    "d_len x = d_len (dn S a) - c" "d_pos x = d_pos (dn S a) + c" "\<And>p. pp_flush_head (pages S1 p) = pp_flush_head (pages S p)"
    using bfe_left_cut_node_spec[OF bse_invD(1)[OF inv] ok(1,6) c ok(4) readyD(4)[OF r]] by metis
  have si: "ddn_pool S1 = ddn_pool S" "p_rtree S1 = p_rtree S" "p_ddn_head S1 = us @ a # vs" "same_rest S S1"
    "btn_pool (smem S1) = btn_pool (smem S)" "btn (smem S1) = btn (smem S)"
    using S1(4) xs by (simp_all add: same_index_def)
  have re1: "\<And>b. b \<noteq> a \<Longrightarrow> reparent (dn S b) (dn S1 b)" using S1(5) by simp
  have sh1: "shrunk (dn S a) (dn S1 a)" using kept_shrunk[OF S1(6)] S1(5,7-9) c by simp
  have t1: "bse_tree (kf S) (us @ a # vs) (p_rtree S1) (smem S1)" unfolding si(2)
    by (rule bse_tree_cong[OF bse_invD(4)[OF inv, unfolded xs] si(5,6)]) (use S1(5-7) in \<open>simp add: kept_def\<close>)
  have off: "0 \<le> d_offset (dn S1 a)" "d_offset (dn S1 a) < 2 ^ 62" "d_offset (dn S a) < 2 ^ 62" using S1(5,7) ok c by simp_all
  have kf1: "kf S b = kf S1 b" if "b \<in> set (us @ vs)" for b using that sp(2,3) S1(5) by auto
  obtain S' where S': "bse_left_cut_adjust a c new S = Some S'" "bse_tree (kf S1) (us @ a # vs) (p_rtree S') (smem S')" "reparented S1 S'"
  proof (cases "slot_key (d_offset (dn S1 a)) = slot_key (d_offset (dn S a))")
    case True
    then have "kf S1 a = kf S a" using unat_slot_key(1) off ok(2) by metis
    then have "bse_tree (kf S1) (us @ a # vs) (p_rtree S1) (smem S1)" using kf1 by (intro bse_tree_cong[OF t1 refl refl]) auto
    then show ?thesis using that[of S1] S1(1,5,7) True by (simp add: bse_left_cut_adjust_def Let_def reparented_def same_rest_def)
  next
    case False
    have "\<And>b. b \<in> set (us @ vs) \<Longrightarrow> reparent (dn S b) (dn S1 b)" by (rule re1) (use sp(2,3) in auto)
    note so = cut_sorted[OF inv xs this sh1]
    have "0 < d_len (dn S1 b)" if "b \<in> set (us @ vs)" for b
      using node_okD(3)[OF sp(9)[OF that]] that sp(2,3) S1(5) by (cases "b = a") simp_all
    moreover have "0 < d_len (dn S1 a)" using S1(5,8) c by simp
    ultimately have len: "\<forall>b \<in> set (us @ a # vs). 0 < d_len (dn S1 b)" by simp
    have dis: "distinct (us @ a # vs)" using bse_distinct[OF inv] xs by simp
    obtain S' where "do { T \<leftarrow> bse_rt_hint_remove (d_offset (dn S a)) a S1; bse_rt_insert (d_offset (dn S1 a)) a T } = Some S'"
      "bse_tree (kf S1) (us @ a # vs) (p_rtree S') (smem S')" "reparented S1 S'"
      by (rule move_slot[OF t1 dis so len kf1 refl ok(2) off(3) off(1,2)])
    then show ?thesis using that[of S'] S1(1,5,7) False by (simp add: bse_left_cut_adjust_def Let_def)
  qed
  note rs = reparented_sel[OF S'(3)]
  have re: "\<And>b. b \<noteq> a \<Longrightarrow> reparent (dn S b) (dn S' b)" using re1 rs(1) reparent_trans by blast
  have sh: "shrunk (dn S a) (dn S' a)" by (rule shrunk_reparent[OF sh1 rs(1)])
  have xs': "p_ddn_head S' = us @ a # vs" and po: "ddn_pool S' = ddn_pool S" and sr: "same_rest S S'"
    and fl: "\<And>p. pp_flush_head (pages S' p) = pp_flush_head (pages S p)"
    using rs si S1(10) by (simp_all add: same_rest_def)
  have bk: "books_ok S'" "total S' = total S" using reparented_books(1,2)[OF S'(3)] S1(2,3) by simp_all
  have tree: "bse_tree (kf S') (us @ a # vs) (p_rtree S') (smem S')" using S'(2) reparented_books(3)[OF S'(3)] by simp
  have re': "\<And>b. b \<in> set (us @ vs) \<Longrightarrow> reparent (dn S b) (dn S' b)" by (rule re) (use sp(2,3) in auto)
  note D = cut_step_inv[OF inv xs xs' re' sh po bk(1) tree]
    and R = cut_step_ready[OF inv r xs xs' re sh po bk(2) sr fl]
  have dx: "dn S1 a = x" using S1(5) by simp
  have wh: "d_where (dn S a) \<noteq> DDN_WHERE_NO" and sr1: "same_rest S S1" using ok(6) S1(4) by (simp_all add: flags_ok_def same_index_def)
  have "flow S S1"
    by (rule flow_cut[OF S1(4,5,6) left_cut_frame(2)[OF S1(1), unfolded dx] _ _ S1(10) left_cut_frame(1)[OF S1(1)] full_kept[OF bse_invD(1)[OF inv] ok(1) wh sr1 left_cut_account[OF S1(1)]]])
      (use shrunk_inside[OF sh1] dx in \<open>simp_all add: inside_def\<close>)
  then have fl: "flow S S'" by (rule flow_trans[OF _ flow_reparented[OF S'(3)]])
  have rm: "room_made new S S'" using D(1) R sr fl by (simp add: room_made_def)
  have oa: "d_offset (dn S' a) = d_offset (dn S a) + c" "d_len (dn S' a) = d_len (dn S a) - c"
    using reparentD(4,5)[OF rs(1)[of a]] S1(5,7,8) by simp_all
  show ?thesis by (rule that[OF S'(1) rm xs' re oa]) (use oa in \<open>auto simp: covers_def intro!: D(2)\<close>)
qed

end
