(* ===== verification/Bse_Add.thy ===== *)
theory Bse_Add
  imports Bse_Cut
begin

text \<open>
  The steps of a write that add nodes to the list, or merge the new node into its neighbour.
\<close>

section \<open>Adding a node\<close>

lemma added_inv:
  assumes inv: "bse_inv S" and xs: "p_ddn_head S = us @ vs" and xs': "p_ddn_head S' = us @ a # vs"
    and re: "\<And>b. b \<in> set (us @ vs) \<Longrightarrow> reparent (dn S b) (dn S' b)" and pool: "ddn_pool S' = ddn_pool S" and books: "books_ok S'"
    and tree: "bse_tree (kf S') (us @ a # vs) (p_rtree S') (smem S')" and a: "node_ok' S' a"
    and u: "\<And>u. u \<in> set us \<Longrightarrow> ends_before (ddn (smem S')) u a" and v: "\<And>v. v \<in> set vs \<Longrightarrow> ends_before (ddn (smem S')) a v"
  shows "bse_inv S'" "bse_at S' i = (if covers (dn S' a) i then Some (loc (dn S' a) i) else bse_at S i)"
proof -
  have "sorted_wrt (ends_before (ddn (smem S'))) (us @ vs)" using sorted_reparent[OF bse_invD(2)[OF inv, unfolded xs] re] .
  then have "sorted_wrt (ends_before (ddn (smem S'))) (us @ a # vs)" using u v by (simp add: sorted_wrt_append)
  moreover have "node_ok' S' b" if "b \<in> set (us @ vs)" for b
    using that by (intro node_ok_reparent[OF bse_invD(3)[OF inv] re pool]) (simp_all add: xs)
  ultimately show "bse_inv S'" using books tree a xs' by (simp add: bse_inv_def)
  show "bse_at S' i = (if covers (dn S' a) i then Some (loc (dn S' a) i) else bse_at S i)"
    using at_nodes_mid[of us "ddn (smem S')" a vs i] u at_nodes_cong[of "us @ vs" "ddn (smem S)" "ddn (smem S')" i] re
    unfolding bse_at_nodes xs xs' by simp
qed

lemma bse_add_ddn_spec:
  assumes inv: "bse_inv S" and xs: "p_ddn_head S = us @ vs" and a: "a \<notin> set (us @ vs)" "node_wf (dn S a)"
    and u: "\<And>u. u \<in> set us \<Longrightarrow> ends_before (ddn (smem S)) u a" and v: "\<And>v. v \<in> set vs \<Longrightarrow> ends_before (ddn (smem S)) a v"
    and pos: "pos = length us"
  obtains S' where "bse_add_ddn a pos S = Some S'" "p_ddn_head S' = us @ a # vs" "bse_tree (kf S') (us @ a # vs) (p_rtree S') (smem S')"
    "\<And>b. reparent (dn S b) (dn S' b)" "ddn_pool S' = ddn_pool S" "pages S' = pages S" "same_rest S S'"
    "books_ok S'" "total S' = total S"
proof -
  let ?S = "S\<lparr>p_ddn_head := us @ a # vs\<rparr>"
  have wf: "0 \<le> d_offset (dn S a)" "d_offset (dn S a) < 2 ^ 62" "0 < d_len (dn S a)" using a(2) by (auto simp: node_wf_def)
  have t: "bse_tree (kf S) (us @ vs) (p_rtree ?S) (smem ?S)" using bse_invD(4)[OF inv] xs by simp
  have us: "\<forall>b \<in> set us. ends_before (ddn (smem ?S)) b a \<and> 0 < d_len (dn ?S b)"
    using u node_okD(3)[OF bse_invD(3)[OF inv]] xs by auto
  have vs: "\<forall>b \<in> set vs. ends_before (ddn (smem ?S)) a b" using v by simp
  obtain S' where S': "bse_rt_insert (d_offset (dn S a)) a ?S = Some S'" "bse_tree (kf S) (us @ a # vs) (p_rtree S') (smem S')"
    "reparented ?S S'"
    using rt_insert[OF t a(1) refl wf(1,2) us vs] wf(3) by auto
  note rs = reparented_sel[OF S'(3)] and rb = reparented_books[OF S'(3)]
  have lu: "us \<noteq> [] \<Longrightarrow> node_end (dn S (last us)) < d_offset (dn S a)" using u[of "last us"] by (simp add: ends_before_def node_end_def)
  have hv: "vs \<noteq> [] \<Longrightarrow> node_end (dn S a) < d_offset (dn S (hd vs))" using v[of "hd vs"] by (simp add: ends_before_def node_end_def)
  have "bse_add_ddn a pos S = Some S'"
  proof -
    have e: "pos > 0 \<Longrightarrow> p_ddn_head S ! (pos - 1) = last us" "pos < length (p_ddn_head S) \<Longrightarrow> p_ddn_head S ! pos = hd vs"
      using pos xs by (auto simp: nth_append last_conv_nth hd_conv_nth)
    show ?thesis using S'(1) lu hv e pos xs by (auto simp: bse_add_ddn_def Let_def)
  qed
  moreover have "books_ok S'" "total S' = total S" using rb(1,2) bse_invD(1)[OF inv] by simp_all
  moreover have "kf S' = kf S" using rb(3) by simp
  ultimately show ?thesis using that[of S'] S'(2) rs by (simp add: same_rest_def)
qed

section \<open>Completing the write\<close>

definition written :: "node_addr \<Rightarrow> bse_private \<Rightarrow> bse_private \<Rightarrow> bool" where
  "written new S S' \<longleftrightarrow> bse_inv S' \<and> same_rest S S' \<and> (d_len (dn S new) < p_max_flush_size S \<longrightarrow> flow S S') \<and>
     (\<forall>i. bse_at S' i = (if covers (dn S new) i then Some (loc (dn S new) i) else bse_at S i))"

text \<open>The list has a gap for the new node.\<close>

definition gap :: "node_addr \<Rightarrow> node_addr list \<Rightarrow> node_addr list \<Rightarrow> bse_private \<Rightarrow> bool" where
  "gap new us vs S \<longleftrightarrow> p_ddn_head S = us @ vs \<and> (\<forall>u \<in> set us. ends_before (ddn (smem S)) u new) \<and>
     (\<forall>v \<in> set vs. ends_before (ddn (smem S)) new v)"

lemma add_new:
  assumes inv: "bse_inv S" and r: "ready new S" and g: "gap new us vs S" and pos: "pos = length us"
  obtains S' where "do { S \<leftarrow> bse_add_ddn new pos S; bfe_add_node new S } = Some S'" "written new S S'"
proof -
  have xs: "p_ddn_head S = us @ vs" and u: "\<And>u. u \<in> set us \<Longrightarrow> ends_before (ddn (smem S)) u new"
    and v: "\<And>v. v \<in> set vs \<Longrightarrow> ends_before (ddn (smem S)) new v" using g by (auto simp: gap_def)
  have nin: "new \<notin> set (us @ vs)" using readyD(1)[OF r] xs by simp
  obtain S1 where S1: "bse_add_ddn new pos S = Some S1" "p_ddn_head S1 = us @ new # vs"
    "bse_tree (kf S1) (us @ new # vs) (p_rtree S1) (smem S1)" "\<And>b. reparent (dn S b) (dn S1 b)" "ddn_pool S1 = ddn_pool S"
    "pages S1 = pages S" "same_rest S S1" "books_ok S1" "total S1 = total S"
    using bse_add_ddn_spec[OF inv xs nin readyD(3)[OF r] u v pos] by metis
  note q = reparentD[OF S1(4)] reparent_shape[OF S1(4)]
  have pre: "new \<in> pool_used (ddn_pool S1)" "d_where (dn S1 new) = DDN_WHERE_NO" "\<not> d_flush_done (dn S1 new)" "0 < d_len (dn S1 new)"
    "total S1 (d_page_node (dn S1 new)) + d_len (dn S1 new) \<le> p_pagesz S1"
    using readyD(2-4,7,9)[OF r] S1(5,7,9) q by (simp_all add: node_wf_def same_rest_def)
  have sq: "d_seq (dn S1 c) \<le> d_seq (dn S1 new)" if "c \<in> set (pp_flush_head (pages S1 (d_page_node (dn S1 new))))" for c
    using readyD(10)[OF r] that S1(6) q by simp
  obtain S2 where S2: "bfe_add_node new S1 = Some S2" "books_ok S2" "same_index S1 S2"
    "ddn (smem S2) = (ddn (smem S1))(new := (dn S1 new)\<lparr>d_where := DDN_WHERE_FLUSH\<rparr>)"
    using bfe_add_node_spec[OF S1(8) pre sq] by metis
  have si: "ddn_pool S2 = ddn_pool S" "p_rtree S2 = p_rtree S1" "p_ddn_head S2 = us @ new # vs"
    "btn_pool (smem S2) = btn_pool (smem S1)" "btn (smem S2) = btn (smem S1)" "same_rest S S2"
    using S2(3) S1(2,5,7) by (simp_all add: same_index_def same_rest_def)
  have tree: "bse_tree (kf S2) (us @ new # vs) (p_rtree S2) (smem S2)" unfolding si(2)
    by (rule bse_tree_cong[OF S1(3) si(4,5)]) (simp add: S2(4))
  have re: "reparent (dn S b) (dn S2 b)" if "b \<in> set (us @ vs)" for b using S1(4)[of b] nin that by (auto simp: S2(4))
  have sh: "d_offset (dn S2 b) = d_offset (dn S b)" "d_len (dn S2 b) = d_len (dn S b)" for b using q by (simp_all add: S2(4))
  have ok: "node_ok' S2 new" using readyD(2,3,5-8)[OF r] si(1) q by (simp add: node_ok'_def S2(4) flags_ok_def node_wf_def)
  have u2: "ends_before (ddn (smem S2)) b new" if "b \<in> set us" for b using u[OF that] by (simp add: ends_before_def sh)
  have v2: "ends_before (ddn (smem S2)) new b" if "b \<in> set vs" for b using v[OF that] by (simp add: ends_before_def sh)
  note A = added_inv[OF inv xs si(3) re si(1) S2(2) tree ok u2 v2]
  have "covers (dn S2 new) i = covers (dn S new) i" "loc (dn S2 new) i = loc (dn S new) i" for i
    using q by (simp_all add: covers_def loc_def S2(4))
  moreover have "flow S S2" if l: "d_len (dn S new) < p_max_flush_size S"
  proof -
    let ?T = "S\<lparr>p_ddn_head := us @ new # vs\<rparr>"
    have "flow S ?T" by (rule flow_link[OF bse_invD(1)[OF inv] readyD(4-6)[OF r] l]) (simp add: xs)
    moreover have "flow ?T S1"
      by (rule flow_reparented) (use S1(2,4-7) in \<open>simp add: reparented_def same_rest_def\<close>)
    moreover have "flow S1 S2"
      by (rule flow_add[OF S1(8) S2(1)]) (use readyD(4-8)[OF r] q S1(2) in simp_all)
    ultimately show ?thesis using flow_trans by blast
  qed
  ultimately have "written new S S2" using A si(6) by (simp add: written_def)
  then show ?thesis using that[of S2] S1(1) S2(1) by simp
qed

lemma merge_new:
  assumes inv: "bse_inv S" and r: "ready new S" and g: "gap new (us @ [a]) vs S"
    and adj: "d_offset (dn S a) + d_len (dn S a) = d_offset (dn S new)" "d_page_node (dn S a) = d_page_node (dn S new)"
      "d_pos (dn S a) + d_len (dn S a) = d_pos (dn S new)"
  obtains rc where "rc \<noteq> 0" "bfe_right_extend_node a new S = Some (rc, S)"
  | S1 S2 l where "bfe_right_extend_node a new S = Some (0, S1)" "d_where (dn S1 new) = DDN_WHERE_NO"
      "ddn_put_node new S1 = Some (l, S2)" "written new S S2"
proof -
  have xs: "p_ddn_head S = us @ a # vs" using g by (simp add: gap_def)
  note sp = bse_split[OF inv xs] and ok = node_okD[OF bse_split(5)[OF inv xs]]
  have na: "new \<noteq> a" using readyD(1)[OF r] sp(1) by auto
  have ln: "0 < d_len (dn S new)" "0 < d_len (dn S new)" using readyD(3)[OF r] by (auto simp: node_wf_def)
  obtain rc S1 where S1: "bfe_right_extend_node a new S = Some (rc, S1)" "same_index S S1" "pages S1 = pages S"
    "rc \<noteq> 0 \<longrightarrow> S1 = S"
    "rc = 0 \<longrightarrow> books_ok S1 \<and> ddn (smem S1) = (ddn (smem S))(a := (dn S a)\<lparr>d_len := d_len (dn S a) + d_len (dn S new)\<rparr>) \<and>
       total S1 = (\<lambda>p. if p = d_page_node (dn S new) then total S p + d_len (dn S new) else total S p)"
    by (rule bfe_right_extend_node_spec[OF bse_invD(1)[OF inv] ok(1,6) readyD(4)[OF r] ln(1) adj(2) readyD(9)[OF r]])
  show ?thesis
  proof (cases "rc = 0")
    case False
    then show ?thesis using that(1) S1(1,4) by simp
  next
    case True
    note S1' = S1(5)[rule_format, OF True]
    let ?x = "(dn S a)\<lparr>d_len := d_len (dn S a) + d_len (dn S new)\<rparr>"
    have d1: "ddn (smem S1) = (ddn (smem S))(a := ?x)" and b1: "books_ok S1" using S1' by simp_all
    have si: "ddn_pool S1 = ddn_pool S" "p_rtree S1 = p_rtree S" "p_ddn_head S1 = us @ a # vs" "same_rest S S1"
      "btn_pool (smem S1) = btn_pool (smem S)" "btn (smem S1) = btn (smem S)" using S1(2) xs by (simp_all add: same_index_def)
    have n1: "dn S1 new = dn S new" using na by (simp add: d1)
    have "pool_inv (ddn_pool S1)" "new \<in> pool_used (ddn_pool S1)" using b1 readyD(2)[OF r] si(1) by (simp_all add: books_ok_def)
    then obtain p where p: "node_put_node new (ddn_pool S1) = Some p" "pool_inv p" "pool_used p = pool_used (ddn_pool S1) - {new}"
      by (metis np.putE)
    let ?S = "(dn_upd new (\<lambda>x. x\<lparr>d_user_counter := 0\<rparr>) S1)\<lparr>ddn_pool := p\<rparr>"
    have put: "ddn_put_node new S1 = Some (0, ?S)" using p(1) readyD(8)[OF r] n1 by (simp add: ddn_put_node_def)
    have nf: "new \<notin> set (pp_flush_head (pages S1 q))" for q
    proof
      assume "new \<in> set (pp_flush_head (pages S1 q))"
      then have "d_where (dn S1 new) = DDN_WHERE_FLUSH" using b1 by (simp add: books_ok_def flush_lists_ok_def)
      then show False using readyD(4)[OF r] n1 by simp
    qed
    have b2: "books_ok ?S"
    proof -
      have w: "weight q (dn ?S b) = weight q (dn S1 b)" for q b by (cases "b = new") (simp_all add: weight_def)
      have "weight q (dn S1 new) = 0" for q using readyD(4)[OF r] n1 by (simp add: weight_def)
      then have t: "total ?S = total S1" using p(3) \<open>new \<in> pool_used (ddn_pool S1)\<close>
        by (intro ext) (simp add: total_def w sum_diff1)
      have "flush_lists_ok ?S" using b1 nf p(3) unfolding books_ok_def flush_lists_ok_def by auto
      then show ?thesis using b1 t p(2,3) unfolding books_ok_def by (auto simp: same_rest_def)
    qed
    have lb: "d_len ?x \<le> p_pagesz S" and la: "d_len ?x < 2 ^ 32"
    proof -
      have "\<not> d_flush_done (dn S1 a)" using S1(1) True ok(6) by (auto simp: bfe_right_extend_node_def Let_def flags_ok_def d1 split: if_splits Option.bind_splits)
      then have "weight (d_page_node (dn S1 a)) (dn S1 a) = d_len ?x" using ok(8) by (simp add: weight_def d1)
      then show "d_len ?x \<le> p_pagesz S" "d_len ?x < 2 ^ 32"
        using books_bounds(1,2)[OF b1, of a "d_page_node (dn S1 a)"] books_bounds(3)[OF b1, of a] ok(1) si(1,4)
        by (simp_all add: same_rest_def)
    qed
    have nin: "new \<notin> set us" "new \<notin> set vs" using readyD(1)[OF r] xs by auto
    have re: "dn ?S b = dn S b" if "b \<in> set (us @ vs)" for b using that sp(2,3) nin by (auto simp: d1)
    have vn: "\<And>v. v \<in> set vs \<Longrightarrow> ends_before (ddn (smem S)) new v" using g by (simp add: gap_def)
    have so: "sorted_wrt (ends_before (ddn (smem ?S))) (us @ a # vs)"
    proof -
      have "sorted_wrt (ends_before (ddn (smem ?S))) (us @ vs)" by (rule sorted_reparent[OF sp(8)]) (simp only: re reparent_refl)
      moreover have "ends_before (ddn (smem ?S)) u a" if "u \<in> set us" for u
        using sp(6)[OF that] re[of u] that na by (simp add: ends_before_def d1)
      moreover have "ends_before (ddn (smem ?S)) a v" if "v \<in> set vs" for v
        using vn[OF that] re[of v] that na adj(1) by (simp add: ends_before_def d1)
      ultimately show ?thesis by (simp add: sorted_wrt_append)
    qed
    have ua: "ends_before (ddn (smem ?S)) u a" if "u \<in> set us" for u using so that by (simp add: sorted_wrt_append)
    have "d_offset (dn S new) + d_len (dn S new) \<le> 2 ^ 62" using readyD(3)[OF r] by (simp add: node_wf_def)
    then have "node_ok' ?S a" using ok la adj(1) na p(3) si(1) ln by (simp add: node_ok'_def node_wf_def flags_ok_def d1)
    moreover have "node_ok' ?S b" if "b \<in> set (us @ vs)" for b
      using sp(9)[OF that] re[OF that] p(3) si(1) nin that by (auto simp: node_ok'_def)
    moreover have "bse_tree (kf ?S) (us @ a # vs) (p_rtree ?S) (smem ?S)"
    proof -
      have "bse_tree (kf ?S) (us @ a # vs) (p_rtree S) (smem ?S)"
        by (rule bse_tree_cong[OF bse_invD(4)[OF inv, unfolded xs]]) (use si na nin in \<open>auto simp: d1\<close>)
      then show ?thesis using si(2) by simp
    qed
    ultimately have inv2: "bse_inv ?S" using so b2 si(3) by (simp add: bse_inv_def)
    have "bse_at ?S i = (if covers (dn S new) i then Some (loc (dn S new) i) else bse_at S i)" for i
    proof -
      have "bse_at ?S i = (if covers ?x i then Some (loc ?x i) else at_nodes (ddn (smem S)) (us @ vs) i)"
        using at_nodes_mid[of us "ddn (smem ?S)" a vs i, OF ua] at_nodes_cong[of "us @ vs" "ddn (smem S)" "ddn (smem ?S)" i] re na si(3)
        unfolding bse_at_nodes by (simp add: d1)
      moreover have "bse_at S i = (if covers (dn S a) i then Some (loc (dn S a) i) else at_nodes (ddn (smem S)) (us @ vs) i)"
        unfolding bse_at_nodes xs by (rule at_nodes_mid[OF sp(6)])
      moreover have "loc ?x i = loc (dn S a) i" "covers (dn S new) i \<Longrightarrow> loc (dn S a) i = loc (dn S new) i"
        using adj readyD(12)[OF r sp(1)] by (auto simp: loc_def)
      moreover have "covers ?x i \<longleftrightarrow> covers (dn S a) i \<or> covers (dn S new) i" using adj(1) ok(3) ln by (auto simp: covers_def)
      moreover have "covers (dn S a) i \<Longrightarrow> \<not> covers (dn S new) i" using adj(1) by (auto simp: covers_def)
      ultimately show ?thesis by auto
    qed
    moreover have "flow S ?S"
    proof -
      have nf: "\<not> d_flushing (dn S a)" using S1(1) True by (auto simp: bfe_right_extend_node_def Let_def split: if_splits Option.bind_splits)
      then have nd: "\<not> d_flushed (dn S a)" using ok(6) by (auto simp: flags_ok_def)
      have "s32_of (u32_of (d_len ?x)) < p_max_flush_size S"
        using S1(1) True by (auto simp: bfe_right_extend_node_def Let_def split: if_splits Option.bind_splits)
      then have "p_pagesz S < 2 ^ 31 \<Longrightarrow> d_len ?x < p_max_flush_size S" using lb ok(3) ln by (simp add: s32_of_id u32_of_id)
      then have "flow S S1" by (intro flow_cut[OF S1(2) d1]) (use nf nd S1(2,3) in \<open>simp_all add: kept_def fx_ok_def full_def same_index_def same_rest_def\<close>)
      moreover have "flow S1 ?S"
        by (rule flow_put[OF b1, of new]) (use readyD(1,4)[OF r] n1 xs si(3) p(3) in \<open>simp_all add: same_rest_def\<close>)
      ultimately show ?thesis by (rule flow_trans)
    qed
    ultimately have "written new S ?S" using inv2 si(4) by (simp add: written_def same_rest_def)
    then show ?thesis using that(2)[OF _ _ put] S1(1) True n1 readyD(4)[OF r] by simp
  qed
qed

text \<open>The merge test compares 32-bit values, but it can only succeed for a real neighbour.\<close>

lemma adjacent:
  assumes inv: "bse_inv S" and r: "ready new S" and g: "gap new us vs S" and p: "p \<in> set us"
    and e: "u32_of (u32_of (node_end (dn S p)) + 1) = d_offset (dn S new)"
  shows "d_offset (dn S p) + d_len (dn S p) = d_offset (dn S new)" "\<exists>us'. us = us' @ [p]"
proof -
  have xs: "p_ddn_head S = us @ vs" and u: "\<And>u. u \<in> set us \<Longrightarrow> ends_before (ddn (smem S)) u new" using g by (auto simp: gap_def)
  have ok: "node_ok' S b" if "b \<in> set us" for b using that xs by (intro bse_invD(3)[OF inv]) simp
  let ?n = "d_offset (dn S p) + d_len (dn S p)"
  have "u32_of (u32_of (node_end (dn S p)) + 1) = ?n mod 2 ^ 32" by (simp add: u32_of_def node_end_def mod_simps)
  moreover have "?n mod 2 ^ 32 \<le> ?n" using node_okD(2,3)[OF ok[OF p]] by (intro zmod_le_nonneg_dividend) simp
  ultimately show eq: "?n = d_offset (dn S new)" using e u[OF p] by (simp add: ends_before_def)
  obtain us' ws where us: "us = us' @ p # ws" using split_list[OF p] by blast
  have "ws = []"
  proof (rule ccontr)
    assume "ws \<noteq> []"
    then obtain w where w: "w \<in> set ws" by (cases ws) auto
    have "ends_before (ddn (smem S)) p w" using bse_invD(2)[OF inv] w xs us by (simp add: sorted_wrt_append)
    moreover have "ends_before (ddn (smem S)) w new" "0 < d_len (dn S w)" using u[of w] node_okD(3)[OF ok[of w]] w us by auto
    ultimately show False using eq by (simp add: ends_before_def)
  qed
  then show "\<exists>us'. us = us' @ [p]" using us by simp
qed

lemma bse_merge_or_add_spec:
  assumes inv: "bse_inv S" and r: "ready new S" and g: "gap new us vs S" and pos: "pos = length us"
    and pre: "\<And>p. pre_np = Some p \<Longrightarrow> p \<in> set us"
  obtains S' where "bse_merge_or_add pre_np pos new S = Some S'" "written new S S'"
proof -
  obtain Sa where Sa: "do { S \<leftarrow> bse_add_ddn new pos S; bfe_add_node new S } = Some Sa" "written new S Sa"
    by (rule add_new[OF inv r g pos])
  show ?thesis
  proof (cases "\<exists>rc. rc \<noteq> 0 \<and> bse_right_extend pre_np new S = Some (rc, S)")
    case True
    then show ?thesis using that[of Sa] Sa by (auto simp: bse_merge_or_add_def)
  next
    case False
    then have nm: "bse_right_extend pre_np new S \<noteq> Some (- 1, S)" by force
    then obtain p where p: "pre_np = Some p" by (cases pre_np) (auto simp: bse_right_extend_def)
    have c: "u32_of (u32_of (node_end (dn S p)) + 1) = d_offset (dn S new)" "d_page_node (dn S p) = d_page_node (dn S new)"
      "d_pos (dn S p) + d_len (dn S p) = d_pos (dn S new)"
      using nm p by (auto simp: bse_right_extend_def Let_def split: if_splits)
    note A = adjacent[OF inv r g pre[OF p] c(1)]
    obtain us' where us: "us = us' @ [p]" using A(2) by blast
    have ev: "bse_right_extend pre_np new S = bfe_right_extend_node p new S" using c p by (simp add: bse_right_extend_def Let_def)
    show ?thesis
    proof (cases rule: merge_new[OF inv r g[unfolded us] A(1) c(2,3)])
      case (1 rc)
      then show ?thesis using False ev by auto
    next
      case (2 S1 S2 l)
      then show ?thesis using that[of S2] ev by (simp add: bse_merge_or_add_def)
    qed
  qed
qed

lemma bse_remove_all_spec:
  assumes "bse_inv S" "ready new S" "p_ddn_head S = us @ ms @ vs" "\<forall>m \<in> set ms. \<forall>i. covers (dn S m) i \<longrightarrow> covers (dn S new) i"
  shows "\<exists>S'. bse_remove_all ms new S = Some S' \<and> room_made new S S' \<and> p_ddn_head S' = us @ vs \<and>
    (\<forall>b. b \<in> set (us @ vs) \<longrightarrow> reparent (dn S b) (dn S' b)) \<and> (\<forall>i. \<not> covers (dn S new) i \<longrightarrow> bse_at S' i = bse_at S i)"
  using assms
proof (induction ms arbitrary: S)
  case Nil
  then show ?case by (simp add: room_made_def same_rest_def)
next
  case (Cons m ms)
  have xs: "p_ddn_head S = us @ m # (ms @ vs)" using Cons.prems(3) by simp
  obtain S1 where S1: "bse_remove_ddn m new S = Some S1" "room_made new S S1" "p_ddn_head S1 = us @ (ms @ vs)"
    "\<And>b. b \<noteq> m \<Longrightarrow> reparent (dn S b) (dn S1 b)" "\<And>i. bse_at S1 i = (if covers (dn S m) i then None else bse_at S i)"
    using bse_remove_ddn_spec[OF Cons.prems(1,2) xs] by metis
  note sp = bse_split(2,3)[OF Cons.prems(1) xs]
  have rm: "bse_inv S1" "ready new S1" "covers (dn S1 new) = covers (dn S new)"
    using S1(2) by (simp_all add: room_made_def reparent_shape)
  have "covers (dn S1 b) i \<Longrightarrow> covers (dn S1 new) i" if "b \<in> set ms" for b i
  proof -
    have "b \<noteq> m" using that sp by auto
    then show "covers (dn S1 b) i \<Longrightarrow> covers (dn S1 new) i"
      using Cons.prems(4) that reparent_shape(1)[OF S1(4)[of b]] rm(3) by simp
  qed
  then obtain S' where S': "bse_remove_all ms new S1 = Some S'" "room_made new S1 S'" "p_ddn_head S' = us @ vs"
    "\<forall>b. b \<in> set (us @ vs) \<longrightarrow> reparent (dn S1 b) (dn S' b)" "\<forall>i. \<not> covers (dn S new) i \<longrightarrow> bse_at S' i = bse_at S1 i"
    using Cons.IH[OF rm(1,2) S1(3)] rm(3) by auto
  have "reparent (dn S b) (dn S' b)" if "b \<in> set (us @ vs)" for b
    by (rule reparent_trans[OF S1(4) S'(4)[rule_format, OF that]]) (use that sp in auto)
  moreover have "bse_at S' i = bse_at S i" if "\<not> covers (dn S new) i" for i
    using S'(5) that S1(5)[of i] Cons.prems(4) by auto
  ultimately show ?case using S1(1) S'(1,3) room_made_trans[OF S1(2) S'(2)] by simp
qed

end
