(* ===== verification/Bse_Find.thy ===== *)
theory Bse_Find
  imports Bse_Cut
begin

text \<open>
  Finding the nodes that overlap a range. The radix tree is only a hint: wherever the walk starts, it ends at the right
  place, except for an offset behind the last slot that the tree can hold, where the search takes the last node for
  a predecessor without a look at its end.
\<close>

definition search_safe :: "int \<Rightarrow> bse_private \<Rightarrow> bool" where
  "search_safe off S \<longleftrightarrow> slot_of off < 64 ^ r_height (p_rtree S) \<or> bse_at S off = None"

lemma sorted_ends:
  assumes "bse_inv S" "i \<le> j" "j < length (p_ddn_head S)"
  shows "node_end (dn S (p_ddn_head S ! i)) \<le> node_end (dn S (p_ddn_head S ! j))"
proof (cases "i = j")
  case False
  then have "ends_before (ddn (smem S)) (p_ddn_head S ! i) (p_ddn_head S ! j)"
    using sorted_wrt_nth_less[OF bse_invD(2)[OF assms(1)]] assms by simp
  moreover have "0 < d_len (dn S (p_ddn_head S ! j))" using node_okD(3)[OF bse_invD(3)[OF assms(1)]] assms(3) by simp
  ultimately show ?thesis by (simp add: ends_before_def node_end_def)
qed simp

lemma bse_walk_back_le: "bse_walk_back S off i \<le> i"
  by (induction i) auto

lemma bse_walk_back_end: "0 < bse_walk_back S off i \<Longrightarrow> node_end (dn S (p_ddn_head S ! (bse_walk_back S off i - 1))) < off"
  by (induction i) auto

lemma bse_walk_back_before:
  assumes inv: "bse_inv S" and n: "n \<le> length (p_ddn_head S)" and i: "i < bse_walk_back S off n"
  shows "node_end (dn S (p_ddn_head S ! i)) < off"
proof -
  define p where "p = bse_walk_back S off n"
  have p: "p \<le> n" "0 < p \<Longrightarrow> node_end (dn S (p_ddn_head S ! (p - 1))) < off"
    unfolding p_def by (rule bse_walk_back_le, erule bse_walk_back_end)
  have "node_end (dn S (p_ddn_head S ! i)) \<le> node_end (dn S (p_ddn_head S ! (p - 1)))"
    by (rule sorted_ends[OF inv]) (use i n p(1) p_def in auto)
  then show ?thesis using p(2) i p_def by simp
qed

lemma slot_mono: "0 \<le> x \<Longrightarrow> x \<le> y \<Longrightarrow> slot_of x \<le> slot_of y"
  by (simp add: slot_of_def nat_mono zdiv_mono1)

lemma bse_search_pre_node_spec:
  assumes inv: "bse_inv S" and off: "0 \<le> off" "off < 2 ^ 62" and safe: "search_safe off S"
  shows "\<exists>pre. bse_search_pre_node off S = Some pre \<and> pre \<le> length (p_ddn_head S) \<and>
    (\<forall>i < pre. node_end (dn S (p_ddn_head S ! i)) < off)"
proof -
  let ?xs = "p_ddn_head S"
  from bse_invD(4)[OF inv] obtain M where abs: "rt_abs M (bt_parents (smem S)) (p_rtree S)" and ok: "slots_ok (kf S) ?xs M (smem S)"
    by (auto simp: bse_tree_def)
  from rt_abs_search_around_null[OF abs] obtain sl where sl: "rtree_search_around (p_rtree S) (slot_key off) = Some sl"
    "rt_around M (slot_of off) sl" "sl = Null \<longrightarrow> 64 ^ r_height (p_rtree S) \<le> slot_of off \<or> (\<forall>j \<in> dom M. slot_of off < j)"
    using unat_slot_key(1)[OF off] by metis
  show ?thesis
  proof (cases sl)
    case Null
    show ?thesis
    proof (cases "?xs = [] \<or> d_offset (dn S (last ?xs)) > off")
      case True
      then show ?thesis using sl(1) Null by (auto simp: bse_search_pre_node_def)
    next
      case False
      let ?a = "last ?xs"
      have a: "?a \<in> set ?xs" "d_offset (dn S ?a) \<le> off" using False by auto
      have "bucket (kf S) ?xs (kf S ?a) \<noteq> []" using a(1) set_bucket[of "kf S" ?xs "kf S ?a"] by (metis (mono_tags, lifting) empty_iff empty_set mem_Collect_eq)
      then have "kf S ?a \<in> dom M" using ok unfolding slots_ok_def by (metis domIff)
      moreover have "kf S ?a \<le> slot_of off" by (rule slot_mono[OF node_okD(2)[OF bse_invD(3)[OF inv a(1)]] a(2)])
      ultimately have "\<not> slot_of off < 64 ^ r_height (p_rtree S)" using sl(3) Null by (meson not_less)
      then have "bse_at S off = None" using safe by (simp add: search_safe_def)
      then have e: "node_end (dn S ?a) < off" using a by (auto simp: bse_at_None covers_def node_end_def)
      have "node_end (dn S (?xs ! i)) < off" if "i < length ?xs" for i
        using sorted_ends[OF inv, of i "length ?xs - 1"] that e False by (simp add: last_conv_nth Suc_leI le_diff_conv2)
      then show ?thesis using sl(1) Null False by (auto simp: bse_search_pre_node_def)
    qed
  next
    case (Item b)
    then obtain k where k: "M k = Some b" using sl(2) by (auto simp: rt_around_def)
    then have h: "n_ddn_head (btn (smem S) b) = bucket (kf S) ?xs k" "bucket (kf S) ?xs k \<noteq> []"
      using ok unfolding slots_ok_def by (blast, metis option.distinct(1))
    let ?np = "hd (bucket (kf S) ?xs k)"
    have np: "?np \<in> set ?xs" using h(2) set_bucket[of "kf S" ?xs k] hd_in_set by fastforce
    let ?i = "Suc (length (takeWhile (\<lambda>y. y \<noteq> ?np) ?xs))"
    have le: "?i \<le> length ?xs" using np by (metis (mono_tags, lifting) Suc_leI length_takeWhile_le nat_less_le takeWhile_eq_all_conv takeWhile_eq_take take_all_iff)
    let ?p = "bse_walk_back S off ?i"
    have p: "?p \<le> length ?xs" using bse_walk_back_le[of S off ?i] le by simp
    have "node_end (dn S (?xs ! i)) < off" if "i < ?p" for i
      by (rule bse_walk_back_before[OF inv le that])
    moreover have "bse_search_pre_node off S = Some ?p" using sl(1) Item h np by (simp add: bse_search_pre_node_def Let_def del: bse_walk_back.simps)
    ultimately show ?thesis using p by blast
  next
    case (Node x)
    then show ?thesis using sl(2) by (simp add: rt_around_def)
  qed
qed

section \<open>The walk over the list\<close>

lemma bse_scan_inside:
  assumes "\<forall>m \<in> set ms. off \<le> node_end (d m) \<and> d_offset (d m) \<le> e" "\<forall>v \<in> set vs. off \<le> node_end (d v) \<and> e < d_offset (d v)"
  shows "bse_scan d off e (ms @ vs) cur pre b = Some (pre, cur + length ms, b \<or> ms \<noteq> [] \<or> vs \<noteq> [])"
  using assms
proof (induction ms arbitrary: cur b)
  case Nil
  then show ?case by (cases vs) auto
next
  case (Cons m ms)
  then show ?case by simp
qed

lemma bse_scan_split:
  assumes "\<forall>u \<in> set us. node_end (d u) < off" "\<forall>m \<in> set ms. off \<le> node_end (d m) \<and> d_offset (d m) \<le> e"
    "\<forall>v \<in> set vs. off \<le> node_end (d v) \<and> e < d_offset (d v)"
  shows "bse_scan d off e (us @ ms @ vs) cur cur False = Some (cur + length us, cur + length us + length ms, ms \<noteq> [] \<or> vs \<noteq> [])"
  using assms
proof (induction us arbitrary: cur)
  case Nil
  then show ?case by (simp add: bse_scan_inside)
next
  case (Cons u us)
  then show ?case by simp
qed

text \<open>The three parts of the list around a range.\<close>

definition around :: "int \<Rightarrow> int \<Rightarrow> node_addr list \<Rightarrow> node_addr list \<Rightarrow> node_addr list \<Rightarrow> bse_private \<Rightarrow> bool" where
  "around off e us ms vs S \<longleftrightarrow> p_ddn_head S = us @ ms @ vs \<and> (\<forall>u \<in> set us. node_end (dn S u) < off) \<and>
     (\<forall>m \<in> set ms. off \<le> node_end (dn S m) \<and> d_offset (dn S m) \<le> e) \<and> (\<forall>v \<in> set vs. off \<le> node_end (dn S v) \<and> e < d_offset (dn S v))"

lemma around_ex:
  assumes inv: "bse_inv S"
  obtains us ms vs where "around off e us ms vs S"
proof -
  let ?xs = "p_ddn_head S" let ?P = "\<lambda>a. node_end (dn S a) < off" let ?Q = "\<lambda>a. d_offset (dn S a) \<le> e"
  let ?us = "takeWhile ?P ?xs" let ?rs = "dropWhile ?P ?xs" let ?ms = "takeWhile ?Q ?rs" let ?vs = "dropWhile ?Q ?rs"
  have xs: "?xs = ?us @ ?ms @ ?vs" by simp
  have so: "sorted_wrt (ends_before (ddn (smem S))) (?us @ ?ms @ ?vs)" using bse_invD(2)[OF inv] by simp
  have pos: "0 < d_len (dn S a)" if "a \<in> set ?rs" for a
    using node_okD(3)[OF bse_invD(3)[OF inv]] set_dropWhileD[OF that] by simp
  have sr: "sorted_wrt (ends_before (ddn (smem S))) ?rs" using so by (simp add: sorted_wrt_append)
  have r: "off \<le> node_end (dn S a)" if "a \<in> set ?rs" for a
  proof (cases ?rs)
    case (Cons h rs)
    then have h: "off \<le> node_end (dn S h)" using hd_dropWhile[of ?P ?xs] by simp
    have "a = h \<or> ends_before (ddn (smem S)) h a" using sr that Cons by auto
    then show ?thesis using h pos[OF that] by (auto simp: ends_before_def node_end_def)
  next
    case Nil
    then show ?thesis using that by (simp del: dropWhile_eq_Nil_conv)
  qed
  have v: "e < d_offset (dn S a)" if "a \<in> set ?vs" for a
  proof (cases ?vs)
    case (Cons h rs)
    then have h: "e < d_offset (dn S h)" using hd_dropWhile[of ?Q ?rs] by simp
    have hin: "h \<in> set ?rs" using Cons set_dropWhileD[of h ?Q ?rs] by simp
    have "a = h \<or> ends_before (ddn (smem S)) h a" using so that Cons by (auto simp: sorted_wrt_append)
    then show ?thesis using h pos[OF hin] by (auto simp: ends_before_def)
  next
    case Nil
    then show ?thesis using that by (simp del: dropWhile_eq_Nil_conv)
  qed
  have "around off e ?us ?ms ?vs S" unfolding around_def
    using xs r v by (auto dest: set_takeWhileD set_dropWhileD)
  then show ?thesis by (rule that)
qed

lemma bse_overlap_spec:
  assumes inv: "bse_inv S" and off: "0 \<le> off" "off < 2 ^ 62" and safe: "search_safe off S"
  obtains us ms vs where "bse_overlap off e S = Some (length us, length us + length ms)" "around off e us ms vs S"
proof -
  obtain us ms vs where A: "around off e us ms vs S" by (rule around_ex[OF inv])
  obtain pre where pre: "bse_search_pre_node off S = Some pre" "pre \<le> length (p_ddn_head S)"
    "\<forall>i < pre. node_end (dn S (p_ddn_head S ! i)) < off" using bse_search_pre_node_spec[OF inv off safe] by blast
  have xs: "p_ddn_head S = us @ ms @ vs" using A by (simp add: around_def)
  have le: "pre \<le> length us"
  proof (rule ccontr)
    assume "\<not> pre \<le> length us"
    then have i: "length us < pre" "length us < length (p_ddn_head S)" using pre(2) by auto
    then have "node_end (dn S ((ms @ vs) ! 0)) < off" using pre(3) xs by (auto simp: nth_append)
    moreover have "(ms @ vs) ! 0 \<in> set (ms @ vs)" using i xs by (intro nth_mem) simp
    ultimately show False using A by (auto simp: around_def)
  qed
  then have d: "drop pre (p_ddn_head S) = drop pre us @ ms @ vs" "pre + length (drop pre us) = length us" using xs by simp_all
  have "bse_scan (ddn (smem S)) off e (drop pre us @ ms @ vs) pre pre False =
      Some (pre + length (drop pre us), pre + length (drop pre us) + length ms, ms \<noteq> [] \<or> vs \<noteq> [])"
    using A by (intro bse_scan_split) (auto simp: around_def dest: in_set_dropD)
  then have "bse_overlap off e S = Some (length us, length us + length ms)"
    using pre(1) d xs by (auto simp: bse_overlap_def)
  then show ?thesis using A by (rule that)
qed

end
