(* ===== verification/Bse_Insert.thy ===== *)
theory Bse_Insert
  imports Bse_Add Bse_Find
begin

text \<open>
  A write into the cache. A new node that lies inside an old one splits it; the place of the new node is
  found through the radix tree; and together the steps put the new node into the represented map.
\<close>

section \<open>Splitting a node\<close>

lemma get_inv:
  assumes inv: "bse_inv S" and f: "\<And>x. d_where (f x) = DDN_WHERE_NO"
  obtains a S0 where "ddn_get_node S = Some (a, S0)" "a \<notin> pool_used (ddn_pool S)" "bse_inv (dn_upd a f S0)"
    "total (dn_upd a f S0) = total S" "same_rest S (dn_upd a f S0)" "p_ddn_head S0 = p_ddn_head S" "pages S0 = pages S"
    "pool_used (ddn_pool S0) = insert a (pool_used (ddn_pool S))"
    "ddn (smem S0) = (ddn (smem S))(a := (dn S a)\<lparr>d_user_counter := 1\<rparr>)"
proof -
  have pi: "pool_inv (ddn_pool S)" using bse_invD(1)[OF inv] by (simp add: books_ok_def)
  then obtain a p where p: "node_get_node (ddn_pool S) = Some (a, p)" "a \<notin> pool_used (ddn_pool S)" "pool_inv p"
    "pool_used p = insert a (pool_used (ddn_pool S))" by (metis np.getE)
  let ?T = "dn_upd a (\<lambda>x. x\<lparr>d_user_counter := 1\<rparr>) (S\<lparr>ddn_pool := p\<rparr>)" let ?S = "dn_upd a f ?T"
  have d: "ddn (smem ?S) = (ddn (smem S))(a := f ((dn S a)\<lparr>d_user_counter := 1\<rparr>))" by simp
  have na: "b \<noteq> a" if "b \<in> pool_used (ddn_pool S)" for b using that p(2) by auto
  have t: "total ?S = total S"
  proof
    fix q
    have "weight q (dn ?S a) = 0" using f by (simp add: weight_def)
    moreover have "(\<Sum>b \<in> pool_used (ddn_pool S). weight q (dn ?S b)) = (\<Sum>b \<in> pool_used (ddn_pool S). weight q (dn S b))"
      using na by (intro sum.cong) auto
    ultimately show "total ?S q = total S q" using p(2,4) by (simp add: total_def)
  qed
  have fo: "flush_lists_ok ?S"
  proof -
    have "b \<in> pool_used (ddn_pool ?S) \<and> d_where (dn ?S b) = DDN_WHERE_FLUSH \<and> d_page_node (dn ?S b) = q"
      if "b \<in> set (pp_flush_head (pages S q))" for b q
    proof -
      have "b \<in> pool_used (ddn_pool S)" "d_where (dn S b) = DDN_WHERE_FLUSH" "d_page_node (dn S b) = q"
        using bse_invD(1)[OF inv] that by (auto simp: books_ok_def flush_lists_ok_def)
      then show ?thesis using na[of b] p(4) by simp
    qed
    then show ?thesis using bse_invD(1)[OF inv] by (simp add: books_ok_def flush_lists_ok_def)
  qed
  have "0 < d_len (dn ?S b)" if "b \<in> pool_used (ddn_pool ?S)" "d_where (dn ?S b) \<noteq> DDN_WHERE_NO" for b
    using that f p(4) bse_invD(1)[OF inv] by (cases "b = a") (simp_all add: books_ok_def)
  then have bk: "books_ok ?S" using bse_invD(1)[OF inv] t fo p(3) unfolding books_ok_def by simp
  have ok: "node_ok' S b" if "b \<in> set (p_ddn_head S)" for b using bse_invD(3)[OF inv that] .
  have same: "dn ?S b = dn S b" if "b \<in> set (p_ddn_head S)" for b using na[OF node_okD(1)[OF ok[OF that]]] by simp
  have so: "sorted_wrt (ends_before (ddn (smem ?S))) (p_ddn_head S)"
    by (rule sorted_reparent[OF bse_invD(2)[OF inv]]) (simp only: same reparent_refl)
  have "node_ok' ?S b" if "b \<in> set (p_ddn_head S)" for b
  proof -
    have "pool_used (ddn_pool ?S) = insert a (pool_used (ddn_pool S))" using p(4) by simp
    then show ?thesis using ok[OF that] unfolding node_ok'_def same[OF that] by blast
  qed
  moreover have "bse_tree (kf ?S) (p_ddn_head S) (p_rtree ?S) (smem ?S)"
  proof -
    have "bse_tree (kf ?S) (p_ddn_head S) (p_rtree S) (smem ?S)"
      by (rule bse_tree_cong[OF bse_invD(4)[OF inv]]) (use same in simp_all)
    then show ?thesis by simp
  qed
  ultimately have inv': "bse_inv ?S" using bk so by (simp add: bse_inv_def)
  show ?thesis
    by (rule that[of a ?T, OF _ p(2) inv' t]) (use p in \<open>simp_all add: ddn_get_node_def same_rest_def\<close>)
qed

lemma get_filled:
  assumes inv: "bse_inv S" and r: "ready new S" and f: "\<And>x. d_where (f x) = DDN_WHERE_NO"
  obtains a S0 where "ddn_get_node S = Some (a, S0)" "a \<notin> pool_used (ddn_pool S)" "bse_inv (dn_upd a f S0)" "ready new (dn_upd a f S0)"
    "total (dn_upd a f S0) = total S" "same_rest S (dn_upd a f S0)" "p_ddn_head S0 = p_ddn_head S" "pages S0 = pages S"
    "pool_used (ddn_pool S0) = insert a (pool_used (ddn_pool S))"
    "ddn (smem S0) = (ddn (smem S))(a := (dn S a)\<lparr>d_user_counter := 1\<rparr>)"
proof -
  obtain a S0 where g: "ddn_get_node S = Some (a, S0)" "a \<notin> pool_used (ddn_pool S)" "bse_inv (dn_upd a f S0)"
    "total (dn_upd a f S0) = total S" "same_rest S (dn_upd a f S0)" "p_ddn_head S0 = p_ddn_head S" "pages S0 = pages S"
    "pool_used (ddn_pool S0) = insert a (pool_used (ddn_pool S))"
    "ddn (smem S0) = (ddn (smem S))(a := (dn S a)\<lparr>d_user_counter := 1\<rparr>)"
    by (rule get_inv[OF inv f])
  let ?S = "dn_upd a f S0"
  have na: "b \<noteq> a" if "b \<in> pool_used (ddn_pool S)" for b using that g(2) by auto
  have same: "dn ?S b = dn S b" if "b \<in> set (p_ddn_head S)" for b using na[OF node_okD(1)[OF bse_invD(3)[OF inv that]]] g(9) by simp
  have nn: "dn ?S new = dn S new" using na[OF readyD(2)[OF r]] g(9) by simp
  have rd: "ready new ?S"
  proof (rule ready_step[OF r _ g(4,5)])
    show "reparent (dn S new) (dn ?S new)" unfolding nn by simp
    show "new \<in> pool_used (ddn_pool ?S)" using readyD(2)[OF r] g(8) by simp
    show "d_seq (dn ?S c) \<le> d_seq (dn S new)" if c: "c \<in> set (pp_flush_head (pages ?S q))" for q c
    proof -
      have cq: "c \<in> set (pp_flush_head (pages S q))" using c g(7) by simp
      then have "c \<in> pool_used (ddn_pool S)" using bse_invD(1)[OF inv] by (simp add: books_ok_def flush_lists_ok_def)
      then show ?thesis using na[of c] readyD(10)[OF r cq] g(9) by simp
    qed
    show "b \<noteq> new \<and> d_seq (dn ?S b) \<le> d_seq (dn S new) \<and>
      (d_page_node (dn ?S b) = d_page_node (dn S new) \<longrightarrow> d_location_disk (dn ?S b) = d_location_disk (dn S new))"
      if "b \<in> set (p_ddn_head ?S)" for b
    proof -
      have b: "b \<in> set (p_ddn_head S)" using that g(6) by simp
      show ?thesis unfolding same[OF b] using b readyD(1)[OF r] readyD(11,12)[OF r b] by auto
    qed
  qed
  show ?thesis by (rule that[OF g(1-3) rd g(4-9)])
qed

lemma written_room:
  assumes "room_made new S S1" "\<And>i. \<not> covers (dn S new) i \<Longrightarrow> bse_at S1 i = bse_at S i" "written new S1 S2"
  shows "written new S S2"
  using assms reparent_shape(1,2)[of "dn S new" "dn S1 new"] reparentD(5)[of "dn S new" "dn S1 new"] flow_trans[of S S1 S2]
  by (simp add: written_def room_made_def same_rest_def)

text \<open>The right part of a split node: it starts behind the new node.\<close>

definition rest_of :: "data_description_node \<Rightarrow> int \<Rightarrow> data_description_node \<Rightarrow> bool" where
  "rest_of x off y \<longleftrightarrow> d_offset y = off \<and> d_len y = d_offset x + d_len x - off \<and> d_pos y = d_pos x + (off - d_offset x) \<and>
     d_page_node y = d_page_node x \<and> d_seq y = d_seq x \<and> d_location_disk y = d_location_disk x"

lemma split_cut:
  assumes inv: "bse_inv S" and r: "ready new S" and xs: "p_ddn_head S = us @ a # vs"
    and new: "d_offset (dn S a) < d_offset (dn S new)" "off = d_offset (dn S new) + d_len (dn S new)" "off < d_offset (dn S a) + d_len (dn S a)"
    and q: "q \<in> pool_used (ddn_pool S)" "q \<noteq> new" "q \<notin> set (us @ a # vs)" "d_where (dn S q) = DDN_WHERE_NO" "rest_of (dn S a) off (dn S q)"
      "d_user_counter (dn S q) = 1"
    and c: "c = d_offset (dn S a) + d_len (dn S a) - d_offset (dn S new)"
  obtains S' where "bfe_right_cut_node_adjust a c q new S = Some (0, S')" "bse_inv S' \<and> ready new S' \<and> reparent (dn S new) (dn S' new) \<and> same_rest S S'" "p_ddn_head S' = us @ a # vs"
    "\<And>b. b \<in> set (us @ vs) \<Longrightarrow> reparent (dn S b) (dn S' b)" "d_offset (dn S' a) = d_offset (dn S a)"
    "d_offset (dn S' a) + d_len (dn S' a) = d_offset (dn S new)" "rest_of (dn S a) off (dn S' q)" "node_ok' S' q"
    "\<And>i. i < d_offset (dn S new) \<or> d_offset (dn S a) + d_len (dn S a) \<le> i \<Longrightarrow> bse_at S' i = bse_at S i" "shrunk (dn S a) (dn S' a)"
proof -
  note sp = bse_split[OF inv xs] and ok = node_okD[OF bse_split(5)[OF inv xs]]
  have ln: "0 < d_len (dn S new)" "0 \<le> d_offset (dn S new)" using readyD(3)[OF r] by (auto simp: node_wf_def)
  have na: "new \<noteq> a" "q \<noteq> a" using readyD(1)[OF r] xs q(3) by auto
  have pre: "c < d_len (dn S a)" "d_page_node (dn S q) = d_page_node (dn S a)" "d_seq (dn S q) = d_seq (dn S a)"
    "0 < d_len (dn S q)" "d_len (dn S q) < c" using new c q(5) ln by (simp_all add: rest_of_def)
  obtain S' x y where S': "bfe_right_cut_node_adjust a c q new S = Some (0, S')" "books_ok S'" "total S' = total S" "same_index S S'"
    "ddn (smem S') = (ddn (smem S))(a := x, q := y)" "kept (dn S a) x" "d_offset x = d_offset (dn S a)"
    "d_len x = d_len (dn S a) - c" "d_pos x = d_pos (dn S a)" "flags_ok y"
    "d_offset y = d_offset (dn S q)" "d_len y = d_len (dn S q)" "d_pos y = d_pos (dn S q)" "d_page_node y = d_page_node (dn S q)"
    "d_location_disk y = d_location_disk (dn S q)" "d_user_counter y = d_user_counter (dn S q)" "d_seq y = d_seq (dn S q)"
    "\<And>p. set (pp_flush_head (pages S' p)) \<subseteq> insert q (set (pp_flush_head (pages S p)))"
    using bfe_right_cut_node_adjust_spec[OF bse_invD(1)[OF inv] ok(1,6) pre(1) ok(4) q(1) na(2) q(4) pre(2-5) readyD(4)[OF r]]
    by (metis (no_types))
  have si: "ddn_pool S' = ddn_pool S" "p_rtree S' = p_rtree S" "p_ddn_head S' = us @ a # vs" "same_rest S S'"
    "btn_pool (smem S') = btn_pool (smem S)" "btn (smem S') = btn (smem S)" using S'(4) xs by (simp_all add: same_index_def)
  have da: "dn S' a = x" "dn S' q = y" "\<And>b. b \<noteq> a \<Longrightarrow> b \<noteq> q \<Longrightarrow> dn S' b = dn S b" using na(2) by (simp_all add: S'(5))
  have re: "reparent (dn S b) (dn S' b)" if "b \<in> set (us @ vs)" for b
  proof -
    have "b \<noteq> a" "b \<noteq> q" using that sp(2,3) q(3) by auto
    then show ?thesis by (simp add: da(3))
  qed
  have sh: "shrunk (dn S a) (dn S' a)" unfolding da(1) using kept_shrunk[OF S'(6)] S'(7-9) pre c new ln by simp
  have tree: "bse_tree (kf S') (us @ a # vs) (p_rtree S') (smem S')" unfolding si(2)
    by (rule bse_tree_cong[OF bse_invD(4)[OF inv, unfolded xs] si(5,6)]) (use S'(6,7) q(3) in \<open>auto simp: S'(5) kept_def\<close>)
  note D = cut_step_inv[OF inv xs si(3) re sh si(1) S'(2) tree]
  have rest: "rest_of (dn S a) off y" using q(5) S'(11-17) by (simp add: rest_of_def)
  have sa: "d_seq y \<le> d_seq (dn S new)" using rest readyD(11)[OF r sp(1)] by (simp add: rest_of_def)
  have rn: "reparent (dn S new) (dn S' new)" using da(3)[of new] na q(2) by simp
  have "ready new S'"
  proof (rule ready_step[OF r rn S'(3) si(4)])
    show "new \<in> pool_used (ddn_pool S')" using readyD(2)[OF r] si(1) by simp
    show "d_seq (dn S' e) \<le> d_seq (dn S new)" if "e \<in> set (pp_flush_head (pages S' p))" for p e
      using S'(18)[of p] that readyD(10)[OF r, of e p] readyD(11)[OF r sp(1)] sa S'(6) by (auto simp: S'(5) kept_def)
    show "b \<noteq> new \<and> d_seq (dn S' b) \<le> d_seq (dn S new) \<and>
      (d_page_node (dn S' b) = d_page_node (dn S new) \<longrightarrow> d_location_disk (dn S' b) = d_location_disk (dn S new))"
      if "b \<in> set (p_ddn_head S')" for b
    proof -
      have b: "b \<in> set (p_ddn_head S)" "b \<noteq> q" using that q(3) si(3) xs by auto
      then have "b \<noteq> new" using readyD(1)[OF r] by auto
      then show ?thesis using readyD(11,12)[OF r b(1)] S'(6) b(2) by (auto simp: S'(5) kept_def)
    qed
  qed
  then have rm: "bse_inv S' \<and> ready new S' \<and> reparent (dn S new) (dn S' new) \<and> same_rest S S'" using D(1) rn si(4) by simp
  have ea: "d_offset (dn S' a) = d_offset (dn S a)" "d_offset (dn S' a) + d_len (dn S' a) = d_offset (dn S new)"
    unfolding da(1) using S'(7,8) c by simp_all
  have okq: "node_ok' S' q" unfolding node_ok'_def da(2) si(1)
    using q(1,6) S'(10,16) rest ok new ln by (simp add: node_wf_def rest_of_def)
  have at: "bse_at S' i = bse_at S i" if "i < d_offset (dn S new) \<or> d_offset (dn S a) + d_len (dn S a) \<le> i" for i
    using that ea by (intro D(2)) (auto simp: covers_def)
  show ?thesis by (rule that[OF S'(1) rm si(3) re ea _ okq at sh]) (use rest da(2) in simp_all)
qed

lemma split_add:
  assumes inv: "bse_inv S" and r: "ready new S" and xs: "p_ddn_head S = us @ a # vs"
    and new: "d_offset (dn S a) < d_offset (dn S new)" "off = d_offset (dn S new) + d_len (dn S new)" "off < d_offset (dn S a) + d_len (dn S a)"
    and q: "q \<in> pool_used (ddn_pool S)" "q \<noteq> new" "q \<notin> set (us @ a # vs)" "d_where (dn S q) = DDN_WHERE_NO" "rest_of (dn S a) off (dn S q)"
      "d_user_counter (dn S q) = 1"
    and c: "c = d_offset (dn S a) + d_len (dn S a) - d_offset (dn S new)"
  obtains S1 S' where "bfe_right_cut_node_adjust a c q new S = Some (0, S1)" "bse_add_ddn q (Suc (length us)) S1 = Some S'"
    "room_made new S S'" "gap new (us @ [a]) (q # vs) S'" "\<And>i. \<not> covers (dn S new) i \<Longrightarrow> bse_at S' i = bse_at S i"
proof -
  note sp = bse_split[OF inv xs] and ok = node_okD[OF bse_split(5)[OF inv xs]]
  have ln: "0 < d_len (dn S new)" using readyD(3)[OF r] by (auto simp: node_wf_def)
  obtain S1 where S1: "bfe_right_cut_node_adjust a c q new S = Some (0, S1)"
    "bse_inv S1 \<and> ready new S1 \<and> reparent (dn S new) (dn S1 new) \<and> same_rest S S1" "p_ddn_head S1 = us @ a # vs"
    "\<And>b. b \<in> set (us @ vs) \<Longrightarrow> reparent (dn S b) (dn S1 b)" "d_offset (dn S1 a) = d_offset (dn S a)"
    "d_offset (dn S1 a) + d_len (dn S1 a) = d_offset (dn S new)" "rest_of (dn S a) off (dn S1 q)" "node_ok' S1 q"
    "\<And>i. i < d_offset (dn S new) \<or> d_offset (dn S a) + d_len (dn S a) \<le> i \<Longrightarrow> bse_at S1 i = bse_at S i"
    "shrunk (dn S a) (dn S1 a)"
    using split_cut[OF inv r xs new q c] by metis
  have inv1: "bse_inv S1" and r1: "ready new S1" and rn: "reparent (dn S new) (dn S1 new)" and sr: "same_rest S S1"
    using S1(2) by simp_all
  have xs1: "p_ddn_head S1 = (us @ [a]) @ vs" using S1(3) by simp
  have qin: "q \<notin> set ((us @ [a]) @ vs)" using q(3) by simp
  have qo: "d_offset (dn S1 q) = off" "d_offset (dn S1 q) + d_len (dn S1 q) = d_offset (dn S a) + d_len (dn S a)"
    using S1(7) by (simp_all add: rest_of_def)
  have wq: "node_wf (dn S1 q)" using S1(8) by (simp add: node_ok'_def)
  have u1: "d_offset (dn S1 b) + d_len (dn S1 b) \<le> d_offset (dn S new)" if "b \<in> set (us @ [a])" for b
  proof (cases "b = a")
    case False
    then have "b \<in> set us" using that by simp
    then show ?thesis using sp(6)[of b] reparentD(4,5)[OF S1(4)[of b]] new(1) by (simp add: ends_before_def)
  qed (use S1(6) in simp)
  have v1: "d_offset (dn S a) + d_len (dn S a) \<le> d_offset (dn S1 b)" if "b \<in> set vs" for b
    using sp(7)[OF that] reparentD(4)[OF S1(4)[of b]] that by (simp add: ends_before_def)
  have u: "ends_before (ddn (smem S1)) b q" if "b \<in> set (us @ [a])" for b using u1[OF that] qo new ln by (simp add: ends_before_def)
  have v: "ends_before (ddn (smem S1)) q b" if "b \<in> set vs" for b using v1[OF that] qo by (simp add: ends_before_def)
  have le: "Suc (length us) = length (us @ [a])" by simp
  obtain S2 where S2: "bse_add_ddn q (Suc (length us)) S1 = Some S2" "p_ddn_head S2 = (us @ [a]) @ q # vs"
    "bse_tree (kf S2) ((us @ [a]) @ q # vs) (p_rtree S2) (smem S2)"
    "\<And>b. reparent (dn S1 b) (dn S2 b)" "ddn_pool S2 = ddn_pool S1" "pages S2 = pages S1" "same_rest S1 S2" "books_ok S2" "total S2 = total S1"
    using bse_add_ddn_spec[OF inv1 xs1 qin wq u v le] by metis
  note q2 = reparentD[OF S2(4)] reparent_shape[OF S2(4)]
  have okq: "node_ok' S2 q" by (rule node_ok_reparent[OF S1(8) S2(4,5)])
  have u2: "ends_before (ddn (smem S2)) b q" if "b \<in> set (us @ [a])" for b using u[OF that] by (simp add: ends_before_def q2)
  have v2: "ends_before (ddn (smem S2)) q b" if "b \<in> set vs" for b using v[OF that] by (simp add: ends_before_def q2)
  note A = added_inv[OF inv1 xs1 S2(2) S2(4) S2(5) S2(8) S2(3) okq u2 v2]
  have "ready new S2"
  proof (rule ready_step[OF r1 S2(4) S2(9) S2(7)])
    show "new \<in> pool_used (ddn_pool S2)" using readyD(2)[OF r1] S2(5) by simp
    show "d_seq (dn S2 e) \<le> d_seq (dn S1 new)" if "e \<in> set (pp_flush_head (pages S2 p))" for p e
      using readyD(10)[OF r1] that S2(6) q2(3) by simp
    have tq: "d_seq (dn S1 q) = d_seq (dn S a)" "d_page_node (dn S1 q) = d_page_node (dn S a)" "d_location_disk (dn S1 q) = d_location_disk (dn S a)"
      using S1(7) by (simp_all add: rest_of_def)
    show "b \<noteq> new \<and> d_seq (dn S2 b) \<le> d_seq (dn S1 new) \<and>
      (d_page_node (dn S2 b) = d_page_node (dn S1 new) \<longrightarrow> d_location_disk (dn S2 b) = d_location_disk (dn S1 new))"
      if "b \<in> set (p_ddn_head S2)" for b
    proof (cases "b = q")
      case True
      then show ?thesis using readyD(11,12)[OF r sp(1)] q(2) by (simp add: q2 tq reparentD[OF rn])
    next
      case False
      then have b: "b \<in> set (p_ddn_head S1)" using that S2(2) S1(3) by auto
      then have "b \<noteq> new" using readyD(1)[OF r1] by auto
      then show ?thesis using readyD(11,12)[OF r1 b] by (simp add: q2)
    qed
  qed
  moreover have "flow S S2"
  proof -
    let ?T = "S1\<lparr>p_ddn_head := (us @ [a]) @ q # vs\<rparr>"
    have qi: "inside (dn S a) (dn S1 q)" using S1(7) new ln by (auto simp: inside_def covers_def loc_def rest_of_def)
    have ua: "a \<in> pool_used (ddn_pool S)" "d_where (dn S a) \<noteq> DDN_WHERE_NO" using node_okD(1,8)[OF bse_invD(3)[OF inv sp(1)]] by simp_all
    have "q \<noteq> a" "d_page_node (dn S q) = d_page_node (dn S a)" using q(3,5) by (auto simp: rest_of_def)
    then have "flow S ?T" by (intro flow_split[OF bse_invD(1)[OF inv] S1(1) sp(1) _ q(1,4) _ q(6) ua(1,2) shrunk_inside[OF S1(10)] qi]) (auto simp: xs)
    moreover have "flow ?T S2"
      by (rule flow_reparented) (use S2(2,4-7) in \<open>simp add: reparented_def same_rest_def\<close>)
    ultimately show ?thesis by (rule flow_trans)
  qed
  moreover have "reparent (dn S new) (dn S2 new)" by (rule reparent_trans[OF rn S2(4)])
  ultimately have rm: "room_made new S S2" using A(1) sr S2(7) by (simp add: room_made_def same_rest_def)
  have "gap new (us @ [a]) (q # vs) S2"
  proof -
    have "ends_before (ddn (smem S2)) b new" if "b \<in> set (us @ [a])" for b
      using u1[OF that] by (simp add: ends_before_def q2 reparentD[OF rn])
    moreover have "ends_before (ddn (smem S2)) new b" if "b \<in> set (q # vs)" for b
      using v1[of b] that new qo ln by (auto simp: ends_before_def q2 reparentD[OF rn])
    ultimately show ?thesis using S2(2) by (simp add: gap_def)
  qed
  moreover have "bse_at S2 i = bse_at S i" if "\<not> covers (dn S new) i" for i
  proof (cases "covers (dn S2 q) i")
    case True
    then have i: "off \<le> i" "i < d_offset (dn S a) + d_len (dn S a)" using qo q2 by (auto simp: covers_def)
    then have "covers (dn S a) i" using new ln by (simp add: covers_def)
    then have "bse_at S i = Some (loc (dn S a) i)"
      using at_nodes_mid[of us "ddn (smem S)" a vs i, OF sp(6)] by (simp add: bse_at_nodes xs)
    moreover have "loc (dn S2 q) i = loc (dn S a) i" using S1(7) by (simp add: q2 loc_def rest_of_def)
    ultimately show ?thesis using A(2)[of i] True by simp
  next
    case False
    then have "i < d_offset (dn S new) \<or> d_offset (dn S a) + d_len (dn S a) \<le> i" using that qo q2 new(2) by (auto simp: covers_def)
    then show ?thesis using A(2)[of i] False S1(9) by simp
  qed
  ultimately show ?thesis using that[OF S1(1) S2(1) rm] by blast
qed

lemma bse_insert_inside_spec:
  assumes inv: "bse_inv S" and r: "ready new S" and xs: "p_ddn_head S = us @ a # vs"
    and new: "d_offset (dn S a) < d_offset (dn S new)" "d_offset (dn S new) < d_offset (dn S a) + d_len (dn S a)"
    and v: "\<And>v. v \<in> set vs \<Longrightarrow> ends_before (ddn (smem S)) new v"
  obtains S' where "bse_insert_inside a (length us) new S = Some S'" "written new S S'"
proof -
  note sp = bse_split[OF inv xs] and ok = node_okD[OF bse_split(5)[OF inv xs]]
  let ?off = "d_offset (dn S new) + d_len (dn S new)"
  let ?hi = "d_offset (dn S a) + d_len (dn S a)"
  define c where "c = ?hi - d_offset (dn S new)"
  have c: "0 < c" "c < d_len (dn S a)" "u32_of (node_end (dn S a) - d_offset (dn S new) + 1) = c"
    using new ok(4) unfolding node_end_def c_def by (simp_all add: u32_of_id)
  have le: "Suc (length us) = length (us @ [a])" by simp
  show ?thesis
  proof (cases "?off < ?hi")
    case False
    obtain S1 where S1: "bfe_right_cut_node a c new S = Some S1" "room_made new S S1" "p_ddn_head S1 = us @ a # vs"
      "\<And>b. b \<noteq> a \<Longrightarrow> reparent (dn S b) (dn S1 b)" "d_offset (dn S1 a) = d_offset (dn S a)" "d_len (dn S1 a) = d_len (dn S a) - c"
      "\<And>i. i < ?hi - c \<or> ?hi \<le> i \<Longrightarrow> bse_at S1 i = bse_at S i"
      using bse_right_cut_spec[OF inv r xs c(1,2)] by metis
    have rm: "bse_inv S1" "ready new S1" "reparent (dn S new) (dn S1 new)" using S1(2) by (simp_all add: room_made_def)
    have g: "gap new (us @ [a]) vs S1"
    proof -
      have re: "reparent (dn S b) (dn S1 b)" if "b \<in> set (us @ vs)" for b by (rule S1(4)) (use that sp(2,3) in auto)
      have "ends_before (ddn (smem S1)) b new" if "b \<in> set us" for b
        using sp(6)[OF that] reparentD(4,5)[OF re[of b]] that new(1) reparentD(4)[OF rm(3)] by (simp add: ends_before_def)
      moreover have "ends_before (ddn (smem S1)) a new" using S1(5,6) reparentD(4)[OF rm(3)] by (simp add: ends_before_def c_def)
      moreover have "ends_before (ddn (smem S1)) new b" if "b \<in> set vs" for b
        using v[OF that] reparentD(4)[OF re[of b]] that reparentD(4,5)[OF rm(3)] by (simp add: ends_before_def)
      ultimately show ?thesis using S1(3) by (simp add: gap_def)
    qed
    obtain S2 where S2: "do { T \<leftarrow> bse_add_ddn new (Suc (length us)) S1; bfe_add_node new T } = Some S2" "written new S1 S2"
      by (rule add_new[OF rm(1,2) g le])
    have "bse_at S1 i = bse_at S i" if "\<not> covers (dn S new) i" for i
      by (rule S1(7)) (use that False in \<open>auto simp: covers_def c_def\<close>)
    then have w: "written new S S2" by (rule written_room[OF S1(2) _ S2(2)])
    have "bse_insert_inside a (length us) new S = Some S2"
      using S1(1) S2(1) False c(3) by (simp add: bse_insert_inside_def Let_def bse_right_cut_adjust_def node_end_def)
    then show ?thesis by (rule that[OF _ w])
  next
    case True
    define f :: "data_description_node \<Rightarrow> data_description_node" where "f = (\<lambda>x. x\<lparr>d_seq := d_seq (dn S a), d_page_node := d_page_node (dn S a),
      d_pos := d_pos (dn S a) + (node_end (dn S new) - d_offset (dn S a) + 1), d_offset := node_end (dn S new) + 1,
      d_len := u32_of (node_end (dn S a) - node_end (dn S new)), d_released := d_released (dn S a), d_where := DDN_WHERE_NO,
      d_flush_overwritten := 0, d_location_disk := d_location_disk (dn S a)\<rparr>)"
    have fw: "d_where (f x) = DDN_WHERE_NO" for x by (simp add: f_def)
    have adj: "u32_of (node_end (dn S a) - node_end (dn S new)) = ?hi - ?off"
      using True new ok(4) readyD(3)[OF r] unfolding node_end_def node_wf_def by (subst u32_of_id) auto
    obtain q S0 where q: "ddn_get_node S = Some (q, S0)" "q \<notin> pool_used (ddn_pool S)" "bse_inv (dn_upd q f S0)" "ready new (dn_upd q f S0)"
      "total (dn_upd q f S0) = total S" "same_rest S (dn_upd q f S0)" "p_ddn_head S0 = p_ddn_head S" "pages S0 = pages S"
      "pool_used (ddn_pool S0) = insert q (pool_used (ddn_pool S))"
      "ddn (smem S0) = (ddn (smem S))(q := (dn S q)\<lparr>d_user_counter := 1\<rparr>)"
      by (rule get_filled[OF inv r fw])
    let ?T = "dn_upd q f S0"
    have nq: "b \<noteq> q" if "b \<in> set (p_ddn_head S)" for b using node_okD(1)[OF bse_invD(3)[OF inv that]] q(2) by auto
    have nn: "new \<noteq> q" using readyD(2)[OF r] q(2) by auto
    have same: "dn ?T b = dn S b" if "b \<noteq> q" for b using that by (simp add: q(10))
    have da: "dn ?T a = dn S a" "dn ?T new = dn S new" "\<And>b. b \<in> set (p_ddn_head S) \<Longrightarrow> dn ?T b = dn S b"
      using same nq sp(1) nn by simp_all
    have xsT: "p_ddn_head ?T = us @ a # vs" using q(7) xs by simp
    have rest: "rest_of (dn ?T a) ?off (dn ?T q)" unfolding da(1) using adj by (simp add: rest_of_def q(10) f_def node_end_def)
    have newT: "d_offset (dn ?T a) < d_offset (dn ?T new)" "?off = d_offset (dn ?T new) + d_len (dn ?T new)"
      "?off < d_offset (dn ?T a) + d_len (dn ?T a)" "c = d_offset (dn ?T a) + d_len (dn ?T a) - d_offset (dn ?T new)"
      unfolding da using new True by (simp_all add: c_def)
    have qT: "q \<in> pool_used (ddn_pool ?T)" "q \<noteq> new" "q \<notin> set (us @ a # vs)" "d_where (dn ?T q) = DDN_WHERE_NO" "d_user_counter (dn ?T q) = 1"
      using q(9,10) nn nq xs by (auto simp: f_def)
    obtain S1 S2 where S2: "bfe_right_cut_node_adjust a c q new ?T = Some (0, S1)" "bse_add_ddn q (Suc (length us)) S1 = Some S2"
      "room_made new ?T S2" "gap new (us @ [a]) (q # vs) S2" "\<And>i. \<not> covers (dn ?T new) i \<Longrightarrow> bse_at S2 i = bse_at ?T i"
      using split_add[OF q(3,4) xsT newT(1-3) qT(1-4) rest qT(5) newT(4)] by metis
    have rm2: "bse_inv S2" "ready new S2" using S2(3) by (simp_all add: room_made_def)
    obtain S3 where S3: "do { T \<leftarrow> bse_add_ddn new (Suc (length us)) S2; bfe_add_node new T } = Some S3" "written new S2 S3"
      by (rule add_new[OF rm2 S2(4) le])
    have "bse_at ?T i = bse_at S i" for i
      unfolding bse_at_nodes xs xsT by (rule at_nodes_cong) (use da(3) xs in simp)
    then have at: "bse_at S2 i = bse_at S i" if "\<not> covers (dn S new) i" for i using S2(5)[of i] that da(2) by simp
    have "flow S ?T"
      by (rule flow_get[OF bse_invD(1)[OF inv] q(2)]) (use q(6-9) same qT(3,4) xsT in simp_all)
    then have "room_made new S ?T" using q(3,4,6) da(2) by (simp add: room_made_def)
    then have rm: "room_made new S S2" using S2(3) by (rule room_made_trans)
    have w: "written new S S3" by (rule written_room[OF rm at S3(2)])
    have "bse_insert_inside a (length us) new S = Some S3"
      using q(1) S2(1,2) S3(1) True c(3) adj unfolding f_def by (simp add: bse_insert_inside_def Let_def bse_right_cut_adjust_def node_end_def)
    then show ?thesis by (rule that[OF _ w])
  qed
qed

section \<open>Inserting a node\<close>

lemma gap_reparent:
  assumes "\<And>b. b \<in> set (us @ vs) \<Longrightarrow> reparent (dn S b) (dn S' b)" "reparent (dn S new) (dn S' new)" "p_ddn_head S' = us @ vs"
    and u: "\<And>u. u \<in> set us \<Longrightarrow> ends_before (ddn (smem S)) u new" and v: "\<And>v. v \<in> set vs \<Longrightarrow> ends_before (ddn (smem S)) new v"
  shows "gap new us vs S'"
proof -
  note n = reparentD(4,5)[OF assms(2)]
  have "ends_before (ddn (smem S')) b new" if "b \<in> set us" for b
    using u[OF that] reparentD(4,5)[OF assms(1)[of b]] that n by (simp add: ends_before_def)
  moreover have "ends_before (ddn (smem S')) new b" if "b \<in> set vs" for b
    using v[OF that] reparentD(4,5)[OF assms(1)[of b]] that n by (simp add: ends_before_def)
  ultimately show ?thesis using assms(3) by (simp add: gap_def)
qed

text \<open>The last node that the new one overlaps loses what is written over, or goes.\<close>

lemma trim_last:
  assumes inv: "bse_inv S" and r: "ready new S" and xs: "p_ddn_head S = us @ z # vs"
    and u: "\<And>u. u \<in> set us \<Longrightarrow> ends_before (ddn (smem S)) u new" and v: "\<And>v. v \<in> set vs \<Longrightarrow> ends_before (ddn (smem S)) new v"
    and z: "d_offset (dn S new) \<le> d_offset (dn S z)" "d_offset (dn S z) \<le> node_end (dn S new)"
  obtains S' vs' where "(if node_end (dn S new) < node_end (dn S z)
      then bse_left_cut_adjust z (u32_of (node_end (dn S new) - d_offset (dn S z) + 1)) new S
      else bse_remove_ddn z new S) = Some S'" "room_made new S S'" "gap new us vs' S'"
    "\<And>i. \<not> covers (dn S new) i \<Longrightarrow> bse_at S' i = bse_at S i"
proof -
  note sp = bse_split[OF inv xs] and ok = node_okD[OF bse_split(5)[OF inv xs]]
  show ?thesis
  proof (cases "node_end (dn S new) < node_end (dn S z)")
    case True
    define c where "c = node_end (dn S new) - d_offset (dn S z) + 1"
    have c: "0 < c" "c < d_len (dn S z)" "u32_of (node_end (dn S new) - d_offset (dn S z) + 1) = c"
      using True z ok(4) unfolding node_end_def c_def by (simp_all add: u32_of_id)
    obtain S' where S': "bse_left_cut_adjust z c new S = Some S'" "room_made new S S'" "p_ddn_head S' = us @ z # vs"
      "\<And>b. b \<noteq> z \<Longrightarrow> reparent (dn S b) (dn S' b)" "d_offset (dn S' z) = d_offset (dn S z) + c" "d_len (dn S' z) = d_len (dn S z) - c"
      "\<And>i. i < d_offset (dn S z) \<or> d_offset (dn S z) + c \<le> i \<Longrightarrow> bse_at S' i = bse_at S i"
      using bse_left_cut_spec[OF inv r xs c(1,2)] by metis
    have re: "reparent (dn S b) (dn S' b)" if "b \<in> set (us @ vs)" for b by (rule S'(4)) (use that sp(2,3) in auto)
    have rn: "reparent (dn S new) (dn S' new)" using S'(2) by (simp add: room_made_def)
    note n = reparentD(4,5)[OF rn]
    have "ends_before (ddn (smem S')) b new" if "b \<in> set us" for b
      using u[OF that] reparentD(4,5)[OF re[of b]] that n by (simp add: ends_before_def)
    moreover have "ends_before (ddn (smem S')) new b" if "b \<in> set vs" for b
      using v[OF that] reparentD(4,5)[OF re[of b]] that n by (simp add: ends_before_def)
    moreover have "ends_before (ddn (smem S')) new z" using S'(5) n by (simp add: ends_before_def c_def node_end_def)
    ultimately have g: "gap new us (z # vs) S'" using S'(3) by (simp add: gap_def)
    have at: "bse_at S' i = bse_at S i" if "\<not> covers (dn S new) i" for i
      by (rule S'(7)) (use that z in \<open>auto simp: covers_def c_def node_end_def\<close>)
    show ?thesis by (rule that[OF _ S'(2) g at]) (use True S'(1) c(3) in simp)
  next
    case False
    obtain S' where S': "bse_remove_ddn z new S = Some S'" "room_made new S S'" "p_ddn_head S' = us @ vs"
      "\<And>b. b \<noteq> z \<Longrightarrow> reparent (dn S b) (dn S' b)" "\<And>i. bse_at S' i = (if covers (dn S z) i then None else bse_at S i)"
      using bse_remove_ddn_spec[OF inv r xs] by metis
    have re: "reparent (dn S b) (dn S' b)" if "b \<in> set (us @ vs)" for b by (rule S'(4)) (use that sp(2,3) in auto)
    have rn: "reparent (dn S new) (dn S' new)" using S'(2) by (simp add: room_made_def)
    have g: "gap new us vs S'" by (rule gap_reparent[OF re rn S'(3) u v])
    have at: "bse_at S' i = bse_at S i" if "\<not> covers (dn S new) i" for i
      unfolding S'(5) using that z False by (auto simp: covers_def node_end_def)
    show ?thesis by (rule that[OF _ S'(2) g at]) (use False S'(1) in simp)
  qed
qed

text \<open>The first of several nodes that the new one overlaps.\<close>

lemma trim_first:
  assumes inv: "bse_inv S" and r: "ready new S" and xs: "p_ddn_head S = us @ a # vs"
    and a: "d_offset (dn S new) \<le> node_end (dn S a)" "node_end (dn S a) \<le> node_end (dn S new)"
    and u: "\<And>u. u \<in> set us \<Longrightarrow> ends_before (ddn (smem S)) u new"
    and rem: "rem \<longleftrightarrow> d_offset (dn S new) \<le> d_offset (dn S a)"
  obtains S' us' where "(if rem then bse_remove_ddn a new S
      else map_option snd (bse_right_cut_adjust a (u32_of (node_end (dn S a) - d_offset (dn S new) + 1)) None new S)) = Some S'"
    "us' = (if rem then us else us @ [a])" "room_made new S S'" "p_ddn_head S' = us' @ vs" "\<And>b. b \<in> set vs \<Longrightarrow> reparent (dn S b) (dn S' b)"
    "\<And>b. b \<in> set us' \<Longrightarrow> ends_before (ddn (smem S')) b new" "\<And>i. \<not> covers (dn S new) i \<Longrightarrow> bse_at S' i = bse_at S i"
proof -
  note sp = bse_split[OF inv xs] and ok = node_okD[OF bse_split(5)[OF inv xs]]
  show ?thesis
  proof (cases rem)
    case True
    obtain S' where S': "bse_remove_ddn a new S = Some S'" "room_made new S S'" "p_ddn_head S' = us @ vs"
      "\<And>b. b \<noteq> a \<Longrightarrow> reparent (dn S b) (dn S' b)" "\<And>i. bse_at S' i = (if covers (dn S a) i then None else bse_at S i)"
      using bse_remove_ddn_spec[OF inv r xs] by metis
    have re: "reparent (dn S b) (dn S' b)" if "b \<in> set (us @ vs)" for b by (rule S'(4)) (use that sp(2,3) in auto)
    have rn: "reparent (dn S new) (dn S' new)" using S'(2) by (simp add: room_made_def)
    have ub: "ends_before (ddn (smem S')) b new" if "b \<in> set us" for b
      using u[OF that] reparentD(4,5)[OF re[of b]] that reparentD(4)[OF rn] by (simp add: ends_before_def)
    have at: "bse_at S' i = bse_at S i" if "\<not> covers (dn S new) i" for i
      unfolding S'(5) using that a True rem by (auto simp: covers_def node_end_def)
    show ?thesis by (rule that[OF _ _ S'(2) _ _ _ at, of us]) (use True S'(1,3) re ub in simp_all)
  next
    case False
    define c where "c = node_end (dn S a) - d_offset (dn S new) + 1"
    have c: "0 < c" "c < d_len (dn S a)" "u32_of (node_end (dn S a) - d_offset (dn S new) + 1) = c"
      using False rem a ok(4) unfolding node_end_def c_def by (simp_all add: u32_of_id)
    obtain S' where S': "bfe_right_cut_node a c new S = Some S'" "room_made new S S'" "p_ddn_head S' = us @ a # vs"
      "\<And>b. b \<noteq> a \<Longrightarrow> reparent (dn S b) (dn S' b)" "d_offset (dn S' a) = d_offset (dn S a)" "d_len (dn S' a) = d_len (dn S a) - c"
      "\<And>i. i < d_offset (dn S a) + d_len (dn S a) - c \<or> d_offset (dn S a) + d_len (dn S a) \<le> i \<Longrightarrow> bse_at S' i = bse_at S i"
      using bse_right_cut_spec[OF inv r xs c(1,2)] by metis
    have re: "reparent (dn S b) (dn S' b)" if "b \<in> set (us @ vs)" for b by (rule S'(4)) (use that sp(2,3) in auto)
    have rn: "reparent (dn S new) (dn S' new)" using S'(2) by (simp add: room_made_def)
    have ub: "ends_before (ddn (smem S')) b new" if "b \<in> set us" for b
      using u[OF that] reparentD(4,5)[OF re[of b]] that reparentD(4)[OF rn] by (simp add: ends_before_def)
    have ab: "ends_before (ddn (smem S')) a new" using S'(5,6) reparentD(4)[OF rn] by (simp add: ends_before_def c_def node_end_def)
    have at: "bse_at S' i = bse_at S i" if "\<not> covers (dn S new) i" for i
      by (rule S'(7)) (use that a in \<open>auto simp: covers_def c_def node_end_def\<close>)
    show ?thesis by (rule that[OF _ _ S'(2) _ _ _ at, of "us @ [a]"]) (use False S'(1,3) re ub ab c(3) in \<open>auto simp: bse_right_cut_adjust_def\<close>)
  qed
qed

lemma insert_many:
  assumes inv: "bse_inv S" and r: "ready new S" and A: "around (d_offset (dn S new)) (node_end (dn S new)) us (a # ms @ [z]) vs S"
    and pre: "\<And>p. pre_np = Some p \<Longrightarrow> p \<in> set us" and rem: "rem \<longleftrightarrow> d_offset (dn S new) \<le> d_offset (dn S a)"
  obtains S1 S2 S3 S' where "(if rem then bse_remove_ddn a new S
      else map_option snd (bse_right_cut_adjust a (u32_of (node_end (dn S a) - d_offset (dn S new) + 1)) None new S)) = Some S1"
    "bse_remove_all ms new S1 = Some S2"
    "(if node_end (dn S new) < node_end (dn S2 z)
      then bse_left_cut_adjust z (u32_of (node_end (dn S new) - d_offset (dn S2 z) + 1)) new S2
      else bse_remove_ddn z new S2) = Some S3"
    "bse_merge_or_add pre_np (if rem then length us else Suc (length us)) new S3 = Some S'" "written new S S'"
proof -
  let ?o = "d_offset (dn S new)" let ?e = "node_end (dn S new)"
  have xs: "p_ddn_head S = us @ a # (ms @ z # vs)" using A by (simp add: around_def)
  note sp = bse_split[OF inv xs]
  have az: "ends_before (ddn (smem S)) a m" if "m \<in> set (ms @ z # vs)" for m using sp(7) that by simp
  have mz: "ends_before (ddn (smem S)) m z" if "m \<in> set ms" for m
    using bse_invD(2)[OF inv] that xs by (simp add: sorted_wrt_append)
  have over: "?o \<le> node_end (dn S a)" "d_offset (dn S z) \<le> ?e" using A by (simp_all add: around_def)
  have u: "\<And>u. u \<in> set us \<Longrightarrow> ends_before (ddn (smem S)) u new" and v: "\<And>v. v \<in> set vs \<Longrightarrow> ends_before (ddn (smem S)) new v"
    using A by (fastforce simp: around_def ends_before_def node_end_def)+
  have ae: "node_end (dn S a) \<le> ?e" using az[of z] over(2) by (simp add: ends_before_def node_end_def)
  obtain S1 us' where S1: "(if rem then bse_remove_ddn a new S
      else map_option snd (bse_right_cut_adjust a (u32_of (node_end (dn S a) - d_offset (dn S new) + 1)) None new S)) = Some S1"
    "us' = (if rem then us else us @ [a])" "room_made new S S1" "p_ddn_head S1 = us' @ (ms @ z # vs)"
    "\<And>b. b \<in> set (ms @ z # vs) \<Longrightarrow> reparent (dn S b) (dn S1 b)"
    "\<And>b. b \<in> set us' \<Longrightarrow> ends_before (ddn (smem S1)) b new" "\<And>i. \<not> covers (dn S new) i \<Longrightarrow> bse_at S1 i = bse_at S i"
    using trim_first[OF inv r xs over(1) ae u rem] by blast
  have r1: "bse_inv S1" "ready new S1" "reparent (dn S new) (dn S1 new)" using S1(3) by (simp_all add: room_made_def)
  have "covers (dn S1 m) i \<Longrightarrow> covers (dn S1 new) i" if "m \<in> set ms" for m i
  proof -
    have "covers (dn S m) i \<Longrightarrow> covers (dn S new) i"
      using az[of m] mz[OF that] that over by (auto simp: covers_def ends_before_def node_end_def)
    then show "covers (dn S1 m) i \<Longrightarrow> covers (dn S1 new) i"
      using that reparent_shape(1)[OF S1(5)[of m]] reparent_shape(1)[OF r1(3)] by simp
  qed
  then have cov: "\<forall>m \<in> set ms. \<forall>i. covers (dn S1 m) i \<longrightarrow> covers (dn S1 new) i" by blast
  from bse_remove_all_spec[OF r1(1,2) S1(4) cov] obtain S2 where S2: "bse_remove_all ms new S1 = Some S2" "room_made new S1 S2"
    "p_ddn_head S2 = us' @ z # vs" "\<And>b. b \<in> set (us' @ z # vs) \<Longrightarrow> reparent (dn S1 b) (dn S2 b)"
    "\<And>i. \<not> covers (dn S1 new) i \<Longrightarrow> bse_at S2 i = bse_at S1 i" by blast
  have r2: "bse_inv S2" "ready new S2" "reparent (dn S1 new) (dn S2 new)" using S2(2) by (simp_all add: room_made_def)
  have rn: "reparent (dn S new) (dn S2 new)" by (rule reparent_trans[OF r1(3) r2(3)])
  have rz: "reparent (dn S b) (dn S2 b)" if "b \<in> set (z # vs)" for b
    by (rule reparent_trans[OF S1(5) S2(4)]) (use that in auto)
  have u2: "ends_before (ddn (smem S2)) b new" if "b \<in> set us'" for b
    using S1(6)[OF that] reparentD(4,5)[OF S2(4)[of b]] that reparentD(4)[OF r2(3)] by (simp add: ends_before_def)
  have v2: "ends_before (ddn (smem S2)) new b" if "b \<in> set vs" for b
    using v[OF that] reparentD(4)[OF rz[of b]] that reparentD(4,5)[OF rn] by (simp add: ends_before_def)
  have z2: "d_offset (dn S2 new) \<le> d_offset (dn S2 z)" "d_offset (dn S2 z) \<le> node_end (dn S2 new)"
    using az[of z] over reparentD(4)[OF rz[of z]] reparentD(4)[OF rn] reparent_shape(6)[OF rn]
    by (simp_all add: ends_before_def node_end_def)
  obtain S3 vs' where S3: "(if node_end (dn S2 new) < node_end (dn S2 z)
      then bse_left_cut_adjust z (u32_of (node_end (dn S2 new) - d_offset (dn S2 z) + 1)) new S2
      else bse_remove_ddn z new S2) = Some S3" "room_made new S2 S3" "gap new us' vs' S3"
    "\<And>i. \<not> covers (dn S2 new) i \<Longrightarrow> bse_at S3 i = bse_at S2 i"
    using trim_last[OF r2(1,2) S2(3) u2 v2 z2] by metis
  have r3: "bse_inv S3" "ready new S3" using S3(2) by (simp_all add: room_made_def)
  have pos: "(if rem then length us else Suc (length us)) = length us'" using S1(2) by simp
  have pre': "\<And>p. pre_np = Some p \<Longrightarrow> p \<in> set us'" using pre S1(2) by auto
  obtain S' where S': "bse_merge_or_add pre_np (if rem then length us else Suc (length us)) new S3 = Some S'" "written new S3 S'"
    by (rule bse_merge_or_add_spec[OF r3 S3(3) pos pre'])
  have "room_made new S S3" by (rule room_made_trans[OF S1(3) room_made_trans[OF S2(2) S3(2)]])
  moreover have "bse_at S3 i = bse_at S i" if "\<not> covers (dn S new) i" for i
    using S3(4)[of i] S2(5)[of i] S1(7)[of i] that reparent_shape(1)[OF rn] reparent_shape(1)[OF r1(3)] by simp
  ultimately have w: "written new S S'" by (rule written_room[OF _ _ S'(2)])
  show ?thesis by (rule that[OF S1(1) S2(1) S3(1)[unfolded reparent_shape(6)[OF rn]] S'(1) w])
qed

lemma bse_insert_node_spec:
  assumes inv: "bse_inv S" and r: "ready new S" and safe: "search_safe (d_offset (dn S new)) S"
  obtains S' where "bse_insert_node new S = Some S'" "written new S S'"
proof -
  let ?o = "d_offset (dn S new)" let ?e = "node_end (dn S new)"
  have wf: "0 \<le> ?o" "?o < 2 ^ 62" "0 < d_len (dn S new)" using readyD(3)[OF r] by (auto simp: node_wf_def)
  obtain us ms vs where ov: "bse_overlap ?o ?e S = Some (length us, length us + length ms)" and A: "around ?o ?e us ms vs S"
    by (rule bse_overlap_spec[OF inv wf(1,2) safe])
  define pre_np where "pre_np = (if length us > 0 then Some (p_ddn_head S ! (length us - 1)) else None)"
  have xs: "p_ddn_head S = us @ ms @ vs" using A by (simp add: around_def)
  have pre: "p \<in> set us" if "pre_np = Some p" for p
    using that xs by (auto simp: pre_np_def nth_append split: if_splits)
  have u: "\<And>u. u \<in> set us \<Longrightarrow> ends_before (ddn (smem S)) u new" and v: "\<And>v. v \<in> set vs \<Longrightarrow> ends_before (ddn (smem S)) new v"
    using A by (fastforce simp: around_def ends_before_def node_end_def)+
  have ms: "take (length us + length ms - length us) (drop (length us) (p_ddn_head S)) = ms" using xs by simp
  note ev = bse_insert_node_def[of new S, unfolded Let_def ov Option.bind.bind_lunit prod.case ms, folded pre_np_def]
  consider (none) "ms = []" | (one) a where "ms = [a]" | (many) a bs z where "ms = a # bs @ [z]"
    by (cases ms; cases "tl ms" rule: rev_cases) auto
  then show ?thesis
  proof cases
    case none
    then have "gap new us vs S" using xs u v by (simp add: gap_def)
    then obtain S' where "bse_merge_or_add pre_np (length us) new S = Some S'" "written new S S'"
      using bse_merge_or_add_spec[OF inv r _ refl pre] by metis
    then show ?thesis using that ev none by simp
  next
    case one
    have xs1: "p_ddn_head S = us @ a # vs" using xs one by simp
    have a: "?o \<le> node_end (dn S a)" "d_offset (dn S a) \<le> ?e" using A one by (simp_all add: around_def)
    show ?thesis
    proof (cases "?o \<le> d_offset (dn S a)")
      case True
      obtain S1 vs' where S1: "(if ?e < node_end (dn S a)
          then bse_left_cut_adjust a (u32_of (?e - d_offset (dn S a) + 1)) new S
          else bse_remove_ddn a new S) = Some S1" "room_made new S S1" "gap new us vs' S1"
        "\<And>i. \<not> covers (dn S new) i \<Longrightarrow> bse_at S1 i = bse_at S i"
        using trim_last[OF inv r xs1 u v True a(2)] by metis
      have "bse_inv S1" "ready new S1" using S1(2) by (simp_all add: room_made_def)
      then obtain S' where S': "bse_merge_or_add pre_np (length us) new S1 = Some S'" "written new S1 S'"
        using bse_merge_or_add_spec[OF _ _ S1(3) refl pre] by metis
      have "written new S S'" by (rule written_room[OF S1(2,4) S'(2)])
      then show ?thesis using that ev one True S1(1) S'(1) by simp
    next
      case False
      then obtain S' where "bse_insert_inside a (length us) new S = Some S'" "written new S S'"
        using bse_insert_inside_spec[OF inv r xs1 _ _ v] a(1) by (metis linorder_not_le node_end_def zle_diff1_eq)
      then show ?thesis using that ev one False by simp
    qed
  next
    case many
    obtain S1 S2 S3 S' where S': "(if ?o \<le> d_offset (dn S a) then bse_remove_ddn a new S
        else map_option snd (bse_right_cut_adjust a (u32_of (node_end (dn S a) - d_offset (dn S new) + 1)) None new S)) = Some S1"
      "bse_remove_all bs new S1 = Some S2"
      "(if node_end (dn S new) < node_end (dn S2 z)
        then bse_left_cut_adjust z (u32_of (node_end (dn S new) - d_offset (dn S2 z) + 1)) new S2
        else bse_remove_ddn z new S2) = Some S3"
      "bse_merge_or_add pre_np (if ?o \<le> d_offset (dn S a) then length us else Suc (length us)) new S3 = Some S'" "written new S S'"
      by (rule insert_many[OF inv r A[unfolded many] pre refl])
    obtain b cs where bs: "bs @ [z] = b # cs" by (cases "bs @ [z]") auto
    have bl: "butlast (b # cs) = bs" "last (b # cs) = z" using bs by (metis butlast_snoc, metis last_snoc)
    have "bse_insert_node new S = Some S'" unfolding ev many bs list.case bl S'(1) Option.bind.bind_lunit S'(2,3,4) ..
    then show ?thesis by (rule that[OF _ S'(5)])
  qed
qed

end
