(* ===== verification/Bfe_Extend.thy ===== *)
theory Bfe_Extend
  imports Bfe_Flush Bse_Insert
begin

text \<open>
  One vectored write of the flush engine: the run of nodes that \<open>__extend_write_request\<close> collects around a node, the sizes that it
  may reach, and the bytes that it puts on the device below the cache.
\<close>

section \<open>Contiguous runs\<close>

fun contiguous :: "(node_addr \<Rightarrow> data_description_node) \<Rightarrow> node_addr list \<Rightarrow> bool" where
  "contiguous d (a # b # xs) \<longleftrightarrow> d_offset (d a) + d_len (d a) = d_offset (d b) \<and> contiguous d (b # xs)"
| "contiguous d xs \<longleftrightarrow> True"

definition lens :: "(node_addr \<Rightarrow> data_description_node) \<Rightarrow> node_addr list \<Rightarrow> int" where
  "lens d xs = (\<Sum>a\<leftarrow>xs. d_len (d a))"

lemma lens_simps [simp]: "lens d [] = 0" "lens d (a # xs) = d_len (d a) + lens d xs" "lens d (xs @ ys) = lens d xs + lens d ys"
  "lens d (rev xs) = lens d xs"
  by (simp_all add: lens_def sum_list_rev flip: rev_map)

lemma lens_nonneg: "(\<And>a. a \<in> set xs \<Longrightarrow> 0 \<le> d_len (d a)) \<Longrightarrow> 0 \<le> lens d xs"
  by (induction xs) auto

lemma contiguous_snoc: "contiguous d (xs @ [a]) \<Longrightarrow> d_offset (d a) + d_len (d a) = d_offset (d b) \<Longrightarrow> contiguous d (xs @ [a, b])"
  by (induction d xs rule: contiguous.induct) auto

lemma contiguous_append: "contiguous d (xs @ [a]) \<Longrightarrow> contiguous d (a # ys) \<Longrightarrow> contiguous d (xs @ a # ys)"
  by (induction d xs rule: contiguous.induct) auto

lemma contiguous_drop: "contiguous d (xs @ ys) \<Longrightarrow> contiguous d ys"
proof (induction xs)
  case (Cons x xs)
  then show ?case by (cases "xs @ ys") auto
qed simp

text \<open>Nodes that wait to be written are flushed as they are.\<close>

definition waiting :: "int \<Rightarrow> data_description_node \<Rightarrow> bool" where
  "waiting m x \<longleftrightarrow> flags_ok x \<and> fx_ok x \<and> 0 < d_len x \<and> d_len x < m"

lemma waitingD:
  assumes "waiting m x"
  shows "d_where x \<noteq> DDN_WHERE_NO" "\<not> d_flushed x \<Longrightarrow> \<not> d_flush_done x" "0 < d_len x" "d_len x < m"
    "\<not> d_flushed x \<Longrightarrow> flush_start x = d_offset x" "\<not> d_flushed x \<Longrightarrow> flush_size x = d_len x"
    "d_flushing x \<Longrightarrow> \<not> d_flushed x \<Longrightarrow> d_flush_offset x = d_offset x \<and> d_flush_len x = d_len x \<and> d_flush_pos x = d_pos x"
    "d_flushed x \<Longrightarrow> d_flushing x"
  using assms by (auto simp: waiting_def flags_ok_def fx_ok_def flush_start_def flush_size_def)

section \<open>The low bound\<close>

lemma low_bound_walk_spec:
  assumes "\<And>a. a \<in> set (cur # pres) \<Longrightarrow> waiting m (d a)" "\<not> d_flushed (d cur)" "m < 2 ^ 31" "ms \<noteq> 0 \<Longrightarrow> 0 \<le> cm \<and> cm < 2 ^ 31"
  shows "\<exists>rs rest. pres = rs @ rest \<and> low_bound_walk d mx ms cm cur pres = last (cur # rs) \<and> contiguous d (rev rs @ [cur]) \<and>
    (\<forall>r \<in> set rs. \<not> d_flushed (d r)) \<and> length rs \<le> mx \<and> (ms \<noteq> 0 \<longrightarrow> lens d rs \<le> cm)"
  using assms
proof (induction d mx ms cm cur pres rule: low_bound_walk.induct)
  case (3 d mx ms cm cur pre pres)
  let ?x = "d pre"
  have w: "waiting m ?x" "waiting m (d cur)" using "3.prems"(1) by auto
  have stop: ?case if "low_bound_walk d (Suc mx) ms cm cur (pre # pres) = cur"
  proof (rule exI[of _ "[]"], rule exI[of _ "pre # pres"], intro conjI)
    show "low_bound_walk d (Suc mx) ms cm cur (pre # pres) = last [cur]" using that by (simp del: low_bound_walk.simps)
    show "ms \<noteq> 0 \<longrightarrow> lens d [] \<le> cm" using "3.prems"(4) by simp
  qed simp_all
  show ?case
  proof (cases "d_where ?x = DDN_WHERE_NO \<or> d_flushing ?x \<and> d_flushed ?x \<or> ms \<noteq> 0 \<and> cm < s32_of (flush_size ?x) \<or>
      flush_start ?x + flush_size ?x \<noteq> flush_start (d cur)")
    case True
    have "low_bound_walk d (Suc mx) ms cm cur (pre # pres) = cur"
      unfolding low_bound_walk.simps(3) using True by (simp only: split: if_split) blast
    then show ?thesis by (rule stop)
  next
    case False
    then have nf: "\<not> d_flushed ?x" using waitingD(8)[OF w(1)] by blast
    have sz: "flush_size ?x = d_len ?x" "s32_of (d_len ?x) = d_len ?x" using waitingD(3,4,6)[OF w(1)] nf "3.prems"(3) by simp_all
    have adj: "d_offset ?x + d_len ?x = d_offset (d cur)"
      using False waitingD(5)[OF w(1) nf] waitingD(5)[OF w(2) "3.prems"(2)] sz(1) by simp
    let ?cm = "if ms \<noteq> 0 then s32_of (cm - flush_size ?x) else cm"
    have cm: "ms \<noteq> 0 \<Longrightarrow> ?cm = cm - d_len ?x \<and> 0 \<le> ?cm \<and> ?cm < 2 ^ 31"
      using False "3.prems"(4) sz waitingD(3)[OF w(1)] by auto
    have "\<exists>rs rest. pres = rs @ rest \<and> low_bound_walk d mx ms ?cm pre pres = last (pre # rs) \<and> contiguous d (rev rs @ [pre]) \<and>
      (\<forall>r \<in> set rs. \<not> d_flushed (d r)) \<and> length rs \<le> mx \<and> (ms \<noteq> 0 \<longrightarrow> lens d rs \<le> ?cm)"
      by (rule "3.IH") (use False "3.prems" nf cm in auto)
    then obtain rs rest where r: "pres = rs @ rest" "low_bound_walk d mx ms ?cm pre pres = last (pre # rs)" "contiguous d (rev rs @ [pre])"
      "\<forall>r \<in> set rs. \<not> d_flushed (d r)" "length rs \<le> mx" "ms \<noteq> 0 \<longrightarrow> lens d rs \<le> ?cm" by blast
    have "contiguous d (rev rs @ [pre, cur])" by (rule contiguous_snoc[OF r(3) adj])
    moreover have "low_bound_walk d (Suc mx) ms cm cur (pre # pres) = last (cur # pre # rs)"
      unfolding low_bound_walk.simps(3) using False r(2) by (auto simp del: low_bound_walk.simps)
    ultimately show ?thesis using r nf cm by (intro exI[of _ "pre # rs"] exI[of _ rest]) auto
  qed
qed (auto intro: exI[of _ "[]"])

section \<open>Collecting the run\<close>

definition mark :: "data_description_node \<Rightarrow> data_description_node" where
  "mark x = x\<lparr>d_flushing := True, d_flush_offset := d_offset x, d_flush_len := d_len x, d_flush_pos := d_pos x, d_flushed := True\<rparr>"

definition mark_all :: "node_addr list \<Rightarrow> bse_private \<Rightarrow> bse_private" where
  "mark_all ks S = S\<lparr>smem := (smem S)\<lparr>ddn := (\<lambda>a. if a \<in> set ks then mark (dn S a) else dn S a)\<rparr>\<rparr>"

lemma mark_sel [simp]:
  "d_flushing (mark x)" "d_flushed (mark x)" "d_flush_offset (mark x) = d_offset x" "d_flush_len (mark x) = d_len x" "d_flush_pos (mark x) = d_pos x"
  "d_offset (mark x) = d_offset x" "d_len (mark x) = d_len x" "d_pos (mark x) = d_pos x" "d_where (mark x) = d_where x"
  "d_flush_done (mark x) = d_flush_done x" "d_page_node (mark x) = d_page_node x" "d_parent (mark x) = d_parent x"
  "d_location_disk (mark x) = d_location_disk x" "d_user_counter (mark x) = d_user_counter x" "d_seq (mark x) = d_seq x" "mark (mark x) = mark x"
  by (simp_all add: mark_def)

lemma mark_all_sel [simp]:
  "ddn (smem (mark_all ks S)) = (\<lambda>a. if a \<in> set ks then mark (dn S a) else dn S a)"
  "btn (smem (mark_all ks S)) = btn (smem S)" "btn_pool (smem (mark_all ks S)) = btn_pool (smem S)" "p_rtree (mark_all ks S) = p_rtree S"
  "p_ddn_head (mark_all ks S) = p_ddn_head S" "ddn_pool (mark_all ks S) = ddn_pool S" "pages (mark_all ks S) = pages S"
  "p_pagesz (mark_all ks S) = p_pagesz S" "p_max_flush_size (mark_all ks S) = p_max_flush_size S" "ram (mark_all ks S) = ram S"
  "bufdev (mark_all ks S) = bufdev S" "p_prepare_flush_seq (mark_all ks S) = p_prepare_flush_seq S"
  by (simp_all add: mark_all_def)

lemma mark_all_append: "mark_all ys (mark_all xs S) = mark_all (xs @ ys) S"
proof -
  have "(\<lambda>a. if a \<in> set ys then mark (dn (mark_all xs S) a) else dn (mark_all xs S) a) = (\<lambda>a. if a \<in> set (xs @ ys) then mark (dn S a) else dn S a)"
    by (intro ext) simp
  then show ?thesis unfolding mark_all_def by simp
qed

lemma mark_all_Nil [simp]: "mark_all [] S = S"
  by (simp add: mark_all_def)

lemma mark_all_single: "mark_all [c] S = dn_upd c mark S"
proof -
  have "(\<lambda>a. if a \<in> set [c] then mark (dn S a) else dn S a) = (ddn (smem S))(c := mark (dn S c))" by (intro ext) simp
  then show ?thesis by (simp only: mark_all_def dn_upd_def)
qed

lemma mark_flushing:
  "d_flushing x \<Longrightarrow> d_flush_offset x = d_offset x \<Longrightarrow> d_flush_len x = d_len x \<Longrightarrow> d_flush_pos x = d_pos x \<Longrightarrow> x\<lparr>d_flushed := True\<rparr> = mark x"
  by (cases x) (simp add: mark_def)

text \<open>The entries of the vector, and the state when the nodes \<open>ks\<close> have been collected.\<close>

fun vec_of :: "(node_addr \<Rightarrow> data_description_node) \<Rightarrow> int \<Rightarrow> node_addr list \<Rightarrow> (node_addr \<times> iovec) list" where
  "vec_of d buf [] = []"
| "vec_of d buf (a # ks) =
     (a, \<lparr>iov_base = (if d_location_disk (d a) then (True, buf) else (False, d_pos (d a))), iov_len = d_len (d a)\<rparr>) #
     vec_of d (if d_location_disk (d a) then buf + d_len (d a) else buf) ks"

fun buf_after :: "(node_addr \<Rightarrow> data_description_node) \<Rightarrow> int \<Rightarrow> node_addr list \<Rightarrow> int" where
  "buf_after d buf [] = buf"
| "buf_after d buf (a # ks) = buf_after d (if d_location_disk (d a) then buf + d_len (d a) else buf) ks"

definition collected :: "node_addr list \<Rightarrow> extend_state \<Rightarrow> extend_state \<Rightarrow> bool" where
  "collected ks E E' \<longleftrightarrow> es_bse E' = mark_all ks (es_bse E) \<and>
     es_vec E' = es_vec E @ vec_of (ddn (smem (es_bse E))) (es_data_buf E) ks \<and>
     es_data_buf E' = buf_after (ddn (smem (es_bse E))) (es_data_buf E) ks \<and>
     es_write_size E' = es_write_size E + lens (ddn (smem (es_bse E))) ks"

lemma vec_of_cong: "(\<And>a. a \<in> set ks \<Longrightarrow> d_len (d' a) = d_len (d a) \<and> d_pos (d' a) = d_pos (d a) \<and> d_location_disk (d' a) = d_location_disk (d a)) \<Longrightarrow>
  vec_of d' buf ks = vec_of d buf ks \<and> buf_after d' buf ks = buf_after d buf ks \<and> lens d' ks = lens d ks"
  by (induction ks arbitrary: buf) simp_all

lemma collected_Nil [simp]: "collected [] E E' \<longleftrightarrow> es_bse E' = es_bse E \<and> es_vec E' = es_vec E \<and> es_data_buf E' = es_data_buf E \<and> es_write_size E' = es_write_size E"
  by (simp add: collected_def)

lemma collected_Cons:
  assumes "collected [a] E E1" "collected ks E1 E'"
  shows "collected (a # ks) E E'"
proof -
  let ?d = "ddn (smem (es_bse E))" let ?e = "ddn (smem (es_bse E1))"
  have 1: "es_bse E1 = mark_all [a] (es_bse E)" using assms(1) by (simp add: collected_def)
  have "vec_of ?e buf ks = vec_of ?d buf ks \<and> buf_after ?e buf ks = buf_after ?d buf ks \<and> lens ?e ks = lens ?d ks" for buf
    by (rule vec_of_cong) (simp add: 1)
  then show ?thesis using assms by (simp add: collected_def 1 mark_all_append)
qed

text \<open>The search list while the run is collected.\<close>

definition list_waiting :: "bse_private \<Rightarrow> bool" where
  "list_waiting S \<longleftrightarrow> (\<forall>a \<in> set (p_ddn_head S). waiting (p_max_flush_size S) (dn S a)) \<and> distinct (p_ddn_head S) \<and> p_max_flush_size S < 2 ^ 30"

lemma waiting_mark: "waiting m x \<Longrightarrow> \<not> d_flush_done x \<Longrightarrow> waiting m (mark x)"
  by (auto simp: waiting_def flags_ok_def fx_ok_def)

lemma list_after_split: "a \<notin> set us \<Longrightarrow> list_after a (us @ a # vs) = (case vs of [] \<Rightarrow> None | b # bs \<Rightarrow> Some b)"
  by (induction us) auto

lemma traverse_next:
  assumes "list_waiting S" "p_ddn_head S = ws @ c # zs"
  shows "bse_traverse_next S (Some c) = (Some c, case zs of [] \<Rightarrow> None | b # bs \<Rightarrow> Some b)"
proof -
  have "c \<notin> set ws" using assms by (auto simp: list_waiting_def)
  moreover have "d_where (dn S (hd zs)) \<noteq> DDN_WHERE_NO" if "zs \<noteq> []"
    using assms that waitingD(1)[of "p_max_flush_size S" "dn S (hd zs)"] by (auto simp: list_waiting_def)
  ultimately show ?thesis using assms(2) by (cases zs) (simp_all add: bse_traverse_next_def list_after_split)
qed

lemma list_waitingD:
  assumes "list_waiting S" "a \<in> set (p_ddn_head S)"
  shows "waiting (p_max_flush_size S) (dn S a)" "0 < p_max_flush_size S" "p_max_flush_size S < 2 ^ 30"
proof -
  show w: "waiting (p_max_flush_size S) (dn S a)" "p_max_flush_size S < 2 ^ 30" using assms by (simp_all add: list_waiting_def)
  then show "0 < p_max_flush_size S" using waitingD(3,4)[OF w(1)] by linarith
qed

lemma list_waiting_mark:
  assumes "list_waiting S" "c \<in> set (p_ddn_head S)" "\<not> d_flushed (dn S c)"
  shows "list_waiting (mark_all [c] S)"
  using assms waiting_mark[OF list_waitingD(1)[OF assms(1,2)]] waitingD(2)[OF list_waitingD(1)[OF assms(1,2)]]
  by (simp add: list_waiting_def)

lemma extend_take_spec:
  assumes w: "list_waiting (es_bse E)" and c: "c \<in> set (p_ddn_head (es_bse E))" "\<not> d_flushed (dn (es_bse E) c)"
    and z: "0 \<le> es_write_size E" "es_write_size E + d_len (dn (es_bse E) c) \<le> p_max_flush_size (es_bse E)"
  obtains E1 where "extend_take dnp c E = Some E1" "collected [c] E E1" "es_got_me E1 = es_got_me E"
proof -
  let ?S = "es_bse E" let ?x = "dn ?S c"
  note D = list_waitingD[OF w c(1)]
  note W = waitingD[OF D(1)]
  let ?T = "if d_flushing ?x then ?S
    else dn_upd c (\<lambda>x. x\<lparr>d_flushing := True, d_flush_offset := d_offset x, d_flush_len := d_len x, d_flush_pos := d_pos x\<rparr>) ?S"
  have t: "d_flush_len (dn ?T c) = d_len ?x" "d_flush_pos (dn ?T c) = d_pos ?x" "d_location_disk (dn ?T c) = d_location_disk ?x"
    "p_max_flush_size ?T = p_max_flush_size ?S" using W(7) c(2) by auto
  have m: "dn_upd c (\<lambda>x. x\<lparr>d_flushed := True\<rparr>) ?T = mark_all [c] ?S"
  proof (cases "d_flushing ?x")
    case True
    then have "?x\<lparr>d_flushed := True\<rparr> = mark ?x" using W(7) c(2) by (intro mark_flushing) auto
    then show ?thesis using True by (simp add: mark_all_single dn_upd_def)
  next
    case False
    then show ?thesis by (simp add: mark_all_single dn_upd_def mark_def)
  qed
  have s: "s32_of (d_len ?x) = d_len ?x" "s32_of (es_write_size E + d_len ?x) = es_write_size E + d_len ?x" using W(3,4) D(3) z by simp_all
  have "\<exists>E1. extend_take dnp c E = Some E1 \<and> collected [c] E E1 \<and> es_got_me E1 = es_got_me E"
    unfolding extend_take_def Let_def t m s using W(3,4) z by (simp add: collected_def)
  then show ?thesis using that by blast
qed

lemma contiguous_cong: "(\<And>a. a \<in> set xs \<Longrightarrow> d_offset (d' a) = d_offset (d a) \<and> d_len (d' a) = d_len (d a)) \<Longrightarrow> contiguous d' xs = contiguous d xs"
  by (induction d xs rule: contiguous.induct) simp_all

text \<open>The loop. While the node \<open>dnp\<close> is still ahead, the nodes up to it are contiguous, unflushed and fit.\<close>

definition lead :: "nat \<Rightarrow> node_addr \<Rightarrow> node_addr list \<Rightarrow> node_addr list \<Rightarrow> extend_state \<Rightarrow> bool" where
  "lead n dnp pl zs E \<longleftrightarrow> (\<exists>run vs. zs = run @ dnp # vs \<and> contiguous (ddn (smem (es_bse E))) (pl @ run @ [dnp]) \<and>
     (\<forall>r \<in> set (run @ [dnp]). \<not> d_flushed (dn (es_bse E) r)) \<and> length run < n \<and>
     es_write_size E + lens (ddn (smem (es_bse E))) (run @ [dnp]) \<le> p_max_flush_size (es_bse E))"

abbreviation opt_list :: "'a option \<Rightarrow> 'a list" where
  "opt_list pre \<equiv> (case pre of None \<Rightarrow> [] | Some p \<Rightarrow> [p])"

lemma lead_first:
  assumes "lead n dnp (opt_list pre) (c # zs) E" "list_waiting (es_bse E)" "p_ddn_head (es_bse E) = ws @ c # zs"
  shows "\<not> d_flushed (dn (es_bse E) c)" "\<And>p. pre = Some p \<Longrightarrow> d_offset (dn (es_bse E) p) + d_len (dn (es_bse E) p) = d_offset (dn (es_bse E) c)"
    "es_write_size E + d_len (dn (es_bse E) c) \<le> p_max_flush_size (es_bse E)" "0 < n"
proof -
  let ?d = "ddn (smem (es_bse E))"
  obtain run vs where r: "c # zs = run @ dnp # vs" "contiguous ?d (opt_list pre @ run @ [dnp])" "\<forall>r \<in> set (run @ [dnp]). \<not> d_flushed (?d r)"
    "length run < n" "es_write_size E + lens ?d (run @ [dnp]) \<le> p_max_flush_size (es_bse E)" using assms(1) by (auto simp: lead_def)
  show "0 < n" using r(4) by simp
  obtain ms where m: "run @ [dnp] = c # ms" "set ms \<subseteq> set (p_ddn_head (es_bse E))" using r(1) assms(3) by (cases run) auto
  show "\<not> d_flushed (?d c)" using r(3) m(1) by simp
  have "0 \<le> lens ?d ms" by (rule lens_nonneg) (use m(2) waitingD(3)[OF list_waitingD(1)[OF assms(2)]] in force)
  then show "es_write_size E + d_len (?d c) \<le> p_max_flush_size (es_bse E)" using r(5) unfolding m(1) by simp
  show "d_offset (?d p) + d_len (?d p) = d_offset (?d c)" if "pre = Some p" for p using r(2) that unfolding m(1) by simp
qed

lemma lead_next:
  assumes "lead (Suc n) dnp pl (c # zs) E" "c \<noteq> dnp" "collected [c] E E1" "c \<notin> set zs"
  shows "lead n dnp [c] zs E1"
proof -
  let ?d = "ddn (smem (es_bse E))" let ?e = "ddn (smem (es_bse E1))"
  obtain run vs where r: "c # zs = run @ dnp # vs" "contiguous ?d (pl @ run @ [dnp])" "\<forall>r \<in> set (run @ [dnp]). \<not> d_flushed (?d r)"
    "length run < Suc n" "es_write_size E + lens ?d (run @ [dnp]) \<le> p_max_flush_size (es_bse E)" using assms(1) by (auto simp: lead_def)
  then obtain ms where m: "run = c # ms" using assms(2) by (cases run) auto
  have E1: "es_bse E1 = mark_all [c] (es_bse E)" "es_write_size E1 = es_write_size E + d_len (?d c)" using assms(3) by (simp_all add: collected_def)
  have z: "zs = ms @ dnp # vs" using r(1) m by simp
  have "contiguous ?d (c # ms @ [dnp])" using r(2) m contiguous_drop[of ?d pl] by simp
  then have "contiguous ?e ([c] @ ms @ [dnp])" using contiguous_cong[of "c # ms @ [dnp]" ?e ?d] by (simp add: E1(1))
  moreover have "\<forall>r \<in> set (ms @ [dnp]). \<not> d_flushed (?e r)" using r(3) m z assms(4) by (auto simp: E1(1))
  moreover have "lens ?e (ms @ [dnp]) = lens ?d (ms @ [dnp])" using vec_of_cong[of "ms @ [dnp]" ?e ?d] by (simp add: E1(1))
  ultimately show ?thesis using z r(4,5) m E1 unfolding lead_def by (intro exI[of _ ms] exI[of _ vs]) simp
qed

definition run_of :: "nat \<Rightarrow> node_addr \<Rightarrow> node_addr list \<Rightarrow> node_addr list \<Rightarrow> node_addr list \<Rightarrow> extend_state \<Rightarrow> extend_state \<Rightarrow> bool" where
  "run_of n dnp pl zs ks E E' \<longleftrightarrow> (\<exists>rest. zs = ks @ rest) \<and> collected ks E E' \<and> contiguous (ddn (smem (es_bse E))) (pl @ ks) \<and>
     (\<forall>k \<in> set ks. \<not> d_flushed (dn (es_bse E) k)) \<and> es_write_size E' \<le> p_max_flush_size (es_bse E) \<and> length ks \<le> n \<and>
     (dnp \<in> set zs \<longrightarrow> dnp \<in> set ks \<and> es_got_me E')"

lemma run_of_stop:
  assumes "es_write_size E \<le> p_max_flush_size (es_bse E)" "dnp \<notin> set zs" "contiguous (ddn (smem (es_bse E))) pl"
  shows "run_of n dnp pl zs [] E (E\<lparr>es_got_me := g\<rparr>)" "run_of n dnp pl zs [] E E"
  using assms by (simp_all add: run_of_def)

lemma run_of_step:
  assumes w: "list_waiting (es_bse E)" "p_ddn_head (es_bse E) = ws @ c # zs" and c: "\<not> d_flushed (dn (es_bse E) c)"
    and pre: "\<And>p. pre = Some p \<Longrightarrow> d_offset (dn (es_bse E) p) + d_len (dn (es_bse E) p) = d_offset (dn (es_bse E) c)"
    and E1: "collected [c] E E1" "c = dnp \<Longrightarrow> es_got_me E1" and r: "run_of n dnp [c] zs ks E1 E'" "es_got_me E1 \<Longrightarrow> es_got_me E'"
  shows "run_of (Suc n) dnp (opt_list pre) (c # zs) (c # ks) E E'"
proof -
  let ?d = "ddn (smem (es_bse E))" let ?e = "ddn (smem (es_bse E1))"
  have b: "es_bse E1 = mark_all [c] (es_bse E)" using E1(1) by (simp add: collected_def)
  have nc: "c \<notin> set zs" using w by (auto simp: list_waiting_def)
  obtain rest where rest: "zs = ks @ rest" using r(1) by (auto simp: run_of_def)
  have "contiguous ?d (c # ks)" using r(1) contiguous_cong[of "c # ks" ?e ?d] by (simp add: run_of_def b)
  then have "contiguous ?d (opt_list pre @ c # ks)" using pre by (cases pre) auto
  moreover have "\<not> d_flushed (?d k)" if "k \<in> set (c # ks)" for k
    using that c r(1) nc rest by (cases "k = c") (auto simp: run_of_def b)
  moreover have "collected (c # ks) E E'" by (rule collected_Cons[OF E1(1)]) (use r(1) in \<open>simp add: run_of_def\<close>)
  moreover have "dnp \<in> set (c # ks) \<and> es_got_me E'" if "dnp \<in> set (c # zs)" using that r E1(2) by (auto simp: run_of_def)
  ultimately show ?thesis using r(1) rest unfolding run_of_def by (auto simp: b)
qed

lemma extend_collect_spec:
  assumes "list_waiting (es_bse E)" "p_ddn_head (es_bse E) = ws @ zs"
    "\<And>p. pre = Some p \<Longrightarrow> d_flush_offset (dn (es_bse E) p) + d_flush_len (dn (es_bse E) p) = d_offset (dn (es_bse E) p) + d_len (dn (es_bse E) p)"
    "0 \<le> es_write_size E" "es_write_size E \<le> p_max_flush_size (es_bse E)" "dnp \<in> set zs \<Longrightarrow> lead n dnp (opt_list pre) zs E"
  shows "\<exists>E' ks. extend_collect n dnp (case zs of [] \<Rightarrow> None | b # bs \<Rightarrow> Some b) pre E = Some E' \<and> run_of n dnp (opt_list pre) zs ks E E' \<and>
    (es_got_me E \<longrightarrow> es_got_me E')"
  using assms
proof (induction n arbitrary: ws zs pre E)
  case 0
  have nd: "dnp \<notin> set zs" using "0.prems"(6) by (auto simp: lead_def)
  have "run_of 0 dnp (opt_list pre) zs [] E E" by (rule run_of_stop(2)[OF "0.prems"(5) nd]) (cases pre, simp_all)
  then show ?case by auto
next
  case (Suc n)
  let ?S = "es_bse E"
  have pl: "contiguous (ddn (smem ?S)) (opt_list pre)" by (cases pre) simp_all
  show ?case
  proof (cases zs)
    case Nil
    have "run_of (Suc n) dnp (opt_list pre) zs [] E E" by (rule run_of_stop(2)[OF Suc.prems(5) _ pl]) (simp add: Nil)
    then show ?thesis using Nil by (auto simp: bse_traverse_next_def)
  next
    case (Cons c zs')
    let ?x = "dn ?S c" let ?E = "E\<lparr>es_got_me := es_got_me E \<or> c = dnp\<rparr>"
    have xs: "p_ddn_head ?S = ws @ c # zs'" using Suc.prems(2) Cons by simp
    have cin: "c \<in> set (p_ddn_head ?S)" using xs by simp
    have nc: "c \<notin> set zs'" using Suc.prems(1) xs by (auto simp: list_waiting_def)
    note D = list_waitingD[OF Suc.prems(1) cin]
    note W = waitingD[OF D(1)]
    note L = lead_first[OF Suc.prems(6)[unfolded Cons] Suc.prems(1) xs]
    let ?gap = "case pre of None \<Rightarrow> False | Some p \<Rightarrow> d_flush_offset (dn ?S p) + d_flush_len (dn ?S p) \<noteq> flush_start ?x"
    let ?over = "p_max_flush_size ?S \<noteq> 0 \<and> s32_of (u32_of (es_write_size E + flush_size ?x)) > p_max_flush_size ?S \<and> c \<noteq> dnp"
    have ev: "extend_collect (Suc n) dnp (Some c) pre E =
      (if d_flushed ?x then Some ?E else do { c_assert (\<not> d_flush_done ?x);
        if ?gap then do { c_assert (c \<noteq> dnp); Some ?E } else if ?over then Some ?E
        else do { E \<leftarrow> extend_take dnp c ?E; extend_collect n dnp (case zs' of [] \<Rightarrow> None | b # bs \<Rightarrow> Some b) (Some c) E } })"
      by (simp add: traverse_next[OF Suc.prems(1) xs] Let_def)
    have over: "?over \<longleftrightarrow> es_write_size E + d_len ?x > p_max_flush_size ?S \<and> c \<noteq> dnp" if "\<not> d_flushed ?x"
    proof -
      have "u32_of (es_write_size E + d_len ?x) = es_write_size E + d_len ?x" "s32_of (es_write_size E + d_len ?x) = es_write_size E + d_len ?x"
        using W(3,4) D(2,3) Suc.prems(4,5) by simp_all
      then show ?thesis using W(6) D(2) that by simp
    qed
    have gap: "?gap \<longleftrightarrow> (\<exists>p. pre = Some p \<and> d_offset (dn ?S p) + d_len (dn ?S p) \<noteq> d_offset ?x)" if "\<not> d_flushed ?x"
      using W(5)[OF that] Suc.prems(3) by (auto split: option.split)
    show ?thesis
    proof (cases "d_flushed ?x \<or> ?gap \<or> ?over")
      case True
      have nd: "dnp \<notin> set zs"
      proof
        assume "dnp \<in> set zs"
        then have i: "dnp \<in> set (c # zs')" using Cons by simp
        show False using True L(1)[OF i] L(2)[OF i] L(3)[OF i] gap over by force
      qed
      then have ne: "c \<noteq> dnp" using Cons by auto
      have "extend_collect (Suc n) dnp (Some c) pre E = Some ?E" unfolding ev using True W(2) ne by (auto split: if_splits)
      moreover have "run_of (Suc n) dnp (opt_list pre) zs [] E ?E" by (rule run_of_stop(1)[OF Suc.prems(5) nd pl])
      ultimately show ?thesis using Cons by auto
    next
      case False
      then have nf: "\<not> d_flushed ?x" by simp
      have fit: "es_write_size E + d_len ?x \<le> p_max_flush_size ?S"
        using False over[OF nf] L(3) by (cases "c = dnp") (auto simp: not_less)
      have adj: "\<And>p. pre = Some p \<Longrightarrow> d_offset (dn ?S p) + d_len (dn ?S p) = d_offset ?x" using False gap[OF nf] by blast
      obtain E1 where E1: "extend_take dnp c ?E = Some E1" "collected [c] ?E E1" "es_got_me E1 = es_got_me ?E"
        using extend_take_spec[of ?E c dnp] Suc.prems(1,4) cin nf fit by auto
      have c1: "collected [c] E E1" using E1(2) by (simp add: collected_def)
      have b1: "es_bse E1 = mark_all [c] ?S" "es_write_size E1 = es_write_size E + d_len ?x" using c1 by (simp_all add: collected_def)
      have "\<exists>E' ks. extend_collect n dnp (case zs' of [] \<Rightarrow> None | b # bs \<Rightarrow> Some b) (Some c) E1 = Some E' \<and>
        run_of n dnp (opt_list (Some c)) zs' ks E1 E' \<and> (es_got_me E1 \<longrightarrow> es_got_me E')"
      proof (rule Suc.IH)
        show "list_waiting (es_bse E1)" unfolding b1 by (rule list_waiting_mark[OF Suc.prems(1) cin nf])
        show "p_ddn_head (es_bse E1) = (ws @ [c]) @ zs'" using xs b1 by simp
        show "d_flush_offset (dn (es_bse E1) p) + d_flush_len (dn (es_bse E1) p) = d_offset (dn (es_bse E1) p) + d_len (dn (es_bse E1) p)"
          if "Some c = Some p" for p using that b1 by simp
        show "0 \<le> es_write_size E1" "es_write_size E1 \<le> p_max_flush_size (es_bse E1)" using b1 Suc.prems(4) W(3) fit by simp_all
        show "lead n dnp (opt_list (Some c)) zs' E1" if "dnp \<in> set zs'"
        proof -
          have "lead (Suc n) dnp (opt_list pre) (c # zs') E" using Suc.prems(6) Cons that by simp
          moreover have "c \<noteq> dnp" using nc that by auto
          ultimately show ?thesis using lead_next[OF _ _ c1 nc] by simp
        qed
      qed
      then obtain E' ks where E': "extend_collect n dnp (case zs' of [] \<Rightarrow> None | b # bs \<Rightarrow> Some b) (Some c) E1 = Some E'"
        "run_of n dnp [c] zs' ks E1 E'" "es_got_me E1 \<Longrightarrow> es_got_me E'" by auto
      have "extend_collect (Suc n) dnp (Some c) pre E = Some E'" unfolding ev using False E1(1) E'(1) W(2) by auto
      moreover have "run_of (Suc n) dnp (opt_list pre) zs (c # ks) E E'"
        unfolding Cons by (rule run_of_step[OF Suc.prems(1) xs nf adj c1 _ E'(2,3)]) (use E1(3) in simp_all)
      ultimately show ?thesis using Cons E'(3) E1(3) by auto
    qed
  qed
qed

section \<open>Writing the run\<close>

text \<open>Every entry of the vector leads to the bytes of its node: in the pages, or in the flush buffer after the reads.\<close>

definition sources :: "bse_private \<Rightarrow> (node_addr \<Rightarrow> data_description_node) \<Rightarrow> (int \<Rightarrow> u8) \<Rightarrow> (node_addr \<times> iovec) list \<Rightarrow> bool" where
  "sources S d buf vec \<longleftrightarrow> (\<forall>(a, v) \<in> set vec. iov_len v = d_len (d a) \<and> (\<forall>j. 0 \<le> j \<and> j < d_len (d a) \<longrightarrow>
     (if fst (iov_base v) then buf else ram S) (snd (iov_base v) + j) = bytes S (d_location_disk (d a), d_pos (d a) + j)))"

lemma extend_read_spec:
  assumes "\<And>a. a \<in> set ks \<Longrightarrow> d_location_disk (dn S a) = d_location_disk (d a) \<and> d_flush_pos (dn S a) = d_pos (d a) \<and>
      d_flush_len (dn S a) = d_len (d a) \<and> 0 < d_len (d a)"
  shows "\<forall>j < b. extend_read S (vec_of d b ks) buf j = buf j" "sources S d (extend_read S (vec_of d b ks) buf) (vec_of d b ks)"
proof -
  have "(\<forall>j < b. extend_read S (vec_of d b ks) buf j = buf j) \<and> sources S d (extend_read S (vec_of d b ks) buf) (vec_of d b ks)"
    using assms
  proof (induction ks arbitrary: b buf)
    case Nil
    then show ?case by (simp add: sources_def)
  next
    case (Cons a ks)
    have a: "d_location_disk (dn S a) = d_location_disk (d a)" "d_flush_pos (dn S a) = d_pos (d a)" "d_flush_len (dn S a) = d_len (d a)" "0 < d_len (d a)"
      using Cons.prems[of a] by simp_all
    let ?buf = "if d_location_disk (d a) then mem_copy b (bufdev S) (d_pos (d a)) (d_len (d a)) buf else buf"
    let ?b = "if d_location_disk (d a) then b + d_len (d a) else b"
    let ?r = "extend_read S (vec_of d ?b ks) ?buf"
    have r: "extend_read S (vec_of d b (a # ks)) buf = ?r" by (simp add: a)
    have low: "\<forall>j < ?b. ?r j = ?buf j" and src: "sources S d ?r (vec_of d ?b ks)" using Cons by (metis list.set_intros(2))+
    have "?r j = buf j" if "j < b" for j using low that a(4) by (auto simp: mem_copy_def)
    moreover have "?r (b + j) = bufdev S (d_pos (d a) + j)" if "d_location_disk (d a)" "0 \<le> j" "j < d_len (d a)" for j
      using low that by (simp add: mem_copy_def)
    ultimately show ?case using src unfolding r by (simp add: sources_def bytes_def)
  qed
  then show "\<forall>j < b. extend_read S (vec_of d b ks) buf j = buf j" "sources S d (extend_read S (vec_of d b ks) buf) (vec_of d b ks)" by blast+
qed

lemma rw_pwritev_spec:
  assumes "sources S d buf vec" "map fst vec = ks" "contiguous d ks" "ks \<noteq> [] \<Longrightarrow> off = d_offset (d (hd ks))"
    "sorted_wrt (ends_before d) ks" "\<And>a. a \<in> set ks \<Longrightarrow> 0 < d_len (d a)"
  shows "(\<forall>a \<in> set ks. \<forall>i. covers (d a) i \<longrightarrow> rw_pwritev (ram S) buf (map snd vec) off T i = bytes S (loc (d a) i)) \<and>
    (\<forall>i. (\<forall>a \<in> set ks. \<not> covers (d a) i) \<longrightarrow> rw_pwritev (ram S) buf (map snd vec) off T i = T i)"
  using assms
proof (induction vec arbitrary: ks off T)
  case Nil
  then show ?case by simp
next
  case (Cons av vec)
  obtain a v where av: "av = (a, v)" by (cases av)
  let ?ks = "map fst vec"
  have ks: "ks = a # ?ks" using Cons.prems(2) av by simp
  have off: "off = d_offset (d a)" using Cons.prems(4) ks by simp
  have v: "iov_len v = d_len (d a)" "\<And>j. 0 \<le> j \<Longrightarrow> j < d_len (d a) \<Longrightarrow>
      (if fst (iov_base v) then buf else ram S) (snd (iov_base v) + j) = bytes S (d_location_disk (d a), d_pos (d a) + j)"
    using Cons.prems(1) av by (auto simp: sources_def)
  let ?T = "mem_copy off (if fst (iov_base v) then buf else ram S) (snd (iov_base v)) (iov_len v) T"
  let ?r = "rw_pwritev (ram S) buf (map snd vec) (off + iov_len v) ?T"
  have r: "rw_pwritev (ram S) buf (map snd (av # vec)) off T = ?r" by (simp add: av)
  have IH: "(\<forall>b \<in> set ?ks. \<forall>i. covers (d b) i \<longrightarrow> ?r i = bytes S (loc (d b) i)) \<and> (\<forall>i. (\<forall>b \<in> set ?ks. \<not> covers (d b) i) \<longrightarrow> ?r i = ?T i)"
  proof (rule Cons.IH)
    show "sources S d buf vec" using Cons.prems(1) by (simp add: sources_def)
    show "contiguous d ?ks" using Cons.prems(3) contiguous_drop[of d "[a]"] unfolding ks by simp
    show "off + iov_len v = d_offset (d (hd ?ks))" if "?ks \<noteq> []"
      using Cons.prems(3) that off v(1) unfolding ks by (cases ?ks) auto
  qed (use Cons.prems(5,6) ks in auto)
  have T: "?T i = (if covers (d a) i then bytes S (loc (d a) i) else T i)" for i
    using v(2)[of "i - d_offset (d a)"] by (auto simp: mem_copy_def off v(1) covers_def loc_def)
  have dis: "\<not> covers (d b) i" if "covers (d a) i" "b \<in> set ?ks" for b i
    using Cons.prems(5) that unfolding ks by (force simp: ends_before_def covers_def)
  show ?case unfolding r
  proof (intro conjI ballI allI impI)
    fix b i assume "b \<in> set ks" "covers (d b) i"
    then show "?r i = bytes S (loc (d b) i)" using IH T[of i] dis[of i] ks by (cases "b = a") auto
  next
    fix i assume "\<forall>b \<in> set ks. \<not> covers (d b) i"
    then show "?r i = T i" using IH T[of i] ks by auto
  qed
qed

lemma vec_of_fst [simp]: "map fst (vec_of d b ks) = ks"
  by (induction ks arbitrary: b) auto

text \<open>The flush buffer is used from its start, and no further than the size of the write.\<close>

lemma buf_after_bound:
  "(\<And>a. a \<in> set ks \<Longrightarrow> 0 < d_len (d a)) \<Longrightarrow> b \<le> buf_after d b ks \<and> buf_after d b ks \<le> b + lens d ks"
proof (induction ks arbitrary: b)
  case (Cons a ks)
  have "0 < d_len (d a)" using Cons.prems by simp
  moreover have "b \<le> buf_after d b ks \<and> buf_after d b ks \<le> b + lens d ks"
    "b + d_len (d a) \<le> buf_after d (b + d_len (d a)) ks \<and> buf_after d (b + d_len (d a)) ks \<le> b + d_len (d a) + lens d ks"
    using Cons by simp_all
  ultimately show ?case by simp
qed simp

lemma extend_read_bound:
  assumes "\<And>a. a \<in> set ks \<Longrightarrow> d_location_disk (dn S a) = d_location_disk (d a) \<and> d_flush_len (dn S a) = d_len (d a) \<and> 0 < d_len (d a)"
    "j < b \<or> buf_after d b ks \<le> j"
  shows "extend_read S (vec_of d b ks) buf j = buf j"
  using assms
proof (induction ks arbitrary: b buf)
  case (Cons a ks)
  let ?b = "if d_location_disk (d a) then b + d_len (d a) else b"
  have "b \<le> ?b" "?b \<le> buf_after d ?b ks"
    using buf_after_bound[of ks d ?b] Cons.prems(1) by (force, force)
  then have "j < ?b \<or> buf_after d ?b ks \<le> j" "d_location_disk (d a) \<Longrightarrow> j < b \<or> b + d_len (d a) \<le> j"
    using Cons.prems(2) by auto
  then show ?case using Cons.IH[of ?b] Cons.prems(1) by (auto simp: mem_copy_def)
qed simp

section \<open>The invariants after the write\<close>

lemma mark_all_inv:
  assumes inv: "bse_inv S" and k: "\<And>k. k \<in> set ks \<Longrightarrow> \<not> d_flush_done (dn S k)"
  shows "bse_inv (mark_all ks S)" "bse_at (mark_all ks S) i = bse_at S i" "total (mark_all ks S) = total S" "same_rest S (mark_all ks S)"
proof -
  let ?S = "mark_all ks S"
  have w: "weight p (dn ?S a) = weight p (dn S a)" for p a by (auto simp: weight_def)
  show t: "total ?S = total S" by (rule ext) (simp add: total_def w del: mark_all_sel(1))
  have sh: "d_offset (dn ?S a) = d_offset (dn S a)" "d_len (dn ?S a) = d_len (dn S a)" "d_where (dn ?S a) = d_where (dn S a)"
    "d_page_node (dn ?S a) = d_page_node (dn S a)" "d_parent (dn ?S a) = d_parent (dn S a)" for a by simp_all
  have "flush_lists_ok ?S" using bse_invD(1)[OF inv] unfolding books_ok_def flush_lists_ok_def sh by simp
  then have b: "books_ok ?S" using bse_invD(1)[OF inv] t unfolding books_ok_def sh by simp
  have so: "ends_before (ddn (smem ?S)) = ends_before (ddn (smem S))" by (intro ext) (simp only: ends_before_def sh)
  have "node_ok' ?S a" if "a \<in> set (p_ddn_head S)" for a
  proof -
    have "flags_ok (dn ?S a)" using node_okD(6)[OF bse_invD(3)[OF inv that]] k by (auto simp: flags_ok_def)
    then show ?thesis using bse_invD(3)[OF inv that] unfolding node_ok'_def node_wf_def sh by simp
  qed
  moreover have "bse_tree (kf ?S) (p_ddn_head S) (p_rtree ?S) (smem ?S)"
  proof -
    have "bse_tree (kf ?S) (p_ddn_head S) (p_rtree S) (smem ?S)" by (rule bse_tree_cong[OF bse_invD(4)[OF inv]]) simp_all
    then show ?thesis by simp
  qed
  ultimately show "bse_inv ?S" using b bse_invD(2)[OF inv] unfolding bse_inv_def so by simp
  have "covers (dn ?S a) i = covers (dn S a) i" "loc (dn ?S a) i = loc (dn S a) i" for a by (simp_all add: covers_def loc_def)
  then show "bse_at ?S i = bse_at S i" unfolding bse_at_def by simp
  show "same_rest S ?S" by (simp add: same_rest_def)
qed

text \<open>The run is on the device below; the other nodes lie elsewhere.\<close>

lemma mark_all_flush:
  assumes inv: "bse_inv S" and f: "flush_inv F T S" and k: "set ks \<subseteq> set (p_ddn_head S)" "\<And>k. k \<in> set ks \<Longrightarrow> \<not> d_flushed (dn S k)"
    and T: "\<And>a i. a \<in> set ks \<Longrightarrow> covers (dn S a) i \<Longrightarrow> T' i = bytes S (loc (dn S a) i)"
      "\<And>i. (\<And>a. a \<in> set ks \<Longrightarrow> \<not> covers (dn S a) i) \<Longrightarrow> T' i = T i"
  shows "flush_inv F T' (mark_all ks S)"
proof -
  let ?S = "mark_all ks S"
  have bsame: "bytes ?S = bytes S" by (rule same_bytes) (simp add: same_rest_def)
  have sh: "covers (dn ?S a) = covers (dn S a)" "loc (dn ?S a) = loc (dn S a)" for a by (intro ext; simp add: covers_def loc_def)+
  have "node_flush F T' ?S a" for a
  proof (cases "a \<in> set ks")
    case True
    then have a: "a \<in> set (p_ddn_head S)" using k(1) by auto
    have "on_target T' ?S (dn ?S a)" unfolding on_target_def sh bsame using T(1)[OF True] by blast
    then show ?thesis using True a flush_invD(3-6,8,11)[OF f, of a] unfolding node_flush_def Let_def by (simp add: fx_ok_def)
  next
    case False
    have d: "dn ?S a = dn S a" using False by simp
    have "on_target T' S (dn S a)" if a: "a \<in> set (p_ddn_head S)" "d_flushed (dn S a)"
    proof -
      have "T' i = bytes S (loc (dn S a) i)" if i: "covers (dn S a) i" for i
      proof -
        have "\<not> covers (dn S b) i" if "b \<in> set ks" for b
          using covers_unique[OF bse_invD(2)[OF inv], of b a i] that k(1) a(1) i False by blast
        then show ?thesis using T(2) flush_invD(2)[OF f a] i by (simp add: on_target_def)
      qed
      then show ?thesis by (simp add: on_target_def)
    qed
    moreover have "on_target T' ?S (dn S a) = on_target T' S (dn S a)" by (simp only: on_target_def bsame)
    moreover have "node_flush F T S a" using f by (simp add: flush_inv_def)
    ultimately show ?thesis unfolding node_flush_def Let_def d by simp
  qed
  then show ?thesis using f by (simp add: flush_inv_def)
qed

section \<open>The whole request\<close>

lemma list_waiting_inv:
  assumes "bse_inv S" "flush_inv F T S"
  shows "list_waiting S"
  using bse_distinct[OF assms(1)] node_okD(3,6)[OF bse_invD(3)[OF assms(1)]] flush_invD(1,8,9)[OF assms(2)]
  by (simp add: list_waiting_def waiting_def)

text \<open>The run that is found around a node.\<close>

lemma extend_run:
  assumes w: "list_waiting S" and a: "a \<in> set (p_ddn_head S)" "d_flushing (dn S a)" "\<not> d_flushed (dn S a)"
    and E: "es_bse E = S" "es_write_size E = 0"
  obtains low ws zs E' ks where
    "bse_contiguous_low_bound a (BFE_MAX_IOV - 1) (s32_of (p_max_flush_size S - d_flush_len (dn S a))) S = Some low"
    "p_ddn_head S = ws @ zs" "zs \<noteq> []" "low = hd zs" "extend_collect BFE_MAX_IOV a (Some low) None E = Some E'" "run_of BFE_MAX_IOV a [] zs ks E E'" "a \<in> set zs"
proof -
  let ?d = "ddn (smem S)" let ?m = "p_max_flush_size S"
  obtain us vs where xs: "p_ddn_head S = us @ a # vs" using split_list[OF a(1)] by blast
  have tw: "takeWhile (\<lambda>y. y \<noteq> a) (p_ddn_head S) = us" using w xs by (auto simp: list_waiting_def takeWhile_append)
  note D = list_waitingD[OF w]
  have la: "d_flush_len (dn S a) = d_len (dn S a)" "0 < d_len (dn S a)" "d_len (dn S a) < ?m" using waitingD[OF D(1)[OF a(1)]] a by simp_all
  let ?ms = "s32_of (?m - d_flush_len (dn S a))"
  have ms: "?ms = ?m - d_len (dn S a)" using la D(2,3)[OF a(1)] by simp
  have "\<exists>rs rest. rev us = rs @ rest \<and> low_bound_walk ?d (BFE_MAX_IOV - 1) ?ms ?ms a (rev us) = last (a # rs) \<and> contiguous ?d (rev rs @ [a]) \<and>
    (\<forall>r \<in> set rs. \<not> d_flushed (?d r)) \<and> length rs \<le> BFE_MAX_IOV - 1 \<and> (?ms \<noteq> 0 \<longrightarrow> lens ?d rs \<le> ?ms)"
    by (rule low_bound_walk_spec[where m = ?m]) (use D xs a(3) ms la D(3)[OF a(1)] in auto)
  then obtain rs rest where r: "rev us = rs @ rest" "low_bound_walk ?d (BFE_MAX_IOV - 1) ?ms ?ms a (rev us) = last (a # rs)" "contiguous ?d (rev rs @ [a])"
    "\<forall>r \<in> set rs. \<not> d_flushed (?d r)" "length rs \<le> BFE_MAX_IOV - 1" "lens ?d rs \<le> ?ms" using ms la by auto
  have us: "us = rev rest @ rev rs" using r(1) by (metis rev_append rev_rev_ident)
  define zs where "zs = rev rs @ a # vs"
  have zx: "p_ddn_head S = rev rest @ zs" using xs us by (simp add: zs_def)
  have low: "last (a # rs) = hd zs" by (cases rs rule: rev_cases) (simp_all add: zs_def)
  have lb: "bse_contiguous_low_bound a (BFE_MAX_IOV - 1) ?ms S = Some (hd zs)"
    unfolding bse_contiguous_low_bound_def tw using a r(2) low by simp
  have "lead BFE_MAX_IOV a (opt_list None) zs E"
    unfolding lead_def using r(3-6) ms a(3) E by (intro exI[of _ "rev rs"] exI[of _ vs]) (auto simp: zs_def BFE_MAX_IOV_def)
  then obtain E' ks where e: "extend_collect BFE_MAX_IOV a (case zs of [] \<Rightarrow> None | b # bs \<Rightarrow> Some b) None E = Some E'"
    "run_of BFE_MAX_IOV a (opt_list None) zs ks E E'"
    using extend_collect_spec[of E "rev rest" zs None a BFE_MAX_IOV] w zx E D(2)[OF a(1)] by auto
  have zn: "zs \<noteq> []" by (simp add: zs_def)
  have "(case zs of [] \<Rightarrow> None | b # bs \<Rightarrow> Some b) = Some (hd zs)" using zn by (cases zs) simp_all
  then show ?thesis using that[OF lb zx zn refl] e by (simp add: zs_def)
qed

definition same_flush :: "bfe_private \<Rightarrow> bfe_private \<Rightarrow> bool" where
  "same_flush B B' \<longleftrightarrow> fpage B' = fpage B \<and> p_flush_page_head B' = p_flush_page_head B \<and> p_flush_page_counter B' = p_flush_page_counter B \<and>
     p_seq_to_flush B' = p_seq_to_flush B \<and> p_last_seq_flushed B' = p_last_seq_flushed B \<and> p_seq_updated B' = p_seq_updated B \<and>
     p_ssd_mode B' = p_ssd_mode B \<and> p_stop B' = p_stop B \<and> wc_flush_updates B' = wc_flush_updates B \<and> p_bre B' = p_bre B"

lemma extend_write_request_spec:
  assumes inv: "bse_inv (fb B)" and f: "flush_inv F (target B) (fb B)" and a: "a \<in> snd F" "\<not> d_flushed (dn (fb B) a)"
  obtains B' ks where "extend_write_request a B = Some B'" "fb B' = mark_all ks (fb B)" "a \<in> set ks" "set ks \<subseteq> set (p_ddn_head (fb B))"
    "\<And>k. k \<in> set ks \<Longrightarrow> \<not> d_flushed (dn (fb B) k)" "contiguous (ddn (smem (fb B))) ks" "length ks \<le> BFE_MAX_IOV"
    "lens (ddn (smem (fb B))) ks \<le> p_max_flush_size (fb B)"
    "\<And>k i. k \<in> set ks \<Longrightarrow> covers (dn (fb B) k) i \<Longrightarrow> target B' i = bytes (fb B) (loc (dn (fb B) k) i)"
    "\<And>i. (\<And>k. k \<in> set ks \<Longrightarrow> \<not> covers (dn (fb B) k) i) \<Longrightarrow> target B' i = target B i"
    "\<And>j. j < 0 \<or> p_max_flush_size (fb B) \<le> j \<Longrightarrow> p_flush_buffer B' j = p_flush_buffer B j" "same_flush B B'"
proof -
  let ?S = "fb B" let ?d = "ddn (smem ?S)"
  note w = list_waiting_inv[OF inv f]
  have al: "a \<in> set (p_ddn_head ?S)" "d_flushing (dn ?S a)" using flush_invD(4)[OF f a(1)] a(2) by auto
  let ?E = "\<lparr>es_bse = ?S, es_vec = [], es_got_me = False, es_write_size = 0, es_data_buf = 0, es_coalesce = p_coalesce_flush_counter B\<rparr>"
  obtain low ws zs E' ks where e:
    "bse_contiguous_low_bound a (BFE_MAX_IOV - 1) (s32_of (p_max_flush_size ?S - d_flush_len (dn ?S a))) ?S = Some low"
    "p_ddn_head ?S = ws @ zs" "zs \<noteq> []" "low = hd zs" "extend_collect BFE_MAX_IOV a (Some low) None ?E = Some E'"
    "run_of BFE_MAX_IOV a [] zs ks ?E E'" "a \<in> set zs"
    by (rule extend_run[OF w al(1,2) a(2), of ?E]) auto
  have r: "\<exists>rest. zs = ks @ rest" "contiguous ?d ks" "\<And>k. k \<in> set ks \<Longrightarrow> \<not> d_flushed (dn ?S k)" "es_write_size E' \<le> p_max_flush_size ?S"
    "length ks \<le> BFE_MAX_IOV" "a \<in> set ks" "es_got_me E'" and c: "collected ks ?E E'" using e(6,7) by (auto simp: run_of_def)
  have b: "es_bse E' = mark_all ks ?S" "es_vec E' = vec_of ?d 0 ks" "es_write_size E' = lens ?d ks" using c by (simp_all add: collected_def)
  obtain rest where rest: "zs = ks @ rest" using r(1) by blast
  have sub: "set ks \<subseteq> set (p_ddn_head ?S)" using rest e(2) by auto
  have lk: "low = hd ks" "ks \<noteq> []" using e(4) rest r(6) by (cases ks; simp)+
  have so: "sorted_wrt (ends_before ?d) ks" using bse_invD(2)[OF inv] e(2) rest by (simp add: sorted_wrt_append)
  have pos: "0 < d_len (dn ?S k)" if "k \<in> set ks" for k using that sub node_okD(3)[OF bse_invD(3)[OF inv]] by auto
  let ?S' = "mark_all ks ?S" let ?buf = "extend_read ?S' (vec_of ?d 0 ks) (p_flush_buffer B)"
  have m: "k \<in> set ks \<Longrightarrow> d_location_disk (dn ?S' k) = d_location_disk (dn ?S k) \<and> d_flush_pos (dn ?S' k) = d_pos (dn ?S k) \<and>
      d_flush_len (dn ?S' k) = d_len (dn ?S k) \<and> 0 < d_len (dn ?S k)" for k using pos by simp
  have src: "sources ?S' ?d ?buf (vec_of ?d 0 ks)" by (rule extend_read_spec(2)[OF m])
  have bsame: "bytes ?S' = bytes ?S" by (rule same_bytes) (simp add: same_rest_def)
  let ?T = "rw_pwritev (ram ?S') ?buf (map snd (vec_of ?d 0 ks)) (d_offset (dn ?S low)) (target B)"
  have T: "(\<forall>k \<in> set ks. \<forall>i. covers (dn ?S k) i \<longrightarrow> ?T i = bytes ?S' (loc (dn ?S k) i)) \<and>
    (\<forall>i. (\<forall>k \<in> set ks. \<not> covers (dn ?S k) i) \<longrightarrow> ?T i = target B i)"
    by (rule rw_pwritev_spec[OF src vec_of_fst r(2) _ so]) (use lk pos in simp_all)
  have m0: "p_max_flush_size ?S \<noteq> 0" using list_waitingD(2)[OF w al(1)] by simp
  have "d_flush_offset (dn ?S' low) = d_offset (dn ?S low)" using lk by simp
  then obtain B' where B': "extend_write_request a B = Some B'" "fb B' = ?S'" "target B' = ?T" "p_flush_buffer B' = ?buf" "same_flush B B'"
    using a(2) e(1,5) r(7) m0 by (simp add: extend_write_request_def Let_def b same_flush_def)
  have bb: "p_flush_buffer B' j = p_flush_buffer B j" if "j < 0 \<or> p_max_flush_size ?S \<le> j" for j
    unfolding B'(4) using that buf_after_bound[of ks ?d 0] pos r(4) b(3) m by (intro extend_read_bound) auto
  show ?thesis
    by (rule that[OF B'(1,2) r(6) sub r(3) r(2) r(5) _ _ _ bb B'(5)]) (use T r(4) b(3) in \<open>auto simp: B'(3) bsame\<close>)
qed

end
