(* ===== verification/Bse_Walk.thy ===== *)
theory Bse_Walk
  imports Bse_Find
begin

text \<open>
  Reading a range. The code treats the first, the middle and the last of the nodes that overlap the range in
  separate branches; \<open>walk_range\<close> is one loop over the nodes that reports each gap and fills in each node's part, and the
  two agree.
\<close>

fun walk_range :: "(node_addr \<Rightarrow> data_description_node) \<Rightarrow> int \<Rightarrow> int \<Rightarrow> int \<Rightarrow> int \<Rightarrow> node_addr list \<Rightarrow> bse_search_state \<Rightarrow> bse_search_state option" where
  "walk_range d sbuf soffset e pos [] R =
     Some (if pos \<le> e then sr_not_found (sbuf + (pos - soffset)) pos (e + 1 - pos) R else R)"
| "walk_range d sbuf soffset e pos (m # ms) R =
     (let R = (if pos < d_offset (d m) then sr_not_found (sbuf + (pos - soffset)) pos (d_offset (d m) - pos) R else R);
          s = max pos (d_offset (d m));
          t = min (e + 1) (d_offset (d m) + d_len (d m))
      in do {
        R \<leftarrow> fill_buffer_content (sbuf + (s - soffset)) (d_pos (d m) + (s - d_offset (d m))) (t - s) m R;
        walk_range d sbuf soffset e t ms R
      })"

definition same_extent :: "data_description_node \<Rightarrow> data_description_node \<Rightarrow> bool" where
  "same_extent x y \<longleftrightarrow> d_offset y = d_offset x \<and> d_len y = d_len x \<and> d_pos y = d_pos x \<and> d_location_disk y = d_location_disk x"

definition agree :: "(node_addr \<Rightarrow> data_description_node) \<Rightarrow> bse_search_state \<Rightarrow> bool" where
  "agree d R \<longleftrightarrow> (\<forall>b. same_extent (d b) (dn (ss_bse R) b))"

lemma agreeD:
  assumes "agree d R"
  shows "d_offset (dn (ss_bse R) b) = d_offset (d b)" "d_len (dn (ss_bse R) b) = d_len (d b)" "d_pos (dn (ss_bse R) b) = d_pos (d b)"
    "d_location_disk (dn (ss_bse R) b) = d_location_disk (d b)" "node_end (dn (ss_bse R) b) = node_end (d b)"
  using assms by (simp_all add: agree_def same_extent_def node_end_def)

lemma agree_not_found [simp]: "agree d (sr_not_found buf off len R) = agree d R"
  by (simp add: agree_def sr_not_found_def)

lemma agree_fill: "fill_buffer_content dest src sz np R = Some R' \<Longrightarrow> agree d R \<Longrightarrow> agree d R'"
proof (cases "d_location_disk (dn (ss_bse R) np)")
  case True
  assume "fill_buffer_content dest src sz np R = Some R'" "agree d R"
  moreover have "ss_bse R' = dn_upd np (\<lambda>x. x\<lparr>d_user_counter := d_user_counter x + 1\<rparr>) (ss_bse R)"
    using True calculation(1) by (cases "length (ss_to_read R) < BSE_MAX_TO_READ_DDN") (auto simp: fill_buffer_content_def Let_def)
  ultimately show "agree d R'" by (simp add: agree_def same_extent_def)
next
  case False
  assume "fill_buffer_content dest src sz np R = Some R'" "agree d R"
  moreover have "ss_bse R' = ss_bse R" using False calculation(1) by (auto simp: fill_buffer_content_def Let_def)
  ultimately show "agree d R'" by (simp add: agree_def)
qed

lemma walk_nil:
  "e < pos \<Longrightarrow> walk_range d sbuf soffset e pos [] = Some"
  "pos \<le> e \<Longrightarrow> walk_range d sbuf soffset e pos [] = (\<lambda>R. Some (sr_not_found (sbuf + (pos - soffset)) pos (e + 1 - pos) R))"
  by (simp_all add: fun_eq_iff)

lemma bind_fill_cong:
  assumes "agree d R" "\<And>R'. agree d R' \<Longrightarrow> f R' = g R'"
  shows "Option.bind (fill_buffer_content dest src sz np R) f = Option.bind (fill_buffer_content dest src sz np R) g"
  using assms agree_fill by (cases "fill_buffer_content dest src sz np R") auto

text \<open>The end of \<open>__bse_search_range\<close> for several nodes.\<close>

definition search_last :: "int \<Rightarrow> int \<Rightarrow> int \<Rightarrow> node_addr \<Rightarrow> bse_search_state \<Rightarrow> bse_search_state option" where
  "search_last sbuf slen soffset last_np R =
     (let lst = dn (ss_bse R) last_np; sub_len = u32_of (d_offset lst - soffset) in
      if soffset + slen - 1 \<le> node_end lst then
        fill_buffer_content (sbuf + sub_len) (d_pos lst) (u32_of (slen - sub_len)) last_np R
      else do {
        R \<leftarrow> fill_buffer_content (sbuf + sub_len) (d_pos lst) (d_len lst) last_np R;
        let sub_len = u32_of (sub_len + d_len lst);
        Some (sr_not_found (sbuf + sub_len) (soffset + sub_len) (u32_of (slen - sub_len)) R)
      })"

lemma search_last_walk:
  assumes "agree d R" "pos \<le> d_offset (d z)" "soffset \<le> pos" "d_offset (d z) \<le> e" "e = soffset + slen - 1" "slen < 2 ^ 32" "0 < d_len (d z)"
    "\<not> pos < d_offset (d z)"
  shows "search_last sbuf slen soffset z R = walk_range d sbuf soffset e pos [z] R"
proof -
  note a = agreeD[OF assms(1)]
  let ?o = "d_offset (d z)"
  have pos: "pos = ?o" using assms by simp
  have u: "u32_of (?o - soffset) = ?o - soffset" using assms by (intro u32_of_id) linarith+
  have w: "walk_range d sbuf soffset e pos [z] R =
      Option.bind (fill_buffer_content (sbuf + (?o - soffset)) (d_pos (d z)) (min (e + 1) (?o + d_len (d z)) - ?o) z R)
        (walk_range d sbuf soffset e (min (e + 1) (?o + d_len (d z))) [])"
    using pos by (simp add: Let_def del: walk_range.simps(1))
  show ?thesis
  proof (cases "e \<le> node_end (d z)")
    case True
    then have t: "min (e + 1) (?o + d_len (d z)) = e + 1" by (simp add: node_end_def)
    have "u32_of (slen - (?o - soffset)) = e + 1 - ?o" using assms by (subst u32_of_id) linarith+
    then show ?thesis using True u assms(5) unfolding w t by (simp add: search_last_def Let_def a walk_nil del: walk_range.simps(1))
  next
    case False
    then have t: "min (e + 1) (?o + d_len (d z)) = ?o + d_len (d z)" "?o + d_len (d z) \<le> e" by (simp_all add: node_end_def)
    have u2: "u32_of (?o - soffset + d_len (d z)) = ?o + d_len (d z) - soffset"
      "u32_of (slen - (?o + d_len (d z) - soffset)) = e + 1 - (?o + d_len (d z))"
      using assms t(2) by (subst u32_of_id; linarith)+
    then show ?thesis using False t(2) u assms(5) unfolding w t(1) by (simp add: search_last_def Let_def a walk_nil del: walk_range.simps(1))
  qed
qed

lemma search_middle_walk:
  assumes "agree d R" "sorted_wrt (ends_before d) (ms @ [z])" "\<forall>m \<in> set (ms @ [z]). pos \<le> d_offset (d m) \<and> 0 < d_len (d m)"
    "soffset \<le> pos" "d_offset (d z) \<le> e" "e = soffset + slen - 1" "slen < 2 ^ 32"
  shows "Option.bind (bse_search_middle sbuf soffset (pos - 1) (ms @ [z]) R) (search_last sbuf slen soffset z) =
    walk_range d sbuf soffset e pos (ms @ [z]) R"
  using assms
proof (induction ms arbitrary: R pos)
  case Nil
  let ?o = "d_offset (d z)"
  define R1 where "R1 = (if pos < ?o then sr_not_found (sbuf + (pos - soffset)) pos (?o - pos) R else R)"
  have u: "u32_of (?o - pos) = ?o - pos" using Nil by (intro u32_of_id) simp_all
  have "bse_search_middle sbuf soffset (pos - 1) [z] R = Some R1"
    using u agreeD[OF Nil.prems(1)] by (simp add: R1_def Let_def)
  moreover have "search_last sbuf slen soffset z R1 = walk_range d sbuf soffset e ?o [z] R1"
    using Nil by (intro search_last_walk) (simp_all add: R1_def)
  moreover have "walk_range d sbuf soffset e ?o [z] R1 = walk_range d sbuf soffset e pos [z] R"
    using Nil by (simp add: R1_def Let_def max_absorb2 del: walk_range.simps(1))
  ultimately show ?case by simp
next
  case (Cons m ms)
  let ?o = "d_offset (d m)" let ?l = "d_len (d m)"
  define R1 where "R1 = (if pos < ?o then sr_not_found (sbuf + (pos - soffset)) pos (?o - pos) R else R)"
  have mz: "ends_before d m b" if "b \<in> set (ms @ [z])" for b using Cons.prems(2) that by auto
  have o: "pos \<le> ?o" "0 < ?l" "?o + ?l \<le> e" using Cons.prems(3,5) mz[of z] by (auto simp: ends_before_def)
  have u: "u32_of (?o - pos) = ?o - pos" using Cons.prems o by (intro u32_of_id) linarith+
  have a1: "agree d R1" using Cons.prems(1) by (simp add: R1_def)
  note a = agreeD[OF Cons.prems(1)] agreeD[OF a1]
  have t: "min (e + 1) (?o + ?l) = ?o + ?l" "max pos ?o = ?o" using o by simp_all
  have ne: "ms @ [z] \<noteq> []" by simp
  have l: "bse_search_middle sbuf soffset (pos - 1) ((m # ms) @ [z]) R =
      Option.bind (fill_buffer_content (sbuf + (?o - soffset)) (d_pos (d m)) ?l m R1) (bse_search_middle sbuf soffset (?o + ?l - 1) (ms @ [z]))"
    using u o(1) ne by (simp add: R1_def Let_def a node_end_def)
  have w: "walk_range d sbuf soffset e pos ((m # ms) @ [z]) R =
      Option.bind (fill_buffer_content (sbuf + (?o - soffset)) (d_pos (d m)) ?l m R1) (walk_range d sbuf soffset e (?o + ?l) (ms @ [z]))"
    using t by (simp add: R1_def Let_def)
  have "Option.bind (bse_search_middle sbuf soffset (?o + ?l - 1) (ms @ [z]) R') (search_last sbuf slen soffset z) =
      walk_range d sbuf soffset e (?o + ?l) (ms @ [z]) R'" if "agree d R'" for R'
    by (rule Cons.IH[OF that]) (use Cons.prems mz o in \<open>auto simp: ends_before_def\<close>)
  then show ?case unfolding l w bind_assoc by (rule bind_fill_cong[OF a1])
qed

lemma search_one_walk:
  assumes ag: "agree d R" and e: "e = soffset + slen - 1" and len: "slen < 2 ^ 32"
    and a: "soffset \<le> node_end (d a)" "d_offset (d a) \<le> e" "0 < d_len (d a)"
  shows "bse_search_one sbuf slen soffset a R = walk_range d sbuf soffset e soffset [a] R"
proof (cases "soffset < d_offset (d a)")
  case True
  let ?o = "d_offset (d a)"
  let ?R = "sr_not_found sbuf soffset (?o - soffset) R"
  have u: "u32_of (?o - soffset) = ?o - soffset" using assms True by (intro u32_of_id) linarith+
  have ag': "agree d ?R" using ag by simp
  have "bse_search_one sbuf slen soffset a R = search_last sbuf slen soffset a ?R"
    using True a(2) e u by (auto simp: bse_search_one_def search_last_def Let_def agreeD[OF ag] agreeD[OF ag'])
  also have "\<dots> = walk_range d sbuf soffset e ?o [a] ?R"
    using assms True by (intro search_last_walk) simp_all
  also have "\<dots> = walk_range d sbuf soffset e soffset [a] R" using True by (simp add: Let_def del: walk_range.simps(1))
  finally show ?thesis .
next
  case False
  let ?o = "d_offset (d a)" let ?t = "?o + d_len (d a)"
  have w: "walk_range d sbuf soffset e soffset [a] R =
      Option.bind (fill_buffer_content sbuf (d_pos (d a) + (soffset - ?o)) (min (e + 1) ?t - soffset) a R)
        (walk_range d sbuf soffset e (min (e + 1) ?t) [])"
    using False by (simp add: Let_def del: walk_range.simps(1))
  show ?thesis
  proof (cases "e \<le> node_end (d a)")
    case True
    then have t: "min (e + 1) ?t = e + 1" by (simp add: node_end_def)
    show ?thesis using True False e unfolding w t
      by (simp add: bse_search_one_def Let_def agreeD[OF ag] walk_nil del: walk_range.simps(1))
  next
    case nt: False
    then have t: "min (e + 1) ?t = ?t" "?t \<le> e" by (simp_all add: node_end_def)
    have u: "u32_of (?t - soffset) = ?t - soffset" "u32_of (slen - (?t - soffset)) = e + 1 - ?t"
      using assms t(2) by (subst u32_of_id; simp add: node_end_def)+
    show ?thesis using nt False e u t(2) unfolding w t(1)
      by (simp add: bse_search_one_def Let_def agreeD[OF ag] walk_nil node_end_def del: walk_range.simps(1))
  qed
qed

lemma search_many_walk:
  assumes ag: "agree d R" and e: "e = soffset + slen - 1" and len: "slen < 2 ^ 32"
    and so: "sorted_wrt (ends_before d) (a # ms @ [z])" and pos: "\<forall>m \<in> set (a # ms @ [z]). 0 < d_len (d m)"
    and a: "soffset \<le> node_end (d a)" and z: "d_offset (d z) \<le> e" and al: "d_len (d a) < 2 ^ 32"
  shows "bse_search_many sbuf slen soffset a (ms @ [z]) R = walk_range d sbuf soffset e soffset (a # ms @ [z]) R"
proof -
  let ?o = "d_offset (d a)" let ?t = "?o + d_len (d a)"
  have az: "ends_before d a b" if "b \<in> set (ms @ [z])" for b using so that by auto
  have t: "?t \<le> e" "soffset \<le> ?t" using az[of z] z a by (simp_all add: ends_before_def node_end_def)
  define s where "s = max soffset ?o"
  define R1 where "R1 = (if soffset < ?o then sr_not_found sbuf soffset (?o - soffset) R else R)"
  have ag1: "agree d R1" using ag by (simp add: R1_def)
  have w: "walk_range d sbuf soffset e soffset (a # ms @ [z]) R =
      Option.bind (fill_buffer_content (sbuf + (s - soffset)) (d_pos (d a) + (s - ?o)) (?t - s) a R1) (walk_range d sbuf soffset e ?t (ms @ [z]))"
    using t by (simp add: Let_def R1_def s_def)
  have u: "soffset < ?o \<Longrightarrow> u32_of (?o - soffset) = ?o - soffset" "\<not> soffset < ?o \<Longrightarrow> u32_of (soffset - ?o) = soffset - ?o"
    "\<not> soffset < ?o \<Longrightarrow> u32_of (d_len (d a) - (soffset - ?o)) = ?t - soffset"
    using t e len al pos by (subst u32_of_id; simp)+
  have f: "(if soffset < d_offset (dn (ss_bse R) a)
      then fill_buffer_content (sbuf + u32_of (d_offset (dn (ss_bse R) a) - soffset)) (d_pos (dn (ss_bse R) a)) (d_len (dn (ss_bse R) a)) a
        (sr_not_found sbuf soffset (u32_of (d_offset (dn (ss_bse R) a) - soffset)) R)
      else fill_buffer_content sbuf (d_pos (dn (ss_bse R) a) + u32_of (soffset - d_offset (dn (ss_bse R) a)))
        (u32_of (d_len (dn (ss_bse R) a) - u32_of (soffset - d_offset (dn (ss_bse R) a)))) a R) =
      fill_buffer_content (sbuf + (s - soffset)) (d_pos (d a) + (s - ?o)) (?t - s) a R1"
    using u by (simp add: agreeD[OF ag] s_def R1_def)
  have "bse_search_many sbuf slen soffset a (ms @ [z]) R =
      Option.bind (fill_buffer_content (sbuf + (s - soffset)) (d_pos (d a) + (s - ?o)) (?t - s) a R1)
        (\<lambda>R. Option.bind (bse_search_middle sbuf soffset (node_end (dn (ss_bse R0) a)) (ms @ [z]) R) (search_last sbuf slen soffset z))"
    if "R0 = R" for R0
    unfolding f[symmetric] that search_last_def bse_search_many_def Let_def by (simp only: last_snoc)
  then have "bse_search_many sbuf slen soffset a (ms @ [z]) R =
      Option.bind (fill_buffer_content (sbuf + (s - soffset)) (d_pos (d a) + (s - ?o)) (?t - s) a R1)
        (\<lambda>R. Option.bind (bse_search_middle sbuf soffset (?t - 1) (ms @ [z]) R) (search_last sbuf slen soffset z))"
    by (simp add: agreeD[OF ag] node_end_def)
  also have "\<dots> = walk_range d sbuf soffset e soffset (a # ms @ [z]) R" unfolding w
  proof (rule bind_fill_cong[OF ag1])
    show "Option.bind (bse_search_middle sbuf soffset (?t - 1) (ms @ [z]) R') (search_last sbuf slen soffset z) =
        walk_range d sbuf soffset e ?t (ms @ [z]) R'" if "agree d R'" for R'
      by (rule search_middle_walk[OF that]) (use so pos az z e len t in \<open>auto simp: ends_before_def\<close>)
  qed
  finally show ?thesis .
qed

section \<open>A range through the index\<close>

definition overlapping :: "int \<Rightarrow> int \<Rightarrow> bse_private \<Rightarrow> node_addr list" where
  "overlapping off e S = filter (\<lambda>a. off \<le> node_end (dn S a) \<and> d_offset (dn S a) \<le> e) (p_ddn_head S)"

lemma around_overlapping:
  assumes "around off e us ms vs S"
  shows "overlapping off e S = ms"
proof -
  have "filter (\<lambda>a. off \<le> node_end (dn S a) \<and> d_offset (dn S a) \<le> e) us = []"
    "filter (\<lambda>a. off \<le> node_end (dn S a) \<and> d_offset (dn S a) \<le> e) vs = []"
    "filter (\<lambda>a. off \<le> node_end (dn S a) \<and> d_offset (dn S a) \<le> e) ms = ms"
    using assms by (auto simp: around_def filter_empty_conv filter_id_conv)
  then show ?thesis using assms by (simp add: overlapping_def around_def)
qed

lemma at_overlapping:
  assumes "off \<le> i" "i \<le> e"
  shows "at_nodes (ddn (smem S)) (overlapping off e S) i = bse_at S i"
proof -
  have "at_nodes d (filter (\<lambda>a. off \<le> node_end (d a) \<and> d_offset (d a) \<le> e) xs) i = at_nodes d xs i" for xs d
    using assms by (induction xs) (auto simp: covers_def node_end_def)
  then show ?thesis by (simp add: overlapping_def bse_at_nodes)
qed

text \<open>States with the same nodes in the same places are searched alike.\<close>

definition same_places :: "bse_private \<Rightarrow> bse_private \<Rightarrow> bool" where
  "same_places S S' \<longleftrightarrow> p_rtree S' = p_rtree S \<and> p_ddn_head S' = p_ddn_head S \<and> btn (smem S') = btn (smem S) \<and>
     (\<forall>b. same_extent (dn S b) (dn S' b))"

lemma bse_overlap_cong:
  assumes "same_places S S'"
  shows "bse_overlap off e S' = bse_overlap off e S"
proof -
  have e: "d_offset (dn S' b) = d_offset (dn S b)" "node_end (dn S' b) = node_end (dn S b)" for b
    using assms by (simp_all add: same_places_def same_extent_def node_end_def)
  have p: "p_rtree S' = p_rtree S" "p_ddn_head S' = p_ddn_head S" "btn (smem S') = btn (smem S)" using assms by (simp_all add: same_places_def)
  have w: "bse_walk_back S' off n = bse_walk_back S off n" for n by (induction n) (simp_all add: e p)
  have s: "bse_scan (ddn (smem S')) off e xs cur pre b = bse_scan (ddn (smem S)) off e xs cur pre b" for xs cur pre b
    by (induction xs arbitrary: cur pre b) (simp_all add: e)
  have "bse_search_pre_node off S' = bse_search_pre_node off S" by (simp add: bse_search_pre_node_def e p w del: bse_walk_back.simps)
  then show ?thesis by (simp add: bse_overlap_def p s)
qed

lemma bse_search_range_walk:
  assumes inv: "bse_inv S" and R: "same_places S (ss_bse R)" and safe: "search_safe soffset S"
    and off: "0 \<le> soffset" "soffset < 2 ^ 62" and len: "0 < slen" "slen < 2 ^ 32" and e: "e = soffset + slen - 1"
  shows "bse_search_range sbuf slen soffset R = walk_range (ddn (smem S)) sbuf soffset e soffset (overlapping soffset e S) R"
proof -
  obtain us ms vs where ov: "bse_overlap soffset e S = Some (length us, length us + length ms)" and A: "around soffset e us ms vs S"
    by (rule bse_overlap_spec[OF inv off safe])
  have ov': "bse_overlap soffset (soffset + slen - 1) (ss_bse R) = Some (length us, length us + length ms)"
    using ov bse_overlap_cong[OF R] e by simp
  have xs: "p_ddn_head S = us @ ms @ vs" using A by (simp add: around_def)
  have "take (length us + length ms - length us) (drop (length us) (p_ddn_head (ss_bse R))) = ms" using xs R by (simp add: same_places_def)
  note ev = bse_search_range_def[of sbuf slen soffset R, unfolded ov' Option.bind.bind_lunit prod.case this]
  have ag: "agree (ddn (smem S)) R" using R by (simp add: same_places_def agree_def)
  have so: "sorted_wrt (ends_before (ddn (smem S))) ms" using bse_invD(2)[OF inv] xs by (simp add: sorted_wrt_append)
  have ok: "node_ok' S m" if "m \<in> set ms" for m using bse_invD(3)[OF inv] that xs by simp
  have pos: "0 < d_len (dn S m)" "d_len (dn S m) < 2 ^ 32" if "m \<in> set ms" for m using node_okD(3,4)[OF ok[OF that]] by simp_all
  have m: "soffset \<le> node_end (dn S m)" "d_offset (dn S m) \<le> e" if "m \<in> set ms" for m using A that by (simp_all add: around_def)
  consider (none) "ms = []" | (one) a where "ms = [a]" | (many) a bs z where "ms = a # bs @ [z]"
    by (cases ms; cases "tl ms" rule: rev_cases) auto
  then have "bse_search_range sbuf slen soffset R = walk_range (ddn (smem S)) sbuf soffset e soffset ms R"
  proof cases
    case none
    then show ?thesis using ev e len by simp
  next
    case one
    then show ?thesis using ev search_one_walk[OF ag e len(2)] m pos by simp
  next
    case many
    obtain b cs where bs: "bs @ [z] = b # cs" by (cases "bs @ [z]") auto
    have "bse_search_range sbuf slen soffset R = bse_search_many sbuf slen soffset a (bs @ [z]) R" unfolding ev many bs list.case ..
    also have "\<dots> = walk_range (ddn (smem S)) sbuf soffset e soffset (a # bs @ [z]) R"
      by (rule search_many_walk[OF ag e len(2)]) (use so m pos many in auto)
    finally show ?thesis by (simp only: many)
  qed
  then show ?thesis using around_overlapping[OF A] by simp
qed

end
