(* ===== verification/Bse_Read.thy ===== *)
theory Bse_Read
  imports Bse_Walk
begin

text \<open>
  What a read returns: the bytes of the cache for the offsets that it holds, and a list of the gaps.
\<close>

section \<open>The bytes of the cache\<close>

definition cached :: "bse_private \<Rightarrow> int \<Rightarrow> u8 option" where
  "cached S i = map_option (bytes S) (bse_at S i)"

text \<open>The response memory once the reads from the buffer device have been made.\<close>

definition fin :: "bse_private \<Rightarrow> to_read list \<Rightarrow> (int \<Rightarrow> u8) \<Rightarrow> int \<Rightarrow> u8" where
  "fin S rs m = fold (\<lambda>r. mem_copy (to_read_databuf r) (bufdev S) (to_read_offset r) (to_read_size r)) rs m"

definition count_up :: "node_addr \<Rightarrow> bse_private \<Rightarrow> bse_private" where
  "count_up a = dn_upd a (\<lambda>x. x\<lparr>d_user_counter := d_user_counter x + 1\<rparr>)"

definition bump :: "to_read list \<Rightarrow> bse_private \<Rightarrow> bse_private" where
  "bump rs S = fold (\<lambda>r. count_up (to_read_ddn r)) rs S"

lemma count_up_commute: "count_up a (count_up b S) = count_up b (count_up a S)"
  by (cases "a = b") (simp_all add: count_up_def dn_upd_def fun_upd_twist)

lemma bump_simps [simp]:
  "bump [] S = S" "bump (rs @ ts) S = bump ts (bump rs S)"
  by (simp_all add: bump_def)

lemma bump_Cons: "bump (r # rs) S = count_up (to_read_ddn r) (bump rs S)"
proof (induction rs arbitrary: S)
  case (Cons q rs)
  then show ?case by (simp add: bump_def count_up_commute[of "to_read_ddn q" "to_read_ddn r"])
qed (simp add: bump_def)

lemma bump_sel [simp]:
  "p_rtree (bump rs S) = p_rtree S" "p_ddn_head (bump rs S) = p_ddn_head S" "ram (bump rs S) = ram S" "bufdev (bump rs S) = bufdev S"
  "btn (smem (bump rs S)) = btn (smem S)"
  by (induction rs) (simp_all add: bump_Cons count_up_def)

lemma bump_extent: "same_extent (dn S b) (dn (bump rs S) b) \<and> d_user_counter (dn S b) \<le> d_user_counter (dn (bump rs S) b)"
  by (induction rs) (auto simp: bump_Cons count_up_def same_extent_def)

lemma bse_read_all_spec:
  assumes "\<forall>r \<in> set rs. 0 < d_user_counter (dn S (to_read_ddn r))"
  shows "bse_read_all rs (bump rs S) resp = Some (S, fin S rs resp)"
  using assms
proof (induction rs arbitrary: resp)
  case (Cons r rs)
  have "dn_upd (to_read_ddn r) (\<lambda>x. x\<lparr>d_user_counter := d_user_counter x - 1\<rparr>) (bump (r # rs) S) = bump rs S"
    by (simp add: bump_Cons count_up_def dn_upd_def)
  moreover have "0 < d_user_counter (dn (bump rs S) (to_read_ddn r))"
    using Cons.prems bump_extent[of S "to_read_ddn r" rs] by simp
  ultimately show ?case using Cons by (simp add: fin_def)
qed (simp add: fin_def)

lemma fin_append [simp]: "fin S (rs @ ts) m = fin S ts (fin S rs m)"
  by (simp add: fin_def)

lemma fin_commute:
  assumes "\<forall>r \<in> set rs. to_read_databuf r + to_read_size r \<le> dest \<or> dest + sz \<le> to_read_databuf r"
  shows "fin S rs (mem_copy dest src_mem src sz m) = mem_copy dest src_mem src sz (fin S rs m)"
  using assms
proof (induction rs arbitrary: m)
  case (Cons r rs)
  then have "mem_copy (to_read_databuf r) (bufdev S) (to_read_offset r) (to_read_size r) (mem_copy dest src_mem src sz m) =
      mem_copy dest src_mem src sz (mem_copy (to_read_databuf r) (bufdev S) (to_read_offset r) (to_read_size r) m)"
    by (auto simp: mem_copy_def intro!: ext)
  then show ?case using Cons by (simp add: fin_def)
qed (simp add: fin_def)

section \<open>Filling in a node\<close>

abbreviation (input) region_free :: "int \<Rightarrow> int \<Rightarrow> bse_search_state \<Rightarrow> bool" where
  "region_free lo hi R \<equiv> \<forall>r \<in> set (ss_to_read R). to_read_databuf r + to_read_size r \<le> lo \<or> hi \<le> to_read_databuf r"

definition disk_count :: "(node_addr \<Rightarrow> data_description_node) \<Rightarrow> node_addr list \<Rightarrow> nat" where
  "disk_count d ms = length (filter (\<lambda>m. d_location_disk (d m)) ms)"

definition same_bytes :: "bse_private \<Rightarrow> bse_search_state \<Rightarrow> bool" where
  "same_bytes S R \<longleftrightarrow> agree (ddn (smem S)) R \<and> ram (ss_bse R) = ram S \<and> bufdev (ss_bse R) = bufdev S"

lemma fill_effect:
  assumes R: "same_bytes S R" and n: "length (ss_to_read R) + disk_count (ddn (smem S)) [m] \<le> BSE_MAX_TO_READ_DDN"
    and free: "region_free dest (dest + sz) R"
  obtains R' tr where "fill_buffer_content dest src sz m R = Some R'" "same_bytes S R'" "ss_to_read R' = ss_to_read R @ tr"
    "ss_not_found R' = ss_not_found R" "ss_bse R' = bump tr (ss_bse R)" "length tr = disk_count (ddn (smem S)) [m]"
    "\<forall>r \<in> set tr. to_read_databuf r = dest \<and> to_read_size r = sz \<and> to_read_ddn r = m"
    "fin S (ss_to_read R') (ss_resp R') =
      mem_copy dest (if d_location_disk (dn S m) then bufdev S else ram S) src sz (fin S (ss_to_read R) (ss_resp R))"
proof (cases "d_location_disk (dn S m)")
  case True
  have e: "d_location_disk (dn (ss_bse R) m)" using R True agreeD(4) unfolding same_bytes_def by blast
  have "length (ss_to_read R) < BSE_MAX_TO_READ_DDN" using n True by (simp add: disk_count_def)
  let ?r = "\<lparr>to_read_databuf = dest, to_read_offset = src, to_read_size = sz, to_read_ddn = m\<rparr>"
  let ?R = "R\<lparr>ss_bse := count_up m (ss_bse R), ss_to_read := ss_to_read R @ [?r]\<rparr>"
  have f: "fill_buffer_content dest src sz m R = Some ?R"
    using e \<open>length (ss_to_read R) < BSE_MAX_TO_READ_DDN\<close> by (simp add: fill_buffer_content_def Let_def count_up_def)
  have "agree (ddn (smem S)) ?R" by (rule agree_fill[OF f]) (use R in \<open>simp add: same_bytes_def\<close>)
  then have "same_bytes S ?R" using R by (simp add: same_bytes_def count_up_def)
  then show ?thesis using True by (intro that[OF f, of "[?r]"]) (simp_all add: bump_def disk_count_def fin_def)
next
  case False
  have e: "\<not> d_location_disk (dn (ss_bse R) m)" "ram (ss_bse R) = ram S" using R False agreeD(4) unfolding same_bytes_def by blast+
  let ?R = "R\<lparr>ss_resp := mem_copy dest (ram S) src sz (ss_resp R)\<rparr>"
  have f: "fill_buffer_content dest src sz m R = Some ?R" using e by (simp add: fill_buffer_content_def Let_def)
  have "same_bytes S ?R" using R by (simp add: same_bytes_def agree_def)
  then show ?thesis using False fin_commute[OF free] by (intro that[OF f, of "[]"]) (simp_all add: disk_count_def)
qed

section \<open>The effect of a walk\<close>

text \<open>The gaps that are reported: non-empty, in order, and exactly the offsets without a node.\<close>

definition gaps_ok :: "int \<Rightarrow> int \<Rightarrow> (int \<Rightarrow> bool) \<Rightarrow> sub_request_node list \<Rightarrow> bool" where
  "gaps_ok sbuf soffset miss nf \<longleftrightarrow> (\<forall>r \<in> set nf. sr_buf r = sbuf + (sr_offset r - soffset) \<and> 0 < sr_len r) \<and>
     sorted_wrt (\<lambda>r r'. sr_offset r + sr_len r \<le> sr_offset r') nf \<and>
     (\<forall>i. miss i \<longleftrightarrow> (\<exists>r \<in> set nf. sr_offset r \<le> i \<and> i < sr_offset r + sr_len r))"

definition walked :: "bse_private \<Rightarrow> int \<Rightarrow> int \<Rightarrow> int \<Rightarrow> int \<Rightarrow> node_addr list \<Rightarrow> bse_search_state \<Rightarrow> bse_search_state \<Rightarrow> to_read list \<Rightarrow> sub_request_node list \<Rightarrow> bool" where
  "walked S sbuf soffset e pos ms R R' tr nf \<longleftrightarrow> same_bytes S R' \<and> ss_to_read R' = ss_to_read R @ tr \<and> ss_not_found R' = ss_not_found R @ nf \<and>
     ss_bse R' = bump tr (ss_bse R) \<and> length tr = disk_count (ddn (smem S)) ms \<and>
     (\<forall>r \<in> set tr. sbuf + (pos - soffset) \<le> to_read_databuf r \<and> to_read_databuf r + to_read_size r \<le> sbuf + (e + 1 - soffset) \<and> to_read_ddn r \<in> set ms) \<and>
     gaps_ok sbuf soffset (\<lambda>i. pos \<le> i \<and> i \<le> e \<and> at_nodes (ddn (smem S)) ms i = None) nf \<and>
     (\<forall>i. fin S (ss_to_read R') (ss_resp R') (sbuf + (i - soffset)) =
        (if pos \<le> i \<and> i \<le> e then case at_nodes (ddn (smem S)) ms i of Some l \<Rightarrow> bytes S l | None \<Rightarrow> fin S (ss_to_read R) (ss_resp R) (sbuf + (i - soffset))
         else fin S (ss_to_read R) (ss_resp R) (sbuf + (i - soffset))))"

lemma at_nodes_before:
  assumes "\<And>m. m \<in> set ms \<Longrightarrow> i < d_offset (d m)"
  shows "at_nodes d ms i = None"
proof -
  have "\<not> covers (d m) i" if "m \<in> set ms" for m using assms[OF that] by (simp add: covers_def)
  then show ?thesis by (simp add: at_nodes_def find_None_iff)
qed

lemma gaps_Cons:
  assumes g: "gaps_ok sbuf soffset miss nf" and p: "pos < q" and m: "\<And>i. miss i \<Longrightarrow> q \<le> i"
    and m': "\<And>i. miss' i \<longleftrightarrow> pos \<le> i \<and> i < q \<or> miss i"
  shows "gaps_ok sbuf soffset miss' (\<lparr>sr_buf = sbuf + (pos - soffset), sr_offset = pos, sr_len = q - pos\<rparr> # nf)"
proof -
  have "q \<le> sr_offset r" if "r \<in> set nf" for r
  proof -
    have "0 < sr_len r" using g that by (simp add: gaps_ok_def)
    then have "miss (sr_offset r)" using g that unfolding gaps_ok_def by (smt (verit))
    then show ?thesis by (rule m)
  qed
  then show ?thesis using g p m' unfolding gaps_ok_def by auto
qed

text \<open>The gap in front of the first node, and the bytes of the first node.\<close>

lemma gaps_first:
  assumes g: "gaps_ok sbuf soffset (\<lambda>i. t \<le> i \<and> i \<le> e \<and> at_nodes d ms i = None) nf"
    and m: "pos \<le> node_end (d m)" "d_offset (d m) \<le> e" "0 < d_len (d m)" "pos \<le> e + 1" and t: "t = min (e + 1) (d_offset (d m) + d_len (d m))"
    and nt: "\<And>i. i < t \<Longrightarrow> at_nodes d ms i = None"
  shows "gaps_ok sbuf soffset (\<lambda>i. pos \<le> i \<and> i \<le> e \<and> at_nodes d (m # ms) i = None)
    ((if pos < d_offset (d m) then [\<lparr>sr_buf = sbuf + (pos - soffset), sr_offset = pos, sr_len = d_offset (d m) - pos\<rparr>] else []) @ nf)"
proof -
  let ?o = "d_offset (d m)"
  have e: "(pos \<le> i \<and> i \<le> e \<and> at_nodes d (m # ms) i = None) \<longleftrightarrow> pos \<le> i \<and> i < ?o \<or> (t \<le> i \<and> i \<le> e \<and> at_nodes d ms i = None)" for i
    using m t nt[of i] by (cases "i < t") (auto simp: covers_def node_end_def)
  show ?thesis
  proof (cases "pos < ?o")
    case True
    have "gaps_ok sbuf soffset (\<lambda>i. pos \<le> i \<and> i \<le> e \<and> at_nodes d (m # ms) i = None) (\<lparr>sr_buf = sbuf + (pos - soffset), sr_offset = pos, sr_len = ?o - pos\<rparr> # nf)"
      by (rule gaps_Cons[OF g True _ e]) (use m t in auto)
    then show ?thesis using True by (simp only: if_True append.simps)
  next
    case False
    then have "(\<lambda>i. pos \<le> i \<and> i \<le> e \<and> at_nodes d (m # ms) i = None) = (\<lambda>i. t \<le> i \<and> i \<le> e \<and> at_nodes d ms i = None)"
      unfolding e by (intro ext) auto
    then show ?thesis using g False by (simp only: if_False append.simps)
  qed
qed

lemma bytes_first:
  assumes w: "F' = (if t \<le> i \<and> i \<le> e then case at_nodes d ms i of Some l \<Rightarrow> b l | None \<Rightarrow> F2 else F2)"
    and f: "F2 = (if max pos (d_offset (d m)) \<le> i \<and> i < t then b (loc (d m) i) else F)"
    and t: "t = min (e + 1) (d_offset (d m) + d_len (d m))" "pos \<le> t" and nt: "i < t \<Longrightarrow> at_nodes d ms i = None"
  shows "F' = (if pos \<le> i \<and> i \<le> e then case at_nodes d (m # ms) i of Some l \<Rightarrow> b l | None \<Rightarrow> F else F)"
proof -
  have "covers (d m) i \<longleftrightarrow> max pos (d_offset (d m)) \<le> i \<and> i < t" if "pos \<le> i" "i \<le> e" using that t by (auto simp: covers_def)
  then show ?thesis using t nt unfolding w f by (auto split: option.split)
qed

lemma walk_effect:
  assumes "same_bytes S R" "sorted_wrt (ends_before (ddn (smem S))) ms" "soffset \<le> pos" "pos \<le> e + 1"
    "\<forall>m \<in> set ms. pos \<le> node_end (dn S m) \<and> d_offset (dn S m) \<le> e \<and> 0 < d_len (dn S m)"
    "length (ss_to_read R) + disk_count (ddn (smem S)) ms \<le> BSE_MAX_TO_READ_DDN"
    "region_free (sbuf + (pos - soffset)) (sbuf + (e + 1 - soffset)) R"
  shows "\<exists>R' tr nf. walk_range (ddn (smem S)) sbuf soffset e pos ms R = Some R' \<and> walked S sbuf soffset e pos ms R R' tr nf"
  using assms
proof (induction ms arbitrary: R pos)
  case Nil
  let ?g = "\<lparr>sr_buf = sbuf + (pos - soffset), sr_offset = pos, sr_len = e + 1 - pos\<rparr>"
  let ?R = "if pos \<le> e then sr_not_found (sbuf + (pos - soffset)) pos (e + 1 - pos) R else R"
  have "gaps_ok sbuf soffset (\<lambda>i. pos \<le> i \<and> i \<le> e) (if pos \<le> e then [?g] else [])" by (auto simp: gaps_ok_def)
  then have "walked S sbuf soffset e pos [] R ?R [] (if pos \<le> e then [?g] else [])"
    using Nil.prems(1) by (simp add: walked_def disk_count_def sr_not_found_def same_bytes_def agree_def)
  moreover have "walk_range (ddn (smem S)) sbuf soffset e pos [] R = Some ?R" by simp
  ultimately show ?case by blast
next
  case (Cons m ms)
  let ?d = "ddn (smem S)" let ?o = "d_offset (dn S m)" let ?s = "max pos ?o" let ?t = "min (e + 1) (?o + d_len (dn S m))"
  let ?g = "\<lparr>sr_buf = sbuf + (pos - soffset), sr_offset = pos, sr_len = ?o - pos\<rparr>"
  define R1 where "R1 = (if pos < ?o then sr_not_found (sbuf + (pos - soffset)) pos (?o - pos) R else R)"
  define n1 where "n1 = (if pos < ?o then [?g] else [])"
  have R1: "same_bytes S R1" "ss_to_read R1 = ss_to_read R" "ss_resp R1 = ss_resp R" "ss_not_found R1 = ss_not_found R @ n1" "ss_bse R1 = ss_bse R"
    using Cons.prems(1) by (simp_all add: R1_def n1_def sr_not_found_def same_bytes_def agree_def)
  have m: "pos \<le> node_end (dn S m)" "?o \<le> e" "0 < d_len (dn S m)" using Cons.prems(5) by simp_all
  have st: "pos \<le> ?s" "?s \<le> ?t" "?t \<le> e + 1" using m Cons.prems(4) by (auto simp: node_end_def)
  have mb: "ends_before ?d m b" if "b \<in> set ms" for b using Cons.prems(2) that by simp
  have dc: "disk_count ?d (m # ms) = disk_count ?d [m] + disk_count ?d ms" by (simp add: disk_count_def)
  have n: "length (ss_to_read R1) + disk_count ?d [m] \<le> BSE_MAX_TO_READ_DDN" using Cons.prems(6) R1(2) dc by simp
  have free: "region_free (sbuf + (?s - soffset)) (sbuf + (?s - soffset) + (?t - ?s)) R1"
    using Cons.prems(7) st unfolding R1(2) by fastforce
  obtain R2 tr where R2: "fill_buffer_content (sbuf + (?s - soffset)) (d_pos (dn S m) + (?s - ?o)) (?t - ?s) m R1 = Some R2"
    "same_bytes S R2" "ss_to_read R2 = ss_to_read R1 @ tr" "ss_not_found R2 = ss_not_found R1" "ss_bse R2 = bump tr (ss_bse R1)"
    "length tr = disk_count ?d [m]"
    "\<forall>r \<in> set tr. to_read_databuf r = sbuf + (?s - soffset) \<and> to_read_size r = ?t - ?s \<and> to_read_ddn r = m"
    "fin S (ss_to_read R2) (ss_resp R2) = mem_copy (sbuf + (?s - soffset)) (if d_location_disk (dn S m) then bufdev S else ram S)
      (d_pos (dn S m) + (?s - ?o)) (?t - ?s) (fin S (ss_to_read R1) (ss_resp R1))"
    by (rule fill_effect[OF R1(1) n free])
  have "\<exists>R' tr' nf. walk_range ?d sbuf soffset e ?t ms R2 = Some R' \<and> walked S sbuf soffset e ?t ms R2 R' tr' nf"
  proof (rule Cons.IH[OF R2(2)])
    show "sorted_wrt (ends_before ?d) ms" "soffset \<le> ?t" "?t \<le> e + 1" using Cons.prems(2,3) st by auto
    show "\<forall>b \<in> set ms. ?t \<le> node_end (dn S b) \<and> d_offset (dn S b) \<le> e \<and> 0 < d_len (dn S b)"
    proof
      fix b assume b: "b \<in> set ms"
      then show "?t \<le> node_end (dn S b) \<and> d_offset (dn S b) \<le> e \<and> 0 < d_len (dn S b)"
        using mb[OF b] Cons.prems(5) by (auto simp: ends_before_def node_end_def)
    qed
    show "length (ss_to_read R2) + disk_count ?d ms \<le> BSE_MAX_TO_READ_DDN" using Cons.prems(6) R2(3,6) R1(2) dc by simp
    show "region_free (sbuf + (?t - soffset)) (sbuf + (e + 1 - soffset)) R2"
    proof
      fix r assume "r \<in> set (ss_to_read R2)"
      then consider "r \<in> set (ss_to_read R)" | "r \<in> set tr" using R2(3) R1(2) by auto
      then show "to_read_databuf r + to_read_size r \<le> sbuf + (?t - soffset) \<or> sbuf + (e + 1 - soffset) \<le> to_read_databuf r"
      proof cases
        case 1
        then show ?thesis using Cons.prems(7) st by fastforce
      next
        case 2
        then show ?thesis using R2(7) st by fastforce
      qed
    qed
  qed
  then obtain R' tr' nf where W: "walk_range ?d sbuf soffset e ?t ms R2 = Some R'" "walked S sbuf soffset e ?t ms R2 R' tr' nf" by blast
  note w = W(2)[unfolded walked_def]
  have ev: "walk_range ?d sbuf soffset e pos (m # ms) R = Some R'" using R2(1) W(1) unfolding R1_def by (simp add: Let_def)
  have nt: "at_nodes ?d ms i = None" if "i < ?t" for i
    by (rule at_nodes_before) (use mb that in \<open>fastforce simp: ends_before_def\<close>)
  have gp: "gaps_ok sbuf soffset (\<lambda>i. pos \<le> i \<and> i \<le> e \<and> at_nodes ?d (m # ms) i = None) (n1 @ nf)" unfolding n1_def
    by (rule gaps_first[OF _ m Cons.prems(4) refl nt]) (use w in blast)
  have fe: "fin S (ss_to_read R2) (ss_resp R2) (sbuf + (i - soffset)) =
      (if ?s \<le> i \<and> i < ?t then bytes S (loc (dn S m) i) else fin S (ss_to_read R) (ss_resp R) (sbuf + (i - soffset)))" for i
    unfolding R2(8) R1(2,3) by (simp add: mem_copy_def bytes_def loc_def algebra_simps)
  have fn: "fin S (ss_to_read R') (ss_resp R') (sbuf + (i - soffset)) =
      (if pos \<le> i \<and> i \<le> e then case at_nodes ?d (m # ms) i of Some l \<Rightarrow> bytes S l | None \<Rightarrow> fin S (ss_to_read R) (ss_resp R) (sbuf + (i - soffset))
       else fin S (ss_to_read R) (ss_resp R) (sbuf + (i - soffset)))" for i
    by (rule bytes_first[where d = ?d and b = "bytes S" and m = m and pos = pos and t = ?t and i = i, OF _ fe refl _ nt]) (use w st in auto)
  have tb: "\<forall>r \<in> set (tr @ tr'). sbuf + (pos - soffset) \<le> to_read_databuf r \<and> to_read_databuf r + to_read_size r \<le> sbuf + (e + 1 - soffset) \<and>
      to_read_ddn r \<in> set (m # ms)"
    using w R2(7) st by fastforce
  have "walked S sbuf soffset e pos (m # ms) R R' (tr @ tr') (n1 @ nf)" unfolding walked_def
    using w R2(3-6) R1(2,4,5) dc gp fn tb by simp
  then show ?case using ev by blast
qed

section \<open>Reading a request\<close>

lemma bump_places: "same_places S (bump rs S)"
  using bump_extent by (simp add: same_places_def)

lemma search_range_effect:
  assumes inv: "bse_inv S" and R: "ss_bse R = bump rs S" and safe: "search_safe soffset S"
    and off: "0 \<le> soffset" "soffset < 2 ^ 62" and len: "0 < slen" "slen < 2 ^ 32" and e: "e = soffset + slen - 1"
    and n: "length (ss_to_read R) + disk_count (ddn (smem S)) (overlapping soffset e S) \<le> BSE_MAX_TO_READ_DDN"
    and free: "region_free sbuf (sbuf + slen) R"
  shows "\<exists>R' tr nf. bse_search_range sbuf slen soffset R = Some R' \<and> walked S sbuf soffset e soffset (overlapping soffset e S) R R' tr nf"
proof -
  have pl: "same_places S (ss_bse R)" unfolding R by (rule bump_places)
  have sb: "same_bytes S R" using bump_extent R by (simp add: same_bytes_def agree_def)
  have so: "sorted_wrt (ends_before (ddn (smem S))) (overlapping soffset e S)"
    unfolding overlapping_def by (rule sorted_wrt_filter[OF bse_invD(2)[OF inv]])
  have m: "\<forall>m \<in> set (overlapping soffset e S). soffset \<le> node_end (dn S m) \<and> d_offset (dn S m) \<le> e \<and> 0 < d_len (dn S m)"
    using node_okD(3)[OF bse_invD(3)[OF inv]] by (auto simp: overlapping_def)
  have fr: "region_free (sbuf + (soffset - soffset)) (sbuf + (e + 1 - soffset)) R" using free e by simp
  show ?thesis unfolding bse_search_range_walk[OF inv pl safe off len e]
    by (rule walk_effect[OF sb so _ _ m n fr]) (use len e in auto)
qed

text \<open>The address of the answer for offset \<open>i\<close>, and the ranges of the two parts of the answer.\<close>

definition place :: "request_node \<Rightarrow> int \<Rightarrow> int" where
  "place rn i = (if i < r_offset rn + r_resp_len_1 rn then r_resp_buf_1 rn + (i - r_offset rn)
     else r_resp_buf_2 rn + (i - (r_offset rn + r_resp_len_1 rn)))"

definition request_ok :: "request_node \<Rightarrow> bse_private \<Rightarrow> bool" where
  "request_ok rn S \<longleftrightarrow> (let off = r_offset rn; len = r_len rn; l1 = r_resp_len_1 rn in
     0 \<le> off \<and> 0 < l1 \<and> l1 \<le> len \<and> len < 2 ^ 32 \<and> off + len \<le> 2 ^ 62 \<and> search_safe off S \<and>
     (l1 < len \<longrightarrow> search_safe (off + l1) S \<and>
        (r_resp_buf_1 rn + l1 \<le> r_resp_buf_2 rn \<or> r_resp_buf_2 rn + (len - l1) \<le> r_resp_buf_1 rn)) \<and>
     disk_count (ddn (smem S)) (overlapping off (off + l1 - 1) S) +
       (if l1 < len then disk_count (ddn (smem S)) (overlapping (off + l1) (off + len - 1) S) else 0) \<le> BSE_MAX_TO_READ_DDN)"

text \<open>The answer to a request: bytes in the response memory, and the gaps.\<close>

definition answer_ok :: "request_node \<Rightarrow> bse_private \<Rightarrow> (int \<Rightarrow> u8) \<Rightarrow> (int \<Rightarrow> u8) \<Rightarrow> sub_request_node list \<Rightarrow> bool" where
  "answer_ok rn S resp resp' nf \<longleftrightarrow>
     (\<forall>i. r_offset rn \<le> i \<and> i < r_offset rn + r_len rn \<longrightarrow>
        resp' (place rn i) = (case cached S i of Some v \<Rightarrow> v | None \<Rightarrow> resp (place rn i))) \<and>
     (\<forall>j. (\<forall>i. r_offset rn \<le> i \<and> i < r_offset rn + r_len rn \<longrightarrow> j \<noteq> place rn i) \<longrightarrow> resp' j = resp j) \<and>
     (\<forall>r \<in> set nf. 0 < sr_len r \<and> (\<forall>k. 0 \<le> k \<and> k < sr_len r \<longrightarrow> sr_buf r + k = place rn (sr_offset r + k))) \<and>
     sorted_wrt (\<lambda>r r'. sr_offset r + sr_len r \<le> sr_offset r') nf \<and>
     (\<forall>i. (\<exists>r \<in> set nf. sr_offset r \<le> i \<and> i < sr_offset r + sr_len r) \<longleftrightarrow>
        r_offset rn \<le> i \<and> i < r_offset rn + r_len rn \<and> cached S i = None)"

text \<open>The effect of one part, in terms of the bytes of the cache.\<close>

lemma walked_cached:
  assumes w: "walked S sbuf soffset e soffset (overlapping soffset e S) R R' tr nf"
  shows "fin S (ss_to_read R') (ss_resp R') j = (if sbuf \<le> j \<and> j \<le> sbuf + (e - soffset)
      then case cached S (j - sbuf + soffset) of Some v \<Rightarrow> v | None \<Rightarrow> fin S (ss_to_read R) (ss_resp R) j
      else fin S (ss_to_read R) (ss_resp R) j)"
    "gaps_ok sbuf soffset (\<lambda>i. soffset \<le> i \<and> i \<le> e \<and> cached S i = None) nf"
proof -
  have "(soffset \<le> i \<and> i \<le> e \<and> at_nodes (ddn (smem S)) (overlapping soffset e S) i = None) = (soffset \<le> i \<and> i \<le> e \<and> cached S i = None)" for i
    using at_overlapping[of soffset i e S] by (auto simp: cached_def)
  then show "gaps_ok sbuf soffset (\<lambda>i. soffset \<le> i \<and> i \<le> e \<and> cached S i = None) nf" using w by (simp add: walked_def)
  define i where "i = j - sbuf + soffset"
  have ij: "sbuf + (i - soffset) = j" "(soffset \<le> i \<and> i \<le> e) = (sbuf \<le> j \<and> j \<le> sbuf + (e - soffset))" by (auto simp: i_def)
  have f: "fin S (ss_to_read R') (ss_resp R') (sbuf + (i - soffset)) = (if soffset \<le> i \<and> i \<le> e
      then case at_nodes (ddn (smem S)) (overlapping soffset e S) i of Some l \<Rightarrow> bytes S l | None \<Rightarrow> fin S (ss_to_read R) (ss_resp R) (sbuf + (i - soffset))
      else fin S (ss_to_read R) (ss_resp R) (sbuf + (i - soffset)))" using w unfolding walked_def by blast
  show "fin S (ss_to_read R') (ss_resp R') j = (if sbuf \<le> j \<and> j \<le> sbuf + (e - soffset)
      then case cached S (j - sbuf + soffset) of Some v \<Rightarrow> v | None \<Rightarrow> fin S (ss_to_read R) (ss_resp R) j
      else fin S (ss_to_read R) (ss_resp R) j)"
  proof (cases "soffset \<le> i \<and> i \<le> e")
    case True
    then have "at_nodes (ddn (smem S)) (overlapping soffset e S) i = bse_at S i" by (simp add: at_overlapping)
    then show ?thesis using f True unfolding ij i_def[symmetric] by (simp add: cached_def split: option.split)
  next
    case False
    then show ?thesis using f unfolding ij by (simp only: if_False)
  qed
qed

lemma walked_counters:
  assumes "bse_inv S" "walked S sbuf soffset e soffset (overlapping soffset e S) R R' tr nf" "r \<in> set tr"
  shows "0 < d_user_counter (dn S (to_read_ddn r))"
proof -
  have "to_read_ddn r \<in> set (p_ddn_head S)" using assms(2,3) by (auto simp: walked_def overlapping_def)
  then show ?thesis using node_okD(7)[OF bse_invD(3)[OF assms(1)]] by simp
qed

text \<open>A request in two parts, of which the second may be empty: the gaps and the bytes together answer it.\<close>

lemma gap_inside:
  assumes g: "gaps_ok sbuf soffset (\<lambda>i. lo \<le> i \<and> i \<le> hi \<and> P i) nf" and r: "r \<in> set nf"
  shows "lo \<le> sr_offset r" "sr_offset r + sr_len r \<le> hi + 1" "sr_buf r = sbuf + (sr_offset r - soffset)" "0 < sr_len r"
proof -
  note G = g[unfolded gaps_ok_def]
  show l: "0 < sr_len r" and "sr_buf r = sbuf + (sr_offset r - soffset)" using G r by simp_all
  show "lo \<le> sr_offset r" using G r l by force
  have "sr_offset r + sr_len r - 1 \<le> hi" using G r l by force
  then show "sr_offset r + sr_len r \<le> hi + 1" by simp
qed

lemma answer_gaps:
  assumes g1: "gaps_ok b1 off (\<lambda>i. off \<le> i \<and> i \<le> e1 \<and> P i) n1" and g2: "gaps_ok b2 (e1 + 1) (\<lambda>i. e1 + 1 \<le> i \<and> i \<le> e2 \<and> P i) n2"
    and e: "off \<le> e1 + 1" "e1 \<le> e2" and pl: "\<And>i. pl i = (if i \<le> e1 then b1 + (i - off) else b2 + (i - (e1 + 1)))"
  shows "\<forall>r \<in> set (n1 @ n2). 0 < sr_len r \<and> (\<forall>k. 0 \<le> k \<and> k < sr_len r \<longrightarrow> sr_buf r + k = pl (sr_offset r + k))"
    "sorted_wrt (\<lambda>r r'. sr_offset r + sr_len r \<le> sr_offset r') (n1 @ n2)"
    "(\<exists>r \<in> set (n1 @ n2). sr_offset r \<le> i \<and> i < sr_offset r + sr_len r) \<longleftrightarrow> off \<le> i \<and> i \<le> e2 \<and> P i"
proof -
  note i1 = gap_inside[OF g1] and i2 = gap_inside[OF g2]
  show "\<forall>r \<in> set (n1 @ n2). 0 < sr_len r \<and> (\<forall>k. 0 \<le> k \<and> k < sr_len r \<longrightarrow> sr_buf r + k = pl (sr_offset r + k))"
    using i1 i2 unfolding pl by fastforce
  have "sr_offset r + sr_len r \<le> sr_offset r'" if "r \<in> set n1" "r' \<in> set n2" for r r' using i1(2)[OF that(1)] i2(1)[OF that(2)] by simp
  then show "sorted_wrt (\<lambda>r r'. sr_offset r + sr_len r \<le> sr_offset r') (n1 @ n2)"
    using g1 g2 by (simp add: sorted_wrt_append gaps_ok_def)
  have "(\<exists>r \<in> set (n1 @ n2). sr_offset r \<le> i \<and> i < sr_offset r + sr_len r) \<longleftrightarrow> (off \<le> i \<and> i \<le> e1 \<and> P i) \<or> (e1 + 1 \<le> i \<and> i \<le> e2 \<and> P i)"
    using g1 g2 by (auto simp: gaps_ok_def bex_Un)
  then show "(\<exists>r \<in> set (n1 @ n2). sr_offset r \<le> i \<and> i < sr_offset r + sr_len r) \<longleftrightarrow> off \<le> i \<and> i \<le> e2 \<and> P i" using e by auto
qed

lemma answer_bytes:
  fixes b1 b2 l1 l2 off :: int
  assumes f1: "\<And>j. F1 j = (if b1 \<le> j \<and> j < b1 + l1 then case c (j - b1 + off) of Some v \<Rightarrow> v | None \<Rightarrow> resp j else resp j)"
    and f2: "\<And>j. F j = (if b2 \<le> j \<and> j < b2 + l2 then case c (j - b2 + (off + l1)) of Some v \<Rightarrow> v | None \<Rightarrow> F1 j else F1 j)"
    and l: "0 < l1" "0 \<le> l2" and dis: "0 < l2 \<Longrightarrow> b1 + l1 \<le> b2 \<or> b2 + l2 \<le> b1"
    and pl: "\<And>i. pl i = (if i < off + l1 then b1 + (i - off) else b2 + (i - (off + l1)))"
  shows "off \<le> i \<and> i < off + l1 + l2 \<Longrightarrow> F (pl i) = (case c i of Some v \<Rightarrow> v | None \<Rightarrow> resp (pl i))"
    "\<forall>i. off \<le> i \<and> i < off + l1 + l2 \<longrightarrow> j \<noteq> pl i \<Longrightarrow> F j = resp j"
proof -
  show "F (pl i) = (case c i of Some v \<Rightarrow> v | None \<Rightarrow> resp (pl i))" if i: "off \<le> i \<and> i < off + l1 + l2"
  proof (cases "i < off + l1")
    case True
    then have p: "pl i = b1 + (i - off)" by (simp add: pl)
    then have "\<not> (b2 \<le> pl i \<and> pl i < b2 + l2)" using dis i True by (cases "0 < l2") auto
    then have "F (pl i) = F1 (pl i)" unfolding f2 by (simp only: if_False)
    then show ?thesis unfolding f1 using p i True by simp
  next
    case False
    then have p: "pl i = b2 + (i - (off + l1))" by (simp add: pl)
    then have "\<not> (b1 \<le> pl i \<and> pl i < b1 + l1)" using dis i False by (cases "0 < l2") auto
    then have "F1 (pl i) = resp (pl i)" unfolding f1 by (simp only: if_False)
    then show ?thesis unfolding f2 using p i False by (simp split: option.split)
  qed
  show "F j = resp j" if n: "\<forall>i. off \<le> i \<and> i < off + l1 + l2 \<longrightarrow> j \<noteq> pl i"
  proof -
    have "\<not> (b1 \<le> j \<and> j < b1 + l1)" using n[rule_format, of "j - b1 + off"] l unfolding pl by auto
    moreover have "\<not> (b2 \<le> j \<and> j < b2 + l2)" using n[rule_format, of "j - b2 + (off + l1)"] l unfolding pl by auto
    ultimately show ?thesis unfolding f2 f1 by (simp only: if_False)
  qed
qed

lemma answer_parts:
  assumes rn: "r_offset rn = off" "r_len rn = l1 + l2" "r_resp_len_1 rn = l1" "r_resp_buf_1 rn = b1" "r_resp_buf_2 rn = b2"
    and g1: "gaps_ok b1 off (\<lambda>i. off \<le> i \<and> i \<le> off + l1 - 1 \<and> cached S i = None) n1"
    and g2: "gaps_ok b2 (off + l1) (\<lambda>i. off + l1 \<le> i \<and> i \<le> off + l1 + l2 - 1 \<and> cached S i = None) n2"
    and f1: "\<And>j. F1 j = (if b1 \<le> j \<and> j < b1 + l1 then case cached S (j - b1 + off) of Some v \<Rightarrow> v | None \<Rightarrow> resp j else resp j)"
    and f2: "\<And>j. F j = (if b2 \<le> j \<and> j < b2 + l2 then case cached S (j - b2 + (off + l1)) of Some v \<Rightarrow> v | None \<Rightarrow> F1 j else F1 j)"
    and l: "0 < l1" "0 \<le> l2" and dis: "0 < l2 \<Longrightarrow> b1 + l1 \<le> b2 \<or> b2 + l2 \<le> b1"
  shows "answer_ok rn S resp F (n1 @ n2)"
proof -
  have pl: "place rn i = (if i < off + l1 then b1 + (i - off) else b2 + (i - (off + l1)))" for i by (simp add: place_def rn)
  have pl': "place rn i = (if i \<le> off + l1 - 1 then b1 + (i - off) else b2 + (i - (off + l1 - 1 + 1)))" for i by (simp add: pl)
  have g2': "gaps_ok b2 (off + l1 - 1 + 1) (\<lambda>i. off + l1 - 1 + 1 \<le> i \<and> i \<le> off + l1 + l2 - 1 \<and> cached S i = None) n2" using g2 by simp
  have e: "off \<le> off + l1 - 1 + 1" "off + l1 - 1 \<le> off + l1 + l2 - 1" using l by simp_all
  note G = answer_gaps[OF g1 g2' e pl']
  have B: "F (place rn i) = (case cached S i of Some v \<Rightarrow> v | None \<Rightarrow> resp (place rn i))" if "off \<le> i \<and> i < off + l1 + l2" for i
    by (rule answer_bytes(1)[OF f1 f2 l _ pl that]) (rule dis)
  have O: "F j = resp j" if "\<forall>i. off \<le> i \<and> i < off + l1 + l2 \<longrightarrow> j \<noteq> place rn i" for j
    by (rule answer_bytes(2)[OF f1 f2 l _ pl that]) (rule dis)
  have le: "(i \<le> off + l1 + l2 - 1) = (i < off + l1 + l2)" for i by auto
  have sum: "off + (l1 + l2) = off + l1 + l2" by simp
  show ?thesis unfolding answer_ok_def rn(1,2) sum
    by (intro conjI G(1,2) allI impI) (erule B, erule O, simp only: G(3) le)
qed

lemma bse_search_spec:
  assumes inv: "bse_inv S" and rq: "request_ok rn S"
  obtains resp' nf where "bse_search rn S resp = Some (S, resp', nf)" "answer_ok rn S resp resp' nf"
proof -
  define off len l1 b1 b2 where defs: "off = r_offset rn" "len = r_len rn" "l1 = r_resp_len_1 rn" "b1 = r_resp_buf_1 rn" "b2 = r_resp_buf_2 rn"
  define e1 where "e1 = off + l1 - 1"
  note rq = rq[unfolded request_ok_def Let_def, folded defs, folded e1_def]
  note parts = answer_parts[of rn off l1 _ b1 b2 S, OF defs(1)[symmetric] _ defs(3-5)[symmetric]]
  let ?R = "\<lparr>ss_bse = S, ss_resp = resp, ss_not_found = [], ss_to_read = []\<rparr>"
  have "\<exists>R' tr nf. bse_search_range b1 l1 off ?R = Some R' \<and> walked S b1 off e1 off (overlapping off e1 S) ?R R' tr nf"
    by (rule search_range_effect[OF inv, of _ "[]"]) (use rq e1_def in auto)
  then obtain R1 t1 n1 where W1: "bse_search_range b1 l1 off ?R = Some R1" "walked S b1 off e1 off (overlapping off e1 S) ?R R1 t1 n1" by blast
  have s1: "ss_to_read R1 = t1" "ss_not_found R1 = n1" "ss_bse R1 = bump t1 S" "length t1 = disk_count (ddn (smem S)) (overlapping off e1 S)"
    "\<forall>r \<in> set t1. b1 \<le> to_read_databuf r \<and> to_read_databuf r + to_read_size r \<le> b1 + l1"
    using W1(2) by (auto simp: walked_def e1_def)
  define F1 where "F1 = fin S t1 (ss_resp R1)"
  have f1: "F1 j = (if b1 \<le> j \<and> j < b1 + l1 then case cached S (j - b1 + off) of Some v \<Rightarrow> v | None \<Rightarrow> resp j else resp j)" for j
  proof -
    have "fin S (ss_to_read ?R) (ss_resp ?R) j = resp j" by (simp add: fin_def)
    from walked_cached(1)[OF W1(2), of j, unfolded this] show ?thesis by (simp add: s1 F1_def e1_def)
  qed
  note g1 = walked_cached(2)[OF W1(2), unfolded e1_def]
  have c1: "0 < d_user_counter (dn S (to_read_ddn r))" if "r \<in> set t1" for r by (rule walked_counters[OF inv W1(2) that])
  show ?thesis
  proof (cases "l1 < len")
    case False
    have ev: "bse_search rn S resp = Some (S, F1, n1 @ [])"
      using W1(1) False bse_read_all_spec[of t1 S "ss_resp R1"] c1 s1 rq
      unfolding bse_search_def F1_def by (simp add: defs[symmetric])
    have "answer_ok rn S resp F1 (n1 @ [])"
      by (rule parts[where ?l2.0 = 0, OF _ g1 _ f1]) (use rq False in \<open>auto simp: gaps_ok_def defs(2)[symmetric]\<close>)
    then show ?thesis by (rule that[OF ev])
  next
    case True
    define o2 e2 where d2: "o2 = off + l1" "e2 = off + l1 + (len - l1) - 1"
    have free: "region_free b2 (b2 + (len - l1)) R1" using s1(1,5) rq True by fastforce
    have u: "u32_of (len - l1) = len - l1" using rq True by (intro u32_of_id) auto
    have "\<exists>R' tr nf. bse_search_range b2 (len - l1) o2 R1 = Some R' \<and> walked S b2 o2 e2 o2 (overlapping o2 e2 S) R1 R' tr nf"
      by (rule search_range_effect[OF inv s1(3)]) (use rq True free s1(1,4) d2 in auto)
    then obtain R2 t2 n2 where W2: "bse_search_range b2 (len - l1) o2 R1 = Some R2" "walked S b2 o2 e2 o2 (overlapping o2 e2 S) R1 R2 t2 n2" by blast
    have s2: "ss_to_read R2 = t1 @ t2" "ss_not_found R2 = n1 @ n2" "ss_bse R2 = bump (t1 @ t2) S"
      "length t2 = disk_count (ddn (smem S)) (overlapping o2 e2 S)"
      using W2(2) s1 by (auto simp: walked_def)
    define F where "F = fin S (t1 @ t2) (ss_resp R2)"
    have f2: "F j = (if b2 \<le> j \<and> j < b2 + (len - l1) then case cached S (j - b2 + (off + l1)) of Some v \<Rightarrow> v | None \<Rightarrow> F1 j else F1 j)" for j
    proof -
      have "fin S (ss_to_read R1) (ss_resp R1) j = F1 j" by (simp add: s1(1) F1_def)
      from walked_cached(1)[OF W2(2), of j, unfolded this s2(1)] show ?thesis by (auto simp: F_def d2)
    qed
    have c2: "0 < d_user_counter (dn S (to_read_ddn r))" if "r \<in> set t2" for r by (rule walked_counters[OF inv W2(2) that])
    have "bse_read_all (t1 @ t2) (bump (t1 @ t2) S) (ss_resp R2) = Some (S, F)"
      unfolding F_def by (rule bse_read_all_spec) (use c1 c2 in auto)
    then have ev: "bse_search rn S resp = Some (S, F, n1 @ n2)"
      using W1(1) W2(1) True u s1(4) s2 rq unfolding bse_search_def by (simp add: defs[symmetric] d2)
    have "answer_ok rn S resp F (n1 @ n2)"
      by (rule parts[OF _ g1 walked_cached(2)[OF W2(2), unfolded d2] f1 f2]) (use rq True in \<open>auto simp: defs(2)[symmetric]\<close>)
    then show ?thesis by (rule that[OF ev])
  qed
qed

end
