(* ===== verification/Bse_Correct.thy ===== *)
theory Bse_Correct
  imports Bse_Insert Bse_Read
begin

text \<open>
  The write cache as a map: a write defines its range, a deletion undefines the range of a node, and a read
  returns what the last write left. The precondition on the offset cannot be dropped: behind the last slot of
  the tree, a cached byte is not found.
\<close>

section \<open>The empty cache\<close>

definition bse_initialization ::
  "(node_addr \<Rightarrow> btn_node) \<Rightarrow> (node_addr \<Rightarrow> data_description_node) \<Rightarrow> node_pool \<Rightarrow> (nat \<Rightarrow> page_node) \<Rightarrow> int \<Rightarrow> int \<Rightarrow> u64 \<Rightarrow>
   (int \<Rightarrow> u8) \<Rightarrow> (int \<Rightarrow> u8) \<Rightarrow> bse_private" where
  "bse_initialization btns ddns ddnp pgs pagesz max_flush seq pgmem dev =
     \<lparr>smem = \<lparr>btn_pool = node_initialization 1024, btn = btns, ddn = ddns\<rparr>, p_rtree = rtree_initialization, p_ddn_head = [],
      ddn_pool = ddnp, pages = pgs, p_pagesz = pagesz, p_max_flush_size = max_flush, p_prepare_flush_seq = seq, ram = pgmem, bufdev = dev\<rparr>"

lemma bse_initialization_inv:
  assumes "books_ok (bse_initialization btns ddns ddnp pgs pagesz max_flush seq pgmem dev)"
  shows "bse_inv (bse_initialization btns ddns ddnp pgs pagesz max_flush seq pgmem dev)"
    "bse_at (bse_initialization btns ddns ddnp pgs pagesz max_flush seq pgmem dev) i = None"
proof -
  let ?S = "bse_initialization btns ddns ddnp pgs pagesz max_flush seq pgmem dev"
  have "slots_ok (kf ?S) [] Map.empty (smem ?S)" by (simp add: slots_ok_def bse_initialization_def)
  then have "bse_tree (kf ?S) [] (p_rtree ?S) (smem ?S)"
    using rt_abs_init by (auto simp: bse_tree_def bse_initialization_def)
  then show "bse_inv ?S" using assms by (simp add: bse_inv_def bse_initialization_def)
  show "bse_at ?S i = None" by (simp add: bse_at_None bse_initialization_def)
qed

section \<open>Deleting a node\<close>

lemma bse_del_node_spec:
  assumes inv: "bse_inv S" and a: "a \<in> set (p_ddn_head S)" "d_user_counter (dn S a) = 1"
  obtains S' where "bse_del_node a S = Some S'" "bse_inv S'" "p_ddn_head S' = remove1 a (p_ddn_head S)"
    "\<And>i. bse_at S' i = (if covers (dn S a) i then None else bse_at S i)" "\<And>b. reparent (dn S b) (dn S' b)" "ddn_pool S' = ddn_pool S"
    "pages S' = pages S" "same_rest S S'"
proof -
  obtain us vs where xs: "p_ddn_head S = us @ a # vs" using split_list[OF a(1)] by blast
  note sp = bse_split[OF inv xs] and ok = node_okD[OF bse_split(5)[OF inv xs]]
  let ?S = "S\<lparr>p_ddn_head := us @ vs\<rparr>"
  have off: "d_offset (dn S a) < 2 ^ 62" using ok by linarith
  have t: "bse_tree (kf S) (p_ddn_head S) (p_rtree ?S) (smem ?S)" using bse_invD(4)[OF inv] by simp
  obtain S1 where S1: "bse_rt_hint_remove (d_offset (dn S a)) a ?S = Some S1"
    "bse_tree (kf S) (us @ vs) (p_rtree S1) (smem S1)" "reparented ?S S1"
    using rt_hint_remove[OF t sp(1) bse_distinct[OF inv] refl ok(2) off] unfolding sp(10) by metis
  note rs = reparented_sel[OF S1(3)]
  have bk: "books_ok S1" using reparented_books(2)[OF S1(3)] bse_invD(1)[OF inv] by simp
  have re: "reparent (dn S b) (dn S1 b)" for b using rs(1)[of b] by simp
  have pl: "ddn_pool S1 = ddn_pool S" "p_ddn_head S1 = us @ vs" "pages S1 = pages S" "same_rest S S1" using rs(2-5) by (simp_all add: same_rest_def)
  note D = drop_step[OF inv xs pl(2) re pl(1) bk S1(2)]
  have "d_user_counter (dn S1 a) = 1" using reparentD(6)[OF re[of a]] a(2) by simp
  then have ev: "bse_del_node a S = Some S1" using S1(1) a(1) sp(10) xs by (simp add: bse_del_node_def)
  have hd': "p_ddn_head S1 = remove1 a (p_ddn_head S)" using pl(2) sp(10) by simp
  show ?thesis by (rule that[OF ev D(1) hd' D(2) re pl(1,3,4)])
qed

section \<open>Behind the last slot\<close>

lemma beyond_last:
  assumes inv: "bse_inv S" and a: "a \<in> set (p_ddn_head S)" "covers (dn S a) off" and b: "64 ^ r_height (p_rtree S) \<le> slot_of off"
    and off: "off < 2 ^ 62"
  shows "bse_overlap off e S = Some (length (p_ddn_head S), length (p_ddn_head S))" "a = last (p_ddn_head S)"
proof -
  let ?xs = "p_ddn_head S"
  have o: "0 \<le> off" using a node_okD(2)[OF bse_invD(3)[OF inv a(1)]] by (simp add: covers_def)
  from bse_invD(4)[OF inv] obtain M where abs: "rt_abs M (bt_parents (smem S)) (p_rtree S)" and ok: "slots_ok (kf S) ?xs M (smem S)"
    by (auto simp: bse_tree_def)
  from abs obtain L where rep: "rt_rep {} L M (bt_parents (smem S)) (p_rtree S)" by (auto simp: rt_abs_def)
  have k: "kf S x < 64 ^ r_height (p_rtree S)" if "x \<in> set ?xs" for x
  proof (rule ccontr)
    assume "\<not> kf S x < 64 ^ r_height (p_rtree S)"
    then have "M (kf S x) = None" using rt_beyond_None[OF rep] by simp
    then have "bucket (kf S) ?xs (kf S x) = []" using ok by (simp add: slots_ok_def)
    moreover have "x \<in> set (bucket (kf S) ?xs (kf S x))" using that by (simp add: set_bucket)
    ultimately show False by simp
  qed
  have n: "rtree_search_around (p_rtree S) (slot_key off) = Some Null"
    using rt_key_beyond[OF rep] unat_slot_key(1)[OF o off] b by (simp add: rtree_search_around_def)
  show al: "a = last ?xs"
  proof (rule ccontr)
    assume ne: "a \<noteq> last ?xs"
    obtain us vs where xs: "?xs = us @ a # vs" using split_list[OF a(1)] by blast
    then have "vs \<noteq> []" using ne by auto
    then have l: "last ?xs \<in> set vs" using xs by simp
    then have "off \<le> d_offset (dn S (last ?xs))" using bse_split(7)[OF inv xs] a(2) by (fastforce simp: ends_before_def covers_def)
    then have "slot_of off \<le> kf S (last ?xs)" by (rule slot_mono[OF o])
    moreover have "kf S (last ?xs) < 64 ^ r_height (p_rtree S)" by (rule k) (use l xs in auto)
    ultimately show False using b by simp
  qed
  have "bse_search_pre_node off S = Some (length ?xs)"
    using n a al by (auto simp: bse_search_pre_node_def covers_def)
  then show "bse_overlap off e S = Some (length ?xs, length ?xs)" by (simp add: bse_overlap_def)
qed

lemma beyond_not_inserted:
  assumes inv: "bse_inv S" and r: "ready new S" and a: "bse_at S (d_offset (dn S new)) \<noteq> None"
    and b: "64 ^ r_height (p_rtree S) \<le> slot_of (d_offset (dn S new))"
  shows "bse_insert_node new S = None"
proof -
  let ?off = "d_offset (dn S new)" let ?xs = "p_ddn_head S"
  obtain x where x: "x \<in> set ?xs" "covers (dn S x) ?off" using a by (auto simp: bse_at_None)
  have off: "?off < 2 ^ 62" using readyD(3)[OF r] by (auto simp: node_wf_def)
  note B = beyond_last[OF inv x b off]
  have ne: "?xs \<noteq> []" using x(1) by auto
  have lx: "?xs ! (length ?xs - 1) = x" using last_conv_nth[OF ne] B(2) by simp
  have le: "\<not> node_end (dn S x) < ?off" using x(2) by (simp add: covers_def node_end_def)
  have "u32_of (u32_of (node_end (dn S x)) + 1) \<noteq> ?off"
  proof
    let ?n = "d_offset (dn S x) + d_len (dn S x)"
    assume "u32_of (u32_of (node_end (dn S x)) + 1) = ?off"
    moreover have "u32_of (u32_of (node_end (dn S x)) + 1) = ?n mod 2 ^ 32" by (simp add: u32_of_def node_end_def mod_simps)
    ultimately have eq: "?n mod 2 ^ 32 = ?off" by simp
    then have "(?n - ?off) mod 2 ^ 32 = 0" by (metis mod_diff_right_eq mod_mod_trivial diff_self mod_0 mod_diff_left_eq)
    moreover have "0 < ?n - ?off" "?n - ?off < 2 ^ 32"
      using x(2) node_okD(2,4)[OF bse_invD(3)[OF inv x(1)]] by (auto simp: covers_def)
    ultimately show False by simp
  qed
  then have "bse_right_extend (Some x) new S = Some (- 1, S)" by (simp add: bse_right_extend_def Let_def)
  moreover have "bse_add_ddn new (length ?xs) S = None" using ne lx le by (simp add: bse_add_ddn_def Let_def)
  ultimately show ?thesis using B(1) ne lx by (simp add: bse_insert_node_def Let_def bse_merge_or_add_def)
qed

section \<open>A first write\<close>

text \<open>A cache with one page of 1 MB, in which nothing is written, and a node for \<open>len\<close> bytes at \<open>off\<close>.\<close>

definition node0 :: "int \<Rightarrow> int \<Rightarrow> data_description_node" where
  "node0 off len = \<lparr>d_page_node = 0, d_parent = None, d_pos = 0, d_flush_pos = 0, d_seq = 1, d_offset = off, d_flush_offset = 0, d_len = len,
     d_flush_len = 0, d_user_counter = 1, d_flush_overwritten = 0, d_flushing = False, d_flushed = False, d_flushed_back = False,
     d_flush_done = False, d_released = False, d_where = DDN_WHERE_NO, d_location_disk = False\<rparr>"

definition cache0 :: "int \<Rightarrow> int \<Rightarrow> node_pool \<Rightarrow> bse_private" where
  "cache0 off len p = bse_initialization (\<lambda>_. \<lparr>n_ddn_head = [], bt_parent = None\<rparr>) (\<lambda>_. node0 off len) p
     (\<lambda>_. \<lparr>pp_flush_head = [], pp_release_head = [], pp_occupied = 0, pp_flushed = 0\<rparr>) (2 ^ 20) (2 ^ 20) (- 1) of_int (\<lambda>_. 0)"

lemma cache0_ready:
  assumes "0 \<le> off" "0 < len" "len \<le> 2 ^ 20" "off + len \<le> 2 ^ 62"
  obtains p a where "bse_inv (cache0 off len p)" "ready a (cache0 off len p)" "\<And>i. search_safe i (cache0 off len p)"
proof -
  obtain a p where p: "node_get_node (node_initialization 0) = Some (a, p)" "pool_inv p" "pool_used p = {a}"
    using np.getE[OF pool_inv_init[of 0]] by auto
  let ?S = "cache0 off len p"
  have w: "weight q (dn ?S b) = 0" for q b by (simp add: cache0_def bse_initialization_def node0_def weight_def)
  have t: "total ?S q = 0" for q using w by (simp add: total_def cache0_def bse_initialization_def)
  have bk: "books_ok ?S"
    using p(2) t unfolding books_ok_def flush_lists_ok_def by (simp add: cache0_def bse_initialization_def node0_def)
  note I = bse_initialization_inv[OF bk[unfolded cache0_def], folded cache0_def]
  have "ready a ?S" using p(3) t assms
    unfolding ready_def by (simp add: cache0_def bse_initialization_def node0_def node_wf_def)
  then show ?thesis using I by (intro that[of p a]) (simp_all add: search_safe_def)
qed

text \<open>A first write in the first slot leaves a tree of height 0.\<close>

lemma rtree_insert_height0:
  assumes "rtree_insert cb key x t s = Some (sl, t', s')" "r_height t = 0" "\<not> key > height_to_maxindex ! 0"
  shows "r_height t' = 0"
  using assms by (auto simp: rtree_insert_def split: Option.bind_splits)

lemma bse_rt_insert_height0:
  assumes "bse_rt_insert off a S = Some S'" "r_height (p_rtree S) = 0" "0 \<le> off" "off < 2 ^ 14"
  shows "r_height (p_rtree S') = 0"
proof -
  have "slot_key off = 0" using assms(3,4) by (simp add: slot_key_def BSE_SLOT_SHIFT_def drop_bit_eq_div)
  then have k: "\<not> slot_key off > height_to_maxindex ! 0" by simp
  from assms(1) obtain sl t m where "rtree_insert bse_cb (slot_key off) a (p_rtree S) (smem S) = Some (sl, t, m)" "p_rtree S' = t"
    by (auto simp: bse_rt_insert_def split: Option.bind_splits)
  then show ?thesis using rtree_insert_height0[OF _ assms(2) k] by simp
qed

lemma first_write:
  assumes "0 \<le> off" "off < 2 ^ 14" "0 < len" "len \<le> 2 ^ 20"
  obtains S where "bse_inv S" "r_height (p_rtree S) = 0" "\<And>i. bse_at S i = (if off \<le> i \<and> i < off + len then Some (False, i - off) else None)"
    "ram S = of_int" "\<And>P. disk_count (ddn (smem S)) (filter P (p_ddn_head S)) = 0"
    "\<And>b. b \<in> set (p_ddn_head S) \<Longrightarrow> d_user_counter (dn S b) = 1"
proof -
  have le: "off + len \<le> 2 ^ 62" using assms by simp
  obtain p a where S: "bse_inv (cache0 off len p)" "ready a (cache0 off len p)" "\<And>i. search_safe i (cache0 off len p)"
    using cache0_ready[OF assms(1,3,4) le] by blast
  let ?S = "cache0 off len p"
  obtain S' where S': "bse_insert_node a ?S = Some S'" "written a ?S S'" by (rule bse_insert_node_spec[OF S])
  have c: "p_ddn_head ?S = []" "p_rtree ?S = rtree_initialization" "dn ?S a = node0 off len" "ram ?S = of_int"
    by (simp_all add: cache0_def bse_initialization_def)
  have at: "bse_at S' i = (if off \<le> i \<and> i < off + len then Some (False, i - off) else None)" for i
    using S'(2) c(1) bse_at_None[of ?S i] unfolding written_def c(3) by (simp add: covers_def loc_def node0_def)
  have inv: "bse_inv S'" and rm: "ram S' = of_int" using S'(2) c(4) by (simp_all add: written_def same_rest_def)
  have "\<not> d_location_disk (dn S' b)" if "b \<in> set (p_ddn_head S')" for b
  proof -
    have "covers (dn S' b) (d_offset (dn S' b))" using node_okD(3)[OF bse_invD(3)[OF inv that]] by (simp add: covers_def)
    then have "bse_at S' (d_offset (dn S' b)) = Some (loc (dn S' b) (d_offset (dn S' b)))" using bse_at_Some[OF inv] that by blast
    then show ?thesis unfolding at by (auto simp: loc_def split: if_splits)
  qed
  then have dc: "disk_count (ddn (smem S')) (filter P (p_ddn_head S')) = 0" for P by (auto simp: disk_count_def filter_empty_conv)
  have ov: "bse_overlap off e ?S = Some (0, 0)" for e
    using bse_overlap_spec[OF S(1) assms(1) _ S(3)[of off], of e] c(1) assms(2) by (auto simp: around_def)
  obtain S1 where S1: "bse_add_ddn a 0 ?S = Some S1" "bfe_add_node a S1 = Some S'"
    using S'(1) ov c(1,3) by (auto simp: bse_insert_node_def Let_def bse_merge_or_add_def bse_right_extend_def node0_def split: Option.bind_splits)
  have "r_height (p_rtree S1) = 0"
    using S1(1) bse_rt_insert_height0[OF _ _ assms(1,2)] c by (auto simp: bse_add_ddn_def Let_def node0_def rtree_initialization_def)
  moreover have "p_rtree S' = p_rtree S1" "p_ddn_head S' = p_ddn_head S1" "d_user_counter (dn S' b) = d_user_counter (dn S1 b)" for b
    using S1(2) by (auto simp: bfe_add_node_def Let_def split: Option.bind_splits if_splits)
  moreover have "d_user_counter (dn S1 b) = 1" for b
  proof -
    obtain S2 where "bse_add_ddn a 0 ?S = Some S2" "\<And>b. reparent (dn ?S b) (dn S2 b)"
      using bse_add_ddn_spec[OF S(1), of "[]" "[]" a 0] c(1) readyD(3)[OF S(2)] by auto
    then have "d_user_counter (dn S1 b) = d_user_counter (dn ?S b)" using S1(1) reparentD(6) by auto
    then show ?thesis by (simp add: cache0_def bse_initialization_def node0_def)
  qed
  ultimately show ?thesis using inv at rm dc by (intro that) auto
qed

section \<open>The cache as a map\<close>

text \<open>
  C7. A write refines the update of a map. For a node whose offset is safe to search (\<open>search_safe\<close>: its slot lies inside the tree, or the byte there is
  not cached), and whatever it overlaps (nothing, one node on either side or around it, or many), \<open>__bse_insert_node\<close> returns without a failed assertion, keeps the list sorted and disjoint, the radix tree in
  step with it and the books of the flush engine balanced, and afterwards the bytes of the new
  node's range are found at its position and all others where they were before.
\<close>

theorem bse_insert_refines:
  assumes "bse_inv S" "ready new S" "search_safe (d_offset (dn S new)) S"
  shows "\<exists>S'. bse_insert_node new S = Some S' \<and> bse_inv S' \<and> ram S' = ram S \<and> bufdev S' = bufdev S \<and>
    (\<forall>i. bse_at S' i = (if covers (dn S new) i then Some (loc (dn S new) i) else bse_at S i))"
proof -
  obtain S' where "bse_insert_node new S = Some S'" "written new S S'" by (rule bse_insert_node_spec[OF assms])
  then show ?thesis by (auto simp: written_def same_rest_def)
qed

theorem bse_insert_refines_witness:
  "\<exists>S new S'. bse_inv S \<and> ready new S \<and> bse_at S 30 = None \<and> bse_insert_node new S = Some S' \<and> bse_at S' 30 = Some (False, 10)"
proof -
  obtain p a where S: "bse_inv (cache0 20 100 p)" "ready a (cache0 20 100 p)" "\<And>i. search_safe i (cache0 20 100 p)"
    by (rule cache0_ready[of 20 100]) auto
  have "bse_at (cache0 20 100 p) 30 = None" by (simp add: bse_at_None cache0_def bse_initialization_def)
  moreover have "dn (cache0 20 100 p) a = node0 20 100" by (simp add: cache0_def bse_initialization_def)
  ultimately show ?thesis using bse_insert_refines[OF S(1,2) S(3)] S(1,2) by (force simp: covers_def loc_def node0_def)
qed

text \<open>
  C8. A read is exact. For a request within \<open>request_ok\<close> (both parts start where the search is safe, at most 1024 nodes on the
  buffer device, one buffer or two that do not overlap), \<open>bse_search\<close> returns and
  leaves the cache as it was; every cached byte of the range is in its place of the answer, whether its page is in memory or on the
  buffer device; nothing else is written; and the list of parts not found has the uncached bytes, each
  once, in order, with the address where they go.
\<close>

theorem bse_search_correct:
  assumes "bse_inv S" "request_ok rn S"
  shows "\<exists>resp' nf. bse_search rn S resp = Some (S, resp', nf) \<and> answer_ok rn S resp resp' nf"
  using bse_search_spec[OF assms] by metis

theorem bse_search_correct_witness:
  "\<exists>S resp' nf. bse_search \<lparr>r_offset = 50, r_len = 100, r_resp_len_1 = 40, r_resp_buf_1 = 960, r_resp_buf_2 = 0\<rparr> S (\<lambda>_. 0) = Some (S, resp', nf) \<and>
    resp' 970 = 60 \<and> resp' 5 = 95 \<and> resp' 20 = 0 \<and> nf \<noteq> []"
proof -
  let ?rn = "\<lparr>r_offset = 50, r_len = 100, r_resp_len_1 = 40, r_resp_buf_1 = 960, r_resp_buf_2 = 0\<rparr>"
  obtain S where S: "bse_inv S" "r_height (p_rtree S) = 0" "\<And>i. bse_at S i = (if 0 \<le> i \<and> i < 0 + 100 then Some (False, i - 0) else None)"
    "ram S = of_int" "\<And>P. disk_count (ddn (smem S)) (filter P (p_ddn_head S)) = 0"
    by (rule first_write[of 0 100]) auto
  have "search_safe 50 S" "search_safe 90 S" by (simp_all add: search_safe_def S(2) slot_of_def)
  then have "request_ok ?rn S" using S(5) by (simp add: request_ok_def overlapping_def BSE_MAX_TO_READ_DDN_def)
  then obtain resp' nf where r: "bse_search ?rn S (\<lambda>_. 0) = Some (S, resp', nf)" "answer_ok ?rn S (\<lambda>_. 0) resp' nf"
    using bse_search_correct[OF S(1)] by blast
  have c: "cached S i = (if 0 \<le> i \<and> i < 100 then Some (of_int i) else None)" for i using S(3,4) by (simp add: cached_def bytes_def)
  have a: "resp' (place ?rn i) = (case cached S i of Some v \<Rightarrow> v | None \<Rightarrow> 0)" if "50 \<le> i" "i < 150" for i
    using r(2) that by (auto simp: answer_ok_def)
  have "resp' 970 = 60" "resp' 5 = 95" "resp' 20 = 0" using a[of 60] a[of 95] a[of 110] by (simp_all add: place_def c)
  moreover have "nf \<noteq> []"
  proof -
    have "\<exists>x \<in> set nf. sr_offset x \<le> 120 \<and> 120 < sr_offset x + sr_len x" using r(2) c[of 120] by (simp add: answer_ok_def)
    then show ?thesis by auto
  qed
  ultimately show ?thesis using r(1) by blast
qed

text \<open>
  C15. The search through the radix tree, with its separate treatment of the first, the middle and the last node, its early
  and late gaps and its 32-bit lengths, computes the same as one loop over all nodes that overlap the range, if its
  offset is safe to search (\<open>search_safe\<close>).
\<close>

theorem bse_search_range_equiv:
  assumes "bse_inv (ss_bse R)" "search_safe soffset (ss_bse R)" "0 \<le> soffset" "soffset < 2 ^ 62" "0 < slen" "slen < 2 ^ 32"
  shows "bse_search_range sbuf slen soffset R =
    walk_range (ddn (smem (ss_bse R))) sbuf soffset (soffset + slen - 1) soffset (overlapping soffset (soffset + slen - 1) (ss_bse R)) R"
  by (rule bse_search_range_walk[OF assms(1) _ assms(2-6)]) (simp_all add: same_places_def same_extent_def)

theorem bse_search_range_equiv_witness:
  "\<exists>R. bse_at (ss_bse R) 50 = Some (False, 50) \<and> bse_search_range 0 100 50 R =
    walk_range (ddn (smem (ss_bse R))) 0 50 149 50 (overlapping 50 149 (ss_bse R)) R"
proof -
  obtain S where S: "bse_inv S" "r_height (p_rtree S) = 0" "\<And>i. bse_at S i = (if 0 \<le> i \<and> i < 0 + 100 then Some (False, i - 0) else None)"
    by (rule first_write[of 0 100]) auto
  let ?R = "\<lparr>ss_bse = S, ss_resp = (\<lambda>_. 0), ss_not_found = [], ss_to_read = []\<rparr>"
  have "search_safe 50 S" by (simp add: search_safe_def S(2) slot_of_def)
  then have "bse_search_range 0 100 50 ?R = walk_range (ddn (smem (ss_bse ?R))) 0 50 (50 + 100 - 1) 50 (overlapping 50 (50 + 100 - 1) (ss_bse ?R)) ?R"
    by (intro bse_search_range_equiv) (simp_all add: S(1))
  then show ?thesis using S(3)[of 50] by (intro exI[of _ ?R]) simp
qed

text \<open>
  C16. The precondition is needed. When the offset lies behind the last slot that the tree can hold and the last node
  reaches over it, \<open>__bse_search_pre_node\<close> takes that node for a predecessor: a read reports the cached
  bytes as not found, so that they are read from the device below, and a write fails an assertion.
\<close>

theorem bse_beyond_lost:
  assumes "bse_inv S" "bse_at S off \<noteq> None" "64 ^ r_height (p_rtree S) \<le> slot_of off" "off < 2 ^ 62"
  shows "(ss_bse R = S \<longrightarrow> bse_search_range sbuf slen off R = Some (sr_not_found sbuf off slen R)) \<and>
    (ready new S \<and> d_offset (dn S new) = off \<longrightarrow> bse_insert_node new S = None)"
proof -
  obtain a where a: "a \<in> set (p_ddn_head S)" "covers (dn S a) off" using assms(2) by (auto simp: bse_at_None)
  show ?thesis using beyond_last(1)[OF assms(1) a assms(3,4)] beyond_not_inserted[OF assms(1)] assms(2,3)
    by (auto simp: bse_search_range_def)
qed

theorem bse_beyond_lost_witness:
  "\<exists>S. bse_at S 16384 = Some (False, 8192) \<and>
    bse_search_range 0 4096 16384 \<lparr>ss_bse = S, ss_resp = (\<lambda>_. 0), ss_not_found = [], ss_to_read = []\<rparr> =
      Some \<lparr>ss_bse = S, ss_resp = (\<lambda>_. 0), ss_not_found = [\<lparr>sr_buf = 0, sr_offset = 16384, sr_len = 4096\<rparr>], ss_to_read = []\<rparr>"
proof -
  obtain S where S: "bse_inv S" "r_height (p_rtree S) = 0"
    "\<And>i. bse_at S i = (if 8192 \<le> i \<and> i < 8192 + 16384 then Some (False, i - 8192) else None)"
    by (rule first_write[of 8192 16384]) auto
  have "64 ^ r_height (p_rtree S) \<le> slot_of 16384" "bse_at S 16384 \<noteq> None" by (simp_all add: S slot_of_def)
  then show ?thesis using bse_beyond_lost[OF S(1), of 16384] S(3)[of 16384] by (intro exI[of _ S]) (simp add: sr_not_found_def)
qed

end
