(* ===== verification/Bfe_Round.thy ===== *)
theory Bfe_Round
  imports Bfe_Extend Bse_Correct
begin

text \<open>
  A round of the flush thread over a page, and the release of a page. \<open>view\<close> is what a reader sees: the cached byte if
  there is one, otherwise the byte of the device below the cache. None of the steps changes it.
\<close>

section \<open>What a reader sees\<close>

definition seen :: "(int \<Rightarrow> u8) \<Rightarrow> bse_private \<Rightarrow> int \<Rightarrow> u8" where
  "seen T S i = (case cached S i of Some v \<Rightarrow> v | None \<Rightarrow> T i)"

definition view :: "bfe_private \<Rightarrow> int \<Rightarrow> u8" where
  "view B = seen (target B) (fb B)"

definition cache_inv :: "nat \<times> node_addr set \<Rightarrow> bfe_private \<Rightarrow> bool" where
  "cache_inv F B \<longleftrightarrow> bse_inv (fb B) \<and> flush_inv F (target B) (fb B)"

lemma view_cong:
  assumes "\<And>i. bse_at (fb B') i = bse_at (fb B) i" "same_rest (fb B) (fb B')" "\<And>i. bse_at (fb B) i = None \<Longrightarrow> target B' i = target B i"
  shows "view B' = view B"
  using assms same_bytes[OF assms(2)] by (intro ext) (simp add: view_def seen_def cached_def split: option.split)

section \<open>Writing the nodes\<close>

lemma extend_request_inv:
  assumes inv: "cache_inv F B" and a: "a \<in> snd F" "\<not> d_flushed (dn (fb B) a)"
  obtains B' ks where "extend_write_request a B = Some B'" "cache_inv F B'" "view B' = view B" "a \<in> set ks" "fb B' = mark_all ks (fb B)" "same_flush B B'"
proof -
  have i: "bse_inv (fb B)" and f: "flush_inv F (target B) (fb B)" using inv by (simp_all add: cache_inv_def)
  obtain B' ks where B': "extend_write_request a B = Some B'" "fb B' = mark_all ks (fb B)" "a \<in> set ks" "set ks \<subseteq> set (p_ddn_head (fb B))"
    "\<And>k. k \<in> set ks \<Longrightarrow> \<not> d_flushed (dn (fb B) k)" "same_flush B B'"
    "\<And>k i. k \<in> set ks \<Longrightarrow> covers (dn (fb B) k) i \<Longrightarrow> target B' i = bytes (fb B) (loc (dn (fb B) k) i)"
    "\<And>i. (\<And>k. k \<in> set ks \<Longrightarrow> \<not> covers (dn (fb B) k) i) \<Longrightarrow> target B' i = target B i"
    by (rule extend_write_request_spec[OF i f a]) blast
  have nd: "\<not> d_flush_done (dn (fb B) k)" if "k \<in> set ks" for k
    using node_okD(6)[OF bse_invD(3)[OF i]] B'(4,5) that by (auto simp: flags_ok_def)
  note M = mark_all_inv[OF i nd]
  have "flush_inv F (target B') (fb B')" unfolding B'(2) by (rule mark_all_flush[OF i f B'(4,5,7,8)])
  then have c: "cache_inv F B'" using M(1) B'(2) by (simp add: cache_inv_def)
  have "view B' = view B"
  proof (rule view_cong)
    show "target B' i = target B i" if "bse_at (fb B) i = None" for i
      by (rule B'(8)) (use that B'(4) in \<open>auto simp: bse_at_None\<close>)
  qed (use M(2,4) B'(2) in simp_all)
  then show ?thesis using that[OF B'(1) c _ B'(3,2,6)] by blast
qed

lemma same_flush_trans: "same_flush B B' \<Longrightarrow> same_flush B' B'' \<Longrightarrow> same_flush B B''"
  by (simp add: same_flush_def)

lemma bfe_write_nodes_spec:
  assumes "cache_inv F B" "set nps \<subseteq> snd F"
  shows "\<exists>B' ks. bfe_write_nodes nps B = Some B' \<and> cache_inv F B' \<and> view B' = view B \<and> fb B' = mark_all ks (fb B) \<and> same_flush B B' \<and>
    (\<forall>a \<in> set nps. d_flushed (dn (fb B') a))"
  using assms
proof (induction nps arbitrary: B)
  case Nil
  have "fb B = mark_all [] (fb B)" "same_flush B B" by (simp_all add: same_flush_def)
  then show ?case using Nil.prems(1) by (metis bfe_write_nodes.simps(1) empty_iff empty_set)
next
  case (Cons a nps)
  obtain B1 ks where B1: "(if \<not> d_flushed (dn (fb B) a) then extend_write_request a B else Some B) = Some B1" "cache_inv F B1" "view B1 = view B"
    "fb B1 = mark_all ks (fb B)" "same_flush B B1" "d_flushed (dn (fb B1) a)"
  proof (cases "d_flushed (dn (fb B) a)")
    case True
    have "fb B = mark_all [] (fb B)" "same_flush B B" by (simp_all add: same_flush_def)
    then show ?thesis using that[of B "[]"] True Cons.prems(1) by simp
  next
    case False
    have "a \<in> snd F" using Cons.prems(2) by simp
    then obtain B1 ks where "extend_write_request a B = Some B1" "cache_inv F B1" "view B1 = view B" "a \<in> set ks" "fb B1 = mark_all ks (fb B)" "same_flush B B1"
      using extend_request_inv[OF Cons.prems(1) _ False] by metis
    then show ?thesis using that[of B1 ks] False by simp
  qed
  obtain B2 ls where B2: "bfe_write_nodes nps B1 = Some B2" "cache_inv F B2" "view B2 = view B1" "fb B2 = mark_all ls (fb B1)" "same_flush B1 B2"
    "\<forall>b \<in> set nps. d_flushed (dn (fb B2) b)" using Cons.IH[OF B1(2)] Cons.prems(2) by auto
  have m: "fb B2 = mark_all (ks @ ls) (fb B)" using B1(4) B2(4) by (simp add: mark_all_append)
  have "d_flushed (dn (fb B2) a)" using B1(6) unfolding B2(4) by simp
  moreover have "bfe_write_nodes (a # nps) B = Some B2" using B1(1) B2(1) by simp
  ultimately show ?case using B2(2,3,6) B1(3) m same_flush_trans[OF B1(5) B2(5)] by auto
qed

section \<open>Steps on one node\<close>

text \<open>A step that leaves the extents and the index alone.\<close>

definition same_extents :: "bse_private \<Rightarrow> bse_private \<Rightarrow> bool" where
  "same_extents S S' \<longleftrightarrow> same_rest S S' \<and> p_ddn_head S' = p_ddn_head S \<and> ddn_pool S' = ddn_pool S \<and> p_rtree S' = p_rtree S \<and>
     btn (smem S') = btn (smem S) \<and> btn_pool (smem S') = btn_pool (smem S) \<and>
     (\<forall>a. d_offset (dn S' a) = d_offset (dn S a) \<and> d_len (dn S' a) = d_len (dn S a) \<and> d_pos (dn S' a) = d_pos (dn S a) \<and>
        d_location_disk (dn S' a) = d_location_disk (dn S a) \<and> d_parent (dn S' a) = d_parent (dn S a) \<and>
        d_user_counter (dn S' a) = d_user_counter (dn S a) \<and> d_page_node (dn S' a) = d_page_node (dn S a))"

lemma same_extents_inv:
  assumes inv: "bse_inv S" and e: "same_extents S S'" and b: "books_ok S'" and f: "\<And>a. a \<in> set (p_ddn_head S) \<Longrightarrow> flags_ok (dn S' a)"
  shows "bse_inv S'" "bse_at S' i = bse_at S i"
proof -
  have x: "d_offset (dn S' a) = d_offset (dn S a)" "d_len (dn S' a) = d_len (dn S a)" "d_pos (dn S' a) = d_pos (dn S a)"
    "d_location_disk (dn S' a) = d_location_disk (dn S a)" "d_parent (dn S' a) = d_parent (dn S a)"
    "d_user_counter (dn S' a) = d_user_counter (dn S a)" for a using e by (simp_all add: same_extents_def)
  have i: "p_ddn_head S' = p_ddn_head S" "ddn_pool S' = ddn_pool S" "p_rtree S' = p_rtree S"
    "btn (smem S') = btn (smem S)" "btn_pool (smem S') = btn_pool (smem S)" using e by (simp_all add: same_extents_def)
  have so: "ends_before (ddn (smem S')) = ends_before (ddn (smem S))" by (intro ext) (simp add: ends_before_def x)
  have "bse_tree (kf S') (p_ddn_head S) (p_rtree S) (smem S')" by (rule bse_tree_cong[OF bse_invD(4)[OF inv]]) (simp_all add: i x)
  moreover have "node_ok' S' a" if "a \<in> set (p_ddn_head S)" for a
    using bse_invD(3)[OF inv that] f[OF that] by (simp add: node_ok'_def node_wf_def i x)
  ultimately show "bse_inv S'" using b bse_invD(2)[OF inv] by (simp add: bse_inv_def i so)
  show "bse_at S' i = bse_at S i" by (simp add: bse_at_def covers_def loc_def i x)
qed

lemma flush_inv_step:
  assumes f: "flush_inv F T S" and s: "same_rest S S'" and o: "\<And>b. b \<noteq> a \<Longrightarrow> untouched S S' b"
    and F: "\<And>b. b \<noteq> a \<Longrightarrow> b \<in> snd F' \<longleftrightarrow> b \<in> snd F" "fst F' = fst F" and a: "node_flush F' T S' a"
    and r: "\<And>p. distinct (pp_release_head (pages S' p))"
  shows "flush_inv F' T S'"
proof -
  have "node_flush F' T S' b" if "b \<noteq> a" for b
  proof -
    have "node_flush F T S b" using f by (simp add: flush_inv_def)
    then have "node_flush F' T S b" using F(1)[OF that] F(2) unfolding node_flush_def by simp
    then show ?thesis using node_flush_cong[OF o[OF that] s] by simp
  qed
  then have "node_flush F' T S' b" for b using a by (cases "b = a") auto
  then show ?thesis using f r s by (simp add: flush_inv_def same_rest_def)
qed

lemma flush_listD:
  assumes "books_ok S" "a \<in> set (pp_flush_head (pages S p))"
  shows "d_page_node (dn S a) = p" "a \<in> pool_used (ddn_pool S)" "d_where (dn S a) = DDN_WHERE_FLUSH"
  using assms by (auto simp: books_ok_def flush_lists_ok_def)

text \<open>A node is done: it leaves the flush list or the hands of the flush thread and waits for the release of the page.\<close>

definition done_step :: "node_addr \<Rightarrow> bse_private \<Rightarrow> bse_private \<Rightarrow> bool" where
  "done_step a S S' \<longleftrightarrow> (let p = d_page_node (dn S a) in
     ddn (smem S') = (ddn (smem S))(a := (dn S a)\<lparr>d_where := DDN_WHERE_RELEASE, d_flush_done := True\<rparr>) \<and>
     same_rest S S' \<and> p_ddn_head S' = p_ddn_head S \<and> ddn_pool S' = ddn_pool S \<and> p_rtree S' = p_rtree S \<and>
     btn (smem S') = btn (smem S) \<and> btn_pool (smem S') = btn_pool (smem S) \<and>
     (\<forall>q. pages S' q = (if q = p then (pages S p)\<lparr>pp_flush_head := remove1 a (pp_flush_head (pages S p)),
        pp_release_head := pp_release_head (pages S p) @ [a], pp_flushed := u32_of (pp_flushed (pages S p) + d_len (dn S a))\<rparr> else pages S q)))"

lemma done_step_inv:
  assumes inv: "bse_inv S" and f: "flush_inv F T S" and a: "a \<in> pool_used (ddn_pool S)" "d_where (dn S a) = DDN_WHERE_FLUSH"
    "d_flushing (dn S a)" "d_flushed (dn S a)" "\<not> d_flush_done (dn S a)" and st: "done_step a S S'"
  shows "bse_inv S'" "bse_at S' i = bse_at S i" "same_rest S S'" "flush_inv (fst F, snd F - {a}) T S'" "total S' = total S"
    "pp_flushed (pages S' (d_page_node (dn S a))) \<le> p_pagesz S" "full S q \<Longrightarrow> full S' q"
proof -
  let ?p = "d_page_node (dn S a)" let ?x = "(dn S a)\<lparr>d_where := DDN_WHERE_RELEASE, d_flush_done := True\<rparr>"
  have s: "ddn (smem S') = (ddn (smem S))(a := ?x)" "same_rest S S'" "p_ddn_head S' = p_ddn_head S" "ddn_pool S' = ddn_pool S" "p_rtree S' = p_rtree S"
    "btn (smem S') = btn (smem S)" "btn_pool (smem S') = btn_pool (smem S)"
    and pg: "\<And>q. pages S' q = (if q = ?p then (pages S ?p)\<lparr>pp_flush_head := remove1 a (pp_flush_head (pages S ?p)),
        pp_release_head := pp_release_head (pages S ?p) @ [a], pp_flushed := u32_of (pp_flushed (pages S ?p) + d_len (dn S a))\<rparr> else pages S q)"
    using st by (simp_all add: done_step_def Let_def)
  note b = bse_invD(1)[OF inv]
  have fl: "flush_lists_ok S" using b by (simp add: books_ok_def)
  have w: "weight q (dn S a) = (if q = ?p then d_len (dn S a) else 0)" "weight q (dn S' a) = 0" for q using a s(1) by (auto simp: weight_def)
  have l0: "0 < d_len (dn S a)" using b a(1,2) by (simp add: books_ok_def)
  have u: "u32_of (pp_flushed (pages S ?p) + d_len (dn S a)) = pp_flushed (pages S ?p) + d_len (dn S a)" "pp_flushed (pages S ?p) + d_len (dn S a) \<le> p_pagesz S"
    using books_bounds(1,2)[OF b a(1), of ?p] books_bounds(3)[OF b a(1)] w(1)[of ?p] l0 by simp_all
  show "pp_flushed (pages S' ?p) \<le> p_pagesz S" using u pg[of ?p] by simp
  show sr: "same_rest S S'" by (rule s(2))
  have ac: "account a S S'" using pg a(5) by (simp add: account_def)
  have wn: "d_where (dn S a) \<noteq> DDN_WHERE_NO" using a(2) by simp
  show "full S q \<Longrightarrow> full S' q" by (rule full_kept[OF b a(1) wn sr ac])
  have ps: "p_pagesz S' = p_pagesz S" using s(2) by (simp add: same_rest_def)
  have fo: "flush_lists_ok S'" unfolding flush_lists_ok_def
  proof (intro allI conjI ballI)
    fix q
    show "distinct (pp_flush_head (pages S' q))" using fl pg[of q] by (simp add: flush_lists_ok_def)
    fix c assume c: "c \<in> set (pp_flush_head (pages S' q))"
    then have cq: "c \<in> set (pp_flush_head (pages S q))" using pg[of q] set_remove1_subset[of a "pp_flush_head (pages S ?p)"] by (auto split: if_splits)
    have "c \<noteq> a"
    proof
      assume ca: "c = a"
      then have "q = ?p" using cq fl by (simp add: flush_lists_ok_def)
      then show False using c ca pg[of q] fl by (simp add: flush_lists_ok_def)
    qed
    then show "c \<in> pool_used (ddn_pool S')" "d_where (dn S' c) = DDN_WHERE_FLUSH" "d_page_node (dn S' c) = q"
      using cq fl s(1,4) by (simp_all add: flush_lists_ok_def)
  qed
  have fw: "pp_flushed (pages S' q) = pp_flushed (pages S q) + (weight q (dn S a) - weight q (dn S' a))" for q using pg[of q] u w by simp
  have B: "books_ok S'" "total S' = total S"
    by (rule books_step[OF b a(1) s(4) ps _ fw _ _ fo]; use s(1) w l0 in simp)+
  show "total S' = total S" by (rule B(2))
  have ex: "same_extents S S'" using s by (simp add: same_extents_def)
  have "flags_ok (dn S' c)" if "c \<in> set (p_ddn_head S)" for c
    using node_okD(6)[OF bse_invD(3)[OF inv that]] a s(1) by (cases "c = a") (auto simp: flags_ok_def)
  then show "bse_inv S'" "bse_at S' i = bse_at S i" using same_extents_inv[OF inv ex B(1)] by blast+
  have nr: "a \<notin> set (pp_release_head (pages S q))" for q using flush_invD(5)[OF f, of a q] a(2) by auto
  have nh: "a \<notin> set (pp_flush_head (pages S' q))" for q
  proof
    assume "a \<in> set (pp_flush_head (pages S' q))"
    then have "d_where (dn S' a) = DDN_WHERE_FLUSH" using fo by (simp add: flush_lists_ok_def)
    then show False using s(1) by simp
  qed
  show "flush_inv (fst F, snd F - {a}) T S'"
  proof (rule flush_inv_step[OF f sr, of a])
    show "untouched S S' c" if "c \<noteq> a" for c using that s(1,3,4) pg by (auto simp: untouched_def)
    show "distinct (pp_release_head (pages S' q))" for q using flush_invD(7)[OF f] nr pg[of q] by simp
    have "on_target T S' ?x = on_target T S (dn S a)" by (simp add: on_target_def same_bytes[OF sr] covers_def loc_def)
    moreover have "a \<in> set (pp_release_head (pages S' q)) \<longleftrightarrow> q = ?p" for q using pg[of q] nr by simp
    moreover have "p_max_flush_size S' = p_max_flush_size S" using sr by (simp add: same_rest_def)
    ultimately show "node_flush (fst F, snd F - {a}) T S' a"
      using a nh flush_invD(1,2,8,11)[OF f, of a] s(1,3,4) unfolding node_flush_def Let_def by (simp add: fx_ok_def)
  qed simp_all
qed

text \<open>A node of a flush list is taken by the flush thread.\<close>

definition take_step :: "node_addr \<Rightarrow> bse_private \<Rightarrow> bse_private" where
  "take_step a S = dn_upd a (\<lambda>x. x\<lparr>d_flushing := True, d_flush_offset := d_offset x, d_flush_len := d_len x, d_flush_pos := d_pos x\<rparr>)
     (page_upd (d_page_node (dn S a)) (\<lambda>y. y\<lparr>pp_flush_head := remove1 a (pp_flush_head y)\<rparr>) S)"

lemma take_step_inv:
  assumes inv: "bse_inv S" and f: "flush_inv F T S" and a: "a \<in> set (pp_flush_head (pages S (fst F)))" "\<not> d_flushed (dn S a)"
  shows "bse_inv (take_step a S)" "bse_at (take_step a S) i = bse_at S i" "same_rest S (take_step a S)"
    "flush_inv (fst F, insert a (snd F)) T (take_step a S)" "total (take_step a S) = total S" "full S q \<Longrightarrow> full (take_step a S) q"
proof -
  let ?S = "take_step a S" let ?p = "fst F"
  note b = bse_invD(1)[OF inv]
  have fl: "flush_lists_ok S" using b by (simp add: books_ok_def)
  have p: "d_page_node (dn S a) = ?p" "a \<in> pool_used (ddn_pool S)" "d_where (dn S a) = DDN_WHERE_FLUSH" using flush_listD[OF b a(1)] by simp_all
  have al: "a \<in> set (p_ddn_head S)" "\<not> d_flush_done (dn S a)" using flush_invD(3)[OF f a(1)] a(2) by auto
  let ?x = "(dn S a)\<lparr>d_flushing := True, d_flush_offset := d_offset (dn S a), d_flush_len := d_len (dn S a), d_flush_pos := d_pos (dn S a)\<rparr>"
  have s: "ddn (smem ?S) = (ddn (smem S))(a := ?x)" "same_rest S ?S" "p_ddn_head ?S = p_ddn_head S" "ddn_pool ?S = ddn_pool S" "p_rtree ?S = p_rtree S"
    "btn (smem ?S) = btn (smem S)" "btn_pool (smem ?S) = btn_pool (smem S)"
    "\<And>q. pages ?S q = (if q = ?p then (pages S ?p)\<lparr>pp_flush_head := remove1 a (pp_flush_head (pages S ?p))\<rparr> else pages S q)"
    by (simp_all add: take_step_def same_rest_def p(1))
  show "same_rest S ?S" by (rule s(2))
  show "full S q \<Longrightarrow> full ?S q" using s(2,8) by (auto simp: full_def same_rest_def)
  have ps: "p_pagesz ?S = p_pagesz S" using s(2) by (simp add: same_rest_def)
  have h: "set (pp_flush_head (pages ?S q)) = set (pp_flush_head (pages S q)) - {a}" "distinct (pp_flush_head (pages ?S q))" for q
    using fl p(1) s(8)[of q] by (auto simp: flush_lists_ok_def)
  have fo: "flush_lists_ok ?S" using fl h s(1,4) by (auto simp: flush_lists_ok_def)
  have w: "weight q (dn ?S a) = weight q (dn S a)" for q using s(1) by (simp add: weight_def)
  have B: "books_ok ?S" "total ?S = total S"
    by (rule books_step[OF b p(2) s(4) ps _ _ _ _ fo]; use s(1,8) w b p(2,3) in \<open>simp add: books_ok_def\<close>)+
  show "total ?S = total S" by (rule B(2))
  have ex: "same_extents S ?S" using s by (simp add: same_extents_def)
  have "flags_ok (dn ?S c)" if "c \<in> set (p_ddn_head S)" for c
    using node_okD(6)[OF bse_invD(3)[OF inv that]] s(1) by (cases "c = a") (auto simp: flags_ok_def)
  then show "bse_inv ?S" "bse_at ?S i = bse_at S i" using same_extents_inv[OF inv ex B(1)] by blast+
  have rl: "pp_release_head (pages ?S q) = pp_release_head (pages S q)" for q using s(8)[of q] by simp
  show "flush_inv (fst F, insert a (snd F)) T ?S"
  proof (rule flush_inv_step[OF f s(2), of a])
    show "untouched S ?S c" if "c \<noteq> a" for c using that s(1,3,4) h rl by (simp add: untouched_def)
    show "distinct (pp_release_head (pages ?S q))" for q using flush_invD(7)[OF f] rl by simp
    have "p_max_flush_size ?S = p_max_flush_size S" using s(2) by (simp add: same_rest_def)
    moreover have "a \<notin> set (pp_release_head (pages S q))" for q using flush_invD(5)[OF f, of a q] p(3) by auto
    ultimately show "node_flush (fst F, insert a (snd F)) T ?S a"
      using a al p h rl flush_invD(8,11)[OF f, of a] s(1,3,4) unfolding node_flush_def Let_def by (simp add: fx_ok_def)
  qed simp_all
qed

section \<open>Collecting a page\<close>

lemma note_seq_sel [simp]: "fb (note_seq p q B) = fb B" "target (note_seq p q B) = target B" "p_flush_page_head (note_seq p q B) = p_flush_page_head B"
  "pp_where (fpage (note_seq p q B) r) = pp_where (fpage B r)" "p_ssd_mode (note_seq p q B) = p_ssd_mode B" "p_bre (note_seq p q B) = p_bre B"
  "pp_coalesced (fpage (note_seq p q B) r) = pp_coalesced (fpage B r)"
  by (simp_all add: note_seq_def fpage_upd_def)

text \<open>What the steps of a round leave of the flush engine.\<close>

definition frame :: "bfe_private \<Rightarrow> bfe_private \<Rightarrow> bool" where
  "frame B B' \<longleftrightarrow> p_flush_page_head B' = p_flush_page_head B \<and> (\<forall>r. pp_where (fpage B' r) = pp_where (fpage B r)) \<and>
     (\<forall>r. pp_coalesced (fpage B' r) = pp_coalesced (fpage B r)) \<and> p_ssd_mode B' = p_ssd_mode B \<and> p_bre B' = p_bre B \<and>
     total (fb B') = total (fb B) \<and> (\<forall>r. pp_occupied (pages (fb B') r) = pp_occupied (pages (fb B) r)) \<and> same_rest (fb B) (fb B') \<and>
     (\<forall>r. full (fb B) r \<longrightarrow> full (fb B') r)"

lemma frame_trans: "frame B B' \<Longrightarrow> frame B' B'' \<Longrightarrow> frame B B''"
  by (simp add: frame_def same_rest_def)

lemma cache_invI:
  assumes "bse_inv (fb B')" "flush_inv F' (target B) (fb B')" "target B' = target B" "\<And>i. bse_at (fb B') i = bse_at (fb B) i" "same_rest (fb B) (fb B')"
  shows "cache_inv F' B' \<and> view B' = view B"
  using assms view_cong[OF assms(4,5)] by (simp add: cache_inv_def)

lemma bfe_collect_step:
  assumes inv: "cache_inv (p, F) B" and h: "pp_flush_head (pages (fb B) p) = np # nps"
  shows "\<exists>B1 tf q. bfe_collect p (np # nps) to_flush seq B = bfe_collect p nps (to_flush @ tf) q B1 \<and> cache_inv (p, F \<union> set tf) B1 \<and> view B1 = view B \<and>
    pp_flush_head (pages (fb B1) p) = nps \<and> frame B B1 \<and> (tf = [] \<or> tf = [np] \<and> np \<notin> F)"
proof -
  let ?S = "fb B" let ?x = "dn (fb B) np"
  have i: "bse_inv ?S" and f: "flush_inv (p, F) (target B) ?S" using inv by (simp_all add: cache_inv_def)
  have fl: "d_page_node ?x = p" "np \<in> pool_used (ddn_pool ?S)" "d_where ?x = DDN_WHERE_FLUSH"
    using flush_listD[OF bse_invD(1)[OF i], of np p] h by simp_all
  have n: "d_flushing ?x = d_flushed ?x" "\<not> d_flush_done ?x" using flush_invD(3)[OF f, of np p] h by auto
  have nin: "np \<in> set (pp_flush_head (pages ?S p))" using h by simp
  then have nF: "np \<notin> F" using flush_invD(4)[OF f, of np] by auto
  show ?thesis
  proof (cases "d_flushed ?x")
    case True
    let ?S1 = "dn_upd np (\<lambda>x. x\<lparr>d_where := DDN_WHERE_RELEASE, d_flush_done := True\<rparr>)
      (page_upd p (\<lambda>y. y\<lparr>pp_release_head := pp_release_head y @ [np], pp_flushed := u32_of (pp_flushed y + d_len ?x)\<rparr>)
      (page_upd p (\<lambda>y. y\<lparr>pp_flush_head := remove1 np (pp_flush_head y)\<rparr>) ?S))"
    have st: "done_step np ?S ?S1" using fl(1) by (simp add: done_step_def Let_def same_rest_def)
    note D = done_step_inv[OF i f fl(2,3) _ True n(2) st]
    let ?B1 = "note_seq p (d_seq ?x) (B\<lparr>fb := ?S1\<rparr>)"
    have ev: "bfe_collect p (np # nps) to_flush seq B = bfe_collect p nps (to_flush @ []) (d_seq ?x) ?B1"
      using True n fl D(6) by (simp add: Let_def)
    have "cache_inv (p, F) ?B1 \<and> view ?B1 = view B" by (rule cache_invI) (use D True n nF in simp_all)
    moreover have "frame B ?B1" using D(3,5,7) True n by (simp add: frame_def)
    ultimately show ?thesis using ev h by (intro exI[of _ ?B1] exI[of _ "[]"] exI[of _ "d_seq ?x"]) simp
  next
    case False
    let ?B1 = "note_seq p (d_seq ?x) (B\<lparr>fb := take_step np ?S\<rparr>)"
    have hp: "np \<in> set (pp_flush_head (pages ?S (fst (p, F))))" using h by simp
    note D = take_step_inv[OF i f hp False]
    have ev: "bfe_collect p (np # nps) to_flush seq B = bfe_collect p nps (to_flush @ [np]) (d_seq ?x) ?B1"
      using False n fl by (simp add: Let_def take_step_def)
    have "cache_inv (p, F \<union> {np}) ?B1 \<and> view ?B1 = view B" by (rule cache_invI) (use D in simp_all)
    moreover have "frame B ?B1" using D(3,5,6) by (simp add: frame_def) (simp add: take_step_def)
    moreover have "pp_flush_head (pages (fb ?B1) p) = nps" using h fl(1) by (simp add: take_step_def)
    ultimately show ?thesis using ev nF by (intro exI[of _ ?B1] exI[of _ "[np]"] exI[of _ "d_seq ?x"]) simp
  qed
qed

lemma bfe_collect_spec:
  assumes "cache_inv (p, F) B" "pp_flush_head (pages (fb B) p) = nps" "set to_flush = F" "distinct to_flush"
  shows "\<exists>tf q B'. bfe_collect p nps to_flush seq B = Some (tf, q, B') \<and> cache_inv (p, set tf) B' \<and> view B' = view B \<and> distinct tf \<and>
    pp_flush_head (pages (fb B') p) = [] \<and> frame B B'"
  using assms
proof (induction nps arbitrary: F B to_flush seq)
  case Nil
  then show ?case by (simp add: frame_def same_rest_def)
next
  case (Cons np nps)
  obtain B1 tf q where B1: "bfe_collect p (np # nps) to_flush seq B = bfe_collect p nps (to_flush @ tf) q B1" "cache_inv (p, F \<union> set tf) B1"
    "view B1 = view B" "pp_flush_head (pages (fb B1) p) = nps" "frame B B1" "tf = [] \<or> tf = [np] \<and> np \<notin> F"
    using bfe_collect_step[OF Cons.prems(1,2)] by metis
  have d: "set (to_flush @ tf) = F \<union> set tf" "distinct (to_flush @ tf)" using Cons.prems(3,4) B1(6) by auto
  show ?case using Cons.IH[OF B1(2,4) d, of q] B1(1,3) frame_trans[OF B1(5)] by metis
qed

section \<open>Finishing a page\<close>

text \<open>The nodes join the release list after all of them are done; one at a time gives the same state.\<close>

definition splice :: "nat \<Rightarrow> node_addr list \<Rightarrow> bse_private \<Rightarrow> bse_private" where
  "splice p zs S = page_upd p (\<lambda>y. y\<lparr>pp_release_head := pp_release_head y @ zs\<rparr>) S"

definition finish_one :: "nat \<Rightarrow> node_addr \<Rightarrow> bse_private \<Rightarrow> bse_private" where
  "finish_one p np S = dn_upd np (\<lambda>x. x\<lparr>d_where := DDN_WHERE_RELEASE, d_flush_done := True\<rparr>)
     (page_upd p (\<lambda>y. y\<lparr>pp_flushed := u32_of (pp_flushed y + d_len (dn S np))\<rparr>) S)"

lemma splice_one: "finish_one p np (splice p zs S) = splice p zs (finish_one p np S)"
  by (rule bse_private.equality; cases "pages S p") (simp_all add: finish_one_def splice_def page_upd_def dn_upd_def)

lemma splice_append: "splice p (xs @ ys) S = splice p ys (splice p xs S)"
  by (simp add: splice_def page_upd_def)

lemma finish_nodes_Cons:
  "finish_nodes p (np # nps) S = (if d_flushing (dn S np) \<and> d_flushed (dn S np) \<and> \<not> d_flush_done (dn S np) \<and>
     u32_of (pp_flushed (pages S p) + d_len (dn S np)) \<le> p_pagesz S then finish_nodes p nps (finish_one p np S) else None)"
  by (cases "d_flushing (dn S np) \<and> d_flushed (dn S np) \<and> \<not> d_flush_done (dn S np)";
      cases "u32_of (pp_flushed (pages S p) + d_len (dn S np)) \<le> p_pagesz S") (auto simp: Let_def finish_one_def)

lemma finish_splice: "finish_nodes p nps (splice p zs S) = map_option (splice p zs) (finish_nodes p nps S)"
proof (induction nps arbitrary: S)
  case (Cons np nps)
  have "dn (splice p zs S) = dn S" "pp_flushed (pages (splice p zs S) p) = pp_flushed (pages S p)" "p_pagesz (splice p zs S) = p_pagesz S"
    by (simp_all add: splice_def)
  then show ?case unfolding finish_nodes_Cons splice_one Cons by simp
qed simp

lemma finish_nodes_spec:
  assumes "bse_inv S" "flush_inv (p, set nps) T S" "distinct nps" "\<And>a. a \<in> set nps \<Longrightarrow> d_flushed (dn S a)"
  shows "\<exists>S'. finish_nodes p nps S = Some S' \<and> bse_inv (splice p nps S') \<and> flush_inv (p, {}) T (splice p nps S') \<and>
    (\<forall>i. bse_at (splice p nps S') i = bse_at S i) \<and> same_rest S (splice p nps S') \<and> total (splice p nps S') = total S \<and>
    (\<forall>q. pp_flush_head (pages S' q) = pp_flush_head (pages S q) \<and> pp_occupied (pages S' q) = pp_occupied (pages S q)) \<and>
    (\<forall>q. full S q \<longrightarrow> full (splice p nps S') q)"
  using assms
proof (induction nps arbitrary: S)
  case Nil
  have "splice p [] S = S" by (simp add: splice_def page_upd_def)
  then show ?case using Nil by (simp add: same_rest_def)
next
  case (Cons a nps)
  let ?S = "splice p [a] (finish_one p a S)"
  have a: "a \<in> pool_used (ddn_pool S)" "d_where (dn S a) = DDN_WHERE_FLUSH" "d_flushing (dn S a)" "\<not> d_flush_done (dn S a)" "d_page_node (dn S a) = p"
    "\<And>q. a \<notin> set (pp_flush_head (pages S q))" using flush_invD(4)[OF Cons.prems(2), of a] by auto
  have st: "done_step a S ?S"
    using a(5,6) by (simp add: done_step_def Let_def splice_def finish_one_def same_rest_def remove1_idem)
  have af: "d_flushed (dn S a)" using Cons.prems(4)[of a] by simp
  note D = done_step_inv[OF Cons.prems(1,2) a(1-3) af a(4) st]
  have d: "ddn (smem ?S) = (ddn (smem S))(a := (dn S a)\<lparr>d_where := DDN_WHERE_RELEASE, d_flush_done := True\<rparr>)" by (simp add: splice_def finish_one_def)
  have dis: "distinct nps" using Cons.prems(3) by simp
  have fl: "d_flushed (dn ?S b)" if "b \<in> set nps" for b using Cons.prems(4)[of b] that d by (cases "b = a") simp_all
  have fS: "flush_inv (p, set nps) T ?S" using D(4) Cons.prems(3) by simp
  obtain S' where S': "finish_nodes p nps ?S = Some S'" "bse_inv (splice p nps S')" "flush_inv (p, {}) T (splice p nps S')"
    "\<And>i. bse_at (splice p nps S') i = bse_at ?S i" "same_rest ?S (splice p nps S')" "total (splice p nps S') = total ?S"
    "\<And>q. pp_flush_head (pages S' q) = pp_flush_head (pages ?S q) \<and> pp_occupied (pages S' q) = pp_occupied (pages ?S q)"
    "\<And>q. full ?S q \<Longrightarrow> full (splice p nps S') q"
    using Cons.IH[OF D(1) fS dis fl] by blast
  obtain S2 where S2: "finish_nodes p nps (finish_one p a S) = Some S2" "S' = splice p [a] S2"
    using S'(1) unfolding finish_splice by auto
  have "pp_flushed (pages ?S p) = u32_of (pp_flushed (pages S p) + d_len (dn S a))" by (simp add: splice_def finish_one_def)
  then have "finish_nodes p (a # nps) S = Some S2" using S2(1) a Cons.prems(4) D(6) unfolding finish_nodes_Cons by simp
  moreover have sp: "splice p (a # nps) S2 = splice p nps S'" using S2(2) splice_append[of p "[a]" nps] by simp
  moreover have "pp_flush_head (pages S2 q) = pp_flush_head (pages S q) \<and> pp_occupied (pages S2 q) = pp_occupied (pages S q)" for q
    using S'(7)[of q] unfolding S2(2) by (simp add: splice_def finish_one_def split: if_splits)
  moreover have "same_rest S (splice p nps S')" using D(3) S'(5) by (simp add: same_rest_def)
  moreover have "full (splice p nps S') q" if "full S q" for q by (rule S'(8)[OF D(7)[OF that]])
  ultimately show ?case using S'(2-4,6) D(2,5) by (intro exI[of _ S2]) (simp only: sp, simp)
qed

section \<open>Releasing a page\<close>

lemma put_inv:
  assumes inv: "bse_inv S" and a: "a \<in> pool_used (ddn_pool S)" "a \<notin> set (p_ddn_head S)" "d_user_counter (dn S a) = 1"
    "d_flush_done (dn S a)" "d_where (dn S a) = DDN_WHERE_RELEASE"
  obtains S' where "ddn_put_node a S = Some (0, S')" "bse_inv S'" "\<And>i. bse_at S' i = bse_at S i" "pool_used (ddn_pool S') = pool_used (ddn_pool S) - {a}"
    "\<And>b. b \<noteq> a \<Longrightarrow> dn S' b = dn S b" "p_ddn_head S' = p_ddn_head S" "pages S' = pages S" "same_rest S S'" "total S' = total S"
proof -
  note b = bse_invD(1)[OF inv]
  have pi: "pool_inv (ddn_pool S)" using b by (simp add: books_ok_def)
  obtain p where p: "node_put_node a (ddn_pool S) = Some p" "pool_inv p" "pool_used p = pool_used (ddn_pool S) - {a}"
    using pi a(1) by (metis np.putE)
  let ?S = "(dn_upd a (\<lambda>x. x\<lparr>d_user_counter := 0\<rparr>) S)\<lparr>ddn_pool := p\<rparr>"
  have put: "ddn_put_node a S = Some (0, ?S)" using p(1) a(3) by (simp add: ddn_put_node_def)
  have nf: "a \<notin> set (pp_flush_head (pages S q))" for q using flush_listD(3)[OF b, of a q] a(5) by auto
  have w: "weight q (dn ?S c) = weight q (dn S c)" "weight q (dn S a) = 0" for q c using a(4) by (auto simp: weight_def)
  have "total ?S q = total S q" for q unfolding total_def w(1) using p(3) a(1) w(2) by (simp add: sum_diff1)
  then have t: "total ?S = total S" by auto
  have "flush_lists_ok ?S" using b nf p(3) unfolding books_ok_def flush_lists_ok_def by auto
  then have bk: "books_ok ?S" using b t p(2,3) unfolding books_ok_def by auto
  have so: "ends_before (ddn (smem ?S)) = ends_before (ddn (smem S))" by (intro ext) (simp add: ends_before_def)
  have "bse_tree (kf ?S) (p_ddn_head S) (p_rtree S) (smem ?S)" by (rule bse_tree_cong[OF bse_invD(4)[OF inv]]) simp_all
  moreover have "node_ok' ?S c" if "c \<in> set (p_ddn_head S)" for c
  proof -
    have "c \<noteq> a" using a(2) that by auto
    then show ?thesis using bse_invD(3)[OF inv that] p(3) by (simp add: node_ok'_def)
  qed
  ultimately have i: "bse_inv ?S" using bk bse_invD(2)[OF inv] unfolding bse_inv_def so by simp
  have "covers (dn ?S c) i = covers (dn S c) i" "loc (dn ?S c) i = loc (dn S c) i" for c i by (simp_all add: covers_def loc_def)
  then have at: "bse_at ?S i = bse_at S i" for i unfolding bse_at_def by simp
  show ?thesis by (rule that[OF put i at]) (use p(3) t in \<open>simp_all add: same_rest_def\<close>)
qed

text \<open>One node of the release list.\<close>

definition unlist :: "nat \<Rightarrow> node_addr \<Rightarrow> bse_private \<Rightarrow> bse_private" where
  "unlist p a S = page_upd p (\<lambda>y. y\<lparr>pp_release_head := remove1 a (pp_release_head y)\<rparr>) S"

lemma unlist_inv:
  assumes "bse_inv S"
  shows "bse_inv (unlist p a S)" "bse_at (unlist p a S) i = bse_at S i" "same_rest S (unlist p a S)" "total (unlist p a S) = total S"
proof -
  let ?S = "unlist p a S"
  have e: "same_extents S ?S" by (simp add: same_extents_def unlist_def same_rest_def)
  show t: "total ?S = total S" by (intro ext) (simp add: total_def unlist_def)
  have "books_ok ?S" using bse_invD(1)[OF assms] t by (simp add: books_ok_def flush_lists_ok_def unlist_def)
  then show "bse_inv ?S" "bse_at ?S i = bse_at S i"
    using same_extents_inv[OF assms e] node_okD(6)[OF bse_invD(3)[OF assms]] by (simp_all add: unlist_def)
  show "same_rest S ?S" using e by (simp add: same_extents_def)
qed

lemma bse_del_any:
  assumes inv: "bse_inv S" and a: "d_user_counter (dn S a) = 1"
  obtains S' where "bse_del_node a S = Some S'" "bse_inv S'" "set (p_ddn_head S') = set (p_ddn_head S) - {a}"
    "\<And>i. bse_at S' i = (if a \<in> set (p_ddn_head S) \<and> covers (dn S a) i then None else bse_at S i)" "\<And>b. reparent (dn S b) (dn S' b)"
    "ddn_pool S' = ddn_pool S" "pages S' = pages S" "same_rest S S'"
proof (cases "a \<in> set (p_ddn_head S)")
  case True
  obtain S' where S': "bse_del_node a S = Some S'" "bse_inv S'" "p_ddn_head S' = remove1 a (p_ddn_head S)"
    "\<And>i. bse_at S' i = (if covers (dn S a) i then None else bse_at S i)" "\<And>b. reparent (dn S b) (dn S' b)" "ddn_pool S' = ddn_pool S"
    "pages S' = pages S" "same_rest S S'"
    using bse_del_node_spec[OF inv True a] by metis
  have "set (p_ddn_head S') = set (p_ddn_head S) - {a}" using S'(3) bse_distinct[OF inv] by simp
  then show ?thesis using that[OF S'(1,2) _ _ S'(5-8)] S'(4) True by simp
next
  case False
  then have "bse_del_node a S = Some S" using a by (simp add: bse_del_node_def)
  then show ?thesis using that[of S] inv False by (simp add: same_rest_def)
qed

lemma release_one:
  assumes inv: "bse_inv S" and f: "flush_inv F T S" and a: "a \<in> set (pp_release_head (pages S p))" "d_user_counter (dn S a) = 1"
  obtains S1 S2 where "bse_del_node a (unlist p a S) = Some S1" "ddn_put_node a S1 = Some (0, S2)" "d_where (dn S a) = DDN_WHERE_RELEASE"
    "bse_inv S2" "flush_inv F T S2" "same_rest S S2" "total S2 = total S" "pages S2 = pages (unlist p a S)"
    "\<And>b. b \<noteq> a \<Longrightarrow> reparent (dn S b) (dn S2 b)" "pool_used (ddn_pool S2) = pool_used (ddn_pool S) - {a}"
    "seen T S2 = seen T S"
proof -
  let ?S = "unlist p a S"
  have r: "a \<in> pool_used (ddn_pool S)" "d_where (dn S a) = DDN_WHERE_RELEASE" "d_page_node (dn S a) = p" "d_flush_done (dn S a)"
    using flush_invD(5,6)[OF f, of a] a(1) by auto
  note U = unlist_inv[OF inv, of p a]
  have u: "dn ?S b = dn S b" "p_ddn_head ?S = p_ddn_head S" "ddn_pool ?S = ddn_pool S" for b by (simp_all add: unlist_def)
  obtain S1 where S1: "bse_del_node a ?S = Some S1" "bse_inv S1" "set (p_ddn_head S1) = set (p_ddn_head S) - {a}"
    "\<And>i. bse_at S1 i = (if a \<in> set (p_ddn_head S) \<and> covers (dn S a) i then None else bse_at S i)" "\<And>b. reparent (dn S b) (dn S1 b)"
    "ddn_pool S1 = ddn_pool S" "pages S1 = pages ?S" "same_rest ?S S1"
    using bse_del_any[OF U(1), of a] a(2) unfolding u U(2) by metis
  note q = reparentD[OF S1(5)]
  have t1: "total S1 = total S"
    using U(4) S1(6,7) reparent_shape(5)[OF S1(5)] u(3) by (intro ext) (simp add: total_def unlist_def)
  obtain S2 where S2: "ddn_put_node a S1 = Some (0, S2)" "bse_inv S2" "\<And>i. bse_at S2 i = bse_at S1 i" "pool_used (ddn_pool S2) = pool_used (ddn_pool S1) - {a}"
    "\<And>b. b \<noteq> a \<Longrightarrow> dn S2 b = dn S1 b" "p_ddn_head S2 = p_ddn_head S1" "pages S2 = pages S1" "same_rest S1 S2" "total S2 = total S1"
    using put_inv[OF S1(2), of a] r a(2) S1(3,6) q by (metis Diff_iff singletonI)
  have sr: "same_rest S S2" using U(3) S1(8) S2(8) by (simp add: same_rest_def)
  have re: "reparent (dn S b) (dn S2 b)" if "b \<noteq> a" for b using S1(5)[of b] S2(5)[OF that] by simp
  have pg: "pages S2 = pages ?S" using S1(7) S2(7) by simp
  have rh: "set (pp_release_head (pages ?S q)) = set (pp_release_head (pages S q)) - {a}" "distinct (pp_release_head (pages ?S q))" for q
    using flush_invD(5)[OF f, of a q] flush_invD(7)[OF f] r(3) by (auto simp: unlist_def)
  have fh: "pp_flush_head (pages ?S q) = pp_flush_head (pages S q)" "a \<notin> set (pp_flush_head (pages S q))" for q
    using flush_listD(3)[OF bse_invD(1)[OF inv], of a q] r(2) by (auto simp: unlist_def)
  have nF: "a \<notin> snd F" using flush_invD(4)[OF f, of a] r(2) by auto
  have f2: "flush_inv F T S2"
  proof (rule flush_inv_step[OF f sr, of a])
    show "untouched S S2 b" if "b \<noteq> a" for b
      using re[OF that] that S1(3,6) S2(4,6) rh fh by (simp add: untouched_def pg)
    show "node_flush F T S2 a" using S1(3,6) S2(4,6) rh fh nF by (simp add: node_flush_def Let_def pg)
    show "distinct (pp_release_head (pages S2 q))" for q using rh by (simp add: pg)
  qed simp_all
  have "seen T S2 i = seen T S i" for i
  proof (cases "a \<in> set (p_ddn_head S) \<and> covers (dn S a) i")
    case True
    then have "d_flushed (dn S a)" using node_okD(6)[OF bse_invD(3)[OF inv, of a]] r(4) by (auto simp: flags_ok_def)
    then have "T i = bytes S (loc (dn S a) i)" using flush_invD(2)[OF f, of a] True by (simp add: on_target_def)
    moreover have "bse_at S i = Some (loc (dn S a) i)" using bse_at_Some[OF inv] True by blast
    ultimately show ?thesis using S1(4)[of i] S2(3)[of i] True by (simp add: seen_def cached_def)
  next
    case False
    then have "bse_at S2 i = bse_at S i" using S1(4)[of i] S2(3)[of i] by auto
    then show ?thesis by (simp add: seen_def cached_def same_bytes[OF sr])
  qed
  then have v: "seen T S2 = seen T S" by auto
  have pu: "pool_used (ddn_pool S2) = pool_used (ddn_pool S) - {a}" using S2(4) S1(6) by simp
  have tt: "total S2 = total S" using S2(9) t1 by simp
  show ?thesis by (rule that[OF S1(1) S2(1) r(2) S2(2) f2 sr tt pg re pu v])
qed

end
