(* ===== verification/Bfe_Cache.thy ===== *)
theory Bfe_Cache
  imports Bfe_Round
begin

text \<open>
  The write cache from end to end: the release of a page, a whole round of the flush thread, and the interleaving of
  writes, flushes and releases. Whatever the order of the steps, a reader sees the last write.
\<close>

section \<open>Releasing a page\<close>

lemma release_nodes_spec:
  assumes "bse_inv S" "flush_inv F T S" "pp_release_head (pages S p) = nps" "\<And>a. a \<in> set nps \<Longrightarrow> d_user_counter (dn S a) = 1"
  shows "\<exists>S'. release_nodes p nps S = Some S' \<and> bse_inv S' \<and> flush_inv F T S' \<and> seen T S' = seen T S \<and> same_rest S S' \<and> total S' = total S \<and>
    pp_release_head (pages S' p) = [] \<and> (\<forall>q. pp_flush_head (pages S' q) = pp_flush_head (pages S q) \<and>
      pp_occupied (pages S' q) = pp_occupied (pages S q) \<and> pp_flushed (pages S' q) = pp_flushed (pages S q) \<and>
      (q \<noteq> p \<longrightarrow> pp_release_head (pages S' q) = pp_release_head (pages S q))) \<and>
    (\<forall>b. b \<notin> set nps \<longrightarrow> reparent (dn S b) (dn S' b))"
  using assms
proof (induction nps arbitrary: S)
  case Nil
  then show ?case by (simp add: same_rest_def)
next
  case (Cons a nps)
  have a: "a \<in> set (pp_release_head (pages S p))" "d_user_counter (dn S a) = 1" using Cons.prems(3,4) by simp_all
  obtain S1 S2 where S2: "bse_del_node a (unlist p a S) = Some S1" "ddn_put_node a S1 = Some (0, S2)" "d_where (dn S a) = DDN_WHERE_RELEASE"
    "bse_inv S2" "flush_inv F T S2" "same_rest S S2" "total S2 = total S" "pages S2 = pages (unlist p a S)"
    "\<And>b. b \<noteq> a \<Longrightarrow> reparent (dn S b) (dn S2 b)" "seen T S2 = seen T S"
    using release_one[OF Cons.prems(1,2) a] by metis
  have u: "pages (unlist p a S) q = (if q = p then (pages S p)\<lparr>pp_release_head := nps\<rparr> else pages S q)" for q
    using Cons.prems(3) by (simp add: unlist_def)
  have n: "pp_release_head (pages S2 p) = nps" by (simp add: S2(8) u)
  have "a \<notin> set nps" using flush_invD(7)[OF Cons.prems(2), of p] Cons.prems(3) by simp
  then have c: "d_user_counter (dn S2 b) = 1" if "b \<in> set nps" for b
    using Cons.prems(4)[of b] that reparentD(6)[OF S2(9)[of b]] by (cases "b = a") simp_all
  have ev: "release_nodes p (a # nps) S = release_nodes p nps S2" using S2(1-3) by (simp add: Let_def unlist_def)
  obtain S' where S': "release_nodes p nps S2 = Some S'" "bse_inv S'" "flush_inv F T S'" "seen T S' = seen T S2" "same_rest S2 S'" "total S' = total S2"
    "pp_release_head (pages S' p) = []" "\<And>q. pp_flush_head (pages S' q) = pp_flush_head (pages S2 q) \<and>
      pp_occupied (pages S' q) = pp_occupied (pages S2 q) \<and> pp_flushed (pages S' q) = pp_flushed (pages S2 q) \<and>
      (q \<noteq> p \<longrightarrow> pp_release_head (pages S' q) = pp_release_head (pages S2 q))"
    "\<And>b. b \<notin> set nps \<Longrightarrow> reparent (dn S2 b) (dn S' b)"
    using Cons.IH[OF S2(4,5) n c] by blast
  have "reparent (dn S b) (dn S' b)" if "b \<notin> set (a # nps)" for b
    by (rule reparent_trans[OF S2(9) S'(9)]) (use that in auto)
  then show ?case using ev S2(6,7,10) S'(1-8) by (auto simp: S2(8) u same_rest_def)
qed

text \<open>The loop of the release thread does the same.\<close>

lemma drop_nodes_eq: "release_nodes p nps S = Some S' \<Longrightarrow> drop_nodes p nps S = Some S'"
  by (induction nps arbitrary: S) (auto simp: Let_def split: Option.bind_splits)

lemma release_unread:
  assumes "flush_inv F T S" "a \<in> set (pp_release_head (pages S p))"
  shows "d_user_counter (dn S a) = 1"
  using flush_invD(5,11)[OF assms(1), of a] assms(2) by auto

text \<open>No node of a freed page is left: nothing of the page can be read any more.\<close>

lemma page_empty:
  assumes inv: "bse_inv S" and f: "flush_inv F T S" and h: "pp_flush_head (pages S p) = []" "pp_release_head (pages S p) = []" "fst F = p \<Longrightarrow> snd F = {}"
    and a: "a \<in> set (p_ddn_head S)"
  shows "d_page_node (dn S a) \<noteq> p"
proof
  assume p: "d_page_node (dn S a) = p"
  have "a \<in> snd F" using flush_invD(6)[OF f, of a] node_okD(1,8)[OF bse_invD(3)[OF inv a]] h(1,2) p by auto
  then show False using flush_invD(4)[OF f, of a] h(3) p by auto
qed

lemma bre_free_page_spec:
  assumes inv: "cache_inv F B" and h: "pp_flush_head (pages (fb B) p) = []" "fst F = p \<Longrightarrow> snd F = {}"
  obtains S' where "bre_free_page p B = Some (bre_upd (\<lambda>r. r\<lparr>p_free := p_free r @ [p]\<rparr>) (B\<lparr>fb := S'\<rparr>))" "cache_inv F (B\<lparr>fb := S'\<rparr>)" "view (B\<lparr>fb := S'\<rparr>) = view B"
    "\<And>a. a \<in> set (p_ddn_head S') \<Longrightarrow> d_page_node (dn S' a) \<noteq> p" "same_rest (fb B) S'" "total S' = total (fb B)"
    "\<And>q. pp_flush_head (pages S' q) = pp_flush_head (pages (fb B) q)" "\<And>q. full (fb B) q \<Longrightarrow> full S' q"
    "\<And>b. b \<notin> set (pp_release_head (pages (fb B) p)) \<Longrightarrow> reparent (dn (fb B) b) (dn S' b)"
proof -
  have i: "bse_inv (fb B)" and f: "flush_inv F (target B) (fb B)" using inv by (simp_all add: cache_inv_def)
  have c: "d_user_counter (dn (fb B) a) = 1" if "a \<in> set (pp_release_head (pages (fb B) p))" for a
    by (rule release_unread[OF f that])
  obtain S' where S': "release_nodes p (pp_release_head (pages (fb B) p)) (fb B) = Some S'" "bse_inv S'" "flush_inv F (target B) S'"
    "seen (target B) S' = seen (target B) (fb B)" "same_rest (fb B) S'" "total S' = total (fb B)" "pp_release_head (pages S' p) = []"
    "\<And>q. pp_flush_head (pages S' q) = pp_flush_head (pages (fb B) q)"
    "\<And>b. b \<notin> set (pp_release_head (pages (fb B) p)) \<Longrightarrow> reparent (dn (fb B) b) (dn S' b)"
    "\<And>q. pp_occupied (pages S' q) = pp_occupied (pages (fb B) q) \<and> pp_flushed (pages S' q) = pp_flushed (pages (fb B) q)"
    using release_nodes_spec[OF i f refl c] by blast
  have h': "pp_flush_head (pages S' p) = []" using S'(8) h(1) by simp
  show ?thesis
  proof (rule that[of S'])
    show "bre_free_page p B = Some (bre_upd (\<lambda>r. r\<lparr>p_free := p_free r @ [p]\<rparr>) (B\<lparr>fb := S'\<rparr>))" using S'(1,7) h' by (simp add: bre_free_page_def)
    show "cache_inv F (B\<lparr>fb := S'\<rparr>)" "view (B\<lparr>fb := S'\<rparr>) = view B" using S'(2-4) by (simp_all add: cache_inv_def view_def)
    show "d_page_node (dn S' a) \<noteq> p" if "a \<in> set (p_ddn_head S')" for a by (rule page_empty[OF S'(2,3) h' S'(7) h(2) that])
    show "full (fb B) q \<Longrightarrow> full S' q" for q using S'(5,10) by (simp add: full_def same_rest_def)
  qed (use S' in simp_all)
qed

section \<open>A round of the flush thread\<close>

text \<open>The account of a page: when nothing is left to flush, all bytes of the page are counted, and the other way round.\<close>

lemma none_left:
  assumes f: "flush_inv F T S" and h: "pp_flush_head (pages S p) = []" "fst F = p \<Longrightarrow> snd F = {}"
  shows "pp_flushed (pages S p) = total S p"
proof -
  have "weight p (dn S a) = 0" if "a \<in> pool_used (ddn_pool S)" for a
    using flush_invD(6)[OF f that] flush_invD(4)[OF f, of a] h by (auto simp: weight_def)
  then show ?thesis by (simp add: total_def)
qed

lemma all_flushed:
  assumes b: "books_ok S" and f: "flush_inv F T S" and p: "pp_flushed (pages S p) = p_pagesz S"
  shows "pp_flush_head (pages S p) = []"
proof (rule ccontr)
  assume "pp_flush_head (pages S p) \<noteq> []"
  then have a: "hd (pp_flush_head (pages S p)) \<in> set (pp_flush_head (pages S p))" (is "?a \<in> _") by simp
  note A = flush_listD[OF b a]
  have "0 < d_len (dn S ?a)" using b A(2,3) by (simp add: books_ok_def)
  then have "0 < weight p (dn S ?a)" using A flush_invD(3)[OF f a] by (simp add: weight_def)
  then show False using books_bounds(2)[OF b A(2), of p] p by simp
qed

lemma prepare_seq [simp]:
  "bse_inv (S\<lparr>p_prepare_flush_seq := q\<rparr>) = bse_inv S" "flush_inv F T (S\<lparr>p_prepare_flush_seq := q\<rparr>) = flush_inv F T S"
  "bse_at (S\<lparr>p_prepare_flush_seq := q\<rparr>) i = bse_at S i" "total (S\<lparr>p_prepare_flush_seq := q\<rparr>) = total S"
proof -
  let ?S = "S\<lparr>p_prepare_flush_seq := q\<rparr>"
  show t: "total ?S = total S" by (intro ext) (simp add: total_def)
  show "bse_inv ?S = bse_inv S" by (simp add: bse_inv_def books_ok_def flush_lists_ok_def t node_ok'_def)
  have "bytes ?S = bytes S" by (intro ext) (simp add: bytes_def)
  then show "flush_inv F T ?S = flush_inv F T S" by (simp add: flush_inv_def node_flush_def on_target_def)
  show "bse_at ?S i = bse_at S i" by (simp add: bse_at_def)
qed

text \<open>The end of a round, up to the release of the page.\<close>

definition finish_seqs :: "nat \<Rightarrow> u64 \<Rightarrow> bfe_private \<Rightarrow> bfe_private" where
  "finish_seqs p seq B = (let S = fb B in
     if pp_flush_head (pages S p) = [] \<and> p_prepare_flush_seq S \<noteq> - 1
     then B\<lparr>p_last_seq_flushed := pp_last_flush_seq (fpage B p), fb := S\<lparr>p_prepare_flush_seq := - 1\<rparr>\<rparr>
     else if seq \<noteq> 0 \<and> pp_last_flush_seq (fpage B p) < p_prepare_flush_seq S then B\<lparr>p_last_seq_flushed := seq\<rparr> else B)"

lemma finish_seqs_inv:
  assumes "cache_inv F B"
  shows "cache_inv F (finish_seqs p seq B)" "view (finish_seqs p seq B) = view B" "frame B (finish_seqs p seq B)"
    "pp_flush_head (pages (fb (finish_seqs p seq B)) q) = pp_flush_head (pages (fb B) q)"
    "dn (fb (finish_seqs p seq B)) a = dn (fb B) a"
proof -
  let ?B = "finish_seqs p seq B"
  show f: "frame B ?B" by (simp add: finish_seqs_def Let_def frame_def same_rest_def full_def)
  have t: "target ?B = target B" and at: "\<And>i. bse_at (fb ?B) i = bse_at (fb B) i" by (simp_all add: finish_seqs_def Let_def)
  show "cache_inv F ?B" using assms by (simp add: cache_inv_def finish_seqs_def Let_def)
  show "view ?B = view B" by (rule view_cong[OF at]) (use f t in \<open>simp_all add: frame_def\<close>)
  show "pp_flush_head (pages (fb ?B) q) = pp_flush_head (pages (fb B) q)" "dn (fb ?B) a = dn (fb B) a" by (simp_all add: finish_seqs_def Let_def)
qed

definition queued :: "nat \<Rightarrow> bfe_private \<Rightarrow> bfe_private \<Rightarrow> bool" where
  "queued p B B' \<longleftrightarrow> p_flush_page_head B' = remove1 p (p_flush_page_head B) \<and> pp_where (fpage B' p) = PP_WHERE_RELEASE \<and>
     (\<forall>r. r \<noteq> p \<longrightarrow> pp_where (fpage B' r) = pp_where (fpage B r)) \<and> p_ssd_mode B' = p_ssd_mode B \<and>
     p_free (p_bre B') = p_free (p_bre B) \<and>
     (if pp_coalesced (fpage B p) = 0
      then p_page_head (p_bre B') = p_page_head (p_bre B) @ [p] \<and> p_coalesced_page_head (p_bre B') = p_coalesced_page_head (p_bre B)
      else p_page_head (p_bre B') = p_page_head (p_bre B) \<and> p_coalesced_page_head (p_bre B') = p_coalesced_page_head (p_bre B) @ [p])"

lemma bfe_finish_spec:
  assumes inv: "cache_inv (p, set tf) B" and d: "distinct tf" and fl: "\<And>a. a \<in> set tf \<Longrightarrow> d_flushed (dn (fb B) a)"
    and w: "pp_where (fpage B p) = PP_WHERE_FLUSH" and m: "\<not> p_ssd_mode B"
  shows "\<exists>B'. bfe_finish p tf seq B = Some B' \<and> cache_inv (p, {}) B' \<and> view B' = view B \<and> target B' = target B \<and>
    (\<forall>q. pp_flush_head (pages (fb B') q) = pp_flush_head (pages (fb B) q)) \<and> total (fb B') = total (fb B) \<and> (\<forall>q. full (fb B) q \<longrightarrow> full (fb B') q) \<and>
    (if pp_flushed (pages (fb B') p) = p_pagesz (fb B) \<and> pp_occupied (pages (fb B) p) = p_pagesz (fb B) then queued p B B' \<and> full (fb B') p else frame B B')"
proof -
  let ?B = "finish_seqs p seq B"
  note Q = finish_seqs_inv[OF inv, of p seq]
  have i: "bse_inv (fb ?B)" and f: "flush_inv (p, set tf) (target ?B) (fb ?B)" using Q(1) by (simp_all add: cache_inv_def)
  have fl': "d_flushed (dn (fb ?B) a)" if "a \<in> set tf" for a using fl[OF that] Q(5) by simp
  obtain S where S: "finish_nodes p tf (fb ?B) = Some S" "bse_inv (splice p tf S)" "flush_inv (p, {}) (target ?B) (splice p tf S)"
    "\<And>i. bse_at (splice p tf S) i = bse_at (fb ?B) i" "same_rest (fb ?B) (splice p tf S)" "total (splice p tf S) = total (fb ?B)"
    "\<And>q. pp_flush_head (pages S q) = pp_flush_head (pages (fb ?B) q) \<and> pp_occupied (pages S q) = pp_occupied (pages (fb ?B) q)"
    "\<And>q. full (fb ?B) q \<Longrightarrow> full (splice p tf S) q"
    using finish_nodes_spec[OF i f d fl'] by blast
  define S' where "S' = splice p tf S"
  define B1 where "B1 = ?B\<lparr>fb := S'\<rparr>"
  have sp: "page_upd p (\<lambda>y. y\<lparr>pp_release_head := pp_release_head y @ tf\<rparr>) S = S'" by (simp add: S'_def splice_def)
  have pg: "pp_flush_head (pages S' q) = pp_flush_head (pages (fb B) q)" "pp_occupied (pages S' q) = pp_occupied (pages (fb B) q)" for q
    using S(7) Q(3,4) by (simp_all add: S'_def splice_def frame_def)
  have c1: "cache_inv (p, {}) B1 \<and> view B1 = view ?B"
    by (rule cache_invI) (use S in \<open>simp_all add: B1_def S'_def\<close>)
  have fr: "frame B B1" using frame_trans[OF Q(3), of B1] S(5,6,8) pg Q(3) by (simp add: frame_def B1_def S'_def)
  have fu: "full (fb B1) q" if "full (fb B) q" for q using fr that by (simp add: frame_def)
  have pz: "p_pagesz S' = p_pagesz (fb B)" using fr by (simp add: frame_def same_rest_def B1_def)
  let ?full = "pp_flushed (pages S' p) = p_pagesz S' \<and> pp_occupied (pages S' p) = p_pagesz S'"
  have ev: "bfe_finish p tf seq B = (if ?full then do { c_assert (pp_flush_head (pages S' p) = []); c_assert (pp_where (fpage B1 p) = PP_WHERE_FLUSH);
      br_release p (B1\<lparr>p_flush_page_head := remove1 p (p_flush_page_head B1), p_flush_page_counter := u32_of (p_flush_page_counter B1 - 1)\<rparr>) } else Some B1)"
    unfolding bfe_finish_def Let_def finish_seqs_def[symmetric, unfolded Let_def] S(1) Option.bind.bind_lunit sp B1_def by simp
  have t: "total (fb B1) = total (fb B)" "target B1 = target B" using fr by (simp_all add: frame_def B1_def finish_seqs_def Let_def)
  show ?thesis
  proof (cases ?full)
    case False
    then show ?thesis using ev c1 Q(2) fr t pg pz fu by (intro exI[of _ B1]) (auto simp: B1_def)
  next
    case True
    have h: "pp_flush_head (pages S' p) = []"
      by (rule all_flushed[of S' "(p, {})" "target ?B"]) (use bse_invD(1)[OF S(2)] S(3) True in \<open>simp_all add: S'_def\<close>)
    have w1: "pp_where (fpage B1 p) = PP_WHERE_FLUSH" "\<not> p_ssd_mode B1" "pp_coalesced (fpage B1 p) = pp_coalesced (fpage B p)"
      "p_flush_page_head B1 = p_flush_page_head B" "p_bre B1 = p_bre B" using fr w m by (simp_all add: frame_def)
    have w2: "pp_where (fpage B1 r) = pp_where (fpage B r)" "p_ssd_mode B1 = p_ssd_mode B" for r using fr by (simp_all add: frame_def)
    have fb1: "fb B1 = S'" by (simp add: B1_def)
    obtain B' where B': "bfe_finish p tf seq B = Some B'" "fb B' = S'" "target B' = target B1" "queued p B B'"
      using True h w1 unfolding ev
      by (simp add: br_release_def bre_release_page_def Let_def bre_upd_def fpage_upd_def queued_def fb1 w2)
    have "cache_inv (p, {}) B'" "view B' = view B" using c1 Q(2) B'(2,3) by (simp_all add: cache_inv_def view_def B1_def)
    then show ?thesis using B'(1-4) True pg pz t fu by (intro exI[of _ B']) (simp add: fb1 full_def)
  qed
qed

lemma bfe_flush_round_spec:
  assumes inv: "cache_inv (p, {}) B" and w: "pp_where (fpage B p) = PP_WHERE_FLUSH" and m: "\<not> p_ssd_mode B"
  shows "\<exists>B'. bfe_flush_round p B = Some B' \<and> cache_inv (p, {}) B' \<and> view B' = view B \<and> pp_flush_head (pages (fb B') p) = [] \<and>
    pp_flushed (pages (fb B') p) = total (fb B) p \<and>
    (total (fb B) p = p_pagesz (fb B) \<and> pp_occupied (pages (fb B) p) = p_pagesz (fb B) \<longrightarrow> queued p B B')"
proof -
  obtain tf q B1 where B1: "bfe_collect p (pp_flush_head (pages (fb B) p)) [] 0 B = Some (tf, q, B1)" "cache_inv (p, set tf) B1" "view B1 = view B"
    "distinct tf" "pp_flush_head (pages (fb B1) p) = []" "frame B B1"
    using bfe_collect_spec[OF inv refl, of "[]" 0] by auto
  obtain B2 ks where B2: "bfe_write_nodes tf B1 = Some B2" "cache_inv (p, set tf) B2" "view B2 = view B1" "fb B2 = mark_all ks (fb B1)" "same_flush B1 B2"
    "\<And>a. a \<in> set tf \<Longrightarrow> d_flushed (dn (fb B2) a)"
    using bfe_write_nodes_spec[OF B1(2), of tf] by auto
  have t2: "total (mark_all ks (fb B1)) = total (fb B1)" by (intro ext) (simp add: total_def weight_def if_distrib cong: if_cong)
  have fr: "frame B B2" using B1(6) B2(4,5) t2 by (simp add: frame_def same_flush_def same_rest_def full_def)
  have w2: "pp_where (fpage B2 p) = PP_WHERE_FLUSH" "\<not> p_ssd_mode B2" using fr w m by (simp_all add: frame_def)
  obtain B' where B': "bfe_finish p tf q B2 = Some B'" "cache_inv (p, {}) B'" "view B' = view B2"
    "\<And>q. pp_flush_head (pages (fb B') q) = pp_flush_head (pages (fb B2) q)" "total (fb B') = total (fb B2)"
    "if pp_flushed (pages (fb B') p) = p_pagesz (fb B2) \<and> pp_occupied (pages (fb B2) p) = p_pagesz (fb B2) then queued p B2 B' \<and> full (fb B') p else frame B2 B'"
    using bfe_finish_spec[OF B2(2) B1(4) B2(6) w2] by blast
  have h: "pp_flush_head (pages (fb B') p) = []" using B'(4) B1(5) by (simp add: B2(4))
  have tt: "total (fb B') = total (fb B)" using B'(5) fr by (simp add: frame_def)
  have "flush_inv (p, {}) (target B') (fb B')" using B'(2) by (simp add: cache_inv_def)
  then have fl: "pp_flushed (pages (fb B') p) = total (fb B) p" using none_left[of "(p, {})" _ "fb B'" p] h tt by simp
  have "queued p B B'" if "total (fb B) p = p_pagesz (fb B)" "pp_occupied (pages (fb B) p) = p_pagesz (fb B)"
    using B'(6) that fl fr by (simp add: frame_def same_rest_def queued_def)
  moreover have "bfe_flush_round p B = Some B'" using B1(1) B2(1) B'(1) by (simp add: bfe_flush_round_def)
  ultimately show ?thesis using B'(2,3) B2(3) B1(3) h fl by auto
qed

end
