(* ===== verification/Bfe_System.thy ===== *)
theory Bfe_System
  imports Bfe_Cache
begin

text \<open>
  Serial histories of a write cache: readers (\<open>__bwc_do_read\<close> of \<open>cache/bwc.c\<close>, in a cache without a read cache), a writer that inserts
  nodes into the search engine, the flush thread and the release thread. A history is a sequence of steps in any order, and no two steps
  overlap. Where the flush thread holds \<open>p_flush_lck\<close> a step is a section of that lock: it collects, writes each vector and finishes in separate steps, with
  steps of the others between them. The rest is coarser than the code, and a restriction of the model: a whole insertion, a whole
  read, a vectored write with its collection, and a turn of the release thread over one page are one step each, although the code lets other
  threads run inside them. Theory \<open>Bfe_Window\<close> shows two failures of such overlaps. Reads of the device below do not fail.
\<close>

section \<open>Reading\<close>

record bwc_stat =
  p_read_busy :: int
  p_read_counter :: u64

definition rw_pread :: "(int \<Rightarrow> u8) \<Rightarrow> sub_request_node \<Rightarrow> (int \<Rightarrow> u8) \<Rightarrow> int \<Rightarrow> u8" where
  "rw_pread T r resp = mem_copy (sr_buf r) T (sr_offset r) (sr_len r) resp"

text \<open>The search, the reads from the buffer device and the reads from the device below, with no other thread between them.\<close>

definition bwc_do_read ::
  "request_node \<Rightarrow> bfe_private \<Rightarrow> bwc_stat \<Rightarrow> (int \<Rightarrow> u8) \<Rightarrow> (bfe_private \<times> bwc_stat \<times> (int \<Rightarrow> u8)) option" where
  "bwc_do_read rn B st resp =
     do {
       let st = st\<lparr>p_read_busy := p_read_busy st + 1\<rparr>;
       (S, resp, r_head) \<leftarrow> bse_search rn (fb B) resp;
       let B = B\<lparr>fb := S\<rparr>;
       if r_head = [] then Some (B, st, resp)
       else Some (B, st\<lparr>p_read_busy := p_read_busy st - 1, p_read_counter := p_read_counter st + of_nat (length r_head)\<rparr>,
                  fold (rw_pread (target B)) r_head resp)
     }"

section \<open>Steps\<close>

datatype flush_pc = Idle | Writing nat "node_addr list" "node_addr list" u64

datatype event = Silent | Write int int "int \<Rightarrow> u8"

fun apply_event :: "event \<Rightarrow> (int \<Rightarrow> u8) \<Rightarrow> int \<Rightarrow> u8" where
  "apply_event Silent v = v"
| "apply_event (Write off len w) v = (\<lambda>i. if off \<le> i \<and> i < off + len then w i else v i)"

text \<open>A step of a serial history. Before a write, its data go to memory that holds no cached byte, and a node is filled in. An insertion has
  the preconditions \<open>ready\<close>, \<open>search_safe\<close> (without which the search engine loses the write, see \<open>bse_beyond_lost\<close>) and a length below \<open>p_max_flush_size\<close>
  (above which the flush engine fails an assertion).\<close>

inductive cache_step :: "bfe_private \<times> flush_pc \<Rightarrow> event \<Rightarrow> bfe_private \<times> flush_pc \<Rightarrow> bool" where
  prepare: "ddn_get_node (fb B) = Some (a, S) \<Longrightarrow> d_where y = DDN_WHERE_NO \<Longrightarrow>
    (\<And>i l. bse_at (fb B) i = Some l \<Longrightarrow> (if fst l then dev (snd l) else pgmem (snd l)) = bytes (fb B) l) \<Longrightarrow>
    cache_step (B, pc) Silent (B\<lparr>fb := (dn_upd a (\<lambda>_. y) S)\<lparr>ram := pgmem, bufdev := dev\<rparr>\<rparr>, pc)"
| insert: "ready new (fb B) \<Longrightarrow> search_safe (d_offset (dn (fb B) new)) (fb B) \<Longrightarrow> d_len (dn (fb B) new) < p_max_flush_size (fb B) \<Longrightarrow>
    bse_insert_node new (fb B) = Some S \<Longrightarrow>
    cache_step (B, pc) (Write (d_offset (dn (fb B) new)) (d_len (dn (fb B) new)) (\<lambda>i. bytes (fb B) (loc (dn (fb B) new) i))) (B\<lparr>fb := S\<rparr>, pc)"
| queue: "bfe_flush_page p B = Some B' \<Longrightarrow> pp_where (fpage B p) \<noteq> PP_WHERE_RELEASE \<Longrightarrow> cache_step (B, pc) Silent (B', pc)"
| require: "cache_step (B, pc) Silent (bfe_flush_seq seq B, pc)"
| advance: "bfe_next_try B = (n, B') \<Longrightarrow> cache_step (B, Idle) Silent (B', Idle)"
| collect: "bfe_do_flush False B = Inr (Flush_page p, B) \<Longrightarrow> bfe_collect p (pp_flush_head (pages (fb B) p)) [] 0 B = Some (tf, q, B') \<Longrightarrow>
    cache_step (B, Idle) Silent (B', Writing p tf tf q)"
| extend: "(if \<not> d_flushed (dn (fb B) np) then extend_write_request np B else Some B) = Some B' \<Longrightarrow>
    cache_step (B, Writing p (np # nps) tf q) Silent (B', Writing p nps tf q)"
| finish: "bfe_finish p tf q B = Some B' \<Longrightarrow> cache_step (B, Writing p [] tf q) Silent (B', Idle)"
| end_page: "bfe_end_page False p B = Inr B' \<Longrightarrow> total (fb B) p \<le> pp_occupied (pages (fb B) p) \<Longrightarrow> cache_step (B, pc) Silent (B', pc)"
| release: "bre_release_step B = Some B' \<Longrightarrow> cache_step (B, pc) Silent (B', pc)"

inductive cache_steps :: "bfe_private \<times> flush_pc \<Rightarrow> event list \<Rightarrow> bfe_private \<times> flush_pc \<Rightarrow> bool" where
  no_step: "cache_steps s [] s"
| more_steps: "cache_steps s es s' \<Longrightarrow> cache_step s' e s'' \<Longrightarrow> cache_steps s (es @ [e]) s''"

inductive_cases cache_stepE: "cache_step s e s'"

definition taken :: "flush_pc \<Rightarrow> nat \<times> node_addr set" where
  "taken pc = (case pc of Idle \<Rightarrow> (0, {}) | Writing p todo tf q \<Rightarrow> (p, set tf))"

text \<open>The pages that have come to the release engine are full and flushed, and none comes twice.\<close>

definition rel_pages :: "bre_private \<Rightarrow> nat list" where
  "rel_pages r = p_free r @ p_page_head r @ p_coalesced_page_head r"

definition rel_ok :: "bfe_private \<Rightarrow> bool" where
  "rel_ok B \<longleftrightarrow> distinct (rel_pages (p_bre B)) \<and> (\<forall>p \<in> set (rel_pages (p_bre B)). pp_where (fpage B p) = PP_WHERE_RELEASE \<and> full (fb B) p)"

definition sys_inv :: "bfe_private \<times> flush_pc \<Rightarrow> bool" where
  "sys_inv s \<longleftrightarrow> (case s of (B, pc) \<Rightarrow> cache_inv (taken pc) B \<and> rel_ok B \<and> \<not> p_ssd_mode B \<and> distinct (p_flush_page_head B) \<and>
     (\<forall>p \<in> set (p_flush_page_head B). pp_where (fpage B p) = PP_WHERE_FLUSH) \<and>
     (case pc of Idle \<Rightarrow> True
      | Writing p todo tf q \<Rightarrow> p \<in> set (p_flush_page_head B) \<and> distinct tf \<and> set todo \<subseteq> set tf \<and>
          (\<forall>a \<in> set tf. a \<in> set todo \<or> d_flushed (dn (fb B) a))))"

section \<open>What a reader sees\<close>

lemma place_inj:
  assumes "request_ok rn S" "r_offset rn \<le> i" "i < r_offset rn + r_len rn" "r_offset rn \<le> j" "j < r_offset rn + r_len rn" "place rn i = place rn j"
  shows "i = j"
  using assms by (auto simp: request_ok_def Let_def place_def split: if_splits)

lemma read_parts:
  assumes rq: "request_ok rn S" and i: "r_offset rn \<le> i" "i < r_offset rn + r_len rn"
    and nf: "\<And>r k. r \<in> set nf \<Longrightarrow> 0 \<le> k \<Longrightarrow> k < sr_len r \<Longrightarrow> sr_buf r + k = place rn (sr_offset r + k) \<and>
      r_offset rn \<le> sr_offset r + k \<and> sr_offset r + k < r_offset rn + r_len rn"
  shows "fold (rw_pread T) nf resp (place rn i) = (if \<exists>r \<in> set nf. sr_offset r \<le> i \<and> i < sr_offset r + sr_len r then T i else resp (place rn i))"
  using nf
proof (induction nf arbitrary: resp)
  case (Cons r nf)
  have "rw_pread T r resp (place rn i) = (if sr_offset r \<le> i \<and> i < sr_offset r + sr_len r then T i else resp (place rn i))"
  proof (cases "sr_buf r \<le> place rn i \<and> place rn i < sr_buf r + sr_len r")
    case True
    then obtain k where k: "place rn i = sr_buf r + k" "0 \<le> k" "k < sr_len r"
      by (metis add.commute add_less_cancel_left diff_add_cancel diff_ge_0_iff_ge)
    then have "i = sr_offset r + k" using place_inj[OF rq i, of "sr_offset r + k"] Cons.prems[of r k] by simp
    then show ?thesis using k by (simp add: rw_pread_def mem_copy_def)
  next
    case False
    have "\<not> (sr_offset r \<le> i \<and> i < sr_offset r + sr_len r)"
      using Cons.prems[of r "i - sr_offset r"] False by auto
    then show ?thesis using False by (auto simp: rw_pread_def mem_copy_def)
  qed
  then show ?case using Cons by auto
qed simp

lemma bwc_do_read_spec:
  assumes "bse_inv (fb B)" "request_ok rn (fb B)"
  obtains st' resp' where "bwc_do_read rn B st resp = Some (B, st', resp')"
    "\<And>i. r_offset rn \<le> i \<Longrightarrow> i < r_offset rn + r_len rn \<Longrightarrow> resp' (place rn i) = view B i"
    "p_read_busy st' = (if \<exists>i. r_offset rn \<le> i \<and> i < r_offset rn + r_len rn \<and> cached (fb B) i = None then p_read_busy st else p_read_busy st + 1)"
proof -
  obtain resp1 nf where r: "bse_search rn (fb B) resp = Some (fb B, resp1, nf)" "answer_ok rn (fb B) resp resp1 nf"
    by (rule bse_search_spec[OF assms])
  have cov: "(\<exists>r \<in> set nf. sr_offset r \<le> i \<and> i < sr_offset r + sr_len r) \<longleftrightarrow> r_offset rn \<le> i \<and> i < r_offset rn + r_len rn \<and> cached (fb B) i = None" for i
    using r(2) by (simp add: answer_ok_def)
  have part: "sr_buf r0 + k = place rn (sr_offset r0 + k) \<and> r_offset rn \<le> sr_offset r0 + k \<and> sr_offset r0 + k < r_offset rn + r_len rn"
    if "r0 \<in> set nf" "0 \<le> k" "k < sr_len r0" for r0 k
  proof -
    have "\<exists>r \<in> set nf. sr_offset r \<le> sr_offset r0 + k \<and> sr_offset r0 + k < sr_offset r + sr_len r"
      using that by (intro bexI[of _ r0]) simp_all
    then show ?thesis using r(2) that cov[of "sr_offset r0 + k"] by (simp add: answer_ok_def)
  qed
  have pos: "0 < sr_len r" if "r \<in> set nf" for r using r(2) that by (simp add: answer_ok_def)
  let ?r = "fold (rw_pread (target B)) nf resp1"
  let ?st = "if nf = [] then st\<lparr>p_read_busy := p_read_busy st + 1\<rparr>
    else st\<lparr>p_read_busy := p_read_busy st + 1 - 1, p_read_counter := p_read_counter st + of_nat (length nf)\<rparr>"
  have ev: "bwc_do_read rn B st resp = Some (B, ?st, ?r)" using r(1) by (simp add: bwc_do_read_def Let_def)
  have v: "?r (place rn i) = view B i" if "r_offset rn \<le> i" "i < r_offset rn + r_len rn" for i
  proof -
    have "resp1 (place rn i) = (case cached (fb B) i of Some v \<Rightarrow> v | None \<Rightarrow> resp (place rn i))" using r(2) that by (simp add: answer_ok_def)
    then show ?thesis using read_parts[OF assms(2) that part] cov[of i] that by (auto simp: view_def seen_def split: option.splits)
  qed
  have "nf = [] \<longleftrightarrow> \<not> (\<exists>i. r_offset rn \<le> i \<and> i < r_offset rn + r_len rn \<and> cached (fb B) i = None)"
  proof
    assume n: "\<not> (\<exists>i. r_offset rn \<le> i \<and> i < r_offset rn + r_len rn \<and> cached (fb B) i = None)"
    show "nf = []"
    proof (rule ccontr)
      assume "nf \<noteq> []"
      then obtain r where "r \<in> set nf" by (cases nf) auto
      then have "\<exists>r \<in> set nf. sr_offset r \<le> sr_offset r \<and> sr_offset r < sr_offset r + sr_len r" using pos by auto
      then show False using cov n \<open>r \<in> set nf\<close> pos by (metis add.right_neutral add_less_cancel_left order_refl)
    qed
  qed (use cov in auto)
  then have bz: "p_read_busy ?st = (if \<exists>i. r_offset rn \<le> i \<and> i < r_offset rn + r_len rn \<and> cached (fb B) i = None then p_read_busy st else p_read_busy st + 1)"
    by auto
  show ?thesis by (rule that[OF ev v bz])
qed

lemma flushed_view:
  assumes "cache_inv F B" "a \<in> set (p_ddn_head (fb B))" "d_flushed (dn (fb B) a)" "covers (dn (fb B) a) i"
  shows "target B i = view B i"
proof -
  have i: "bse_inv (fb B)" "flush_inv F (target B) (fb B)" using assms(1) by (simp_all add: cache_inv_def)
  have "bse_at (fb B) i = Some (loc (dn (fb B) a) i)" using bse_at_Some[OF i(1)] assms(2,4) by blast
  then show ?thesis using flush_invD(2)[OF i(2) assms(2,3)] assms(4) by (simp add: on_target_def view_def seen_def cached_def)
qed

section \<open>The steps keep the invariant\<close>

lemma memory_inv:
  assumes inv: "bse_inv S" and f: "flush_inv F T S" and m: "\<And>i l. bse_at S i = Some l \<Longrightarrow> (if fst l then dev (snd l) else pgmem (snd l)) = bytes S l"
  shows "bse_inv (S\<lparr>ram := pgmem, bufdev := dev\<rparr>)" "flush_inv F T (S\<lparr>ram := pgmem, bufdev := dev\<rparr>)" "seen T (S\<lparr>ram := pgmem, bufdev := dev\<rparr>) = seen T S"
proof -
  let ?S = "S\<lparr>ram := pgmem, bufdev := dev\<rparr>"
  have t: "total ?S = total S" by (intro ext) (simp add: total_def)
  show i: "bse_inv ?S" using inv by (simp add: bse_inv_def books_ok_def flush_lists_ok_def t node_ok'_def)
  have b: "bytes ?S l = bytes S l" if "bse_at S i = Some l" for i l using m[OF that] by (auto simp: bytes_def split: if_splits)
  have at: "bse_at ?S i = bse_at S i" for i by (simp add: bse_at_def)
  have "on_target T ?S (dn S a) = on_target T S (dn S a)" if a: "a \<in> set (p_ddn_head S)" for a
  proof -
    have "bse_at S i = Some (loc (dn S a) i)" if "covers (dn S a) i" for i using bse_at_Some[OF inv] a that by blast
    then have "bytes ?S (loc (dn S a) i) = bytes S (loc (dn S a) i)" if "covers (dn S a) i" for i using b that by blast
    then show ?thesis by (auto simp: on_target_def)
  qed
  then show "flush_inv F T ?S" using f unfolding flush_inv_def node_flush_def Let_def by simp
  show "seen T ?S = seen T S" by (intro ext) (simp add: seen_def cached_def at b split: option.split)
qed

lemma prepare_inv:
  assumes inv: "cache_inv F B" and g: "ddn_get_node (fb B) = Some (a, S)" "d_where y = DDN_WHERE_NO"
    and m: "\<And>i l. bse_at (fb B) i = Some l \<Longrightarrow> (if fst l then dev (snd l) else pgmem (snd l)) = bytes (fb B) l"
  shows "cache_inv F (B\<lparr>fb := (dn_upd a (\<lambda>_. y) S)\<lparr>ram := pgmem, bufdev := dev\<rparr>\<rparr>)"
    "view (B\<lparr>fb := (dn_upd a (\<lambda>_. y) S)\<lparr>ram := pgmem, bufdev := dev\<rparr>\<rparr>) = view B"
    "b \<in> pool_used (ddn_pool (fb B)) \<Longrightarrow> dn ((dn_upd a (\<lambda>_. y) S)\<lparr>ram := pgmem, bufdev := dev\<rparr>) b = dn (fb B) b"
    "full (fb B) p \<Longrightarrow> full ((dn_upd a (\<lambda>_. y) S)\<lparr>ram := pgmem, bufdev := dev\<rparr>) p"
proof -
  let ?S = "dn_upd a (\<lambda>_. y) S"
  have i: "bse_inv (fb B)" and f: "flush_inv F (target B) (fb B)" using inv by (simp_all add: cache_inv_def)
  have e: "a \<notin> pool_used (ddn_pool (fb B))" "bse_inv ?S" "same_rest (fb B) ?S" "p_ddn_head S = p_ddn_head (fb B)" "pages S = pages (fb B)"
    "pool_used (ddn_pool S) = insert a (pool_used (ddn_pool (fb B)))" "ddn (smem S) = (ddn (smem (fb B)))(a := (dn (fb B) a)\<lparr>d_user_counter := 1\<rparr>)"
    using get_inv[OF i, of "\<lambda>_. y"] g by auto
  have nl: "a \<notin> set (p_ddn_head (fb B))" using node_okD(1)[OF bse_invD(3)[OF i]] e(1) by auto
  have "flow (fb B) ?S" by (rule flow_get[OF bse_invD(1)[OF i] e(1)]) (use e nl g(2) in simp_all)
  then have f1: "flush_inv F (target B) ?S" using f unfolding flow_def by blast
  have "at_nodes (ddn (smem ?S)) (p_ddn_head (fb B)) i = at_nodes (ddn (smem (fb B))) (p_ddn_head (fb B)) i" for i
    by (rule at_nodes_cong) (use nl e(7) in auto)
  then have at: "bse_at ?S i = bse_at (fb B) i" for i by (simp add: bse_at_nodes e(4))
  have bsm: "bytes ?S = bytes (fb B)" by (rule same_bytes[OF e(3)])
  have m': "(if fst l then dev (snd l) else pgmem (snd l)) = bytes ?S l" if "bse_at ?S i = Some l" for i l using m that by (simp add: at bsm)
  note M = memory_inv[OF e(2) f1 m']
  show "cache_inv F (B\<lparr>fb := ?S\<lparr>ram := pgmem, bufdev := dev\<rparr>\<rparr>)" using M(1,2) by (simp add: cache_inv_def)
  show "view (B\<lparr>fb := ?S\<lparr>ram := pgmem, bufdev := dev\<rparr>\<rparr>) = view B"
    using M(3) by (intro ext) (simp add: view_def seen_def cached_def at bsm)
  show "dn (?S\<lparr>ram := pgmem, bufdev := dev\<rparr>) b = dn (fb B) b" if "b \<in> pool_used (ddn_pool (fb B))" using that e(1,7) by auto
  show "full (fb B) p \<Longrightarrow> full (?S\<lparr>ram := pgmem, bufdev := dev\<rparr>) p" using e(3,5) by (simp add: full_def same_rest_def)
qed

lemma insert_inv:
  assumes inv: "cache_inv F B" and new: "ready new (fb B)" "search_safe (d_offset (dn (fb B) new)) (fb B)" "d_len (dn (fb B) new) < p_max_flush_size (fb B)"
    and ev: "bse_insert_node new (fb B) = Some S"
  shows "cache_inv F (B\<lparr>fb := S\<rparr>)" "a \<in> snd F \<Longrightarrow> d_flushed (dn (fb B) a) \<Longrightarrow> d_flushed (dn S a)"
    "full (fb B) p \<Longrightarrow> full S p"
    "view (B\<lparr>fb := S\<rparr>) = apply_event (Write (d_offset (dn (fb B) new)) (d_len (dn (fb B) new)) (\<lambda>i. bytes (fb B) (loc (dn (fb B) new) i))) (view B)"
proof -
  have i: "bse_inv (fb B)" and f: "flush_inv F (target B) (fb B)" using inv by (simp_all add: cache_inv_def)
  obtain S' where "bse_insert_node new (fb B) = Some S'" "written new (fb B) S'" by (rule bse_insert_node_spec[OF i new(1,2)])
  then have w: "bse_inv S" "same_rest (fb B) S" "flow (fb B) S"
    "\<And>i. bse_at S i = (if covers (dn (fb B) new) i then Some (loc (dn (fb B) new) i) else bse_at (fb B) i)"
    using ev new(3) by (simp_all add: written_def)
  have "flush_inv F (target B) S" using w(3) f unfolding flow_def by blast
  then show "cache_inv F (B\<lparr>fb := S\<rparr>)" using w(1) by (simp add: cache_inv_def)
  show "full (fb B) p \<Longrightarrow> full S p" using w(3) by (simp add: flow_def)
  show "d_flushed (dn S a)" if "a \<in> snd F" "d_flushed (dn (fb B) a)"
    using w(3) flush_invD(4)[OF f that(1)] that(2) unfolding flow_def keeps_def by auto
  show "view (B\<lparr>fb := S\<rparr>) = apply_event (Write (d_offset (dn (fb B) new)) (d_len (dn (fb B) new)) (\<lambda>i. bytes (fb B) (loc (dn (fb B) new) i))) (view B)"
    by (intro ext) (simp add: view_def seen_def cached_def w(4) covers_def same_bytes[OF w(2)])
qed

lemma end_page_inv:
  assumes inv: "cache_inv F B" and ev: "bfe_end_page False p B = Inr B'" and t: "total (fb B) p \<le> pp_occupied (pages (fb B) p)"
  shows "cache_inv F B'" "view B' = view B" "dn (fb B') a = dn (fb B) a" "p_flush_page_head B' = p_flush_page_head B" "fpage B' = fpage B" "p_ssd_mode B' = p_ssd_mode B"
    "p_bre B' = p_bre B" "full (fb B) q \<Longrightarrow> full (fb B') q"
proof -
  have i: "bse_inv (fb B)" and f: "flush_inv F (target B) (fb B)" using inv by (simp_all add: cache_inv_def)
  note b = bse_invD(1)[OF i]
  let ?S = "fb B" let ?y = "pages (fb B) p"
  define S' where "S' = page_upd p (\<lambda>y. y\<lparr>pp_flushed := u32_of (pp_flushed y + (p_pagesz ?S - pp_occupied y)), pp_occupied := p_pagesz ?S\<rparr>) ?S"
  consider "B' = B" | "pp_occupied ?y < p_pagesz ?S" "B' = B\<lparr>fb := S'\<rparr>"
    using ev by (auto simp: bfe_end_page_def Let_def S'_def split: if_splits)
  then have "cache_inv F B' \<and> view B' = view B \<and> dn (fb B') a = dn (fb B) a \<and> p_flush_page_head B' = p_flush_page_head B \<and> fpage B' = fpage B \<and> p_ssd_mode B' = p_ssd_mode B \<and>
    p_bre B' = p_bre B \<and> (\<forall>q. full (fb B) q \<longrightarrow> full (fb B') q)"
  proof cases
    case 2
    have o: "0 \<le> pp_flushed ?y" "pp_flushed ?y \<le> total ?S p" "p_pagesz ?S < 2 ^ 32" "0 < p_pagesz ?S"
      using b by (auto simp: books_ok_def total_def weight_def intro!: sum_nonneg)
    have u: "u32_of (pp_flushed ?y + (p_pagesz ?S - pp_occupied ?y)) = pp_flushed ?y + (p_pagesz ?S - pp_occupied ?y)" using o t 2(1) by simp
    have pg: "pages S' q = (if q = p then ?y\<lparr>pp_flushed := pp_flushed ?y + (p_pagesz ?S - pp_occupied ?y), pp_occupied := p_pagesz ?S\<rparr> else pages ?S q)" for q
      using u by (simp add: S'_def)
    have s: "smem S' = smem ?S" "ddn_pool S' = ddn_pool ?S" "p_ddn_head S' = p_ddn_head ?S" "p_rtree S' = p_rtree ?S" "same_rest ?S S'" "p_pagesz S' = p_pagesz ?S"
      by (simp_all add: S'_def same_rest_def)
    have "total S' q = (if q = p then total ?S p + (p_pagesz ?S - pp_occupied ?y) else total ?S q)" for q using s(1,2) pg[of q] by (simp add: total_def)
    then have "books_ok S'" using b t o 2(1) s(1,2,6) pg by (simp add: books_ok_def flush_lists_ok_def)
    moreover have "same_extents ?S S'" using s by (simp add: same_extents_def)
    ultimately have I: "bse_inv S'" "bse_at S' i = bse_at ?S i" for i
      using same_extents_inv[OF i] node_okD(6)[OF bse_invD(3)[OF i]] s(1) by simp_all
    have fu: "full S' q" if "full ?S q" for q using that pg[of q] s(6) 2(1) by (auto simp: full_def split: if_splits)
    have "flow ?S S'" by (rule flow_cong[OF s(5) _ _ fu]) (use s(1-3) pg in \<open>simp_all add: untouched_def\<close>)
    then have "flush_inv F (target B) S'" using f unfolding flow_def by blast
    then have "cache_inv F B' \<and> view B' = view B" by (intro cache_invI) (use I s(5) 2(2) in simp_all)
    then show ?thesis using s(1) 2(2) fu by simp
  qed (use inv in simp)
  then show "cache_inv F B'" "view B' = view B" "dn (fb B') a = dn (fb B) a" "p_flush_page_head B' = p_flush_page_head B" "fpage B' = fpage B" "p_ssd_mode B' = p_ssd_mode B"
    "p_bre B' = p_bre B" "full (fb B) q \<Longrightarrow> full (fb B') q"
    by simp_all
qed

lemma sys_keep:
  assumes "sys_inv (B, pc)" "cache_inv (taken pc) B'" "rel_ok B'" "p_ssd_mode B' = p_ssd_mode B" "distinct (p_flush_page_head B')"
    "\<And>p. p \<in> set (p_flush_page_head B') \<Longrightarrow> pp_where (fpage B' p) = PP_WHERE_FLUSH" "set (p_flush_page_head B) \<subseteq> set (p_flush_page_head B')"
    "\<And>a. a \<in> snd (taken pc) \<Longrightarrow> d_flushed (dn (fb B) a) \<Longrightarrow> d_flushed (dn (fb B') a)"
  shows "sys_inv (B', pc)"
  using assms by (cases pc) (auto simp: sys_inv_def taken_def)

lemma sys_invD:
  assumes "sys_inv (B, pc)"
  shows "cache_inv (taken pc) B" "\<not> p_ssd_mode B" "distinct (p_flush_page_head B)"
    "p \<in> set (p_flush_page_head B) \<Longrightarrow> pp_where (fpage B p) = PP_WHERE_FLUSH"
    "pc = Writing q todo tf n \<Longrightarrow> q \<in> set (p_flush_page_head B) \<and> distinct tf \<and> set todo \<subseteq> set tf \<and> (\<forall>a \<in> set tf. a \<in> set todo \<or> d_flushed (dn (fb B) a))"
    "rel_ok B"
  using assms by (auto simp: sys_inv_def)

lemma sys_frame:
  assumes "sys_inv (B, pc)" "cache_inv (taken pc) B'" "p_ssd_mode B' = p_ssd_mode B" "p_flush_page_head B' = p_flush_page_head B" "\<And>p. pp_where (fpage B' p) = pp_where (fpage B p)"
    "p_bre B' = p_bre B" "\<And>p. full (fb B) p \<Longrightarrow> full (fb B') p"
    "\<And>a. a \<in> snd (taken pc) \<Longrightarrow> d_flushed (dn (fb B) a) \<Longrightarrow> d_flushed (dn (fb B') a)"
  shows "sys_inv (B', pc)"
proof -
  have "rel_ok B'" using sys_invD(6)[OF assms(1)] assms(5,6,7) by (simp add: rel_ok_def)
  then show ?thesis by (intro sys_keep[OF assms(1,2)]) (use assms sys_invD(1-4)[OF assms(1)] in auto)
qed

text \<open>A cache that no flush thread works on does not depend on the page named.\<close>

lemma taken_none: "cache_inv (p, {}) B = cache_inv (q, {}) B"
  by (simp add: cache_inv_def flush_inv_def node_flush_def)

lemma queue_inv:
  assumes i: "sys_inv (B, pc)" and ev: "bfe_flush_page p B = Some B'" and r: "pp_where (fpage B p) \<noteq> PP_WHERE_RELEASE"
  shows "sys_inv (B', pc)" "view B' = view B"
proof -
  have w: "pp_where (fpage B p) \<noteq> PP_WHERE_FLUSH" and B': "B' = fpage_upd p (\<lambda>x. x\<lparr>pp_where := PP_WHERE_FLUSH, pp_last_flush_seq := 0\<rparr>)
      (B\<lparr>p_flush_page_head := p_flush_page_head B @ [p], p_flush_page_counter := u32_of (p_flush_page_counter B + 1)\<rparr>)"
    using ev by (auto simp: bfe_flush_page_def split: if_splits)
  have c: "cache_inv (taken pc) B' = cache_inv (taken pc) B" "view B' = view B" by (simp_all add: B' fpage_upd_def cache_inv_def view_def)
  show "view B' = view B" by (rule c(2))
  have d: "cache_inv (taken pc) B'" using c(1) sys_invD(1)[OF i] by simp
  have "rel_ok B'" using sys_invD(6)[OF i] r by (auto simp: rel_ok_def B' fpage_upd_def)
  then show "sys_inv (B', pc)" by (intro sys_keep[OF i d]) (use sys_invD[OF i] w in \<open>auto simp: B' fpage_upd_def\<close>)
qed

text \<open>The release thread never fails: the pages in its lists are full and flushed.\<close>

lemma rel_uncoalesce:
  "set (rel_pages (p_bre (bre_uncoalesce B))) = set (rel_pages (p_bre B))"
  "distinct (rel_pages (p_bre B)) \<Longrightarrow> distinct (rel_pages (p_bre (bre_uncoalesce B)))"
  by (auto simp: rel_pages_def bre_uncoalesce_def bre_upd_def)

lemma release_page_spec:
  assumes i: "sys_inv (B, pc)" and h: "p_page_head (p_bre B) = p # ps"
  obtains S where "drop_nodes p (pp_release_head (pages (fb B) p)) (fb B) = Some S" "pp_flush_head (pages S p) = []" "pp_release_head (pages S p) = []"
    "cache_inv (taken pc) (B\<lparr>fb := S\<rparr>)" "view (B\<lparr>fb := S\<rparr>) = view B" "\<And>a. a \<in> set (p_ddn_head S) \<Longrightarrow> d_page_node (dn S a) \<noteq> p"
    "\<And>q. full (fb B) q \<Longrightarrow> full S q" "\<And>b. b \<in> snd (taken pc) \<Longrightarrow> d_flushed (dn S b) = d_flushed (dn (fb B) b)"
proof -
  have "p \<in> set (rel_pages (p_bre B))" using h by (simp add: rel_pages_def)
  then have w: "pp_where (fpage B p) = PP_WHERE_RELEASE" "full (fb B) p" using sys_invD(6)[OF i] by (auto simp: rel_ok_def)
  have F: "snd (taken pc) = {}" if "fst (taken pc) = p"
    using sys_invD(4,5)[OF i] w(1) that by (cases pc) (auto simp: taken_def PP_WHERE_FLUSH_def PP_WHERE_RELEASE_def)
  note c = sys_invD(1)[OF i]
  have bi: "bse_inv (fb B)" "flush_inv (taken pc) (target B) (fb B)" using c by (simp_all add: cache_inv_def)
  have e: "pp_flush_head (pages (fb B) p) = []" by (rule all_flushed[OF bse_invD(1)[OF bi(1)] bi(2)]) (use w(2) in \<open>simp add: full_def\<close>)
  let ?f = "\<lambda>S. bre_upd (\<lambda>r. r\<lparr>p_free := p_free r @ [p]\<rparr>) (B\<lparr>fb := S\<rparr>)"
  obtain S where S: "bre_free_page p B = Some (?f S)" "cache_inv (taken pc) (B\<lparr>fb := S\<rparr>)" "view (B\<lparr>fb := S\<rparr>) = view B"
    "\<And>a. a \<in> set (p_ddn_head S) \<Longrightarrow> d_page_node (dn S a) \<noteq> p" "\<And>q. full (fb B) q \<Longrightarrow> full S q"
    "\<And>b. b \<notin> set (pp_release_head (pages (fb B) p)) \<Longrightarrow> reparent (dn (fb B) b) (dn S b)"
    by (rule bre_free_page_spec[OF c e F]) blast+
  obtain S0 where S0: "release_nodes p (pp_release_head (pages (fb B) p)) (fb B) = Some S0" "pp_flush_head (pages S0 p) = []" "pp_release_head (pages S0 p) = []" "?f S0 = ?f S"
    using S(1) unfolding bre_free_page_def by (auto split: Option.bind_splits if_splits)
  have eq: "S0 = S" using arg_cong[OF S0(4), of fb] by (simp add: bre_upd_def)
  have k: "d_flushed (dn S b) = d_flushed (dn (fb B) b)" if "b \<in> snd (taken pc)" for b
  proof -
    have "b \<notin> set (pp_release_head (pages (fb B) p))" using flush_invD(4)[OF bi(2) that] flush_invD(5)[OF bi(2), of b p] by auto
    then show ?thesis using reparentD[OF S(6)[of b]] by simp
  qed
  show ?thesis by (rule that[OF drop_nodes_eq[OF S0(1)[unfolded eq]] S0(2,3)[unfolded eq] S(2-5) k])
qed

lemma uncoalesce_inv:
  assumes i: "sys_inv (B, pc)"
  shows "sys_inv (bre_uncoalesce B, pc)" "view (bre_uncoalesce B) = view B" "target (bre_uncoalesce B) = target B" "p_free (p_bre (bre_uncoalesce B)) = p_free (p_bre B)"
proof -
  let ?B = "bre_uncoalesce B"
  have u: "fb ?B = fb B" "target ?B = target B" "fpage ?B = fpage B" "p_flush_page_head ?B = p_flush_page_head B" "p_ssd_mode ?B = p_ssd_mode B"
    "p_free (p_bre ?B) = p_free (p_bre B)"
    by (simp_all add: bre_uncoalesce_def bre_upd_def)
  show "view ?B = view B" "target ?B = target B" "p_free (p_bre ?B) = p_free (p_bre B)" using u by (simp_all add: view_def)
  have ro: "rel_ok ?B" using sys_invD(6)[OF i] u(1,3) by (simp add: rel_ok_def rel_uncoalesce)
  have c: "cache_inv (taken pc) ?B" using sys_invD(1)[OF i] u by (simp add: cache_inv_def)
  show "sys_inv (?B, pc)" by (rule sys_keep[OF i c ro]) (use u sys_invD(2-4)[OF i] in simp_all)
qed

lemma release_step_spec:
  assumes i: "sys_inv (B, pc)"
  obtains B' where "bre_release_step B = Some B'" "sys_inv (B', pc)" "view B' = view B" "target B' = target B"
    "\<And>p ps a. p_page_head (p_bre (bre_uncoalesce B)) = p # ps \<Longrightarrow> a \<in> set (p_ddn_head (fb B')) \<Longrightarrow> d_page_node (dn (fb B') a) \<noteq> p"
    "\<And>p ps. p_page_head (p_bre (bre_uncoalesce B)) = p # ps \<Longrightarrow> p_free (p_bre B') = p_free (p_bre B) @ [p] \<and> p_page_head (p_bre B') = ps"
proof (cases "p_page_head (p_bre (bre_uncoalesce B))")
  case Nil
  then show ?thesis using that[of "bre_uncoalesce B"] uncoalesce_inv[OF i] by (simp add: bre_release_step_def Let_def)
next
  case (Cons p ps)
  let ?B = "bre_uncoalesce B"
  note U = uncoalesce_inv[OF i]
  have "p \<in> set (rel_pages (p_bre ?B))" using Cons by (simp add: rel_pages_def)
  then have w: "pp_where (fpage ?B p) = PP_WHERE_RELEASE" "full (fb ?B) p" using sys_invD(6)[OF U(1)] by (auto simp: rel_ok_def)
  obtain S where S: "drop_nodes p (pp_release_head (pages (fb ?B) p)) (fb ?B) = Some S" "pp_flush_head (pages S p) = []" "pp_release_head (pages S p) = []"
    "cache_inv (taken pc) (?B\<lparr>fb := S\<rparr>)" "view (?B\<lparr>fb := S\<rparr>) = view ?B" "\<And>a. a \<in> set (p_ddn_head S) \<Longrightarrow> d_page_node (dn S a) \<noteq> p"
    "\<And>q. full (fb ?B) q \<Longrightarrow> full S q" "\<And>b. b \<in> snd (taken pc) \<Longrightarrow> d_flushed (dn S b) = d_flushed (dn (fb ?B) b)"
    by (rule release_page_spec[OF U(1) Cons]) blast
  let ?B' = "bre_upd (\<lambda>r. r\<lparr>p_free := p_free r @ [p]\<rparr>) ((bre_upd (\<lambda>r. r\<lparr>p_page_head := ps, p_page_counter := u32_of (p_page_counter r - 1)\<rparr>) ?B)\<lparr>fb := S\<rparr>)"
  have B': "fb ?B' = S" "target ?B' = target ?B" "fpage ?B' = fpage ?B" "p_flush_page_head ?B' = p_flush_page_head ?B" "p_ssd_mode ?B' = p_ssd_mode ?B"
    "p_free (p_bre ?B') = p_free (p_bre ?B) @ [p]" "p_page_head (p_bre ?B') = ps" "p_coalesced_page_head (p_bre ?B') = p_coalesced_page_head (p_bre ?B)"
    by (simp_all add: bre_upd_def)
  have ev: "bre_release_step B = Some ?B'" using Cons w S(1-3) by (simp add: bre_release_step_def Let_def full_def bre_upd_def)
  have "rel_pages (p_bre ?B') = rel_pages (p_bre ?B)" using Cons by (simp add: rel_pages_def B'(6-8))
  then have ro: "rel_ok ?B'" using sys_invD(6)[OF U(1)] S(7) unfolding rel_ok_def B'(1,3) by simp
  have c: "cache_inv (taken pc) ?B'" "view ?B' = view B" "target ?B' = target B" using S(4,5) U(2,3) by (simp_all add: cache_inv_def view_def bre_upd_def)
  have si: "sys_inv (?B', pc)" by (rule sys_keep[OF U(1) c(1) ro]) (use B' S(8) sys_invD(2-4)[OF U(1)] in simp_all)
  show ?thesis
  proof (rule that[OF ev si c(2,3)])
    show "d_page_node (dn (fb ?B') a) \<noteq> r" if "p_page_head (p_bre ?B) = r # rs" "a \<in> set (p_ddn_head (fb ?B'))" for r rs a
      using that Cons S(6)[of a] unfolding B'(1) by simp
    show "p_free (p_bre ?B') = p_free (p_bre B) @ [r] \<and> p_page_head (p_bre ?B') = rs" if "p_page_head (p_bre ?B) = r # rs" for r rs
      using that Cons U(4) unfolding B'(6,7) by simp
  qed
qed

lemma release_inv:
  assumes "sys_inv (B, pc)" "bre_release_step B = Some B'"
  shows "sys_inv (B', pc)" "view B' = view B"
  using release_step_spec[OF assms(1)] assms(2) by auto

lemma frame_rel: "frame B B' \<Longrightarrow> rel_ok B \<Longrightarrow> rel_ok B'"
  by (simp add: frame_def rel_ok_def)

lemma collect_inv:
  assumes i: "sys_inv (B, Idle)" and ev: "bfe_do_flush False B = Inr (Flush_page p, B)" "bfe_collect p (pp_flush_head (pages (fb B) p)) [] 0 B = Some (tf, q, B')"
  shows "sys_inv (B', Writing p tf tf q)" "view B' = view B"
proof -
  have p: "p \<in> set (p_flush_page_head B)" using ev(1) by (auto simp: bfe_do_flush_def split: list.splits Option.bind_splits if_splits)
  have "cache_inv (p, {}) B" using sys_invD(1)[OF i] taken_none[of p B 0] by (simp add: taken_def)
  then have c: "cache_inv (p, set tf) B'" "view B' = view B" "distinct tf" "frame B B'"
    using bfe_collect_spec[of p "{}" B _ "[]" 0, OF _ refl] ev(2) by auto
  show "view B' = view B" by (rule c(2))
  show "sys_inv (B', Writing p tf tf q)" using c p sys_invD(1-4)[OF i] frame_rel[OF c(4) sys_invD(6)[OF i]] by (auto simp: sys_inv_def taken_def frame_def)
qed

lemma extend_inv:
  assumes i: "sys_inv (B, Writing p (np # nps) tf q)" and ev: "(if \<not> d_flushed (dn (fb B) np) then extend_write_request np B else Some B) = Some B'"
  shows "sys_inv (B', Writing p nps tf q)" "view B' = view B"
proof -
  have t: "taken (Writing p ts tf q) = (p, set tf)" for ts by (simp add: taken_def)
  have c: "cache_inv (p, set tf) B" using sys_invD(1)[OF i] by (simp add: t)
  have n: "np \<in> set tf" using sys_invD(5)[OF i] by simp
  have "cache_inv (p, set tf) B' \<and> view B' = view B \<and> same_flush B B' \<and> d_flushed (dn (fb B') np) \<and> (\<forall>a. d_flushed (dn (fb B) a) \<longrightarrow> d_flushed (dn (fb B') a)) \<and>
    (\<forall>r. full (fb B) r \<longrightarrow> full (fb B') r)"
  proof (cases "d_flushed (dn (fb B) np)")
    case True
    then show ?thesis using ev c by (simp add: same_flush_def)
  next
    case False
    then obtain ks where "cache_inv (p, set tf) B'" "view B' = view B" "np \<in> set ks" "fb B' = mark_all ks (fb B)" "same_flush B B'"
      using extend_request_inv[OF c, of np] n ev by auto
    then show ?thesis by (simp add: full_def)
  qed
  then show "sys_inv (B', Writing p nps tf q)" "view B' = view B"
    using sys_invD[OF i] by (auto simp: sys_inv_def t same_flush_def rel_ok_def)
qed

lemma queued_rel:
  assumes "queued p B B'" "rel_ok B" "pp_where (fpage B p) = PP_WHERE_FLUSH" "full (fb B') p" "\<And>q. full (fb B) q \<Longrightarrow> full (fb B') q"
  shows "rel_ok B'"
proof -
  have n: "p \<notin> set (rel_pages (p_bre B))" using assms(2,3) by (auto simp: rel_ok_def PP_WHERE_FLUSH_def PP_WHERE_RELEASE_def)
  have q: "p_free (p_bre B') = p_free (p_bre B)" "pp_where (fpage B' p) = PP_WHERE_RELEASE" "\<And>r. r \<noteq> p \<Longrightarrow> pp_where (fpage B' r) = pp_where (fpage B r)"
    "p_page_head (p_bre B') = p_page_head (p_bre B) @ [p] \<and> p_coalesced_page_head (p_bre B') = p_coalesced_page_head (p_bre B) \<or>
     p_page_head (p_bre B') = p_page_head (p_bre B) \<and> p_coalesced_page_head (p_bre B') = p_coalesced_page_head (p_bre B) @ [p]"
    using assms(1) by (auto simp: queued_def split: if_splits)
  have "set (rel_pages (p_bre B')) = insert p (set (rel_pages (p_bre B)))" using q(1,4) by (auto simp: rel_pages_def)
  moreover have "distinct (rel_pages (p_bre B'))" using n q(1,4) assms(2) by (auto simp: rel_pages_def rel_ok_def)
  moreover have "pp_where (fpage B' r) = PP_WHERE_RELEASE \<and> full (fb B') r" if "r \<in> insert p (set (rel_pages (p_bre B)))" for r
    using that q(2) q(3)[of r] assms(2,4,5) by (cases "r = p") (auto simp: rel_ok_def)
  ultimately show ?thesis by (simp add: rel_ok_def)
qed

lemma finish_inv:
  assumes i: "sys_inv (B, Writing p [] tf q)" and ev: "bfe_finish p tf q B = Some B'"
  shows "sys_inv (B', Idle)" "view B' = view B"
proof -
  have c: "cache_inv (p, set tf) B" using sys_invD(1)[OF i] by (simp add: taken_def)
  have d: "p \<in> set (p_flush_page_head B)" "distinct tf" "\<And>a. a \<in> set tf \<Longrightarrow> d_flushed (dn (fb B) a)" using sys_invD(5)[OF i] by auto
  have r: "cache_inv (p, {}) B'" "view B' = view B" "queued p B B' \<and> full (fb B') p \<or> frame B B'" "\<And>q. full (fb B) q \<Longrightarrow> full (fb B') q"
    using bfe_finish_spec[OF c d(2,3) sys_invD(4)[OF i d(1)] sys_invD(2)[OF i], of q] ev by (auto split: if_splits)
  show "view B' = view B" by (rule r(2))
  have "rel_ok B'" using r(3,4) queued_rel[OF _ sys_invD(6)[OF i] sys_invD(4)[OF i d(1)]] frame_rel[OF _ sys_invD(6)[OF i]] by blast
  then show "sys_inv (B', Idle)" using r(1,3) sys_invD(2-4)[OF i] taken_none[of p B' 0]
    by (auto simp: sys_inv_def taken_def queued_def frame_def)
qed

lemma prepare_step:
  assumes i: "sys_inv (B, pc)" and g: "ddn_get_node (fb B) = Some (a, S)" "d_where y = DDN_WHERE_NO"
    and m: "\<And>i l. bse_at (fb B) i = Some l \<Longrightarrow> (if fst l then dev (snd l) else pgmem (snd l)) = bytes (fb B) l"
  shows "sys_inv (B\<lparr>fb := (dn_upd a (\<lambda>_. y) S)\<lparr>ram := pgmem, bufdev := dev\<rparr>\<rparr>, pc)"
    "view (B\<lparr>fb := (dn_upd a (\<lambda>_. y) S)\<lparr>ram := pgmem, bufdev := dev\<rparr>\<rparr>) = view B"
proof -
  note P = prepare_inv[OF sys_invD(1)[OF i] g m]
  show "view (B\<lparr>fb := (dn_upd a (\<lambda>_. y) S)\<lparr>ram := pgmem, bufdev := dev\<rparr>\<rparr>) = view B" by (rule P(2))
  have u: "b \<in> pool_used (ddn_pool (fb B))" if "b \<in> snd (taken pc)" for b
    using sys_invD(1)[OF i] flush_invD(4)[OF _ that] unfolding cache_inv_def by blast
  show "sys_inv (B\<lparr>fb := (dn_upd a (\<lambda>_. y) S)\<lparr>ram := pgmem, bufdev := dev\<rparr>\<rparr>, pc)"
  proof (rule sys_frame[OF i P(1)])
    fix b assume b: "b \<in> snd (taken pc)" "d_flushed (dn (fb B) b)"
    have "dn ((dn_upd a (\<lambda>_. y) S)\<lparr>ram := pgmem, bufdev := dev\<rparr>) b = dn (fb B) b" by (rule P(3)[OF _ u[OF b(1)]])
    then show "d_flushed (dn (fb (B\<lparr>fb := (dn_upd a (\<lambda>_. y) S)\<lparr>ram := pgmem, bufdev := dev\<rparr>\<rparr>)) b)" using b(2) by simp
  next
    fix p assume "full (fb B) p"
    then show "full (fb (B\<lparr>fb := (dn_upd a (\<lambda>_. y) S)\<lparr>ram := pgmem, bufdev := dev\<rparr>\<rparr>)) p" using P(4) by simp
  qed simp_all
qed

lemma seq_inv:
  assumes i: "sys_inv (B, pc)" and e: "fb B' = fb B" "target B' = target B" "fpage B' = fpage B" "p_flush_page_head B' = p_flush_page_head B" "p_ssd_mode B' = p_ssd_mode B" "p_bre B' = p_bre B"
  shows "sys_inv (B', pc)" "view B' = view B"
proof -
  show "sys_inv (B', pc)" by (rule sys_frame[OF i]) (use e sys_invD(1)[OF i] in \<open>simp_all add: cache_inv_def\<close>)
  show "view B' = view B" using e by (simp add: view_def)
qed

lemma cache_step_inv:
  assumes "cache_step (B, pc) e (B', pc')" "sys_inv (B, pc)"
  shows "sys_inv (B', pc') \<and> view B' = apply_event e (view B)"
  using assms
proof (induction "(B, pc)" e "(B', pc')" arbitrary: B pc B' pc' rule: cache_step.induct)
  case prepare
  then show ?case using prepare_step by simp
next
  case (insert new B S pc)
  note I = insert_inv[OF sys_invD(1)[OF insert.prems] insert.hyps]
  have "sys_inv (B\<lparr>fb := S\<rparr>, pc)" by (rule sys_frame[OF insert.prems I(1)]) (use I(2,3) in simp_all)
  then show ?case using I(4) by blast
next
  case queue
  then show ?case using queue_inv by simp
next
  case (require B pc seq)
  then show ?case using seq_inv[OF require, of "bfe_flush_seq seq B"] by (simp add: bfe_flush_seq_def)
next
  case (advance B n B')
  then show ?case using seq_inv[OF advance.prems, of B'] by (auto simp: bfe_next_try_def update_seq_flushed_def split: if_splits)
next
  case collect
  then show ?case using collect_inv by simp
next
  case extend
  then show ?case using extend_inv by simp
next
  case finish
  then show ?case using finish_inv by simp
next
  case (end_page p B B' pc)
  note E = end_page_inv[OF sys_invD(1)[OF end_page.prems] end_page.hyps]
  have "sys_inv (B', pc)" by (rule sys_frame[OF end_page.prems E(1)]) (use E in simp_all)
  then show ?case using E(2) by simp
next
  case release
  then show ?case using release_inv by simp
qed

lemma cache_steps_inv:
  assumes "cache_steps s es s'" "sys_inv s"
  shows "sys_inv s' \<and> view (fst s') = fold apply_event es (view (fst s))"
  using assms
proof (induction rule: cache_steps.induct)
  case (more_steps s es s' e s'')
  then show ?case using cache_step_inv[of "fst s'" "snd s'" e "fst s''" "snd s''"] by simp
qed simp

end
