(* ===== verification/Bfe_Correct.thy ===== *)
theory Bfe_Correct
  imports Bfe_System
begin

text \<open>
  The properties of the write cache with its flush and release threads in serial histories (theory \<open>Bfe_System\<close>): they refine a plain array of
  bytes; the flush thread writes what it has taken, within its limits, and comes to an end; a turn of the release thread returns, and a released page is in use
  nowhere; and two ways in which the flush thread stops for good.
\<close>

section \<open>A cache to start from\<close>

definition system0 :: "int \<Rightarrow> int \<Rightarrow> node_pool \<Rightarrow> bfe_private" where
  "system0 off len p = bfes_initialization (cache0 off len p) (\<lambda>_. \<lparr>pp_where = 0, pp_last_flush_seq = 0, pp_coalesced = 0\<rparr>) (\<lambda>_. 77) (\<lambda>_. 0) 1 False
     (bre_initialization False)"

lemma system0_sel [simp]:
  "fb (system0 off len p) = cache0 off len p" "target (system0 off len p) = (\<lambda>_. 77)" "p_flush_page_head (system0 off len p) = []"
  "\<not> p_ssd_mode (system0 off len p)" "pp_where (fpage (system0 off len p) q) = 0" "p_bre (system0 off len p) = bre_initialization False"
  by (simp_all add: system0_def bfes_initialization_def cache0_def bse_initialization_def)

lemma system0_inv:
  assumes "bse_inv (cache0 off len p)"
  shows "sys_inv (system0 off len p, Idle)" "view (system0 off len p) i = 77"
proof -
  let ?S = "cache0 off len p"
  have c: "p_ddn_head ?S = []" "pp_flush_head (pages ?S q) = []" "pp_release_head (pages ?S q) = []" "d_where (dn ?S a) = DDN_WHERE_NO"
    "p_max_flush_size ?S < 2 ^ 30" "p_pagesz ?S < 2 ^ 31" for q a
    by (simp_all add: cache0_def bse_initialization_def node0_def)
  have "flush_inv (0, {}) T ?S" for T unfolding flush_inv_def node_flush_def Let_def using c by simp
  then show "sys_inv (system0 off len p, Idle)" using assms by (simp add: sys_inv_def taken_def cache_inv_def rel_ok_def rel_pages_def bre_initialization_def)
  show "view (system0 off len p) i = 77" using c(1) bse_at_None[of ?S i] by (simp add: view_def seen_def cached_def)
qed

text \<open>A cache into which 100 bytes have been written, and whose page is queued for the flush thread.\<close>

lemma system0_written:
  obtains B B2 p b where "sys_inv (B, Idle)" "\<And>i. view B i = 77"
    "cache_steps (B, Idle) [Write 20 100 (\<lambda>i. of_int (i - 20)), Silent] (B2, Idle)" "sys_inv (B2, Idle)"
    "view B2 30 = 10" "bfe_do_flush False B2 = Inr (Flush_page p, B2)" "b \<in> set (pp_flush_head (pages (fb B2) p))" "p_flush_page_head B2 = [p]"
    "b \<in> set (p_ddn_head (fb B2))" "\<not> d_flushed (dn (fb B2) b)" "covers (dn (fb B2) b) 30" "target B2 30 = 77" "pp_where (fpage B2 p) = PP_WHERE_FLUSH"
    "\<And>i. bse_at (fb B2) i = (if 20 \<le> i \<and> i < 120 then Some (False, i - 20) else None)"
proof -
  obtain q a where S: "bse_inv (cache0 20 100 q)" "ready a (cache0 20 100 q)" "\<And>i. search_safe i (cache0 20 100 q)"
    by (rule cache0_ready[of 20 100]) auto
  let ?B = "system0 20 100 q"
  note I = system0_inv[OF S(1)]
  have f: "fb ?B = cache0 20 100 q" by simp
  obtain S1 where S1: "bse_insert_node a (cache0 20 100 q) = Some S1" and w: "written a (cache0 20 100 q) S1" by (rule bse_insert_node_spec[OF S(1,2) S(3)])
  have n: "dn (cache0 20 100 q) a = node0 20 100" "p_max_flush_size (cache0 20 100 q) = 2 ^ 20" "ram (cache0 20 100 q) = of_int"
    by (simp_all add: cache0_def bse_initialization_def)
  have at: "bse_at S1 i = (if 20 \<le> i \<and> i < 120 then Some (False, i - 20) else None)" for i
    using w bse_at_None[of "cache0 20 100 q" i] unfolding written_def n(1) by (simp add: covers_def loc_def node0_def cache0_def bse_initialization_def)
  let ?B1 = "?B\<lparr>fb := S1\<rparr>"
  have "cache_step (?B, Idle) (Write (d_offset (dn (fb ?B) a)) (d_len (dn (fb ?B) a)) (\<lambda>i. bytes (fb ?B) (loc (dn (fb ?B) a) i))) (?B1, Idle)"
    by (rule cache_step.insert) (use S S1 in \<open>simp_all add: f n(1,2)\<close>, simp add: node0_def)
  then have st1: "cache_step (?B, Idle) (Write 20 100 (\<lambda>i. of_int (i - 20))) (?B1, Idle)" by (simp add: f n node0_def loc_def bytes_def)
  have i1: "sys_inv (?B1, Idle)" "view ?B1 30 = 10" using cache_step_inv[OF st1 I(1)] I(2) by simp_all
  have fi: "bse_inv S1" "flush_inv (0, {}) (\<lambda>_. 77) S1" using sys_invD(1)[OF i1(1)] by (simp_all add: cache_inv_def taken_def)
  obtain b where b: "b \<in> set (p_ddn_head S1)" "covers (dn S1 b) 30"
    using i1(2) bse_at_None[of S1 30] by (auto simp: view_def seen_def cached_def)
  have "bse_at S1 30 = Some (loc (dn S1 b) 30)" using bse_at_Some[OF fi(1)] b by blast
  then have v: "bytes S1 (loc (dn S1 b) 30) = 10" using i1(2) by (simp add: view_def seen_def cached_def)
  have nf: "\<not> d_flushed (dn S1 b)" using flush_invD(2)[OF fi(2) b(1)] b(2) v by (auto simp: on_target_def)
  let ?p = "d_page_node (dn S1 b)"
  note ok = node_okD(1,6)[OF bse_invD(3)[OF fi(1) b(1)]]
  have h: "b \<in> set (pp_flush_head (pages S1 ?p))" using flush_invD(6)[OF fi(2) ok(1)] nf ok(2) by (auto simp: flags_ok_def)
  obtain B2 where B2: "bfe_flush_page ?p ?B1 = Some B2" "fb B2 = S1" "p_flush_page_head B2 = [?p]" "pp_where (fpage B2 ?p) = PP_WHERE_FLUSH" "target B2 30 = 77"
    by (simp add: bfe_flush_page_def fpage_upd_def PP_WHERE_FLUSH_def)
  have st2: "cache_step (?B1, Idle) Silent (B2, Idle)" by (rule cache_step.queue[OF B2(1)]) (simp add: PP_WHERE_RELEASE_def)
  have i2: "sys_inv (B2, Idle)" "view B2 30 = 10" using cache_step_inv[OF st2 i1(1)] i1(2) by simp_all
  have ne: "b \<in> set (pp_flush_head (pages (fb B2) ?p))" using h B2(2) by simp
  then have do: "bfe_do_flush False B2 = Inr (Flush_page ?p, B2)" using B2(3,4) by (auto simp: bfe_do_flush_def)
  have "cache_steps (?B, Idle) [Write 20 100 (\<lambda>i. of_int (i - 20)), Silent] (B2, Idle)"
    using more_steps[OF more_steps[OF no_step st1] st2] by simp
  then show ?thesis using that[OF I(1,2) _ i2 do ne B2(3) _ _ _ B2(5,4)] B2(2) at b nf by simp
qed

text \<open>The same cache after the flush thread has taken the node.\<close>

lemma system0_taken:
  obtains B p b where "sys_inv (B, Writing p [b] [b] 1)" "cache_inv (p, {b}) B" "view B 30 = 10" "target B 30 = 77"
    "b \<in> set (p_ddn_head (fb B))" "d_flushing (dn (fb B) b)" "\<not> d_flushed (dn (fb B) b)" "covers (dn (fb B) b) 30"
proof -
  obtain B p b where B: "sys_inv (B, Idle)" "view B 30 = 10" "b \<in> set (pp_flush_head (pages (fb B) p))" "p_flush_page_head B = [p]"
    "b \<in> set (p_ddn_head (fb B))" "\<not> d_flushed (dn (fb B) b)" "covers (dn (fb B) b) 30" "target B 30 = 77" "pp_where (fpage B p) = PP_WHERE_FLUSH"
    by (rule system0_written) blast
  have c: "cache_inv (p, {}) B" using sys_invD(1)[OF B(1)] taken_none[of p B 0] by (simp add: taken_def)
  then have i: "bse_inv (fb B)" "flush_inv (p, {}) (target B) (fb B)" by (simp_all add: cache_inv_def)
  have h: "b \<in> set (pp_flush_head (pages (fb B) (fst (p, {}))))" using B(3) by simp
  note T = take_step_inv[OF i h B(6)]
  let ?B = "B\<lparr>fb := take_step b (fb B)\<rparr>"
  have v: "cache_inv (p, {b}) ?B \<and> view ?B = view B" by (rule cache_invI) (use T in simp_all)
  have r: "rel_ok ?B" using sys_invD(6)[OF B(1)] T(6) by (simp add: rel_ok_def)
  from v have "sys_inv (?B, Writing p [b] [b] 1)" using B(4,9) sys_invD(2)[OF B(1)] by (simp add: sys_inv_def taken_def r)
  then show ?thesis by (rule that[of ?B p b]) (use v B in \<open>simp_all add: take_step_def covers_def\<close>)
qed

section \<open>All threads together\<close>

lemma cache_steps_trans: "cache_steps s' fs t \<Longrightarrow> cache_steps s es s' \<Longrightarrow> cache_steps s (es @ fs) t"
proof (induction rule: cache_steps.induct)
  case (more_steps s' fs t e u)
  then show ?case using cache_steps.more_steps[of s "es @ fs" t e u] by simp
qed simp

lemma cache_steps_one: "cache_step s e s' \<Longrightarrow> cache_steps s [e] s'"
  using more_steps[OF no_step] by fastforce

text \<open>
  C1. Serial histories of the cache refine an array of bytes. The contents of the cache (\<open>view\<close>) are at each offset the cached byte, or the byte of
  the device below where nothing is cached. In a history whose steps do not overlap (insertions within the preconditions of \<open>cache_step\<close>, steps of the flush
  thread at every point of its round, turns of the release thread) the contents at the end are those at the beginning, changed by the
  insertions in their order and by nothing else: the flush thread may be anywhere in its round when a write cuts, drops or splits nodes
  that it has taken, and pages may be released between any two steps. The invariant of the system holds again.
\<close>

theorem cache_refines:
  assumes "cache_steps s es s'" "sys_inv s"
  shows "view (fst s') = fold apply_event es (view (fst s)) \<and> sys_inv s'"
  using cache_steps_inv[OF assms] by simp

theorem cache_refines_witness:
  "\<exists>B B' p tf q. view B 30 = 77 \<and> view B' 30 = 10 \<and> view B' 120 = 77 \<and> sys_inv (B', Writing p tf tf q) \<and>
    cache_steps (B, Idle) [Write 20 100 (\<lambda>i. of_int (i - 20)), Silent, Silent] (B', Writing p tf tf q)"
proof -
  obtain B B2 p where B: "sys_inv (B, Idle)" "\<And>i. view B i = 77" "cache_steps (B, Idle) [Write 20 100 (\<lambda>i. of_int (i - 20)), Silent] (B2, Idle)"
    "sys_inv (B2, Idle)" "bfe_do_flush False B2 = Inr (Flush_page p, B2)"
    by (rule system0_written) blast
  have "cache_inv (p, {}) B2" using sys_invD(1)[OF B(4)] taken_none[of p B2 0] by (simp add: taken_def)
  then obtain tf q B' where B': "bfe_collect p (pp_flush_head (pages (fb B2) p)) [] 0 B2 = Some (tf, q, B')"
    using bfe_collect_spec[of p "{}" B2 _ "[]" 0, OF _ refl] by auto
  have st: "cache_steps (B, Idle) ([Write 20 100 (\<lambda>i. of_int (i - 20)), Silent] @ [Silent]) (B', Writing p tf tf q)"
    by (rule more_steps[OF B(3)]) (rule cache_step.collect[OF B(5) B'])
  note R = cache_refines[OF st B(1)]
  have "view B' 30 = 10" "view B' 120 = 77" using R B(2) by simp_all
  then show ?thesis using R st B(2) by (intro exI[of _ B] exI[of _ B'] exI[of _ p] exI[of _ tf] exI[of _ q]) simp
qed

text \<open>
  C2. A read that no other thread interrupts returns the last writes. After any serial history, for a request within \<open>request_ok\<close> (both parts start
  in a slot that the tree can hold or at an offset that is not cached, at most 1024 nodes on the buffer device are concerned, the two buffers do not overlap),
  \<open>__bwc_do_read\<close> returns, changes nothing in
  the cache, and puts into each place of the answer the byte last written there, or the byte from the beginning if nothing was
  written: whether the byte is cached in memory, cached on the buffer device, or has been flushed and its page released.
\<close>

theorem cache_read_last_write:
  assumes "cache_steps s es s'" "sys_inv s" "request_ok rn (fb (fst s'))"
  shows "\<exists>st' resp'. bwc_do_read rn (fst s') st resp = Some (fst s', st', resp') \<and>
    (\<forall>i. r_offset rn \<le> i \<and> i < r_offset rn + r_len rn \<longrightarrow> resp' (place rn i) = fold apply_event es (view (fst s)) i)"
proof -
  have r: "sys_inv (fst s', snd s')" "view (fst s') = fold apply_event es (view (fst s))" using cache_steps_inv[OF assms(1,2)] by simp_all
  have "bse_inv (fb (fst s'))" using sys_invD(1)[OF r(1)] by (simp add: cache_inv_def)
  then show ?thesis using bwc_do_read_spec[OF _ assms(3), of st resp] r(2) by metis
qed

theorem cache_read_last_write_witness:
  "\<exists>B st' resp'. bwc_do_read \<lparr>r_offset = 0, r_len = 100, r_resp_len_1 = 100, r_resp_buf_1 = 500, r_resp_buf_2 = 0\<rparr> B
      \<lparr>p_read_busy = 0, p_read_counter = 0\<rparr> (\<lambda>_. 0) = Some (B, st', resp') \<and> resp' 530 = 10 \<and> resp' 505 = 77"
proof -
  let ?rn = "\<lparr>r_offset = 0, r_len = 100, r_resp_len_1 = 100, r_resp_buf_1 = 500, r_resp_buf_2 = 0\<rparr>"
  obtain B B2 p where B: "sys_inv (B, Idle)" "\<And>i. view B i = 77" "cache_steps (B, Idle) [Write 20 100 (\<lambda>i. of_int (i - 20)), Silent] (B2, Idle)"
    "sys_inv (B2, Idle)" "\<And>i. bse_at (fb B2) i = (if 20 \<le> i \<and> i < 120 then Some (False, i - 20) else None)"
    by (rule system0_written) blast
  have inv: "bse_inv (fb B2)" using sys_invD(1)[OF B(4)] by (simp add: cache_inv_def)
  have "\<not> d_location_disk (dn (fb B2) b)" if "b \<in> set (p_ddn_head (fb B2))" for b
  proof -
    have "covers (dn (fb B2) b) (d_offset (dn (fb B2) b))" using node_okD(3)[OF bse_invD(3)[OF inv that]] by (simp add: covers_def)
    then have "bse_at (fb B2) (d_offset (dn (fb B2) b)) = Some (loc (dn (fb B2) b) (d_offset (dn (fb B2) b)))" using bse_at_Some[OF inv] that by blast
    then show ?thesis unfolding B(5) by (auto simp: loc_def split: if_splits)
  qed
  then have "disk_count (ddn (smem (fb B2))) (overlapping 0 99 (fb B2)) = 0" by (auto simp: disk_count_def overlapping_def filter_empty_conv)
  moreover have "search_safe 0 (fb B2)" by (simp add: search_safe_def B(5))
  ultimately have "request_ok ?rn (fb (fst (B2, Idle)))" by (simp add: request_ok_def)
  then obtain st' resp' where r: "bwc_do_read ?rn B2 \<lparr>p_read_busy = 0, p_read_counter = 0\<rparr> (\<lambda>_. 0) = Some (B2, st', resp')"
    "\<And>i. 0 \<le> i \<and> i < 100 \<Longrightarrow> resp' (place ?rn i) = fold apply_event [Write 20 100 (\<lambda>i. of_int (i - 20)), Silent] (view B) i"
    using cache_read_last_write[OF B(3,1), of ?rn "\<lparr>p_read_busy = 0, p_read_counter = 0\<rparr>" "\<lambda>_. 0"] by auto
  have "resp' 530 = 10" "resp' 505 = 77" using r(2)[of 30] r(2)[of 5] B(2) by (simp_all add: place_def)
  then show ?thesis using r(1) by blast
qed

text \<open>The flush thread can go on in every state of the system.\<close>

definition flush_goes_on :: "bfe_private \<Rightarrow> flush_pc \<Rightarrow> bool" where
  "flush_goes_on B pc \<longleftrightarrow> (case pc of
     Idle \<Rightarrow> \<forall>p. bfe_do_flush False B = Inr (Flush_page p, B) \<longrightarrow> bfe_collect p (pp_flush_head (pages (fb B) p)) [] 0 B \<noteq> None
   | Writing p [] tf q \<Rightarrow> bfe_finish p tf q B \<noteq> None
   | Writing p (np # nps) tf q \<Rightarrow> \<not> d_flushed (dn (fb B) np) \<longrightarrow> extend_write_request np B \<noteq> None)"

lemma sys_flush_goes_on:
  assumes i: "sys_inv (B, pc)"
  shows "flush_goes_on B pc"
proof (cases pc)
  case Idle
  then have "cache_inv (p, {}) B" for p using sys_invD(1)[OF i] taken_none[of p B 0] by (simp add: taken_def)
  then have "bfe_collect p (pp_flush_head (pages (fb B) p)) [] 0 B \<noteq> None" for p
    using bfe_collect_spec[of p "{}" B _ "[]" 0, OF _ refl] by (metis distinct.simps(1) empty_set option.distinct(1))
  then show ?thesis using Idle by (simp add: flush_goes_on_def)
next
  case (Writing p todo tf q)
  have w: "cache_inv (p, set tf) B" "distinct tf" "pp_where (fpage B p) = PP_WHERE_FLUSH"
    "\<And>a. a \<in> set tf \<Longrightarrow> a \<in> set todo \<or> d_flushed (dn (fb B) a)" "set todo \<subseteq> set tf"
    using sys_invD(1)[OF i] Writing sys_invD(4,5)[OF i] by (auto simp: taken_def)
  show ?thesis
  proof (cases todo)
    case Nil
    then have "bfe_finish p tf q B \<noteq> None" using bfe_finish_spec[OF w(1,2) _ w(3) sys_invD(2)[OF i], of q] w(4) by fastforce
    then show ?thesis using Writing Nil by (simp add: flush_goes_on_def)
  next
    case (Cons np nps)
    then have n: "np \<in> snd (p, set tf)" using w(5) by simp
    have "extend_write_request np B \<noteq> None" if "\<not> d_flushed (dn (fb B) np)" using extend_request_inv[OF w(1) n that] by (metis option.distinct(1))
    then show ?thesis using Writing Cons by (simp add: flush_goes_on_def)
  qed
qed

text \<open>
  In serial histories no assertion fails: the insertion of a node that is \<open>ready\<close> and starts where the search is safe
  returns, the flush thread finds its next page, takes its nodes, writes the next one or finishes the page, and a turn of the
  release thread returns.
\<close>

lemma cache_no_abort:
  assumes "cache_steps s es (B, pc)" "sys_inv s"
  shows "(\<forall>new. ready new (fb B) \<and> search_safe (d_offset (dn (fb B) new)) (fb B) \<longrightarrow> bse_insert_node new (fb B) \<noteq> None) \<and>
    bre_release_step B \<noteq> None \<and> (\<exists>y. bfe_do_flush False B = Inr y) \<and>
    flush_goes_on B pc"
proof (intro conjI)
  have i: "sys_inv (B, pc)" using cache_steps_inv[OF assms] by simp
  then have b: "bse_inv (fb B)" using sys_invD(1) by (auto simp: cache_inv_def)
  show "\<forall>new. ready new (fb B) \<and> search_safe (d_offset (dn (fb B) new)) (fb B) \<longrightarrow> bse_insert_node new (fb B) \<noteq> None"
    using bse_insert_node_spec[OF b] by (metis option.distinct(1))
  show "bre_release_step B \<noteq> None" using release_step_spec[OF i] by (metis option.distinct(1))
  show "(\<exists>y. bfe_do_flush False B = Inr y)" using sys_invD(4)[OF i] by (auto simp: bfe_do_flush_def Let_def split: list.split)
  show "flush_goes_on B pc" by (rule sys_flush_goes_on[OF i])
qed

section \<open>The flush thread\<close>

text \<open>
  C9. One vectored write. For a node that the flush thread has taken and that is not yet written, \<open>__extend_write_request\<close>
  returns: its vector has at most 512 entries and at most \<open>p_max_flush_size\<close> bytes, of contiguous nodes among which the node is; no byte of the
  flush buffer outside that size is touched; and the device below gets for the bytes of these nodes, whether they are in
  memory or on the buffer device, exactly what a reader sees, and keeps all other bytes. The nodes of the vector are marked as flushed and no others.
\<close>

theorem extend_write_bounded:
  assumes "cache_inv F B" "a \<in> snd F" "\<not> d_flushed (dn (fb B) a)"
  shows "\<exists>B' ks. extend_write_request a B = Some B' \<and> cache_inv F B' \<and> a \<in> set ks \<and> contiguous (ddn (smem (fb B))) ks \<and>
    length ks \<le> BFE_MAX_IOV \<and> lens (ddn (smem (fb B))) ks \<le> p_max_flush_size (fb B) \<and>
    (\<forall>j. j < 0 \<or> p_max_flush_size (fb B) \<le> j \<longrightarrow> p_flush_buffer B' j = p_flush_buffer B j) \<and>
    (\<forall>i. target B' i = (if \<exists>k \<in> set ks. covers (dn (fb B) k) i then view B i else target B i)) \<and>
    (\<forall>k. d_flushed (dn (fb B') k) \<longleftrightarrow> d_flushed (dn (fb B) k) \<or> k \<in> set ks)"
proof -
  have i: "bse_inv (fb B)" and f: "flush_inv F (target B) (fb B)" using assms(1) by (simp_all add: cache_inv_def)
  obtain B' ks where B': "extend_write_request a B = Some B'" "fb B' = mark_all ks (fb B)" "a \<in> set ks" "set ks \<subseteq> set (p_ddn_head (fb B))"
    "contiguous (ddn (smem (fb B))) ks" "length ks \<le> BFE_MAX_IOV" "lens (ddn (smem (fb B))) ks \<le> p_max_flush_size (fb B)"
    "\<And>k i. k \<in> set ks \<Longrightarrow> covers (dn (fb B) k) i \<Longrightarrow> target B' i = bytes (fb B) (loc (dn (fb B) k) i)"
    "\<And>i. (\<And>k. k \<in> set ks \<Longrightarrow> \<not> covers (dn (fb B) k) i) \<Longrightarrow> target B' i = target B i"
    "\<And>j. j < 0 \<or> p_max_flush_size (fb B) \<le> j \<Longrightarrow> p_flush_buffer B' j = p_flush_buffer B j"
    by (rule extend_write_request_spec[OF i f assms(2,3)]) blast
  have c: "cache_inv F B'" by (rule extend_request_inv[OF assms]) (use B'(1) in simp)
  have "target B' j = view B j" if "k \<in> set ks" "covers (dn (fb B) k) j" for k j
  proof -
    have "bse_at (fb B) j = Some (loc (dn (fb B) k) j)" using bse_at_Some[OF i] B'(4) that by blast
    then show ?thesis using B'(8)[OF that] by (simp add: view_def seen_def cached_def)
  qed
  then have "target B' j = (if \<exists>k \<in> set ks. covers (dn (fb B) k) j then view B j else target B j)" for j using B'(9) by auto
  then show ?thesis using B' c by (intro exI[of _ B'] exI[of _ ks]) simp
qed

theorem extend_write_bounded_witness:
  "\<exists>B a B'. \<not> d_flushed (dn (fb B) a) \<and> target B 30 = 77 \<and> extend_write_request a B = Some B' \<and> d_flushed (dn (fb B') a) \<and> target B' 30 = 10"
proof -
  obtain B p b where B: "cache_inv (p, {b}) B" "view B 30 = 10" "target B 30 = 77" "\<not> d_flushed (dn (fb B) b)" "covers (dn (fb B) b) 30"
    by (rule system0_taken) blast
  obtain B' ks where B': "extend_write_request b B = Some B'" "b \<in> set ks"
    "target B' 30 = (if \<exists>k \<in> set ks. covers (dn (fb B) k) 30 then view B 30 else target B 30)" "d_flushed (dn (fb B') b)"
    using extend_write_bounded[OF B(1) _ B(4)] by auto
  then have "target B' 30 = 10" using B(2,5) by auto
  then show ?thesis using B B' by blast
qed

text \<open>The steps that write the nodes, one after the other.\<close>

lemma write_steps:
  assumes "bfe_write_nodes todo B = Some B'"
  shows "cache_steps (B, Writing p todo tf q) (replicate (length todo) Silent) (B', Writing p [] tf q)"
  using assms
proof (induction todo arbitrary: B)
  case Nil
  then show ?case using no_step by simp
next
  case (Cons np nps)
  then obtain B1 where B1: "(if \<not> d_flushed (dn (fb B) np) then extend_write_request np B else Some B) = Some B1" "bfe_write_nodes nps B1 = Some B'"
    by (auto split: Option.bind_splits)
  show ?case using cache_steps_trans[OF Cons.IH[OF B1(2)] cache_steps_one[OF cache_step.extend[OF B1(1)]]] by simp
qed

text \<open>
  C10. The flush thread finishes its round. In every state of the system in which it has taken nodes of a page, and whatever other threads have
  done with these nodes since, it comes back to its start by its own steps, one for each node left to write and one
  to finish, without a failed assertion. The contents of the cache stay the same, and what it holds of the nodes taken is on the device below.
\<close>

theorem flush_thread_finishes:
  assumes "sys_inv (B, Writing p todo tf q)"
  shows "\<exists>B'. cache_steps (B, Writing p todo tf q) (replicate (Suc (length todo)) Silent) (B', Idle) \<and> sys_inv (B', Idle) \<and> view B' = view B \<and>
    (\<forall>a \<in> set tf \<inter> set (p_ddn_head (fb B)). \<forall>i. covers (dn (fb B) a) i \<longrightarrow> target B' i = view B i)"
proof -
  have c: "cache_inv (p, set tf) B" using sys_invD(1)[OF assms] by (simp add: taken_def)
  have d: "p \<in> set (p_flush_page_head B)" "distinct tf" "set todo \<subseteq> snd (p, set tf)" "\<And>a. a \<in> set tf \<Longrightarrow> a \<in> set todo \<or> d_flushed (dn (fb B) a)"
    using sys_invD(5)[OF assms] by auto
  obtain B2 ks where B2: "bfe_write_nodes todo B = Some B2" "cache_inv (p, set tf) B2" "view B2 = view B" "fb B2 = mark_all ks (fb B)" "same_flush B B2"
    "\<forall>a \<in> set todo. d_flushed (dn (fb B2) a)"
    using bfe_write_nodes_spec[OF c d(3)] by blast
  have fl: "d_flushed (dn (fb B2) a)" if "a \<in> set tf" for a using d(4)[OF that] B2(6) unfolding B2(4) by auto
  have w: "pp_where (fpage B2 p) = PP_WHERE_FLUSH" "\<not> p_ssd_mode B2" using B2(5) sys_invD(2,4)[OF assms] d(1) by (simp_all add: same_flush_def)
  obtain B' where B': "bfe_finish p tf q B2 = Some B'" "view B' = view B2" "target B' = target B2"
    using bfe_finish_spec[OF B2(2) d(2) fl w] by metis
  have st: "cache_steps (B, Writing p todo tf q) (replicate (length todo) Silent @ [Silent]) (B', Idle)"
    by (rule more_steps[OF write_steps[OF B2(1)]]) (rule cache_step.finish[OF B'(1)])
  have "target B' i = view B i" if "a \<in> set tf" "a \<in> set (p_ddn_head (fb B))" "covers (dn (fb B) a) i" for a i
  proof -
    have a: "a \<in> set (p_ddn_head (fb B2))" "covers (dn (fb B2) a) i" using that(2,3) by (simp_all add: B2(4) covers_def)
    then show ?thesis using flushed_view[OF B2(2) a(1) fl[OF that(1)] a(2)] B'(3) B2(3) by simp
  qed
  then have "\<forall>a \<in> set tf \<inter> set (p_ddn_head (fb B)). \<forall>i. covers (dn (fb B) a) i \<longrightarrow> target B' i = view B i" by blast
  then show ?thesis using st cache_steps_inv[OF st assms] B'(2) B2(3) by (intro exI[of _ B']) (simp add: replicate_append_same)
qed

theorem flush_thread_finishes_witness:
  "\<exists>B p b B'. target B 30 = 77 \<and> cache_steps (B, Writing p [b] [b] 1) [Silent, Silent] (B', Idle) \<and> target B' 30 = 10"
proof -
  obtain B p b where B: "sys_inv (B, Writing p [b] [b] 1)" "view B 30 = 10" "target B 30 = 77" "b \<in> set (p_ddn_head (fb B))" "covers (dn (fb B) b) 30"
    by (rule system0_taken) blast
  then obtain B' where "cache_steps (B, Writing p [b] [b] 1) [Silent, Silent] (B', Idle)" "target B' 30 = view B 30"
    using flush_thread_finishes[OF B(1)] by auto
  then show ?thesis using B(2,3) by auto
qed

text \<open>
  C11. A round without interference empties the flush list. For a page in the queue, the flush thread takes the nodes,
  writes them and finishes, without a failed assertion: the flush list is empty, the bytes of the page that are cached are all on the
  device below, the page counts as flushed whatever was written to it, and if that fills the page it goes to the release engine.
\<close>

theorem flush_round_flushes:
  assumes "cache_inv (p, {}) B" "pp_where (fpage B p) = PP_WHERE_FLUSH" "\<not> p_ssd_mode B"
  shows "\<exists>B'. bfe_flush_round p B = Some B' \<and> cache_inv (p, {}) B' \<and> view B' = view B \<and> pp_flush_head (pages (fb B') p) = [] \<and>
    (\<forall>a \<in> set (p_ddn_head (fb B')). d_page_node (dn (fb B') a) = p \<longrightarrow> (\<forall>i. covers (dn (fb B') a) i \<longrightarrow> target B' i = view B i)) \<and>
    pp_flushed (pages (fb B') p) = total (fb B) p \<and>
    (total (fb B) p = p_pagesz (fb B) \<and> pp_occupied (pages (fb B) p) = p_pagesz (fb B) \<longrightarrow> queued p B B')"
proof -
  obtain B' where B': "bfe_flush_round p B = Some B'" "cache_inv (p, {}) B'" "view B' = view B" "pp_flush_head (pages (fb B') p) = []"
    "pp_flushed (pages (fb B') p) = total (fb B) p" "total (fb B) p = p_pagesz (fb B) \<and> pp_occupied (pages (fb B) p) = p_pagesz (fb B) \<longrightarrow> queued p B B'"
    using bfe_flush_round_spec[OF assms] by blast
  have i: "bse_inv (fb B')" "flush_inv (p, {}) (target B') (fb B')" using B'(2) by (simp_all add: cache_inv_def)
  have "target B' j = view B j" if a: "a \<in> set (p_ddn_head (fb B'))" "d_page_node (dn (fb B') a) = p" "covers (dn (fb B') a) j" for a j
  proof -
    note ok = node_okD(1,6)[OF bse_invD(3)[OF i(1) a(1)]]
    have fl: "d_flushed (dn (fb B') a)" using flush_invD(6)[OF i(2) ok(1)] ok(2) a(2) B'(4) by (auto simp: flags_ok_def)
    show ?thesis using flushed_view[OF B'(2) a(1) fl a(3)] B'(3) by simp
  qed
  then show ?thesis using B' by blast
qed

theorem flush_round_flushes_witness:
  "\<exists>B p B'. pp_flush_head (pages (fb B) p) \<noteq> [] \<and> view B 30 = 10 \<and> bfe_flush_round p B = Some B' \<and>
    pp_flush_head (pages (fb B') p) = [] \<and> view B' 30 = 10"
proof -
  obtain B p b where B: "sys_inv (B, Idle)" "view B 30 = 10" "b \<in> set (pp_flush_head (pages (fb B) p))" "pp_where (fpage B p) = PP_WHERE_FLUSH"
    by (rule system0_written) blast
  have "cache_inv (p, {}) B" using sys_invD(1)[OF B(1)] taken_none[of p B 0] by (simp add: taken_def)
  then obtain B' where "bfe_flush_round p B = Some B'" "pp_flush_head (pages (fb B') p) = []" "view B' = view B"
    using flush_round_flushes[OF _ B(4) sys_invD(2)[OF B(1)]] by blast
  moreover have "pp_flush_head (pages (fb B) p) \<noteq> []" using B(3) by auto
  ultimately show ?thesis using B(2) by (intro exI[of _ B] exI[of _ p] exI[of _ B']) simp
qed

section \<open>The release of a page\<close>

text \<open>
  C12. A turn of the release thread that no other thread interrupts frees a page only when nothing needs it. In every state of the system between two
  steps, where no reader holds a node and no writer is inside an insertion, the turn returns: the pages in
  its lists are full and flushed, and their nodes wait for release. After the turn no node of
  the search engine has data on the freed page, so that its memory can be used again, the contents of the cache have not changed,
  and no page has been freed twice.
\<close>

theorem bre_release_safe:
  assumes "sys_inv (B, pc)"
  shows "\<exists>B'. bre_release_step B = Some B' \<and> sys_inv (B', pc) \<and> view B' = view B \<and> target B' = target B \<and> distinct (p_free (p_bre B')) \<and>
    (\<forall>p ps. p_page_head (p_bre (bre_uncoalesce B)) = p # ps \<longrightarrow> p_free (p_bre B') = p_free (p_bre B) @ [p] \<and>
      (\<forall>a \<in> set (p_ddn_head (fb B')). d_page_node (dn (fb B') a) \<noteq> p))"
proof -
  obtain B' where B': "bre_release_step B = Some B'" "sys_inv (B', pc)" "view B' = view B" "target B' = target B"
    "\<And>p ps a. p_page_head (p_bre (bre_uncoalesce B)) = p # ps \<Longrightarrow> a \<in> set (p_ddn_head (fb B')) \<Longrightarrow> d_page_node (dn (fb B') a) \<noteq> p"
    "\<And>p ps. p_page_head (p_bre (bre_uncoalesce B)) = p # ps \<Longrightarrow> p_free (p_bre B') = p_free (p_bre B) @ [p] \<and> p_page_head (p_bre B') = ps"
    by (rule release_step_spec[OF assms]) blast
  have "distinct (p_free (p_bre B'))" using sys_invD(6)[OF B'(2)] by (simp add: rel_ok_def rel_pages_def)
  then show ?thesis using B' by (intro exI[of _ B']) auto
qed

theorem bre_release_safe_witness:
  "\<exists>B p B'. p_page_head (p_bre B) = [p] \<and> view B 30 = 10 \<and> bre_release_step B = Some B' \<and> view B' 30 = 10 \<and> p_free (p_bre B') = [p] \<and>
    (\<forall>a \<in> set (p_ddn_head (fb B')). d_page_node (dn (fb B') a) \<noteq> p)"
proof -
  obtain B0 p where B0: "sys_inv (B0, Idle)" "view B0 30 = 10" "pp_where (fpage B0 p) = PP_WHERE_FLUSH"
    by (rule system0_written) blast
  have "cache_inv (p, {}) B0" using sys_invD(1)[OF B0(1)] taken_none[of p B0 0] by (simp add: taken_def)
  then obtain B1 where B1: "cache_inv (p, {}) B1" "view B1 = view B0" "pp_flush_head (pages (fb B1) p) = []"
    using bfe_flush_round_spec[OF _ B0(3) sys_invD(2)[OF B0(1)]] by blast
  have i: "bse_inv (fb B1)" "flush_inv (p, {}) (target B1) (fb B1)" using B1(1) by (simp_all add: cache_inv_def)
  note b = bse_invD(1)[OF i(1)]
  let ?z = "p_pagesz (fb B1)"
  let ?S = "page_upd p (\<lambda>y. y\<lparr>pp_occupied := ?z, pp_flushed := ?z\<rparr>) (fb B1)"
  let ?B = "B1\<lparr>fb := ?S, fpage := (\<lambda>_. \<lparr>pp_where = PP_WHERE_RELEASE, pp_last_flush_seq = 0, pp_coalesced = 0\<rparr>), p_flush_page_head := [],
    p_ssd_mode := False, p_bre := (bre_initialization False)\<lparr>p_page_head := [p]\<rparr>\<rparr>"
  have "pp_flushed (pages (fb B1) p) = total (fb B1) p" by (rule none_left[OF i(2) B1(3)]) simp
  then have t: "total ?S q = (if q = p then ?z else total (fb B1) q)" for q by (simp add: total_def)
  have "same_extents (fb B1) ?S" by (simp add: same_extents_def same_rest_def)
  moreover have "books_ok ?S" using b by (auto simp: books_ok_def flush_lists_ok_def t)
  ultimately have s: "bse_inv ?S" "bse_at ?S j = bse_at (fb B1) j" for j
    using same_extents_inv[OF i(1)] node_okD(6)[OF bse_invD(3)[OF i(1)]] by simp_all
  have "flow (fb B1) ?S" by (rule flow_cong) (auto simp: untouched_def same_rest_def full_def)
  then have "flush_inv (p, {}) (target B1) ?S" using i(2) unfolding flow_def by blast
  then have c: "cache_inv (p, {}) ?B \<and> view ?B = view B1" by (intro cache_invI) (use s in \<open>simp_all add: same_rest_def\<close>)
  have "rel_ok ?B" by (simp add: rel_ok_def rel_pages_def bre_initialization_def full_def)
  then have "sys_inv (?B, Idle)" using c taken_none[of p ?B 0] by (simp add: sys_inv_def taken_def)
  then obtain B' where "bre_release_step ?B = Some B'" "view B' = view ?B" "\<forall>a \<in> set (p_ddn_head (fb B')). d_page_node (dn (fb B') a) \<noteq> p" "p_free (p_bre B') = [p]"
    using bre_release_safe[of ?B Idle] by (auto simp: bre_uncoalesce_def bre_upd_def bre_initialization_def)
  then show ?thesis using c B1(2) B0(2) by (intro exI[of _ ?B] exI[of _ p] exI[of _ B']) (simp add: bre_initialization_def)
qed

section \<open>Two ways to stop\<close>

lemma br_release_unflushed: "pp_flushed (pages (fb B) p) \<noteq> pp_occupied (pages (fb B) p) \<Longrightarrow> br_release p B = None"
  by (simp add: br_release_def bre_release_page_def bre_release_page_immediately_def)

text \<open>
  C13. A cache that is stopped with a page half full never stops. With \<open>fast_flush\<close> set, and a first page in the queue whose flush list is
  empty and which does not count as flushed, the flush thread cannot go on: when the page is not fully occupied, \<open>bfe_end_page\<close>
  takes \<open>p_flush_lck\<close>, which the thread holds already; when it is, the release engine fails its assertion that all of it is flushed.
  Without the lock in hand \<open>bfe_end_page\<close> would return.
\<close>

theorem flush_stop_stuck:
  assumes "p_flush_page_head B = p # ps" "pp_where (fpage B p) = PP_WHERE_FLUSH" "pp_flush_head (pages (fb B) p) = []"
    "pp_flushed (pages (fb B) p) \<noteq> p_pagesz (fb B)"
  shows "bfe_do_flush True B = Inl (if pp_occupied (pages (fb B) p) < p_pagesz (fb B) then Own_lock else Assertion_fails) \<and>
    (pp_occupied (pages (fb B) p) < p_pagesz (fb B) \<longrightarrow> (\<exists>B'. bfe_end_page False p (B\<lparr>p_flush_page_head := ps\<rparr>) = Inr B'))"
proof (cases "pp_occupied (pages (fb B) p)" "p_pagesz (fb B)" rule: linorder_cases)
  case equal
  then have "br_release p (B\<lparr>p_flush_page_head := ps\<rparr>) = None" using assms(4) br_release_unflushed[of "B\<lparr>p_flush_page_head := ps\<rparr>" p] by simp
  then show ?thesis using assms equal by (simp add: bfe_do_flush_def bfe_end_page_def)
qed (use assms in \<open>simp_all add: bfe_do_flush_def bfe_end_page_def\<close>)

theorem flush_stop_stuck_witness:
  "\<exists>B. bfe_flush_page 0 ((system0 20 100 (node_initialization 0))\<lparr>p_stop := True\<rparr>) = Some B \<and> pp_where (fpage B 0) = PP_WHERE_FLUSH \<and>
    bfe_do_flush True B = Inl Own_lock"
proof -
  let ?B0 = "(system0 20 100 (node_initialization 0))\<lparr>p_stop := True\<rparr>"
  obtain B where B: "bfe_flush_page 0 ?B0 = Some B" "fb B = fb ?B0" "p_flush_page_head B = [0]" "pp_where (fpage B 0) = PP_WHERE_FLUSH"
    by (simp add: bfe_flush_page_def fpage_upd_def PP_WHERE_FLUSH_def)
  have p: "pp_flush_head (pages (fb B) 0) = []" "pp_flushed (pages (fb B) 0) \<noteq> p_pagesz (fb B)" "pp_occupied (pages (fb B) 0) < p_pagesz (fb B)"
    by (simp_all add: B(2) cache0_def bse_initialization_def)
  show ?thesis using flush_stop_stuck[OF B(3,4) p(1,2)] p(3) B(1,4) by simp
qed

lemma low_bound_walk_not_flushed:
  "low_bound_walk d mx ms cm cur pres = low \<Longrightarrow> low = cur \<or> low \<in> set pres \<and> \<not> (d_flushing (d low) \<and> d_flushed (d low))"
  by (induction d mx ms cm cur pres rule: low_bound_walk.induct) (auto split: if_splits)

text \<open>
  C14. No limit on the size of a write does not work. The code reads a \<open>p_max_flush_size\<close> of 0 as no limit in each of its tests,
  but the assertion behind them compares with it all the same: the first node that is to be flushed fails it.
\<close>

theorem flush_unlimited_aborts:
  assumes inv: "bse_inv (fb B)" and m: "p_max_flush_size (fb B) = 0" and a: "a \<in> set (p_ddn_head (fb B))" "d_flushing (dn (fb B) a)" "\<not> d_flushed (dn (fb B) a)"
    and l: "\<forall>b \<in> set (p_ddn_head (fb B)). fx_ok (dn (fb B) b) \<and> d_len (dn (fb B) b) < 2 ^ 31"
  shows "extend_write_request a B = None"
proof -
  let ?S = "fb B"
  obtain low where low: "bse_contiguous_low_bound a (BFE_MAX_IOV - 1) 0 ?S = Some low" "low \<in> set (p_ddn_head ?S)" "\<not> (d_flushing (dn ?S low) \<and> d_flushed (dn ?S low))"
  proof -
    let ?pres = "rev (takeWhile (\<lambda>y. y \<noteq> a) (p_ddn_head ?S))"
    let ?low = "low_bound_walk (ddn (smem ?S)) (BFE_MAX_IOV - 1) 0 0 a ?pres"
    have "set ?pres \<subseteq> set (p_ddn_head ?S)" using set_takeWhileD by fastforce
    then show ?thesis using low_bound_walk_not_flushed[OF refl, of "ddn (smem ?S)" "BFE_MAX_IOV - 1" 0 0 a ?pres] a that[of ?low]
      by (auto simp: bse_contiguous_low_bound_def)
  qed
  note ok = node_okD(3,6)[OF bse_invD(3)[OF inv low(2)]]
  have fl: "\<not> d_flushed (dn ?S low)" using low(3) ok(2) by (auto simp: flags_ok_def)
  have len: "d_flushing (dn ?S low) \<Longrightarrow> d_flush_len (dn ?S low) = d_len (dn ?S low)" "d_len (dn ?S low) < 2 ^ 31"
    using l low(2) fl by (auto simp: fx_ok_def)
  let ?E = "\<lparr>es_bse = ?S, es_vec = [], es_got_me = False, es_write_size = 0, es_data_buf = 0, es_coalesce = p_coalesce_flush_counter B\<rparr>"
  have tk: "extend_take a low (?E\<lparr>es_got_me := g\<rparr>) = None" for g
    using len ok(1) m by (cases "d_flushing (dn ?S low)") (simp_all add: extend_take_def Let_def)
  obtain t where tn: "bse_traverse_next ?S (Some low) = (Some low, t)" by (simp add: bse_traverse_next_def)
  have "extend_collect (Suc n) a (Some low) None ?E = None" for n
    using fl m tk tn by (cases "d_flush_done (dn ?S low)") (simp_all add: Let_def)
  then have "extend_collect BFE_MAX_IOV a (Some low) None ?E = None" by (metis BFE_MAX_IOV_def Suc_numeral semiring_norm(5) numeral_eq_Suc)
  then show ?thesis using a(3) m low(1) by (simp add: extend_write_request_def Let_def)
qed

theorem flush_unlimited_aborts_witness:
  "\<exists>B a B'. extend_write_request a B = Some B' \<and> extend_write_request a (B\<lparr>fb := (fb B)\<lparr>p_max_flush_size := 0\<rparr>\<rparr>) = None"
proof -
  obtain B p b where B: "cache_inv (p, {b}) B" "b \<in> set (p_ddn_head (fb B))" "d_flushing (dn (fb B) b)" "\<not> d_flushed (dn (fb B) b)"
    by (rule system0_taken) blast
  have i: "bse_inv (fb B)" "flush_inv (p, {b}) (target B) (fb B)" using B(1) by (simp_all add: cache_inv_def)
  let ?S = "(fb B)\<lparr>p_max_flush_size := 0\<rparr>"
  have t: "total ?S = total (fb B)" by (intro ext) (simp add: total_def)
  have "bse_inv ?S" using i(1) by (simp add: bse_inv_def books_ok_def flush_lists_ok_def t node_ok'_def)
  moreover have "fx_ok (dn (fb B) c) \<and> d_len (dn (fb B) c) < 2 ^ 31" if "c \<in> set (p_ddn_head (fb B))" for c
    using flush_invD(1,8)[OF i(2) that] flush_invD(9)[OF i(2)] by simp
  ultimately have "extend_write_request b (B\<lparr>fb := ?S\<rparr>) = None" by (intro flush_unlimited_aborts) (use B in simp_all)
  moreover obtain B' where "extend_write_request b B = Some B'" using extend_request_inv[OF B(1) _ B(4)] by auto
  ultimately show ?thesis by blast
qed

text \<open>The pages that \<open>_bre_release_page_all\<close> frees are not taken out of the count.\<close>

lemma free_pages_counter: "free_pages ps B = Some B' \<Longrightarrow> p_page_counter (p_bre B') = p_page_counter (p_bre B)"
  by (induction ps arbitrary: B) (fastforce simp: Let_def bre_upd_def split: Option.bind_splits if_splits)+

lemma release_all_not_counted:
  assumes "bre_release_page_all B = Some B'"
  shows "p_page_counter (p_bre B') = p_page_counter (p_bre B)"
  using free_pages_counter[OF assms[unfolded bre_release_page_all_def Let_def]] by (simp add: bre_uncoalesce_def bre_upd_def)

end
