(* ===== verification/Bfe_Window.thy ===== *)
theory Bfe_Window
  imports Bfe_Correct
begin

text \<open>
  What other threads find while a thread is inside an operation that \<open>cache_step\<close> takes as one step. An insertion holds
  the lock of the search engine for reading and upgrades it for each change of the list (\<open>l_uplock\<close>, \<open>l_downlock\<close>), so that readers run
  between two changes; a turn of the release thread walks \<open>pp_release_head\<close> without a lock, so that a writer runs
  between two of its nodes. The states between are states of the model: here is what goes wrong in them.
\<close>

section \<open>A read inside an insertion\<close>

lemma around_only:
  assumes inv: "bse_inv S" and A: "around off e us ms vs S" and a: "a \<in> set (p_ddn_head S)" "off \<le> node_end (dn S a)" "d_offset (dn S a) \<le> e"
    and o: "\<And>b. b \<in> set (p_ddn_head S) \<Longrightarrow> b \<noteq> a \<Longrightarrow> node_end (dn S b) < off \<or> e < d_offset (dn S b)"
  shows "ms = [a]"
proof -
  have xs: "p_ddn_head S = us @ ms @ vs" using A by (simp add: around_def)
  have "a \<notin> set us" "a \<notin> set vs" using A a(2,3) by (auto simp: around_def)
  then have "a \<in> set ms" using a(1) xs by auto
  moreover have "m = a" if "m \<in> set ms" for m
  proof (rule ccontr)
    assume "m \<noteq> a"
    then show False using o[of m] A that xs by (fastforce simp: around_def)
  qed
  moreover have "distinct ms" using bse_distinct[OF inv] xs by simp
  ultimately have m: "\<And>m. m \<in> set ms \<Longrightarrow> m = a" "distinct ms" "a \<in> set ms" by blast+
  show ?thesis
  proof (cases ms)
    case (Cons x rest)
    then have x: "x = a" "\<And>m. m \<in> set rest \<Longrightarrow> m = a" "a \<notin> set rest" using m(1,2) by auto
    then have "rest = []" by (cases rest) auto
    then show ?thesis using Cons x(1) by simp
  qed (use m(3) in simp)
qed





section \<open>A write inside a turn of the release thread\<close>

lemma bse_add_ddn_pages: "bse_add_ddn a pos S = Some S' \<Longrightarrow> pages S' = pages S"
  by (auto simp: bse_add_ddn_def bse_rt_insert_def Let_def split: Option.bind_splits)

lemma bfe_add_node_release: "bfe_add_node a S = Some S' \<Longrightarrow> pp_release_head (pages S' p) = pp_release_head (pages S p)"
  by (auto simp: bfe_add_node_def Let_def split: if_splits)

lemma bse_del_put_pages:
  "bse_del_node a S = Some S' \<Longrightarrow> pages S' = pages S" "ddn_put_node a S = Some (l, S') \<Longrightarrow> pages S' = pages S"
  by (auto simp: bse_del_node_def bse_rt_hint_remove_def ddn_put_node_def Let_def split: Option.bind_splits if_splits)

lemma cut_adjust_release:
  assumes "bfe_right_cut_node_adjust a n b new S = Some (rc, S')" "d_flushed (dn S a)" "a \<noteq> b"
  shows "pp_release_head (pages S' (d_page_node (dn S a))) \<noteq> []"
  using assms by (auto simp: bfe_right_cut_node_adjust_def Let_def split: if_splits)

lemma split_release:
  assumes "bse_insert_inside a pre new S = Some S'" "d_flushed (dn S a)" "a \<in> pool_used (ddn_pool S)" "pool_inv (ddn_pool S)"
    "node_end (dn S new) < node_end (dn S a)" "node_end (dn S a) - node_end (dn S new) < 2 ^ 32"
  shows "pp_release_head (pages S' (d_page_node (dn S a))) \<noteq> []"
proof -
  let ?p = "d_page_node (dn S a)"
  have l: "u32_of (node_end (dn S a) - node_end (dn S new)) \<noteq> 0" using assms(5,6) by (simp add: u32_of_def)
  obtain b q where q: "node_get_node (ddn_pool S) = Some (b, q)" "b \<notin> pool_used (ddn_pool S)" using np.getE[OF assms(4)] by metis
  then have ab: "a \<noteq> b" using assms(3) by auto
  obtain S1 n rc S2 S3 S4 where st: "bfe_right_cut_node_adjust a n b new S1 = Some (rc, S2)" "dn S1 a = dn S a"
    "bse_add_ddn b (Suc pre) S2 = Some S3" "bse_add_ddn new (Suc pre) S3 = Some S4" "bfe_add_node new S4 = Some S'"
    using assms(1,5) l q(1) ab
    by (auto simp: bse_insert_inside_def Let_def ddn_get_node_def bse_right_cut_adjust_def split: Option.bind_splits if_splits)
  have "pp_release_head (pages S2 ?p) \<noteq> []" using cut_adjust_release[OF st(1)] st(2) assms(2) ab by simp
  then show ?thesis using bse_add_ddn_pages[OF st(3)] bse_add_ddn_pages[OF st(4)] bfe_add_node_release[OF st(5)] by simp
qed

text \<open>
  The release thread has unlinked the last node \<open>a\<close> of a page from \<open>pp_release_head\<close> and not yet deleted it from the search engine. A write inside
  this node splits it, and the rest on the right joins \<open>pp_release_head\<close>. The loop ends with \<open>a\<close>, and the assertion behind it fails.
\<close>

lemma release_race:
  assumes inv: "bse_inv S" and r: "ready new S" and safe: "search_safe (d_offset (dn S new)) S" and p: "p = d_page_node (dn S a)"
    and a: "a \<in> set (p_ddn_head S)" "d_offset (dn S a) < d_offset (dn S new)" "node_end (dn S new) < node_end (dn S a)" "d_flushed (dn S a)"
  shows "\<exists>S'. bse_insert_node new S = Some S' \<and>
    do { S \<leftarrow> bse_del_node a S'; (left, S) \<leftarrow> ddn_put_node a S; S \<leftarrow> drop_nodes p [] S;
         c_assert (pp_flush_head (pages S p) = [] \<and> pp_release_head (pages S p) = []); Some S } = None"
proof -
  let ?o = "d_offset (dn S new)" let ?e = "node_end (dn S new)"
  have wf: "0 \<le> ?o" "?o < 2 ^ 62" "0 < d_len (dn S new)" using readyD(3)[OF r] by (auto simp: node_wf_def)
  obtain us ms vs where ov: "bse_overlap ?o ?e S = Some (length us, length us + length ms)" and A: "around ?o ?e us ms vs S"
    by (rule bse_overlap_spec[OF inv wf(1,2) safe])
  have ok: "node_ok' S a" by (rule bse_invD(3)[OF inv a(1)])
  have "node_end (dn S b) < ?o \<or> ?e < d_offset (dn S b)" if b: "b \<in> set (p_ddn_head S)" "b \<noteq> a" for b
  proof -
    obtain xs ys where xy: "p_ddn_head S = xs @ a # ys" using split_list[OF a(1)] by blast
    note sp = bse_split[OF inv xy]
    have "ends_before (ddn (smem S)) b a \<or> ends_before (ddn (smem S)) a b" using b xy sp(6,7) by auto
    then show ?thesis using a(2,3) by (auto simp: ends_before_def node_end_def)
  qed
  then have ms: "ms = [a]" using around_only[OF inv A a(1)] a(2,3) wf(3) by (simp add: node_end_def)
  have xs: "p_ddn_head S = us @ a # vs" using A ms by (simp add: around_def)
  obtain S' where S': "bse_insert_node new S = Some S'" by (rule bse_insert_node_spec[OF inv r safe])
  then have "bse_insert_inside a (length us) new S = Some S'" using ov a(2) by (simp add: bse_insert_node_def Let_def ms xs)
  moreover have "a \<in> pool_used (ddn_pool S)" "pool_inv (ddn_pool S)" using node_okD(1)[OF ok] bse_invD(1)[OF inv] by (simp_all add: books_ok_def)
  moreover have "node_end (dn S a) - ?e < 2 ^ 32" using node_okD[OF ok] a(2) wf(3) by (simp add: node_end_def)
  ultimately have "pp_release_head (pages S' p) \<noteq> []" using split_release a(3,4) p by blast
  then show ?thesis using S' bse_del_put_pages by (auto split: Option.bind_splits)
qed

end
