(* ===== verification/Rtree_Limits.thy ===== *)
theory Rtree_Limits
  imports Ds_Store
begin

text \<open>
  Behaviour of the radix tree outside the contract of its clients: keys beyond the height limit,
  the hinted search, and the hinted insertion of a key that shares its leaf with the hint.
\<close>

lemma rt_fit_height_ge: "h \<le> rt_fit_height key h"
proof (induction key h rule: rt_fit_height.induct)
  case (1 key h)
  show ?case
  proof (cases "h \<le> RTREE_MAX_PATH \<and> height_to_maxindex ! h < key")
    case True
    then have "rt_fit_height key h = rt_fit_height key (Suc h)" by (subst rt_fit_height.simps) simp
    then show ?thesis using "1.IH"[OF True] by simp
  next
    case False
    then have "rt_fit_height key h = h" by (subst rt_fit_height.simps) auto
    then show ?thesis by simp
  qed
qed

lemma rt_fit_height_beyond:
  assumes "64 ^ 8 \<le> unat key" and "h \<le> 8"
  shows "8 < rt_fit_height key h"
  using assms(2)
proof (induction "9 - h" arbitrary: h rule: less_induct)
  case less
  have "(64::nat) ^ h \<le> 64 ^ 8" using less.prems by (intro power_increasing) simp_all
  then have "64 ^ h \<le> unat key" using assms(1) by (rule order_trans)
  then have b: "height_to_maxindex ! h < key" using less.prems key_beyond[of h key] by simp
  have "rt_fit_height key h = rt_fit_height key (Suc h)"
    using b less.prems by (subst rt_fit_height.simps) (simp add: rtree_consts)
  moreover have "8 < rt_fit_height key (Suc h)"
  proof (cases "h = 8")
    case True
    then show ?thesis using rt_fit_height_ge[of "Suc h" key] by simp
  next
    case False
    then show ?thesis using less by simp
  qed
  ultimately show ?case by simp
qed

lemma rt_extend_step_top: "r_height t = 8 \<Longrightarrow> rt_extend_step cb t s = None"
  by (cases "node_get_node (p_node (p_rtn t))")
    (auto simp: rt_extend_step_def rtn_get_node_def rtree_consts Let_def c_assert_def)

lemma bt_extend_limit:
  assumes "rt_rep {} L M (bn_parents s) t" and "r_rnode t \<noteq> Null" and "8 < H"
  shows "rt_extend_loop dsbmp_cb H t s = None"
  using assms(1,2)
proof (induction "8 - r_height t" arbitrary: t s L)
  case 0
  then have "r_height t = 8" using rt_repD(1)[OF "0.prems"(1)] by simp
  then show ?case by (subst rt_extend_loop.simps) (simp add: rt_extend_step_top)
next
  case (Suc m)
  then have lt: "r_height t < 8" by simp
  from bt.extend_step[OF Suc.prems lt] obtain t' s' L' where
    t': "rt_extend_step dsbmp_cb t s = Some (t', s')" "r_height t' = Suc (r_height t)"
    "r_rnode t' \<noteq> Null" "rt_rep {} L' M (bn_parents s') t'" by blast
  have "rt_extend_loop dsbmp_cb H t' s' = None"
    using Suc.hyps(2) t'(2) by (intro Suc.hyps(1)[OF _ t'(4,3)]) simp
  then show ?case using t' lt assms(3) by (subst rt_extend_loop.simps) simp
qed

lemma bt_insert_limit:
  assumes "rt_abs M (bn_parents s) t" and "64 ^ 8 \<le> unat key"
  shows "rtree_insert dsbmp_cb key x t s = None"
proof -
  from assms(1) obtain L where rep: "rt_rep {} L M (bn_parents s) t" by (auto simp: rt_abs_def)
  note h8 = rt_repD(1)[OF rep]
  have "(64::nat) ^ r_height t \<le> 64 ^ 8" using h8 by (intro power_increasing) simp_all
  then have b: "height_to_maxindex ! r_height t < key"
    using assms(2) rt_key_beyond[OF rep, of key] by (meson order_trans)
  note fit = rt_fit_height_beyond[OF assms(2) h8]
  have "rtree_extend dsbmp_cb key t s = None"
    using fit bt_extend_limit[OF rep _ fit] by (cases "r_rnode t = Null") (simp_all add: rtree_extend_def Let_def rtree_consts)
  then show ?thesis using b by (simp add: rtree_insert_def)
qed

lemma rt_hint_parent:
  assumes abs: "rt_abs M (bn_parents s) t" and y: "M k = Some y" and a: "bn_parents s y = Some a"
  obtains L n where "rt_rep {} L M (bn_parents s) t" "mem t a = Some n" "node_ok L M 0 (k div 64) n"
proof -
  from abs obtain L where rep: "rt_rep {} L M (bn_parents s) t" by (auto simp: rt_abs_def)
  have "L (Suc 0) (k div 64) = Some a" using rt_repD(12)[OF rep y] a by simp
  then obtain n where "mem t a = Some n" "node_ok L M 0 (k div 64) n" by (rule rt_node_at[OF rep])
  with rep that show ?thesis by blast
qed

lemma hint_prefix: "drop_bit 6 (hk :: u64) = drop_bit 6 key \<longleftrightarrow> unat hk div 64 = unat key div 64"
proof -
  have "drop_bit 6 hk = drop_bit 6 key \<longleftrightarrow> unat (drop_bit 6 hk) = unat (drop_bit 6 key)"
    by (rule word_unat_eq_iff)
  then show ?thesis by (simp add: unat_drop_bit)
qed

lemma rt_abs_search: "rt_abs M par t \<Longrightarrow> rtree_search t key = Some (islot (M (unat key)))"
  using rtree_search_rep unfolding rt_abs_def by blast

lemma bt_hint_search:
  assumes abs: "rt_abs M (bn_parents s) t" and y: "M (unat hk) = Some y"
  shows "rtree_hint_search t key hk (bn_parents s y) = Some (islot (M (unat key)))"
proof (cases "bn_parents s y")
  case None
  then show ?thesis using rt_abs_search[OF abs] by (simp add: rtree_hint_search_def)
next
  case (Some a)
  from abs y Some obtain L n where n: "rt_rep {} L M (bn_parents s) t" "mem t a = Some n"
    "node_ok L M 0 (unat hk div 64) n" by (rule rt_hint_parent)
  have h1: "n_height n = 1" using n(3) by (simp add: node_ok_def)
  show ?thesis
  proof (cases "unat hk div 64 = unat key div 64")
    case True
    then have "n_slots n (unat key mod 64) = islot (M (unat key))"
      using node_slot[OF n(3), of "unat key mod 64"] by simp
    then show ?thesis using Some n(2) h1 True hint_prefix[of hk key]
      by (simp add: rtree_hint_search_def rtree_consts unat_and_63)
  next
    case False
    then show ?thesis using Some n(2) h1 rt_abs_search[OF abs] hint_prefix[of hk key]
      by (simp add: rtree_hint_search_def rtree_consts)
  qed
qed

lemma bt_hint_insert_lost:
  assumes abs: "rt_abs M (bn_parents s) t" and y: "M (unat hk) = Some y" and a: "bn_parents s y = Some a"
    and leaf: "unat hk div 64 = unat key div 64"
  shows "\<exists>t'. rtree_hint_insert dsbmp_cb key x hk (Some a) t s = Some (Item y, t', s) \<and>
    rt_abs M (bn_parents s) t'"
proof -
  from abs y a obtain L n where n: "rt_rep {} L M (bn_parents s) t" "mem t a = Some n"
    "node_ok L M 0 (unat hk div 64) n" by (rule rt_hint_parent)
  have sl: "n_slots n (unat hk mod 64) = Item y" using node_slot[OF n(3), of "unat hk mod 64"] y by simp
  have "n_count n \<le> 64" "n_height n = 1"
    using n(3) card_occ_le[of L M 0 "unat hk div 64"]
    by (simp_all add: node_ok_def word_le_nat_alt unat_of_nat_64)
  moreover have "rt_set_slot (unat hk mod 64) (Item y) n = n" using sl by (simp add: rt_set_slot_def fun_upd_idem)
  moreover have "rt_write a n t = t" using n(2) by (simp add: rt_write_def fun_upd_idem)
  ultimately have "rtree_hint_insert dsbmp_cb key x hk (Some a) t s = Some (Item y, t, s)"
    using n(2) sl leaf hint_prefix[of hk key]
    by (simp add: rtree_hint_insert_def rtree_consts unat_and_63 Let_def ds_cb_defs)
  then show ?thesis using abs by blast
qed

end
