(* ===== verification/List_Sort.thy ===== *)
theory List_Sort
  imports Nid_Prelude
begin

text \<open>
  The merge sort of linked lists, \<open>list_sort.c\<close>. A chain of \<open>list_head\<close>s is a list of elements and
  the null pointer is the empty list; the array \<open>part\<close> is a list of chains. The client's comparison
  is a parameter. The interface is the locale \<open>list_order\<close>: a comparison that follows a key. For
  it, \<open>list_sort\<close> is the stable sort of the library.
\<close>

section \<open>The code\<close>

definition MAX_LIST_LENGTH_BITS :: nat where "MAX_LIST_LENGTH_BITS = 20"

fun merge :: "('a \<Rightarrow> 'a \<Rightarrow> int) \<Rightarrow> 'a list \<Rightarrow> 'a list \<Rightarrow> 'a list" where
  "merge cmp (a # as) (b # bs) =
     (if cmp a b \<le> 0 then a # merge cmp as (b # bs) else b # merge cmp (a # as) bs)"
| "merge cmp as [] = as"
| "merge cmp [] bs = bs"

text \<open>The loop that restores the back links runs once before it tests: two empty chains would
  dereference null.\<close>

definition merge_and_restore_back_links :: "('a \<Rightarrow> 'a \<Rightarrow> int) \<Rightarrow> 'a list \<Rightarrow> 'a list \<Rightarrow> 'a list option" where
  "merge_and_restore_back_links cmp as bs =
     do { c_assert (as \<noteq> [] \<or> bs \<noteq> []); Some (merge cmp as bs) }"

text \<open>The inner loop of \<open>list_sort\<close>: reading past the array is undefined.\<close>

function sort_carry ::
  "('a \<Rightarrow> 'a \<Rightarrow> int) \<Rightarrow> 'a list list \<Rightarrow> nat \<Rightarrow> 'a list \<Rightarrow> (nat \<times> 'a list list \<times> 'a list) option" where
  "sort_carry cmp part lev cur =
     (if lev < length part then
        (if part ! lev = [] then Some (lev, part, cur)
         else sort_carry cmp (part[lev := []]) (lev + 1) (merge cmp (part ! lev) cur))
      else None)"
  by pat_completeness auto
termination
  by (relation "measure (\<lambda>(cmp, part, lev, cur). length part - lev)") auto

declare sort_carry.simps [simp del]

definition sort_add ::
  "('a \<Rightarrow> 'a \<Rightarrow> int) \<Rightarrow> 'a \<Rightarrow> 'a list list \<times> nat \<Rightarrow> ('a list list \<times> nat) option" where
  "sort_add cmp x st =
     (case st of (part, max_lev) \<Rightarrow>
        do {
          (lev, part, cur) \<leftarrow> sort_carry cmp part 0 [x];
          let lev' = (if lev > max_lev \<and> lev \<ge> MAX_LIST_LENGTH_BITS then lev - 1 else lev);
          Some (part[lev' := cur], if lev > max_lev then lev' else max_lev)
        })"

fun sort_feed ::
  "('a \<Rightarrow> 'a \<Rightarrow> int) \<Rightarrow> 'a list \<Rightarrow> 'a list list \<times> nat \<Rightarrow> ('a list list \<times> nat) option" where
  "sort_feed cmp [] st = Some st"
| "sort_feed cmp (x # xs) st = do { st \<leftarrow> sort_add cmp x st; sort_feed cmp xs st }"

definition sort_collect :: "('a \<Rightarrow> 'a \<Rightarrow> int) \<Rightarrow> 'a list list \<Rightarrow> nat \<Rightarrow> 'a list" where
  "sort_collect cmp part max_lev =
     fold (\<lambda>lev ls. if part ! lev \<noteq> [] then merge cmp (part ! lev) ls else ls) [0..<max_lev] []"

definition list_sort :: "('a \<Rightarrow> 'a \<Rightarrow> int) \<Rightarrow> 'a list \<Rightarrow> 'a list option" where
  "list_sort cmp head =
     (if head = [] then Some []
      else
        do {
          (part, max_lev) \<leftarrow> sort_feed cmp head (replicate (MAX_LIST_LENGTH_BITS + 1) [], 0);
          merge_and_restore_back_links cmp (part ! max_lev) (sort_collect cmp part max_lev)
        })"

section \<open>Lists of chains\<close>

lemma merge_Nil [simp]: "merge cmp [] bs = bs"
  by (cases bs) auto

lemma merge_induct [case_names Cons right left]:
  assumes "\<And>a as b bs. P as (b # bs) \<Longrightarrow> P (a # as) bs \<Longrightarrow> P (a # as) (b # bs)"
    and "\<And>as. P as []" and "\<And>bs. P [] bs"
  shows "P as bs"
  using assms by (induction_schema) (pat_completeness, lexicographic_order)

lemma merge_set: "set (merge cmp as bs) = set as \<union> set bs"
  by (induction as bs rule: merge_induct) auto

text \<open>The elements in the order in which they came: higher levels hold older elements.\<close>

abbreviation sort_elems :: "'a list list \<Rightarrow> 'a list" where
  "sort_elems part \<equiv> concat (rev part)"

lemma rev_split_nth: "i < length xs \<Longrightarrow> rev xs = rev (drop (Suc i) xs) @ xs ! i # rev (take i xs)"
  using id_take_nth_drop[of i xs] by (metis append.assoc append_Cons append_Nil rev.simps(2) rev_append)

lemma sort_elems_split:
  assumes "lev < length part" and "\<And>j. j < lev \<Longrightarrow> part ! j = []"
  shows "sort_elems part = sort_elems (drop (Suc lev) part) @ part ! lev"
proof -
  have "concat (rev (take lev part)) = []" using assms by (auto simp: in_set_conv_nth)
  then show ?thesis by (subst rev_split_nth[OF assms(1)]) simp
qed

lemma sort_elems_update:
  assumes "lev < length part" and "\<And>j. j < lev \<Longrightarrow> part ! j = []"
  shows "sort_elems (part[lev := cur]) = sort_elems (drop (Suc lev) part) @ cur"
  using sort_elems_split[of lev "part[lev := cur]"] assms by simp

lemma list_all_update: "list_all P xs \<Longrightarrow> P x \<Longrightarrow> list_all P (xs[i := x])"
  by (auto simp: list_all_iff dest!: set_update_subset_insert[THEN subsetD])

section \<open>Correctness for a comparison that follows a key\<close>

locale list_order =
  fixes cmp :: "'a \<Rightarrow> 'a \<Rightarrow> int" and key :: "'a \<Rightarrow> 'k :: linorder"
  assumes cmp_key: "cmp a b \<le> 0 \<longleftrightarrow> key a \<le> key b"
begin

definition chain_ok :: "'a list \<Rightarrow> bool" where
  "chain_ok xs \<longleftrightarrow> sorted (map key xs)"

text \<open>\<open>ys\<close> has the elements of \<open>xs\<close>, those of equal key in the same order.\<close>

definition same_stable :: "'a list \<Rightarrow> 'a list \<Rightarrow> bool" where
  "same_stable xs ys \<longleftrightarrow> mset xs = mset ys \<and> (\<forall>k. filter (\<lambda>x. k = key x) xs = filter (\<lambda>x. k = key x) ys)"

lemma same_stable_refl: "same_stable xs xs"
  by (simp add: same_stable_def)

lemma same_stable_trans: "same_stable xs ys \<Longrightarrow> same_stable ys zs \<Longrightarrow> same_stable xs zs"
  by (simp add: same_stable_def)

lemma same_stable_append: "same_stable xs ys \<Longrightarrow> same_stable us vs \<Longrightarrow> same_stable (xs @ us) (ys @ vs)"
  by (simp add: same_stable_def)

lemma merge_ok: "chain_ok as \<Longrightarrow> chain_ok bs \<Longrightarrow> chain_ok (merge cmp as bs)"
proof (induction as bs rule: merge_induct)
  case (Cons a as b bs)
  then show ?case by (cases "key a \<le> key b") (auto simp: chain_ok_def cmp_key merge_set)
qed auto

lemma merge_stable: "chain_ok as \<Longrightarrow> chain_ok bs \<Longrightarrow> same_stable (merge cmp as bs) (as @ bs)"
proof (induction as bs rule: merge_induct)
  case (Cons a as b bs)
  show ?case
  proof (cases "cmp a b \<le> 0")
    case True
    with Cons show ?thesis by (auto simp: same_stable_def chain_ok_def)
  next
    case False
    then have lt: "key b < key a" by (simp add: cmp_key)
    from Cons False have IH: "same_stable (merge cmp (a # as) bs) ((a # as) @ bs)" by (auto simp: chain_ok_def)
    have "filter (\<lambda>x. key b = key x) (a # as) = []"
      using lt Cons(3) by (auto simp: chain_ok_def filter_empty_conv)
    then show ?thesis using IH False by (auto simp: same_stable_def)
  qed
qed (auto simp: same_stable_refl)


lemma sort_carry_spec:
  assumes "length part = 21" "part ! 20 = []" "lev \<le> 20" "\<And>j. j < lev \<Longrightarrow> part ! j = []"
    "list_all chain_ok part" "chain_ok cur" "cur \<noteq> []"
  shows "\<exists>l p c. sort_carry cmp part lev cur = Some (l, p, c) \<and> lev \<le> l \<and> l \<le> 20 \<and> length p = 21 \<and>
    (\<forall>j \<le> l. p ! j = []) \<and> (\<forall>j > l. p ! j = part ! j) \<and> (\<forall>j. lev \<le> j \<and> j < l \<longrightarrow> part ! j \<noteq> []) \<and>
    list_all chain_ok p \<and> chain_ok c \<and> c \<noteq> [] \<and> same_stable (sort_elems p @ c) (sort_elems part @ cur)"
  using assms
proof (induction "21 - lev" arbitrary: part lev cur)
  case (Suc n)
  show ?case
  proof (cases "part ! lev = []")
    case True
    with Suc.prems have "sort_carry cmp part lev cur = Some (lev, part, cur)" by (simp add: sort_carry.simps)
    moreover have "\<forall>j \<le> lev. part ! j = []" using Suc.prems(4) True by (auto simp: le_less)
    ultimately show ?thesis using Suc.prems by (auto simp: same_stable_refl)
  next
    case False
    let ?p = "part[lev := []]" and ?c = "merge cmp (part ! lev) cur"
    have lev: "lev < 20" using False Suc.prems(2,3) by (cases "lev = 20") auto
    have ok: "chain_ok (part ! lev)" using Suc.prems(1,5) lev by (simp add: list_all_length)
    have step: "sort_carry cmp part lev cur = sort_carry cmp ?p (Suc lev) ?c"
      using False Suc.prems(1) lev by (subst sort_carry.simps) simp
    have stable: "same_stable (sort_elems ?p @ ?c) (sort_elems part @ cur)"
      using sort_elems_update[of lev part "[]"] sort_elems_split[of lev part] lev Suc.prems(1,4)
        same_stable_append[OF same_stable_refl merge_stable[OF ok Suc.prems(6)], of "sort_elems (drop (Suc lev) part)"]
      by simp
    have "\<exists>l p c. sort_carry cmp ?p (Suc lev) ?c = Some (l, p, c) \<and> Suc lev \<le> l \<and> l \<le> 20 \<and> length p = 21 \<and>
      (\<forall>j \<le> l. p ! j = []) \<and> (\<forall>j > l. p ! j = ?p ! j) \<and> (\<forall>j. Suc lev \<le> j \<and> j < l \<longrightarrow> ?p ! j \<noteq> []) \<and>
      list_all chain_ok p \<and> chain_ok c \<and> c \<noteq> [] \<and> same_stable (sort_elems p @ c) (sort_elems ?p @ ?c)"
    proof (rule Suc.hyps(1))
      show "n = 21 - Suc lev" using Suc.hyps(2) by simp
      show "list_all chain_ok ?p" using list_all_update[OF Suc.prems(5), of "[]"] by (simp add: chain_ok_def)
      show "chain_ok ?c" by (rule merge_ok[OF ok Suc.prems(6)])
      show "?p ! j = []" if "j < Suc lev" for j using Suc.prems(1,4) that lev by (auto simp: nth_list_update less_Suc_eq)
      show "?c \<noteq> []" using False merge_set[of cmp "part ! lev" cur] by auto
    qed (use Suc.prems lev in auto)
    then obtain l p c where r: "sort_carry cmp part lev cur = Some (l, p, c)" "Suc lev \<le> l" "l \<le> 20" "length p = 21"
      "\<forall>j \<le> l. p ! j = []" "\<forall>j > l. p ! j = ?p ! j" "\<forall>j. Suc lev \<le> j \<and> j < l \<longrightarrow> ?p ! j \<noteq> []"
      "list_all chain_ok p" "chain_ok c" "c \<noteq> []" "same_stable (sort_elems p @ c) (sort_elems ?p @ ?c)"
      unfolding step by blast
    have "part ! j \<noteq> []" if "lev \<le> j" "j < l" for j
      using that r(7) False by (cases "j = lev") auto
    then show ?thesis using r same_stable_trans[OF r(11) stable] by auto
  qed
qed simp

definition parts_ok :: "'a list \<Rightarrow> 'a list list \<Rightarrow> nat \<Rightarrow> bool" where
  "parts_ok xs part max_lev \<longleftrightarrow> length part = 21 \<and> part ! 20 = [] \<and> max_lev < 20 \<and>
     (if xs = [] then max_lev = 0 else part ! max_lev \<noteq> []) \<and> (\<forall>j. max_lev < j \<and> j < 21 \<longrightarrow> part ! j = []) \<and>
     list_all chain_ok part \<and> same_stable (sort_elems part) xs"

lemma sort_add_spec:
  assumes ok: "parts_ok xs part max_lev"
  shows "\<exists>p m. sort_add cmp x (part, max_lev) = Some (p, m) \<and> parts_ok (xs @ [x]) p m"
proof -
  note D = ok[unfolded parts_ok_def]
  obtain l p c where r: "sort_carry cmp part 0 [x] = Some (l, p, c)" "l \<le> 20" "length p = 21"
    "\<forall>j \<le> l. p ! j = []" "\<forall>j > l. p ! j = part ! j" "\<forall>j. j < l \<longrightarrow> part ! j \<noteq> []"
    "list_all chain_ok p" "chain_ok c" "c \<noteq> []" "same_stable (sort_elems p @ c) (sort_elems part @ [x])"
    using sort_carry_spec[of part 0 "[x]"] D by (auto simp: chain_ok_def)
  define l' where "l' = (if l > max_lev \<and> l \<ge> 20 then l - 1 else l)"
  define m where "m = (if l > max_lev then l' else max_lev)"
  have run: "sort_add cmp x (part, max_lev) = Some (p[l' := c], m)"
    by (simp add: sort_add_def r(1) l'_def m_def MAX_LIST_LENGTH_BITS_def Let_def)
  have l20: "l = 20 \<Longrightarrow> max_lev < l" using D by simp
  have l': "l' < 20" using r(2) l20 by (cases "l = 20") (auto simp: l'_def)
  have below: "p ! j = []" if "j < l'" for j using that r(4) by (auto simp: l'_def split: if_splits)
  have at: "p ! l' = []" using r(4) by (auto simp: l'_def)
  have "sort_elems (p[l' := c]) = sort_elems p @ c"
    using sort_elems_update[of l' p c] sort_elems_split[of l' p] below at l' r(3) by simp
  then have "same_stable (sort_elems (p[l' := c])) (xs @ [x])"
    using same_stable_trans[OF r(10)] same_stable_append[OF _ same_stable_refl, of "sort_elems part" xs "[x]"] D by simp
  moreover have "p[l' := c] ! j = []" if "m < j" "j < 21" for j
    using that r(3-5) D by (cases "j \<le> l") (auto simp: m_def l'_def nth_list_update split: if_splits)
  moreover have "p[l' := c] ! m \<noteq> []"
    using r(3,5,9) D l' by (auto simp: m_def l'_def nth_list_update split: if_splits)
  moreover have "list_all chain_ok (p[l' := c])"
    by (rule list_all_update[OF r(7,8)])
  moreover have "m < 20" using D l' by (simp add: m_def)
  ultimately have "parts_ok (xs @ [x]) (p[l' := c]) m"
    using r(3) by (auto simp: parts_ok_def)
  with run show ?thesis by blast
qed

lemma sort_feed_spec:
  "parts_ok xs part max_lev \<Longrightarrow>
   \<exists>p m. sort_feed cmp ys (part, max_lev) = Some (p, m) \<and> parts_ok (xs @ ys) p m"
proof (induction ys arbitrary: xs part max_lev)
  case (Cons y ys)
  from sort_add_spec[OF Cons.prems, of y] obtain p m where
    "sort_add cmp y (part, max_lev) = Some (p, m)" "parts_ok (xs @ [y]) p m" by blast
  with Cons.IH[of "xs @ [y]" p m] show ?case by simp
qed simp

lemma sort_collect_Suc:
  "sort_collect cmp part (Suc m) =
     (if part ! m \<noteq> [] then merge cmp (part ! m) (sort_collect cmp part m) else sort_collect cmp part m)"
  by (simp add: sort_collect_def)

lemma sort_collect_spec:
  "m \<le> length part \<Longrightarrow> list_all chain_ok part \<Longrightarrow>
   chain_ok (sort_collect cmp part m) \<and> same_stable (sort_collect cmp part m) (sort_elems (take m part))"
proof (induction m)
  case 0
  then show ?case by (simp add: sort_collect_def chain_ok_def same_stable_refl)
next
  case (Suc m)
  then have IH: "chain_ok (sort_collect cmp part m)" "same_stable (sort_collect cmp part m) (sort_elems (take m part))"
    by auto
  have ok: "chain_ok (part ! m)" using Suc.prems by (simp add: list_all_length)
  have "sort_elems (take (Suc m) part) = part ! m @ sort_elems (take m part)"
    using Suc.prems(1) by (simp add: take_Suc_conv_app_nth)
  then show ?case
    using IH merge_ok[OF ok IH(1)] same_stable_trans[OF merge_stable[OF ok IH(1)] same_stable_append[OF same_stable_refl IH(2)]]
    by (simp add: sort_collect_Suc)
qed

lemma list_sort_sorts: "list_sort cmp xs = Some (sort_key key xs)"
proof (cases "xs = []")
  case False
  let ?p0 = "replicate (MAX_LIST_LENGTH_BITS + 1) [] :: 'a list list"
  have "sort_elems ?p0 = []" by (simp only: rev_replicate) (simp add: concat_eq_Nil_conv)
  moreover have "?p0 ! j = []" if "j < 21" for j
    using that nth_replicate[of j 21 "[]"] by (simp only: MAX_LIST_LENGTH_BITS_def) simp
  ultimately have "parts_ok [] ?p0 0"
    unfolding parts_ok_def by (simp add: MAX_LIST_LENGTH_BITS_def list_all_iff chain_ok_def same_stable_refl)
  from sort_feed_spec[OF this, of xs] obtain p m where
    f: "sort_feed cmp xs (?p0, 0) = Some (p, m)" and "parts_ok xs p m" by auto
  then have D: "length p = 21" "m < 20" "p ! m \<noteq> []" "\<forall>j. m < j \<and> j < 21 \<longrightarrow> p ! j = []"
    "list_all chain_ok p" "same_stable (sort_elems p) xs" using False by (auto simp: parts_ok_def)
  have ok: "chain_ok (p ! m)" using D by (simp add: list_all_length)
  have c: "chain_ok (sort_collect cmp p m)" "same_stable (sort_collect cmp p m) (sort_elems (take m p))"
    using sort_collect_spec[of m p] D by auto
  have "concat (rev (drop (Suc m) p)) = []" using D(1,4) by (auto simp: in_set_conv_nth)
  moreover have "m < length p" using D(1,2) by simp
  ultimately have el: "sort_elems p = p ! m @ sort_elems (take m p)" by (subst rev_split_nth) auto
  let ?r = "merge cmp (p ! m) (sort_collect cmp p m)"
  have "same_stable ?r xs"
    using same_stable_trans[OF same_stable_trans[OF merge_stable[OF ok c(1)]
        same_stable_append[OF same_stable_refl c(2), of "p ! m"]]] D(6) el by simp
  moreover have "chain_ok ?r" by (rule merge_ok[OF ok c(1)])
  ultimately have "sort_key key xs = ?r"
    by (intro properties_for_sort_key) (auto simp: same_stable_def chain_ok_def)
  moreover have "list_sort cmp xs = Some ?r"
    using False D(3) f by (simp add: list_sort_def merge_and_restore_back_links_def)
  ultimately show ?thesis by simp
qed (simp add: list_sort_def)

end

text \<open>C29. For every comparison that follows a key, \<open>list_sort\<close> ends and returns the stable sort of the
  list by that key, for lists of any length: the array of partial lists is never overrun.\<close>

theorem list_sort_stable:
  assumes "\<And>a b. cmp a b \<le> 0 \<longleftrightarrow> (key a :: 'k :: linorder) \<le> key b"
  shows "list_sort cmp xs = Some (sort_key key xs)"
  using list_order.list_sort_sorts[OF list_order.intro[OF assms]] .

theorem list_sort_stable_witness:
  "list_sort (\<lambda>a b :: nat \<times> char. int (fst a) - int (fst b)) [(3, CHR ''a''), (1, CHR ''b''), (3, CHR ''c''), (2, CHR ''d'')] =
     Some [(1, CHR ''b''), (2, CHR ''d''), (3, CHR ''a''), (3, CHR ''c'')]"
  using list_sort_stable[of "\<lambda>a b :: nat \<times> char. int (fst a) - int (fst b)" fst
      "[(3, CHR ''a''), (1, CHR ''b''), (3, CHR ''c''), (2, CHR ''d'')]"] by simp

end
