(* ===== verification/Fpc.thy ===== *)
theory Fpc
  imports Nid_Prelude
begin

text \<open>
  Fingerprints: \<open>hash.c\<close> (the djb2 and sdbm hashes with their hit counters) and \<open>fpc.c\<close> (fingerprints
  of blocks, and the weight that is kept in the byte after a short digest). A fingerprint is a list
  of \<open>NID_SIZE_FP\<close> bytes. The digests of OpenSSL are a parameter, a function from the algorithm and
  the bytes to a digest; what the code relies on is only its length.
\<close>

section \<open>Hashing\<close>

definition HASH_DJB2 :: u32 where "HASH_DJB2 = 1"
definition HASH_SDBM :: u32 where "HASH_SDBM = 2"

record hash_private =
  hash_idx :: u32
  hash_mod :: u32
  hash_hit :: "u64 list"

fun hash_djb2_loop :: "u8 list \<Rightarrow> u32 \<Rightarrow> u32" where
  "hash_djb2_loop [] h = h"
| "hash_djb2_loop (c # str) h = hash_djb2_loop str ((push_bit 5 h + h) + ucast c)"

definition hash_djb2 :: "u8 list \<Rightarrow> u32" where
  "hash_djb2 str = hash_djb2_loop str 5381"

fun hash_sdbm_loop :: "u8 list \<Rightarrow> u32 \<Rightarrow> u32" where
  "hash_sdbm_loop [] h = h"
| "hash_sdbm_loop (c # str) h = hash_sdbm_loop str (ucast c + push_bit 6 h + push_bit 16 h - h)"

definition hash_sdbm :: "u8 list \<Rightarrow> u32" where
  "hash_sdbm str = hash_sdbm_loop str 0"

text \<open>The configuration is what the section iterator of \<open>ini.c\<close> yields: one list of keys and values
  for each section. A key without a value is \<open>None\<close>.\<close>

fun hash_find_name :: "(string \<times> string option) list list \<Rightarrow> string option" where
  "hash_find_name [] = None"
| "hash_find_name (sc # ini) =
     (case map_of sc ''hash_type'' of
        None \<Rightarrow> hash_find_name ini
      | Some None \<Rightarrow> hash_find_name ini
      | Some (Some nm) \<Rightarrow> Some nm)"

definition hash_get_name :: "(string \<times> string option) list list option \<Rightarrow> u32" where
  "hash_get_name ini =
     (case ini of
        None \<Rightarrow> HASH_DJB2
      | Some scs \<Rightarrow> if hash_find_name scs = Some ''sdbm'' then HASH_SDBM else HASH_DJB2)"

definition hash_initialization :: "(string \<times> string option) list list option \<Rightarrow> u32 \<Rightarrow> hash_private" where
  "hash_initialization ini m =
     \<lparr>hash_idx = hash_get_name ini, hash_mod = m, hash_hit = replicate (unat m) 0\<rparr>"

definition hash_bump :: "u32 \<Rightarrow> hash_private \<Rightarrow> u32 \<times> hash_private" where
  "hash_bump rc h =
     (if hash_mod h \<noteq> 0 then
        (let rc = rc mod hash_mod h in
         (rc, h\<lparr>hash_hit := (hash_hit h)[unat rc := hash_hit h ! unat rc + 1]\<rparr>))
      else (rc, h))"

definition hash_calculate :: "u8 list \<Rightarrow> hash_private \<Rightarrow> u32 \<times> hash_private" where
  "hash_calculate dbuf h =
     (if hash_idx h = HASH_DJB2 then hash_bump (hash_djb2 dbuf) h
      else if hash_idx h = HASH_SDBM then hash_bump (hash_sdbm dbuf) h
      else (- 1, h))"

text \<open>The table of counters has one entry for each value.\<close>

definition hash_ok :: "hash_private \<Rightarrow> bool" where
  "hash_ok h \<longleftrightarrow> length (hash_hit h) = unat (hash_mod h) \<and> hash_idx h \<in> {HASH_DJB2, HASH_SDBM}"

lemma hash_ok_init: "hash_ok (hash_initialization ini m)"
  by (auto simp: hash_ok_def hash_initialization_def hash_get_name_def split: option.splits)

text \<open>The polynomial that the comments of the two functions describe.\<close>

definition horner :: "u32 \<Rightarrow> u32 \<Rightarrow> u8 list \<Rightarrow> u32" where
  "horner k seed str = foldl (\<lambda>h c. h * k + ucast c) seed str"

lemma djb2_step: "push_bit 5 h + h = h * (33 :: u32)"
  by (simp add: push_bit_eq_mult)

lemma sdbm_step: "c + push_bit 6 h + push_bit 16 h - h = h * (65599 :: u32) + c"
  by (simp add: push_bit_eq_mult)

lemma hash_djb2_loop_horner: "hash_djb2_loop str h = horner 33 h str"
  by (induction str arbitrary: h) (simp_all add: horner_def djb2_step)

lemma hash_sdbm_loop_horner: "hash_sdbm_loop str h = horner 65599 h str"
  by (induction str arbitrary: h) (simp_all add: horner_def sdbm_step)

text \<open>The two hash functions, which shift and subtract, compute the polynomials over 32-bit words
  that their comments name: multiply by 33 or 65599 and add the next byte.\<close>

lemma hash_horner:
  "hash_djb2 str = foldl (\<lambda>h c. h * 33 + ucast c) 5381 str \<and>
   hash_sdbm str = foldl (\<lambda>h c. h * 65599 + ucast c) 0 str"
  by (simp add: hash_djb2_def hash_sdbm_def hash_djb2_loop_horner hash_sdbm_loop_horner horner_def)

lemma hash_bump_spec:
  assumes "hash_ok h" and "hash_mod h \<noteq> 0"
  shows "fst (hash_bump rc h) < hash_mod h \<and> hash_ok (snd (hash_bump rc h)) \<and>
    sum_list (hash_hit (snd (hash_bump rc h))) = sum_list (hash_hit h) + 1"
proof -
  let ?i = "unat (rc mod hash_mod h)"
  have lt: "rc mod hash_mod h < hash_mod h"
    using assms(2) by (simp add: word_mod_less_divisor word_gt_0)
  then have "?i < length (hash_hit h)" using assms(1) by (simp add: hash_ok_def word_less_nat_alt)
  then have "sum_list ((hash_hit h)[?i := hash_hit h ! ?i + 1]) = sum_list (hash_hit h) + 1"
    by (rule sum_list_bump)
  with lt assms show ?thesis by (simp add: hash_bump_def hash_ok_def Let_def)
qed

text \<open>With a modulus, every hash value is below it, so it selects an existing counter, and exactly
  one counter goes up by one; the hash table stays well formed.\<close>

lemma hash_calculate_bound:
  assumes "hash_ok h" and "hash_mod h \<noteq> 0" and "hash_calculate dbuf h = (rc, h')"
  shows "rc < hash_mod h \<and> hash_ok h' \<and> sum_list (hash_hit h') = sum_list (hash_hit h) + 1"
  using hash_bump_spec[OF assms(1,2)] assms(1,3)
  by (auto simp: hash_calculate_def hash_ok_def HASH_DJB2_def HASH_SDBM_def prod_eq_iff split: if_splits)

section \<open>Fingerprints\<close>

datatype fpc_algorithm = FPC_SHA256 | FPC_SHA224 | FPC_MD5

definition NID_SIZE_FP :: nat where "NID_SIZE_FP = 32"

fun fpc_lens :: "fpc_algorithm \<Rightarrow> nat" where
  "fpc_lens FPC_SHA256 = 32"
| "fpc_lens FPC_SHA224 = 28"
| "fpc_lens FPC_MD5 = 16"

record fpc_private =
  fp_algorithm :: fpc_algorithm
  fp_len :: nat
  fp_wgt :: u8

definition fpc_initialization :: "fpc_algorithm \<Rightarrow> fpc_private" where
  "fpc_initialization alg = \<lparr>fp_algorithm = alg, fp_len = fpc_lens alg, fp_wgt = 0\<rparr>"

definition fpc_set_wgt :: "u8 \<Rightarrow> fpc_private \<Rightarrow> fpc_private option" where
  "fpc_set_wgt wgt p =
     do {
       c_assert (wgt < 16);
       Some (p\<lparr>fp_wgt := if fp_len p < NID_SIZE_FP then wgt else 0\<rparr>)
     }"

definition fpc_get_wgt_from_fp :: "fpc_private \<Rightarrow> u8 list \<Rightarrow> u8" where
  "fpc_get_wgt_from_fp p fp = (if fp_len p < NID_SIZE_FP then fp ! fp_len p AND 0x0f else 0)"

definition fpc_set_wgt_to_fp :: "fpc_private \<Rightarrow> u8 list \<Rightarrow> u8 \<Rightarrow> u8 list option" where
  "fpc_set_wgt_to_fp p fp wgt =
     do {
       c_assert (wgt < 16);
       Some (if fp_len p < NID_SIZE_FP then fp[fp_len p := (fp ! fp_len p AND 0xf0) + wgt] else fp)
     }"

text \<open>\<open>memcmp\<close> compares bytes as unsigned values, the first difference decides.\<close>

fun memcmp :: "u8 list \<Rightarrow> u8 list \<Rightarrow> nat \<Rightarrow> int" where
  "memcmp as bs 0 = 0"
| "memcmp (a # as) (b # bs) (Suc n) = (if a = b then memcmp as bs n else uint a - uint b)"
| "memcmp as bs (Suc n) = 0"

definition fpc_cmp :: "fpc_private \<Rightarrow> u8 list \<Rightarrow> u8 list \<Rightarrow> int" where
  "fpc_cmp p fp1 fp2 = memcmp fp1 fp2 (fp_len p)"

definition fpc_hvcal :: "fpc_private \<Rightarrow> u8 list \<Rightarrow> hash_private \<Rightarrow> u32 \<times> hash_private" where
  "fpc_hvcal p fp h = hash_calculate (take (fp_len p) fp) h"

text \<open>A digest is written over the zeroed buffer, then the weight goes into the low half of the byte
  after it.\<close>

definition fpc_cal :: "(fpc_algorithm \<Rightarrow> u8 list \<Rightarrow> u8 list) \<Rightarrow> fpc_private \<Rightarrow> u8 list \<Rightarrow> u8 list" where
  "fpc_cal digest p buf =
     (let d = digest (fp_algorithm p) buf;
          fp = d @ replicate (NID_SIZE_FP - length d) 0
      in if fp_len p < NID_SIZE_FP then fp[fp_len p := (fp ! fp_len p AND 0xf0) + fp_wgt p] else fp)"

text \<open>The loop of \<open>fpc_bcalculate\<close> and \<open>fpc_bcalculatev\<close> reads whole blocks; past the end of the
  buffer the read is undefined. A block size of 0 never gets to the end.\<close>

partial_function (option) fpc_bcalculate ::
  "(fpc_algorithm \<Rightarrow> u8 list \<Rightarrow> u8 list) \<Rightarrow> fpc_private \<Rightarrow> u8 list \<Rightarrow> nat \<Rightarrow> nat \<Rightarrow> nat \<Rightarrow>
   u8 list list \<Rightarrow> u8 list list option" where
  "fpc_bcalculate digest p buf cnt blocksz off fps =
     (if off < cnt then
        (if off + blocksz \<le> length buf then
           fpc_bcalculate digest p buf cnt blocksz (off + blocksz)
             (fps @ [fpc_cal digest p (take blocksz (drop off buf))])
         else None)
      else Some fps)"

declare fpc_bcalculate.simps [code]

fun fpc_bcalculatev ::
  "(fpc_algorithm \<Rightarrow> u8 list \<Rightarrow> u8 list) \<Rightarrow> fpc_private \<Rightarrow> u8 list list \<Rightarrow> nat \<Rightarrow> u8 list list \<Rightarrow>
   u8 list list option" where
  "fpc_bcalculatev digest p [] blocksz fps = Some fps"
| "fpc_bcalculatev digest p (iov # iovs) blocksz fps =
     do {
       fps \<leftarrow> fpc_bcalculate digest p iov (length iov) blocksz 0 fps;
       fpc_bcalculatev digest p iovs blocksz fps
     }"

section \<open>Weights\<close>

lemma unat_and_15: "unat ((b :: u8) AND 0x0f) = unat b mod 16"
proof -
  have "b AND 0x0f = take_bit 4 b" by (simp add: take_bit_eq_mask mask_eq_exp_minus_1)
  moreover have "unat (take_bit 4 b) = take_bit 4 (unat b)" by (rule unsigned_take_bit_eq)
  ultimately show ?thesis by (simp only:) (simp add: take_bit_eq_mod)
qed

lemma low_nibble_add: "w < 16 \<Longrightarrow> ((b AND 0xf0) + w) AND 0x0f = (w :: u8)"
proof -
  assume w: "w < 16"
  have "(b AND 0xf0) AND 0x0f = 0" by (simp add: and.assoc)
  then have "unat (b AND 0xf0) mod 16 = 0" using unat_and_15[of "b AND 0xf0"] by simp
  moreover have "unat ((b AND 0xf0) + w) mod 16 = (unat (b AND 0xf0) + unat w) mod 16"
    by (simp add: unat_word_ariths mod_mod_cancel)
  ultimately have "unat ((b AND 0xf0) + w) mod 16 = unat w"
    using w by (simp add: word_less_nat_alt mod_add_eq[symmetric])
  then show ?thesis by (metis unat_and_15 word_unat_eq_iff)
qed

lemma memcmp_update: "memcmp (as[i := x]) bs n = memcmp as bs n" if "n \<le> i"
  using that
proof (induction as bs n arbitrary: i rule: memcmp.induct)
  case (2 a as b bs n)
  then show ?case by (cases i) auto
qed (auto split: nat.splits)

lemma fp_wgt_update:
  "fp_len p < length fp \<Longrightarrow> w < 16 \<Longrightarrow> fp_len p < NID_SIZE_FP \<Longrightarrow>
   fpc_get_wgt_from_fp p (fp[fp_len p := (b AND 0xf0) + w]) = w"
  by (simp add: fpc_get_wgt_from_fp_def low_nibble_add)

lemma high_nibble_add:
  assumes "w < 16"
  shows "((b AND 0xf0) + w) AND 0xf0 = b AND (0xf0 :: u8)"
proof -
  have "unat w < 16" using assms by (simp add: word_less_nat_alt)
  then have "take_bit 4 (unat w) = unat w" by (simp add: take_bit_nat_eq_self)
  then have "unat (take_bit 4 w) = unat w" by (simp add: unsigned_take_bit_eq)
  then have w: "w = w AND 0x0f" by (simp add: word_unat_eq_iff take_bit_eq_mask mask_eq_exp_minus_1)
  have "(b AND 0xf0) AND w = 0" by (subst w) (simp add: and.assoc and.left_commute)
  then have "(b AND 0xf0) + w = (b AND 0xf0) OR w" by (rule disjunctive_add_eq_or)
  moreover have "w AND 0xf0 = 0" by (subst w) (simp add: and.assoc)
  ultimately show ?thesis by (simp add: bit.conj_disj_distrib2 and.assoc)
qed

text \<open>C32. The weight of a fingerprint: when the digest leaves a byte behind it, setting the weight and reading it gives the weight set;
  a digest of 32 bytes leaves none, the fingerprint stays as it is and its weight is 0. The length, every other byte and the high half of
  the byte with the weight are unchanged, and neither the comparison of fingerprints nor the hash sees the weight.\<close>

theorem fpc_wgt_roundtrip:
  assumes "length fp = NID_SIZE_FP" and "wgt < 16"
  shows "\<exists>fp'. fpc_set_wgt_to_fp p fp wgt = Some fp' \<and> length fp' = NID_SIZE_FP \<and>
    fpc_get_wgt_from_fp p fp' = (if fp_len p < NID_SIZE_FP then wgt else 0) \<and>
    (\<forall>i. i < NID_SIZE_FP \<and> i \<noteq> fp_len p \<longrightarrow> fp' ! i = fp ! i) \<and>
    (fp_len p < NID_SIZE_FP \<longrightarrow> fp' ! fp_len p AND 0xf0 = fp ! fp_len p AND 0xf0) \<and>
    fpc_cmp p fp' fp2 = fpc_cmp p fp fp2 \<and> fpc_hvcal p fp' h = fpc_hvcal p fp h"
proof (cases "fp_len p < NID_SIZE_FP")
  case True
  let ?fp = "fp[fp_len p := (fp ! fp_len p AND 0xf0) + wgt]"
  have "fpc_set_wgt_to_fp p fp wgt = Some ?fp" using True assms(2) by (simp add: fpc_set_wgt_to_fp_def)
  moreover have "fpc_get_wgt_from_fp p ?fp = wgt" using True assms by (intro fp_wgt_update) simp_all
  moreover have "?fp ! fp_len p AND 0xf0 = fp ! fp_len p AND 0xf0" using True assms by (simp add: high_nibble_add)
  ultimately show ?thesis using True assms(1) by (intro exI[of _ ?fp]) (simp add: fpc_cmp_def memcmp_update fpc_hvcal_def)
qed (use assms in \<open>simp add: fpc_set_wgt_to_fp_def fpc_get_wgt_from_fp_def\<close>)

theorem fpc_wgt_roundtrip_witness:
  "\<exists>fp'. fpc_set_wgt_to_fp (fpc_initialization FPC_MD5) (replicate 32 0x75) 9 = Some fp' \<and> length fp' = 32 \<and>
     fpc_get_wgt_from_fp (fpc_initialization FPC_MD5) fp' = 9 \<and> fp' ! 17 = 0x75 \<and> fp' ! 16 AND 0xf0 = 0x70"
proof -
  have "length (replicate 32 (0x75 :: u8)) = NID_SIZE_FP" "fp_len (fpc_initialization FPC_MD5) = 16"
    by (simp_all add: fpc_initialization_def NID_SIZE_FP_def)
  then obtain fp' where "fpc_set_wgt_to_fp (fpc_initialization FPC_MD5) (replicate 32 0x75) 9 = Some fp'" "length fp' = 32"
    "fpc_get_wgt_from_fp (fpc_initialization FPC_MD5) fp' = 9" "\<forall>i. i < 32 \<and> i \<noteq> 16 \<longrightarrow> fp' ! i = 0x75" "fp' ! 16 AND 0xf0 = 0x70"
    using fpc_wgt_roundtrip[of "replicate 32 0x75" 9 "fpc_initialization FPC_MD5" "[]" undefined] by (auto simp: NID_SIZE_FP_def)
  then show ?thesis by (intro exI[of _ fp']) simp
qed

definition fpc_ok :: "fpc_private \<Rightarrow> bool" where
  "fpc_ok p \<longleftrightarrow> fp_len p = fpc_lens (fp_algorithm p) \<and> fp_wgt p < 16 \<and> (fp_len p = NID_SIZE_FP \<longrightarrow> fp_wgt p = 0)"

lemma fpc_lens_le: "fpc_lens alg \<le> 32"
  by (cases alg) auto

lemma fpc_ok_init: "fpc_ok (fpc_initialization alg)"
  by (simp add: fpc_ok_def fpc_initialization_def)

lemma fpc_ok_set_wgt: "fpc_ok p \<Longrightarrow> fpc_set_wgt w p = Some p' \<Longrightarrow> fpc_ok p'"
  by (auto simp: fpc_ok_def fpc_set_wgt_def)

text \<open>A calculated fingerprint has \<open>NID_SIZE_FP\<close> bytes, starts with the digest of the block and
  carries the weight that \<open>fpc_set_wgt\<close> has set last; SHA-256 leaves no room and its weight is 0.\<close>

lemma fpc_cal_layout:
  assumes "\<And>alg b. length (digest alg b) = fpc_lens alg" and "fpc_ok p" and "fpc_set_wgt wgt p = Some p'"
  shows "length (fpc_cal digest p' buf) = NID_SIZE_FP \<and>
    take (fp_len p') (fpc_cal digest p' buf) = digest (fp_algorithm p') buf \<and>
    fpc_get_wgt_from_fp p' (fpc_cal digest p' buf) = (if fp_algorithm p = FPC_SHA256 then 0 else wgt)"
proof -
  have alg: "fp_algorithm p' = fp_algorithm p" and n: "fp_len p' = fpc_lens (fp_algorithm p')"
    and w: "fp_len p' < NID_SIZE_FP \<Longrightarrow> fp_wgt p' = wgt" and w16: "wgt < 16"
    using assms(2,3) by (auto simp: fpc_set_wgt_def fpc_ok_def)
  define d where "d = digest (fp_algorithm p') buf @ replicate (NID_SIZE_FP - fp_len p') 0"
  have d: "length d = NID_SIZE_FP" "take (fp_len p') d = digest (fp_algorithm p') buf"
    using fpc_lens_le[of "fp_algorithm p'"] by (simp_all add: d_def assms(1) n NID_SIZE_FP_def)
  have cal: "fpc_cal digest p' buf =
    (if fp_len p' < NID_SIZE_FP then d[fp_len p' := (d ! fp_len p' AND 0xf0) + fp_wgt p'] else d)"
    by (simp add: fpc_cal_def d_def assms(1) n Let_def)
  have sha: "fp_len p' < NID_SIZE_FP \<longleftrightarrow> fp_algorithm p \<noteq> FPC_SHA256"
    unfolding n alg by (cases "fp_algorithm p") (auto simp: NID_SIZE_FP_def)
  show ?thesis
    using d w w16 sha by (auto simp: cal low_nibble_add fpc_get_wgt_from_fp_def)
qed

section \<open>Fingerprints of a buffer\<close>

abbreviation buf_block :: "u8 list \<Rightarrow> nat \<Rightarrow> nat \<Rightarrow> u8 list" where
  "buf_block buf blocksz i \<equiv> take blocksz (drop (i * blocksz) buf)"

lemma fpc_bcalculate_run:
  "0 < b \<Longrightarrow> cnt = (i + n) * b \<Longrightarrow> cnt \<le> length buf \<Longrightarrow>
   fpc_bcalculate digest p buf cnt b (i * b) fps =
     Some (fps @ map (\<lambda>j. fpc_cal digest p (buf_block buf b j)) [i..<i + n])"
proof (induction n arbitrary: i fps)
  case 0
  then show ?case by (subst fpc_bcalculate.simps) simp
next
  case (Suc n)
  have "i * b < cnt" "i * b + b \<le> length buf" using Suc.prems by (auto simp: algebra_simps)
  then show ?case
    using Suc.IH[of "Suc i" "fps @ [fpc_cal digest p (buf_block buf b i)]"] Suc.prems
    by (subst fpc_bcalculate.simps) (simp add: upt_rec[of i] add.commute)
qed

lemma fpc_bcalculate_overrun:
  "0 < b \<Longrightarrow> i + n = length buf div b \<Longrightarrow> length buf mod b \<noteq> 0 \<Longrightarrow>
   fpc_bcalculate digest p buf (length buf) b (i * b) fps = None"
proof (induction n arbitrary: i fps)
  case 0
  have "length buf = i * b + length buf mod b" using 0(2) by (metis add_0_right div_mult_mod_eq)
  then have "i * b < length buf" "\<not> i * b + b \<le> length buf" using 0(1,3) mod_less_divisor[of b "length buf"] by linarith+
  then show ?case by (subst fpc_bcalculate.simps) simp
next
  case (Suc n)
  have "Suc i * b \<le> length buf div b * b" using Suc.prems(2) by (intro mult_le_mono1) simp
  also have "\<dots> \<le> length buf" by (rule div_times_less_eq_dividend)
  finally have "i * b + b \<le> length buf" by simp
  moreover from this Suc.prems(1) have "i * b < length buf" by simp
  ultimately show ?case
    using Suc.IH[of "Suc i"] Suc.prems by (subst fpc_bcalculate.simps) (simp add: add.commute)
qed

text \<open>\<open>fpc_bcalculate\<close> on a whole buffer ends: if the size is a multiple of the block size, it
  appends the fingerprint of each block, in order; otherwise it reads past the end of the buffer.\<close>

lemma fpc_bcalculate_blocks:
  assumes "0 < blocksz"
  shows "fpc_bcalculate digest p buf (length buf) blocksz 0 fps =
    (if blocksz dvd length buf
     then Some (fps @ map (\<lambda>j. fpc_cal digest p (take blocksz (drop (j * blocksz) buf))) [0..<length buf div blocksz])
     else None)"
  using fpc_bcalculate_run[OF assms, of "length buf" 0 "length buf div blocksz" buf]
    fpc_bcalculate_overrun[OF assms, of 0 "length buf div blocksz" buf]
  by (auto simp: dvd_eq_mod_eq_0)

end
