(* ===== verification/Dsrec.thy ===== *)
theory Dsrec
  imports Node_Pool Fpc
begin

text \<open>
  The space reclaimer \<open>cache/dsrec.c\<close> of the read cache: cached blocks hang on one least-recently-used
  list per fingerprint weight; when the cache is 90 percent full, ten of them move to a list that a
  thread gives back to the device space manager. Content nodes (\<open>mm/cdn.c\<close>) come from a node pool and
  live in an explicit memory. The mutex is held for all of an operation, so an operation is a function
  of the state. The reclaim thread is in the theory \<open>Dsrec_Reclaim\<close>.
\<close>

section \<open>State\<close>

definition NID_SIZE_FP_WGT :: nat where "NID_SIZE_FP_WGT = 16"

record content_description_node =
  cn_data :: nat
  cn_is_lru :: bool
  cn_is_ondisk :: bool
  cn_fp :: "u8 list"

record dsrec_private =
  cdn_pool :: node_pool
  cdn :: "node_addr \<Rightarrow> content_description_node"
  p_fpc :: fpc_private
  p_to_reclaim_head :: "node_addr list"
  p_reclaiming_head :: "node_addr list"
  p_lru_head :: "nat \<Rightarrow> node_addr list"
  p_lru_nr :: "nat \<Rightarrow> nat"
  p_lru_total_nr :: nat
  p_lru_max :: nat
  p_rec_nr :: nat

definition cdn_get_node :: "dsrec_private \<Rightarrow> (node_addr \<times> dsrec_private) option" where
  "cdn_get_node R = do { (a, p) \<leftarrow> node_get_node (cdn_pool R); Some (a, R\<lparr>cdn_pool := p\<rparr>) }"

definition cdn_put_node :: "node_addr \<Rightarrow> dsrec_private \<Rightarrow> dsrec_private option" where
  "cdn_put_node a R = do { p \<leftarrow> node_put_node a (cdn_pool R); Some (R\<lparr>cdn_pool := p\<rparr>) }"

definition cn_set_lru :: "node_addr \<Rightarrow> bool \<Rightarrow> dsrec_private \<Rightarrow> dsrec_private" where
  "cn_set_lru a b R = R\<lparr>cdn := (cdn R)(a := (cdn R a)\<lparr>cn_is_lru := b\<rparr>)\<rparr>"

definition cn_wgt :: "dsrec_private \<Rightarrow> node_addr \<Rightarrow> nat" where
  "cn_wgt R a = unat (fpc_get_wgt_from_fp (p_fpc R) (cn_fp (cdn R a)))"

definition dsrec_initialization ::
  "node_pool \<Rightarrow> (node_addr \<Rightarrow> content_description_node) \<Rightarrow> fpc_private \<Rightarrow> nat \<Rightarrow> dsrec_private" where
  "dsrec_initialization pool cdn_mem fpc rc_size =
     \<lparr>cdn_pool = pool, cdn = cdn_mem, p_fpc = fpc, p_to_reclaim_head = [], p_reclaiming_head = [],
      p_lru_head = (\<lambda>_. []), p_lru_nr = (\<lambda>_. 0), p_lru_total_nr = 0, p_lru_max = rc_size * 9 div 10,
      p_rec_nr = 0\<rparr>"

section \<open>The LRU lists\<close>

text \<open>One victim leaves the list of weight \<open>w\<close> for the list of nodes to reclaim.\<close>

definition dsrec_evict :: "nat \<Rightarrow> node_addr \<Rightarrow> dsrec_private \<Rightarrow> dsrec_private option" where
  "dsrec_evict w np R =
     do {
       c_assert (cn_is_lru (cdn R np));
       let R = cn_set_lru np False R;
       Some (R\<lparr>p_lru_head := (p_lru_head R)(w := remove1 np (p_lru_head R w)),
               p_to_reclaim_head := p_to_reclaim_head R @ [np],
               p_lru_nr := (p_lru_nr R)(w := p_lru_nr R w - 1),
               p_lru_total_nr := p_lru_total_nr R - 1\<rparr>)
     }"

fun dsrec_drain :: "nat \<Rightarrow> node_addr list \<Rightarrow> nat \<Rightarrow> dsrec_private \<Rightarrow> (nat \<times> dsrec_private) option" where
  "dsrec_drain w [] i R = Some (i, R)"
| "dsrec_drain w (cur_np # nps) i R =
     do {
       R \<leftarrow> dsrec_evict w cur_np R;
       if i \<le> 1 then Some (0, R) else dsrec_drain w nps (i - 1) R
     }"

definition dsrec_cur_head :: "dsrec_private \<Rightarrow> nat option" where
  "dsrec_cur_head R = List.find (\<lambda>w. p_lru_head R w \<noteq> []) [0..<NID_SIZE_FP_WGT]"

partial_function (option) dsrec_reclaim :: "nat \<Rightarrow> dsrec_private \<Rightarrow> dsrec_private option" where
  "dsrec_reclaim i R =
     (if i > 0 then
        (case dsrec_cur_head R of
           None \<Rightarrow> None
         | Some w \<Rightarrow> Option.bind (dsrec_drain w (p_lru_head R w) i R) (\<lambda>(i, R). dsrec_reclaim i R))
      else Some R)"

declare dsrec_reclaim.simps [code]

definition dsrec_enlist :: "node_addr \<Rightarrow> dsrec_private \<Rightarrow> dsrec_private" where
  "dsrec_enlist np R =
     (let w = cn_wgt R np in
      (cn_set_lru np True R)\<lparr>p_lru_head := (p_lru_head R)(w := p_lru_head R w @ [np]),
        p_lru_nr := (p_lru_nr R)(w := Suc (p_lru_nr R w)),
        p_lru_total_nr := Suc (p_lru_total_nr R)\<rparr>)"

definition dsrec_insert_block :: "node_addr \<Rightarrow> dsrec_private \<Rightarrow> dsrec_private option" where
  "dsrec_insert_block np R =
     (let R = dsrec_enlist np R in
      if p_lru_total_nr R \<ge> p_lru_max R then
        do { c_assert (p_lru_total_nr R = p_lru_max R); dsrec_reclaim 10 R }
      else Some R)"

text \<open>\<open>list_del\<close> unlinks the node from the list it is on.\<close>

definition dsrec_move :: "node_addr \<Rightarrow> u8 \<Rightarrow> u8 \<Rightarrow> dsrec_private \<Rightarrow> dsrec_private option" where
  "dsrec_move old_np old_wgt new_wgt R =
     do {
       let lru = (\<lambda>w. remove1 old_np (p_lru_head R w));
       fp \<leftarrow> fpc_set_wgt_to_fp (p_fpc R) (cn_fp (cdn R old_np)) new_wgt;
       let nr = (p_lru_nr R)(unat old_wgt := p_lru_nr R (unat old_wgt) - 1);
       Some (R\<lparr>cdn := (cdn R)(old_np := (cdn R old_np)\<lparr>cn_fp := fp\<rparr>),
               p_lru_head := lru(unat new_wgt := lru (unat new_wgt) @ [old_np]),
               p_lru_nr := nr(unat new_wgt := Suc (nr (unat new_wgt)))\<rparr>)
     }"

definition dsrec_touch_block :: "node_addr \<Rightarrow> u8 list \<Rightarrow> dsrec_private \<Rightarrow> dsrec_private option" where
  "dsrec_touch_block old_np new_fp R =
     (let old_wgt = fpc_get_wgt_from_fp (p_fpc R) (cn_fp (cdn R old_np));
          new_wgt = fpc_get_wgt_from_fp (p_fpc R) new_fp;
          new_wgt = (if new_wgt > old_wgt then new_wgt else old_wgt)
      in if cn_is_lru (cdn R old_np) then dsrec_move old_np old_wgt new_wgt R else Some R)"

section \<open>Invariant of the LRU lists\<close>

text \<open>The cached nodes, cheapest first: the order in which they are given up.\<close>

definition lru_order :: "dsrec_private \<Rightarrow> node_addr list" where
  "lru_order R = concat (map (p_lru_head R) [0..<NID_SIZE_FP_WGT])"

definition lru_inv :: "dsrec_private \<Rightarrow> bool" where
  "lru_inv R \<longleftrightarrow>
     fpc_ok (p_fpc R) \<and>
     (\<forall>w. distinct (p_lru_head R w)) \<and>
     (\<forall>w. set (p_lru_head R w) = {a. cn_is_lru (cdn R a) \<and> cn_wgt R a = w}) \<and>
     (\<forall>a. cn_is_lru (cdn R a) \<longrightarrow> length (cn_fp (cdn R a)) = NID_SIZE_FP) \<and>
     (\<forall>w. p_lru_nr R w = length (p_lru_head R w)) \<and>
     p_lru_total_nr R = length (lru_order R) \<and>
     distinct (p_to_reclaim_head R) \<and>
     (\<forall>a \<in> set (p_to_reclaim_head R). \<not> cn_is_lru (cdn R a))"

lemma lru_invD:
  assumes "lru_inv R"
  shows "fpc_ok (p_fpc R)" "distinct (p_lru_head R w)"
    "set (p_lru_head R w) = {a. cn_is_lru (cdn R a) \<and> cn_wgt R a = w}"
    "cn_is_lru (cdn R a) \<Longrightarrow> length (cn_fp (cdn R a)) = NID_SIZE_FP"
    "p_lru_nr R w = length (p_lru_head R w)" "p_lru_total_nr R = length (lru_order R)"
    "distinct (p_to_reclaim_head R)" "a \<in> set (p_to_reclaim_head R) \<Longrightarrow> \<not> cn_is_lru (cdn R a)"
  using assms by (simp_all add: lru_inv_def)

lemma cn_set_lru_sel [simp]:
  "cdn (cn_set_lru a b R) x = (if x = a then (cdn R a)\<lparr>cn_is_lru := b\<rparr> else cdn R x)"
  "cn_wgt (cn_set_lru a b R) x = cn_wgt R x"
  "p_fpc (cn_set_lru a b R) = p_fpc R" "p_lru_head (cn_set_lru a b R) = p_lru_head R"
  "p_lru_nr (cn_set_lru a b R) = p_lru_nr R" "p_lru_total_nr (cn_set_lru a b R) = p_lru_total_nr R"
  "p_to_reclaim_head (cn_set_lru a b R) = p_to_reclaim_head R" "p_lru_max (cn_set_lru a b R) = p_lru_max R"
  by (auto simp: cn_set_lru_def cn_wgt_def)

lemma cn_wgt_cong: "cdn R' = cdn R \<Longrightarrow> p_fpc R' = p_fpc R \<Longrightarrow> cn_wgt R' = cn_wgt R"
  by (simp add: cn_wgt_def fun_eq_iff)

lemma wgt_lt_16: "fpc_get_wgt_from_fp p fp < 16"
proof -
  have "unat (fpc_get_wgt_from_fp p fp) < 16"
    using unat_and_15[of "fp ! fp_len p"] by (simp add: fpc_get_wgt_from_fp_def)
  then show ?thesis by (simp add: word_less_nat_alt)
qed

lemma cn_wgt_lt: "cn_wgt R a < NID_SIZE_FP_WGT"
  using wgt_lt_16 by (simp add: cn_wgt_def NID_SIZE_FP_WGT_def word_less_nat_alt)

lemma concat_map_upd:
  assumes "w < n"
  shows "concat (map (f(w := xs)) [0..<n]) = concat (map f [0..<w]) @ xs @ concat (map f [Suc w..<n])"
proof -
  have "[0..<n] = [0..<w] @ w # [Suc w..<n]" using assms upt_add_eq_append[of 0 w "n - w"] upt_conv_Cons[of w n] by simp
  moreover have "map (f(w := xs)) [0..<w] = map f [0..<w]" "map (f(w := xs)) [Suc w..<n] = map f [Suc w..<n]"
    by auto
  ultimately show ?thesis by simp
qed

lemma lru_order_split:
  assumes "w < NID_SIZE_FP_WGT"
  shows "lru_order R = concat (map (p_lru_head R) [0..<w]) @ p_lru_head R w @
    concat (map (p_lru_head R) [Suc w..<NID_SIZE_FP_WGT])"
  using concat_map_upd[OF assms, of "p_lru_head R" "p_lru_head R w"] by (simp add: lru_order_def)

lemma lru_order_length:
  assumes "\<And>w. distinct (p_lru_head R w)"
    and "\<And>w. set (p_lru_head R w) = {a. cn_is_lru (cdn R a) \<and> cn_wgt R a = w}"
  shows "length (lru_order R) = card {a. cn_is_lru (cdn R a)}"
proof -
  have "distinct (concat (map (p_lru_head R) [0..<n]))" for n
    by (induction n) (auto simp: assms)
  moreover have "set (lru_order R) = {a. cn_is_lru (cdn R a)}"
    unfolding lru_order_def using cn_wgt_lt[of R] by (auto simp: assms(2))
  ultimately show ?thesis by (metis distinct_card lru_order_def)
qed

lemma dsrec_evict_spec:
  assumes inv: "lru_inv R" and w: "w < NID_SIZE_FP_WGT" "\<forall>v < w. p_lru_head R v = []"
    and x: "p_lru_head R w = x # xs"
  shows "\<exists>R'. dsrec_evict w x R = Some R' \<and> lru_inv R' \<and> lru_order R = x # lru_order R' \<and>
    p_to_reclaim_head R' = p_to_reclaim_head R @ [x] \<and> p_lru_head R' = (p_lru_head R)(w := xs) \<and>
    p_lru_max R' = p_lru_max R"
proof -
  note D = lru_invD[OF inv]
  have xl: "cn_is_lru (cdn R x)" "cn_wgt R x = w" using D(3)[of w] x by auto
  define R' where "R' = (cn_set_lru x False R)\<lparr>p_lru_head := (p_lru_head R)(w := xs),
    p_to_reclaim_head := p_to_reclaim_head R @ [x], p_lru_nr := (p_lru_nr R)(w := p_lru_nr R w - 1),
    p_lru_total_nr := p_lru_total_nr R - 1\<rparr>"
  have run: "dsrec_evict w x R = Some R'" using xl x by (simp add: dsrec_evict_def R'_def Let_def)
  have low: "concat (map (p_lru_head R) [0..<w]) = []" using w(2) by simp
  have "lru_order R' = xs @ concat (map (p_lru_head R) [Suc w..<NID_SIZE_FP_WGT])"
    unfolding lru_order_def R'_def using concat_map_upd[OF w(1), of "p_lru_head R" xs] low by simp
  then have ord: "lru_order R = x # lru_order R'"
    unfolding lru_order_split[OF w(1)] low x by simp
  have wgt: "cn_wgt R' a = cn_wgt R a" for a by (simp add: R'_def cn_wgt_def)
  have cd: "cdn R' a = (if a = x then (cdn R x)\<lparr>cn_is_lru := False\<rparr> else cdn R a)" for a by (simp add: R'_def)
  have hd: "p_lru_head R' = (p_lru_head R)(w := xs)" by (simp add: R'_def)
  have "set (p_lru_head R' v) = {a. cn_is_lru (cdn R' a) \<and> cn_wgt R' a = v}" for v
  proof (cases "v = w")
    case True
    have "set xs = set (x # xs) - {x}" using D(2)[of w] x by simp
    also have "\<dots> = {a. cn_is_lru (cdn R a) \<and> cn_wgt R a = w} - {x}" using D(3)[of w] x by simp
    finally show ?thesis using True by (auto simp: hd wgt cd)
  next
    case False
    have "set (p_lru_head R v) = {a. cn_is_lru (cdn R a) \<and> cn_wgt R a = v}" by (rule D(3))
    with False xl(2) show ?thesis by (auto simp: hd wgt cd)
  qed
  moreover have "distinct (p_lru_head R' v)" for v using D(2)[of v] D(2)[of w] x by (simp add: hd)
  moreover have "p_lru_nr R' v = length (p_lru_head R' v)" for v using D(5)[of v] D(5)[of w] x by (simp add: R'_def)
  moreover have "p_lru_total_nr R' = length (lru_order R')" using D(6) ord by (simp add: R'_def)
  moreover have "x \<notin> set (p_to_reclaim_head R)" using D(8) xl by blast
  ultimately have "lru_inv R'"
    unfolding lru_inv_def using D(1,7) D(4,8) by (auto simp: R'_def)
  with run ord hd show ?thesis by (simp add: R'_def)
qed

lemma dsrec_drain_spec:
  assumes "lru_inv R" "w < NID_SIZE_FP_WGT" "\<forall>v < w. p_lru_head R v = []" "0 < i" "p_lru_head R w = xs"
  shows "\<exists>R'. dsrec_drain w xs i R = Some (i - length xs, R') \<and> lru_inv R' \<and>
    lru_order R' = drop (min i (length xs)) (lru_order R) \<and>
    p_to_reclaim_head R' = p_to_reclaim_head R @ take (min i (length xs)) (lru_order R) \<and>
    p_lru_max R' = p_lru_max R"
  using assms
proof (induction xs arbitrary: i R)
  case (Cons x xs)
  from dsrec_evict_spec[OF Cons.prems(1-3,5)] obtain R1 where
    R1: "dsrec_evict w x R = Some R1" "lru_inv R1" "lru_order R = x # lru_order R1"
    "p_to_reclaim_head R1 = p_to_reclaim_head R @ [x]" "p_lru_head R1 = (p_lru_head R)(w := xs)"
    "p_lru_max R1 = p_lru_max R" by blast
  show ?case
  proof (cases "i \<le> 1")
    case True
    with Cons.prems(4) have "i = 1" by simp
    with R1 show ?thesis by simp
  next
    case False
    have "\<forall>v < w. p_lru_head R1 v = []" "0 < i - 1" "p_lru_head R1 w = xs"
      using R1(5) Cons.prems(3) False by auto
    from Cons.IH[OF R1(2) Cons.prems(2) this] obtain R2 where
      "dsrec_drain w xs (i - 1) R1 = Some (i - 1 - length xs, R2)" "lru_inv R2"
      "lru_order R2 = drop (min (i - 1) (length xs)) (lru_order R1)"
      "p_to_reclaim_head R2 = p_to_reclaim_head R1 @ take (min (i - 1) (length xs)) (lru_order R1)"
      "p_lru_max R2 = p_lru_max R1" by blast
    moreover have "min i (length (x # xs)) = Suc (min (i - 1) (length xs))" using False by auto
    ultimately show ?thesis using R1 False by simp
  qed
qed auto

lemma dsrec_cur_head_Some:
  assumes "lru_order R \<noteq> []"
  shows "\<exists>w. dsrec_cur_head R = Some w \<and> w < NID_SIZE_FP_WGT \<and> p_lru_head R w \<noteq> [] \<and>
    (\<forall>v < w. p_lru_head R v = [])"
proof -
  have "\<exists>w \<in> set [0..<NID_SIZE_FP_WGT]. p_lru_head R w \<noteq> []"
    using assms by (auto simp: lru_order_def)
  then have "dsrec_cur_head R \<noteq> None" unfolding dsrec_cur_head_def find_None_iff by auto
  then obtain w where w: "dsrec_cur_head R = Some w" by (cases "dsrec_cur_head R") simp_all
  then obtain i where i: "i < NID_SIZE_FP_WGT" "p_lru_head R ([0..<NID_SIZE_FP_WGT] ! i) \<noteq> []"
    "w = [0..<NID_SIZE_FP_WGT] ! i" "\<forall>j < i. p_lru_head R ([0..<NID_SIZE_FP_WGT] ! j) = []"
    unfolding dsrec_cur_head_def find_Some_iff by auto
  from i(1) have nth: "j \<le> i \<Longrightarrow> [0..<NID_SIZE_FP_WGT] ! j = j" for j by simp
  from i nth show ?thesis by (intro exI[of _ w] conjI w) simp_all
qed

lemma dsrec_reclaim_spec:
  assumes "lru_inv R" "i \<le> length (lru_order R)"
  shows "\<exists>R'. dsrec_reclaim i R = Some R' \<and> lru_inv R' \<and> lru_order R' = drop i (lru_order R) \<and>
    p_to_reclaim_head R' = p_to_reclaim_head R @ take i (lru_order R) \<and> p_lru_max R' = p_lru_max R"
  using assms
proof (induction i arbitrary: R rule: less_induct)
  case (less i)
  show ?case
  proof (cases "i = 0")
    case True
    with less.prems show ?thesis by (simp add: dsrec_reclaim.simps)
  next
    case False
    then have "lru_order R \<noteq> []" using less.prems(2) by auto
    from dsrec_cur_head_Some[OF this] obtain w where
      w: "dsrec_cur_head R = Some w" "w < NID_SIZE_FP_WGT" "p_lru_head R w \<noteq> []" "\<forall>v < w. p_lru_head R v = []" by blast
    let ?k = "min i (length (p_lru_head R w))"
    from dsrec_drain_spec[OF less.prems(1) w(2,4) _ refl] False obtain R1 where
      R1: "dsrec_drain w (p_lru_head R w) i R = Some (i - length (p_lru_head R w), R1)" "lru_inv R1"
      "lru_order R1 = drop ?k (lru_order R)"
      "p_to_reclaim_head R1 = p_to_reclaim_head R @ take ?k (lru_order R)" "p_lru_max R1 = p_lru_max R" by blast
    let ?i = "i - length (p_lru_head R w)"
    have lt: "?i < i" and k: "i = ?k + ?i" using w(3) False by (cases "p_lru_head R w") auto
    have "?i \<le> length (lru_order R1)" using R1(3) less.prems(2) k by simp
    from less.IH[OF lt R1(2) this] obtain R2 where
      R2: "dsrec_reclaim ?i R1 = Some R2" "lru_inv R2" "lru_order R2 = drop ?i (lru_order R1)"
      "p_to_reclaim_head R2 = p_to_reclaim_head R1 @ take ?i (lru_order R1)" "p_lru_max R2 = p_lru_max R1" by blast
    have "dsrec_reclaim i R = Some R2"
      using False w(1) R1(1) R2(1) by (subst dsrec_reclaim.simps) simp
    moreover have "lru_order R2 = drop i (lru_order R)" unfolding R2(3) R1(3) drop_drop by (subst (2) k) (simp add: add.commute)
    moreover have "p_to_reclaim_head R2 = p_to_reclaim_head R @ take i (lru_order R)"
      unfolding R2(4) R1(3,4) append.assoc take_add[symmetric] by (subst (2) k) (rule refl)
    ultimately show ?thesis using R2(2,5) R1(5) by auto
  qed
qed

lemma dsrec_enlist_spec:
  assumes inv: "lru_inv R" and np: "\<not> cn_is_lru (cdn R np)" "np \<notin> set (p_to_reclaim_head R)"
    "length (cn_fp (cdn R np)) = NID_SIZE_FP"
  shows "lru_inv (dsrec_enlist np R)" "set (lru_order (dsrec_enlist np R)) = insert np (set (lru_order R))"
    "length (lru_order (dsrec_enlist np R)) = Suc (length (lru_order R))"
proof -
  note D = lru_invD[OF inv]
  let ?w = "cn_wgt R np" and ?R = "dsrec_enlist np R"
  have hd: "p_lru_head ?R = (p_lru_head R)(?w := p_lru_head R ?w @ [np])" by (simp add: dsrec_enlist_def Let_def)
  have cd: "cdn ?R a = (if a = np then (cdn R np)\<lparr>cn_is_lru := True\<rparr> else cdn R a)" for a
    by (simp add: dsrec_enlist_def Let_def)
  have wgt: "cn_wgt ?R a = cn_wgt R a" for a
    by (simp add: dsrec_enlist_def Let_def cn_wgt_def)
  have ord: "lru_order ?R = concat (map (p_lru_head R) [0..<?w]) @ (p_lru_head R ?w @ [np]) @
      concat (map (p_lru_head R) [Suc ?w..<NID_SIZE_FP_WGT])"
    unfolding lru_order_def hd by (rule concat_map_upd[OF cn_wgt_lt])
  show "set (lru_order ?R) = insert np (set (lru_order R))" and len: "length (lru_order ?R) = Suc (length (lru_order R))"
    unfolding ord lru_order_split[OF cn_wgt_lt[of R np], of R] by auto
  have notin: "np \<notin> set (p_lru_head R v)" for v using D(3)[of v] np(1) by simp
  have "set (p_lru_head ?R v) = {a. cn_is_lru (cdn ?R a) \<and> cn_wgt ?R a = v}" for v
  proof -
    have "set (p_lru_head R v) = {a. cn_is_lru (cdn R a) \<and> cn_wgt R a = v}" by (rule D(3))
    with np(1) show ?thesis by (auto simp: hd wgt cd)
  qed
  moreover have "distinct (p_lru_head ?R v)" for v using D(2)[of v] D(2)[of ?w] notin by (simp add: hd)
  moreover have "p_lru_nr ?R v = length (p_lru_head ?R v)" for v
    using D(5)[of v] by (auto simp: dsrec_enlist_def Let_def)
  moreover have "p_lru_total_nr ?R = length (lru_order ?R)"
    unfolding len using D(6) by (simp add: dsrec_enlist_def Let_def)
  moreover have "cn_is_lru (cdn ?R a) \<Longrightarrow> length (cn_fp (cdn ?R a)) = NID_SIZE_FP" for a
    using D(4)[of a] np(3) by (simp add: cd split: if_splits)
  moreover have "a \<in> set (p_to_reclaim_head ?R) \<Longrightarrow> \<not> cn_is_lru (cdn ?R a)" for a
    using D(8)[of a] np(2) by (auto simp: cd dsrec_enlist_def Let_def)
  moreover have "fpc_ok (p_fpc ?R)" "distinct (p_to_reclaim_head ?R)" using D(1,7) by (simp_all add: dsrec_enlist_def Let_def)
  ultimately show "lru_inv ?R" unfolding lru_inv_def by blast
qed

lemma dsrec_enlist_sel [simp]:
  "p_lru_max (dsrec_enlist np R) = p_lru_max R" "p_lru_total_nr (dsrec_enlist np R) = Suc (p_lru_total_nr R)"
  "p_to_reclaim_head (dsrec_enlist np R) = p_to_reclaim_head R"
  by (simp_all add: dsrec_enlist_def Let_def)

lemma lru_inv_init:
  "fpc_ok fpc \<Longrightarrow> (\<And>a. \<not> cn_is_lru (nodes a)) \<Longrightarrow> lru_inv (dsrec_initialization pool nodes fpc n)"
  by (simp add: lru_inv_def dsrec_initialization_def lru_order_def)

text \<open>Inserting a block of the cache returns and keeps the invariant. If the cache stays below its
  limit, the block is cached and nothing else changes; if it reaches the limit, exactly ten blocks are
  taken off and queued for reclaiming, the first ten in the order of weight and then of age.\<close>

lemma dsrec_insert_evicts_cheapest:
  assumes "lru_inv R" and "\<not> cn_is_lru (cdn R np)" and "np \<notin> set (p_to_reclaim_head R)"
    and "length (cn_fp (cdn R np)) = NID_SIZE_FP"
    and "p_lru_total_nr R < p_lru_max R" and "10 \<le> p_lru_max R"
  shows "\<exists>R'. dsrec_insert_block np R = Some R' \<and> lru_inv R' \<and> p_lru_total_nr R' < p_lru_max R' \<and>
    (if Suc (p_lru_total_nr R) < p_lru_max R
     then R' = dsrec_enlist np R
     else lru_order R' = drop 10 (lru_order (dsrec_enlist np R)) \<and>
       p_to_reclaim_head R' = p_to_reclaim_head R @ take 10 (lru_order (dsrec_enlist np R)))"
proof (cases "Suc (p_lru_total_nr R) < p_lru_max R")
  case True
  then show ?thesis using dsrec_enlist_spec(1)[OF assms(1-4)] by (simp add: dsrec_insert_block_def Let_def)
next
  case False
  note E = dsrec_enlist_spec[OF assms(1-4)]
  have tot: "Suc (p_lru_total_nr R) = p_lru_max R" using False assms(5) by simp
  have "10 \<le> length (lru_order (dsrec_enlist np R))"
    using lru_invD(6)[OF E(1)] tot assms(6) by simp
  from dsrec_reclaim_spec[OF E(1) this] obtain R' where
    R': "dsrec_reclaim 10 (dsrec_enlist np R) = Some R'" "lru_inv R'"
    "lru_order R' = drop 10 (lru_order (dsrec_enlist np R))"
    "p_to_reclaim_head R' = p_to_reclaim_head (dsrec_enlist np R) @ take 10 (lru_order (dsrec_enlist np R))"
    "p_lru_max R' = p_lru_max (dsrec_enlist np R)" by blast
  have "p_lru_total_nr R' = p_lru_max R - 10"
    using lru_invD(6)[OF R'(2)] lru_invD(6)[OF E(1)] R'(3) tot by simp
  then have "p_lru_total_nr R' < p_lru_max R'" using R'(5) assms(6) by simp
  moreover have "dsrec_insert_block np R = Some R'" using tot R'(1) by (simp add: dsrec_insert_block_def Let_def)
  ultimately show ?thesis using False R' by auto
qed

abbreviation cdn_mem0 :: "node_addr \<Rightarrow> content_description_node" where
  "cdn_mem0 \<equiv> \<lambda>_. \<lparr>cn_data = 0, cn_is_lru = False, cn_is_ondisk = True, cn_fp = replicate 32 0\<rparr>"

lemma fpc_set_wgt_get:
  assumes "fpc_ok p" and "length fp = NID_SIZE_FP" and "fp_len p = NID_SIZE_FP \<longrightarrow> wgt = 0" and "wgt < 16"
  shows "\<exists>fp'. fpc_set_wgt_to_fp p fp wgt = Some fp' \<and> length fp' = NID_SIZE_FP \<and> fpc_get_wgt_from_fp p fp' = wgt"
proof -
  have "fp_len p \<le> NID_SIZE_FP" using assms(1) fpc_lens_le by (simp add: fpc_ok_def NID_SIZE_FP_def)
  with assms show ?thesis
    by (cases "fp_len p < NID_SIZE_FP") (auto simp: fpc_set_wgt_to_fp_def low_nibble_add fpc_get_wgt_from_fp_def)
qed

lemma dsrec_move_spec:
  assumes inv: "lru_inv R" and np: "cn_is_lru (cdn R np)" and ow: "unat ow = cn_wgt R np"
    and nw: "nw < 16" "fp_len (p_fpc R) = NID_SIZE_FP \<longrightarrow> nw = 0"
  shows "\<exists>R'. dsrec_move np ow nw R = Some R' \<and> lru_inv R' \<and> cn_wgt R' np = unat nw \<and>
    (\<forall>w. p_lru_head R' w = filter (\<lambda>a. a \<noteq> np) (p_lru_head R w) @ (if w = unat nw then [np] else [])) \<and>
    p_lru_total_nr R' = p_lru_total_nr R \<and> p_to_reclaim_head R' = p_to_reclaim_head R"
proof -
  note D = lru_invD[OF inv]
  from fpc_set_wgt_get[OF D(1) D(4)[OF np] nw(2,1)] obtain fp where
    fp: "fpc_set_wgt_to_fp (p_fpc R) (cn_fp (cdn R np)) nw = Some fp" "length fp = NID_SIZE_FP"
    "fpc_get_wgt_from_fp (p_fpc R) fp = nw" by blast
  let ?lru = "\<lambda>w. remove1 np (p_lru_head R w)" and ?nr = "(p_lru_nr R)(unat ow := p_lru_nr R (unat ow) - 1)"
  define R' where "R' = R\<lparr>cdn := (cdn R)(np := (cdn R np)\<lparr>cn_fp := fp\<rparr>),
    p_lru_head := ?lru(unat nw := ?lru (unat nw) @ [np]), p_lru_nr := ?nr(unat nw := Suc (?nr (unat nw)))\<rparr>"
  have run: "dsrec_move np ow nw R = Some R'" by (simp add: dsrec_move_def fp(1) R'_def)
  have rm: "remove1 np (p_lru_head R w) = filter (\<lambda>a. a \<noteq> np) (p_lru_head R w)" for w
    using D(2)[of w] by (auto simp: distinct_remove1_removeAll removeAll_filter_not_eq intro: filter_cong)
  have hd: "p_lru_head R' w = filter (\<lambda>a. a \<noteq> np) (p_lru_head R w) @ (if w = unat nw then [np] else [])" for w
    by (simp add: R'_def rm)
  have cd: "cdn R' a = (if a = np then (cdn R np)\<lparr>cn_fp := fp\<rparr> else cdn R a)" for a by (simp add: R'_def)
  have wgt: "cn_wgt R' a = (if a = np then unat nw else cn_wgt R a)" for a
    by (simp add: cn_wgt_def cd R'_def fp(3))
  have len: "length (filter (\<lambda>a. a \<noteq> np) (p_lru_head R w)) = length (p_lru_head R w) - (if w = unat ow then 1 else 0)" for w
  proof -
    have "np \<in> set (p_lru_head R w) \<longleftrightarrow> w = unat ow" unfolding D(3) using np ow by auto
    then show ?thesis unfolding rm[symmetric] by (auto simp: length_remove1)
  qed
  have pos: "0 < length (p_lru_head R (unat ow))"
  proof -
    have "np \<in> set (p_lru_head R (unat ow))" unfolding D(3) using np ow by simp
    then show ?thesis by (rule length_pos_if_in_set)
  qed
  have sets: "set (p_lru_head R' w) = {a. cn_is_lru (cdn R' a) \<and> cn_wgt R' a = w}" for w
  proof -
    have "set (p_lru_head R w) = {a. cn_is_lru (cdn R a) \<and> cn_wgt R a = w}" by (rule D(3))
    then show ?thesis using np by (auto simp: hd cd wgt)
  qed
  have nr: "p_lru_nr R' w = length (p_lru_head R' w)" for w
    unfolding hd length_append len using D(5)[of w] D(5)[of "unat ow"] pos by (auto simp: R'_def)
  have "{a. cn_is_lru (cdn R' a)} = {a. cn_is_lru (cdn R a)}" by (auto simp: cd)
  then have tot: "length (lru_order R') = length (lru_order R)"
    using lru_order_length[OF D(2,3)] lru_order_length[OF _ sets] D(2) by (simp add: hd)
  have "lru_inv R'"
    unfolding lru_inv_def using sets nr tot D(1,2,6,7) D(4,8) fp(2) by (auto simp: hd cd R'_def)
  with run hd wgt show ?thesis by (auto simp: R'_def)
qed

text \<open>Touching a cached block with a new fingerprint keeps the invariant, raises its weight to the
  larger of the two, never lowers it, and moves it to the end of the list of that weight; the other
  blocks keep their places and none is queued. A block that is not cached is left alone.\<close>

lemma dsrec_touch_moves_last:
  assumes "lru_inv R"
  shows "\<exists>R'. dsrec_touch_block np new_fp R = Some R' \<and> lru_inv R' \<and>
    (if cn_is_lru (cdn R np)
     then cn_wgt R' np = max (cn_wgt R np) (unat (fpc_get_wgt_from_fp (p_fpc R) new_fp)) \<and>
       (\<forall>w. p_lru_head R' w = filter (\<lambda>a. a \<noteq> np) (p_lru_head R w) @ (if w = cn_wgt R' np then [np] else [])) \<and>
       p_lru_total_nr R' = p_lru_total_nr R \<and> p_to_reclaim_head R' = p_to_reclaim_head R
     else R' = R)"
proof (cases "cn_is_lru (cdn R np)")
  case True
  let ?old = "fpc_get_wgt_from_fp (p_fpc R) (cn_fp (cdn R np))" and ?new = "fpc_get_wgt_from_fp (p_fpc R) new_fp"
  let ?w = "if ?new > ?old then ?new else ?old"
  have old: "unat ?old = cn_wgt R np" by (simp add: cn_wgt_def)
  have mx: "unat ?w = max (cn_wgt R np) (unat ?new)" unfolding old[symmetric] by (auto simp: word_less_nat_alt)
  have "?w < 16" "fp_len (p_fpc R) = NID_SIZE_FP \<longrightarrow> ?w = 0"
    using wgt_lt_16 by (simp_all add: fpc_get_wgt_from_fp_def)
  from dsrec_move_spec[OF assms True old this] True show ?thesis
    unfolding mx by (auto simp: dsrec_touch_block_def Let_def)
qed (use assms in \<open>simp add: dsrec_touch_block_def\<close>)

end
