(* ===== verification/Dsrec_Reclaim.thy ===== *)
theory Dsrec_Reclaim
  imports Dsmgr_Correct List_Sort Dsrec
begin

text \<open>
  The reclaim thread of \<open>cache/dsrec.c\<close>: it takes the nodes to reclaim, sorts them with \<open>list_sort\<close>
  and gives their blocks back to the device space manager. One turn of the thread is
  \<open>dsrec_reclaim_round\<close>; the nodes it hands to \<open>rc_drop_block\<close> are part of its result, and the
  outer option is \<open>None\<close> while it waits because there is nothing to reclaim.
\<close>

section \<open>The reclaim thread\<close>

definition sort_cmp :: "(node_addr \<Rightarrow> content_description_node) \<Rightarrow> node_addr \<Rightarrow> node_addr \<Rightarrow> int" where
  "sort_cmp nodes a b =
     (if cn_data (nodes a) < cn_data (nodes b) then 1
      else if cn_data (nodes a) > cn_data (nodes b) then - 1 else 0)"

definition dsrec_new_extent :: "nat \<Rightarrow> ds_state \<Rightarrow> (node_addr \<times> ds_state) option" where
  "dsrec_new_extent i S =
     do {
       (b, S) \<leftarrow> blksn_get_node S;
       Some (b, S\<lparr>bsn := (bsn S)(b := (bsn S b)\<lparr>bsn_index := i, bsn_size := 1\<rparr>)\<rparr>)
     }"

definition dsrec_release :: "node_addr \<Rightarrow> dsrec_private \<Rightarrow> dsrec_private option" where
  "dsrec_release cd_np R =
     (let R = R\<lparr>p_reclaiming_head := remove1 cd_np (p_reclaiming_head R), p_rec_nr := Suc (p_rec_nr R)\<rparr> in
      do { c_assert (cn_is_ondisk (cdn R cd_np)); cdn_put_node cd_np R })"

text \<open>The extent that is open at a node: a new one, or the last one, if the block is next to it.\<close>

definition dsrec_extent :: "nat \<Rightarrow> node_addr option \<Rightarrow> ds_state \<Rightarrow> (node_addr \<times> ds_state) option" where
  "dsrec_extent i bs_np S =
     (case bs_np of
        None \<Rightarrow> dsrec_new_extent i S
      | Some b \<Rightarrow>
          if i = bsn_index (bsn S b) + bsn_size (bsn S b) then
            Some (b, bsn_set_size b (bsn_size (bsn S b) + 1) S)
          else do { S \<leftarrow> dsmgr_put_space b S; dsrec_new_extent i S })"

fun dsrec_give_back ::
  "node_addr list \<Rightarrow> node_addr option \<Rightarrow> dsrec_private \<Rightarrow> ds_state \<Rightarrow> (dsrec_private \<times> ds_state) option" where
  "dsrec_give_back [] bs_np R S =
     (case bs_np of None \<Rightarrow> Some (R, S) | Some b \<Rightarrow> do { S \<leftarrow> dsmgr_put_space b S; Some (R, S) })"
| "dsrec_give_back (cd_np # cds) bs_np R S =
     do {
       (b, S) \<leftarrow> dsrec_extent (cn_data (cdn R cd_np)) bs_np S;
       R \<leftarrow> dsrec_release cd_np R;
       dsrec_give_back cds (Some b) R S
     }"

definition dsrec_reclaim_round ::
  "dsrec_private \<Rightarrow> ds_state \<Rightarrow> (node_addr list \<times> dsrec_private \<times> ds_state) option option" where
  "dsrec_reclaim_round R S =
     (if p_to_reclaim_head R = [] then None
      else Some (
        (let R = R\<lparr>p_reclaiming_head := p_reclaiming_head R @ p_to_reclaim_head R, p_to_reclaim_head := []\<rparr>;
             dropped = p_reclaiming_head R in
         do {
           sorted \<leftarrow> list_sort (sort_cmp (cdn R)) (p_reclaiming_head R);
           (R, S) \<leftarrow> dsrec_give_back sorted None (R\<lparr>p_reclaiming_head := sorted\<rparr>) S;
           Some (dropped, R, S)
         })))"

section \<open>Extents under construction\<close>

lemma ds_inv_held_update:
  assumes inv: "ds_inv S" and a: "a \<notin> set (p_space_head S)"
    and p: "pool_inv p" "set (p_space_head S) \<subseteq> pool_used p"
  shows "ds_inv (S\<lparr>blksn_pool := p, bsn := (bsn S)(a := x)\<rparr>)" (is "ds_inv ?S")
    "free_blocks (S\<lparr>blksn_pool := p, bsn := (bsn S)(a := x)\<rparr>) = free_blocks S"
proof -
  note I = ds_invD[OF inv]
  have b: "bsn ?S c = bsn S c" if "c \<in> set (p_space_head S)" for c using a that by auto
  have "bmp_core ?S" using bmp_core_fresh_node[OF I(2) a p, where x = x and n = "p_num_free_blocks S"] by simp
  moreover have "mgr_inv (set (p_space_head S)) ?S"
    using b mgr_invD(1,3)[OF I(1)] by (intro mgr_inv_same[OF I(1)]) (auto simp: mgr_same_def)
  moreover have "bmp_gaps ?S"
    using I(3) b unfolding bmp_gaps_def bsn_end_def by (subst sorted_wrt_cong[of _ _ "\<lambda>a b. bsn_end S a < bsn_idx S b"])
      (auto simp: bsn_end_def)
  moreover have "sum_free ?S = sum_free S" using b by (auto simp: sum_free_def intro!: arg_cong[where f = sum_list])
  ultimately show "ds_inv ?S" using I(4) by (simp add: ds_inv_def)
  show "free_blocks ?S = free_blocks S" using b by (auto simp: free_blocks_def bsn_blocks_def bsn_end_def)
qed

text \<open>An extent that is being built: held, disjoint from the free blocks, and nothing but it and the
  nodes that were held before is held.\<close>

definition building :: "ds_state \<Rightarrow> node_addr set \<Rightarrow> nat set \<Rightarrow> node_addr option \<Rightarrow> bool" where
  "building S H B bs_np \<longleftrightarrow> ds_inv S \<and>
     (case bs_np of
        None \<Rightarrow> held S = H \<and> B = {}
      | Some b \<Rightarrow> can_put S b \<and> held S = insert b H \<and> b \<notin> H \<and> B = bsn_blocks S b)"

lemma dsrec_new_extent_spec:
  assumes inv: "ds_inv S" and i: "i \<notin> free_blocks S" "i < DS_MAX_BLOCKS"
  shows "\<exists>b S'. dsrec_new_extent i S = Some (b, S') \<and> building S' (held S) {i} (Some b) \<and>
    free_blocks S' = free_blocks S"
proof -
  note D = bmp_coreD[OF ds_invD(2)[OF inv]]
  from np.getE[OF D(2)] obtain b p where p: "node_get_node (blksn_pool S) = Some (b, p)" "pool_inv p"
    "b \<notin> pool_used (blksn_pool S)" "pool_used p = insert b (pool_used (blksn_pool S))" by blast
  have b: "b \<notin> set (p_space_head S)" using p(3) D(9) by auto
  let ?S = "S\<lparr>blksn_pool := p, bsn := (bsn S)(b := (bsn S b)\<lparr>bsn_index := i, bsn_size := 1\<rparr>)\<rparr>"
  have sub: "set (p_space_head S) \<subseteq> pool_used p" using D(9) p(4) by auto
  have run: "dsrec_new_extent i S = Some (b, ?S)"
    by (simp add: dsrec_new_extent_def blksn_get_node_def p(1))
  have free: "free_blocks ?S = free_blocks S" by (rule ds_inv_held_update(2)[OF inv b p(2) sub])
  have "held ?S = insert b (held S)" using b p(4) by (auto simp: held_def)
  moreover have "b \<notin> held S" using p(3) by (simp add: held_def)
  moreover have "bsn_blocks ?S b = {i}" by (auto simp: bsn_blocks_def bsn_end_def)
  ultimately have "building ?S (held S) {i} (Some b)"
    using ds_inv_held_update(1)[OF inv b p(2) sub] i free by (simp add: building_def can_put_def bsn_end_def)
  with run free show ?thesis by blast
qed

lemma dsrec_put_extent_spec:
  assumes "building S H B (Some b)"
  shows "\<exists>S'. dsmgr_put_space b S = Some S' \<and> building S' H {} None \<and> free_blocks S' = free_blocks S \<union> B"
  using dsmgr_put_space_spec[of S b] assms by (auto simp: building_def)

lemma dsrec_extent_spec:
  assumes bd: "building S H B bs_np" and i: "i \<notin> free_blocks S" "i \<notin> B" "i < DS_MAX_BLOCKS"
  shows "\<exists>b S' B'. dsrec_extent i bs_np S = Some (b, S') \<and> building S' H B' (Some b) \<and> i \<in> B' \<and>
    free_blocks S' \<union> B' = insert i (free_blocks S \<union> B)"
proof (cases bs_np)
  case None
  with bd have "ds_inv S" "held S = H" "B = {}" by (simp_all add: building_def)
  with dsrec_new_extent_spec[of S i] i None show ?thesis by (fastforce simp: dsrec_extent_def)
next
  case (Some b)
  show ?thesis
  proof (cases "i = bsn_index (bsn S b) + bsn_size (bsn S b)")
    case True
    let ?S = "bsn_set_size b (bsn_size (bsn S b) + 1) S"
    have b: "b \<notin> set (p_space_head S)" "can_put S b" "held S = insert b H" "b \<notin> H" "B = bsn_blocks S b" "ds_inv S"
      using bd Some by (auto simp: building_def can_put_def held_def)
    note D = bmp_coreD[OF ds_invD(2)[OF b(6)]]
    have u: "?S = S\<lparr>blksn_pool := blksn_pool S, bsn := (bsn S)(b := (bsn S b)\<lparr>bsn_size := bsn_size (bsn S b) + 1\<rparr>)\<rparr>"
      by (simp add: bsn_set_size_def)
    have free: "free_blocks ?S = free_blocks S" unfolding u by (rule ds_inv_held_update(2)[OF b(6,1) D(2,9)])
    have "ds_inv ?S" unfolding u by (rule ds_inv_held_update(1)[OF b(6,1) D(2,9)])
    moreover have bl: "bsn_blocks ?S b = insert i B" using True b(5) by (auto simp: bsn_blocks_def bsn_end_def)
    moreover have "held ?S = held S" by (simp add: held_def bsn_set_size_def)
    ultimately have "building ?S H (insert i B) (Some b)"
      using b i free True by (simp add: building_def can_put_def bsn_end_def)
    with Some True free show ?thesis by (auto simp: dsrec_extent_def)
  next
    case False
    from dsrec_put_extent_spec[OF bd[unfolded Some]] obtain S1 where
      S1: "dsmgr_put_space b S = Some S1" "building S1 H {} None" "free_blocks S1 = free_blocks S \<union> B" by blast
    from S1(2) have "ds_inv S1" "held S1 = H" by (simp_all add: building_def)
    with dsrec_new_extent_spec[of S1 i] i S1(3) obtain c S2 where
      "dsrec_new_extent i S1 = Some (c, S2)" "building S2 H {i} (Some c)" "free_blocks S2 = free_blocks S1" by auto
    with S1 Some False show ?thesis by (auto simp: dsrec_extent_def)
  qed
qed

section \<open>A turn of the thread\<close>

text \<open>The comparison sorts by descending block number.\<close>

abbreviation cn_key :: "(node_addr \<Rightarrow> content_description_node) \<Rightarrow> node_addr \<Rightarrow> int" where
  "cn_key nodes a \<equiv> - int (cn_data (nodes a))"

interpretation rl: list_order "sort_cmp nodes" "cn_key nodes" for nodes
  by unfold_locales (simp add: sort_cmp_def)

lemma dsrec_release_spec:
  assumes "pool_inv (cdn_pool R)" "a \<in> pool_used (cdn_pool R)" "cn_is_ondisk (cdn R a)"
  shows "\<exists>pl. dsrec_release a R =
      Some (R\<lparr>p_reclaiming_head := remove1 a (p_reclaiming_head R), p_rec_nr := Suc (p_rec_nr R), cdn_pool := pl\<rparr>) \<and>
    pool_inv pl \<and> pool_used pl = pool_used (cdn_pool R) - {a}"
  using np.put_free[OF assms(1,2)] assms(3) by (auto simp: dsrec_release_def cdn_put_node_def Let_def)

definition reclaimable :: "node_addr list \<Rightarrow> nat set \<Rightarrow> dsrec_private \<Rightarrow> bool" where
  "reclaimable cds F R \<longleftrightarrow>
     pool_inv (cdn_pool R) \<and> distinct cds \<and> set cds \<subseteq> pool_used (cdn_pool R) \<and>
     inj_on (\<lambda>a. cn_data (cdn R a)) (set cds) \<and>
     (\<forall>a \<in> set cds. cn_is_ondisk (cdn R a) \<and> cn_data (cdn R a) \<notin> F \<and> cn_data (cdn R a) < DS_MAX_BLOCKS)"

lemma dsrec_give_back_spec:
  assumes "building S H B bs_np" "reclaimable cds (free_blocks S \<union> B) R"
  shows "\<exists>pl S'. dsrec_give_back cds bs_np R S =
      Some (R\<lparr>p_reclaiming_head := fold remove1 cds (p_reclaiming_head R),
              p_rec_nr := p_rec_nr R + length cds, cdn_pool := pl\<rparr>, S') \<and>
    ds_inv S' \<and> held S' = H \<and> free_blocks S' = free_blocks S \<union> B \<union> (\<lambda>a. cn_data (cdn R a)) ` set cds \<and>
    pool_inv pl \<and> pool_used pl = pool_used (cdn_pool R) - set cds"
  using assms
proof (induction cds arbitrary: bs_np R S B)
  case Nil
  have pl: "pool_inv (cdn_pool R)" using Nil.prems(2) by (simp add: reclaimable_def)
  show ?case
  proof (cases bs_np)
    case None
    with Nil pl show ?thesis by (intro exI[of _ "cdn_pool R"] exI[of _ S]) (simp add: building_def)
  next
    case (Some b)
    from dsrec_put_extent_spec[OF Nil.prems(1)[unfolded Some]] obtain S1 where
      "dsmgr_put_space b S = Some S1" "building S1 H {} None" "free_blocks S1 = free_blocks S \<union> B" by blast
    with Some pl show ?thesis by (intro exI[of _ "cdn_pool R"] exI[of _ S1]) (simp add: building_def)
  qed
next
  case (Cons a cds)
  let ?i = "cn_data (cdn R a)"
  have a: "?i \<notin> free_blocks S" "?i \<notin> B" "?i < DS_MAX_BLOCKS" "a \<in> pool_used (cdn_pool R)"
    "cn_is_ondisk (cdn R a)" "pool_inv (cdn_pool R)" using Cons.prems(2) by (simp_all add: reclaimable_def)
  from dsrec_extent_spec[OF Cons.prems(1) a(1-3)] obtain b S1 B1 where
    S1: "dsrec_extent ?i bs_np S = Some (b, S1)" "building S1 H B1 (Some b)"
    "free_blocks S1 \<union> B1 = insert ?i (free_blocks S \<union> B)" by blast
  from dsrec_release_spec[OF a(6,4,5)] obtain p1 where
    p1: "dsrec_release a R = Some (R\<lparr>p_reclaiming_head := remove1 a (p_reclaiming_head R),
      p_rec_nr := Suc (p_rec_nr R), cdn_pool := p1\<rparr>)" "pool_inv p1" "pool_used p1 = pool_used (cdn_pool R) - {a}" by blast
  let ?R = "R\<lparr>p_reclaiming_head := remove1 a (p_reclaiming_head R), p_rec_nr := Suc (p_rec_nr R), cdn_pool := p1\<rparr>"
  have inj: "inj_on (\<lambda>a. cn_data (cdn R a)) (insert a (set cds))" and nin: "a \<notin> set cds"
    using Cons.prems(2) by (auto simp: reclaimable_def)
  have ne: "cn_data (cdn R x) \<noteq> ?i" if "x \<in> set cds" for x
  proof
    assume "cn_data (cdn R x) = ?i"
    from inj_onD[OF inj this] that nin show False by auto
  qed
  have "reclaimable cds (free_blocks S1 \<union> B1) ?R"
    unfolding S1(3) using Cons.prems(2) p1(2,3) nin ne inj_on_subset[OF inj, of "set cds"]
    by (auto simp: reclaimable_def)
  from Cons.IH[OF S1(2) this] obtain pl S' where
    "dsrec_give_back cds (Some b) ?R S1 = Some (?R\<lparr>
       p_reclaiming_head := fold remove1 cds (p_reclaiming_head ?R), p_rec_nr := p_rec_nr ?R + length cds, cdn_pool := pl\<rparr>, S')"
    "ds_inv S'" "held S' = H"
    "free_blocks S' = free_blocks S1 \<union> B1 \<union> (\<lambda>a. cn_data (cdn ?R a)) ` set cds"
    "pool_inv pl" "pool_used pl = pool_used (cdn_pool ?R) - set cds" by blast
  then show ?case using S1(1) p1
    by (intro exI[of _ pl] exI[of _ S']) (auto simp: S1(3))
qed

lemma fold_remove1_self: "mset cds = mset xs \<Longrightarrow> fold remove1 cds xs = []"
proof (induction cds arbitrary: xs)
  case (Cons a cds)
  then have "mset cds = mset (remove1 a xs)" by (metis add_mset_remove_trivial mset.simps(2) mset_remove1)
  with Cons.IH show ?case by simp
qed simp

text \<open>C30. One turn of the reclaim thread, on cached blocks that are on disk, distinct and not free: it
  sorts and returns, hands every queued node to the read cache, gives exactly the blocks of these nodes
  back to the space manager, returns the nodes to their pool and leaves both the LRU lists and the space
  manager well formed, with the extents other callers hold untouched.\<close>

theorem dsrec_reclaim_frees:
  assumes "lru_inv R" and "ds_inv S" and "p_reclaiming_head R = []" and "p_to_reclaim_head R \<noteq> []"
    and "reclaimable (p_to_reclaim_head R) (free_blocks S) R"
  shows "\<exists>R' S'. dsrec_reclaim_round R S = Some (Some (p_to_reclaim_head R, R', S')) \<and>
    lru_inv R' \<and> ds_inv S' \<and> held S' = held S \<and>
    free_blocks S' = free_blocks S \<union> (\<lambda>a. cn_data (cdn R a)) ` set (p_to_reclaim_head R) \<and>
    p_to_reclaim_head R' = [] \<and> p_reclaiming_head R' = [] \<and>
    p_rec_nr R' = p_rec_nr R + length (p_to_reclaim_head R) \<and>
    pool_used (cdn_pool R') = pool_used (cdn_pool R) - set (p_to_reclaim_head R)"
proof -
  let ?xs = "p_to_reclaim_head R"
  define cds where "cds = sort_key (cn_key (cdn R)) ?xs"
  have m: "mset cds = mset ?xs" "set cds = set ?xs" "length cds = length ?xs" by (simp_all add: cds_def)
  let ?R = "R\<lparr>p_to_reclaim_head := [], p_reclaiming_head := cds\<rparr>"
  have "building S (held S) {} None" using assms(2) by (simp add: building_def)
  moreover have "reclaimable cds (free_blocks S \<union> {}) ?R"
    using assms(5) m by (simp add: reclaimable_def cds_def)
  ultimately obtain pl S' where g: "dsrec_give_back cds None ?R S =
      Some (?R\<lparr>p_reclaiming_head := fold remove1 cds cds, p_rec_nr := p_rec_nr R + length cds, cdn_pool := pl\<rparr>, S')"
    "ds_inv S'" "held S' = held S" "free_blocks S' = free_blocks S \<union> (\<lambda>a. cn_data (cdn R a)) ` set cds"
    "pool_used pl = pool_used (cdn_pool R) - set cds"
    using dsrec_give_back_spec[of S "held S" "{}" None cds ?R] by auto
  have "dsrec_reclaim_round R S = Some (Some (?xs, ?R\<lparr>p_reclaiming_head := [],
      p_rec_nr := p_rec_nr R + length cds, cdn_pool := pl\<rparr>, S'))"
    using assms(3,4) g(1) rl.list_sort_sorts[of "cdn R" ?xs] fold_remove1_self[of cds cds]
    by (simp add: dsrec_reclaim_round_def Let_def cds_def[symmetric])
  moreover have "lru_inv (?R\<lparr>p_reclaiming_head := [], p_rec_nr := p_rec_nr R + length cds, cdn_pool := pl\<rparr>)"
    using assms(1) by (simp add: lru_inv_def lru_order_def cn_wgt_def)
  ultimately show ?thesis using g m by simp
qed

theorem dsrec_reclaim_frees_witness:
  "\<exists>S R R' S' a. ds_boot 128 = Some S \<and> p_to_reclaim_head R = [a] \<and>
     dsrec_reclaim_round R S = Some (Some ([a], R', S')) \<and> free_blocks S' = {..<128} \<union> {500}"
proof -
  obtain S c where S: "ds_boot 128 = Some S" "ds_inv S" "free_blocks S = {..<128}" by (rule ds_boot_128)
  obtain a p where p: "pool_inv p" "a \<in> pool_used p"
    using np.getE[OF pool_inv_init, of 4] by (metis insertI1)
  define R where "R = (dsrec_initialization p (\<lambda>_. \<lparr>cn_data = 500, cn_is_lru = False, cn_is_ondisk = True,
    cn_fp = replicate 32 0\<rparr>) (fpc_initialization FPC_MD5) 100)\<lparr>p_to_reclaim_head := [a]\<rparr>"
  have "lru_inv R" using fpc_ok_init[of FPC_MD5]
    by (simp add: R_def lru_inv_def dsrec_initialization_def lru_order_def)
  moreover have "reclaimable (p_to_reclaim_head R) (free_blocks S) R" "p_reclaiming_head R = []"
    using p S(3) by (simp_all add: R_def reclaimable_def dsrec_initialization_def DS_MAX_BLOCKS_def)
  moreover have ra: "p_to_reclaim_head R = [a]" "cn_data (cdn R a) = 500"
    by (simp_all add: R_def dsrec_initialization_def)
  ultimately obtain R' S' where "dsrec_reclaim_round R S = Some (Some ([a], R', S'))"
    "free_blocks S' = {..<128} \<union> {500}"
    using dsrec_reclaim_frees[of R S] S(2,3) by auto
  with S(1) ra(1) show ?thesis by (intro exI conjI)
qed

section \<open>Contiguous blocks\<close>

text \<open>A reference: every block goes back as an extent of its own.\<close>

fun dsrec_give_each ::
  "node_addr list \<Rightarrow> dsrec_private \<Rightarrow> ds_state \<Rightarrow> (dsrec_private \<times> ds_state) option" where
  "dsrec_give_each [] R S = Some (R, S)"
| "dsrec_give_each (cd_np # cds) R S =
     do {
       (b, S) \<leftarrow> dsrec_new_extent (cn_data (cdn R cd_np)) S;
       R \<leftarrow> dsrec_release cd_np R;
       S \<leftarrow> dsmgr_put_space b S;
       dsrec_give_each cds R S
     }"

lemma dsrec_release_cdn: "dsrec_release a R = Some R' \<Longrightarrow> cdn R' = cdn R"
  by (auto simp: dsrec_release_def cdn_put_node_def Let_def bind_eq_Some_conv)

lemma dsrec_new_extent_bsn: "dsrec_new_extent i S = Some (b, S') \<Longrightarrow> bsn_index (bsn S' b) = i \<and> bsn_size (bsn S' b) = 1"
  by (auto simp: dsrec_new_extent_def bind_eq_Some_conv)

lemma dsrec_give_back_each:
  assumes "sorted_wrt (\<lambda>a b. cn_data (cdn R b) < cn_data (cdn R a)) cds"
    and "\<And>b. bs_np = Some b \<Longrightarrow>
      bsn_size (bsn S b) = 1 \<and> (\<forall>a \<in> set cds. cn_data (cdn R a) < bsn_index (bsn S b))"
  shows "dsrec_give_back cds bs_np R S =
    Option.bind (case bs_np of None \<Rightarrow> Some S | Some b \<Rightarrow> dsmgr_put_space b S) (dsrec_give_each cds R)"
  using assms
proof (induction cds arbitrary: bs_np R S)
  case Nil
  then show ?case by (cases bs_np) simp_all
next
  case (Cons a cds)
  let ?i = "cn_data (cdn R a)"
  have "dsrec_extent ?i bs_np S =
      Option.bind (case bs_np of None \<Rightarrow> Some S | Some b \<Rightarrow> dsmgr_put_space b S) (dsrec_new_extent ?i)"
    using Cons.prems(2) by (cases bs_np) (auto simp: dsrec_extent_def)
  moreover have "dsrec_give_back cds (Some c) R1 T1 = Option.bind (dsmgr_put_space c T1) (dsrec_give_each cds R1)"
    if "dsrec_new_extent ?i T = Some (c, T1)" "dsrec_release a R = Some R1" for T c T1 R1
    using Cons.IH[of R1 "Some c" T1] Cons.prems(1) dsrec_new_extent_bsn[OF that(1)] dsrec_release_cdn[OF that(2)]
    by simp
  ultimately show ?case
    by (cases "case bs_np of None \<Rightarrow> Some S | Some b \<Rightarrow> dsmgr_put_space b S"; cases "dsrec_release a R")
      (auto split: Option.bind_splits)
qed

text \<open>C31. The thread never joins contiguous blocks: for distinct blocks it does what giving back every
  block as an extent of one block would do, because \<open>sort_cmp\<close> sorts in descending order and the loop
  only extends upwards.\<close>

theorem dsrec_reclaim_never_joins:
  assumes "inj_on (\<lambda>a. cn_data (cdn R a)) (set nodes)" and "distinct nodes"
  shows "\<exists>cds. list_sort (sort_cmp (cdn R)) nodes = Some cds \<and> set cds = set nodes \<and>
    dsrec_give_back cds None R S = dsrec_give_each cds R S"
proof -
  let ?cds = "sort_key (cn_key (cdn R)) nodes"
  have "inj_on (cn_key (cdn R)) (set nodes)" using assms(1) by (auto simp: inj_on_def)
  then have "distinct (map (cn_key (cdn R)) ?cds)" using assms(2) by (simp add: distinct_map)
  then have "sorted_wrt (<) (map (cn_key (cdn R)) ?cds)" by (simp add: strict_sorted_iff)
  then have "sorted_wrt (\<lambda>a b. cn_data (cdn R b) < cn_data (cdn R a)) ?cds" by (simp add: sorted_wrt_map)
  then show ?thesis
    using rl.list_sort_sorts[of "cdn R" nodes] dsrec_give_back_each[of R ?cds None S] by simp
qed

theorem dsrec_reclaim_never_joins_witness:
  "\<exists>R. cn_data (cdn R (Addr 0 5)) = 5 \<and> cn_data (cdn R (Addr 0 6)) = 6 \<and>
     (\<forall>S. \<exists>cds. list_sort (sort_cmp (cdn R)) [Addr 0 5, Addr 0 6] = Some cds \<and>
       dsrec_give_back cds None R S = dsrec_give_each cds R S)"
proof -
  let ?R = "dsrec_initialization (node_initialization 4)
    (\<lambda>a. \<lparr>cn_data = nh_idx a, cn_is_lru = False, cn_is_ondisk = True, cn_fp = []\<rparr>) (fpc_initialization FPC_MD5) 100"
  have d: "cn_data (cdn ?R a) = nh_idx a" for a by (simp add: dsrec_initialization_def)
  have "\<exists>cds. list_sort (sort_cmp (cdn ?R)) [Addr 0 5, Addr 0 6] = Some cds \<and>
      dsrec_give_back cds None ?R S = dsrec_give_each cds ?R S" for S
    using dsrec_reclaim_never_joins[of ?R "[Addr 0 5, Addr 0 6]" S] by (auto simp: d)
  with d show ?thesis by (intro exI[of _ ?R]) simp
qed

end
