(* ===== verification/Lck.thy ===== *)
theory Lck
  imports Nid_Prelude
begin

text \<open>
  The upgradable readers-writer lock \<open>lck.c\<close>. A lock node has a 16-bit count of readers and two busy
  flags; all locks of a module share one mutex and one condition variable. What a thread does between
  two waits is one function of the node, because the mutex is held. The threads are a state machine:
  a program counter for each thread and the set of threads that sleep in \<open>pthread_cond_wait\<close>; a
  broadcast wakes all of them, and a sleeping thread may also wake spuriously.
\<close>

section \<open>The critical sections\<close>

record lck_node =
  ln_rcounter :: u16
  ln_wbusy :: bool
  ln_ubusy :: bool

definition lck_node_init :: lck_node where
  "lck_node_init = \<lparr>ln_rcounter = 0, ln_wbusy = False, ln_ubusy = False\<rparr>"

text \<open>\<open>None\<close> is a wait.\<close>

definition lck_rlock :: "lck_node \<Rightarrow> lck_node option" where
  "lck_rlock n = (if ln_wbusy n \<or> ln_ubusy n then None else Some (n\<lparr>ln_rcounter := ln_rcounter n + 1\<rparr>))"

text \<open>The flag of the result tells whether it broadcasts.\<close>

definition lck_runlock :: "lck_node \<Rightarrow> lck_node \<times> bool" where
  "lck_runlock n =
     (let n = n\<lparr>ln_rcounter := ln_rcounter n - 1\<rparr> in
      (n, (ln_rcounter n = 0 \<and> ln_wbusy n) \<or> (ln_rcounter n = 1 \<and> ln_ubusy n)))"

definition lck_wlock_claim :: "lck_node \<Rightarrow> lck_node option" where
  "lck_wlock_claim n = (if ln_wbusy n then None else Some (n\<lparr>ln_wbusy := True\<rparr>))"

definition lck_wlock_drained :: "lck_node \<Rightarrow> bool" where
  "lck_wlock_drained n \<longleftrightarrow> ln_rcounter n = 0"

definition lck_wunlock :: "lck_node \<Rightarrow> lck_node" where
  "lck_wunlock n = n\<lparr>ln_wbusy := False\<rparr>"

text \<open>\<open>None\<close> is the failed assertion: only one thread may upgrade.\<close>

definition lck_uplock_claim :: "lck_node \<Rightarrow> lck_node option" where
  "lck_uplock_claim n = do { c_assert (\<not> ln_ubusy n); Some (n\<lparr>ln_ubusy := True\<rparr>) }"

definition lck_uplock_drained :: "lck_node \<Rightarrow> bool" where
  "lck_uplock_drained n \<longleftrightarrow> \<not> ln_rcounter n > 1"

definition lck_downlock :: "lck_node \<Rightarrow> lck_node" where
  "lck_downlock n = n\<lparr>ln_ubusy := False\<rparr>"

lemmas lck_defs = lck_rlock_def lck_runlock_def lck_wlock_claim_def lck_wlock_drained_def lck_wunlock_def
  lck_uplock_claim_def lck_uplock_drained_def lck_downlock_def

section \<open>Threads\<close>

datatype lck_pc = Out | RWait | Reader | WWait | WDrain | Writer | UDrain | Upgraded

record lck_sys =
  node :: lck_node
  pc :: "nat \<Rightarrow> lck_pc"
  asleep :: "nat set"

definition lck_init :: lck_sys where
  "lck_init = \<lparr>node = lck_node_init, pc = (\<lambda>_. Out), asleep = {}\<rparr>"

definition goto :: "nat \<Rightarrow> lck_pc \<Rightarrow> lck_sys \<Rightarrow> lck_sys" where
  "goto t c S = S\<lparr>pc := (pc S)(t := c)\<rparr>"

definition cond_wait :: "nat \<Rightarrow> lck_pc \<Rightarrow> lck_sys \<Rightarrow> lck_sys" where
  "cond_wait t c S = S\<lparr>pc := (pc S)(t := c), asleep := insert t (asleep S)\<rparr>"

definition broadcast :: "lck_sys \<Rightarrow> lck_sys" where
  "broadcast S = S\<lparr>asleep := {}\<rparr>"

definition rlock_turn :: "nat \<Rightarrow> lck_sys \<Rightarrow> lck_sys" where
  "rlock_turn t S =
     (case lck_rlock (node S) of
        None \<Rightarrow> cond_wait t RWait S
      | Some n \<Rightarrow> goto t Reader (S\<lparr>node := n\<rparr>))"

definition runlock_turn :: "nat \<Rightarrow> lck_sys \<Rightarrow> lck_sys" where
  "runlock_turn t S =
     (let (n, wake) = lck_runlock (node S); S = goto t Out (S\<lparr>node := n\<rparr>)
      in if wake then broadcast S else S)"

definition wdrain_turn :: "nat \<Rightarrow> lck_sys \<Rightarrow> lck_sys" where
  "wdrain_turn t S = (if lck_wlock_drained (node S) then goto t Writer S else cond_wait t WDrain S)"

definition wlock_turn :: "nat \<Rightarrow> lck_sys \<Rightarrow> lck_sys" where
  "wlock_turn t S =
     (case lck_wlock_claim (node S) of
        None \<Rightarrow> cond_wait t WWait S
      | Some n \<Rightarrow> wdrain_turn t (S\<lparr>node := n\<rparr>))"

definition wunlock_turn :: "nat \<Rightarrow> lck_sys \<Rightarrow> lck_sys" where
  "wunlock_turn t S = broadcast (goto t Out (S\<lparr>node := lck_wunlock (node S)\<rparr>))"

definition udrain_turn :: "nat \<Rightarrow> lck_sys \<Rightarrow> lck_sys" where
  "udrain_turn t S = (if lck_uplock_drained (node S) then goto t Upgraded S else cond_wait t UDrain S)"

definition downlock_turn :: "nat \<Rightarrow> lck_sys \<Rightarrow> lck_sys" where
  "downlock_turn t S = broadcast (goto t Reader (S\<lparr>node := lck_downlock (node S)\<rparr>))"

text \<open>The turns of \<open>m\<close> threads. A thread that is not asleep enters an operation or tests its condition
  again. An upgrade needs the read lock.\<close>

inductive lck_step :: "nat \<Rightarrow> lck_sys \<Rightarrow> lck_sys \<Rightarrow> bool" for m where
  rlock: "t < m \<Longrightarrow> t \<notin> asleep S \<Longrightarrow> pc S t = Out \<or> pc S t = RWait \<Longrightarrow> lck_step m S (rlock_turn t S)"
| runlock: "pc S t = Reader \<Longrightarrow> lck_step m S (runlock_turn t S)"
| wlock: "t < m \<Longrightarrow> t \<notin> asleep S \<Longrightarrow> pc S t = Out \<or> pc S t = WWait \<Longrightarrow> lck_step m S (wlock_turn t S)"
| wdrain: "t \<notin> asleep S \<Longrightarrow> pc S t = WDrain \<Longrightarrow> lck_step m S (wdrain_turn t S)"
| wunlock: "pc S t = Writer \<Longrightarrow> lck_step m S (wunlock_turn t S)"
| uplock: "pc S t = Reader \<Longrightarrow> lck_uplock_claim (node S) = Some n \<Longrightarrow>
    lck_step m S (udrain_turn t (S\<lparr>node := n\<rparr>))"
| udrain: "t \<notin> asleep S \<Longrightarrow> pc S t = UDrain \<Longrightarrow> lck_step m S (udrain_turn t S)"
| downlock: "pc S t = Upgraded \<Longrightarrow> lck_step m S (downlock_turn t S)"
| wake: "t \<in> asleep S \<Longrightarrow> lck_step m S (S\<lparr>asleep := asleep S - {t}\<rparr>)"

inductive lck_reach :: "nat \<Rightarrow> lck_sys \<Rightarrow> bool" for m where
  init: "lck_reach m lck_init"
| step: "lck_reach m S \<Longrightarrow> lck_step m S S' \<Longrightarrow> lck_reach m S'"

lemmas turn_defs = rlock_turn_def runlock_turn_def wdrain_turn_def wlock_turn_def wunlock_turn_def
  udrain_turn_def downlock_turn_def goto_def cond_wait_def broadcast_def

section \<open>Invariant\<close>

definition readers :: "lck_sys \<Rightarrow> nat set" where
  "readers S = {t. pc S t \<in> {Reader, UDrain, Upgraded}}"

definition must_wait :: "lck_node \<Rightarrow> lck_pc \<Rightarrow> bool" where
  "must_wait n c =
     (case c of
        RWait \<Rightarrow> ln_wbusy n \<or> ln_ubusy n
      | WWait \<Rightarrow> ln_wbusy n
      | WDrain \<Rightarrow> ln_rcounter n \<noteq> 0
      | UDrain \<Rightarrow> ln_rcounter n > 1
      | _ \<Rightarrow> False)"

definition writers :: "lck_sys \<Rightarrow> nat set" where
  "writers S = {t. pc S t \<in> {WDrain, Writer}}"

definition uppers :: "lck_sys \<Rightarrow> nat set" where
  "uppers S = {t. pc S t \<in> {UDrain, Upgraded}}"

definition lck_inv :: "nat \<Rightarrow> lck_sys \<Rightarrow> bool" where
  "lck_inv m S \<longleftrightarrow>
     (\<forall>t. pc S t \<noteq> Out \<longrightarrow> t < m) \<and>
     unat (ln_rcounter (node S)) = card (readers S) \<and>
     (\<forall>t \<in> writers S. \<forall>u \<in> writers S. t = u) \<and> (ln_wbusy (node S) \<longleftrightarrow> writers S \<noteq> {}) \<and>
     (\<forall>t \<in> uppers S. \<forall>u \<in> uppers S. t = u) \<and> (ln_ubusy (node S) \<longleftrightarrow> uppers S \<noteq> {}) \<and>
     (\<forall>t. pc S t = Writer \<longrightarrow> readers S = {}) \<and>
     (\<forall>t. pc S t = Upgraded \<longrightarrow> readers S = {t}) \<and>
     (\<forall>t \<in> asleep S. must_wait (node S) (pc S t))"

lemma lck_invD:
  assumes "lck_inv m S"
  shows "pc S t \<noteq> Out \<Longrightarrow> t < m" "unat (ln_rcounter (node S)) = card (readers S)"
    "t \<in> writers S \<Longrightarrow> u \<in> writers S \<Longrightarrow> t = u" "ln_wbusy (node S) \<longleftrightarrow> writers S \<noteq> {}"
    "t \<in> uppers S \<Longrightarrow> u \<in> uppers S \<Longrightarrow> t = u" "ln_ubusy (node S) \<longleftrightarrow> uppers S \<noteq> {}"
    "pc S t = Writer \<Longrightarrow> readers S = {}" "pc S t = Upgraded \<Longrightarrow> readers S = {t}"
    "t \<in> asleep S \<Longrightarrow> must_wait (node S) (pc S t)"
  using assms unfolding lck_inv_def by (elim conjE; simp; blast)+

lemma lck_invI:
  assumes "\<And>t. pc S t \<noteq> Out \<Longrightarrow> t < m" "unat (ln_rcounter (node S)) = card (readers S)"
    "\<And>t u. t \<in> writers S \<Longrightarrow> u \<in> writers S \<Longrightarrow> t = u" "ln_wbusy (node S) \<longleftrightarrow> writers S \<noteq> {}"
    "\<And>t u. t \<in> uppers S \<Longrightarrow> u \<in> uppers S \<Longrightarrow> t = u" "ln_ubusy (node S) \<longleftrightarrow> uppers S \<noteq> {}"
    "\<And>t. pc S t = Writer \<Longrightarrow> readers S = {}" "\<And>t. pc S t = Upgraded \<Longrightarrow> readers S = {t}"
    "\<And>t. t \<in> asleep S \<Longrightarrow> must_wait (node S) (pc S t)"
  shows "lck_inv m S"
  using assms unfolding lck_inv_def by blast

lemma readers_finite: assumes "lck_inv m S" shows "finite (readers S)" "card (readers S) \<le> m"
proof -
  have "readers S \<subseteq> {..<m}" using lck_invD(1)[OF assms] by (fastforce simp: readers_def)
  then show "finite (readers S)" "card (readers S) \<le> m"
    using finite_subset card_mono[of "{..<m}" "readers S"] by auto
qed

lemma count_facts:
  assumes "unat (rc :: u16) = card A" "finite A"
  shows "rc = 0 \<longleftrightarrow> A = {}" "rc > 1 \<longleftrightarrow> card A > 1" "rc = 1 \<longleftrightarrow> card A = 1"
proof -
  show "rc = 0 \<longleftrightarrow> A = {}" using assms by (metis card_0_eq unat_eq_zero)
  show "rc > 1 \<longleftrightarrow> card A > 1" using assms by (simp add: word_less_nat_alt)
  show "rc = 1 \<longleftrightarrow> card A = 1" using assms by (metis unat_1 word_unat_eq_iff)
qed

lemma thread_sel [simp]:
  "node (goto t c S) = node S" "pc (goto t c S) = (pc S)(t := c)" "asleep (goto t c S) = asleep S"
  "node (cond_wait t c S) = node S" "pc (cond_wait t c S) = (pc S)(t := c)"
  "asleep (cond_wait t c S) = insert t (asleep S)"
  "node (broadcast S) = node S" "pc (broadcast S) = pc S" "asleep (broadcast S) = {}"
  by (simp_all add: goto_def cond_wait_def broadcast_def)

lemma thread_sets [simp]:
  "readers (S\<lparr>node := n\<rparr>) = readers S" "readers (S\<lparr>asleep := A\<rparr>) = readers S" "readers (broadcast S) = readers S"
  "writers (S\<lparr>node := n\<rparr>) = writers S" "writers (S\<lparr>asleep := A\<rparr>) = writers S" "writers (broadcast S) = writers S"
  "uppers (S\<lparr>node := n\<rparr>) = uppers S" "uppers (S\<lparr>asleep := A\<rparr>) = uppers S" "uppers (broadcast S) = uppers S"
  "readers (goto t c S) = (if c \<in> {Reader, UDrain, Upgraded} then insert t (readers S) else readers S - {t})"
  "writers (goto t c S) = (if c \<in> {WDrain, Writer} then insert t (writers S) else writers S - {t})"
  "uppers (goto t c S) = (if c \<in> {UDrain, Upgraded} then insert t (uppers S) else uppers S - {t})"
  "readers (cond_wait t c S) = (if c \<in> {Reader, UDrain, Upgraded} then insert t (readers S) else readers S - {t})"
  "writers (cond_wait t c S) = (if c \<in> {WDrain, Writer} then insert t (writers S) else writers S - {t})"
  "uppers (cond_wait t c S) = (if c \<in> {UDrain, Upgraded} then insert t (uppers S) else uppers S - {t})"
  by (auto simp: readers_def writers_def uppers_def)

lemma thread_in:
  "pc S t = c \<Longrightarrow> t \<in> readers S \<longleftrightarrow> c \<in> {Reader, UDrain, Upgraded}"
  "pc S t = c \<Longrightarrow> t \<in> writers S \<longleftrightarrow> c \<in> {WDrain, Writer}"
  "pc S t = c \<Longrightarrow> t \<in> uppers S \<longleftrightarrow> c \<in> {UDrain, Upgraded}"
  by (auto simp: readers_def writers_def uppers_def)

lemma thread_inE:
  "pc S u = Writer \<Longrightarrow> u \<in> writers S" "pc S u = Upgraded \<Longrightarrow> u \<in> uppers S"
  by (auto simp: writers_def uppers_def)

lemma must_wait_simps [simp]:
  "must_wait n RWait \<longleftrightarrow> ln_wbusy n \<or> ln_ubusy n" "must_wait n WWait \<longleftrightarrow> ln_wbusy n"
  "must_wait n WDrain \<longleftrightarrow> ln_rcounter n \<noteq> 0" "must_wait n UDrain \<longleftrightarrow> ln_rcounter n > 1"
  "\<not> must_wait n Out" "\<not> must_wait n Reader" "\<not> must_wait n Writer" "\<not> must_wait n Upgraded"
  by (simp_all add: must_wait_def)

lemma idle_no_sleep:
  assumes inv: "lck_inv m S" and "\<not> ln_wbusy (node S)" "\<not> ln_ubusy (node S)"
  shows "asleep S = {}"
proof -
  have "writers S = {}" "uppers S = {}" using lck_invD(4,6)[OF inv] assms(2,3) by simp_all
  then have "pc S u \<notin> {WDrain, UDrain}" for u by (auto simp: writers_def uppers_def)
  then have "\<not> must_wait (node S) (pc S u)" for u using assms(2,3) by (cases "pc S u") auto
  then show ?thesis using lck_invD(9)[OF inv] by blast
qed

lemma rlock_inv:
  assumes inv: "lck_inv m S" and m: "m < 65536" and t: "t < m" "t \<notin> asleep S" "pc S t = Out \<or> pc S t = RWait"
  shows "lck_inv m (rlock_turn t S)"
proof -
  note D = lck_invD[OF inv]
  have nin: "t \<notin> readers S" "t \<notin> writers S" "t \<notin> uppers S" using t(3) thread_in[of S t] by auto
  show ?thesis
  proof (cases "ln_wbusy (node S) \<or> ln_ubusy (node S)")
    case True
    then show ?thesis
      unfolding lck_inv_def using D t nin by (auto simp: rlock_turn_def lck_rlock_def)
  next
    case False
    have "card (readers S) < m"
    proof -
      have "readers S \<subseteq> {..<m} - {t}" using D(1) nin by (fastforce simp: readers_def)
      then have "card (readers S) \<le> card ({..<m} - {t})" by (intro card_mono) auto
      then show ?thesis using t(1) by simp
    qed
    then have "unat (ln_rcounter (node S) + 1) = Suc (card (readers S))"
      using D(2) m by (simp add: unat_word_ariths)
    moreover have "asleep S = {}" using idle_no_sleep[OF inv] False by simp
    moreover have "pc S u \<noteq> Writer" "pc S u \<noteq> Upgraded" for u
      using False D(4,6) thread_inE[of S u] by auto
    moreover have "rlock_turn t S = goto t Reader (S\<lparr>node := (node S)\<lparr>ln_rcounter := ln_rcounter (node S) + 1\<rparr>\<rparr>)"
      using False by (simp add: rlock_turn_def lck_rlock_def)
    ultimately show ?thesis
      using D(1-6) t nin readers_finite(1)[OF inv] by (intro lck_invI) (simp_all split: if_splits)
  qed
qed

lemma runlock_inv:
  assumes inv: "lck_inv m S" and t: "pc S t = Reader"
  shows "lck_inv m (runlock_turn t S)"
proof -
  note D = lck_invD[OF inv]
  let ?rc = "ln_rcounter (node S) - 1"
  have fin: "finite (readers S)" by (rule readers_finite[OF inv])
  have tin: "t \<in> readers S" "t \<notin> writers S" "t \<notin> uppers S" using t thread_in[of S t] by auto
  have nz: "ln_rcounter (node S) \<noteq> 0" using count_facts(1)[OF D(2) fin] tin by auto
  then have u: "unat ?rc = card (readers S) - 1" using D(2) by (simp add: unat_minus_one)
  then have u': "unat ?rc = card (readers S - {t})" using tin fin by simp
  note C = count_facts[OF u'] 
  let ?wake = "(?rc = 0 \<and> ln_wbusy (node S)) \<or> (?rc = 1 \<and> ln_ubusy (node S))"
  have noU: "pc S v \<noteq> Upgraded" "pc S v \<noteq> Writer" for v
    using D(8)[of v] D(7)[of v] tin thread_in[of S v] t by auto
  have sl: "must_wait (node S\<lparr>ln_rcounter := ?rc\<rparr>) (pc S v)" if v: "v \<in> asleep S" and nw: "\<not> ?wake" for v
  proof (cases "pc S v")
    case WDrain
    then have "writers S \<noteq> {}" by (auto simp: writers_def)
    then show ?thesis using WDrain nw D(4) by simp
  next
    case UDrain
    then have up: "v \<in> uppers S" by (simp add: uppers_def)
    then have "ln_ubusy (node S)" using D(6) by auto
    then have "?rc \<noteq> 1" using nw by simp
    then have "unat ?rc \<noteq> 1" by (metis unat_1 word_unat_eq_iff)
    moreover have "1 < ln_rcounter (node S)" using D(9)[OF v] UDrain by simp
    ultimately have "1 < unat ?rc" using u D(2) by (simp add: word_less_nat_alt)
    then show ?thesis using UDrain by (simp add: word_less_nat_alt)
  qed (use D(9)[OF v] in simp_all)
  have asl: "t \<notin> asleep S" using D(9)[of t] t by auto
  have eq: "runlock_turn t S = (let S = goto t Out (S\<lparr>node := (node S)\<lparr>ln_rcounter := ?rc\<rparr>\<rparr>)
      in if ?wake then broadcast S else S)"
    unfolding runlock_turn_def lck_runlock_def Let_def by simp
  show ?thesis
    unfolding eq Let_def
  proof (rule lck_invI, goal_cases)
    case (3 v w) then show ?case using D(3)[of v w] by (simp split: if_splits)
  next
    case (5 v w) then show ?case using D(5)[of v w] by (simp split: if_splits)
  next
    case (9 v) then show ?case using sl[of v] asl by (auto split: if_splits)
  qed (use D(1,4,6) tin noU u' in \<open>auto split: if_splits\<close>)
qed

lemma wdrain_inv:
  assumes inv: "lck_inv m S" and t: "t \<notin> asleep S" "pc S t = WDrain"
  shows "lck_inv m (wdrain_turn t S)"
proof -
  note D = lck_invD[OF inv]
  have tin: "t \<in> writers S" "t \<notin> readers S" "t \<notin> uppers S" using t(2) thread_in[of S t] by auto
  have W: "writers S = {t}" using D(3)[OF tin(1)] tin(1) by blast
  have only: "u \<noteq> t \<Longrightarrow> pc S u \<noteq> Writer" for u using W thread_inE(1)[of S u] by auto
  have C: "ln_rcounter (node S) = 0 \<longleftrightarrow> readers S = {}" by (rule count_facts(1)[OF D(2) readers_finite(1)[OF inv]])
  show ?thesis
    unfolding wdrain_turn_def lck_wlock_drained_def
  proof (rule lck_invI, goal_cases)
    case (5 v w) then show ?case using D(5)[of v w] by (simp split: if_splits)
  next
    case (8 v) then show ?case using D(8)[of v] t by (simp split: if_splits)
  next
    case (9 v) then show ?case using D(9)[of v] t by (auto split: if_splits)
  qed (use D(1,2,4,6) t tin W only C in \<open>auto split: if_splits\<close>)
qed

lemma wlock_inv:
  assumes inv: "lck_inv m S" and t: "t < m" "t \<notin> asleep S" "pc S t = Out \<or> pc S t = WWait"
  shows "lck_inv m (wlock_turn t S)"
proof (cases "ln_wbusy (node S)")
  case True
  note D = lck_invD[OF inv]
  have nin: "t \<notin> readers S" "t \<notin> writers S" "t \<notin> uppers S" using t(3) thread_in[of S t] by auto
  have eq: "wlock_turn t S = cond_wait t WWait S" using True by (simp add: wlock_turn_def lck_wlock_claim_def)
  show ?thesis
    unfolding eq
  proof (rule lck_invI, goal_cases)
    case (3 v w) then show ?case using D(3)[of v w] by (simp split: if_splits)
  next
    case (5 v w) then show ?case using D(5)[of v w] by (simp split: if_splits)
  next
    case (7 v) then show ?case using D(7)[of v] nin by (simp split: if_splits)
  next
    case (8 v) then show ?case using D(8)[of v] nin by (simp split: if_splits)
  next
    case (9 v) then show ?case using D(9)[of v] True by (auto split: if_splits)
  qed (use D(1,2,4,6) t nin in \<open>auto split: if_splits\<close>)
next
  case False
  note D = lck_invD[OF inv]
  let ?S = "goto t WDrain (S\<lparr>node := (node S)\<lparr>ln_wbusy := True\<rparr>\<rparr>)"
  have nin: "t \<notin> readers S" "t \<notin> uppers S" using t(3) thread_in[of S t] by auto
  have W: "writers S = {}" using D(4) False by simp
  then have noW: "pc S u \<noteq> Writer" for u using thread_inE(1)[of S u] by auto
  have "lck_inv m ?S"
  proof (rule lck_invI, goal_cases)
    case (5 v w) then show ?case using D(5)[of v w] nin by (simp split: if_splits)
  next
    case (8 v) then show ?case using D(8)[of v] nin by (simp split: if_splits)
  next
    case (9 v) then show ?case using D(9)[of v] t(2) by (cases "pc S v") (auto split: if_splits)
  qed (use D(1,2,6) t nin W noW in \<open>auto split: if_splits\<close>)
  then have "lck_inv m (wdrain_turn t ?S)" by (rule wdrain_inv) (use t in simp_all)
  moreover have "wlock_turn t S = wdrain_turn t ?S"
    using False by (simp add: wlock_turn_def lck_wlock_claim_def wdrain_turn_def goto_def cond_wait_def lck_wlock_drained_def)
  ultimately show ?thesis by simp
qed

lemma wunlock_inv:
  assumes inv: "lck_inv m S" and t: "pc S t = Writer"
  shows "lck_inv m (wunlock_turn t S)"
proof -
  note D = lck_invD[OF inv]
  have W: "writers S = {t}" using D(3)[of t] thread_inE(1)[OF t] by blast
  have only: "u \<noteq> t \<Longrightarrow> pc S u \<noteq> Writer" for u using W thread_inE(1)[of S u] by auto
  have R: "readers S = {}" by (rule D(7)[OF t])
  then have U: "uppers S = {}" by (auto simp: readers_def uppers_def)
  have noU: "pc S u \<noteq> Upgraded" for u using U thread_inE(2)[of S u] by auto
  show ?thesis
    unfolding wunlock_turn_def lck_wunlock_def
    by (rule lck_invI) (use D(1,2,6) W only R U noU in \<open>auto split: if_splits\<close>)
qed

lemma udrain_inv:
  assumes inv: "lck_inv m S" and t: "t \<notin> asleep S" "pc S t = UDrain"
  shows "lck_inv m (udrain_turn t S)"
proof -
  note D = lck_invD[OF inv]
  have tin: "t \<notin> writers S" "t \<in> readers S" "t \<in> uppers S" using t(2) thread_in[of S t] by auto
  have U: "uppers S = {t}" using D(5)[OF tin(3)] tin(3) by blast
  have only: "u \<noteq> t \<Longrightarrow> pc S u \<noteq> Upgraded" for u using U thread_inE(2)[of S u] by auto
  have fin: "finite (readers S)" by (rule readers_finite[OF inv])
  have C: "ln_rcounter (node S) > 1 \<longleftrightarrow> card (readers S) > 1" by (rule count_facts(2)[OF D(2) fin])
  have one: "\<not> card (readers S) > 1 \<Longrightarrow> readers S = {t}"
    using tin(2) fin by (metis card_1_singletonE card_gt_0_iff empty_iff less_one nat_neq_iff singletonD)
  have noW: "pc S u \<noteq> Writer" for u using D(7)[of u] tin(2) by auto
  show ?thesis
    unfolding udrain_turn_def lck_uplock_drained_def
  proof (rule lck_invI, goal_cases)
    case (3 v w) then show ?case using D(3)[of v w] by (simp split: if_splits)
  next
    case (8 v) then show ?case using one only[of v] C by (simp split: if_splits)
  next
    case (9 v) then show ?case using D(9)[of v] t by (auto split: if_splits)
  qed (use D(1,2,4,6) t tin U noW in \<open>auto simp: insert_absorb split: if_splits\<close>)
qed

lemma uplock_inv:
  assumes inv: "lck_inv m S" and t: "pc S t = Reader" "lck_uplock_claim (node S) = Some n"
  shows "lck_inv m (udrain_turn t (S\<lparr>node := n\<rparr>))"
proof -
  note D = lck_invD[OF inv]
  have n: "\<not> ln_ubusy (node S)" "n = (node S)\<lparr>ln_ubusy := True\<rparr>" using t(2) by (auto simp: lck_uplock_claim_def)
  let ?S = "goto t UDrain (S\<lparr>node := n\<rparr>)"
  have tin: "t \<notin> writers S" "t \<in> readers S" using t(1) thread_in[of S t] by auto
  have U: "uppers S = {}" using D(6) n(1) by simp
  have noU: "pc S u \<noteq> Upgraded" "pc S u \<noteq> Writer" for u using U thread_inE(2)[of S u] D(7)[of u] tin(2) by auto
  have asl: "t \<notin> asleep S" using D(9)[of t] t(1) by auto
  have "lck_inv m ?S"
  proof (rule lck_invI, goal_cases)
    case (3 v w) then show ?case using D(3)[of v w] by (simp split: if_splits)
  next
    case (9 v) then show ?case using D(9)[of v] asl n by (cases "pc S v") (auto split: if_splits)
  qed (use D(1,2,4) t(1) n tin U noU in \<open>auto simp: insert_absorb split: if_splits\<close>)
  then have "lck_inv m (udrain_turn t ?S)" by (rule udrain_inv) (use asl in simp_all)
  moreover have "udrain_turn t ?S = udrain_turn t (S\<lparr>node := n\<rparr>)"
    by (simp add: udrain_turn_def goto_def cond_wait_def)
  ultimately show ?thesis by simp
qed

lemma downlock_inv:
  assumes inv: "lck_inv m S" and t: "pc S t = Upgraded"
  shows "lck_inv m (downlock_turn t S)"
proof -
  note D = lck_invD[OF inv]
  have U: "uppers S = {t}" using D(5)[of t] thread_inE(2)[OF t] by blast
  have R: "readers S = {t}" by (rule D(8)[OF t])
  have only: "u \<noteq> t \<Longrightarrow> pc S u \<noteq> Upgraded" "pc S u \<noteq> Writer" for u using U thread_inE(2)[of S u] D(7)[of u] R by auto
  have tin: "t \<notin> writers S" using t thread_in[of S t] by auto
  show ?thesis
    unfolding downlock_turn_def lck_downlock_def
  proof (rule lck_invI, goal_cases)
    case (3 v w) then show ?case using D(3)[of v w] by (simp split: if_splits)
  qed (use D(1,2,4) t U R only tin in \<open>auto split: if_splits\<close>)
qed

lemma lck_step_inv:
  assumes "lck_step m S S'" "lck_inv m S" "m < 65536"
  shows "lck_inv m S'"
  using assms
proof (induction rule: lck_step.induct)
  case (wake t S)
  then show ?case by (simp add: lck_inv_def)
qed (simp_all add: rlock_inv runlock_inv wlock_inv wdrain_inv wunlock_inv uplock_inv udrain_inv downlock_inv)

lemma lck_reach_inv: "lck_reach m S \<Longrightarrow> m < 65536 \<Longrightarrow> lck_inv m S"
proof (induction rule: lck_reach.induct)
  case init
  show ?case by (simp add: lck_inv_def lck_init_def lck_node_init_def readers_def writers_def uppers_def)
next
  case (step S S')
  then show ?case by (blast intro: lck_step_inv)
qed

section \<open>Properties\<close>

text \<open>C26. Mutual exclusion: with fewer than 65536 threads, in every reachable state a writer is alone, and
  an upgraded reader is the only thread that holds the lock in any way.\<close>

theorem lck_exclusion:
  assumes "lck_reach m S" and "m < 65536" and "pc S t = Writer \<or> pc S t = Upgraded" and "u \<noteq> t"
  shows "pc S u \<notin> {Reader, UDrain, Upgraded, Writer}"
proof -
  note D = lck_invD[OF lck_reach_inv[OF assms(1,2)]]
  have u: "pc S u \<in> {Reader, UDrain, Upgraded} \<Longrightarrow> u \<in> readers S" by (simp add: readers_def)
  from assms(3) show ?thesis
  proof
    assume t: "pc S t = Writer"
    have "pc S u \<noteq> Writer" using D(3)[of t u] thread_inE(1)[OF t] thread_inE(1)[of S u] assms(4) by blast
    with u D(7)[OF t] show ?thesis by auto
  next
    assume t: "pc S t = Upgraded"
    then have R: "readers S = {t}" by (rule D(8))
    have "pc S u \<noteq> Writer" using D(7)[of u] R by auto
    with u R assms(4) show ?thesis by auto
  qed
qed

text \<open>Thread 0 takes the read lock, thread 1 asks for the write lock and sleeps.\<close>

lemma lck_run_two: "lck_reach 2 (wlock_turn 1 (rlock_turn 0 lck_init))"
  by (intro lck_reach.step[OF lck_reach.step[OF lck_reach.init lck_step.rlock] lck_step.wlock])
    (simp_all add: lck_init_def rlock_turn_def lck_rlock_def lck_node_init_def)

lemma lck_run_writer: "lck_reach 2 (wlock_turn 1 lck_init)"
  by (intro lck_reach.step[OF lck_reach.init lck_step.wlock]) (simp_all add: lck_init_def)

theorem lck_exclusion_witness:
  "pc (wlock_turn 1 lck_init) 1 = Writer \<and> pc (wlock_turn 1 lck_init) 0 \<notin> {Reader, UDrain, Upgraded, Writer}"
proof -
  have "pc (wlock_turn 1 lck_init) 1 = Writer"
    by (simp add: wlock_turn_def wdrain_turn_def lck_init_def lck_node_init_def lck_wlock_claim_def lck_wlock_drained_def)
  with lck_exclusion[OF lck_run_writer, of 1 0] show ?thesis by simp
qed

text \<open>C27. No wake-up is lost: in every reachable state, a thread that sleeps on the condition variable
  has a reason to, its condition is still false. So the conditions under which \<open>lck_runlock\<close>
  broadcasts are enough.\<close>

theorem lck_no_lost_wakeup:
  assumes "lck_reach m S" and "m < 65536" and "t \<in> asleep S"
  shows "must_wait (node S) (pc S t)"
  using lck_invD(9)[OF lck_reach_inv[OF assms(1,2)] assms(3)] .

theorem lck_no_lost_wakeup_witness:
  "must_wait (node (wlock_turn 1 (rlock_turn 0 lck_init))) (pc (wlock_turn 1 (rlock_turn 0 lck_init)) 1)"
proof -
  have "1 \<in> asleep (wlock_turn 1 (rlock_turn 0 lck_init))"
    by (simp add: wlock_turn_def wdrain_turn_def lck_init_def lck_node_init_def rlock_turn_def lck_defs)
  with lck_no_lost_wakeup[OF lck_run_two] show ?thesis by simp
qed

text \<open>C28. The lock does not deadlock: whenever a thread sleeps, some thread holds the lock, for reading, for writing or upgraded, and so can
  give it back; or some thread is awake in the second loop of \<open>lck_wlock\<close> or in the loop of \<open>lck_uplock\<close>, and its next test
  succeeds and gives it the lock.\<close>

theorem lck_deadlock_free:
  assumes "lck_reach m S" and "m < 65536" and "t \<in> asleep S"
  shows "\<exists>u. pc S u \<in> {Reader, Writer, Upgraded} \<or>
    u \<notin> asleep S \<and> (pc S u = WDrain \<and> pc (wdrain_turn u S) u = Writer \<or> pc S u = UDrain \<and> pc (udrain_turn u S) u = Upgraded)"
proof (rule ccontr)
  note I = lck_reach_inv[OF assms(1,2)]
  note D = lck_invD[OF I]
  note C = count_facts[OF D(2) readers_finite(1)[OF I]]
  assume no: "\<not> ?thesis"
  then have ru: "readers S = uppers S" by (auto simp: readers_def uppers_def)
  then have "card (readers S) \<le> 1" using D(5) by (metis card_1_singletonE card.empty card_eq_0_iff is_singletonI' is_singleton_altdef le_refl zero_le)
  then have le: "\<not> ln_rcounter (node S) > 1" using C(2) by simp
  have up: False if "v \<in> uppers S" for v
  proof -
    have v: "pc S v = UDrain" using that no by (auto simp: uppers_def)
    then have "v \<notin> asleep S" using D(9)[of v] le by auto
    moreover have "pc (udrain_turn v S) v = Upgraded" using le by (simp add: udrain_turn_def lck_uplock_drained_def)
    ultimately show False using no v by blast
  qed
  then have rd: "ln_rcounter (node S) = 0" using C(1) ru by blast
  have wr: False if "v \<in> writers S" for v
  proof -
    have v: "pc S v = WDrain" using that no by (auto simp: writers_def)
    then have "v \<notin> asleep S" using D(9)[of v] rd by auto
    moreover have "pc (wdrain_turn v S) v = Writer" using rd by (simp add: wdrain_turn_def lck_wlock_drained_def)
    ultimately show False using no v by blast
  qed
  have "must_wait (node S) (pc S t)" by (rule D(9)[OF assms(3)])
  then have "pc S t \<in> {WDrain, UDrain} \<or> writers S \<noteq> {} \<or> uppers S \<noteq> {}"
    using D(4,6) by (cases "pc S t") auto
  then show False using up wr by (auto simp: writers_def uppers_def)
qed

theorem lck_deadlock_free_witness:
  "1 \<in> asleep (wlock_turn 1 (rlock_turn 0 lck_init)) \<and> (\<exists>u. let S = wlock_turn 1 (rlock_turn 0 lck_init) in
     pc S u \<in> {Reader, Writer, Upgraded} \<or>
     u \<notin> asleep S \<and> (pc S u = WDrain \<and> pc (wdrain_turn u S) u = Writer \<or> pc S u = UDrain \<and> pc (udrain_turn u S) u = Upgraded))"
proof -
  have "1 \<in> asleep (wlock_turn 1 (rlock_turn 0 lck_init))"
    by (simp add: wlock_turn_def wdrain_turn_def lck_init_def lck_node_init_def rlock_turn_def lck_defs)
  with lck_deadlock_free[OF lck_run_two] show ?thesis by (simp add: Let_def)
qed

text \<open>The bound on the threads is needed: the reader that makes 65536 wraps the 16-bit count to 0, and
  a writer that comes next finds no reader.\<close>

lemma lck_rcounter_wraps:
  assumes "ln_rcounter n = 65535" and "\<not> ln_wbusy n" and "\<not> ln_ubusy n"
  shows "\<exists>n1 n2. lck_rlock n = Some n1 \<and> ln_rcounter n1 = 0 \<and> lck_wlock_claim n1 = Some n2 \<and> lck_wlock_drained n2"
  using assms by (simp add: lck_defs)

end
