(* ===== verification/Cds.thy ===== *)
theory Cds
  imports Nid_Prelude
begin

text \<open>
  The cyclic data stream \<open>cds.c\<close>: a channel is a ring of pages. One producer asks for the space behind
  the current position (\<open>cds_get_buffer\<close>), fills it and confirms what it has filled; consumers give
  back what they have used (\<open>cds_put_buffer\<close>), and a page whose bytes are all used is free again.
  Addresses in the buffer are offsets from \<open>c_buf\<close>. The producer is a function of the channel
  between two waits: it writes the page status under \<open>c_lck\<close> and else only fields no other thread
  writes; \<open>Blocked\<close> is a wait on a page that is still in use, after which it tests again with
  \<open>cds_page_wait\<close>. A release writes and tests \<open>c_page_occupied\<close> outside the lock: \<open>cds_put_buffer\<close> is the
  whole call, and \<open>put_steps\<close> and \<open>put_exec\<close> are its separate accesses, between which the producer may run.
\<close>

section \<open>State\<close>

definition NID_MAX_CHANNELS :: nat where "NID_MAX_CHANNELS = 128"
definition NID_MAX_DSPAGENRSHIFT :: nat where "NID_MAX_DSPAGENRSHIFT = 4"
definition NID_MAX_DSPAGESZSHIFT :: nat where "NID_MAX_DSPAGESZSHIFT = 25"
definition DEFAULT_PAGENRSHIFT :: nat where "DEFAULT_PAGENRSHIFT = 4"
definition DEFAULT_PAGESZSHIFT :: nat where "DEFAULT_PAGESZSHIFT = 23"

record cds_channel =
  c_page_status :: "nat \<Rightarrow> bool"
  c_page_occupied :: "nat \<Rightarrow> u32"
  c_curr_pos :: u32
  c_curr_page :: nat
  c_sequence :: u64
  c_stop :: bool

record cds_private =
  p_pagenr :: nat
  p_pageszshift :: nat
  p_pagesz :: u32
  p_pageszmask :: u32
  p_bufsz :: u32
  p_channels :: "cds_channel option list"

datatype cds_got = Got nat u32 | Stopped | Blocked

definition cds_initialization :: "nat \<Rightarrow> nat \<Rightarrow> cds_private" where
  "cds_initialization pagenrshift pageszshift =
     (let nrshift = (if pagenrshift \<noteq> 0 \<and> pagenrshift \<le> NID_MAX_DSPAGENRSHIFT then pagenrshift else DEFAULT_PAGENRSHIFT);
          szshift = (if pageszshift \<noteq> 0 \<and> pageszshift \<le> NID_MAX_DSPAGESZSHIFT then pageszshift else DEFAULT_PAGESZSHIFT);
          sz = push_bit szshift 1
      in \<lparr>p_pagenr = 2 ^ nrshift, p_pageszshift = szshift, p_pagesz = sz, p_pageszmask = NOT (sz - 1),
          p_bufsz = sz * of_nat (2 ^ nrshift), p_channels = replicate NID_MAX_CHANNELS None\<rparr>)"

section \<open>Operations\<close>

definition cds_new_channel :: cds_channel where
  "cds_new_channel = \<lparr>c_page_status = (\<lambda>_. False)(0 := True), c_page_occupied = (\<lambda>_. 0), c_curr_pos = 0,
     c_curr_page = 0, c_sequence = 0, c_stop = False\<rparr>"

text \<open>The index is -1 if no channel is left.\<close>

definition cds_create_worker :: "cds_private \<Rightarrow> int \<times> cds_private" where
  "cds_create_worker C =
     (case List.find (\<lambda>i. p_channels C ! i = None) [0..<NID_MAX_CHANNELS] of
        None \<Rightarrow> (- 1, C)
      | Some i \<Rightarrow> (int i, C\<lparr>p_channels := (p_channels C)[i := Some cds_new_channel]\<rparr>))"

definition cds_cleanup :: "nat \<Rightarrow> cds_private \<Rightarrow> cds_private" where
  "cds_cleanup i C = C\<lparr>p_channels := (p_channels C)[i := None]\<rparr>"

definition cds_set_stop :: "cds_channel \<Rightarrow> cds_channel" where
  "cds_set_stop ch = ch\<lparr>c_stop := True\<rparr>"

definition get_page_idx :: "cds_private \<Rightarrow> u64 \<Rightarrow> nat" where
  "get_page_idx C seq = unat (drop_bit (p_pageszshift C) seq) mod p_pagenr C"

definition cds_offer :: "cds_private \<Rightarrow> cds_channel \<Rightarrow> cds_got" where
  "cds_offer C ch = Got (unat (p_pagesz C) * c_curr_page ch + unat (c_curr_pos ch)) (p_pagesz C - c_curr_pos ch)"

definition cds_page_wait :: "cds_private \<Rightarrow> cds_channel \<Rightarrow> cds_got \<times> cds_channel" where
  "cds_page_wait C ch =
     (let idx = c_curr_page ch in
      if c_page_status ch idx \<and> \<not> c_stop ch then (Blocked, ch)
      else if c_stop ch then (Stopped, ch)
      else (let ch = ch\<lparr>c_page_status := (c_page_status ch)(idx := True)\<rparr> in (cds_offer C ch, ch)))"

definition cds_next_page :: "cds_private \<Rightarrow> cds_channel \<Rightarrow> cds_channel" where
  "cds_next_page C ch =
     ch\<lparr>c_curr_page := (if Suc (c_curr_page ch) = p_pagenr C then 0 else Suc (c_curr_page ch)), c_curr_pos := 0\<rparr>"

definition cds_get_buffer :: "cds_private \<Rightarrow> cds_channel \<Rightarrow> cds_got \<times> cds_channel" where
  "cds_get_buffer C ch =
     (if c_curr_pos ch = p_pagesz C then cds_page_wait C (cds_next_page C ch) else (cds_offer C ch, ch))"

definition cds_confirm :: "u32 \<Rightarrow> cds_channel \<Rightarrow> cds_channel" where
  "cds_confirm len ch = ch\<lparr>c_sequence := c_sequence ch + ucast len, c_curr_pos := c_curr_pos ch + len\<rparr>"

definition cds_occupy :: "nat \<Rightarrow> u32 \<Rightarrow> cds_channel \<Rightarrow> cds_channel" where
  "cds_occupy idx n ch = ch\<lparr>c_page_occupied := (c_page_occupied ch)(idx := c_page_occupied ch idx + n)\<rparr>"

definition try_to_free_page :: "cds_private \<Rightarrow> nat \<Rightarrow> cds_channel \<Rightarrow> int \<times> cds_channel" where
  "try_to_free_page C idx ch =
     (if c_page_occupied ch idx > p_pagesz C then (- 1, ch)
      else if c_page_occupied ch idx = p_pagesz C then
        (0, ch\<lparr>c_page_occupied := (c_page_occupied ch)(idx := 0), c_page_status := (c_page_status ch)(idx := False)\<rparr>)
      else (0, ch))"

text \<open>An address is an offset from \<open>c_buf\<close>.\<close>

definition cds_put_buffer2 :: "cds_private \<Rightarrow> int \<Rightarrow> u32 \<Rightarrow> cds_channel \<Rightarrow> cds_channel option" where
  "cds_put_buffer2 C off len ch =
     do {
       c_assert (0 \<le> off \<and> off \<le> uint (p_bufsz C));
       let idx1 = nat off div 2 ^ p_pageszshift C;
       Some (snd (try_to_free_page C idx1 (cds_occupy idx1 len ch)))
     }"

definition cds_put_buffer :: "cds_private \<Rightarrow> u64 \<Rightarrow> u32 \<Rightarrow> cds_channel \<Rightarrow> cds_channel" where
  "cds_put_buffer C start_seq len ch =
     (let end_seq = start_seq + ucast len - 1;
          idx1 = get_page_idx C start_seq;
          idx2 = get_page_idx C end_seq;
          ch = (if idx1 = idx2 then cds_occupy idx1 len ch
                else cds_occupy idx2 (ucast (end_seq - (end_seq AND ucast (p_pageszmask C)) + 1))
                       (cds_occupy idx1 (ucast ((start_seq OR ucast (p_pagesz C - 1)) - start_seq + 1)) ch));
          ch = snd (try_to_free_page C idx1 ch)
      in if idx2 \<noteq> idx1 then snd (try_to_free_page C idx2 ch) else ch)"

text \<open>The accesses of a release to the channel, one by one: a count is raised, the count is tested,
  and only if the page is used up is it freed, under the lock.\<close>

datatype put_step = Occupy nat u32 | Try_free nat | Free_page nat

definition free_page :: "nat \<Rightarrow> cds_channel \<Rightarrow> cds_channel" where
  "free_page idx ch =
     ch\<lparr>c_page_occupied := (c_page_occupied ch)(idx := 0), c_page_status := (c_page_status ch)(idx := False)\<rparr>"

definition put_steps :: "cds_private \<Rightarrow> u64 \<Rightarrow> u32 \<Rightarrow> put_step list" where
  "put_steps C start_seq len =
     (let end_seq = start_seq + ucast len - 1;
          idx1 = get_page_idx C start_seq;
          idx2 = get_page_idx C end_seq
      in if idx1 = idx2 then [Occupy idx1 len, Try_free idx1]
         else [Occupy idx1 (ucast ((start_seq OR ucast (p_pagesz C - 1)) - start_seq + 1)),
               Occupy idx2 (ucast (end_seq - (end_seq AND ucast (p_pageszmask C)) + 1)),
               Try_free idx1, Try_free idx2])"

text \<open>One access: the accesses it adds in front of the others, and the channel after it.\<close>

fun put_exec :: "cds_private \<Rightarrow> put_step \<Rightarrow> cds_channel \<Rightarrow> put_step list \<times> cds_channel" where
  "put_exec C (Occupy idx n) ch = ([], cds_occupy idx n ch)"
| "put_exec C (Try_free idx) ch = (if c_page_occupied ch idx = p_pagesz C then [Free_page idx] else [], ch)"
| "put_exec C (Free_page idx) ch = ([], free_page idx ch)"

definition cds_ready :: "u64 \<Rightarrow> cds_channel \<Rightarrow> bool" where
  "cds_ready seq ch \<longleftrightarrow> c_sequence ch \<ge> seq"

definition cds_position :: "cds_private \<Rightarrow> u64 \<Rightarrow> nat" where
  "cds_position C seq = unat (seq AND ucast (p_bufsz C - 1))"

definition cds_position_length :: "cds_private \<Rightarrow> u64 \<Rightarrow> u32 \<Rightarrow> nat \<times> u32" where
  "cds_position_length C start_seq len =
     (let len = (if get_page_idx C start_seq = p_pagenr C - 1 then
                   (let len1 = ucast ((start_seq OR ucast (p_pagesz C - 1)) - start_seq + 1)
                    in if len1 < len then len1 else len)
                 else len)
      in (unat (start_seq AND ucast (p_bufsz C - 1)), len))"

definition cds_sequence_in_row :: "cds_private \<Rightarrow> u64 \<Rightarrow> u64 \<Rightarrow> bool" where
  "cds_sequence_in_row C seq1 seq2 \<longleftrightarrow> get_page_idx C seq2 = get_page_idx C seq1 + 1"

section \<open>A release as a whole\<close>

text \<open>The channel when the remaining accesses of a release have run.\<close>

fun put_effect :: "cds_private \<Rightarrow> put_step \<Rightarrow> cds_channel \<Rightarrow> cds_channel" where
  "put_effect C (Occupy idx n) ch = cds_occupy idx n ch"
| "put_effect C (Try_free idx) ch = snd (try_to_free_page C idx ch)"
| "put_effect C (Free_page idx) ch = free_page idx ch"

definition put_finish :: "cds_private \<Rightarrow> put_step list \<Rightarrow> cds_channel \<Rightarrow> cds_channel" where
  "put_finish C ss ch = fold (put_effect C) ss ch"

lemma put_finish_simps [simp]:
  "put_finish C [] ch = ch" "put_finish C (s # ss) ch = put_finish C ss (put_effect C s ch)"
  by (simp_all add: put_finish_def)

text \<open>One access leaves the channel the release ends with as it is, and from the first access on that is
  the channel of the whole call.\<close>

lemma put_finish_exec: "put_finish C (fst (put_exec C s ch) @ ss) (snd (put_exec C s ch)) = put_finish C (s # ss) ch"
  by (cases s) (simp_all add: try_to_free_page_def free_page_def)

lemma put_finish_steps: "put_finish C (put_steps C seq len) ch = cds_put_buffer C seq len ch"
  by (simp add: put_steps_def cds_put_buffer_def Let_def)

section \<open>Sizes\<close>

definition cds_cfg :: "cds_private \<Rightarrow> bool" where
  "cds_cfg C \<longleftrightarrow> (\<exists>a b. 0 < a \<and> a \<le> 4 \<and> 0 < b \<and> b \<le> 25 \<and> p_pagenr C = 2 ^ a \<and> p_pageszshift C = b \<and>
     p_pagesz C = 2 ^ b \<and> p_pageszmask C = NOT (2 ^ b - 1) \<and> p_bufsz C = 2 ^ (a + b))"

lemma cds_cfg_init: "cds_cfg (cds_initialization nr sz)"
  unfolding cds_cfg_def cds_initialization_def Let_def
  by (intro exI[of _ "if nr \<noteq> 0 \<and> nr \<le> NID_MAX_DSPAGENRSHIFT then nr else DEFAULT_PAGENRSHIFT"]
      exI[of _ "if sz \<noteq> 0 \<and> sz \<le> NID_MAX_DSPAGESZSHIFT then sz else DEFAULT_PAGESZSHIFT"])
    (auto simp: NID_MAX_DSPAGENRSHIFT_def DEFAULT_PAGENRSHIFT_def NID_MAX_DSPAGESZSHIFT_def
      DEFAULT_PAGESZSHIFT_def push_bit_eq_mult power_add)

abbreviation pgsz :: "cds_private \<Rightarrow> nat" where
  "pgsz C \<equiv> 2 ^ p_pageszshift C"

lemma unat_pow32: "b \<le> 29 \<Longrightarrow> unat (2 ^ b :: u32) = 2 ^ b"
proof -
  assume "b \<le> 29"
  then have "(2::nat) ^ b \<le> 2 ^ 29" by (rule power_increasing) simp
  moreover have "unat (of_nat x :: u32) = x" if "x \<le> 2 ^ 29" for x using that by (simp add: unat_of_nat)
  ultimately have "unat (of_nat (2 ^ b) :: u32) = 2 ^ b" by blast
  then show ?thesis by simp
qed

lemma cds_cfgD:
  assumes "cds_cfg C"
  shows "1 < p_pagenr C" "unat (p_pagesz C) = pgsz C" "pgsz C \<le> 2 ^ 25" "1 < pgsz C"
    "get_page_idx C (of_nat s) = s div pgsz C mod p_pagenr C"
    "cds_position C (of_nat s) = s mod (p_pagenr C * pgsz C)"
    "unat (p_bufsz C) = p_pagenr C * pgsz C"
proof -
  from assms obtain a where c: "0 < a" "a \<le> 4" "0 < p_pageszshift C" "p_pageszshift C \<le> 25" "p_pagenr C = 2 ^ a"
    "p_pagesz C = 2 ^ p_pageszshift C" "p_bufsz C = 2 ^ (a + p_pageszshift C)"
    unfolding cds_cfg_def by blast
  let ?b = "p_pageszshift C"
  show "1 < p_pagenr C" unfolding c(5) using c(1) by (rule one_less_power[rotated]) simp
  show "unat (p_pagesz C) = pgsz C" using c(4) unfolding c(6) by (intro unat_pow32) simp
  show "unat (p_bufsz C) = p_pagenr C * pgsz C"
    using c(2,4) unfolding c(5,7) power_add[symmetric] by (intro unat_pow32) simp
  show "pgsz C \<le> 2 ^ 25" using c(4) by (rule power_increasing) simp
  show "1 < pgsz C" using c(3) by (rule one_less_power[rotated]) simp
  have "get_page_idx C (of_nat s) = s mod 2 ^ 64 div 2 ^ ?b mod 2 ^ a"
    by (simp add: get_page_idx_def unat_drop_bit unat_of_nat c(5))
  also have "s mod 2 ^ 64 div 2 ^ ?b = s div 2 ^ ?b mod 2 ^ (64 - ?b)"
    using c(4) by (metis (no_types) add_diff_inverse_nat drop_bit_eq_div drop_bit_take_bit le_trans not_le
        numeral_le_iff semiring_norm(69) semiring_norm(72) take_bit_eq_mod)
  also have "s div 2 ^ ?b mod 2 ^ (64 - ?b) mod 2 ^ a = s div 2 ^ ?b mod 2 ^ a"
    using c(2,4) by (intro mod_mod_cancel le_imp_power_dvd) simp
  finally show "get_page_idx C (of_nat s) = s div pgsz C mod p_pagenr C" using c(5) by simp
  have "ucast (p_bufsz C - 1) = (mask (a + ?b) :: u64)"
    using c(2,4) by (simp add: c(7) ucast_mask_eq flip: mask_eq_exp_minus_1)
  then have "cds_position C (of_nat s) = unat (take_bit (a + ?b) (of_nat s :: u64))"
    by (simp add: cds_position_def take_bit_eq_mask)
  also have "\<dots> = s mod 2 ^ 64 mod 2 ^ (a + ?b)"
    by (simp only: unsigned_take_bit_eq unat_of_nat) (simp add: take_bit_eq_mod)
  also have "\<dots> = s mod 2 ^ (a + ?b)" using c(2,4) by (intro mod_mod_cancel le_imp_power_dvd) simp
  finally show "cds_position C (of_nat s) = s mod (p_pagenr C * pgsz C)" using c(5) by (simp add: power_add)
qed

section \<open>A release over a page boundary\<close>

lemma or_minus_word: "(x OR m) - x = m - (x AND m)" for x m :: "'a::len word"
proof -
  have "x OR m = (x AND NOT m) + m"
    by (subst disjunctive_add) (auto simp: bit_eq_iff bit_simps)
  moreover have "x = (x AND NOT m) + (x AND m)"
    by (subst disjunctive_add) (auto simp: bit_eq_iff bit_simps)
  ultimately show ?thesis by (simp add: algebra_simps)
qed

lemma minus_and_not_word: "x - (x AND NOT m) = x AND m" for x m :: "'a::len word"
proof -
  have "x = (x AND NOT m) + (x AND m)"
    by (subst disjunctive_add) (auto simp: bit_eq_iff bit_simps)
  then show ?thesis by (metis add_diff_cancel_left')
qed

lemma ucast_of_nat_down: "ucast (of_nat x :: u64) = (of_nat x :: u32)"
  by (rule bit_eqI) (simp add: bit_simps)

lemma take_bit_of_nat_word: "(of_nat x :: 'a::len word) AND mask b = of_nat (x mod 2 ^ b)"
  by (metis take_bit_eq_mask take_bit_of_nat take_bit_eq_mod)

lemma ucast_plus_down: "ucast (x + y) = (ucast x + ucast y :: u32)" for x y :: u64
  unfolding word_arith_nat_add[of x y] ucast_of_nat_down by simp

lemma ucast_minus_down: "ucast (x - y) = (ucast x - ucast y :: u32)" for x y :: u64
  by (metis (no_types) add_diff_cancel_right' diff_add_cancel ucast_plus_down)

lemma ucast_and_down: "ucast (x AND y) = (ucast x AND ucast y :: u32)" for x y :: u64
  by (rule bit_eqI) (auto simp: bit_simps)

lemma of_nat_pred_add: "0 < n \<Longrightarrow> (of_nat s + of_nat n - 1 :: u64) = of_nat (s + n - 1)"
  by (simp add: of_nat_diff Suc_leI)

lemma ucast_of_nat_up:
  assumes "n < 2 ^ 32"
  shows "ucast (of_nat n :: u32) = (of_nat n :: u64)"
proof -
  have "unat (of_nat n :: u32) = n" using assms by (simp add: unat_of_nat)
  then show ?thesis by (metis of_nat_unat)
qed

definition in_page :: "cds_private \<Rightarrow> nat \<Rightarrow> nat \<Rightarrow> bool" where
  "in_page C s n \<longleftrightarrow> 0 < n \<and> s mod pgsz C + n \<le> pgsz C"

lemma in_page_end:
  assumes "in_page C s n"
  shows "(s + n - 1) div pgsz C = s div pgsz C"
proof -
  have "s + n - 1 = s div pgsz C * pgsz C + (s mod pgsz C + n - 1)"
    using assms div_mult_mod_eq[of s "pgsz C"] by (simp add: in_page_def del: div_mult_mod_eq)
  moreover have "s mod pgsz C + n - 1 < pgsz C" using assms unfolding in_page_def by linarith
  ultimately show ?thesis by simp
qed

definition put_in :: "cds_private \<Rightarrow> nat \<Rightarrow> nat \<Rightarrow> cds_channel \<Rightarrow> cds_channel" where
  "put_in C idx n ch = snd (try_to_free_page C idx (cds_occupy idx (of_nat n) ch))"

lemma put_in_page:
  assumes "cds_cfg C" "in_page C s n"
  shows "cds_put_buffer C (of_nat s) (of_nat n) ch = put_in C (s div pgsz C mod p_pagenr C) n ch"
proof -
  have "n \<le> pgsz C" "0 < n" using assms(2) by (auto simp: in_page_def)
  then have "n < 2 ^ 32" using cds_cfgD(3)[OF assms(1)] by simp
  then have "ucast (of_nat n :: u32) = (of_nat n :: u64)" by (rule ucast_of_nat_up)
  then show ?thesis
    unfolding cds_put_buffer_def Let_def put_in_def
    by (simp only: of_nat_pred_add[OF \<open>0 < n\<close>] cds_cfgD(5)[OF assms(1)] in_page_end[OF assms(2)]) simp
qed

lemma cross_end:
  fixes s n P :: nat
  assumes "P < s mod P + n" "n \<le> P" "0 < P"
  shows "(s + n - 1) div P = Suc (s div P)" "(s + n - 1) mod P + 1 = s mod P + n - P"
proof -
  define r where "r = s mod P + n - 1 - P"
  have "s + n - 1 = Suc (s div P) * P + r" "r + 1 = s mod P + n - P"
    using assms(1) div_mult_mod_eq[of s P] by (simp_all add: r_def del: div_mult_mod_eq)
  moreover have "r < P" unfolding r_def using assms(2,3) mod_less_divisor[OF assms(3), of s] by linarith
  ultimately show "(s + n - 1) div P = Suc (s div P)" "(s + n - 1) mod P + 1 = s mod P + n - P"
    by (simp_all del: mult_Suc)
qed

lemma mod_Suc_neq: "1 < N \<Longrightarrow> Suc j mod N \<noteq> j mod N" for j N :: nat
  by (simp add: mod_Suc)

lemma put_in_commute:
  assumes "i \<noteq> j"
  shows "put_in C j m (put_in C i n ch) =
    snd (try_to_free_page C j (snd (try_to_free_page C i (cds_occupy j (of_nat m) (cds_occupy i (of_nat n) ch)))))"
  using assms by (simp add: put_in_def try_to_free_page_def cds_occupy_def fun_upd_twist)

lemma cds_masks:
  assumes "cds_cfg C"
  shows "ucast (p_pagesz C - 1) = (mask (p_pageszshift C) :: u64)"
    "ucast (ucast (p_pageszmask C) :: u64) = (NOT (mask (p_pageszshift C)) :: u32)"
proof -
  from assms have c: "p_pageszshift C \<le> 25" "p_pagesz C = 2 ^ p_pageszshift C"
    "p_pageszmask C = NOT (2 ^ p_pageszshift C - 1)" unfolding cds_cfg_def by blast+
  then show "ucast (p_pagesz C - 1) = (mask (p_pageszshift C) :: u64)"
    by (simp add: ucast_mask_eq flip: mask_eq_exp_minus_1)
  show "ucast (ucast (p_pageszmask C) :: u64) = (NOT (mask (p_pageszshift C)) :: u32)"
    unfolding c(3) mask_eq_exp_minus_1[symmetric] by (rule bit_eqI) (simp add: bit_simps)
qed

lemma ucast_mask_down:
  assumes "cds_cfg C"
  shows "ucast (mask (p_pageszshift C) :: u64) = (2 ^ p_pageszshift C - 1 :: u32)"
proof -
  from assms have "p_pageszshift C \<le> 25" unfolding cds_cfg_def by blast
  then show ?thesis by (simp add: ucast_mask_eq flip: mask_eq_exp_minus_1)
qed

lemma put_cross:
  assumes "cds_cfg C" "pgsz C < s mod pgsz C + n" "n \<le> pgsz C"
  shows "cds_put_buffer C (of_nat s) (of_nat n) ch =
    put_in C (Suc (s div pgsz C) mod p_pagenr C) (s mod pgsz C + n - pgsz C)
      (put_in C (s div pgsz C mod p_pagenr C) (pgsz C - s mod pgsz C) ch)"
proof -
  let ?P = "pgsz C" let ?b = "p_pageszshift C"
  have m: "s mod ?P < ?P" by simp
  then have n: "0 < n" using assms(2) by linarith
  have "n < 2 ^ 32" using cds_cfgD(3)[OF assms(1)] assms(3) by simp
  then have u: "ucast (of_nat n :: u32) = (of_nat n :: u64)" by (rule ucast_of_nat_up)
  have "0 < ?P" by simp
  note e = cross_end[OF assms(2,3) this]
  have ne: "s div ?P mod p_pagenr C \<noteq> Suc (s div ?P) mod p_pagenr C"
    using mod_Suc_neq[OF cds_cfgD(1)[OF assms(1)]] by metis
  have l1: "ucast (((of_nat s :: u64) OR ucast (p_pagesz C - 1)) - of_nat s + 1) = (of_nat (?P - s mod ?P) :: u32)"
    using m by (simp add: or_minus_word ucast_plus_down ucast_minus_down cds_masks(1)[OF assms(1)]
        take_bit_of_nat_word ucast_of_nat_down of_nat_diff ucast_mask_down[OF assms(1)])
  have l2: "ucast (of_nat (s + n - 1) - ((of_nat (s + n - 1) :: u64) AND ucast (p_pageszmask C)) + 1)
      = (of_nat (s mod ?P + n - ?P) :: u32)"
    by (simp only: ucast_plus_down ucast_minus_down ucast_and_down cds_masks(2)[OF assms(1)] minus_and_not_word
        ucast_of_nat_down take_bit_of_nat_word) (simp flip: e(2))
  show ?thesis
    unfolding cds_put_buffer_def Let_def u put_in_commute[OF ne]
    by (simp only: of_nat_pred_add[OF n] cds_cfgD(5)[OF assms(1)] e l1 l2) (simp add: ne ne[symmetric])
qed

end
