(* ===== verification/Cds_Run.thy ===== *)
theory Cds_Run
  imports Cds
begin

text \<open>
  Runs of a channel of \<open>cds.c\<close>: any interleaving of the one producer (\<open>cds_get_buffer\<close>, whose wait
  may be re-entered any number of times, and \<open>cds_confirm\<close>), of the accesses of one releasing thread
  (\<open>cds_put_buffer\<close>, access by access) and of \<open>cds_stop\<close>. One thread produces and one releases: the code
  says so of \<open>cds_get_buffer\<close> (\<open>cds.c:106\<close>) and, where a channel is released by its users, of the release
  (\<open>dxt_put_request\<close>, \<open>cxt_put_one\<close>: not multithreading safe); two threads that release at once may lose an
  update of \<open>c_page_occupied\<close> and are not covered. \<open>r_live\<close> are the sequence numbers of the bytes that are confirmed and not given back,
  \<open>r_n\<close> is the number of bytes confirmed so far, \<open>r_wait\<close> holds while the producer is inside
  the wait of \<open>cds_get_buffer\<close>, \<open>r_todo\<close> are the accesses the release in progress has left, and \<open>r_stopped\<close>
  records that \<open>cds_get_buffer\<close> has returned NULL once.
\<close>

section \<open>Runs\<close>

record cds_run =
  r_ch :: cds_channel
  r_n :: nat
  r_live :: "nat set"
  r_wait :: bool
  r_todo :: "put_step list"
  r_stopped :: bool

definition run_get :: "cds_private \<Rightarrow> cds_run \<Rightarrow> cds_got \<times> cds_run" where
  "run_get C r =
     (let (g, ch) = (if r_wait r then cds_page_wait C (r_ch r) else cds_get_buffer C (r_ch r))
      in (g, r\<lparr>r_ch := ch, r_wait := (g = Blocked), r_stopped := (r_stopped r \<or> g = Stopped)\<rparr>))"

definition run_confirm :: "nat \<Rightarrow> cds_run \<Rightarrow> cds_run" where
  "run_confirm n r = r\<lparr>r_ch := cds_confirm (of_nat n) (r_ch r), r_n := r_n r + n, r_live := r_live r \<union> {r_n r..<r_n r + n}\<rparr>"

text \<open>The releasing thread enters \<open>cds_put_buffer\<close>, and goes one access further.\<close>

definition run_put :: "cds_private \<Rightarrow> nat \<Rightarrow> nat \<Rightarrow> cds_run \<Rightarrow> cds_run" where
  "run_put C s n r = r\<lparr>r_todo := put_steps C (of_nat s) (of_nat n), r_live := r_live r - {s..<s + n}\<rparr>"

definition run_put_step :: "cds_private \<Rightarrow> cds_run \<Rightarrow> cds_run" where
  "run_put_step C r =
     (case r_todo r of [] \<Rightarrow> r
      | st # todo \<Rightarrow> (let (new, ch) = put_exec C st (r_ch r) in r\<lparr>r_ch := ch, r_todo := new @ todo\<rparr>))"

definition run_init :: cds_run where
  "run_init = \<lparr>r_ch = cds_new_channel, r_n = 0, r_live = {}, r_wait = False, r_todo = [], r_stopped = False\<rparr>"

inductive cds_reach :: "cds_private \<Rightarrow> cds_run \<Rightarrow> bool" for C where
  start: "cds_reach C run_init"
| get: "cds_reach C r \<Longrightarrow> cds_reach C (snd (run_get C r))"
| confirm: "cds_reach C r \<Longrightarrow> \<not> r_wait r \<Longrightarrow> n + unat (c_curr_pos (r_ch r)) \<le> pgsz C \<Longrightarrow> cds_reach C (run_confirm n r)"
| put: "cds_reach C r \<Longrightarrow> r_todo r = [] \<Longrightarrow> 0 < n \<Longrightarrow> n \<le> pgsz C \<Longrightarrow> {s..<s + n} \<subseteq> r_live r \<Longrightarrow> cds_reach C (run_put C s n r)"
| put_step: "cds_reach C r \<Longrightarrow> cds_reach C (run_put_step C r)"
| stop: "cds_reach C r \<Longrightarrow> cds_reach C (r\<lparr>r_ch := cds_set_stop (r_ch r)\<rparr>)"

section \<open>Invariant\<close>

text \<open>Page \<open>j\<close> of the stream holds the sequence numbers from \<open>j\<close> times the page size on; it lives in
  slot \<open>j mod p_pagenr\<close>. \<open>k\<close> is the page the producer is in and \<open>K\<close> the number of pages claimed.\<close>

abbreviation cpage :: "cds_private \<Rightarrow> nat \<Rightarrow> nat set" where
  "cpage C j \<equiv> {j * pgsz C..<Suc j * pgsz C}"

abbreviation claimed :: "nat \<Rightarrow> cds_run \<Rightarrow> nat" where
  "claimed k r \<equiv> (if r_wait r then k else Suc k)"

definition used_up :: "cds_private \<Rightarrow> cds_run \<Rightarrow> nat \<Rightarrow> nat set" where
  "used_up C r j = cpage C j \<inter> {..<r_n r} - r_live r"

definition page_ok :: "cds_private \<Rightarrow> cds_run \<Rightarrow> nat \<Rightarrow> bool" where
  "page_ok C r j =
     (let i = j mod p_pagenr C in
      if c_page_status (r_ch r) i
      then unat (c_page_occupied (r_ch r) i) = card (used_up C r j) \<and> card (used_up C r j) < pgsz C
      else c_page_occupied (r_ch r) i = 0 \<and> used_up C r j = cpage C j)"

definition run_inv_at :: "cds_private \<Rightarrow> nat \<Rightarrow> cds_run \<Rightarrow> bool" where
  "run_inv_at C k r \<longleftrightarrow>
     c_curr_page (r_ch r) = k mod p_pagenr C \<and> unat (c_curr_pos (r_ch r)) \<le> pgsz C \<and>
     r_n r = k * pgsz C + unat (c_curr_pos (r_ch r)) \<and> (r_wait r \<longrightarrow> c_curr_pos (r_ch r) = 0) \<and>
     c_sequence (r_ch r) = of_nat (r_n r) \<and> r_live r \<subseteq> {..<r_n r} \<and>
     (\<forall>s\<in>r_live r. claimed k r \<le> s div pgsz C + p_pagenr C) \<and>
     (\<forall>j<claimed k r. claimed k r \<le> j + p_pagenr C \<longrightarrow> page_ok C r j) \<and>
     (\<forall>i<p_pagenr C. claimed k r \<le> i \<longrightarrow> \<not> c_page_status (r_ch r) i \<and> c_page_occupied (r_ch r) i = 0)"

definition run_inv :: "cds_private \<Rightarrow> cds_run \<Rightarrow> bool" where
  "run_inv C r \<longleftrightarrow> cds_cfg C \<and> (\<exists>k. run_inv_at C k r)"

lemma run_inv_atD:
  assumes "run_inv_at C k r"
  shows "c_curr_page (r_ch r) = k mod p_pagenr C" "unat (c_curr_pos (r_ch r)) \<le> pgsz C"
    "r_n r = k * pgsz C + unat (c_curr_pos (r_ch r))" "r_wait r \<Longrightarrow> c_curr_pos (r_ch r) = 0"
    "c_sequence (r_ch r) = of_nat (r_n r)" "r_live r \<subseteq> {..<r_n r}"
    "s \<in> r_live r \<Longrightarrow> claimed k r \<le> s div pgsz C + p_pagenr C"
    "j < claimed k r \<Longrightarrow> claimed k r \<le> j + p_pagenr C \<Longrightarrow> page_ok C r j"
    "i < p_pagenr C \<Longrightarrow> claimed k r \<le> i \<Longrightarrow> \<not> c_page_status (r_ch r) i \<and> c_page_occupied (r_ch r) i = 0"
  using assms unfolding run_inv_at_def by blast+

lemma run_inv_init: "cds_cfg C \<Longrightarrow> run_inv C run_init"
  using cds_cfgD(1)[of C] unfolding run_inv_def
  by (auto intro!: exI[of _ 0] simp: run_inv_at_def run_init_def cds_new_channel_def page_ok_def used_up_def)

lemma live_page:
  assumes "run_inv_at C k r" "s \<in> r_live r"
  shows "s div pgsz C < claimed k r" "s div pgsz C \<le> k"
proof -
  have "s < r_n r" using run_inv_atD(6)[OF assms(1)] assms(2) by blast
  then have "s < claimed k r * pgsz C" using run_inv_atD(2,3,4)[OF assms(1)] by (cases "r_wait r") auto
  then show "s div pgsz C < claimed k r" by (simp add: less_mult_imp_div_less)
  then show "s div pgsz C \<le> k" by (simp split: if_splits)
qed

lemma mod_window:
  fixes a b N :: nat
  assumes "a mod N = b mod N" "a \<le> b" "b < a + N"
  shows "a = b"
proof -
  have "N dvd b - a" using mod_eq_dvd_iff_nat[OF assms(2)] assms(1) by metis
  then have "b - a = 0" using assms(3) by (metis dvd_imp_le less_diff_conv2 assms(2) add.commute not_le not_gr0)
  with assms(2) show ?thesis by simp
qed

lemma div_page: "s div P * P \<le> s \<and> s < Suc (s div P) * P" if "0 < P" for s P :: nat
  using that by (metis dividend_less_div_times div_times_less_eq_dividend mult.commute mult_Suc)

lemma in_cpage: "s \<in> cpage C j \<longleftrightarrow> s div pgsz C = j"
proof -
  have "0 < pgsz C" by simp
  then show ?thesis using div_page[of "pgsz C" s] by (auto intro: div_nat_eqI simp: mult.commute)
qed

lemma used_up_upd [simp]:
  "used_up C (r\<lparr>r_ch := c\<rparr>) j = used_up C r j" "used_up C (r\<lparr>r_wait := w\<rparr>) j = used_up C r j"
  by (simp_all add: used_up_def)

lemma page_ok_cong:
  assumes "page_ok C r j" "used_up C r' j = used_up C r j"
    "c_page_status (r_ch r') (j mod p_pagenr C) = c_page_status (r_ch r) (j mod p_pagenr C)"
    "c_page_occupied (r_ch r') (j mod p_pagenr C) = c_page_occupied (r_ch r) (j mod p_pagenr C)"
  shows "page_ok C r' j"
  using assms by (simp add: page_ok_def Let_def)

section \<open>The producer\<close>

lemma next_page_inv:
  assumes "cds_cfg C" "run_inv_at C k r" "\<not> r_wait r" "c_curr_pos (r_ch r) = p_pagesz C"
  shows "run_inv_at C (Suc k) (r\<lparr>r_ch := cds_next_page C (r_ch r), r_wait := True\<rparr>)"
  unfolding run_inv_at_def using assms(3,4) run_inv_atD[OF assms(2)] cds_cfgD(1,2)[OF assms(1)]
  by (auto simp: cds_next_page_def mod_Suc intro: page_ok_cong[of C r])

lemma page_ok_slot:
  assumes "page_ok C r j" "\<not> c_page_status (r_ch r) (j mod p_pagenr C)"
  shows "c_page_occupied (r_ch r) (j mod p_pagenr C) = 0" "used_up C r j = cpage C j"
  using assms by (auto simp: page_ok_def Let_def)

lemma claim_inv:
  assumes C: "cds_cfg C" and I: "run_inv_at C k r" and w: "r_wait r" and free: "\<not> c_page_status (r_ch r) (k mod p_pagenr C)"
  shows "run_inv_at C k (r\<lparr>r_ch := (r_ch r)\<lparr>c_page_status := (c_page_status (r_ch r))(k mod p_pagenr C := True)\<rparr>, r_wait := False\<rparr>)"
    (is "run_inv_at C k ?r")
proof -
  let ?N = "p_pagenr C"
  note D = run_inv_atD[OF I]
  have n: "r_n r = k * pgsz C" using D(3) D(4)[OF w] by simp
  have old: "page_ok C r (k - ?N)" if "?N \<le> k" using D(8)[of "k - ?N"] w that cds_cfgD(1)[OF C] by auto
  have occ: "c_page_occupied (r_ch r) (k mod ?N) = 0"
  proof (cases "?N \<le> k")
    case True
    then show ?thesis using page_ok_slot(1)[OF old] free by (simp add: le_mod_geq)
  next
    case False
    then show ?thesis using D(9)[of k] w by simp
  qed
  have live: "Suc k \<le> s div pgsz C + ?N" if s: "s \<in> r_live r" for s
  proof -
    have "k \<le> s div pgsz C + ?N" using D(7)[OF s] w by simp
    moreover have "k \<noteq> s div pgsz C + ?N"
    proof
      assume k: "k = s div pgsz C + ?N"
      then have "used_up C r (s div pgsz C) = cpage C (s div pgsz C)"
        using page_ok_slot(2)[OF old] free by (simp add: le_mod_geq)
      moreover have "s \<in> cpage C (s div pgsz C)" by (simp only: in_cpage)
      ultimately show False using s unfolding used_up_def by blast
    qed
    ultimately show ?thesis by simp
  qed
  have pages: "page_ok C ?r j" if j: "j < Suc k" "Suc k \<le> j + ?N" for j
  proof (cases "j = k")
    case True
    have "used_up C ?r k = {}" using n by (auto simp: used_up_def)
    then show ?thesis using True occ by (simp add: page_ok_def)
  next
    case False
    then have "page_ok C r j" using D(8)[of j] w j by simp
    moreover have "j mod ?N \<noteq> k mod ?N" using mod_window[of j ?N k] j False by auto
    ultimately show ?thesis by (auto intro: page_ok_cong[of C r])
  qed
  have rest: "\<not> c_page_status (r_ch ?r) i \<and> c_page_occupied (r_ch ?r) i = 0" if "i < ?N" "Suc k \<le> i" for i
    using D(9)[of i] w that by simp
  show ?thesis unfolding run_inv_at_def using D(1-6) live pages rest by simp
qed

lemma run_confirm_inv:
  assumes C: "cds_cfg C" and I: "run_inv_at C k r" and w: "\<not> r_wait r" and n: "n + unat (c_curr_pos (r_ch r)) \<le> pgsz C"
  shows "run_inv_at C k (run_confirm n r)"
proof -
  let ?r = "run_confirm n r"
  note D = run_inv_atD[OF I]
  have nb: "n + unat (c_curr_pos (r_ch r)) \<le> 2 ^ 25" using n cds_cfgD(3)[OF C] by linarith
  then have "unat (of_nat n :: u32) = n" by (simp add: unat_of_nat)
  then have pos: "unat (c_curr_pos (r_ch r) + of_nat n) = unat (c_curr_pos (r_ch r)) + n"
    using nb by (subst unat_add_lem[THEN iffD1]) simp_all
  have used: "used_up C ?r j = used_up C r j" if "j \<le> k" for j
  proof -
    have "Suc j * pgsz C \<le> r_n r" if "j < k"
    proof -
      have "Suc j * pgsz C \<le> k * pgsz C" using that by (intro mult_le_mono1) simp
      then show ?thesis using D(3) by simp
    qed
    then show ?thesis by (auto simp: used_up_def run_confirm_def)
  qed
  have live: "Suc k \<le> s div pgsz C + p_pagenr C" if "s \<in> r_live ?r" for s
  proof (cases "s \<in> r_live r")
    case True
    then show ?thesis using D(7) w by simp
  next
    case False
    then have "s \<in> cpage C k" using that n D(3) by (auto simp: run_confirm_def)
    then have "s div pgsz C = k" by (simp only: in_cpage)
    then show ?thesis using cds_cfgD(1)[OF C] by simp
  qed
  have pages: "page_ok C ?r j" if "j < Suc k" "Suc k \<le> j + p_pagenr C" for j
    by (rule page_ok_cong[of C r]) (use D(8)[of j] w that used[of j] in \<open>auto simp: run_confirm_def cds_confirm_def\<close>)
  have sel: "r_wait ?r = r_wait r" "r_n ?r = r_n r + n" "r_live ?r = r_live r \<union> {r_n r..<r_n r + n}"
    "r_ch ?r = cds_confirm (of_nat n) (r_ch r)" by (simp_all add: run_confirm_def)
  have "n < 2 ^ 32" using nb by simp
  then have "c_sequence (r_ch ?r) = of_nat (r_n r + n)" using D(5) ucast_of_nat_up by (simp add: sel cds_confirm_def)
  then show ?thesis
    unfolding run_inv_at_def using D(1,2,3,6,9) live pages pos n w by (auto simp: sel cds_confirm_def)
qed

section \<open>The consumers\<close>

definition put_page :: "cds_private \<Rightarrow> nat \<Rightarrow> nat \<Rightarrow> cds_run \<Rightarrow> cds_run" where
  "put_page C s n r = r\<lparr>r_ch := put_in C (s div pgsz C mod p_pagenr C) n (r_ch r), r_live := r_live r - {s..<s + n}\<rparr>"

lemma put_in_other:
  assumes "i \<noteq> j"
  shows "c_page_status (put_in C i n ch) j = c_page_status ch j"
    "c_page_occupied (put_in C i n ch) j = c_page_occupied ch j"
  using assms by (auto simp: put_in_def try_to_free_page_def cds_occupy_def)

lemma put_in_sel [simp]:
  "c_curr_page (put_in C i n ch) = c_curr_page ch" "c_curr_pos (put_in C i n ch) = c_curr_pos ch"
  "c_sequence (put_in C i n ch) = c_sequence ch"
  by (auto simp: put_in_def try_to_free_page_def cds_occupy_def)

lemma put_in_here:
  assumes "cds_cfg C" "unat (c_page_occupied ch i) + n \<le> pgsz C" "c_page_status ch i"
  shows "if unat (c_page_occupied ch i) + n = pgsz C
    then c_page_occupied (put_in C i n ch) i = 0 \<and> \<not> c_page_status (put_in C i n ch) i
    else unat (c_page_occupied (put_in C i n ch) i) = unat (c_page_occupied ch i) + n \<and> c_page_status (put_in C i n ch) i"
proof -
  have nb: "unat (c_page_occupied ch i) + n \<le> 2 ^ 25" using assms(2) cds_cfgD(3)[OF assms(1)] by linarith
  then have "unat (of_nat n :: u32) = n" by (simp add: unat_of_nat)
  then have "unat (c_page_occupied ch i + of_nat n) = unat (c_page_occupied ch i) + n"
    using nb by (subst unat_add_lem[THEN iffD1]) simp_all
  then show ?thesis
    using assms(2,3) cds_cfgD(2)[OF assms(1)]
    by (auto simp: put_in_def try_to_free_page_def cds_occupy_def word_less_nat_alt word_unat_eq_iff not_less)
qed

lemma in_page_sub:
  assumes "in_page C s n"
  shows "{s..<s + n} \<subseteq> cpage C (s div pgsz C)"
proof -
  have "s div pgsz C * pgsz C + s mod pgsz C = s" by (rule div_mult_mod_eq)
  then show ?thesis using assms unfolding in_page_def by auto
qed

lemma used_up_put:
  assumes "in_page C s n" "{s..<s + n} \<subseteq> r_live r" "r_live r \<subseteq> {..<r_n r}"
  shows "used_up C (put_page C s n r) j = (if j = s div pgsz C then used_up C r j \<union> {s..<s + n} else used_up C r j)"
proof -
  have "j = s div pgsz C" if "x \<in> {s..<s + n}" "x \<in> cpage C j" for x
  proof -
    have "x \<in> cpage C (s div pgsz C)" using in_page_sub[OF assms(1)] that(1) by blast
    with that(2) show ?thesis unfolding in_cpage by metis
  qed
  then have apart: "j \<noteq> s div pgsz C \<Longrightarrow> {s..<s + n} \<inter> cpage C j = {}" by blast
  have "used_up C (put_page C s n r) j = cpage C j \<inter> {..<r_n r} - (r_live r - {s..<s + n})"
    by (simp add: used_up_def put_page_def)
  also have "\<dots> = (if j = s div pgsz C then used_up C r j \<union> {s..<s + n} else used_up C r j)"
  proof (cases "j = s div pgsz C")
    case True
    with in_page_sub[OF assms(1)] have "{s..<s + n} \<subseteq> cpage C j" by (simp only:)
    moreover have "{s..<s + n} \<subseteq> {..<r_n r}" using assms(2,3) by (rule subset_trans)
    ultimately have "cpage C j \<inter> {..<r_n r} - (r_live r - {s..<s + n}) = (cpage C j \<inter> {..<r_n r} - r_live r) \<union> {s..<s + n}"
      by blast
    then show ?thesis unfolding used_up_def if_P[OF True] .
  next
    case False
    show ?thesis unfolding used_up_def if_not_P[OF False] using apart[OF False] by blast
  qed
  finally show ?thesis .
qed

lemma put_page_inv:
  assumes C: "cds_cfg C" and I: "run_inv_at C k r" and p: "in_page C s n" and l: "{s..<s + n} \<subseteq> r_live r"
  shows "run_inv_at C k (put_page C s n r)"
proof -
  let ?r = "put_page C s n r" let ?N = "p_pagenr C" let ?j = "s div pgsz C"
  note D = run_inv_atD[OF I] and U = used_up_put[OF p l D(6)]
  have s: "s \<in> r_live r" using l p by (auto simp: in_page_def)
  have j: "?j < claimed k r" "claimed k r \<le> ?j + ?N" using live_page[OF I s] D(7)[OF s] by auto
  have st: "c_page_status (r_ch r) (?j mod ?N)"
  proof (rule ccontr)
    assume "\<not> ?thesis"
    then have "used_up C r ?j = cpage C ?j" by (rule page_ok_slot(2)[OF D(8)[OF j]])
    moreover have "s \<in> cpage C ?j" by (simp only: in_cpage)
    ultimately show False using s unfolding used_up_def by blast
  qed
  have sub: "used_up C ?r ?j \<subseteq> cpage C ?j" by (auto simp: used_up_def)
  have dis: "used_up C r ?j \<inter> {s..<s + n} = {}" using l by (auto simp: used_up_def)
  have fin: "finite (used_up C r ?j)" by (simp add: used_up_def)
  have card: "card (used_up C ?r ?j) = card (used_up C r ?j) + n"
    using card_Un_disjoint[OF fin _ dis] by (simp add: U)
  have le: "card (used_up C ?r ?j) \<le> pgsz C" using card_mono[OF _ sub] by simp
  have full: "used_up C ?r ?j = cpage C ?j" if "card (used_up C ?r ?j) = pgsz C"
    using card_subset_eq[OF _ sub] that by simp
  have here: "page_ok C ?r ?j"
    using D(8)[OF j] st put_in_here[OF C, of "r_ch r" "?j mod ?N" n] card le full
    by (auto simp: page_ok_def Let_def put_page_def split: if_splits)
  have other: "page_ok C ?r i" if i: "i < claimed k r" "claimed k r \<le> i + ?N" for i
  proof (cases "i = ?j")
    case False
    then have "i mod ?N \<noteq> ?j mod ?N" using mod_window[of i ?N ?j] mod_window[of ?j ?N i] i j by (cases "i \<le> ?j") auto
    then have "?j mod ?N \<noteq> i mod ?N" by metis
    note o = put_in_other[OF this, of C n "r_ch r"]
    have "used_up C ?r i = used_up C r i" using U[of i] False by simp
    from page_ok_cong[OF D(8)[OF i] this] o show ?thesis by (simp add: put_page_def)
  qed (use here in simp)
  have rest: "\<not> c_page_status (r_ch ?r) i \<and> c_page_occupied (r_ch ?r) i = 0" if "i < ?N" "claimed k r \<le> i" for i
  proof -
    have "?j mod ?N \<noteq> i" using j(1) that by simp
    then show ?thesis using D(9)[OF that] put_in_other by (simp add: put_page_def)
  qed
  have sel: "r_wait ?r = r_wait r" "r_n ?r = r_n r" "r_live ?r = r_live r - {s..<s + n}"
    "r_ch ?r = put_in C (?j mod ?N) n (r_ch r)" by (simp_all add: put_page_def)
  show ?thesis unfolding run_inv_at_def using D(1-7) other rest by (auto simp: sel)
qed

definition put_whole :: "cds_private \<Rightarrow> nat \<Rightarrow> nat \<Rightarrow> cds_run \<Rightarrow> cds_run" where
  "put_whole C s n r = r\<lparr>r_ch := cds_put_buffer C (of_nat s) (of_nat n) (r_ch r), r_live := r_live r - {s..<s + n}\<rparr>"

lemma put_whole_inv:
  assumes C: "cds_cfg C" and I: "run_inv_at C k r" and n: "0 < n" "n \<le> pgsz C" and l: "{s..<s + n} \<subseteq> r_live r"
  shows "run_inv_at C k (put_whole C s n r)"
proof (cases "s mod pgsz C + n \<le> pgsz C")
  case True
  then have p: "in_page C s n" using n by (simp add: in_page_def)
  have "put_whole C s n r = put_page C s n r" by (simp add: put_whole_def put_page_def put_in_page[OF C p])
  then show ?thesis using put_page_inv[OF C I p l] by simp
next
  case False
  let ?P = "pgsz C"
  define m where "m = ?P - s mod ?P"
  have m2: "s mod ?P < ?P" by simp
  then have m: "m < n" "0 < m" "s mod ?P + m = ?P" "n - m = s mod ?P + n - ?P" "n - m \<le> ?P"
    unfolding m_def using False n by linarith+
  have div: "s + m = Suc (s div ?P) * ?P" using m(3) div_mult_mod_eq[of s ?P] by (simp del: div_mult_mod_eq)
  have p1: "in_page C s m" using m by (simp add: in_page_def)
  have p2: "in_page C (s + m) (n - m)" unfolding in_page_def div mod_mult_self2_is_0 using m by simp
  have l1: "{s..<s + m} \<subseteq> r_live r" and l2: "{s + m..<s + m + (n - m)} \<subseteq> r_live (put_page C s m r)"
    using l m(1,2) by (auto simp: put_page_def)
  have "(s + m) div ?P = Suc (s div ?P)" unfolding div by (simp del: mult_Suc)
  moreover have "r_live r - {s..<s + n} = r_live r - {s..<s + m} - {s + m..<s + m + (n - m)}" using m(1,2) by auto
  ultimately have "put_whole C s n r = put_page C (s + m) (n - m) (put_page C s m r)"
    using put_cross[OF C _ n(2), of s] False unfolding m(4)[symmetric] m_def[symmetric]
    by (simp add: put_whole_def put_page_def)
  then show ?thesis using put_page_inv[OF C put_page_inv[OF C I p1 l1] p2 l2] by simp
qed

section \<open>A release in progress\<close>

text \<open>The invariant is one of the run whose release in progress has run to its end. The pages that
  release has still to touch are in use, and each is touched for the last time by its test.\<close>

fun step_idx :: "put_step \<Rightarrow> nat" where
  "step_idx (Occupy i n) = i"
| "step_idx (Try_free i) = i"
| "step_idx (Free_page i) = i"

abbreviation touched :: "put_step list \<Rightarrow> nat set" where
  "touched ss \<equiv> step_idx ` set ss"

fun todo_ok :: "put_step list \<Rightarrow> bool" where
  "todo_ok [] = True"
| "todo_ok (Occupy i n # ss) = todo_ok ss"
| "todo_ok (Try_free i # ss) = (i \<notin> touched ss \<and> todo_ok ss)"
| "todo_ok (Free_page i # ss) = (i \<notin> touched ss \<and> todo_ok ss)"

definition done_run :: "cds_private \<Rightarrow> cds_run \<Rightarrow> cds_run" where
  "done_run C r = r\<lparr>r_ch := put_finish C (r_todo r) (r_ch r)\<rparr>"

definition ring_inv :: "cds_private \<Rightarrow> nat \<Rightarrow> cds_run \<Rightarrow> bool" where
  "ring_inv C k r \<longleftrightarrow> run_inv_at C k (done_run C r) \<and> todo_ok (r_todo r) \<and>
     (\<forall>i\<in>touched (r_todo r). c_page_status (r_ch r) i)"

lemma put_effect_sel [simp]:
  "c_curr_page (put_effect C s ch) = c_curr_page ch" "c_curr_pos (put_effect C s ch) = c_curr_pos ch"
  "c_sequence (put_effect C s ch) = c_sequence ch" "c_stop (put_effect C s ch) = c_stop ch"
  by (cases s; simp add: cds_occupy_def try_to_free_page_def free_page_def)+

lemma put_finish_sel [simp]:
  "c_curr_page (put_finish C ss ch) = c_curr_page ch" "c_curr_pos (put_finish C ss ch) = c_curr_pos ch"
  "c_sequence (put_finish C ss ch) = c_sequence ch" "c_stop (put_finish C ss ch) = c_stop ch"
  by (induction ss arbitrary: ch) simp_all

lemma put_finish_other:
  "i \<notin> touched ss \<Longrightarrow> c_page_status (put_finish C ss ch) i = c_page_status ch i \<and>
    c_page_occupied (put_finish C ss ch) i = c_page_occupied ch i"
proof (induction ss arbitrary: ch)
  case (Cons s ss)
  then show ?case by (cases s) (auto simp: cds_occupy_def try_to_free_page_def free_page_def)
qed simp

text \<open>What the producer writes does not meet what the release writes.\<close>

lemma put_finish_fields:
  "put_finish C ss (cds_next_page C ch) = cds_next_page C (put_finish C ss ch)"
  "put_finish C ss (cds_confirm n ch) = cds_confirm n (put_finish C ss ch)"
  "put_finish C ss (cds_set_stop ch) = cds_set_stop (put_finish C ss ch)"
proof -
  have "put_effect C s (cds_next_page C ch) = cds_next_page C (put_effect C s ch)"
    "put_effect C s (cds_confirm n ch) = cds_confirm n (put_effect C s ch)"
    "put_effect C s (cds_set_stop ch) = cds_set_stop (put_effect C s ch)" for s ch
    by (cases s; simp add: cds_next_page_def cds_confirm_def cds_set_stop_def cds_occupy_def try_to_free_page_def free_page_def)+
  then show "put_finish C ss (cds_next_page C ch) = cds_next_page C (put_finish C ss ch)"
    "put_finish C ss (cds_confirm n ch) = cds_confirm n (put_finish C ss ch)"
    "put_finish C ss (cds_set_stop ch) = cds_set_stop (put_finish C ss ch)"
    by (induction ss arbitrary: ch) simp_all
qed

lemma put_finish_claim:
  "i \<notin> touched ss \<Longrightarrow> put_finish C ss (ch\<lparr>c_page_status := (c_page_status ch)(i := True)\<rparr>) =
    (put_finish C ss ch)\<lparr>c_page_status := (c_page_status (put_finish C ss ch))(i := True)\<rparr>"
proof (induction ss arbitrary: ch)
  case (Cons s ss)
  have "put_effect C s (ch\<lparr>c_page_status := (c_page_status ch)(i := True)\<rparr>) =
    (put_effect C s ch)\<lparr>c_page_status := (c_page_status (put_effect C s ch))(i := True)\<rparr>"
    using Cons.prems by (cases s) (auto simp: cds_occupy_def try_to_free_page_def free_page_def fun_upd_twist)
  moreover have "i \<notin> touched ss" using Cons.prems by simp
  note Cons.IH[OF this, of "put_effect C s ch"]
  ultimately show ?case by (simp only: put_finish_simps)
qed simp

lemma done_run_sel [simp]:
  "r_live (done_run C r) = r_live r" "r_n (done_run C r) = r_n r" "r_wait (done_run C r) = r_wait r"
  "r_ch (done_run C r) = put_finish C (r_todo r) (r_ch r)"
  by (simp_all add: done_run_def)

lemma run_inv_at_ghost:
  assumes "run_inv_at C k r" "r_ch r' = r_ch r" "r_n r' = r_n r" "r_live r' = r_live r" "r_wait r' = r_wait r"
  shows "run_inv_at C k r'"
  using assms(1) unfolding run_inv_at_def page_ok_def used_up_def Let_def assms(2-5) .

lemma ring_next:
  assumes "cds_cfg C" "ring_inv C k r" "\<not> r_wait r" "c_curr_pos (r_ch r) = p_pagesz C"
  shows "ring_inv C (Suc k) (r\<lparr>r_ch := cds_next_page C (r_ch r), r_wait := True\<rparr>)"
proof -
  have "run_inv_at C (Suc k) ((done_run C r)\<lparr>r_ch := cds_next_page C (r_ch (done_run C r)), r_wait := True\<rparr>)"
    by (rule next_page_inv) (use assms in \<open>auto simp: ring_inv_def\<close>)
  then have "run_inv_at C (Suc k) (done_run C (r\<lparr>r_ch := cds_next_page C (r_ch r), r_wait := True\<rparr>))"
    by (rule run_inv_at_ghost) (simp_all add: put_finish_fields)
  then show ?thesis using assms(2) by (simp add: ring_inv_def cds_next_page_def)
qed

lemma ring_claim:
  assumes "cds_cfg C" "ring_inv C k r" "r_wait r" "\<not> c_page_status (r_ch r) (c_curr_page (r_ch r))"
  shows "ring_inv C k (r\<lparr>r_ch := (r_ch r)\<lparr>c_page_status := (c_page_status (r_ch r))(c_curr_page (r_ch r) := True)\<rparr>, r_wait := False\<rparr>)"
    (is "ring_inv C k ?r")
proof -
  let ?i = "c_curr_page (r_ch r)"
  have I: "run_inv_at C k (done_run C r)" and i: "?i \<notin> touched (r_todo r)"
    using assms(2,4) by (auto simp: ring_inv_def)
  have k: "?i = k mod p_pagenr C" using run_inv_atD(1)[OF I] by simp
  have "\<not> c_page_status (r_ch (done_run C r)) ?i" using put_finish_other[OF i, of C "r_ch r"] assms(4) by simp
  then have "run_inv_at C k ((done_run C r)\<lparr>r_ch := (r_ch (done_run C r))\<lparr>c_page_status := (c_page_status (r_ch (done_run C r)))(?i := True)\<rparr>, r_wait := False\<rparr>)"
    using claim_inv[OF assms(1) I] assms(3) k by simp
  then have "run_inv_at C k (done_run C ?r)"
    by (rule run_inv_at_ghost) (simp_all add: put_finish_claim[OF i])
  then show ?thesis using assms(2) by (simp add: ring_inv_def)
qed

lemma ring_wait:
  assumes "cds_cfg C" "ring_inv C k r" "r_wait r" "\<not> r_stopped (snd (run_get C r))"
  shows "ring_inv C k (snd (run_get C r))"
proof (cases "fst (run_get C r) = Blocked")
  case True
  then have "snd (run_get C r) = r" using assms(3,4)
    by (auto simp: run_get_def cds_page_wait_def cds_offer_def Let_def split: if_splits)
  then show ?thesis using assms(2) by simp
next
  case False
  then have f: "\<not> c_page_status (r_ch r) (c_curr_page (r_ch r))"
    using assms(3,4) by (auto simp: run_get_def cds_page_wait_def cds_offer_def Let_def split: if_splits)
  have "snd (run_get C r) = (r\<lparr>r_ch := (r_ch r)\<lparr>c_page_status := (c_page_status (r_ch r))(c_curr_page (r_ch r) := True)\<rparr>, r_wait := False\<rparr>)"
    using False assms(3,4) by (auto simp: run_get_def cds_page_wait_def cds_offer_def Let_def split: if_splits)
  then show ?thesis using ring_claim[OF assms(1-3) f] by simp
qed

lemma run_get_next:
  assumes "\<not> r_wait r" "c_curr_pos (r_ch r) = p_pagesz C"
  shows "run_get C r = run_get C (r\<lparr>r_ch := cds_next_page C (r_ch r), r_wait := True\<rparr>)"
  using assms by (simp add: run_get_def cds_get_buffer_def)

lemma run_get_here:
  assumes "\<not> r_wait r" "c_curr_pos (r_ch r) \<noteq> p_pagesz C"
  shows "run_get C r = (cds_offer C (r_ch r), r)"
  using assms by (simp add: run_get_def cds_get_buffer_def cds_offer_def)

lemma ring_get:
  assumes "cds_cfg C" "ring_inv C k r" "\<not> r_stopped (snd (run_get C r))"
  shows "\<exists>k'. ring_inv C k' (snd (run_get C r))"
proof (cases "r_wait r")
  case True
  then show ?thesis using ring_wait[OF assms(1,2) _ assms(3)] by blast
next
  case False
  show ?thesis
  proof (cases "c_curr_pos (r_ch r) = p_pagesz C")
    case True
    note n = run_get_next[OF False True]
    show ?thesis using ring_wait[OF assms(1) ring_next[OF assms(1,2) False True]] assms(3)
      unfolding n by auto
  next
    case False
    then show ?thesis using assms(2) run_get_here[OF \<open>\<not> r_wait r\<close> False] by auto
  qed
qed

lemma ring_confirm:
  assumes "cds_cfg C" "ring_inv C k r" "\<not> r_wait r" "n + unat (c_curr_pos (r_ch r)) \<le> pgsz C"
  shows "ring_inv C k (run_confirm n r)"
proof -
  have "run_inv_at C k (run_confirm n (done_run C r))"
    by (rule run_confirm_inv) (use assms in \<open>auto simp: ring_inv_def\<close>)
  then have "run_inv_at C k (done_run C (run_confirm n r))"
    by (rule run_inv_at_ghost) (simp_all add: run_confirm_def put_finish_fields)
  then show ?thesis using assms(2) by (simp add: ring_inv_def run_confirm_def cds_confirm_def)
qed

lemma ring_put_step:
  assumes "ring_inv C k r"
  shows "ring_inv C k (run_put_step C r)"
proof (cases "r_todo r")
  case Nil
  then show ?thesis using assms by (simp add: run_put_step_def)
next
  case (Cons st todo)
  let ?r = "run_put_step C r"
  have sel: "r_ch ?r = snd (put_exec C st (r_ch r))" "r_todo ?r = fst (put_exec C st (r_ch r)) @ todo"
    "r_n ?r = r_n r" "r_live ?r = r_live r" "r_wait ?r = r_wait r"
    using Cons by (simp_all add: run_put_step_def split_def Let_def)
  have "run_inv_at C k (done_run C r)" using assms by (simp add: ring_inv_def)
  then have "run_inv_at C k (done_run C ?r)"
    by (rule run_inv_at_ghost) (simp_all add: sel put_finish_exec, simp add: Cons)
  moreover have "todo_ok (r_todo ?r) \<and> (\<forall>i\<in>touched (r_todo ?r). c_page_status (r_ch ?r) i)"
    unfolding sel using assms unfolding ring_inv_def Cons
    by (cases st) (auto simp: cds_occupy_def free_page_def)
  ultimately show ?thesis by (simp add: ring_inv_def)
qed

lemma live_status:
  assumes "run_inv_at C k r" "s \<in> r_live r"
  shows "c_page_status (r_ch r) (s div pgsz C mod p_pagenr C)"
proof (rule ccontr)
  assume "\<not> ?thesis"
  moreover have "page_ok C r (s div pgsz C)"
    using run_inv_atD(8)[OF assms(1)] live_page(1)[OF assms] run_inv_atD(7)[OF assms] by blast
  ultimately have "used_up C r (s div pgsz C) = cpage C (s div pgsz C)" by (rule page_ok_slot(2)[rotated])
  moreover have "s \<in> cpage C (s div pgsz C)" by (simp only: in_cpage)
  ultimately show False using assms(2) unfolding used_up_def by blast
qed

lemma put_steps_touched:
  assumes "cds_cfg C" "0 < n" "n \<le> pgsz C"
  shows "todo_ok (put_steps C (of_nat s) (of_nat n))"
    "touched (put_steps C (of_nat s) (of_nat n)) = (\<lambda>t. t div pgsz C mod p_pagenr C) ` {s, s + n - 1}"
proof -
  have "n < 2 ^ 32" using cds_cfgD(3)[OF assms(1)] assms(3) by simp
  then have u: "ucast (of_nat n :: u32) = (of_nat n :: u64)" by (rule ucast_of_nat_up)
  have e: "get_page_idx C (of_nat s + ucast (of_nat n :: u32) - 1) = (s + n - 1) div pgsz C mod p_pagenr C"
    unfolding u of_nat_pred_add[OF assms(2)] by (rule cds_cfgD(5)[OF assms(1)])
  show "todo_ok (put_steps C (of_nat s) (of_nat n))"
    "touched (put_steps C (of_nat s) (of_nat n)) = (\<lambda>t. t div pgsz C mod p_pagenr C) ` {s, s + n - 1}"
    unfolding put_steps_def Let_def e cds_cfgD(5)[OF assms(1)] by auto
qed

lemma ring_put:
  assumes "cds_cfg C" "ring_inv C k r" "r_todo r = []" "0 < n" "n \<le> pgsz C" "{s..<s + n} \<subseteq> r_live r"
  shows "ring_inv C k (run_put C s n r)"
proof -
  have I: "run_inv_at C k r"
    using assms(2,3) by (auto simp: ring_inv_def intro: run_inv_at_ghost)
  have "run_inv_at C k (done_run C (run_put C s n r))"
    by (rule run_inv_at_ghost[OF put_whole_inv[OF assms(1) I assms(4-6)]])
      (simp_all add: run_put_def put_whole_def put_finish_steps)
  moreover have "{s, s + n - 1} \<subseteq> r_live r" using assms(4,6) by auto
  ultimately show ?thesis
    using put_steps_touched[OF assms(1,4,5), of s] live_status[OF I]
    by (auto simp: ring_inv_def run_put_def)
qed

lemma reach_inv:
  assumes "cds_cfg C" "cds_reach C r"
  shows "\<not> r_stopped r \<Longrightarrow> \<exists>k. ring_inv C k r"
  using assms(2)
proof (induction rule: cds_reach.induct)
  case start
  then show ?case using run_inv_init[OF assms(1)]
    by (auto simp: run_inv_def ring_inv_def done_run_def run_init_def)
next
  case (get r)
  then have "\<not> r_stopped r" by (auto simp: run_get_def split_def Let_def)
  with get show ?case using ring_get[OF assms(1)] by blast
next
  case (confirm r n)
  then show ?case using ring_confirm[OF assms(1)] by (auto simp: run_confirm_def)
next
  case (put r n s)
  then have "\<not> r_stopped r" by (simp add: run_put_def)
  with put show ?case using ring_put[OF assms(1)] by blast
next
  case (put_step r)
  then have "\<not> r_stopped r" by (auto simp: run_put_step_def split_def Let_def split: list.splits)
  with put_step show ?case using ring_put_step by blast
next
  case (stop r)
  then obtain k where k: "ring_inv C k r" by auto
  then have "run_inv_at C k (done_run C r)" by (simp add: ring_inv_def)
  then have "run_inv_at C k ((done_run C r)\<lparr>r_ch := cds_set_stop (r_ch (done_run C r))\<rparr>)"
    unfolding run_inv_at_def by (auto simp: cds_set_stop_def intro: page_ok_cong[of C "done_run C r"])
  then have "run_inv_at C k (done_run C (r\<lparr>r_ch := cds_set_stop (r_ch r)\<rparr>))"
    by (rule run_inv_at_ghost) (simp_all add: put_finish_fields)
  then have "ring_inv C k (r\<lparr>r_ch := cds_set_stop (r_ch r)\<rparr>)"
    using k by (simp add: ring_inv_def cds_set_stop_def)
  then show ?case by blast
qed

section \<open>Safety and progress of the ring\<close>

lemma position_split:
  assumes "cds_cfg C"
  shows "cds_position C (of_nat s) = pgsz C * (s div pgsz C mod p_pagenr C) + s mod pgsz C"
  by (simp add: cds_cfgD(6)[OF assms] mod_mult2_eq mult.commute[of "p_pagenr C"])

lemma offer_inv:
  assumes "cds_cfg C" "ring_inv C k r" "\<not> r_stopped r" "run_get C r = (Got off len, r')"
  shows "\<exists>k'. run_inv_at C k' (done_run C r') \<and> \<not> r_wait r' \<and> r_n r' = r_n r \<and> r_live r' = r_live r \<and>
    Got off len = cds_offer C (r_ch r') \<and> c_curr_pos (r_ch r') \<noteq> p_pagesz C"
proof -
  have nz: "p_pagesz C \<noteq> 0" using cds_cfgD(2,4)[OF assms(1)] by auto
  have z: "r_wait r \<Longrightarrow> c_curr_pos (r_ch r) = 0"
    using assms(2) run_inv_atD(4)[of C k "done_run C r"] by (simp add: ring_inv_def)
  have "\<not> r_stopped r'" using assms(3,4) by (auto simp: run_get_def split_def Let_def)
  then obtain k' where "ring_inv C k' r'" using ring_get[OF assms(1,2)] assms(4) by auto
  then have k: "run_inv_at C k' (done_run C r')" by (simp add: ring_inv_def)
  have "\<not> r_wait r' \<and> r_n r' = r_n r \<and> r_live r' = r_live r \<and> Got off len = cds_offer C (r_ch r') \<and>
    c_curr_pos (r_ch r') \<noteq> p_pagesz C"
    using assms(4) nz z
    by (auto simp: run_get_def cds_page_wait_def cds_get_buffer_def cds_next_page_def Let_def cds_offer_def
        split: if_splits)
  with k show ?thesis by blast
qed

lemma live_slot:
  assumes "run_inv_at C k r" "\<not> r_wait r" "s \<in> r_live r" "s div pgsz C mod p_pagenr C = k mod p_pagenr C"
  shows "s div pgsz C = k"
  using mod_window[OF assms(4)] live_page(2)[OF assms(1,3)] run_inv_atD(7)[OF assms(1,3)] assms(2) by simp

lemma offer_apart:
  assumes C: "cds_cfg C" and I: "run_inv_at C k r" and w: "\<not> r_wait r" and s: "s \<in> r_live r"
    and p: "unat (p_pagesz C) * c_curr_page (r_ch r) + unat (c_curr_pos (r_ch r)) \<le> cds_position C (of_nat s)"
      "cds_position C (of_nat s) < unat (p_pagesz C) * c_curr_page (r_ch r) + pgsz C"
  shows False
proof -
  let ?P = "pgsz C"
  note D = run_inv_atD[OF I]
  have pos: "?P * (s div ?P mod p_pagenr C) + s mod ?P = cds_position C (of_nat s)" by (simp only: position_split[OF C])
  have "cds_position C (of_nat s) div ?P = s div ?P mod p_pagenr C" by (simp add: pos[symmetric])
  moreover have "cds_position C (of_nat s) div ?P = k mod p_pagenr C"
    using p unfolding D(1) cds_cfgD(2)[OF C] by (intro div_nat_eqI) (simp_all add: mult.commute)
  ultimately have k: "s div ?P mod p_pagenr C = k mod p_pagenr C" by simp
  have "unat (c_curr_pos (r_ch r)) \<le> s mod ?P"
    using p(1) unfolding D(1) cds_cfgD(2)[OF C] pos[symmetric] k by simp
  moreover have "s = k * ?P + s mod ?P" using live_slot[OF I w s k] div_mult_mod_eq[of s ?P] by simp
  ultimately have "r_n r \<le> s" using D(3) by linarith
  then show False using D(6) s by auto
qed

lemma position_inj:
  assumes C: "cds_cfg C" and I: "run_inv_at C k r"
  shows "inj_on (\<lambda>s. cds_position C (of_nat s)) (r_live r)"
proof (rule inj_onI)
  fix s t assume s: "s \<in> r_live r" and t: "t \<in> r_live r" and eq: "cds_position C (of_nat s) = cds_position C (of_nat t)"
  let ?P = "pgsz C"
  have "s div ?P mod p_pagenr C = t div ?P mod p_pagenr C" "s mod ?P = t mod ?P"
  proof -
    have "(?P * (s div ?P mod p_pagenr C) + s mod ?P) div ?P = (?P * (t div ?P mod p_pagenr C) + t mod ?P) div ?P"
      "(?P * (s div ?P mod p_pagenr C) + s mod ?P) mod ?P = (?P * (t div ?P mod p_pagenr C) + t mod ?P) mod ?P"
      using eq unfolding position_split[OF C] by simp_all
    then show "s div ?P mod p_pagenr C = t div ?P mod p_pagenr C" "s mod ?P = t mod ?P" by simp_all
  qed
  moreover have "s div ?P < t div ?P + p_pagenr C" "t div ?P < s div ?P + p_pagenr C"
    using live_page(1)[OF I s] live_page(1)[OF I t] run_inv_atD(7)[OF I s] run_inv_atD(7)[OF I t] by linarith+
  ultimately have "s div ?P = t div ?P"
    using mod_window[of "s div ?P" "p_pagenr C" "t div ?P"] mod_window[of "t div ?P" "p_pagenr C" "s div ?P"] by linarith
  with \<open>s mod ?P = t mod ?P\<close> show "s = t" by (metis div_mult_mod_eq)
qed

text \<open>C24. The ring never hands out space that holds live data. In every run of one producer and one
  releasing thread, whose single accesses to the channel interleave in any way, and as long as
  \<open>cds_get_buffer\<close> has not returned NULL after a stop, the space \<open>cds_get_buffer\<close> offers is not empty,
  lies inside the buffer, begins at the position of the next sequence number, and contains the
  position of no byte that is confirmed and not yet given back; and no two such bytes share a position.\<close>

theorem cds_ring_safe:
  assumes "C = cds_initialization nrshift szshift" "cds_reach C r" "\<not> r_stopped r" "run_get C r = (Got off len, r')"
  shows "off = cds_position C (of_nat (r_n r)) \<and> 0 < len \<and> off + unat len \<le> p_pagenr C * unat (p_pagesz C) \<and>
    (\<forall>s\<in>r_live r. cds_position C (of_nat s) \<notin> {off..<off + unat len}) \<and>
    inj_on (\<lambda>s. cds_position C (of_nat s)) (r_live r)"
proof -
  have C: "cds_cfg C" using assms(1) cds_cfg_init by simp
  obtain k where k: "ring_inv C k r" using reach_inv[OF C assms(2,3)] by blast
  obtain k' where I: "run_inv_at C k' (done_run C r')" and w: "\<not> r_wait r'" and e: "r_n r' = r_n r" "r_live r' = r_live r"
    and o: "Got off len = cds_offer C (r_ch r')" and ne: "c_curr_pos (r_ch r') \<noteq> p_pagesz C"
    using offer_inv[OF C k assms(3,4)] by blast
  note D = run_inv_atD[OF I, unfolded done_run_sel put_finish_sel]
  let ?p = "unat (c_curr_pos (r_ch r'))"
  have "?p \<noteq> pgsz C" using ne cds_cfgD(2)[OF C] by (metis word_unat_eq_iff)
  then have p: "?p < pgsz C" using D(2) by simp
  have off: "off = unat (p_pagesz C) * c_curr_page (r_ch r') + ?p" and len: "len = p_pagesz C - c_curr_pos (r_ch r')"
    using o by (auto simp: cds_offer_def)
  have ulen: "unat len = pgsz C - ?p"
    unfolding len using p cds_cfgD(2)[OF C] by (subst unat_sub) (simp_all add: word_le_nat_alt)
  then have "0 < unat len" using p by linarith
  then have pos: "0 < len" by (simp add: word_less_nat_alt)
  have "Suc (k' mod p_pagenr C) * pgsz C \<le> p_pagenr C * pgsz C"
    using cds_cfgD(1)[OF C] by (intro mult_le_mono1) (simp add: Suc_leI)
  then have inside: "off + unat len \<le> p_pagenr C * unat (p_pagesz C)"
    unfolding off ulen D(1) cds_cfgD(2)[OF C] using p by (simp add: mult.commute)
  have at: "off = cds_position C (of_nat (r_n r))"
    unfolding off D(1) cds_cfgD(2)[OF C] position_split[OF C] using p D(3) e(1) by simp
  have "\<forall>s\<in>r_live r. cds_position C (of_nat s) \<notin> {off..<off + unat len}"
    using offer_apart[OF C I, unfolded done_run_sel put_finish_sel, OF w] p unfolding e(2)[symmetric] off ulen by auto
  moreover have "inj_on (\<lambda>s. cds_position C (of_nat s)) (r_live r)"
    using position_inj[OF C I] e(2) by simp
  ultimately show ?thesis using at pos inside by blast
qed

lemmas cds_eval = run_get_def run_confirm_def run_put_def run_put_step_def put_steps_def run_init_def cds_new_channel_def
  cds_get_buffer_def cds_page_wait_def cds_next_page_def cds_offer_def cds_confirm_def cds_initialization_def
  cds_position_def NID_MAX_DSPAGENRSHIFT_def NID_MAX_DSPAGESZSHIFT_def get_page_idx_def cds_occupy_def free_page_def

text \<open>A ring of two pages of two bytes: both are filled, and the release of the first one has come to
  its test.\<close>

definition ex_full :: cds_run where
  "ex_full = run_confirm 2 (snd (run_get (cds_initialization 1 1) (run_confirm 2 run_init)))"

definition ex_put :: cds_run where
  "ex_put = run_put_step (cds_initialization 1 1) (run_put (cds_initialization 1 1) 0 2 ex_full)"

lemma ex_runs:
  "cds_reach (cds_initialization 1 1) (run_confirm 2 run_init)" "cds_reach (cds_initialization 1 1) ex_full"
  "cds_reach (cds_initialization 1 1) ex_put"
proof -
  let ?C = "cds_initialization 1 1"
  show 1: "cds_reach ?C (run_confirm 2 run_init)"
    by (rule cds_reach.confirm[OF cds_reach.start]) (simp_all add: cds_eval)
  show 2: "cds_reach ?C ex_full"
    unfolding ex_full_def by (rule cds_reach.confirm[OF cds_reach.get[OF 1]]) (simp_all add: cds_eval)
  show "cds_reach ?C ex_put"
    unfolding ex_put_def by (rule cds_reach.put_step[OF cds_reach.put[OF 2]]) (auto simp: ex_full_def cds_eval)
qed

theorem cds_ring_safe_witness:
  "fst (run_get (cds_initialization 1 1) (run_confirm 2 run_init)) = Got 2 2 \<and>
   cds_position (cds_initialization 1 1) 0 \<notin> {2..<4} \<and> cds_position (cds_initialization 1 1) 1 \<notin> {2..<4}"
proof -
  let ?r = "run_confirm 2 run_init" and ?C = "cds_initialization 1 1"
  have g: "fst (run_get ?C ?r) = Got 2 2" "\<not> r_stopped ?r" by (simp_all add: cds_eval)
  then have "run_get ?C ?r = (Got 2 2, snd (run_get ?C ?r))" by (metis prod.collapse)
  moreover have "r_live ?r = {0, 1}" by (auto simp: run_confirm_def run_init_def)
  ultimately have "\<forall>s\<in>{0, 1}. cds_position ?C (of_nat s) \<notin> {2..<2 + unat (2 :: u32)}"
    using cds_ring_safe[OF refl ex_runs(1) g(2)] by metis
  with g show ?thesis by simp
qed

text \<open>C25. The producer waits only for data that is still in use. When \<open>cds_get_buffer\<close> waits, some
  byte that is confirmed and not given back lies in the page it waits for, or else a release that
  touches this page is in progress and the accesses it has left free the page.\<close>

theorem cds_waits_for_live:
  assumes "C = cds_initialization nrshift szshift" "cds_reach C r" "\<not> r_stopped r" "run_get C r = (Blocked, r')"
  shows "(\<exists>s\<in>r_live r. get_page_idx C (of_nat s) = c_curr_page (r_ch r')) \<or>
    c_curr_page (r_ch r') \<in> touched (r_todo r) \<and>
    \<not> c_page_status (put_finish C (r_todo r) (r_ch r')) (c_curr_page (r_ch r'))"
proof (cases "c_page_status (put_finish C (r_todo r) (r_ch r')) (c_curr_page (r_ch r'))")
  case False
  have "c_page_status (r_ch r') (c_curr_page (r_ch r'))"
    using assms(4) by (auto simp: run_get_def cds_page_wait_def cds_get_buffer_def cds_next_page_def Let_def cds_offer_def
        split: if_splits)
  then show ?thesis using False put_finish_other by metis
next
  case st: True
  have C: "cds_cfg C" using assms(1) cds_cfg_init by simp
  obtain k where k: "ring_inv C k r" using reach_inv[OF C assms(2,3)] by blast
  have w: "r_wait r'" "r_live r' = r_live r" "\<not> r_stopped r'" "r_todo r' = r_todo r"
    using assms(3,4) by (auto simp: run_get_def split_def Let_def)
  obtain k' where "ring_inv C k' r'" using ring_get[OF C k] assms(4) w(3) by auto
  then have I: "run_inv_at C k' (done_run C r')" by (simp add: ring_inv_def)
  note D = run_inv_atD[OF I, unfolded done_run_sel put_finish_sel]
  let ?N = "p_pagenr C" and ?r = "done_run C r'"
  have N: "?N \<le> k'" using D(1) D(9)[of k'] w(1,4) st by (cases "?N \<le> k'") auto
  then have "page_ok C ?r (k' - ?N)" using D(8)[of "k' - ?N"] w(1) cds_cfgD(1)[OF C] by auto
  moreover have "(k' - ?N) mod ?N = k' mod ?N" using N by (simp add: le_mod_geq)
  ultimately have "card (used_up C ?r (k' - ?N)) < pgsz C" using w(4) st D(1) by (simp add: page_ok_def)
  then have "used_up C ?r (k' - ?N) \<noteq> cpage C (k' - ?N)" by auto
  moreover have "Suc (k' - ?N) * pgsz C \<le> k' * pgsz C" using N cds_cfgD(1)[OF C] by (intro mult_le_mono1) simp
  then have "cpage C (k' - ?N) \<subseteq> {..<r_n r'}" using D(3) by auto
  ultimately obtain s where s: "s \<in> r_live r'" "s \<in> cpage C (k' - ?N)"
    unfolding used_up_def done_run_sel by blast
  then have "s div pgsz C = k' - ?N" by (simp only: in_cpage)
  then have "get_page_idx C (of_nat s) = c_curr_page (r_ch r')"
    using D(1) N by (simp add: cds_cfgD(5)[OF C] le_mod_geq)
  then show ?thesis using s(1) w(2) by blast
qed

theorem cds_waits_for_live_witness:
  "cds_reach (cds_initialization 1 1) ex_full \<and> cds_reach (cds_initialization 1 1) ex_put \<and>
   fst (run_get (cds_initialization 1 1) ex_full) = Blocked \<and> fst (run_get (cds_initialization 1 1) ex_put) = Blocked \<and>
   (\<exists>s\<in>{0, 1, 2, 3}. get_page_idx (cds_initialization 1 1) (of_nat s) = 0) \<and>
   0 \<in> touched (r_todo ex_put) \<and>
   \<not> c_page_status (put_finish (cds_initialization 1 1) (r_todo ex_put) (r_ch (snd (run_get (cds_initialization 1 1) ex_put)))) 0"
proof -
  let ?C = "cds_initialization 1 1"
  have f: "fst (run_get ?C ex_full) = Blocked" "c_curr_page (r_ch (snd (run_get ?C ex_full))) = 0"
    "\<not> r_stopped ex_full" "r_live ex_full = {0, 1, 2, 3}" "r_todo ex_full = []"
    by (auto simp: cds_eval ex_full_def)
  have p: "fst (run_get ?C ex_put) = Blocked" "c_curr_page (r_ch (snd (run_get ?C ex_put))) = 0"
    "\<not> r_stopped ex_put" "r_live ex_put = {2, 3}"
    by (auto simp: cds_eval ex_full_def ex_put_def)
  from f(1) have F: "run_get ?C ex_full = (Blocked, snd (run_get ?C ex_full))" by (metis prod.collapse)
  from p(1) have P: "run_get ?C ex_put = (Blocked, snd (run_get ?C ex_put))" by (metis prod.collapse)
  have n: "\<not> (\<exists>s\<in>r_live ex_put. get_page_idx ?C (of_nat s) = 0)" unfolding p(4) by (simp add: cds_eval)
  have "0 \<in> touched (r_todo ex_put) \<and> \<not> c_page_status (put_finish ?C (r_todo ex_put) (r_ch (snd (run_get ?C ex_put)))) 0"
    using cds_waits_for_live[OF refl ex_runs(3) p(3) P] n unfolding p(2) by blast
  moreover have "\<exists>s\<in>{0, 1, 2, 3}. get_page_idx ?C (of_nat s) = 0"
    using cds_waits_for_live[OF refl ex_runs(2) f(3) F] unfolding f(2,4,5) by simp
  ultimately show ?thesis using ex_runs(2,3) f(1) p(1) by blast
qed

text \<open>After a stop the guarantee ends with the first NULL: \<open>cds_get_buffer\<close> has already moved to the
  start of the next page, so that a second call finds no full page, tests nothing and hands out this page,
  whatever it holds.\<close>

lemma cds_get_after_stop:
  assumes "c_curr_pos ch = p_pagesz C" "c_stop ch" "p_pagesz C \<noteq> 0"
  shows "cds_get_buffer C ch = (Stopped, cds_next_page C ch) \<and>
    cds_get_buffer C (cds_next_page C ch) =
      (Got (unat (p_pagesz C) * c_curr_page (cds_next_page C ch)) (p_pagesz C), cds_next_page C ch)"
  using assms by (auto simp: cds_get_buffer_def cds_page_wait_def cds_next_page_def cds_offer_def Let_def)

text \<open>A release by address (\<open>cds_put_buffer2\<close>) is the release by sequence number (\<open>cds_put_buffer\<close>) of the same bytes when
  these lie in one page, and never fails its assertion there.\<close>

lemma cds_put_buffer2_equiv:
  assumes "C = cds_initialization nrshift szshift" "0 < n" "s mod unat (p_pagesz C) + n \<le> unat (p_pagesz C)"
  shows "cds_put_buffer2 C (int (cds_position C (of_nat s))) (of_nat n) ch = Some (cds_put_buffer C (of_nat s) (of_nat n) ch)"
proof -
  have C: "cds_cfg C" using assms(1) cds_cfg_init by simp
  have p: "in_page C s n" using assms(2,3) by (simp add: in_page_def cds_cfgD(2)[OF C])
  have "cds_position C (of_nat s) \<le> unat (p_bufsz C)"
    unfolding cds_cfgD(6,7)[OF C] by (rule mod_le_divisor) (use cds_cfgD(1)[OF C] in simp)
  then have "int (cds_position C (of_nat s)) \<le> int (unat (p_bufsz C))" by (simp only: of_nat_le_iff)
  then have "int (cds_position C (of_nat s)) \<le> uint (p_bufsz C)" by simp
  moreover have "cds_position C (of_nat s) div pgsz C = s div pgsz C mod p_pagenr C"
    by (simp add: position_split[OF C])
  ultimately show ?thesis
    by (simp add: cds_put_buffer2_def c_assert_def Let_def put_in_page[OF C p] put_in_def)
qed

text \<open>\<open>cds_create_worker\<close> takes a channel that no worker has and makes it new, changes no other
  channel, and \<open>cds_cleanup\<close> of that index gives it back; it fails exactly when all channels are taken.\<close>

lemma cds_create_cleanup:
  assumes "length (p_channels C) = NID_MAX_CHANNELS"
  shows "case cds_create_worker C of (i, C') \<Rightarrow>
    if None \<in> set (p_channels C)
    then 0 \<le> i \<and> i < int NID_MAX_CHANNELS \<and> p_channels C ! nat i = None \<and> p_channels C' ! nat i = Some cds_new_channel \<and>
      (\<forall>j. j \<noteq> nat i \<longrightarrow> p_channels C' ! j = p_channels C ! j) \<and> cds_cleanup (nat i) C' = C
    else i = - 1 \<and> C' = C"
proof (cases "List.find (\<lambda>i. p_channels C ! i = None) [0..<NID_MAX_CHANNELS]")
  case None
  then have "None \<notin> set (p_channels C)" using assms by (auto simp: find_None_iff in_set_conv_nth)
  then show ?thesis using None by (simp add: cds_create_worker_def)
next
  case (Some i)
  then have i: "i < NID_MAX_CHANNELS" "p_channels C ! i = None"
    by (auto simp: find_Some_iff)
  then have "None \<in> set (p_channels C)" using assms by (metis nth_mem)
  moreover have "(p_channels C)[i := None] = p_channels C" using i(2) by (metis list_update_id)
  ultimately show ?thesis using Some i assms by (simp add: cds_create_worker_def cds_cleanup_def)
qed

end
