(* ===== verification/Allocator.thy ===== *)
theory Allocator
  imports Nid_Prelude
begin

text \<open>
  The allocator \<open>mm/allocator.c\<close>: every block of memory has a handle, which is on the list of its set;
  per set the allocator keeps the number of bytes and counts allocations and releases. A handle and
  its block of data are the two new addresses that \<open>x_calloc\<close>, \<open>x_malloc\<close> and \<open>x_posix_memalign\<close>
  return. \<open>a_heap\<close> is the memory of the process as far as it holds handles; it is no field of the allocator. The code never asks
  whether a handle is allocated: where it reads one that is not, its behaviour is undefined, and the model has \<open>None\<close>. The
  locks of the sets make each list update atomic.
\<close>

section \<open>State and operations\<close>

definition ALLOCATOR_ROLE_AGENT :: nat where "ALLOCATOR_ROLE_AGENT = 1"
definition ALLOCATOR_ROLE_SERVER :: nat where "ALLOCATOR_ROLE_SERVER = 2"
definition ALLOCATOR_SET_SERVER_MAX :: nat where "ALLOCATOR_SET_SERVER_MAX = 47"
definition ALLOCATOR_SET_AGENT_MAX :: nat where "ALLOCATOR_SET_AGENT_MAX = 5"

record allocator_handle =
  h_set_id :: nat
  h_data :: nat
  h_size :: u64

record allocator =
  a_role :: nat
  a_set_max :: nat
  a_set_heads :: "nat \<Rightarrow> nat list"
  a_size :: "nat \<Rightarrow> u64"
  a_getcounter :: "nat \<Rightarrow> u64"
  a_putcounter :: "nat \<Rightarrow> u64"
  a_heap :: "nat \<Rightarrow> allocator_handle option"
  a_next :: nat

definition allocator_initialization :: "nat \<Rightarrow> allocator" where
  "allocator_initialization role =
     \<lparr>a_role = role,
      a_set_max = (if role = ALLOCATOR_ROLE_SERVER then ALLOCATOR_SET_SERVER_MAX
                   else if role = ALLOCATOR_ROLE_AGENT then ALLOCATOR_SET_AGENT_MAX else 0),
      a_set_heads = (\<lambda>_. []), a_size = (\<lambda>_. 0), a_getcounter = (\<lambda>_. 0), a_putcounter = (\<lambda>_. 0),
      a_heap = (\<lambda>_. None), a_next = 0\<rparr>"

text \<open>What the three ways to allocate share: a new handle for new data, its size, the list of the set.\<close>

definition allocator_enlist :: "nat \<Rightarrow> u64 \<Rightarrow> allocator \<Rightarrow> nat \<times> allocator" where
  "allocator_enlist set_id sz A =
     (let h = a_next A in
      (h, A\<lparr>a_set_heads := (a_set_heads A)(set_id := a_set_heads A set_id @ [h]),
            a_size := (a_size A)(set_id := a_size A set_id + sz),
            a_getcounter := (a_getcounter A)(set_id := a_getcounter A set_id + 1),
            a_heap := (a_heap A)(h \<mapsto> \<lparr>h_set_id = set_id, h_data = Suc h, h_size = sz\<rparr>),
            a_next := Suc (Suc h)\<rparr>))"

definition allocator_calloc :: "nat \<Rightarrow> u64 \<Rightarrow> u64 \<Rightarrow> allocator \<Rightarrow> (nat \<times> allocator) option" where
  "allocator_calloc set_id nmemb sz A =
     do { c_assert (set_id < a_set_max A); Some (allocator_enlist set_id (nmemb * sz) A) }"

definition allocator_malloc :: "nat \<Rightarrow> u64 \<Rightarrow> allocator \<Rightarrow> (nat \<times> allocator) option" where
  "allocator_malloc set_id sz A =
     do { c_assert (set_id < a_set_max A); Some (allocator_enlist set_id sz A) }"

definition allocator_memalign :: "nat \<Rightarrow> u64 \<Rightarrow> u64 \<Rightarrow> allocator \<Rightarrow> (nat \<times> allocator) option" where
  "allocator_memalign set_id boundary sz A =
     do {
       c_assert (set_id < a_set_max A);
       Some (allocator_enlist set_id
               (if sz mod boundary = 0 then sz else boundary * (sz div boundary + 1)) A)
     }"

definition allocator_free :: "nat \<Rightarrow> allocator \<Rightarrow> allocator option" where
  "allocator_free h A =
     do {
       hn \<leftarrow> a_heap A h;
       let i = h_set_id hn;
       Some (A\<lparr>a_set_heads := (a_set_heads A)(i := remove1 h (a_set_heads A i)),
               a_size := (a_size A)(i := a_size A i - h_size hn),
               a_putcounter := (a_putcounter A)(i := a_putcounter A i + 1),
               a_heap := (a_heap A)(h := None)\<rparr>)
     }"

definition allocator_get_data :: "nat \<Rightarrow> allocator \<Rightarrow> nat option" where
  "allocator_get_data h A =
     do { hn \<leftarrow> a_heap A h; c_assert (a_set_heads A (h_set_id hn) \<noteq> []); Some (h_data hn) }"

text \<open>\<open>allocator_get\<close> adds up, per set, the sizes of the handles on the list.\<close>

definition handle_size :: "allocator \<Rightarrow> nat \<Rightarrow> u64" where
  "handle_size A h = (case a_heap A h of Some hn \<Rightarrow> h_size hn | None \<Rightarrow> 0)"

definition allocator_get :: "allocator \<Rightarrow> nat \<Rightarrow> u64" where
  "allocator_get A i = sum_list (map (handle_size A) (a_set_heads A i))"

section \<open>Invariant\<close>

definition alloc_inv :: "allocator \<Rightarrow> bool" where
  "alloc_inv A \<longleftrightarrow>
     (\<forall>h hn. a_heap A h = Some hn \<longrightarrow> h < a_next A \<and> h_data hn = Suc h \<and> Suc h < a_next A \<and> h_set_id hn < a_set_max A) \<and>
     (\<forall>i. distinct (a_set_heads A i) \<and>
       set (a_set_heads A i) = {h. \<exists>hn. a_heap A h = Some hn \<and> h_set_id hn = i} \<and>
       a_size A i = allocator_get A i \<and> a_getcounter A i = a_putcounter A i + of_nat (length (a_set_heads A i)))"

lemma alloc_invD:
  assumes "alloc_inv A"
  shows "a_heap A h = Some hn \<Longrightarrow> h < a_next A \<and> h_data hn = Suc h \<and> Suc h < a_next A \<and> h_set_id hn < a_set_max A"
    "distinct (a_set_heads A i)" "h \<in> set (a_set_heads A i) \<longleftrightarrow> (\<exists>hn. a_heap A h = Some hn \<and> h_set_id hn = i)"
    "a_size A i = allocator_get A i" "a_getcounter A i = a_putcounter A i + of_nat (length (a_set_heads A i))"
  using assms unfolding alloc_inv_def by blast+

lemma alloc_inv_init: "alloc_inv (allocator_initialization role)"
  by (simp add: alloc_inv_def allocator_initialization_def allocator_get_def)

lemma alloc_enlist_inv:
  assumes "alloc_inv A" "set_id < a_set_max A"
  shows "alloc_inv (snd (allocator_enlist set_id sz A))" (is "alloc_inv ?A")
proof -
  note D = alloc_invD[OF assms(1)]
  have new: "a_heap A (a_next A) = None" using D(1)[of "a_next A"] by (cases "a_heap A (a_next A)") auto
  then have out: "a_next A \<notin> set (a_set_heads A i)" for i using D(3)[of "a_next A" i] by simp
  have heap: "a_heap ?A h = (if h = a_next A then Some \<lparr>h_set_id = set_id, h_data = Suc h, h_size = sz\<rparr> else a_heap A h)" for h
    by (simp add: allocator_enlist_def Let_def)
  have heads: "a_set_heads ?A i = (if i = set_id then a_set_heads A i @ [a_next A] else a_set_heads A i)" for i
    by (simp add: allocator_enlist_def Let_def)
  have sum: "allocator_get ?A i = allocator_get A i + (if i = set_id then sz else 0)" for i
  proof -
    have "sum_list (map (handle_size ?A) (a_set_heads A i)) = sum_list (map (handle_size A) (a_set_heads A i))"
      using out[of i] by (intro arg_cong[of _ _ sum_list] map_cong) (auto simp: handle_size_def heap)
    moreover have "handle_size ?A (a_next A) = sz" by (simp add: handle_size_def heap)
    ultimately show ?thesis by (cases "i = set_id") (simp_all add: allocator_get_def heads)
  qed
  have rest: "a_size ?A i = a_size A i + (if i = set_id then sz else 0)" "a_next ?A = Suc (Suc (a_next A))"
    "a_getcounter ?A i = a_getcounter A i + (if i = set_id then 1 else 0)" "a_putcounter ?A i = a_putcounter A i"
    "a_set_max ?A = a_set_max A" for i
    by (simp_all add: allocator_enlist_def Let_def)
  have h: "h < a_next ?A \<and> h_data hn = Suc h \<and> Suc h < a_next ?A \<and> h_set_id hn < a_set_max ?A"
    if "a_heap ?A h = Some hn" for h hn
    using that D(1)[of h hn] assms(2) unfolding heap rest by (auto split: if_splits)
  have s: "distinct (a_set_heads ?A i) \<and> set (a_set_heads ?A i) = {h. \<exists>hn. a_heap ?A h = Some hn \<and> h_set_id hn = i}" for i
    using D(2)[of i] D(3) out[of i] new unfolding heads heap by auto
  have "a_size ?A i = allocator_get ?A i" for i using D(4)[of i] unfolding rest sum by simp
  moreover have "a_getcounter ?A i = a_putcounter ?A i + of_nat (length (a_set_heads ?A i))" for i
    using D(5)[of i] unfolding rest heads by simp
  ultimately show ?thesis unfolding alloc_inv_def using h s by blast
qed

lemma sum_list_remove1:
  fixes f :: "'a \<Rightarrow> u64"
  shows "h \<in> set xs \<Longrightarrow> sum_list (map f (remove1 h xs)) = sum_list (map f xs) - f h"
  by (induction xs) auto

lemma alloc_free_inv:
  assumes "alloc_inv A" "allocator_free h A = Some A'"
  shows "alloc_inv A'"
proof -
  note D = alloc_invD[OF assms(1)]
  from assms(2) obtain hn where hn: "a_heap A h = Some hn" by (auto simp: allocator_free_def bind_eq_Some_conv)
  define i0 where "i0 = h_set_id hn"
  have A': "a_heap A' x = (if x = h then None else a_heap A x)"
    "a_set_heads A' i = (if i = i0 then remove1 h (a_set_heads A i) else a_set_heads A i)"
    "a_size A' i = a_size A i - (if i = i0 then h_size hn else 0)" "a_next A' = a_next A"
    "a_getcounter A' i = a_getcounter A i" "a_putcounter A' i = a_putcounter A i + (if i = i0 then 1 else 0)"
    "a_set_max A' = a_set_max A" for i x
    using assms(2) hn by (auto simp: allocator_free_def Let_def i0_def)
  have mem: "h \<in> set (a_set_heads A i) \<longleftrightarrow> i = i0" for i using D(3)[of h i] hn by (auto simp: i0_def)
  have sum: "allocator_get A' i = allocator_get A i - (if i = i0 then h_size hn else 0)" for i
  proof -
    have "h \<notin> set (a_set_heads A' i)" using D(2)[of i] mem[of i] unfolding A' by auto
    then have "sum_list (map (handle_size A') (a_set_heads A' i)) = sum_list (map (handle_size A) (a_set_heads A' i))"
      by (intro arg_cong[of _ _ sum_list] map_cong) (auto simp: handle_size_def A'(1))
    moreover have "handle_size A h = h_size hn" using hn by (simp add: handle_size_def)
    ultimately show ?thesis
      using mem[of i] by (cases "i = i0") (simp_all add: allocator_get_def A'(2) sum_list_remove1)
  qed
  have h: "x < a_next A' \<and> h_data xn = Suc x \<and> Suc x < a_next A' \<and> h_set_id xn < a_set_max A'"
    if "a_heap A' x = Some xn" for x xn
    using that D(1)[of x xn] unfolding A' by (auto split: if_splits)
  have s: "distinct (a_set_heads A' i) \<and> set (a_set_heads A' i) = {h. \<exists>hn. a_heap A' h = Some hn \<and> h_set_id hn = i}" for i
    using D(2)[of i] D(3) mem hn unfolding A' by (auto simp: i0_def)
  have len: "length (a_set_heads A i0) = Suc (length (remove1 h (a_set_heads A i0)))"
    using mem[of i0] length_pos_if_in_set[of h "a_set_heads A i0"] by (simp add: length_remove1)
  have "a_size A' i = allocator_get A' i" for i using D(4)[of i] unfolding A' sum by simp
  moreover have "a_getcounter A' i = a_putcounter A' i + of_nat (length (a_set_heads A' i))" for i
    using D(5)[of i] len unfolding A' by auto
  ultimately show ?thesis unfolding alloc_inv_def using h s by blast
qed

section \<open>The contract of an allocator\<close>

text \<open>What the clients rely on: a handle they get was not in use, nothing else changes its state, a
  handle in use can be given back; giving back another one is undefined.\<close>

locale block_store =
  fixes store_inv :: "'s \<Rightarrow> bool" and live :: "'s \<Rightarrow> nat \<Rightarrow> 'v option"
    and get :: "'s \<Rightarrow> (nat \<times> 's) option" and put :: "nat \<Rightarrow> 's \<Rightarrow> 's option"
  assumes get_fresh: "store_inv s \<Longrightarrow> get s = Some (h, s') \<Longrightarrow>
      store_inv s' \<and> live s h = None \<and> live s' h \<noteq> None \<and> (\<forall>x. x \<noteq> h \<longrightarrow> live s' x = live s x)"
    and put_live: "store_inv s \<Longrightarrow> live s h \<noteq> None \<Longrightarrow>
      \<exists>s'. put h s = Some s' \<and> store_inv s' \<and> live s' = (live s)(h := None)"
    and put_dead: "live s h = None \<Longrightarrow> put h s = None"
begin

lemma get_then_put:
  assumes "store_inv s" "get s = Some (h, s')"
  shows "\<exists>s''. put h s' = Some s'' \<and> store_inv s'' \<and> live s'' = live s"
proof -
  from get_fresh[OF assms] have g: "store_inv s'" "live s h = None" "live s' h \<noteq> None"
    "\<forall>x. x \<noteq> h \<longrightarrow> live s' x = live s x" by auto
  from put_live[OF g(1,3)] obtain s'' where "put h s' = Some s''" "store_inv s''" "live s'' = (live s')(h := None)" by blast
  moreover have "(live s')(h := None) = live s" using g(2,4) by (auto simp: fun_eq_iff)
  ultimately show ?thesis by simp
qed

lemma put_twice:
  assumes "store_inv s" "put h s = Some s'"
  shows "put h s' = None"
proof -
  have "live s h \<noteq> None" using assms(2) put_dead[of s h] by auto
  from put_live[OF assms(1) this] assms(2) have "live s' h = None" by auto
  then show ?thesis by (rule put_dead)
qed

end

lemma enlist_fresh:
  assumes "alloc_inv A" "set_id < a_set_max A" "allocator_enlist set_id sz A = (h, A')"
  shows "alloc_inv A' \<and> a_heap A h = None \<and> a_heap A' h \<noteq> None \<and> (\<forall>x. x \<noteq> h \<longrightarrow> a_heap A' x = a_heap A x)"
proof -
  have "a_heap A (a_next A) = None" using alloc_invD(1)[OF assms(1), of "a_next A"] by (cases "a_heap A (a_next A)") auto
  moreover have "alloc_inv A'" using alloc_enlist_inv[OF assms(1,2), of sz] assms(3) by simp
  ultimately show ?thesis using assms(3) by (auto simp: allocator_enlist_def Let_def)
qed

lemma free_live:
  assumes "alloc_inv A" "a_heap A h \<noteq> None"
  shows "\<exists>A'. allocator_free h A = Some A' \<and> alloc_inv A' \<and> a_heap A' = (a_heap A)(h := None)"
proof -
  from assms(2) obtain hn where "a_heap A h = Some hn" by auto
  then obtain A' where A': "allocator_free h A = Some A'" "a_heap A' = (a_heap A)(h := None)"
    by (auto simp: allocator_free_def Let_def)
  with alloc_free_inv[OF assms(1) A'(1)] show ?thesis by blast
qed

lemma free_dead: "a_heap A h = None \<Longrightarrow> allocator_free h A = None"
  by (simp add: allocator_free_def)

interpretation ac: block_store alloc_inv a_heap "allocator_calloc set_id nmemb sz" allocator_free
proof (unfold_locales, goal_cases)
  case 1
  then show ?case using enlist_fresh by (fastforce simp: allocator_calloc_def)
qed (use free_live in \<open>auto simp: free_dead\<close>)

interpretation am: block_store alloc_inv a_heap "allocator_memalign set_id boundary sz" allocator_free
proof (unfold_locales, goal_cases)
  case 1
  then show ?case using enlist_fresh by (fastforce simp: allocator_memalign_def)
qed (use free_live in \<open>auto simp: free_dead\<close>)

inductive alloc_reach :: "nat \<Rightarrow> allocator \<Rightarrow> bool" for role where
  init: "alloc_reach role (allocator_initialization role)"
| calloc: "alloc_reach role A \<Longrightarrow> allocator_calloc set_id nmemb sz A = Some (h, A') \<Longrightarrow> alloc_reach role A'"
| malloc: "alloc_reach role A \<Longrightarrow> allocator_malloc set_id sz A = Some (h, A') \<Longrightarrow> alloc_reach role A'"
| memalign: "alloc_reach role A \<Longrightarrow> allocator_memalign set_id boundary sz A = Some (h, A') \<Longrightarrow> alloc_reach role A'"
| free: "alloc_reach role A \<Longrightarrow> allocator_free h A = Some A' \<Longrightarrow> alloc_reach role A'"

lemma alloc_reach_inv: "alloc_reach role A \<Longrightarrow> alloc_inv A"
proof (induction rule: alloc_reach.induct)
  case (malloc A set_id sz h A')
  then show ?case using enlist_fresh by (fastforce simp: allocator_malloc_def)
qed (use alloc_inv_init ac.get_fresh am.get_fresh alloc_free_inv in blast)+

text \<open>C37. The books of the allocator are right after any sequence of allocations and releases of allocated handles: the size
  it keeps of a set is the sum of the sizes of the handles on the list of the set, the allocations exceed the releases by the length of the
  list, and a handle is on one list at most and there once. Every handle on a list is allocated memory: its release
  does not touch freed memory, takes it off its list, and leaves all the other handles allocated and on their lists.\<close>

theorem allocator_accounting:
  assumes "alloc_reach role A"
  shows "a_size A i = allocator_get A i \<and> a_getcounter A i - a_putcounter A i = of_nat (length (a_set_heads A i)) \<and>
    distinct (a_set_heads A i) \<and> (\<forall>j. j \<noteq> i \<longrightarrow> set (a_set_heads A i) \<inter> set (a_set_heads A j) = {}) \<and>
    (\<forall>h \<in> set (a_set_heads A i). \<exists>A'. allocator_free h A = Some A' \<and> h \<notin> set (a_set_heads A' i) \<and>
      (\<forall>j g. g \<in> set (a_set_heads A j) \<and> g \<noteq> h \<longrightarrow> g \<in> set (a_set_heads A' j) \<and> allocator_get_data g A' = allocator_get_data g A))"
proof -
  have I: "alloc_inv A" using alloc_reach_inv[OF assms] .
  note D = alloc_invD[OF I]
  have "\<exists>A'. allocator_free h A = Some A' \<and> h \<notin> set (a_set_heads A' i) \<and>
      (\<forall>j g. g \<in> set (a_set_heads A j) \<and> g \<noteq> h \<longrightarrow> g \<in> set (a_set_heads A' j) \<and> allocator_get_data g A' = allocator_get_data g A)"
    if h: "h \<in> set (a_set_heads A i)" for h
  proof -
    have "a_heap A h \<noteq> None" using h D(3)[of h i] by auto
    then obtain A' where A': "allocator_free h A = Some A'" "alloc_inv A'" "a_heap A' = (a_heap A)(h := None)" using free_live[OF I] by blast
    note D' = alloc_invD(3)[OF A'(2)]
    have "g \<in> set (a_set_heads A' j) \<and> allocator_get_data g A' = allocator_get_data g A" if g: "g \<in> set (a_set_heads A j)" "g \<noteq> h" for j g
    proof -
      have "g \<in> set (a_set_heads A' j)" using g D(3)[of g j] D'[of g j] A'(3) by simp
      moreover from this have "a_set_heads A' j \<noteq> []" "a_set_heads A j \<noteq> []" using g(1) by auto
      ultimately show ?thesis using g D(3)[of g j] A'(3) by (auto simp: allocator_get_data_def)
    qed
    then show ?thesis using A' D'[of h i] by auto
  qed
  moreover have "set (a_set_heads A i) \<inter> set (a_set_heads A j) = {}" if "j \<noteq> i" for j using that D(3) by auto
  ultimately show ?thesis using D(2,4,5)[of i] by simp
qed

theorem allocator_accounting_witness:
  "\<exists>A A'. allocator_malloc 1 100 (allocator_initialization ALLOCATOR_ROLE_AGENT) = Some (0, A) \<and> a_size A 1 = allocator_get A 1 \<and>
    allocator_free 0 A = Some A' \<and> 0 \<notin> set (a_set_heads A' 1)"
proof -
  obtain A where A: "allocator_malloc 1 100 (allocator_initialization ALLOCATOR_ROLE_AGENT) = Some (0, A)" "0 \<in> set (a_set_heads A 1)"
    by (simp add: allocator_malloc_def allocator_enlist_def allocator_initialization_def ALLOCATOR_ROLE_AGENT_def
        ALLOCATOR_ROLE_SERVER_def ALLOCATOR_SET_AGENT_MAX_def Let_def)
  with allocator_accounting[OF alloc_reach.malloc[OF alloc_reach.init A(1)], of 1] show ?thesis by blast
qed

end
