(* ===== verification/Pp.thy ===== *)
theory Pp
  imports Allocator
begin

text \<open>
  The page pool \<open>mm/pp.c\<close>, a client of the allocator. A page node is known by its address, the data of
  its handle; \<open>pp_nodes\<close> holds the fields of the nodes that the pool reads or writes. \<open>None\<close> is an
  abort (a failed assertion or the release of memory that is not allocated) and, for the two loops
  that extend the pool, also a loop that never ends. A wait
  on the condition variable is the outcome \<open>PpWait\<close>, after which the waiter goes on with
  \<open>pp_get_wait\<close> or \<open>pp_timed_wakeup\<close>. \<open>ps\<close> is the value of \<open>getpagesize\<close>. The functions here are operations that no other thread
  interrupts; the code gives the mutex up while it extends the pool, and \<open>Pp_Run\<close> takes the requests apart at these points.
\<close>

section \<open>State\<close>

definition DEFAULT_PP_PAGESZSHIFT :: u8 where "DEFAULT_PP_PAGESZSHIFT = 23"
definition DEFAULT_POOLSIZE :: u32 where "DEFAULT_POOLSIZE = 1024"
definition PP_WHERE_FREE :: u8 where "PP_WHERE_FREE = 1"

text \<open>The size of a page node under the LP64 rules.\<close>

definition sizeof_pp_page_node :: u64 where "sizeof_pp_page_node = 136"

record pp_page_node =
  pp_handle :: nat
  pp_page_handle :: "nat option"
  pp_page :: "nat option"
  pp_where :: u8
  pp_oob :: u8

record pp_private =
  pp_allocator :: allocator
  pp_set_id :: nat
  pp_free_head :: "nat list"
  pp_poolsz :: u32
  pp_poollen :: u32
  pp_extendn :: u32
  pp_nfree :: u32
  pp_pagesz :: u32
  pp_pageszshift :: u8
  pp_nodes :: "nat \<Rightarrow> pp_page_node"

datatype pp_got = PpNode nat | PpNull | PpWait

section \<open>Operations\<close>

definition pp_alloc_node :: "u64 \<Rightarrow> u8 \<Rightarrow> pp_private \<Rightarrow> (nat \<times> pp_private) option" where
  "pp_alloc_node ps oob S =
     do {
       (h, A) \<leftarrow> allocator_calloc (pp_set_id S) 1 sizeof_pp_page_node (pp_allocator S);
       np \<leftarrow> allocator_get_data h A;
       (ph, A) \<leftarrow> allocator_memalign (pp_set_id S) ps (ucast (pp_pagesz S)) A;
       page \<leftarrow> allocator_get_data ph A;
       Some (np, S\<lparr>pp_allocator := A,
                   pp_nodes := (pp_nodes S)(np := \<lparr>pp_handle = h, pp_page_handle = Some ph, pp_page = Some page,
                                                  pp_where = PP_WHERE_FREE, pp_oob = oob\<rparr>)\<rparr>)
     }"

definition pp_release :: "nat \<Rightarrow> pp_private \<Rightarrow> pp_private option" where
  "pp_release np S =
     do {
       ph \<leftarrow> pp_page_handle (pp_nodes S np);
       A \<leftarrow> allocator_free ph (pp_allocator S);
       A \<leftarrow> allocator_free (pp_handle (pp_nodes S np)) A;
       Some (S\<lparr>pp_allocator := A\<rparr>)
     }"

definition pp_push :: "nat \<Rightarrow> pp_private \<Rightarrow> pp_private" where
  "pp_push np S = S\<lparr>pp_free_head := np # pp_free_head S, pp_nfree := pp_nfree S + 1\<rparr>"

text \<open>The part of a turn of \<open>_pp_extend\<close> that holds the mutex: the pool may have grown since the test at its start.\<close>

definition pp_extend_add :: "nat \<Rightarrow> pp_private \<Rightarrow> (bool \<times> pp_private) option" where
  "pp_extend_add np S =
     (if pp_poollen S < pp_poolsz S
      then Some (True, pp_push np (S\<lparr>pp_poollen := pp_poollen S + 1\<rparr>))
      else do { S \<leftarrow> pp_release np S; Some (False, S) })"

definition pp_extend_step :: "u64 \<Rightarrow> pp_private \<Rightarrow> (bool \<times> pp_private) option" where
  "pp_extend_step ps S = do { (np, S) \<leftarrow> pp_alloc_node ps 0 S; pp_extend_add np S }"

primrec pp_extend_loop :: "u64 \<Rightarrow> nat \<Rightarrow> pp_private \<Rightarrow> pp_private option" where
  "pp_extend_loop ps 0 S = Some S"
| "pp_extend_loop ps (Suc n) S =
     do { (go, S) \<leftarrow> pp_extend_step ps S; if go then pp_extend_loop ps n S else Some S }"

definition pp_extend :: "u64 \<Rightarrow> pp_private \<Rightarrow> pp_private option" where
  "pp_extend ps S =
     (if pp_poollen S \<ge> pp_poolsz S then Some S
      else let to_extend = (if pp_poollen S + pp_extendn S > pp_poolsz S then pp_poolsz S - pp_poollen S
                            else pp_extendn S)
           in pp_extend_loop ps (nat (sint to_extend)) S)"

partial_function (option) pp_fill :: "u64 \<Rightarrow> pp_private \<Rightarrow> pp_private option" where
  "pp_fill ps S =
     (if pp_nfree S = 0 \<and> pp_poolsz S > pp_poollen S
      then Option.bind (pp_extend ps S) (pp_fill ps) else Some S)"

definition pp_take :: "pp_private \<Rightarrow> (nat \<times> pp_private) option" where
  "pp_take S =
     (case pp_free_head S of
        [] \<Rightarrow> None
      | np # rest \<Rightarrow>
          do {
            c_assert (pp_where (pp_nodes S np) = PP_WHERE_FREE);
            Some (np, S\<lparr>pp_free_head := rest, pp_nfree := pp_nfree S - 1\<rparr>)
          })"

definition pp_take_or :: "pp_got \<Rightarrow> pp_private \<Rightarrow> (pp_got \<times> pp_private) option" where
  "pp_take_or g S =
     (if pp_nfree S = 0 then Some (g, S) else do { (np, S) \<leftarrow> pp_take S; Some (PpNode np, S) })"

definition pp_get_wait :: "pp_private \<Rightarrow> (pp_got \<times> pp_private) option" where
  "pp_get_wait S = pp_take_or PpWait S"

definition pp_get_node :: "u64 \<Rightarrow> pp_private \<Rightarrow> (pp_got \<times> pp_private) option" where
  "pp_get_node ps S = do { S \<leftarrow> pp_fill ps S; pp_get_wait S }"

definition pp_get_node_timed :: "u64 \<Rightarrow> pp_private \<Rightarrow> (pp_got \<times> pp_private) option" where
  "pp_get_node_timed ps S = do { S \<leftarrow> pp_fill ps S; pp_take_or PpWait S }"

definition pp_timed_wakeup :: "pp_private \<Rightarrow> (pp_got \<times> pp_private) option" where
  "pp_timed_wakeup S = pp_take_or PpNull S"

definition pp_get_node_nowait :: "u64 \<Rightarrow> pp_private \<Rightarrow> (pp_got \<times> pp_private) option" where
  "pp_get_node_nowait ps S = do { S \<leftarrow> pp_fill ps S; pp_take_or PpNull S }"

definition pp_get_node_forcibly :: "u64 \<Rightarrow> pp_private \<Rightarrow> (nat \<times> pp_private) option" where
  "pp_get_node_forcibly ps S =
     do {
       S \<leftarrow> pp_fill ps S;
       if pp_nfree S = 0 then pp_alloc_node ps 1 S
       else do {
         (np, S) \<leftarrow> pp_take S;
         c_assert (pp_oob (pp_nodes S np) = 0);
         Some (np, S)
       }
     }"

definition pp_get_node_nondata :: "pp_private \<Rightarrow> (nat \<times> pp_private) option" where
  "pp_get_node_nondata S =
     do {
       (h, A) \<leftarrow> allocator_calloc (pp_set_id S) 1 sizeof_pp_page_node (pp_allocator S);
       np \<leftarrow> allocator_get_data h A;
       Some (np, S\<lparr>pp_allocator := A,
                   pp_nodes := (pp_nodes S)(np := \<lparr>pp_handle = h, pp_page_handle = None, pp_page = None,
                                                  pp_where = 0, pp_oob = 0\<rparr>)\<rparr>)
     }"

definition pp_free_node :: "nat \<Rightarrow> pp_private \<Rightarrow> pp_private option" where
  "pp_free_node np S =
     (if pp_page (pp_nodes S np) = None
      then do { A \<leftarrow> allocator_free (pp_handle (pp_nodes S np)) (pp_allocator S); Some (S\<lparr>pp_allocator := A\<rparr>) }
      else if pp_oob (pp_nodes S np) \<noteq> 0 then pp_release np S
      else Some (pp_push np (S\<lparr>pp_nodes := (pp_nodes S)(np := (pp_nodes S np)\<lparr>pp_where := PP_WHERE_FREE\<rparr>)\<rparr>)))"

definition pp_free_data :: "nat \<Rightarrow> pp_private \<Rightarrow> pp_private option" where
  "pp_free_data np S =
     (if pp_oob (pp_nodes S np) \<noteq> 0
      then do {
        ph \<leftarrow> pp_page_handle (pp_nodes S np);
        A \<leftarrow> allocator_free ph (pp_allocator S);
        Some (S\<lparr>pp_allocator := A\<rparr>)
      }
      else do {
        (h, A) \<leftarrow> allocator_calloc (pp_set_id S) 1 sizeof_pp_page_node (pp_allocator S);
        new_np \<leftarrow> allocator_get_data h A;
        let old = pp_nodes S np;
        Some (pp_push new_np (S\<lparr>pp_allocator := A,
          pp_nodes := (pp_nodes S)
            (np := old\<lparr>pp_page := None, pp_page_handle := None\<rparr>,
             new_np := \<lparr>pp_handle = h, pp_page_handle = pp_page_handle old, pp_page = pp_page old,
                        pp_where = PP_WHERE_FREE, pp_oob = 0\<rparr>)\<rparr>))
      })"

definition pp_get_avail :: "pp_private \<Rightarrow> u32" where
  "pp_get_avail S = pp_poolsz S - pp_poollen S + pp_nfree S"

fun pp_destroy_loop :: "nat list \<Rightarrow> pp_private \<Rightarrow> pp_private option" where
  "pp_destroy_loop [] S = Some S"
| "pp_destroy_loop (np # rest) S =
     do {
       S \<leftarrow> pp_release np (S\<lparr>pp_free_head := rest, pp_nfree := pp_nfree S - 1\<rparr>);
       pp_destroy_loop rest S
     }"

definition pp_destroy :: "pp_private \<Rightarrow> pp_private option" where
  "pp_destroy S =
     do {
       c_assert (pp_poollen S = pp_nfree S);
       S \<leftarrow> pp_destroy_loop (pp_free_head S) S;
       c_assert (pp_nfree S = 0);
       Some S
     }"

text \<open>The loop runs on a page size that is not 0, and its halves are not 0 either.\<close>

function pp_shift :: "u32 \<Rightarrow> u8 \<Rightarrow> u8" where
  "pp_shift pagesz k = (if pagesz = 1 \<or> pagesz = 0 then k else pp_shift (drop_bit 1 pagesz) (k + 1))"
  by pat_completeness auto
termination
proof (relation "measure (\<lambda>(p, k). unat p)")
  fix p :: u32 and k :: u8
  assume "\<not> (p = 1 \<or> p = 0)"
  then have "0 < unat p" by (simp add: unat_gt_0)
  then show "((drop_bit 1 p, k + 1), p, k) \<in> measure (\<lambda>(p, k). unat p)"
    by (simp add: drop_bit_eq_div unat_div)
qed simp

partial_function (option) pp_first_pages :: "u64 \<Rightarrow> u32 \<Rightarrow> pp_private \<Rightarrow> pp_private option" where
  "pp_first_pages ps pool_len S =
     (if pp_poollen S < pool_len then Option.bind (pp_extend ps S) (pp_first_pages ps pool_len) else Some S)"

definition pp_new :: "allocator \<Rightarrow> nat \<Rightarrow> u32 \<Rightarrow> u32 \<Rightarrow> pp_private" where
  "pp_new A set_id page_size pool_size =
     \<lparr>pp_allocator = A, pp_set_id = set_id, pp_free_head = [],
      pp_poolsz = (if pool_size \<noteq> 0 then pool_size else DEFAULT_POOLSIZE),
      pp_poollen = 0, pp_extendn = 4, pp_nfree = 0,
      pp_pagesz = (if page_size \<noteq> 0 then push_bit 20 page_size else push_bit (unat DEFAULT_PP_PAGESZSHIFT) 1),
      pp_pageszshift = (if page_size \<noteq> 0 then pp_shift page_size 20 else DEFAULT_PP_PAGESZSHIFT),
      pp_nodes = (\<lambda>_. \<lparr>pp_handle = 0, pp_page_handle = None, pp_page = None, pp_where = 0, pp_oob = 0\<rparr>)\<rparr>"

definition pp_initialization :: "u64 \<Rightarrow> allocator \<Rightarrow> nat \<Rightarrow> u32 \<Rightarrow> u32 \<Rightarrow> pp_private option" where
  "pp_initialization ps A set_id page_size pool_size =
     (let S = pp_new A set_id page_size pool_size;
          pool_len = (if pp_extendn S = 0 then pp_poolsz S else pp_extendn S)
      in pp_first_pages ps pool_len S)"

end
