(* ===== verification/Pp_Inv.thy ===== *)
theory Pp_Inv
  imports Pp
begin

text \<open>
  Correctness of the page pool. The memory part \<open>pp_mem P D S\<close> of the invariant says that the nodes in
  \<open>P\<close> own a handle and a page, the nodes in \<open>D\<close> a handle only, and no two of them share any; the
  whole invariant \<open>pp_inv E H X D S\<close> adds the books of the pool, for the nodes \<open>H\<close> of the pool that
  clients hold, the nodes \<open>X\<close> that were allocated beyond the pool, and the nodes \<open>D\<close> without data; \<open>E\<close> are the
  nodes among \<open>X\<close> that a thread has allocated and not yet added to the pool.
\<close>

section \<open>Memory\<close>

definition pp_mem :: "nat set \<Rightarrow> nat set \<Rightarrow> pp_private \<Rightarrow> bool" where
  "pp_mem P D S \<longleftrightarrow>
     alloc_inv (pp_allocator S) \<and> pp_set_id S < a_set_max (pp_allocator S) \<and> P \<inter> D = {} \<and>
     (\<forall>n\<in>P \<union> D. n = Suc (pp_handle (pp_nodes S n)) \<and> a_heap (pp_allocator S) (pp_handle (pp_nodes S n)) \<noteq> None) \<and>
     (\<forall>n\<in>P. \<exists>p. pp_page_handle (pp_nodes S n) = Some p \<and> pp_page (pp_nodes S n) = Some (Suc p) \<and>
        a_heap (pp_allocator S) p \<noteq> None) \<and>
     (\<forall>n\<in>D. pp_page (pp_nodes S n) = None) \<and>
     inj_on (\<lambda>n. pp_page_handle (pp_nodes S n)) P \<and>
     (\<forall>n\<in>P. \<forall>m\<in>P \<union> D. pp_page_handle (pp_nodes S n) \<noteq> Some (pp_handle (pp_nodes S m)))"

lemma pp_memD:
  assumes "pp_mem P D S"
  shows "alloc_inv (pp_allocator S)" "pp_set_id S < a_set_max (pp_allocator S)" "P \<inter> D = {}"
    "n \<in> P \<union> D \<Longrightarrow> n = Suc (pp_handle (pp_nodes S n))"
    "n \<in> P \<union> D \<Longrightarrow> a_heap (pp_allocator S) (pp_handle (pp_nodes S n)) \<noteq> None"
    "n \<in> P \<Longrightarrow> \<exists>p. pp_page_handle (pp_nodes S n) = Some p \<and> pp_page (pp_nodes S n) = Some (Suc p) \<and>
        a_heap (pp_allocator S) p \<noteq> None"
    "n \<in> D \<Longrightarrow> pp_page (pp_nodes S n) = None"
    "inj_on (\<lambda>n. pp_page_handle (pp_nodes S n)) P"
    "n \<in> P \<Longrightarrow> m \<in> P \<union> D \<Longrightarrow> pp_page_handle (pp_nodes S n) \<noteq> Some (pp_handle (pp_nodes S m))"
  using assms unfolding pp_mem_def by blast+

lemma pp_memI:
  assumes "alloc_inv (pp_allocator S)" "pp_set_id S < a_set_max (pp_allocator S)" "P \<inter> D = {}"
    "\<And>n. n \<in> P \<union> D \<Longrightarrow> n = Suc (pp_handle (pp_nodes S n)) \<and> a_heap (pp_allocator S) (pp_handle (pp_nodes S n)) \<noteq> None"
    "\<And>n. n \<in> P \<Longrightarrow> \<exists>p. pp_page_handle (pp_nodes S n) = Some p \<and> pp_page (pp_nodes S n) = Some (Suc p) \<and>
        a_heap (pp_allocator S) p \<noteq> None"
    "\<And>n. n \<in> D \<Longrightarrow> pp_page (pp_nodes S n) = None"
    "inj_on (\<lambda>n. pp_page_handle (pp_nodes S n)) P"
    "\<And>n m. n \<in> P \<Longrightarrow> m \<in> P \<union> D \<Longrightarrow> pp_page_handle (pp_nodes S n) \<noteq> Some (pp_handle (pp_nodes S m))"
  shows "pp_mem P D S"
  using assms unfolding pp_mem_def by blast

lemma pp_mem_cong:
  assumes "pp_mem P D S" "pp_allocator S' = pp_allocator S" "pp_set_id S' = pp_set_id S"
    "\<And>n. n \<in> P \<union> D \<Longrightarrow> pp_handle (pp_nodes S' n) = pp_handle (pp_nodes S n)"
    "\<And>n. n \<in> P \<Longrightarrow> pp_page_handle (pp_nodes S' n) = pp_page_handle (pp_nodes S n)"
    "\<And>n. n \<in> P \<union> D \<Longrightarrow> pp_page (pp_nodes S' n) = pp_page (pp_nodes S n)"
  shows "pp_mem P D S'"
proof -
  have "inj_on (\<lambda>n. pp_page_handle (pp_nodes S' n)) P \<longleftrightarrow> inj_on (\<lambda>n. pp_page_handle (pp_nodes S n)) P"
    using assms(5) by (intro inj_on_cong) simp
  then show ?thesis using assms unfolding pp_mem_def by simp
qed

lemma calloc_spec:
  assumes "alloc_inv A" "i < a_set_max A"
  obtains h A' where "allocator_calloc i n sz A = Some (h, A')" "allocator_get_data h A' = Some (Suc h)" "alloc_inv A'"
    "a_heap A h = None" "a_heap A' h \<noteq> None" "\<And>x. x \<noteq> h \<Longrightarrow> a_heap A' x = a_heap A x" "a_set_max A' = a_set_max A"
proof -
  obtain h A' where e: "allocator_calloc i n sz A = Some (h, A')" using assms(2) by (simp add: allocator_calloc_def) (metis surj_pair)
  moreover from e have "allocator_get_data h A' = Some (Suc h)" "a_set_max A' = a_set_max A"
    by (auto simp: allocator_calloc_def allocator_enlist_def allocator_get_data_def Let_def)
  ultimately show ?thesis using that ac.get_fresh[OF assms(1) e] by blast
qed

lemma memalign_spec:
  assumes "alloc_inv A" "i < a_set_max A"
  obtains h A' where "allocator_memalign i b sz A = Some (h, A')" "allocator_get_data h A' = Some (Suc h)" "alloc_inv A'"
    "a_heap A h = None" "a_heap A' h \<noteq> None" "\<And>x. x \<noteq> h \<Longrightarrow> a_heap A' x = a_heap A x" "a_set_max A' = a_set_max A"
proof -
  obtain h A' where e: "allocator_memalign i b sz A = Some (h, A')" using assms(2) by (simp add: allocator_memalign_def) (metis surj_pair)
  moreover from e have "allocator_get_data h A' = Some (Suc h)" "a_set_max A' = a_set_max A"
    by (auto simp: allocator_memalign_def allocator_enlist_def allocator_get_data_def Let_def split: if_splits)
  ultimately show ?thesis using that am.get_fresh[OF assms(1) e] by blast
qed

definition pp_same :: "pp_private \<Rightarrow> pp_private \<Rightarrow> bool" where
  "pp_same S S' \<longleftrightarrow> pp_set_id S' = pp_set_id S \<and> pp_free_head S' = pp_free_head S \<and> pp_poolsz S' = pp_poolsz S \<and>
     pp_poollen S' = pp_poollen S \<and> pp_extendn S' = pp_extendn S \<and> pp_nfree S' = pp_nfree S"

lemma pp_alloc_node_spec:
  assumes "pp_mem P D S"
  obtains np S' where "pp_alloc_node ps oob S = Some (np, S')" "pp_mem (insert np P) D S'" "np \<notin> P \<union> D" "pp_same S S'"
    "\<And>n. n \<noteq> np \<Longrightarrow> pp_nodes S' n = pp_nodes S n" "pp_where (pp_nodes S' np) = PP_WHERE_FREE" "pp_oob (pp_nodes S' np) = oob"
proof -
  note D = pp_memD[OF assms]
  obtain h A where h: "allocator_calloc (pp_set_id S) 1 sizeof_pp_page_node (pp_allocator S) = Some (h, A)"
    "allocator_get_data h A = Some (Suc h)" "alloc_inv A" "a_heap (pp_allocator S) h = None" "a_heap A h \<noteq> None"
    "\<And>x. x \<noteq> h \<Longrightarrow> a_heap A x = a_heap (pp_allocator S) x" "a_set_max A = a_set_max (pp_allocator S)"
    by (rule calloc_spec[OF D(1,2), where n = 1 and sz = sizeof_pp_page_node]) (rule that; assumption)
  have i: "pp_set_id S < a_set_max A" using D(2) h(7) by simp
  obtain p B where p: "allocator_memalign (pp_set_id S) ps (ucast (pp_pagesz S)) A = Some (p, B)"
    "allocator_get_data p B = Some (Suc p)" "alloc_inv B" "a_heap A p = None" "a_heap B p \<noteq> None"
    "\<And>x. x \<noteq> p \<Longrightarrow> a_heap B x = a_heap A x" "a_set_max B = a_set_max A"
    by (rule memalign_spec[OF h(3) i, where b = ps and sz = "ucast (pp_pagesz S)"]) (rule that; assumption)
  let ?S = "S\<lparr>pp_allocator := B, pp_nodes := (pp_nodes S)(Suc h := \<lparr>pp_handle = h, pp_page_handle = Some p,
     pp_page = Some (Suc p), pp_where = PP_WHERE_FREE, pp_oob = oob\<rparr>)\<rparr>"
  have e: "pp_alloc_node ps oob S = Some (Suc h, ?S)" by (simp add: pp_alloc_node_def h(1,2) p(1,2))
  have new: "Suc h \<notin> P \<union> D" using D(4)[of "Suc h"] D(5)[of "Suc h"] h(4) by auto
  have ph: "p \<noteq> h" using p(4) h(5) by auto
  have pf: "a_heap (pp_allocator S) p = None" using p(4) h(6)[OF ph] by simp
  have keep: "a_heap B x \<noteq> None" if "a_heap (pp_allocator S) x \<noteq> None" for x
    using that h(4,6) p(6) pf by (metis (no_types))
  have old: "pp_handle (pp_nodes S n) \<noteq> h" "pp_handle (pp_nodes S n) \<noteq> p" if "n \<in> P \<union> D" for n
    using D(5)[OF that] h(4) pf by auto
  have oldp: "pp_page_handle (pp_nodes S n) \<noteq> Some h" "pp_page_handle (pp_nodes S n) \<noteq> Some p" if "n \<in> P" for n
    using D(6)[OF that] h(4) pf by auto
  have "pp_mem (insert (Suc h) P) D ?S"
  proof (rule pp_memI)
    fix n assume n: "n \<in> insert (Suc h) P \<union> D"
    show "n = Suc (pp_handle (pp_nodes ?S n)) \<and> a_heap (pp_allocator ?S) (pp_handle (pp_nodes ?S n)) \<noteq> None"
    proof (cases "n = Suc h")
      case True
      then show ?thesis using h(5) p(6)[OF ph[symmetric]] by simp
    next
      case False
      then show ?thesis using n D(4)[of n] keep[OF D(5)[of n]] by auto
    qed
  next
    fix n assume n: "n \<in> insert (Suc h) P"
    then show "\<exists>p. pp_page_handle (pp_nodes ?S n) = Some p \<and> pp_page (pp_nodes ?S n) = Some (Suc p) \<and>
        a_heap (pp_allocator ?S) p \<noteq> None"
      using p(5) keep D(6)[of n] new by (cases "n = Suc h") auto
  next
    have "inj_on (\<lambda>n. pp_page_handle (pp_nodes ?S n)) P"
      using D(8) new by (auto simp: inj_on_def)
    moreover have "(\<lambda>n. pp_page_handle (pp_nodes ?S n)) ` P = (\<lambda>n. pp_page_handle (pp_nodes S n)) ` P"
      using new by (intro image_cong) auto
    moreover have "Some p \<notin> (\<lambda>n. pp_page_handle (pp_nodes S n)) ` P" using oldp(2) by (metis imageE)
    moreover have "P - {Suc h} = P" "pp_page_handle (pp_nodes ?S (Suc h)) = Some p" using new by auto
    ultimately show "inj_on (\<lambda>n. pp_page_handle (pp_nodes ?S n)) (insert (Suc h) P)"
      unfolding inj_on_insert by (simp only: not_False_eq_True simp_thms)
  next
    fix n m assume "n \<in> insert (Suc h) P" "m \<in> insert (Suc h) P \<union> D"
    then show "pp_page_handle (pp_nodes ?S n) \<noteq> Some (pp_handle (pp_nodes ?S m))"
      using D(9)[of n m] old[of m] oldp[of n] ph by auto
  qed (use D(2,3) new p(3,7) h(7) D(7) in auto)
  then show ?thesis using that[OF e] new by (simp add: pp_same_def)
qed

text \<open>Memory that no node owns any more may go.\<close>

lemma pp_mem_drop:
  assumes "pp_mem P D S" "alloc_inv A" "a_set_max A = a_set_max (pp_allocator S)" "P' \<subseteq> P" "D' \<subseteq> D"
    "\<And>n. n \<in> P' \<union> D' \<Longrightarrow> a_heap A (pp_handle (pp_nodes S n)) \<noteq> None"
    "\<And>n p. n \<in> P' \<Longrightarrow> pp_page_handle (pp_nodes S n) = Some p \<Longrightarrow> a_heap A p \<noteq> None"
  shows "pp_mem P' D' (S\<lparr>pp_allocator := A\<rparr>)"
proof -
  note D = pp_memD[OF assms(1)]
  show ?thesis
  proof (rule pp_memI)
    fix n assume n: "n \<in> P'"
    then show "\<exists>p. pp_page_handle (pp_nodes (S\<lparr>pp_allocator := A\<rparr>) n) = Some p \<and>
        pp_page (pp_nodes (S\<lparr>pp_allocator := A\<rparr>) n) = Some (Suc p) \<and> a_heap (pp_allocator (S\<lparr>pp_allocator := A\<rparr>)) p \<noteq> None"
      using D(6)[of n] assms(4,7) by force
  next
    fix n m assume "n \<in> P'" "m \<in> P' \<union> D'"
    then show "pp_page_handle (pp_nodes (S\<lparr>pp_allocator := A\<rparr>) n) \<noteq> Some (pp_handle (pp_nodes (S\<lparr>pp_allocator := A\<rparr>) m))"
      using D(9)[of n m] assms(4,5) by auto
  qed (use D(2,3,4,7) assms inj_on_subset[OF D(8) assms(4)] in auto)
qed

lemma free_sel:
  assumes "allocator_free h A = Some A'"
  shows "a_set_max A' = a_set_max A" "a_heap A' = (a_heap A)(h := None)"
  using assms by (auto simp: allocator_free_def bind_eq_Some_conv Let_def)

lemma pp_release_spec:
  assumes "pp_mem P D S" "n \<in> P"
  obtains A where "pp_release n S = Some (S\<lparr>pp_allocator := A\<rparr>)" "pp_mem (P - {n}) D (S\<lparr>pp_allocator := A\<rparr>)"
proof -
  note D = pp_memD[OF assms(1)]
  let ?h = "pp_handle (pp_nodes S n)"
  have n: "n \<in> P \<union> D" using assms(2) by simp
  from D(6)[OF assms(2)] obtain p where p: "pp_page_handle (pp_nodes S n) = Some p" "a_heap (pp_allocator S) p \<noteq> None" by blast
  from free_live[OF D(1) p(2)] obtain A where A: "allocator_free p (pp_allocator S) = Some A" "alloc_inv A"
    "a_heap A = (a_heap (pp_allocator S))(p := None)" by blast
  have ne: "p \<noteq> ?h" using D(9)[OF assms(2) n] p(1) by auto
  then have "a_heap A ?h \<noteq> None" using A(3) D(5)[OF n] by simp
  from free_live[OF A(2) this] obtain B where B: "allocator_free ?h A = Some B" "alloc_inv B"
    "a_heap B = (a_heap A)(?h := None)" by blast
  have other: "pp_handle (pp_nodes S m) \<notin> {p, ?h}" if "m \<in> P - {n} \<union> D" for m
  proof -
    have m: "m \<in> P \<union> D" "m \<noteq> n" using that n D(3) assms(2) by auto
    then show ?thesis using D(9)[OF assms(2) m(1)] p(1) D(4)[OF m(1)] D(4)[OF n] by auto
  qed
  have otherp: "q \<notin> {p, ?h}" if "m \<in> P - {n}" "pp_page_handle (pp_nodes S m) = Some q" for m q
    using D(9)[of m n] n that inj_onD[OF D(8), of m n] p(1) assms(2) by auto
  have "pp_mem (P - {n}) D (S\<lparr>pp_allocator := B\<rparr>)"
  proof (rule pp_mem_drop[OF assms(1) B(2)])
    show "a_set_max B = a_set_max (pp_allocator S)" using free_sel(1)[OF A(1)] free_sel(1)[OF B(1)] by simp
    show "a_heap B (pp_handle (pp_nodes S m)) \<noteq> None" if "m \<in> P - {n} \<union> D" for m
      using other[OF that] D(5)[of m] that A(3) B(3) by auto
    show "a_heap B q \<noteq> None" if "m \<in> P - {n}" "pp_page_handle (pp_nodes S m) = Some q" for m q
      using otherp[OF that] D(6)[of m] that A(3) B(3) by auto
  qed auto
  moreover have "pp_release n S = Some (S\<lparr>pp_allocator := B\<rparr>)" by (simp add: pp_release_def p(1) A(1) B(1))
  ultimately show ?thesis using that by blast
qed

lemma pp_free_bare_spec:
  assumes "pp_mem P D S" "n \<in> D"
  obtains A where "allocator_free (pp_handle (pp_nodes S n)) (pp_allocator S) = Some A" "pp_mem P (D - {n}) (S\<lparr>pp_allocator := A\<rparr>)"
proof -
  note D = pp_memD[OF assms(1)]
  have n: "n \<in> P \<union> D" using assms(2) by simp
  from free_live[OF D(1) D(5)[OF n]] obtain A where A: "allocator_free (pp_handle (pp_nodes S n)) (pp_allocator S) = Some A"
    "alloc_inv A" "a_heap A = (a_heap (pp_allocator S))(pp_handle (pp_nodes S n) := None)" by blast
  have "pp_mem P (D - {n}) (S\<lparr>pp_allocator := A\<rparr>)"
  proof (rule pp_mem_drop[OF assms(1) A(2) free_sel(1)[OF A(1)]])
    show "a_heap A (pp_handle (pp_nodes S m)) \<noteq> None" if "m \<in> P \<union> (D - {n})" for m
    proof -
      have m: "m \<in> P \<union> D" "m \<noteq> n" using that D(3) assms(2) by auto
      then show ?thesis using D(4)[OF m(1)] D(4)[OF n] D(5)[OF m(1)] A(3) by auto
    qed
    show "a_heap A q \<noteq> None" if "m \<in> P" "pp_page_handle (pp_nodes S m) = Some q" for m q
      using D(9)[OF that(1) n] that D(6)[OF that(1)] A(3) by auto
  qed auto
  then show ?thesis using that A(1) by blast
qed

lemma pp_mem_bare:
  assumes "pp_mem P D S"
  obtains h A where "allocator_calloc (pp_set_id S) 1 sizeof_pp_page_node (pp_allocator S) = Some (h, A)"
    "allocator_get_data h A = Some (Suc h)" "Suc h \<notin> P \<union> D"
    "\<And>N. pp_handle N = h \<Longrightarrow> pp_page N = None \<Longrightarrow>
      pp_mem P (insert (Suc h) D) (S\<lparr>pp_allocator := A, pp_nodes := (pp_nodes S)(Suc h := N)\<rparr>)"
proof -
  note D = pp_memD[OF assms]
  obtain h A where h: "allocator_calloc (pp_set_id S) 1 sizeof_pp_page_node (pp_allocator S) = Some (h, A)"
    "allocator_get_data h A = Some (Suc h)" "alloc_inv A" "a_heap (pp_allocator S) h = None" "a_heap A h \<noteq> None"
    "\<And>x. x \<noteq> h \<Longrightarrow> a_heap A x = a_heap (pp_allocator S) x" "a_set_max A = a_set_max (pp_allocator S)"
    by (rule calloc_spec[OF D(1,2), where n = 1 and sz = sizeof_pp_page_node]) (rule that; assumption)
  have new: "Suc h \<notin> P \<union> D" using D(4)[of "Suc h"] D(5)[of "Suc h"] h(4) by auto
  have keep: "a_heap A x \<noteq> None" if "a_heap (pp_allocator S) x \<noteq> None" for x
    using that h(4,6) by (metis (no_types))
  have oldp: "pp_page_handle (pp_nodes S n) \<noteq> Some h" if "n \<in> P" for n
    using D(6)[OF that] h(4) by auto
  have "pp_mem P (insert (Suc h) D) (S\<lparr>pp_allocator := A, pp_nodes := (pp_nodes S)(Suc h := N)\<rparr>)" (is "pp_mem _ _ ?S")
    if N: "pp_handle N = h" "pp_page N = None" for N
  proof (rule pp_memI)
    fix n assume n: "n \<in> P \<union> insert (Suc h) D"
    show "n = Suc (pp_handle (pp_nodes ?S n)) \<and> a_heap (pp_allocator ?S) (pp_handle (pp_nodes ?S n)) \<noteq> None"
      using n N h(5) D(4)[of n] keep[OF D(5)[of n]] new by (cases "n = Suc h") auto
  next
    fix n assume n: "n \<in> P"
    then show "\<exists>p. pp_page_handle (pp_nodes ?S n) = Some p \<and> pp_page (pp_nodes ?S n) = Some (Suc p) \<and>
        a_heap (pp_allocator ?S) p \<noteq> None"
      using keep D(6)[of n] new by (cases "n = Suc h") auto
  next
    show "inj_on (\<lambda>n. pp_page_handle (pp_nodes ?S n)) P" using D(8) new by (auto simp: inj_on_def)
  next
    fix n m assume "n \<in> P" "m \<in> P \<union> insert (Suc h) D"
    then show "pp_page_handle (pp_nodes ?S n) \<noteq> Some (pp_handle (pp_nodes ?S m))"
      using D(9)[of n m] oldp[of n] N new by auto
  qed (use D(2,3) new h(3,7) D(7) N in auto)
  then show ?thesis using that h(1,2) new by blast
qed

text \<open>A page moves from node \<open>n\<close> to node \<open>m\<close>.\<close>

lemma pp_mem_move:
  assumes "pp_mem P D S" "n \<in> P" "m \<in> D" "pp_allocator S' = pp_allocator S" "pp_set_id S' = pp_set_id S"
    "\<And>x. pp_handle (pp_nodes S' x) = pp_handle (pp_nodes S x)"
    "\<And>x. x \<noteq> n \<Longrightarrow> x \<noteq> m \<Longrightarrow> pp_nodes S' x = pp_nodes S x"
    "pp_page_handle (pp_nodes S' m) = pp_page_handle (pp_nodes S n)" "pp_page (pp_nodes S' m) = pp_page (pp_nodes S n)"
    "pp_page (pp_nodes S' n) = None"
  shows "pp_mem (insert m (P - {n})) (insert n (D - {m})) S'"
proof -
  note D = pp_memD[OF assms(1)]
  have nm: "n \<noteq> m" "m \<notin> P" "n \<notin> D" using D(3) assms(2,3) by auto
  have all: "insert m (P - {n}) \<union> insert n (D - {m}) = P \<union> D" using assms(2,3) by auto
  have img: "\<exists>y\<in>P. pp_page_handle (pp_nodes S' x) = pp_page_handle (pp_nodes S y) \<and> pp_page (pp_nodes S' x) = pp_page (pp_nodes S y)"
    if "x \<in> insert m (P - {n})" for x
    using that assms(2,7-9) nm by (cases "x = m") auto
  show ?thesis
  proof (rule pp_memI)
    show "inj_on (\<lambda>n. pp_page_handle (pp_nodes S' n)) (insert m (P - {n}))"
    proof (rule inj_onI)
      fix x y assume x: "x \<in> insert m (P - {n})" and y: "y \<in> insert m (P - {n})"
        and eq: "pp_page_handle (pp_nodes S' x) = pp_page_handle (pp_nodes S' y)"
      define f where "f z = (if z = m then n else z)" for z
      have "pp_page_handle (pp_nodes S' z) = pp_page_handle (pp_nodes S (f z))" "f z \<in> P" if "z \<in> insert m (P - {n})" for z
        using that assms(2,7,8) nm by (auto simp: f_def)
      with x y eq have "f x = f y" by (intro inj_onD[OF D(8)]) auto
      then show "x = y" using x y nm by (auto simp: f_def split: if_splits)
    qed
    fix x y assume x: "x \<in> insert m (P - {n})" and y: "y \<in> insert m (P - {n}) \<union> insert n (D - {m})"
    have "y \<in> P \<union> D" using y unfolding all .
    with img[OF x] D(9) assms(6) show "pp_page_handle (pp_nodes S' x) \<noteq> Some (pp_handle (pp_nodes S' y))" by metis
  next
    fix x assume x: "x \<in> insert m (P - {n})"
    from img[OF x] D(6) show "\<exists>p. pp_page_handle (pp_nodes S' x) = Some p \<and> pp_page (pp_nodes S' x) = Some (Suc p) \<and>
        a_heap (pp_allocator S') p \<noteq> None" unfolding assms(4) by metis
  next
    fix x assume x: "x \<in> insert m (P - {n}) \<union> insert n (D - {m})"
    then have "x \<in> P \<union> D" unfolding all .
    from D(4)[OF this] D(5)[OF this] show "x = Suc (pp_handle (pp_nodes S' x)) \<and> a_heap (pp_allocator S') (pp_handle (pp_nodes S' x)) \<noteq> None"
      unfolding assms(4,6) by blast
  next
    fix x assume "x \<in> insert n (D - {m})"
    then show "pp_page (pp_nodes S' x) = None" using assms(7,10) D(7)[of x] nm by (cases "x = n") auto
  qed (use D(1-3) assms(2-5) nm in auto)
qed

section \<open>The books of the pool\<close>

definition pp_inv :: "nat set \<Rightarrow> nat set \<Rightarrow> nat set \<Rightarrow> nat set \<Rightarrow> pp_private \<Rightarrow> bool" where
  "pp_inv E H X D S \<longleftrightarrow>
     pp_mem (set (pp_free_head S) \<union> H \<union> X) D S \<and> distinct (pp_free_head S) \<and> finite H \<and>
     set (pp_free_head S) \<inter> H = {} \<and> set (pp_free_head S) \<inter> X = {} \<and> H \<inter> X = {} \<and>
     unat (pp_nfree S) = length (pp_free_head S) \<and> unat (pp_poollen S) = length (pp_free_head S) + card H \<and>
     pp_poollen S \<le> pp_poolsz S \<and> pp_extendn S = 4 \<and>
     (\<forall>n\<in>set (pp_free_head S). pp_where (pp_nodes S n) = PP_WHERE_FREE) \<and>
     (\<forall>n\<in>set (pp_free_head S) \<union> H. pp_oob (pp_nodes S n) = 0) \<and> 
     (\<forall>n\<in>X. n \<notin> E \<longrightarrow> pp_oob (pp_nodes S n) \<noteq> 0) \<and> E \<subseteq> X \<and>
     (\<forall>n\<in>E. pp_where (pp_nodes S n) = PP_WHERE_FREE \<and> pp_oob (pp_nodes S n) = 0)"

lemma pp_invD:
  assumes "pp_inv E H X D S"
  shows "pp_mem (set (pp_free_head S) \<union> H \<union> X) D S" "distinct (pp_free_head S)" "finite H"
    "set (pp_free_head S) \<inter> H = {}" "set (pp_free_head S) \<inter> X = {}" "H \<inter> X = {}"
    "unat (pp_nfree S) = length (pp_free_head S)" "unat (pp_poollen S) = length (pp_free_head S) + card H"
    "pp_poollen S \<le> pp_poolsz S" "pp_extendn S = 4"
    "n \<in> set (pp_free_head S) \<Longrightarrow> pp_where (pp_nodes S n) = PP_WHERE_FREE"
    "n \<in> set (pp_free_head S) \<union> H \<Longrightarrow> pp_oob (pp_nodes S n) = 0" "n \<in> X \<Longrightarrow> n \<notin> E \<Longrightarrow> pp_oob (pp_nodes S n) \<noteq> 0"
    "E \<subseteq> X" "n \<in> E \<Longrightarrow> pp_where (pp_nodes S n) = PP_WHERE_FREE \<and> pp_oob (pp_nodes S n) = 0"
  using assms unfolding pp_inv_def by blast+

lemma pp_mem_fields:
  assumes "pp_mem P D S" "pp_allocator S' = pp_allocator S" "pp_nodes S' = pp_nodes S" "pp_set_id S' = pp_set_id S"
  shows "pp_mem P D S'"
  using assms by (intro pp_mem_cong[OF assms(1)]) simp_all

lemma unat_Suc_less:
  assumes "(a::u32) < b"
  shows "unat (a + 1) = Suc (unat a)"
proof -
  have "unat b < 2 ^ 32" using unsigned_less[of b, where 'a = nat] by simp
  then have "Suc (unat a) < 2 ^ 32" using assms by (simp add: word_less_nat_alt)
  then show ?thesis by (simp add: unat_word_ariths(1))
qed

text \<open>A turn of \<open>_pp_extend\<close>: a node is allocated, and is then added to the pool or released again.\<close>

lemma pp_alloc_flight:
  assumes "pp_inv E H X D S"
  obtains np T where "pp_alloc_node ps 0 S = Some (np, T)" "np \<notin> set (pp_free_head S) \<union> H \<union> X \<union> D"
    "pp_inv (insert np E) H (insert np X) D T" "pp_same S T"
proof -
  note I = pp_invD[OF assms]
  obtain np T where a: "pp_alloc_node ps 0 S = Some (np, T)"
    "pp_mem (insert np (set (pp_free_head S) \<union> H \<union> X)) D T" "np \<notin> (set (pp_free_head S) \<union> H \<union> X) \<union> D" "pp_same S T"
    "\<And>n. n \<noteq> np \<Longrightarrow> pp_nodes T n = pp_nodes S n" "pp_where (pp_nodes T np) = PP_WHERE_FREE" "pp_oob (pp_nodes T np) = 0"
    by (rule pp_alloc_node_spec[OF I(1), where ps = ps and oob = 0]) (rule that; assumption)
  note same = a(4)[unfolded pp_same_def]
  have keep: "pp_nodes T n = pp_nodes S n" if "n \<in> set (pp_free_head S) \<union> H \<union> X" for n using a(3) that by (intro a(5)) auto
  have u: "set (pp_free_head S) \<union> H \<union> insert np X = insert np (set (pp_free_head S) \<union> H \<union> X)" by auto
  have e: "pp_where (pp_nodes T n) = PP_WHERE_FREE \<and> pp_oob (pp_nodes T n) = 0" if "n \<in> insert np E" for n
    using that a(6,7) I(14) I(15)[of n] keep[of n] by auto
  have x: "pp_oob (pp_nodes T n) \<noteq> 0" if "n \<in> insert np X" "n \<notin> insert np E" for n
    using that I(13)[of n] keep[of n] by auto
  have f: "\<forall>n\<in>set (pp_free_head S). pp_where (pp_nodes T n) = PP_WHERE_FREE" "\<forall>n\<in>set (pp_free_head S) \<union> H. pp_oob (pp_nodes T n) = 0"
    using I(11,12) keep by auto
  have "pp_inv (insert np E) H (insert np X) D T"
    unfolding pp_inv_def using I(2-10,14) a(2,3) same u e x f by auto
  with a(1,3,4) that show ?thesis by blast
qed

lemma pp_extend_add_spec:
  assumes "pp_inv E H X D S" "np \<in> E"
  shows "\<exists>S'. pp_extend_add np S = Some (pp_poollen S < pp_poolsz S, S') \<and> pp_inv (E - {np}) H (X - {np}) D S' \<and> pp_poolsz S' = pp_poolsz S \<and>
    unat (pp_poollen S') = min (Suc (unat (pp_poollen S))) (unat (pp_poolsz S))"
proof -
  note I = pp_invD[OF assms(1)]
  have np: "np \<in> X" "np \<notin> set (pp_free_head S)" "np \<notin> H" "pp_where (pp_nodes S np) = PP_WHERE_FREE" "pp_oob (pp_nodes S np) = 0"
    using I(5,6,14) I(15)[OF assms(2)] assms(2) by auto
  have x: "\<forall>n \<in> X - {np}. n \<notin> E - {np} \<longrightarrow> pp_oob (pp_nodes S n) \<noteq> 0" "E - {np} \<subseteq> X - {np}" using I(13,14) by auto
  show ?thesis
  proof (cases "pp_poollen S < pp_poolsz S")
    case True
    let ?S = "pp_push np (S\<lparr>pp_poollen := pp_poollen S + 1\<rparr>)"
    have len: "unat (pp_poollen S + 1) = Suc (unat (pp_poollen S))" using unat_Suc_less[OF True] .
    have "unat (pp_nfree S) < unat (pp_poolsz S)" using True I(7,8) by (simp add: word_less_nat_alt)
    then have nf: "unat (pp_nfree S + 1) = Suc (unat (pp_nfree S))"
      by (intro unat_Suc_less[where b = "pp_poolsz S"]) (simp add: word_less_nat_alt)
    have "set (np # pp_free_head S) \<union> H \<union> (X - {np}) = set (pp_free_head S) \<union> H \<union> X" using np(1) by auto
    then have m: "pp_mem (set (np # pp_free_head S) \<union> H \<union> (X - {np})) D ?S" using pp_mem_fields[OF I(1), of ?S] by (simp add: pp_push_def)
    have "pp_poollen S + 1 \<le> pp_poolsz S" using True len by (simp add: word_le_nat_alt word_less_nat_alt)
    then have "pp_inv (E - {np}) H (X - {np}) D ?S"
      unfolding pp_inv_def using m I(2-12,15) np x len nf by (auto simp: pp_push_def)
    moreover have "pp_extend_add np S = Some (True, ?S)" using True by (simp add: pp_extend_add_def)
    ultimately show ?thesis using len True by (simp add: pp_push_def min_def word_less_nat_alt)
  next
    case False
    have n: "np \<in> set (pp_free_head S) \<union> H \<union> X" using np(1) by simp
    obtain A where r: "pp_release np S = Some (S\<lparr>pp_allocator := A\<rparr>)"
      "pp_mem (set (pp_free_head S) \<union> H \<union> X - {np}) D (S\<lparr>pp_allocator := A\<rparr>)"
      by (rule pp_release_spec[OF I(1) n]) (rule that; assumption)
    have "set (pp_free_head S) \<union> H \<union> X - {np} = set (pp_free_head S) \<union> H \<union> (X - {np})" using np by auto
    then have "pp_inv (E - {np}) H (X - {np}) D (S\<lparr>pp_allocator := A\<rparr>)"
      unfolding pp_inv_def using I(2-12,15) r(2) x np by auto
    moreover have "unat (pp_poollen S) = unat (pp_poolsz S)" using False I(9) by simp
    ultimately show ?thesis using False r(1) by (simp add: pp_extend_add_def)
  qed
qed

lemma pp_extend_step_spec:
  assumes "pp_inv E H X D S"
  obtains S' where "pp_extend_step ps S = Some (pp_poollen S < pp_poolsz S, S')" "pp_inv E H X D S'" "pp_poolsz S' = pp_poolsz S"
    "unat (pp_poollen S') = min (Suc (unat (pp_poollen S))) (unat (pp_poolsz S))"
proof -
  obtain np T where a: "pp_alloc_node ps 0 S = Some (np, T)" "np \<notin> set (pp_free_head S) \<union> H \<union> X \<union> D"
    "pp_inv (insert np E) H (insert np X) D T" "pp_same S T" by (rule pp_alloc_flight[OF assms])
  have e: "insert np E - {np} = E" "insert np X - {np} = X" using a(2) pp_invD(14)[OF assms] by auto
  from pp_extend_add_spec[OF a(3) insertI1] obtain S' where "pp_extend_add np T = Some (pp_poollen T < pp_poolsz T, S')" "pp_inv E H X D S'"
    "pp_poolsz S' = pp_poolsz T" "unat (pp_poollen S') = min (Suc (unat (pp_poollen T))) (unat (pp_poolsz T))" unfolding e by blast
  then show ?thesis using that[of S'] a(1,4) by (simp add: pp_extend_step_def pp_same_def)
qed

lemma pp_extend_loop_spec:
  assumes "pp_inv E H X D S"
  shows "\<exists>S'. pp_extend_loop ps n S = Some S' \<and> pp_inv E H X D S' \<and> pp_poolsz S' = pp_poolsz S \<and>
    unat (pp_poollen S') = min (unat (pp_poollen S) + n) (unat (pp_poolsz S))"
  using assms
proof (induction n arbitrary: S)
  case 0
  then show ?case using pp_invD(9)[OF 0] by (simp add: word_le_nat_alt min_def)
next
  case (Suc n)
  obtain S1 where s: "pp_extend_step ps S = Some (pp_poollen S < pp_poolsz S, S1)" "pp_inv E H X D S1" "pp_poolsz S1 = pp_poolsz S"
    "unat (pp_poollen S1) = min (Suc (unat (pp_poollen S))) (unat (pp_poolsz S))"
    by (rule pp_extend_step_spec[OF Suc.prems, where ps = ps]) (rule that; assumption)
  show ?case
  proof (cases "pp_poollen S < pp_poolsz S")
    case True
    with s Suc.IH[OF s(2)] show ?thesis by (auto simp: word_less_nat_alt min_def)
  next
    case False
    then have "unat (pp_poollen S) = unat (pp_poolsz S)" using pp_invD(9)[OF Suc.prems] by simp
    with s False show ?thesis by auto
  qed
qed

lemma to_extend_small:
  assumes "(l::u32) < z" "k = (if l + 4 > z then z - l else 4)"
  shows "0 < nat (sint k)" "min (unat l + nat (sint k)) (unat z) = min (unat l + 4) (unat z)"
proof -
  have zb: "unat z < 2 ^ 32" using unsigned_less[of z, where 'a = nat] by simp
  have lz: "unat l < unat z" using assms(1) by (simp add: word_less_nat_alt)
  have "0 < unat k \<and> unat k \<le> 4 \<and> min (unat l + unat k) (unat z) = min (unat l + 4) (unat z)"
  proof (cases "l + 4 > z")
    case True
    have "unat (l + 4) = (unat l + 4) mod 2 ^ 32" by (simp add: unat_word_ariths(1))
    then have "unat z < unat l + 4" using True zb lz by (cases "unat l + 4 < 2 ^ 32") (auto simp: word_less_nat_alt mod_if)
    moreover have "unat k = unat z - unat l" using True assms(1,2) by (simp add: unat_sub)
    ultimately show ?thesis using lz by simp
  qed (use assms(2) in simp)
  moreover from this have "unat k = 1 \<or> unat k = 2 \<or> unat k = 3 \<or> unat k = 4" by linarith
  then have "k = 1 \<or> k = 2 \<or> k = 3 \<or> k = 4" by (simp add: word_unat_eq_iff)
  then have "nat (sint k) = unat k" by auto
  ultimately show "0 < nat (sint k)" "min (unat l + nat (sint k)) (unat z) = min (unat l + 4) (unat z)" by simp_all
qed

lemma pp_extend_spec:
  assumes "pp_inv E H X D S"
  shows "\<exists>S'. pp_extend ps S = Some S' \<and> pp_inv E H X D S' \<and> pp_poolsz S' = pp_poolsz S \<and>
    unat (pp_poollen S') = min (unat (pp_poollen S) + 4) (unat (pp_poolsz S))"
proof (cases "pp_poollen S < pp_poolsz S")
  case True
  define k where "k = (if pp_poollen S + 4 > pp_poolsz S then pp_poolsz S - pp_poollen S else 4)"
  have "pp_extend ps S = pp_extend_loop ps (nat (sint k)) S"
    using True pp_invD(10)[OF assms] by (simp add: pp_extend_def k_def not_le)
  then show ?thesis using pp_extend_loop_spec[OF assms, of ps "nat (sint k)"] to_extend_small(2)[OF True k_def] by simp
next
  case False
  then have "pp_poollen S = pp_poolsz S" using pp_invD(9)[OF assms] by simp
  then show ?thesis using assms by (simp add: pp_extend_def)
qed

lemma pp_fill_spec:
  assumes "pp_inv E H X D S"
  shows "\<exists>S'. pp_fill ps S = Some S' \<and> pp_inv E H X D S' \<and> pp_poolsz S' = pp_poolsz S \<and>
    (pp_nfree S' = 0 \<longrightarrow> card H = unat (pp_poolsz S))"
proof (cases "pp_nfree S = 0 \<and> pp_poolsz S > pp_poollen S")
  case True
  obtain S' where e: "pp_extend ps S = Some S'" "pp_inv E H X D S'" "pp_poolsz S' = pp_poolsz S"
    "unat (pp_poollen S') = min (unat (pp_poollen S) + 4) (unat (pp_poolsz S))" using pp_extend_spec[OF assms] by blast
  have "unat (pp_poollen S) < unat (pp_poollen S')" using True e(4) by (simp add: word_less_nat_alt)
  then have "unat (pp_nfree S') > 0" using pp_invD(7,8)[OF assms] pp_invD(7,8)[OF e(2)] by linarith
  then have "pp_nfree S' \<noteq> 0" by auto
  then have "pp_fill ps S' = Some S'" by (subst pp_fill.simps) simp
  then have "pp_fill ps S = Some S'" using True e(1) by (subst pp_fill.simps) simp
  then show ?thesis using e(2,3) \<open>pp_nfree S' \<noteq> 0\<close> by blast
next
  case False
  then have "pp_fill ps S = Some S" by (subst pp_fill.simps) auto
  moreover have "card H = unat (pp_poolsz S)" if "pp_nfree S = 0"
    using that False pp_invD(7,8,9)[OF assms] by (auto simp: not_less)
  ultimately show ?thesis using assms by blast
qed

lemma pp_take_spec:
  assumes "pp_inv E H X D S" "pp_nfree S \<noteq> 0"
  obtains np S' where "pp_take S = Some (np, S')" "np \<notin> H \<union> X \<union> D" "pp_inv E (insert np H) X D S'" "pp_poolsz S' = pp_poolsz S"
    "pp_nodes S' = pp_nodes S"
proof -
  note I = pp_invD[OF assms(1)]
  have "unat (pp_nfree S) \<noteq> 0" using assms(2) by (simp add: unat_eq_0)
  then obtain np rest where f: "pp_free_head S = np # rest" using I(7) by (cases "pp_free_head S") auto
  let ?S = "S\<lparr>pp_free_head := rest, pp_nfree := pp_nfree S - 1\<rparr>"
  have t: "pp_take S = Some (np, ?S)" using I(11)[of np] by (simp add: pp_take_def f)
  have nf: "unat (pp_nfree S - 1) = unat (pp_nfree S) - 1" using assms(2) by (simp add: unat_minus_one)
  have out: "np \<notin> H \<union> X \<union> D" using I(4,5) pp_memD(3)[OF I(1)] f by auto
  have "set rest \<union> insert np H \<union> X = set (pp_free_head S) \<union> H \<union> X" using f by auto
  then have "pp_mem (set rest \<union> insert np H \<union> X) D ?S" using pp_mem_fields[OF I(1), of ?S] by simp
  then have "pp_inv E (insert np H) X D ?S"
    unfolding pp_inv_def using I(2-15) out nf f by auto
  then show ?thesis using that[OF t out] by simp
qed

section \<open>Operations\<close>

lemma pp_take_or_spec:
  assumes "pp_inv E H X D S"
  shows "\<exists>g' S'. pp_take_or g S = Some (g', S') \<and> pp_poolsz S' = pp_poolsz S \<and>
    (if pp_nfree S = 0 then g' = g \<and> S' = S else (\<exists>n. g' = PpNode n \<and> n \<notin> H \<union> X \<union> D \<and> pp_inv E (insert n H) X D S'))"
proof (cases "pp_nfree S = 0")
  case False
  obtain np S' where "pp_take S = Some (np, S')" "np \<notin> H \<union> X \<union> D" "pp_inv E (insert np H) X D S'" "pp_poolsz S' = pp_poolsz S"
    by (rule pp_take_spec[OF assms False]) (rule that; assumption)
  then show ?thesis using False by (auto simp: pp_take_or_def)
qed (simp add: pp_take_or_def)

lemma pp_get_spec:
  assumes "pp_inv E H X D S"
  shows "\<exists>g' S'. Option.bind (pp_fill ps S) (pp_take_or g) = Some (g', S') \<and> pp_poolsz S' = pp_poolsz S \<and>
    ((g' = g \<and> pp_inv E H X D S' \<and> card H = unat (pp_poolsz S)) \<or>
     (\<exists>n. g' = PpNode n \<and> n \<notin> H \<union> X \<union> D \<and> pp_inv E (insert n H) X D S'))"
proof -
  obtain T where T: "pp_fill ps S = Some T" "pp_inv E H X D T" "pp_poolsz T = pp_poolsz S"
    "pp_nfree T = 0 \<longrightarrow> card H = unat (pp_poolsz S)" using pp_fill_spec[OF assms] by blast
  from pp_take_or_spec[OF T(2), of g] T show ?thesis by (cases "pp_nfree T = 0") auto
qed

lemma pp_get_node_forcibly_spec:
  assumes "pp_inv E H X D S"
  shows "\<exists>n S'. pp_get_node_forcibly ps S = Some (n, S') \<and> n \<notin> H \<union> X \<union> D \<and> pp_poolsz S' = pp_poolsz S \<and>
    (if pp_oob (pp_nodes S' n) = 0 then pp_inv E (insert n H) X D S' else pp_inv E H (insert n X) D S' \<and> card H = unat (pp_poolsz S))"
proof -
  obtain T where T: "pp_fill ps S = Some T" "pp_inv E H X D T" "pp_poolsz T = pp_poolsz S"
    "pp_nfree T = 0 \<longrightarrow> card H = unat (pp_poolsz S)" using pp_fill_spec[OF assms] by blast
  note I = pp_invD[OF T(2)]
  show ?thesis
  proof (cases "pp_nfree T = 0")
    case True
    obtain np U where a: "pp_alloc_node ps 1 T = Some (np, U)"
      "pp_mem (insert np (set (pp_free_head T) \<union> H \<union> X)) D U" "np \<notin> (set (pp_free_head T) \<union> H \<union> X) \<union> D" "pp_same T U"
      "\<And>n. n \<noteq> np \<Longrightarrow> pp_nodes U n = pp_nodes T n" "pp_oob (pp_nodes U np) = 1"
      by (rule pp_alloc_node_spec[OF I(1), where ps = ps and oob = 1]) (rule that; assumption)
    have keep: "n \<in> set (pp_free_head T) \<Longrightarrow> pp_nodes U n = pp_nodes T n" "n \<in> H \<Longrightarrow> pp_nodes U n = pp_nodes T n"
      "n \<in> X \<Longrightarrow> pp_nodes U n = pp_nodes T n" for n using a(3) by (auto intro!: a(5))
    have "set (pp_free_head T) \<union> H \<union> insert np X = insert np (set (pp_free_head T) \<union> H \<union> X)" by auto
    then have "pp_inv E H (insert np X) D U"
      unfolding pp_inv_def using I(2-15) keep a(2,3,6) a(4)[unfolded pp_same_def] by auto
    then show ?thesis using True T a by (auto simp: pp_get_node_forcibly_def pp_same_def)
  next
    case False
    obtain np S' where "pp_take T = Some (np, S')" "np \<notin> H \<union> X \<union> D" "pp_inv E (insert np H) X D S'" "pp_poolsz S' = pp_poolsz T"
      by (rule pp_take_spec[OF T(2) False]) (rule that; assumption)
    moreover from this(3) have "pp_oob (pp_nodes S' np) = 0" by (rule pp_invD(12)) simp
    ultimately show ?thesis using T False by (simp add: pp_get_node_forcibly_def)
  qed
qed

lemma pp_get_node_nondata_spec:
  assumes "pp_inv E H X D S"
  shows "\<exists>n S'. pp_get_node_nondata S = Some (n, S') \<and> n \<notin> H \<union> X \<union> D \<and> pp_inv E H X (insert n D) S' \<and> pp_poolsz S' = pp_poolsz S"
proof -
  note I = pp_invD[OF assms]
  obtain h A where h: "allocator_calloc (pp_set_id S) 1 sizeof_pp_page_node (pp_allocator S) = Some (h, A)"
    "allocator_get_data h A = Some (Suc h)" "Suc h \<notin> (set (pp_free_head S) \<union> H \<union> X) \<union> D"
    "\<And>N. pp_handle N = h \<Longrightarrow> pp_page N = None \<Longrightarrow>
      pp_mem (set (pp_free_head S) \<union> H \<union> X) (insert (Suc h) D) (S\<lparr>pp_allocator := A, pp_nodes := (pp_nodes S)(Suc h := N)\<rparr>)"
    by (rule pp_mem_bare[OF I(1)]) (rule that; assumption)
  let ?S = "S\<lparr>pp_allocator := A, pp_nodes := (pp_nodes S)(Suc h := \<lparr>pp_handle = h, pp_page_handle = None, pp_page = None,
    pp_where = 0, pp_oob = 0\<rparr>)\<rparr>"
  have "pp_inv E H X (insert (Suc h) D) ?S"
    unfolding pp_inv_def using I(2-15) h(3) h(4)[of "\<lparr>pp_handle = h, pp_page_handle = None, pp_page = None,
    pp_where = 0, pp_oob = 0\<rparr>"] by auto
  then show ?thesis using h(1-3) by (simp add: pp_get_node_nondata_def)
qed

text \<open>A client may set \<open>pp_where\<close> of a node it has.\<close>

lemma pp_where_inv:
  assumes "pp_inv E H X D S" "n \<in> H \<union> X \<union> D" "n \<notin> E"
  shows "pp_inv E H X D (S\<lparr>pp_nodes := (pp_nodes S)(n := (pp_nodes S n)\<lparr>pp_where := w\<rparr>)\<rparr>)" (is "pp_inv E H X D ?S")
proof -
  note I = pp_invD[OF assms(1)]
  have "n \<notin> set (pp_free_head S)" using assms(2) I(4,5) pp_memD(3)[OF I(1)] by auto
  moreover have "pp_mem (set (pp_free_head S) \<union> H \<union> X) D ?S" by (rule pp_mem_cong[OF I(1)]) auto
  ultimately show ?thesis unfolding pp_inv_def using I(2-15) assms(3) by auto
qed

lemma pp_free_node_H:
  assumes "pp_inv E H X D S" "n \<in> H"
  shows "\<exists>S'. pp_free_node n S = Some S' \<and> pp_inv E (H - {n}) X D S' \<and> pp_poolsz S' = pp_poolsz S"
proof -
  note I = pp_invD[OF assms(1)]
  let ?T = "S\<lparr>pp_nodes := (pp_nodes S)(n := (pp_nodes S n)\<lparr>pp_where := PP_WHERE_FREE\<rparr>)\<rparr>"
  have "pp_page (pp_nodes S n) \<noteq> None" using pp_memD(6)[OF I(1), of n] assms(2) by auto
  then have e: "pp_free_node n S = Some (pp_push n ?T)" using I(12)[of n] assms(2) by (auto simp: pp_free_node_def)
  have "card H = Suc (card (H - {n}))" using I(3) assms(2) by (metis card.remove)
  moreover have "unat (pp_nfree S) < unat (pp_poollen S)" using I(7,8) assms(2) I(3) by (auto simp: card_gt_0_iff)
  then have "unat (pp_nfree S + 1) = Suc (unat (pp_nfree S))"
    by (intro unat_Suc_less[where b = "pp_poollen S"]) (simp add: word_less_nat_alt)
  moreover have "set (n # pp_free_head S) \<union> (H - {n}) \<union> X = set (pp_free_head S) \<union> H \<union> X" using assms(2) by auto
  moreover have "pp_mem (set (pp_free_head S) \<union> H \<union> X) D (pp_push n ?T)"
    by (rule pp_mem_cong[OF I(1)]) (auto simp: pp_push_def)
  ultimately have "pp_inv E (H - {n}) X D (pp_push n ?T)"
    unfolding pp_inv_def using I(2-15) assms(2) by (auto simp: pp_push_def)
  then show ?thesis using e by (simp add: pp_push_def)
qed

lemma pp_free_node_X:
  assumes "pp_inv E H X D S" "n \<in> X" "n \<notin> E"
  shows "\<exists>S'. pp_free_node n S = Some S' \<and> pp_inv E H (X - {n}) D S' \<and> pp_poolsz S' = pp_poolsz S"
proof -
  note I = pp_invD[OF assms(1)]
  have n: "n \<in> set (pp_free_head S) \<union> H \<union> X" using assms(2) by simp
  obtain A where r: "pp_release n S = Some (S\<lparr>pp_allocator := A\<rparr>)"
    "pp_mem (set (pp_free_head S) \<union> H \<union> X - {n}) D (S\<lparr>pp_allocator := A\<rparr>)"
    by (rule pp_release_spec[OF I(1) n]) (rule that; assumption)
  have "pp_page (pp_nodes S n) \<noteq> None" using pp_memD(6)[OF I(1) n] by auto
  moreover have "set (pp_free_head S) \<union> H \<union> X - {n} = set (pp_free_head S) \<union> H \<union> (X - {n})" using I(5,6) assms(2) by auto
  then have "pp_inv E H (X - {n}) D (S\<lparr>pp_allocator := A\<rparr>)"
    unfolding pp_inv_def using I(2-15) r(2) assms(3) by auto
  ultimately show ?thesis using r(1) I(13)[OF assms(2,3)] by (auto simp: pp_free_node_def)
qed

lemma pp_free_node_D:
  assumes "pp_inv E H X D S" "n \<in> D"
  shows "\<exists>S'. pp_free_node n S = Some S' \<and> pp_inv E H X (D - {n}) S' \<and> pp_poolsz S' = pp_poolsz S"
proof -
  note I = pp_invD[OF assms(1)]
  obtain A where r: "allocator_free (pp_handle (pp_nodes S n)) (pp_allocator S) = Some A"
    "pp_mem (set (pp_free_head S) \<union> H \<union> X) (D - {n}) (S\<lparr>pp_allocator := A\<rparr>)"
    by (rule pp_free_bare_spec[OF I(1) assms(2)]) (rule that; assumption)
  then have "pp_inv E H X (D - {n}) (S\<lparr>pp_allocator := A\<rparr>)" unfolding pp_inv_def using I(2-15) by auto
  then show ?thesis using r(1) pp_memD(7)[OF I(1) assms(2)] by (auto simp: pp_free_node_def)
qed

lemma pp_free_data_H:
  assumes "pp_inv E H X D S" "n \<in> H"
  shows "\<exists>S'. pp_free_data n S = Some S' \<and> pp_inv E (H - {n}) X (insert n D) S' \<and> pp_poolsz S' = pp_poolsz S"
proof -
  note I = pp_invD[OF assms(1)]
  let ?P = "set (pp_free_head S) \<union> H \<union> X"
  obtain h A where h: "allocator_calloc (pp_set_id S) 1 sizeof_pp_page_node (pp_allocator S) = Some (h, A)"
    "allocator_get_data h A = Some (Suc h)" "Suc h \<notin> ?P \<union> D"
    "\<And>N. pp_handle N = h \<Longrightarrow> pp_page N = None \<Longrightarrow>
      pp_mem ?P (insert (Suc h) D) (S\<lparr>pp_allocator := A, pp_nodes := (pp_nodes S)(Suc h := N)\<rparr>)"
    by (rule pp_mem_bare[OF I(1)]) (rule that; assumption)
  define m where "m = Suc h"
  define old where "old = pp_nodes S n"
  define T where "T = pp_push m (S\<lparr>pp_allocator := A, pp_nodes := (pp_nodes S)(n := old\<lparr>pp_page := None, pp_page_handle := None\<rparr>,
    m := \<lparr>pp_handle = h, pp_page_handle = pp_page_handle old, pp_page = pp_page old, pp_where = PP_WHERE_FREE, pp_oob = 0\<rparr>)\<rparr>)"
  have e: "pp_free_data n S = Some T"
    using I(12)[of n] assms(2) by (simp add: pp_free_data_def h(1,2) T_def m_def old_def Let_def)
  have ne: "m \<noteq> n" "m \<notin> ?P" "m \<notin> D" "n \<notin> X" "n \<notin> set (pp_free_head S)" "n \<notin> D"
    using h(3) assms(2) I(4,6) pp_memD(3)[OF I(1)] by (auto simp: m_def)
  let ?N = "\<lparr>pp_handle = h, pp_page_handle = None, pp_page = None, pp_where = 0, pp_oob = 0\<rparr>"
  have mem1: "pp_mem ?P (insert m D) (S\<lparr>pp_allocator := A, pp_nodes := (pp_nodes S)(m := ?N)\<rparr>)"
    using h(4)[of ?N] by (simp add: m_def)
  have n: "n \<in> ?P" using assms(2) by simp
  have "pp_mem (insert m (?P - {n})) (insert n (insert m D - {m})) T"
    by (rule pp_mem_move[OF mem1 n insertI1]) (use ne in \<open>auto simp: T_def pp_push_def old_def\<close>)
  moreover have "insert m (?P - {n}) = set (m # pp_free_head S) \<union> (H - {n}) \<union> X" "insert n (insert m D - {m}) = insert n D"
    using ne by auto
  ultimately have mem: "pp_mem (set (m # pp_free_head S) \<union> (H - {n}) \<union> X) (insert n D) T" by simp
  have "card H = Suc (card (H - {n}))" using I(3) assms(2) by (metis card.remove)
  moreover have "unat (pp_nfree S) < unat (pp_poollen S)" using I(7,8) assms(2) I(3) by (auto simp: card_gt_0_iff)
  then have "unat (pp_nfree S + 1) = Suc (unat (pp_nfree S))"
    by (intro unat_Suc_less[where b = "pp_poollen S"]) (simp add: word_less_nat_alt)
  ultimately have "pp_inv E (H - {n}) X (insert n D) T"
    unfolding pp_inv_def using I(2-15) ne mem by (auto simp: T_def pp_push_def)
  then show ?thesis using e by (simp add: T_def pp_push_def)
qed

lemma pp_free_data_X:
  assumes "pp_inv E H X D S" "n \<in> X" "n \<notin> E"
  shows "\<exists>S'. pp_free_data n S = Some S' \<and> pp_free_node n S' = None"
proof -
  note I = pp_invD[OF assms(1)]
  have n: "n \<in> set (pp_free_head S) \<union> H \<union> X" using assms(2) by simp
  from pp_memD(6)[OF I(1) n] obtain p where p: "pp_page_handle (pp_nodes S n) = Some p" "pp_page (pp_nodes S n) \<noteq> None"
    "a_heap (pp_allocator S) p \<noteq> None" by auto
  from free_live[OF pp_memD(1)[OF I(1)] p(3)] obtain A where A: "allocator_free p (pp_allocator S) = Some A" by blast
  then have "allocator_free p A = None" by (rule ac.put_twice[OF pp_memD(1)[OF I(1)]])
  then show ?thesis
    using A p I(13)[OF assms(2,3)] by (auto simp: pp_free_data_def pp_free_node_def pp_release_def)
qed

section \<open>Initialization and destruction\<close>

lemma pp_inv_empty:
  assumes "alloc_inv A" "i < a_set_max A"
  shows "pp_inv {} {} {} {} \<lparr>pp_allocator = A, pp_set_id = i, pp_free_head = [], pp_poolsz = z, pp_poollen = 0, pp_extendn = 4,
    pp_nfree = 0, pp_pagesz = b, pp_pageszshift = c, pp_nodes = f\<rparr>"
  using assms by (simp add: pp_inv_def pp_mem_def)

lemma pp_first_pages_spec:
  assumes "pp_inv E {} {} {} S" "pp_poollen S = 0" "4 \<le> unat (pp_poolsz S)"
  shows "\<exists>S'. pp_first_pages ps 4 S = Some S' \<and> pp_inv E {} {} {} S' \<and> pp_poollen S' = 4 \<and> pp_poolsz S' = pp_poolsz S"
proof -
  obtain S' where e: "pp_extend ps S = Some S'" "pp_inv E {} {} {} S'" "pp_poolsz S' = pp_poolsz S"
    "unat (pp_poollen S') = min (unat (pp_poollen S) + 4) (unat (pp_poolsz S))" using pp_extend_spec[OF assms(1)] by blast
  have "unat (pp_poollen S') = 4" using e(4) assms(2,3) by simp
  then have l: "pp_poollen S' = 4" by (simp add: word_unat_eq_iff)
  then have "pp_first_pages ps 4 S' = Some S'" by (subst pp_first_pages.simps) simp
  then have "pp_first_pages ps 4 S = Some S'" using e(1) assms(2) by (subst pp_first_pages.simps) simp
  then show ?thesis using e(2,3) l by blast
qed

lemma pp_first_pages_stuck:
  assumes "pp_first_pages ps l S = Some S'"
  shows "\<not> (pp_poollen S < l \<and> pp_poollen S = pp_poolsz S)"
proof (rule pp_first_pages.raw_induct[where P = "\<lambda>ps l S S'. \<not> (pp_poollen S < l \<and> pp_poollen S = pp_poolsz S)", OF _ assms],
    rule notI, goal_cases)
  case (1 f ps l S S')
  then have "f ps l S = Some S'" by (auto simp: pp_extend_def)
  from 1(1)[OF this] 1(3) show False by blast
qed

lemma pp_first_pages_small:
  assumes "pp_inv E {} {} {} S" "unat (pp_poolsz S) < 4" "unat (pp_poollen S) \<le> unat (pp_poolsz S)"
  shows "pp_first_pages ps 4 S = None"
proof -
  obtain T where e: "pp_extend ps S = Some T" "pp_poolsz T = pp_poolsz S"
    "unat (pp_poollen T) = min (unat (pp_poollen S) + 4) (unat (pp_poolsz S))" using pp_extend_spec[OF assms(1)] by blast
  have T: "pp_poollen T = pp_poolsz T" using e(2,3) assms(2) by (simp add: word_unat_eq_iff)
  have "pp_poollen S < 4" "pp_poollen T < 4" using assms(2,3) T e(2) by (simp_all add: word_less_nat_alt)
  then have "pp_first_pages ps 4 T = None"
    using pp_first_pages_stuck[of ps 4 T] T by (cases "pp_first_pages ps 4 T") auto
  then show ?thesis using e(1) \<open>pp_poollen S < 4\<close> by (subst pp_first_pages.simps) simp
qed

lemma pp_destroy_loop_spec:
  assumes "pp_mem (set xs \<union> X) D S" "distinct xs" "set xs \<inter> X = {}" "unat (pp_nfree S) = length xs"
  shows "\<exists>S'. pp_destroy_loop xs S = Some S' \<and> pp_mem X D S' \<and> pp_nfree S' = 0"
  using assms
proof (induction xs arbitrary: S)
  case Nil
  then show ?case by (simp add: unat_eq_0)
next
  case (Cons n xs)
  let ?S = "S\<lparr>pp_free_head := xs, pp_nfree := pp_nfree S - 1\<rparr>"
  have m: "pp_mem (set (n # xs) \<union> X) D ?S" using pp_mem_fields[OF Cons.prems(1), of ?S] by simp
  have n: "n \<in> set (n # xs) \<union> X" by simp
  obtain A where r: "pp_release n ?S = Some (?S\<lparr>pp_allocator := A\<rparr>)"
    "pp_mem (set (n # xs) \<union> X - {n}) D (?S\<lparr>pp_allocator := A\<rparr>)"
    by (rule pp_release_spec[OF m n]) (rule that; assumption)
  have "set (n # xs) \<union> X - {n} = set xs \<union> X" using Cons.prems(2,3) by auto
  with r(2) have m2: "pp_mem (set xs \<union> X) D (?S\<lparr>pp_allocator := A\<rparr>)" by simp
  have "pp_nfree S \<noteq> 0" using Cons.prems(4) by auto
  then have "unat (pp_nfree (?S\<lparr>pp_allocator := A\<rparr>)) = length xs" using Cons.prems(4) by (simp add: unat_minus_one)
  from Cons.IH[OF m2 _ _ this] Cons.prems(2,3) r(1) show ?case by auto
qed

lemma pp_destroy_spec:
  assumes "pp_inv E {} X D S"
  shows "\<exists>S'. pp_destroy S = Some S' \<and> pp_mem X D S' \<and> pp_nfree S' = 0"
proof -
  note I = pp_invD[OF assms]
  have "pp_poollen S = pp_nfree S" using I(7,8) by (simp add: word_unat_eq_iff)
  moreover obtain S' where "pp_destroy_loop (pp_free_head S) S = Some S'" "pp_mem X D S'" "pp_nfree S' = 0"
    using pp_destroy_loop_spec[of "pp_free_head S" X D S] I by auto
  ultimately show ?thesis by (simp add: pp_destroy_def)
qed

section \<open>Runs\<close>

text \<open>A run of the pool: the nodes that clients hold, in the three kinds, and the state.\<close>

inductive pp_reach :: "u64 \<Rightarrow> nat set \<Rightarrow> nat set \<Rightarrow> nat set \<Rightarrow> pp_private \<Rightarrow> bool" for ps where
  init: "alloc_reach role A \<Longrightarrow> set_id < a_set_max A \<Longrightarrow> pp_initialization ps A set_id page_size pool_size = Some S \<Longrightarrow>
    pp_reach ps {} {} {} S"
| get: "pp_reach ps H X D S \<Longrightarrow> pp_get_node ps S = Some (PpNode n, S') \<Longrightarrow> pp_reach ps (insert n H) X D S'"
| get_sleep: "pp_reach ps H X D S \<Longrightarrow> pp_get_node ps S = Some (PpWait, S') \<Longrightarrow> pp_reach ps H X D S'"
| awake: "pp_reach ps H X D S \<Longrightarrow> pp_get_wait S = Some (PpNode n, S') \<Longrightarrow> pp_reach ps (insert n H) X D S'"
| timed: "pp_reach ps H X D S \<Longrightarrow> pp_get_node_timed ps S = Some (PpNode n, S') \<Longrightarrow> pp_reach ps (insert n H) X D S'"
| timed_sleep: "pp_reach ps H X D S \<Longrightarrow> pp_get_node_timed ps S = Some (PpWait, S') \<Longrightarrow> pp_reach ps H X D S'"
| timed_awake: "pp_reach ps H X D S \<Longrightarrow> pp_timed_wakeup S = Some (PpNode n, S') \<Longrightarrow> pp_reach ps (insert n H) X D S'"
| nowait: "pp_reach ps H X D S \<Longrightarrow> pp_get_node_nowait ps S = Some (PpNode n, S') \<Longrightarrow> pp_reach ps (insert n H) X D S'"
| nowait_null: "pp_reach ps H X D S \<Longrightarrow> pp_get_node_nowait ps S = Some (PpNull, S') \<Longrightarrow> pp_reach ps H X D S'"
| forced: "pp_reach ps H X D S \<Longrightarrow> pp_get_node_forcibly ps S = Some (n, S') \<Longrightarrow> pp_oob (pp_nodes S' n) = 0 \<Longrightarrow>
    pp_reach ps (insert n H) X D S'"
| beyond: "pp_reach ps H X D S \<Longrightarrow> pp_get_node_forcibly ps S = Some (n, S') \<Longrightarrow> pp_oob (pp_nodes S' n) \<noteq> 0 \<Longrightarrow>
    pp_reach ps H (insert n X) D S'"
| nondata: "pp_reach ps H X D S \<Longrightarrow> pp_get_node_nondata S = Some (n, S') \<Longrightarrow> pp_reach ps H X (insert n D) S'"
| mark: "pp_reach ps H X D S \<Longrightarrow> n \<in> H \<union> X \<union> D \<Longrightarrow>
    pp_reach ps H X D (S\<lparr>pp_nodes := (pp_nodes S)(n := (pp_nodes S n)\<lparr>pp_where := w\<rparr>)\<rparr>)"
| free_held: "pp_reach ps H X D S \<Longrightarrow> n \<in> H \<Longrightarrow> pp_free_node n S = Some S' \<Longrightarrow> pp_reach ps (H - {n}) X D S'"
| free_beyond: "pp_reach ps H X D S \<Longrightarrow> n \<in> X \<Longrightarrow> pp_free_node n S = Some S' \<Longrightarrow> pp_reach ps H (X - {n}) D S'"
| free_bare: "pp_reach ps H X D S \<Longrightarrow> n \<in> D \<Longrightarrow> pp_free_node n S = Some S' \<Longrightarrow> pp_reach ps H X (D - {n}) S'"
| free_data: "pp_reach ps H X D S \<Longrightarrow> n \<in> H \<Longrightarrow> pp_free_data n S = Some S' \<Longrightarrow> pp_reach ps (H - {n}) X (insert n D) S'"

lemma pp_initialization_cases:
  assumes "alloc_inv A" "set_id < a_set_max A"
  shows "if pool_size = 0 \<or> 4 \<le> unat pool_size
    then \<exists>S. pp_initialization ps A set_id page_size pool_size = Some S \<and> pp_inv {} {} {} {} S \<and> pp_poollen S = 4 \<and>
      pp_poolsz S = (if pool_size \<noteq> 0 then pool_size else DEFAULT_POOLSIZE)
    else pp_initialization ps A set_id page_size pool_size = None"
proof -
  define S where "S = pp_new A set_id page_size pool_size"
  have e: "pp_initialization ps A set_id page_size pool_size = pp_first_pages ps 4 S"
    by (simp add: pp_initialization_def Let_def S_def pp_new_def)
  have I: "pp_inv {} {} {} {} S" unfolding S_def pp_new_def by (rule pp_inv_empty[OF assms])
  have l: "pp_poollen S = 0" by (simp add: S_def pp_new_def)
  show ?thesis
  proof (cases "pool_size = 0 \<or> 4 \<le> unat pool_size")
    case True
    then have "4 \<le> unat (pp_poolsz S)" by (auto simp: S_def pp_new_def DEFAULT_POOLSIZE_def)
    from pp_first_pages_spec[OF I l this] True e show ?thesis by (auto simp: S_def pp_new_def)
  next
    case False
    then have "unat (pp_poolsz S) < 4" by (simp add: S_def pp_new_def)
    from pp_first_pages_small[OF I this] l False e show ?thesis by simp
  qed
qed

lemma pp_reach_inv: "pp_reach ps H X D S \<Longrightarrow> pp_inv {} H X D S"
proof (induction rule: pp_reach.induct)
  case (init role A set_id page_size pool_size S)
  then show ?case
    using pp_initialization_cases[OF alloc_reach_inv[OF init(1)] init(2), of pool_size ps page_size]
    by (auto split: if_splits)
next
  case (get H X D S n S')
  then show ?case using pp_get_spec[OF get(3), of ps PpWait] by (auto simp: pp_get_node_def pp_get_wait_def)
next
  case (get_sleep H X D S S')
  then show ?case using pp_get_spec[OF get_sleep(3), of ps PpWait] by (auto simp: pp_get_node_def pp_get_wait_def)
next
  case (awake H X D S n S')
  then show ?case using pp_take_or_spec[OF awake(3), of PpWait] by (auto simp: pp_get_wait_def split: if_splits)
next
  case (timed H X D S n S')
  then show ?case using pp_get_spec[OF timed(3), of ps PpWait] by (auto simp: pp_get_node_timed_def)
next
  case (timed_sleep H X D S S')
  then show ?case using pp_get_spec[OF timed_sleep(3), of ps PpWait] by (auto simp: pp_get_node_timed_def)
next
  case (timed_awake H X D S n S')
  then show ?case using pp_take_or_spec[OF timed_awake(3), of PpNull] by (auto simp: pp_timed_wakeup_def split: if_splits)
next
  case (nowait H X D S n S')
  then show ?case using pp_get_spec[OF nowait(3), of ps PpNull] by (auto simp: pp_get_node_nowait_def)
next
  case (nowait_null H X D S S')
  then show ?case using pp_get_spec[OF nowait_null(3), of ps PpNull] by (auto simp: pp_get_node_nowait_def)
next
  case (forced H X D S n S')
  then show ?case using pp_get_node_forcibly_spec[OF forced(4), of ps] by auto
next
  case (beyond H X D S n S')
  then show ?case using pp_get_node_forcibly_spec[OF beyond(4), of ps] by auto
next
  case (nondata H X D S n S')
  then show ?case using pp_get_node_nondata_spec[OF nondata(3)] by auto
next
  case (free_held H X D S n S')
  then show ?case using pp_free_node_H by fastforce
next
  case (free_beyond H X D S n S')
  then show ?case using pp_free_node_X by fastforce
next
  case (free_bare H X D S n S')
  then show ?case using pp_free_node_D by fastforce
next
  case (free_data H X D S n S')
  then show ?case using pp_free_data_H by fastforce
next
  case (mark H X D S n w)
  then show ?case by (intro pp_where_inv) simp_all
qed

section \<open>Properties\<close>

lemma pp_boot:
  obtains S where "pp_initialization 4096 (allocator_initialization ALLOCATOR_ROLE_SERVER) 9 8 16 = Some S"
    "pp_reach 4096 {} {} {} S"
proof -
  have m: "9 < a_set_max (allocator_initialization ALLOCATOR_ROLE_SERVER)"
    by (simp add: allocator_initialization_def ALLOCATOR_SET_SERVER_MAX_def)
  from pp_initialization_cases[OF alloc_inv_init m, of 16 4096 8] obtain S where
    S: "pp_initialization 4096 (allocator_initialization ALLOCATOR_ROLE_SERVER) 9 8 16 = Some S" by auto
  from that[OF S pp_reach.init[OF alloc_reach.init m S]] show ?thesis .
qed

text \<open>C34. Requests to the pool always return, although they extend the pool in a loop: \<open>pp_get_node_nowait\<close>
  gives a page that nobody holds unless all the pages of a full pool are held,
  \<open>pp_get_node\<close> waits in that case only, \<open>pp_get_node_forcibly\<close> allocates beyond the pool in that case only; and a
  held node can be released, after which a request is served.\<close>

theorem pp_get_progress:
  assumes "pp_reach ps H X D S"
  shows "(\<exists>g S'. pp_get_node_nowait ps S = Some (g, S') \<and>
      (g = PpNull \<and> card H = unat (pp_poolsz S) \<or> (\<exists>n. g = PpNode n \<and> n \<notin> H \<union> X \<union> D))) \<and>
    (\<exists>g S'. pp_get_node ps S = Some (g, S') \<and>
      (g = PpWait \<and> card H = unat (pp_poolsz S) \<or> (\<exists>n. g = PpNode n \<and> n \<notin> H \<union> X \<union> D))) \<and>
    (\<exists>n S'. pp_get_node_forcibly ps S = Some (n, S') \<and> n \<notin> H \<union> X \<union> D \<and>
      (pp_oob (pp_nodes S' n) = 0 \<or> card H = unat (pp_poolsz S))) \<and>
    (\<forall>n\<in>H. \<exists>S' m S''. pp_free_node n S = Some S' \<and> pp_get_node_nowait ps S' = Some (PpNode m, S''))"
proof (intro conjI ballI)
  have I: "pp_inv {} H X D S" using pp_reach_inv[OF assms] .
  show "\<exists>g S'. pp_get_node_nowait ps S = Some (g, S') \<and>
      (g = PpNull \<and> card H = unat (pp_poolsz S) \<or> (\<exists>n. g = PpNode n \<and> n \<notin> H \<union> X \<union> D))"
    unfolding pp_get_node_nowait_def using pp_get_spec[OF I, of ps PpNull] by (elim exE conjE disjE) auto
  show "\<exists>g S'. pp_get_node ps S = Some (g, S') \<and>
      (g = PpWait \<and> card H = unat (pp_poolsz S) \<or> (\<exists>n. g = PpNode n \<and> n \<notin> H \<union> X \<union> D))"
    unfolding pp_get_node_def pp_get_wait_def using pp_get_spec[OF I, of ps PpWait] by (elim exE conjE disjE) auto
  show "\<exists>n S'. pp_get_node_forcibly ps S = Some (n, S') \<and> n \<notin> H \<union> X \<union> D \<and>
      (pp_oob (pp_nodes S' n) = 0 \<or> card H = unat (pp_poolsz S))"
    using pp_get_node_forcibly_spec[OF I, of ps] by (elim exE conjE) (auto split: if_splits)
  fix n assume n: "n \<in> H"
  obtain T where T: "pp_free_node n S = Some T" "pp_inv {} (H - {n}) X D T" "pp_poolsz T = pp_poolsz S"
    using pp_free_node_H[OF I n] by blast
  have "card (H - {n}) < card H" using n pp_invD(3)[OF I] by (rule card_Diff1_less[rotated])
  moreover have "card H \<le> unat (pp_poolsz S)" using pp_invD(8,9)[OF I] by (simp add: word_le_nat_alt)
  ultimately have "card (H - {n}) \<noteq> unat (pp_poolsz T)" using T(3) by simp
  then obtain m U where "Option.bind (pp_fill ps T) (pp_take_or PpNull) = Some (PpNode m, U)"
    using pp_get_spec[OF T(2), of ps PpNull] by (elim exE conjE disjE) auto
  then show "\<exists>S' m S''. pp_free_node n S = Some S' \<and> pp_get_node_nowait ps S' = Some (PpNode m, S'')"
    using T(1) by (auto simp: pp_get_node_nowait_def)
qed

theorem pp_get_progress_witness:
  "\<exists>S n S'. pp_initialization 4096 (allocator_initialization ALLOCATOR_ROLE_SERVER) 9 8 16 = Some S \<and>
     pp_get_node_nowait 4096 S = Some (PpNode n, S')"
proof -
  obtain S where S: "pp_initialization 4096 (allocator_initialization ALLOCATOR_ROLE_SERVER) 9 8 16 = Some S"
    "pp_reach 4096 {} {} {} S" by (rule pp_boot)
  have m: "9 < a_set_max (allocator_initialization ALLOCATOR_ROLE_SERVER)"
    by (simp add: allocator_initialization_def ALLOCATOR_SET_SERVER_MAX_def)
  from pp_initialization_cases[OF alloc_inv_init m, of 16 4096 8] S(1) have "pp_poollen S = 4" by auto
  moreover have "pp_poollen S \<le> pp_poolsz S" by (rule pp_invD(9)[OF pp_reach_inv[OF S(2)]])
  ultimately have "card ({} :: nat set) \<noteq> unat (pp_poolsz S)" by (auto simp: word_le_nat_alt)
  with pp_get_progress[OF S(2)] S(1) show ?thesis by auto
qed

lemma pp_reach_held:
  assumes "pp_reach ps {} {} {} S" "k \<le> unat (pp_poolsz S)"
  shows "\<exists>H S'. pp_reach ps H {} {} S' \<and> card H = k \<and> pp_poolsz S' = pp_poolsz S"
  using assms(2)
proof (induction k)
  case 0
  then show ?case using assms(1) card.empty by blast
next
  case (Suc k)
  then obtain H T where T: "pp_reach ps H {} {} T" "card H = k" "pp_poolsz T = pp_poolsz S" by auto
  note I = pp_reach_inv[OF T(1)]
  have "card H \<noteq> unat (pp_poolsz T)" using T Suc.prems by simp
  then obtain n U where U: "pp_get_node_nowait ps T = Some (PpNode n, U)" "n \<notin> H" "pp_poolsz U = pp_poolsz T"
    using pp_get_spec[OF I, of ps PpNull] by (auto simp: pp_get_node_nowait_def)
  have "card (insert n H) = Suc k" using pp_invD(3)[OF I] U(2) T(2) by simp
  then show ?case using pp_reach.nowait[OF T(1) U(1)] U(3) T(3) by auto
qed

text \<open>C35. \<open>pp_free_data\<close> of a node that was allocated beyond the pool leaves the node with its page handle, so the
  \<open>pp_free_node\<close> that has to follow releases the page a second time and reads the handle that is already freed; for a node of the
  pool the two calls give back the page and the node.\<close>

theorem pp_free_data_twice:
  assumes "pp_reach ps H X D S"
  shows "(\<forall>n\<in>X. \<exists>S'. pp_free_data n S = Some S' \<and> pp_free_node n S' = None) \<and>
    (\<forall>n\<in>H. \<exists>S' S''. pp_free_data n S = Some S' \<and> pp_free_node n S' = Some S'' \<and> pp_inv {} (H - {n}) X D S'')"
proof (intro conjI ballI)
  have I: "pp_inv {} H X D S" using pp_reach_inv[OF assms] .
  show "\<exists>S'. pp_free_data n S = Some S' \<and> pp_free_node n S' = None" if "n \<in> X" for n
    using pp_free_data_X[OF I that] by simp
  fix n assume n: "n \<in> H"
  obtain T where T: "pp_free_data n S = Some T" "pp_inv {} (H - {n}) X (insert n D) T" using pp_free_data_H[OF I n] by blast
  have "n \<notin> D" using pp_memD(3)[OF pp_invD(1)[OF I]] n by auto
  then have "insert n D - {n} = D" by simp
  with pp_free_node_D[OF T(2) insertI1] T(1)
  show "\<exists>S' S''. pp_free_data n S = Some S' \<and> pp_free_node n S' = Some S'' \<and> pp_inv {} (H - {n}) X D S''" by auto
qed

text \<open>A pool of sixteen pages, all of them held: the next page comes from beyond the pool, and its release after \<open>pp_free_data\<close> fails.\<close>

theorem pp_free_data_twice_witness:
  "\<exists>H S n S1 S2. pp_reach 4096 H {} {} S \<and> card H = unat (pp_poolsz S) \<and> pp_get_node_forcibly 4096 S = Some (n, S1) \<and>
     pp_oob (pp_nodes S1 n) \<noteq> 0 \<and> pp_free_data n S1 = Some S2 \<and> pp_free_node n S2 = None"
proof -
  obtain S0 where "pp_reach 4096 {} {} {} S0" by (rule pp_boot)
  then obtain H S where S: "pp_reach 4096 H {} {} S" "card H = unat (pp_poolsz S)"
    using pp_reach_held[of 4096 S0 "unat (pp_poolsz S0)"] by auto
  note I = pp_reach_inv[OF S(1)]
  obtain n S1 where f: "pp_get_node_forcibly 4096 S = Some (n, S1)" "n \<notin> H" "pp_poolsz S1 = pp_poolsz S"
    "pp_oob (pp_nodes S1 n) = 0 \<Longrightarrow> pp_inv {} (insert n H) {} {} S1"
    using pp_get_node_forcibly_spec[OF I, of 4096] by auto
  have o: "pp_oob (pp_nodes S1 n) \<noteq> 0"
  proof
    assume "pp_oob (pp_nodes S1 n) = 0"
    from pp_invD(8,9)[OF f(4)[OF this]] show False using f(2,3) S(2) pp_invD(3)[OF I] by (simp add: word_le_nat_alt)
  qed
  from pp_free_data_twice[OF pp_reach.beyond[OF S(1) f(1) o]] show ?thesis using S f(1) o by blast
qed

lemma pp_extend_again:
  assumes "pp_inv E {} {} {} S"
  shows "\<exists>T. ((\<lambda>r. Option.bind r (pp_extend ps)) ^^ n) (Some S) = Some T \<and> pp_inv E {} {} {} T \<and> pp_poolsz T = pp_poolsz S"
proof (induction n)
  case (Suc n)
  then obtain T where T: "((\<lambda>r. Option.bind r (pp_extend ps)) ^^ n) (Some S) = Some T" "pp_inv E {} {} {} T" "pp_poolsz T = pp_poolsz S" by blast
  from pp_extend_spec[OF T(2), of ps] T(1,3) show ?case by auto
qed (use assms in simp)

text \<open>C36. Initialization of a pool returns exactly if the pool size is the default or at least four, and then with four pages. For
  a pool of one, two or three pages the loop that creates the first pages never ends: each of its turns succeeds, however many
  there are, and leaves fewer than the four pages that the loop waits for.\<close>

theorem pp_initialization_small_hangs:
  assumes "alloc_reach role A" "set_id < a_set_max A"
  shows "((\<exists>S. pp_initialization ps A set_id page_size pool_size = Some S) \<longleftrightarrow> pool_size = 0 \<or> 4 \<le> unat pool_size) \<and>
    (\<forall>S. pp_initialization ps A set_id page_size pool_size = Some S \<longrightarrow> pp_reach ps {} {} {} S \<and> pp_poollen S = 4) \<and>
    (pool_size \<noteq> 0 \<and> unat pool_size < 4 \<longrightarrow>
      (\<forall>n. \<exists>T. ((\<lambda>r. Option.bind r (pp_extend ps)) ^^ n) (Some (pp_new A set_id page_size pool_size)) = Some T \<and> pp_poollen T < 4))"
proof (intro conjI)
  note I = alloc_reach_inv[OF assms(1)]
  note c = pp_initialization_cases[OF I assms(2), of pool_size ps page_size]
  show "(\<exists>S. pp_initialization ps A set_id page_size pool_size = Some S) \<longleftrightarrow> pool_size = 0 \<or> 4 \<le> unat pool_size"
    using c by (auto split: if_splits)
  show "\<forall>S. pp_initialization ps A set_id page_size pool_size = Some S \<longrightarrow> pp_reach ps {} {} {} S \<and> pp_poollen S = 4"
    using c pp_reach.init[OF assms] by (auto split: if_splits)
  have "pp_inv {} {} {} {} (pp_new A set_id page_size pool_size)" unfolding pp_new_def by (rule pp_inv_empty[OF I assms(2)])
  note e = pp_extend_again[OF this, where ps = ps]
  show "pool_size \<noteq> 0 \<and> unat pool_size < 4 \<longrightarrow>
      (\<forall>n. \<exists>T. ((\<lambda>r. Option.bind r (pp_extend ps)) ^^ n) (Some (pp_new A set_id page_size pool_size)) = Some T \<and> pp_poollen T < 4)"
  proof (intro impI allI)
    fix n assume z: "pool_size \<noteq> 0 \<and> unat pool_size < 4"
    obtain T where T: "((\<lambda>r. Option.bind r (pp_extend ps)) ^^ n) (Some (pp_new A set_id page_size pool_size)) = Some T"
      "pp_inv {} {} {} {} T" "pp_poolsz T = pp_poolsz (pp_new A set_id page_size pool_size)" using e[where n = n] by blast
    have "pp_poollen T \<le> pool_size" using pp_invD(9)[OF T(2)] T(3) z by (simp add: pp_new_def)
    then have "pp_poollen T < 4" using z by (simp add: word_le_nat_alt word_less_nat_alt)
    then show "\<exists>T. ((\<lambda>r. Option.bind r (pp_extend ps)) ^^ n) (Some (pp_new A set_id page_size pool_size)) = Some T \<and> pp_poollen T < 4"
      using T(1) by blast
  qed
qed

theorem pp_initialization_small_hangs_witness:
  "pp_initialization 4096 (allocator_initialization ALLOCATOR_ROLE_SERVER) 9 8 3 = None \<and>
   (\<exists>T. ((\<lambda>r. Option.bind r (pp_extend 4096)) ^^ 1000) (Some (pp_new (allocator_initialization ALLOCATOR_ROLE_SERVER) 9 8 3)) = Some T \<and>
     pp_poollen T < 4)"
proof -
  have m: "9 < a_set_max (allocator_initialization ALLOCATOR_ROLE_SERVER)"
    by (simp add: allocator_initialization_def ALLOCATOR_SET_SERVER_MAX_def)
  from pp_initialization_small_hangs[OF alloc_reach.init m, of 4096 8 3] show ?thesis by auto
qed

end
