(* ===== verification/Pp_Run.thy ===== *)
theory Pp_Run
  imports Pp_Inv
begin

text \<open>
  The page pool \<open>mm/pp.c\<close> under threads. A request gives the mutex up while \<open>_pp_extend\<close> allocates, so several threads may
  extend the pool at the same time: each reads the length of the pool without the mutex, allocates a node, and tests again
  when it has the mutex. A step is what a thread does while it holds the mutex, one read of the length without it, or one
  allocation, which other threads see only through the allocator. The threads take their steps in any order.
\<close>

section \<open>Threads\<close>

datatype pp_request = Get | Timed | Nowait | Forcibly

text \<open>
  Where a thread is: at the test of the loop of its request; in \<open>_pp_extend\<close>, in front of the first, the second and the third read of
  \<open>p_poollen\<close>; in its loop, with the number of turns left; there with a new node that is not yet in the pool; asleep; or in front
  of the allocation beyond the pool.
\<close>

datatype pp_pc = Outside | Test pp_request | Extend pp_request | Extend_sum pp_request | Extend_rest pp_request
  | Turns pp_request nat | Adding pp_request nat nat | Asleep pp_request | Beyond

text \<open>The end of a request, with the mutex; \<open>PpWait\<close> of \<open>pp_get_node_forcibly\<close> is that it gives the mutex back and allocates beyond the pool.\<close>

fun pp_request_end :: "pp_request \<Rightarrow> pp_private \<Rightarrow> (pp_got \<times> pp_private) option" where
  "pp_request_end Get S = pp_get_wait S"
| "pp_request_end Timed S = pp_take_or PpWait S"
| "pp_request_end Nowait S = pp_take_or PpNull S"
| "pp_request_end Forcibly S =
     do {
       (g, S) \<leftarrow> pp_take_or PpWait S;
       (case g of PpNode np \<Rightarrow> c_assert (pp_oob (pp_nodes S np) = 0) | _ \<Rightarrow> Some ());
       Some (g, S)
     }"

fun pp_request_awake :: "pp_request \<Rightarrow> pp_private \<Rightarrow> (pp_got \<times> pp_private) option" where
  "pp_request_awake Timed S = pp_timed_wakeup S"
| "pp_request_awake _ S = pp_get_wait S"

definition pp_may_extend :: "pp_private \<Rightarrow> bool" where
  "pp_may_extend S \<longleftrightarrow> pp_nfree S = 0 \<and> pp_poolsz S > pp_poollen S"

text \<open>The runs: the program counters, the nodes that clients hold, in three kinds, and the pool.\<close>

inductive pp_run :: "u64 \<Rightarrow> (nat \<Rightarrow> pp_pc) \<Rightarrow> nat set \<Rightarrow> nat set \<Rightarrow> nat set \<Rightarrow> pp_private \<Rightarrow> bool" for ps where
  init: "alloc_reach role A \<Longrightarrow> set_id < a_set_max A \<Longrightarrow> pp_initialization ps A set_id page_size pool_size = Some S \<Longrightarrow>
    pp_run ps (\<lambda>_. Outside) {} {} {} S"
| request: "pp_run ps P H X D S \<Longrightarrow> P t = Outside \<Longrightarrow> pp_run ps (P(t := Test k)) H X D S"
| test: "pp_run ps P H X D S \<Longrightarrow> P t = Test k \<Longrightarrow> pp_may_extend S \<Longrightarrow> pp_run ps (P(t := Extend k)) H X D S"
| full: "pp_run ps P H X D S \<Longrightarrow> P t = Extend k \<Longrightarrow> pp_poollen S \<ge> pp_poolsz S \<Longrightarrow> pp_run ps (P(t := Test k)) H X D S"
| not_full: "pp_run ps P H X D S \<Longrightarrow> P t = Extend k \<Longrightarrow> \<not> pp_poollen S \<ge> pp_poolsz S \<Longrightarrow> pp_run ps (P(t := Extend_sum k)) H X D S"
| sum_beyond: "pp_run ps P H X D S \<Longrightarrow> P t = Extend_sum k \<Longrightarrow> pp_poollen S + pp_extendn S > pp_poolsz S \<Longrightarrow>
    pp_run ps (P(t := Extend_rest k)) H X D S"
| sum_inside: "pp_run ps P H X D S \<Longrightarrow> P t = Extend_sum k \<Longrightarrow> \<not> pp_poollen S + pp_extendn S > pp_poolsz S \<Longrightarrow>
    pp_run ps (P(t := Turns k (nat (sint (pp_extendn S))))) H X D S"
| rest: "pp_run ps P H X D S \<Longrightarrow> P t = Extend_rest k \<Longrightarrow>
    pp_run ps (P(t := Turns k (nat (sint (pp_poolsz S - pp_poollen S))))) H X D S"
| no_turn: "pp_run ps P H X D S \<Longrightarrow> P t = Turns k 0 \<Longrightarrow> pp_run ps (P(t := Test k)) H X D S"
| turn: "pp_run ps P H X D S \<Longrightarrow> P t = Turns k (Suc n) \<Longrightarrow> pp_alloc_node ps 0 S = Some (np, S') \<Longrightarrow>
    pp_run ps (P(t := Adding k n np)) H X D S'"
| add: "pp_run ps P H X D S \<Longrightarrow> P t = Adding k n np \<Longrightarrow> pp_extend_add np S = Some (go, S') \<Longrightarrow>
    pp_run ps (P(t := if go then Turns k n else Test k)) H X D S'"
| got: "pp_run ps P H X D S \<Longrightarrow> P t = Test k \<Longrightarrow> \<not> pp_may_extend S \<Longrightarrow> pp_request_end k S = Some (PpNode n, S') \<Longrightarrow>
    pp_run ps (P(t := Outside)) (insert n H) X D S'"
| null: "pp_run ps P H X D S \<Longrightarrow> P t = Test k \<Longrightarrow> \<not> pp_may_extend S \<Longrightarrow> pp_request_end k S = Some (PpNull, S') \<Longrightarrow>
    pp_run ps (P(t := Outside)) H X D S'"
| wait: "pp_run ps P H X D S \<Longrightarrow> P t = Test k \<Longrightarrow> \<not> pp_may_extend S \<Longrightarrow> pp_request_end k S = Some (PpWait, S') \<Longrightarrow>
    pp_run ps (P(t := if k = Forcibly then Beyond else Asleep k)) H X D S'"
| awake_got: "pp_run ps P H X D S \<Longrightarrow> P t = Asleep k \<Longrightarrow> pp_request_awake k S = Some (PpNode n, S') \<Longrightarrow>
    pp_run ps (P(t := Outside)) (insert n H) X D S'"
| awake_null: "pp_run ps P H X D S \<Longrightarrow> P t = Asleep k \<Longrightarrow> pp_request_awake k S = Some (PpNull, S') \<Longrightarrow>
    pp_run ps (P(t := Outside)) H X D S'"
| beyond: "pp_run ps P H X D S \<Longrightarrow> P t = Beyond \<Longrightarrow> pp_alloc_node ps 1 S = Some (n, S') \<Longrightarrow>
    pp_run ps (P(t := Outside)) H (insert n X) D S'"
| nondata: "pp_run ps P H X D S \<Longrightarrow> pp_get_node_nondata S = Some (n, S') \<Longrightarrow> pp_run ps P H X (insert n D) S'"
| mark: "pp_run ps P H X D S \<Longrightarrow> n \<in> H \<union> X \<union> D \<Longrightarrow>
    pp_run ps P H X D (S\<lparr>pp_nodes := (pp_nodes S)(n := (pp_nodes S n)\<lparr>pp_where := w\<rparr>)\<rparr>)"
| free_held: "pp_run ps P H X D S \<Longrightarrow> n \<in> H \<Longrightarrow> pp_free_node n S = Some S' \<Longrightarrow> pp_run ps P (H - {n}) X D S'"
| free_beyond: "pp_run ps P H X D S \<Longrightarrow> n \<in> X \<Longrightarrow> pp_free_node n S = Some S' \<Longrightarrow> pp_run ps P H (X - {n}) D S'"
| free_bare: "pp_run ps P H X D S \<Longrightarrow> n \<in> D \<Longrightarrow> pp_free_node n S = Some S' \<Longrightarrow> pp_run ps P H X (D - {n}) S'"
| free_data: "pp_run ps P H X D S \<Longrightarrow> n \<in> H \<Longrightarrow> pp_free_data n S = Some S' \<Longrightarrow> pp_run ps P (H - {n}) X (insert n D) S'"

section \<open>Invariant\<close>

text \<open>The nodes that threads have allocated and not yet added; each belongs to one thread.\<close>

fun adding :: "pp_pc \<Rightarrow> nat set" where
  "adding (Adding k n np) = {np}"
| "adding _ = {}"

definition flight :: "(nat \<Rightarrow> pp_pc) \<Rightarrow> nat set" where
  "flight P = (\<Union>t. adding (P t))"

definition flight_ok :: "(nat \<Rightarrow> pp_pc) \<Rightarrow> bool" where
  "flight_ok P \<longleftrightarrow> (\<forall>t u. t \<noteq> u \<longrightarrow> adding (P t) \<inter> adding (P u) = {})"

lemma flight_same:
  assumes "adding c = adding (P t)"
  shows "flight (P(t := c)) = flight P" "flight_ok (P(t := c)) = flight_ok P"
proof -
  have "adding ((P(t := c)) u) = adding (P u)" for u using assms by simp
  then show "flight (P(t := c)) = flight P" "flight_ok (P(t := c)) = flight_ok P" unfolding flight_def flight_ok_def by simp_all
qed

lemma flight_upd: "flight (P(t := c)) = adding c \<union> (\<Union>u \<in> - {t}. adding (P u))"
  unfolding flight_def by (auto split: if_splits)

lemma flight_split: "flight P = adding (P t) \<union> (\<Union>u \<in> - {t}. adding (P u))"
  unfolding flight_def by auto

lemma flight_new:
  assumes "flight_ok P" "adding (P t) = {}" "np \<notin> flight P"
  shows "flight (P(t := Adding k n np)) = insert np (flight P)" "flight_ok (P(t := Adding k n np))"
proof -
  show "flight (P(t := Adding k n np)) = insert np (flight P)" using flight_split[of P t] assms(2) by (simp add: flight_upd)
  show "flight_ok (P(t := Adding k n np))" using assms(1,3) by (auto simp: flight_ok_def flight_def)
qed

lemma flight_done:
  assumes "flight_ok P" "P t = Adding k n np" "adding c = {}"
  shows "flight (P(t := c)) = flight P - {np}" "flight_ok (P(t := c))" "np \<in> flight P"
proof -
  have "np \<notin> adding (P u)" if "u \<noteq> t" for u
    using assms(1,2) that unfolding flight_ok_def by (metis adding.simps(1) disjoint_insert(1))
  then have "np \<notin> (\<Union>u \<in> - {t}. adding (P u))" by auto
  then show "flight (P(t := c)) = flight P - {np}" using flight_split[of P t] assms(2,3) by (simp add: flight_upd)
  show "flight_ok (P(t := c))" using assms(1,3) unfolding flight_ok_def by auto
  show "np \<in> flight P" using flight_split[of P t] assms(2) by simp
qed

definition run_ok :: "(nat \<Rightarrow> pp_pc) \<Rightarrow> nat set \<Rightarrow> nat set \<Rightarrow> nat set \<Rightarrow> pp_private \<Rightarrow> bool" where
  "run_ok P H X D S \<longleftrightarrow> flight_ok P \<and> flight P \<inter> X = {} \<and> pp_inv (flight P) H (X \<union> flight P) D S"

lemma run_okD:
  assumes "run_ok P H X D S"
  shows "flight_ok P" "flight P \<inter> X = {}" "pp_inv (flight P) H (X \<union> flight P) D S"
  using assms by (simp_all add: run_ok_def)

lemma run_ok_same: "run_ok P H X D S \<Longrightarrow> adding c = adding (P t) \<Longrightarrow> run_ok (P(t := c)) H X D S"
  using flight_same[of c P t] by (simp add: run_ok_def)

lemma run_take:
  assumes "run_ok P H X D S" "pp_take_or g S = Some (PpNode n, S')" "g \<noteq> PpNode n" "adding c = adding (P t)"
  shows "run_ok (P(t := c)) (insert n H) X D S'"
proof -
  note R = run_okD[OF assms(1)]
  have "run_ok P (insert n H) X D S'" using pp_take_or_spec[OF R(3), of g] assms(2,3) R(1,2) by (auto simp: run_ok_def split: if_splits)
  then show ?thesis using assms(4) by (rule run_ok_same)
qed

lemma run_none:
  assumes "run_ok P H X D S" "pp_take_or g S = Some (g', S')" "\<And>n. g' \<noteq> PpNode n" "adding c = adding (P t)"
  shows "run_ok (P(t := c)) H X D S'"
proof -
  have "S' = S" using pp_take_or_spec[OF run_okD(3)[OF assms(1)], of g] assms(2,3) by (auto split: if_splits)
  then show ?thesis using run_ok_same[OF assms(1,4)] by simp
qed

lemma forcibly_take:
  assumes "pp_inv E H X D S"
  shows "pp_request_end Forcibly S = pp_take_or PpWait S"
proof -
  have "pp_oob (pp_nodes S' np) = 0" if "pp_take S = Some (np, S')" for np S'
    using that pp_invD(12)[OF assms, of np] by (auto simp: pp_take_def split: list.splits)
  then show ?thesis by (auto simp: pp_take_or_def split: Option.bind_splits)
qed

lemma request_end_take:
  assumes "pp_inv E H X D S"
  shows "\<exists>g. pp_request_end k S = pp_take_or g S \<and> (\<forall>n. g \<noteq> PpNode n)" "\<exists>g. pp_request_awake k S = pp_take_or g S \<and> (\<forall>n. g \<noteq> PpNode n)"
  using forcibly_take[OF assms] by (cases k; fastforce simp: pp_get_wait_def pp_timed_wakeup_def)+

lemma pp_alloc_beyond:
  assumes "pp_inv E H X D S" "pp_alloc_node ps 1 S = Some (n, S')"
  shows "n \<notin> set (pp_free_head S) \<union> H \<union> X \<union> D" "pp_inv E H (insert n X) D S'"
proof -
  note I = pp_invD[OF assms(1)]
  obtain np T where a: "pp_alloc_node ps 1 S = Some (np, T)"
    "pp_mem (insert np (set (pp_free_head S) \<union> H \<union> X)) D T" "np \<notin> (set (pp_free_head S) \<union> H \<union> X) \<union> D" "pp_same S T"
    "\<And>n. n \<noteq> np \<Longrightarrow> pp_nodes T n = pp_nodes S n" "pp_oob (pp_nodes T np) = 1"
    by (rule pp_alloc_node_spec[OF I(1), where ps = ps and oob = 1]) (rule that; assumption)
  note same = a(4)[unfolded pp_same_def]
  have eq: "np = n" "T = S'" using a(1) assms(2) by simp_all
  have keep: "pp_nodes T m = pp_nodes S m" if "m \<in> set (pp_free_head S) \<union> H \<union> X" for m using a(3) that by (intro a(5)) auto
  have u: "set (pp_free_head S) \<union> H \<union> insert np X = insert np (set (pp_free_head S) \<union> H \<union> X)" by auto
  have x: "pp_oob (pp_nodes T m) \<noteq> 0" if "m \<in> insert np X" "m \<notin> E" for m using that I(13)[of m] keep[of m] a(6) by auto
  have f: "\<forall>m\<in>set (pp_free_head S). pp_where (pp_nodes T m) = PP_WHERE_FREE" "\<forall>m\<in>set (pp_free_head S) \<union> H. pp_oob (pp_nodes T m) = 0"
    "\<forall>m\<in>E. pp_where (pp_nodes T m) = PP_WHERE_FREE \<and> pp_oob (pp_nodes T m) = 0"
    using I(11,12,14,15) keep by auto
  show "n \<notin> set (pp_free_head S) \<union> H \<union> X \<union> D" using a(3) eq by simp
  have "pp_inv E H (insert np X) D T" unfolding pp_inv_def using I(2-10,14) a(2,3) same u x f by auto
  then show "pp_inv E H (insert n X) D S'" using eq by simp
qed

lemma run_turn:
  assumes "run_ok P H X D S" "P t = Turns k (Suc n)" "pp_alloc_node ps 0 S = Some (np, S')"
  shows "run_ok (P(t := Adding k n np)) H X D S'"
proof -
  note R = run_okD[OF assms(1)]
  have a: "np \<notin> set (pp_free_head S) \<union> H \<union> (X \<union> flight P) \<union> D" "pp_inv (insert np (flight P)) H (insert np (X \<union> flight P)) D S'"
    using pp_alloc_flight[OF R(3), of ps] assms(3) by (metis option.inject prod.inject)+
  have n: "np \<notin> flight P" "np \<notin> X" using a(1) by auto
  note f = flight_new[OF R(1) _ n(1), of t k n]
  show ?thesis using f assms(2) a(2) R(2) n(2) by (simp add: run_ok_def)
qed

lemma run_add:
  assumes "run_ok P H X D S" "P t = Adding k n np" "pp_extend_add np S = Some (go, S')" "adding c = {}"
  shows "run_ok (P(t := c)) H X D S'"
proof -
  note R = run_okD[OF assms(1)] and f = flight_done[OF run_okD(1)[OF assms(1)] assms(2,4)]
  have "pp_inv (flight P - {np}) H (X \<union> flight P - {np}) D S'" using pp_extend_add_spec[OF R(3) f(3)] assms(3) by auto
  moreover have "X \<union> flight P - {np} = X \<union> (flight P - {np})" using R(2) f(3) by auto
  ultimately show ?thesis using f(1,2) R(2) by (auto simp: run_ok_def)
qed

lemma pp_run_ok: "pp_run ps P H X D S \<Longrightarrow> run_ok P H X D S"
proof (induction rule: pp_run.induct)
  case (init role A set_id page_size pool_size S)
  have "flight (\<lambda>_. Outside) = {}" "flight_ok (\<lambda>_. Outside)" by (simp_all add: flight_def flight_ok_def)
  then show ?case using pp_initialization_cases[OF alloc_reach_inv[OF init(1)] init(2), of pool_size ps page_size] init(3)
    by (auto simp: run_ok_def split: if_splits)
next
  case (turn P H X D S t k n np S')
  show ?case by (rule run_turn[OF turn(4,2,3)])
next
  case (add P H X D S t k n np go S')
  then show ?case by (intro run_add[OF add(4)]) simp_all
next
  case (got P H X D S t k n S')
  obtain g where "pp_take_or g S = Some (PpNode n, S')" "g \<noteq> PpNode n" using request_end_take(1)[OF run_okD(3)[OF got(5)], of k] got(4) by auto
  then show ?case by (rule run_take[OF got(5)]) (simp add: got(2))
next
  case (null P H X D S t k S')
  obtain g where "pp_take_or g S = Some (PpNull, S')" using request_end_take(1)[OF run_okD(3)[OF null(5)], of k] null(4) by auto
  then show ?case by (rule run_none[OF null(5)]) (simp_all add: null(2))
next
  case (wait P H X D S t k S')
  obtain g where "pp_take_or g S = Some (PpWait, S')" using request_end_take(1)[OF run_okD(3)[OF wait(5)], of k] wait(4) by auto
  then show ?case by (rule run_none[OF wait(5)]) (simp_all add: wait(2))
next
  case (awake_got P H X D S t k n S')
  obtain g where "pp_take_or g S = Some (PpNode n, S')" "g \<noteq> PpNode n" using request_end_take(2)[OF run_okD(3)[OF awake_got(4)], of k] awake_got(3) by auto
  then show ?case by (rule run_take[OF awake_got(4)]) (simp add: awake_got(2))
next
  case (awake_null P H X D S t k S')
  obtain g where "pp_take_or g S = Some (PpNull, S')" using request_end_take(2)[OF run_okD(3)[OF awake_null(4)], of k] awake_null(3) by auto
  then show ?case by (rule run_none[OF awake_null(4)]) (simp_all add: awake_null(2))
next
  case (beyond P H X D S t n S')
  note R = run_okD[OF beyond(4)] and b = pp_alloc_beyond[OF run_okD(3)[OF beyond(4)] beyond(3)]
  have "run_ok P H (insert n X) D S'" using R b by (auto simp: run_ok_def)
  then show ?case by (rule run_ok_same) (simp add: beyond(2))
next
  case (nondata P H X D S n S')
  then show ?case using pp_get_node_nondata_spec[OF run_okD(3)[OF nondata(3)]] by (auto simp: run_ok_def)
next
  case (mark P H X D S n w)
  have "n \<notin> flight P" using mark(2) run_okD(2,3)[OF mark(3)] pp_invD(6)[OF run_okD(3)[OF mark(3)]] pp_memD(3)[OF pp_invD(1)[OF run_okD(3)[OF mark(3)]]] by auto
  then show ?case using pp_where_inv[OF run_okD(3)[OF mark(3)], of n w] mark by (auto simp: run_ok_def)
next
  case (free_held P H X D S n S')
  then show ?case using pp_free_node_H[OF run_okD(3)[OF free_held(4)] free_held(2)] by (auto simp: run_ok_def)
next
  case (free_beyond P H X D S n S')
  note R = run_okD[OF free_beyond(4)]
  have n: "n \<notin> flight P" "X \<union> flight P - {n} = (X - {n}) \<union> flight P" using R(2) free_beyond(2) by auto
  then show ?case using pp_free_node_X[OF R(3) _ n(1)] free_beyond(2,3) R(1,2) by (auto simp: run_ok_def n(2))
next
  case (free_bare P H X D S n S')
  then show ?case using pp_free_node_D[OF run_okD(3)[OF free_bare(4)] free_bare(2)] by (auto simp: run_ok_def)
next
  case (free_data P H X D S n S')
  then show ?case using pp_free_data_H[OF run_okD(3)[OF free_data(4)] free_data(2)] by (auto simp: run_ok_def)
qed (rule run_ok_same; simp)+

section \<open>Properties\<close>

lemma run_ok_books:
  assumes "run_ok P H X D S"
  shows "inj_on (\<lambda>n. pp_page (pp_nodes S n)) (set (pp_free_head S) \<union> H \<union> X \<union> flight P)"
    "unat (pp_get_avail S) + card H = unat (pp_poolsz S)"
proof -
  note I = pp_invD[OF run_okD(3)[OF assms]] and M = pp_memD[OF pp_invD(1)[OF run_okD(3)[OF assms]]]
  show "inj_on (\<lambda>n. pp_page (pp_nodes S n)) (set (pp_free_head S) \<union> H \<union> X \<union> flight P)"
  proof (rule inj_onI)
    fix m n assume "m \<in> set (pp_free_head S) \<union> H \<union> X \<union> flight P" "n \<in> set (pp_free_head S) \<union> H \<union> X \<union> flight P"
      and eq: "pp_page (pp_nodes S m) = pp_page (pp_nodes S n)"
    then have mn: "m \<in> set (pp_free_head S) \<union> H \<union> (X \<union> flight P)" "n \<in> set (pp_free_head S) \<union> H \<union> (X \<union> flight P)" by auto
    have "pp_page_handle (pp_nodes S m) = pp_page_handle (pp_nodes S n)" using M(6)[OF mn(1)] M(6)[OF mn(2)] eq by auto
    then show "m = n" using mn by (rule inj_onD[OF M(8)])
  qed
  have le: "unat (pp_poollen S) \<le> unat (pp_poolsz S)" using I(9) by (simp add: word_le_nat_alt)
  have "unat (pp_poolsz S - pp_poollen S) = unat (pp_poolsz S) - unat (pp_poollen S)" using I(9) by (rule unat_sub)
  moreover have "unat (pp_poolsz S) < 2 ^ 32" using unsigned_less[of "pp_poolsz S", where 'a = nat] by simp
  ultimately have "unat (pp_get_avail S) = unat (pp_poolsz S) - unat (pp_poollen S) + unat (pp_nfree S)"
    using I(7,8) le unfolding pp_get_avail_def by (subst unat_add_lem[THEN iffD1]) simp_all
  then show "unat (pp_get_avail S) + card H = unat (pp_poolsz S)" using I(7,8) le by simp
qed

text \<open>C33. The page pool under any number of threads, several of which may be extending it at the same time: no two nodes that clients
  hold, in the pool or beyond it, share a page, and none shares one with a node of the free list or with a node that a thread has
  allocated and not yet added; the free count is the length of the free list; the pages of the pool are the free ones and the ones that
  are held, never more than the pool size; \<open>pp_get_avail\<close> is the pool size less the held ones; and neither adding an
  allocated node nor taking a page fails.\<close>

theorem pp_pages_distinct:
  assumes "pp_run ps P H X D S"
  shows "inj_on (\<lambda>n. pp_page (pp_nodes S n)) (set (pp_free_head S) \<union> H \<union> X \<union> flight P) \<and>
    set (pp_free_head S) \<inter> (H \<union> X \<union> flight P) = {} \<and> H \<inter> X = {} \<and> (H \<union> X) \<inter> flight P = {} \<and>
    unat (pp_nfree S) = length (pp_free_head S) \<and>
    unat (pp_poollen S) = unat (pp_nfree S) + card H \<and> unat (pp_poollen S) \<le> unat (pp_poolsz S) \<and>
    unat (pp_get_avail S) + card H = unat (pp_poolsz S) \<and>
    (\<forall>t k n np. P t = Adding k n np \<longrightarrow> pp_extend_add np S \<noteq> None) \<and> (\<forall>k. pp_request_end k S \<noteq> None \<and> pp_request_awake k S \<noteq> None)"
proof -
  note R = pp_run_ok[OF assms]
  note I = pp_invD[OF run_okD(3)[OF R]]
  have "pp_extend_add np S \<noteq> None" if "P t = Adding k n np" for t k n np
    using pp_extend_add_spec[OF run_okD(3)[OF R], of np] flight_split[of P t] that by auto
  moreover have "pp_take_or g S \<noteq> None" for g using pp_take_or_spec[OF run_okD(3)[OF R], of g] by auto
  then have "pp_request_end k S \<noteq> None \<and> pp_request_awake k S \<noteq> None" for k using request_end_take[OF run_okD(3)[OF R], of k] by metis
  ultimately show ?thesis using run_ok_books[OF R] run_okD(2)[OF R] I(4-9) by (auto simp: word_le_nat_alt)
qed

lemma run_got:
  assumes "pp_run ps P H X D S" "P t = Outside" "pp_nfree S \<noteq> 0"
  shows "\<exists>n fs. n \<notin> H \<and> pp_run ps P (insert n H) X D (S\<lparr>pp_free_head := fs, pp_nfree := pp_nfree S - 1\<rparr>)"
proof -
  note I = run_okD(3)[OF pp_run_ok[OF assms(1)]]
  obtain n S' where n: "pp_take S = Some (n, S')" "n \<notin> H \<union> (X \<union> flight P) \<union> D" using pp_take_spec[OF I assms(3)] by metis
  have "pp_run ps (P(t := Test Nowait, t := Outside)) (insert n H) X D S'"
    by (rule pp_run.got[OF pp_run.request[OF assms(1,2), of Nowait], of t Nowait])
      (use assms(3) n(1) in \<open>simp_all add: pp_may_extend_def pp_take_or_def\<close>)
  moreover have "P(t := Test Nowait, t := Outside) = P" using assms(2) by auto
  moreover obtain fs where "S' = S\<lparr>pp_free_head := fs, pp_nfree := pp_nfree S - 1\<rparr>" using n(1) by (auto simp: pp_take_def split: list.splits)
  ultimately show ?thesis using n(2) by auto
qed

lemma run_adding:
  assumes "pp_run ps P H X D S" "P t = Outside" "pp_may_extend S" "pp_extendn S = 4" "\<not> pp_poollen S + 4 > pp_poolsz S"
  shows "\<exists>np S'. pp_run ps (P(t := Adding k 3 np)) H X D S' \<and> pp_same S S'"
proof -
  have "pp_run ps (P(t := Test k, t := Extend k)) H X D S" by (rule pp_run.test[OF pp_run.request[OF assms(1,2)]]) (use assms(3) in simp_all)
  then have "pp_run ps (P(t := Extend k, t := Extend_sum k)) H X D S" by (intro pp_run.not_full) (use assms(3) in \<open>auto simp: pp_may_extend_def\<close>)
  then have "pp_run ps (P(t := Extend_sum k, t := Turns k (nat (sint (pp_extendn S))))) H X D S" by (intro pp_run.sum_inside) (use assms(4,5) in auto)
  then have r: "pp_run ps (P(t := Turns k (Suc 3))) H X D S" by (simp add: assms(4))
  note I = run_okD(3)[OF pp_run_ok[OF r]]
  obtain np S' where a: "pp_alloc_node ps 0 S = Some (np, S')" "pp_same S S'" by (rule pp_alloc_flight[OF I])
  have "pp_run ps (P(t := Turns k (Suc 3), t := Adding k 3 np)) H X D S'" by (rule pp_run.turn[OF r _ a(1)]) simp
  then show ?thesis using a(2) by auto
qed

text \<open>Two threads extend a pool of which all four pages are held, and both have allocated a node.\<close>

theorem pp_pages_distinct_witness:
  "\<exists>P H S m n. pp_run 4096 P H {} {} S \<and> card H = 4 \<and> P 0 = Adding Get 3 m \<and> P 1 = Adding Nowait 3 n \<and>
    pp_page (pp_nodes S m) \<noteq> pp_page (pp_nodes S n) \<and> unat (pp_poollen S) = unat (pp_nfree S) + card H"
proof -
  have m: "9 < a_set_max (allocator_initialization ALLOCATOR_ROLE_SERVER)"
    by (simp add: allocator_initialization_def ALLOCATOR_SET_SERVER_MAX_def)
  obtain S where S: "pp_initialization 4096 (allocator_initialization ALLOCATOR_ROLE_SERVER) 9 8 16 = Some S" "pp_inv {} {} {} {} S" "pp_poollen S = 4"
    "pp_poolsz S = 16"
    using pp_initialization_cases[OF alloc_inv_init m, of 16 4096 8] by auto
  have nf: "pp_nfree S = 4" using pp_invD(7,8)[OF S(2)] S(3) by (simp add: word_unat_eq_iff)
  have r0: "pp_run 4096 (\<lambda>_. Outside) {} {} {} S" by (rule pp_run.init[OF alloc_reach.init m S(1)])
  have e: "S\<lparr>pp_free_head := pp_free_head S, pp_nfree := 4 - of_nat 0\<rparr> = S" using nf by simp
  have take: "\<exists>H fs. card H = j \<and> finite H \<and> pp_run 4096 (\<lambda>_. Outside) H {} {} (S\<lparr>pp_free_head := fs, pp_nfree := 4 - of_nat j\<rparr>)" if "j \<le> 4" for j
    using that
  proof (induction j)
    case 0
    show ?case using r0 e card.empty finite.emptyI by metis
  next
    case (Suc j)
    then obtain H fs where H: "card H = j" "finite H" "pp_run 4096 (\<lambda>_. Outside) H {} {} (S\<lparr>pp_free_head := fs, pp_nfree := 4 - of_nat j\<rparr>)" by auto
    have "j = 0 \<or> j = 1 \<or> j = 2 \<or> j = 3" using Suc.prems by linarith
    then have "(4 :: u32) - of_nat j \<noteq> 0" by auto
    then obtain n fs' where "n \<notin> H" "pp_run 4096 (\<lambda>_. Outside) (insert n H) {} {} (S\<lparr>pp_free_head := fs', pp_nfree := 4 - of_nat j - 1\<rparr>)"
      using run_got[OF H(3)] by auto
    then show ?case using H(1,2) by (intro exI[of _ "insert n H"] exI[of _ fs']) (simp add: algebra_simps)
  qed
  obtain H fs where H: "card H = 4" "pp_run 4096 (\<lambda>_. Outside) H {} {} (S\<lparr>pp_free_head := fs, pp_nfree := 0\<rparr>)" using take[of 4] by auto
  have ex: "pp_extendn S = 4" by (rule pp_invD(10)[OF S(2)])
  obtain m S1 where 1: "pp_run 4096 ((\<lambda>_. Outside)(0 := Adding Get 3 m)) H {} {} S1" "pp_same (S\<lparr>pp_free_head := fs, pp_nfree := 0\<rparr>) S1"
    using run_adding[OF H(2), where t = 0 and k = Get] S(3,4) ex by (auto simp: pp_may_extend_def)
  obtain n S2 where 2: "pp_run 4096 ((\<lambda>_. Outside)(0 := Adding Get 3 m, 1 := Adding Nowait 3 n)) H {} {} S2" "pp_same S1 S2"
    using run_adding[OF 1(1), where t = 1 and k = Nowait] 1(2) S(3,4) ex by (auto simp: pp_may_extend_def pp_same_def)
  let ?P = "(\<lambda>_ :: nat. Outside)(0 := Adding Get 3 m, 1 := Adding Nowait 3 n)"
  note W = pp_pages_distinct[OF 2(1)]
  have f: "m \<in> flight ?P" "n \<in> flight ?P" using flight_split[of ?P 0] flight_split[of ?P 1] by auto
  have "adding (?P 0) \<inter> adding (?P 1) = {}"
    using run_okD(1)[OF pp_run_ok[OF 2(1)]] unfolding flight_ok_def by (metis zero_neq_one)
  then have "m \<noteq> n" by auto
  then have "pp_page (pp_nodes S2 m) \<noteq> pp_page (pp_nodes S2 n)" using W f by (auto dest: inj_onD)
  then show ?thesis using 2(1) H(1) W by (intro exI[of _ ?P] exI[of _ H] exI[of _ S2] exI[of _ m] exI[of _ n]) simp
qed

end
