(* ===== verification/Umpk_Tx.thy ===== *)
theory Umpk_Tx
  imports Nid_Prelude
begin

text \<open>
  The parts that the message codecs of the transfer channels share: the packed header
  (\<open>encode_tx_hdr\<close>, \<open>decode_tx_hdr\<close> of \<open>tx/tx_shared.c\<close>) and the fields with which the functions of
  \<open>umpk/umpk_cxa.c\<close>, \<open>umpk_cxp.c\<close>, \<open>umpk_dxa.c\<close> and \<open>umpk_dxp.c\<close> build their messages. A pointer into a
  message is the list of the bytes from there to the end of the memory that holds it; reading past
  that end, or writing past the end of an array of the message structure, is an abort. Integers
  are stored with the least significant byte first.
\<close>

section \<open>Integers in memory\<close>

definition le_bytes :: "nat \<Rightarrow> 'a::len word \<Rightarrow> u8 list" where
  "le_bytes n w = map (\<lambda>i. ucast (drop_bit (8 * i) w)) [0..<n]"

primrec le_read :: "u8 list \<Rightarrow> 'a::len word" where
  "le_read [] = 0"
| "le_read (b # bs) = push_bit 8 (le_read bs) OR ucast b"

lemma length_le_bytes [simp]: "length (le_bytes n w) = n"
  by (simp add: le_bytes_def)

lemma bit_le_read:
  "bit (le_read bs :: 'a::len word) i \<longleftrightarrow> i < LENGTH('a) \<and> i div 8 < length bs \<and> bit (bs ! (i div 8)) (i mod 8)"
proof (induction bs arbitrary: i)
  case (Cons b bs)
  show ?case
  proof (cases "i < 8")
    case True
    then show ?thesis by (auto simp: bit_simps)
  next
    case False
    then have "i div 8 = Suc ((i - 8) div 8)" "i mod 8 = (i - 8) mod 8" by (simp_all add: le_div_geq le_mod_geq)
    moreover have "\<not> bit b i" using False bit_imp_le_length[of b i] by auto
    ultimately show ?thesis using False Cons.IH[of "i - 8"] by (auto simp: bit_simps)
  qed
qed simp

lemma le_read_bytes:
  assumes "LENGTH('a) = 8 * n"
  shows "le_read (le_bytes n w) = (w :: 'a::len word)"
proof (rule bit_eqI)
  fix i
  show "bit (le_read (le_bytes n w) :: 'a word) i = bit w i"
  proof (cases "i < LENGTH('a)")
    case True
    then have "i div 8 < n" using assms by (simp add: less_mult_imp_div_less mult.commute)
    then show ?thesis using True by (simp add: bit_le_read le_bytes_def bit_simps)
  next
    case False
    then show ?thesis using bit_imp_le_length[of w i] by (auto simp: bit_le_read)
  qed
qed

lemma le_read_2 [simp]: "le_read (le_bytes 2 w) = (w :: u16)" by (rule le_read_bytes) simp
lemma le_read_4 [simp]: "le_read (le_bytes 4 w) = (w :: u32)" by (rule le_read_bytes) simp
lemma le_read_8 [simp]: "le_read (le_bytes 8 w) = (w :: u64)" by (rule le_read_bytes) simp

section \<open>The header\<close>

record umessage_tx_hdr =
  um_req :: u8
  um_req_code :: u8
  um_level :: u8
  um_type :: u8
  um_len :: u32
  um_dlen :: u32
  um_seq :: u64
  um_dseq :: u64
  um_dummy :: u32

definition UMSG_TX_HEADER_LEN :: nat where "UMSG_TX_HEADER_LEN = 32"
definition NID_MAX_UUID :: nat where "NID_MAX_UUID = 1024"
definition NID_MAX_IP :: nat where "NID_MAX_IP = 16"

definition encode_tx_hdr :: "'a umessage_tx_hdr_scheme \<Rightarrow> u8 list" where
  "encode_tx_hdr m =
     [um_req m, um_req_code m, um_level m, um_type m] @ le_bytes 4 (um_len m) @ le_bytes 4 (um_dlen m) @
     le_bytes 8 (um_seq m) @ le_bytes 8 (um_dseq m) @ le_bytes 4 (um_dummy m)"

definition decode_tx_hdr :: "u8 list \<Rightarrow> u32 \<Rightarrow> 'a umessage_tx_hdr_scheme \<Rightarrow> (u8 list \<times> u32 \<times> 'a umessage_tx_hdr_scheme) option" where
  "decode_tx_hdr p len m =
     do {
       c_assert (len \<ge> of_nat UMSG_TX_HEADER_LEN);
       c_assert (UMSG_TX_HEADER_LEN \<le> length p);
       Some (drop UMSG_TX_HEADER_LEN p, len - of_nat UMSG_TX_HEADER_LEN,
             m\<lparr>um_req := p ! 0, um_req_code := p ! 1, um_level := p ! 2, um_type := p ! 3,
               um_len := le_read (take 4 (drop 4 p)), um_dlen := le_read (take 4 (drop 8 p)),
               um_seq := le_read (take 8 (drop 12 p)), um_dseq := le_read (take 8 (drop 20 p)),
               um_dummy := le_read (take 4 (drop 28 p))\<rparr>)
     }"

definition same_hdr :: "'a umessage_tx_hdr_scheme \<Rightarrow> 'b umessage_tx_hdr_scheme \<Rightarrow> bool" where
  "same_hdr m m' \<longleftrightarrow> um_req m' = um_req m \<and> um_req_code m' = um_req_code m \<and> um_level m' = um_level m \<and>
     um_type m' = um_type m \<and> um_len m' = um_len m \<and> um_dlen m' = um_dlen m \<and> um_seq m' = um_seq m \<and>
     um_dseq m' = um_dseq m \<and> um_dummy m' = um_dummy m"

lemma length_encode_tx_hdr [simp]: "length (encode_tx_hdr m) = 32"
  by (simp add: encode_tx_hdr_def)

lemma decode_encode_tx_hdr:
  assumes "len \<ge> 32"
  shows "decode_tx_hdr (encode_tx_hdr m @ rest) len m0 =
    Some (rest, len - 32, m0\<lparr>um_req := um_req m, um_req_code := um_req_code m, um_level := um_level m, um_type := um_type m,
      um_len := um_len m, um_dlen := um_dlen m, um_seq := um_seq m, um_dseq := um_dseq m, um_dummy := um_dummy m\<rparr>)"
  using assms by (simp add: decode_tx_hdr_def UMSG_TX_HEADER_LEN_def) (simp add: encode_tx_hdr_def)

text \<open>Encoders go back to the length field at the end and write the length of the whole message,
  there and in the message.\<close>

definition finish_tx :: "u8 list \<Rightarrow> 'a umessage_tx_hdr_scheme \<Rightarrow> int \<times> u8 list \<times> 'a umessage_tx_hdr_scheme" where
  "finish_tx buf m =
     (let len = of_nat (length buf)
      in (0, take 4 buf @ le_bytes 4 (len :: u32) @ drop 8 buf, m\<lparr>um_len := len\<rparr>))"

lemma finish_tx_hdr:
  "finish_tx (encode_tx_hdr m @ body) m = (0, encode_tx_hdr (m\<lparr>um_len := of_nat (32 + length body)\<rparr>) @ body, m\<lparr>um_len := of_nat (32 + length body)\<rparr>)"
  by (simp add: finish_tx_def Let_def encode_tx_hdr_def)

section \<open>Strings\<close>

definition put_str16 :: "u16 \<Rightarrow> u8 list \<Rightarrow> u8 list option" where
  "put_str16 l a = do { c_assert (unat l \<le> length a); Some (le_bytes 2 l @ take (unat l) a) }"

definition put_str8 :: "u8 \<Rightarrow> u8 list \<Rightarrow> u8 list option" where
  "put_str8 l a = do { c_assert (unat l \<le> length a); Some (l # take (unat l) a) }"

text \<open>The copy into an array of the message, with a zero behind it.\<close>

definition store_str :: "u8 list \<Rightarrow> u8 list \<Rightarrow> u8 list" where
  "store_str arr s = s @ [0] @ drop (Suc (length s)) arr"

definition get_str16 :: "u8 list \<Rightarrow> u8 list \<Rightarrow> u32 \<Rightarrow> (u16 \<times> u8 list \<times> u8 list \<times> u32) option" where
  "get_str16 arr p len =
     do {
       c_assert (2 \<le> length p);
       let l = le_read (take 2 p);
       let p = drop 2 p;
       c_assert (unat l \<le> length p \<and> unat l < length arr);
       Some (l, store_str arr (take (unat l) p), drop (unat l) p, len - 2 - ucast l)
     }"

definition get_str8 :: "u8 list \<Rightarrow> u8 list \<Rightarrow> u32 \<Rightarrow> (u8 \<times> u8 list \<times> u8 list \<times> u32) option" where
  "get_str8 arr p len =
     do {
       c_assert (1 \<le> length p);
       let l = hd p;
       let p = tl p;
       c_assert (unat l \<le> length p \<and> unat l < length arr);
       Some (l, store_str arr (take (unat l) p), drop (unat l) p, len - 1 - ucast l)
     }"

text \<open>Scalars.\<close>

definition get_le :: "nat \<Rightarrow> u8 list \<Rightarrow> u32 \<Rightarrow> ('a::len word \<times> u8 list \<times> u32) option" where
  "get_le n p len = do { c_assert (n \<le> length p); Some (le_read (take n p), drop n p, len - of_nat n) }"

lemma get_put_str16:
  assumes "unat l \<le> length a" "unat l < length arr"
  shows "get_str16 arr (le_bytes 2 l @ take (unat l) a @ rest) len = Some (l, store_str arr (take (unat l) a), rest, len - 2 - ucast l)"
  using assms by (simp add: get_str16_def Let_def min_def)

lemma get_put_str8:
  assumes "unat l \<le> length a" "unat l < length arr"
  shows "get_str8 arr (l # take (unat l) a @ rest) len = Some (l, store_str arr (take (unat l) a), rest, len - 1 - ucast l)"
  using assms by (simp add: get_str8_def Let_def min_def)

lemma take_store_str [simp]: "n = length s \<Longrightarrow> take n (store_str arr s) = s"
  by (simp add: store_str_def)

lemma length_store_str: "length s < length arr \<Longrightarrow> length (store_str arr s) = length arr"
  by (simp add: store_str_def)

section \<open>Tagged items\<close>

text \<open>The loop \<open>while (len) { len -= 1; item = *p; switch (*p++) ... }\<close>, over the table of its cases; an item
  that is in no case ends the loop with -1.\<close>

type_synonym 'm tlv = "u8 list \<times> u32 \<times> 'm"

partial_function (option) tlv_loop :: "(u8 \<Rightarrow> ('m tlv \<Rightarrow> 'm tlv option) option) \<Rightarrow> 'm tlv \<Rightarrow> (int \<times> 'm) option" where
  "tlv_loop items c =
     (case c of (p, len, m) \<Rightarrow>
        if len = 0 then Some (0, m)
        else (case p of
                [] \<Rightarrow> None
              | item # p \<Rightarrow>
                  (case items item of
                     None \<Rightarrow> Some (- 1, m)
                   | Some f \<Rightarrow> Option.bind (f (p, len - 1, m)) (tlv_loop items))))"

lemma tlv_loop_end [simp]: "tlv_loop items (p, 0, m) = Some (0, m)"
  by (subst tlv_loop.simps) simp

lemma tlv_loop_item:
  assumes "len \<noteq> 0" "items item = Some f" "f (p, len - 1, m) = Some c"
  shows "tlv_loop items (item # p, len, m) = tlv_loop items c"
  using assms by (subst tlv_loop.simps) simp

text \<open>One string field, as the decoders read it: its length, its bytes, and the store into the message.\<close>

definition str16_item :: "('m \<Rightarrow> u8 list) \<Rightarrow> (u16 \<Rightarrow> u8 list \<Rightarrow> 'm \<Rightarrow> 'm) \<Rightarrow> 'm tlv \<Rightarrow> 'm tlv option" where
  "str16_item arr upd c =
     (case c of (p, len, m) \<Rightarrow> do { (l, a, p, len) \<leftarrow> get_str16 (arr m) p len; Some (p, len, upd l a m) })"

definition str8_item :: "('m \<Rightarrow> u8 list) \<Rightarrow> (u8 \<Rightarrow> u8 list \<Rightarrow> 'm \<Rightarrow> 'm) \<Rightarrow> 'm tlv \<Rightarrow> 'm tlv option" where
  "str8_item arr upd c =
     (case c of (p, len, m) \<Rightarrow> do { (l, a, p, len) \<leftarrow> get_str8 (arr m) p len; Some (p, len, upd l a m) })"

definition le_item :: "nat \<Rightarrow> ('a::len word \<Rightarrow> 'm \<Rightarrow> 'm) \<Rightarrow> 'm tlv \<Rightarrow> 'm tlv option" where
  "le_item n upd c =
     (case c of (p, len, m) \<Rightarrow> do { (w, p, len) \<leftarrow> get_le n p len; Some (p, len, upd w m) })"

definition at_end :: "u8 list \<Rightarrow> 'm \<Rightarrow> 'm tlv" where
  "at_end p m = (p, of_nat (length p), m)"

lemma str16_item_put:
  assumes "unat l \<le> length a" "unat l < length (arr m)"
  shows "str16_item arr upd (at_end (le_bytes 2 l @ take (unat l) a @ rest) m) =
    Some (at_end rest (upd l (store_str (arr m) (take (unat l) a)) m))"
  using assms by (simp add: str16_item_def get_put_str16 min_def at_end_def)

lemma str8_item_put:
  assumes "unat l \<le> length a" "unat l < length (arr m)"
  shows "str8_item arr upd (at_end (l # take (unat l) a @ rest) m) =
    Some (at_end rest (upd l (store_str (arr m) (take (unat l) a)) m))"
  using assms by (simp add: str8_item_def get_put_str8 min_def at_end_def)

lemma le_item_put:
  assumes "LENGTH('a) = 8 * n"
  shows "le_item n upd (at_end (le_bytes n (w :: 'a::len word) @ rest) m) = Some (at_end rest (upd w m))"
  using assms by (simp add: le_item_def get_le_def le_read_bytes at_end_def)

lemma le_item_put0:
  assumes "LENGTH('a) = 8 * n"
  shows "le_item n upd (at_end (le_bytes n (w :: 'a::len word)) m) = Some (at_end [] (upd w m))"
  using le_item_put[OF assms, of upd w "[]" m] by simp

lemma unat_of_nat_u32: "n < 2 ^ 32 \<Longrightarrow> unat (of_nat n :: u32) = n"
  by (simp add: unat_of_nat)

lemma of_nat_u32_nonzero:
  assumes "0 < n" "n < 2 ^ 32"
  shows "(of_nat n :: u32) \<noteq> 0"
proof
  assume "(of_nat n :: u32) = 0"
  then have "unat (of_nat n :: u32) = 0" by simp
  then show False using unat_of_nat_u32[OF assms(2)] assms(1) by simp
qed

lemma tlv_loop_step:
  assumes "items item = Some f" "f (at_end p m) = Some c" "length p < 2 ^ 31"
  shows "tlv_loop items (at_end (item # p) m) = tlv_loop items c"
proof -
  have "(of_nat (length (item # p)) :: u32) \<noteq> 0" using assms(3) by (intro of_nat_u32_nonzero) simp_all
  then show ?thesis using assms(1,2) unfolding at_end_def by (intro tlv_loop_item[of _ items item f]) simp_all
qed

lemma tlv_end [simp]: "tlv_loop items (at_end [] m) = Some (0, m)"
  by (simp add: at_end_def)

lemma tlv_str16:
  assumes "items t = Some (str16_item arr upd)" "unat l \<le> length a" "unat l < length (arr m)"
    "length rest + length a < 2 ^ 30"
  shows "tlv_loop items (at_end (t # le_bytes 2 l @ take (unat l) a @ rest) m) =
    tlv_loop items (at_end rest (upd l (store_str (arr m) (take (unat l) a)) m))"
  using assms by (intro tlv_loop_step[of items t "str16_item arr upd"]) (simp_all add: str16_item_put)

lemma tlv_str8:
  assumes "items t = Some (str8_item arr upd)" "unat l \<le> length a" "unat l < length (arr m)"
    "length rest + length a < 2 ^ 30"
  shows "tlv_loop items (at_end (t # l # take (unat l) a @ rest) m) =
    tlv_loop items (at_end rest (upd l (store_str (arr m) (take (unat l) a)) m))"
  using assms by (intro tlv_loop_step[of items t "str8_item arr upd"]) (simp_all add: str8_item_put)

lemmas tlv_str = tlv_str16 tlv_str16[where rest = "[]", simplified] tlv_str8 tlv_str8[where rest = "[]", simplified]

lemmas item_put = str16_item_put str16_item_put[where rest = "[]", simplified] str8_item_put str8_item_put[where rest = "[]", simplified]

text \<open>The header of \<open>m1\<close> in \<open>m0\<close>.\<close>

definition with_hdr :: "'a umessage_tx_hdr_scheme \<Rightarrow> 'b umessage_tx_hdr_scheme \<Rightarrow> 'b umessage_tx_hdr_scheme" where
  "with_hdr m m0 = m0\<lparr>um_req := um_req m, um_req_code := um_req_code m, um_level := um_level m, um_type := um_type m,
      um_len := um_len m, um_dlen := um_dlen m, um_seq := um_seq m, um_dseq := um_dseq m, um_dummy := um_dummy m\<rparr>"

lemma same_with_hdr [simp]: "same_hdr m (with_hdr m m0)"
  by (simp add: same_hdr_def with_hdr_def)

lemma with_hdr_sel [simp]:
  "um_req (with_hdr m m0) = um_req m" "um_req_code (with_hdr m m0) = um_req_code m"
  "umessage_tx_hdr.more (with_hdr m m0) = umessage_tx_hdr.more m0"
  by (simp_all add: with_hdr_def)

lemma decode_encode_at_end:
  assumes "length rest < 2 ^ 31"
  shows "decode_tx_hdr (encode_tx_hdr m @ rest) (of_nat (32 + length rest)) m0 = Some (at_end rest (with_hdr m m0))"
proof -
  have "unat (of_nat (32 + length rest) :: u32) = 32 + length rest" using assms by (intro unat_of_nat_u32) simp
  then have "32 \<le> (of_nat (32 + length rest) :: u32)" by (simp add: word_le_nat_alt)
  then show ?thesis by (simp add: decode_encode_tx_hdr at_end_def with_hdr_def)
qed

section \<open>Round trips\<close>

lemma put_str16_Some: "unat l \<le> length a \<Longrightarrow> put_str16 l a = Some (le_bytes 2 l @ take (unat l) a)"
  by (simp add: put_str16_def)

lemma put_str8_Some: "unat l \<le> length a \<Longrightarrow> put_str8 l a = Some (l # take (unat l) a)"
  by (simp add: put_str8_def)

text \<open>What the sender encodes the receiver decodes: both return 0, and the header and the contents
  (\<open>view\<close>) of the message arrive.\<close>

definition tx_sent :: "('a umessage_tx_hdr_scheme \<Rightarrow> (int \<times> u8 list \<times> 'a umessage_tx_hdr_scheme) option) \<Rightarrow>
    (u8 list \<Rightarrow> u32 \<Rightarrow> 'a umessage_tx_hdr_scheme \<Rightarrow> (int \<times> 'a umessage_tx_hdr_scheme) option) \<Rightarrow>
    ('a umessage_tx_hdr_scheme \<Rightarrow> 'v) \<Rightarrow> 'a umessage_tx_hdr_scheme \<Rightarrow> 'a umessage_tx_hdr_scheme \<Rightarrow> bool" where
  "tx_sent enc dec view m m0 \<longleftrightarrow> (\<exists>bs m1 m'. enc m = Some (0, bs, m1) \<and> bs \<noteq> [] \<and> (of_nat (length bs) :: u32) \<noteq> 0 \<and>
    dec bs (of_nat (length bs)) m0 = Some (0, m') \<and> same_hdr m1 m' \<and> view m' = view m)"

lemma tx_sentI:
  assumes "enc m = Some (0, encode_tx_hdr m1 @ body, m1)" "length body < 2 ^ 31"
    "dec (encode_tx_hdr m1 @ body) (of_nat (32 + length body)) m0 = Some (0, m')" "same_hdr m1 m'" "view m' = view m"
  shows "tx_sent enc dec view m m0"
proof -
  have "(of_nat (32 + length body) :: u32) \<noteq> 0" using assms(2) by (intro of_nat_u32_nonzero) simp_all
  moreover have "encode_tx_hdr m1 @ body \<noteq> []" by (simp add: encode_tx_hdr_def)
  moreover have "length (encode_tx_hdr m1 @ body) = 32 + length body" by simp
  ultimately show ?thesis unfolding tx_sent_def using assms(1,3-5) by metis
qed

lemma same_hdr_upd:
  "same_hdr m m' \<Longrightarrow> um_req m'' = um_req m' \<Longrightarrow> um_req_code m'' = um_req_code m' \<Longrightarrow> um_level m'' = um_level m' \<Longrightarrow>
   um_type m'' = um_type m' \<Longrightarrow> um_len m'' = um_len m' \<Longrightarrow> um_dlen m'' = um_dlen m' \<Longrightarrow> um_seq m'' = um_seq m' \<Longrightarrow>
   um_dseq m'' = um_dseq m' \<Longrightarrow> um_dummy m'' = um_dummy m' \<Longrightarrow> same_hdr m m''"
  by (simp add: same_hdr_def)

text \<open>A codec that dispatches to another one for this request sends what that one sends.\<close>

lemma tx_sent_via:
  assumes "tx_sent enc dec view m m0" "enc' m = enc m"
    "\<And>bs m1. enc m = Some (0, bs, m1) \<Longrightarrow> (of_nat (length bs) :: u32) \<noteq> 0 \<Longrightarrow>
       dec' bs (of_nat (length bs)) m0 = dec bs (of_nat (length bs)) m0"
  shows "tx_sent enc' dec' view m m0"
  using assms unfolding tx_sent_def by metis

text \<open>The messages that are a header and one string, without a tag.\<close>

lemma one_str_sent:
  fixes m m0 :: "'a umessage_tx_hdr_scheme"
  assumes enc: "enc m = do { s \<leftarrow> put_str16 (l m) (arr m); Some (finish_tx (encode_tx_hdr m @ s) m) }"
    and dec: "\<And>p len. dec p len m0 = do { c \<leftarrow> decode_tx_hdr p len m0; (p, len, m) \<leftarrow> str16_item arr upd c; Some (0, m) }"
    and fits: "unat (l m) < N" "length (arr m) = N" "\<And>m1 :: 'a umessage_tx_hdr_scheme. length (arr (with_hdr m1 m0)) = N"
    and hdr: "\<And>m1 :: 'a umessage_tx_hdr_scheme. \<And>a. same_hdr m1 (upd (l m) a (with_hdr m1 m0))"
    and view: "\<And>len a. take (unat (l m)) a = take (unat (l m)) (arr m) \<Longrightarrow>
      view (upd (l m) a (with_hdr (m\<lparr>um_len := len\<rparr>) m0)) = view m"
  shows "tx_sent enc dec view m m0"
proof -
  define body where "body = le_bytes 2 (l m) @ take (unat (l m)) (arr m)"
  let ?m1 = "m\<lparr>um_len := of_nat (32 + length body)\<rparr>"
  let ?m' = "upd (l m) (store_str (arr (with_hdr ?m1 m0)) (take (unat (l m)) (arr m))) (with_hdr ?m1 m0)"
  have p: "put_str16 (l m) (arr m) = Some body" using fits by (simp add: put_str16_Some body_def)
  have "unat (l m) < 2 ^ 16" using unsigned_less[of "l m"] by simp
  then have len: "length body < 2 ^ 31" by (simp add: body_def)
  have i: "str16_item arr upd (at_end body (with_hdr ?m1 m0)) = Some (at_end [] ?m')"
    using fits unfolding body_def by (simp add: item_put)
  have e: "enc m = Some (0, encode_tx_hdr ?m1 @ body, ?m1)" by (simp add: enc p finish_tx_hdr)
  have d: "dec (encode_tx_hdr ?m1 @ body) (of_nat (32 + length body)) m0 = Some (0, ?m')"
    unfolding dec decode_encode_at_end[OF len] bind.bind_lunit i by (simp add: at_end_def)
  show ?thesis
    by (rule tx_sentI, rule e, rule len, rule d, rule hdr, rule view) (use fits in \<open>simp add: min_def\<close>)
qed

end
