(* ===== verification/Umpk_Cxa.thy ===== *)
theory Umpk_Cxa
  imports Umpk_Tx
begin

text \<open>
  The codec of the messages of the control channel acceptor, \<open>umpk/umpk_cxa.c\<close>. A message has the
  fields of all the structures of \<open>umpk_cxa_if.h\<close>; a function reads and writes those of the structure to which
  it casts the message. The return code is the first component of a result.
\<close>

section \<open>Messages\<close>

abbreviation UMSG_CXA_CMD_KEEPALIVE :: u8 where "UMSG_CXA_CMD_KEEPALIVE \<equiv> 1"
abbreviation UMSG_CXA_CMD_DROP_CHANNEL :: u8 where "UMSG_CXA_CMD_DROP_CHANNEL \<equiv> 2"
abbreviation UMSG_CXA_CMD_DISPLAY :: u8 where "UMSG_CXA_CMD_DISPLAY \<equiv> 3"
abbreviation UMSG_CXA_CMD_HELLO :: u8 where "UMSG_CXA_CMD_HELLO \<equiv> 4"
abbreviation UMSG_CXA_ITEM_CXA_UUID :: u8 where "UMSG_CXA_ITEM_CXA_UUID \<equiv> 1"
abbreviation UMSG_CXA_ITEM_CXP_UUID :: u8 where "UMSG_CXA_ITEM_CXP_UUID \<equiv> 2"
abbreviation UMSG_CXA_ITEM_PEER_UUID :: u8 where "UMSG_CXA_ITEM_PEER_UUID \<equiv> 3"
abbreviation UMSG_CXA_ITEM_IP :: u8 where "UMSG_CXA_ITEM_IP \<equiv> 4"
abbreviation UMSG_CXA_ITEM_CXT_NAME :: u8 where "UMSG_CXA_ITEM_CXT_NAME \<equiv> 5"

text \<open>\<open>S_DISP\<close>, \<open>S_DISP_ALL\<close>, \<open>W_DISP\<close>, \<open>W_DISP_ALL\<close>, and their responses with \<open>DISP_END\<close>.\<close>

definition cxa_code_disp :: "u8 \<Rightarrow> bool" where
  "cxa_code_disp c \<longleftrightarrow> c \<in> {1, 3, 5, 7}"

definition cxa_code_resp :: "u8 \<Rightarrow> bool" where
  "cxa_code_resp c \<longleftrightarrow> c \<in> {2, 4, 6, 8, 9}"

definition cxa_code_hello :: "u8 \<Rightarrow> bool" where
  "cxa_code_hello c \<longleftrightarrow> c \<in> {1, 2}"

record umessage_cxa = umessage_tx_hdr +
  um_chan_cxa_uuid_len :: u16
  um_chan_cxa_uuid :: "u8 list"
  um_chan_cxp_uuid_len :: u16
  um_chan_cxp_uuid :: "u8 list"
  um_peer_uuid_len :: u16
  um_peer_uuid :: "u8 list"
  um_ip_len :: u8
  um_ip :: "u8 list"
  um_cxt_name_len :: u16
  um_cxt_name :: "u8 list"

section \<open>Encoding\<close>

definition encode_cxa_channel_keepalive :: "umessage_cxa \<Rightarrow> (int \<times> u8 list \<times> umessage_cxa) option" where
  "encode_cxa_channel_keepalive m = Some (0, encode_tx_hdr m, m)"

definition encode_cxa_channel_drop :: "umessage_cxa \<Rightarrow> (int \<times> u8 list \<times> umessage_cxa) option" where
  "encode_cxa_channel_drop m =
     do {
       s1 \<leftarrow> put_str16 (um_chan_cxa_uuid_len m) (um_chan_cxa_uuid m);
       s2 \<leftarrow> put_str16 (um_chan_cxp_uuid_len m) (um_chan_cxp_uuid m);
       Some (finish_tx (encode_tx_hdr m @ UMSG_CXA_ITEM_CXA_UUID # s1 @ UMSG_CXA_ITEM_CXP_UUID # s2) m)
     }"

definition encode_cxa_display :: "umessage_cxa \<Rightarrow> (int \<times> u8 list \<times> umessage_cxa) option" where
  "encode_cxa_display m =
     do {
       s1 \<leftarrow> put_str16 (um_chan_cxa_uuid_len m) (um_chan_cxa_uuid m);
       Some (finish_tx (encode_tx_hdr m @ UMSG_CXA_ITEM_CXA_UUID # s1) m)
     }"

definition encode_cxa_display_resp :: "umessage_cxa \<Rightarrow> (int \<times> u8 list \<times> umessage_cxa) option" where
  "encode_cxa_display_resp m =
     do {
       s1 \<leftarrow> put_str16 (um_chan_cxa_uuid_len m) (um_chan_cxa_uuid m);
       s2 \<leftarrow> put_str16 (um_peer_uuid_len m) (um_peer_uuid m);
       s3 \<leftarrow> put_str8 (um_ip_len m) (um_ip m);
       s4 \<leftarrow> put_str16 (um_cxt_name_len m) (um_cxt_name m);
       Some (finish_tx (encode_tx_hdr m @ UMSG_CXA_ITEM_CXA_UUID # s1 @ UMSG_CXA_ITEM_PEER_UUID # s2 @
         UMSG_CXA_ITEM_IP # s3 @ UMSG_CXA_ITEM_CXT_NAME # s4) m)
     }"

definition encode_cxa_hello :: "umessage_cxa \<Rightarrow> (int \<times> u8 list \<times> umessage_cxa) option" where
  "encode_cxa_hello m = Some (finish_tx (encode_tx_hdr m) m)"

definition umpk_encode_cxa :: "umessage_cxa \<Rightarrow> (int \<times> u8 list \<times> umessage_cxa) option" where
  "umpk_encode_cxa m =
     (if um_req m = UMSG_CXA_CMD_KEEPALIVE then encode_cxa_channel_keepalive m
      else if um_req m = UMSG_CXA_CMD_DROP_CHANNEL then encode_cxa_channel_drop m
      else if um_req m = UMSG_CXA_CMD_DISPLAY then
        (if cxa_code_disp (um_req_code m) then encode_cxa_display m
         else if cxa_code_resp (um_req_code m) then encode_cxa_display_resp m
         else Some (- 1, [], m))
      else if um_req m = UMSG_CXA_CMD_HELLO then
        (if cxa_code_hello (um_req_code m) then encode_cxa_hello m else Some (- 1, [], m))
      else Some (- 1, [], m))"

section \<open>Decoding\<close>

definition cxa_uuid_item :: "umessage_cxa tlv \<Rightarrow> umessage_cxa tlv option" where
  "cxa_uuid_item = str16_item um_chan_cxa_uuid (\<lambda>l a m. m\<lparr>um_chan_cxa_uuid_len := l, um_chan_cxa_uuid := a\<rparr>)"

definition cxp_uuid_item :: "umessage_cxa tlv \<Rightarrow> umessage_cxa tlv option" where
  "cxp_uuid_item = str16_item um_chan_cxp_uuid (\<lambda>l a m. m\<lparr>um_chan_cxp_uuid_len := l, um_chan_cxp_uuid := a\<rparr>)"

definition peer_uuid_item :: "umessage_cxa tlv \<Rightarrow> umessage_cxa tlv option" where
  "peer_uuid_item = str16_item um_peer_uuid (\<lambda>l a m. m\<lparr>um_peer_uuid_len := l, um_peer_uuid := a\<rparr>)"

definition ip_item :: "umessage_cxa tlv \<Rightarrow> umessage_cxa tlv option" where
  "ip_item = str8_item um_ip (\<lambda>l a m. m\<lparr>um_ip_len := l, um_ip := a\<rparr>)"

definition cxt_name_item :: "umessage_cxa tlv \<Rightarrow> umessage_cxa tlv option" where
  "cxt_name_item = str16_item um_cxt_name (\<lambda>l a m. m\<lparr>um_cxt_name_len := l, um_cxt_name := a\<rparr>)"

definition decode_cxa_channel_keepalive :: "u8 list \<Rightarrow> u32 \<Rightarrow> umessage_cxa \<Rightarrow> (int \<times> umessage_cxa) option" where
  "decode_cxa_channel_keepalive p len m = do { (p, len, m) \<leftarrow> decode_tx_hdr p len m; Some (0, m) }"

definition cxa_drop_items :: "u8 \<Rightarrow> (umessage_cxa tlv \<Rightarrow> umessage_cxa tlv option) option" where
  "cxa_drop_items item =
     (if item = UMSG_CXA_ITEM_CXA_UUID then Some cxa_uuid_item
      else if item = UMSG_CXA_ITEM_CXP_UUID then Some cxp_uuid_item
      else None)"

definition decode_cxa_channel_drop :: "u8 list \<Rightarrow> u32 \<Rightarrow> umessage_cxa \<Rightarrow> (int \<times> umessage_cxa) option" where
  "decode_cxa_channel_drop p len m = do { c \<leftarrow> decode_tx_hdr p len m; tlv_loop cxa_drop_items c }"

definition cxa_display_items :: "u8 \<Rightarrow> (umessage_cxa tlv \<Rightarrow> umessage_cxa tlv option) option" where
  "cxa_display_items item = (if item = UMSG_CXA_ITEM_CXA_UUID then Some cxa_uuid_item else None)"

definition decode_cxa_display :: "u8 list \<Rightarrow> u32 \<Rightarrow> umessage_cxa \<Rightarrow> (int \<times> umessage_cxa) option" where
  "decode_cxa_display p len m = do { c \<leftarrow> decode_tx_hdr p len m; tlv_loop cxa_display_items c }"

definition cxa_display_resp_items :: "u8 \<Rightarrow> (umessage_cxa tlv \<Rightarrow> umessage_cxa tlv option) option" where
  "cxa_display_resp_items item =
     (if item = UMSG_CXA_ITEM_CXA_UUID then Some cxa_uuid_item
      else if item = UMSG_CXA_ITEM_PEER_UUID then Some peer_uuid_item
      else if item = UMSG_CXA_ITEM_IP then Some ip_item
      else if item = UMSG_CXA_ITEM_CXT_NAME then Some cxt_name_item
      else None)"

definition decode_cxa_display_resp :: "u8 list \<Rightarrow> u32 \<Rightarrow> umessage_cxa \<Rightarrow> (int \<times> umessage_cxa) option" where
  "decode_cxa_display_resp p len m = do { c \<leftarrow> decode_tx_hdr p len m; tlv_loop cxa_display_resp_items c }"

definition decode_cxa_hello :: "u8 list \<Rightarrow> u32 \<Rightarrow> umessage_cxa \<Rightarrow> (int \<times> umessage_cxa) option" where
  "decode_cxa_hello p len m = do { c \<leftarrow> decode_tx_hdr p len m; tlv_loop (\<lambda>_. None) c }"

definition umpk_decode_cxa :: "u8 list \<Rightarrow> u32 \<Rightarrow> umessage_cxa \<Rightarrow> (int \<times> umessage_cxa) option" where
  "umpk_decode_cxa p len m =
     do {
       c_assert (len \<noteq> 0);
       if um_req m = UMSG_CXA_CMD_KEEPALIVE then decode_cxa_channel_keepalive p len m
       else if um_req m = UMSG_CXA_CMD_DROP_CHANNEL then decode_cxa_channel_drop p len m
       else if um_req m = UMSG_CXA_CMD_DISPLAY then
         (if cxa_code_disp (um_req_code m) then decode_cxa_display p len m
          else if cxa_code_resp (um_req_code m) then decode_cxa_display_resp p len m
          else Some (- 1, m))
       else if um_req m = UMSG_CXA_CMD_HELLO then
         (if cxa_code_hello (um_req_code m) then decode_cxa_hello p len m else Some (- 1, m))
       else Some (- 1, m)
     }"

section \<open>Round trip\<close>

definition cxa_wf :: "umessage_cxa \<Rightarrow> bool" where
  "cxa_wf m \<longleftrightarrow> length (um_chan_cxa_uuid m) = NID_MAX_UUID \<and> length (um_chan_cxp_uuid m) = NID_MAX_UUID \<and>
     length (um_peer_uuid m) = NID_MAX_UUID \<and> length (um_ip m) = NID_MAX_IP \<and> length (um_cxt_name m) = NID_MAX_UUID"

definition cxa_fits :: "umessage_cxa \<Rightarrow> bool" where
  "cxa_fits m \<longleftrightarrow> unat (um_chan_cxa_uuid_len m) < NID_MAX_UUID \<and> unat (um_chan_cxp_uuid_len m) < NID_MAX_UUID \<and>
     unat (um_peer_uuid_len m) < NID_MAX_UUID \<and> unat (um_ip_len m) < NID_MAX_IP \<and> unat (um_cxt_name_len m) < NID_MAX_UUID"

text \<open>The strings that a message carries, by its request.\<close>

definition cxa_strings :: "umessage_cxa \<Rightarrow> u8 list list" where
  "cxa_strings m =
     (let cxa = take (unat (um_chan_cxa_uuid_len m)) (um_chan_cxa_uuid m);
          cxp = take (unat (um_chan_cxp_uuid_len m)) (um_chan_cxp_uuid m);
          peer = take (unat (um_peer_uuid_len m)) (um_peer_uuid m);
          ip = take (unat (um_ip_len m)) (um_ip m);
          name = take (unat (um_cxt_name_len m)) (um_cxt_name m)
      in if um_req m = UMSG_CXA_CMD_DROP_CHANNEL then [cxa, cxp]
         else if um_req m = UMSG_CXA_CMD_DISPLAY \<and> cxa_code_disp (um_req_code m) then [cxa]
         else if um_req m = UMSG_CXA_CMD_DISPLAY \<and> cxa_code_resp (um_req_code m) then [cxa, peer, ip, name]
         else [])"

lemmas cxa_item_defs = cxa_uuid_item_def cxp_uuid_item_def peer_uuid_item_def ip_item_def cxt_name_item_def

lemma cxa_codes: "cxa_code_disp c \<Longrightarrow> \<not> cxa_code_resp c"
  by (auto simp: cxa_code_disp_def cxa_code_resp_def)

lemma cxa_drop_sent:
  assumes "cxa_wf m" "cxa_wf m0" "cxa_fits m" "um_req m = UMSG_CXA_CMD_DROP_CHANNEL"
  shows "tx_sent encode_cxa_channel_drop decode_cxa_channel_drop cxa_strings m m0"
proof -
  define body where "body = UMSG_CXA_ITEM_CXA_UUID # le_bytes 2 (um_chan_cxa_uuid_len m) @
    take (unat (um_chan_cxa_uuid_len m)) (um_chan_cxa_uuid m) @ UMSG_CXA_ITEM_CXP_UUID #
    le_bytes 2 (um_chan_cxp_uuid_len m) @ take (unat (um_chan_cxp_uuid_len m)) (um_chan_cxp_uuid m)"
  let ?m1 = "m\<lparr>um_len := of_nat (32 + length body)\<rparr>"
  have e: "encode_cxa_channel_drop m = Some (0, encode_tx_hdr ?m1 @ body, ?m1)"
    using assms(1,3) by (simp add: encode_cxa_channel_drop_def put_str16_Some cxa_wf_def cxa_fits_def finish_tx_hdr body_def)
  have len: "length body < 2 ^ 31" using assms(1,3) by (simp add: body_def cxa_wf_def cxa_fits_def NID_MAX_UUID_def)
  let ?m' = "(with_hdr ?m1 m0)\<lparr>um_chan_cxa_uuid_len := um_chan_cxa_uuid_len m,
    um_chan_cxa_uuid := store_str (um_chan_cxa_uuid m0) (take (unat (um_chan_cxa_uuid_len m)) (um_chan_cxa_uuid m)),
    um_chan_cxp_uuid_len := um_chan_cxp_uuid_len m,
    um_chan_cxp_uuid := store_str (um_chan_cxp_uuid m0) (take (unat (um_chan_cxp_uuid_len m)) (um_chan_cxp_uuid m))\<rparr>"
  have "tlv_loop cxa_drop_items (at_end body (with_hdr ?m1 m0)) = Some (0, ?m')"
    using assms(1,2,3) unfolding body_def
    by (simp add: tlv_str cxa_drop_items_def cxa_item_defs cxa_wf_def cxa_fits_def NID_MAX_UUID_def with_hdr_def)
  then have d: "decode_cxa_channel_drop (encode_tx_hdr ?m1 @ body) (of_nat (32 + length body)) m0 = Some (0, ?m')"
    unfolding decode_cxa_channel_drop_def decode_encode_at_end[OF len] by simp
  have v: "cxa_strings ?m' = cxa_strings m"
    using assms by (simp add: cxa_strings_def cxa_wf_def cxa_fits_def with_hdr_def min_def)
  show ?thesis by (rule tx_sentI, rule e, rule len, rule d) (simp add: same_hdr_def with_hdr_def, rule v)
qed

lemma cxa_display_sent:
  assumes "cxa_wf m" "cxa_wf m0" "cxa_fits m" "um_req m = UMSG_CXA_CMD_DISPLAY" "cxa_code_disp (um_req_code m)"
  shows "tx_sent encode_cxa_display decode_cxa_display cxa_strings m m0"
proof -
  define body where "body = UMSG_CXA_ITEM_CXA_UUID # le_bytes 2 (um_chan_cxa_uuid_len m) @
    take (unat (um_chan_cxa_uuid_len m)) (um_chan_cxa_uuid m)"
  let ?m1 = "m\<lparr>um_len := of_nat (32 + length body)\<rparr>"
  have e: "encode_cxa_display m = Some (0, encode_tx_hdr ?m1 @ body, ?m1)"
    using assms(1,3) by (simp add: encode_cxa_display_def put_str16_Some cxa_wf_def cxa_fits_def finish_tx_hdr body_def)
  have len: "length body < 2 ^ 31" using assms(1,3) by (simp add: body_def cxa_wf_def cxa_fits_def NID_MAX_UUID_def)
  let ?m' = "(with_hdr ?m1 m0)\<lparr>um_chan_cxa_uuid_len := um_chan_cxa_uuid_len m,
    um_chan_cxa_uuid := store_str (um_chan_cxa_uuid m0) (take (unat (um_chan_cxa_uuid_len m)) (um_chan_cxa_uuid m))\<rparr>"
  have "tlv_loop cxa_display_items (at_end body (with_hdr ?m1 m0)) = Some (0, ?m')"
    using assms(1,2,3) unfolding body_def
    by (simp add: tlv_str cxa_display_items_def cxa_item_defs cxa_wf_def cxa_fits_def NID_MAX_UUID_def with_hdr_def)
  then have d: "decode_cxa_display (encode_tx_hdr ?m1 @ body) (of_nat (32 + length body)) m0 = Some (0, ?m')"
    unfolding decode_cxa_display_def decode_encode_at_end[OF len] by simp
  have v: "cxa_strings ?m' = cxa_strings m"
    using assms by (simp add: cxa_strings_def cxa_wf_def cxa_fits_def with_hdr_def min_def)
  show ?thesis by (rule tx_sentI, rule e, rule len, rule d) (simp add: same_hdr_def with_hdr_def, rule v)
qed

lemma cxa_display_resp_sent:
  assumes "cxa_wf m" "cxa_wf m0" "cxa_fits m" "um_req m = UMSG_CXA_CMD_DISPLAY" "cxa_code_resp (um_req_code m)"
  shows "tx_sent encode_cxa_display_resp decode_cxa_display_resp cxa_strings m m0"
proof -
  define body where "body = UMSG_CXA_ITEM_CXA_UUID # le_bytes 2 (um_chan_cxa_uuid_len m) @
    take (unat (um_chan_cxa_uuid_len m)) (um_chan_cxa_uuid m) @ UMSG_CXA_ITEM_PEER_UUID #
    le_bytes 2 (um_peer_uuid_len m) @ take (unat (um_peer_uuid_len m)) (um_peer_uuid m) @ UMSG_CXA_ITEM_IP #
    um_ip_len m # take (unat (um_ip_len m)) (um_ip m) @ UMSG_CXA_ITEM_CXT_NAME #
    le_bytes 2 (um_cxt_name_len m) @ take (unat (um_cxt_name_len m)) (um_cxt_name m)"
  let ?m1 = "m\<lparr>um_len := of_nat (32 + length body)\<rparr>"
  have e: "encode_cxa_display_resp m = Some (0, encode_tx_hdr ?m1 @ body, ?m1)"
    using assms(1,3)
    by (simp add: encode_cxa_display_resp_def put_str16_Some put_str8_Some cxa_wf_def cxa_fits_def finish_tx_hdr body_def)
  have len: "length body < 2 ^ 31"
    using assms(1,3) by (simp add: body_def cxa_wf_def cxa_fits_def NID_MAX_UUID_def NID_MAX_IP_def)
  let ?m' = "(with_hdr ?m1 m0)\<lparr>um_chan_cxa_uuid_len := um_chan_cxa_uuid_len m,
    um_chan_cxa_uuid := store_str (um_chan_cxa_uuid m0) (take (unat (um_chan_cxa_uuid_len m)) (um_chan_cxa_uuid m)),
    um_peer_uuid_len := um_peer_uuid_len m,
    um_peer_uuid := store_str (um_peer_uuid m0) (take (unat (um_peer_uuid_len m)) (um_peer_uuid m)),
    um_ip_len := um_ip_len m, um_ip := store_str (um_ip m0) (take (unat (um_ip_len m)) (um_ip m)),
    um_cxt_name_len := um_cxt_name_len m,
    um_cxt_name := store_str (um_cxt_name m0) (take (unat (um_cxt_name_len m)) (um_cxt_name m))\<rparr>"
  have "tlv_loop cxa_display_resp_items (at_end body (with_hdr ?m1 m0)) = Some (0, ?m')"
    using assms(1,2,3) unfolding body_def
    by (simp add: tlv_str cxa_display_resp_items_def cxa_item_defs cxa_wf_def cxa_fits_def NID_MAX_UUID_def NID_MAX_IP_def
        with_hdr_def)
  then have d: "decode_cxa_display_resp (encode_tx_hdr ?m1 @ body) (of_nat (32 + length body)) m0 = Some (0, ?m')"
    unfolding decode_cxa_display_resp_def decode_encode_at_end[OF len] by simp
  have "\<not> cxa_code_disp (um_req_code m)" using assms(5) cxa_codes by blast
  then have v: "cxa_strings ?m' = cxa_strings m"
    using assms by (simp add: cxa_strings_def cxa_wf_def cxa_fits_def with_hdr_def min_def)
  show ?thesis by (rule tx_sentI, rule e, rule len, rule d) (simp add: same_hdr_def with_hdr_def, rule v)
qed

lemma cxa_bare_sent:
  assumes "um_req m \<noteq> UMSG_CXA_CMD_DROP_CHANNEL" "um_req m \<noteq> UMSG_CXA_CMD_DISPLAY"
  shows "tx_sent encode_cxa_channel_keepalive decode_cxa_channel_keepalive cxa_strings m m0"
    "tx_sent encode_cxa_hello decode_cxa_hello cxa_strings m m0"
proof -
  have d: "decode_tx_hdr (encode_tx_hdr m1 @ []) (of_nat (32 + length ([] :: u8 list))) m0 = Some (at_end [] (with_hdr m1 m0))"
    for m1 :: umessage_cxa by (rule decode_encode_at_end) simp
  have v: "cxa_strings (with_hdr m1 m0) = cxa_strings m" if "um_req m1 = um_req m" "um_req_code m1 = um_req_code m"
    for m1 :: umessage_cxa using assms that by (simp add: cxa_strings_def)
  show "tx_sent encode_cxa_channel_keepalive decode_cxa_channel_keepalive cxa_strings m m0"
    by (rule tx_sentI[where body = "[]" and m' = "with_hdr m m0" and ?m1.0 = m])
      (simp_all add: encode_cxa_channel_keepalive_def decode_cxa_channel_keepalive_def v d[simplified] at_end_def)
  let ?m1 = "m\<lparr>um_len := of_nat (32 + length ([] :: u8 list))\<rparr>"
  have "encode_cxa_hello m = Some (0, encode_tx_hdr ?m1 @ [], ?m1)"
    using finish_tx_hdr[of m "[]"] by (simp add: encode_cxa_hello_def)
  then show "tx_sent encode_cxa_hello decode_cxa_hello cxa_strings m m0"
    by (rule tx_sentI[where m' = "with_hdr ?m1 m0"]) (simp_all add: decode_cxa_hello_def v d[simplified])
qed

text \<open>C38. Every message of the control channel acceptor that can be encoded arrives: if the strings fit the
  arrays, \<open>umpk_encode_cxa\<close> of a known request returns 0, and \<open>umpk_decode_cxa\<close> of the bytes, with a receiving message of
  the same request, returns 0 with the header that the encoder wrote, the length included, and the same
  strings. An unknown request is refused by both.\<close>

theorem cxa_roundtrip:
  assumes "cxa_wf m" "cxa_wf m0" "cxa_fits m" "um_req m0 = um_req m" "um_req_code m0 = um_req_code m"
  shows "if um_req m \<in> {UMSG_CXA_CMD_KEEPALIVE, UMSG_CXA_CMD_DROP_CHANNEL} \<or>
      um_req m = UMSG_CXA_CMD_DISPLAY \<and> (cxa_code_disp (um_req_code m) \<or> cxa_code_resp (um_req_code m)) \<or>
      um_req m = UMSG_CXA_CMD_HELLO \<and> cxa_code_hello (um_req_code m)
    then tx_sent umpk_encode_cxa umpk_decode_cxa cxa_strings m m0
    else umpk_encode_cxa m = Some (- 1, [], m) \<and> (\<forall>p len. len \<noteq> 0 \<longrightarrow> umpk_decode_cxa p len m0 = Some (- 1, m0))"
proof -
  have sent: "tx_sent umpk_encode_cxa umpk_decode_cxa cxa_strings m m0"
    if "tx_sent enc dec cxa_strings m m0" "umpk_encode_cxa m = enc m" "\<And>p len. len \<noteq> 0 \<Longrightarrow> umpk_decode_cxa p len m0 = dec p len m0"
    for enc dec
    using that(1,2) by (rule tx_sent_via) (rule that(3), assumption?)
  note d = umpk_encode_cxa_def umpk_decode_cxa_def
  consider "um_req m = UMSG_CXA_CMD_KEEPALIVE" | "um_req m = UMSG_CXA_CMD_DROP_CHANNEL"
    | "um_req m = UMSG_CXA_CMD_DISPLAY" "cxa_code_disp (um_req_code m)"
    | "um_req m = UMSG_CXA_CMD_DISPLAY" "\<not> cxa_code_disp (um_req_code m)" "cxa_code_resp (um_req_code m)"
    | "um_req m = UMSG_CXA_CMD_HELLO" "cxa_code_hello (um_req_code m)"
    | "um_req m \<notin> {UMSG_CXA_CMD_KEEPALIVE, UMSG_CXA_CMD_DROP_CHANNEL}"
      "um_req m = UMSG_CXA_CMD_DISPLAY \<longrightarrow> \<not> cxa_code_disp (um_req_code m) \<and> \<not> cxa_code_resp (um_req_code m)"
      "um_req m = UMSG_CXA_CMD_HELLO \<longrightarrow> \<not> cxa_code_hello (um_req_code m)" by auto
  then show ?thesis
  proof cases
    case 1
    then show ?thesis using sent[OF cxa_bare_sent(1)[of m m0]] assms(4,5) by (simp add: d)
  next
    case 2
    then show ?thesis using sent[OF cxa_drop_sent[OF assms(1-3) 2]] assms(4,5) by (simp add: d)
  next
    case 3
    then show ?thesis using sent[OF cxa_display_sent[OF assms(1-3) 3]] assms(4,5) by (simp add: d)
  next
    case 4
    then show ?thesis using sent[OF cxa_display_resp_sent[OF assms(1-3) 4(1,3)]] assms(4,5) by (simp add: d)
  next
    case 5
    then show ?thesis using sent[OF cxa_bare_sent(2)[of m m0]] assms(4,5) by (simp add: d)
  next
    case 6
    then show ?thesis using assms(4,5) by (auto simp: d)
  qed
qed

definition cxa_blank :: "u8 \<Rightarrow> u8 \<Rightarrow> umessage_cxa" where
  "cxa_blank req code = \<lparr>um_req = req, um_req_code = code, um_level = 0, um_type = 0, um_len = 0, um_dlen = 0, um_seq = 7,
     um_dseq = 0, um_dummy = 0, um_chan_cxa_uuid_len = 3, um_chan_cxa_uuid = replicate NID_MAX_UUID 65,
     um_chan_cxp_uuid_len = 2, um_chan_cxp_uuid = replicate NID_MAX_UUID 66, um_peer_uuid_len = 0,
     um_peer_uuid = replicate NID_MAX_UUID 0, um_ip_len = 0, um_ip = replicate NID_MAX_IP 0, um_cxt_name_len = 0,
     um_cxt_name = replicate NID_MAX_UUID 0\<rparr>"

theorem cxa_roundtrip_witness:
  "tx_sent umpk_encode_cxa umpk_decode_cxa cxa_strings (cxa_blank 2 0) (cxa_blank 2 0) \<and>
   cxa_strings (cxa_blank 2 0) = [replicate 3 65, replicate 2 66]"
proof -
  have "cxa_wf (cxa_blank 2 0)" "cxa_fits (cxa_blank 2 0)"
    by (simp_all add: cxa_blank_def cxa_wf_def cxa_fits_def NID_MAX_UUID_def NID_MAX_IP_def)
  moreover have "um_req (cxa_blank 2 0) = UMSG_CXA_CMD_DROP_CHANNEL" by (simp add: cxa_blank_def)
  moreover have "3 \<le> NID_MAX_UUID" "2 \<le> NID_MAX_UUID" by (simp_all add: NID_MAX_UUID_def)
  then have "cxa_strings (cxa_blank 2 0) = [replicate 3 65, replicate 2 66]"
    by (simp add: cxa_strings_def cxa_blank_def take_replicate min_def)
  ultimately show ?thesis using cxa_roundtrip[of "cxa_blank 2 0" "cxa_blank 2 0"] by simp
qed

end
