(* ===== verification/Umpk_Cxp.thy ===== *)
theory Umpk_Cxp
  imports Umpk_Tx
begin

text \<open>
  The codec of the messages of the control channel initiator, \<open>umpk/umpk_cxp.c\<close>, modelled like that of
  the acceptor. \<open>None\<close> also stands for the return code that \<open>umpk_encode_cxp\<close> leaves unset when the code
  of a status request is unknown.
\<close>

section \<open>Messages\<close>

abbreviation UMSG_CXP_CMD_CREATE_CHANNEL :: u8 where "UMSG_CXP_CMD_CREATE_CHANNEL \<equiv> 1"
abbreviation UMSG_CXP_CMD_KEEPALIVE :: u8 where "UMSG_CXP_CMD_KEEPALIVE \<equiv> 2"
abbreviation UMSG_CXP_CMD_DROP_CHANNEL :: u8 where "UMSG_CXP_CMD_DROP_CHANNEL \<equiv> 3"
abbreviation UMSG_CXP_CMD_STAT_CHANNEL :: u8 where "UMSG_CXP_CMD_STAT_CHANNEL \<equiv> 4"
abbreviation UMSG_CXP_CMD_START_WORK :: u8 where "UMSG_CXP_CMD_START_WORK \<equiv> 5"
abbreviation UMSG_CXP_CMD_DROP_CHANNEL_RESP :: u8 where "UMSG_CXP_CMD_DROP_CHANNEL_RESP \<equiv> 6"
abbreviation UMSG_CXP_CODE_NO :: u8 where "UMSG_CXP_CODE_NO \<equiv> 0"
abbreviation UMSG_CXP_CODE_UUID :: u8 where "UMSG_CXP_CODE_UUID \<equiv> 1"
abbreviation UMSG_CXP_CODE_STAT_RESP :: u8 where "UMSG_CXP_CODE_STAT_RESP \<equiv> 1"
abbreviation UMSG_CXP_ITEM_CHANNEL :: u8 where "UMSG_CXP_ITEM_CHANNEL \<equiv> 1"
abbreviation UMSG_CXP_ITEM_CXA_UUID :: u8 where "UMSG_CXP_ITEM_CXA_UUID \<equiv> 1"
abbreviation UMSG_CXP_ITEM_CXP_UUID :: u8 where "UMSG_CXP_ITEM_CXP_UUID \<equiv> 2"

record umessage_cxp = umessage_tx_hdr +
  um_chan_uuid_len :: u16
  um_chan_uuid :: "u8 list"
  um_chan_cxa_uuid_len :: u16
  um_chan_cxa_uuid :: "u8 list"
  um_chan_cxp_uuid_len :: u16
  um_chan_cxp_uuid :: "u8 list"
  send_seq :: u64
  ack_seq :: u64
  recv_seq :: u64
  cmsg_left :: u32

section \<open>Encoding and decoding\<close>

definition chan_uuid_item :: "umessage_cxp tlv \<Rightarrow> umessage_cxp tlv option" where
  "chan_uuid_item = str16_item um_chan_uuid (\<lambda>l a m. m\<lparr>um_chan_uuid_len := l, um_chan_uuid := a\<rparr>)"

definition chan_cxa_uuid_item :: "umessage_cxp tlv \<Rightarrow> umessage_cxp tlv option" where
  "chan_cxa_uuid_item = str16_item um_chan_cxa_uuid (\<lambda>l a m. m\<lparr>um_chan_cxa_uuid_len := l, um_chan_cxa_uuid := a\<rparr>)"

definition chan_cxp_uuid_item :: "umessage_cxp tlv \<Rightarrow> umessage_cxp tlv option" where
  "chan_cxp_uuid_item = str16_item um_chan_cxp_uuid (\<lambda>l a m. m\<lparr>um_chan_cxp_uuid_len := l, um_chan_cxp_uuid := a\<rparr>)"

definition encode_cxp_create_channel_uuid :: "umessage_cxp \<Rightarrow> (int \<times> u8 list \<times> umessage_cxp) option" where
  "encode_cxp_create_channel_uuid m =
     do {
       s \<leftarrow> put_str16 (um_chan_uuid_len m) (um_chan_uuid m);
       Some (finish_tx (encode_tx_hdr m @ UMSG_CXP_ITEM_CHANNEL # s) m)
     }"

definition cxp_create_items :: "u8 \<Rightarrow> (umessage_cxp tlv \<Rightarrow> umessage_cxp tlv option) option" where
  "cxp_create_items item = (if item = UMSG_CXP_ITEM_CHANNEL then Some chan_uuid_item else None)"

definition decode_cxp_create_channel_uuid :: "u8 list \<Rightarrow> u32 \<Rightarrow> umessage_cxp \<Rightarrow> (int \<times> umessage_cxp) option" where
  "decode_cxp_create_channel_uuid p len m = do { c \<leftarrow> decode_tx_hdr p len m; tlv_loop cxp_create_items c }"

definition encode_cxp_channel_keepalive :: "umessage_cxp \<Rightarrow> (int \<times> u8 list \<times> umessage_cxp) option" where
  "encode_cxp_channel_keepalive m = Some (finish_tx (encode_tx_hdr m) m)"

definition decode_cxp_channel_keepalive :: "u8 list \<Rightarrow> u32 \<Rightarrow> umessage_cxp \<Rightarrow> (int \<times> umessage_cxp) option" where
  "decode_cxp_channel_keepalive p len m = do { (p, len, m) \<leftarrow> decode_tx_hdr p len m; Some (0, m) }"

definition encode_cxp_channel_drop :: "umessage_cxp \<Rightarrow> (int \<times> u8 list \<times> umessage_cxp) option" where
  "encode_cxp_channel_drop m =
     do {
       s1 \<leftarrow> put_str16 (um_chan_cxa_uuid_len m) (um_chan_cxa_uuid m);
       s2 \<leftarrow> put_str16 (um_chan_cxp_uuid_len m) (um_chan_cxp_uuid m);
       Some (finish_tx (encode_tx_hdr m @ UMSG_CXP_ITEM_CXA_UUID # s1 @ UMSG_CXP_ITEM_CXP_UUID # s2) m)
     }"

definition decode_cxp_channel_drop :: "u8 list \<Rightarrow> u32 \<Rightarrow> umessage_cxp \<Rightarrow> (int \<times> umessage_cxp) option" where
  "decode_cxp_channel_drop p len m =
     do {
       c \<leftarrow> decode_tx_hdr p len m;
       c \<leftarrow> chan_cxa_uuid_item c;
       (p, len, m) \<leftarrow> chan_cxp_uuid_item c;
       Some (0, m)
     }"

definition encode_cxp_channel_drop_resp :: "umessage_cxp \<Rightarrow> (int \<times> u8 list \<times> umessage_cxp) option" where
  "encode_cxp_channel_drop_resp m =
     do {
       s \<leftarrow> put_str16 (um_chan_cxp_uuid_len m) (um_chan_cxp_uuid m);
       Some (finish_tx (encode_tx_hdr m @ s) m)
     }"

definition decode_cxp_channel_drop_resp :: "u8 list \<Rightarrow> u32 \<Rightarrow> umessage_cxp \<Rightarrow> (int \<times> umessage_cxp) option" where
  "decode_cxp_channel_drop_resp p len m =
     do { c \<leftarrow> decode_tx_hdr p len m; (p, len, m) \<leftarrow> chan_cxp_uuid_item c; Some (0, m) }"

definition encode_cxp_channel_stat :: "umessage_cxp \<Rightarrow> (int \<times> u8 list \<times> umessage_cxp) option" where
  "encode_cxp_channel_stat m =
     do { s \<leftarrow> put_str16 (um_chan_uuid_len m) (um_chan_uuid m); Some (finish_tx (encode_tx_hdr m @ s) m) }"

definition decode_cxp_channel_stat :: "u8 list \<Rightarrow> u32 \<Rightarrow> umessage_cxp \<Rightarrow> (int \<times> umessage_cxp) option" where
  "decode_cxp_channel_stat p len m =
     do { c \<leftarrow> decode_tx_hdr p len m; (p, len, m) \<leftarrow> chan_uuid_item c; Some (0, m) }"

definition encode_cxp_channel_stat_resp :: "umessage_cxp \<Rightarrow> (int \<times> u8 list \<times> umessage_cxp) option" where
  "encode_cxp_channel_stat_resp m =
     do {
       s \<leftarrow> put_str16 (um_chan_uuid_len m) (um_chan_uuid m);
       Some (finish_tx (encode_tx_hdr m @ s @ le_bytes 8 (send_seq m) @ le_bytes 8 (ack_seq m) @ le_bytes 8 (recv_seq m) @
         le_bytes 4 (cmsg_left m)) m)
     }"

definition decode_cxp_channel_stat_resp :: "u8 list \<Rightarrow> u32 \<Rightarrow> umessage_cxp \<Rightarrow> (int \<times> umessage_cxp) option" where
  "decode_cxp_channel_stat_resp p len m =
     do {
       c \<leftarrow> decode_tx_hdr p len m;
       c \<leftarrow> chan_uuid_item c;
       c \<leftarrow> le_item 8 (\<lambda>w m. m\<lparr>send_seq := w\<rparr>) c;
       c \<leftarrow> le_item 8 (\<lambda>w m. m\<lparr>ack_seq := w\<rparr>) c;
       c \<leftarrow> le_item 8 (\<lambda>w m. m\<lparr>recv_seq := w\<rparr>) c;
       (p, len, m) \<leftarrow> le_item 4 (\<lambda>w m. m\<lparr>cmsg_left := w\<rparr>) c;
       Some (0, m)
     }"

definition encode_cxp_start_work :: "umessage_cxp \<Rightarrow> (int \<times> u8 list \<times> umessage_cxp) option" where
  "encode_cxp_start_work m =
     do { s \<leftarrow> put_str16 (um_chan_uuid_len m) (um_chan_uuid m); Some (finish_tx (encode_tx_hdr m @ s) m) }"

definition decode_cxp_start_work :: "u8 list \<Rightarrow> u32 \<Rightarrow> umessage_cxp \<Rightarrow> (int \<times> umessage_cxp) option" where
  "decode_cxp_start_work p len m =
     do { c \<leftarrow> decode_tx_hdr p len m; (p, len, m) \<leftarrow> chan_uuid_item c; Some (0, m) }"

definition umpk_encode_cxp :: "umessage_cxp \<Rightarrow> (int \<times> u8 list \<times> umessage_cxp) option" where
  "umpk_encode_cxp m =
     (if um_req m = UMSG_CXP_CMD_CREATE_CHANNEL then
        (if um_req_code m = UMSG_CXP_CODE_UUID then encode_cxp_create_channel_uuid m else Some (- 1, [], m))
      else if um_req m = UMSG_CXP_CMD_KEEPALIVE then encode_cxp_channel_keepalive m
      else if um_req m = UMSG_CXP_CMD_DROP_CHANNEL then encode_cxp_channel_drop m
      else if um_req m = UMSG_CXP_CMD_DROP_CHANNEL_RESP then encode_cxp_channel_drop_resp m
      else if um_req m = UMSG_CXP_CMD_STAT_CHANNEL then
        (if um_req_code m = UMSG_CXP_CODE_NO then encode_cxp_channel_stat m
         else if um_req_code m = UMSG_CXP_CODE_STAT_RESP then encode_cxp_channel_stat_resp m
         else None)
      else if um_req m = UMSG_CXP_CMD_START_WORK then encode_cxp_start_work m
      else Some (- 1, [], m))"

definition umpk_decode_cxp :: "u8 list \<Rightarrow> u32 \<Rightarrow> umessage_cxp \<Rightarrow> (int \<times> umessage_cxp) option" where
  "umpk_decode_cxp p len m =
     (if um_req m = UMSG_CXP_CMD_CREATE_CHANNEL then
        (if um_req_code m = UMSG_CXP_CODE_UUID then decode_cxp_create_channel_uuid p len m else Some (- 1, m))
      else if um_req m = UMSG_CXP_CMD_KEEPALIVE then decode_cxp_channel_keepalive p len m
      else if um_req m = UMSG_CXP_CMD_DROP_CHANNEL then decode_cxp_channel_drop p len m
      else if um_req m = UMSG_CXP_CMD_DROP_CHANNEL_RESP then decode_cxp_channel_drop_resp p len m
      else if um_req m = UMSG_CXP_CMD_STAT_CHANNEL then
        (if um_req_code m = UMSG_CXP_CODE_NO then decode_cxp_channel_stat p len m
         else if um_req_code m = UMSG_CXP_CODE_STAT_RESP then decode_cxp_channel_stat_resp p len m
         else Some (0, m))
      else if um_req m = UMSG_CXP_CMD_START_WORK then decode_cxp_start_work p len m
      else Some (- 1, m))"

section \<open>Round trip\<close>

definition cxp_wf :: "umessage_cxp \<Rightarrow> bool" where
  "cxp_wf m \<longleftrightarrow> length (um_chan_uuid m) = NID_MAX_UUID \<and> length (um_chan_cxa_uuid m) = NID_MAX_UUID \<and>
     length (um_chan_cxp_uuid m) = NID_MAX_UUID"

definition cxp_fits :: "umessage_cxp \<Rightarrow> bool" where
  "cxp_fits m \<longleftrightarrow> unat (um_chan_uuid_len m) < NID_MAX_UUID \<and> unat (um_chan_cxa_uuid_len m) < NID_MAX_UUID \<and>
     unat (um_chan_cxp_uuid_len m) < NID_MAX_UUID"

text \<open>What a message carries, by its request: its string and the numbers of a status response.\<close>

definition cxp_view :: "umessage_cxp \<Rightarrow> u8 list \<times> u64 list \<times> u32 list" where
  "cxp_view m =
     (let uuid = take (unat (um_chan_uuid_len m)) (um_chan_uuid m) in
      if um_req m \<in> {UMSG_CXP_CMD_CREATE_CHANNEL, UMSG_CXP_CMD_START_WORK} then (uuid, [], [])
      else if um_req m = UMSG_CXP_CMD_DROP_CHANNEL_RESP then
        (take (unat (um_chan_cxp_uuid_len m)) (um_chan_cxp_uuid m), [], [])
      else if um_req m = UMSG_CXP_CMD_STAT_CHANNEL then
        (if um_req_code m = UMSG_CXP_CODE_STAT_RESP then (uuid, [send_seq m, ack_seq m, recv_seq m], [cmsg_left m])
         else (uuid, [], []))
      else ([], [], []))"

lemmas cxp_item_defs = chan_uuid_item_def chan_cxa_uuid_item_def chan_cxp_uuid_item_def

text \<open>The messages whose body is one string.\<close>

lemma cxp_create_sent:
  assumes "cxp_wf m" "cxp_wf m0" "cxp_fits m" "um_req m = UMSG_CXP_CMD_CREATE_CHANNEL"
  shows "tx_sent encode_cxp_create_channel_uuid decode_cxp_create_channel_uuid cxp_view m m0"
proof -
  define body where "body = UMSG_CXP_ITEM_CHANNEL # le_bytes 2 (um_chan_uuid_len m) @ take (unat (um_chan_uuid_len m)) (um_chan_uuid m)"
  let ?m1 = "m\<lparr>um_len := of_nat (32 + length body)\<rparr>"
  let ?m' = "(with_hdr ?m1 m0)\<lparr>um_chan_uuid_len := um_chan_uuid_len m,
    um_chan_uuid := store_str (um_chan_uuid m0) (take (unat (um_chan_uuid_len m)) (um_chan_uuid m))\<rparr>"
  have e: "encode_cxp_create_channel_uuid m = Some (0, encode_tx_hdr ?m1 @ body, ?m1)"
    using assms(1,3) by (simp add: encode_cxp_create_channel_uuid_def put_str16_Some cxp_wf_def cxp_fits_def finish_tx_hdr body_def)
  have len: "length body < 2 ^ 31" using assms(1,3) by (simp add: body_def cxp_wf_def cxp_fits_def NID_MAX_UUID_def)
  have "tlv_loop cxp_create_items (at_end body (with_hdr ?m1 m0)) = Some (0, ?m')"
    using assms(1,2,3) unfolding body_def
    by (simp add: tlv_str cxp_create_items_def cxp_item_defs cxp_wf_def cxp_fits_def NID_MAX_UUID_def with_hdr_def)
  then have d: "decode_cxp_create_channel_uuid (encode_tx_hdr ?m1 @ body) (of_nat (32 + length body)) m0 = Some (0, ?m')"
    unfolding decode_cxp_create_channel_uuid_def decode_encode_at_end[OF len] by simp
  have v: "cxp_view ?m' = cxp_view m"
    using assms by (simp add: cxp_view_def cxp_wf_def cxp_fits_def with_hdr_def min_def)
  show ?thesis by (rule tx_sentI, rule e, rule len, rule d) (simp add: same_hdr_def with_hdr_def, rule v)
qed

lemma cxp_uuid_sent:
  assumes "cxp_wf m" "cxp_wf m0" "cxp_fits m"
  shows "um_req m = UMSG_CXP_CMD_START_WORK \<Longrightarrow> tx_sent encode_cxp_start_work decode_cxp_start_work cxp_view m m0"
    and "um_req m = UMSG_CXP_CMD_STAT_CHANNEL \<Longrightarrow> um_req_code m = UMSG_CXP_CODE_NO \<Longrightarrow>
      tx_sent encode_cxp_channel_stat decode_cxp_channel_stat cxp_view m m0"
proof -
  define body where "body = le_bytes 2 (um_chan_uuid_len m) @ take (unat (um_chan_uuid_len m)) (um_chan_uuid m)"
  let ?m1 = "m\<lparr>um_len := of_nat (32 + length body)\<rparr>"
  let ?m' = "(with_hdr ?m1 m0)\<lparr>um_chan_uuid_len := um_chan_uuid_len m,
    um_chan_uuid := store_str (um_chan_uuid m0) (take (unat (um_chan_uuid_len m)) (um_chan_uuid m))\<rparr>"
  have p: "put_str16 (um_chan_uuid_len m) (um_chan_uuid m) = Some body"
    using assms(1,3) by (simp add: put_str16_Some cxp_wf_def cxp_fits_def body_def)
  have len: "length body < 2 ^ 31" using assms(1,3) by (simp add: body_def cxp_wf_def cxp_fits_def NID_MAX_UUID_def)
  have i: "chan_uuid_item (at_end body (with_hdr ?m1 m0)) = Some (at_end [] ?m')"
    using assms unfolding body_def by (simp add: item_put cxp_item_defs cxp_wf_def cxp_fits_def with_hdr_def)
  have h: "same_hdr ?m1 ?m'" by (simp add: same_hdr_def with_hdr_def)
  show "tx_sent encode_cxp_start_work decode_cxp_start_work cxp_view m m0" if "um_req m = UMSG_CXP_CMD_START_WORK"
  proof (rule tx_sentI[OF _ len _ h])
    show "encode_cxp_start_work m = Some (0, encode_tx_hdr ?m1 @ body, ?m1)" by (simp add: encode_cxp_start_work_def p finish_tx_hdr)
    show "decode_cxp_start_work (encode_tx_hdr ?m1 @ body) (of_nat (32 + length body)) m0 = Some (0, ?m')"
      unfolding decode_cxp_start_work_def decode_encode_at_end[OF len] using i by (simp add: at_end_def)
    show "cxp_view ?m' = cxp_view m"
      using assms that by (simp add: cxp_view_def cxp_wf_def cxp_fits_def with_hdr_def min_def)
  qed
  show "tx_sent encode_cxp_channel_stat decode_cxp_channel_stat cxp_view m m0"
    if "um_req m = UMSG_CXP_CMD_STAT_CHANNEL" "um_req_code m = UMSG_CXP_CODE_NO"
  proof (rule tx_sentI[OF _ len _ h])
    show "encode_cxp_channel_stat m = Some (0, encode_tx_hdr ?m1 @ body, ?m1)" by (simp add: encode_cxp_channel_stat_def p finish_tx_hdr)
    show "decode_cxp_channel_stat (encode_tx_hdr ?m1 @ body) (of_nat (32 + length body)) m0 = Some (0, ?m')"
      unfolding decode_cxp_channel_stat_def decode_encode_at_end[OF len] using i by (simp add: at_end_def)
    show "cxp_view ?m' = cxp_view m"
      using assms that by (simp add: cxp_view_def cxp_wf_def cxp_fits_def with_hdr_def min_def)
  qed
qed

lemma cxp_drop_resp_sent:
  assumes "cxp_wf m" "cxp_wf m0" "cxp_fits m" "um_req m = UMSG_CXP_CMD_DROP_CHANNEL_RESP"
  shows "tx_sent encode_cxp_channel_drop_resp decode_cxp_channel_drop_resp cxp_view m m0"
proof -
  define body where "body = le_bytes 2 (um_chan_cxp_uuid_len m) @ take (unat (um_chan_cxp_uuid_len m)) (um_chan_cxp_uuid m)"
  let ?m1 = "m\<lparr>um_len := of_nat (32 + length body)\<rparr>"
  let ?m' = "(with_hdr ?m1 m0)\<lparr>um_chan_cxp_uuid_len := um_chan_cxp_uuid_len m,
    um_chan_cxp_uuid := store_str (um_chan_cxp_uuid m0) (take (unat (um_chan_cxp_uuid_len m)) (um_chan_cxp_uuid m))\<rparr>"
  have len: "length body < 2 ^ 31" using assms(1,3) by (simp add: body_def cxp_wf_def cxp_fits_def NID_MAX_UUID_def)
  have i: "chan_cxp_uuid_item (at_end body (with_hdr ?m1 m0)) = Some (at_end [] ?m')"
    using assms unfolding body_def by (simp add: item_put cxp_item_defs cxp_wf_def cxp_fits_def with_hdr_def)
  have e: "encode_cxp_channel_drop_resp m = Some (0, encode_tx_hdr ?m1 @ body, ?m1)"
    using assms(1,3) by (simp add: encode_cxp_channel_drop_resp_def put_str16_Some cxp_wf_def cxp_fits_def body_def finish_tx_hdr)
  have d: "decode_cxp_channel_drop_resp (encode_tx_hdr ?m1 @ body) (of_nat (32 + length body)) m0 = Some (0, ?m')"
    unfolding decode_cxp_channel_drop_resp_def decode_encode_at_end[OF len] using i by (simp add: at_end_def)
  have v: "cxp_view ?m' = cxp_view m"
    using assms by (simp add: cxp_view_def cxp_wf_def cxp_fits_def with_hdr_def min_def)
  show ?thesis by (rule tx_sentI, rule e, rule len, rule d) (simp add: same_hdr_def with_hdr_def, rule v)
qed

lemma cxp_stat_resp_sent:
  assumes "cxp_wf m" "cxp_wf m0" "cxp_fits m" "um_req m = UMSG_CXP_CMD_STAT_CHANNEL" "um_req_code m = UMSG_CXP_CODE_STAT_RESP"
  shows "tx_sent encode_cxp_channel_stat_resp decode_cxp_channel_stat_resp cxp_view m m0"
proof -
  define nums where "nums = le_bytes 8 (send_seq m) @ le_bytes 8 (ack_seq m) @ le_bytes 8 (recv_seq m) @ le_bytes 4 (cmsg_left m)"
  define body where "body = le_bytes 2 (um_chan_uuid_len m) @ take (unat (um_chan_uuid_len m)) (um_chan_uuid m) @ nums"
  let ?m1 = "m\<lparr>um_len := of_nat (32 + length body)\<rparr>"
  define m2 where "m2 = (with_hdr ?m1 m0)\<lparr>um_chan_uuid_len := um_chan_uuid_len m,
    um_chan_uuid := store_str (um_chan_uuid m0) (take (unat (um_chan_uuid_len m)) (um_chan_uuid m))\<rparr>"
  let ?m' = "m2\<lparr>send_seq := send_seq m, ack_seq := ack_seq m, recv_seq := recv_seq m, cmsg_left := cmsg_left m\<rparr>"
  have len: "length body < 2 ^ 31"
    using assms(1,3) by (simp add: body_def nums_def cxp_wf_def cxp_fits_def NID_MAX_UUID_def)
  have i: "chan_uuid_item (at_end body (with_hdr ?m1 m0)) = Some (at_end nums m2)"
    using assms unfolding body_def m2_def by (simp add: item_put cxp_item_defs cxp_wf_def cxp_fits_def with_hdr_def)
  have n: "Option.bind (le_item 8 (\<lambda>w m. m\<lparr>send_seq := w\<rparr>) (at_end nums m2)) (\<lambda>c.
      Option.bind (le_item 8 (\<lambda>w m. m\<lparr>ack_seq := w\<rparr>) c) (\<lambda>c.
      Option.bind (le_item 8 (\<lambda>w m. m\<lparr>recv_seq := w\<rparr>) c) (\<lambda>c.
      Option.bind (le_item 4 (\<lambda>w m. m\<lparr>cmsg_left := w\<rparr>) c) (\<lambda>(p, len, m). Some (0, m))))) = Some (0, ?m')"
    unfolding nums_def by (simp add: le_item_put le_item_put0) (simp add: at_end_def)
  have e: "encode_cxp_channel_stat_resp m = Some (0, encode_tx_hdr ?m1 @ body, ?m1)"
    using assms(1,3)
    by (simp add: encode_cxp_channel_stat_resp_def put_str16_Some cxp_wf_def cxp_fits_def body_def nums_def finish_tx_hdr)
  have d: "decode_cxp_channel_stat_resp (encode_tx_hdr ?m1 @ body) (of_nat (32 + length body)) m0 = Some (0, ?m')"
    unfolding decode_cxp_channel_stat_resp_def decode_encode_at_end[OF len] i bind.bind_lunit using n by simp
  have v: "cxp_view ?m' = cxp_view m"
    using assms by (simp add: m2_def cxp_view_def cxp_wf_def cxp_fits_def with_hdr_def min_def)
  show ?thesis by (rule tx_sentI, rule e, rule len, rule d) (simp add: m2_def same_hdr_def with_hdr_def, rule v)
qed

lemma cxp_keepalive_sent:
  assumes "um_req m = UMSG_CXP_CMD_KEEPALIVE"
  shows "tx_sent encode_cxp_channel_keepalive decode_cxp_channel_keepalive cxp_view m m0"
proof -
  let ?m1 = "m\<lparr>um_len := of_nat (32 + length ([] :: u8 list))\<rparr>"
  have e: "encode_cxp_channel_keepalive m = Some (0, encode_tx_hdr ?m1 @ [], ?m1)"
    using finish_tx_hdr[of m "[]"] by (simp add: encode_cxp_channel_keepalive_def)
  have d: "decode_tx_hdr (encode_tx_hdr ?m1 @ []) (of_nat (32 + length ([] :: u8 list))) m0 = Some (at_end [] (with_hdr ?m1 m0))"
    by (rule decode_encode_at_end) simp
  show ?thesis
    by (rule tx_sentI[where m' = "with_hdr ?m1 m0"], rule e)
      (use assms d[simplified] in \<open>simp_all add: decode_cxp_channel_keepalive_def cxp_view_def at_end_def\<close>)
qed

text \<open>C39. Every message of the control channel initiator but the request to drop a channel arrives: if
  the strings fit the arrays, the encoder of a known request returns 0 and the decoder of the bytes returns 0 with the
  header that was written, the same strings and the same numbers.\<close>

theorem cxp_roundtrip:
  assumes "cxp_wf m" "cxp_wf m0" "cxp_fits m" "um_req m0 = um_req m" "um_req_code m0 = um_req_code m"
    "um_req m \<in> {UMSG_CXP_CMD_KEEPALIVE, UMSG_CXP_CMD_DROP_CHANNEL_RESP, UMSG_CXP_CMD_START_WORK} \<or>
     um_req m = UMSG_CXP_CMD_CREATE_CHANNEL \<and> um_req_code m = UMSG_CXP_CODE_UUID \<or>
     um_req m = UMSG_CXP_CMD_STAT_CHANNEL \<and> um_req_code m \<in> {UMSG_CXP_CODE_NO, UMSG_CXP_CODE_STAT_RESP}"
  shows "tx_sent umpk_encode_cxp umpk_decode_cxp cxp_view m m0"
proof -
  have sent: "tx_sent umpk_encode_cxp umpk_decode_cxp cxp_view m m0"
    if "tx_sent enc dec cxp_view m m0" "umpk_encode_cxp m = enc m" "\<And>p len. umpk_decode_cxp p len m0 = dec p len m0"
    for enc dec
    using that(1,2) by (rule tx_sent_via) (rule that(3))
  note d = umpk_encode_cxp_def umpk_decode_cxp_def
  from assms(6) consider "um_req m = UMSG_CXP_CMD_KEEPALIVE" | "um_req m = UMSG_CXP_CMD_DROP_CHANNEL_RESP"
    | "um_req m = UMSG_CXP_CMD_START_WORK"
    | "um_req m = UMSG_CXP_CMD_CREATE_CHANNEL" "um_req_code m = UMSG_CXP_CODE_UUID"
    | "um_req m = UMSG_CXP_CMD_STAT_CHANNEL" "um_req_code m = UMSG_CXP_CODE_NO"
    | "um_req m = UMSG_CXP_CMD_STAT_CHANNEL" "um_req_code m = UMSG_CXP_CODE_STAT_RESP" by blast
  then show ?thesis
  proof cases
    case 1
    then show ?thesis using sent[OF cxp_keepalive_sent[OF 1, of m0]] assms(4,5) by (simp add: d)
  next
    case 2
    then show ?thesis using sent[OF cxp_drop_resp_sent[OF assms(1-3) 2]] assms(4,5) by (simp add: d)
  next
    case 3
    then show ?thesis using sent[OF cxp_uuid_sent(1)[OF assms(1-3) 3]] assms(4,5) by (simp add: d)
  next
    case 4
    then show ?thesis using sent[OF cxp_create_sent[OF assms(1-3) 4(1)]] assms(4,5) by (simp add: d)
  next
    case 5
    then show ?thesis using sent[OF cxp_uuid_sent(2)[OF assms(1-3) 5]] assms(4,5) by (simp add: d)
  next
    case 6
    then show ?thesis using sent[OF cxp_stat_resp_sent[OF assms(1-3) 6]] assms(4,5) by (simp add: d)
  qed
qed

definition cxp_blank :: "u8 \<Rightarrow> u8 \<Rightarrow> umessage_cxp" where
  "cxp_blank req code = \<lparr>um_req = req, um_req_code = code, um_level = 0, um_type = 0, um_len = 0, um_dlen = 0, um_seq = 7,
     um_dseq = 0, um_dummy = 0, um_chan_uuid_len = 36, um_chan_uuid = replicate NID_MAX_UUID 65,
     um_chan_cxa_uuid_len = 36, um_chan_cxa_uuid = replicate NID_MAX_UUID 66,
     um_chan_cxp_uuid_len = 36, um_chan_cxp_uuid = replicate NID_MAX_UUID 67, send_seq = 1, ack_seq = 2, recv_seq = 3,
     cmsg_left = 4\<rparr>"

lemma cxp_blank_wf: "cxp_wf (cxp_blank req code)" "cxp_fits (cxp_blank req code)"
  by (simp_all add: cxp_blank_def cxp_wf_def cxp_fits_def NID_MAX_UUID_def)

theorem cxp_roundtrip_witness:
  "tx_sent umpk_encode_cxp umpk_decode_cxp cxp_view (cxp_blank 4 1) (cxp_blank 4 1)"
proof -
  have "um_req (cxp_blank 4 1) = UMSG_CXP_CMD_STAT_CHANNEL" "um_req_code (cxp_blank 4 1) = UMSG_CXP_CODE_STAT_RESP"
    by (simp_all add: cxp_blank_def)
  then show ?thesis using cxp_roundtrip[OF cxp_blank_wf(1) cxp_blank_wf(1) cxp_blank_wf(2), of 4 1 4 1] by simp
qed

section \<open>The request to drop a channel\<close>

lemma le_read_tagged:
  fixes l :: u16
  assumes "unat l < 256"
  shows "unat (le_read [1, ucast l] :: u16) = 256 * unat l + 1"
proof -
  have u: "unat (ucast l :: u8) = unat l" using assms by (simp add: unsigned_ucast_eq take_bit_nat_eq_self)
  have "(le_read [1, ucast l] :: u16) = push_bit 8 (ucast (ucast l :: u8)) OR 1" by simp
  also have "\<dots> = push_bit 8 l OR 1" using assms u by (metis of_nat_unat word_unat_eq_iff ucast_id)
  also have "\<dots> = push_bit 8 l + 1" by (subst disjunctive_add) (auto simp: bit_simps)
  also have "\<dots> = of_nat (256 * unat l + 1)" by (simp add: push_bit_eq_mult)
  finally have e: "(le_read [1, ucast l] :: u16) = of_nat (256 * unat l + 1)" .
  have small: "unat (of_nat x :: u16) = x" if "x < 2 ^ 16" for x using that by (simp add: unat_of_nat)
  have "256 * unat l + 1 < 2 ^ 16" using assms by simp
  from small[OF this] show ?thesis unfolding e .
qed

text \<open>C40. The request to drop a channel does not arrive: its encoder tags the two strings, its decoder
  reads no tags and takes the first tag for a byte of the length. For a string of 4 to 255 bytes, such as a
  UUID, the length it reads exceeds the array into which it copies.\<close>

theorem cxp_drop_overflows:
  assumes "cxp_wf m" "cxp_wf m0" "cxp_fits m" "um_req m = UMSG_CXP_CMD_DROP_CHANNEL" "um_req m0 = um_req m"
    "4 \<le> unat (um_chan_cxa_uuid_len m)" "unat (um_chan_cxa_uuid_len m) < 256"
  shows "\<exists>bs m1. umpk_encode_cxp m = Some (0, bs, m1) \<and> umpk_decode_cxp bs (of_nat (length bs)) m0 = None"
proof -
  let ?l = "um_chan_cxa_uuid_len m"
  define body where "body = UMSG_CXP_ITEM_CXA_UUID # le_bytes 2 ?l @ take (unat ?l) (um_chan_cxa_uuid m) @
    UMSG_CXP_ITEM_CXP_UUID # le_bytes 2 (um_chan_cxp_uuid_len m) @ take (unat (um_chan_cxp_uuid_len m)) (um_chan_cxp_uuid m)"
  let ?m1 = "m\<lparr>um_len := of_nat (32 + length body)\<rparr>"
  have e: "umpk_encode_cxp m = Some (0, encode_tx_hdr ?m1 @ body, ?m1)"
    using assms(1,3,4)
    by (simp add: umpk_encode_cxp_def encode_cxp_channel_drop_def put_str16_Some cxp_wf_def cxp_fits_def finish_tx_hdr body_def)
  have len: "length body < 2 ^ 31" using assms(1,3) by (simp add: body_def cxp_wf_def cxp_fits_def NID_MAX_UUID_def)
  have "take 2 body = [1, ucast ?l]" by (simp add: body_def le_bytes_def numeral_2_eq_2)
  then have "unat (le_read (take 2 body) :: u16) \<ge> NID_MAX_UUID"
    using le_read_tagged[OF assms(7)] assms(6) by (simp add: NID_MAX_UUID_def del: le_read.simps)
  then have "get_str16 (um_chan_cxa_uuid (with_hdr ?m1 m0)) body (of_nat (length body)) = None"
    using assms(2) by (simp add: get_str16_def Let_def cxp_wf_def with_hdr_def c_assert_def)
  then have "chan_cxa_uuid_item (at_end body (with_hdr ?m1 m0)) = None"
    by (simp add: chan_cxa_uuid_item_def str16_item_def at_end_def)
  then have "decode_cxp_channel_drop (encode_tx_hdr ?m1 @ body) (of_nat (32 + length body)) m0 = None"
    unfolding decode_cxp_channel_drop_def decode_encode_at_end[OF len] by simp
  then have "umpk_decode_cxp (encode_tx_hdr ?m1 @ body) (of_nat (length (encode_tx_hdr ?m1 @ body))) m0 = None"
    using assms(4,5) by (simp add: umpk_decode_cxp_def)
  with e show ?thesis by blast
qed

theorem cxp_drop_overflows_witness:
  "\<exists>bs m1. umpk_encode_cxp (cxp_blank 3 0) = Some (0, bs, m1) \<and> umpk_decode_cxp bs (of_nat (length bs)) (cxp_blank 3 0) = None"
proof -
  have "um_req (cxp_blank 3 0) = UMSG_CXP_CMD_DROP_CHANNEL" "unat (um_chan_cxa_uuid_len (cxp_blank 3 0)) = 36"
    by (simp_all add: cxp_blank_def)
  then show ?thesis using cxp_drop_overflows[OF cxp_blank_wf(1) cxp_blank_wf(1) cxp_blank_wf(2), of 3 0 3 0] by simp
qed

end
