(* ===== verification/Umpk_Dxa.thy ===== *)
theory Umpk_Dxa
  imports Umpk_Tx
begin

text \<open>
  The codec of the messages of the data channel acceptor, \<open>umpk/umpk_dxa.c\<close>, modelled like that of the
  control channel acceptor. Here the requests to create and to drop a channel carry untagged fields, on both sides.
\<close>

section \<open>Messages\<close>

abbreviation UMSG_DXA_CMD_CREATE_CHANNEL :: u8 where "UMSG_DXA_CMD_CREATE_CHANNEL \<equiv> 1"
abbreviation UMSG_DXA_CMD_KEEPALIVE :: u8 where "UMSG_DXA_CMD_KEEPALIVE \<equiv> 2"
abbreviation UMSG_DXA_CMD_DROP_CHANNEL :: u8 where "UMSG_DXA_CMD_DROP_CHANNEL \<equiv> 3"
abbreviation UMSG_DXA_CMD_DISPLAY :: u8 where "UMSG_DXA_CMD_DISPLAY \<equiv> 4"
abbreviation UMSG_DXA_CMD_HELLO :: u8 where "UMSG_DXA_CMD_HELLO \<equiv> 5"
abbreviation UMSG_DXA_CODE_DPORT :: u8 where "UMSG_DXA_CODE_DPORT \<equiv> 1"
abbreviation UMSG_DXA_ITEM_DXA_UUID :: u8 where "UMSG_DXA_ITEM_DXA_UUID \<equiv> 1"
abbreviation UMSG_DXA_ITEM_PEER_UUID :: u8 where "UMSG_DXA_ITEM_PEER_UUID \<equiv> 5"
abbreviation UMSG_DXA_ITEM_IP :: u8 where "UMSG_DXA_ITEM_IP \<equiv> 6"
abbreviation UMSG_DXA_ITEM_DXT_NAME :: u8 where "UMSG_DXA_ITEM_DXT_NAME \<equiv> 7"

definition dxa_code_disp :: "u8 \<Rightarrow> bool" where
  "dxa_code_disp c \<longleftrightarrow> c \<in> {1, 3, 5, 7}"

definition dxa_code_resp :: "u8 \<Rightarrow> bool" where
  "dxa_code_resp c \<longleftrightarrow> c \<in> {2, 4, 6, 8, 9}"

record umessage_dxa = umessage_tx_hdr +
  um_chan_uuid_len :: u16
  um_chan_uuid :: "u8 list"
  um_dport :: u16
  um_chan_dxa_uuid_len :: u16
  um_chan_dxa_uuid :: "u8 list"
  um_chan_dxp_uuid_len :: u16
  um_chan_dxp_uuid :: "u8 list"
  um_peer_uuid_len :: u16
  um_peer_uuid :: "u8 list"
  um_ip_len :: u8
  um_ip :: "u8 list"
  um_dxt_name_len :: u16
  um_dxt_name :: "u8 list"

section \<open>Encoding\<close>

definition encode_dxa_create_channel_dport :: "umessage_dxa \<Rightarrow> (int \<times> u8 list \<times> umessage_dxa) option" where
  "encode_dxa_create_channel_dport m =
     do {
       s \<leftarrow> put_str16 (um_chan_uuid_len m) (um_chan_uuid m);
       Some (finish_tx (encode_tx_hdr m @ s @ le_bytes 2 (um_dport m)) m)
     }"

definition encode_dxa_channel_keepalive :: "umessage_dxa \<Rightarrow> (int \<times> u8 list \<times> umessage_dxa) option" where
  "encode_dxa_channel_keepalive m = Some (finish_tx (encode_tx_hdr m) m)"

definition encode_dxa_channel_drop :: "umessage_dxa \<Rightarrow> (int \<times> u8 list \<times> umessage_dxa) option" where
  "encode_dxa_channel_drop m =
     do {
       s1 \<leftarrow> put_str16 (um_chan_dxa_uuid_len m) (um_chan_dxa_uuid m);
       s2 \<leftarrow> put_str16 (um_chan_dxp_uuid_len m) (um_chan_dxp_uuid m);
       Some (finish_tx (encode_tx_hdr m @ s1 @ s2) m)
     }"

definition encode_dxa_display :: "umessage_dxa \<Rightarrow> (int \<times> u8 list \<times> umessage_dxa) option" where
  "encode_dxa_display m =
     do {
       s1 \<leftarrow> put_str16 (um_chan_dxa_uuid_len m) (um_chan_dxa_uuid m);
       Some (finish_tx (encode_tx_hdr m @ UMSG_DXA_ITEM_DXA_UUID # s1) m)
     }"

definition encode_dxa_display_resp :: "umessage_dxa \<Rightarrow> (int \<times> u8 list \<times> umessage_dxa) option" where
  "encode_dxa_display_resp m =
     do {
       s1 \<leftarrow> put_str16 (um_chan_dxa_uuid_len m) (um_chan_dxa_uuid m);
       s2 \<leftarrow> put_str16 (um_peer_uuid_len m) (um_peer_uuid m);
       s3 \<leftarrow> put_str8 (um_ip_len m) (um_ip m);
       s4 \<leftarrow> put_str16 (um_dxt_name_len m) (um_dxt_name m);
       Some (finish_tx (encode_tx_hdr m @ UMSG_DXA_ITEM_DXA_UUID # s1 @ UMSG_DXA_ITEM_PEER_UUID # s2 @
         UMSG_DXA_ITEM_IP # s3 @ UMSG_DXA_ITEM_DXT_NAME # s4) m)
     }"

definition encode_dxa_hello :: "umessage_dxa \<Rightarrow> (int \<times> u8 list \<times> umessage_dxa) option" where
  "encode_dxa_hello m = Some (finish_tx (encode_tx_hdr m) m)"

definition umpk_encode_dxa :: "umessage_dxa \<Rightarrow> (int \<times> u8 list \<times> umessage_dxa) option" where
  "umpk_encode_dxa m =
     (if um_req m = UMSG_DXA_CMD_CREATE_CHANNEL then
        (if um_req_code m = UMSG_DXA_CODE_DPORT then encode_dxa_create_channel_dport m else Some (- 1, [], m))
      else if um_req m = UMSG_DXA_CMD_KEEPALIVE then encode_dxa_channel_keepalive m
      else if um_req m = UMSG_DXA_CMD_DROP_CHANNEL then encode_dxa_channel_drop m
      else if um_req m = UMSG_DXA_CMD_DISPLAY then
        (if dxa_code_disp (um_req_code m) then encode_dxa_display m
         else if dxa_code_resp (um_req_code m) then encode_dxa_display_resp m
         else Some (- 1, [], m))
      else if um_req m = UMSG_DXA_CMD_HELLO then encode_dxa_hello m
      else Some (- 1, [], m))"

section \<open>Decoding\<close>

definition dxa_chan_uuid_item :: "umessage_dxa tlv \<Rightarrow> umessage_dxa tlv option" where
  "dxa_chan_uuid_item = str16_item um_chan_uuid (\<lambda>l a m. m\<lparr>um_chan_uuid_len := l, um_chan_uuid := a\<rparr>)"

definition dxa_uuid_item :: "umessage_dxa tlv \<Rightarrow> umessage_dxa tlv option" where
  "dxa_uuid_item = str16_item um_chan_dxa_uuid (\<lambda>l a m. m\<lparr>um_chan_dxa_uuid_len := l, um_chan_dxa_uuid := a\<rparr>)"

definition dxp_uuid_item :: "umessage_dxa tlv \<Rightarrow> umessage_dxa tlv option" where
  "dxp_uuid_item = str16_item um_chan_dxp_uuid (\<lambda>l a m. m\<lparr>um_chan_dxp_uuid_len := l, um_chan_dxp_uuid := a\<rparr>)"

definition dxa_peer_uuid_item :: "umessage_dxa tlv \<Rightarrow> umessage_dxa tlv option" where
  "dxa_peer_uuid_item = str16_item um_peer_uuid (\<lambda>l a m. m\<lparr>um_peer_uuid_len := l, um_peer_uuid := a\<rparr>)"

definition dxa_ip_item :: "umessage_dxa tlv \<Rightarrow> umessage_dxa tlv option" where
  "dxa_ip_item = str8_item um_ip (\<lambda>l a m. m\<lparr>um_ip_len := l, um_ip := a\<rparr>)"

definition dxt_name_item :: "umessage_dxa tlv \<Rightarrow> umessage_dxa tlv option" where
  "dxt_name_item = str16_item um_dxt_name (\<lambda>l a m. m\<lparr>um_dxt_name_len := l, um_dxt_name := a\<rparr>)"

definition decode_dxa_create_channel_dport :: "u8 list \<Rightarrow> u32 \<Rightarrow> umessage_dxa \<Rightarrow> (int \<times> umessage_dxa) option" where
  "decode_dxa_create_channel_dport p len m =
     do {
       c \<leftarrow> decode_tx_hdr p len m;
       c \<leftarrow> dxa_chan_uuid_item c;
       (p, len, m) \<leftarrow> le_item 2 (\<lambda>w m. m\<lparr>um_dport := w\<rparr>) c;
       Some (0, m)
     }"

definition decode_dxa_channel_keepalive :: "u8 list \<Rightarrow> u32 \<Rightarrow> umessage_dxa \<Rightarrow> (int \<times> umessage_dxa) option" where
  "decode_dxa_channel_keepalive p len m = do { (p, len, m) \<leftarrow> decode_tx_hdr p len m; Some (0, m) }"

definition decode_dxa_channel_drop :: "u8 list \<Rightarrow> u32 \<Rightarrow> umessage_dxa \<Rightarrow> (int \<times> umessage_dxa) option" where
  "decode_dxa_channel_drop p len m =
     do {
       c \<leftarrow> decode_tx_hdr p len m;
       c \<leftarrow> dxa_uuid_item c;
       (p, len, m) \<leftarrow> dxp_uuid_item c;
       Some (0, m)
     }"

definition dxa_display_items :: "u8 \<Rightarrow> (umessage_dxa tlv \<Rightarrow> umessage_dxa tlv option) option" where
  "dxa_display_items item = (if item = UMSG_DXA_ITEM_DXA_UUID then Some dxa_uuid_item else None)"

definition decode_dxa_display :: "u8 list \<Rightarrow> u32 \<Rightarrow> umessage_dxa \<Rightarrow> (int \<times> umessage_dxa) option" where
  "decode_dxa_display p len m = do { c \<leftarrow> decode_tx_hdr p len m; tlv_loop dxa_display_items c }"

definition dxa_display_resp_items :: "u8 \<Rightarrow> (umessage_dxa tlv \<Rightarrow> umessage_dxa tlv option) option" where
  "dxa_display_resp_items item =
     (if item = UMSG_DXA_ITEM_DXA_UUID then Some dxa_uuid_item
      else if item = UMSG_DXA_ITEM_PEER_UUID then Some dxa_peer_uuid_item
      else if item = UMSG_DXA_ITEM_IP then Some dxa_ip_item
      else if item = UMSG_DXA_ITEM_DXT_NAME then Some dxt_name_item
      else None)"

definition decode_dxa_display_resp :: "u8 list \<Rightarrow> u32 \<Rightarrow> umessage_dxa \<Rightarrow> (int \<times> umessage_dxa) option" where
  "decode_dxa_display_resp p len m = do { c \<leftarrow> decode_tx_hdr p len m; tlv_loop dxa_display_resp_items c }"

definition decode_dxa_hello :: "u8 list \<Rightarrow> u32 \<Rightarrow> umessage_dxa \<Rightarrow> (int \<times> umessage_dxa) option" where
  "decode_dxa_hello p len m = do { c \<leftarrow> decode_tx_hdr p len m; tlv_loop (\<lambda>_. None) c }"

definition umpk_decode_dxa :: "u8 list \<Rightarrow> u32 \<Rightarrow> umessage_dxa \<Rightarrow> (int \<times> umessage_dxa) option" where
  "umpk_decode_dxa p len m =
     do {
       c_assert (len \<noteq> 0);
       if um_req m = UMSG_DXA_CMD_CREATE_CHANNEL then
         (if um_req_code m = UMSG_DXA_CODE_DPORT then decode_dxa_create_channel_dport p len m else Some (- 1, m))
       else if um_req m = UMSG_DXA_CMD_KEEPALIVE then decode_dxa_channel_keepalive p len m
       else if um_req m = UMSG_DXA_CMD_DROP_CHANNEL then decode_dxa_channel_drop p len m
       else if um_req m = UMSG_DXA_CMD_DISPLAY then
         (if dxa_code_disp (um_req_code m) then decode_dxa_display p len m
          else if dxa_code_resp (um_req_code m) then decode_dxa_display_resp p len m
          else Some (- 1, m))
       else if um_req m = UMSG_DXA_CMD_HELLO then decode_dxa_hello p len m
       else Some (- 1, m)
     }"

section \<open>Round trip\<close>

definition dxa_wf :: "umessage_dxa \<Rightarrow> bool" where
  "dxa_wf m \<longleftrightarrow> length (um_chan_uuid m) = NID_MAX_UUID \<and> length (um_chan_dxa_uuid m) = NID_MAX_UUID \<and>
     length (um_chan_dxp_uuid m) = NID_MAX_UUID \<and> length (um_peer_uuid m) = NID_MAX_UUID \<and> length (um_ip m) = NID_MAX_IP \<and>
     length (um_dxt_name m) = NID_MAX_UUID"

definition dxa_fits :: "umessage_dxa \<Rightarrow> bool" where
  "dxa_fits m \<longleftrightarrow> unat (um_chan_uuid_len m) < NID_MAX_UUID \<and> unat (um_chan_dxa_uuid_len m) < NID_MAX_UUID \<and>
     unat (um_chan_dxp_uuid_len m) < NID_MAX_UUID \<and> unat (um_peer_uuid_len m) < NID_MAX_UUID \<and>
     unat (um_ip_len m) < NID_MAX_IP \<and> unat (um_dxt_name_len m) < NID_MAX_UUID"

definition dxa_view :: "umessage_dxa \<Rightarrow> u8 list list \<times> u16 list" where
  "dxa_view m =
     (let uuid = take (unat (um_chan_uuid_len m)) (um_chan_uuid m);
          dxa = take (unat (um_chan_dxa_uuid_len m)) (um_chan_dxa_uuid m);
          dxp = take (unat (um_chan_dxp_uuid_len m)) (um_chan_dxp_uuid m);
          peer = take (unat (um_peer_uuid_len m)) (um_peer_uuid m);
          ip = take (unat (um_ip_len m)) (um_ip m);
          name = take (unat (um_dxt_name_len m)) (um_dxt_name m)
      in if um_req m = UMSG_DXA_CMD_CREATE_CHANNEL then ([uuid], [um_dport m])
         else if um_req m = UMSG_DXA_CMD_DROP_CHANNEL then ([dxa, dxp], [])
         else if um_req m = UMSG_DXA_CMD_DISPLAY \<and> dxa_code_disp (um_req_code m) then ([dxa], [])
         else if um_req m = UMSG_DXA_CMD_DISPLAY \<and> dxa_code_resp (um_req_code m) then ([dxa, peer, ip, name], [])
         else ([], []))"

lemmas dxa_item_defs = dxa_chan_uuid_item_def dxa_uuid_item_def dxp_uuid_item_def dxa_peer_uuid_item_def dxa_ip_item_def
  dxt_name_item_def
lemmas dxa_size_defs = dxa_wf_def dxa_fits_def NID_MAX_UUID_def NID_MAX_IP_def

lemma dxa_codes: "dxa_code_disp c \<Longrightarrow> \<not> dxa_code_resp c"
  by (auto simp: dxa_code_disp_def dxa_code_resp_def)

lemma dxa_create_sent:
  assumes "dxa_wf m" "dxa_wf m0" "dxa_fits m" "um_req m = UMSG_DXA_CMD_CREATE_CHANNEL"
  shows "tx_sent encode_dxa_create_channel_dport decode_dxa_create_channel_dport dxa_view m m0"
proof -
  define body where "body = le_bytes 2 (um_chan_uuid_len m) @ take (unat (um_chan_uuid_len m)) (um_chan_uuid m) @ le_bytes 2 (um_dport m)"
  let ?m1 = "m\<lparr>um_len := of_nat (32 + length body)\<rparr>"
  define m2 where "m2 = (with_hdr ?m1 m0)\<lparr>um_chan_uuid_len := um_chan_uuid_len m,
    um_chan_uuid := store_str (um_chan_uuid m0) (take (unat (um_chan_uuid_len m)) (um_chan_uuid m))\<rparr>"
  let ?m' = "m2\<lparr>um_dport := um_dport m\<rparr>"
  have len: "length body < 2 ^ 31" using assms(1,3) by (simp add: body_def dxa_size_defs)
  have i: "dxa_chan_uuid_item (at_end body (with_hdr ?m1 m0)) = Some (at_end (le_bytes 2 (um_dport m)) m2)"
    using assms unfolding body_def m2_def by (simp add: item_put dxa_item_defs dxa_wf_def dxa_fits_def with_hdr_def)
  have e: "encode_dxa_create_channel_dport m = Some (0, encode_tx_hdr ?m1 @ body, ?m1)"
    using assms(1,3) by (simp add: encode_dxa_create_channel_dport_def put_str16_Some dxa_wf_def dxa_fits_def body_def finish_tx_hdr)
  have d: "decode_dxa_create_channel_dport (encode_tx_hdr ?m1 @ body) (of_nat (32 + length body)) m0 = Some (0, ?m')"
    unfolding decode_dxa_create_channel_dport_def decode_encode_at_end[OF len] i bind.bind_lunit
    by (simp add: le_item_put0) (simp add: at_end_def)
  have v: "dxa_view ?m' = dxa_view m"
    using assms by (simp add: m2_def dxa_view_def dxa_wf_def dxa_fits_def with_hdr_def min_def)
  show ?thesis by (rule tx_sentI, rule e, rule len, rule d) (simp add: m2_def same_hdr_def with_hdr_def, rule v)
qed

lemma dxa_drop_sent:
  assumes "dxa_wf m" "dxa_wf m0" "dxa_fits m" "um_req m = UMSG_DXA_CMD_DROP_CHANNEL"
  shows "tx_sent encode_dxa_channel_drop decode_dxa_channel_drop dxa_view m m0"
proof -
  define rest where "rest = le_bytes 2 (um_chan_dxp_uuid_len m) @ take (unat (um_chan_dxp_uuid_len m)) (um_chan_dxp_uuid m)"
  define body where "body = le_bytes 2 (um_chan_dxa_uuid_len m) @ take (unat (um_chan_dxa_uuid_len m)) (um_chan_dxa_uuid m) @ rest"
  let ?m1 = "m\<lparr>um_len := of_nat (32 + length body)\<rparr>"
  define m2 where "m2 = (with_hdr ?m1 m0)\<lparr>um_chan_dxa_uuid_len := um_chan_dxa_uuid_len m,
    um_chan_dxa_uuid := store_str (um_chan_dxa_uuid m0) (take (unat (um_chan_dxa_uuid_len m)) (um_chan_dxa_uuid m))\<rparr>"
  let ?m' = "m2\<lparr>um_chan_dxp_uuid_len := um_chan_dxp_uuid_len m,
    um_chan_dxp_uuid := store_str (um_chan_dxp_uuid m0) (take (unat (um_chan_dxp_uuid_len m)) (um_chan_dxp_uuid m))\<rparr>"
  have len: "length body < 2 ^ 31" using assms(1,3) by (simp add: body_def rest_def dxa_size_defs)
  have i: "dxa_uuid_item (at_end body (with_hdr ?m1 m0)) = Some (at_end rest m2)"
    using assms unfolding body_def m2_def by (simp add: item_put dxa_item_defs dxa_wf_def dxa_fits_def with_hdr_def)
  have j: "dxp_uuid_item (at_end rest m2) = Some (at_end [] ?m')"
    using assms unfolding rest_def by (simp add: m2_def item_put dxa_item_defs dxa_wf_def dxa_fits_def with_hdr_def)
  have e: "encode_dxa_channel_drop m = Some (0, encode_tx_hdr ?m1 @ body, ?m1)"
    using assms(1,3) by (simp add: encode_dxa_channel_drop_def put_str16_Some dxa_wf_def dxa_fits_def body_def rest_def finish_tx_hdr)
  have d: "decode_dxa_channel_drop (encode_tx_hdr ?m1 @ body) (of_nat (32 + length body)) m0 = Some (0, ?m')"
    unfolding decode_dxa_channel_drop_def decode_encode_at_end[OF len] i j bind.bind_lunit by (simp add: at_end_def)
  have v: "dxa_view ?m' = dxa_view m"
    using assms by (simp add: m2_def dxa_view_def dxa_wf_def dxa_fits_def with_hdr_def min_def)
  show ?thesis by (rule tx_sentI, rule e, rule len, rule d) (simp add: m2_def same_hdr_def with_hdr_def, rule v)
qed

lemma dxa_display_sent:
  assumes "dxa_wf m" "dxa_wf m0" "dxa_fits m" "um_req m = UMSG_DXA_CMD_DISPLAY" "dxa_code_disp (um_req_code m)"
  shows "tx_sent encode_dxa_display decode_dxa_display dxa_view m m0"
proof -
  define body where "body = UMSG_DXA_ITEM_DXA_UUID # le_bytes 2 (um_chan_dxa_uuid_len m) @
    take (unat (um_chan_dxa_uuid_len m)) (um_chan_dxa_uuid m)"
  let ?m1 = "m\<lparr>um_len := of_nat (32 + length body)\<rparr>"
  let ?m' = "(with_hdr ?m1 m0)\<lparr>um_chan_dxa_uuid_len := um_chan_dxa_uuid_len m,
    um_chan_dxa_uuid := store_str (um_chan_dxa_uuid m0) (take (unat (um_chan_dxa_uuid_len m)) (um_chan_dxa_uuid m))\<rparr>"
  have e: "encode_dxa_display m = Some (0, encode_tx_hdr ?m1 @ body, ?m1)"
    using assms(1,3) by (simp add: encode_dxa_display_def put_str16_Some dxa_wf_def dxa_fits_def finish_tx_hdr body_def)
  have len: "length body < 2 ^ 31" using assms(1,3) by (simp add: body_def dxa_size_defs)
  have "tlv_loop dxa_display_items (at_end body (with_hdr ?m1 m0)) = Some (0, ?m')"
    using assms(1,2,3) unfolding body_def
    by (simp add: tlv_str dxa_display_items_def dxa_item_defs dxa_size_defs with_hdr_def)
  then have d: "decode_dxa_display (encode_tx_hdr ?m1 @ body) (of_nat (32 + length body)) m0 = Some (0, ?m')"
    unfolding decode_dxa_display_def decode_encode_at_end[OF len] by simp
  have v: "dxa_view ?m' = dxa_view m"
    using assms by (simp add: dxa_view_def dxa_wf_def dxa_fits_def with_hdr_def min_def)
  show ?thesis by (rule tx_sentI, rule e, rule len, rule d) (simp add: same_hdr_def with_hdr_def, rule v)
qed

lemma dxa_display_resp_sent:
  assumes "dxa_wf m" "dxa_wf m0" "dxa_fits m" "um_req m = UMSG_DXA_CMD_DISPLAY" "dxa_code_resp (um_req_code m)"
  shows "tx_sent encode_dxa_display_resp decode_dxa_display_resp dxa_view m m0"
proof -
  define body where "body = UMSG_DXA_ITEM_DXA_UUID # le_bytes 2 (um_chan_dxa_uuid_len m) @
    take (unat (um_chan_dxa_uuid_len m)) (um_chan_dxa_uuid m) @ UMSG_DXA_ITEM_PEER_UUID #
    le_bytes 2 (um_peer_uuid_len m) @ take (unat (um_peer_uuid_len m)) (um_peer_uuid m) @ UMSG_DXA_ITEM_IP #
    um_ip_len m # take (unat (um_ip_len m)) (um_ip m) @ UMSG_DXA_ITEM_DXT_NAME #
    le_bytes 2 (um_dxt_name_len m) @ take (unat (um_dxt_name_len m)) (um_dxt_name m)"
  let ?m1 = "m\<lparr>um_len := of_nat (32 + length body)\<rparr>"
  let ?m' = "(with_hdr ?m1 m0)\<lparr>um_chan_dxa_uuid_len := um_chan_dxa_uuid_len m,
    um_chan_dxa_uuid := store_str (um_chan_dxa_uuid m0) (take (unat (um_chan_dxa_uuid_len m)) (um_chan_dxa_uuid m)),
    um_peer_uuid_len := um_peer_uuid_len m,
    um_peer_uuid := store_str (um_peer_uuid m0) (take (unat (um_peer_uuid_len m)) (um_peer_uuid m)),
    um_ip_len := um_ip_len m, um_ip := store_str (um_ip m0) (take (unat (um_ip_len m)) (um_ip m)),
    um_dxt_name_len := um_dxt_name_len m,
    um_dxt_name := store_str (um_dxt_name m0) (take (unat (um_dxt_name_len m)) (um_dxt_name m))\<rparr>"
  have e: "encode_dxa_display_resp m = Some (0, encode_tx_hdr ?m1 @ body, ?m1)"
    using assms(1,3)
    by (simp add: encode_dxa_display_resp_def put_str16_Some put_str8_Some dxa_wf_def dxa_fits_def finish_tx_hdr body_def)
  have len: "length body < 2 ^ 31" using assms(1,3) by (simp add: body_def dxa_size_defs)
  have "tlv_loop dxa_display_resp_items (at_end body (with_hdr ?m1 m0)) = Some (0, ?m')"
    using assms(1,2,3) unfolding body_def
    by (simp add: tlv_str dxa_display_resp_items_def dxa_item_defs dxa_size_defs with_hdr_def)
  then have d: "decode_dxa_display_resp (encode_tx_hdr ?m1 @ body) (of_nat (32 + length body)) m0 = Some (0, ?m')"
    unfolding decode_dxa_display_resp_def decode_encode_at_end[OF len] by simp
  have "\<not> dxa_code_disp (um_req_code m)" using assms(5) dxa_codes by blast
  then have v: "dxa_view ?m' = dxa_view m"
    using assms by (simp add: dxa_view_def dxa_wf_def dxa_fits_def with_hdr_def min_def)
  show ?thesis by (rule tx_sentI, rule e, rule len, rule d) (simp add: same_hdr_def with_hdr_def, rule v)
qed

lemma dxa_bare_sent:
  assumes "um_req m \<in> {UMSG_DXA_CMD_KEEPALIVE, UMSG_DXA_CMD_HELLO}"
  shows "tx_sent encode_dxa_channel_keepalive decode_dxa_channel_keepalive dxa_view m m0"
    "tx_sent encode_dxa_hello decode_dxa_hello dxa_view m m0"
proof -
  let ?m1 = "m\<lparr>um_len := of_nat (32 + length ([] :: u8 list))\<rparr>"
  have d: "decode_tx_hdr (encode_tx_hdr ?m1 @ []) (of_nat (32 + length ([] :: u8 list))) m0 = Some (at_end [] (with_hdr ?m1 m0))"
    by (rule decode_encode_at_end) simp
  have f: "finish_tx (encode_tx_hdr m) m = (0, encode_tx_hdr ?m1 @ [], ?m1)" using finish_tx_hdr[of m "[]"] by simp
  have v: "dxa_view (with_hdr ?m1 m0) = dxa_view m" using assms by (auto simp: dxa_view_def)
  show "tx_sent encode_dxa_channel_keepalive decode_dxa_channel_keepalive dxa_view m m0"
  proof (rule tx_sentI[where m' = "with_hdr ?m1 m0"])
    show "encode_dxa_channel_keepalive m = Some (0, encode_tx_hdr ?m1 @ [], ?m1)" by (simp only: encode_dxa_channel_keepalive_def f)
    show "decode_dxa_channel_keepalive (encode_tx_hdr ?m1 @ []) (of_nat (32 + length ([] :: u8 list))) m0 = Some (0, with_hdr ?m1 m0)"
      unfolding decode_dxa_channel_keepalive_def d by (simp add: at_end_def)
  qed (simp_all only: v same_with_hdr, simp)
  show "tx_sent encode_dxa_hello decode_dxa_hello dxa_view m m0"
  proof (rule tx_sentI[where m' = "with_hdr ?m1 m0"])
    show "encode_dxa_hello m = Some (0, encode_tx_hdr ?m1 @ [], ?m1)" by (simp only: encode_dxa_hello_def f)
    show "decode_dxa_hello (encode_tx_hdr ?m1 @ []) (of_nat (32 + length ([] :: u8 list))) m0 = Some (0, with_hdr ?m1 m0)"
      unfolding decode_dxa_hello_def d by simp
  qed (simp_all only: v same_with_hdr, simp)
qed

text \<open>Every message of the data channel acceptor that can be encoded arrives, with its header, strings and
  port; an unknown request is refused by the encoder and by the decoder.\<close>

lemma dxa_roundtrip:
  assumes "dxa_wf m" "dxa_wf m0" "dxa_fits m" "um_req m0 = um_req m" "um_req_code m0 = um_req_code m"
  shows "if um_req m \<in> {UMSG_DXA_CMD_KEEPALIVE, UMSG_DXA_CMD_DROP_CHANNEL, UMSG_DXA_CMD_HELLO} \<or>
      um_req m = UMSG_DXA_CMD_CREATE_CHANNEL \<and> um_req_code m = UMSG_DXA_CODE_DPORT \<or>
      um_req m = UMSG_DXA_CMD_DISPLAY \<and> (dxa_code_disp (um_req_code m) \<or> dxa_code_resp (um_req_code m))
    then tx_sent umpk_encode_dxa umpk_decode_dxa dxa_view m m0
    else umpk_encode_dxa m = Some (- 1, [], m) \<and> (\<forall>p len. len \<noteq> 0 \<longrightarrow> umpk_decode_dxa p len m0 = Some (- 1, m0))"
proof -
  have sent: "tx_sent umpk_encode_dxa umpk_decode_dxa dxa_view m m0"
    if "tx_sent enc dec dxa_view m m0" "umpk_encode_dxa m = enc m" "\<And>p len. len \<noteq> 0 \<Longrightarrow> umpk_decode_dxa p len m0 = dec p len m0"
    for enc dec
    using that(1,2) by (rule tx_sent_via) (rule that(3), assumption?)
  note d = umpk_encode_dxa_def umpk_decode_dxa_def
  consider "um_req m = UMSG_DXA_CMD_KEEPALIVE" | "um_req m = UMSG_DXA_CMD_DROP_CHANNEL" | "um_req m = UMSG_DXA_CMD_HELLO"
    | "um_req m = UMSG_DXA_CMD_CREATE_CHANNEL" "um_req_code m = UMSG_DXA_CODE_DPORT"
    | "um_req m = UMSG_DXA_CMD_DISPLAY" "dxa_code_disp (um_req_code m)"
    | "um_req m = UMSG_DXA_CMD_DISPLAY" "\<not> dxa_code_disp (um_req_code m)" "dxa_code_resp (um_req_code m)"
    | "um_req m \<notin> {UMSG_DXA_CMD_KEEPALIVE, UMSG_DXA_CMD_DROP_CHANNEL, UMSG_DXA_CMD_HELLO}"
      "um_req m = UMSG_DXA_CMD_CREATE_CHANNEL \<longrightarrow> um_req_code m \<noteq> UMSG_DXA_CODE_DPORT"
      "um_req m = UMSG_DXA_CMD_DISPLAY \<longrightarrow> \<not> dxa_code_disp (um_req_code m) \<and> \<not> dxa_code_resp (um_req_code m)" by auto
  then show ?thesis
  proof cases
    case 1
    then show ?thesis using sent[OF dxa_bare_sent(1)[of m m0]] assms(4,5) by (simp add: d)
  next
    case 2
    then show ?thesis using sent[OF dxa_drop_sent[OF assms(1-3) 2]] assms(4,5) by (simp add: d)
  next
    case 3
    then show ?thesis using sent[OF dxa_bare_sent(2)[of m m0]] assms(4,5) by (simp add: d)
  next
    case 4
    then show ?thesis using sent[OF dxa_create_sent[OF assms(1-3) 4(1)]] assms(4,5) by (simp add: d)
  next
    case 5
    then show ?thesis using sent[OF dxa_display_sent[OF assms(1-3) 5]] assms(4,5) by (simp add: d)
  next
    case 6
    then show ?thesis using sent[OF dxa_display_resp_sent[OF assms(1-3) 6(1,3)]] assms(4,5) by (simp add: d)
  next
    case 7
    then show ?thesis using assms(4,5) by (auto simp: d)
  qed
qed

end
