(* ===== verification/Umpk_Dxp.thy ===== *)
theory Umpk_Dxp
  imports Umpk_Tx
begin

text \<open>
  The codec of the messages of the data channel initiator, \<open>umpk/umpk_dxp.c\<close>, modelled like that of the
  control channel. Its strings carry no tags, and \<open>umpk_decode_dxp\<close> takes the request from the first two bytes of
  the message, not from the caller. \<open>None\<close> also stands for the return code that \<open>umpk_encode_dxp\<close> leaves
  unset when the code of a status request is unknown.
\<close>

section \<open>Messages\<close>

abbreviation UMSG_DXP_CMD_CREATE_CHANNEL :: u8 where "UMSG_DXP_CMD_CREATE_CHANNEL \<equiv> 1"
abbreviation UMSG_DXP_CMD_KEEPALIVE :: u8 where "UMSG_DXP_CMD_KEEPALIVE \<equiv> 2"
abbreviation UMSG_DXP_CMD_DROP_CHANNEL :: u8 where "UMSG_DXP_CMD_DROP_CHANNEL \<equiv> 3"
abbreviation UMSG_DXP_CMD_STAT_CHANNEL :: u8 where "UMSG_DXP_CMD_STAT_CHANNEL \<equiv> 4"
abbreviation UMSG_DXP_CMD_START_WORK :: u8 where "UMSG_DXP_CMD_START_WORK \<equiv> 5"
abbreviation UMSG_DXP_CMD_DROP_CHANNEL_RESP :: u8 where "UMSG_DXP_CMD_DROP_CHANNEL_RESP \<equiv> 6"
abbreviation UMSG_DXP_CODE_NO :: u8 where "UMSG_DXP_CODE_NO \<equiv> 0"
abbreviation UMSG_DXP_CODE_UUID :: u8 where "UMSG_DXP_CODE_UUID \<equiv> 1"
abbreviation UMSG_DXP_CODE_STAT_RESP :: u8 where "UMSG_DXP_CODE_STAT_RESP \<equiv> 1"

record umessage_dxp = umessage_tx_hdr +
  um_chan_uuid_len :: u16
  um_chan_uuid :: "u8 list"
  um_chan_dxp_uuid_len :: u16
  um_chan_dxp_uuid :: "u8 list"
  dsend_seq :: u64
  send_seq :: u64
  ack_seq :: u64
  recv_seq :: u64
  recv_dseq :: u64
  cmsg_left :: u32

section \<open>Encoding and decoding\<close>

definition dxp_chan_uuid_item :: "umessage_dxp tlv \<Rightarrow> umessage_dxp tlv option" where
  "dxp_chan_uuid_item = str16_item um_chan_uuid (\<lambda>l a m. m\<lparr>um_chan_uuid_len := l, um_chan_uuid := a\<rparr>)"

definition dxp_chan_dxp_uuid_item :: "umessage_dxp tlv \<Rightarrow> umessage_dxp tlv option" where
  "dxp_chan_dxp_uuid_item = str16_item um_chan_dxp_uuid (\<lambda>l a m. m\<lparr>um_chan_dxp_uuid_len := l, um_chan_dxp_uuid := a\<rparr>)"

definition encode_dxp_create_channel_uuid :: "umessage_dxp \<Rightarrow> (int \<times> u8 list \<times> umessage_dxp) option" where
  "encode_dxp_create_channel_uuid m =
     do { s \<leftarrow> put_str16 (um_chan_uuid_len m) (um_chan_uuid m); Some (finish_tx (encode_tx_hdr m @ s) m) }"

definition decode_dxp_create_channel_uuid :: "u8 list \<Rightarrow> u32 \<Rightarrow> umessage_dxp \<Rightarrow> (int \<times> umessage_dxp) option" where
  "decode_dxp_create_channel_uuid p len m =
     do { c \<leftarrow> decode_tx_hdr p len m; (p, len, m) \<leftarrow> dxp_chan_uuid_item c; Some (0, m) }"

definition encode_dxp_channel_keepalive :: "umessage_dxp \<Rightarrow> (int \<times> u8 list \<times> umessage_dxp) option" where
  "encode_dxp_channel_keepalive m = Some (finish_tx (encode_tx_hdr m) m)"

definition decode_dxp_channel_keepalive :: "u8 list \<Rightarrow> u32 \<Rightarrow> umessage_dxp \<Rightarrow> (int \<times> umessage_dxp) option" where
  "decode_dxp_channel_keepalive p len m = do { (p, len, m) \<leftarrow> decode_tx_hdr p len m; Some (0, m) }"

definition encode_dxp_channel_drop :: "umessage_dxp \<Rightarrow> (int \<times> u8 list \<times> umessage_dxp) option" where
  "encode_dxp_channel_drop m =
     do { s \<leftarrow> put_str16 (um_chan_dxp_uuid_len m) (um_chan_dxp_uuid m); Some (finish_tx (encode_tx_hdr m @ s) m) }"

definition decode_dxp_channel_drop :: "u8 list \<Rightarrow> u32 \<Rightarrow> umessage_dxp \<Rightarrow> (int \<times> umessage_dxp) option" where
  "decode_dxp_channel_drop p len m =
     do { c \<leftarrow> decode_tx_hdr p len m; (p, len, m) \<leftarrow> dxp_chan_dxp_uuid_item c; Some (0, m) }"

definition encode_dxp_channel_drop_resp :: "umessage_dxp \<Rightarrow> (int \<times> u8 list \<times> umessage_dxp) option" where
  "encode_dxp_channel_drop_resp m =
     do { s \<leftarrow> put_str16 (um_chan_dxp_uuid_len m) (um_chan_dxp_uuid m); Some (finish_tx (encode_tx_hdr m @ s) m) }"

definition decode_dxp_channel_drop_resp :: "u8 list \<Rightarrow> u32 \<Rightarrow> umessage_dxp \<Rightarrow> (int \<times> umessage_dxp) option" where
  "decode_dxp_channel_drop_resp p len m =
     do { c \<leftarrow> decode_tx_hdr p len m; (p, len, m) \<leftarrow> dxp_chan_dxp_uuid_item c; Some (0, m) }"

definition encode_dxp_channel_stat :: "umessage_dxp \<Rightarrow> (int \<times> u8 list \<times> umessage_dxp) option" where
  "encode_dxp_channel_stat m =
     do { s \<leftarrow> put_str16 (um_chan_uuid_len m) (um_chan_uuid m); Some (finish_tx (encode_tx_hdr m @ s) m) }"

definition decode_dxp_channel_stat :: "u8 list \<Rightarrow> u32 \<Rightarrow> umessage_dxp \<Rightarrow> (int \<times> umessage_dxp) option" where
  "decode_dxp_channel_stat p len m =
     do { c \<leftarrow> decode_tx_hdr p len m; (p, len, m) \<leftarrow> dxp_chan_uuid_item c; Some (0, m) }"

definition encode_dxp_channel_stat_resp :: "umessage_dxp \<Rightarrow> (int \<times> u8 list \<times> umessage_dxp) option" where
  "encode_dxp_channel_stat_resp m =
     do {
       s \<leftarrow> put_str16 (um_chan_uuid_len m) (um_chan_uuid m);
       Some (finish_tx (encode_tx_hdr m @ s @ le_bytes 8 (dsend_seq m) @ le_bytes 8 (send_seq m) @ le_bytes 8 (ack_seq m) @
         le_bytes 8 (recv_seq m) @ le_bytes 8 (recv_dseq m) @ le_bytes 4 (cmsg_left m)) m)
     }"

definition decode_dxp_channel_stat_resp :: "u8 list \<Rightarrow> u32 \<Rightarrow> umessage_dxp \<Rightarrow> (int \<times> umessage_dxp) option" where
  "decode_dxp_channel_stat_resp p len m =
     do {
       c \<leftarrow> decode_tx_hdr p len m;
       c \<leftarrow> dxp_chan_uuid_item c;
       c \<leftarrow> le_item 8 (\<lambda>w m. m\<lparr>dsend_seq := w\<rparr>) c;
       c \<leftarrow> le_item 8 (\<lambda>w m. m\<lparr>send_seq := w\<rparr>) c;
       c \<leftarrow> le_item 8 (\<lambda>w m. m\<lparr>ack_seq := w\<rparr>) c;
       c \<leftarrow> le_item 8 (\<lambda>w m. m\<lparr>recv_seq := w\<rparr>) c;
       c \<leftarrow> le_item 8 (\<lambda>w m. m\<lparr>recv_dseq := w\<rparr>) c;
       (p, len, m) \<leftarrow> le_item 4 (\<lambda>w m. m\<lparr>cmsg_left := w\<rparr>) c;
       Some (0, m)
     }"

definition encode_dxp_start_work :: "umessage_dxp \<Rightarrow> (int \<times> u8 list \<times> umessage_dxp) option" where
  "encode_dxp_start_work m =
     do { s \<leftarrow> put_str16 (um_chan_uuid_len m) (um_chan_uuid m); Some (finish_tx (encode_tx_hdr m @ s) m) }"

definition decode_dxp_start_work :: "u8 list \<Rightarrow> u32 \<Rightarrow> umessage_dxp \<Rightarrow> (int \<times> umessage_dxp) option" where
  "decode_dxp_start_work p len m =
     do { c \<leftarrow> decode_tx_hdr p len m; (p, len, m) \<leftarrow> dxp_chan_uuid_item c; Some (0, m) }"

definition umpk_encode_dxp :: "umessage_dxp \<Rightarrow> (int \<times> u8 list \<times> umessage_dxp) option" where
  "umpk_encode_dxp m =
     (if um_req m = UMSG_DXP_CMD_CREATE_CHANNEL then
        (if um_req_code m = UMSG_DXP_CODE_UUID then encode_dxp_create_channel_uuid m else Some (- 1, [], m))
      else if um_req m = UMSG_DXP_CMD_KEEPALIVE then encode_dxp_channel_keepalive m
      else if um_req m = UMSG_DXP_CMD_DROP_CHANNEL then encode_dxp_channel_drop m
      else if um_req m = UMSG_DXP_CMD_DROP_CHANNEL_RESP then encode_dxp_channel_drop_resp m
      else if um_req m = UMSG_DXP_CMD_STAT_CHANNEL then
        (if um_req_code m = UMSG_DXP_CODE_NO then encode_dxp_channel_stat m
         else if um_req_code m = UMSG_DXP_CODE_STAT_RESP then encode_dxp_channel_stat_resp m
         else None)
      else if um_req m = UMSG_DXP_CMD_START_WORK then encode_dxp_start_work m
      else Some (- 1, [], m))"

definition umpk_decode_dxp :: "u8 list \<Rightarrow> u32 \<Rightarrow> umessage_dxp \<Rightarrow> (int \<times> umessage_dxp) option" where
  "umpk_decode_dxp p len m =
     do {
       c_assert (2 \<le> length p);
       let m = m\<lparr>um_req := p ! 0, um_req_code := p ! 1\<rparr>;
       (if um_req m = UMSG_DXP_CMD_CREATE_CHANNEL then
          (if um_req_code m = UMSG_DXP_CODE_UUID then decode_dxp_create_channel_uuid p len m else Some (- 1, m))
        else if um_req m = UMSG_DXP_CMD_KEEPALIVE then decode_dxp_channel_keepalive p len m
        else if um_req m = UMSG_DXP_CMD_DROP_CHANNEL then decode_dxp_channel_drop p len m
        else if um_req m = UMSG_DXP_CMD_DROP_CHANNEL_RESP then decode_dxp_channel_drop_resp p len m
        else if um_req m = UMSG_DXP_CMD_STAT_CHANNEL then
          (if um_req_code m = UMSG_DXP_CODE_NO then decode_dxp_channel_stat p len m
           else if um_req_code m = UMSG_DXP_CODE_STAT_RESP then decode_dxp_channel_stat_resp p len m
           else Some (0, m))
        else if um_req m = UMSG_DXP_CMD_START_WORK then decode_dxp_start_work p len m
        else Some (- 1, m))
     }"

section \<open>Round trip\<close>

definition dxp_wf :: "umessage_dxp \<Rightarrow> bool" where
  "dxp_wf m \<longleftrightarrow> length (um_chan_uuid m) = NID_MAX_UUID \<and> length (um_chan_dxp_uuid m) = NID_MAX_UUID"

definition dxp_fits :: "umessage_dxp \<Rightarrow> bool" where
  "dxp_fits m \<longleftrightarrow> unat (um_chan_uuid_len m) < NID_MAX_UUID \<and> unat (um_chan_dxp_uuid_len m) < NID_MAX_UUID"

text \<open>What a message carries, by its request: its string and the numbers of a status response.\<close>

definition dxp_view :: "umessage_dxp \<Rightarrow> u8 list \<times> u64 list \<times> u32 list" where
  "dxp_view m =
     (let uuid = take (unat (um_chan_uuid_len m)) (um_chan_uuid m) in
      if um_req m \<in> {UMSG_DXP_CMD_CREATE_CHANNEL, UMSG_DXP_CMD_START_WORK} then (uuid, [], [])
      else if um_req m \<in> {UMSG_DXP_CMD_DROP_CHANNEL, UMSG_DXP_CMD_DROP_CHANNEL_RESP} then
        (take (unat (um_chan_dxp_uuid_len m)) (um_chan_dxp_uuid m), [], [])
      else if um_req m = UMSG_DXP_CMD_STAT_CHANNEL then
        (if um_req_code m = UMSG_DXP_CODE_STAT_RESP
         then (uuid, [dsend_seq m, send_seq m, ack_seq m, recv_seq m, recv_dseq m], [cmsg_left m])
         else (uuid, [], []))
      else ([], [], []))"

lemmas dxp_size_defs = dxp_wf_def dxp_fits_def NID_MAX_UUID_def

lemma dxp_uuid_sent:
  assumes "dxp_wf m" "dxp_wf m0" "dxp_fits m"
    "um_req m \<in> {UMSG_DXP_CMD_CREATE_CHANNEL, UMSG_DXP_CMD_START_WORK} \<or>
     um_req m = UMSG_DXP_CMD_STAT_CHANNEL \<and> um_req_code m = UMSG_DXP_CODE_NO"
    and enc: "enc m = encode_dxp_start_work m" and dec: "\<And>p len. dec p len m0 = decode_dxp_start_work p len m0"
  shows "tx_sent enc dec dxp_view m m0"
  by (rule one_str_sent[where l = um_chan_uuid_len and arr = um_chan_uuid and N = NID_MAX_UUID and
        upd = "\<lambda>l a m. m\<lparr>um_chan_uuid_len := l, um_chan_uuid := a\<rparr>"])
    (use assms(1-4) in \<open>auto simp: enc dec encode_dxp_start_work_def decode_dxp_start_work_def dxp_chan_uuid_item_def
      dxp_wf_def dxp_fits_def with_hdr_def same_hdr_def dxp_view_def\<close>)

lemma dxp_drop_sent:
  assumes "dxp_wf m" "dxp_wf m0" "dxp_fits m" "um_req m \<in> {UMSG_DXP_CMD_DROP_CHANNEL, UMSG_DXP_CMD_DROP_CHANNEL_RESP}"
    and enc: "enc m = encode_dxp_channel_drop m" and dec: "\<And>p len. dec p len m0 = decode_dxp_channel_drop p len m0"
  shows "tx_sent enc dec dxp_view m m0"
  by (rule one_str_sent[where l = um_chan_dxp_uuid_len and arr = um_chan_dxp_uuid and N = NID_MAX_UUID and
        upd = "\<lambda>l a m. m\<lparr>um_chan_dxp_uuid_len := l, um_chan_dxp_uuid := a\<rparr>"])
    (use assms(1-4) in \<open>auto simp: enc dec encode_dxp_channel_drop_def decode_dxp_channel_drop_def dxp_chan_dxp_uuid_item_def
      dxp_wf_def dxp_fits_def with_hdr_def same_hdr_def dxp_view_def\<close>)

lemma dxp_stat_resp_sent:
  assumes "dxp_wf m" "dxp_wf m0" "dxp_fits m" "um_req m = UMSG_DXP_CMD_STAT_CHANNEL" "um_req_code m = UMSG_DXP_CODE_STAT_RESP"
  shows "tx_sent encode_dxp_channel_stat_resp decode_dxp_channel_stat_resp dxp_view m m0"
proof -
  define nums where "nums = le_bytes 8 (dsend_seq m) @ le_bytes 8 (send_seq m) @ le_bytes 8 (ack_seq m) @
    le_bytes 8 (recv_seq m) @ le_bytes 8 (recv_dseq m) @ le_bytes 4 (cmsg_left m)"
  define body where "body = le_bytes 2 (um_chan_uuid_len m) @ take (unat (um_chan_uuid_len m)) (um_chan_uuid m) @ nums"
  let ?m1 = "m\<lparr>um_len := of_nat (32 + length body)\<rparr>"
  define m2 where "m2 = (with_hdr ?m1 m0)\<lparr>um_chan_uuid_len := um_chan_uuid_len m,
    um_chan_uuid := store_str (um_chan_uuid m0) (take (unat (um_chan_uuid_len m)) (um_chan_uuid m))\<rparr>"
  let ?m' = "m2\<lparr>dsend_seq := dsend_seq m, send_seq := send_seq m, ack_seq := ack_seq m, recv_seq := recv_seq m,
    recv_dseq := recv_dseq m, cmsg_left := cmsg_left m\<rparr>"
  have len: "length body < 2 ^ 31" using assms(1,3) by (simp add: body_def nums_def dxp_size_defs)
  have i: "dxp_chan_uuid_item (at_end body (with_hdr ?m1 m0)) = Some (at_end nums m2)"
    using assms unfolding body_def m2_def by (simp add: item_put dxp_chan_uuid_item_def dxp_wf_def dxp_fits_def with_hdr_def)
  have e: "encode_dxp_channel_stat_resp m = Some (0, encode_tx_hdr ?m1 @ body, ?m1)"
    using assms(1,3)
    by (simp add: encode_dxp_channel_stat_resp_def put_str16_Some dxp_wf_def dxp_fits_def body_def nums_def finish_tx_hdr)
  have d: "decode_dxp_channel_stat_resp (encode_tx_hdr ?m1 @ body) (of_nat (32 + length body)) m0 = Some (0, ?m')"
    unfolding decode_dxp_channel_stat_resp_def decode_encode_at_end[OF len] i bind.bind_lunit nums_def
    by (simp add: le_item_put le_item_put0) (simp add: at_end_def)
  have v: "dxp_view ?m' = dxp_view m"
    using assms by (simp add: m2_def dxp_view_def dxp_wf_def dxp_fits_def with_hdr_def min_def)
  show ?thesis by (rule tx_sentI, rule e, rule len, rule d) (simp add: m2_def same_hdr_def with_hdr_def, rule v)
qed

lemma dxp_keepalive_sent:
  assumes "um_req m = UMSG_DXP_CMD_KEEPALIVE"
  shows "tx_sent encode_dxp_channel_keepalive decode_dxp_channel_keepalive dxp_view m m0"
proof -
  let ?m1 = "m\<lparr>um_len := of_nat (32 + length ([] :: u8 list))\<rparr>"
  have e: "encode_dxp_channel_keepalive m = Some (0, encode_tx_hdr ?m1 @ [], ?m1)"
    using finish_tx_hdr[of m "[]"] by (simp add: encode_dxp_channel_keepalive_def)
  have d: "decode_tx_hdr (encode_tx_hdr ?m1 @ []) (of_nat (32 + length ([] :: u8 list))) m0 = Some (at_end [] (with_hdr ?m1 m0))"
    by (rule decode_encode_at_end) simp
  show ?thesis
    by (rule tx_sentI[where m' = "with_hdr ?m1 m0"], rule e)
      (use assms d[simplified] in \<open>simp_all add: decode_dxp_channel_keepalive_def dxp_view_def at_end_def\<close>)
qed

text \<open>The request that the decoder finds in the bytes is the one that was encoded.\<close>

lemmas dxp_encode_defs = encode_dxp_create_channel_uuid_def encode_dxp_channel_keepalive_def encode_dxp_channel_drop_def
  encode_dxp_channel_drop_resp_def encode_dxp_channel_stat_def encode_dxp_channel_stat_resp_def encode_dxp_start_work_def

lemmas dxp_decode_defs = decode_dxp_create_channel_uuid_def decode_dxp_channel_keepalive_def decode_dxp_channel_drop_def
  decode_dxp_channel_drop_resp_def decode_dxp_channel_stat_def decode_dxp_channel_stat_resp_def decode_dxp_start_work_def

lemma finish_tx_request:
  assumes "finish_tx (encode_tx_hdr m @ body) m = (rc, bs, m1)"
  shows "bs ! 0 = um_req m" "bs ! 1 = um_req_code m" "2 \<le> length bs"
  using assms unfolding finish_tx_hdr by (auto simp: encode_tx_hdr_def)

lemma umpk_encode_dxp_request:
  assumes "umpk_encode_dxp m = Some (0, bs, m1)"
  shows "bs ! 0 = um_req m \<and> bs ! 1 = um_req_code m \<and> 2 \<le> length bs"
proof -
  obtain body where "finish_tx (encode_tx_hdr m @ body) m = (0, bs, m1)"
    using assms by (auto simp: umpk_encode_dxp_def dxp_encode_defs split: if_splits bind_splits elim: that[of "[]", simplified])
  then show ?thesis using finish_tx_request by blast
qed

lemma decode_tx_hdr_request:
  "decode_tx_hdr p len (m\<lparr>um_req := a, um_req_code := b\<rparr>) = decode_tx_hdr p len m"
  by (simp add: decode_tx_hdr_def)

text \<open>Every message of the data channel initiator arrives: if the strings fit the arrays, the encoder of a
  known request returns 0, and the decoder returns 0 on the bytes, whatever request the receiving structure held
  before, with the header that was written, the same strings and the same numbers.\<close>

lemma dxp_roundtrip:
  assumes "dxp_wf m" "dxp_wf m0" "dxp_fits m"
    "um_req m \<in> {UMSG_DXP_CMD_KEEPALIVE, UMSG_DXP_CMD_DROP_CHANNEL, UMSG_DXP_CMD_DROP_CHANNEL_RESP, UMSG_DXP_CMD_START_WORK} \<or>
     um_req m = UMSG_DXP_CMD_CREATE_CHANNEL \<and> um_req_code m = UMSG_DXP_CODE_UUID \<or>
     um_req m = UMSG_DXP_CMD_STAT_CHANNEL \<and> um_req_code m \<in> {UMSG_DXP_CODE_NO, UMSG_DXP_CODE_STAT_RESP}"
  shows "tx_sent umpk_encode_dxp umpk_decode_dxp dxp_view m m0"
proof -
  have sent: "tx_sent umpk_encode_dxp umpk_decode_dxp dxp_view m m0"
    if "tx_sent enc dec dxp_view m m0" "umpk_encode_dxp m = enc m"
      "\<And>p len. p ! 0 = um_req m \<Longrightarrow> p ! 1 = um_req_code m \<Longrightarrow> 2 \<le> length p \<Longrightarrow> umpk_decode_dxp p len m0 = dec p len m0"
    for enc dec
    using that(1,2) by (rule tx_sent_via) (use that(2,3) umpk_encode_dxp_request in metis)
  note d = umpk_encode_dxp_def umpk_decode_dxp_def dxp_decode_defs decode_tx_hdr_request Let_def
  from assms(4) consider "um_req m = UMSG_DXP_CMD_KEEPALIVE" | "um_req m = UMSG_DXP_CMD_DROP_CHANNEL"
    | "um_req m = UMSG_DXP_CMD_DROP_CHANNEL_RESP" | "um_req m = UMSG_DXP_CMD_START_WORK"
    | "um_req m = UMSG_DXP_CMD_CREATE_CHANNEL" "um_req_code m = UMSG_DXP_CODE_UUID"
    | "um_req m = UMSG_DXP_CMD_STAT_CHANNEL" "um_req_code m = UMSG_DXP_CODE_NO"
    | "um_req m = UMSG_DXP_CMD_STAT_CHANNEL" "um_req_code m = UMSG_DXP_CODE_STAT_RESP" by blast
  then show ?thesis
  proof cases
    case 1
    show ?thesis by (rule sent[OF dxp_keepalive_sent[OF 1]]) (use 1 in \<open>simp_all add: d\<close>)
  next
    case 2
    show ?thesis by (rule sent[OF dxp_drop_sent[OF assms(1-3)]]) (use 2 in \<open>simp_all add: d\<close>)
  next
    case 3
    show ?thesis by (rule sent[OF dxp_drop_sent[OF assms(1-3)]]) (use 3 in \<open>simp_all add: d dxp_encode_defs\<close>)
  next
    case 4
    show ?thesis by (rule sent[OF dxp_uuid_sent[OF assms(1-3)]]) (use 4 in \<open>simp_all add: d dxp_encode_defs\<close>)
  next
    case 5
    show ?thesis by (rule sent[OF dxp_uuid_sent[OF assms(1-3)]]) (use 5 in \<open>simp_all add: d dxp_encode_defs\<close>)
  next
    case 6
    show ?thesis by (rule sent[OF dxp_uuid_sent[OF assms(1-3)]]) (use 6 in \<open>simp_all add: d dxp_encode_defs\<close>)
  next
    case 7
    show ?thesis by (rule sent[OF dxp_stat_resp_sent[OF assms(1-3) 7]]) (use 7 in \<open>simp_all add: d dxp_encode_defs\<close>)
  qed
qed

end
