(* ===== verification/Spec2Isabelle.thy ===== *)
theory Spec2Isabelle
  imports Dsmgr_Correct Bfe_Window Rtree_Limits Dsrec_Reclaim List_Sort Fpc Lck Cds_Run Pp_Run Umpk_Cxa Umpk_Cxp Umpk_Dxa Umpk_Dxp
begin

text \<open>
  This development models the storage and messaging core of the network block device under
  \<open>src/src/user\<close> and proves what its components promise. All paths below are relative to that
  directory.

  \<^bold>\<open>The program.\<close> A server exports block devices to agents over the network. Requests arrive through a ring
  buffer (\<open>cds.c\<close>) whose pages hold data until workers have consumed it. Data that is written stays in the pages
  of the write cache until the flush engine (\<open>cache/bfe-sync.c\<close>) has written it to the device below and the release engine
  (\<open>cache/bre.c\<close>) has given the pages back; the search engine (\<open>cache/bse.c\<close>) knows which bytes are cached, and answers reads from them. Data that goes through the
  read cache is kept on a cache device: the device space manager (\<open>cache/dsmgr.c\<close>) hands out extents
  of free blocks and takes them back, with the bitmap module (\<open>cache/dsbmp.c\<close>) as the address-ordered view of
  the same free space and two radix trees (\<open>rtree.c\<close>) as indexes; the reclaimer (\<open>cache/dsrec.c\<close>) keeps the
  cached blocks in recency lists and gives the cheapest ones back to the space manager. Nodes of all
  kinds come from node pools (\<open>mm/node.c\<close>), pages from the page pool (\<open>mm/pp.c\<close>) over the allocator
  (\<open>mm/allocator.c\<close>). Servers talk to each other over control and data channels with packed messages
  (\<open>umpk/\<close>, \<open>tx/tx_shared.c\<close>).

  \<^bold>\<open>Theories.\<close>
  \<^item> \<open>Nid_Prelude\<close>: the C integer types as words, \<open>assert\<close> and dereference in the option monad, the compiler
    built-ins, shared lemmas.
  \<^item> \<open>Node_Pool\<close>: \<open>mm/node.c\<close>. Segments, free list and counters. The locale \<open>node_allocator\<close> is what its clients
    rely on: a node that is handed out was free, and the nodes in use are known.
  \<^item> \<open>Rtree\<close>, \<open>Rtree_Inv\<close>, \<open>Rtree_Ops\<close>, \<open>Rtree_Limits\<close>: \<open>rtree.c\<close> and \<open>mm/rtn.c\<close>. Tree nodes live in an explicit heap with their
    parent pointers. A tree represents a finite map; insertion, both removals and all searches refine the
    operations of the map. The locales \<open>rtree_client\<close> and \<open>rtree_client_any\<close> hold what the tree relies on of the
    call-backs of its client.
  \<^item> \<open>Ds_Store\<close>: the memory that the space modules share, \<open>mm/brn.c\<close>, \<open>mm/blksn.c\<close>, the call-backs of both trees
    (with the interpretations of the two locales above) and positions in intrusive lists.
  \<^item> \<open>Bse_Store\<close>, \<open>Bfe\<close>, \<open>Bse\<close>: \<open>cache/bse.c\<close> with the nodes of \<open>mm/ddn.c\<close> and the slots of \<open>mm/btn.c\<close>, and the operations of
    \<open>cache/bfe-sync.c\<close> that it calls. A write cuts, splits and drops the nodes that it overlaps; a read copies from the
    pages or from the buffer device and lists what is missing.
  \<^item> \<open>Bfe_Books\<close>, \<open>Bse_Inv\<close>, \<open>Bse_Cut\<close>, \<open>Bse_Add\<close>, \<open>Bse_Find\<close>, \<open>Bse_Insert\<close>: the invariant \<open>bse_inv\<close> (the list sorted and disjoint, the
    radix tree in step with it, the byte counts of the pages balanced), the abstraction \<open>bse_at\<close> of a state to the map
    from offsets to the places of their bytes, and each step of a write.
  \<^item> \<open>Bse_Walk\<close>, \<open>Bse_Read\<close>, \<open>Bse_Correct\<close>: the search equals a plain loop (\<open>walk_range\<close>), writes refine the update of a map, and reads are exact.
  \<^item> \<open>Bfe_Flush\<close>: the flush thread and the operations of \<open>cache/bfe-sync.c\<close> around it, all of \<open>cache/bre.c\<close>, and the walks of
    \<open>cache/bse.c\<close> that the flush thread makes: collecting a page, the vectored write of a contiguous run, finishing a page, releasing it.
  \<^item> \<open>Bfe_Flow\<close>, \<open>Bfe_Extend\<close>, \<open>Bfe_Round\<close>, \<open>Bfe_Cache\<close>: the invariant \<open>flush_inv\<close> (a node marked as flushed has its bytes on the device below;
    what is to be flushed is on a flush list or with the flush thread), that the parts of a write keep it (\<open>flow\<close>), and the effect of each part of the flush
    thread and of the release.
  \<^item> \<open>Bfe_System\<close>, \<open>Bfe_Correct\<close>: serial histories of the threads. \<open>cache_step\<close> is a step of one of them, \<open>view\<close> the contents of the cache as an
    array of bytes. A sequence of steps that do not overlap refines that array, no step fails an assertion, the flush thread comes to an end and
    pages are released safely. A read by \<open>__bwc_do_read\<close> of \<open>cache/bwc.c\<close> that no other thread interrupts returns the array, within
    the preconditions of the search engine.
  \<^item> \<open>Bfe_Window\<close>: what goes wrong when threads run inside each other's steps: a read inside an insertion, a write inside a turn of the release thread.
  \<^item> \<open>Dsmgr_Pool\<close>, \<open>Dsbmp\<close>, \<open>Dsmgr\<close>, \<open>Dsmgr_Correct\<close>: \<open>cache/dsmgr.c\<close> and \<open>cache/dsbmp.c\<close>. The invariant \<open>ds_inv\<close> ties the
    size-ordered pool, the address-ordered list and both trees together; \<open>free_blocks\<close> is the abstraction of
    a state to the set of free blocks, and every operation is shown to change exactly that set.
  \<^item> \<open>List_Sort\<close>: \<open>list_sort.c\<close>, the bottom-up merge sort, equal to the stable sort of the library for every comparison
    that follows a key (locale \<open>list_order\<close>).
  \<^item> \<open>Dsrec\<close>, \<open>Dsrec_Reclaim\<close>: \<open>cache/dsrec.c\<close> and \<open>mm/cdn.c\<close>, eviction and the reclaim thread, which composes the
    sort with the space manager.
  \<^item> \<open>Fpc\<close>: \<open>hash.c\<close> and \<open>fpc.c\<close>. The digests of OpenSSL are a parameter, of which only the length is assumed.
  \<^item> \<open>Lck\<close>: \<open>lck.c\<close>, the upgradable read/write lock, as a state machine of threads that sleep on its condition
    variable.
  \<^item> \<open>Cds\<close>, \<open>Cds_Run\<close>: \<open>cds.c\<close>, the ring buffer, and its runs: one producer and one releasing thread, access by access, in any order.
  \<^item> \<open>Allocator\<close>, \<open>Pp\<close>, \<open>Pp_Inv\<close>, \<open>Pp_Run\<close>: \<open>mm/allocator.c\<close> and \<open>mm/pp.c\<close>. The locale \<open>block_store\<close> is the contract of the allocator, whose
    interpretations serve the page pool. \<open>Pp_Run\<close> is the pool under any number of threads, which may extend it at the same time.
  \<^item> \<open>Umpk_Tx\<close>, \<open>Umpk_Cxa\<close>, \<open>Umpk_Cxp\<close>, \<open>Umpk_Dxa\<close>, \<open>Umpk_Dxp\<close>: \<open>tx/tx_shared.c\<close> and the message codecs \<open>umpk/umpk_cxa.c\<close>, \<open>umpk_cxp.c\<close>,
    \<open>umpk_dxa.c\<close> and \<open>umpk_dxp.c\<close>, with the round trip of every request.
  \<^item> \<open>Spec2Isabelle\<close>, this theory: the properties of the space manager and of the tree as its clients see them.

  \<^bold>\<open>State and effects.\<close> A structure is a record, a \<open>list_head\<close> is the list of its entries, a pointer to a node is its
  address in an explicit memory. \<open>None\<close> is an abort: a failed assertion, a null or dangling pointer,
  an access outside an array. A mutex that is held for a whole operation makes it one function of the
  state; where a thread waits on a condition variable inside an operation, the operation is split there and the theory has a
  step relation over the parts. The write of a vector to the device below, which the flush thread makes after it has given its lock back, is part of the
  step that collects the vector: nothing that other threads do can change the vector, only the flush thread writes to the device, and pages are released only after it has
  finished. An insertion, a read and a turn of the release thread are one step each: here the model is coarser than the code, which gives its locks up inside them, and the
  theorems about the write cache as a whole hold for histories in which no two of these overlap. Integers keep their width wherever it matters (keys, hash values, sequence
  numbers, the reader count, message lengths); block numbers and sizes of the space manager are naturals, which the
  invariant bounds by the size of the device.

  \<^bold>\<open>Loops.\<close> Loops over a list are recursive functions. Loops whose end depends on the state are
  \<open>partial_function (option)\<close>, so that a loop that does not end is \<open>None\<close>; there is no fuel. Every theorem about them states that
  the result is \<open>Some\<close>: the loops of \<open>dsmgr_get_space\<close>, of the tree, of the reclaimer, of the page pool and of the
  decoders end under the stated conditions. \<open>pp_initialization_small_hangs\<close> shows when one does not.

  \<^bold>\<open>Deviations from the comments of the code.\<close> The theorems named here prove them:
  \<^item> \<open>initialization_ignores_bitmap\<close>: the scan at start takes every block for free.
  \<^item> \<open>get_space_stops_short\<close>: a request ends after the last extent of a size although smaller ones are free.
  \<^item> \<open>rtree_hint_insert_lost\<close>, \<open>rtree_insert_limit\<close>: the hinted insertion uses the key of the hint; keys from
    \<open>2 ^ 48\<close> on fail an assertion.
  \<^item> \<open>bse_beyond_lost\<close>: cached bytes behind the last slot of the tree are not found.
  \<^item> \<open>read_inside_insert\<close>: a read inside an insertion returns bytes older than a completed write.
  \<^item> \<open>release_race\<close>: a write inside a turn of the release thread makes that thread fail an assertion.
  \<^item> \<open>cds_get_after_stop\<close>: after a stop, the second call of \<open>cds_get_buffer\<close> hands out a page without a test.
  \<^item> \<open>flush_stop_stuck\<close>, \<open>flush_unlimited_aborts\<close>: a cache stopped with a page half full hangs; a flush limit of 0 aborts.
  \<^item> \<open>release_all_not_counted\<close>: pages released in sequence stay in the count.
  \<^item> \<open>dsrec_reclaim_never_joins\<close>: neighbouring blocks are given back one by one.
  \<^item> \<open>lck_rcounter_wraps\<close>: 65536 readers let a writer in.
  \<^item> \<open>pp_free_data_twice\<close>, \<open>pp_initialization_small_hangs\<close>: a page is freed twice; small pools hang at start.
  \<^item> \<open>cxp_drop_overflows\<close>: the request to drop a control channel overflows an array of its receiver.

  \<^bold>\<open>Not modelled.\<close> Interleavings of readers, the writer, the flush thread and the release thread inside an insertion, a read, a vectored write or
  a release turn (but for the two failures above), and several threads that release into one channel of the ring buffer at the same time. The iterator, the statistics and the closing of the radix tree, the traversal of the bitmap and the
  reports of the space manager to the management tools, which only read the state; logging and debug
  counters. The asynchronous flush engines, flushing through a read cache with finger prints, failing reads and writes of the device below (on which the flush
  engine aborts), the snapshots of the search engine (which the code
  does not search), the rest of the write caches (buffer device, recovery and response threads of \<open>cache/bwc.c\<close> and its parts, \<open>twc.c\<close>, \<open>wc.c\<close>), the read caches above the space
  manager (\<open>cache/crc.c\<close>, \<open>rc.c\<close>, \<open>cse.c\<close>, \<open>nse.c\<close>) and the service channels (\<open>scg.c\<close>, \<open>sac.c\<close>, \<open>sds.c\<close>, \<open>tx/\<close>), whose core is device and
  socket I/O in many threads; the codecs of the management messages, which repeat the field codecs of
  \<open>Umpk_Tx\<close> for other tables; the command-line tools and the kernel driver.
\<close>

section \<open>The device space manager\<close>

lemma ds_boot_take:
  obtains S xs S1 x where "ds_boot 128 = Some S" "ds_inv S" "free_blocks S = {..<128}"
    "dsmgr_get_space 10 [] S = Some (10, xs, S1)" "ds_inv S1" "granted S xs S1" "x \<in> set xs" "can_put S1 x"
proof -
  obtain S a where S: "ds_boot 128 = Some S" "ds_inv S" "free_blocks S = {..<128}" "held S = {}"
    "p_space_head S = [a]" "bsn_size (bsn S a) = 128" by (rule ds_boot_128)
  from dsmgr_get_space_spec[OF S(2), of 10 "[]"] S(5,6) obtain xs S1 where
    g: "dsmgr_get_space 10 [] S = Some (10, xs, S1)" "ds_inv S1" "granted S xs S1" "size_of S1 xs = 10" by auto
  then obtain x where x: "x \<in> set xs" by (cases xs) (auto simp: size_of_def)
  from that[OF S(1-3) g(1-3) x granted_can_put[OF S(2) g(3) x]] show ?thesis .
qed

text \<open>C4. \<open>dsmgr_get_space\<close> returns on every state that satisfies the invariant and keeps it. The
  nodes it appends to the output list are new to the caller, their extents are pairwise disjoint,
  lie in the free space and leave it, no extent held by another caller changes, and the size it
  reports is the sum of the sizes of the extents and at most the size asked for.\<close>

theorem get_space_sound:
  assumes "ds_inv S"
  shows "\<exists>g xs S'. dsmgr_get_space n out S = Some (g, out @ xs, S') \<and> ds_inv S' \<and>
    granted S xs S' \<and> size_of S' xs = g \<and> g \<le> n"
  using dsmgr_get_space_spec[OF assms, of n out] by blast

theorem get_space_sound_witness:
  "\<exists>S g xs S'. ds_boot 128 = Some S \<and> dsmgr_get_space 10 [] S = Some (g, xs, S') \<and> granted S xs S' \<and>
     size_of S' xs = g"
proof -
  obtain S a where S: "ds_boot 128 = Some S" "ds_inv S" by (rule ds_boot_128)
  from get_space_sound[OF S(2), of 10 "[]"] S(1) show ?thesis by auto
qed

text \<open>If some free extent has at least as many blocks as asked for, the request is granted in
  full.\<close>

lemma get_space_full:
  assumes "ds_inv S" and "a \<in> set (p_space_head S)" and "n \<le> bsn_size (bsn S a)"
  shows "\<exists>xs S'. dsmgr_get_space n out S = Some (n, out @ xs, S')"
  using dsmgr_get_space_spec[OF assms(1), of n out] assms(2,3) by blast

text \<open>C23. A request for at least one block gets at least one, unless no block is free.\<close>

theorem get_space_progress:
  assumes "ds_inv S" and "free_blocks S \<noteq> {}" and "0 < n"
  shows "\<exists>g xs S'. dsmgr_get_space n out S = Some (g, xs, S') \<and> 0 < g"
proof -
  have "p_space_head S \<noteq> []" using assms(2) by (auto simp: free_blocks_def)
  then show ?thesis using dsmgr_get_space_spec[OF assms(1), of n out] assms(3) by blast
qed

theorem get_space_progress_witness:
  "\<exists>S g xs S'. ds_boot 128 = Some S \<and> dsmgr_get_space 7 [] S = Some (g, xs, S') \<and> 0 < g"
proof -
  obtain S a where S: "ds_boot 128 = Some S" "ds_inv S" "free_blocks S = {..<128}" by (rule ds_boot_128)
  have "5 \<in> free_blocks S" unfolding S(3) by simp
  then have "free_blocks S \<noteq> {}" by blast
  from get_space_progress[OF S(2) this, of 7 "[]"] S(1) show ?thesis by auto
qed

text \<open>C5. \<open>dsmgr_put_space\<close> of an extent that the caller holds and that overlaps no free block keeps
  the invariant, so the free extents stay sorted and no two of them touch; it frees exactly the
  blocks of the extent, counts them, takes the node from the caller and leaves the other held
  extents alone.\<close>

theorem put_space_sound:
  assumes "ds_inv S" and "can_put S np"
  shows "\<exists>S'. dsmgr_put_space np S = Some S' \<and> ds_inv S' \<and>
    free_blocks S' = free_blocks S \<union> bsn_blocks S np \<and>
    p_num_free_blocks S' = p_num_free_blocks S + bsn_size (bsn S np) \<and>
    held S' = held S - {np} \<and>
    (\<forall>a \<in> held S - {np}. bsn_blocks S' a = bsn_blocks S a)"
  using dsmgr_put_space_spec[OF assms] by (auto simp: bsn_blocks_def bsn_end_def)

theorem put_space_sound_witness:
  "\<exists>S xs S1 x S2. ds_boot 128 = Some S \<and> dsmgr_get_space 10 [] S = Some (10, xs, S1) \<and> x \<in> set xs \<and>
     dsmgr_put_space x S1 = Some S2 \<and> free_blocks S2 = free_blocks S1 \<union> bsn_blocks S1 x"
proof -
  obtain S xs S1 x where S: "ds_boot 128 = Some S" "dsmgr_get_space 10 [] S = Some (10, xs, S1)" "ds_inv S1"
    "x \<in> set xs" "can_put S1 x" by (rule ds_boot_take)
  from put_space_sound[OF S(3,5)] obtain S2 where "dsmgr_put_space x S1 = Some S2"
    "free_blocks S2 = free_blocks S1 \<union> bsn_blocks S1 x" by (elim exE conjE) (rule that; assumption)
  with S(1,2,4) have "ds_boot 128 = Some S \<and> dsmgr_get_space 10 [] S = Some (10, xs, S1) \<and> x \<in> set xs \<and>
    dsmgr_put_space x S1 = Some S2 \<and> free_blocks S2 = free_blocks S1 \<union> bsn_blocks S1 x" by (intro conjI)
  then show ?thesis by (intro exI)
qed

text \<open>C6. Giving back everything a request was granted restores the set of free blocks, their
  count and the set of held nodes, whatever merging happens on the way.\<close>

theorem get_put_roundtrip:
  assumes "ds_inv S" and "dsmgr_get_space n [] S = Some (g, xs, S1)"
  shows "\<exists>S2. put_all xs S1 = Some S2 \<and> ds_inv S2 \<and> free_blocks S2 = free_blocks S \<and>
    p_num_free_blocks S2 = p_num_free_blocks S \<and> held S2 = held S"
  using get_put_all[OF assms] .

theorem get_put_roundtrip_witness:
  "\<exists>S xs S1 S2. ds_boot 128 = Some S \<and> dsmgr_get_space 10 [] S = Some (10, xs, S1) \<and>
     put_all xs S1 = Some S2 \<and> free_blocks S2 = {..<128}"
proof -
  obtain S xs S1 x where S: "ds_boot 128 = Some S" "ds_inv S" "free_blocks S = {..<128}"
    "dsmgr_get_space 10 [] S = Some (10, xs, S1)" by (rule ds_boot_take)
  from get_put_roundtrip[OF S(2,4)] S show ?thesis by auto
qed

text \<open>C22. Initialization returns a state that satisfies the invariant, for every device of at
  least one bitmap unit.\<close>

theorem initialization_sound:
  assumes "0 < n div 64" and "64 * (n div 64) \<le> DS_MAX_BLOCKS" and "pool_inv bp" and "pool_inv kp"
  shows "\<exists>S. dsmgr_initialization bp kp bmem kmem n bitmap = Some S \<and> ds_inv S \<and> held S = pool_used kp"
  using dsmgr_initialization_spec[OF assms] by blast

theorem initialization_sound_witness: "\<exists>S. ds_boot 1000 = Some S \<and> ds_inv S"
  using initialization_sound[of 1000 "node_initialization 0" "node_initialization 0" brn_mem0 bsn_mem0 "[]"]
  by (auto simp: DS_MAX_BLOCKS_def)

text \<open>The scan of the bitmap never looks at it: after initialization every block is free,
  whatever the bitmap says.\<close>

lemma initialization_ignores_bitmap:
  assumes "0 < n div 64" and "64 * (n div 64) \<le> DS_MAX_BLOCKS" and "pool_inv bp" and "pool_inv kp"
  shows "\<exists>S. dsmgr_initialization bp kp bmem kmem n bitmap = Some S \<and> free_blocks S = {..< 64 * (n div 64)}"
  using dsmgr_initialization_spec[OF assms] by blast

text \<open>A request of at least twice the largest size in use is granted one extent only when that
  size has one extent and there is no large extent, although the extents of all smaller sizes are
  still free.\<close>

lemma get_space_stops_short:
  assumes "ds_inv S" and "p_large_sp_head S = []" and "p_size_head S = ks @ [i]"
    and "p_sp_heads S i = [b]" and "2 * Suc i \<le> n"
  shows "\<exists>S'. dsmgr_get_space n out S = Some (Suc i, out @ [b], S') \<and>
    p_space_head S' = remove1 b (p_space_head S)"
  using get_space_drained[OF assms] .

section \<open>The radix tree\<close>

text \<open>C17. Inserting a new key into a tree that represents \<open>M\<close> returns the item and yields a tree that
  represents \<open>M\<close> with the key added; the parent pointers of all items are right again, and the
  rest of the bridge nodes is untouched. Keys are below \<open>2 ^ 48\<close>.\<close>

theorem rtree_insert_refines:
  assumes "rt_abs M (bn_parents s) t" and "unat key < 64 ^ 8" and "M (unat key) = None" and "x \<notin> ran M"
  shows "\<exists>t' s'. rtree_insert dsbmp_cb key x t s = Some (Item x, t', s') \<and>
    rt_abs (M(unat key \<mapsto> x)) (bn_parents s') t' \<and> bn_datas s' = bn_datas s \<and>
    (\<forall>y. y \<notin> insert x (ran M) \<longrightarrow> bn_parents s' y = bn_parents s y)"
  using bt.insert_abs[OF assms] .

theorem rtree_insert_refines_witness:
  "\<exists>t' s'. rtree_insert dsbmp_cb 5000 (Addr 1 2) rtree_initialization brn_mem0 = Some (Item (Addr 1 2), t', s') \<and>
     rt_abs [5000 \<mapsto> Addr 1 2] (bn_parents s') t'"
  using rtree_insert_refines[where s = brn_mem0 and key = 5000 and x = "Addr 1 2", OF rt_abs_init] by auto

lemma rt_one:
  obtains t s where "rtree_insert dsbmp_cb 5000 (Addr 1 2) rtree_initialization brn_mem0 = Some (Item (Addr 1 2), t, s)"
    "rt_abs [5000 \<mapsto> Addr 1 2] (bn_parents s) t"
  using bt.insert_abs[where s = brn_mem0 and key = 5000 and x = "Addr 1 2", OF rt_abs_init] by auto

text \<open>C18. Removing an item through its parent pointer empties its key and nothing else, whichever
  nodes are released and however far the tree shrinks.\<close>

theorem rtree_hint_remove_refines:
  assumes "rt_abs M (bn_parents s) t" and "M (unat key) = Some x"
  shows "\<exists>t' s'. rtree_hint_remove dsbmp_cb key x (bn_parents s x) t s = Some (Null, t', s') \<and>
    rt_abs (M(unat key := None)) (bn_parents s') t' \<and> bn_datas s' = bn_datas s \<and>
    (\<forall>y. y \<notin> ran M \<longrightarrow> bn_parents s' y = bn_parents s y)"
  using bt.hint_remove_abs[OF assms] .

theorem rtree_hint_remove_refines_witness:
  "\<exists>t s t' s'. rt_abs [5000 \<mapsto> Addr 1 2] (bn_parents s) t \<and>
     rtree_hint_remove dsbmp_cb 5000 (Addr 1 2) (bn_parents s (Addr 1 2)) t s = Some (Null, t', s') \<and>
     rt_abs Map.empty (bn_parents s') t'"
proof -
  obtain t s where t: "rt_abs [5000 \<mapsto> Addr 1 2] (bn_parents s) t" by (rule rt_one)
  from rtree_hint_remove_refines[OF t, of 5000 "Addr 1 2"] t show ?thesis by auto
qed

text \<open>C19. \<open>rtree_remove\<close> without an item, as the space manager calls it, returns what the key held
  and empties the key.\<close>

theorem rtree_remove_refines:
  assumes "rt_abs M (bn_parents s) t"
  shows "\<exists>t' s'. rtree_remove dsmgr_cb key None t s = Some (islot (M (unat key)), t', s') \<and>
    rt_abs (M(unat key := None)) (bn_parents s') t' \<and> bn_datas s' = bn_datas s"
  using mt.remove_abs[OF assms] by blast

theorem rtree_remove_refines_witness:
  "\<exists>t s t' s'. rtree_remove dsmgr_cb 5000 None t s = Some (Item (Addr 1 2), t', s') \<and>
     rt_abs Map.empty (bn_parents s') t'"
proof -
  obtain t s where t: "rt_abs [5000 \<mapsto> Addr 1 2] (bn_parents s) t" by (rule rt_one)
  from rtree_remove_refines[OF t, of 5000] show ?thesis by auto
qed

text \<open>C20. A search returns what the map holds at the key, for every 64-bit key; so does a hinted
  search from the leaf of any item of the tree.\<close>

theorem rtree_search_refines:
  assumes "rt_abs M (bn_parents s) t" and "M (unat hk) = Some y"
  shows "rtree_search t key = Some (islot (M (unat key))) \<and>
    rtree_hint_search t key hk (bn_parents s y) = Some (islot (M (unat key)))"
  using rt_abs_search[OF assms(1)] bt_hint_search[OF assms] by blast

theorem rtree_search_refines_witness:
  "\<exists>t s. rtree_search t 5000 = Some (Item (Addr 1 2)) \<and>
     rtree_hint_search t 77 5000 (bn_parents s (Addr 1 2)) = Some Null"
proof -
  obtain t s where t: "rt_abs [5000 \<mapsto> Addr 1 2] (bn_parents s) t" by (rule rt_one)
  have m: "[5000 \<mapsto> Addr 1 2] (unat (5000 :: u64)) = Some (Addr 1 2)" by simp
  from rtree_search_refines[OF t m, of 5000] rtree_search_refines[OF t m, of 77] show ?thesis by auto
qed

text \<open>C21. \<open>rtree_search_around\<close> returns the item at the key, or one that is nearest to it on one
  side: no key of the map lies between. It returns null only if all keys are on one side.\<close>

theorem rtree_search_around_nearest:
  assumes "rt_abs M par t"
  shows "\<exists>sl. rtree_search_around t key = Some sl \<and> rt_around M (unat key) sl"
  using rt_abs_search_around[OF assms] .

theorem rtree_search_around_nearest_witness:
  "\<exists>t sl. rtree_search_around t 77 = Some sl \<and> rt_around [5000 \<mapsto> Addr 1 2] 77 sl"
proof -
  obtain t s where t: "rt_abs [5000 \<mapsto> Addr 1 2] (bn_parents s) t" by (rule rt_one)
  from rtree_search_around_nearest[OF t, of 77] show ?thesis by auto
qed

text \<open>The height limit of 8 refuses every key from \<open>2 ^ 48\<close> on, although the table of heights
  covers all 64-bit keys: the insertion does not return.\<close>

lemma rtree_insert_limit:
  assumes "rt_abs M (bn_parents s) t" and "64 ^ 8 \<le> unat key"
  shows "rtree_insert dsbmp_cb key x t s = None"
  using bt_insert_limit[OF assms] .

text \<open>\<open>rtree_hint_insert\<close> of a key that shares its leaf with the hint looks at the slot of the
  hint: when the hint is an item of the tree, that item is returned and the new item is not
  inserted.\<close>

lemma rtree_hint_insert_lost:
  assumes "rt_abs M (bn_parents s) t" and "M (unat hk) = Some y" and "bn_parents s y = Some a"
    and "unat hk div 64 = unat key div 64"
  shows "\<exists>t'. rtree_hint_insert dsbmp_cb key x hk (Some a) t s = Some (Item y, t', s) \<and>
    rt_abs M (bn_parents s) t'"
  using bt_hint_insert_lost[OF assms] .

lemma rt_one_parent:
  assumes "rt_abs [5000 \<mapsto> Addr 1 2] (bn_parents s) t"
  shows "\<exists>a. bn_parents s (Addr 1 2) = Some a"
proof -
  from assms obtain L where rep: "rt_rep {} L [5000 \<mapsto> Addr 1 2] (bn_parents s) t" by (auto simp: rt_abs_def)
  have "r_height t \<noteq> 0" using rt_repD(4)[OF rep, of 0 5000] by (cases "r_height t") auto
  then show ?thesis using rt_repD(6)[OF rep, of 0 5000] rt_repD(12)[OF rep, of 5000 "Addr 1 2"] by auto
qed

end
